(* ===== verification/Prelude.thy ===== *)
theory Prelude
  imports "HOL-Library.Word" "HOL-Library.Multiset"
begin

text \<open>
  Generic material shared by the components: the vocabulary of addresses and sizes, the
  rounding operations of the source, list facts about indexed tables (update at a numeral
  index, swap-removal, first-match scans), and the collections of simplification rules the
  component theories extend.

  Addresses and sizes of the source are machine words (usize, 64 bits).  The model reads them as
  natural numbers below \<open>2 ^ 64\<close>; wherever the source can leave that range it uses
  checked_add and friends, and the model writes that check out (\<open>checked_add\<close>,
  \<open>checked_mul\<close> below).
\<close>

section \<open>Vocabulary\<close>

named_theorems const_simps "values of the source's numeric constants"
named_theorems table_simps "evaluation of the source's compile-time table loops"
named_theorems inv_intros "introduction rules for component invariants"

type_synonym addr = nat

definition USIZE_BITS :: nat where "USIZE_BITS = 64"

abbreviation (input) null :: addr where "null \<equiv> 0"

text \<open>usize arithmetic that reports overflow instead of wrapping.\<close>

definition checked_add :: "nat \<Rightarrow> nat \<Rightarrow> nat option" where
  "checked_add a b = (if a + b < 2 ^ USIZE_BITS then Some (a + b) else None)"

definition checked_mul :: "nat \<Rightarrow> nat \<Rightarrow> nat option" where
  "checked_mul a b = (if a * b < 2 ^ USIZE_BITS then Some (a * b) else None)"

lemma checked_add_Some [simp]:
  "checked_add a b = Some c \<longleftrightarrow> c = a + b \<and> a + b < 2 ^ USIZE_BITS"
  by (auto simp: checked_add_def)

lemma checked_mul_Some [simp]:
  "checked_mul a b = Some c \<longleftrightarrow> c = a * b \<and> a * b < 2 ^ USIZE_BITS"
  by (auto simp: checked_mul_def)

section \<open>Rounding\<close>

text \<open>
  \<open>v & !(a - 1)\<close> for a power of two \<open>a\<close>: the source writes it for addresses and for
  sizes.  On numbers it clears the remainder modulo \<open>a\<close>;
  \<open>unat_and_not_mask\<close> ties it to the bit operation on machine words.
\<close>

definition mask_down :: "nat \<Rightarrow> nat \<Rightarrow> nat" where
  "mask_down a v = v - v mod a"

lemma unat_and_not_mask:
  fixes w :: "64 word"
  shows "unat (and w (not (mask k))) = mask_down (2 ^ k) (unat w)"
proof -
  have e: "and w (not (mask k)) = push_bit k (drop_bit k w)"
    by (rule bit_eqI) (auto simp: bit_simps)
  have m: "mask_down (2 ^ k) (unat w) = unat w div 2 ^ k * 2 ^ k"
    by (simp add: mask_down_def minus_mod_eq_div_mult)
  have "unat w div 2 ^ k * 2 ^ k < 2 ^ 64"
    by (rule le_less_trans [OF div_times_less_eq_dividend]) (use unsigned_less [of w] in simp)
  moreover have "unat (push_bit k (drop_bit k w)) = take_bit 64 (push_bit k (drop_bit k (unat w)))"
    using unsigned_less [where ?'a = nat, of w]
    by (simp add: unsigned_push_bit_eq unsigned_drop_bit_eq take_bit_drop_bit take_bit_nat_eq_self)
  ultimately show ?thesis
    by (simp add: e m) (simp add: push_bit_eq_mult drop_bit_eq_div take_bit_eq_mod)
qed

lemma mask_down_dvd [simp, intro]: "a dvd mask_down a v"
  by (simp add: mask_down_def dvd_minus_mod)

lemma mask_down_le [simp, intro]: "mask_down a v \<le> v"
  by (simp add: mask_down_def)

lemma mask_down_less: "0 < a \<Longrightarrow> v < mask_down a v + a"
  using mod_less_divisor [of a v] mod_less_eq_dividend [of v a]
  unfolding mask_down_def by linarith

lemma mask_down_unique:
  assumes "a dvd b" "b \<le> v" "v < b + a"
  shows "mask_down a v = b"
proof -
  obtain k where k: "b = a * k" using assms(1) by (auto elim: dvdE)
  have "v mod a = v - b"
    using assms k by (metis add.commute le_add_diff_inverse2 less_diff_conv2 mod_less mod_mult_self2)
  then show ?thesis using assms(2) by (simp add: mask_down_def)
qed

lemma mask_down_bounds:
  "0 < a \<Longrightarrow> mask_down a (v + (a - 1)) \<ge> v"
  "0 < a \<Longrightarrow> mask_down a (v + (a - 1)) < v + a"
  using mask_down_less [of a "v + (a - 1)"] mask_down_le [of a "v + (a - 1)"] by linarith+

section \<open>Indexed tables\<close>

text \<open>The source's arrays are lists here; these rules evaluate updates at literal indices.\<close>

lemma list_update_numeral [table_simps]: "(x # xs)[numeral n := y] = x # xs[pred_numeral n := y]"
  by (simp add: numeral_eq_Suc)

lemma replicate_numeral_Cons [table_simps]:
  "replicate (numeral k) x = x # replicate (pred_numeral k) x"
  by (simp add: numeral_eq_Suc)

lemmas [table_simps] = Let_def mask_down_def

text \<open>
  The linear scan the source writes three times (\<open>class_for_size_scan\<close>, \<open>medium_scan\<close>,
  \<open>big_scan\<close>): the first of the entries \<open>i .. lst - 1\<close> that is at least \<open>sz\<close>,
  and \<open>lst\<close> when there is none.
\<close>

function scan_table :: "nat list \<Rightarrow> nat \<Rightarrow> nat \<Rightarrow> nat \<Rightarrow> nat" where
  "scan_table tbl lst i sz =
     (if i < lst then (if tbl ! i \<ge> sz then i else scan_table tbl lst (i + 1) sz) else lst)"
  by pat_completeness auto
termination by (relation "measure (\<lambda>(_, lst, i, _). lst - i)") auto

declare scan_table.simps [simp del]

lemma scan_table_bounds: "i \<le> lst \<Longrightarrow> i \<le> scan_table tbl lst i sz \<and> scan_table tbl lst i sz \<le> lst"
proof (induction tbl lst i sz rule: scan_table.induct)
  case (1 tbl lst i sz)
  then show ?case by (subst (1 2) scan_table.simps) auto
qed

lemma scan_table_before: "i \<le> j \<Longrightarrow> j < scan_table tbl lst i sz \<Longrightarrow> tbl ! j < sz"
proof (induction tbl lst i sz rule: scan_table.induct)
  case (1 tbl lst i sz)
  show ?case
  proof (cases "i < lst \<and> tbl ! i < sz")
    case True
    then show ?thesis using 1 by (cases "i = j") (auto simp: scan_table.simps [of tbl lst i])
  next
    case False
    then show ?thesis using 1(2,3) by (auto simp: scan_table.simps [of tbl lst i] split: if_splits)
  qed
qed

lemma scan_table_hit: "scan_table tbl lst i sz < lst \<Longrightarrow> sz \<le> tbl ! scan_table tbl lst i sz"
proof (induction tbl lst i sz rule: scan_table.induct)
  case (1 tbl lst i sz)
  then show ?case by (auto simp: scan_table.simps [of tbl lst i] split: if_splits)
qed

section \<open>Fixed-width counters\<close>

text \<open>
  The counters of headers and lists are 16-bit and 32-bit fields; in a release build
  they wrap.  \<open>add_w\<close> and \<open>sub_w\<close> are addition and subtraction at a width; the rules
  say when they are the ordinary ones.
\<close>

definition add_w :: "nat \<Rightarrow> nat \<Rightarrow> nat \<Rightarrow> nat" where
  "add_w w a b = (a + b) mod 2 ^ w"

definition sub_w :: "nat \<Rightarrow> nat \<Rightarrow> nat \<Rightarrow> nat" where
  "sub_w w a b = (a + 2 ^ w - b mod 2 ^ w) mod 2 ^ w"

lemma add_w_exact [simp]: "a + b < 2 ^ w \<Longrightarrow> add_w w a b = a + b"
  by (simp add: add_w_def)

lemma sub_w_exact [simp]:
  assumes "b \<le> a" "a < 2 ^ w"
  shows "sub_w w a b = a - b"
proof -
  obtain d where "a = b + d" using assms(1) by (auto simp: le_iff_add)
  then show ?thesis using assms by (simp add: sub_w_def)
qed

section \<open>Lists\<close>

text \<open>Removing an entry of an unordered array by moving the last one into its place.\<close>

definition swap_remove :: "'a list \<Rightarrow> nat \<Rightarrow> 'a list" where
  "swap_remove xs i = (if i < length xs then butlast (xs[i := last xs]) else xs)"

lemma length_swap_remove [simp]: "i < length xs \<Longrightarrow> length (swap_remove xs i) = length xs - 1"
  by (simp add: swap_remove_def)

lemma mset_swap_remove:
  assumes "i < length xs"
  shows "mset (swap_remove xs i) = mset xs - {# xs ! i #}"
proof -
  have ne: "xs[i := last xs] \<noteq> []" using assms by auto
  have l: "last (xs[i := last xs]) = last xs"
    using assms by (subst last_list_update) auto
  have "mset (xs[i := last xs]) = add_mset (last xs) (mset (swap_remove xs i))"
  proof -
    have "xs[i := last xs] = swap_remove xs i @ [last xs]"
      using append_butlast_last_id [OF ne] l assms by (simp add: swap_remove_def)
    then show ?thesis by simp
  qed
  moreover have "mset (xs[i := last xs]) = add_mset (last xs) (mset xs - {# xs ! i #})"
    using assms by (simp add: mset_update)
  ultimately show ?thesis by simp
qed

lemma mset_swap_remove_Cons:
  "i < length xs \<Longrightarrow> mset xs = add_mset (xs ! i) (mset (swap_remove xs i))"
  by (simp add: mset_swap_remove)

lemma set_swap_remove_subset: "set (swap_remove xs i) \<subseteq> set xs"
proof (cases "i < length xs")
  case True
  then show ?thesis using mset_swap_remove_Cons [OF True]
    by (metis set_mset_add_mset_insert set_mset_mset subset_insertI)
qed (simp add: swap_remove_def)

lemma sum_list_swap_remove:
  fixes f :: "'a \<Rightarrow> nat"
  assumes "i < length xs"
  shows "sum_list (map f xs) = f (xs ! i) + sum_list (map f (swap_remove xs i))"
proof -
  have "sum_mset (image_mset f (mset xs))
      = sum_mset (image_mset f (add_mset (xs ! i) (mset (swap_remove xs i))))"
    using mset_swap_remove_Cons [OF assms] by simp
  then show ?thesis by (simp flip: sum_mset_sum_list mset_map)
qed

text \<open>The same removal on an array of which only the first \<open>l\<close> entries are in use.\<close>

lemma take_swap_remove:
  assumes "i < l" "l \<le> length es"
  shows "take (l - 1) (es[i := es ! (l - 1), l - 1 := z]) = swap_remove (take l es) i"
proof -
  have "last (take l es) = es ! (l - 1)"
    using assms by (subst last_conv_nth) (auto simp: min_def)
  then show ?thesis
    using assms by (simp add: swap_remove_def butlast_conv_take take_update_swap min_def)
      (simp add: list_eq_iff_nth_eq nth_list_update)
qed

lemma sum_list_update_nat:
  fixes f :: "'a \<Rightarrow> nat"
  assumes "i < length xs"
  shows "sum_list (map f (xs[i := y])) + f (xs ! i) = sum_list (map f xs) + f y"
  using assms by (induction xs arbitrary: i) (auto split: nat.splits)

end
