(* ===== verification/Free_List.thy ===== *)
theory Free_List
  imports Prelude
begin

text \<open>
  The intrusive free list of \<open>src/src/page.rs\<close>: a free block's first word holds the address of
  the next free block.  The memory the list runs through is explicit, \<open>cells\<close>, one machine word
  per block address; \<open>chain\<close> relates a head to the blocks it leads to.  The locale
  \<open>block_stack\<close> is the interface the page, span and thread-cache code relies on.
\<close>

type_synonym cells = "addr \<Rightarrow> addr"

section \<open>Operations\<close>

definition push_block :: "cells \<times> addr \<Rightarrow> addr \<Rightarrow> cells \<times> addr" where
  "push_block s b = (let (m, head) = s in (m(b := head), b))"

definition pop_block :: "cells \<times> addr \<Rightarrow> addr option \<times> (cells \<times> addr)" where
  "pop_block s = (let (m, b) = s in if b = null then (None, (m, b)) else (Some b, (m, m b)))"

section \<open>Chains\<close>

fun chain :: "cells \<Rightarrow> addr \<Rightarrow> addr list \<Rightarrow> bool" where
  "chain m h [] = (h = null)"
| "chain m h (x # xs) = (h = x \<and> x \<noteq> null \<and> chain m (m x) xs)"

lemma chain_null [simp]: "chain m 0 xs \<longleftrightarrow> xs = []"
  by (cases xs) auto

lemma chain_nonnull: "h \<noteq> 0 \<Longrightarrow> chain m h xs \<longleftrightarrow> (\<exists>ys. xs = h # ys \<and> chain m (m h) ys)"
  by (cases xs) auto

lemma chain_upd [simp]: "b \<notin> set xs \<Longrightarrow> chain (m(b := v)) h xs = chain m h xs"
  by (induction xs arbitrary: h) auto

lemma chain_cong: "(\<And>b. b \<in> set xs \<Longrightarrow> m b = m' b) \<Longrightarrow> chain m h xs = chain m' h xs"
  by (induction xs arbitrary: h) auto

lemma chain_unique: "chain m h xs \<Longrightarrow> chain m h ys \<Longrightarrow> xs = ys"
proof (induction xs arbitrary: h ys)
  case (Cons a xs)
  then show ?case by (cases ys) auto
qed auto

lemma chain_not_null: "chain m h xs \<Longrightarrow> b \<in> set xs \<Longrightarrow> b \<noteq> 0"
  by (induction xs arbitrary: h) auto

text \<open>A chain whose last link is redirected to another chain is the concatenation.\<close>

lemma chain_splice:
  assumes "chain m h (xs @ [t])" "chain m h' ys" "distinct (xs @ [t])" "set (xs @ [t]) \<inter> set ys = {}"
  shows "chain (m(t := h')) h ((xs @ [t]) @ ys)"
  using assms
proof (induction xs arbitrary: h)
  case (Cons a xs)
  then show ?case by auto
qed auto

lemma chain_append_cases:
  "chain m h (xs @ ys) \<Longrightarrow> \<exists>h'. chain m h' ys"
  by (induction xs arbitrary: h) auto

lemma chain_last_null: "chain m ch bs \<Longrightarrow> bs \<noteq> [] \<Longrightarrow> m (last bs) = 0"
  by (induction bs arbitrary: ch) auto

section \<open>The interface\<close>

locale block_stack =
  fixes push :: "'s \<Rightarrow> addr \<Rightarrow> 's"
    and pop :: "'s \<Rightarrow> addr option \<times> 's"
    and holds :: "'s \<Rightarrow> addr list \<Rightarrow> bool"
  assumes push_law: "holds s xs \<Longrightarrow> b \<noteq> 0 \<Longrightarrow> b \<notin> set xs \<Longrightarrow> holds (push s b) (b # xs)"
    and pop_empty: "holds s [] \<Longrightarrow> pop s = (None, s)"
    and pop_Cons: "holds s (b # xs) \<Longrightarrow> \<exists>s'. pop s = (Some b, s') \<and> holds s' xs"
    and holds_unique: "holds s xs \<Longrightarrow> holds s ys \<Longrightarrow> xs = ys"
begin

fun pops :: "nat \<Rightarrow> 's \<Rightarrow> addr list \<times> 's" where
  "pops 0 s = ([], s)"
| "pops (Suc n) s =
     (case pop s of
        (None, s') \<Rightarrow> ([], s')
      | (Some b, s') \<Rightarrow> (let (bs, s'') = pops n s' in (b # bs, s'')))"

lemma pop_cases:
  assumes "holds s xs"
  obtains "xs = []" "pop s = (None, s)"
  | b ys s' where "xs = b # ys" "pop s = (Some b, s')" "holds s' ys"
proof (cases xs)
  case Nil
  then show thesis using assms pop_empty that(1) by simp
next
  case (Cons b ys)
  then obtain s' where "pop s = (Some b, s')" "holds s' ys" using assms pop_Cons by blast
  then show thesis using Cons that(2) by simp
qed

lemma pops_take:
  "holds s xs \<Longrightarrow> \<exists>s'. pops n s = (take n xs, s') \<and> holds s' (drop n xs)"
proof (induction n arbitrary: s xs)
  case (Suc n)
  show ?case
  proof (cases rule: pop_cases [OF Suc.prems])
    case (2 b ys s')
    then obtain s'' where "pops n s' = (take n ys, s'')" "holds s'' (drop n ys)"
      using Suc.IH by blast
    then show ?thesis using 2 by simp
  qed (use Suc.prems in simp)
qed simp

lemma push_all:
  assumes "holds s xs" "distinct bs" "set bs \<inter> set xs = {}" "0 \<notin> set bs"
  shows "holds (foldl push s bs) (rev bs @ xs)"
  using assms
proof (induction bs arbitrary: s xs)
  case (Cons b bs)
  then have "holds (push s b) (b # xs)" by (intro push_law) auto
  then have "holds (foldl push (push s b) bs) (rev bs @ b # xs)"
    by (rule Cons.IH) (use Cons.prems in auto)
  then show ?case by simp
qed simp

text \<open>Blocks come back in the opposite order, and the stack is as before.\<close>

lemma push_pops_roundtrip:
  assumes "holds s xs" "distinct bs" "set bs \<inter> set xs = {}" "0 \<notin> set bs"
  shows "\<exists>s'. pops (length bs) (foldl push s bs) = (rev bs, s') \<and> holds s' xs"
  using pops_take [OF push_all [OF assms], of "length bs"] by simp

end

text \<open>The heap's intrusive lists implement the interface.\<close>

abbreviation stack_holds :: "cells \<times> addr \<Rightarrow> addr list \<Rightarrow> bool" where
  "stack_holds s xs \<equiv> chain (fst s) (snd s) xs"

interpretation fl: block_stack push_block pop_block stack_holds
  by unfold_locales (auto simp: push_block_def pop_block_def Let_def split: prod.splits
      dest: chain_unique)

end
