(* ===== verification/Size_Classes.thy ===== *)
theory Size_Classes
  imports Prelude
begin

text \<open>
  \<open>src/src/classes.rs\<close>: the three tables of block sizes (small, medium, big), the loops that
  build them at compile time, the direct-mapped lookup tables and the lookup functions.

  Every loop of the file is translated as a recursion with the loop's own exit conditions; the
  tables are its results, so nothing about them is assumed.  The locale \<open>size_table\<close> states
  what a table and its lookup owe the allocator; it is interpreted on the three tables, and its
  lemmas (the lookup returns the smallest fitting class, with at most an eighth plus 15 bytes of
  slack) are then facts of the code's model.
\<close>

section \<open>The small table\<close>

definition MIN_ALIGN :: nat where [const_simps]: "MIN_ALIGN = 16"
definition MAX_SMALL_SIZE :: nat where [const_simps]: "MAX_SMALL_SIZE = 16 * 1024"
definition NUM_CLASSES :: nat where [const_simps]: "NUM_CLASSES = 64"
definition PAGE_SIZE :: nat where [const_simps]: "PAGE_SIZE = 2 ^ 16"
definition SPAN_SUB_SIZE :: nat where [const_simps]: "SPAN_SUB_SIZE = 16"

function build_classes_loop :: "nat \<Rightarrow> nat \<Rightarrow> nat list \<Rightarrow> nat list" where
  "build_classes_loop i sz table =
     (if i < NUM_CLASSES then
        let table' = table[i := sz] in
        if sz \<ge> MAX_SMALL_SIZE then table'
        else
          let sz' = mask_down 16 ((sz * 9 + 7) div 8 + 15);
              sz'' = (if sz' > MAX_SMALL_SIZE then MAX_SMALL_SIZE else sz')
          in build_classes_loop (i + 1) sz'' table'
      else table)"
  by pat_completeness auto
termination by (relation "measure (\<lambda>(i, _, _). NUM_CLASSES - i)") auto

declare build_classes_loop.simps [simp del]

definition build_classes :: "nat list" where
  "build_classes = build_classes_loop 0 MIN_ALIGN (replicate NUM_CLASSES MAX_SMALL_SIZE)"

definition CLASSES :: "nat list" where "CLASSES = build_classes"

text \<open>\<open>CLASSES_RUNTIME\<close> is the same table in a static.\<close>

definition class_for_size_scan :: "nat \<Rightarrow> nat" where
  "class_for_size_scan sz = scan_table CLASSES (NUM_CLASSES - 1) 0 sz"

text \<open>The entries are stored as bytes (\<open>as u8\<close>).\<close>

definition build_lut :: "nat list" where
  "build_lut = map (\<lambda>q. class_for_size_scan (q * MIN_ALIGN) mod 256)
                   [0..<MAX_SMALL_SIZE div MIN_ALIGN + 1]"

definition class_for_size :: "nat \<Rightarrow> nat" where
  "class_for_size sz =
     (if sz \<le> MAX_SMALL_SIZE
      then and (build_lut ! ((sz + MIN_ALIGN - 1) div MIN_ALIGN)) (NUM_CLASSES - 1)
      else NUM_CLASSES - 1)"

section \<open>The medium table\<close>

definition MEDIUM_CHUNK_RESERVE :: nat where [const_simps]: "MEDIUM_CHUNK_RESERVE = 64"
definition MEDIUM_BLOCK_CAP :: nat where
  [const_simps]: "MEDIUM_BLOCK_CAP = 65536 - MEDIUM_CHUNK_RESERVE"
definition TOP_MEDIUM_BLOCK :: nat where
  [const_simps]: "TOP_MEDIUM_BLOCK = 65536 - MEDIUM_CHUNK_RESERVE"
definition TARGET_BLOCKS_PER_SPAN :: nat where [const_simps]: "TARGET_BLOCKS_PER_SPAN = 8"

definition medium_step :: "nat \<Rightarrow> nat" where
  "medium_step sz = (let grown = (sz * 9 + 7) div 8 in mask_down 16 (grown + 15))"

text \<open>
  The counting loop shared by \<open>count_medium\<close> and \<open>count_big\<close>, and the loop that keeps the
  last value of the chain, shared by \<open>geo_last_medium\<close> and the initialiser of \<open>NUM_BIG\<close>;
  they differ only in the cap and the first value.
\<close>

function count_steps :: "nat \<Rightarrow> nat \<Rightarrow> nat \<Rightarrow> nat" where
  "count_steps cap n sz =
     (if sz \<le> cap then
        let n' = n + 1; next = medium_step sz in
        if next \<le> sz then n' else count_steps cap n' next
      else n)"
  by pat_completeness auto
termination by (relation "measure (\<lambda>(cap, _, sz). cap + 1 - sz)") auto

function last_step :: "nat \<Rightarrow> nat \<Rightarrow> nat \<Rightarrow> nat" where
  "last_step cap lst sz =
     (if sz \<le> cap then
        let lst' = sz; next = medium_step sz in
        if next \<le> sz then lst' else last_step cap lst' next
      else lst)"
  by pat_completeness auto
termination by (relation "measure (\<lambda>(cap, _, sz). cap + 1 - sz)") auto

declare count_steps.simps [simp del] last_step.simps [simp del]

definition count_medium :: nat where
  "count_medium = count_steps MEDIUM_BLOCK_CAP 0 (medium_step MAX_SMALL_SIZE)"

definition geo_last_medium :: nat where
  "geo_last_medium = (let sz = medium_step MAX_SMALL_SIZE in last_step MEDIUM_BLOCK_CAP sz sz)"

definition NUM_MEDIUM :: nat where
  "NUM_MEDIUM = (if geo_last_medium < TOP_MEDIUM_BLOCK then count_medium + 1 else count_medium)"

function build_steps_loop :: "nat \<Rightarrow> nat \<Rightarrow> nat \<Rightarrow> nat \<Rightarrow> nat list \<Rightarrow> nat \<times> nat list" where
  "build_steps_loop num cap i sz table =
     (if i < num \<and> sz \<le> cap
      then build_steps_loop num cap (i + 1) (medium_step sz) (table[i := sz])
      else (i, table))"
  by pat_completeness auto
termination by (relation "measure (\<lambda>(num, _, i, _, _). num - i)") auto

declare build_steps_loop.simps [simp del]

definition build_medium :: "nat list" where
  "build_medium =
     (let (i, table) = build_steps_loop NUM_MEDIUM MEDIUM_BLOCK_CAP 0 (medium_step MAX_SMALL_SIZE)
                         (replicate NUM_MEDIUM 0)
      in if i < NUM_MEDIUM then table[i := TOP_MEDIUM_BLOCK] else table)"

definition MEDIUM_CLASSES :: "nat list" where "MEDIUM_CLASSES = build_medium"

definition MAX_MEDIUM_BLOCK :: nat where "MAX_MEDIUM_BLOCK = MEDIUM_CLASSES ! (NUM_MEDIUM - 1)"

definition medium_capacity_legacy_for :: "nat \<Rightarrow> nat \<Rightarrow> nat" where
  "medium_capacity_legacy_for block pages =
     (if pages = 0 then 0
      else (PAGE_SIZE - MEDIUM_CHUNK_RESERVE) div block
           + (pages - 1) * ((PAGE_SIZE - SPAN_SUB_SIZE) div block))"

definition medium_capacity_for :: "nat \<Rightarrow> nat \<Rightarrow> nat" where
  "medium_capacity_for block pages =
     (if pages = 0 then 0 else (pages * PAGE_SIZE - MEDIUM_CHUNK_RESERVE) div block)"

text \<open>
  The loop of \<open>span_pages_for\<close> counts pages up until the capacity reaches the target.  For a
  block of size zero the source divides by zero and traps: that is \<open>None\<close> here.
\<close>

function span_pages_loop :: "nat \<Rightarrow> nat \<Rightarrow> nat option" where
  "span_pages_loop block pages =
     (if block = 0 then None
      else if medium_capacity_for block pages < TARGET_BLOCKS_PER_SPAN
      then span_pages_loop block (pages + 1)
      else Some pages)"
  by pat_completeness auto

lemma small_capacity_few_pages:
  assumes "0 < block" "medium_capacity_for block pages < TARGET_BLOCKS_PER_SPAN"
  shows "pages < 8 * block + 64"
proof (cases "pages = 0")
  case False
  then have "pages * 65536 - 64 < 8 * block"
    using assms by (simp add: medium_capacity_for_def const_simps div_less_iff_less_mult split: if_splits)
  then show ?thesis using False by linarith
qed (use assms in simp)

termination span_pages_loop
  by (relation "measure (\<lambda>(block, pages). 8 * block + 64 - pages)")
     (auto dest!: small_capacity_few_pages)

declare span_pages_loop.simps [simp del]

definition span_pages_for :: "nat \<Rightarrow> nat option" where
  "span_pages_for block = span_pages_loop block 1"

definition MEDIUM_LUT_LEN :: nat where
  "MEDIUM_LUT_LEN = (MAX_MEDIUM_BLOCK - MAX_SMALL_SIZE) div MIN_ALIGN"

definition medium_scan :: "nat \<Rightarrow> nat" where
  "medium_scan sz = scan_table MEDIUM_CLASSES (NUM_MEDIUM - 1) 0 sz"

definition build_medium_lut :: "nat list" where
  "build_medium_lut = map (\<lambda>q. medium_scan (MAX_SMALL_SIZE + 1 + q * MIN_ALIGN) mod 256)
                          [0..<MEDIUM_LUT_LEN + 1]"

definition medium_class_for_size :: "nat \<Rightarrow> nat" where
  "medium_class_for_size sz =
     (if sz \<le> MAX_SMALL_SIZE \<or> sz > MAX_MEDIUM_BLOCK then NUM_MEDIUM - 1
      else build_medium_lut ! ((sz - MAX_SMALL_SIZE - 1) div MIN_ALIGN))"

section \<open>The big table\<close>

definition BIG_MASTER_RESERVE :: nat where [const_simps]: "BIG_MASTER_RESERVE = 64"
definition BIG_BLOCK_CAP :: nat where [const_simps]: "BIG_BLOCK_CAP = 1048576"
definition TARGET_BLOCKS_PER_BIG_SPAN :: nat where [const_simps]: "TARGET_BLOCKS_PER_BIG_SPAN = 8"

definition count_big :: nat where
  "count_big = count_steps BIG_BLOCK_CAP 0 (medium_step MAX_MEDIUM_BLOCK)"

definition NUM_BIG :: nat where
  "NUM_BIG =
     (let sz = medium_step MAX_MEDIUM_BLOCK;
          lst = last_step BIG_BLOCK_CAP sz sz
      in if lst < BIG_BLOCK_CAP then count_big + 1 else count_big)"

definition build_big :: "nat list" where
  "build_big =
     (let (i, table) = build_steps_loop NUM_BIG BIG_BLOCK_CAP 0 (medium_step MAX_MEDIUM_BLOCK)
                         (replicate NUM_BIG 0)
      in if i < NUM_BIG then table[i := BIG_BLOCK_CAP] else table)"

definition BIG_CLASSES :: "nat list" where "BIG_CLASSES = build_big"

definition MAX_BIG_BLOCK :: nat where "MAX_BIG_BLOCK = BIG_CLASSES ! (NUM_BIG - 1)"

definition big_span_pages_for :: "nat \<Rightarrow> nat" where
  "big_span_pages_for block =
     (let need = BIG_MASTER_RESERVE + TARGET_BLOCKS_PER_BIG_SPAN * block
      in (need + 65536 - 1) div 65536)"

definition BIG_LUT_LEN :: nat where
  "BIG_LUT_LEN = (MAX_BIG_BLOCK - MAX_MEDIUM_BLOCK) div MIN_ALIGN"

definition big_scan :: "nat \<Rightarrow> nat" where
  "big_scan sz = scan_table BIG_CLASSES (NUM_BIG - 1) 0 sz"

definition build_big_lut :: "nat list" where
  "build_big_lut = map (\<lambda>q. big_scan (MAX_MEDIUM_BLOCK + 1 + q * MIN_ALIGN) mod 256)
                       [0..<BIG_LUT_LEN + 1]"

definition big_class_for_size :: "nat \<Rightarrow> nat" where
  "big_class_for_size sz =
     (if sz \<le> MAX_MEDIUM_BLOCK \<or> sz > MAX_BIG_BLOCK then NUM_BIG - 1
      else build_big_lut ! ((sz - MAX_MEDIUM_BLOCK - 1) div MIN_ALIGN))"

section \<open>The tables' values\<close>

lemma CLASSES_eq:
  "CLASSES = [16, 32, 48, 64, 80, 96, 112, 128, 144, 176, 208, 240, 272, 320, 368, 416, 480, 544,
     624, 704, 800, 912, 1040, 1184, 1344, 1520, 1712, 1936, 2192, 2480, 2800, 3152, 3552, 4000,
     4512, 5088, 5728, 6448, 7264, 8176, 9200, 10352, 11648, 13104, 14752, 16384, 16384, 16384,
     16384, 16384, 16384, 16384, 16384, 16384, 16384, 16384, 16384, 16384, 16384, 16384, 16384,
     16384, 16384, 16384]"
  by (simp add: CLASSES_def build_classes_def build_classes_loop.simps const_simps table_simps)

lemma NUM_MEDIUM_eq [const_simps]: "NUM_MEDIUM = 12"
  by (simp add: NUM_MEDIUM_def geo_last_medium_def count_medium_def last_step.simps
      count_steps.simps medium_step_def const_simps table_simps)

lemma MEDIUM_CLASSES_eq:
  "MEDIUM_CLASSES = [18432, 20736, 23328, 26256, 29552, 33248, 37408, 42096, 47360, 53280, 59952,
     65472]"
  by (simp add: MEDIUM_CLASSES_def build_medium_def build_steps_loop.simps medium_step_def
      const_simps table_simps)

lemma MAX_MEDIUM_BLOCK_eq [const_simps]: "MAX_MEDIUM_BLOCK = 65472"
  by (simp add: MAX_MEDIUM_BLOCK_def MEDIUM_CLASSES_eq const_simps)

lemma NUM_BIG_eq [const_simps]: "NUM_BIG = 24"
  by (simp add: NUM_BIG_def count_big_def last_step.simps count_steps.simps medium_step_def
      const_simps table_simps)

lemma BIG_CLASSES_eq:
  "BIG_CLASSES = [73664, 82880, 93248, 104912, 118032, 132800, 149408, 168096, 189120, 212768, 239376,
     269312, 302976, 340848, 383456, 431392, 485328, 546000, 614256, 691040, 777424,
     874608, 983936, 1048576]"
  by (simp add: BIG_CLASSES_def build_big_def build_steps_loop.simps medium_step_def
      const_simps table_simps)

lemma MAX_BIG_BLOCK_eq [const_simps]: "MAX_BIG_BLOCK = 1048576"
  by (simp add: MAX_BIG_BLOCK_def BIG_CLASSES_eq const_simps)

section \<open>The interface of a size table\<close>

text \<open>
  A table \<open>tbl\<close> for the sizes above \<open>lo\<close>, with its lookup function.  The lookup goes
  through a direct-mapped table whose slot stands for all sizes with the same number of 16-byte
  units; the laws say that the slot was filled by the scan of one size of that slot, that the
  entries are whole units, sorted, and that each exceeds its predecessor by at most an eighth
  (plus rounding).
\<close>

locale size_table =
  fixes tbl :: "nat list" and lo :: nat and lookup :: "nat \<Rightarrow> nat"
  assumes nonempty: "tbl \<noteq> []"
    and units: "c \<in> set tbl \<Longrightarrow> 16 dvd c"
    and sorted_tbl: "sorted tbl"
    and start: "tbl ! 0 < (lo + 1) * 9 div 8 + 16"
    and steps: "Suc i < length tbl \<Longrightarrow> tbl ! Suc i < (tbl ! i + 1) * 9 div 8 + 16"
    and slot: "lo < sz \<Longrightarrow> sz \<le> tbl ! (length tbl - 1) \<Longrightarrow>
      \<exists>q. lookup sz = scan_table tbl (length tbl - 1) 0 q \<and> (q + 15) div 16 = (sz + 15) div 16"
begin

lemma unit_le: "16 dvd c \<Longrightarrow> sz \<le> c \<longleftrightarrow> (sz + 15) div 16 * 16 \<le> (c :: nat)"
  by (auto elim!: dvdE)

lemma slot_le:
  assumes "(q + 15) div 16 = (sz + 15) div 16" "i < length tbl"
  shows "q \<le> tbl ! i \<longleftrightarrow> sz \<le> tbl ! i"
  using unit_le [OF units [OF nth_mem [OF assms(2)]]] assms(1) by metis

lemma lookup_in_range:
  assumes "lo < sz" "sz \<le> tbl ! (length tbl - 1)"
  shows "lookup sz < length tbl"
proof -
  obtain q where "lookup sz = scan_table tbl (length tbl - 1) 0 q" using slot [OF assms] by blast
  moreover have "scan_table tbl (length tbl - 1) 0 q \<le> length tbl - 1"
    using scan_table_bounds [of 0 "length tbl - 1"] by simp
  moreover have "0 < length tbl" using nonempty by simp
  ultimately show ?thesis by linarith
qed

lemma lookup_fits:
  assumes "lo < sz" "sz \<le> tbl ! (length tbl - 1)"
  shows "sz \<le> tbl ! lookup sz"
proof -
  obtain q where q: "lookup sz = scan_table tbl (length tbl - 1) 0 q"
    "(q + 15) div 16 = (sz + 15) div 16" using slot [OF assms] by blast
  show ?thesis
  proof (cases "lookup sz < length tbl - 1")
    case True
    then have "q \<le> tbl ! lookup sz" using scan_table_hit q(1) by metis
    then show ?thesis using slot_le [OF q(2) lookup_in_range [OF assms]] by simp
  next
    case False
    then have "lookup sz = length tbl - 1"
      using scan_table_bounds [of 0 "length tbl - 1" tbl q] q(1) by simp
    then show ?thesis using assms(2) by simp
  qed
qed

lemma lookup_smallest:
  assumes "lo < sz" "sz \<le> tbl ! (length tbl - 1)" "i < lookup sz"
  shows "tbl ! i < sz"
proof -
  obtain q where q: "lookup sz = scan_table tbl (length tbl - 1) 0 q"
    "(q + 15) div 16 = (sz + 15) div 16" using slot [OF assms(1,2)] by blast
  have "tbl ! i < q" using scan_table_before [of 0 i tbl "length tbl - 1" q] assms(3) q(1) by simp
  moreover have "i < length tbl" using assms(3) lookup_in_range [OF assms(1,2)] by linarith
  ultimately show ?thesis using slot_le [OF q(2)] by (simp add: not_le flip: not_less)
qed

lemma lookup_slack:
  assumes "lo < sz" "sz \<le> tbl ! (length tbl - 1)"
  shows "tbl ! lookup sz < sz * 9 div 8 + 16"
proof (cases "lookup sz")
  case 0
  have "(lo + 1) * 9 div 8 \<le> sz * 9 div 8" using assms(1) by (intro div_le_mono mult_le_mono1) simp
  then show ?thesis using start 0 by simp
next
  case (Suc i)
  then have "tbl ! i < sz" using lookup_smallest [OF assms] by simp
  then have "(tbl ! i + 1) * 9 div 8 \<le> sz * 9 div 8" by (intro div_le_mono mult_le_mono1) simp
  moreover have "tbl ! Suc i < (tbl ! i + 1) * 9 div 8 + 16"
    using steps [of i] lookup_in_range [OF assms] Suc by simp
  ultimately show ?thesis using Suc by simp
qed

lemma lookup_mono:
  assumes "lo < s" "s \<le> t" "t \<le> tbl ! (length tbl - 1)"
  shows "lookup s \<le> lookup t"
proof (rule ccontr)
  assume "\<not> ?thesis"
  then have "tbl ! lookup t < s" using lookup_smallest [of s "lookup t"] assms by simp
  moreover have "t \<le> tbl ! lookup t" using lookup_fits [of t] assms by simp
  ultimately show False using assms(2) by simp
qed

end

section \<open>The three tables as instances\<close>

lemma CLASSES_length [simp]: "length CLASSES = NUM_CLASSES"
  by (simp add: CLASSES_eq const_simps)

lemma MEDIUM_CLASSES_length [simp]: "length MEDIUM_CLASSES = NUM_MEDIUM"
  by (simp add: MEDIUM_CLASSES_eq const_simps)

lemma BIG_CLASSES_length [simp]: "length BIG_CLASSES = NUM_BIG"
  by (simp add: BIG_CLASSES_eq const_simps)

text \<open>A step bound over a literal list, as one executable test.\<close>

fun steps_ok :: "nat list \<Rightarrow> bool" where
  "steps_ok (a # b # xs) = (a \<le> b \<and> b < (a + 1) * 9 div 8 + 16 \<and> steps_ok (b # xs))"
| "steps_ok _ = True"

lemma steps_ok_nth: "steps_ok xs \<Longrightarrow> Suc i < length xs \<Longrightarrow> xs ! Suc i < (xs ! i + 1) * 9 div 8 + 16"
proof (induction xs arbitrary: i rule: steps_ok.induct)
  case (1 a b xs)
  then show ?case by (cases i) auto
qed auto

lemma steps_ok_sorted: "steps_ok xs \<Longrightarrow> sorted xs"
  by (induction xs rule: steps_ok.induct) auto

lemma tables_ok: "steps_ok CLASSES" "steps_ok MEDIUM_CLASSES" "steps_ok BIG_CLASSES"
  by (simp_all add: CLASSES_eq MEDIUM_CLASSES_eq BIG_CLASSES_eq)

lemma tables_units:
  "c \<in> set CLASSES \<Longrightarrow> 16 dvd c" "c \<in> set MEDIUM_CLASSES \<Longrightarrow> 16 dvd c"
  "c \<in> set BIG_CLASSES \<Longrightarrow> 16 dvd c"
  by (auto simp: CLASSES_eq MEDIUM_CLASSES_eq BIG_CLASSES_eq)

lemma tables_last:
  "CLASSES ! (NUM_CLASSES - 1) = MAX_SMALL_SIZE"
  "MEDIUM_CLASSES ! (NUM_MEDIUM - 1) = MAX_MEDIUM_BLOCK"
  "BIG_CLASSES ! (NUM_BIG - 1) = MAX_BIG_BLOCK"
  by (simp_all add: CLASSES_eq MEDIUM_CLASSES_eq BIG_CLASSES_eq const_simps)

lemma tables_nonempty: "CLASSES \<noteq> []" "MEDIUM_CLASSES \<noteq> []" "BIG_CLASSES \<noteq> []"
  by (simp_all add: CLASSES_eq MEDIUM_CLASSES_eq BIG_CLASSES_eq)

lemma tables_start:
  "CLASSES ! 0 < (0 + 1) * 9 div 8 + 16"
  "MEDIUM_CLASSES ! 0 < (MAX_SMALL_SIZE + 1) * 9 div 8 + 16"
  "BIG_CLASSES ! 0 < (MAX_MEDIUM_BLOCK + 1) * 9 div 8 + 16"
  by (simp_all add: CLASSES_eq MEDIUM_CLASSES_eq BIG_CLASSES_eq const_simps)

lemmas table_laws = tables_nonempty tables_start [simplified] tables_units steps_ok_sorted
  steps_ok_nth [simplified] tables_ok

lemma scan_small_byte: "n \<le> 64 \<Longrightarrow> scan_table tbl n 0 q mod 256 = scan_table tbl n 0 q"
  using scan_table_bounds [of 0 n tbl q] by simp

lemma and_63_nat: "and n 63 = n mod 64" for n :: nat
  using take_bit_eq_mask [of 6 n] by (simp add: take_bit_eq_mod mask_eq_exp_minus_1)

lemma class_for_size_slot:
  assumes "sz \<le> MAX_SMALL_SIZE"
  shows "class_for_size sz = class_for_size_scan ((sz + 15) div 16 * 16)"
proof -
  have "(15 + sz) div 16 \<le> (15 + 16384) div 16"
    using assms by (intro div_le_mono) (simp add: const_simps)
  moreover have "class_for_size_scan q mod 256 mod 64 = class_for_size_scan q" for q
    using scan_table_bounds [of 0 63 CLASSES q] by (simp add: class_for_size_scan_def const_simps)
  ultimately show ?thesis
    using assms
    by (simp add: class_for_size_def build_lut_def const_simps and_63_nat add.commute del: upt_Suc)
qed

lemma medium_class_for_size_slot:
  assumes "MAX_SMALL_SIZE < sz" "sz \<le> MAX_MEDIUM_BLOCK"
  shows "medium_class_for_size sz
    = medium_scan (MAX_SMALL_SIZE + 1 + (sz - MAX_SMALL_SIZE - 1) div 16 * 16)"
proof -
  have "(sz - 16384 - 1) div 16 \<le> (65472 - 16384 - 1) div 16"
    using assms by (intro div_le_mono) (simp add: const_simps)
  then show ?thesis
    using assms scan_small_byte [of 11 MEDIUM_CLASSES]
    by (simp add: medium_class_for_size_def build_medium_lut_def MEDIUM_LUT_LEN_def medium_scan_def
        const_simps del: upt_Suc)
qed

lemma big_class_for_size_slot:
  assumes "MAX_MEDIUM_BLOCK < sz" "sz \<le> MAX_BIG_BLOCK"
  shows "big_class_for_size sz
    = big_scan (MAX_MEDIUM_BLOCK + 1 + (sz - MAX_MEDIUM_BLOCK - 1) div 16 * 16)"
proof -
  have "(sz - 65472 - 1) div 16 \<le> (1048576 - 65472 - 1) div 16"
    using assms by (intro div_le_mono) (simp add: const_simps)
  then show ?thesis
    using assms scan_small_byte [of 23 BIG_CLASSES]
    by (simp add: big_class_for_size_def build_big_lut_def BIG_LUT_LEN_def big_scan_def
        const_simps del: upt_Suc)
qed

interpretation small_table: size_table CLASSES 0 class_for_size
proof (unfold_locales, goal_cases)
  case (6 sz)
  then have "class_for_size sz = scan_table CLASSES (length CLASSES - 1) 0 ((sz + 15) div 16 * 16)"
    using tables_last(1) by (simp add: class_for_size_slot class_for_size_scan_def)
  moreover have "((sz + 15) div 16 * 16 + 15) div 16 = (sz + 15) div 16" by simp
  ultimately show ?case by blast
qed (simp_all add: table_laws)

interpretation medium_table: size_table MEDIUM_CLASSES MAX_SMALL_SIZE medium_class_for_size
proof (unfold_locales, goal_cases)
  case (6 sz)
  define q where "q = MAX_SMALL_SIZE + 1 + (sz - MAX_SMALL_SIZE - 1) div 16 * 16"
  have "medium_class_for_size sz = scan_table MEDIUM_CLASSES (length MEDIUM_CLASSES - 1) 0 q"
    using 6 tables_last(2) by (simp add: medium_class_for_size_slot medium_scan_def q_def)
  moreover have "(q + 15) div 16 = (sz + 15) div 16" using 6(1) by (simp add: q_def const_simps)
  ultimately show ?case by blast
qed (simp_all add: table_laws)

interpretation big_table: size_table BIG_CLASSES MAX_MEDIUM_BLOCK big_class_for_size
proof (unfold_locales, goal_cases)
  case (6 sz)
  define q where "q = MAX_MEDIUM_BLOCK + 1 + (sz - MAX_MEDIUM_BLOCK - 1) div 16 * 16"
  have "big_class_for_size sz = scan_table BIG_CLASSES (length BIG_CLASSES - 1) 0 q"
    using 6 tables_last(3) by (simp add: big_class_for_size_slot big_scan_def q_def)
  moreover have "(q + 15) div 16 = (sz + 15) div 16" using 6(1) by (simp add: q_def const_simps)
  ultimately show ?case by blast
qed (simp_all add: table_laws)

section \<open>Span lengths\<close>

lemma span_pages_loop_minimal:
  assumes "0 < block" "\<forall>q < pages. medium_capacity_for block q < TARGET_BLOCKS_PER_SPAN"
  shows "\<exists>p. span_pages_loop block pages = Some p \<and> TARGET_BLOCKS_PER_SPAN \<le> medium_capacity_for block p
           \<and> (\<forall>q < p. medium_capacity_for block q < TARGET_BLOCKS_PER_SPAN)"
  using assms
proof (induction block pages rule: span_pages_loop.induct)
  case (1 block pages)
  show ?case
  proof (cases "medium_capacity_for block pages < TARGET_BLOCKS_PER_SPAN")
    case True
    then have "\<forall>q < pages + 1. medium_capacity_for block q < TARGET_BLOCKS_PER_SPAN"
      using 1(3) by (auto simp: less_Suc_eq)
    then show ?thesis using 1(1,2) True by (subst span_pages_loop.simps) auto
  next
    case False
    then show ?thesis using 1(2,3) by (subst span_pages_loop.simps) auto
  qed
qed

lemma medium_span_pages_table:
  "map span_pages_for MEDIUM_CLASSES = map Some [3, 3, 3, 4, 4, 5, 5, 6, 6, 7, 8, 8]"
  by (simp add: MEDIUM_CLASSES_eq span_pages_for_def span_pages_loop.simps medium_capacity_for_def
      const_simps)

section \<open>What the tables guarantee\<close>

text \<open>C25 (small classes).  For every size from 1 to \<open>MAX_SMALL_SIZE\<close>, \<open>class_for_size\<close> (the
  direct-mapped byte table with its mask) returns an index inside the table, of the smallest class
  that fits the size, and the class is less than an eighth plus 16 bytes larger than the request.\<close>

theorem class_for_size_correct:
  assumes "0 < sz" "sz \<le> MAX_SMALL_SIZE"
  shows "class_for_size sz < NUM_CLASSES \<and> sz \<le> CLASSES ! class_for_size sz
    \<and> (\<forall>i < class_for_size sz. CLASSES ! i < sz)
    \<and> CLASSES ! class_for_size sz < sz * 9 div 8 + 16"
  using assms small_table.lookup_in_range small_table.lookup_fits small_table.lookup_smallest
    small_table.lookup_slack tables_last(1) by simp

theorem class_for_size_correct_witness:
  "class_for_size 4513 < NUM_CLASSES \<and> 4513 \<le> CLASSES ! class_for_size 4513
    \<and> CLASSES ! class_for_size 4513 < 4513 * 9 div 8 + 16"
  using class_for_size_correct [of 4513] by (simp add: MAX_SMALL_SIZE_def)

text \<open>For every size above \<open>MAX_SMALL_SIZE\<close> up to \<open>MAX_MEDIUM_BLOCK\<close>,
  \<open>medium_class_for_size\<close> returns the smallest fitting entry of \<open>MEDIUM_CLASSES\<close>, within the
  same slack, and \<open>span_pages_for\<close> gives that class the least number of pages that holds eight of
  its blocks: between 3 and 8.\<close>

theorem medium_class_correct:
  assumes "MAX_SMALL_SIZE < sz" "sz \<le> MAX_MEDIUM_BLOCK"
  shows "medium_class_for_size sz < NUM_MEDIUM \<and> sz \<le> MEDIUM_CLASSES ! medium_class_for_size sz
    \<and> (\<forall>i < medium_class_for_size sz. MEDIUM_CLASSES ! i < sz)
    \<and> MEDIUM_CLASSES ! medium_class_for_size sz < sz * 9 div 8 + 16
    \<and> (\<exists>p. span_pages_for (MEDIUM_CLASSES ! medium_class_for_size sz) = Some p
         \<and> 3 \<le> p \<and> p \<le> 8
         \<and> TARGET_BLOCKS_PER_SPAN \<le> medium_capacity_for (MEDIUM_CLASSES ! medium_class_for_size sz) p
         \<and> (\<forall>q < p. medium_capacity_for (MEDIUM_CLASSES ! medium_class_for_size sz) q
                < TARGET_BLOCKS_PER_SPAN))"
proof -
  let ?b = "MEDIUM_CLASSES ! medium_class_for_size sz"
  have r: "medium_class_for_size sz < NUM_MEDIUM" "sz \<le> ?b"
    using assms medium_table.lookup_in_range medium_table.lookup_fits tables_last(2) by simp_all
  have "\<exists>p. span_pages_for ?b = Some p \<and> TARGET_BLOCKS_PER_SPAN \<le> medium_capacity_for ?b p
      \<and> (\<forall>q < p. medium_capacity_for ?b q < TARGET_BLOCKS_PER_SPAN)"
    unfolding span_pages_for_def
    by (rule span_pages_loop_minimal)
       (use r assms in \<open>auto simp: medium_capacity_for_def TARGET_BLOCKS_PER_SPAN_def\<close>)
  moreover have "span_pages_for ?b \<in> set (map span_pages_for MEDIUM_CLASSES)"
    using r(1) by (auto intro!: imageI nth_mem)
  then have "span_pages_for ?b \<in> {Some 3, Some 4, Some 5, Some 6, Some 7, Some 8}"
    unfolding medium_span_pages_table by auto
  ultimately show ?thesis
    using assms r medium_table.lookup_smallest medium_table.lookup_slack tables_last(2) by auto
qed

theorem medium_class_correct_witness:
  "\<exists>p. span_pages_for (MEDIUM_CLASSES ! medium_class_for_size 28000) = Some p \<and> 3 \<le> p \<and> p \<le> 8"
  using medium_class_correct [of 28000] by (auto simp: MAX_SMALL_SIZE_def MAX_MEDIUM_BLOCK_eq)

text \<open>For every size above \<open>MAX_MEDIUM_BLOCK\<close> up to \<open>MAX_BIG_BLOCK\<close>,
  \<open>big_class_for_size\<close> returns the smallest fitting entry of \<open>BIG_CLASSES\<close>, within the same
  slack, and \<open>big_span_pages_for\<close> gives the class the least number of pages that holds eight of
  its blocks beside the master header.\<close>

theorem big_class_correct:
  assumes "MAX_MEDIUM_BLOCK < sz" "sz \<le> MAX_BIG_BLOCK"
  shows "big_class_for_size sz < NUM_BIG \<and> sz \<le> BIG_CLASSES ! big_class_for_size sz
    \<and> (\<forall>i < big_class_for_size sz. BIG_CLASSES ! i < sz)
    \<and> BIG_CLASSES ! big_class_for_size sz < sz * 9 div 8 + 16
    \<and> (\<forall>p. BIG_MASTER_RESERVE + TARGET_BLOCKS_PER_BIG_SPAN * (BIG_CLASSES ! big_class_for_size sz)
            \<le> p * PAGE_SIZE
          \<longleftrightarrow> big_span_pages_for (BIG_CLASSES ! big_class_for_size sz) \<le> p)"
  using assms big_table.lookup_in_range big_table.lookup_fits big_table.lookup_smallest
    big_table.lookup_slack tables_last(3)
  by (auto simp: big_span_pages_for_def const_simps)

theorem big_class_correct_witness:
  "big_class_for_size 70000 < NUM_BIG \<and> 70000 \<le> BIG_CLASSES ! big_class_for_size 70000"
  using big_class_correct [of 70000] by (simp add: MAX_MEDIUM_BLOCK_eq MAX_BIG_BLOCK_eq)

text \<open>The README's \<open>12.5%\<close> bound on internal fragmentation is exceeded by the 16-byte rounding
  of the smallest classes: a request of 17 bytes is served from 32.\<close>

lemma fragmentation_exceeds_eighth: "\<not> CLASSES ! class_for_size 17 \<le> 17 * 9 div 8"
proof -
  have "class_for_size 17 = 1"
    by (simp add: class_for_size_slot class_for_size_scan_def CLASSES_eq scan_table.simps const_simps)
  then show ?thesis by (simp add: CLASSES_eq)
qed

end
