(* ===== verification/Page_Layout.thy ===== *)
theory Page_Layout
  imports Free_List Size_Classes
begin

text \<open>
  \<open>src/src/page.rs\<close>: the headers at the base of pages and spans, and how a mapping is carved
  into blocks.

  The three headers share their first fields; the model states them once as \<open>header\<close>, and the
  span masters extend it by their page count, the way \<open>SpanMaster\<close> and \<open>BigMaster\<close> have one field
  more than \<open>PageHeader\<close>.  A header is not part of \<open>cells\<close>: it is kept in a map of its own, from
  the base address.  Writes of block links go to \<open>cells\<close>.
\<close>

section \<open>Constants\<close>

definition PAGE_SHIFT :: nat where [const_simps]: "PAGE_SHIFT = 16"
definition PAGE_MASK :: nat where [const_simps]: "PAGE_MASK = PAGE_SIZE - 1"
definition PAGE_MAGIC :: nat where "PAGE_MAGIC = 0xA110CCA7E5A11E5D"
definition SPAN_MAGIC :: nat where "SPAN_MAGIC = 0xA110CCA75EED5A11"
definition SPAN_SUBMAGIC :: nat where "SPAN_SUBMAGIC = 0xA110CCA75EED5A12"
definition BIGMAGIC :: nat where "BIGMAGIC = 0x0A110CCA7B165A13"
definition LARGE_MAGIC :: nat where "LARGE_MAGIC = 0x00B10C5A6E0FF1CE"

lemmas magic_defs = PAGE_MAGIC_def SPAN_MAGIC_def SPAN_SUBMAGIC_def BIGMAGIC_def LARGE_MAGIC_def

lemma magics_distinct [simp]:
  "distinct [PAGE_MAGIC, SPAN_MAGIC, SPAN_SUBMAGIC, BIGMAGIC, LARGE_MAGIC, 0]"
  by (simp add: magic_defs)

text \<open>The flag bits of a header, and the field's bit operations.\<close>

type_synonym flags = "16 word"

definition FLAG_IN_PARTIAL :: flags where "FLAG_IN_PARTIAL = 1"
definition FLAG_VIRGIN :: flags where "FLAG_VIRGIN = 2"
definition FLAG_NEEDS_REINIT :: flags where "FLAG_NEEDS_REINIT = 4"

lemmas flag_defs = FLAG_IN_PARTIAL_def FLAG_VIRGIN_def FLAG_NEEDS_REINIT_def

definition has_flag :: "flags \<Rightarrow> flags \<Rightarrow> bool" where "has_flag f b \<longleftrightarrow> and f b \<noteq> 0"
definition set_flag :: "flags \<Rightarrow> flags \<Rightarrow> flags" where "set_flag f b = or f b"
definition clear_flag :: "flags \<Rightarrow> flags \<Rightarrow> flags" where "clear_flag f b = and f (not b)"

lemma and_one_bit: "and (f :: flags) (2 ^ n) \<noteq> 0 \<longleftrightarrow> n < 16 \<and> bit f n"
  by (auto simp: and_exp_eq_0_iff_not_bit dest: bit_imp_le_length)

lemma flag_bits:
  "has_flag f FLAG_IN_PARTIAL = bit f 0" "has_flag f FLAG_VIRGIN = bit f 1"
  "has_flag f FLAG_NEEDS_REINIT = bit f 2"
  using and_one_bit [of f 0] and_one_bit [of f 1] and_one_bit [of f 2]
  by (simp_all add: has_flag_def flag_defs)

lemma flag_exps: "FLAG_IN_PARTIAL = 2 ^ 0" "FLAG_VIRGIN = 2 ^ 1" "FLAG_NEEDS_REINIT = 2 ^ 2"
  by (simp_all add: flag_defs)

lemma flag_ops [simp]:
  "has_flag (clear_flag f FLAG_VIRGIN) FLAG_IN_PARTIAL = has_flag f FLAG_IN_PARTIAL"
  "\<not> has_flag (clear_flag f FLAG_VIRGIN) FLAG_VIRGIN"
  "has_flag (set_flag f FLAG_NEEDS_REINIT) FLAG_IN_PARTIAL = has_flag f FLAG_IN_PARTIAL"
  "has_flag (set_flag f FLAG_NEEDS_REINIT) FLAG_VIRGIN = has_flag f FLAG_VIRGIN"
  "has_flag FLAG_VIRGIN FLAG_VIRGIN" "\<not> has_flag FLAG_VIRGIN FLAG_IN_PARTIAL"
  unfolding flag_bits unfolding clear_flag_def set_flag_def flag_exps
  by (auto simp: bit_and_iff bit_or_iff bit_not_iff bit_exp_iff)

section \<open>Small pages\<close>

record header =
  h_magic :: nat
  h_prev :: addr
  h_next :: addr
  free_head :: addr
  free_count :: nat
  used :: nat
  h_class :: nat
  h_flags :: flags
  owner :: nat

type_synonym page_header = header

definition HEADER_SIZE :: nat where [const_simps]: "HEADER_SIZE = 48"

text \<open>\<open>PageHeader::of\<close>: the header owning an address, by masking.\<close>

definition page_of :: "addr \<Rightarrow> addr" where
  "page_of p = mask_down PAGE_SIZE p"

definition page_init :: "nat \<Rightarrow> page_header" where
  "page_init c = \<lparr> h_magic = PAGE_MAGIC, h_prev = null, h_next = null, free_head = null,
     free_count = 0, used = 0, h_class = c mod 2 ^ 16, h_flags = FLAG_VIRGIN, owner = 0 \<rparr>"

definition capacity :: "page_header \<Rightarrow> nat" where
  "capacity h = (PAGE_SIZE - HEADER_SIZE) div CLASSES ! h_class h"

text \<open>The linking loop of \<open>provision\<close>: blocks \<open>cnt - 1\<close> down to \<open>0\<close> are pushed.\<close>

fun provision_loop :: "cells \<times> addr \<Rightarrow> addr \<Rightarrow> nat \<Rightarrow> nat \<Rightarrow> cells \<times> addr" where
  "provision_loop s start block_size 0 = s"
| "provision_loop s start block_size (Suc index) =
     provision_loop (push_block s (start + index * block_size)) start block_size index"

definition provision :: "cells \<Rightarrow> addr \<Rightarrow> page_header \<Rightarrow> nat \<Rightarrow> cells \<times> page_header \<times> nat" where
  "provision m page h limit =
     (let block_size = CLASSES ! h_class h;
          materialized = used h + free_count h;
          cnt = min (capacity h - materialized) limit
      in if cnt = 0 then (m, h, 0)
         else
           let start = page + HEADER_SIZE + materialized * block_size;
               (m', head) = provision_loop (m, free_head h) start block_size cnt
           in (m', h\<lparr>free_head := head, free_count := add_w 16 (free_count h) (cnt mod 2 ^ 16)\<rparr>, cnt))"

section \<open>Medium spans\<close>

record span_master = header +
  npages :: nat

definition SPAN_MASTER_SIZE :: nat where [const_simps]: "SPAN_MASTER_SIZE = 64"

text \<open>
  The carving loop \<open>while b + block_size <= end\<close>, which appears in \<open>SpanMaster::init\<close> (twice) and
  in \<open>BigMaster::init\<close>.  It runs forever for a block size of zero: \<open>None\<close>.
\<close>

function carve_loop :: "cells \<times> addr \<Rightarrow> nat \<Rightarrow> addr \<Rightarrow> nat \<Rightarrow> addr \<Rightarrow> ((cells \<times> addr) \<times> nat) option" where
  "carve_loop s cnt b block_size end =
     (if b + block_size \<le> end then
        (if block_size = 0 then None
         else carve_loop (push_block s b) (cnt + 1) (b + block_size) block_size end)
      else Some (s, cnt))"
  by pat_completeness auto
termination by (relation "measure (\<lambda>(_, _, b, _, e). e + 1 - b)") auto

declare carve_loop.simps [simp del]

text \<open>The sub-headers of a span outside the arena: magic and master pointer in every further page.\<close>

fun write_subs :: "cells \<Rightarrow> addr \<Rightarrow> nat \<Rightarrow> cells" where
  "write_subs m base 0 = m"
| "write_subs m base (Suc n) =
     (write_subs m base n)(base + Suc n * PAGE_SIZE := SPAN_SUBMAGIC,
                           base + Suc n * PAGE_SIZE + 8 := base)"

text \<open>The per-page carving of such a span: \<open>left\<close> pages remain, the next one is \<open>page\<close>.\<close>

fun carve_pages :: "cells \<times> addr \<Rightarrow> nat \<Rightarrow> addr \<Rightarrow> nat \<Rightarrow> nat \<Rightarrow> nat \<Rightarrow> ((cells \<times> addr) \<times> nat) option" where
  "carve_pages s cnt base block_size page 0 = Some (s, cnt)"
| "carve_pages s cnt base block_size page (Suc left) =
     (let chunk = base + page * PAGE_SIZE;
          start = (if page = 0 then chunk + SPAN_MASTER_SIZE else chunk + SPAN_SUB_SIZE)
      in case carve_loop s cnt start block_size (chunk + PAGE_SIZE) of
           None \<Rightarrow> None
         | Some (s', cnt') \<Rightarrow> carve_pages s' cnt' base block_size (page + 1) left)"

definition master_of :: "nat \<Rightarrow> addr \<Rightarrow> nat \<Rightarrow> nat \<Rightarrow> nat \<Rightarrow> span_master" where
  "master_of magic head cnt c n = \<lparr> h_magic = magic, h_prev = null, h_next = null,
     free_head = head, free_count = cnt mod 2 ^ 32, used = 0, h_class = c mod 2 ^ 16,
     h_flags = FLAG_VIRGIN, owner = 0, npages = n mod 2 ^ 32 \<rparr>"

definition span_init :: "bool \<Rightarrow> cells \<Rightarrow> addr \<Rightarrow> nat \<Rightarrow> nat \<Rightarrow> (cells \<times> span_master) option" where
  "span_init arena_owned m base mclass n =
     (let block_size = MEDIUM_CLASSES ! mclass in
      case (if arena_owned
            then carve_loop (m, null) 0 (base + SPAN_MASTER_SIZE) block_size (base + n * PAGE_SIZE)
            else carve_pages (write_subs m base (n - 1), null) 0 base block_size 0 n) of
        None \<Rightarrow> None
      | Some ((m', head), cnt) \<Rightarrow> Some (m', master_of SPAN_MAGIC head cnt mclass n))"

definition span_mapped_bytes :: "span_master \<Rightarrow> nat" where
  "span_mapped_bytes s = npages s * PAGE_SIZE"

definition span_contains :: "addr \<Rightarrow> span_master \<Rightarrow> addr \<Rightarrow> bool" where
  "span_contains base s p \<longleftrightarrow> h_magic s = SPAN_MAGIC \<and> h_class s < NUM_MEDIUM \<and> npages s > 0
     \<and> p > base \<and> p < base + span_mapped_bytes s"

text \<open>
  \<open>SpanMaster::of\<close>: for an address in the arena the side table answers (\<open>table_get\<close>); otherwise
  the first word of the 64 KiB page decides.  \<open>first_word\<close> is what a read of that word
  returns: the magic of the header stored there, or the cell.
\<close>

definition span_of :: "(addr \<Rightarrow> bool) \<Rightarrow> (addr \<Rightarrow> addr) \<Rightarrow> (addr \<Rightarrow> nat) \<Rightarrow> cells \<Rightarrow> addr \<Rightarrow> addr" where
  "span_of in_arena table_get first_word m p =
     (if in_arena p then table_get p
      else let base = mask_down PAGE_SIZE p in
        if first_word base = SPAN_MAGIC then base
        else if first_word base = SPAN_SUBMAGIC then m (base + 8)
        else null)"

section \<open>Big spans\<close>

type_synonym big_master = span_master

definition BIG_MASTER_SIZE :: nat where [const_simps]: "BIG_MASTER_SIZE = 64"

definition big_init :: "cells \<Rightarrow> addr \<Rightarrow> nat \<Rightarrow> nat \<Rightarrow> (cells \<times> big_master) option" where
  "big_init m base bclass n =
     (let block_size = BIG_CLASSES ! bclass; end = base + n * PAGE_SIZE in
      case carve_loop (m, null) 0 (base + BIG_MASTER_SIZE) block_size end of
        None \<Rightarrow> None
      | Some ((m', head), cnt) \<Rightarrow> Some (m', master_of BIGMAGIC head cnt bclass n))"

definition big_mapped_bytes :: "big_master \<Rightarrow> nat" where
  "big_mapped_bytes s = npages s * PAGE_SIZE"

definition big_contains :: "addr \<Rightarrow> big_master \<Rightarrow> addr \<Rightarrow> bool" where
  "big_contains base s p \<longleftrightarrow> h_magic s = BIGMAGIC \<and> h_class s < NUM_BIG \<and> npages s > 0
     \<and> p > base \<and> p < base + big_mapped_bytes s"

section \<open>Large regions\<close>

record large_header =
  l_magic :: nat
  mapped_size :: nat
  l_base :: addr
  requested_size :: nat
  registry_next :: addr

definition LARGE_HEADER_SIZE :: nat where [const_simps]: "LARGE_HEADER_SIZE = 48"

definition align_up :: "nat \<Rightarrow> nat \<Rightarrow> nat" where
  "align_up v align = mask_down align (v + align - 1)"

section \<open>Rounding and ownership of addresses\<close>

lemma PAGE_SIZE_pos [simp]: "0 < PAGE_SIZE" "PAGE_SIZE \<noteq> 0"
  by (simp_all add: const_simps)

lemma align_up_props:
  assumes "0 < a"
  shows "a dvd align_up v a" "v \<le> align_up v a" "align_up v a < v + a"
  using mask_down_bounds [OF assms, of v] assms by (simp_all add: align_up_def)

lemma align_up_fixed: "0 < a \<Longrightarrow> a dvd v \<Longrightarrow> align_up v a = v"
  unfolding align_up_def by (rule mask_down_unique) auto

lemma page_of_base: "PAGE_SIZE dvd p \<Longrightarrow> p \<le> b \<Longrightarrow> b < p + PAGE_SIZE \<Longrightarrow> page_of b = p"
  unfolding page_of_def by (rule mask_down_unique)

section \<open>Arithmetic sequences of blocks\<close>

definition blocks_at :: "addr \<Rightarrow> nat \<Rightarrow> nat \<Rightarrow> addr list" where
  "blocks_at start block_size n = map (\<lambda>i. start + i * block_size) [0..<n]"

lemma blocks_at_0 [simp]: "blocks_at s b 0 = []"
  by (simp add: blocks_at_def)

lemma blocks_at_Suc: "blocks_at s b (Suc n) = blocks_at s b n @ [s + n * b]"
  by (simp add: blocks_at_def)

lemma blocks_at_Cons: "blocks_at s b (Suc n) = s # blocks_at (s + b) b n"
  by (rule nth_equalityI) (auto simp: blocks_at_def nth_Cons' nth_append algebra_simps simp del: upt_Suc
      split: nat.splits)

lemma length_blocks_at [simp]: "length (blocks_at s b n) = n"
  by (simp add: blocks_at_def)

lemma set_blocks_at: "x \<in> set (blocks_at s b n) \<longleftrightarrow> (\<exists>i < n. x = s + i * b)"
  by (auto simp: blocks_at_def)

lemma distinct_blocks_at [simp]: "0 < b \<Longrightarrow> distinct (blocks_at s b n)"
  by (simp add: blocks_at_def distinct_map inj_on_def)

lemma blocks_at_inside: "x \<in> set (blocks_at s b n) \<Longrightarrow> s \<le> x \<and> x + b \<le> s + n * b"
proof -
  assume "x \<in> set (blocks_at s b n)"
  then obtain i where i: "i < n" "x = s + i * b" by (auto simp: set_blocks_at)
  then have "(i + 1) * b \<le> n * b" by (intro mult_le_mono1) simp
  then show ?thesis using i by simp
qed

lemma push_all_frame: "c \<notin> set bs \<Longrightarrow> fst (foldl push_block s bs) c = fst s c"
  by (induction bs arbitrary: s) (auto simp: push_block_def split: prod.splits)

lemma provision_loop_push: "provision_loop s start b n = foldl push_block s (rev (blocks_at start b n))"
  by (induction n arbitrary: s) (simp_all add: blocks_at_Suc)

lemma carve_loop_push:
  assumes "0 < bs"
  shows "carve_loop s c b bs e
    = Some (foldl push_block s (blocks_at b bs ((e - b) div bs)), c + (e - b) div bs)"
  using assms
proof (induction s c b bs e rule: carve_loop.induct)
  case (1 s c b bs e)
  show ?case
  proof (cases "b + bs \<le> e")
    case True
    then have "(e - b) div bs = Suc ((e - (b + bs)) div bs)"
      using 1(2) by (simp add: le_div_geq flip: diff_diff_left)
    then show ?thesis
      using 1 True by (subst carve_loop.simps) (simp add: blocks_at_Cons)
  next
    case False
    then have "(e - b) div bs = 0" using 1(2) by simp
    then show ?thesis using False by (subst carve_loop.simps) simp
  qed
qed

text \<open>Pushing blocks onto a list: the result is the chain of all of them.\<close>

lemma push_blocks_chain:
  assumes "chain m head xs" "distinct bs" "set bs \<inter> set xs = {}" "0 \<notin> set bs"
  shows "chain (fst (foldl push_block (m, head) bs)) (snd (foldl push_block (m, head) bs)) (rev bs @ xs)"
  using fl.push_all [of "(m, head)" xs bs] assms by simp

section \<open>Carving contiguous spans\<close>

text \<open>
  One lemma serves big spans and medium spans in the arena: \<open>reserve\<close> bytes of header, then
  blocks of one size up to the end of the mapping.
\<close>

definition carve_count :: "nat \<Rightarrow> nat \<Rightarrow> nat \<Rightarrow> nat" where
  "carve_count reserve bs n = (n * PAGE_SIZE - reserve) div bs"

lemma carve_fits:
  assumes "x \<in> set (blocks_at (base + reserve) bs (carve_count reserve bs n))" "reserve \<le> n * PAGE_SIZE"
  shows "base + reserve \<le> x" "x + bs \<le> base + n * PAGE_SIZE"
proof -
  show "base + reserve \<le> x" using blocks_at_inside [OF assms(1)] by simp
  have "carve_count reserve bs n * bs \<le> n * PAGE_SIZE - reserve"
    by (simp add: carve_count_def)
  then show "x + bs \<le> base + n * PAGE_SIZE" using blocks_at_inside [OF assms(1)] assms(2) by linarith
qed

lemma blocks_at_dvd: "d dvd s \<Longrightarrow> d dvd b \<Longrightarrow> x \<in> set (blocks_at s b n) \<Longrightarrow> d dvd x"
  by (auto simp: set_blocks_at)

lemma carve_contiguous:
  fixes base :: addr and m :: cells
  assumes "0 < bs" "0 < reserve" "reserve \<le> n * PAGE_SIZE"
  defines "bl \<equiv> blocks_at (base + reserve) bs (carve_count reserve bs n)"
  obtains m' head where
    "carve_loop (m, null) 0 (base + reserve) bs (base + n * PAGE_SIZE)
       = Some ((m', head), carve_count reserve bs n)"
    "chain m' head (rev bl)" "\<And>c. c \<notin> set bl \<Longrightarrow> m' c = m c"
proof -
  have eq: "carve_loop (m, null) 0 (base + reserve) bs (base + n * PAGE_SIZE)
      = Some (foldl push_block (m, null) bl, carve_count reserve bs n)"
    by (simp add: carve_loop_push [OF assms(1)] bl_def carve_count_def)
  have nz: "0 \<notin> set bl" using assms(2) by (auto simp: bl_def set_blocks_at)
  have "chain (fst (foldl push_block (m, null) bl)) (snd (foldl push_block (m, null) bl)) (rev bl)"
    using push_blocks_chain [of m 0 "[]" bl] nz assms(1) by (simp add: bl_def)
  moreover have "c \<notin> set bl \<Longrightarrow> fst (foldl push_block (m, null) bl) c = m c" for c
    using push_all_frame [of c bl "(m, null)"] by simp
  ultimately show thesis using eq that by (metis prod.collapse)
qed

lemma carve_count_small: "n < 2 ^ 16 \<Longrightarrow> carve_count reserve bs n < 2 ^ 32"
proof -
  assume "n < 2 ^ 16"
  then have "n * PAGE_SIZE - reserve < 2 ^ 32" by (simp add: const_simps)
  then show ?thesis using div_le_dividend [of "n * PAGE_SIZE - reserve" bs]
    unfolding carve_count_def by linarith
qed

lemma CLASSES_bounds:
  assumes "c < NUM_CLASSES"
  shows "MIN_ALIGN \<le> CLASSES ! c \<and> CLASSES ! c \<le> MAX_SMALL_SIZE \<and> 16 dvd CLASSES ! c"
proof -
  have "\<forall>x \<in> set CLASSES. MIN_ALIGN \<le> x \<and> x \<le> MAX_SMALL_SIZE" by (simp add: CLASSES_eq const_simps)
  then show ?thesis using nth_mem [of c CLASSES] tables_units(1) assms by simp
qed

lemma MEDIUM_CLASSES_bounds:
  assumes "c < NUM_MEDIUM"
  shows "MAX_SMALL_SIZE < MEDIUM_CLASSES ! c \<and> MEDIUM_CLASSES ! c \<le> MAX_MEDIUM_BLOCK \<and> 16 dvd MEDIUM_CLASSES ! c"
proof -
  have "\<forall>x \<in> set MEDIUM_CLASSES. MAX_SMALL_SIZE < x \<and> x \<le> MAX_MEDIUM_BLOCK" by (simp add: MEDIUM_CLASSES_eq const_simps)
  then show ?thesis using nth_mem [of c MEDIUM_CLASSES] tables_units(2) assms by simp
qed

lemma BIG_CLASSES_bounds:
  assumes "c < NUM_BIG"
  shows "MAX_MEDIUM_BLOCK < BIG_CLASSES ! c \<and> BIG_CLASSES ! c \<le> MAX_BIG_BLOCK \<and> 16 dvd BIG_CLASSES ! c"
proof -
  have "\<forall>x \<in> set BIG_CLASSES. MAX_MEDIUM_BLOCK < x \<and> x \<le> MAX_BIG_BLOCK" by (simp add: BIG_CLASSES_eq const_simps)
  then show ?thesis using nth_mem [of c BIG_CLASSES] tables_units(3) assms by simp
qed

lemma page_reserve_le: "0 < n \<Longrightarrow> 64 \<le> n * PAGE_SIZE"
  by (cases n) (auto simp: const_simps)

lemma big_init_carved:
  fixes base :: addr and m :: cells
  assumes "bclass < NUM_BIG" "0 < n" "n < 2 ^ 16"
  defines "bs \<equiv> BIG_CLASSES ! bclass" and "k \<equiv> (n * PAGE_SIZE - BIG_MASTER_SIZE) div (BIG_CLASSES ! bclass)"
  obtains m' head where "big_init m base bclass n = Some (m', master_of BIGMAGIC head k bclass n)"
    "chain m' head (rev (blocks_at (base + BIG_MASTER_SIZE) bs k))" "k < 2 ^ 32" "BIG_MASTER_SIZE \<le> n * PAGE_SIZE"
    "\<And>c. c \<notin> set (blocks_at (base + BIG_MASTER_SIZE) bs k) \<Longrightarrow> m' c = m c"
proof -
  have bs: "0 < bs" using BIG_CLASSES_bounds [OF assms(1)] by (auto simp: bs_def const_simps)
  have k: "k = carve_count BIG_MASTER_SIZE bs n" by (simp add: k_def bs_def carve_count_def)
  have r: "BIG_MASTER_SIZE \<le> n * PAGE_SIZE" using page_reserve_le [OF assms(2)] by (simp add: const_simps)
  obtain m' head where c: "carve_loop (m, null) 0 (base + BIG_MASTER_SIZE) bs (base + n * PAGE_SIZE)
       = Some ((m', head), k)" "chain m' head (rev (blocks_at (base + BIG_MASTER_SIZE) bs k))"
    "\<And>c. c \<notin> set (blocks_at (base + BIG_MASTER_SIZE) bs k) \<Longrightarrow> m' c = m c"
    unfolding k by (rule carve_contiguous [OF bs _ r, of m base]) (auto simp: const_simps)
  have "big_init m base bclass n = Some (m', master_of BIGMAGIC head k bclass n)"
    using c(1) by (simp add: big_init_def bs_def)
  then show thesis using c carve_count_small [OF assms(3)] k that r by simp
qed

text \<open>\<open>BigMaster::init\<close> on a page-aligned base returns (its loop ends) a span whose
  free list is exactly the contiguous run of blocks after the master header, as many as fit; each
  block is 16-aligned, lies inside the mapping, is recognised by \<open>contains\<close>, and no other memory
  word is written.  The span is born virgin and without users.\<close>

theorem big_init_correct:
  assumes "PAGE_SIZE dvd base" "bclass < NUM_BIG" "0 < n" "n < 2 ^ 16"
  shows "\<exists>m' s. big_init m base bclass n = Some (m', s)
    \<and> free_count s = (n * PAGE_SIZE - BIG_MASTER_SIZE) div (BIG_CLASSES ! bclass)
    \<and> used s = 0 \<and> has_flag (h_flags s) FLAG_VIRGIN
    \<and> chain m' (free_head s)
          (rev (blocks_at (base + BIG_MASTER_SIZE) (BIG_CLASSES ! bclass) (free_count s)))
    \<and> (\<forall>b \<in> set (blocks_at (base + BIG_MASTER_SIZE) (BIG_CLASSES ! bclass) (free_count s)).
          16 dvd b \<and> base + BIG_MASTER_SIZE \<le> b \<and> b + BIG_CLASSES ! bclass \<le> base + n * PAGE_SIZE
          \<and> big_contains base s b)
    \<and> (\<forall>c. c \<notin> set (blocks_at (base + BIG_MASTER_SIZE) (BIG_CLASSES ! bclass) (free_count s))
          \<longrightarrow> m' c = m c)"
proof -
  let ?bs = "BIG_CLASSES ! bclass" and ?k = "(n * PAGE_SIZE - BIG_MASTER_SIZE) div (BIG_CLASSES ! bclass)"
  have bs: "0 < ?bs" "16 dvd ?bs" using BIG_CLASSES_bounds [OF assms(2)] by (auto simp: const_simps)
  obtain m' head where c: "big_init m base bclass n = Some (m', master_of BIGMAGIC head ?k bclass n)"
    "chain m' head (rev (blocks_at (base + BIG_MASTER_SIZE) ?bs ?k))" "?k < 2 ^ 32" "BIG_MASTER_SIZE \<le> n * PAGE_SIZE"
    "\<And>c. c \<notin> set (blocks_at (base + BIG_MASTER_SIZE) ?bs ?k) \<Longrightarrow> m' c = m c"
    using big_init_carved [OF assms(2-4), of m base] by blast
  define s where "s = master_of BIGMAGIC head ?k bclass n"
  have fields: "free_count s = ?k" "free_head s = head" "used s = 0"
    "npages s = n" "h_magic s = BIGMAGIC" "h_class s = bclass" "h_flags s = FLAG_VIRGIN"
    using c(3) assms by (simp_all add: s_def master_of_def const_simps)
  have al: "16 dvd base + BIG_MASTER_SIZE"
    using assms(1) by (auto simp: const_simps intro: dvd_trans [of 16 65536])
  have "b + ?bs \<le> base + n * PAGE_SIZE \<and> base + BIG_MASTER_SIZE \<le> b \<and> 16 dvd b \<and> big_contains base s b"
    if "b \<in> set (blocks_at (base + BIG_MASTER_SIZE) ?bs ?k)" for b
    using carve_fits [OF that [folded carve_count_def] c(4)] blocks_at_dvd [OF al bs(2) that] bs(1) assms(2,3)
    by (auto simp: big_contains_def big_mapped_bytes_def fields BIG_MASTER_SIZE_def)
  then show ?thesis using c(1,2,5)
    by (intro exI [of _ m'] exI [of _ s]) (auto simp: fields has_flag_def flag_defs simp flip: s_def)
qed

theorem big_init_correct_witness:
  "\<exists>m' s. big_init (\<lambda>_. 0) 65536 23 129 = Some (m', s) \<and> free_count s = 8 \<and> used s = 0"
proof -
  have p: "PAGE_SIZE dvd 65536" "23 < NUM_BIG" "0 < (129 :: nat)" "(129 :: nat) < 2 ^ 16"
    by (simp_all add: const_simps)
  obtain m' s where "big_init (\<lambda>_. 0) 65536 23 129 = Some (m', s)" "used s = 0"
    "free_count s = (129 * PAGE_SIZE - BIG_MASTER_SIZE) div (BIG_CLASSES ! 23)"
    using big_init_correct [OF p, of "\<lambda>_. 0"] by blast
  then show ?thesis by (simp add: BIG_CLASSES_eq const_simps)
qed

text \<open>Medium spans inside the arena are carved the same way, from the medium table.\<close>

lemma span_init_arena:
  assumes "PAGE_SIZE dvd base" "mclass < NUM_MEDIUM" "0 < n" "n < 2 ^ 16"
  defines "bs \<equiv> MEDIUM_CLASSES ! mclass" and "k \<equiv> medium_capacity_for (MEDIUM_CLASSES ! mclass) n"
  obtains m' head where
    "span_init True m base mclass n = Some (m', master_of SPAN_MAGIC head k mclass n)"
    "chain m' head (rev (blocks_at (base + SPAN_MASTER_SIZE) bs k))" "k < 2 ^ 32"
    "\<And>c. c \<notin> set (blocks_at (base + SPAN_MASTER_SIZE) bs k) \<Longrightarrow> m' c = m c"
proof -
  have bs: "0 < bs" using MEDIUM_CLASSES_bounds [OF assms(2)] by (auto simp: bs_def const_simps)
  have k: "k = carve_count SPAN_MASTER_SIZE bs n"
    using assms(3) by (simp add: k_def bs_def medium_capacity_for_def carve_count_def const_simps)
  have r: "SPAN_MASTER_SIZE \<le> n * PAGE_SIZE" using page_reserve_le [OF assms(3)] by (simp add: const_simps)
  obtain m' head where c: "carve_loop (m, null) 0 (base + SPAN_MASTER_SIZE) bs (base + n * PAGE_SIZE)
       = Some ((m', head), k)"
    "chain m' head (rev (blocks_at (base + SPAN_MASTER_SIZE) bs k))"
    "\<And>c. c \<notin> set (blocks_at (base + SPAN_MASTER_SIZE) bs k) \<Longrightarrow> m' c = m c"
    unfolding k by (rule carve_contiguous [OF bs _ r, of m base]) (auto simp: const_simps)
  have "span_init True m base mclass n = Some (m', master_of SPAN_MAGIC head k mclass n)"
    using c(1) by (simp add: span_init_def bs_def)
  then show thesis using c carve_count_small [OF assms(4)] k that by simp
qed

text \<open>The comment above \<open>SpanMaster\<close> says that blocks are sliced per page so that none straddles a
  page base.  The arena branch does not do that: the second block of the top medium class starts
  exactly at the second page, and blocks of other classes cross page bases.\<close>

lemma arena_blocks_straddle_pages:
  "65536 + SPAN_MASTER_SIZE + 65472 \<in> set (blocks_at (65536 + SPAN_MASTER_SIZE) (MEDIUM_CLASSES ! 11)
       (medium_capacity_for (MEDIUM_CLASSES ! 11) 8))"
  "page_of (65536 + SPAN_MASTER_SIZE + 65472) = 2 * 65536"
  by (auto simp: set_blocks_at MEDIUM_CLASSES_eq medium_capacity_for_def const_simps page_of_def
      mask_down_def intro!: exI [of _ 1])

section \<open>Carving page by page\<close>

definition chunk_reserve :: "nat \<Rightarrow> nat" where
  "chunk_reserve page = (if page = 0 then SPAN_MASTER_SIZE else SPAN_SUB_SIZE)"

definition chunk_blocks :: "addr \<Rightarrow> nat \<Rightarrow> nat \<Rightarrow> addr list" where
  "chunk_blocks base bs page =
     blocks_at (base + page * PAGE_SIZE + chunk_reserve page) bs ((PAGE_SIZE - chunk_reserve page) div bs)"

definition legacy_blocks :: "addr \<Rightarrow> nat \<Rightarrow> nat \<Rightarrow> nat \<Rightarrow> addr list" where
  "legacy_blocks base bs page left = concat (map (chunk_blocks base bs) [page..<page + left])"

lemma chunk_blocks_inside:
  assumes "b \<in> set (chunk_blocks base bs page)"
  shows "base + page * PAGE_SIZE + chunk_reserve page \<le> b" "b + bs \<le> base + (page + 1) * PAGE_SIZE"
proof -
  have "(PAGE_SIZE - chunk_reserve page) div bs * bs \<le> PAGE_SIZE - chunk_reserve page" by simp
  moreover have "chunk_reserve page \<le> PAGE_SIZE" by (simp add: chunk_reserve_def const_simps)
  moreover have "base + page * PAGE_SIZE + chunk_reserve page \<le> b"
    "b + bs \<le> base + page * PAGE_SIZE + chunk_reserve page
       + (PAGE_SIZE - chunk_reserve page) div bs * bs"
    using blocks_at_inside assms by (auto simp: chunk_blocks_def)
  moreover have "(page + 1) * PAGE_SIZE = page * PAGE_SIZE + PAGE_SIZE" by simp
  ultimately show "base + page * PAGE_SIZE + chunk_reserve page \<le> b"
    "b + bs \<le> base + (page + 1) * PAGE_SIZE" by linarith+
qed

lemma legacy_blocks_Suc:
  "legacy_blocks base bs page (Suc left) = chunk_blocks base bs page @ legacy_blocks base bs (Suc page) left"
  by (simp add: legacy_blocks_def upt_conv_Cons del: upt_Suc)

lemma legacy_blocks_mem:
  "b \<in> set (legacy_blocks base bs page left)
     \<longleftrightarrow> (\<exists>i. page \<le> i \<and> i < page + left \<and> b \<in> set (chunk_blocks base bs i))"
  by (auto simp: legacy_blocks_def)

lemma distinct_legacy_blocks: "0 < bs \<Longrightarrow> distinct (legacy_blocks base bs page left)"
proof (induction left arbitrary: page)
  case (Suc left)
  have "b \<notin> set (legacy_blocks base bs (Suc page) left)" if "b \<in> set (chunk_blocks base bs page)" for b
  proof
    assume "b \<in> set (legacy_blocks base bs (Suc page) left)"
    then obtain i where i: "Suc page \<le> i" "b \<in> set (chunk_blocks base bs i)"
      by (auto simp: legacy_blocks_mem)
    have "(page + 1) * PAGE_SIZE \<le> i * PAGE_SIZE" using i(1) by (intro mult_le_mono1) simp
    then show False
      using chunk_blocks_inside(1) [OF i(2)] chunk_blocks_inside(2) [OF that] Suc.prems by linarith
  qed
  moreover have "distinct (chunk_blocks base bs page)" using Suc.prems by (simp add: chunk_blocks_def)
  ultimately show ?case using Suc by (auto simp: legacy_blocks_Suc)
qed (simp add: legacy_blocks_def)

lemma carve_pages_push:
  assumes "0 < bs"
  shows "carve_pages s cnt base bs page left
    = Some (foldl push_block s (legacy_blocks base bs page left), cnt + length (legacy_blocks base bs page left))"
proof (induction left arbitrary: s cnt page)
  case (Suc left)
  have "carve_loop s cnt (base + page * PAGE_SIZE + chunk_reserve page) bs (base + page * PAGE_SIZE + PAGE_SIZE)
      = Some (foldl push_block s (chunk_blocks base bs page), cnt + length (chunk_blocks base bs page))"
    by (simp add: carve_loop_push [OF assms] chunk_blocks_def)
  then show ?case
    by (auto simp: Let_def Suc.IH legacy_blocks_Suc chunk_reserve_def split: if_splits)
qed (simp add: legacy_blocks_def)

lemma legacy_blocks_count:
  "length (legacy_blocks base bs (Suc page) left) = left * ((PAGE_SIZE - SPAN_SUB_SIZE) div bs)"
proof (induction left arbitrary: page)
  case (Suc left)
  then show ?case by (simp add: legacy_blocks_Suc chunk_blocks_def chunk_reserve_def)
qed (simp add: legacy_blocks_def)

lemma legacy_blocks_capacity:
  "0 < n \<Longrightarrow> length (legacy_blocks base bs 0 n) = medium_capacity_legacy_for bs n"
  using legacy_blocks_count [of base bs 0 "n - 1"]
  by (cases n) (simp_all add: legacy_blocks_Suc chunk_blocks_def chunk_reserve_def
      medium_capacity_legacy_for_def const_simps)

lemma write_subs_at:
  "0 < i \<Longrightarrow> i \<le> n \<Longrightarrow> write_subs m base n (base + i * PAGE_SIZE) = SPAN_SUBMAGIC
     \<and> write_subs m base n (base + i * PAGE_SIZE + 8) = base"
proof (induction n)
  case (Suc n)
  show ?case
  proof (cases "i = Suc n")
    case False
    then have "i * PAGE_SIZE + PAGE_SIZE \<le> Suc n * PAGE_SIZE"
      using Suc.prems mult_le_mono1 [of "Suc i" "Suc n" PAGE_SIZE] by simp
    then have "base + i * PAGE_SIZE + 8 < base + Suc n * PAGE_SIZE" by (simp add: const_simps)
    then show ?thesis using Suc False by auto
  qed simp
qed simp

lemma legacy_capacity_small:
  assumes "c < NUM_MEDIUM" "n < 2 ^ 16"
  shows "medium_capacity_legacy_for (MEDIUM_CLASSES ! c) n < 2 ^ 32"
proof -
  have b: "16384 < MEDIUM_CLASSES ! c" using MEDIUM_CLASSES_bounds [OF assms(1)] by (simp add: const_simps)
  have "65472 div MEDIUM_CLASSES ! c < 4" "65520 div MEDIUM_CLASSES ! c < 4"
    using b by (simp_all add: div_less_iff_less_mult)
  moreover have "(n - 1) * (65520 div MEDIUM_CLASSES ! c) \<le> (n - 1) * 3"
    using calculation(2) by (intro mult_le_mono2) simp
  moreover have "medium_capacity_legacy_for (MEDIUM_CLASSES ! c) n
      \<le> 65472 div MEDIUM_CLASSES ! c + (n - 1) * (65520 div MEDIUM_CLASSES ! c)"
    by (simp add: medium_capacity_legacy_for_def const_simps)
  ultimately have "medium_capacity_legacy_for (MEDIUM_CLASSES ! c) n < 4 + (n - 1) * 3" by linarith
  moreover have "n < 65536" using assms(2) by simp
  ultimately show ?thesis by (simp split: nat_diff_split_asm)
qed

lemma legacy_blocks_off_subs:
  assumes "PAGE_SIZE dvd base" "b \<in> set (legacy_blocks base bs 0 n)" "0 < bs"
  shows "b \<noteq> base + i * PAGE_SIZE \<and> b \<noteq> base + i * PAGE_SIZE + 8"
proof -
  obtain j where j: "b \<in> set (chunk_blocks base bs j)" using assms(2) by (auto simp: legacy_blocks_mem)
  have r: "16 \<le> chunk_reserve j" by (simp add: chunk_reserve_def const_simps)
  note in_chunk = chunk_blocks_inside [OF j]
  consider "i \<le> j" | "j + 1 \<le> i" by linarith
  then show ?thesis
  proof cases
    case 1
    then have "i * PAGE_SIZE \<le> j * PAGE_SIZE" by (rule mult_le_mono1)
    then show ?thesis using in_chunk r by linarith
  next
    case 2
    then have "(j + 1) * PAGE_SIZE \<le> i * PAGE_SIZE" by (rule mult_le_mono1)
    then show ?thesis using in_chunk assms(3) by linarith
  qed
qed

lemma legacy_blocks_aligned:
  assumes "PAGE_SIZE dvd base" "16 dvd bs" "b \<in> set (legacy_blocks base bs 0 n)"
  shows "16 dvd b"
proof -
  have p: "16 dvd PAGE_SIZE" by (simp add: const_simps)
  obtain j where "b \<in> set (chunk_blocks base bs j)" using assms(3) by (auto simp: legacy_blocks_mem)
  moreover have "16 dvd base + j * PAGE_SIZE + chunk_reserve j"
    using dvd_trans [OF p assms(1)] p by (auto simp: chunk_reserve_def const_simps)
  ultimately show ?thesis using assms(2) blocks_at_dvd unfolding chunk_blocks_def by blast
qed

text \<open>What \<open>SpanMaster::init\<close> leaves in a mapping outside the arena.\<close>

lemma legacy_block_in_page:
  "b \<in> set (legacy_blocks base bs 0 n) \<Longrightarrow>
   \<exists>i < n. base + i * PAGE_SIZE + chunk_reserve i \<le> b \<and> b + bs \<le> base + (i + 1) * PAGE_SIZE"
  using chunk_blocks_inside by (auto simp: legacy_blocks_mem)

lemma write_subs_frame: "a \<notin> {base ..< base + (n + 1) * PAGE_SIZE} \<Longrightarrow> write_subs m base n a = m a"
proof (induction n)
  case (Suc n)
  have "a \<noteq> base + Suc n * PAGE_SIZE \<and> a \<noteq> base + Suc n * PAGE_SIZE + 8"
    using Suc.prems by (auto simp: const_simps)
  moreover have "a \<notin> {base ..< base + (n + 1) * PAGE_SIZE}" using Suc.prems by auto
  ultimately show ?case using Suc.IH by simp
qed simp

lemma span_init_legacy:
  fixes base :: addr and m :: cells
  assumes "0 < base" "mclass < NUM_MEDIUM" "0 < n" "n < 2 ^ 16"
  defines "bl \<equiv> legacy_blocks base (MEDIUM_CLASSES ! mclass) 0 n"
  obtains m' head where
    "span_init False m base mclass n = Some (m', master_of SPAN_MAGIC head (length bl) mclass n)"
    "chain m' head (rev bl)" "distinct bl" "length bl = medium_capacity_legacy_for (MEDIUM_CLASSES ! mclass) n"
    "length bl < 2 ^ 32" "\<And>c. c \<notin> set bl \<Longrightarrow> m' c = write_subs m base (n - 1) c"
proof -
  let ?bs = "MEDIUM_CLASSES ! mclass" and ?m = "write_subs m base (n - 1)"
  have bs: "0 < ?bs" using MEDIUM_CLASSES_bounds [OF assms(2)] by (auto simp: const_simps)
  have len: "length bl = medium_capacity_legacy_for ?bs n" unfolding bl_def by (rule legacy_blocks_capacity [OF assms(3)])
  have d: "distinct bl" unfolding bl_def by (rule distinct_legacy_blocks [OF bs])
  have nz: "0 \<notin> set bl" using legacy_block_in_page assms(1) unfolding bl_def by fastforce
  define m' where "m' = fst (foldl push_block (?m, null) bl)"
  define head where "head = snd (foldl push_block (?m, null) bl)"
  have "span_init False m base mclass n = Some (m', master_of SPAN_MAGIC head (length bl) mclass n)"
    by (simp add: span_init_def carve_pages_push [OF bs] m'_def head_def bl_def split: prod.splits)
  moreover have "chain m' head (rev bl)"
    using push_blocks_chain [of ?m 0 "[]" bl] nz d by (simp add: m'_def head_def)
  moreover have "m' c = ?m c" if "c \<notin> set bl" for c
    using push_all_frame [OF that, of "(?m, null)"] by (simp add: m'_def)
  ultimately show thesis using that len d legacy_capacity_small [OF assms(2,4)] by simp
qed

text \<open>C26 (medium spans outside the arena).  \<open>SpanMaster::init\<close> carves each page separately:
  the blocks never leave their page and never cover a header, all of them are on the free list, the
  count agrees with \<open>medium_capacity_legacy_for\<close>, and afterwards \<open>SpanMaster::of\<close> maps every
  address of the mapping (block or header, first page or sub-page) to the master.\<close>

theorem span_init_legacy_correct:
  assumes "PAGE_SIZE dvd base" "0 < base" "mclass < NUM_MEDIUM" "0 < n" "n < 2 ^ 16"
  shows "\<exists>m' s. span_init False m base mclass n = Some (m', s)
    \<and> free_count s = medium_capacity_legacy_for (MEDIUM_CLASSES ! mclass) n
    \<and> chain m' (free_head s) (rev (legacy_blocks base (MEDIUM_CLASSES ! mclass) 0 n))
    \<and> length (legacy_blocks base (MEDIUM_CLASSES ! mclass) 0 n) = free_count s
    \<and> (\<forall>b \<in> set (legacy_blocks base (MEDIUM_CLASSES ! mclass) 0 n). 16 dvd b \<and> span_contains base s b
         \<and> (\<exists>i < n. base + i * PAGE_SIZE + chunk_reserve i \<le> b
              \<and> b + MEDIUM_CLASSES ! mclass \<le> base + (i + 1) * PAGE_SIZE))
    \<and> (\<forall>p. base \<le> p \<and> p < base + n * PAGE_SIZE \<longrightarrow>
         span_of (\<lambda>_. False) tbl (\<lambda>a. if a = base then h_magic s else m' a) m' p = base)"
proof -
  let ?bs = "MEDIUM_CLASSES ! mclass" and ?m = "write_subs m base (n - 1)"
  let ?bl = "legacy_blocks base ?bs 0 n"
  have bs: "0 < ?bs" "16 dvd ?bs" using MEDIUM_CLASSES_bounds [OF assms(3)] by (auto simp: const_simps)
  note inside = legacy_block_in_page [of _ base ?bs n]
  obtain m' head where i: "span_init False m base mclass n = Some (m', master_of SPAN_MAGIC head (length ?bl) mclass n)"
    "chain m' head (rev ?bl)" "length ?bl = medium_capacity_legacy_for ?bs n" "\<And>c. c \<notin> set ?bl \<Longrightarrow> m' c = ?m c"
    using span_init_legacy [OF assms(2-5), of m] by blast
  note len = i(3) and frame = i(4)
  define s where "s = master_of SPAN_MAGIC head (length ?bl) mclass n"
  have init: "span_init False m base mclass n = Some (m', s)" using i(1) by (simp add: s_def)
  have fields: "free_count s = length ?bl" "free_head s = head" "npages s = n" "h_magic s = SPAN_MAGIC"
    "h_class s = mclass"
    using legacy_capacity_small [OF assms(3,5)] assms(3,5) by (simp_all add: s_def master_of_def len const_simps)
  note ch = i(2)
  have cont: "span_contains base s b" if mem: "b \<in> set ?bl" for b
  proof -
    obtain i where i: "i < n" "base + i * PAGE_SIZE + chunk_reserve i \<le> b"
      "b + ?bs \<le> base + (i + 1) * PAGE_SIZE" using inside [OF mem] by blast
    have "(i + 1) * PAGE_SIZE \<le> n * PAGE_SIZE" using i(1) by (intro mult_le_mono1) simp
    moreover have "0 < chunk_reserve i" by (simp add: chunk_reserve_def const_simps)
    ultimately have "base < b" "b < base + n * PAGE_SIZE" using i bs(1) by linarith+
    then show ?thesis using assms(3,4) by (simp add: span_contains_def span_mapped_bytes_def fields)
  qed
  have lookup: "span_of (\<lambda>_. False) tbl (\<lambda>a. if a = base then h_magic s else m' a) m' p = base"
    if "base \<le> p" "p < base + n * PAGE_SIZE" for p
  proof -
    define i where "i = (p - base) div PAGE_SIZE"
    have i: "base + i * PAGE_SIZE \<le> p" "p < base + i * PAGE_SIZE + PAGE_SIZE" "i < n"
      using that by (auto simp: i_def div_less_iff_less_mult const_simps)
    have page: "mask_down PAGE_SIZE p = base + i * PAGE_SIZE"
      by (rule mask_down_unique) (use assms(1) i in auto)
    have "m' (base + i * PAGE_SIZE) = ?m (base + i * PAGE_SIZE)"
      "m' (base + i * PAGE_SIZE + 8) = ?m (base + i * PAGE_SIZE + 8)"
      using legacy_blocks_off_subs [OF assms(1) _ bs(1)] by (blast intro: frame)+
    moreover have "?m (base + i * PAGE_SIZE) = SPAN_SUBMAGIC \<and> ?m (base + i * PAGE_SIZE + 8) = base" if "0 < i"
      using write_subs_at [of i "n - 1" m base] i(3) that by simp
    ultimately show ?thesis using magics_distinct
      by (cases "i = 0") (auto simp: span_of_def page fields)
  qed
  show ?thesis
    using init ch cont inside lookup legacy_blocks_aligned [OF assms(1) bs(2)]
    by (intro exI [of _ m'] exI [of _ s]) (auto simp: fields len)
qed

theorem span_init_legacy_correct_witness:
  "\<exists>m' s. span_init False (\<lambda>_. 0) 65536 4 4 = Some (m', s) \<and> free_count s = 8
     \<and> span_of (\<lambda>_. False) (\<lambda>_. 0) (\<lambda>a. if a = 65536 then h_magic s else m' a) m' 200000 = 65536"
proof -
  have p: "PAGE_SIZE dvd 65536" "(0 :: nat) < 65536" "4 < NUM_MEDIUM" "0 < (4 :: nat)" "(4 :: nat) < 2 ^ 16"
    by (simp_all add: const_simps)
  obtain m' s where s: "span_init False (\<lambda>_. 0) 65536 4 4 = Some (m', s)"
    "free_count s = medium_capacity_legacy_for (MEDIUM_CLASSES ! 4) 4"
    "\<forall>p. 65536 \<le> p \<and> p < 65536 + 4 * PAGE_SIZE \<longrightarrow>
         span_of (\<lambda>_. False) (\<lambda>_. 0) (\<lambda>a. if a = 65536 then h_magic s else m' a) m' p = 65536"
    using span_init_legacy_correct [OF p, of "\<lambda>_. 0" "\<lambda>_. 0"] by blast
  have "medium_capacity_legacy_for (MEDIUM_CLASSES ! 4) 4 = 8"
    by (simp add: medium_capacity_legacy_for_def MEDIUM_CLASSES_eq const_simps)
  then show ?thesis using s(1,2) s(3) [rule_format, of 200000] by (auto simp: const_simps)
qed

end
