(* ===== verification/Partial_List.thy ===== *)
theory Partial_List
  imports Page_Layout
begin

text \<open>
  The doubly linked lists of pages and spans with spare blocks (\<open>src/src/heap.rs\<close>): the source writes
  the same pair of functions three times, for \<open>PageHeader\<close>, \<open>SpanMaster\<close> and \<open>BigMaster\<close>.  The
  model states them once over the common header fields; the state is the map of headers and the
  list head.  \<open>partial_list\<close> is the representation invariant, the locale \<open>page_list\<close> the
  interface the three heaps use.
\<close>

type_synonym 'a headers = "addr \<Rightarrow> 'a header_scheme"

section \<open>Operations\<close>

definition link_partial :: "'a headers \<times> addr \<Rightarrow> addr \<Rightarrow> 'a headers \<times> addr" where
  "link_partial s p =
     (let (h, lst) = s;
          h1 = h(p := (h p)\<lparr>h_prev := null, h_next := lst\<rparr>);
          h2 = (if lst \<noteq> null then h1(lst := (h1 lst)\<lparr>h_prev := p\<rparr>) else h1);
          h3 = h2(p := (h2 p)\<lparr>h_flags := set_flag (h_flags (h2 p)) FLAG_IN_PARTIAL\<rparr>)
      in (h3, p))"

definition unlink_partial :: "'a headers \<times> addr \<Rightarrow> addr \<Rightarrow> ('a headers \<times> addr) \<times> bool" where
  "unlink_partial s p =
     (let (h, lst) = s in
      if \<not> has_flag (h_flags (h p)) FLAG_IN_PARTIAL then ((h, lst), False)
      else
        let prv = h_prev (h p); nxt = h_next (h p);
            h1 = (if prv \<noteq> null then h(prv := (h prv)\<lparr>h_next := nxt\<rparr>) else h);
            lst' = (if prv \<noteq> null then lst else nxt);
            h2 = (if nxt \<noteq> null then h1(nxt := (h1 nxt)\<lparr>h_prev := prv\<rparr>) else h1);
            h3 = h2(p := (h2 p)\<lparr>h_prev := null, h_next := null,
                              h_flags := clear_flag (h_flags (h2 p)) FLAG_IN_PARTIAL\<rparr>)
        in ((h3, lst'), True))"

section \<open>Representation\<close>

text \<open>A segment from \<open>x\<close>, entered from \<open>pv\<close>, through \<open>xs\<close>, leaving to \<open>e\<close>.\<close>

fun dseg :: "'a headers \<Rightarrow> addr \<Rightarrow> addr \<Rightarrow> addr list \<Rightarrow> addr \<Rightarrow> bool" where
  "dseg h pv x [] e = (x = e)"
| "dseg h pv x (y # ys) e = (x = y \<and> y \<noteq> null \<and> h_prev (h y) = pv \<and> dseg h y (h_next (h y)) ys e)"

definition partial_list :: "'a headers \<Rightarrow> addr \<Rightarrow> addr list \<Rightarrow> bool" where
  "partial_list h lst xs \<longleftrightarrow> dseg h null lst xs null \<and> distinct xs
     \<and> (\<forall>x \<in> set xs. has_flag (h_flags (h x)) FLAG_IN_PARTIAL)"

lemma dseg_cong:
  "(\<And>y. y \<in> set xs \<Longrightarrow> h_prev (h y) = h_prev (h' y) \<and> h_next (h y) = h_next (h' y))
     \<Longrightarrow> dseg h pv x xs e = dseg h' pv x xs e"
  by (induction xs arbitrary: pv x) auto

lemma dseg_append:
  "dseg h pv x (xs @ ys) e \<longleftrightarrow> (\<exists>q. dseg h pv x xs q \<and> dseg h (last (pv # xs)) q ys e)"
  by (induction xs arbitrary: pv x) auto

lemma dseg_nonnull: "dseg h pv x xs e \<Longrightarrow> 0 \<notin> set xs"
  by (induction xs arbitrary: pv x) auto

lemma dseg_head: "dseg h pv x xs 0 \<Longrightarrow> x = (case xs of [] \<Rightarrow> 0 | y # _ \<Rightarrow> y)"
  by (cases xs) auto

lemma dseg_new_prev:
  assumes "dseg h pv x xs 0" "distinct xs"
  shows "dseg (if x \<noteq> 0 then h(x := (h x)\<lparr>h_prev := pv'\<rparr>) else h) pv' x xs 0"
proof (cases xs)
  case (Cons y ys)
  have "dseg h y (h_next (h y)) ys 0" "y \<notin> set ys" "x = y" "y \<noteq> 0" using assms Cons by auto
  moreover from this have "dseg (h(y := (h y)\<lparr>h_prev := pv'\<rparr>)) y (h_next (h y)) ys 0"
    by (subst dseg_cong [of _ _ h]) auto
  ultimately show ?thesis using Cons by simp
qed (use assms in auto)

lemma dseg_new_next:
  assumes "dseg h pv x (xs @ [a]) q" "a \<notin> set xs"
  shows "dseg (h(a := (h a)\<lparr>h_next := n\<rparr>)) pv x (xs @ [a]) n"
proof -
  obtain r where r: "dseg h pv x xs r" "r = a" "a \<noteq> 0" "h_prev (h a) = last (pv # xs)"
    using assms(1) by (auto simp: dseg_append)
  have "dseg (h(a := (h a)\<lparr>h_next := n\<rparr>)) pv x xs r"
    using r(1) assms(2) by (subst dseg_cong [of _ _ h]) auto
  then show ?thesis using r by (auto simp: dseg_append)
qed

section \<open>What the operations change\<close>

text \<open>
  Linking writes only the link fields, and the list flag of the page itself; \<open>relinked\<close> says so.
\<close>

definition same_body :: "'a header_scheme \<Rightarrow> 'a header_scheme \<Rightarrow> bool" where
  "same_body a b \<longleftrightarrow> a\<lparr>h_prev := 0, h_next := 0, h_flags := 0\<rparr> = b\<lparr>h_prev := 0, h_next := 0, h_flags := 0\<rparr>"

definition relinked :: "addr \<Rightarrow> 'a headers \<Rightarrow> 'a headers \<Rightarrow> bool" where
  "relinked p h h' \<longleftrightarrow> (\<forall>q. same_body (h q) (h' q) \<and> (q \<noteq> p \<longrightarrow> h_flags (h' q) = h_flags (h q))
     \<and> (\<forall>n. n \<noteq> 0 \<longrightarrow> bit (h_flags (h' q)) n = bit (h_flags (h q)) n))"

lemma same_body_refl [simp]: "same_body a a"
  by (simp add: same_body_def)

lemma same_body_trans: "same_body a b \<Longrightarrow> same_body b c \<Longrightarrow> same_body a c"
  by (simp add: same_body_def)

lemma same_body_fields:
  assumes "same_body a b"
  shows "free_head b = free_head a" "free_count b = free_count a" "used b = used a"
    "h_class b = h_class a" "h_magic b = h_magic a" "owner b = owner a"
proof -
  let ?c = "\<lambda>x. x\<lparr>h_prev := 0, h_next := 0, h_flags := 0\<rparr>"
  have e: "?c a = ?c b" using assms by (simp add: same_body_def)
  show "free_head b = free_head a" using arg_cong [OF e, of free_head] by simp
  show "free_count b = free_count a" using arg_cong [OF e, of free_count] by simp
  show "used b = used a" using arg_cong [OF e, of used] by simp
  show "h_class b = h_class a" using arg_cong [OF e, of h_class] by simp
  show "h_magic b = h_magic a" using arg_cong [OF e, of h_magic] by simp
  show "owner b = owner a" using arg_cong [OF e, of owner] by simp
qed

lemma same_body_updates [simp]:
  "same_body a (b\<lparr>h_prev := x\<rparr>) = same_body a b" "same_body a (b\<lparr>h_next := y\<rparr>) = same_body a b"
  "same_body a (b\<lparr>h_flags := f\<rparr>) = same_body a b"
  by (simp_all add: same_body_def)

lemma set_flag_bits: "bit (set_flag f FLAG_IN_PARTIAL) n \<longleftrightarrow> bit f n \<or> n = 0"
  by (auto simp: set_flag_def flag_defs bit_simps)

lemma clear_flag_bits: "bit (clear_flag f FLAG_IN_PARTIAL) n \<longleftrightarrow> bit f n \<and> n \<noteq> 0"
  by (auto simp: clear_flag_def flag_defs bit_simps dest: bit_imp_le_length)

section \<open>The laws\<close>

lemma link_partial_list:
  assumes "partial_list h lst xs" "p \<noteq> 0" "p \<notin> set xs"
  shows "partial_list (fst (link_partial (h, lst) p)) (snd (link_partial (h, lst) p)) (p # xs)
    \<and> relinked p h (fst (link_partial (h, lst) p))
    \<and> (\<forall>q. q \<notin> insert p (set xs) \<longrightarrow> fst (link_partial (h, lst) p) q = h q)"
proof -
  define h' where "h' = fst (link_partial (h, lst) p)"
  have d: "dseg h 0 lst xs 0" "distinct xs" using assms(1) by (auto simp: partial_list_def)
  have lst: "lst \<noteq> p" using dseg_head [OF d(1)] assms(2,3) by (auto split: list.splits)
  have h'p: "h_prev (h' p) = 0" "h_next (h' p) = lst" "has_flag (h_flags (h' p)) FLAG_IN_PARTIAL"
    using lst by (auto simp: h'_def link_partial_def Let_def flag_bits set_flag_bits)
  have "dseg (if lst \<noteq> 0 then h(lst := (h lst)\<lparr>h_prev := p\<rparr>) else h) p lst xs 0"
    by (rule dseg_new_prev [OF d])
  then have "dseg h' p lst xs 0"
    by (rule iffD1 [OF dseg_cong, rotated]) (use assms(3) lst in \<open>auto simp: h'_def link_partial_def Let_def\<close>)
  moreover have "has_flag (h_flags (h' x)) FLAG_IN_PARTIAL" if "x \<in> set xs" for x
    using assms(1,3) that by (auto simp: h'_def link_partial_def Let_def partial_list_def)
  moreover have "relinked p h h'"
    by (auto simp: relinked_def h'_def link_partial_def Let_def set_flag_bits)
  moreover have "h' q = h q" if "q \<notin> insert p (set xs)" for q
    using that dseg_head [OF d(1)] by (auto simp: h'_def link_partial_def Let_def split: list.splits)
  moreover have "link_partial (h, lst) p = (h', p)" by (simp add: h'_def link_partial_def Let_def)
  ultimately show ?thesis using h'p d assms(2,3) by (simp add: partial_list_def)
qed

lemma unlink_partial_list:
  assumes "partial_list h lst xs" "p \<in> set xs"
  shows "\<exists>h' lst'. unlink_partial (h, lst) p = ((h', lst'), True) \<and> partial_list h' lst' (remove1 p xs)
    \<and> relinked p h h' \<and> \<not> has_flag (h_flags (h' p)) FLAG_IN_PARTIAL
    \<and> (\<forall>q. q \<notin> set xs \<longrightarrow> h' q = h q)"
proof -
  obtain as bs where xs: "xs = as @ p # bs" "p \<notin> set as" using assms(2) by (meson split_list_first)
  have d: "dseg h 0 lst xs 0" "distinct xs" "has_flag (h_flags (h p)) FLAG_IN_PARTIAL"
    "\<forall>x \<in> set xs. has_flag (h_flags (h x)) FLAG_IN_PARTIAL"
    using assms by (auto simp: partial_list_def)
  have "p \<noteq> 0" using dseg_nonnull [OF d(1)] assms(2) by metis
  define prv where "prv = h_prev (h p)"
  define nxt where "nxt = h_next (h p)"
  have seg: "dseg h 0 lst as p" "prv = last (0 # as)" "dseg h p nxt bs 0"
    using d(1) by (auto simp: xs dseg_append prv_def nxt_def)
  define h1 where "h1 = (if prv \<noteq> 0 then h(prv := (h prv)\<lparr>h_next := nxt\<rparr>) else h)"
  define h2 where "h2 = (if nxt \<noteq> 0 then h1(nxt := (h1 nxt)\<lparr>h_prev := prv\<rparr>) else h1)"
  define h3 where "h3 = h2(p := (h2 p)\<lparr>h_prev := 0, h_next := 0,
                              h_flags := clear_flag (h_flags (h2 p)) FLAG_IN_PARTIAL\<rparr>)"
  define lst' where "lst' = (if prv \<noteq> 0 then lst else nxt)"
  have res: "unlink_partial (h, lst) p = ((h3, lst'), True)"
    by (simp add: unlink_partial_def Let_def d(3) h1_def h2_def h3_def lst'_def prv_def nxt_def)
  have rel: "relinked p h h3"
    by (auto simp: relinked_def h1_def h2_def h3_def clear_flag_bits)
  have ndp: "p \<notin> set bs" "set as \<inter> set bs = {}" "distinct as" "distinct bs" using d(2) xs by auto
  have nz: "0 \<notin> set as" "0 \<notin> set bs" using dseg_nonnull [OF d(1)] xs by auto
  have nxt_in: "nxt \<noteq> 0 \<Longrightarrow> nxt \<in> set bs" using dseg_head [OF seg(3)] by (auto split: list.splits)
  have "as \<noteq> [] \<Longrightarrow> prv = last as \<and> prv \<in> set as" "as = [] \<Longrightarrow> prv = 0"
    using seg(2) by simp_all
  then have prv_in: "prv \<noteq> 0 \<longleftrightarrow> as \<noteq> []" "prv \<noteq> 0 \<Longrightarrow> prv \<in> set as"
    using nz(1) by metis+
  have bs: "dseg h1 p nxt bs 0"
    using seg(3) prv_in(2) ndp by (subst dseg_cong [of _ _ h]) (auto simp: h1_def)
  have "dseg h2 prv nxt bs 0" unfolding h2_def by (rule dseg_new_prev [OF bs ndp(4)])
  then have bs3: "dseg h3 prv nxt bs 0"
    by (rule iffD1 [OF dseg_cong, rotated]) (use ndp in \<open>auto simp: h3_def\<close>)
  have as1: "dseg h1 0 lst' as nxt"
  proof (cases as rule: rev_cases)
    case Nil
    then show ?thesis using prv_in(1) by (simp add: lst'_def)
  next
    case (snoc as' a)
    then have "prv = a" "prv \<noteq> 0" using seg(2) prv_in(1) by auto
    then show ?thesis
      using dseg_new_next [of h 0 lst as' a p nxt] seg(1) snoc ndp(3) by (simp add: h1_def lst'_def)
  qed
  have "dseg h3 0 lst' as nxt"
    by (rule iffD1 [OF dseg_cong as1]) (use nxt_in ndp xs(2) in \<open>auto simp: h2_def h3_def\<close>)
  then have "dseg h3 0 lst' (as @ bs) 0" using bs3 seg(2) by (auto simp: dseg_append)
  moreover have "has_flag (h_flags (h3 x)) FLAG_IN_PARTIAL" if "x \<in> set (as @ bs)" for x
  proof -
    have "x \<noteq> p" "has_flag (h_flags (h x)) FLAG_IN_PARTIAL" using that d(4) xs ndp(1) by auto
    then show ?thesis using rel by (simp add: relinked_def)
  qed
  ultimately have "partial_list h3 lst' (remove1 p xs)"
    using ndp xs by (auto simp: partial_list_def remove1_append)
  moreover have "\<not> has_flag (h_flags (h3 p)) FLAG_IN_PARTIAL"
    by (simp add: h3_def flag_bits clear_flag_bits)
  moreover have "h3 q = h q" if "q \<notin> set xs" for q
    using that prv_in nxt_in xs by (auto simp: h1_def h2_def h3_def)
  ultimately show ?thesis using res rel by blast
qed

lemma unlink_unlinked:
  "\<not> has_flag (h_flags (h p)) FLAG_IN_PARTIAL \<Longrightarrow> unlink_partial (h, lst) p = ((h, lst), False)"
  by (simp add: unlink_partial_def)

text \<open>The list does not depend on the other fields of its members.\<close>

lemma partial_list_upd:
  assumes "partial_list h lst xs" "h_prev x = h_prev (h p)" "h_next x = h_next (h p)"
    "has_flag (h_flags x) FLAG_IN_PARTIAL = has_flag (h_flags (h p)) FLAG_IN_PARTIAL"
  shows "partial_list (h(p := x)) lst xs"
proof -
  have "dseg (h(p := x)) 0 lst xs 0"
    by (subst dseg_cong [of xs _ h]) (use assms in \<open>auto simp: partial_list_def\<close>)
  then show ?thesis using assms by (auto simp: partial_list_def)
qed

lemma partial_list_upd_outside:
  assumes "partial_list h lst xs" "p \<notin> set xs"
  shows "partial_list (h(p := x)) lst xs"
proof -
  have "dseg (h(p := x)) 0 lst xs 0"
    by (subst dseg_cong [of xs _ h]) (use assms in \<open>auto simp: partial_list_def\<close>)
  then show ?thesis using assms by (auto simp: partial_list_def)
qed

text \<open>Headers other than that of \<open>p\<close> keep everything but their links.\<close>

definition untouched :: "addr \<Rightarrow> 'a headers \<Rightarrow> 'a headers \<Rightarrow> bool" where
  "untouched p h h' \<longleftrightarrow> (\<forall>q. q \<noteq> p \<longrightarrow> same_body (h q) (h' q) \<and> h_flags (h' q) = h_flags (h q))"

lemma untouched_refl [simp]: "untouched p h h" "untouched p h (h(p := x))"
  by (simp_all add: untouched_def)

lemma untouched_trans: "untouched p h h' \<Longrightarrow> untouched p h' h'' \<Longrightarrow> untouched p h h''"
  using same_body_trans by (fastforce simp: untouched_def)

lemma relinked_untouched: "relinked p h h' \<Longrightarrow> untouched p h h'"
  by (simp add: relinked_def untouched_def)

section \<open>The interface\<close>

text \<open>
  A list of pages: \<open>rep s xs\<close> says that state \<open>s\<close> holds the pages \<open>xs\<close> in order, and
  \<open>linked s p\<close> is the test the operations make on the page itself.
\<close>

locale page_list =
  fixes link :: "'s \<Rightarrow> addr \<Rightarrow> 's"
    and unlink :: "'s \<Rightarrow> addr \<Rightarrow> 's \<times> bool"
    and linked :: "'s \<Rightarrow> addr \<Rightarrow> bool"
    and first :: "'s \<Rightarrow> addr"
    and rep :: "'s \<Rightarrow> addr list \<Rightarrow> bool"
  assumes rep_link: "rep s xs \<Longrightarrow> p \<noteq> 0 \<Longrightarrow> p \<notin> set xs \<Longrightarrow> rep (link s p) (p # xs)"
    and rep_unlink: "rep s xs \<Longrightarrow> p \<in> set xs \<Longrightarrow> \<exists>s'. unlink s p = (s', True) \<and> rep s' (remove1 p xs)
                      \<and> \<not> linked s' p"
    and unlink_skip: "\<not> linked s p \<Longrightarrow> unlink s p = (s, False)"
    and rep_linked: "rep s xs \<Longrightarrow> p \<in> set xs \<Longrightarrow> linked s p"
    and rep_first: "rep s xs \<Longrightarrow> first s = (case xs of [] \<Rightarrow> 0 | x # _ \<Rightarrow> x)"
    and rep_wf: "rep s xs \<Longrightarrow> distinct xs \<and> 0 \<notin> set xs"
begin

lemma link_unlink:
  assumes "rep s xs" "p \<noteq> 0" "p \<notin> set xs"
  obtains s' where "unlink (link s p) p = (s', True)" "rep s' xs" "\<not> linked s' p"
  using rep_unlink [OF rep_link [OF assms], of p] by auto

lemma unlink_twice:
  assumes "rep s xs" "p \<in> set xs"
  shows "unlink (fst (unlink s p)) p = (fst (unlink s p), False)"
  using rep_unlink [OF assms] unlink_skip by fastforce

fun unlink_all :: "'s \<Rightarrow> addr list \<Rightarrow> 's" where
  "unlink_all s [] = s"
| "unlink_all s (p # ps) = unlink_all (fst (unlink s p)) ps"

lemma unlink_all_empties:
  "rep s xs \<Longrightarrow> rep (unlink_all s xs) []"
proof (induction xs arbitrary: s)
  case (Cons p xs)
  then obtain s' where "unlink s p = (s', True)" "rep s' xs" using rep_unlink [of s "p # xs" p] by auto
  then show ?case using Cons.IH by simp
qed simp

lemma link_all:
  "rep s xs \<Longrightarrow> distinct ps \<Longrightarrow> set ps \<inter> set xs = {} \<Longrightarrow> 0 \<notin> set ps \<Longrightarrow> rep (foldl link s ps) (rev ps @ xs)"
proof (induction ps arbitrary: s xs)
  case (Cons p ps)
  have "rep (foldl link (link s p) ps) (rev ps @ p # xs)"
    by (rule Cons.IH) (use Cons.prems rep_link in auto)
  then show ?case by simp
qed simp

end

text \<open>The header lists of the model implement the interface.\<close>

abbreviation header_linked :: "'a headers \<times> addr \<Rightarrow> addr \<Rightarrow> bool" where
  "header_linked s p \<equiv> has_flag (h_flags (fst s p)) FLAG_IN_PARTIAL"

abbreviation header_rep :: "'a headers \<times> addr \<Rightarrow> addr list \<Rightarrow> bool" where
  "header_rep s xs \<equiv> partial_list (fst s) (snd s) xs"

interpretation plist: page_list link_partial unlink_partial header_linked snd header_rep
proof (unfold_locales, goal_cases)
  case (1 s xs p)
  then show ?case using link_partial_list [of "fst s" "snd s" xs p] by simp
next
  case (2 s xs p)
  then show ?case using unlink_partial_list [of "fst s" "snd s" xs p] by fastforce
next
  case (3 s p)
  then show ?case using unlink_unlinked [of "fst s" p "snd s"] by simp
next
  case (5 s xs)
  then show ?case using dseg_head by (auto simp: partial_list_def split: list.splits)
next
  case (6 s xs)
  then show ?case using dseg_nonnull [of "fst s" 0 "snd s" xs 0] by (auto simp: partial_list_def)
qed (auto simp: partial_list_def)

end
