(* ===== verification/Small_Pages.thy ===== *)
theory Small_Pages
  imports Partial_List "HOL-Library.Monad_Syntax"
begin

text \<open>
  The small-page heap of \<open>src/src/heap.rs\<close>: one list of pages with spare blocks per size class, a
  short list of empty pages, an array of cold pages.  The model is of one class, under its lock:
  every operation of the source takes exactly one class lock and does all its list work inside, so
  an operation is one atomic step of the class state.

  Ownership is what the theorems are about.  \<open>avail\<close> is the set of blocks of a page that the page
  still owns (on its free list, or not materialised yet), \<open>live\<close> the rest: blocks in the hands of a
  thread.  \<open>take_blocks\<close> moves blocks from \<open>avail\<close> to \<open>live\<close> and hands out each one at most once,
  the release functions move them back.
\<close>

section \<open>State\<close>

definition REFILL_BATCH :: nat where [const_simps]: "REFILL_BATCH = 64"
definition EMPTY_PAGE_CACHE_PER_CLASS :: nat where [const_simps]: "EMPTY_PAGE_CACHE_PER_CLASS = 4"
definition MAX_COLD_PAGE_SLOTS :: nat where [const_simps]: "MAX_COLD_PAGE_SLOTS = 256"
definition MAX_COLD_PAGE_BYTES_PER_CLASS :: nat where
  [const_simps]: "MAX_COLD_PAGE_BYTES_PER_CLASS = 16 * 1024 * 1024"

record 'a heap_mem =
  cells_of :: cells
  hdrs_of :: "'a headers"

type_synonym page_mem = "unit heap_mem"

abbreviation hdr_at :: "'a heap_mem \<Rightarrow> addr \<Rightarrow> 'a header_scheme" where
  "hdr_at m p \<equiv> hdrs_of m p"

definition set_hdr :: "'a heap_mem \<Rightarrow> addr \<Rightarrow> 'a header_scheme \<Rightarrow> 'a heap_mem" where
  "set_hdr m p h = m\<lparr>hdrs_of := (hdrs_of m)(p := h)\<rparr>"

lemma set_hdr_simps [simp]:
  "cells_of (set_hdr m p h) = cells_of m"
  "hdrs_of (set_hdr m p h) = (hdrs_of m)(p := h)"
  by (simp_all add: set_hdr_def)

section \<open>Filling a chain from the partial list\<close>

text \<open>
  The link and unlink operations applied to the headers of the memory and a list head.
\<close>

definition mem_link :: "'a heap_mem \<Rightarrow> addr \<Rightarrow> addr \<Rightarrow> 'a heap_mem \<times> addr" where
  "mem_link m lst p = (let (h, lst') = link_partial (hdrs_of m, lst) p in (m\<lparr>hdrs_of := h\<rparr>, lst'))"

definition mem_unlink :: "'a heap_mem \<Rightarrow> addr \<Rightarrow> addr \<Rightarrow> ('a heap_mem \<times> addr) \<times> bool" where
  "mem_unlink m lst p =
     (let ((h, lst'), ok) = unlink_partial (hdrs_of m, lst) p in ((m\<lparr>hdrs_of := h\<rparr>, lst'), ok))"

text \<open>\<open>provision\<close> on the page header stored at \<open>p\<close>.\<close>

definition mem_provision :: "page_mem \<Rightarrow> addr \<Rightarrow> nat \<Rightarrow> page_mem \<times> nat" where
  "mem_provision m p want =
     (let (c, h, n) = provision (cells_of m) p (hdr_at m p) want
      in (set_hdr (m\<lparr>cells_of := c\<rparr>) p h, n))"

lemma push_loop_head:
  "snd (provision_loop s start b (Suc n)) = start"
proof -
  have "provision_loop s start b (Suc n) = push_block (provision_loop s (start + b) b n) start"
    by (simp only: provision_loop_push blocks_at_Cons rev.simps foldl_append foldl.simps)
  then show ?thesis by (simp add: push_block_def split: prod.splits)
qed

lemma provision_head:
  assumes "provision m p h want = (m', h', n)" "n \<noteq> 0"
  shows "free_head h' = p + HEADER_SIZE + (used h + free_count h) * CLASSES ! h_class h" "n \<le> want"
proof -
  define start where "start = p + HEADER_SIZE + (used h + free_count h) * CLASSES ! h_class h"
  obtain k where k: "n = Suc k" using assms(2) not0_implies_Suc by blast
  have e: "n = min (capacity h - (used h + free_count h)) want"
    "free_head h' = snd (provision_loop (m, free_head h) start (CLASSES ! h_class h) n)"
    using assms by (auto simp: provision_def Let_def start_def split: if_splits prod.splits)
  show "free_head h' = p + HEADER_SIZE + (used h + free_count h) * CLASSES ! h_class h"
    using e(2) by (simp add: k push_loop_head start_def del: provision_loop.simps)
  show "n \<le> want" using e(1) by simp
qed

lemma mem_provision_head:
  "0 < snd (mem_provision m p want) \<Longrightarrow> 0 < free_head (hdr_at (fst (mem_provision m p want)) p)"
  using provision_head(1) [of "cells_of m" p "hdr_at m p" want]
  by (auto simp: mem_provision_def HEADER_SIZE_def split: prod.splits)

text \<open>
  The inner loop of \<open>fill_from_list\<close>: pop blocks of one page onto the chain, materialising more when
  the page's list runs dry, until the batch is full or the page is exhausted and unlinked.
\<close>

function fill_page :: "page_mem \<Rightarrow> addr \<Rightarrow> addr \<Rightarrow> addr \<Rightarrow> nat \<Rightarrow> (page_mem \<times> addr) \<times> addr \<times> nat" where
  "fill_page m lst page ch cnt =
     (if cnt \<ge> REFILL_BATCH then ((m, lst), ch, cnt)
      else
        let h = hdr_at m page; b = free_head h in
        if b \<noteq> null then
          let h' = h\<lparr>free_head := cells_of m b, free_count := sub_w 16 (free_count h) 1,
                     used := add_w 16 (used h) 1\<rparr>;
              m' = set_hdr (m\<lparr>cells_of := (cells_of m)(b := ch)\<rparr>) page h'
          in if free_count h' = 0 \<and> used h' + free_count h' \<ge> capacity h'
             then (fst (mem_unlink m' lst page), b, cnt + 1)
             else fill_page m' lst page b (cnt + 1)
        else if used h + free_count h < capacity h then
          let r = mem_provision m page (REFILL_BATCH - cnt) in
          if snd r = 0 then (fst (mem_unlink (fst r) lst page), ch, cnt)
          else fill_page (fst r) lst page ch cnt
        else (fst (mem_unlink m lst page), ch, cnt))"
  by pat_completeness auto
termination
  by (relation "measure (\<lambda>(m, _, page, _, cnt).
        (REFILL_BATCH - cnt) * 2 + (if free_head (hdr_at m page) = 0 then 1 else 0))")
     (auto dest: mem_provision_head)

declare fill_page.simps [simp del]

text \<open>
  The outer loop.  Nothing bounds it when the list is damaged (the source says so in its comment), so
  it is a partial function; \<open>fill_from_list_correct\<close> shows that it returns on every well-formed list.
\<close>

partial_function (option) fill_from_list ::
  "page_mem \<Rightarrow> addr \<Rightarrow> addr \<Rightarrow> nat \<Rightarrow> bool \<Rightarrow> ((page_mem \<times> addr) \<times> addr \<times> nat \<times> bool) option" where
  [code]: "fill_from_list m lst ch cnt virgin =
     (if cnt < REFILL_BATCH then
        if lst = null then Some ((m, lst), ch, cnt, virgin)
        else
          let page = lst;
              virgin' = (virgin \<and> has_flag (h_flags (hdr_at m page)) FLAG_VIRGIN);
              r = fill_page m lst page ch cnt;
              m' = fst (fst r); lst' = snd (fst r); ch' = fst (snd r); cnt' = snd (snd r)
          in if cnt' = cnt \<and> lst' = page then
               let u = mem_unlink m' lst' page in
               if snd u then fill_from_list (fst (fst u)) (snd (fst u)) ch' cnt' virgin'
               else Some ((m', lst'), ch', cnt', virgin')
             else fill_from_list m' lst' ch' cnt' virgin'
      else Some ((m, lst), ch, cnt, virgin))"

section \<open>Pages and their blocks\<close>

definition page_ok :: "cells \<Rightarrow> addr \<Rightarrow> page_header \<Rightarrow> addr list \<Rightarrow> bool" where
  "page_ok m p h fl \<longleftrightarrow> PAGE_SIZE dvd p \<and> 0 < p \<and> h_class h < NUM_CLASSES
     \<and> used h + free_count h \<le> capacity h
     \<and> chain m (free_head h) fl \<and> distinct fl \<and> length fl = free_count h
     \<and> set fl \<subseteq> set (blocks_at (p + HEADER_SIZE) (CLASSES ! h_class h) (used h + free_count h))"

definition slots :: "addr \<Rightarrow> page_header \<Rightarrow> addr set" where
  "slots p h = set (blocks_at (p + HEADER_SIZE) (CLASSES ! h_class h) (capacity h))"

definition unborn :: "addr \<Rightarrow> page_header \<Rightarrow> addr set" where
  "unborn p h = set (blocks_at (p + HEADER_SIZE + (used h + free_count h) * CLASSES ! h_class h)
     (CLASSES ! h_class h) (capacity h - (used h + free_count h)))"

definition avail :: "addr \<Rightarrow> page_header \<Rightarrow> addr list \<Rightarrow> addr set" where
  "avail p h fl = set fl \<union> unborn p h"

definition live :: "addr \<Rightarrow> page_header \<Rightarrow> addr list \<Rightarrow> addr set" where
  "live p h fl = slots p h - avail p h fl"

lemma class_pos: "h_class h < NUM_CLASSES \<Longrightarrow> 0 < CLASSES ! h_class h"
  using CLASSES_bounds [of "h_class h"] by (auto simp: const_simps)

lemma capacity_bound:
  assumes "h_class h < NUM_CLASSES"
  shows "0 < capacity h" "capacity h \<le> 4093" "capacity h * CLASSES ! h_class h + HEADER_SIZE \<le> PAGE_SIZE"
proof -
  have b: "16 \<le> CLASSES ! h_class h" "CLASSES ! h_class h \<le> 16384"
    using CLASSES_bounds [OF assms] by (auto simp: const_simps)
  show "0 < capacity h" using b by (simp add: capacity_def const_simps div_greater_zero_iff)
  have "65488 div CLASSES ! h_class h \<le> 65488 div 16" by (rule div_le_mono2) (use b in auto)
  then show "capacity h \<le> 4093" by (simp add: capacity_def const_simps)
  have "capacity h * CLASSES ! h_class h \<le> 65488" by (simp add: capacity_def const_simps)
  then show "capacity h * CLASSES ! h_class h + HEADER_SIZE \<le> PAGE_SIZE" by (simp add: const_simps)
qed

lemma blocks_at_append: "blocks_at s b (i + k) = blocks_at s b i @ blocks_at (s + i * b) b k"
  by (induction k) (simp_all add: blocks_at_Suc add_mult_distrib)

lemma blocks_at_split:
  "i \<le> n \<Longrightarrow> set (blocks_at s b n) = set (blocks_at s b i) \<union> set (blocks_at (s + i * b) b (n - i))"
  using blocks_at_append [of s b i "n - i"] by simp

lemma blocks_at_disjoint:
  "0 < b \<Longrightarrow> set (blocks_at s b i) \<inter> set (blocks_at (s + i * b) b k) = {}"
proof -
  assume b: "0 < b"
  have "x + b \<le> s + i * b" if "x \<in> set (blocks_at s b i)" for x
    using blocks_at_inside [OF that] by simp
  moreover have "s + i * b \<le> x" if "x \<in> set (blocks_at (s + i * b) b k)" for x
    using blocks_at_inside [OF that] by simp
  ultimately show ?thesis using b by fastforce
qed

lemma slots_split:
  assumes "page_ok m p h fl"
  shows "slots p h = set (blocks_at (p + HEADER_SIZE) (CLASSES ! h_class h) (used h + free_count h)) \<union> unborn p h"
    "set fl \<inter> unborn p h = {}" "avail p h fl \<subseteq> slots p h"
proof -
  have ok: "used h + free_count h \<le> capacity h" "h_class h < NUM_CLASSES"
    "set fl \<subseteq> set (blocks_at (p + HEADER_SIZE) (CLASSES ! h_class h) (used h + free_count h))"
    using assms by (auto simp: page_ok_def)
  show s: "slots p h = set (blocks_at (p + HEADER_SIZE) (CLASSES ! h_class h) (used h + free_count h)) \<union> unborn p h"
    unfolding slots_def unborn_def by (rule blocks_at_split [OF ok(1)])
  show "set fl \<inter> unborn p h = {}"
    using ok(3) blocks_at_disjoint [OF class_pos [OF ok(2)]] unfolding unborn_def by fastforce
  show "avail p h fl \<subseteq> slots p h" using s ok(3) by (auto simp: avail_def)
qed

lemma slots_inside:
  assumes "h_class h < NUM_CLASSES" "b \<in> slots p h"
  shows "p < b" "b + CLASSES ! h_class h \<le> p + PAGE_SIZE"
  using blocks_at_inside [of b "p + HEADER_SIZE" "CLASSES ! h_class h" "capacity h"] assms
    capacity_bound(3) [OF assms(1)] by (auto simp: slots_def const_simps)

lemma slots_page_of:
  assumes "h_class h < NUM_CLASSES" "PAGE_SIZE dvd p" "b \<in> slots p h"
  shows "page_of b = p"
  using slots_inside [OF assms(1,3)] class_pos [OF assms(1)] assms(2) by (intro page_of_base) auto

text \<open>The number of blocks in the hands of threads is the \<open>used\<close> field.\<close>

lemma live_card:
  assumes "page_ok m p h fl"
  shows "card (live p h fl) = used h"
proof -
  let ?mat = "blocks_at (p + HEADER_SIZE) (CLASSES ! h_class h) (used h + free_count h)"
  have ok: "h_class h < NUM_CLASSES" "distinct fl" "length fl = free_count h" "set fl \<subseteq> set ?mat"
    using assms by (auto simp: page_ok_def)
  have "set ?mat \<inter> unborn p h = {}"
    using blocks_at_disjoint [OF class_pos [OF ok(1)]] unfolding unborn_def by fastforce
  then have "live p h fl = set ?mat - set fl"
    using slots_split(1) [OF assms] by (auto simp: live_def avail_def)
  moreover have "card (set ?mat) = used h + free_count h"
    using distinct_card [of ?mat] class_pos [OF ok(1)] by simp
  ultimately show ?thesis using ok by (simp add: card_Diff_subset distinct_card)
qed

section \<open>One page: popping and materialising\<close>

definition pop_header :: "cells \<Rightarrow> page_header \<Rightarrow> addr \<Rightarrow> page_header" where
  "pop_header m h b = h\<lparr>free_head := m b, free_count := sub_w 16 (free_count h) 1, used := add_w 16 (used h) 1\<rparr>"

lemma capacity_cong: "h_class h' = h_class h \<Longrightarrow> capacity h' = capacity h"
  by (simp add: capacity_def)

lemma page_ok_counts: "page_ok m p h fl \<Longrightarrow> used h + free_count h \<le> 4093"
  using capacity_bound(2) [of h] by (auto simp: page_ok_def)

lemma page_pop:
  assumes "page_ok m p h (b # fl)"
  shows "page_ok (m(b := c)) p (pop_header m h b) fl"
    "avail p (pop_header m h b) fl = avail p h (b # fl) - {b}"
    "free_count (pop_header m h b) = length fl" "used (pop_header m h b) = used h + 1"
proof -
  have ok: "chain m (free_head h) (b # fl)" "distinct (b # fl)" "free_count h = length fl + 1"
    using assms by (auto simp: page_ok_def)
  show cnt: "free_count (pop_header m h b) = length fl" "used (pop_header m h b) = used h + 1"
    using page_ok_counts [OF assms] ok(3) by (simp_all add: pop_header_def)
  have cls: "h_class (pop_header m h b) = h_class h" "free_head (pop_header m h b) = m b"
    by (simp_all add: pop_header_def)
  have sum: "used (pop_header m h b) + free_count (pop_header m h b) = used h + free_count h"
    using cnt ok(3) by simp
  show "page_ok (m(b := c)) p (pop_header m h b) fl"
    using assms ok by (simp add: page_ok_def sum cls capacity_cong [OF cls(1)] cnt)
  have "unborn p (pop_header m h b) = unborn p h"
    unfolding unborn_def sum cls capacity_cong [OF cls(1)] ..
  then show "avail p (pop_header m h b) fl = avail p h (b # fl) - {b}"
    using ok(2) slots_split(2) [OF assms] by (auto simp: avail_def)
qed

lemma page_avail_empty:
  assumes "page_ok m p h fl"
  shows "avail p h fl = {} \<longleftrightarrow> free_count h = 0 \<and> used h + free_count h \<ge> capacity h"
proof -
  have "unborn p h = {} \<longleftrightarrow> capacity h - (used h + free_count h) = 0"
    using length_blocks_at by (metis unborn_def set_empty length_0_conv)
  then show ?thesis using assms by (auto simp: avail_def page_ok_def)
qed

lemma page_provision:
  assumes "page_ok m p h fl" "provision m p h want = (m', h', n)"
  shows "\<exists>new. length new = n \<and> page_ok m' p h' (new @ fl) \<and> avail p h' (new @ fl) = avail p h fl"
    "n = min (capacity h - (used h + free_count h)) want" "used h' = used h"
    "h_class h' = h_class h" "h_prev h' = h_prev h" "h_next h' = h_next h" "h_flags h' = h_flags h"
    "\<And>a. a \<notin> avail p h fl \<Longrightarrow> m' a = m a"
proof -
  define bs where "bs = CLASSES ! h_class h"
  define mat where "mat = used h + free_count h"
  define start where "start = p + HEADER_SIZE + mat * bs"
  have ok: "h_class h < NUM_CLASSES" "mat \<le> capacity h" "chain m (free_head h) fl" "distinct fl"
    "length fl = free_count h" "set fl \<subseteq> set (blocks_at (p + HEADER_SIZE) bs mat)" "0 < p"
    using assms(1) by (auto simp: page_ok_def bs_def mat_def)
  have pos: "0 < bs" using class_pos [OF ok(1)] by (simp add: bs_def)
  show n: "n = min (capacity h - (used h + free_count h)) want"
    using assms(2) by (auto simp: provision_def Let_def split: if_splits prod.splits)
  have cap: "capacity h \<le> 4093" by (rule capacity_bound(2) [OF ok(1)])
  define new where "new = blocks_at start bs n"
  have res: "m' = fst (foldl push_block (m, free_head h) (rev new))"
    "free_head h' = snd (foldl push_block (m, free_head h) (rev new))"
    "free_count h' = free_count h + n" "used h' = used h" "h_class h' = h_class h"
    "h_prev h' = h_prev h" "h_next h' = h_next h" "h_flags h' = h_flags h"
    using assms(2) cap ok(2) n
    by (auto simp: provision_def Let_def provision_loop_push new_def start_def bs_def mat_def
        split: if_splits prod.splits)
  show "used h' = used h" "h_class h' = h_class h" "h_prev h' = h_prev h" "h_next h' = h_next h"
    "h_flags h' = h_flags h" using res by simp_all
  have un: "unborn p h = set (blocks_at start bs (capacity h - mat))"
    by (simp add: unborn_def start_def bs_def mat_def)
  have n_le: "n \<le> capacity h - mat" using n by (simp add: mat_def)
  have sub: "unborn p h = set new \<union> set (blocks_at (start + n * bs) bs (capacity h - mat - n))"
    "set new \<inter> set (blocks_at (start + n * bs) bs (capacity h - mat - n)) = {}"
    using blocks_at_split [OF n_le] blocks_at_disjoint [OF pos] by (simp_all add: un new_def)
  have disj: "set new \<inter> set fl = {}"
    using slots_split(2) [OF assms(1)] sub(1) by auto
  have "0 \<notin> set new" using ok(7) by (auto simp: new_def set_blocks_at start_def)
  then have ch: "chain m' (free_head h') (new @ fl)"
    using push_blocks_chain [OF ok(3), of "rev new"] disj pos by (simp add: res new_def)
  have born: "set (blocks_at (p + HEADER_SIZE) bs (mat + n)) = set (blocks_at (p + HEADER_SIZE) bs mat) \<union> set new"
    by (simp add: blocks_at_append new_def start_def)
  have cap': "capacity h' = capacity h" by (rule capacity_cong) (rule res(5))
  have mat': "used h' + free_count h' = mat + n" by (simp add: res mat_def)
  have "page_ok m' p h' (new @ fl)"
    using assms(1) ch disj ok n_le born pos
    by (auto simp: page_ok_def mat' cap' res(5) simp flip: bs_def)
       (auto simp: new_def res(3))
  moreover have "unborn p h' = set (blocks_at (start + n * bs) bs (capacity h - mat - n))"
    unfolding unborn_def mat' cap' res(5) by (simp add: start_def bs_def add_mult_distrib diff_diff_left add.assoc)
  then have "avail p h' (new @ fl) = avail p h fl" using sub by (auto simp: avail_def)
  ultimately show "\<exists>new. length new = n \<and> page_ok m' p h' (new @ fl) \<and> avail p h' (new @ fl) = avail p h fl"
    by (intro exI [of _ new]) (simp add: new_def)
  show "m' a = m a" if "a \<notin> avail p h fl" for a
    using push_all_frame [of a "rev new" "(m, free_head h)"] that sub(1) by (auto simp: avail_def res)
qed

section \<open>The inner loop\<close>

text \<open>
  \<open>fill_pre\<close>: the page is on the list and has blocks to give, the chain built so far is \<open>xs\<close>.
  \<open>fill_post\<close>: the blocks \<open>new\<close> moved from the page to the front of the chain; the page either
  still has blocks (and the batch is full) or was exhausted and unlinked.
\<close>

definition fill_pre :: "page_mem \<Rightarrow> addr \<Rightarrow> addr list \<Rightarrow> addr \<Rightarrow> addr list \<Rightarrow> addr \<Rightarrow> addr list \<Rightarrow> bool" where
  "fill_pre m lst pl p fl ch xs \<longleftrightarrow> page_ok (cells_of m) p (hdr_at m p) fl
     \<and> partial_list (hdrs_of m) lst pl \<and> p \<in> set pl \<and> avail p (hdr_at m p) fl \<noteq> {}
     \<and> chain (cells_of m) ch xs \<and> set xs \<inter> avail p (hdr_at m p) fl = {}"

definition fill_post :: "page_mem \<Rightarrow> addr list \<Rightarrow> addr \<Rightarrow> addr list \<Rightarrow> addr list \<Rightarrow>
    page_mem \<Rightarrow> addr \<Rightarrow> addr list \<Rightarrow> addr list \<Rightarrow> addr \<Rightarrow> addr list \<Rightarrow> bool" where
  "fill_post m pl p fl xs m' lst' pl' fl' ch' new \<longleftrightarrow>
     page_ok (cells_of m') p (hdr_at m' p) fl' \<and> partial_list (hdrs_of m') lst' pl'
     \<and> chain (cells_of m') ch' (new @ xs) \<and> distinct new \<and> set new \<subseteq> avail p (hdr_at m p) fl
     \<and> avail p (hdr_at m' p) fl' = avail p (hdr_at m p) fl - set new
     \<and> h_class (hdr_at m' p) = h_class (hdr_at m p)
     \<and> (\<forall>n. n \<noteq> 0 \<longrightarrow> bit (h_flags (hdr_at m' p)) n = bit (h_flags (hdr_at m p)) n)
     \<and> (pl' = pl \<and> length new + length xs = REFILL_BATCH \<and> avail p (hdr_at m' p) fl' \<noteq> {}
          \<or> pl' = remove1 p pl \<and> avail p (hdr_at m' p) fl' = {}
             \<and> \<not> has_flag (h_flags (hdr_at m' p)) FLAG_IN_PARTIAL)
     \<and> untouched p (hdrs_of m) (hdrs_of m') \<and> (\<forall>q. q \<notin> set pl \<longrightarrow> hdr_at m' q = hdr_at m q)
     \<and> (\<forall>a. a \<notin> avail p (hdr_at m p) fl \<longrightarrow> cells_of m' a = cells_of m a)"

lemma page_ok_cong:
  assumes "page_ok m p h fl" "same_body h h'"
  shows "page_ok m p h' fl" "avail p h' fl = avail p h fl" "slots p h' = slots p h"
  using assms same_body_fields [OF assms(2)]
  by (simp_all add: page_ok_def avail_def unborn_def slots_def capacity_def)

lemma mem_unlink_exhausted:
  assumes "page_ok (cells_of m) p (hdr_at m p) fl" "partial_list (hdrs_of m) lst pl" "p \<in> set pl"
    "avail p (hdr_at m p) fl = {}" "chain (cells_of m) ch xs"
  shows "\<exists>m' lst' pl'. fst (mem_unlink m lst p) = (m', lst') \<and> fill_post m pl p fl xs m' lst' pl' fl ch []"
proof -
  obtain h' lst' where u: "unlink_partial (hdrs_of m, lst) p = ((h', lst'), True)"
    "partial_list h' lst' (remove1 p pl)" "relinked p (hdrs_of m) h'"
    "\<not> has_flag (h_flags (h' p)) FLAG_IN_PARTIAL" "\<forall>q. q \<notin> set pl \<longrightarrow> h' q = hdrs_of m q"
    using unlink_partial_list [OF assms(2,3)] by blast
  have b: "same_body (hdr_at m p) (h' p)" using u(3) by (simp add: relinked_def)
  show ?thesis
    using u assms page_ok_cong [OF assms(1) b] same_body_fields(4) [OF b] relinked_untouched [OF u(3)]
    by (auto simp: mem_unlink_def fill_post_def relinked_def)
qed

lemma fill_post_pop:
  assumes pre: "fill_pre m lst pl p (b # fl) ch xs"
    and m1: "m1 = set_hdr (m\<lparr>cells_of := (cells_of m)(b := ch)\<rparr>) p (pop_header (cells_of m) (hdr_at m p) b)"
    and post: "fill_post m1 pl p fl (b # xs) m' lst' pl' fl' ch' new"
  shows "fill_post m pl p (b # fl) xs m' lst' pl' fl' ch' (new @ [b])"
proof -
  have ok: "page_ok (cells_of m) p (hdr_at m p) (b # fl)" using pre by (simp add: fill_pre_def)
  have av: "avail p (hdr_at m1 p) fl = avail p (hdr_at m p) (b # fl) - {b}"
    using page_pop(2) [OF ok] by (simp add: m1)
  have b: "b \<in> avail p (hdr_at m p) (b # fl)" by (simp add: avail_def)
  have same: "h_class (hdr_at m1 p) = h_class (hdr_at m p)" "h_flags (hdr_at m1 p) = h_flags (hdr_at m p)"
    "untouched p (hdrs_of m) (hdrs_of m1)"
    by (simp_all add: m1 pop_header_def)
  have cells: "a \<notin> avail p (hdr_at m p) (b # fl) \<Longrightarrow> cells_of m1 a = cells_of m a" for a
    using b by (auto simp: m1)
  show ?thesis
    using post b cells untouched_trans [OF same(3)] same(1,2) pre
    unfolding fill_post_def av fill_pre_def by (auto simp: m1)
qed

lemma fill_post_provision:
  assumes pre: "fill_pre m lst pl p fl ch xs"
    and prov: "mem_provision m p want = (m1, n)" "0 < n"
  obtains fl1 where "fill_pre m1 lst pl p fl1 ch xs" "0 < free_head (hdr_at m1 p)"
    "\<And>m' lst' pl' fl' ch' new. fill_post m1 pl p fl1 xs m' lst' pl' fl' ch' new
       \<Longrightarrow> fill_post m pl p fl xs m' lst' pl' fl' ch' new"
proof -
  obtain c h where r: "provision (cells_of m) p (hdr_at m p) want = (c, h, n)"
    "m1 = set_hdr (m\<lparr>cells_of := c\<rparr>) p h"
    using prov by (auto simp: mem_provision_def split: prod.splits)
  have ok: "page_ok (cells_of m) p (hdr_at m p) fl" using pre by (simp add: fill_pre_def)
  obtain new where new: "page_ok c p h (new @ fl)" "avail p h (new @ fl) = avail p (hdr_at m p) fl"
    using page_provision(1) [OF ok r(1)] by blast
  note same = page_provision(3-8) [OF ok r(1)]
  have "chain c ch xs"
    using chain_cong [of xs c "cells_of m" ch] same(6) pre unfolding fill_pre_def by blast
  moreover have "partial_list (hdrs_of m1) lst pl"
    using pre same unfolding fill_pre_def r(2) by (auto intro!: partial_list_upd)
  ultimately have 1: "fill_pre m1 lst pl p (new @ fl) ch xs"
    using pre new by (simp add: fill_pre_def r(2))
  have 2: "fill_post m pl p fl xs m' lst' pl' fl' ch' new'"
    if "fill_post m1 pl p (new @ fl) xs m' lst' pl' fl' ch' new'" for m' lst' pl' fl' ch' new'
    using that new(2) same untouched_trans [of p "hdrs_of m" "hdrs_of m1"] pre
    unfolding fill_post_def r(2) fill_pre_def by auto
  have "0 < free_head (hdr_at m1 p)" using mem_provision_head [of m p want] prov by simp
  then show thesis using 1 2 that by blast
qed

lemma fill_page_correct:
  assumes "fill_pre m lst pl p fl ch xs" "length xs = cnt" "cnt \<le> REFILL_BATCH"
  shows "\<exists>m' lst' ch' new fl' pl'. fill_page m lst p ch cnt = ((m', lst'), ch', cnt + length new)
    \<and> cnt + length new \<le> REFILL_BATCH \<and> fill_post m pl p fl xs m' lst' pl' fl' ch' new"
  using assms
proof (induction m lst p ch cnt arbitrary: fl xs rule: fill_page.induct)
  case (1 m lst p ch cnt)
  have ok: "page_ok (cells_of m) p (hdr_at m p) fl" and pl: "partial_list (hdrs_of m) lst pl" "p \<in> set pl"
    and av: "avail p (hdr_at m p) fl \<noteq> {}" and ch: "chain (cells_of m) ch xs"
    and dj: "set xs \<inter> avail p (hdr_at m p) fl = {}"
    using 1(3) by (auto simp: fill_pre_def)
  have flch: "chain (cells_of m) (free_head (hdr_at m p)) fl" using ok by (simp add: page_ok_def)
  consider (full) "cnt \<ge> REFILL_BATCH"
    | (pop) b fl1 where "cnt < REFILL_BATCH" "fl = b # fl1"
    | (dry) "cnt < REFILL_BATCH" "fl = []" by (metis list.exhaust not_le)
  then show ?case
  proof cases
    case full
    then have "fill_post m pl p fl xs m lst pl fl ch []"
      using 1(4,5) ok pl av ch by (simp add: fill_post_def)
    moreover have "fill_page m lst p ch cnt = ((m, lst), ch, cnt + length [])"
      using full by (subst fill_page.simps) simp
    ultimately show ?thesis using 1(5) by (metis add.right_neutral list.size(3))
  next
    case pop
    let ?m1 = "set_hdr (m\<lparr>cells_of := (cells_of m)(b := ch)\<rparr>) p (pop_header (cells_of m) (hdr_at m p) b)"
    have b: "free_head (hdr_at m p) = b" "b \<noteq> 0" "b \<notin> set xs"
      using flch dj pop(2) by (auto simp: avail_def)
    note pp = page_pop [OF ok [unfolded pop(2)]]
    have pl1: "partial_list (hdrs_of ?m1) lst pl"
      using pl(1) by (auto intro!: partial_list_upd simp: pop_header_def)
    have ch1: "chain (cells_of ?m1) b (b # xs)" using ch b by simp
    show ?thesis
    proof (cases "avail p (pop_header (cells_of m) (hdr_at m p) b) fl1 = {}")
      case True
      obtain m' lst' pl' where u: "fst (mem_unlink ?m1 lst p) = (m', lst')"
        "fill_post ?m1 pl p fl1 (b # xs) m' lst' pl' fl1 b []"
        using mem_unlink_exhausted [of ?m1 p fl1 lst pl b "b # xs"] pp(1) pl1 pl(2) True ch1 by auto
      have "fill_page m lst p ch cnt = ((m', lst'), b, cnt + 1)"
        using True pop(1) b u(1) page_avail_empty [OF pp(1)]
        by (subst fill_page.simps) (auto simp: Let_def pop_header_def)
      then show ?thesis using fill_post_pop [OF 1(3) [unfolded pop(2)] refl u(2)] pop
        by (intro exI [of _ m'] exI [of _ lst'] exI [of _ b] exI [of _ "[b]"] exI [of _ fl1] exI [of _ pl']) simp
    next
      case False
      have pre1: "fill_pre ?m1 lst pl p fl1 b (b # xs)"
        using pp(1,2) pl1 pl(2) False ch1 dj unfolding fill_pre_def pop(2) by auto
      have not_full: "\<not> (free_count (pop_header (cells_of m) (hdr_at m p) b) = 0
          \<and> capacity (pop_header (cells_of m) (hdr_at m p) b)
            \<le> used (pop_header (cells_of m) (hdr_at m p) b) + free_count (pop_header (cells_of m) (hdr_at m p) b))"
        using False page_avail_empty [OF pp(1)] by simp
      then have step: "fill_page m lst p ch cnt = fill_page ?m1 lst p b (cnt + 1)"
        using pop(1) b by (subst fill_page.simps) (auto simp: Let_def pop_header_def)
      obtain m' lst' ch' new fl' pl' where r: "fill_page ?m1 lst p b (cnt + 1) = ((m', lst'), ch', cnt + 1 + length new)"
        "cnt + 1 + length new \<le> REFILL_BATCH" "fill_post ?m1 pl p fl1 (b # xs) m' lst' pl' fl' ch' new"
      proof -
        have "\<exists>m' lst' ch' new fl' pl'. fill_page ?m1 lst p b (cnt + 1) = ((m', lst'), ch', cnt + 1 + length new)
            \<and> cnt + 1 + length new \<le> REFILL_BATCH \<and> fill_post ?m1 pl p fl1 (b # xs) m' lst' pl' fl' ch' new"
          unfolding pop_header_def
          by (rule 1(1) [OF _ refl b(1) [symmetric] b(2) refl refl])
             (use not_full pre1 pop(1) 1(4) in \<open>simp_all add: pop_header_def\<close>)
        then show thesis using that by blast
      qed
      show ?thesis using step r fill_post_pop [OF 1(3) [unfolded pop(2)] refl r(3)] pop
        by (intro exI [of _ m'] exI [of _ lst'] exI [of _ ch'] exI [of _ "new @ [b]"] exI [of _ fl'] exI [of _ pl'])
           simp
    qed
  next
    case dry
    have fh: "free_head (hdr_at m p) = 0" using flch dry by simp
    have room: "used (hdr_at m p) + free_count (hdr_at m p) < capacity (hdr_at m p)"
      using av page_avail_empty [OF ok] ok dry(2) by (auto simp: page_ok_def)
    obtain m1 n where prov: "mem_provision m p (REFILL_BATCH - cnt) = (m1, n)" by fastforce
    have n: "0 < n"
      using prov page_provision(2) [OF ok, of "REFILL_BATCH - cnt" _ _ n] room dry(1)
      by (auto simp: mem_provision_def split: prod.splits)
    obtain fl1 where f: "fill_pre m1 lst pl p fl1 ch xs"
      "\<And>m' lst' pl' fl' ch' new. fill_post m1 pl p fl1 xs m' lst' pl' fl' ch' new
       \<Longrightarrow> fill_post m pl p fl xs m' lst' pl' fl' ch' new"
      using fill_post_provision [OF 1(3) prov n] by metis
    have step: "fill_page m lst p ch cnt = fill_page m1 lst p ch cnt"
      using dry(1) fh room prov n by (subst fill_page.simps) (simp add: Let_def)
    have "\<exists>m' lst' ch' new fl' pl'. fill_page m1 lst p ch cnt = ((m', lst'), ch', cnt + length new)
        \<and> cnt + length new \<le> REFILL_BATCH \<and> fill_post m1 pl p fl1 xs m' lst' pl' fl' ch' new"
      using 1(2) [OF _ refl refl _ room refl, of fl1 xs] dry(1) fh prov n f(1) 1(4,5) by simp
    then show ?thesis using f(2) step by metis
  qed
qed

end
