(* ===== verification/Small_Refill.thy ===== *)
theory Small_Refill
  imports Small_Pages
begin

text \<open>
  The outer refill loop of the small-page heap (\<open>fill_from_list\<close> in \<open>src/src/heap.rs\<close>): on every
  well-formed list of pages it returns, moves at most a batch of blocks onto the chain, unlinks
  exactly the pages it exhausted and leaves every other page alone.
\<close>

section \<open>The outer refill loop\<close>

definition pages_ok :: "page_mem \<Rightarrow> (addr \<Rightarrow> addr list) \<Rightarrow> addr set \<Rightarrow> bool" where
  "pages_ok m fl ps \<longleftrightarrow> (\<forall>p \<in> ps. page_ok (cells_of m) p (hdr_at m p) (fl p))"

abbreviation page_avail :: "page_mem \<Rightarrow> (addr \<Rightarrow> addr list) \<Rightarrow> addr \<Rightarrow> addr set" where
  "page_avail m fl p \<equiv> avail p (hdr_at m p) (fl p)"

lemma page_ok_frame:
  assumes "page_ok m p h fl" "\<And>a. a \<in> avail p h fl \<Longrightarrow> m' a = m a"
  shows "page_ok m' p h fl"
  using assms chain_cong [of fl m m' "free_head h"] by (auto simp: page_ok_def avail_def)

lemma avail_page_of:
  assumes "page_ok m p h fl" "a \<in> avail p h fl"
  shows "page_of a = p"
  using slots_split(3) [OF assms(1)] slots_page_of [of h p a] assms by (auto simp: page_ok_def)

lemma avail_disjoint:
  assumes "page_ok m p h fl" "page_ok m' q h' fl'" "p \<noteq> q"
  shows "avail p h fl \<inter> avail q h' fl' = {}"
  using avail_page_of [OF assms(1)] avail_page_of [OF assms(2)] assms(3) by blast

text \<open>What a refill leaves of one page, and of the list: \<open>new\<close> are the blocks moved to the chain.\<close>

definition page_refilled :: "page_mem \<Rightarrow> (addr \<Rightarrow> addr list) \<Rightarrow> page_mem \<Rightarrow> (addr \<Rightarrow> addr list) \<Rightarrow>
    addr list \<Rightarrow> addr list \<Rightarrow> addr \<Rightarrow> bool" where
  "page_refilled m fl m' fl' pl' new p \<longleftrightarrow> page_ok (cells_of m') p (hdr_at m' p) (fl' p)
     \<and> page_avail m' fl' p = page_avail m fl p - set new
     \<and> h_class (hdr_at m' p) = h_class (hdr_at m p)
     \<and> (\<forall>n. n \<noteq> 0 \<longrightarrow> bit (h_flags (hdr_at m' p)) n = bit (h_flags (hdr_at m p)) n)
     \<and> (p \<in> set pl' \<longleftrightarrow> page_avail m' fl' p \<noteq> {})
     \<and> (p \<notin> set pl' \<longrightarrow> \<not> has_flag (h_flags (hdr_at m' p)) FLAG_IN_PARTIAL)"

definition refilled :: "page_mem \<Rightarrow> (addr \<Rightarrow> addr list) \<Rightarrow> addr list \<Rightarrow> addr list \<Rightarrow>
    page_mem \<Rightarrow> addr \<Rightarrow> (addr \<Rightarrow> addr list) \<Rightarrow> addr list \<Rightarrow> addr \<Rightarrow> addr list \<Rightarrow> bool" where
  "refilled m fl pl xs m' lst' fl' pl' ch' new \<longleftrightarrow>
     partial_list (hdrs_of m') lst' pl' \<and> set pl' \<subseteq> set pl
     \<and> chain (cells_of m') ch' (new @ xs) \<and> distinct new
     \<and> set new \<subseteq> (\<Union>p \<in> set pl. page_avail m fl p)
     \<and> (\<forall>p \<in> set pl. page_refilled m fl m' fl' pl' new p)
     \<and> (\<forall>q. q \<notin> set pl \<longrightarrow> hdr_at m' q = hdr_at m q \<and> fl' q = fl q)
     \<and> (\<forall>a. a \<notin> (\<Union>p \<in> set pl. page_avail m fl p) \<longrightarrow> cells_of m' a = cells_of m a)"

definition refill_pre :: "page_mem \<Rightarrow> addr \<Rightarrow> (addr \<Rightarrow> addr list) \<Rightarrow> addr list \<Rightarrow> addr \<Rightarrow> addr list \<Rightarrow> bool" where
  "refill_pre m lst fl pl ch xs \<longleftrightarrow> partial_list (hdrs_of m) lst pl \<and> pages_ok m fl (set pl)
     \<and> (\<forall>p \<in> set pl. page_avail m fl p \<noteq> {} \<and> set xs \<inter> page_avail m fl p = {})
     \<and> chain (cells_of m) ch xs"

text \<open>One page done: what the post-state of the inner loop gives the rest of the list.\<close>

lemma fill_post_rest:
  assumes pre: "refill_pre m lst fl (p # rest) ch xs"
    and post: "fill_post m (p # rest) p (fl p) xs m1 lst1 pl1 fl1 ch1 new"
  defines "fl' \<equiv> fl(p := fl1)"
  shows "\<And>q. q \<in> set rest \<Longrightarrow> page_ok (cells_of m1) q (hdr_at m1 q) (fl' q)
      \<and> page_avail m1 fl' q = page_avail m fl q \<and> h_class (hdr_at m1 q) = h_class (hdr_at m q)
      \<and> h_flags (hdr_at m1 q) = h_flags (hdr_at m q) \<and> set new \<inter> page_avail m fl q = {}"
proof -
  fix q assume q: "q \<in> set rest"
  have "distinct (p # rest)" using pre by (simp add: refill_pre_def partial_list_def)
  then have qp: "q \<noteq> p" using q by auto
  have ok: "page_ok (cells_of m) q (hdr_at m q) (fl q)" "page_ok (cells_of m) p (hdr_at m p) (fl p)"
    using pre q by (auto simp: refill_pre_def pages_ok_def)
  have body: "same_body (hdr_at m q) (hdr_at m1 q)" "h_flags (hdr_at m1 q) = h_flags (hdr_at m q)"
    using post qp by (auto simp: fill_post_def untouched_def)
  have disj: "page_avail m fl q \<inter> page_avail m fl p = {}" by (rule avail_disjoint [OF ok qp])
  have "page_ok (cells_of m1) q (hdr_at m q) (fl q)"
    by (rule page_ok_frame [OF ok(1)]) (use disj post in \<open>auto simp: fill_post_def\<close>)
  then show "page_ok (cells_of m1) q (hdr_at m1 q) (fl' q)
      \<and> page_avail m1 fl' q = page_avail m fl q \<and> h_class (hdr_at m1 q) = h_class (hdr_at m q)
      \<and> h_flags (hdr_at m1 q) = h_flags (hdr_at m q) \<and> set new \<inter> page_avail m fl q = {}"
    using page_ok_cong [OF _ body(1)] same_body_fields [OF body(1)] body(2) disj qp post
    by (auto simp: fl'_def fill_post_def)
qed

lemma refilled_one:
  assumes pre: "refill_pre m lst fl (p # rest) ch xs"
    and post: "fill_post m (p # rest) p (fl p) xs m1 lst1 (p # rest) fl1 ch1 new"
    and av: "avail p (hdr_at m1 p) fl1 \<noteq> {}"
  shows "refilled m fl (p # rest) xs m1 lst1 (fl(p := fl1)) (p # rest) ch1 new"
proof -
  note r = fill_post_rest [OF pre post]
  show ?thesis
    using post av r pre
    by (auto simp: refilled_def page_refilled_def fill_post_def refill_pre_def partial_list_def Diff_triv Int_commute)
qed

lemma refilled_step:
  assumes pre: "refill_pre m lst fl (p # rest) ch xs"
    and post: "fill_post m (p # rest) p (fl p) xs m1 lst1 rest fl1 ch1 new"
    and av: "avail p (hdr_at m1 p) fl1 = {}" "\<not> has_flag (h_flags (hdr_at m1 p)) FLAG_IN_PARTIAL"
    and tail: "refilled m1 (fl(p := fl1)) rest (new @ xs) m' lst' fl' pl' ch' new'"
  shows "refilled m fl (p # rest) xs m' lst' fl' pl' ch' (new' @ new)"
proof -
  note r = fill_post_rest [OF pre post]
  have p: "p \<notin> set rest" using pre by (simp add: refill_pre_def partial_list_def)
  have ok_p: "page_ok (cells_of m) p (hdr_at m p) (fl p)" using pre by (simp add: refill_pre_def pages_ok_def)
  have hdr_p: "hdr_at m' p = hdr_at m1 p" "fl' p = fl1" using tail p by (auto simp: refilled_def)
  have ok1: "page_ok (cells_of m1) p (hdr_at m1 p) fl1" using post by (simp add: fill_post_def)
  have avq: "page_avail m1 (fl(p := fl1)) q = page_avail m fl q" if "q \<in> set rest" for q
    using r [OF that] by simp
  have U: "(\<Union>q \<in> set rest. page_avail m1 (fl(p := fl1)) q) = (\<Union>q \<in> set rest. page_avail m fl q)"
    using avq by simp
  have dis: "page_avail m fl p \<inter> page_avail m fl q = {}" if "q \<in> set rest" for q
    using avail_disjoint [of "cells_of m" p "hdr_at m p" "fl p" "cells_of m" q "hdr_at m q" "fl q"] pre that p
    by (auto simp: refill_pre_def pages_ok_def)
  have new: "set new \<subseteq> page_avail m fl p" "set new' \<subseteq> (\<Union>q \<in> set rest. page_avail m fl q)"
    "avail p (hdr_at m1 p) fl1 = page_avail m fl p - set new"
    using post tail U by (simp_all add: fill_post_def refilled_def)
  have frame: "cells_of m' a = cells_of m1 a" if "a \<notin> (\<Union>q \<in> set rest. page_avail m fl q)" for a
    using tail that unfolding refilled_def U by blast
  have p_pl: "p \<notin> set pl'" "set pl' \<subseteq> set rest" using tail p by (auto simp: refilled_def)
  have "page_ok (cells_of m') p (hdr_at m' p) (fl' p)"
    using page_ok_frame [OF ok1, of "cells_of m'"] av(1) hdr_p by simp
  moreover have "page_avail m' fl' p = {}" "page_avail m fl p - set (new' @ new) = {}"
    using av(1) hdr_p new by auto
  ultimately have P: "page_refilled m fl m' fl' pl' (new' @ new) p"
    using p_pl post av hdr_p by (simp add: page_refilled_def fill_post_def)
  have Q: "page_refilled m fl m' fl' pl' (new' @ new) q" if "q \<in> set rest" for q
  proof -
    have t: "page_refilled m1 (fl(p := fl1)) m' fl' pl' new' q" using tail that by (simp add: refilled_def)
    moreover have "page_avail m fl q - set new' = page_avail m fl q - set (new' @ new)"
      using r [OF that] by auto
    ultimately show ?thesis using r [OF that] by (simp add: page_refilled_def)
  qed
  have B: "\<forall>q. q \<notin> set (p # rest) \<longrightarrow> hdr_at m' q = hdr_at m q \<and> fl' q = fl q"
  proof (intro allI impI)
    fix q assume q: "q \<notin> set (p # rest)"
    have "hdr_at m' q = hdr_at m1 q \<and> fl' q = (fl(p := fl1)) q" using tail q unfolding refilled_def by simp
    moreover have "hdr_at m1 q = hdr_at m q" using post q unfolding fill_post_def by simp
    ultimately show "hdr_at m' q = hdr_at m q \<and> fl' q = fl q" using q by simp
  qed
  have C: "\<forall>a. a \<notin> (\<Union>q \<in> set (p # rest). page_avail m fl q) \<longrightarrow> cells_of m' a = cells_of m a"
  proof (intro allI impI)
    fix a assume a: "a \<notin> (\<Union>q \<in> set (p # rest). page_avail m fl q)"
    then have "cells_of m' a = cells_of m1 a" by (intro frame) auto
    moreover have "cells_of m1 a = cells_of m a" using post a unfolding fill_post_def by simp
    ultimately show "cells_of m' a = cells_of m a" by simp
  qed
  have "set new' \<inter> set new = {}" using new(1,2) dis by blast
  moreover have "distinct new'" "distinct new"
    using tail post unfolding refilled_def fill_post_def by blast+
  ultimately have D: "distinct (new' @ new)" by simp
  have L: "partial_list (hdrs_of m') lst' pl'" "chain (cells_of m') ch' ((new' @ new) @ xs)"
    using tail by (simp_all add: refilled_def)
  show ?thesis
    unfolding refilled_def using P Q B C D L new(1,2) p_pl by auto
qed

text \<open>
  The refill loop returns on every well-formed list: it moves \<open>new\<close> blocks, stops with a full batch
  or with the list exhausted, and reports \<open>virgin\<close> only when every page it took from is virgin.
\<close>

definition fill_result :: "page_mem \<Rightarrow> (addr \<Rightarrow> addr list) \<Rightarrow> addr list \<Rightarrow> addr list \<Rightarrow> bool \<Rightarrow>
    page_mem \<Rightarrow> addr \<Rightarrow> addr \<Rightarrow> bool \<Rightarrow> (addr \<Rightarrow> addr list) \<Rightarrow> addr list \<Rightarrow> addr list \<Rightarrow> bool" where
  "fill_result m fl pl xs v m' lst' ch' v' fl' pl' new \<longleftrightarrow>
     length xs + length new \<le> REFILL_BATCH \<and> refilled m fl pl xs m' lst' fl' pl' ch' new
    \<and> (length xs + length new < REFILL_BATCH \<longrightarrow> pl' = [])
    \<and> (pl \<noteq> [] \<and> length xs < REFILL_BATCH \<longrightarrow> new \<noteq> [])
    \<and> (v' \<longrightarrow> v \<and> (\<forall>p \<in> set pl. set new \<inter> page_avail m fl p \<noteq> {} \<longrightarrow> has_flag (h_flags (hdr_at m p)) FLAG_VIRGIN))"

lemma fill_from_list_correct:
  assumes "refill_pre m lst fl pl ch xs" "length xs \<le> REFILL_BATCH"
  shows "\<exists>m' lst' ch' v' fl' pl' new.
    fill_from_list m lst ch (length xs) v = Some ((m', lst'), ch', length xs + length new, v')
    \<and> fill_result m fl pl xs v m' lst' ch' v' fl' pl' new"
  using assms
proof (induction pl arbitrary: m lst fl ch xs v)
  case Nil
  then have lst: "lst = 0" by (auto simp: refill_pre_def partial_list_def)
  have "fill_result m fl [] xs v m lst ch v fl [] []"
    using Nil by (simp add: fill_result_def refilled_def refill_pre_def)
  moreover have "fill_from_list m lst ch (length xs) v = Some ((m, lst), ch, length xs + length [], v)"
    using lst by (subst fill_from_list.simps) simp
  ultimately show ?case by blast
next
  case (Cons p rest)
  have lst: "lst = p" "p \<noteq> 0" using Cons(2) by (auto simp: refill_pre_def partial_list_def)
  show ?case
  proof (cases "length xs < REFILL_BATCH")
    case False
    have "fill_result m fl (p # rest) xs v m lst ch v fl (p # rest) []"
      using Cons(2,3) False
      by (auto simp: fill_result_def refilled_def page_refilled_def refill_pre_def pages_ok_def)
    moreover have "fill_from_list m lst ch (length xs) v = Some ((m, lst), ch, length xs + length [], v)"
      using False by (subst fill_from_list.simps) simp
    ultimately show ?thesis by blast
  next
    case True
    have pre: "fill_pre m lst (p # rest) p (fl p) ch xs"
      using Cons(2) by (auto simp: fill_pre_def refill_pre_def pages_ok_def)
    obtain m1 lst1 ch1 new fl1 pl1 where
      r: "fill_page m lst p ch (length xs) = ((m1, lst1), ch1, length xs + length new)"
      "length xs + length new \<le> REFILL_BATCH" "fill_post m (p # rest) p (fl p) xs m1 lst1 pl1 fl1 ch1 new"
      using fill_page_correct [OF pre refl Cons(3)] by blast
    define v1 where "v1 = (v \<and> has_flag (h_flags (hdr_at m p)) FLAG_VIRGIN)"
    have ne: "new \<noteq> []"
      using r(3) Cons(2) True by (auto simp: fill_post_def refill_pre_def)
    have step: "fill_from_list m lst ch (length xs) v = fill_from_list m1 lst1 ch1 (length xs + length new) v1"
      using True lst r(1) ne by (subst fill_from_list.simps) (simp add: Let_def v1_def)
    note rst = fill_post_rest [OF Cons(2) r(3)]
    from r(3) consider
        (full) "pl1 = p # rest" "length new + length xs = REFILL_BATCH" "avail p (hdr_at m1 p) fl1 \<noteq> {}"
      | (out) "pl1 = rest" "avail p (hdr_at m1 p) fl1 = {}" "\<not> has_flag (h_flags (hdr_at m1 p)) FLAG_IN_PARTIAL"
      by (auto simp: fill_post_def)
    then show ?thesis
    proof cases
      case full
      have "fill_from_list m lst ch (length xs) v = Some ((m1, lst1), ch1, length xs + length new, v1)"
        using full by (subst step, subst fill_from_list.simps) simp
      moreover have "refilled m fl (p # rest) xs m1 lst1 (fl(p := fl1)) (p # rest) ch1 new"
        using refilled_one [OF Cons(2)] r(3) full by simp
      then have "fill_result m fl (p # rest) xs v m1 lst1 ch1 v1 (fl(p := fl1)) (p # rest) new"
        using r(2) ne full(2) rst by (auto simp: fill_result_def v1_def)
      ultimately show ?thesis by blast
    next
      case out
      have pre1: "refill_pre m1 lst1 (fl(p := fl1)) rest ch1 (new @ xs)"
        using r(3) rst out(1) Cons(2) by (fastforce simp: refill_pre_def pages_ok_def fill_post_def)
      have len: "length (new @ xs) \<le> REFILL_BATCH" using r(2) by simp
      obtain m' lst' ch' v' fl' pl' new' where t:
        "fill_from_list m1 lst1 ch1 (length (new @ xs)) v1
           = Some ((m', lst'), ch', length (new @ xs) + length new', v')"
        "fill_result m1 (fl(p := fl1)) rest (new @ xs) v1 m' lst' ch' v' fl' pl' new'"
        using Cons.IH [OF pre1 len, of v1] by blast
      have "refilled m fl (p # rest) xs m' lst' fl' pl' ch' (new' @ new)"
        using refilled_step [OF Cons(2)] r(3) out t(2) by (simp add: fill_result_def)
      moreover have "v' \<longrightarrow> v \<and> (\<forall>q \<in> set (p # rest). set (new' @ new) \<inter> page_avail m fl q \<noteq> {}
          \<longrightarrow> has_flag (h_flags (hdr_at m q)) FLAG_VIRGIN)"
        using t(2) rst by (auto simp: v1_def fill_result_def)
      ultimately have "fill_result m fl (p # rest) xs v m' lst' ch' v' fl' pl' (new' @ new)"
        using t(2) ne unfolding fill_result_def by (auto simp: add.assoc add.commute)
      moreover have "fill_from_list m lst ch (length xs) v
          = Some ((m', lst'), ch', length xs + length (new' @ new), v')"
        using step t(1) by (simp add: add.assoc add.commute)
      ultimately show ?thesis by blast
    qed
  qed
qed

end
