(* ===== verification/Small_Heap.thy ===== *)
theory Small_Heap
  imports Small_Refill
begin

text \<open>
  One size class of the small-page heap (\<open>GlobalHeap\<close> in \<open>src/src/heap.rs\<close>): parking and retiring
  pages, \<open>take_blocks\<close> and the release functions, with the class invariant and the ownership
  theorems.

  \<open>list_head\<close> is \<open>ListHead\<close>; its three arrays are lists of \<open>MAX_COLD_PAGE_SLOTS\<close> entries.  The purge
  of a cold page is a call of \<open>sys::discard\<close>, the parameter \<open>purge\<close> here: it changes the memory of the
  range only and answers whether the range is known to read as zero and whether its physical pages
  were dropped.  \<open>sys::recommit\<close> does nothing on unix.  The page that \<open>map_heap_pages\<close> returns is the
  parameter \<open>mapped\<close>, null when the system refuses.
\<close>

section \<open>State\<close>

record list_head =
  lh_head :: addr
  lh_empty :: addr
  lh_empty_count :: nat
  lh_cold :: "addr list"
  lh_cold_decommitted :: "bool list"
  lh_cold_zeroed :: "bool list"
  lh_cold_len :: nat
  lh_cold_bytes :: nat

definition list_head_new :: list_head where
  "list_head_new = \<lparr> lh_head = null, lh_empty = null, lh_empty_count = 0,
     lh_cold = replicate MAX_COLD_PAGE_SLOTS null,
     lh_cold_decommitted = replicate MAX_COLD_PAGE_SLOTS False,
     lh_cold_zeroed = replicate MAX_COLD_PAGE_SLOTS False, lh_cold_len = 0, lh_cold_bytes = 0 \<rparr>"

datatype page_fate = KeepPage | ColdPage | UnmapPage

type_synonym purge = "page_mem \<Rightarrow> addr \<Rightarrow> nat \<Rightarrow> page_mem \<times> bool \<times> bool"

section \<open>Parking and releasing\<close>

definition park_empty_page :: "purge \<Rightarrow> page_mem \<Rightarrow> list_head \<Rightarrow> addr \<Rightarrow> page_mem \<times> list_head \<times> page_fate" where
  "park_empty_page purge m lh page =
     (let ((m1, hd1), _) = mem_unlink m (lh_head lh) page;
          lh1 = lh\<lparr>lh_head := hd1\<rparr>
      in if lh_empty_count lh1 < EMPTY_PAGE_CACHE_PER_CLASS then
           (set_hdr m1 page ((hdr_at m1 page)\<lparr>h_next := lh_empty lh1\<rparr>),
            lh1\<lparr>lh_empty := page, lh_empty_count := add_w 32 (lh_empty_count lh1) 1\<rparr>, KeepPage)
         else if lh_cold_len lh1 < MAX_COLD_PAGE_SLOTS
              \<and> lh_cold_bytes lh1 + PAGE_SIZE \<le> MAX_COLD_PAGE_BYTES_PER_CLASS then
           let idx = lh_cold_len lh1;
               lh2 = lh1\<lparr>lh_cold := (lh_cold lh1)[idx := page], lh_cold_len := lh_cold_len lh1 + 1,
                         lh_cold_bytes := lh_cold_bytes lh1 + PAGE_SIZE\<rparr>;
               (m2, zeroed, physical) = purge m1 page PAGE_SIZE
           in (m2, lh2\<lparr>lh_cold_zeroed := (lh_cold_zeroed lh2)[idx := zeroed],
                       lh_cold_decommitted := (lh_cold_decommitted lh2)[idx := physical]\<rparr>, ColdPage)
         else (m1, lh1, UnmapPage))"

definition release_inner :: "purge \<Rightarrow> page_mem \<Rightarrow> list_head \<Rightarrow> addr \<Rightarrow> addr \<Rightarrow> addr \<Rightarrow> nat \<Rightarrow>
    page_mem \<times> list_head \<times> page_fate" where
  "release_inner purge m lh page head tail n =
     (let h = hdr_at m page;
          h1 = h\<lparr>h_flags := clear_flag (h_flags h) FLAG_VIRGIN, free_head := head,
                 free_count := add_w 16 (free_count h) n, used := sub_w 16 (used h) n\<rparr>;
          m1 = set_hdr (m\<lparr>cells_of := (cells_of m)(tail := free_head h)\<rparr>) page h1
      in if used h1 = 0 then park_empty_page purge m1 lh page
         else if \<not> has_flag (h_flags h1) FLAG_IN_PARTIAL then
           let (m2, hd2) = mem_link m1 (lh_head lh) page in (m2, lh\<lparr>lh_head := hd2\<rparr>, KeepPage)
         else (m1, lh, KeepPage))"

definition retire_page_inner :: "purge \<Rightarrow> page_mem \<Rightarrow> list_head \<Rightarrow> addr \<Rightarrow> page_mem \<times> list_head \<times> page_fate" where
  "retire_page_inner purge m lh page =
     (let h = hdr_at m page;
          h1 = h\<lparr>h_flags := set_flag (clear_flag (h_flags h) FLAG_VIRGIN) FLAG_NEEDS_REINIT,
                 free_head := null, free_count := 0, used := 0\<rparr>
      in park_empty_page purge (set_hdr m page h1) lh page)"

text \<open>\<open>act_page_fate\<close> runs after the lock; what it asks of the arena or the system is its result.\<close>

datatype heap_effect = ArenaRelease addr nat | OsUnmap addr nat

definition act_page_fate :: "(addr \<Rightarrow> nat \<Rightarrow> bool) \<Rightarrow> addr \<Rightarrow> page_fate \<Rightarrow> heap_effect option" where
  "act_page_fate in_arena page fate =
     (case fate of
        KeepPage \<Rightarrow> None
      | ColdPage \<Rightarrow> None
      | UnmapPage \<Rightarrow> if in_arena page PAGE_SIZE then Some (ArenaRelease page 1) else Some (OsUnmap page PAGE_SIZE))"

definition release_blocks_with_tail :: "purge \<Rightarrow> (addr \<Rightarrow> nat \<Rightarrow> bool) \<Rightarrow> page_mem \<Rightarrow> list_head \<Rightarrow> addr \<Rightarrow>
    addr \<Rightarrow> addr \<Rightarrow> nat \<Rightarrow> page_mem \<times> list_head \<times> heap_effect option" where
  "release_blocks_with_tail purge in_arena m lh page head tail n =
     (let (m', lh', fate) = release_inner purge m lh page head tail n
      in (m', lh', act_page_fate in_arena page fate))"

definition release_blocks :: "purge \<Rightarrow> (addr \<Rightarrow> nat \<Rightarrow> bool) \<Rightarrow> page_mem \<Rightarrow> list_head \<Rightarrow> addr \<Rightarrow> addr \<Rightarrow> nat \<Rightarrow>
    page_mem \<times> list_head \<times> heap_effect option" where
  "release_blocks purge in_arena m lh page ch n = release_blocks_with_tail purge in_arena m lh page ch ch n"

record page_release_chunk =
  rc_page :: addr
  rc_head :: addr
  rc_tail :: addr
  rc_n :: nat

text \<open>
  The body of \<open>release_many\<close> for one chunk, and the loop over a batch under the lock: the fates are
  collected and acted on afterwards.
\<close>

definition release_chunk :: "purge \<Rightarrow> page_mem \<times> list_head \<Rightarrow> page_release_chunk \<Rightarrow> page_mem \<times> list_head \<times> page_fate" where
  "release_chunk purge s c =
     (let (m, lh) = s in
      if rc_n c = used (hdr_at m (rc_page c)) then retire_page_inner purge m lh (rc_page c)
      else release_inner purge m lh (rc_page c) (rc_head c) (rc_tail c) (rc_n c))"

fun batch_with :: "(page_mem \<times> list_head \<Rightarrow> 'k \<Rightarrow> page_mem \<times> list_head \<times> page_fate) \<Rightarrow> ('k \<Rightarrow> addr) \<Rightarrow>
    page_mem \<times> list_head \<Rightarrow> 'k list \<Rightarrow> (page_mem \<times> list_head) \<times> (addr \<times> page_fate) list" where
  "batch_with step page s [] = (s, [])"
| "batch_with step page s (c # cs) =
     (let (m1, lh1, fate) = step s c;
          (s', fates) = batch_with step page (m1, lh1) cs
      in (s', (page c, fate) # fates))"

definition release_batch :: "purge \<Rightarrow> page_mem \<times> list_head \<Rightarrow> page_release_chunk list \<Rightarrow>
    (page_mem \<times> list_head) \<times> (addr \<times> page_fate) list" where
  "release_batch purge = batch_with (release_chunk purge) rc_page"

text \<open>\<open>release_many\<close> takes the chunks in batches of 128, one lock acquisition each.\<close>

definition BATCH :: nat where [const_simps]: "BATCH = 128"

function release_many :: "purge \<Rightarrow> (addr \<Rightarrow> nat \<Rightarrow> bool) \<Rightarrow> page_mem \<times> list_head \<Rightarrow> page_release_chunk list \<Rightarrow>
    (page_mem \<times> list_head) \<times> heap_effect list" where
  "release_many purge in_arena s chunks =
     (if chunks = [] then (s, [])
      else
        let (s1, fates) = release_batch purge s (take BATCH chunks);
            effs = List.map_filter (\<lambda>(p, f). act_page_fate in_arena p f) fates;
            (s2, effs') = release_many purge in_arena s1 (drop BATCH chunks)
        in (s2, effs @ effs'))"
  by pat_completeness auto
termination by (relation "measure (\<lambda>(_, _, _, cs). length cs)") (auto simp: const_simps)

declare release_many.simps [simp del]

section \<open>Taking blocks\<close>

type_synonym take_state = "(page_mem \<times> list_head) \<times> addr \<times> nat \<times> bool"

definition refill_class :: "page_mem \<Rightarrow> list_head \<Rightarrow> addr \<Rightarrow> nat \<Rightarrow> bool \<Rightarrow> take_state option" where
  "refill_class m lh ch cnt v =
     (case fill_from_list m (lh_head lh) ch cnt v of
        None \<Rightarrow> None
      | Some ((m', lst'), ch', cnt', v') \<Rightarrow> Some ((m', lh\<lparr>lh_head := lst'\<rparr>), ch', cnt', v'))"

text \<open>The page is linked and the refill runs once more.\<close>

definition link_and_refill :: "page_mem \<Rightarrow> list_head \<Rightarrow> addr \<Rightarrow> addr \<Rightarrow> nat \<Rightarrow> bool \<Rightarrow> take_state option" where
  "link_and_refill m lh page ch cnt v =
     (let (m', lst') = mem_link m (lh_head lh) page in refill_class m' (lh\<lparr>lh_head := lst'\<rparr>) ch cnt v)"

definition take_empty :: "nat \<Rightarrow> take_state \<Rightarrow> take_state option" where
  "take_empty c s =
     (let ((m, lh), ch, cnt, v) = s in
      if cnt = 0 \<and> lh_empty lh \<noteq> null then
        let page = lh_empty lh; h = hdr_at m page;
            lh1 = lh\<lparr>lh_empty := h_next h, lh_empty_count := sub_w 32 (lh_empty_count lh) 1\<rparr>;
            h1 = h\<lparr>h_next := null\<rparr>;
            reinit = has_flag (h_flags h1) FLAG_NEEDS_REINIT;
            h2 = (if reinit then (page_init c)\<lparr>h_flags := clear_flag (h_flags (page_init c)) FLAG_VIRGIN\<rparr> else h1);
            v1 = (if reinit then False else v \<and> has_flag (h_flags h1) FLAG_VIRGIN)
        in link_and_refill (set_hdr m page h2) lh1 page ch cnt v1
      else Some s)"

definition take_cold :: "nat \<Rightarrow> take_state \<Rightarrow> take_state option" where
  "take_cold c s =
     (let ((m, lh), ch, cnt, v) = s in
      if cnt = 0 \<and> lh_cold_len lh > 0 then
        let cidx = lh_cold_len lh - 1; page = lh_cold lh ! cidx;
            provably_zero = lh_cold_zeroed lh ! cidx;
            lh1 = lh\<lparr>lh_cold_len := cidx, lh_cold := (lh_cold lh)[cidx := null],
                     lh_cold_bytes := lh_cold_bytes lh - PAGE_SIZE,
                     lh_cold_zeroed := (lh_cold_zeroed lh)[cidx := False],
                     lh_cold_decommitted := (lh_cold_decommitted lh)[cidx := False]\<rparr>;
            h1 = (if provably_zero then page_init c
                  else (page_init c)\<lparr>h_flags := clear_flag (h_flags (page_init c)) FLAG_VIRGIN\<rparr>)
        in link_and_refill (set_hdr m page h1) lh1 page ch cnt provably_zero
      else Some s)"

text \<open>
  The last resort runs after the lock was dropped and retaken: the list it links into is whatever the
  class has become by then.  In \<open>take_blocks\<close> below no other step comes between; the invariant
  lemmas are about the two halves separately, so they hold for any interleaving of whole steps.
\<close>

definition take_locked :: "nat \<Rightarrow> page_mem \<Rightarrow> list_head \<Rightarrow> take_state option" where
  "take_locked c m lh =
     do { s1 \<leftarrow> refill_class m lh null 0 True; s2 \<leftarrow> take_empty c s1; take_cold c s2 }"

definition take_fresh :: "nat \<Rightarrow> addr \<Rightarrow> take_state \<Rightarrow> take_state option" where
  "take_fresh c mapped s =
     (let ((m, lh), ch, cnt, v) = s in
      if cnt = 0 then
        if mapped \<noteq> null then link_and_refill (set_hdr m mapped (page_init c)) lh mapped ch cnt v
        else Some ((m, lh), ch, cnt, False)
      else Some s)"

definition take_blocks :: "nat \<Rightarrow> addr \<Rightarrow> page_mem \<Rightarrow> list_head \<Rightarrow> take_state option" where
  "take_blocks c mapped m lh = do { s \<leftarrow> take_locked c m lh; take_fresh c mapped s }"

section \<open>The class invariant\<close>

text \<open>
  The ghost arguments: the pages of the partial list \<open>pl\<close>, of the empty list \<open>el\<close>, the full pages
  \<open>full\<close> (on no list, all their blocks out), each page's free list \<open>fl\<close>, and the set \<open>dirty\<close> of
  block addresses that have been handed back since their page was last known to be zero.
\<close>

fun elist :: "'a headers \<Rightarrow> addr \<Rightarrow> addr list \<Rightarrow> bool" where
  "elist h x [] = (x = null)"
| "elist h x (y # ys) = (x = y \<and> y \<noteq> null \<and> elist h (h_next (h y)) ys)"

lemma elist_cong: "(\<And>y. y \<in> set xs \<Longrightarrow> h_next (h y) = h_next (h' y)) \<Longrightarrow> elist h x xs = elist h' x xs"
  by (induction xs arbitrary: x) auto

lemma elist_nonnull: "elist h x xs \<Longrightarrow> 0 \<notin> set xs"
  by (induction xs arbitrary: x) auto

definition cold_pages :: "list_head \<Rightarrow> addr list" where
  "cold_pages lh = take (lh_cold_len lh) (lh_cold lh)"

definition page_range :: "addr \<Rightarrow> addr set" where
  "page_range p = {a. page_of a = p}"

definition cold_ok :: "list_head \<Rightarrow> addr set \<Rightarrow> bool" where
  "cold_ok lh dirty \<longleftrightarrow> length (lh_cold lh) = MAX_COLD_PAGE_SLOTS
     \<and> length (lh_cold_zeroed lh) = MAX_COLD_PAGE_SLOTS \<and> length (lh_cold_decommitted lh) = MAX_COLD_PAGE_SLOTS
     \<and> lh_cold_len lh \<le> MAX_COLD_PAGE_SLOTS \<and> lh_cold_bytes lh = lh_cold_len lh * PAGE_SIZE
     \<and> (\<forall>i < lh_cold_len lh. PAGE_SIZE dvd lh_cold lh ! i \<and> 0 < lh_cold lh ! i
          \<and> (lh_cold_zeroed lh ! i \<longrightarrow> dirty \<inter> page_range (lh_cold lh ! i) = {}))"

definition page_inv :: "nat \<Rightarrow> page_mem \<Rightarrow> (addr \<Rightarrow> addr list) \<Rightarrow> addr set \<Rightarrow> addr \<Rightarrow> bool" where
  "page_inv c m fl dirty p \<longleftrightarrow> page_ok (cells_of m) p (hdr_at m p) (fl p) \<and> h_class (hdr_at m p) = c
     \<and> (has_flag (h_flags (hdr_at m p)) FLAG_VIRGIN \<longrightarrow> dirty \<inter> slots p (hdr_at m p) = {})"

definition class_inv :: "nat \<Rightarrow> page_mem \<Rightarrow> list_head \<Rightarrow> addr list \<Rightarrow> addr list \<Rightarrow> addr set \<Rightarrow>
    (addr \<Rightarrow> addr list) \<Rightarrow> addr set \<Rightarrow> bool" where
  "class_inv c m lh pl el full fl dirty \<longleftrightarrow> c < NUM_CLASSES
     \<and> partial_list (hdrs_of m) (lh_head lh) pl \<and> elist (hdrs_of m) (lh_empty lh) el
     \<and> distinct (pl @ el @ cold_pages lh) \<and> set (pl @ el @ cold_pages lh) \<inter> full = {}
     \<and> lh_empty_count lh = length el \<and> length el \<le> EMPTY_PAGE_CACHE_PER_CLASS \<and> cold_ok lh dirty
     \<and> (\<forall>p \<in> set pl \<union> set el \<union> full. page_inv c m fl dirty p)
     \<and> (\<forall>p \<in> set pl. page_avail m fl p \<noteq> {})
     \<and> (\<forall>p \<in> set el. used (hdr_at m p) = 0 \<and> \<not> has_flag (h_flags (hdr_at m p)) FLAG_IN_PARTIAL)
     \<and> (\<forall>p \<in> full. page_avail m fl p = {} \<and> \<not> has_flag (h_flags (hdr_at m p)) FLAG_IN_PARTIAL)"

text \<open>The blocks in the hands of threads.\<close>

definition class_live :: "page_mem \<Rightarrow> (addr \<Rightarrow> addr list) \<Rightarrow> addr set \<Rightarrow> addr set" where
  "class_live m fl ps = (\<Union>p \<in> ps. live p (hdr_at m p) (fl p))"

lemma class_inv_new: "c < NUM_CLASSES \<Longrightarrow> class_inv c m list_head_new [] [] {} fl {}"
  by (simp add: class_inv_def list_head_new_def partial_list_def cold_pages_def cold_ok_def const_simps)

section \<open>Refilling keeps the invariant\<close>

lemma live_page_range:
  assumes "page_ok m p h fl" "b \<in> slots p h"
  shows "page_of b = p"
  using assms slots_page_of by (auto simp: page_ok_def)

lemma page_inv_frame:
  assumes "page_inv c m fl dirty p" "hdr_at m' p = hdr_at m p" "fl' p = fl p"
    "\<And>a. a \<in> page_avail m fl p \<Longrightarrow> cells_of m' a = cells_of m a"
  shows "page_inv c m' fl' dirty p"
  using assms page_ok_frame [of "cells_of m" p "hdr_at m p" "fl p" "cells_of m'"]
  by (simp add: page_inv_def)

text \<open>What a refill starting from an empty chain does to the class.\<close>

definition class_refilled :: "nat \<Rightarrow> addr list \<Rightarrow> addr set \<Rightarrow> (addr \<Rightarrow> addr list) \<Rightarrow> page_mem \<Rightarrow> addr set \<Rightarrow>
    page_mem \<Rightarrow> list_head \<Rightarrow> addr \<Rightarrow> addr list \<Rightarrow> addr list \<Rightarrow> addr set \<Rightarrow> (addr \<Rightarrow> addr list) \<Rightarrow> addr set \<Rightarrow> bool" where
  "class_refilled c new owned fl m dirty m' lh' ch' pl' el' full' fl' dirty' \<longleftrightarrow>
     class_inv c m' lh' pl' el' full' fl' dirty' \<and> chain (cells_of m') ch' new \<and> distinct new
     \<and> length new \<le> REFILL_BATCH
     \<and> set new \<inter> class_live m fl owned = {}
     \<and> class_live m' fl' (set pl' \<union> set el' \<union> full') = class_live m fl owned \<union> set new
     \<and> (\<forall>a \<in> class_live m fl owned. cells_of m' a = cells_of m a)"

lemma refill_class_correct:
  assumes inv: "class_inv c m lh pl el full fl dirty"
  obtains m' lst' ch' v' fl' pl' full' new where
    "refill_class m lh null 0 v = Some ((m', lh\<lparr>lh_head := lst'\<rparr>), ch', length new, v')"
    "class_refilled c new (set pl \<union> set el \<union> full) fl m dirty m' (lh\<lparr>lh_head := lst'\<rparr>) ch' pl' el full' fl' dirty"
    "pl \<noteq> [] \<Longrightarrow> new \<noteq> []" "v' \<Longrightarrow> v \<and> set new \<inter> dirty = {}" "new = [] \<Longrightarrow> m' = m \<and> lst' = lh_head lh \<and> pl = [] \<and> v' = v"
proof -
  have pg: "\<And>p. p \<in> set pl \<union> set el \<union> full \<Longrightarrow> page_inv c m fl dirty p"
    and ok: "\<And>p. p \<in> set pl \<union> set el \<union> full \<Longrightarrow> page_ok (cells_of m) p (hdr_at m p) (fl p)"
    using inv by (auto simp: class_inv_def page_inv_def)
  have pre: "refill_pre m (lh_head lh) fl pl null []"
    using inv ok by (auto simp: refill_pre_def class_inv_def pages_ok_def)
  obtain m' lst' ch' v' fl' pl' new where
    run: "fill_from_list m (lh_head lh) null 0 v = Some ((m', lst'), ch', length new, v')"
    and res: "fill_result m fl pl [] v m' lst' ch' v' fl' pl' new"
    using fill_from_list_correct [OF pre, of v] by auto
  have rf: "refilled m fl pl [] m' lst' fl' pl' ch' new" using res by (simp add: fill_result_def)
  define full' where "full' = full \<union> (set pl - set pl')"
  have sub: "set pl' \<subseteq> set pl" "set new \<subseteq> (\<Union>p \<in> set pl. page_avail m fl p)"
    using rf by (auto simp: refilled_def)
  have out: "hdr_at m' q = hdr_at m q" "fl' q = fl q" if "q \<notin> set pl" for q
    using rf that by (auto simp: refilled_def)
  have other: "page_avail m fl q \<inter> page_avail m fl p = {}"
    if "p \<in> set pl \<union> set el \<union> full" "q \<in> set pl \<union> set el \<union> full" "p \<noteq> q" for p q
    using avail_disjoint [OF ok ok] that by blast
  have frame: "cells_of m' a = cells_of m a" if "a \<notin> (\<Union>p \<in> set pl. page_avail m fl p)" for a
    using rf that by (simp add: refilled_def)
  have disj: "q \<notin> set pl" if "q \<in> set el \<union> full" for q
    using inv that by (auto simp: class_inv_def)
  have in_pl: "page_inv c m' fl' dirty p \<and> slots p (hdr_at m' p) = slots p (hdr_at m p)" if "p \<in> set pl" for p
    using rf pg [of p] that
    by (auto simp: refilled_def page_refilled_def page_inv_def slots_def capacity_def flag_bits)
  have in_rest: "page_inv c m' fl' dirty q" if "q \<in> set el \<union> full" for q
  proof (rule page_inv_frame [OF _ out(1) out(2)])
    fix a assume a: "a \<in> page_avail m fl q"
    have "a \<notin> page_avail m fl p" if "p \<in> set pl" for p
      using other [of p q] that a disj [of q] \<open>q \<in> set el \<union> full\<close> by fast
    then show "cells_of m' a = cells_of m a" by (intro frame) blast
  qed (use that pg disj in auto)
  have inv': "class_inv c m' (lh\<lparr>lh_head := lst'\<rparr>) pl' el full' fl' dirty"
  proof -
    have "elist (hdrs_of m') (lh_empty lh) el"
      using inv out(1) disj by (subst elist_cong [of el _ "hdrs_of m"]) (auto simp: class_inv_def)
    moreover have "distinct pl'" using rf by (auto simp: refilled_def partial_list_def)
    moreover have "page_avail m' fl' p \<noteq> {}" if "p \<in> set pl'" for p
      using rf that sub(1) by (auto simp: refilled_def page_refilled_def)
    moreover have "page_avail m' fl' p = {} \<and> \<not> has_flag (h_flags (hdr_at m' p)) FLAG_IN_PARTIAL" if "p \<in> full'" for p
      using rf that inv disj out by (auto simp: full'_def refilled_def page_refilled_def class_inv_def)
    ultimately show ?thesis
      using inv rf sub(1) in_pl in_rest disj out
      by (auto simp: class_inv_def full'_def cold_pages_def cold_ok_def refilled_def)
  qed
  have live_pl: "live p (hdr_at m' p) (fl' p) = live p (hdr_at m p) (fl p) \<union> (set new \<inter> page_avail m fl p)"
    if "p \<in> set pl" for p
    using rf in_pl [OF that] that slots_split(3) [OF ok, of p]
    by (auto simp: live_def refilled_def page_refilled_def)
  have live_rest: "live q (hdr_at m' q) (fl' q) = live q (hdr_at m q) (fl q)" if "q \<in> set el \<union> full" for q
    using out disj that by simp
  have owned: "set pl' \<union> set el \<union> full' = set pl \<union> set el \<union> full"
    using sub(1) by (auto simp: full'_def)
  have lv: "class_live m' fl' (set pl \<union> set el \<union> full) = class_live m fl (set pl \<union> set el \<union> full) \<union> set new"
  proof -
    have "(\<Union>p \<in> set pl. set new \<inter> page_avail m fl p) = set new" using sub(2) by blast
    then have "(\<Union>p \<in> set pl. live p (hdr_at m' p) (fl' p)) = (\<Union>p \<in> set pl. live p (hdr_at m p) (fl p)) \<union> set new"
      by (simp add: live_pl UN_Un_distrib)
    moreover have "(\<Union>p \<in> set el \<union> full. live p (hdr_at m' p) (fl' p)) = (\<Union>p \<in> set el \<union> full. live p (hdr_at m p) (fl p))"
      by (rule SUP_cong [OF refl]) (rule live_rest)
    ultimately show ?thesis unfolding class_live_def Un_assoc [of "set pl"] UN_Un by auto
  qed
  have fresh: "b \<notin> page_avail m fl p" if bl: "b \<in> class_live m fl (set pl \<union> set el \<union> full)"
    and pp: "p \<in> set pl \<union> set el \<union> full" for b p
  proof
    assume b: "b \<in> page_avail m fl p"
    obtain q where q: "q \<in> set pl \<union> set el \<union> full" "b \<in> live q (hdr_at m q) (fl q)"
      using bl by (auto simp: class_live_def)
    then have "page_of b = q" using live_page_range [OF ok] by (auto simp: live_def)
    then have "p = q" using avail_page_of [OF ok b] pp by simp
    then show False using q(2) b by (simp add: live_def)
  qed
  have vg: "v \<and> set new \<inter> dirty = {}" if "v'"
  proof -
    have v: "v" "\<And>p. p \<in> set pl \<Longrightarrow> set new \<inter> page_avail m fl p \<noteq> {} \<Longrightarrow> has_flag (h_flags (hdr_at m p)) FLAG_VIRGIN"
      using res that by (auto simp: fill_result_def)
    have "b \<notin> dirty" if b: "b \<in> set new" for b
    proof -
      obtain p where p: "p \<in> set pl" "b \<in> page_avail m fl p" using sub(2) b by blast
      then have "dirty \<inter> slots p (hdr_at m p) = {}" using pg [of p] v(2) [of p] b by (auto simp: page_inv_def)
      then show ?thesis using slots_split(3) [OF ok, of p] p by blast
    qed
    then show ?thesis using v(1) by blast
  qed
  have nil: "m' = m \<and> lst' = lh_head lh \<and> pl = [] \<and> v' = v" if "new = []"
  proof -
    have pl: "pl = []" using res that by (simp add: fill_result_def const_simps split: if_splits)
    then have "lh_head lh = 0" using inv by (simp add: class_inv_def partial_list_def)
    then show ?thesis using run pl by (subst (asm) fill_from_list.simps) (auto simp: const_simps)
  qed
  have "class_refilled c new (set pl \<union> set el \<union> full) fl m dirty m' (lh\<lparr>lh_head := lst'\<rparr>) ch' pl' el full' fl' dirty"
  proof -
    have "set new \<inter> class_live m fl (set pl \<union> set el \<union> full) = {}" using fresh sub(2) by blast
    moreover have "\<forall>a \<in> class_live m fl (set pl \<union> set el \<union> full). cells_of m' a = cells_of m a"
      by (intro ballI frame) (use fresh in blast)
    moreover have "chain (cells_of m') ch' new" "distinct new" "length new \<le> REFILL_BATCH"
      using rf res by (simp_all add: refilled_def fill_result_def)
    ultimately show ?thesis using inv' lv owned unfolding class_refilled_def by simp
  qed
  moreover have "refill_class m lh null 0 v = Some ((m', lh\<lparr>lh_head := lst'\<rparr>), ch', length new, v')"
    using run by (simp add: refill_class_def)
  moreover have "pl \<noteq> [] \<Longrightarrow> new \<noteq> []" using res by (simp add: fill_result_def REFILL_BATCH_def)
  ultimately show thesis using that vg nil by metis
qed

section \<open>Bringing a page into the class\<close>

lemma page_inv_relinked:
  assumes "relinked p h h'" "page_inv c (m\<lparr>hdrs_of := h\<rparr>) fl dirty q"
  shows "page_inv c (m\<lparr>hdrs_of := h'\<rparr>) fl dirty q" "avail q (h' q) (fl q) = avail q (h q) (fl q)"
    "live q (h' q) (fl q) = live q (h q) (fl q)" "used (h' q) = used (h q)"
proof -
  have b: "same_body (h q) (h' q)" and f: "bit (h_flags (h' q)) 1 = bit (h_flags (h q)) 1"
    using assms(1) by (auto simp: relinked_def)
  have ok: "page_ok (cells_of m) q (h q) (fl q)" using assms(2) by (simp add: page_inv_def)
  note cong = page_ok_cong [OF ok b]
  show "avail q (h' q) (fl q) = avail q (h q) (fl q)" "live q (h' q) (fl q) = live q (h q) (fl q)"
    using cong by (simp_all add: live_def)
  show "used (h' q) = used (h q)" by (rule same_body_fields(3) [OF b])
  show "page_inv c (m\<lparr>hdrs_of := h'\<rparr>) fl dirty q"
    using assms(2) cong f same_body_fields(4) [OF b] by (simp add: page_inv_def flag_bits)
qed

lemma class_inv_link:
  assumes inv: "class_inv c m lh pl el full fl dirty"
    and p: "p \<notin> set (pl @ el @ cold_pages lh)" "p \<notin> full" "p \<noteq> 0"
    and pg: "page_inv c m fl dirty p" "page_avail m fl p \<noteq> {}"
  obtains m' lst' where "mem_link m (lh_head lh) p = (m', lst')"
    "class_inv c m' (lh\<lparr>lh_head := lst'\<rparr>) (p # pl) el full fl dirty"
    "cells_of m' = cells_of m" "class_live m' fl (set (p # pl) \<union> set el \<union> full) = class_live m fl (set (p # pl) \<union> set el \<union> full)"
    "relinked p (hdrs_of m) (hdrs_of m')"
proof -
  define h' where "h' = fst (link_partial (hdrs_of m, lh_head lh) p)"
  define lst' where "lst' = snd (link_partial (hdrs_of m, lh_head lh) p)"
  have l: "partial_list h' lst' (p # pl)" "relinked p (hdrs_of m) h'" "\<forall>q. q \<notin> insert p (set pl) \<longrightarrow> h' q = hdr_at m q"
    using link_partial_list [of "hdrs_of m" "lh_head lh" pl p] inv p
    by (auto simp: class_inv_def h'_def lst'_def)
  have rel: "page_inv c (m\<lparr>hdrs_of := h'\<rparr>) fl dirty q" "avail q (h' q) (fl q) = page_avail m fl q"
    "live q (h' q) (fl q) = live q (hdr_at m q) (fl q)"
    if "q \<in> set (p # pl) \<union> set el \<union> full" for q
    using page_inv_relinked [OF l(2), of c m fl dirty q] inv pg(1) that by (auto simp: class_inv_def)
  have same: "h' q = hdr_at m q" if "q \<in> set el \<union> full" for q
    using l(3) inv p that by (auto simp: class_inv_def)
  have "elist h' (lh_empty lh) el"
    using inv same by (subst elist_cong [of el _ "hdrs_of m"]) (auto simp: class_inv_def)
  then have "class_inv c (m\<lparr>hdrs_of := h'\<rparr>) (lh\<lparr>lh_head := lst'\<rparr>) (p # pl) el full fl dirty"
    using inv p l(1) rel same pg(2) by (auto simp: class_inv_def cold_pages_def cold_ok_def)
  moreover have "mem_link m (lh_head lh) p = (m\<lparr>hdrs_of := h'\<rparr>, lst')"
    by (simp add: mem_link_def h'_def lst'_def split: prod.splits)
  moreover have "class_live (m\<lparr>hdrs_of := h'\<rparr>) fl (set (p # pl) \<union> set el \<union> full)
      = class_live m fl (set (p # pl) \<union> set el \<union> full)"
    unfolding class_live_def by (rule SUP_cong [OF refl]) (use rel(3) in simp)
  ultimately show thesis using l(2) that by simp
qed

text \<open>The header of a page the class does not have yet is free to change.\<close>

lemma class_inv_outside:
  assumes inv: "class_inv c m lh pl el full fl dirty" and p: "p \<notin> set (pl @ el)" "p \<notin> full"
  shows "class_inv c (set_hdr m p h) lh pl el full (fl(p := x)) dirty"
    "class_live (set_hdr m p h) (fl(p := x)) (set pl \<union> set el \<union> full) = class_live m fl (set pl \<union> set el \<union> full)"
proof -
  have "page_inv c (set_hdr m p h) (fl(p := x)) dirty q" if "q \<in> set pl \<union> set el \<union> full" for q
    by (rule page_inv_frame [of c m fl]) (use inv p that in \<open>auto simp: class_inv_def\<close>)
  moreover have "elist (hdrs_of (set_hdr m p h)) (lh_empty lh) el"
    using inv p by (subst elist_cong [of el _ "hdrs_of m"]) (auto simp: class_inv_def)
  moreover have "partial_list (hdrs_of (set_hdr m p h)) (lh_head lh) pl"
    using inv p by (auto simp: class_inv_def intro!: partial_list_upd_outside)
  ultimately show "class_inv c (set_hdr m p h) lh pl el full (fl(p := x)) dirty"
    using inv p unfolding class_inv_def by auto
  show "class_live (set_hdr m p h) (fl(p := x)) (set pl \<union> set el \<union> full) = class_live m fl (set pl \<union> set el \<union> full)"
    unfolding class_live_def by (rule SUP_cong [OF refl]) (use p in auto)
qed

lemma live_unused: "page_ok m p h fl \<Longrightarrow> used h = 0 \<Longrightarrow> live p h fl = {}"
proof -
  assume "page_ok m p h fl" "used h = 0"
  then have "card (live p h fl) = 0" by (simp add: live_card)
  moreover have "finite (live p h fl)" by (simp add: live_def slots_def)
  ultimately show ?thesis by simp
qed

lemma page_ok_init:
  assumes "PAGE_SIZE dvd p" "0 < p" "c < NUM_CLASSES"
  shows "page_ok m p ((page_init c)\<lparr>h_flags := f\<rparr>) []" "page_ok m p (page_init c) []"
    "h_class (page_init c) = c" "used (page_init c) = 0"
  using assms by (auto simp: page_ok_def page_init_def const_simps)

lemma avail_unused: "page_ok m p h fl \<Longrightarrow> used h = 0 \<Longrightarrow> avail p h fl \<noteq> {}"
  using page_avail_empty capacity_bound(1) [of h] by (auto simp: page_ok_def)

lemma class_live_insert: "class_live m fl (insert p ps) = live p (hdr_at m p) (fl p) \<union> class_live m fl ps"
  by (simp add: class_live_def)

text \<open>
  The step shared by the three ways to get a page (empty list, cold array, fresh mapping): an unused
  page \<open>p\<close> outside the class, with header \<open>h\<close> and free list \<open>x\<close>, is linked and refilled from.
\<close>

lemma link_and_refill_correct:
  assumes inv: "class_inv c m lh [] el full fl dirty"
    and p: "p \<notin> set (el @ cold_pages lh)" "p \<notin> full"
    and ok: "page_ok (cells_of m) p h x" "h_class h = c" "used h = 0"
    and vg: "has_flag (h_flags h) FLAG_VIRGIN \<Longrightarrow> dirty \<inter> slots p h = {}"
  obtains m' lh' ch' v' fl' pl' full' new where
    "link_and_refill (set_hdr m p h) lh p null 0 v = Some ((m', lh'), ch', length new, v')"
    "class_refilled c new (set el \<union> full) fl m dirty m' lh' ch' pl' el full' fl' dirty"
    "new \<noteq> []" "v' \<Longrightarrow> v \<and> set new \<inter> dirty = {}"
proof -
  let ?m = "set_hdr m p h" and ?fl = "fl(p := x)"
  have inv1: "class_inv c ?m lh [] el full ?fl dirty"
    and live1: "class_live ?m ?fl (set el \<union> full) = class_live m fl (set el \<union> full)"
    using class_inv_outside [OF inv, of p h x] p by simp_all
  have pinv: "page_inv c ?m ?fl dirty p" "page_avail ?m ?fl p \<noteq> {}" "p \<noteq> 0" "live p h x = {}"
    using ok vg avail_unused [OF ok(1,3)] live_unused [OF ok(1,3)] by (auto simp: page_inv_def page_ok_def)
  obtain m1 lst1 where l: "mem_link ?m (lh_head lh) p = (m1, lst1)"
    "class_inv c m1 (lh\<lparr>lh_head := lst1\<rparr>) [p] el full ?fl dirty" "cells_of m1 = cells_of ?m"
    "class_live m1 ?fl (set [p] \<union> set el \<union> full) = class_live ?m ?fl (set [p] \<union> set el \<union> full)"
    using class_inv_link [OF inv1 _ _ pinv(3,1,2)] p by (metis append_Nil)
  have live2: "class_live m1 ?fl (set [p] \<union> set el \<union> full) = class_live m fl (set el \<union> full)"
    using l(4) live1 pinv(4) by (simp add: class_live_insert)
  obtain m' lst' ch' v' fl' pl' full' new where r:
    "refill_class m1 (lh\<lparr>lh_head := lst1\<rparr>) null 0 v = Some ((m', lh\<lparr>lh_head := lst1\<rparr>\<lparr>lh_head := lst'\<rparr>), ch', length new, v')"
    "class_refilled c new (set [p] \<union> set el \<union> full) ?fl m1 dirty m' (lh\<lparr>lh_head := lst1\<rparr>\<lparr>lh_head := lst'\<rparr>) ch' pl' el full' fl' dirty"
    "new \<noteq> []" "v' \<Longrightarrow> v \<and> set new \<inter> dirty = {}"
    using refill_class_correct [OF l(2), of v] by (metis list.distinct(1))
  have "class_refilled c new (set el \<union> full) fl m dirty m' (lh\<lparr>lh_head := lst1\<rparr>\<lparr>lh_head := lst'\<rparr>) ch' pl' el full' fl' dirty"
    using r(2) l(3) live2 unfolding class_refilled_def by simp
  moreover have "link_and_refill ?m lh p null 0 v = refill_class m1 (lh\<lparr>lh_head := lst1\<rparr>) null 0 v"
    by (simp add: link_and_refill_def l(1))
  ultimately show thesis using r(1,3,4) that by metis
qed

section \<open>Taking blocks\<close>

text \<open>
  \<open>served\<close>: the outcome of a take against the state before it.  Either no block was found and the
  class is unchanged, or the blocks \<open>new\<close> were served.
\<close>

definition served :: "nat \<Rightarrow> addr set \<Rightarrow> (addr \<Rightarrow> addr list) \<Rightarrow> page_mem \<Rightarrow> addr set \<Rightarrow> take_state \<Rightarrow> bool" where
  "served c owned fl m dirty s \<longleftrightarrow> (\<exists>m' lh' ch' v' pl' el' full' fl' new. s = ((m', lh'), ch', length new, v')
     \<and> new \<noteq> [] \<and> class_refilled c new owned fl m dirty m' lh' ch' pl' el' full' fl' dirty
     \<and> (v' \<longrightarrow> set new \<inter> dirty = {}))"

lemma served_nonzero: "served c owned fl m dirty ((m', lh'), ch', cnt, v') \<Longrightarrow> cnt \<noteq> 0"
  by (auto simp: served_def)

lemma take_empty_correct:
  assumes inv: "class_inv c m lh [] el full fl dirty"
  shows "el = [] \<and> take_empty c ((m, lh), null, 0, v) = Some ((m, lh), null, 0, v)
    \<or> (\<exists>s. take_empty c ((m, lh), null, 0, v) = Some s \<and> served c (set el \<union> full) fl m dirty s)"
proof (cases el)
  case Nil
  then show ?thesis using inv by (simp add: take_empty_def class_inv_def)
next
  case (Cons page el')
  define h where "h = hdr_at m page"
  define lh1 where "lh1 = lh\<lparr>lh_empty := h_next h, lh_empty_count := sub_w 32 (lh_empty_count lh) 1\<rparr>"
  define re where "re = has_flag (h_flags h) FLAG_NEEDS_REINIT"
  define h2 where "h2 = (if re then (page_init c)\<lparr>h_flags := clear_flag (h_flags (page_init c)) FLAG_VIRGIN\<rparr>
                         else h\<lparr>h_next := null\<rparr>)"
  define x where "x = (if re then [] else fl page)"
  define v1 where "v1 = (if re then False else v \<and> has_flag (h_flags h) FLAG_VIRGIN)"
  have pg: "page_inv c m fl dirty page" "used h = 0" "lh_empty lh = page" "page \<noteq> 0" "c < NUM_CLASSES"
    using inv Cons by (auto simp: class_inv_def h_def)
  have cnt: "lh_empty_count lh1 = length el'" using inv Cons by (simp add: class_inv_def lh1_def const_simps)
  have inv1: "class_inv c m lh1 [] el' full fl dirty"
    using inv Cons cnt by (auto simp: class_inv_def lh1_def h_def cold_pages_def cold_ok_def)
  have out: "page \<notin> set (el' @ cold_pages lh1)" "page \<notin> full"
    using inv Cons by (auto simp: class_inv_def lh1_def cold_pages_def)
  have okh: "page_ok (cells_of m) page h (fl page)" "h_class h = c" using pg(1) by (simp_all add: page_inv_def h_def)
  have base: "PAGE_SIZE dvd page" "0 < page" using okh(1) by (auto simp: page_ok_def)
  have "page_ok (cells_of m) page (h\<lparr>h_next := null\<rparr>) (fl page)"
    by (rule page_ok_cong(1) [OF okh(1)]) simp
  then have ok: "page_ok (cells_of m) page h2 x" "h_class h2 = c" "used h2 = 0"
    using page_ok_init [OF base pg(5)] okh(2) pg(2) by (auto simp: h2_def x_def)
  have vg: "dirty \<inter> slots page h2 = {}" if "has_flag (h_flags h2) FLAG_VIRGIN"
  proof (cases re)
    case True
    then show ?thesis using that by (simp add: h2_def page_init_def has_flag_def clear_flag_def flag_defs)
  next
    case False
    then show ?thesis using that pg(1) by (auto simp: h2_def page_inv_def h_def slots_def capacity_def)
  qed
  obtain m' lh' ch' v' fl' pl' full' new where r:
    "link_and_refill (set_hdr m page h2) lh1 page null 0 v1 = Some ((m', lh'), ch', length new, v')"
    "class_refilled c new (set el' \<union> full) fl m dirty m' lh' ch' pl' el' full' fl' dirty"
    "new \<noteq> []" "v' \<Longrightarrow> v1 \<and> set new \<inter> dirty = {}"
    using link_and_refill_correct [OF inv1 out ok vg, of v1] by metis
  have "take_empty c ((m, lh), null, 0, v) = Some ((m', lh'), ch', length new, v')"
    using pg r(1) by (auto simp: take_empty_def Let_def lh1_def h2_def re_def v1_def simp flip: h_def split: if_splits)
  moreover have "class_live m fl (set el \<union> full) = class_live m fl (set el' \<union> full)"
    using live_unused [OF okh(1) pg(2)] Cons by (simp add: class_live_insert h_def)
  then have "served c (set el \<union> full) fl m dirty ((m', lh'), ch', length new, v')"
    using r(2,3,4) unfolding served_def class_refilled_def by metis
  ultimately show ?thesis by blast
qed

lemma slots_in_range:
  assumes "page_ok m p h fl"
  shows "slots p h \<subseteq> page_range p"
  using live_page_range [OF assms] by (auto simp: page_range_def)

lemma take_cold_correct:
  assumes inv: "class_inv c m lh [] el full fl dirty"
  shows "cold_pages lh = [] \<and> take_cold c ((m, lh), null, 0, v) = Some ((m, lh), null, 0, v)
    \<or> (\<exists>s. take_cold c ((m, lh), null, 0, v) = Some s \<and> served c (set el \<union> full) fl m dirty s)"
proof (cases "lh_cold_len lh")
  case 0
  then show ?thesis by (simp add: take_cold_def cold_pages_def)
next
  case (Suc cidx)
  define page where "page = lh_cold lh ! cidx"
  define zero where "zero = lh_cold_zeroed lh ! cidx"
  define lh1 where "lh1 = lh\<lparr>lh_cold_len := cidx, lh_cold := (lh_cold lh)[cidx := null],
                     lh_cold_bytes := lh_cold_bytes lh - PAGE_SIZE,
                     lh_cold_zeroed := (lh_cold_zeroed lh)[cidx := False],
                     lh_cold_decommitted := (lh_cold_decommitted lh)[cidx := False]\<rparr>"
  define h1 where "h1 = (if zero then page_init c
                  else (page_init c)\<lparr>h_flags := clear_flag (h_flags (page_init c)) FLAG_VIRGIN\<rparr>)"
  have cold: "cold_ok lh dirty" "c < NUM_CLASSES" using inv by (simp_all add: class_inv_def)
  have len: "cidx < length (lh_cold lh)" using cold(1) Suc by (simp add: cold_ok_def)
  have base: "PAGE_SIZE dvd page" "0 < page" and z: "zero \<Longrightarrow> dirty \<inter> page_range page = {}"
    using cold(1) Suc by (auto simp: cold_ok_def page_def zero_def)
  have cp: "cold_pages lh = cold_pages lh1 @ [page]"
    using len by (simp add: cold_pages_def lh1_def page_def Suc take_Suc_conv_app_nth)
  have "cold_ok lh1 dirty" using cold(1) Suc by (auto simp: cold_ok_def lh1_def)
  then have inv1: "class_inv c m lh1 [] el full fl dirty"
    using inv cp by (auto simp: class_inv_def lh1_def)
  have out: "page \<notin> set (el @ cold_pages lh1)" "page \<notin> full"
    using inv cp by (auto simp: class_inv_def)
  note init = page_ok_init [OF base cold(2)]
  have ok: "page_ok (cells_of m) page h1 []" "h_class h1 = c" "used h1 = 0"
    using init by (auto simp: h1_def)
  have vg: "dirty \<inter> slots page h1 = {}" if "has_flag (h_flags h1) FLAG_VIRGIN"
  proof (cases zero)
    case True
    then show ?thesis using z slots_in_range [OF ok(1)] by blast
  next
    case False
    then show ?thesis using that by (simp add: h1_def page_init_def has_flag_def clear_flag_def flag_defs)
  qed
  obtain m' lh' ch' v' fl' pl' full' new where r:
    "link_and_refill (set_hdr m page h1) lh1 page null 0 zero = Some ((m', lh'), ch', length new, v')"
    "class_refilled c new (set el \<union> full) fl m dirty m' lh' ch' pl' el full' fl' dirty"
    "new \<noteq> []" "v' \<Longrightarrow> zero \<and> set new \<inter> dirty = {}"
    using link_and_refill_correct [OF inv1 out ok vg, of zero] by metis
  have "take_cold c ((m, lh), null, 0, v) = Some ((m', lh'), ch', length new, v')"
    using Suc r(1) by (simp add: take_cold_def Let_def lh1_def h1_def page_def zero_def)
  moreover have "served c (set el \<union> full) fl m dirty ((m', lh'), ch', length new, v')"
    using r(2,3,4) unfolding served_def by blast
  ultimately show ?thesis by blast
qed

lemma take_locked_correct:
  assumes inv: "class_inv c m lh pl el full fl dirty"
  shows "pl = [] \<and> el = [] \<and> cold_pages lh = [] \<and> take_locked c m lh = Some ((m, lh), null, 0, True)
    \<or> (\<exists>s. take_locked c m lh = Some s \<and> served c (set pl \<union> set el \<union> full) fl m dirty s)"
proof -
  have skip: "take_empty c s = Some s" "take_cold c s = Some s" if "served c owned fl m dirty s" for s owned
    using served_nonzero that by (cases s; fastforce simp: take_empty_def take_cold_def)+
  obtain m' lst' ch' v' fl' pl' full' new where r:
    "refill_class m lh null 0 True = Some ((m', lh\<lparr>lh_head := lst'\<rparr>), ch', length new, v')"
    "class_refilled c new (set pl \<union> set el \<union> full) fl m dirty m' (lh\<lparr>lh_head := lst'\<rparr>) ch' pl' el full' fl' dirty"
    "pl \<noteq> [] \<Longrightarrow> new \<noteq> []" "v' \<Longrightarrow> set new \<inter> dirty = {}"
    "new = [] \<Longrightarrow> m' = m \<and> lst' = lh_head lh \<and> pl = [] \<and> v' = True"
    using refill_class_correct [OF inv, of True] by metis
  show ?thesis
  proof (cases "new = []")
    case False
    then have "served c (set pl \<union> set el \<union> full) fl m dirty ((m', lh\<lparr>lh_head := lst'\<rparr>), ch', length new, v')"
      using r(2,4) unfolding served_def by blast
    then show ?thesis using r(1) skip by (simp add: take_locked_def)
  next
    case True
    have pl: "pl = []" "m' = m" "lst' = lh_head lh" "ch' = null" and v': "v'"
      using r(2,5) True by (auto simp: class_refilled_def)
    note inv0 = inv [unfolded pl(1)]
    from take_empty_correct [OF inv0, of v'] show ?thesis
    proof
      assume e: "el = [] \<and> take_empty c ((m, lh), null, 0, v') = Some ((m, lh), null, 0, v')"
      then show ?thesis
        using take_cold_correct [OF inv0, of v'] r(1) True pl v' by (auto simp: take_locked_def)
    next
      assume "\<exists>s. take_empty c ((m, lh), null, 0, v') = Some s \<and> served c (set el \<union> full) fl m dirty s"
      then show ?thesis using r(1) True pl skip by (auto simp: take_locked_def)
    qed
  qed
qed

lemma class_inv_less_dirty:
  assumes "class_inv c m lh pl el full fl dirty" "dirty' \<subseteq> dirty"
  shows "class_inv c m lh pl el full fl dirty'"
  using assms unfolding class_inv_def cold_ok_def page_inv_def by blast

lemma take_fresh_correct:
  assumes inv: "class_inv c m lh [] el full fl dirty"
    and mapped: "PAGE_SIZE dvd mapped" "mapped \<notin> set (el @ cold_pages lh) \<union> full" "0 < mapped"
  shows "\<exists>s. take_fresh c mapped ((m, lh), null, 0, v) = Some s
    \<and> served c (set el \<union> full) fl m (dirty - page_range mapped) s"
proof -
  let ?d = "dirty - page_range mapped"
  have inv1: "class_inv c m lh [] el full fl ?d" by (rule class_inv_less_dirty [OF inv]) simp
  have c: "c < NUM_CLASSES" using inv by (simp add: class_inv_def)
  note init = page_ok_init [OF mapped(1,3) c]
  have out: "mapped \<notin> set (el @ cold_pages lh)" "mapped \<notin> full" using mapped(2) by auto
  have vg: "?d \<inter> slots mapped (page_init c) = {}" using slots_in_range [OF init(2)] by blast
  obtain m' lh' ch' v' fl' pl' full' new where r:
    "link_and_refill (set_hdr m mapped (page_init c)) lh mapped null 0 v = Some ((m', lh'), ch', length new, v')"
    "class_refilled c new (set el \<union> full) fl m ?d m' lh' ch' pl' el full' fl' ?d"
    "new \<noteq> []" "v' \<Longrightarrow> v \<and> set new \<inter> ?d = {}"
    using link_and_refill_correct [OF inv1 out init(2,3,4) vg, of v] by metis
  have "take_fresh c mapped ((m, lh), null, 0, v) = Some ((m', lh'), ch', length new, v')"
    using r(1) mapped(3) by (simp add: take_fresh_def)
  then show ?thesis using r(2,3,4) unfolding served_def by blast
qed

lemma take_blocks_facts:
  assumes "class_inv c m lh pl el full fl dirty"
    and "mapped = null \<or> PAGE_SIZE dvd mapped \<and> mapped \<notin> set (pl @ el @ cold_pages lh) \<union> full"
  shows "(\<exists>m' lh' ch v' pl' el' full' fl' dirty' new.
      take_blocks c mapped m lh = Some ((m', lh'), ch, length new, v')
      \<and> new \<noteq> [] \<and> length new \<le> REFILL_BATCH \<and> distinct new \<and> chain (cells_of m') ch new
      \<and> class_inv c m' lh' pl' el' full' fl' dirty'
      \<and> set new \<inter> class_live m fl (set pl \<union> set el \<union> full) = {}
      \<and> class_live m' fl' (set pl' \<union> set el' \<union> full') = class_live m fl (set pl \<union> set el \<union> full) \<union> set new
      \<and> (\<forall>a \<in> class_live m fl (set pl \<union> set el \<union> full). cells_of m' a = cells_of m a)
      \<and> dirty - page_range mapped \<subseteq> dirty' \<and> dirty' \<subseteq> dirty \<and> (v' \<longrightarrow> set new \<inter> dirty' = {}))
    \<or> mapped = null \<and> pl = [] \<and> el = [] \<and> cold_pages lh = []
      \<and> take_blocks c mapped m lh = Some ((m, lh), null, 0, False)"
proof -
  have finish: ?thesis
    if "take_blocks c mapped m lh = Some s" "served c (set pl \<union> set el \<union> full) fl m d s"
      "dirty - page_range mapped \<subseteq> d" "d \<subseteq> dirty" for s d
    using that unfolding served_def class_refilled_def by blast
  from take_locked_correct [OF assms(1)] show ?thesis
  proof
    assume none: "pl = [] \<and> el = [] \<and> cold_pages lh = [] \<and> take_locked c m lh = Some ((m, lh), null, 0, True)"
    show ?thesis
    proof (cases "mapped = null")
      case True
      then show ?thesis using none by (simp add: take_blocks_def take_fresh_def)
    next
      case False
      have "class_inv c m lh [] el full fl dirty" using assms(1) none by simp
      then obtain s where "take_fresh c mapped ((m, lh), null, 0, True) = Some s"
        "served c (set el \<union> full) fl m (dirty - page_range mapped) s"
        using take_fresh_correct [of c m lh el full fl dirty mapped True] assms(2) none False by auto
      then show ?thesis using finish [of s "dirty - page_range mapped"] none by (simp add: take_blocks_def)
    qed
  next
    assume "\<exists>s. take_locked c m lh = Some s \<and> served c (set pl \<union> set el \<union> full) fl m dirty s"
    then obtain s where s: "take_locked c m lh = Some s" "served c (set pl \<union> set el \<union> full) fl m dirty s" by blast
    have "take_fresh c mapped s = Some s"
      using served_nonzero [of c _ fl m dirty] s(2) by (cases s) (fastforce simp: take_fresh_def)
    then show ?thesis using finish [OF _ s(2)] s(1) by (simp add: take_blocks_def)
  qed
qed

text \<open>C8 (small heap).  \<open>take_blocks\<close> on a well-formed class always returns.  If the system
  grants a page (at a page-aligned address not yet in the class), it hands out between 1 and
  \<open>REFILL_BATCH\<close> distinct blocks as one chain, none of which any thread held; they become live,
  every other live block keeps its memory word, and the class is well formed again.  If the system
  refuses, either blocks were found in the class or the answer is the empty chain and the class is
  unchanged.  The \<open>virgin\<close> answer is only given for blocks outside \<open>dirty\<close>.\<close>

theorem take_blocks_correct:
  assumes "class_inv c m lh pl el full fl dirty"
    and "mapped = null \<or> PAGE_SIZE dvd mapped \<and> mapped \<notin> set (pl @ el @ cold_pages lh) \<union> full"
  shows "(\<exists>m' lh' ch v' pl' el' full' fl' dirty' new.
      take_blocks c mapped m lh = Some ((m', lh'), ch, length new, v')
      \<and> new \<noteq> [] \<and> length new \<le> REFILL_BATCH \<and> distinct new \<and> chain (cells_of m') ch new
      \<and> class_inv c m' lh' pl' el' full' fl' dirty'
      \<and> set new \<inter> class_live m fl (set pl \<union> set el \<union> full) = {}
      \<and> class_live m' fl' (set pl' \<union> set el' \<union> full') = class_live m fl (set pl \<union> set el \<union> full) \<union> set new
      \<and> (\<forall>a \<in> class_live m fl (set pl \<union> set el \<union> full). cells_of m' a = cells_of m a)
      \<and> dirty - page_range mapped \<subseteq> dirty' \<and> dirty' \<subseteq> dirty \<and> (v' \<longrightarrow> set new \<inter> dirty' = {}))
    \<or> mapped = null \<and> pl = [] \<and> el = [] \<and> cold_pages lh = []
      \<and> take_blocks c mapped m lh = Some ((m, lh), null, 0, False)"
  by (rule take_blocks_facts [OF assms])

text \<open>The smallest case: a fresh class and a page from the system.\<close>

definition blank_mem :: page_mem where
  "blank_mem = \<lparr>cells_of = \<lambda>_. 0, hdrs_of = \<lambda>_. page_init 0\<rparr>"

theorem take_blocks_correct_witness:
  "\<exists>m' lh' ch v' new. take_blocks 0 65536 blank_mem list_head_new = Some ((m', lh'), ch, length new, v')
     \<and> new \<noteq> [] \<and> chain (cells_of m') ch new"
proof -
  have "class_inv 0 blank_mem list_head_new [] [] {} (\<lambda>_. []) {}" by (rule class_inv_new) (simp add: const_simps)
  moreover have "PAGE_SIZE dvd (65536 :: nat)" by (simp add: const_simps)
  moreover have "(65536 :: nat) \<notin> set ([] @ [] @ cold_pages list_head_new) \<union> {}"
    by (simp add: cold_pages_def list_head_new_def)
  ultimately show ?thesis using take_blocks_correct [of 0 blank_mem list_head_new "[]" "[]" "{}" "\<lambda>_. []" "{}" 65536]
    by force
qed

section \<open>Giving blocks back\<close>

definition purge_ok :: "purge \<Rightarrow> bool" where
  "purge_ok purge \<longleftrightarrow> (\<forall>m p n a. a < p \<or> p + n \<le> a \<longrightarrow>
     cells_of (fst (purge m p n)) a = cells_of m a \<and> hdr_at (fst (purge m p n)) a = hdr_at m a)"

lemma class_inv_mem:
  assumes inv: "class_inv c m lh pl el full fl dirty"
    and same: "\<And>q. q \<in> set pl \<union> set el \<union> full \<Longrightarrow> hdr_at m' q = hdr_at m q \<and> fl' q = fl q"
    and cells: "\<And>q a. q \<in> set pl \<union> set el \<union> full \<Longrightarrow> a \<in> page_avail m fl q \<Longrightarrow> cells_of m' a = cells_of m a"
  shows "class_inv c m' lh pl el full fl' dirty"
    "class_live m' fl' (set pl \<union> set el \<union> full) = class_live m fl (set pl \<union> set el \<union> full)"
proof -
  have "page_inv c m' fl' dirty q" if "q \<in> set pl \<union> set el \<union> full" for q
    by (rule page_inv_frame [of c m fl]) (use inv same cells that in \<open>auto simp: class_inv_def\<close>)
  moreover have "elist (hdrs_of m') (lh_empty lh) el"
    using inv same by (subst elist_cong [of el _ "hdrs_of m"]) (auto simp: class_inv_def)
  moreover have "partial_list (hdrs_of m') (lh_head lh) pl"
  proof -
    have "dseg (hdrs_of m') 0 (lh_head lh) pl 0"
      using inv same by (subst dseg_cong [of pl _ "hdrs_of m"]) (auto simp: class_inv_def partial_list_def)
    then show ?thesis using inv same by (auto simp: class_inv_def partial_list_def)
  qed
  ultimately show "class_inv c m' lh pl el full fl' dirty"
    using inv same unfolding class_inv_def by auto
  show "class_live m' fl' (set pl \<union> set el \<union> full) = class_live m fl (set pl \<union> set el \<union> full)"
    unfolding class_live_def by (rule SUP_cong [OF refl]) (use same in auto)
qed

text \<open>A page leaves the partial list when it empties.\<close>

lemma class_inv_unlink:
  assumes inv: "class_inv c m lh pl el full fl dirty" and p: "p \<in> set pl"
  obtains m' lst' where "mem_unlink m (lh_head lh) p = ((m', lst'), True)"
    "class_inv c m' (lh\<lparr>lh_head := lst'\<rparr>) (remove1 p pl) el full fl dirty"
    "cells_of m' = cells_of m" "page_inv c m' fl dirty p" "used (hdr_at m' p) = used (hdr_at m p)"
    "\<not> has_flag (h_flags (hdr_at m' p)) FLAG_IN_PARTIAL"
    "class_live m' fl (set pl \<union> set el \<union> full) = class_live m fl (set pl \<union> set el \<union> full)"
proof -
  obtain h' lst' where u: "unlink_partial (hdrs_of m, lh_head lh) p = ((h', lst'), True)"
    "partial_list h' lst' (remove1 p pl)" "relinked p (hdrs_of m) h'"
    "\<not> has_flag (h_flags (h' p)) FLAG_IN_PARTIAL" "\<forall>q. q \<notin> set pl \<longrightarrow> h' q = hdr_at m q"
    using unlink_partial_list [of "hdrs_of m" "lh_head lh" pl p] inv p by (auto simp: class_inv_def)
  have rel: "page_inv c (m\<lparr>hdrs_of := h'\<rparr>) fl dirty q" "avail q (h' q) (fl q) = page_avail m fl q"
    "live q (h' q) (fl q) = live q (hdr_at m q) (fl q)" "used (h' q) = used (hdr_at m q)"
    if "q \<in> set pl \<union> set el \<union> full" for q
    using page_inv_relinked [OF u(3), of c m fl dirty q] inv that by (auto simp: class_inv_def)
  have d: "distinct pl" using inv by (auto simp: class_inv_def)
  have same: "h' q = hdr_at m q" if "q \<in> set el \<union> full" for q
    using u(5) inv that by (auto simp: class_inv_def)
  have "elist h' (lh_empty lh) el"
    using inv same by (subst elist_cong [of el _ "hdrs_of m"]) (auto simp: class_inv_def)
  then have "class_inv c (m\<lparr>hdrs_of := h'\<rparr>) (lh\<lparr>lh_head := lst'\<rparr>) (remove1 p pl) el full fl dirty"
    using inv d u(2) rel same
    by (auto simp: class_inv_def cold_pages_def cold_ok_def set_remove1_eq)
  moreover have "class_live (m\<lparr>hdrs_of := h'\<rparr>) fl (set pl \<union> set el \<union> full) = class_live m fl (set pl \<union> set el \<union> full)"
    unfolding class_live_def by (rule SUP_cong [OF refl]) (use rel(3) in simp)
  ultimately show thesis using that [of "m\<lparr>hdrs_of := h'\<rparr>" lst'] u(1,4) rel(1,4) p
    by (auto simp: mem_unlink_def)
qed

definition parked :: "nat \<Rightarrow> addr \<Rightarrow> page_mem \<Rightarrow> (addr \<Rightarrow> addr list) \<Rightarrow> addr set \<Rightarrow> addr set \<Rightarrow>
    page_mem \<times> list_head \<times> page_fate \<Rightarrow> bool" where
  "parked c p m fl lv dirty r \<longleftrightarrow> (\<exists>m' lh' fate pl' el' full' fl' dirty'. r = (m', lh', fate)
     \<and> class_inv c m' lh' pl' el' full' fl' dirty'
     \<and> class_live m' fl' (set pl' \<union> set el' \<union> full') = lv
     \<and> dirty - page_range p \<subseteq> dirty' \<and> dirty' \<subseteq> dirty \<and> (fate \<noteq> ColdPage \<longrightarrow> dirty' = dirty)
     \<and> (fate = UnmapPage \<longrightarrow> p \<notin> set (pl' @ el' @ cold_pages lh') \<union> full')
     \<and> (\<forall>a \<in> lv. cells_of m' a = cells_of m a))"

lemma parkedI:
  assumes "class_inv c m' lh' pl' el' full' fl' dirty'" "class_live m' fl' (set pl' \<union> set el' \<union> full') = lv"
    "dirty - page_range p \<subseteq> dirty'" "dirty' \<subseteq> dirty" "fate \<noteq> ColdPage \<Longrightarrow> dirty' = dirty"
    "fate = UnmapPage \<Longrightarrow> p \<notin> set (pl' @ el' @ cold_pages lh') \<union> full'"
    "\<And>a. a \<in> lv \<Longrightarrow> cells_of m' a = cells_of m a"
  shows "parked c p m fl lv dirty (m', lh', fate)"
  using assms unfolding parked_def by blast

lemma page_avail_range:
  assumes "page_inv c m fl dirty q"
  shows "page_avail m fl q \<subseteq> page_range q" "live q (hdr_at m q) (fl q) \<subseteq> page_range q"
proof -
  have ok: "page_ok (cells_of m) q (hdr_at m q) (fl q)" using assms by (simp add: page_inv_def)
  show "page_avail m fl q \<subseteq> page_range q" "live q (hdr_at m q) (fl q) \<subseteq> page_range q"
    using slots_in_range [OF ok] slots_split(3) [OF ok] by (auto simp: live_def)
qed

text \<open>An unused page that is on no list is kept empty, turned cold, or leaves the class.\<close>

lemma park_unlinked:
  assumes inv: "class_inv c m lh pl el full fl dirty"
    and p: "p \<notin> set (pl @ el @ cold_pages lh) \<union> full" "page_inv c m fl dirty p" "used (hdr_at m p) = 0"
    and fl: "\<not> has_flag (h_flags (hdr_at m p)) FLAG_IN_PARTIAL" and pok: "purge_ok purge"
  shows "parked c p m fl (class_live m fl (set pl \<union> set el \<union> full)) dirty (park_empty_page purge m lh p)"
proof -
  have u: "mem_unlink m (lh_head lh) p = ((m, lh_head lh), False)"
    using fl by (simp add: mem_unlink_def unlink_unlinked)
  have okp: "page_ok (cells_of m) p (hdr_at m p) (fl p)" "PAGE_SIZE dvd p" "0 < p"
    using p(2) by (auto simp: page_inv_def page_ok_def)
  have lh: "lh\<lparr>lh_head := lh_head lh\<rparr> = lh" by simp
  consider (empty) "lh_empty_count lh < EMPTY_PAGE_CACHE_PER_CLASS"
    | (cold) "\<not> lh_empty_count lh < EMPTY_PAGE_CACHE_PER_CLASS" "lh_cold_len lh < MAX_COLD_PAGE_SLOTS"
        "lh_cold_bytes lh + PAGE_SIZE \<le> MAX_COLD_PAGE_BYTES_PER_CLASS"
    | (gone) "\<not> lh_empty_count lh < EMPTY_PAGE_CACHE_PER_CLASS"
        "\<not> (lh_cold_len lh < MAX_COLD_PAGE_SLOTS
          \<and> lh_cold_bytes lh + PAGE_SIZE \<le> MAX_COLD_PAGE_BYTES_PER_CLASS)" by blast
  then show ?thesis
  proof cases
    case empty
    define m' where "m' = set_hdr m p ((hdr_at m p)\<lparr>h_next := lh_empty lh\<rparr>)"
    define lh' where "lh' = lh\<lparr>lh_empty := p, lh_empty_count := add_w 32 (lh_empty_count lh) 1\<rparr>"
    have res: "park_empty_page purge m lh p = (m', lh', KeepPage)"
      using empty by (simp add: park_empty_page_def Let_def u m'_def lh'_def)
    have inv': "class_inv c m' lh pl el full fl dirty"
      "class_live m' fl (set pl \<union> set el \<union> full) = class_live m fl (set pl \<union> set el \<union> full)"
      using class_inv_outside [OF inv, of p "(hdr_at m p)\<lparr>h_next := lh_empty lh\<rparr>" "fl p"] p(1)
      by (simp_all add: m'_def)
    have pinv: "page_inv c m' fl dirty p"
      using p(2) page_ok_cong(1) [OF okp(1), of "(hdr_at m p)\<lparr>h_next := lh_empty lh\<rparr>"]
      by (auto simp: page_inv_def m'_def slots_def capacity_def)
    have "elist (hdrs_of m') p (p # el)" using inv' okp(3) by (simp add: class_inv_def m'_def)
    moreover have "used (hdr_at m' p) = 0" "\<not> has_flag (h_flags (hdr_at m' p)) FLAG_IN_PARTIAL"
      using p(3) fl by (simp_all add: m'_def)
    moreover have "lh_empty_count lh' = length (p # el)" "length (p # el) \<le> EMPTY_PAGE_CACHE_PER_CLASS"
      using inv empty by (auto simp: class_inv_def lh'_def const_simps)
    ultimately have "class_inv c m' lh' pl (p # el) full fl dirty"
      using inv' pinv p(1) by (auto simp: class_inv_def lh'_def cold_pages_def cold_ok_def)
    moreover have "class_live m' fl (set pl \<union> set (p # el) \<union> full) = class_live m fl (set pl \<union> set el \<union> full)"
      using inv'(2) live_unused [of "cells_of m'" p "hdr_at m' p" "fl p"] pinv p(3)
      by (simp add: class_live_insert page_inv_def m'_def)
    ultimately show ?thesis unfolding res by (rule parkedI) (auto simp: m'_def)
  next
    case cold
    obtain m' zeroed phys where pr: "purge m p PAGE_SIZE = (m', zeroed, phys)" by (metis prod.exhaust)
    define idx where "idx = lh_cold_len lh"
    define lh' where "lh' = lh\<lparr>lh_cold := (lh_cold lh)[idx := p], lh_cold_len := idx + 1,
        lh_cold_bytes := lh_cold_bytes lh + PAGE_SIZE, lh_cold_zeroed := (lh_cold_zeroed lh)[idx := zeroed],
        lh_cold_decommitted := (lh_cold_decommitted lh)[idx := phys]\<rparr>"
    define d where "d = (if zeroed then dirty - page_range p else dirty)"
    have res: "park_empty_page purge m lh p = (m', lh', ColdPage)"
      using cold by (simp add: park_empty_page_def Let_def u lh'_def idx_def pr)
    have out: "cells_of m' a = cells_of m a" "hdr_at m' a = hdr_at m a" if "a \<notin> page_range p" for a
    proof -
      have "a < p \<or> p + PAGE_SIZE \<le> a"
        using that page_of_base [OF okp(2), of a] unfolding page_range_def by (metis mem_Collect_eq not_le)
      then show "cells_of m' a = cells_of m a" "hdr_at m' a = hdr_at m a"
        using pok pr unfolding purge_ok_def by (metis fst_conv)+
    qed
    have far: "q \<notin> page_range p \<and> page_avail m fl q \<inter> page_range p = {} \<and> live q (hdr_at m q) (fl q) \<inter> page_range p = {}"
      if "q \<in> set pl \<union> set el \<union> full" for q
    proof -
      have q: "page_inv c m fl dirty q" "q \<noteq> p" using inv p(1) that by (auto simp: class_inv_def)
      then have "page_of q = q" by (intro page_of_base) (auto simp: page_inv_def page_ok_def)
      then show ?thesis using q(2) page_avail_range [OF q(1)] by (auto simp: page_range_def)
    qed
    have inv': "class_inv c m' lh pl el full fl dirty"
      "class_live m' fl (set pl \<union> set el \<union> full) = class_live m fl (set pl \<union> set el \<union> full)"
      using class_inv_mem [OF inv, of m' fl] out far by blast+
    have inv'': "class_inv c m' lh pl el full fl d"
      by (rule class_inv_less_dirty [OF inv'(1)]) (auto simp: d_def)
    have len: "idx < length (lh_cold lh)" using inv cold by (simp add: class_inv_def cold_ok_def idx_def)
    have cp: "cold_pages lh' = cold_pages lh @ [p]"
      using len by (simp add: cold_pages_def lh'_def idx_def take_Suc_conv_app_nth)
    have "cold_ok lh d" using inv'' by (simp add: class_inv_def)
    then have "cold_ok lh' d"
      using cold okp by (auto simp: cold_ok_def lh'_def idx_def nth_list_update d_def less_Suc_eq)
    then have "class_inv c m' lh' pl el full fl d"
      using inv'' p(1) cp by (auto simp: class_inv_def lh'_def)
    moreover have "cells_of m' a = cells_of m a" if "a \<in> class_live m fl (set pl \<union> set el \<union> full)" for a
      by (rule out(1)) (use far that in \<open>unfold class_live_def, blast\<close>)
    ultimately show ?thesis unfolding res by (intro parkedI [OF _ inv'(2)]) (auto simp: d_def split: if_splits)
  next
    case gone
    then have "park_empty_page purge m lh p = (m, lh, UnmapPage)"
      unfolding park_empty_page_def Let_def u by auto
    then show ?thesis using p(1) by (auto intro!: parkedI [OF inv])
  qed
qed

text \<open>Parking a page that is on the partial list, or on none.\<close>

lemma park_correct:
  assumes inv: "class_inv c m lh pl el full fl dirty"
    and p: "p \<notin> set (el @ cold_pages lh) \<union> full" "page_inv c m fl dirty p" "used (hdr_at m p) = 0"
      "p \<notin> set pl \<Longrightarrow> \<not> has_flag (h_flags (hdr_at m p)) FLAG_IN_PARTIAL"
    and pok: "purge_ok purge"
  shows "parked c p m fl (class_live m fl (set pl \<union> set el \<union> full)) dirty (park_empty_page purge m lh p)"
proof (cases "p \<in> set pl")
  case False
  then show ?thesis using park_unlinked [OF inv _ p(2,3) _ pok] p(1,4) by simp
next
  case True
  obtain m' lst' where u: "mem_unlink m (lh_head lh) p = ((m', lst'), True)"
    "class_inv c m' (lh\<lparr>lh_head := lst'\<rparr>) (remove1 p pl) el full fl dirty"
    "cells_of m' = cells_of m" "page_inv c m' fl dirty p" "used (hdr_at m' p) = used (hdr_at m p)"
    "\<not> has_flag (h_flags (hdr_at m' p)) FLAG_IN_PARTIAL"
    "class_live m' fl (set pl \<union> set el \<union> full) = class_live m fl (set pl \<union> set el \<union> full)"
    using class_inv_unlink [OF inv True] by metis
  have d: "distinct pl" using inv by (simp add: class_inv_def)
  have skip: "mem_unlink m' lst' p = ((m', lst'), False)"
    using u(6) by (simp add: mem_unlink_def unlink_unlinked)
  have run: "park_empty_page purge m lh p = park_empty_page purge m' (lh\<lparr>lh_head := lst'\<rparr>) p"
    using u(1) skip by (simp add: park_empty_page_def)
  have "live p (hdr_at m' p) (fl p) = {}"
    using live_unused [of "cells_of m'" p] u(4,5) p(3) by (simp add: page_inv_def)
  then have lv: "class_live m' fl (set (remove1 p pl) \<union> set el \<union> full) = class_live m fl (set pl \<union> set el \<union> full)"
  proof -
    have "set pl \<union> set el \<union> full = insert p (set (remove1 p pl) \<union> set el \<union> full)"
      using True d by (auto simp: set_remove1_eq)
    then show ?thesis using u(7) \<open>live p (hdr_at m' p) (fl p) = {}\<close> by (metis class_live_insert Un_empty_left)
  qed
  have "parked c p m' fl (class_live m' fl (set (remove1 p pl) \<union> set el \<union> full)) dirty
      (park_empty_page purge m' (lh\<lparr>lh_head := lst'\<rparr>) p)"
    by (rule park_unlinked [OF u(2) _ u(4) _ u(6) pok]) (use p d u(5) in \<open>auto simp: cold_pages_def\<close>)
  then show ?thesis using u(3) unfolding run lv parked_def by simp
qed

text \<open>
  The header update of a release: the blocks \<open>bs\<close>, linked from \<open>head\<close> to \<open>tail\<close>, go in front of the
  page's free list.
\<close>

definition release_header :: "page_header \<Rightarrow> addr \<Rightarrow> nat \<Rightarrow> page_header" where
  "release_header h head n = h\<lparr>h_flags := clear_flag (h_flags h) FLAG_VIRGIN, free_head := head,
     free_count := add_w 16 (free_count h) n, used := sub_w 16 (used h) n\<rparr>"

definition linked_run :: "cells \<Rightarrow> addr \<Rightarrow> addr \<Rightarrow> addr list \<Rightarrow> bool" where
  "linked_run m head tail bs \<longleftrightarrow> bs \<noteq> [] \<and> last bs = tail \<and> distinct bs \<and> chain (m(tail := null)) head bs"

lemma page_release:
  assumes ok: "page_ok m p h fl" and run: "linked_run m head tail bs" and lv: "set bs \<subseteq> live p h fl"
  defines "h' \<equiv> release_header h head (length bs)"
  shows "page_ok (m(tail := free_head h)) p h' (bs @ fl)" "avail p h' (bs @ fl) = avail p h fl \<union> set bs"
    "used h' = used h - length bs" "length bs \<le> used h" "slots p h' = slots p h"
    "live p h' (bs @ fl) = live p h fl - set bs"
proof -
  obtain xs where xs: "bs = xs @ [tail]" using run by (metis linked_run_def append_butlast_last_id)
  have dj: "set bs \<inter> avail p h fl = {}" "set bs \<subseteq> slots p h" using lv by (auto simp: live_def)
  have d: "distinct bs" using run by (simp add: linked_run_def)
  have "finite (live p h fl)" by (simp add: live_def slots_def)
  then have "card (set bs) \<le> used h" using card_mono [OF _ lv] live_card [OF ok] by simp
  then show n: "length bs \<le> used h" using distinct_card [OF d] by simp
  have small: "used h + free_count h \<le> 4093" by (rule page_ok_counts [OF ok])
  have cnt: "used h' = used h - length bs" "free_count h' = free_count h + length bs"
    "h_class h' = h_class h" "free_head h' = head"
    using n small by (simp_all add: h'_def release_header_def)
  then show "used h' = used h - length bs" by simp
  have sum: "used h' + free_count h' = used h + free_count h" using cnt n by simp
  have cap: "capacity h' = capacity h" by (rule capacity_cong) (rule cnt(3))
  show sl: "slots p h' = slots p h" by (simp add: slots_def cap cnt)
  have un: "unborn p h' = unborn p h" unfolding unborn_def sum cap cnt(3) ..
  show av: "avail p h' (bs @ fl) = avail p h fl \<union> set bs" by (auto simp: avail_def un)
  show "live p h' (bs @ fl) = live p h fl - set bs" by (auto simp: live_def av sl)
  have "chain (m(tail := null)) (free_head h) fl"
    using ok dj(1) xs by (simp add: page_ok_def avail_def)
  then have "chain ((m(tail := null))(tail := free_head h)) head ((xs @ [tail]) @ fl)"
    using run xs dj(1) by (intro chain_splice) (auto simp: linked_run_def avail_def)
  then have ch: "chain (m(tail := free_head h)) head (bs @ fl)" by (simp add: xs)
  have born: "set bs \<subseteq> set (blocks_at (p + HEADER_SIZE) (CLASSES ! h_class h) (used h + free_count h))"
    using dj slots_split(1) [OF ok] by (auto simp: avail_def)
  show "page_ok (m(tail := free_head h)) p h' (bs @ fl)"
    using ok ch born d dj(1) cnt(2-4) unfolding page_ok_def sum cap by (auto simp: avail_def)
qed

text \<open>What giving \<open>bs\<close> back to page \<open>p\<close> does to the class.\<close>

definition given_back :: "nat \<Rightarrow> addr \<Rightarrow> addr set \<Rightarrow> addr set \<Rightarrow> (addr \<Rightarrow> addr list) \<Rightarrow> page_mem \<Rightarrow> addr set \<Rightarrow>
    page_mem \<times> list_head \<times> page_fate \<Rightarrow> bool" where
  "given_back c p bs owned fl m dirty r \<longleftrightarrow> (\<exists>m' lh' fate pl' el' full' fl' dirty'. r = (m', lh', fate)
     \<and> class_inv c m' lh' pl' el' full' fl' dirty'
     \<and> class_live m' fl' (set pl' \<union> set el' \<union> full') = class_live m fl owned - bs
     \<and> dirty \<union> bs - page_range p \<subseteq> dirty' \<and> dirty' \<subseteq> dirty \<union> bs \<and> (fate \<noteq> ColdPage \<longrightarrow> dirty' = dirty \<union> bs)
     \<and> (fate = UnmapPage \<longrightarrow> p \<notin> set (pl' @ el' @ cold_pages lh') \<union> full')
     \<and> (\<forall>a \<in> class_live m fl owned - bs. cells_of m' a = cells_of m a))"

text \<open>The class without \<open>p\<close>'s page data: everything else is as before the header update.\<close>

lemma class_inv_release:
  assumes inv: "class_inv c m lh pl el full fl dirty" and p: "p \<in> set pl \<union> full"
    and body: "page_ok cells' p h' fl'" "h_class h' = c" "\<not> has_flag (h_flags h') FLAG_VIRGIN"
      "h_prev h' = h_prev (hdr_at m p)" "h_next h' = h_next (hdr_at m p)"
      "has_flag (h_flags h') FLAG_IN_PARTIAL = has_flag (h_flags (hdr_at m p)) FLAG_IN_PARTIAL"
      "avail p h' fl' \<noteq> {}" "live p h' fl' = live p (hdr_at m p) (fl p) - bs"
    and cells: "\<And>a. a \<notin> page_range p \<Longrightarrow> cells' a = cells_of m a"
    and bs: "bs \<subseteq> page_range p"
  defines "m' \<equiv> set_hdr (m\<lparr>cells_of := cells'\<rparr>) p h'" and "d \<equiv> dirty \<union> bs"
    and "owned \<equiv> set pl \<union> set el \<union> full"
  shows "class_inv c m' lh pl el (full - {p}) (fl(p := fl')) d" "page_inv c m' (fl(p := fl')) d p"
    "class_live m' (fl(p := fl')) owned = class_live m fl owned - bs"
proof -
  let ?fl = "fl(p := fl')"
  have pp: "p \<notin> set el" "p \<notin> set (cold_pages lh)" "p \<in> owned" and p_pl: "p \<in> full \<Longrightarrow> p \<notin> set pl"
    using inv p by (auto simp: class_inv_def owned_def)
  have rng: "page_range p \<inter> page_range q = {}" if "q \<noteq> p" for q
    using that by (auto simp: page_range_def)
  have pinv: "page_inv c m fl dirty q" if "q \<in> owned" for q using inv that by (auto simp: class_inv_def owned_def)
  have other: "page_inv c m' ?fl d q \<and> page_avail m' ?fl q = page_avail m fl q" if q: "q \<in> owned" "q \<noteq> p" for q
  proof -
    have "page_inv c m' ?fl dirty q"
    proof (rule page_inv_frame [OF pinv [OF q(1)]])
      fix a assume "a \<in> page_avail m fl q"
      then have "a \<notin> page_range p" using page_avail_range(1) [OF pinv [OF q(1)]] rng [OF q(2)] by blast
      then show "cells_of m' a = cells_of m a" using cells by (simp add: m'_def)
    qed (use q in \<open>simp_all add: m'_def\<close>)
    moreover have "slots q (hdr_at m' q) \<inter> bs = {}"
      using slots_in_range [of "cells_of m'" q "hdr_at m' q" "?fl q"] calculation rng [OF q(2)] bs
      by (auto simp: page_inv_def)
    ultimately show ?thesis using q(2) by (auto simp: page_inv_def d_def m'_def)
  qed
  show P: "page_inv c m' ?fl d p"
    using body(1,2,3) by (simp add: page_inv_def m'_def)
  have cold: "cold_ok lh d"
  proof -
    have "lh_cold lh ! i \<noteq> p" if "i < lh_cold_len lh" for i
      using pp(2) inv that by (auto simp: cold_pages_def class_inv_def cold_ok_def in_set_conv_nth)
    then show ?thesis using inv bs rng unfolding class_inv_def cold_ok_def d_def by blast
  qed
  have pl: "partial_list (hdrs_of m') (lh_head lh) pl"
    using inv p_pl p body(4-6)
    by (auto simp: class_inv_def m'_def intro!: partial_list_upd)
  have el: "elist (hdrs_of m') (lh_empty lh) el"
    using inv pp(1) by (subst elist_cong [of el _ "hdrs_of m"]) (auto simp: class_inv_def m'_def)
  have pav: "page_avail m' ?fl p \<noteq> {}" using body(7) by (simp add: m'_def)
  have hdr: "hdr_at m' q = hdr_at m q" if "q \<noteq> p" for q using that by (simp add: m'_def)
  have full: "page_avail m' ?fl q = {} \<and> \<not> has_flag (h_flags (hdr_at m' q)) FLAG_IN_PARTIAL" if "q \<in> full - {p}" for q
    using other [of q] that inv hdr [of q] by (auto simp: owned_def class_inv_def)
  have part: "page_avail m' ?fl q \<noteq> {}" if "q \<in> set pl" for q
    using other [of q] that inv pav by (cases "q = p") (auto simp: owned_def class_inv_def)
  have empt: "used (hdr_at m' q) = 0 \<and> \<not> has_flag (h_flags (hdr_at m' q)) FLAG_IN_PARTIAL" if "q \<in> set el" for q
  proof -
    have "q \<noteq> p" using that pp(1) by blast
    then show ?thesis using inv hdr [of q] that by (simp add: class_inv_def)
  qed
  have all: "page_inv c m' ?fl d q" if "q \<in> set pl \<union> set el \<union> (full - {p})" for q
    using other [of q] P that by (cases "q = p") (auto simp: owned_def)
  show "class_inv c m' lh pl el (full - {p}) ?fl d"
    unfolding class_inv_def using inv pl el cold full part empt all by (auto simp: class_inv_def)
  have "live q (hdr_at m' q) (?fl q) = live q (hdr_at m q) (fl q) - bs" if "q \<in> owned" for q
  proof (cases "q = p")
    case True
    then show ?thesis using body(8) by (simp add: m'_def)
  next
    case False
    then have "live q (hdr_at m q) (fl q) \<inter> bs = {}"
      using page_avail_range(2) [OF pinv [OF that]] rng bs by blast
    then show ?thesis using False hdr by (auto simp: Diff_triv)
  qed
  then show "class_live m' ?fl owned = class_live m fl owned - bs"
    unfolding class_live_def by auto
qed

lemma given_back_parked:
  assumes "parked c p m1 fl1 lv d r" "lv = class_live m fl owned - bs" "d = dirty \<union> bs"
    "\<And>a. a \<in> lv \<Longrightarrow> cells_of m1 a = cells_of m a"
  shows "given_back c p bs owned fl m dirty r"
  using assms unfolding parked_def given_back_def by simp

lemma given_back_kept:
  assumes "class_inv c m' lh' pl' el' full' fl' (dirty \<union> bs)"
    "class_live m' fl' (set pl' \<union> set el' \<union> full') = class_live m fl owned - bs"
    "\<forall>a \<in> class_live m fl owned - bs. cells_of m' a = cells_of m a"
  shows "given_back c p bs owned fl m dirty (m', lh', KeepPage)"
  using assms unfolding given_back_def by blast

text \<open>
  \<open>release_inner\<close> for a run of live blocks of page \<open>p\<close>: the three continuations are parking (no block
  is out any more), relinking a page that was full, and nothing.
\<close>

lemma release_inner_correct:
  assumes inv: "class_inv c m lh pl el full fl dirty" and pok: "purge_ok purge"
    and p: "p \<in> set pl \<union> full" and run: "linked_run (cells_of m) head tail bs"
    and lv: "set bs \<subseteq> live p (hdr_at m p) (fl p)"
  shows "given_back c p (set bs) (set pl \<union> set el \<union> full) fl m dirty
    (release_inner purge m lh p head tail (length bs))"
proof -
  let ?n = "length bs" and ?h = "hdr_at m p"
  define h1 where "h1 = release_header ?h head ?n"
  define cells1 where "cells1 = (cells_of m)(tail := free_head ?h)"
  define m1 where "m1 = set_hdr (m\<lparr>cells_of := cells1\<rparr>) p h1"
  define fl1 where "fl1 = fl(p := bs @ fl p)"
  have pinv: "page_inv c m fl dirty p" using inv p by (auto simp: class_inv_def)
  have ok: "page_ok (cells_of m) p ?h (fl p)" "h_class ?h = c" using pinv by (simp_all add: page_inv_def)
  note rel = page_release [OF ok(1) run lv, folded h1_def cells1_def]
  have rng: "set bs \<subseteq> page_range p" using lv page_avail_range(2) [OF pinv] by blast
  have ne: "bs \<noteq> []" "tail \<in> set bs" using run by (auto simp: linked_run_def)
  have cells: "cells1 a = cells_of m a" if "a \<notin> page_range p" for a using that ne(2) rng by (auto simp: cells1_def)
  have flags: "has_flag (h_flags h1) FLAG_IN_PARTIAL = has_flag (h_flags ?h) FLAG_IN_PARTIAL"
    "\<not> has_flag (h_flags h1) FLAG_VIRGIN" "h_class h1 = c" "h_prev h1 = h_prev ?h" "h_next h1 = h_next ?h"
    using ok(2) by (simp_all add: h1_def release_header_def)
  have av: "avail p h1 (bs @ fl p) \<noteq> {}" using rel(2) ne by auto
  note R = class_inv_release [OF inv p rel(1) flags(3,2,4,5,1) av rel(6) cells rng, folded m1_def fl1_def]
  have pne: "p \<notin> set (el @ cold_pages lh)" using inv p by (auto simp: class_inv_def)
  have cells1: "cells_of m1 a = cells_of m a" if "a \<in> class_live m fl (set pl \<union> set el \<union> full) - set bs" for a
    using that ne(2) by (auto simp: m1_def cells1_def)
  have hdr1: "hdr_at m1 p = h1" by (simp add: m1_def)
  have unl: "p \<notin> set pl \<Longrightarrow> \<not> has_flag (h_flags h1) FLAG_IN_PARTIAL"
    using p inv flags(1) by (auto simp: class_inv_def)
  have owned: "p \<in> set pl \<union> set el \<union> (full - {p}) \<or> set pl \<union> set el \<union> full = insert p (set pl \<union> set el \<union> (full - {p}))"
    using p by auto
  consider (park) "used h1 = 0" | (link) "used h1 \<noteq> 0" "p \<notin> set pl" | (stay) "used h1 \<noteq> 0" "p \<in> set pl" by blast
  then show ?thesis
  proof cases
    case park
    have e: "class_live m1 fl1 (set pl \<union> set el \<union> (full - {p})) = class_live m fl (set pl \<union> set el \<union> full) - set bs"
    proof -
      have "live p (hdr_at m1 p) (fl1 p) = {}"
        using live_unused [OF rel(1) park] by (simp add: hdr1 fl1_def)
      then have "class_live m1 fl1 (insert p (set pl \<union> set el \<union> (full - {p}))) = class_live m1 fl1 (set pl \<union> set el \<union> (full - {p}))"
        by (simp add: class_live_insert)
      moreover have "insert p (set pl \<union> set el \<union> (full - {p})) = set pl \<union> set el \<union> full" using p by auto
      ultimately show ?thesis using R(3) by simp
    qed
    have "parked c p m1 fl1 (class_live m1 fl1 (set pl \<union> set el \<union> (full - {p}))) (dirty \<union> set bs) (park_empty_page purge m1 lh p)"
      by (rule park_correct [OF R(1) _ R(2) _ _ pok]) (use pne park unl hdr1 in auto)
    moreover have "release_inner purge m lh p head tail ?n = park_empty_page purge m1 lh p"
      using park by (simp add: release_inner_def Let_def h1_def release_header_def m1_def cells1_def)
    ultimately show ?thesis using given_back_parked [OF _ e refl] cells1 e by metis
  next
    case link
    have out: "p \<notin> set (pl @ el @ cold_pages lh)" "p \<notin> full - {p}" "p \<noteq> 0"
      using link pne rel(1) by (auto simp: page_ok_def)
    have "page_avail m1 fl1 p \<noteq> {}" using av by (simp add: hdr1 fl1_def)
    then obtain m2 lst2 where l: "mem_link m1 (lh_head lh) p = (m2, lst2)"
      "class_inv c m2 (lh\<lparr>lh_head := lst2\<rparr>) (p # pl) el (full - {p}) fl1 (dirty \<union> set bs)"
      "cells_of m2 = cells_of m1"
      "class_live m2 fl1 (set (p # pl) \<union> set el \<union> (full - {p})) = class_live m1 fl1 (set (p # pl) \<union> set el \<union> (full - {p}))"
      using class_inv_link [OF R(1) out R(2)] by metis
    have "set (p # pl) \<union> set el \<union> (full - {p}) = set pl \<union> set el \<union> full" using p by auto
    then have "class_live m2 fl1 (set (p # pl) \<union> set el \<union> (full - {p})) = class_live m fl (set pl \<union> set el \<union> full) - set bs"
      using l(4) R(3) by simp
    moreover have "release_inner purge m lh p head tail ?n = (m2, lh\<lparr>lh_head := lst2\<rparr>, KeepPage)"
      using link unl l(1) by (simp add: release_inner_def Let_def h1_def release_header_def m1_def cells1_def)
    moreover have "\<forall>a \<in> class_live m fl (set pl \<union> set el \<union> full) - set bs. cells_of m2 a = cells_of m a"
      using l(3) cells1 by simp
    ultimately show ?thesis using given_back_kept [OF l(2)] by simp
  next
    case stay
    have "full - {p} = full" using stay(2) inv by (auto simp: class_inv_def)
    moreover have "has_flag (h_flags h1) FLAG_IN_PARTIAL"
      using stay(2) inv flags(1) by (auto simp: class_inv_def partial_list_def)
    then have "release_inner purge m lh p head tail ?n = (m1, lh, KeepPage)"
      using stay by (simp add: release_inner_def Let_def h1_def release_header_def m1_def cells1_def)
    ultimately show ?thesis using given_back_kept [OF R(1)] R(3) cells1 by simp
  qed
qed

text \<open>
  \<open>retire_page_inner\<close>: when all live blocks of the page come back at once, the page is not relinked
  block by block; its list is dropped and it is marked for reinitialisation.
\<close>

lemma retire_page_correct:
  assumes inv: "class_inv c m lh pl el full fl dirty" and pok: "purge_ok purge"
    and p: "p \<in> set pl \<union> full"
  shows "given_back c p (live p (hdr_at m p) (fl p)) (set pl \<union> set el \<union> full) fl m dirty (retire_page_inner purge m lh p)"
proof -
  let ?h = "hdr_at m p" and ?bs = "live p (hdr_at m p) (fl p)"
  define h1 where "h1 = ?h\<lparr>h_flags := set_flag (clear_flag (h_flags ?h) FLAG_VIRGIN) FLAG_NEEDS_REINIT,
                 free_head := null, free_count := 0, used := 0\<rparr>"
  define m1 where "m1 = set_hdr (m\<lparr>cells_of := cells_of m\<rparr>) p h1"
  define fl1 where "fl1 = fl(p := [])"
  have pinv: "page_inv c m fl dirty p" using inv p by (auto simp: class_inv_def)
  have ok: "page_ok (cells_of m) p ?h (fl p)" "h_class ?h = c" using pinv by (simp_all add: page_inv_def)
  have ok1: "page_ok (cells_of m) p h1 []" "used h1 = 0" using ok(1) by (auto simp: page_ok_def h1_def)
  have f: "h_class h1 = c" "\<not> has_flag (h_flags h1) FLAG_VIRGIN" "h_prev h1 = h_prev ?h" "h_next h1 = h_next ?h"
    "has_flag (h_flags h1) FLAG_IN_PARTIAL = has_flag (h_flags ?h) FLAG_IN_PARTIAL"
    using ok(2) by (simp_all add: h1_def)
  have lv: "live p h1 [] = ?bs - ?bs" using live_unused [OF ok1] by simp
  note R = class_inv_release [OF inv p ok1(1) f avail_unused [OF ok1] lv _ page_avail_range(2) [OF pinv],
      folded m1_def fl1_def, OF refl]
  have pne: "p \<notin> set (el @ cold_pages lh)" using inv p by (auto simp: class_inv_def)
  have unl: "p \<notin> set pl \<Longrightarrow> \<not> has_flag (h_flags h1) FLAG_IN_PARTIAL"
    using p inv f(5) by (auto simp: class_inv_def)
  have e: "class_live m1 fl1 (set pl \<union> set el \<union> (full - {p})) = class_live m fl (set pl \<union> set el \<union> full) - ?bs"
  proof -
    have "live p (hdr_at m1 p) (fl1 p) = {}" using live_unused [OF ok1] by (simp add: m1_def fl1_def)
    then have "class_live m1 fl1 (insert p (set pl \<union> set el \<union> (full - {p}))) = class_live m1 fl1 (set pl \<union> set el \<union> (full - {p}))"
      by (simp add: class_live_insert)
    moreover have "insert p (set pl \<union> set el \<union> (full - {p})) = set pl \<union> set el \<union> full" using p by auto
    ultimately show ?thesis using R(3) by simp
  qed
  have "parked c p m1 fl1 (class_live m1 fl1 (set pl \<union> set el \<union> (full - {p}))) (dirty \<union> ?bs) (park_empty_page purge m1 lh p)"
    by (rule park_correct [OF R(1) _ R(2) _ _ pok]) (use pne ok1 unl in \<open>auto simp: m1_def\<close>)
  moreover have "retire_page_inner purge m lh p = park_empty_page purge m1 lh p"
    by (simp add: retire_page_inner_def Let_def h1_def m1_def)
  ultimately show ?thesis using given_back_parked [OF _ e refl] e by (simp add: m1_def)
qed

text \<open>
  A chunk as the callers build it: a run of live blocks, all of one page.  The page is found in the
  class from the blocks alone.
\<close>

definition chunk_ok :: "page_mem \<Rightarrow> addr set \<Rightarrow> page_release_chunk \<Rightarrow> addr list \<Rightarrow> bool" where
  "chunk_ok m lv c bs \<longleftrightarrow> linked_run (cells_of m) (rc_head c) (rc_tail c) bs \<and> set bs \<subseteq> lv
     \<and> (\<forall>b \<in> set bs. page_of b = rc_page c) \<and> rc_n c = length bs"

lemma class_live_page:
  assumes inv: "class_inv c m lh pl el full fl dirty"
    and b: "b \<in> class_live m fl (set pl \<union> set el \<union> full)"
  shows "page_of b \<in> set pl \<union> full" "b \<in> live (page_of b) (hdr_at m (page_of b)) (fl (page_of b))"
proof -
  obtain q where q: "q \<in> set pl \<union> set el \<union> full" "b \<in> live q (hdr_at m q) (fl q)"
    using b by (auto simp: class_live_def)
  have ok: "page_inv c m fl dirty q" using inv q(1) by (auto simp: class_inv_def)
  have pq: "page_of b = q" using page_avail_range(2) [OF ok] q(2) by (auto simp: page_range_def)
  have "q \<notin> set el"
  proof
    assume "q \<in> set el"
    then have "used (hdr_at m q) = 0" using inv by (simp add: class_inv_def)
    moreover have "page_ok (cells_of m) q (hdr_at m q) (fl q)" using ok by (simp add: page_inv_def)
    ultimately show False using live_unused q(2) by blast
  qed
  then show "page_of b \<in> set pl \<union> full" "b \<in> live (page_of b) (hdr_at m (page_of b)) (fl (page_of b))"
    using q pq by auto
qed

lemma release_chunk_correct:
  assumes inv: "class_inv c m lh pl el full fl dirty" and pok: "purge_ok purge"
    and ch: "chunk_ok m (class_live m fl (set pl \<union> set el \<union> full)) k bs"
  shows "given_back c (rc_page k) (set bs) (set pl \<union> set el \<union> full) fl m dirty (release_chunk purge (m, lh) k)"
proof -
  let ?p = "rc_page k"
  have run: "linked_run (cells_of m) (rc_head k) (rc_tail k) bs" and n: "rc_n k = length bs"
    using ch by (simp_all add: chunk_ok_def)
  have b: "set bs \<subseteq> live ?p (hdr_at m ?p) (fl ?p)" "?p \<in> set pl \<union> full"
  proof -
    have *: "page_of b \<in> set pl \<union> full \<and> b \<in> live ?p (hdr_at m ?p) (fl ?p) \<and> page_of b = ?p" if "b \<in> set bs" for b
      using class_live_page [OF inv, of b] ch that by (auto simp: chunk_ok_def)
    then show "set bs \<subseteq> live ?p (hdr_at m ?p) (fl ?p)" by blast
    have "hd bs \<in> set bs" using run by (simp add: linked_run_def)
    then show "?p \<in> set pl \<union> full" using * [of "hd bs"] by metis
  qed
  show ?thesis
  proof (cases "rc_n k = used (hdr_at m ?p)")
    case True
    have ok: "page_ok (cells_of m) ?p (hdr_at m ?p) (fl ?p)"
      using inv b(2) by (auto simp: class_inv_def page_inv_def)
    have "card (set bs) = card (live ?p (hdr_at m ?p) (fl ?p))"
      using True n live_card [OF ok] run distinct_card by (force simp: linked_run_def)
    moreover have "finite (live ?p (hdr_at m ?p) (fl ?p))" by (simp add: live_def slots_def)
    ultimately have "set bs = live ?p (hdr_at m ?p) (fl ?p)" using card_subset_eq b(1) by metis
    then show ?thesis using retire_page_correct [OF inv pok b(2)] True by (simp add: release_chunk_def)
  next
    case False
    then show ?thesis using release_inner_correct [OF inv pok b(2) run b(1)] n by (simp add: release_chunk_def)
  qed
qed

lemma chunk_ok_frame:
  assumes "chunk_ok m lv k bs" "\<And>a. a \<in> set bs \<Longrightarrow> cells_of m' a = cells_of m a" "set bs \<subseteq> lv'"
  shows "chunk_ok m' lv' k bs"
proof -
  have "chain ((cells_of m')(rc_tail k := 0)) (rc_head k) bs = chain ((cells_of m)(rc_tail k := 0)) (rc_head k) bs"
    by (rule chain_cong) (use assms(2) in auto)
  then show ?thesis using assms(1,3) by (simp add: chunk_ok_def linked_run_def)
qed

definition batch_result :: "nat \<Rightarrow> page_mem \<Rightarrow> list_head \<Rightarrow> addr set \<Rightarrow> (addr \<Rightarrow> addr) \<Rightarrow> addr set \<Rightarrow> bool" where
  "batch_result c m' lh' lv old d \<longleftrightarrow> (\<exists>pl' el' full' fl' dirty'. class_inv c m' lh' pl' el' full' fl' dirty'
     \<and> class_live m' fl' (set pl' \<union> set el' \<union> full') = lv \<and> (\<forall>a \<in> lv. cells_of m' a = old a) \<and> dirty' \<subseteq> d)"

lemma batch_result_mono: "batch_result c m' lh' lv old d \<Longrightarrow> d \<subseteq> d' \<Longrightarrow> batch_result c m' lh' lv old d'"
  unfolding batch_result_def by (elim exE conjE, intro exI conjI) (assumption | blast)+

text \<open>
  The interface of a release step: it gives back the blocks \<open>bs\<close> of a chunk it is applicable to, and
  being applicable depends only on the live blocks and on the words of the chunk's own blocks.  A batch
  of steps on disjoint chunks then gives back the blocks of all of them.
\<close>

locale release_step =
  fixes step :: "page_mem \<times> list_head \<Rightarrow> 'k \<Rightarrow> page_mem \<times> list_head \<times> page_fate"
    and page :: "'k \<Rightarrow> addr"
    and applicable :: "page_mem \<Rightarrow> addr set \<Rightarrow> 'k \<Rightarrow> addr list \<Rightarrow> bool"
  assumes step_law: "class_inv c m lh pl el full fl dirty \<Longrightarrow>
      applicable m (class_live m fl (set pl \<union> set el \<union> full)) k bs \<Longrightarrow>
      given_back c (page k) (set bs) (set pl \<union> set el \<union> full) fl m dirty (step (m, lh) k)"
    and step_live: "applicable m lv k bs \<Longrightarrow> set bs \<subseteq> lv"
    and step_frame: "applicable m lv k bs \<Longrightarrow> (\<And>a. a \<in> set bs \<Longrightarrow> cells_of m' a = cells_of m a) \<Longrightarrow>
      set bs \<subseteq> lv' \<Longrightarrow> lv' \<subseteq> lv \<Longrightarrow> applicable m' lv' k bs"
begin

lemma batch_correct:
  assumes "class_inv c m lh pl el full fl dirty"
    "\<And>k bs. (k, bs) \<in> set ks \<Longrightarrow> applicable m (class_live m fl (set pl \<union> set el \<union> full)) k bs"
    "distinct (concat (map snd ks))"
  shows "\<exists>m' lh' fates. batch_with step page (m, lh) (map fst ks) = ((m', lh'), fates)
    \<and> batch_result c m' lh' (class_live m fl (set pl \<union> set el \<union> full) - set (concat (map snd ks))) (cells_of m)
        (dirty \<union> set (concat (map snd ks)))"
  using assms
proof (induction ks arbitrary: m lh pl el full fl dirty)
  case Nil
  then show ?case unfolding batch_result_def by simp blast
next
  case (Cons kb ks)
  obtain k bs where kb: "kb = (k, bs)" by fastforce
  define lv where "lv = class_live m fl (set pl \<union> set el \<union> full)"
  have ck: "applicable m lv k bs" and cks: "\<And>k' bs'. (k', bs') \<in> set ks \<Longrightarrow> applicable m lv k' bs'"
    using Cons.prems(2) by (auto simp: kb lv_def)
  have dst: "distinct (concat (map snd ks))" "set bs \<inter> set (concat (map snd ks)) = {}"
    using Cons.prems(3) by (auto simp: kb)
  obtain m1 lh1 fate pl1 el1 full1 fl1 dirty1 where r: "step (m, lh) k = (m1, lh1, fate)"
    "class_inv c m1 lh1 pl1 el1 full1 fl1 dirty1"
    "class_live m1 fl1 (set pl1 \<union> set el1 \<union> full1) = lv - set bs" "\<forall>a \<in> lv - set bs. cells_of m1 a = cells_of m a"
    "dirty1 \<subseteq> dirty \<union> set bs"
    using step_law [OF Cons.prems(1) ck [unfolded lv_def]] unfolding given_back_def lv_def by blast
  have step1: "applicable m1 (lv - set bs) k' bs'" if k': "(k', bs') \<in> set ks" for k' bs'
  proof (rule step_frame [OF cks [OF k']])
    have "set bs' \<subseteq> set (concat (map snd ks))" using k' by force
    then show sub: "set bs' \<subseteq> lv - set bs" using step_live [OF cks [OF k']] dst(2) by blast
    then show "cells_of m1 a = cells_of m a" if "a \<in> set bs'" for a using r(4) that by blast
  qed simp
  obtain m' lh' fates where t: "batch_with step page (m1, lh1) (map fst ks) = ((m', lh'), fates)"
    "batch_result c m' lh' (lv - set bs - set (concat (map snd ks))) (cells_of m1)
      (dirty1 \<union> set (concat (map snd ks)))"
    using Cons.IH [OF r(2) _ dst(1)] step1 unfolding r(3) by blast
  have "batch_result c m' lh' (lv - set (concat (map snd (kb # ks)))) (cells_of m) (dirty \<union> set (concat (map snd (kb # ks))))"
  proof -
    have "lv - set bs - set (concat (map snd ks)) = lv - set (concat (map snd (kb # ks)))" by (auto simp: kb)
    then have "batch_result c m' lh' (lv - set (concat (map snd (kb # ks)))) (cells_of m) (dirty1 \<union> set (concat (map snd ks)))"
      using t(2) r(4) unfolding batch_result_def by (metis DiffD1 DiffD2 DiffI UnCI concat.simps(2) kb list.simps(9) set_append snd_conv)
    then show ?thesis by (rule batch_result_mono) (use r(5) in \<open>auto simp: kb\<close>)
  qed
  then show ?case using r(1) t(1) by (simp add: kb lv_def)
qed

end

text \<open>\<open>release_many\<close>'s step, on chunks that are linked runs; a purge that stays in its range is needed.\<close>

interpretation chunk: release_step "release_chunk purge" rc_page "\<lambda>m lv k bs. purge_ok purge \<and> chunk_ok m lv k bs"
  for purge
proof (unfold_locales, goal_cases)
  case (1 c m lh pl el full fl dirty k bs)
  then show ?case using release_chunk_correct by blast
next
  case (2 m lv k bs)
  then show ?case by (simp add: chunk_ok_def)
next
  case (3 m lv k bs m' lv')
  then show ?case using chunk_ok_frame by blast
qed

text \<open>A list of chunks with disjoint blocks.\<close>

definition chunks_ok :: "page_mem \<Rightarrow> addr set \<Rightarrow> (page_release_chunk \<times> addr list) list \<Rightarrow> bool" where
  "chunks_ok m lv ks \<longleftrightarrow> (\<forall>(k, bs) \<in> set ks. chunk_ok m lv k bs) \<and> distinct (concat (map snd ks))"

lemma release_batch_correct:
  assumes "class_inv c m lh pl el full fl dirty" "purge_ok purge"
    "chunks_ok m (class_live m fl (set pl \<union> set el \<union> full)) ks"
  shows "\<exists>m' lh' fates. release_batch purge (m, lh) (map fst ks) = ((m', lh'), fates)
    \<and> batch_result c m' lh' (class_live m fl (set pl \<union> set el \<union> full) - set (concat (map snd ks))) (cells_of m)
        (dirty \<union> set (concat (map snd ks)))"
  unfolding release_batch_def by (rule chunk.batch_correct) (use assms in \<open>auto simp: chunks_ok_def\<close>)

lemma chunks_ok_split:
  "chunks_ok m lv (as @ bs) \<longleftrightarrow> chunks_ok m lv as \<and> chunks_ok m lv bs
     \<and> set (concat (map snd as)) \<inter> set (concat (map snd bs)) = {}"
  by (auto simp: chunks_ok_def)

lemma chunks_ok_frame:
  assumes "chunks_ok m lv ks" "\<And>a. a \<in> lv' \<Longrightarrow> cells_of m' a = cells_of m a"
    "lv - lv' \<subseteq> gone" "gone \<inter> set (concat (map snd ks)) = {}"
  shows "chunks_ok m' lv' ks"
proof -
  have "chunk_ok m' lv' k bs" if "(k, bs) \<in> set ks" for k bs
  proof (rule chunk_ok_frame)
    show c: "chunk_ok m lv k bs" using assms(1) that by (auto simp: chunks_ok_def)
    show sub: "set bs \<subseteq> lv'" using c assms(3,4) that by (force simp: chunk_ok_def)
    show "cells_of m' a = cells_of m a" if "a \<in> set bs" for a using assms(2) sub that by blast
  qed
  then show ?thesis using assms(1) by (auto simp: chunks_ok_def)
qed

lemma release_many_facts:
  assumes "class_inv c m lh pl el full fl dirty" "purge_ok purge"
    "chunks_ok m (class_live m fl (set pl \<union> set el \<union> full)) ks"
  shows "\<exists>m' lh' effs pl' el' full' fl' dirty'.
    release_many purge in_arena (m, lh) (map fst ks) = ((m', lh'), effs)
    \<and> class_inv c m' lh' pl' el' full' fl' dirty'
    \<and> class_live m' fl' (set pl' \<union> set el' \<union> full')
        = class_live m fl (set pl \<union> set el \<union> full) - set (concat (map snd ks))
    \<and> (\<forall>a \<in> class_live m fl (set pl \<union> set el \<union> full) - set (concat (map snd ks)). cells_of m' a = cells_of m a)
    \<and> dirty' \<subseteq> dirty \<union> set (concat (map snd ks))"
  using assms
proof (induction "length ks" arbitrary: ks m lh pl el full fl dirty rule: less_induct)
  case less
  let ?lv = "class_live m fl (set pl \<union> set el \<union> full)"
  show ?case
  proof (cases "ks = []")
    case True
    then have "release_many purge in_arena (m, lh) (map fst ks) = ((m, lh), [])"
      by (subst release_many.simps) simp
    then show ?thesis using less.prems(1) True by fastforce
  next
    case False
    define as where "as = take BATCH ks"
    define bs where "bs = drop BATCH ks"
    have ks: "ks = as @ bs" "length bs < length ks" using False by (simp_all add: as_def bs_def const_simps)
    have ok: "chunks_ok m ?lv as" "chunks_ok m ?lv bs" "set (concat (map snd as)) \<inter> set (concat (map snd bs)) = {}"
      using less.prems(3) unfolding ks(1) chunks_ok_split by simp_all
    obtain m1 lh1 fates pl1 el1 full1 fl1 dirty1 where
      r: "release_batch purge (m, lh) (map fst as) = ((m1, lh1), fates)"
      and inv1: "class_inv c m1 lh1 pl1 el1 full1 fl1 dirty1"
      and lv1: "class_live m1 fl1 (set pl1 \<union> set el1 \<union> full1) = ?lv - set (concat (map snd as))"
      and cells1: "\<forall>a \<in> ?lv - set (concat (map snd as)). cells_of m1 a = cells_of m a"
      and d1: "dirty1 \<subseteq> dirty \<union> set (concat (map snd as))"
      using release_batch_correct [OF less.prems(1,2) ok(1)] unfolding batch_result_def by metis
    have "chunks_ok m1 (?lv - set (concat (map snd as))) bs"
      by (rule chunks_ok_frame [OF ok(2), of _ _ "set (concat (map snd as))"]) (use cells1 ok(3) in auto)
    then obtain m' lh' effs pl' el' full' fl' dirty' where
      t: "release_many purge in_arena (m1, lh1) (map fst bs) = ((m', lh'), effs)"
      "class_inv c m' lh' pl' el' full' fl' dirty'"
      "class_live m' fl' (set pl' \<union> set el' \<union> full') = ?lv - set (concat (map snd as)) - set (concat (map snd bs))"
      "\<forall>a \<in> ?lv - set (concat (map snd as)) - set (concat (map snd bs)). cells_of m' a = cells_of m1 a"
      "dirty' \<subseteq> dirty1 \<union> set (concat (map snd bs))"
      using less.hyps [OF ks(2) inv1 less.prems(2)] lv1 by metis
    have "release_many purge in_arena (m, lh) (map fst ks)
        = ((m', lh'), List.map_filter (\<lambda>(p, f). act_page_fate in_arena p f) fates @ effs)"
      using False r t(1) by (subst release_many.simps) (simp add: take_map drop_map as_def bs_def)
    moreover have "?lv - set (concat (map snd ks)) = ?lv - set (concat (map snd as)) - set (concat (map snd bs))"
      by (auto simp: ks(1))
    moreover have "dirty' \<subseteq> dirty \<union> set (concat (map snd ks))" using t(5) d1 by (auto simp: ks(1))
    ultimately show ?thesis using t(2,3,4) cells1 by fastforce
  qed
qed

text \<open>C9 (small heap, release).  \<open>release_many\<close> on any list of chunks of live blocks (each
  chunk a linked run of blocks of one page, the chunks disjoint), in its batches of 128, gives back
  exactly these blocks: the class is well formed again, what is live afterwards is what was live
  without them, and the memory words of all other live blocks are untouched.\<close>

theorem release_many_correct:
  assumes "class_inv c m lh pl el full fl dirty" "purge_ok purge"
    "chunks_ok m (class_live m fl (set pl \<union> set el \<union> full)) ks"
  shows "\<exists>m' lh' effs pl' el' full' fl' dirty'.
    release_many purge in_arena (m, lh) (map fst ks) = ((m', lh'), effs)
    \<and> class_inv c m' lh' pl' el' full' fl' dirty'
    \<and> class_live m' fl' (set pl' \<union> set el' \<union> full')
        = class_live m fl (set pl \<union> set el \<union> full) - set (concat (map snd ks))
    \<and> (\<forall>a \<in> class_live m fl (set pl \<union> set el \<union> full) - set (concat (map snd ks)). cells_of m' a = cells_of m a)"
  using release_many_facts [OF assms] by metis

text \<open>A class with one page, one of its three 16 KiB blocks in the hands of a thread.\<close>

definition one_page_header :: page_header where
  "one_page_header = (page_init 45)\<lparr>used := 1, h_flags := FLAG_IN_PARTIAL\<rparr>"

definition one_page_mem :: page_mem where
  "one_page_mem = \<lparr>cells_of = \<lambda>_. 0, hdrs_of = \<lambda>_. one_page_header\<rparr>"

definition one_page_list :: list_head where
  "one_page_list = list_head_new\<lparr>lh_head := 65536\<rparr>"

lemma blocks_at_few: "blocks_at s b 3 = [s, s + b, s + 2 * b]" "blocks_at s b 2 = [s, s + b]"
  by (simp_all add: blocks_at_def eval_nat_numeral)

lemma one_page_inv:
  "class_inv 45 one_page_mem one_page_list [65536] [] {} (\<lambda>_. []) {}"
  "class_live one_page_mem (\<lambda>_. []) (set [65536] \<union> set [] \<union> {}) = {65584}"
proof -
  let ?h = "one_page_header"
  have h: "h_class ?h = 45" "used ?h = 1" "free_count ?h = 0" "free_head ?h = 0" "h_prev ?h = 0" "h_next ?h = 0"
    "h_flags ?h = FLAG_IN_PARTIAL"
    by (simp_all add: one_page_header_def page_init_def)
  have cap: "capacity ?h = 3" "CLASSES ! 45 = 16384"
    by (simp_all add: capacity_def h CLASSES_eq const_simps)
  have sl: "slots 65536 ?h = {65584, 81968, 98352}" "unborn 65536 ?h = {81968, 98352}"
    by (simp_all add: slots_def unborn_def cap h blocks_at_few const_simps)
  have ok: "page_ok (\<lambda>_. 0) 65536 ?h []" by (simp add: page_ok_def h cap const_simps)
  show "class_live one_page_mem (\<lambda>_. []) (set [65536] \<union> set [] \<union> {}) = {65584}"
    by (simp add: class_live_def live_def avail_def sl one_page_mem_def) auto
  show "class_inv 45 one_page_mem one_page_list [65536] [] {} (\<lambda>_. []) {}"
    using ok sl(2)
    by (simp add: class_inv_def one_page_mem_def one_page_list_def list_head_new_def partial_list_def
        cold_pages_def cold_ok_def const_simps page_inv_def h avail_def flag_bits)
       (simp add: flag_defs)
qed

theorem release_many_correct_witness:
  "\<exists>m' lh' effs pl' el' full' fl' dirty'.
     release_many (\<lambda>m _ _. (m, True, True)) (\<lambda>_ _. True) (one_page_mem, one_page_list)
       [\<lparr>rc_page = 65536, rc_head = 65584, rc_tail = 65584, rc_n = 1\<rparr>] = ((m', lh'), effs)
     \<and> class_inv 45 m' lh' pl' el' full' fl' dirty'
     \<and> class_live m' fl' (set pl' \<union> set el' \<union> full') = {}"
proof -
  let ?k = "\<lparr>rc_page = 65536, rc_head = 65584, rc_tail = 65584, rc_n = 1\<rparr>"
  have "chunks_ok one_page_mem {65584} [(?k, [65584])]"
    by (simp add: chunks_ok_def chunk_ok_def linked_run_def one_page_mem_def page_of_def mask_down_def const_simps)
  moreover have "purge_ok (\<lambda>m _ _. (m, True, True))" by (simp add: purge_ok_def)
  ultimately show ?thesis
    using release_many_correct [OF one_page_inv(1), of "\<lambda>m _ _. (m, True, True)" "[(?k, [65584])]" "\<lambda>_ _. True"]
    unfolding one_page_inv(2) by simp
qed

section \<open>The single-release entry point\<close>

text \<open>
  \<open>release_blocks\<close> is documented to return a chain of \<open>n\<close> blocks, but it passes the head as the tail,
  so for two linked blocks only the first lands on the page's free list while the count grows by two.
\<close>

lemma release_blocks_loses_tail:
  assumes "page_ok (cells_of m) p (hdr_at m p) fl" "b1 \<noteq> 0" "b1 \<notin> set fl" "2 < used (hdr_at m p)"
    "has_flag (h_flags (hdr_at m p)) FLAG_IN_PARTIAL" "cells_of m b1 = b2"
  shows "\<exists>m' lh' e. release_blocks purge in_arena m lh p b1 2 = (m', lh', e)
    \<and> chain (cells_of m') (free_head (hdr_at m' p)) (b1 # fl)
    \<and> free_count (hdr_at m' p) = length (b1 # fl) + 1"
proof -
  have c: "chain (cells_of m) (free_head (hdr_at m p)) fl" "free_count (hdr_at m p) = length fl"
    using assms(1) by (simp_all add: page_ok_def)
  have "used (hdr_at m p) + free_count (hdr_at m p) \<le> 4093" by (rule page_ok_counts [OF assms(1)])
  then show ?thesis
    using assms c
    by (simp add: release_blocks_def release_blocks_with_tail_def release_inner_def Let_def act_page_fate_def)
qed

end
