(* ===== verification/Small_Bins.thy ===== *)
theory Small_Bins
  imports Small_Heap
begin

text \<open>
  \<open>GlobalHeap::release_bin_chunks\<close> of \<open>src/src/heap.rs\<close>, the thread-exit flush: the caller passes the
  whole bin as one chain with one group per page; the function marks the groups whose page comes back
  entirely, threads the other blocks to their group in one walk, and releases group by group.
\<close>

section \<open>The operation\<close>

definition MAX_PAGE_RELEASE_GROUPS :: nat where [const_simps]: "MAX_PAGE_RELEASE_GROUPS = 2056"
definition PAGE_RELEASE_RETIRED :: nat where [const_simps]: "PAGE_RELEASE_RETIRED = 0x8000"

text \<open>\<open>n\<close> is a 16-bit field: its top bit is the mark, the rest the count.\<close>

definition group_count :: "page_release_chunk \<Rightarrow> nat" where
  "group_count g = rc_n g mod PAGE_RELEASE_RETIRED"

definition group_retired :: "page_release_chunk \<Rightarrow> bool" where
  "group_retired g \<longleftrightarrow> rc_n g div PAGE_RELEASE_RETIRED mod 2 = 1"

definition mark_group :: "page_mem \<Rightarrow> page_release_chunk \<Rightarrow> page_release_chunk" where
  "mark_group m g = g\<lparr>rc_head := null, rc_tail := null,
     rc_n := group_count g + (if group_count g = used (hdr_at m (rc_page g)) then PAGE_RELEASE_RETIRED else 0)\<rparr>"

definition find_group :: "page_release_chunk list \<Rightarrow> addr \<Rightarrow> nat option" where
  "find_group gs page = (let i = length (takeWhile (\<lambda>g. rc_page g \<noteq> page) gs) in if i < length gs then Some i else None)"

definition append_group :: "cells \<Rightarrow> page_release_chunk \<Rightarrow> addr \<Rightarrow> cells \<times> page_release_chunk" where
  "append_group m g cursor =
     (let (m1, g1) = (if rc_head g = null then (m, g\<lparr>rc_head := cursor\<rparr>) else (m(rc_tail g := cursor), g))
      in (m1(cursor := null), g1\<lparr>rc_tail := cursor\<rparr>))"

text \<open>The walk: \<open>last\<close> is the memoised pair of page and slot.\<close>

fun route_blocks :: "cells \<Rightarrow> page_release_chunk list \<Rightarrow> addr \<times> nat \<Rightarrow> addr \<Rightarrow> nat \<Rightarrow> cells \<times> page_release_chunk list" where
  "route_blocks m gs lst cursor 0 = (m, gs)"
| "route_blocks m gs lst cursor (Suc k) =
     (let nxt = m cursor; page = page_of cursor in
      case (if fst lst \<noteq> page then find_group gs page else Some (snd lst)) of
        None \<Rightarrow> route_blocks m gs lst nxt k
      | Some slot \<Rightarrow>
          if group_retired (gs ! slot) then route_blocks m gs (page, slot) nxt k
          else let (m', g') = append_group m (gs ! slot) cursor
               in route_blocks m' (gs[slot := g']) (page, slot) nxt k)"

definition release_group :: "purge \<Rightarrow> page_mem \<times> list_head \<Rightarrow> page_release_chunk \<Rightarrow> page_mem \<times> list_head \<times> page_fate" where
  "release_group purge s g =
     (if group_retired g then retire_page_inner purge (fst s) (snd s) (rc_page g)
      else release_inner purge (fst s) (snd s) (rc_page g) (rc_head g) (rc_tail g) (group_count g))"

definition release_bin_chunks :: "purge \<Rightarrow> (addr \<Rightarrow> nat \<Rightarrow> bool) \<Rightarrow> page_mem \<times> list_head \<Rightarrow> addr \<Rightarrow> nat \<Rightarrow>
    page_release_chunk list \<Rightarrow> ((page_mem \<times> list_head) \<times> heap_effect list) option" where
  "release_bin_chunks purge in_arena s ch len chunks =
     (if len = 0 \<or> chunks = [] then Some (s, [])
      else if MAX_PAGE_RELEASE_GROUPS < length chunks then None
      else
        let (m, lh) = s;
            gs = map (mark_group m) chunks;
            (c, gs') = (if list_ex (\<lambda>g. \<not> group_retired g) gs then route_blocks (cells_of m) gs (null, 0) ch len
                        else (cells_of m, gs));
            (s', fates) = batch_with (release_group purge) rc_page (m\<lparr>cells_of := c\<rparr>, lh) gs'
        in Some (s', List.map_filter (\<lambda>(p, f). act_page_fate in_arena p f) fates))"

section \<open>The walk\<close>

lemma find_group_some:
  assumes "distinct (map rc_page gs)" "i < length gs" "rc_page (gs ! i) = page"
  shows "find_group gs page = Some i"
proof -
  have "length (takeWhile (\<lambda>g. rc_page g \<noteq> page) gs) = i"
    using assms
  proof (induction gs arbitrary: i)
    case (Cons g gs)
    show ?case
    proof (cases i)
      case 0
      then show ?thesis using Cons.prems by simp
    next
      case (Suc j)
      then have "rc_page g \<noteq> page" using Cons.prems nth_mem [of j gs] by auto
      then show ?thesis using Cons Suc by simp
    qed
  qed simp
  then show ?thesis using assms(2) by (simp add: find_group_def)
qed

text \<open>The links of a bin, and the blocks of one page in it.\<close>

fun path :: "cells \<Rightarrow> addr \<Rightarrow> addr list \<Rightarrow> bool" where
  "path m x [] = True"
| "path m x (b # bs) = (x = b \<and> b \<noteq> null \<and> path m (m b) bs)"

lemma path_cong: "(\<And>b. b \<in> set bs \<Longrightarrow> m' b = m b) \<Longrightarrow> path m' x bs = path m x bs"
  by (induction bs arbitrary: x) auto

abbreviation of_page :: "addr \<Rightarrow> addr list \<Rightarrow> addr list" where
  "of_page p bs \<equiv> filter (\<lambda>b. page_of b = p) bs"

definition group_run :: "cells \<Rightarrow> page_release_chunk \<Rightarrow> addr list \<Rightarrow> bool" where
  "group_run m g bs \<longleftrightarrow> (if bs = [] then rc_head g = null else rc_head g \<noteq> null \<and> last bs = rc_tail g
     \<and> chain m (rc_head g) bs)"

lemma group_run_frame: "group_run m g bs \<Longrightarrow> (\<And>b. b \<in> set bs \<Longrightarrow> m' b = m b) \<Longrightarrow> group_run m' g bs"
  using chain_cong [of bs m' m "rc_head g"] by (auto simp: group_run_def)

lemma append_group_run:
  assumes "group_run m g bs" "b \<notin> set bs" "b \<noteq> 0" "append_group m g b = (m', g')" "distinct bs"
  shows "group_run m' g' (bs @ [b])" "\<And>a. a \<notin> insert b (set bs) \<Longrightarrow> m' a = m a"
    "rc_page g' = rc_page g" "rc_n g' = rc_n g"
proof -
  show "rc_page g' = rc_page g" "rc_n g' = rc_n g" using assms(4) by (auto simp: append_group_def split: if_splits)
  show "m' a = m a" if "a \<notin> insert b (set bs)" for a
    using assms(1,4) that by (auto simp: append_group_def group_run_def split: if_splits dest: last_in_set)
  show "group_run m' g' (bs @ [b])"
  proof (cases bs rule: rev_cases)
    case Nil
    then show ?thesis using assms by (auto simp: group_run_def append_group_def)
  next
    case (snoc xs t)
    have r: "rc_head g \<noteq> 0" "rc_tail g = t" "chain m (rc_head g) (xs @ [t])" using assms(1) snoc by (auto simp: group_run_def)
    have e: "m' = (m(b := 0))(t := b)" "rc_head g' = rc_head g" "rc_tail g' = b"
      using assms(2,4) r snoc by (auto simp: append_group_def)
    have "chain ((m(b := 0))(t := b)) (rc_head g) ((xs @ [t]) @ [b])"
      by (rule chain_splice) (use r(3) assms(2,3,5) snoc in auto)
    then show ?thesis using snoc r e by (simp add: group_run_def)
  qed
qed

definition routed :: "cells \<Rightarrow> page_release_chunk list \<Rightarrow> addr list \<Rightarrow> cells \<Rightarrow> page_release_chunk list \<Rightarrow> bool" where
  "routed m0 gs0 done m gs \<longleftrightarrow> length gs = length gs0
     \<and> (\<forall>i < length gs. rc_page (gs ! i) = rc_page (gs0 ! i) \<and> rc_n (gs ! i) = rc_n (gs0 ! i)
          \<and> (\<not> group_retired (gs0 ! i) \<longrightarrow> group_run m (gs ! i) (of_page (rc_page (gs0 ! i)) done)))
     \<and> (\<forall>a. a \<notin> set done \<longrightarrow> m a = m0 a)"

lemma route_blocks_correct:
  assumes "routed m0 gs0 done m gs" "path m cursor rest" "distinct (done @ rest)" "distinct (map rc_page gs0)"
    "\<And>b. b \<in> set rest \<Longrightarrow> page_of b \<in> rc_page ` set gs0 \<and> page_of b \<noteq> 0"
    "fst lst \<noteq> 0 \<Longrightarrow> snd lst < length gs0 \<and> rc_page (gs0 ! snd lst) = fst lst"
  shows "\<exists>m' gs'. route_blocks m gs lst cursor (length rest) = (m', gs') \<and> routed m0 gs0 (done @ rest) m' gs'"
  using assms
proof (induction rest arbitrary: m gs "done" cursor lst)
  case Nil
  then show ?case by simp
next
  case (Cons b rest)
  let ?p = "page_of b"
  have cur: "cursor = b" "b \<noteq> 0" "path m (m b) rest" using Cons.prems(2) by simp_all
  have pg: "?p \<in> rc_page ` set gs0" "?p \<noteq> 0" using Cons.prems(5) [of b] by simp_all
  then obtain g where "g \<in> set gs0" "rc_page g = ?p" by auto
  then obtain i where i: "i < length gs0" "rc_page (gs0 ! i) = ?p" by (auto simp: in_set_conv_nth)
  have r: "length gs = length gs0" "\<And>j. j < length gs0 \<Longrightarrow> rc_page (gs ! j) = rc_page (gs0 ! j) \<and> rc_n (gs ! j) = rc_n (gs0 ! j)"
    "\<And>j. j < length gs0 \<Longrightarrow> \<not> group_retired (gs0 ! j) \<Longrightarrow> group_run m (gs ! j) (of_page (rc_page (gs0 ! j)) done)"
    "\<And>a. a \<notin> set done \<Longrightarrow> m a = m0 a"
    using Cons.prems(1) by (auto simp: routed_def)
  have uniq: "j = i" if "j < length gs0" "rc_page (gs0 ! j) = ?p" for j
    using that i Cons.prems(4) nth_eq_iff_index_eq [of "map rc_page gs0" i j] by simp
  have pages: "map rc_page gs = map rc_page gs0" by (rule nth_equalityI) (use r in auto)
  have slot: "(if fst lst \<noteq> ?p then find_group gs ?p else Some (snd lst)) = Some i"
  proof (cases "fst lst = ?p")
    case True
    then have "snd lst = i" using Cons.prems(6) pg(2) uniq by simp
    then show ?thesis using True by simp
  next
    case False
    then show ?thesis using find_group_some [of gs i ?p] i r(1,2) pages Cons.prems(4) by simp
  qed
  have ret: "group_retired (gs ! i) = group_retired (gs0 ! i)" using r(2) [OF i(1)] by (simp add: group_retired_def)
  have bd: "b \<notin> set done" "b \<notin> set rest" "distinct done" using Cons.prems(3) by auto
  show ?case
  proof (cases "group_retired (gs0 ! i)")
    case True
    have "routed m0 gs0 (done @ [b]) m gs"
      using r i(2) True uniq by (auto simp: routed_def)
    from Cons.IH [OF this cur(3), of "(?p, i)"] Cons.prems(3-5) i
    show ?thesis using slot ret True cur(1) by (simp add: Let_def)
  next
    case False
    obtain m1 g1 where ag: "append_group m (gs ! i) b = (m1, g1)" by fastforce
    have gr: "group_run m (gs ! i) (of_page ?p done)" using r(3) [OF i(1) False] i(2) by simp
    note a = append_group_run [OF gr _ cur(2) ag]
    have a1: "group_run m1 g1 (of_page ?p done @ [b])" "\<And>a. a \<notin> insert b (set (of_page ?p done)) \<Longrightarrow> m1 a = m a"
      "rc_page g1 = rc_page (gs ! i)" "rc_n g1 = rc_n (gs ! i)"
      using a bd by auto
    have "group_run m1 (gs[i := g1] ! j) (of_page (rc_page (gs0 ! j)) (done @ [b]))"
      if j: "j < length gs0" "\<not> group_retired (gs0 ! j)" for j
    proof (cases "j = i")
      case True
      then show ?thesis using a1(1) i r(1) by simp
    next
      case False
      have np: "rc_page (gs0 ! j) \<noteq> ?p" using uniq j(1) False by blast
      then have "group_run m1 (gs ! j) (of_page (rc_page (gs0 ! j)) done)"
        by (intro group_run_frame [OF r(3) [OF j]] a1(2)) (use bd(1) in auto)
      then show ?thesis using False np by simp
    qed
    moreover have "rc_page (gs[i := g1] ! j) = rc_page (gs0 ! j) \<and> rc_n (gs[i := g1] ! j) = rc_n (gs0 ! j)" if "j < length gs0" for j
      using that r(1,2) a1(3,4) i by (cases "j = i") auto
    moreover have "m1 a = m0 a" if "a \<notin> set (done @ [b])" for a
      using a1(2) [of a] r(4) [of a] that by simp
    ultimately have inv1: "routed m0 gs0 (done @ [b]) m1 (gs[i := g1])" using r(1) by (simp add: routed_def)
    have "path m1 (m b) rest"
    proof -
      have "m1 x = m x" if "x \<in> set rest" for x
        by (rule a1(2)) (use that Cons.prems(3) bd(2) in auto)
      then show ?thesis using path_cong [of rest m1 m] cur(3) by simp
    qed
    from Cons.IH [OF inv1 this, of "(?p, i)"] Cons.prems(3-5) i
    show ?thesis using slot ret False cur(1) ag by (simp add: Let_def)
  qed
qed

section \<open>What is given back\<close>

definition group_ok :: "purge \<Rightarrow> page_mem \<Rightarrow> addr set \<Rightarrow> page_release_chunk \<Rightarrow> addr list \<Rightarrow> bool" where
  "group_ok purge m lv g bs \<longleftrightarrow> purge_ok purge \<and> set bs \<subseteq> lv \<and> bs \<noteq> [] \<and> (\<forall>b \<in> set bs. page_of b = rc_page g)
     \<and> (if group_retired g then \<forall>b \<in> lv. page_of b = rc_page g \<longrightarrow> b \<in> set bs
        else linked_run (cells_of m) (rc_head g) (rc_tail g) bs \<and> group_count g = length bs)"

lemma release_group_correct:
  assumes inv: "class_inv c m lh pl el full fl dirty"
    and g: "group_ok purge m (class_live m fl (set pl \<union> set el \<union> full)) g bs"
  shows "given_back c (rc_page g) (set bs) (set pl \<union> set el \<union> full) fl m dirty (release_group purge (m, lh) g)"
proof -
  let ?p = "rc_page g"
  have pok: "purge_ok purge" and ne: "bs \<noteq> []" using g by (simp_all add: group_ok_def)
  have b: "page_of b \<in> set pl \<union> full \<and> b \<in> live ?p (hdr_at m ?p) (fl ?p) \<and> page_of b = ?p" if "b \<in> set bs" for b
    using class_live_page [OF inv, of b] g that by (auto simp: group_ok_def)
  then have lv: "set bs \<subseteq> live ?p (hdr_at m ?p) (fl ?p)" by blast
  have p: "?p \<in> set pl \<union> full" using b [of "hd bs"] ne by auto
  show ?thesis
  proof (cases "group_retired g")
    case True
    have "b' \<in> set bs" if b': "b' \<in> live ?p (hdr_at m ?p) (fl ?p)" for b'
    proof -
      have "page_inv c m fl dirty ?p" using inv p by (auto simp: class_inv_def)
      from page_avail_range(2) [OF this] have "page_of b' = ?p" using b' by (auto simp: page_range_def)
      moreover have "b' \<in> class_live m fl (set pl \<union> set el \<union> full)" using b' p by (auto simp: class_live_def)
      ultimately show ?thesis using g True by (simp add: group_ok_def)
    qed
    then have "set bs = live ?p (hdr_at m ?p) (fl ?p)" using lv by blast
    then show ?thesis using retire_page_correct [OF inv pok p] True by (simp add: release_group_def)
  next
    case False
    then have "linked_run (cells_of m) (rc_head g) (rc_tail g) bs" "group_count g = length bs" using g by (simp_all add: group_ok_def)
    then show ?thesis using release_inner_correct [OF inv pok p _ lv] False by (simp add: release_group_def)
  qed
qed

interpretation group: release_step "release_group purge" rc_page "group_ok purge" for purge
proof (unfold_locales, goal_cases)
  case (1 c m lh pl el full fl dirty k bs)
  then show ?case by (rule release_group_correct)
next
  case (2 m lv k bs)
  then show ?case by (simp add: group_ok_def)
next
  case (3 m lv k bs m' lv')
  have "chain ((cells_of m')(rc_tail k := 0)) (rc_head k) bs = chain ((cells_of m)(rc_tail k := 0)) (rc_head k) bs"
    by (rule chain_cong) (use 3(2) in auto)
  then show ?case using 3 by (auto simp: group_ok_def linked_run_def)
qed

text \<open>The groups the flush builds: one per page, with the number of its blocks.\<close>

definition groups_of :: "page_release_chunk list \<Rightarrow> addr list \<Rightarrow> bool" where
  "groups_of gs bs \<longleftrightarrow> distinct (map rc_page gs) \<and> (\<forall>b \<in> set bs. page_of b \<in> rc_page ` set gs)
     \<and> (\<forall>g \<in> set gs. rc_n g = length (of_page (rc_page g) bs) \<and> 0 < rc_n g)"

lemma mark_group_fields:
  assumes "group_count g < PAGE_RELEASE_RETIRED"
  shows "group_count (mark_group m g) = group_count g" "rc_page (mark_group m g) = rc_page g"
    "group_retired (mark_group m g) \<longleftrightarrow> group_count g = used (hdr_at m (rc_page g))" "rc_head (mark_group m g) = 0"
proof -
  let ?k = "group_count g"
  have k: "?k mod PAGE_RELEASE_RETIRED = ?k" "?k div PAGE_RELEASE_RETIRED = 0" "(?k + PAGE_RELEASE_RETIRED) mod PAGE_RELEASE_RETIRED = ?k"
    "(?k + PAGE_RELEASE_RETIRED) div PAGE_RELEASE_RETIRED = 1"
    using assms by (simp_all add: PAGE_RELEASE_RETIRED_def)
  show "rc_page (mark_group m g) = rc_page g" "rc_head (mark_group m g) = 0" by (simp_all add: mark_group_def)
  have n: "rc_n (mark_group m g) = (if ?k = used (hdr_at m (rc_page g)) then ?k + PAGE_RELEASE_RETIRED else ?k)"
    by (simp add: mark_group_def)
  show "group_count (mark_group m g) = ?k"
    unfolding group_count_def [of "mark_group m g"] n using k by (simp only: if_distrib if_cancel split: if_split) simp
  show "group_retired (mark_group m g) \<longleftrightarrow> ?k = used (hdr_at m (rc_page g))"
    unfolding group_retired_def n using k(2,4) by (cases "?k = used (hdr_at m (rc_page g))") (simp_all only: if_True if_False, simp_all)
qed

lemma concat_of_pages:
  assumes "distinct ps"
  shows "set (concat (map (\<lambda>p. of_page p bs) ps)) = {b \<in> set bs. page_of b \<in> set ps}"
    "distinct bs \<Longrightarrow> distinct (concat (map (\<lambda>p. of_page p bs) ps))"
proof -
  show "set (concat (map (\<lambda>p. of_page p bs) ps)) = {b \<in> set bs. page_of b \<in> set ps}" by auto
  show "distinct (concat (map (\<lambda>p. of_page p bs) ps))" if "distinct bs" using assms that by (induction ps) auto
qed

text \<open>A bin of a class, ready to be flushed.\<close>

definition bin_ok :: "nat \<Rightarrow> page_mem \<Rightarrow> list_head \<Rightarrow> addr list \<Rightarrow> addr list \<Rightarrow> addr set \<Rightarrow> (addr \<Rightarrow> addr list) \<Rightarrow>
    addr set \<Rightarrow> addr \<Rightarrow> addr list \<Rightarrow> page_release_chunk list \<Rightarrow> bool" where
  "bin_ok c m lh pl el full fl dirty ch bs gs \<longleftrightarrow> class_inv c m lh pl el full fl dirty
     \<and> path (cells_of m) ch bs \<and> distinct bs \<and> set bs \<subseteq> class_live m fl (set pl \<union> set el \<union> full) \<and> groups_of gs bs"

lemma bin_block:
  assumes "bin_ok c m lh pl el full fl dirty ch bs gs" "b \<in> set bs"
  shows "b \<in> live (page_of b) (hdr_at m (page_of b)) (fl (page_of b))" "page_of b \<noteq> 0"
    "page_ok (cells_of m) (page_of b) (hdr_at m (page_of b)) (fl (page_of b))" "page_of b \<in> rc_page ` set gs"
proof -
  have inv: "class_inv c m lh pl el full fl dirty" and lv: "b \<in> class_live m fl (set pl \<union> set el \<union> full)"
    using assms by (auto simp: bin_ok_def)
  show "b \<in> live (page_of b) (hdr_at m (page_of b)) (fl (page_of b))" by (rule class_live_page(2) [OF inv lv])
  show ok: "page_ok (cells_of m) (page_of b) (hdr_at m (page_of b)) (fl (page_of b))"
    using class_live_page(1) [OF inv lv] inv by (auto simp: class_inv_def page_inv_def)
  show "page_of b \<noteq> 0" using ok by (auto simp: page_ok_def)
  show "page_of b \<in> rc_page ` set gs" using assms by (auto simp: bin_ok_def groups_of_def)
qed

text \<open>The count of a group is at most the page's, and equal only if every live block of the page is in the bin.\<close>

lemma bin_group:
  assumes bin: "bin_ok c m lh pl el full fl dirty ch bs gs" and g: "g \<in> set gs"
  shows "rc_n g = length (of_page (rc_page g) bs)" "of_page (rc_page g) bs \<noteq> []" "rc_n g < PAGE_RELEASE_RETIRED"
    "group_count g = rc_n g"
    "rc_n g = used (hdr_at m (rc_page g)) \<Longrightarrow>
       set (of_page (rc_page g) bs) = live (rc_page g) (hdr_at m (rc_page g)) (fl (rc_page g))"
proof -
  let ?p = "rc_page g" and ?bs = "of_page (rc_page g) bs"
  have d: "distinct bs" and n: "rc_n g = length ?bs \<and> 0 < rc_n g" using bin g by (auto simp: bin_ok_def groups_of_def)
  show "rc_n g = length ?bs" "?bs \<noteq> []" using n by auto
  then obtain b where b: "b \<in> set ?bs" by (cases ?bs) auto
  then have ok: "page_ok (cells_of m) ?p (hdr_at m ?p) (fl ?p)" using bin_block(3) [OF bin, of b] by auto
  have sub: "set ?bs \<subseteq> live ?p (hdr_at m ?p) (fl ?p)"
  proof
    fix x assume "x \<in> set ?bs"
    then show "x \<in> live ?p (hdr_at m ?p) (fl ?p)" using bin_block(1) [OF bin, of x] by simp
  qed
  have fin: "finite (live ?p (hdr_at m ?p) (fl ?p))" by (simp add: live_def slots_def)
  have c: "card (set ?bs) = rc_n g" using n distinct_card [of ?bs] d by (simp only: distinct_filter)
  have "rc_n g \<le> used (hdr_at m ?p)" using card_mono [OF fin sub] live_card [OF ok] c by simp
  then show "rc_n g < PAGE_RELEASE_RETIRED" using page_ok_counts [OF ok] by (simp add: PAGE_RELEASE_RETIRED_def)
  then show "group_count g = rc_n g" by (simp add: group_count_def)
  show "set ?bs = live ?p (hdr_at m ?p) (fl ?p)" if "rc_n g = used (hdr_at m ?p)"
    using card_subset_eq [OF fin sub] live_card [OF ok] c that by simp
qed

lemma bin_mark:
  assumes "bin_ok c m lh pl el full fl dirty ch bs gs" "g \<in> set gs"
  shows "rc_page (mark_group m g) = rc_page g" "group_count (mark_group m g) = rc_n g" "rc_head (mark_group m g) = 0"
    "group_retired (mark_group m g) \<longleftrightarrow> rc_n g = used (hdr_at m (rc_page g))"
  using mark_group_fields [of g m] bin_group(3,4) [OF assms] by simp_all

text \<open>The routing step, walked or skipped.\<close>

definition route_bin :: "cells \<Rightarrow> page_release_chunk list \<Rightarrow> addr \<Rightarrow> nat \<Rightarrow> cells \<times> page_release_chunk list" where
  "route_bin m gs ch len = (if list_ex (\<lambda>g. \<not> group_retired g) gs then route_blocks m gs (null, 0) ch len else (m, gs))"

lemma bin_routed:
  assumes bin: "bin_ok c m lh pl el full fl dirty ch bs gs"
    and r: "route_bin (cells_of m) (map (mark_group m) gs) ch (length bs) = (c1, gs1)"
  shows "routed (cells_of m) (map (mark_group m) gs) bs c1 gs1"
proof (cases "list_ex (\<lambda>g. \<not> group_retired g) (map (mark_group m) gs)")
  case True
  let ?gs = "map (mark_group m) gs"
  have pages: "map rc_page ?gs = map rc_page gs" by (simp add: mark_group_def comp_def)
  have r0: "routed (cells_of m) ?gs [] (cells_of m) ?gs" by (auto simp: routed_def group_run_def mark_group_def)
  have "\<exists>m' gs'. route_blocks (cells_of m) ?gs (null, 0) ch (length bs) = (m', gs') \<and> routed (cells_of m) ?gs ([] @ bs) m' gs'"
  proof (rule route_blocks_correct [OF r0])
    show "distinct (map rc_page ?gs)" unfolding pages using bin by (simp add: bin_ok_def groups_of_def)
    show "page_of b \<in> rc_page ` set ?gs \<and> page_of b \<noteq> 0" if "b \<in> set bs" for b
      using bin_block(2,4) [OF bin that] pages by (metis list.set_map)
  qed (use bin in \<open>auto simp: bin_ok_def\<close>)
  then show ?thesis using r True by (simp add: route_bin_def)
next
  case False
  then have "\<forall>g \<in> set (map (mark_group m) gs). group_retired g" by (simp add: list_ex_iff)
  then show ?thesis using r False by (auto simp: route_bin_def routed_def)
qed

text \<open>After routing, every group can be released.\<close>

lemma bin_group_ok:
  assumes bin: "bin_ok c m lh pl el full fl dirty ch bs gs" and pok: "purge_ok purge"
    and rt: "routed (cells_of m) (map (mark_group m) gs) bs c1 gs1" and i: "i < length gs"
  shows "group_ok purge (m\<lparr>cells_of := c1\<rparr>) (class_live m fl (set pl \<union> set el \<union> full)) (gs1 ! i) (of_page (rc_page (gs ! i)) bs)"
proof -
  let ?g = "gs ! i" and ?k = "gs1 ! i" and ?lv = "class_live m fl (set pl \<union> set el \<union> full)"
  define bs' where "bs' = of_page (rc_page ?g) bs"
  have g: "?g \<in> set gs" using i by simp
  have inv: "class_inv c m lh pl el full fl dirty" and sub: "set bs \<subseteq> ?lv" and d: "distinct bs"
    using bin by (simp_all add: bin_ok_def)
  have k: "rc_page ?k = rc_page ?g" "group_count ?k = length bs'"
    "group_retired ?k \<longleftrightarrow> rc_n ?g = used (hdr_at m (rc_page ?g))" "\<not> group_retired ?k \<Longrightarrow> group_run c1 ?k bs'"
    using rt i bin_mark [OF bin g] bin_group(1) [OF bin g] by (auto simp: routed_def group_count_def group_retired_def bs'_def)
  note ne = bin_group(2) [OF bin g, folded bs'_def]
  have bs': "set bs' \<subseteq> ?lv" "\<forall>b \<in> set bs'. page_of b = rc_page ?k" "distinct bs'"
    using sub k(1) d by (auto simp: bs'_def)
  have "group_ok purge (m\<lparr>cells_of := c1\<rparr>) ?lv ?k bs'"
  proof (cases "group_retired ?k")
    case True
    then have e: "set bs' = live (rc_page ?k) (hdr_at m (rc_page ?k)) (fl (rc_page ?k))"
      using bin_group(5) [OF bin g, folded bs'_def] k(1,3) by simp
    have "b \<in> set bs'" if b: "b \<in> ?lv" "page_of b = rc_page ?k" for b
      using class_live_page(2) [OF inv b(1)] b(2) unfolding e by simp
    then show ?thesis using True ne pok bs' by (simp add: group_ok_def)
  next
    case False
    have gr: "rc_head ?k \<noteq> 0" "last bs' = rc_tail ?k" "chain c1 (rc_head ?k) bs'"
      using k(4) [OF False] ne by (simp_all add: group_run_def)
    have "c1 (last bs') = 0" by (rule chain_last_null [OF gr(3) ne])
    then have "c1(rc_tail ?k := 0) = c1" using gr(2) by auto
    then have "linked_run (cells_of (m\<lparr>cells_of := c1\<rparr>)) (rc_head ?k) (rc_tail ?k) bs'"
      using gr ne bs'(3) by (simp add: linked_run_def)
    then show ?thesis using False ne pok bs' k(2) by (simp add: group_ok_def)
  qed
  then show ?thesis by (simp only: bs'_def)
qed

lemma bin_frame:
  assumes bin: "bin_ok c m lh pl el full fl dirty ch bs gs" and frame: "\<And>a. a \<notin> set bs \<Longrightarrow> c1 a = cells_of m a"
  shows "class_inv c (m\<lparr>cells_of := c1\<rparr>) lh pl el full fl dirty"
    "class_live (m\<lparr>cells_of := c1\<rparr>) fl (set pl \<union> set el \<union> full) = class_live m fl (set pl \<union> set el \<union> full)"
proof -
  have inv: "class_inv c m lh pl el full fl dirty" using bin by (simp add: bin_ok_def)
  have "c1 a = cells_of m a" if q: "q \<in> set pl \<union> set el \<union> full" "a \<in> page_avail m fl q" for q a
  proof (rule frame, rule notI)
    assume a: "a \<in> set bs"
    have "page_inv c m fl dirty q" using inv q(1) by (auto simp: class_inv_def)
    from page_avail_range(1) [OF this] have "page_of a = q" using q(2) by (auto simp: page_range_def)
    then show False using bin_block(1) [OF bin a] q(2) by (simp add: live_def)
  qed
  then show "class_inv c (m\<lparr>cells_of := c1\<rparr>) lh pl el full fl dirty"
    "class_live (m\<lparr>cells_of := c1\<rparr>) fl (set pl \<union> set el \<union> full) = class_live m fl (set pl \<union> set el \<union> full)"
    using class_inv_mem [OF inv, of "m\<lparr>cells_of := c1\<rparr>" fl] by auto
qed

lemma release_bin_chunks_facts:
  assumes "class_inv c m lh pl el full fl dirty" "purge_ok purge"
    and "path (cells_of m) ch bs" "distinct bs" "set bs \<subseteq> class_live m fl (set pl \<union> set el \<union> full)"
    and "groups_of gs bs" "length gs \<le> MAX_PAGE_RELEASE_GROUPS"
  shows "\<exists>m' lh' effs pl' el' full' fl' dirty'.
    release_bin_chunks purge in_arena (m, lh) ch (length bs) gs = Some ((m', lh'), effs)
    \<and> class_inv c m' lh' pl' el' full' fl' dirty'
    \<and> class_live m' fl' (set pl' \<union> set el' \<union> full') = class_live m fl (set pl \<union> set el \<union> full) - set bs
    \<and> (\<forall>a \<in> class_live m fl (set pl \<union> set el \<union> full) - set bs. cells_of m' a = cells_of m a)
    \<and> dirty' \<subseteq> dirty \<union> set bs"
proof (cases "length bs = 0 \<or> gs = []")
  case True
  then have "bs = []" using assms(6) by (auto simp: groups_of_def)
  then show ?thesis using True assms(1) by (auto simp: release_bin_chunks_def intro!: exI)
next
  case False
  let ?lv = "class_live m fl (set pl \<union> set el \<union> full)"
  have bin: "bin_ok c m lh pl el full fl dirty ch bs gs" using assms by (simp add: bin_ok_def)
  obtain c1 gs1 where cg: "route_bin (cells_of m) (map (mark_group m) gs) ch (length bs) = (c1, gs1)" by fastforce
  note rt = bin_routed [OF bin cg]
  have frame: "c1 a = cells_of m a" if "a \<notin> set bs" for a using rt that by (simp add: routed_def)
  note inv1 = bin_frame [OF bin frame]
  define ks where "ks = zip gs1 (map (\<lambda>g. of_page (rc_page g) bs) gs)"
  have len: "length gs1 = length gs" using rt by (simp add: routed_def)
  have ksf: "map fst ks = gs1" "map snd ks = map (\<lambda>p. of_page p bs) (map rc_page gs)"
    using len by (simp_all add: ks_def comp_def)
  have "group_ok purge (m\<lparr>cells_of := c1\<rparr>) ?lv k bs'" if "(k, bs') \<in> set ks" for k bs'
    using that len bin_group_ok [OF bin assms(2) rt] by (auto simp: ks_def in_set_conv_nth)
  moreover have "set (concat (map snd ks)) = set bs" "distinct (concat (map snd ks))"
    unfolding ksf using concat_of_pages [of "map rc_page gs" bs] assms(4,6) by (auto simp: groups_of_def)
  ultimately obtain m' lh' fates where
    t: "batch_with (release_group purge) rc_page (m\<lparr>cells_of := c1\<rparr>, lh) gs1 = ((m', lh'), fates)"
    "batch_result c m' lh' (?lv - set bs) c1 (dirty \<union> set bs)"
    using group.batch_correct [OF inv1(1), of ks purge] inv1(2) unfolding ksf(1) by auto
  have "release_bin_chunks purge in_arena (m, lh) ch (length bs) gs
      = Some ((m', lh'), List.map_filter (\<lambda>(p, f). act_page_fate in_arena p f) fates)"
    using False assms(7) t(1) cg by (simp add: release_bin_chunks_def Let_def flip: route_bin_def)
  moreover have "\<forall>a \<in> ?lv - set bs. c1 a = cells_of m a" using frame by simp
  ultimately show ?thesis using t(2) unfolding batch_result_def by (metis (no_types, lifting))
qed

text \<open>C10 (small heap, thread exit).  \<open>release_bin_chunks\<close> on a bin of distinct live blocks, linked from
  \<open>ch\<close>, with one group per page carrying the right count, gives back exactly the blocks of the bin: the
  single walk with its memoised slot threads every block to its own page, pages that come back entirely
  are retired without relinking, and no other live block is touched.\<close>

theorem release_bin_chunks_correct:
  assumes "class_inv c m lh pl el full fl dirty" "purge_ok purge"
    and "path (cells_of m) ch bs" "distinct bs" "set bs \<subseteq> class_live m fl (set pl \<union> set el \<union> full)"
    and "groups_of gs bs" "length gs \<le> MAX_PAGE_RELEASE_GROUPS"
  shows "\<exists>m' lh' effs pl' el' full' fl' dirty'.
    release_bin_chunks purge in_arena (m, lh) ch (length bs) gs = Some ((m', lh'), effs)
    \<and> class_inv c m' lh' pl' el' full' fl' dirty'
    \<and> class_live m' fl' (set pl' \<union> set el' \<union> full') = class_live m fl (set pl \<union> set el \<union> full) - set bs
    \<and> (\<forall>a \<in> class_live m fl (set pl \<union> set el \<union> full) - set bs. cells_of m' a = cells_of m a)"
  using release_bin_chunks_facts [OF assms] by metis

theorem release_bin_chunks_correct_witness:
  "\<exists>m' lh' effs. release_bin_chunks (\<lambda>m _ _. (m, True, True)) (\<lambda>_ _. True) (one_page_mem, one_page_list) 65584 1
     [\<lparr>rc_page = 65536, rc_head = 0, rc_tail = 0, rc_n = 1\<rparr>] = Some ((m', lh'), effs)"
proof -
  let ?k = "\<lparr>rc_page = 65536, rc_head = 0, rc_tail = 0, rc_n = 1\<rparr>"
  have "page_of 65584 = 65536" by (simp add: page_of_def mask_down_def const_simps)
  then have "groups_of [?k] [65584]" by (simp add: groups_of_def)
  moreover have "purge_ok (\<lambda>m _ _. (m, True, True))" "path (cells_of one_page_mem) 65584 [65584]" "distinct [65584 :: nat]"
    "set [65584 :: nat] \<subseteq> {65584}" "length [?k] \<le> MAX_PAGE_RELEASE_GROUPS"
    by (simp_all add: purge_ok_def MAX_PAGE_RELEASE_GROUPS_def)
  ultimately have "\<exists>m' lh' effs. release_bin_chunks (\<lambda>m _ _. (m, True, True)) (\<lambda>_ _. True) (one_page_mem, one_page_list)
      65584 (length [65584 :: nat]) [?k] = Some ((m', lh'), effs)"
    using release_bin_chunks_correct [OF one_page_inv(1), of "\<lambda>m _ _. (m, True, True)" 65584 "[65584]" "[?k]" "\<lambda>_ _. True"]
    unfolding one_page_inv(2) by blast
  then show ?thesis by simp
qed

end
