(* ===== verification/Span_Heap.thy ===== *)
theory Span_Heap
  imports Small_Heap
begin

text \<open>
  The medium and big span heaps of \<open>src/src/heap.rs\<close>.  The source writes the two almost line for line
  twice (its comment says the duplication is deliberate); the model has one set of definitions over a
  record of what differs, a \<open>span_tier\<close>: how a span is carved, the batch size, the span length and the
  retention caps.  \<open>medium_tier\<close> and \<open>big_tier\<close> are its two values, and the functions of the source
  (\<open>mrelease_inner\<close>, \<open>brelease_inner\<close>, \<open>medium_take_blocks\<close>, \<open>big_take_blocks\<close>, ...) are instances, with
  the side-table updates each of them makes.

  Side-table writes, arena releases and unmappings are results (\<open>span_effect\<close>), performed by the arena
  and side-table components; the discard of a cold span is the parameter \<open>purge\<close>, as for pages.
\<close>

section \<open>State\<close>

type_synonym span_mem = "unit span_master_ext heap_mem"

definition MEDIUM_REFILL_BATCH :: nat where [const_simps]: "MEDIUM_REFILL_BATCH = 16"
definition EMPTY_SPAN_CACHE_PER_CLASS :: nat where [const_simps]: "EMPTY_SPAN_CACHE_PER_CLASS = 32"
definition MAX_EMPTY_SPAN_BYTES_PER_CLASS :: nat where
  [const_simps]: "MAX_EMPTY_SPAN_BYTES_PER_CLASS = 8 * 1024 * 1024"
definition MAX_COLD_SPAN_BYTES_PER_CLASS :: nat where
  [const_simps]: "MAX_COLD_SPAN_BYTES_PER_CLASS = 256 * 1024 * 1024"
definition MAX_COLD_SPAN_SLOTS :: nat where [const_simps]: "MAX_COLD_SPAN_SLOTS = 256"

definition BIG_REFILL_BATCH :: nat where [const_simps]: "BIG_REFILL_BATCH = 4"
definition EMPTY_BIG_SPAN_CACHE_PER_CLASS :: nat where [const_simps]: "EMPTY_BIG_SPAN_CACHE_PER_CLASS = 4"
definition MAX_EMPTY_BIG_SPAN_BYTES_PER_CLASS :: nat where
  [const_simps]: "MAX_EMPTY_BIG_SPAN_BYTES_PER_CLASS = 8 * 1024 * 1024"
definition MAX_COLD_BIG_SPAN_BYTES_PER_CLASS :: nat where
  [const_simps]: "MAX_COLD_BIG_SPAN_BYTES_PER_CLASS = 256 * 1024 * 1024"
definition MAX_COLD_BIG_SPAN_SLOTS :: nat where [const_simps]: "MAX_COLD_BIG_SPAN_SLOTS = 256"

record span_list =
  sl_head :: addr
  sl_empty :: addr
  sl_empty_count :: nat
  sl_empty_bytes :: nat
  sl_cold :: "(addr \<times> nat) list"
  sl_cold_len :: nat
  sl_cold_bytes :: nat

type_synonym mspan_list = span_list
type_synonym bspan_list = span_list

definition span_list_new :: "nat \<Rightarrow> span_list" where
  "span_list_new n = \<lparr> sl_head = null, sl_empty = null, sl_empty_count = 0, sl_empty_bytes = 0,
     sl_cold = replicate n (null, 0), sl_cold_len = 0, sl_cold_bytes = 0 \<rparr>"

definition mspan_list_new :: mspan_list where "mspan_list_new = span_list_new MAX_COLD_SPAN_SLOTS"
definition bspan_list_new :: bspan_list where "bspan_list_new = span_list_new MAX_COLD_BIG_SPAN_SLOTS"

record span_tier =
  t_init :: "cells \<Rightarrow> addr \<Rightarrow> nat \<Rightarrow> (cells \<times> span_master) option"
  t_batch :: nat
  t_empty_count :: nat
  t_empty_bytes :: nat
  t_cold_slots :: nat
  t_cold_bytes :: nat

definition medium_refill_batch :: "nat \<Rightarrow> nat" where
  "medium_refill_batch mclass =
     (let block = MEDIUM_CLASSES ! mclass;
          cap = (case span_pages_for block of None \<Rightarrow> 0 | Some n \<Rightarrow> medium_capacity_for block n)
      in if cap < MEDIUM_REFILL_BATCH then cap else MEDIUM_REFILL_BATCH)"

definition medium_tier :: "(addr \<Rightarrow> nat \<Rightarrow> bool) \<Rightarrow> nat \<Rightarrow> span_tier" where
  "medium_tier in_arena mclass = \<lparr>
     t_init = (\<lambda>m base n. span_init (in_arena base (n * PAGE_SIZE)) m base mclass n),
     t_batch = medium_refill_batch mclass, t_empty_count = EMPTY_SPAN_CACHE_PER_CLASS,
     t_empty_bytes = MAX_EMPTY_SPAN_BYTES_PER_CLASS, t_cold_slots = MAX_COLD_SPAN_SLOTS,
     t_cold_bytes = MAX_COLD_SPAN_BYTES_PER_CLASS \<rparr>"

definition big_tier :: "nat \<Rightarrow> span_tier" where
  "big_tier bclass = \<lparr>
     t_init = (\<lambda>m base n. big_init m base bclass n),
     t_batch = BIG_REFILL_BATCH, t_empty_count = EMPTY_BIG_SPAN_CACHE_PER_CLASS,
     t_empty_bytes = MAX_EMPTY_BIG_SPAN_BYTES_PER_CLASS, t_cold_slots = MAX_COLD_BIG_SPAN_SLOTS,
     t_cold_bytes = MAX_COLD_BIG_SPAN_BYTES_PER_CLASS \<rparr>"

section \<open>Refilling\<close>

text \<open>\<open>mlink_partial\<close>, \<open>munlink_partial\<close>, \<open>blink_partial\<close> and \<open>bunlink_partial\<close> repeat the page versions.\<close>

definition mlink_partial :: "span_mem \<Rightarrow> addr \<Rightarrow> addr \<Rightarrow> span_mem \<times> addr" where "mlink_partial = mem_link"
definition munlink_partial :: "span_mem \<Rightarrow> addr \<Rightarrow> addr \<Rightarrow> (span_mem \<times> addr) \<times> bool" where
  "munlink_partial = mem_unlink"
definition blink_partial :: "span_mem \<Rightarrow> addr \<Rightarrow> addr \<Rightarrow> span_mem \<times> addr" where "blink_partial = mem_link"
definition bunlink_partial :: "span_mem \<Rightarrow> addr \<Rightarrow> addr \<Rightarrow> (span_mem \<times> addr) \<times> bool" where
  "bunlink_partial = mem_unlink"

definition span_pop :: "cells \<Rightarrow> span_master \<Rightarrow> addr \<Rightarrow> span_master" where
  "span_pop m h b = h\<lparr>free_head := m b, free_count := sub_w 32 (free_count h) 1, used := add_w 32 (used h) 1\<rparr>"

partial_function (option) sfill_from_list ::
  "nat \<Rightarrow> span_mem \<Rightarrow> addr \<Rightarrow> addr \<Rightarrow> nat \<Rightarrow> bool \<Rightarrow> ((span_mem \<times> addr) \<times> addr \<times> nat \<times> bool) option" where
  [code]: "sfill_from_list cap m lst ch cnt v =
     (if cnt < cap then
        if lst = null then Some ((m, lst), ch, cnt, v)
        else
          let span = lst; h = hdr_at m span;
              v' = (v \<and> has_flag (h_flags h) FLAG_VIRGIN); b = free_head h
          in if b \<noteq> null then
               let h' = span_pop (cells_of m) h b;
                   m' = set_hdr (m\<lparr>cells_of := (cells_of m)(b := ch)\<rparr>) span h';
                   s = (if free_count h' = 0 then fst (mem_unlink m' lst span) else (m', lst))
               in sfill_from_list cap (fst s) (snd s) b (cnt + 1) v'
             else
               let s = fst (mem_unlink m lst span) in sfill_from_list cap (fst s) (snd s) ch cnt v'
      else Some ((m, lst), ch, cnt, v))"

definition mfill_from_list :: "span_mem \<Rightarrow> addr \<Rightarrow> addr \<Rightarrow> nat \<Rightarrow> bool \<Rightarrow> nat \<Rightarrow>
    ((span_mem \<times> addr) \<times> addr \<times> nat \<times> bool) option" where
  "mfill_from_list m lst ch cnt v cap = sfill_from_list cap m lst ch cnt v"

definition bfill_from_list :: "span_mem \<Rightarrow> addr \<Rightarrow> addr \<Rightarrow> nat \<Rightarrow> bool \<Rightarrow> nat \<Rightarrow>
    ((span_mem \<times> addr) \<times> addr \<times> nat \<times> bool) option" where
  "bfill_from_list m lst ch cnt v cap = sfill_from_list cap m lst ch cnt v"

section \<open>Releasing\<close>

datatype span_fate = KeepSpan | UnmapSpan nat

datatype span_effect =
    MediumTableSet addr nat | MediumTableClear addr nat
  | BigTableSet addr nat | BigTableClear addr nat
  | SpanArenaRelease addr nat | SpanOsUnmap addr nat

type_synonym span_purge = "span_mem \<Rightarrow> addr \<Rightarrow> nat \<Rightarrow> span_mem"

text \<open>The common part of \<open>mrelease_inner\<close> and \<open>brelease_inner\<close>, from the splice on; first the unused span.\<close>

definition span_park :: "span_tier \<Rightarrow> span_purge \<Rightarrow> span_mem \<Rightarrow> span_list \<Rightarrow> addr \<Rightarrow> span_mem \<times> span_list \<times> span_fate" where
  "span_park T purge m sl span =
     (let ((m2, hd2), _) = mem_unlink m (sl_head sl) span;
          sl2 = sl\<lparr>sl_head := hd2\<rparr>;
          span_bytes = span_mapped_bytes (hdr_at m2 span)
      in if sl_empty_count sl2 < t_empty_count T \<and> sl_empty_bytes sl2 + span_bytes \<le> t_empty_bytes T then
           (set_hdr m2 span ((hdr_at m2 span)\<lparr>h_next := sl_empty sl2\<rparr>),
            sl2\<lparr>sl_empty := span, sl_empty_count := add_w 32 (sl_empty_count sl2) 1,
                sl_empty_bytes := sl_empty_bytes sl2 + span_bytes\<rparr>, KeepSpan)
         else if sl_cold_len sl2 < t_cold_slots T \<and> sl_cold_bytes sl2 + span_bytes \<le> t_cold_bytes T then
           let idx = sl_cold_len sl2
           in (purge m2 span span_bytes,
               sl2\<lparr>sl_cold := (sl_cold sl2)[idx := (span, npages (hdr_at m2 span))],
                   sl_cold_len := sl_cold_len sl2 + 1,
                   sl_cold_bytes := sl_cold_bytes sl2 + span_bytes\<rparr>, KeepSpan)
         else (m2, sl2, UnmapSpan span_bytes))"

definition span_release_inner :: "span_tier \<Rightarrow> span_purge \<Rightarrow> span_mem \<Rightarrow> span_list \<Rightarrow> addr \<Rightarrow> addr \<Rightarrow> addr \<Rightarrow>
    nat \<Rightarrow> span_mem \<times> span_list \<times> span_fate" where
  "span_release_inner T purge m sl span head tail n =
     (let h = hdr_at m span;
          h1 = h\<lparr>h_flags := clear_flag (h_flags h) FLAG_VIRGIN, free_head := head,
                 free_count := add_w 32 (free_count h) n, used := sub_w 32 (used h) n\<rparr>;
          m1 = set_hdr (m\<lparr>cells_of := (cells_of m)(tail := free_head h)\<rparr>) span h1
      in if used h1 = 0 then span_park T purge m1 sl span
         else if \<not> has_flag (h_flags h1) FLAG_IN_PARTIAL then
           let (m2, hd2) = mem_link m1 (sl_head sl) span in (m2, sl\<lparr>sl_head := hd2\<rparr>, KeepSpan)
         else (m1, sl, KeepSpan))"

definition mrelease_inner :: "(addr \<Rightarrow> nat \<Rightarrow> bool) \<Rightarrow> nat \<Rightarrow> span_purge \<Rightarrow> span_mem \<Rightarrow> mspan_list \<Rightarrow> addr \<Rightarrow> addr \<Rightarrow>
    addr \<Rightarrow> nat \<Rightarrow> span_mem \<times> mspan_list \<times> span_fate \<times> span_effect list" where
  "mrelease_inner in_arena mclass purge m sl span head tail n =
     (let (m', sl', fate) = span_release_inner (medium_tier in_arena mclass) purge m sl span head tail n
      in (m', sl', fate, case fate of
            KeepSpan \<Rightarrow> []
          | UnmapSpan bytes \<Rightarrow>
              if in_arena span bytes then [MediumTableClear span (npages (hdr_at m' span))] else []))"

text \<open>\<open>brelease_inner\<close> finds the tail by walking the chain; the walk ends at the first null link.\<close>

partial_function (option) find_tail :: "cells \<Rightarrow> addr \<Rightarrow> addr option" where
  [code]: "find_tail m tail = (if m tail \<noteq> null then find_tail m (m tail) else Some tail)"

definition brelease_inner :: "nat \<Rightarrow> span_purge \<Rightarrow> span_mem \<Rightarrow> bspan_list \<Rightarrow> addr \<Rightarrow> addr \<Rightarrow> nat \<Rightarrow>
    (span_mem \<times> bspan_list \<times> span_fate \<times> span_effect list) option" where
  "brelease_inner bclass purge m sl span ch n =
     (case find_tail (cells_of m) ch of
        None \<Rightarrow> None
      | Some tail \<Rightarrow>
          let (m', sl', fate) = span_release_inner (big_tier bclass) purge m sl span ch tail n
          in Some (m', sl', fate, case fate of
               KeepSpan \<Rightarrow> []
             | UnmapSpan bytes \<Rightarrow> [BigTableClear span (npages (hdr_at m' span))]))"

text \<open>\<open>mact_fate\<close> and \<open>bact_fate\<close>: after the lock, arena slices are parked and mappings unmapped.\<close>

definition mact_fate :: "(addr \<Rightarrow> nat \<Rightarrow> bool) \<Rightarrow> addr \<Rightarrow> span_fate \<Rightarrow> span_effect list" where
  "mact_fate in_arena base fate =
     (case fate of
        KeepSpan \<Rightarrow> []
      | UnmapSpan bytes \<Rightarrow> if in_arena base bytes then [SpanArenaRelease base (bytes div PAGE_SIZE)]
                           else [SpanOsUnmap base bytes])"

definition bact_fate :: "(addr \<Rightarrow> nat \<Rightarrow> bool) \<Rightarrow> addr \<Rightarrow> span_fate \<Rightarrow> span_effect list" where
  "bact_fate in_arena base fate =
     (case fate of
        KeepSpan \<Rightarrow> []
      | UnmapSpan bytes \<Rightarrow> if in_arena base bytes then [SpanArenaRelease base (bytes div PAGE_SIZE)]
                           else [SpanOsUnmap base bytes])"

definition medium_release_blocks :: "(addr \<Rightarrow> nat \<Rightarrow> bool) \<Rightarrow> nat \<Rightarrow> span_purge \<Rightarrow> span_mem \<Rightarrow> mspan_list \<Rightarrow>
    addr \<Rightarrow> addr \<Rightarrow> addr \<Rightarrow> nat \<Rightarrow> span_mem \<times> mspan_list \<times> span_effect list" where
  "medium_release_blocks in_arena mclass purge m sl span head tail n =
     (let (m', sl', fate, effs) = mrelease_inner in_arena mclass purge m sl span head tail n
      in (m', sl', effs @ mact_fate in_arena span fate))"

definition big_release_blocks :: "(addr \<Rightarrow> nat \<Rightarrow> bool) \<Rightarrow> span_purge \<Rightarrow> span_mem \<Rightarrow> bspan_list \<Rightarrow>
    addr \<Rightarrow> addr \<Rightarrow> nat \<Rightarrow> (span_mem \<times> bspan_list \<times> span_effect list) option" where
  "big_release_blocks in_arena purge m sl span ch n =
     (case brelease_inner (h_class (hdr_at m span)) purge m sl span ch n of
        None \<Rightarrow> None
      | Some (m', sl', fate, effs) \<Rightarrow> Some (m', sl', effs @ bact_fate in_arena span fate))"

record mrelease_chunk =
  mc_span :: addr
  mc_head :: addr
  mc_tail :: addr
  mc_n :: nat

text \<open>
  \<open>MediumHeap::release_many\<close>: all chunks under one lock, then the fates in order.  The fates are kept
  in an array of 264 entries; a longer list of chunks would index out of it (\<open>None\<close>, a panic).
\<close>

fun mrelease_chunks :: "(addr \<Rightarrow> nat \<Rightarrow> bool) \<Rightarrow> nat \<Rightarrow> span_purge \<Rightarrow> span_mem \<times> mspan_list \<Rightarrow>
    mrelease_chunk list \<Rightarrow> (span_mem \<times> mspan_list) \<times> span_effect list \<times> (addr \<times> span_fate) list" where
  "mrelease_chunks in_arena mclass purge s [] = (s, [], [])"
| "mrelease_chunks in_arena mclass purge s (c # cs) =
     (let (m1, sl1, fate, effs) =
            mrelease_inner in_arena mclass purge (fst s) (snd s) (mc_span c) (mc_head c) (mc_tail c) (mc_n c);
          (s', effs', fates) = mrelease_chunks in_arena mclass purge (m1, sl1) cs
      in (s', effs @ effs', (mc_span c, fate) # fates))"

definition FATE_SLOTS :: nat where [const_simps]: "FATE_SLOTS = 264"

definition medium_release_many :: "(addr \<Rightarrow> nat \<Rightarrow> bool) \<Rightarrow> nat \<Rightarrow> span_purge \<Rightarrow> span_mem \<times> mspan_list \<Rightarrow>
    mrelease_chunk list \<Rightarrow> ((span_mem \<times> mspan_list) \<times> span_effect list) option" where
  "medium_release_many in_arena mclass purge s chunks =
     (if chunks = [] then Some (s, [])
      else if FATE_SLOTS < length chunks then None
      else let (s', effs, fates) = mrelease_chunks in_arena mclass purge s chunks
           in Some (s', effs @ concat (map (\<lambda>(p, f). mact_fate in_arena p f) fates)))"

section \<open>Taking\<close>

type_synonym span_take = "(span_mem \<times> span_list) \<times> addr \<times> nat \<times> bool"

definition srefill_class :: "span_tier \<Rightarrow> span_mem \<Rightarrow> span_list \<Rightarrow> addr \<Rightarrow> nat \<Rightarrow> bool \<Rightarrow> span_take option" where
  "srefill_class T m sl ch cnt v =
     (case sfill_from_list (t_batch T) m (sl_head sl) ch cnt v of
        None \<Rightarrow> None
      | Some ((m', lst'), ch', cnt', v') \<Rightarrow> Some ((m', sl\<lparr>sl_head := lst'\<rparr>), ch', cnt', v'))"

definition link_and_srefill :: "span_tier \<Rightarrow> span_mem \<Rightarrow> span_list \<Rightarrow> addr \<Rightarrow> addr \<Rightarrow> nat \<Rightarrow> bool \<Rightarrow> span_take option" where
  "link_and_srefill T m sl span ch cnt v =
     (let (m', lst') = mem_link m (sl_head sl) span in srefill_class T m' (sl\<lparr>sl_head := lst'\<rparr>) ch cnt v)"

definition span_take_empty :: "span_tier \<Rightarrow> span_take \<Rightarrow> span_take option" where
  "span_take_empty T s =
     (let ((m, sl), ch, cnt, v) = s in
      if cnt = 0 \<and> sl_empty sl \<noteq> null then
        let span = sl_empty sl; h = hdr_at m span; h1 = h\<lparr>h_next := null\<rparr>;
            sl1 = sl\<lparr>sl_empty := h_next h, sl_empty_count := sub_w 32 (sl_empty_count sl) 1,
                     sl_empty_bytes := sl_empty_bytes sl - span_mapped_bytes h1\<rparr>
        in link_and_srefill T (set_hdr m span h1) sl1 span ch cnt (v \<and> has_flag (h_flags h1) FLAG_VIRGIN)
      else Some s)"

definition span_take_cold :: "span_tier \<Rightarrow> span_take \<Rightarrow> span_take option" where
  "span_take_cold T s =
     (let ((m, sl), ch, cnt, v) = s in
      if cnt = 0 \<and> sl_cold_len sl > 0 then
        let cidx = sl_cold_len sl - 1; (base, pages) = sl_cold sl ! cidx;
            sl1 = sl\<lparr>sl_cold_len := cidx, sl_cold := (sl_cold sl)[cidx := (null, 0)],
                     sl_cold_bytes := sl_cold_bytes sl - pages * PAGE_SIZE\<rparr>
        in case t_init T (cells_of m) base pages of
             None \<Rightarrow> None
           | Some (c', h) \<Rightarrow>
               link_and_srefill T (set_hdr (m\<lparr>cells_of := c'\<rparr>) base
                   (h\<lparr>h_flags := clear_flag (h_flags h) FLAG_VIRGIN\<rparr>)) sl1 base ch cnt False
      else Some s)"

text \<open>The part of \<open>take_blocks\<close> under the first lock, and the fresh span linked under the second.\<close>

definition span_take_locked :: "span_tier \<Rightarrow> span_mem \<Rightarrow> span_list \<Rightarrow> span_take option" where
  "span_take_locked T m sl =
     do { s1 \<leftarrow> srefill_class T m sl null 0 True; s2 \<leftarrow> span_take_empty T s1; span_take_cold T s2 }"

definition span_take_fresh :: "span_tier \<Rightarrow> addr \<Rightarrow> nat \<Rightarrow> span_take \<Rightarrow> span_take option" where
  "span_take_fresh T raw pages s =
     (let ((m, sl), ch, cnt, v) = s in
      if cnt = 0 then
        if raw \<noteq> null then
          case t_init T (cells_of m) raw pages of
            None \<Rightarrow> None
          | Some (c', h) \<Rightarrow> link_and_srefill T (set_hdr (m\<lparr>cells_of := c'\<rparr>) raw h) sl raw ch cnt v
        else Some ((m, sl), ch, cnt, False)
      else Some s)"

definition span_take_blocks :: "span_tier \<Rightarrow> addr \<Rightarrow> nat \<Rightarrow> span_mem \<Rightarrow> span_list \<Rightarrow> span_take option" where
  "span_take_blocks T raw pages m sl = do { s \<leftarrow> span_take_locked T m sl; span_take_fresh T raw pages s }"

text \<open>
  The two \<open>take_blocks\<close>.  \<open>raw\<close> is what \<open>map_heap_pages\<close> (medium) or \<open>arena::commit\<close> (big) returns for
  the requested length when it is called; the side table is written for a span taken from it.
\<close>

definition medium_take_blocks :: "(addr \<Rightarrow> nat \<Rightarrow> bool) \<Rightarrow> nat \<Rightarrow> addr \<Rightarrow> span_mem \<Rightarrow> mspan_list \<Rightarrow>
    (span_take \<times> span_effect list) option" where
  "medium_take_blocks in_arena mclass raw m sl =
     do { s \<leftarrow> span_take_locked (medium_tier in_arena mclass) m sl;
          pages \<leftarrow> span_pages_for (MEDIUM_CLASSES ! mclass);
          s' \<leftarrow> span_take_fresh (medium_tier in_arena mclass) raw pages s;
          Some (s', if fst (snd (snd s)) = 0 \<and> raw \<noteq> null \<and> in_arena raw (pages * PAGE_SIZE)
                    then [MediumTableSet raw pages] else []) }"

definition big_take_blocks :: "nat \<Rightarrow> addr \<Rightarrow> span_mem \<Rightarrow> bspan_list \<Rightarrow> (span_take \<times> span_effect list) option" where
  "big_take_blocks bclass raw m sl =
     (let pages = big_span_pages_for (BIG_CLASSES ! bclass) in
      do { s \<leftarrow> span_take_locked (big_tier bclass) m sl;
           s' \<leftarrow> span_take_fresh (big_tier bclass) raw pages s;
           Some (s', if fst (snd (snd s)) = 0 \<and> raw \<noteq> null then [BigTableSet raw pages] else []) })"

section \<open>Spans and their blocks\<close>

text \<open>
  \<open>sp p\<close> is the ghost layout of span \<open>p\<close>: all its blocks.  They are linked at carving time, so what
  is not on the free list is in the hands of threads.
\<close>

definition span_range :: "addr \<Rightarrow> nat \<Rightarrow> addr set" where
  "span_range p n = {p ..< p + n * PAGE_SIZE}"

definition span_ok :: "cells \<Rightarrow> addr \<Rightarrow> span_master \<Rightarrow> addr list \<Rightarrow> addr list \<Rightarrow> bool" where
  "span_ok m p h bl fl \<longleftrightarrow> PAGE_SIZE dvd p \<and> 0 < p \<and> 0 < npages h \<and> npages h < 2 ^ 16
     \<and> distinct bl \<and> bl \<noteq> [] \<and> length bl < 2 ^ 32 \<and> set bl \<subseteq> span_range p (npages h) - {p}
     \<and> used h + free_count h = length bl
     \<and> chain m (free_head h) fl \<and> distinct fl \<and> length fl = free_count h \<and> set fl \<subseteq> set bl"

lemma span_live_card:
  assumes "span_ok m p h bl fl"
  shows "card (set bl - set fl) = used h"
proof -
  have "card (set bl - set fl) = card (set bl) - card (set fl)"
    using assms by (intro card_Diff_subset) (auto simp: span_ok_def)
  then show ?thesis using assms by (auto simp: span_ok_def distinct_card)
qed

lemma span_unused:
  assumes "span_ok m p h bl fl" "used h = 0"
  shows "set fl = set bl" "fl \<noteq> []"
proof -
  have "card (set fl) = card (set bl)" using assms by (auto simp: span_ok_def distinct_card)
  then show "set fl = set bl" using assms card_subset_eq [of "set bl" "set fl"] by (auto simp: span_ok_def)
  then show "fl \<noteq> []" using assms by (auto simp: span_ok_def)
qed

lemma span_ok_frame:
  assumes "span_ok m p h bl fl" "\<And>a. a \<in> set fl \<Longrightarrow> m' a = m a"
  shows "span_ok m' p h bl fl"
  using assms chain_cong [of fl m m' "free_head h"] by (auto simp: span_ok_def)

lemma same_body_npages:
  fixes h h' :: span_master
  assumes "same_body h h'"
  shows "npages h' = npages h"
proof -
  have "npages (h\<lparr>h_prev := 0, h_next := 0, h_flags := 0\<rparr>) = npages (h'\<lparr>h_prev := 0, h_next := 0, h_flags := 0\<rparr>)"
    using assms by (simp add: same_body_def)
  then show ?thesis by simp
qed

lemma span_ok_cong: "same_body h h' \<Longrightarrow> span_ok m p h bl fl = span_ok m p h' bl fl"
  using same_body_fields [of h h'] same_body_npages [of h h'] by (simp add: span_ok_def)

lemma span_ok_pop:
  assumes "span_ok m p h bl (b # fl)"
  shows "span_ok (m(b := c)) p (span_pop m h b) bl fl" "free_count (span_pop m h b) = length fl"
    "used (span_pop m h b) = used h + 1"
proof -
  have n: "used h + free_count h < 2 ^ 32" "free_count h = Suc (length fl)" using assms by (auto simp: span_ok_def)
  show c: "free_count (span_pop m h b) = length fl" "used (span_pop m h b) = used h + 1"
    using n by (simp_all add: span_pop_def)
  show "span_ok (m(b := c)) p (span_pop m h b) bl fl"
    using assms c n(2) by (auto simp: span_ok_def span_pop_def)
qed

section \<open>The refill loop\<close>

definition sfill_pre :: "(addr \<Rightarrow> addr list) \<Rightarrow> span_mem \<Rightarrow> addr \<Rightarrow> (addr \<Rightarrow> addr list) \<Rightarrow> addr list \<Rightarrow> addr \<Rightarrow>
    addr list \<Rightarrow> bool" where
  "sfill_pre sp m lst fl pl ch xs \<longleftrightarrow> partial_list (hdrs_of m) lst pl
     \<and> (\<forall>p \<in> set pl. span_ok (cells_of m) p (hdr_at m p) (sp p) (fl p) \<and> fl p \<noteq> [] \<and> set xs \<inter> set (fl p) = {})
     \<and> (\<forall>p \<in> set pl. \<forall>q \<in> set pl. p \<noteq> q \<longrightarrow> set (sp p) \<inter> set (sp q) = {})
     \<and> chain (cells_of m) ch xs"

definition span_filled :: "(addr \<Rightarrow> addr list) \<Rightarrow> span_mem \<Rightarrow> (addr \<Rightarrow> addr list) \<Rightarrow> span_mem \<Rightarrow>
    (addr \<Rightarrow> addr list) \<Rightarrow> addr list \<Rightarrow> addr list \<Rightarrow> addr \<Rightarrow> bool" where
  "span_filled sp m fl m' fl' pl' new p \<longleftrightarrow> span_ok (cells_of m') p (hdr_at m' p) (sp p) (fl' p)
     \<and> set (fl' p) = set (fl p) - set new
     \<and> h_class (hdr_at m' p) = h_class (hdr_at m p) \<and> npages (hdr_at m' p) = npages (hdr_at m p)
     \<and> (\<forall>n. n \<noteq> 0 \<longrightarrow> bit (h_flags (hdr_at m' p)) n = bit (h_flags (hdr_at m p)) n)
     \<and> (p \<in> set pl' \<longleftrightarrow> fl' p \<noteq> []) \<and> (p \<notin> set pl' \<longrightarrow> \<not> has_flag (h_flags (hdr_at m' p)) FLAG_IN_PARTIAL)"

definition sfilled :: "(addr \<Rightarrow> addr list) \<Rightarrow> span_mem \<Rightarrow> (addr \<Rightarrow> addr list) \<Rightarrow> addr list \<Rightarrow> addr list \<Rightarrow>
    span_mem \<Rightarrow> addr \<Rightarrow> (addr \<Rightarrow> addr list) \<Rightarrow> addr list \<Rightarrow> addr \<Rightarrow> addr list \<Rightarrow> bool" where
  "sfilled sp m fl pl xs m' lst' fl' pl' ch' new \<longleftrightarrow>
     partial_list (hdrs_of m') lst' pl' \<and> set pl' \<subseteq> set pl \<and> chain (cells_of m') ch' (new @ xs)
     \<and> distinct new \<and> set new \<subseteq> (\<Union>p \<in> set pl. set (fl p))
     \<and> (\<forall>p \<in> set pl. span_filled sp m fl m' fl' pl' new p)
     \<and> (\<forall>q. q \<notin> set pl \<longrightarrow> hdr_at m' q = hdr_at m q \<and> fl' q = fl q)
     \<and> (\<forall>a. a \<notin> (\<Union>p \<in> set pl. set (fl p)) \<longrightarrow> cells_of m' a = cells_of m a)"

definition sfill_result :: "nat \<Rightarrow> (addr \<Rightarrow> addr list) \<Rightarrow> span_mem \<Rightarrow> (addr \<Rightarrow> addr list) \<Rightarrow> addr list \<Rightarrow> addr list \<Rightarrow>
    bool \<Rightarrow> span_mem \<Rightarrow> addr \<Rightarrow> addr \<Rightarrow> bool \<Rightarrow> (addr \<Rightarrow> addr list) \<Rightarrow> addr list \<Rightarrow> addr list \<Rightarrow> bool" where
  "sfill_result cap sp m fl pl xs v m' lst' ch' v' fl' pl' new \<longleftrightarrow>
     length xs + length new \<le> cap \<and> sfilled sp m fl pl xs m' lst' fl' pl' ch' new
     \<and> (length xs + length new < cap \<longrightarrow> pl' = []) \<and> (pl \<noteq> [] \<and> length xs < cap \<longrightarrow> new \<noteq> [])
     \<and> (v' \<longrightarrow> v \<and> (\<forall>p \<in> set pl. set new \<inter> set (fl p) \<noteq> {} \<longrightarrow> has_flag (h_flags (hdr_at m p)) FLAG_VIRGIN))"

text \<open>One pop: the state after it, again a well-formed list, and what it did.\<close>

lemma sfill_pop:
  assumes pre: "sfill_pre sp m lst fl (p # rest) ch xs"
  defines "b \<equiv> free_head (hdr_at m p)"
  defines "h' \<equiv> span_pop (cells_of m) (hdr_at m p) b"
  defines "m1 \<equiv> set_hdr (m\<lparr>cells_of := (cells_of m)(b := ch)\<rparr>) p h'"
  defines "s \<equiv> (if free_count h' = 0 then fst (mem_unlink m1 lst p) else (m1, lst))"
  defines "pl1 \<equiv> (if free_count h' = 0 then rest else p # rest)"
  shows "b \<noteq> 0 \<and> sfill_pre sp (fst s) (snd s) (fl(p := tl (fl p))) pl1 b (b # xs)
    \<and> sfilled sp m fl (p # rest) xs (fst s) (snd s) (fl(p := tl (fl p))) pl1 b [b]"
proof -
  have ok: "span_ok (cells_of m) p (hdr_at m p) (sp p) (fl p)" and ne: "fl p \<noteq> []"
    and pl: "partial_list (hdrs_of m) lst (p # rest)" and ch: "chain (cells_of m) ch xs"
    and dx: "\<And>q. q \<in> set (p # rest) \<Longrightarrow> set xs \<inter> set (fl q) = {}"
    and okq: "\<And>q. q \<in> set (p # rest) \<Longrightarrow> span_ok (cells_of m) q (hdr_at m q) (sp q) (fl q) \<and> fl q \<noteq> []"
    using pre by (auto simp: sfill_pre_def)
  have dj: "set (sp q) \<inter> set (sp r) = {}" if "q \<in> set (p # rest)" "r \<in> set (p # rest)" "q \<noteq> r" for q r
    using pre that unfolding sfill_pre_def by blast
  obtain fl1 where fl: "fl p = b # fl1" "b \<noteq> 0"
    using ok ne by (cases "fl p") (auto simp: span_ok_def b_def)
  have prest: "p \<notin> set rest" using pl by (simp add: partial_list_def)
  note pop = span_ok_pop [OF ok [unfolded fl(1)]]
  have bfl1: "b \<notin> set fl1" using ok fl by (simp add: span_ok_def)
  have sub: "set (fl q) \<subseteq> set (sp q)" if "q \<in> set (p # rest)" for q using okq [OF that] by (simp add: span_ok_def)
  have bq: "b \<notin> set (fl q)" if "q \<in> set rest" for q
    using sub [of p] sub [of q] dj [of p q] that prest fl(1) by fastforce
  have pl1: "partial_list (hdrs_of m1) lst (p # rest)"
    using pl by (auto simp: m1_def h'_def span_pop_def intro!: partial_list_upd)
  obtain m' lst' where s: "s = (m', lst')" "partial_list (hdrs_of m') lst' pl1" "cells_of m' = cells_of m1"
    "relinked p (hdrs_of m1) (hdrs_of m')" "\<And>q. q \<notin> set (p # rest) \<Longrightarrow> hdr_at m' q = hdr_at m1 q"
    "free_count h' = 0 \<Longrightarrow> \<not> has_flag (h_flags (hdr_at m' p)) FLAG_IN_PARTIAL"
  proof (cases "free_count h' = 0")
    case True
    obtain hh l2 where u: "unlink_partial (hdrs_of m1, lst) p = ((hh, l2), True)"
      "partial_list hh l2 (remove1 p (p # rest))" "relinked p (hdrs_of m1) hh"
      "\<not> has_flag (h_flags (hh p)) FLAG_IN_PARTIAL" "\<forall>q. q \<notin> set (p # rest) \<longrightarrow> hh q = hdr_at m1 q"
      using unlink_partial_list [OF pl1, of p] by auto
    show thesis by (rule that [of "m1\<lparr>hdrs_of := hh\<rparr>" l2]) (use u True in \<open>auto simp: s_def pl1_def mem_unlink_def\<close>)
  next
    case False
    show thesis by (rule that [of m1 lst]) (use pl1 False in \<open>auto simp: s_def pl1_def relinked_def\<close>)
  qed
  have body: "same_body (hdr_at m1 q) (hdr_at m' q)"
    "n \<noteq> 0 \<Longrightarrow> bit (h_flags (hdr_at m' q)) n = bit (h_flags (hdr_at m1 q)) n"
    "q \<noteq> p \<Longrightarrow> h_flags (hdr_at m' q) = h_flags (hdr_at m1 q)" for q n
    using s(4) by (auto simp: relinked_def)
  have okp: "span_ok (cells_of m') p (hdr_at m' p) (sp p) fl1"
    using pop(1) [of ch] span_ok_cong [OF body(1) [of p]] s(3) by (simp add: m1_def h'_def)
  have okr: "span_ok (cells_of m') q (hdr_at m' q) (sp q) (fl q)" if "q \<in> set rest" for q
  proof -
    have "span_ok (cells_of m1) q (hdr_at m q) (sp q) (fl q)"
      by (rule span_ok_frame [of "cells_of m"]) (use okq [of q] bq [OF that] that in \<open>auto simp: m1_def\<close>)
    moreover have "q \<noteq> p" using that prest by blast
    then have "hdr_at m1 q = hdr_at m q" by (simp add: m1_def)
    ultimately show ?thesis using span_ok_cong [OF body(1) [of q]] s(3) by simp
  qed
  have cnt: "free_count h' = length fl1" using pop(2) by (simp add: h'_def fl(1))
  have same: "h_class (hdr_at m' q) = h_class (hdr_at m q) \<and> npages (hdr_at m' q) = npages (hdr_at m q)
      \<and> (\<forall>n. n \<noteq> 0 \<longrightarrow> bit (h_flags (hdr_at m' q)) n = bit (h_flags (hdr_at m q)) n)" for q
    using same_body_fields(4) [OF body(1) [of q]] same_body_npages [OF body(1) [of q]] body(2) [of _ q]
    by (auto simp: m1_def h'_def span_pop_def)
  have P1: "sfill_pre sp m' lst' (fl(p := fl1)) pl1 b (b # xs)"
  proof -
    have "chain (cells_of m') b (b # xs)"
      using ch fl dx [of p] s(3) by (simp add: m1_def)
    moreover have "set pl1 \<subseteq> set (p # rest)" by (auto simp: pl1_def)
    moreover have "span_ok (cells_of m') q (hdr_at m' q) (sp q) ((fl(p := fl1)) q) \<and> (fl(p := fl1)) q \<noteq> []
        \<and> set (b # xs) \<inter> set ((fl(p := fl1)) q) = {}" if "q \<in> set pl1" for q
    proof (cases "q = p")
      case True
      then have "fl1 \<noteq> []" using that prest cnt by (auto simp: pl1_def split: if_splits)
      then show ?thesis using okp True bfl1 dx [of p] fl(1) by auto
    next
      case False
      then have "q \<in> set rest" using that by (auto simp: pl1_def split: if_splits)
      then show ?thesis using okr okq [of q] bq [of q] dx [of q] False by auto
    qed
    ultimately show ?thesis using s(2) dj unfolding sfill_pre_def by blast
  qed
  have P2: "span_filled sp m fl m' (fl(p := fl1)) pl1 [b] q" if "q \<in> set (p # rest)" for q
  proof (cases "q = p")
    case True
    have "p \<in> set pl1 \<longleftrightarrow> fl1 \<noteq> []" using prest cnt by (simp add: pl1_def)
    moreover have "p \<notin> set pl1 \<longrightarrow> \<not> has_flag (h_flags (hdr_at m' p)) FLAG_IN_PARTIAL"
      using s(6) by (auto simp: pl1_def split: if_splits)
    ultimately show ?thesis using True okp same fl(1) bfl1 by (auto simp: span_filled_def)
  next
    case False
    then have q: "q \<in> set rest" using that by simp
    then have "q \<in> set pl1" by (simp add: pl1_def)
    then show ?thesis using False okr [OF q] same okq [of q] bq [OF q] q by (auto simp: span_filled_def)
  qed
  have "sfilled sp m fl (p # rest) xs m' lst' (fl(p := fl1)) pl1 b [b]"
    unfolding sfilled_def
  proof (intro conjI)
    show "\<forall>q \<in> set (p # rest). span_filled sp m fl m' (fl(p := fl1)) pl1 [b] q" using P2 by blast
    show "\<forall>q. q \<notin> set (p # rest) \<longrightarrow> hdr_at m' q = hdr_at m q \<and> (fl(p := fl1)) q = fl q"
      using s(5) by (auto simp: m1_def)
    show "\<forall>a. a \<notin> (\<Union>q \<in> set (p # rest). set (fl q)) \<longrightarrow> cells_of m' a = cells_of m a"
      using s(3) fl(1) by (auto simp: m1_def)
    show "chain (cells_of m') b ([b] @ xs)" using P1 by (simp add: sfill_pre_def)
  qed (use s(2) fl(1) in \<open>auto simp: pl1_def\<close>)
  then show ?thesis using P1 fl s(1) by simp
qed

text \<open>Two refills in a row compose.\<close>

lemma sfilled_trans:
  assumes a: "sfilled sp m fl pl xs m1 lst1 fl1 pl1 ch1 new1" "\<forall>p \<in> set pl. span_ok (cells_of m) p (hdr_at m p) (sp p) (fl p)"
    and b: "sfilled sp m1 fl1 pl1 (new1 @ xs) m' lst' fl' pl' ch' new"
  shows "sfilled sp m fl pl xs m' lst' fl' pl' ch' (new @ new1)"
proof -
  have sub: "set pl' \<subseteq> set pl1" "set pl1 \<subseteq> set pl" using a b by (auto simp: sfilled_def)
  have f1: "span_filled sp m fl m1 fl1 pl1 new1 p" if "p \<in> set pl" for p using a that by (simp add: sfilled_def)
  have f2: "span_filled sp m1 fl1 m' fl' pl' new p" if "p \<in> set pl1" for p using b that by (simp add: sfilled_def)
  have le: "set (fl1 p) \<subseteq> set (fl p)" "set (fl1 p) \<inter> set new1 = {}" if "p \<in> set pl" for p
    using f1 [OF that] by (auto simp: span_filled_def)
  have frame2: "hdr_at m' p = hdr_at m1 p" "fl' p = fl1 p" if "p \<notin> set pl1" for p
    using b that by (auto simp: sfilled_def)
  have cells2: "cells_of m' a = cells_of m1 a" if "a \<notin> (\<Union>p \<in> set pl1. set (fl1 p))" for a
    using b that by (simp add: sfilled_def)
  have new: "set new \<subseteq> (\<Union>p \<in> set pl1. set (fl1 p))" "set new1 \<subseteq> (\<Union>p \<in> set pl. set (fl p))"
    using a b by (auto simp: sfilled_def)
  have P: "span_filled sp m fl m' fl' pl' (new @ new1) p" if p: "p \<in> set pl" for p
  proof (cases "p \<in> set pl1")
    case True
    then show ?thesis using f1 [OF p] f2 [OF True] by (auto simp: span_filled_def)
  next
    case False
    have e: "fl1 p = []" using f1 [OF p] False by (simp add: span_filled_def)
    have "span_ok (cells_of m') p (hdr_at m1 p) (sp p) []"
      using f1 [OF p] e span_ok_frame [of "cells_of m1" p "hdr_at m1 p" "sp p" "[]" "cells_of m'"]
      by (simp add: span_filled_def)
    moreover have "p \<notin> set pl'" using False sub(1) by blast
    moreover have "set (fl p) - set (new @ new1) = {}" using f1 [OF p] e by (auto simp: span_filled_def)
    ultimately show ?thesis using f1 [OF p] False e frame2 [OF False] by (simp add: span_filled_def)
  qed
  have disj: "set new \<inter> set new1 = {}" using new(1) le sub(2) by blast
  show ?thesis
    unfolding sfilled_def
  proof (intro conjI)
    show "\<forall>p \<in> set pl. span_filled sp m fl m' fl' pl' (new @ new1) p" using P by blast
    show "distinct (new @ new1)" using a b disj by (simp add: sfilled_def)
    show "set (new @ new1) \<subseteq> (\<Union>p \<in> set pl. set (fl p))"
    proof -
      have "(\<Union>p \<in> set pl1. set (fl1 p)) \<subseteq> (\<Union>p \<in> set pl. set (fl p))" using le(1) sub(2) by blast
      then show ?thesis using new by simp
    qed
    show "\<forall>q. q \<notin> set pl \<longrightarrow> hdr_at m' q = hdr_at m q \<and> fl' q = fl q"
      using a frame2 sub(2) unfolding sfilled_def by (metis subsetD)
    show "\<forall>a. a \<notin> (\<Union>p \<in> set pl. set (fl p)) \<longrightarrow> cells_of m' a = cells_of m a"
    proof (intro allI impI)
      fix x assume x: "x \<notin> (\<Union>p \<in> set pl. set (fl p))"
      then have "cells_of m' x = cells_of m1 x" using le(1) sub(2) by (intro cells2) blast
      then show "cells_of m' x = cells_of m x" using a x by (simp add: sfilled_def)
    qed
  qed (use b sub in \<open>auto simp: sfilled_def\<close>)
qed

lemma sfill_from_list_correct:
  assumes "sfill_pre sp m lst fl pl ch xs" "length xs \<le> cap"
  shows "\<exists>m' lst' ch' v' fl' pl' new.
    sfill_from_list cap m lst ch (length xs) v = Some ((m', lst'), ch', length xs + length new, v')
    \<and> sfill_result cap sp m fl pl xs v m' lst' ch' v' fl' pl' new"
  using assms
proof (induction "cap - length xs" arbitrary: m lst fl pl ch xs v)
  case 0
  have "sfill_result cap sp m fl pl xs v m lst ch v fl pl []"
    using 0 by (auto simp: sfill_result_def sfilled_def span_filled_def sfill_pre_def partial_list_def)
  moreover have "sfill_from_list cap m lst ch (length xs) v = Some ((m, lst), ch, length xs + length [], v)"
    using 0 by (subst sfill_from_list.simps) simp
  ultimately show ?case by blast
next
  case (Suc k)
  have lt: "length xs < cap" using Suc(2) by simp
  show ?case
  proof (cases pl)
    case Nil
    have "lst = 0" using Suc.prems(1) Nil by (simp add: sfill_pre_def partial_list_def)
    then have "sfill_from_list cap m lst ch (length xs) v = Some ((m, lst), ch, length xs + length [], v)"
      using lt by (subst sfill_from_list.simps) simp
    moreover have "sfill_result cap sp m fl pl xs v m lst ch v fl [] []"
      using Suc.prems Nil by (simp add: sfill_result_def sfilled_def sfill_pre_def)
    ultimately show ?thesis by blast
  next
    case (Cons p rest)
    define b where "b = free_head (hdr_at m p)"
    define h' where "h' = span_pop (cells_of m) (hdr_at m p) b"
    define m1 where "m1 = set_hdr (m\<lparr>cells_of := (cells_of m)(b := ch)\<rparr>) p h'"
    define s where "s = (if free_count h' = 0 then fst (mem_unlink m1 lst p) else (m1, lst))"
    define pl1 where "pl1 = (if free_count h' = 0 then rest else p # rest)"
    define fl1 where "fl1 = fl(p := tl (fl p))"
    define v1 where "v1 = (v \<and> has_flag (h_flags (hdr_at m p)) FLAG_VIRGIN)"
    have lst: "lst = p" "p \<noteq> 0" using Suc.prems(1) Cons by (auto simp: sfill_pre_def partial_list_def)
    note st = sfill_pop [OF Suc.prems(1) [unfolded Cons], folded b_def, folded h'_def, folded m1_def,
        folded s_def pl1_def fl1_def]
    have pre1: "sfill_pre sp (fst s) (snd s) fl1 pl1 b (b # xs)"
      and one: "sfilled sp m fl (p # rest) xs (fst s) (snd s) fl1 pl1 b [b]" and bn: "b \<noteq> 0"
      using st by simp_all
    have step: "sfill_from_list cap m lst ch (length xs) v = sfill_from_list cap (fst s) (snd s) b (length (b # xs)) v1"
      using lt lst bn by (subst sfill_from_list.simps) (simp add: Let_def b_def h'_def m1_def s_def v1_def)
    have k: "k = cap - length (b # xs)" "length (b # xs) \<le> cap" using Suc(2) lt by simp_all
    obtain m' lst' ch' v' fl' pl' new where t:
      "sfill_from_list cap (fst s) (snd s) b (length (b # xs)) v1 = Some ((m', lst'), ch', length (b # xs) + length new, v')"
      "sfill_result cap sp (fst s) fl1 pl1 (b # xs) v1 m' lst' ch' v' fl' pl' new"
      using Suc.hyps(1) [OF k(1) pre1 k(2), of v1] by blast
    have okpl: "\<forall>p \<in> set (p # rest). span_ok (cells_of m) p (hdr_at m p) (sp p) (fl p)"
      using Suc.prems(1) Cons by (auto simp: sfill_pre_def)
    have "sfilled sp m fl (p # rest) xs m' lst' fl' pl' ch' (new @ [b])"
      by (rule sfilled_trans [OF one okpl]) (use t(2) in \<open>simp add: sfill_result_def\<close>)
    moreover have "has_flag (h_flags (hdr_at m q)) FLAG_VIRGIN"
      if "v'" "q \<in> set (p # rest)" "set (new @ [b]) \<inter> set (fl q) \<noteq> {}" for q
    proof (cases "q = p")
      case True
      then show ?thesis using t(2) that(1) by (simp add: sfill_result_def v1_def)
    next
      case False
      have q: "q \<in> set pl1" using False that(2) by (auto simp: pl1_def)
      have f: "span_filled sp m fl (fst s) fl1 pl1 [b] q"
        using one that(2) unfolding sfilled_def by blast
      have "fl1 q = fl q" using False by (simp add: fl1_def)
      then have "b \<notin> set (fl q)" using f by (auto simp: span_filled_def)
      then have "set new \<inter> set (fl1 q) \<noteq> {}" using that(3) \<open>fl1 q = fl q\<close> by auto
      then have "has_flag (h_flags (hdr_at (fst s) q)) FLAG_VIRGIN"
        using t(2) that(1) q by (simp add: sfill_result_def)
      then show ?thesis using f by (simp add: span_filled_def flag_bits)
    qed
    ultimately have "sfill_result cap sp m fl pl xs v m' lst' ch' v' fl' pl' (new @ [b])"
      using t(2) Cons by (auto simp: sfill_result_def v1_def)
    moreover have "sfill_from_list cap m lst ch (length xs) v = Some ((m', lst'), ch', length xs + length (new @ [b]), v')"
      using step t(1) by simp
    ultimately show ?thesis by blast
  qed
qed

end
