(* ===== verification/Span_Class.thy ===== *)
theory Span_Class
  imports Span_Heap
begin

text \<open>
  The invariant of one class of a span heap and the ownership theorems of \<open>take_blocks\<close> and
  \<open>release_blocks\<close>, for the medium and the big tier of \<open>src/src/heap.rs\<close>.

  What both tiers need from carving is the locale \<open>span_shape\<close>: every span of a class has the same
  number of pages, and \<open>t_init\<close> turns a mapping of that length into a span all of whose blocks are on
  its free list, writing nothing outside the mapping.  It is interpreted for the medium tier (arena
  and legacy carving) and for the big tier at the end.
\<close>

section \<open>The class invariant\<close>

text \<open>
  Ghost arguments as for pages: the spans of the partial list \<open>pl\<close>, of the empty list \<open>el\<close>, the full
  spans \<open>full\<close>, the free lists \<open>fl\<close>, and \<open>dirty\<close>, the blocks handed back since their span was mapped.
\<close>

definition span_inv :: "nat \<Rightarrow> nat \<Rightarrow> (addr \<Rightarrow> addr list) \<Rightarrow> span_mem \<Rightarrow> (addr \<Rightarrow> addr list) \<Rightarrow> addr set \<Rightarrow> addr \<Rightarrow> bool" where
  "span_inv pages cls layout m fl dirty p \<longleftrightarrow> span_ok (cells_of m) p (hdr_at m p) (layout p) (fl p)
     \<and> npages (hdr_at m p) = pages \<and> h_class (hdr_at m p) = cls
     \<and> (has_flag (h_flags (hdr_at m p)) FLAG_VIRGIN \<longrightarrow> dirty \<inter> set (layout p) = {})"

definition cold_spans :: "span_list \<Rightarrow> (addr \<times> nat) list" where
  "cold_spans sl = take (sl_cold_len sl) (sl_cold sl)"

definition apart :: "nat \<Rightarrow> addr set \<Rightarrow> bool" where
  "apart pages A \<longleftrightarrow> (\<forall>p \<in> A. \<forall>q \<in> A. p \<noteq> q \<longrightarrow> span_range p pages \<inter> span_range q pages = {})"

definition cold_spans_ok :: "span_tier \<Rightarrow> nat \<Rightarrow> span_list \<Rightarrow> bool" where
  "cold_spans_ok T pages sl \<longleftrightarrow> length (sl_cold sl) = t_cold_slots T \<and> sl_cold_len sl \<le> t_cold_slots T
     \<and> sl_cold_bytes sl = sl_cold_len sl * (pages * PAGE_SIZE)
     \<and> (\<forall>(b, n) \<in> set (cold_spans sl). n = pages \<and> PAGE_SIZE dvd b \<and> 0 < b)"

definition span_class_inv :: "span_tier \<Rightarrow> nat \<Rightarrow> nat \<Rightarrow> (addr \<Rightarrow> addr list) \<Rightarrow> span_mem \<Rightarrow> span_list \<Rightarrow>
    addr list \<Rightarrow> addr list \<Rightarrow> addr set \<Rightarrow> (addr \<Rightarrow> addr list) \<Rightarrow> addr set \<Rightarrow> bool" where
  "span_class_inv T pages cls layout m sl pl el full fl dirty \<longleftrightarrow>
     partial_list (hdrs_of m) (sl_head sl) pl \<and> elist (hdrs_of m) (sl_empty sl) el
     \<and> distinct (pl @ el @ map fst (cold_spans sl)) \<and> set (pl @ el @ map fst (cold_spans sl)) \<inter> full = {}
     \<and> apart pages (set (pl @ el @ map fst (cold_spans sl)) \<union> full)
     \<and> sl_empty_count sl = length el \<and> length el \<le> t_empty_count T
     \<and> sl_empty_bytes sl = length el * (pages * PAGE_SIZE) \<and> cold_spans_ok T pages sl
     \<and> (\<forall>p \<in> set pl \<union> set el \<union> full. span_inv pages cls layout m fl dirty p)
     \<and> (\<forall>p \<in> set pl. fl p \<noteq> [])
     \<and> (\<forall>p \<in> set el. used (hdr_at m p) = 0 \<and> \<not> has_flag (h_flags (hdr_at m p)) FLAG_IN_PARTIAL)
     \<and> (\<forall>p \<in> full. fl p = [] \<and> \<not> has_flag (h_flags (hdr_at m p)) FLAG_IN_PARTIAL)"

text \<open>The blocks in the hands of threads.\<close>

definition span_live :: "(addr \<Rightarrow> addr list) \<Rightarrow> (addr \<Rightarrow> addr list) \<Rightarrow> addr set \<Rightarrow> addr set" where
  "span_live layout fl ps = (\<Union>p \<in> ps. set (layout p) - set (fl p))"

lemma span_live_insert: "span_live layout fl (insert p ps) = (set (layout p) - set (fl p)) \<union> span_live layout fl ps"
  by (simp add: span_live_def)

lemma span_live_cong: "(\<And>p. p \<in> ps \<Longrightarrow> set (fl' p) = set (fl p)) \<Longrightarrow> span_live layout fl' ps = span_live layout fl ps"
  by (simp add: span_live_def)

lemma span_inv_blocks:
  assumes "span_inv pages cls layout m fl dirty p"
  shows "set (fl p) \<subseteq> set (layout p)" "set (layout p) \<subseteq> span_range p pages" "p \<in> span_range p pages" "0 < p"
  using assms by (auto simp: span_inv_def span_ok_def span_range_def const_simps)

lemma span_inv_frame:
  assumes "span_inv pages cls layout m fl dirty p" "hdr_at m' p = hdr_at m p" "fl' p = fl p"
    "\<And>a. a \<in> set (fl p) \<Longrightarrow> cells_of m' a = cells_of m a"
  shows "span_inv pages cls layout m' fl' dirty p"
  using assms span_ok_frame [of "cells_of m" p "hdr_at m p" "layout p" "fl p" "cells_of m'"]
  by (simp add: span_inv_def)

lemma span_inv_dirty: "span_inv pages cls layout m fl dirty p \<Longrightarrow> dirty' \<subseteq> dirty \<Longrightarrow> span_inv pages cls layout m fl dirty' p"
  unfolding span_inv_def by blast

lemma span_class_inv_dirty:
  "span_class_inv T pages cls layout m sl pl el full fl dirty \<Longrightarrow> dirty' \<subseteq> dirty \<Longrightarrow>
   span_class_inv T pages cls layout m sl pl el full fl dirty'"
  unfolding span_class_inv_def using span_inv_dirty by blast

lemma apart_mono: "apart pages A \<Longrightarrow> B \<subseteq> A \<Longrightarrow> apart pages B"
  unfolding apart_def by blast

lemma apartD: "apart pages A \<Longrightarrow> p \<in> A \<Longrightarrow> q \<in> A \<Longrightarrow> p \<noteq> q \<Longrightarrow> span_range p pages \<inter> span_range q pages = {}"
  unfolding apart_def by blast

text \<open>The class depends on the memory only through its own headers and free blocks.\<close>

lemma span_class_inv_mem:
  assumes inv: "span_class_inv T pages cls layout m sl pl el full fl dirty"
    and same: "\<And>q. q \<in> set pl \<union> set el \<union> full \<Longrightarrow> hdr_at m' q = hdr_at m q \<and> fl' q = fl q"
    and cells: "\<And>q a. q \<in> set pl \<union> set el \<union> full \<Longrightarrow> a \<in> set (fl q) \<Longrightarrow> cells_of m' a = cells_of m a"
  shows "span_class_inv T pages cls layout m' sl pl el full fl' dirty"
proof -
  have "span_inv pages cls layout m' fl' dirty q" if "q \<in> set pl \<union> set el \<union> full" for q
    by (rule span_inv_frame [of _ _ _ m fl]) (use inv same cells that in \<open>auto simp: span_class_inv_def\<close>)
  moreover have "elist (hdrs_of m') (sl_empty sl) el"
    using inv same by (subst elist_cong [of el _ "hdrs_of m"]) (auto simp: span_class_inv_def)
  moreover have "partial_list (hdrs_of m') (sl_head sl) pl"
  proof -
    have "dseg (hdrs_of m') 0 (sl_head sl) pl 0"
      using inv same by (subst dseg_cong [of pl _ "hdrs_of m"]) (auto simp: span_class_inv_def partial_list_def)
    then show ?thesis using inv same by (auto simp: span_class_inv_def partial_list_def)
  qed
  ultimately show ?thesis using inv same unfolding span_class_inv_def by auto
qed

lemma span_inv_relinked:
  assumes "relinked p (hdrs_of m) h'" "span_inv pages cls layout m fl dirty q"
  shows "span_inv pages cls layout (m\<lparr>hdrs_of := h'\<rparr>) fl dirty q" "used (h' q) = used (hdr_at m q)"
proof -
  have b: "same_body (hdr_at m q) (h' q)" and f: "bit (h_flags (h' q)) 1 = bit (h_flags (hdr_at m q)) 1"
    using assms(1) by (auto simp: relinked_def)
  show "used (h' q) = used (hdr_at m q)" by (rule same_body_fields(3) [OF b])
  show "span_inv pages cls layout (m\<lparr>hdrs_of := h'\<rparr>) fl dirty q"
    using assms(2) span_ok_cong [OF b] f same_body_fields(4) [OF b] same_body_npages [OF b]
    by (simp add: span_inv_def flag_bits)
qed

section \<open>Refilling keeps the invariant\<close>

text \<open>
  The address space of a class: a refill moves spans between the lists but loses none (\<open>S\<close> below).
\<close>

definition class_spans :: "span_list \<Rightarrow> addr list \<Rightarrow> addr list \<Rightarrow> addr set \<Rightarrow> addr set" where
  "class_spans sl pl el full = set (pl @ el @ map fst (cold_spans sl)) \<union> full"

definition span_refilled :: "span_tier \<Rightarrow> nat \<Rightarrow> nat \<Rightarrow> (addr \<Rightarrow> addr list) \<Rightarrow> addr list \<Rightarrow> addr set \<Rightarrow> addr set \<Rightarrow>
    cells \<Rightarrow> addr set \<Rightarrow> span_mem \<Rightarrow> span_list \<Rightarrow> addr \<Rightarrow> addr list \<Rightarrow> addr list \<Rightarrow> addr set \<Rightarrow>
    (addr \<Rightarrow> addr list) \<Rightarrow> bool" where
  "span_refilled T pages cls layout new S lv c dirty m' sl' ch' pl' el' full' fl' \<longleftrightarrow>
     span_class_inv T pages cls layout m' sl' pl' el' full' fl' dirty \<and> chain (cells_of m') ch' new
     \<and> distinct new \<and> length new \<le> t_batch T \<and> set new \<inter> lv = {}
     \<and> span_live layout fl' (set pl' \<union> set el' \<union> full') = lv \<union> set new \<and> class_spans sl' pl' el' full' = S
     \<and> (\<forall>a \<in> lv. cells_of m' a = c a)"

lemma srefill_class_correct:
  assumes inv: "span_class_inv T pages cls layout m sl pl el full fl dirty" and batch: "0 < t_batch T"
  defines "lv \<equiv> span_live layout fl (set pl \<union> set el \<union> full)" and "S \<equiv> class_spans sl pl el full"
  obtains m' lst' ch' v' fl' pl' full' new where
    "srefill_class T m sl null 0 v = Some ((m', sl\<lparr>sl_head := lst'\<rparr>), ch', length new, v')"
    "span_refilled T pages cls layout new S lv (cells_of m) dirty m' (sl\<lparr>sl_head := lst'\<rparr>) ch' pl' el full' fl'"
    "pl \<noteq> [] \<Longrightarrow> new \<noteq> []" "v' \<Longrightarrow> v \<and> set new \<inter> dirty = {}"
    "new = [] \<Longrightarrow> m' = m \<and> lst' = sl_head sl \<and> pl = [] \<and> v' = v"
proof -
  have pg: "\<And>p. p \<in> set pl \<union> set el \<union> full \<Longrightarrow> span_inv pages cls layout m fl dirty p"
    and ok: "\<And>p. p \<in> set pl \<union> set el \<union> full \<Longrightarrow> span_ok (cells_of m) p (hdr_at m p) (layout p) (fl p)"
    using inv by (auto simp: span_class_inv_def span_inv_def)
  have dj: "set (layout p) \<inter> set (layout q) = {}"
    if "p \<in> set pl \<union> set el \<union> full" "q \<in> set pl \<union> set el \<union> full" "p \<noteq> q" for p q
  proof -
    have "apart pages (set pl \<union> set el \<union> full)" using inv apart_mono by (fastforce simp: span_class_inv_def)
    then have "span_range p pages \<inter> span_range q pages = {}" using apartD that by blast
    then show ?thesis using span_inv_blocks(2) [OF pg] that by blast
  qed
  have pre: "sfill_pre layout m (sl_head sl) fl pl null []"
    using inv ok dj by (auto simp: sfill_pre_def span_class_inv_def)
  obtain m' lst' ch' v' fl' pl' new where
    run: "sfill_from_list (t_batch T) m (sl_head sl) null 0 v = Some ((m', lst'), ch', length new, v')"
    and res: "sfill_result (t_batch T) layout m fl pl [] v m' lst' ch' v' fl' pl' new"
    using sfill_from_list_correct [OF pre, of "t_batch T" v] by auto
  have rf: "sfilled layout m fl pl [] m' lst' fl' pl' ch' new" using res by (simp add: sfill_result_def)
  define full' where "full' = full \<union> (set pl - set pl')"
  have sub: "set pl' \<subseteq> set pl" "set new \<subseteq> (\<Union>p \<in> set pl. set (fl p))" using rf by (auto simp: sfilled_def)
  have out: "hdr_at m' q = hdr_at m q" "fl' q = fl q" if "q \<notin> set pl" for q using rf that by (auto simp: sfilled_def)
  have frame: "cells_of m' a = cells_of m a" if "a \<notin> (\<Union>p \<in> set pl. set (fl p))" for a
    using rf that by (simp add: sfilled_def)
  have disj: "q \<notin> set pl" if "q \<in> set el \<union> full" for q using inv that by (auto simp: span_class_inv_def)
  have flsub: "set (fl p) \<subseteq> set (layout p)" if "p \<in> set pl \<union> set el \<union> full" for p
    using span_inv_blocks(1) [OF pg [OF that]] .
  have filled: "span_filled layout m fl m' fl' pl' new p" if "p \<in> set pl" for p using rf that by (simp add: sfilled_def)
  have in_pl: "span_inv pages cls layout m' fl' dirty p" if "p \<in> set pl" for p
    using filled [OF that] pg [of p] that by (simp add: span_filled_def span_inv_def flag_bits)
  have in_rest: "span_inv pages cls layout m' fl' dirty q" if q: "q \<in> set el \<union> full" for q
  proof (rule span_inv_frame [OF _ out(1) out(2)])
    fix a assume a: "a \<in> set (fl q)"
    have "a \<notin> set (fl p)" if p: "p \<in> set pl" for p
      using dj [of p q] flsub [of p] flsub [of q] disj [OF q] p q a by fastforce
    then show "cells_of m' a = cells_of m a" by (intro frame) blast
  qed (use q pg disj in auto)
  have owned: "set pl' \<union> set el \<union> full' = set pl \<union> set el \<union> full" using sub(1) by (auto simp: full'_def)
  have inv': "span_class_inv T pages cls layout m' (sl\<lparr>sl_head := lst'\<rparr>) pl' el full' fl' dirty"
  proof -
    have inv0: "set pl \<inter> (set el \<union> set (map fst (cold_spans sl))) = {}"
      "(set pl \<union> (set el \<union> set (map fst (cold_spans sl)))) \<inter> full = {}"
      using inv unfolding span_class_inv_def distinct_append set_append by simp_all
    have "elist (hdrs_of m') (sl_empty sl) el"
      using inv out(1) disj by (subst elist_cong [of el _ "hdrs_of m"]) (auto simp: span_class_inv_def)
    moreover have "partial_list (hdrs_of m') lst' pl'" using rf by (simp add: sfilled_def)
    moreover from this have "distinct (pl' @ el @ map fst (cold_spans sl))"
      using inv sub(1) by (auto simp: span_class_inv_def partial_list_def)
    moreover have "set (pl' @ el @ map fst (cold_spans sl)) \<inter> full' = {}"
      using inv0 sub(1) unfolding full'_def set_append by blast
    moreover have "\<forall>p \<in> set pl'. fl' p \<noteq> []" using filled sub(1) by (auto simp: span_filled_def)
    moreover have "fl' p = [] \<and> \<not> has_flag (h_flags (hdr_at m' p)) FLAG_IN_PARTIAL" if "p \<in> full'" for p
    proof (cases "p \<in> full")
      case True
      then have "fl p = []" "\<not> has_flag (h_flags (hdr_at m p)) FLAG_IN_PARTIAL" using inv by (simp_all add: span_class_inv_def)
      then show ?thesis using out [OF disj] True by simp
    next
      case False
      then have "p \<in> set pl" "p \<notin> set pl'" using that by (simp_all add: full'_def)
      then show ?thesis using filled [of p] unfolding span_filled_def by blast
    qed
    moreover have "apart pages (set (pl' @ el @ map fst (cold_spans sl)) \<union> full')"
    proof (rule apart_mono)
      show "apart pages (set (pl @ el @ map fst (cold_spans sl)) \<union> full)" using inv by (simp add: span_class_inv_def)
    qed (use sub(1) in \<open>auto simp: full'_def\<close>)
    moreover have "\<forall>p \<in> set pl' \<union> set el \<union> full'. span_inv pages cls layout m' fl' dirty p"
      using owned in_pl in_rest by auto
    moreover have "\<forall>p \<in> set el. used (hdr_at m' p) = 0 \<and> \<not> has_flag (h_flags (hdr_at m' p)) FLAG_IN_PARTIAL"
      using inv out(1) disj by (simp add: span_class_inv_def)
    ultimately show ?thesis
      using inv unfolding span_class_inv_def by (simp add: cold_spans_def cold_spans_ok_def)
  qed
  have fresh: "b \<notin> set (fl p)" if bl: "b \<in> lv" and pp: "p \<in> set pl \<union> set el \<union> full" for b p
    using bl pp dj flsub unfolding lv_def span_live_def by blast
  have lv': "span_live layout fl' (set pl \<union> set el \<union> full) = lv \<union> set new"
  proof -
    have "(\<Union>p \<in> set pl. set (layout p) - set (fl' p)) = (\<Union>p \<in> set pl. set (layout p) - set (fl p)) \<union> set new"
    proof -
      have "set (layout p) - set (fl' p) = (set (layout p) - set (fl p)) \<union> (set new \<inter> set (fl p))" if "p \<in> set pl" for p
        using filled [OF that] flsub [of p] that by (auto simp: span_filled_def)
      moreover have "(\<Union>p \<in> set pl. set new \<inter> set (fl p)) = set new" using sub(2) by blast
      ultimately show ?thesis by (simp add: UN_Un_distrib)
    qed
    moreover have "(\<Union>p \<in> set el \<union> full. set (layout p) - set (fl' p)) = (\<Union>p \<in> set el \<union> full. set (layout p) - set (fl p))"
      by (rule SUP_cong [OF refl]) (use out disj in simp)
    ultimately show ?thesis
      unfolding lv_def span_live_def Un_assoc [of "set pl"] UN_Un [where A = "set pl"] by (simp only: Un_ac)
  qed
  have vg: "v \<and> set new \<inter> dirty = {}" if "v'"
  proof -
    have v: "v" "\<And>p. p \<in> set pl \<Longrightarrow> set new \<inter> set (fl p) \<noteq> {} \<Longrightarrow> has_flag (h_flags (hdr_at m p)) FLAG_VIRGIN"
      using res that by (auto simp: sfill_result_def)
    have "b \<notin> dirty" if b: "b \<in> set new" for b
    proof -
      obtain p where p: "p \<in> set pl" "b \<in> set (fl p)" using sub(2) b by blast
      then have "dirty \<inter> set (layout p) = {}" using pg [of p] v(2) [of p] b by (auto simp: span_inv_def)
      then show ?thesis using flsub [of p] p by blast
    qed
    then show ?thesis using v(1) by blast
  qed
  have nil: "m' = m \<and> lst' = sl_head sl \<and> pl = [] \<and> v' = v" if "new = []"
  proof -
    have pl: "pl = []" using res that batch by (simp add: sfill_result_def split: if_splits)
    then have "sl_head sl = 0" using inv by (simp add: span_class_inv_def partial_list_def)
    then show ?thesis using run pl batch by (subst (asm) sfill_from_list.simps) auto
  qed
  have "span_refilled T pages cls layout new S lv (cells_of m) dirty m' (sl\<lparr>sl_head := lst'\<rparr>) ch' pl' el full' fl'"
  proof -
    have "set new \<inter> lv = {}" using fresh sub(2) by blast
    moreover have "\<forall>a \<in> lv. cells_of m' a = cells_of m a" by (intro ballI frame) (use fresh in blast)
    moreover have "chain (cells_of m') ch' new" "distinct new" "length new \<le> t_batch T"
      using rf res by (simp_all add: sfilled_def sfill_result_def)
    moreover have "class_spans (sl\<lparr>sl_head := lst'\<rparr>) pl' el full' = S"
      using sub(1) by (auto simp: class_spans_def S_def cold_spans_def full'_def)
    ultimately show ?thesis using inv' lv' owned unfolding span_refilled_def by simp
  qed
  moreover have "srefill_class T m sl null 0 v = Some ((m', sl\<lparr>sl_head := lst'\<rparr>), ch', length new, v')"
    using run by (simp add: srefill_class_def)
  moreover have "pl \<noteq> [] \<Longrightarrow> new \<noteq> []" using res batch by (simp add: sfill_result_def)
  ultimately show thesis using that vg nil by metis
qed

section \<open>Bringing a span into the class\<close>

lemma span_class_inv_link:
  assumes inv: "span_class_inv T pages cls layout m sl pl el full fl dirty"
    and p: "p \<notin> set (pl @ el @ map fst (cold_spans sl)) \<union> full"
    and ap: "apart pages (insert p (set (pl @ el @ map fst (cold_spans sl)) \<union> full))"
    and pg: "span_inv pages cls layout m fl dirty p" "fl p \<noteq> []"
  obtains m' lst' where "mem_link m (sl_head sl) p = (m', lst')"
    "span_class_inv T pages cls layout m' (sl\<lparr>sl_head := lst'\<rparr>) (p # pl) el full fl dirty"
    "cells_of m' = cells_of m"
proof -
  define h' where "h' = fst (link_partial (hdrs_of m, sl_head sl) p)"
  define lst' where "lst' = snd (link_partial (hdrs_of m, sl_head sl) p)"
  have p0: "p \<noteq> 0" using span_inv_blocks(4) [OF pg(1)] by simp
  have l: "partial_list h' lst' (p # pl)" "relinked p (hdrs_of m) h'" "\<forall>q. q \<notin> insert p (set pl) \<longrightarrow> h' q = hdr_at m q"
    using link_partial_list [of "hdrs_of m" "sl_head sl" pl p] inv p p0
    by (auto simp: span_class_inv_def h'_def lst'_def)
  have rel: "span_inv pages cls layout (m\<lparr>hdrs_of := h'\<rparr>) fl dirty q" if "q \<in> insert p (set pl \<union> set el \<union> full)" for q
    using span_inv_relinked(1) [OF l(2), of pages cls layout fl dirty q] inv pg(1) that by (auto simp: span_class_inv_def)
  have same: "h' q = hdr_at m q" if "q \<in> set el \<union> full" for q
    using l(3) inv p that by (auto simp: span_class_inv_def)
  have "elist h' (sl_empty sl) el"
    using inv same by (subst elist_cong [of el _ "hdrs_of m"]) (auto simp: span_class_inv_def)
  then have "span_class_inv T pages cls layout (m\<lparr>hdrs_of := h'\<rparr>) (sl\<lparr>sl_head := lst'\<rparr>) (p # pl) el full fl dirty"
    using inv p l(1) rel same pg(2) ap by (simp add: span_class_inv_def cold_spans_def cold_spans_ok_def)
  moreover have "mem_link m (sl_head sl) p = (m\<lparr>hdrs_of := h'\<rparr>, lst')"
    by (simp add: mem_link_def h'_def lst'_def split: prod.splits)
  ultimately show thesis using that by simp
qed

definition span_served :: "span_tier \<Rightarrow> nat \<Rightarrow> nat \<Rightarrow> (addr \<Rightarrow> addr list) \<Rightarrow> addr set \<Rightarrow> addr set \<Rightarrow> cells \<Rightarrow> addr set \<Rightarrow>
    span_take \<Rightarrow> bool" where
  "span_served T pages cls layout S lv c dirty s \<longleftrightarrow>
     (\<exists>m' sl' ch' v' pl' el' full' fl' new. s = ((m', sl'), ch', length new, v') \<and> new \<noteq> []
        \<and> span_refilled T pages cls layout new S lv c dirty m' sl' ch' pl' el' full' fl'
        \<and> (v' \<longrightarrow> set new \<inter> dirty = {}))"

lemma span_served_nonzero: "span_served T pages cls layout S lv c dirty ((m', sl'), ch', cnt, v') \<Longrightarrow> cnt \<noteq> 0"
  by (auto simp: span_served_def)

text \<open>
  An unused span \<open>p\<close> outside the class, with header \<open>h\<close> over the memory \<open>c'\<close>, is linked and refilled from.
\<close>

lemma link_and_srefill_correct:
  assumes inv: "span_class_inv T pages cls layout m sl [] el full fl dirty" and batch: "0 < t_batch T"
    and p: "p \<notin> set (el @ map fst (cold_spans sl)) \<union> full"
    and ap: "apart pages (insert p (set (el @ map fst (cold_spans sl)) \<union> full))"
    and ok: "span_ok c' p h (layout p) x" "used h = 0" "npages h = pages" "h_class h = cls"
    and vg: "has_flag (h_flags h) FLAG_VIRGIN \<Longrightarrow> dirty \<inter> set (layout p) = {}"
    and c': "\<And>a. a \<notin> span_range p pages \<Longrightarrow> c' a = cells_of m a"
  defines "lv \<equiv> span_live layout fl (set el \<union> full)" and "S \<equiv> insert p (class_spans sl [] el full)"
  shows "\<exists>s. link_and_srefill T (set_hdr (m\<lparr>cells_of := c'\<rparr>) p h) sl p null 0 v = Some s
    \<and> span_served T pages cls layout S lv (cells_of m) dirty s \<and> (snd (snd (snd s)) \<longrightarrow> v)"
proof -
  let ?m = "set_hdr (m\<lparr>cells_of := c'\<rparr>) p h" and ?fl = "fl(p := x)"
  have pinv: "span_inv pages cls layout ?m ?fl dirty p" "?fl p \<noteq> []"
    using ok vg span_unused(2) [OF ok(1,2)] by (simp_all add: span_inv_def)
  have qinv: "span_inv pages cls layout m fl dirty q" "span_range q pages \<inter> span_range p pages = {}" "q \<noteq> p"
    if q: "q \<in> set el \<union> full" for q
  proof -
    show "span_inv pages cls layout m fl dirty q" using inv q by (auto simp: span_class_inv_def)
    show "q \<noteq> p" using p q by auto
    then show "span_range q pages \<inter> span_range p pages = {}" by (intro apartD [OF ap]) (use q in auto)
  qed
  have far: "set (layout q) \<inter> span_range p pages = {} \<and> set (fl q) \<inter> span_range p pages = {}" if q: "q \<in> set el \<union> full" for q
    using span_inv_blocks(1,2) [OF qinv(1) [OF q]] qinv(2) [OF q] by blast
  have inv1: "span_class_inv T pages cls layout ?m sl [] el full ?fl dirty"
  proof (rule span_class_inv_mem [OF inv])
    fix q a assume q: "q \<in> set [] \<union> set el \<union> full" "a \<in> set (fl q)"
    then have "a \<notin> span_range p pages" using far [of q] by auto
    then show "cells_of ?m a = cells_of m a" using c' by simp
  qed (use qinv(3) in auto)
  obtain m1 lst1 where l: "mem_link ?m (sl_head sl) p = (m1, lst1)"
    "span_class_inv T pages cls layout m1 (sl\<lparr>sl_head := lst1\<rparr>) [p] el full ?fl dirty" "cells_of m1 = c'"
  proof (rule span_class_inv_link [OF inv1 _ _ pinv])
    show "p \<notin> set ([] @ el @ map fst (cold_spans sl)) \<union> full"
      "apart pages (insert p (set ([] @ el @ map fst (cold_spans sl)) \<union> full))" using p ap by simp_all
  qed (use that in \<open>simp add: fun_upd_def\<close>)
  have lv: "span_live layout ?fl (set [p] \<union> set el \<union> full) = lv"
  proof -
    have "span_live layout ?fl (set el \<union> full) = lv" unfolding lv_def by (rule span_live_cong) (use qinv(3) in auto)
    then show ?thesis using span_unused(1) [OF ok(1,2)] by (simp add: span_live_insert)
  qed
  have S: "class_spans (sl\<lparr>sl_head := lst1\<rparr>) [p] el full = S"
    by (auto simp: class_spans_def S_def cold_spans_def)
  obtain m' lst' ch' v' fl' pl' full' new where r:
    "srefill_class T m1 (sl\<lparr>sl_head := lst1\<rparr>) null 0 v = Some ((m', sl\<lparr>sl_head := lst1\<rparr>\<lparr>sl_head := lst'\<rparr>), ch', length new, v')"
    "span_refilled T pages cls layout new S lv c' dirty m' (sl\<lparr>sl_head := lst1\<rparr>\<lparr>sl_head := lst'\<rparr>) ch' pl' el full' fl'"
    "new \<noteq> []" "v' \<Longrightarrow> v \<and> set new \<inter> dirty = {}"
    using srefill_class_correct [OF l(2) batch, of v] unfolding lv l(3) S by (metis list.distinct(1))
  have "c' a = cells_of m a" if "a \<in> lv" for a
    by (rule c') (use that far in \<open>unfold lv_def span_live_def, blast\<close>)
  then have "span_refilled T pages cls layout new S lv (cells_of m) dirty m' (sl\<lparr>sl_head := lst1\<rparr>\<lparr>sl_head := lst'\<rparr>) ch' pl' el full' fl'"
    using r(2) unfolding span_refilled_def by simp
  then have "span_served T pages cls layout S lv (cells_of m) dirty ((m', sl\<lparr>sl_head := lst1\<rparr>\<lparr>sl_head := lst'\<rparr>), ch', length new, v')"
    using r(3,4) unfolding span_served_def by blast
  moreover have "link_and_srefill T ?m sl p null 0 v = srefill_class T m1 (sl\<lparr>sl_head := lst1\<rparr>) null 0 v"
    by (simp add: link_and_srefill_def l(1))
  ultimately show ?thesis using r(1,4) by auto
qed

section \<open>The interface of carving\<close>

text \<open>
  A family of tiers, one per class: its span length in pages and where the blocks of a span lie.
\<close>

locale span_shape =
  fixes T :: "nat \<Rightarrow> span_tier" and pages :: "nat \<Rightarrow> nat" and layout :: "nat \<Rightarrow> addr \<Rightarrow> addr list"
    and classes :: nat
  assumes batch: "c < classes \<Longrightarrow> 0 < t_batch (T c)"
    and empties: "c < classes \<Longrightarrow> t_empty_count (T c) < 2 ^ 32"
    and init: "c < classes \<Longrightarrow> PAGE_SIZE dvd p \<Longrightarrow> 0 < p \<Longrightarrow> \<exists>m' h x. t_init (T c) m p (pages c) = Some (m', h)
      \<and> span_ok m' p h (layout c p) x \<and> used h = 0 \<and> npages h = pages c \<and> h_class h = c
      \<and> (\<forall>a. a \<notin> span_range p (pages c) \<longrightarrow> m' a = m a)"
begin

abbreviation inv where "inv c \<equiv> span_class_inv (T c) (pages c) c (layout c)"
abbreviation lives where "lives c \<equiv> span_live (layout c)"

lemma empty_step:
  assumes c: "c < classes" and inv: "inv c m sl [] el full fl dirty"
  shows "el = [] \<and> span_take_empty (T c) ((m, sl), null, 0, v) = Some ((m, sl), null, 0, v)
    \<or> (\<exists>s. span_take_empty (T c) ((m, sl), null, 0, v) = Some s
        \<and> span_served (T c) (pages c) c (layout c) (class_spans sl [] el full) (lives c fl (set el \<union> full)) (cells_of m) dirty s)"
proof (cases el)
  case Nil
  then show ?thesis using inv by (simp add: span_take_empty_def span_class_inv_def)
next
  case (Cons p el')
  define h where "h = hdr_at m p"
  define h1 where "h1 = h\<lparr>h_next := null\<rparr>"
  define sl1 where "sl1 = sl\<lparr>sl_empty := h_next h, sl_empty_count := sub_w 32 (sl_empty_count sl) 1,
     sl_empty_bytes := sl_empty_bytes sl - span_mapped_bytes h1\<rparr>"
  have pg: "span_inv (pages c) c (layout c) m fl dirty p" "used h = 0" "sl_empty sl = p" "p \<noteq> 0"
    using inv Cons by (auto simp: span_class_inv_def h_def)
  have okh: "span_ok (cells_of m) p h (layout c p) (fl p)" "h_class h = c" "npages h = pages c"
    using pg(1) by (simp_all add: span_inv_def h_def)
  have cnt: "sl_empty_count sl1 = length el'" "sl_empty_bytes sl1 = length el' * (pages c * PAGE_SIZE)"
    using inv Cons empties [OF c] okh(3) by (simp_all add: span_class_inv_def sl1_def h1_def span_mapped_bytes_def)
  have dd: "distinct (el @ map fst (cold_spans sl))" "set (el @ map fst (cold_spans sl)) \<inter> full = {}"
    "apart (pages c) (set (el @ map fst (cold_spans sl)) \<union> full)"
    using inv by (simp_all add: span_class_inv_def)
  have c1: "cold_spans sl1 = cold_spans sl" by (simp add: cold_spans_def sl1_def)
  have inv1: "inv c m sl1 [] el' full fl dirty"
  proof -
    have "apart (pages c) (set (el' @ map fst (cold_spans sl)) \<union> full)" by (rule apart_mono [OF dd(3)]) (use Cons in auto)
    moreover have "elist (hdrs_of m) (sl_empty sl1) el'" using inv Cons by (simp add: span_class_inv_def sl1_def h_def)
    ultimately show ?thesis
      using inv Cons cnt c1 dd(1,2) by (simp add: span_class_inv_def sl1_def cold_spans_ok_def)
  qed
  have out: "p \<notin> set (el' @ map fst (cold_spans sl1)) \<union> full"
    "apart (pages c) (insert p (set (el' @ map fst (cold_spans sl1)) \<union> full))"
    using dd Cons c1 by auto
  have ok1: "span_ok (cells_of m) p h1 (layout c p) (fl p)" using span_ok_cong [of h h1] okh(1) by (simp add: h1_def)
  have h1: "used h1 = 0" "npages h1 = pages c" "h_class h1 = c" using pg(2) okh by (simp_all add: h1_def)
  have vg: "dirty \<inter> set (layout c p) = {}" if "has_flag (h_flags h1) FLAG_VIRGIN"
    using that pg(1) by (simp add: h1_def h_def span_inv_def)
  have same: "m\<lparr>cells_of := cells_of m\<rparr> = m" by simp
  have S: "insert p (class_spans sl1 [] el' full) = class_spans sl [] el full" by (simp add: class_spans_def c1 Cons)
  obtain s where s: "link_and_srefill (T c) (set_hdr m p h1) sl1 p null 0 (v \<and> has_flag (h_flags h1) FLAG_VIRGIN) = Some s"
    "span_served (T c) (pages c) c (layout c) (class_spans sl [] el full) (lives c fl (set el' \<union> full)) (cells_of m) dirty s"
    using link_and_srefill_correct [OF inv1 batch [OF c] out ok1 h1 vg refl] unfolding same S by blast
  have "span_take_empty (T c) ((m, sl), null, 0, v) = Some s"
    using pg(3,4) s(1) by (simp add: span_take_empty_def Let_def sl1_def h1_def h_def)
  moreover have "lives c fl (set el \<union> full) = lives c fl (set el' \<union> full)"
    using span_unused(1) [OF okh(1) pg(2)] Cons by (simp add: span_live_insert)
  ultimately show ?thesis using s(2) by auto
qed

lemma cold_step:
  assumes c: "c < classes" and inv: "inv c m sl [] el full fl dirty"
  shows "cold_spans sl = [] \<and> span_take_cold (T c) ((m, sl), null, 0, v) = Some ((m, sl), null, 0, v)
    \<or> (\<exists>s. span_take_cold (T c) ((m, sl), null, 0, v) = Some s
        \<and> span_served (T c) (pages c) c (layout c) (class_spans sl [] el full) (lives c fl (set el \<union> full)) (cells_of m) dirty s)"
proof (cases "sl_cold_len sl")
  case 0
  then show ?thesis by (simp add: span_take_cold_def cold_spans_def)
next
  case (Suc cidx)
  have cold: "cold_spans_ok (T c) (pages c) sl" using inv by (simp add: span_class_inv_def)
  then have len: "cidx < length (sl_cold sl)" using Suc by (simp add: cold_spans_ok_def)
  obtain p n where pn: "sl_cold sl ! cidx = (p, n)" by fastforce
  define sl1 where "sl1 = sl\<lparr>sl_cold_len := cidx, sl_cold := (sl_cold sl)[cidx := (null, 0)],
     sl_cold_bytes := sl_cold_bytes sl - n * PAGE_SIZE\<rparr>"
  have cs: "cold_spans sl = cold_spans sl1 @ [(p, n)]"
    using len by (simp add: cold_spans_def sl1_def pn Suc take_Suc_conv_app_nth)
  have p: "n = pages c" "PAGE_SIZE dvd p" "0 < p" using cold cs by (auto simp: cold_spans_ok_def)
  have dd: "distinct (el @ map fst (cold_spans sl))" "set (el @ map fst (cold_spans sl)) \<inter> full = {}"
    "apart (pages c) (set (el @ map fst (cold_spans sl)) \<union> full)"
    using inv by (simp_all add: span_class_inv_def)
  have S: "insert p (class_spans sl1 [] el full) = class_spans sl [] el full" by (auto simp: class_spans_def cs)
  have cold1: "cold_spans_ok (T c) (pages c) sl1"
    using cold Suc cs p(1) by (simp add: cold_spans_ok_def sl1_def)
  have inv1: "inv c m sl1 [] el full fl dirty"
  proof -
    have "apart (pages c) (set (el @ map fst (cold_spans sl1)) \<union> full)" by (rule apart_mono [OF dd(3)]) (use cs in auto)
    moreover have "sl_head sl1 = sl_head sl" "sl_empty sl1 = sl_empty sl" "sl_empty_count sl1 = sl_empty_count sl"
      "sl_empty_bytes sl1 = sl_empty_bytes sl" by (simp_all add: sl1_def)
    ultimately show ?thesis using inv cs cold1 dd(1,2) by (simp add: span_class_inv_def)
  qed
  have out: "p \<notin> set (el @ map fst (cold_spans sl1)) \<union> full"
    "apart (pages c) (insert p (set (el @ map fst (cold_spans sl1)) \<union> full))"
    using dd cs by auto
  obtain c' h x where i: "t_init (T c) (cells_of m) p (pages c) = Some (c', h)" "span_ok c' p h (layout c p) x" "used h = 0"
    "npages h = pages c" "h_class h = c" "\<And>a. a \<notin> span_range p (pages c) \<Longrightarrow> c' a = cells_of m a"
    using init [OF c p(2,3), of "cells_of m"] by blast
  define h1 where "h1 = h\<lparr>h_flags := clear_flag (h_flags h) FLAG_VIRGIN\<rparr>"
  have "span_ok c' p h1 (layout c p) x" using span_ok_cong [of h h1] i(2) by (simp add: h1_def)
  moreover have "used h1 = 0" "npages h1 = pages c" "h_class h1 = c" "\<not> has_flag (h_flags h1) FLAG_VIRGIN"
    using i by (simp_all add: h1_def)
  ultimately obtain s where s: "link_and_srefill (T c) (set_hdr (m\<lparr>cells_of := c'\<rparr>) p h1) sl1 p null 0 False = Some s"
    "span_served (T c) (pages c) c (layout c) (class_spans sl [] el full) (lives c fl (set el \<union> full)) (cells_of m) dirty s"
    using link_and_srefill_correct [OF inv1 batch [OF c] out _ _ _ _ _ i(6)] unfolding S by metis
  have "span_take_cold (T c) ((m, sl), null, 0, v) = Some s"
    using s(1) i(1) p(1) by (simp add: span_take_cold_def Suc pn Let_def sl1_def h1_def)
  then show ?thesis using s(2) by blast
qed

lemma locked_step:
  assumes c: "c < classes" and inv: "inv c m sl pl el full fl dirty"
  shows "pl = [] \<and> el = [] \<and> cold_spans sl = [] \<and> span_take_locked (T c) m sl = Some ((m, sl), null, 0, True)
    \<or> (\<exists>s. span_take_locked (T c) m sl = Some s
        \<and> span_served (T c) (pages c) c (layout c) (class_spans sl pl el full) (lives c fl (set pl \<union> set el \<union> full)) (cells_of m) dirty s)"
proof -
  have skip: "span_take_empty (T c) s = Some s" "span_take_cold (T c) s = Some s"
    if "span_served (T c) (pages c) c (layout c) S lv cs dirty s" for s S lv cs
    using span_served_nonzero that by (cases s; fastforce simp: span_take_empty_def span_take_cold_def)+
  obtain m' lst' ch' v' fl' pl' full' new where r:
    "srefill_class (T c) m sl null 0 True = Some ((m', sl\<lparr>sl_head := lst'\<rparr>), ch', length new, v')"
    "span_refilled (T c) (pages c) c (layout c) new (class_spans sl pl el full) (lives c fl (set pl \<union> set el \<union> full)) (cells_of m) dirty m'
       (sl\<lparr>sl_head := lst'\<rparr>) ch' pl' el full' fl'"
    "pl \<noteq> [] \<Longrightarrow> new \<noteq> []" "v' \<Longrightarrow> set new \<inter> dirty = {}"
    "new = [] \<Longrightarrow> m' = m \<and> lst' = sl_head sl \<and> pl = [] \<and> v' = True"
    using srefill_class_correct [OF inv batch [OF c], of True] by metis
  show ?thesis
  proof (cases "new = []")
    case False
    then have "span_served (T c) (pages c) c (layout c) (class_spans sl pl el full) (lives c fl (set pl \<union> set el \<union> full)) (cells_of m) dirty
        ((m', sl\<lparr>sl_head := lst'\<rparr>), ch', length new, v')"
      using r(2,4) unfolding span_served_def by blast
    then show ?thesis using r(1) skip by (simp add: span_take_locked_def)
  next
    case True
    have pl: "pl = []" "m' = m" "lst' = sl_head sl" "ch' = null" and v': "v'"
      using r(2,5) True by (auto simp: span_refilled_def)
    note inv0 = inv [unfolded pl(1)]
    from empty_step [OF c inv0, of v'] show ?thesis
    proof
      assume e: "el = [] \<and> span_take_empty (T c) ((m, sl), null, 0, v') = Some ((m, sl), null, 0, v')"
      then show ?thesis
        using cold_step [OF c inv0, of v'] r(1) True pl v' by (auto simp: span_take_locked_def)
    next
      assume "\<exists>s. span_take_empty (T c) ((m, sl), null, 0, v') = Some s
        \<and> span_served (T c) (pages c) c (layout c) (class_spans sl [] el full) (lives c fl (set el \<union> full)) (cells_of m) dirty s"
      then show ?thesis using r(1) True pl skip by (auto simp: span_take_locked_def)
    qed
  qed
qed

lemma fresh_step:
  assumes c: "c < classes" and inv: "inv c m sl [] el full fl dirty"
    and raw: "PAGE_SIZE dvd raw" "0 < raw" "raw \<notin> set (el @ map fst (cold_spans sl)) \<union> full"
      "apart (pages c) (insert raw (set (el @ map fst (cold_spans sl)) \<union> full))"
  shows "\<exists>s. span_take_fresh (T c) raw (pages c) ((m, sl), null, 0, v) = Some s
    \<and> span_served (T c) (pages c) c (layout c) (insert raw (class_spans sl [] el full)) (lives c fl (set el \<union> full)) (cells_of m) (dirty - span_range raw (pages c)) s"
proof -
  let ?d = "dirty - span_range raw (pages c)"
  have inv1: "inv c m sl [] el full fl ?d" by (rule span_class_inv_dirty [OF inv]) auto
  obtain c' h x where i: "t_init (T c) (cells_of m) raw (pages c) = Some (c', h)" "span_ok c' raw h (layout c raw) x" "used h = 0"
    "npages h = pages c" "h_class h = c" "\<And>a. a \<notin> span_range raw (pages c) \<Longrightarrow> c' a = cells_of m a"
    using init [OF c raw(1,2), of "cells_of m"] by blast
  have "?d \<inter> set (layout c raw) = {}" using i(2,4) by (auto simp: span_ok_def)
  then obtain s where s: "link_and_srefill (T c) (set_hdr (m\<lparr>cells_of := c'\<rparr>) raw h) sl raw null 0 v = Some s"
    "span_served (T c) (pages c) c (layout c) (insert raw (class_spans sl [] el full)) (lives c fl (set el \<union> full)) (cells_of m) ?d s"
    using link_and_srefill_correct [OF inv1 batch [OF c] raw(3,4) i(2-5) _ i(6)] by metis
  then show ?thesis using i(1) raw(2) by (simp add: span_take_fresh_def)
qed

lemma take_step:
  assumes c: "c < classes" and inv: "inv c m sl pl el full fl dirty"
    and raw: "raw = null \<or> PAGE_SIZE dvd raw \<and> raw \<notin> class_spans sl pl el full
      \<and> apart (pages c) (insert raw (class_spans sl pl el full))"
  defines "S \<equiv> class_spans sl pl el full" and "lv \<equiv> lives c fl (set pl \<union> set el \<union> full)"
  obtains (found) s where "span_take_locked (T c) m sl = Some s" "fst (snd (snd s)) \<noteq> 0"
      "span_take_fresh (T c) raw (pages c) s = Some s"
      "span_served (T c) (pages c) c (layout c) S lv (cells_of m) dirty s"
  | (fresh) s where "pl = []" "el = []" "cold_spans sl = []" "raw \<noteq> null"
      "span_take_locked (T c) m sl = Some ((m, sl), null, 0, True)"
      "span_take_fresh (T c) raw (pages c) ((m, sl), null, 0, True) = Some s"
      "span_served (T c) (pages c) c (layout c) (insert raw S) lv (cells_of m) (dirty - span_range raw (pages c)) s"
  | (refused) "pl = []" "el = []" "cold_spans sl = []" "raw = null"
      "span_take_locked (T c) m sl = Some ((m, sl), null, 0, True)"
      "span_take_fresh (T c) raw (pages c) ((m, sl), null, 0, True) = Some ((m, sl), null, 0, False)"
proof -
  from locked_step [OF c inv] show thesis
  proof
    assume e: "pl = [] \<and> el = [] \<and> cold_spans sl = [] \<and> span_take_locked (T c) m sl = Some ((m, sl), null, 0, True)"
    show thesis
    proof (cases "raw = null")
      case True
      then show thesis using e refused by (simp add: span_take_fresh_def)
    next
      case False
      have inv0: "inv c m sl [] el full fl dirty" using inv e by simp
      have ok: "PAGE_SIZE dvd raw" "0 < raw" "raw \<notin> set (el @ map fst (cold_spans sl)) \<union> full"
        "apart (pages c) (insert raw (set (el @ map fst (cold_spans sl)) \<union> full))"
        using raw False e by (simp_all add: class_spans_def)
      obtain s where "span_take_fresh (T c) raw (pages c) ((m, sl), null, 0, True) = Some s"
        "span_served (T c) (pages c) c (layout c) (insert raw (class_spans sl [] el full)) (lives c fl (set el \<union> full)) (cells_of m)
          (dirty - span_range raw (pages c)) s"
        using fresh_step [OF c inv0 ok, of True] by blast
      then show thesis using fresh [of s] e False by (simp add: S_def lv_def)
    qed
  next
    assume "\<exists>s. span_take_locked (T c) m sl = Some s
        \<and> span_served (T c) (pages c) c (layout c) (class_spans sl pl el full) (lives c fl (set pl \<union> set el \<union> full)) (cells_of m) dirty s"
    then obtain s where s: "span_take_locked (T c) m sl = Some s"
      "span_served (T c) (pages c) c (layout c) S lv (cells_of m) dirty s" unfolding S_def lv_def by blast
    then have n: "fst (snd (snd s)) \<noteq> 0" using span_served_nonzero by (metis prod.collapse)
    then have "span_take_fresh (T c) raw (pages c) s = Some s" by (cases s) (auto simp: span_take_fresh_def)
    then show thesis using found s n by blast
  qed
qed

end

end
