(* ===== verification/Span_Release.thy ===== *)
theory Span_Release
  imports Span_Class
begin

text \<open>
  Giving blocks back to a medium or big span (\<open>mrelease_inner\<close>, \<open>brelease_inner\<close>, \<open>release_many\<close> of
  \<open>src/src/heap.rs\<close>): the released run is spliced in front of the span's free list; a span whose last
  block came back is kept empty, turned cold, or leaves the class to be unmapped.
\<close>

definition span_purge_ok :: "span_purge \<Rightarrow> bool" where
  "span_purge_ok purge \<longleftrightarrow> (\<forall>m p n a. a < p \<or> p + n \<le> a \<longrightarrow>
     cells_of (purge m p n) a = cells_of m a \<and> hdr_at (purge m p n) a = hdr_at m a)"

definition span_release_header :: "span_master \<Rightarrow> addr \<Rightarrow> nat \<Rightarrow> span_master" where
  "span_release_header h head n = h\<lparr>h_flags := clear_flag (h_flags h) FLAG_VIRGIN, free_head := head,
     free_count := add_w 32 (free_count h) n, used := sub_w 32 (used h) n\<rparr>"

lemma span_ok_release:
  assumes ok: "span_ok m p h bl fl" and run: "linked_run m head tail bs" and lv: "set bs \<subseteq> set bl - set fl"
  defines "h' \<equiv> span_release_header h head (length bs)"
  shows "span_ok (m(tail := free_head h)) p h' bl (bs @ fl)" "used h' = used h - length bs" "length bs \<le> used h"
proof -
  obtain xs where xs: "bs = xs @ [tail]" using run by (metis linked_run_def append_butlast_last_id)
  have d: "distinct bs" "set bs \<inter> set fl = {}" using run lv by (auto simp: linked_run_def)
  have "card (set bs) \<le> card (set bl - set fl)" by (rule card_mono [OF _ lv]) simp
  then show n: "length bs \<le> used h" using span_live_card [OF ok] distinct_card [OF d(1)] by simp
  have small: "used h + free_count h < 2 ^ 32" using ok by (simp add: span_ok_def)
  show u: "used h' = used h - length bs" using n small by (simp add: h'_def span_release_header_def)
  have c: "free_count h' = free_count h + length bs" "free_head h' = head" "npages h' = npages h"
    using n small by (simp_all add: h'_def span_release_header_def)
  have "chain (m(tail := null)) (free_head h) fl" using ok d(2) xs by (simp add: span_ok_def)
  then have "chain ((m(tail := null))(tail := free_head h)) head ((xs @ [tail]) @ fl)"
    using run xs d(2) by (intro chain_splice) (auto simp: linked_run_def)
  then have "chain (m(tail := free_head h)) head (bs @ fl)" by (simp add: xs)
  then show "span_ok (m(tail := free_head h)) p h' bl (bs @ fl)"
    using ok u c n d lv by (auto simp: span_ok_def)
qed

text \<open>A span that leaves the partial list because it is unused.\<close>

lemma span_class_inv_unlink:
  assumes inv: "span_class_inv T pages cls layout m sl pl el full fl dirty" and p: "p \<in> set pl"
  obtains m' lst' where "mem_unlink m (sl_head sl) p = ((m', lst'), True)"
    "span_class_inv T pages cls layout m' (sl\<lparr>sl_head := lst'\<rparr>) (remove1 p pl) el full fl dirty"
    "cells_of m' = cells_of m" "span_inv pages cls layout m' fl dirty p" "used (hdr_at m' p) = used (hdr_at m p)"
    "\<not> has_flag (h_flags (hdr_at m' p)) FLAG_IN_PARTIAL"
proof -
  obtain h' lst' where u: "unlink_partial (hdrs_of m, sl_head sl) p = ((h', lst'), True)"
    "partial_list h' lst' (remove1 p pl)" "relinked p (hdrs_of m) h'"
    "\<not> has_flag (h_flags (h' p)) FLAG_IN_PARTIAL" "\<forall>q. q \<notin> set pl \<longrightarrow> h' q = hdr_at m q"
    using unlink_partial_list [of "hdrs_of m" "sl_head sl" pl p] inv p by (auto simp: span_class_inv_def)
  have rel: "span_inv pages cls layout (m\<lparr>hdrs_of := h'\<rparr>) fl dirty q" "used (h' q) = used (hdr_at m q)"
    if "q \<in> set pl \<union> set el \<union> full" for q
    using span_inv_relinked [OF u(3), of pages cls layout fl dirty q] inv that by (auto simp: span_class_inv_def)
  have dd: "distinct (pl @ el @ map fst (cold_spans sl))" "set (pl @ el @ map fst (cold_spans sl)) \<inter> full = {}"
    "apart pages (set (pl @ el @ map fst (cold_spans sl)) \<union> full)"
    using inv by (simp_all add: span_class_inv_def)
  have same: "h' q = hdr_at m q" if "q \<in> set el \<union> full" for q using u(5) dd that by auto
  have sub: "set (remove1 p pl) \<subseteq> set pl" by (rule set_remove1_subset)
  have dd': "distinct (remove1 p pl @ el @ map fst (cold_spans sl))"
    "set (remove1 p pl @ el @ map fst (cold_spans sl)) \<inter> full = {}"
    "apart pages (set (remove1 p pl @ el @ map fst (cold_spans sl)) \<union> full)"
  proof -
    show "distinct (remove1 p pl @ el @ map fst (cold_spans sl))" using dd(1) sub by auto
    show "set (remove1 p pl @ el @ map fst (cold_spans sl)) \<inter> full = {}" using dd(2) sub by auto
    show "apart pages (set (remove1 p pl @ el @ map fst (cold_spans sl)) \<union> full)"
      by (rule apart_mono [OF dd(3)]) (use sub in auto)
  qed
  have "elist h' (sl_empty sl) el"
    using inv same by (subst elist_cong [of el _ "hdrs_of m"]) (auto simp: span_class_inv_def)
  moreover have "\<forall>q \<in> set (remove1 p pl) \<union> set el \<union> full. span_inv pages cls layout (m\<lparr>hdrs_of := h'\<rparr>) fl dirty q"
    using rel(1) sub by blast
  moreover have "\<forall>q \<in> set (remove1 p pl). fl q \<noteq> []" using inv sub by (auto simp: span_class_inv_def)
  ultimately have "span_class_inv T pages cls layout (m\<lparr>hdrs_of := h'\<rparr>) (sl\<lparr>sl_head := lst'\<rparr>) (remove1 p pl) el full fl dirty"
    using inv u(2) dd' same by (simp add: span_class_inv_def cold_spans_def cold_spans_ok_def)
  then show thesis using that [of "m\<lparr>hdrs_of := h'\<rparr>" lst'] u(1,4) rel p by (auto simp: mem_unlink_def)
qed

text \<open>The outcome of a release: \<open>bs\<close> leaves the live blocks \<open>lv\<close>, and only an unmapped span leaves the class.\<close>

definition span_given_back :: "span_tier \<Rightarrow> nat \<Rightarrow> nat \<Rightarrow> (addr \<Rightarrow> addr list) \<Rightarrow> addr \<Rightarrow> addr set \<Rightarrow> addr set \<Rightarrow>
    cells \<Rightarrow> addr set \<Rightarrow> span_mem \<times> span_list \<times> span_fate \<Rightarrow> bool" where
  "span_given_back T pages cls layout p S lv c dirty r \<longleftrightarrow> (\<exists>m' sl' fate pl' el' full' fl'. r = (m', sl', fate)
     \<and> span_class_inv T pages cls layout m' sl' pl' el' full' fl' dirty
     \<and> span_live layout fl' (set pl' \<union> set el' \<union> full') = lv
     \<and> class_spans sl' pl' el' full' = (case fate of KeepSpan \<Rightarrow> S | UnmapSpan b \<Rightarrow> S - {p})
     \<and> fate \<in> {KeepSpan, UnmapSpan (pages * PAGE_SIZE)} \<and> (fate \<noteq> KeepSpan \<longrightarrow> npages (hdr_at m' p) = pages)
     \<and> (\<forall>a \<in> lv. cells_of m' a = c a))"

lemma span_given_backI:
  assumes "span_class_inv T pages cls layout m' sl' pl' el' full' fl' dirty"
    "span_live layout fl' (set pl' \<union> set el' \<union> full') = lv"
    "class_spans sl' pl' el' full' = (case fate of KeepSpan \<Rightarrow> S | UnmapSpan b \<Rightarrow> S - {p})"
    "fate = KeepSpan \<or> fate = UnmapSpan (pages * PAGE_SIZE) \<and> npages (hdr_at m' p) = pages" "\<And>a. a \<in> lv \<Longrightarrow> cells_of m' a = c a"
  shows "span_given_back T pages cls layout p S lv c dirty (m', sl', fate)"
  using assms unfolding span_given_back_def by blast

text \<open>An unused span that is on no list.\<close>

lemma span_park_unlinked:
  assumes inv: "span_class_inv T pages cls layout m sl pl el full fl dirty" and tier: "t_empty_count T < 2 ^ 32"
    and p: "p \<notin> class_spans sl pl el full" "apart pages (insert p (class_spans sl pl el full))"
      "span_inv pages cls layout m fl dirty p" "used (hdr_at m p) = 0"
    and nf: "\<not> has_flag (h_flags (hdr_at m p)) FLAG_IN_PARTIAL" and pok: "span_purge_ok purge"
  shows "span_given_back T pages cls layout p (insert p (class_spans sl pl el full))
    (span_live layout fl (set pl \<union> set el \<union> full)) (cells_of m) dirty (span_park T purge m sl p)"
proof -
  let ?lv = "span_live layout fl (set pl \<union> set el \<union> full)" and ?S = "insert p (class_spans sl pl el full)"
  let ?b = "pages * PAGE_SIZE"
  have u: "mem_unlink m (sl_head sl) p = ((m, sl_head sl), False)"
    using nf by (simp add: mem_unlink_def unlink_unlinked)
  have okp: "span_ok (cells_of m) p (hdr_at m p) (layout p) (fl p)" "PAGE_SIZE dvd p" "0 < p"
    "span_mapped_bytes (hdr_at m p) = ?b" "npages (hdr_at m p) = pages" "h_class (hdr_at m p) = cls"
    using p(3) by (auto simp: span_inv_def span_ok_def span_mapped_bytes_def)
  have pin: "p \<notin> set (pl @ el @ map fst (cold_spans sl)) \<union> full"
    "apart pages (insert p (set (pl @ el @ map fst (cold_spans sl)) \<union> full))"
    using p(1,2) unfolding class_spans_def by blast+
  have cold: "cold_spans_ok T pages sl" using inv by (simp add: span_class_inv_def)
  have qinv: "span_inv pages cls layout m fl dirty q" "span_range q pages \<inter> span_range p pages = {}" "q \<noteq> p"
    if q: "q \<in> set pl \<union> set el \<union> full" for q
  proof -
    show "span_inv pages cls layout m fl dirty q" using inv q by (simp add: span_class_inv_def)
    show "q \<noteq> p" using pin(1) q by auto
    then show "span_range q pages \<inter> span_range p pages = {}" by (intro apartD [OF pin(2)]) (use q in auto)
  qed
  have far: "set (layout q) \<inter> span_range p pages = {} \<and> set (fl q) \<inter> span_range p pages = {} \<and> q \<notin> span_range p pages"
    if q: "q \<in> set pl \<union> set el \<union> full" for q
    using span_inv_blocks(1-3) [OF qinv(1) [OF q]] qinv(2) [OF q] by blast
  consider (empty) "sl_empty_count sl < t_empty_count T \<and> sl_empty_bytes sl + ?b \<le> t_empty_bytes T"
    | (cold) "\<not> (sl_empty_count sl < t_empty_count T \<and> sl_empty_bytes sl + ?b \<le> t_empty_bytes T)"
        "sl_cold_len sl < t_cold_slots T \<and> sl_cold_bytes sl + ?b \<le> t_cold_bytes T"
    | (gone) "\<not> (sl_empty_count sl < t_empty_count T \<and> sl_empty_bytes sl + ?b \<le> t_empty_bytes T)"
        "\<not> (sl_cold_len sl < t_cold_slots T \<and> sl_cold_bytes sl + ?b \<le> t_cold_bytes T)" by blast
  then show ?thesis
  proof cases
    case empty
    define m' where "m' = set_hdr m p ((hdr_at m p)\<lparr>h_next := sl_empty sl\<rparr>)"
    define sl' where "sl' = sl\<lparr>sl_empty := p, sl_empty_count := add_w 32 (sl_empty_count sl) 1,
      sl_empty_bytes := sl_empty_bytes sl + ?b\<rparr>"
    have res: "span_park T purge m sl p = (m', sl', KeepSpan)"
      using empty okp(4) by (simp add: span_park_def Let_def u m'_def sl'_def)
    have inv': "span_class_inv T pages cls layout m' sl pl el full fl dirty"
      by (rule span_class_inv_mem [OF inv]) (use qinv(3) in \<open>auto simp: m'_def\<close>)
    have pinv: "span_inv pages cls layout m' fl dirty p"
      using p(3) span_ok_cong [of "hdr_at m p" "(hdr_at m p)\<lparr>h_next := sl_empty sl\<rparr>"]
      by (simp add: span_inv_def m'_def)
    have cs: "cold_spans sl' = cold_spans sl" "cold_spans_ok T pages sl'"
      using cold by (simp_all add: cold_spans_def sl'_def cold_spans_ok_def)
    have "elist (hdrs_of m') p (p # el)" using inv' okp(3) by (simp add: span_class_inv_def m'_def)
    moreover have "used (hdr_at m' p) = 0" "\<not> has_flag (h_flags (hdr_at m' p)) FLAG_IN_PARTIAL"
      using p(4) nf by (simp_all add: m'_def)
    moreover have "sl_empty_count sl' = length (p # el)" "length (p # el) \<le> t_empty_count T"
      "sl_empty_bytes sl' = length (p # el) * ?b"
      using inv empty tier by (simp_all add: span_class_inv_def sl'_def)
    moreover have "sl_empty sl' = p" "sl_head sl' = sl_head sl" by (simp_all add: sl'_def)
    moreover have "distinct (pl @ (p # el) @ map fst (cold_spans sl))" "set (pl @ (p # el) @ map fst (cold_spans sl)) \<inter> full = {}"
      "apart pages (set (pl @ (p # el) @ map fst (cold_spans sl)) \<union> full)"
      using inv pin by (auto simp: span_class_inv_def)
    ultimately have "span_class_inv T pages cls layout m' sl' pl (p # el) full fl dirty"
      using inv' pinv cs by (simp add: span_class_inv_def)
    moreover have "span_live layout fl (set pl \<union> set (p # el) \<union> full) = ?lv"
      using span_unused(1) [OF okp(1) p(4)] by (simp add: span_live_insert)
    moreover have "class_spans sl' pl (p # el) full = ?S" by (auto simp: class_spans_def cs)
    ultimately show ?thesis unfolding res by (intro span_given_backI) (auto simp: m'_def)
  next
    case cold
    define m' where "m' = purge m p ?b"
    define idx where "idx = sl_cold_len sl"
    define sl' where "sl' = sl\<lparr>sl_cold := (sl_cold sl)[idx := (p, pages)], sl_cold_len := idx + 1,
        sl_cold_bytes := sl_cold_bytes sl + ?b\<rparr>"
    have res: "span_park T purge m sl p = (m', sl', KeepSpan)"
      unfolding span_park_def Let_def u using cold okp(4,5) by (auto simp: m'_def sl'_def idx_def)
    have out: "cells_of m' a = cells_of m a \<and> hdr_at m' a = hdr_at m a" if "a \<notin> span_range p pages" for a
      using pok that unfolding span_purge_ok_def m'_def span_range_def by (auto simp: not_less)
    have inv': "span_class_inv T pages cls layout m' sl pl el full fl dirty"
    proof (rule span_class_inv_mem [OF inv])
      fix q assume q: "q \<in> set pl \<union> set el \<union> full"
      show "hdr_at m' q = hdr_at m q \<and> fl q = fl q" using out far [OF q] by blast
      show "cells_of m' a = cells_of m a" if "a \<in> set (fl q)" for a using out [of a] far [OF q] that by blast
    qed
    have len: "idx < length (sl_cold sl)" using inv cold(2) by (simp add: span_class_inv_def cold_spans_ok_def idx_def)
    have cs: "cold_spans sl' = cold_spans sl @ [(p, pages)]"
      using len by (simp add: cold_spans_def sl'_def idx_def take_Suc_conv_app_nth)
    have ok': "cold_spans_ok T pages sl'"
      using inv' cold(2) okp(2,3) len
      by (simp add: cold_spans_ok_def span_class_inv_def cs) (simp add: sl'_def idx_def)
    have "sl_head sl' = sl_head sl" "sl_empty sl' = sl_empty sl" "sl_empty_count sl' = sl_empty_count sl"
      "sl_empty_bytes sl' = sl_empty_bytes sl" by (simp_all add: sl'_def)
    moreover have "distinct (pl @ el @ map fst (cold_spans sl'))" "set (pl @ el @ map fst (cold_spans sl')) \<inter> full = {}"
      "apart pages (set (pl @ el @ map fst (cold_spans sl')) \<union> full)"
      using inv pin unfolding cs by (auto simp: span_class_inv_def)
    ultimately have "span_class_inv T pages cls layout m' sl' pl el full fl dirty"
      using inv' ok' by (simp add: span_class_inv_def)
    moreover have "cells_of m' a = cells_of m a" if "a \<in> ?lv" for a
      using out [of a] far that unfolding span_live_def by blast
    moreover have "class_spans sl' pl el full = ?S" by (auto simp: class_spans_def cs)
    ultimately show ?thesis unfolding res by (intro span_given_backI) auto
  next
    case gone
    have "span_park T purge m sl p = (m, sl, UnmapSpan ?b)"
      using gone okp(4) by (simp add: span_park_def Let_def u)
    then show ?thesis
      using p(1) okp(5) by (simp only:) (rule span_given_backI [OF inv], auto)
  qed
qed

lemma span_park_correct:
  assumes inv: "span_class_inv T pages cls layout m sl pl el full fl dirty" and tier: "t_empty_count T < 2 ^ 32"
    and p: "p \<notin> set (el @ map fst (cold_spans sl)) \<union> full" "apart pages (insert p (class_spans sl pl el full))"
      "span_inv pages cls layout m fl dirty p" "used (hdr_at m p) = 0"
      "p \<notin> set pl \<Longrightarrow> \<not> has_flag (h_flags (hdr_at m p)) FLAG_IN_PARTIAL"
    and pok: "span_purge_ok purge"
  shows "span_given_back T pages cls layout p (insert p (class_spans sl pl el full))
    (span_live layout fl (set pl \<union> set el \<union> full)) (cells_of m) dirty (span_park T purge m sl p)"
proof (cases "p \<in> set pl")
  case False
  then show ?thesis using span_park_unlinked [OF inv tier _ p(2,3,4) _ pok] p(1,5) by (simp add: class_spans_def)
next
  case True
  obtain m' lst' where u: "mem_unlink m (sl_head sl) p = ((m', lst'), True)"
    "span_class_inv T pages cls layout m' (sl\<lparr>sl_head := lst'\<rparr>) (remove1 p pl) el full fl dirty"
    "cells_of m' = cells_of m" "span_inv pages cls layout m' fl dirty p" "used (hdr_at m' p) = used (hdr_at m p)"
    "\<not> has_flag (h_flags (hdr_at m' p)) FLAG_IN_PARTIAL"
    using span_class_inv_unlink [OF inv True] by metis
  have d: "distinct pl" using inv by (simp add: span_class_inv_def)
  then have rm: "insert p (set (remove1 p pl)) = set pl" "p \<notin> set (remove1 p pl)" using True by auto
  have cs: "cold_spans (sl\<lparr>sl_head := lst'\<rparr>) = cold_spans sl" by (simp add: cold_spans_def)
  have S: "insert p (class_spans (sl\<lparr>sl_head := lst'\<rparr>) (remove1 p pl) el full) = insert p (class_spans sl pl el full)"
    unfolding class_spans_def cs set_append using rm(1) by blast
  have skip: "mem_unlink m' lst' p = ((m', lst'), False)" using u(6) by (simp add: mem_unlink_def unlink_unlinked)
  have run: "span_park T purge m sl p = span_park T purge m' (sl\<lparr>sl_head := lst'\<rparr>) p"
    using u(1) skip by (simp add: span_park_def)
  have okp: "span_ok (cells_of m') p (hdr_at m' p) (layout p) (fl p)" "used (hdr_at m' p) = 0"
    using u(4,5) p(4) by (simp_all add: span_inv_def)
  have lv: "span_live layout fl (set (remove1 p pl) \<union> set el \<union> full) = span_live layout fl (set pl \<union> set el \<union> full)"
  proof -
    have "span_live layout fl (insert p (set (remove1 p pl) \<union> set el \<union> full)) = span_live layout fl (set (remove1 p pl) \<union> set el \<union> full)"
      using span_unused(1) [OF okp] by (simp add: span_live_insert)
    moreover have "insert p (set (remove1 p pl) \<union> set el \<union> full) = set pl \<union> set el \<union> full" using rm(1) by blast
    ultimately show ?thesis by simp
  qed
  have "p \<notin> class_spans (sl\<lparr>sl_head := lst'\<rparr>) (remove1 p pl) el full" using p(1) rm(2) by (auto simp: class_spans_def cs)
  from span_park_unlinked [OF u(2) tier this _ u(4) okp(2) u(6) pok] p(2)
  show ?thesis unfolding run S lv u(3) by simp
qed

text \<open>The header update of a release, seen from the class.\<close>

lemma span_class_inv_release:
  assumes inv: "span_class_inv T pages cls layout m sl pl el full fl dirty" and p: "p \<in> set pl \<union> full"
    and run: "linked_run (cells_of m) head tail bs" and lv: "set bs \<subseteq> set (layout p) - set (fl p)"
  defines "h' \<equiv> span_release_header (hdr_at m p) head (length bs)"
  defines "m' \<equiv> set_hdr (m\<lparr>cells_of := (cells_of m)(tail := free_head (hdr_at m p))\<rparr>) p h'"
    and "fl' \<equiv> fl(p := bs @ fl p)" and "owned \<equiv> set pl \<union> set el \<union> full"
  shows "span_class_inv T pages cls layout m' sl pl el (full - {p}) fl' (dirty \<union> set bs)"
    "span_inv pages cls layout m' fl' (dirty \<union> set bs) p" "span_live layout fl' owned = span_live layout fl owned - set bs"
    "\<And>a. a \<in> span_live layout fl owned - set bs \<Longrightarrow> cells_of m' a = cells_of m a" "fl' p \<noteq> []"
    "has_flag (h_flags h') FLAG_IN_PARTIAL \<longleftrightarrow> p \<in> set pl"
proof -
  have dd: "distinct (pl @ el @ map fst (cold_spans sl))" "set (pl @ el @ map fst (cold_spans sl)) \<inter> full = {}"
    "apart pages (set (pl @ el @ map fst (cold_spans sl)) \<union> full)"
    using inv by (simp_all add: span_class_inv_def)
  have pinv: "span_inv pages cls layout m fl dirty q" if "q \<in> owned" for q using inv that by (simp add: span_class_inv_def owned_def)
  have po: "p \<in> owned" "p \<notin> set el" using p dd by (auto simp: owned_def)
  have okp: "span_ok (cells_of m) p (hdr_at m p) (layout p) (fl p)" using pinv [OF po(1)] by (simp add: span_inv_def)
  have tl: "tail \<in> set bs" "bs \<noteq> []" using run by (auto simp: linked_run_def)
  have dj: "set (layout q) \<inter> set bs = {}" if "q \<in> owned" "q \<noteq> p" for q
  proof -
    have "span_range q pages \<inter> span_range p pages = {}"
      by (rule apartD [OF dd(3)]) (use that po(1) in \<open>auto simp: owned_def\<close>)
    then show ?thesis using span_inv_blocks(2) [OF pinv [OF that(1)]] span_inv_blocks(2) [OF pinv [OF po(1)]] lv by blast
  qed
  have f: "h_prev h' = h_prev (hdr_at m p)" "h_next h' = h_next (hdr_at m p)" "npages h' = npages (hdr_at m p)"
    "h_class h' = h_class (hdr_at m p)" "\<not> has_flag (h_flags h') FLAG_VIRGIN"
    "has_flag (h_flags h') FLAG_IN_PARTIAL = has_flag (h_flags (hdr_at m p)) FLAG_IN_PARTIAL"
    by (simp_all add: h'_def span_release_header_def)
  show P: "span_inv pages cls layout m' fl' (dirty \<union> set bs) p"
    using span_ok_release(1) [OF okp run lv] pinv [OF po(1)] f by (simp add: span_inv_def m'_def fl'_def h'_def)
  show ne: "fl' p \<noteq> []" using tl(2) by (simp add: fl'_def)
  have "p \<in> full \<Longrightarrow> \<not> has_flag (h_flags (hdr_at m p)) FLAG_IN_PARTIAL" "p \<in> full \<Longrightarrow> p \<notin> set pl"
    "p \<in> set pl \<Longrightarrow> has_flag (h_flags (hdr_at m p)) FLAG_IN_PARTIAL"
    using inv dd(2) by (auto simp: span_class_inv_def partial_list_def)
  then show "has_flag (h_flags h') FLAG_IN_PARTIAL \<longleftrightarrow> p \<in> set pl" using p f(6) by blast
  have other: "span_inv pages cls layout m' fl' (dirty \<union> set bs) q \<and> fl' q = fl q \<and> hdr_at m' q = hdr_at m q"
    if q: "q \<in> owned" "q \<noteq> p" for q
  proof -
    have "tail \<notin> set (fl q)" using dj [OF q] span_inv_blocks(1) [OF pinv [OF q(1)]] tl(1) by blast
    then have "span_inv pages cls layout m' fl' dirty q"
      by (intro span_inv_frame [OF pinv [OF q(1)]]) (use q(2) in \<open>auto simp: m'_def fl'_def\<close>)
    then show ?thesis using dj [OF q] q(2) by (auto simp: span_inv_def m'_def fl'_def)
  qed
  have "partial_list (hdrs_of m') (sl_head sl) pl"
    using inv f(1,2,6) by (auto simp: span_class_inv_def m'_def intro!: partial_list_upd)
  moreover have "elist (hdrs_of m') (sl_empty sl) el"
    using inv po(2) by (subst elist_cong [of el _ "hdrs_of m"]) (auto simp: span_class_inv_def m'_def)
  moreover have "set (pl @ el @ map fst (cold_spans sl)) \<inter> (full - {p}) = {}" using dd(2) by blast
  moreover have "apart pages (set (pl @ el @ map fst (cold_spans sl)) \<union> (full - {p}))"
    by (rule apart_mono [OF dd(3)]) blast
  moreover have "span_inv pages cls layout m' fl' (dirty \<union> set bs) q" if "q \<in> set pl \<union> set el \<union> (full - {p})" for q
    using other [of q] P that by (cases "q = p") (auto simp: owned_def)
  moreover have "fl' q \<noteq> []" if "q \<in> set pl" for q
    using other [of q] ne inv that by (cases "q = p") (auto simp: owned_def span_class_inv_def)
  moreover have "used (hdr_at m' q) = 0 \<and> \<not> has_flag (h_flags (hdr_at m' q)) FLAG_IN_PARTIAL" if "q \<in> set el" for q
    using other [of q] po(2) inv that by (cases "q = p") (auto simp: owned_def span_class_inv_def)
  moreover have "fl' q = [] \<and> \<not> has_flag (h_flags (hdr_at m' q)) FLAG_IN_PARTIAL" if "q \<in> full - {p}" for q
    using other [of q] inv that by (auto simp: owned_def span_class_inv_def)
  ultimately show "span_class_inv T pages cls layout m' sl pl el (full - {p}) fl' (dirty \<union> set bs)"
    using inv unfolding span_class_inv_def by blast
  have "set (layout q) - set (fl' q) = (set (layout q) - set (fl q)) - set bs" if "q \<in> owned" for q
    using other [OF that] dj [OF that] by (cases "q = p") (auto simp: fl'_def)
  then show "span_live layout fl' owned = span_live layout fl owned - set bs" unfolding span_live_def by blast
  show "cells_of m' a = cells_of m a" if "a \<in> span_live layout fl owned - set bs" for a
    using that tl(1) by (auto simp: m'_def)
qed

lemma span_release_inner_correct:
  assumes inv: "span_class_inv T pages cls layout m sl pl el full fl dirty" and tier: "t_empty_count T < 2 ^ 32"
    and p: "p \<in> set pl \<union> full" and run: "linked_run (cells_of m) head tail bs"
    and lv: "set bs \<subseteq> set (layout p) - set (fl p)" and pok: "span_purge_ok purge"
  shows "span_given_back T pages cls layout p (class_spans sl pl el full)
    (span_live layout fl (set pl \<union> set el \<union> full) - set bs) (cells_of m) (dirty \<union> set bs)
    (span_release_inner T purge m sl p head tail (length bs))"
proof -
  let ?n = "length bs" and ?h = "hdr_at m p"
  define h1 where "h1 = span_release_header ?h head ?n"
  define m1 where "m1 = set_hdr (m\<lparr>cells_of := (cells_of m)(tail := free_head ?h)\<rparr>) p h1"
  define fl1 where "fl1 = fl(p := bs @ fl p)"
  let ?S = "class_spans sl pl el full" and ?lv = "span_live layout fl (set pl \<union> set el \<union> full) - set bs"
  note R = span_class_inv_release [OF inv p run lv, folded h1_def m1_def fl1_def, folded m1_def]
  have dd: "set (pl @ el @ map fst (cold_spans sl)) \<inter> full = {}" "distinct (pl @ el @ map fst (cold_spans sl))"
    "apart pages (set (pl @ el @ map fst (cold_spans sl)) \<union> full)"
    using inv by (simp_all add: span_class_inv_def)
  have pne: "p \<notin> set (el @ map fst (cold_spans sl)) \<union> (full - {p})" using p dd(1,2) by auto
  have S: "insert p (class_spans sl pl el (full - {p})) = ?S" using p by (auto simp: class_spans_def)
  have ap: "apart pages (insert p (class_spans sl pl el (full - {p})))"
    using dd(3) unfolding S by (simp add: class_spans_def)
  have hdr1: "hdr_at m1 p = h1" by (simp add: m1_def)
  have own: "insert p (set pl \<union> set el \<union> (full - {p})) = set pl \<union> set el \<union> full" using p by auto
  have run1: "span_release_inner T purge m sl p head tail ?n
      = (if used h1 = 0 then span_park T purge m1 sl p
         else if \<not> has_flag (h_flags h1) FLAG_IN_PARTIAL then
           let (m2, hd2) = mem_link m1 (sl_head sl) p in (m2, sl\<lparr>sl_head := hd2\<rparr>, KeepSpan)
         else (m1, sl, KeepSpan))"
    by (simp add: span_release_inner_def Let_def h1_def span_release_header_def m1_def)
  consider (park) "used h1 = 0" | (link) "used h1 \<noteq> 0" "p \<notin> set pl" | (stay) "used h1 \<noteq> 0" "p \<in> set pl" by blast
  then show ?thesis
  proof cases
    case park
    have okp: "span_ok (cells_of m1) p h1 (layout p) (fl1 p)" using R(2) by (simp add: span_inv_def hdr1)
    have e: "span_live layout fl1 (set pl \<union> set el \<union> (full - {p})) = ?lv"
      using R(3) span_unused(1) [OF okp park] by (simp add: span_live_insert flip: own)
    have "span_given_back T pages cls layout p ?S ?lv (cells_of m1) (dirty \<union> set bs) (span_park T purge m1 sl p)"
      using span_park_correct [OF R(1) tier pne ap R(2) _ _ pok] park R(6) unfolding S e by (simp add: hdr1)
    then show ?thesis using R(4) park unfolding run1 span_given_back_def by simp
  next
    case link
    have out: "p \<notin> set (pl @ el @ map fst (cold_spans sl)) \<union> (full - {p})" using link pne by auto
    obtain m2 lst2 where l: "mem_link m1 (sl_head sl) p = (m2, lst2)"
      "span_class_inv T pages cls layout m2 (sl\<lparr>sl_head := lst2\<rparr>) (p # pl) el (full - {p}) fl1 (dirty \<union> set bs)"
      "cells_of m2 = cells_of m1"
      using span_class_inv_link [OF R(1) out ap [unfolded class_spans_def] R(2,5)] by metis
    have "set (p # pl) \<union> set el \<union> (full - {p}) = set pl \<union> set el \<union> full" using own by simp
    then have lv1: "span_live layout fl1 (set (p # pl) \<union> set el \<union> (full - {p})) = ?lv" using R(3) by simp
    have S1: "class_spans (sl\<lparr>sl_head := lst2\<rparr>) (p # pl) el (full - {p}) = ?S"
      using p by (auto simp: class_spans_def cold_spans_def)
    have "span_release_inner T purge m sl p head tail ?n = (m2, sl\<lparr>sl_head := lst2\<rparr>, KeepSpan)"
      using link R(6) l(1) by (simp add: run1)
    then show ?thesis using span_given_backI [OF l(2) lv1] S1 R(4) l(3) by simp
  next
    case stay
    have same: "full - {p} = full" using stay(2) dd(1) by auto
    have "span_release_inner T purge m sl p head tail ?n = (m1, sl, KeepSpan)"
      using stay R(6) by (simp add: run1)
    then show ?thesis using span_given_backI [OF R(1) [unfolded same] R(3)] R(4) by simp
  qed
qed

end
