(* ===== verification/Span_Tiers.thy ===== *)
theory Span_Tiers
  imports Span_Release
begin

text \<open>
  The two tiers of spans as instances of \<open>span_shape\<close>, and the ownership theorems of the medium and the
  big heap of \<open>src/src/heap.rs\<close>.
\<close>

section \<open>The tiers\<close>

definition medium_pages :: "nat \<Rightarrow> nat" where
  "medium_pages c = (case span_pages_for (MEDIUM_CLASSES ! c) of None \<Rightarrow> 0 | Some n \<Rightarrow> n)"

definition medium_layout :: "(addr \<Rightarrow> nat \<Rightarrow> bool) \<Rightarrow> nat \<Rightarrow> addr \<Rightarrow> addr list" where
  "medium_layout in_arena c p =
     (if in_arena p (medium_pages c * PAGE_SIZE)
      then blocks_at (p + SPAN_MASTER_SIZE) (MEDIUM_CLASSES ! c) (medium_capacity_for (MEDIUM_CLASSES ! c) (medium_pages c))
      else legacy_blocks p (MEDIUM_CLASSES ! c) 0 (medium_pages c))"

definition big_pages :: "nat \<Rightarrow> nat" where
  "big_pages c = big_span_pages_for (BIG_CLASSES ! c)"

definition big_layout :: "nat \<Rightarrow> addr \<Rightarrow> addr list" where
  "big_layout c p = blocks_at (p + BIG_MASTER_SIZE) (BIG_CLASSES ! c)
     ((big_pages c * PAGE_SIZE - BIG_MASTER_SIZE) div (BIG_CLASSES ! c))"

lemma medium_pages_bounds:
  assumes "c < NUM_MEDIUM"
  shows "span_pages_for (MEDIUM_CLASSES ! c) = Some (medium_pages c)" "3 \<le> medium_pages c" "medium_pages c \<le> 8"
    "8 \<le> medium_capacity_for (MEDIUM_CLASSES ! c) (medium_pages c)"
proof -
  let ?l = "[3, 3, 3, 4, 4, 5, 5, 6, 6, 7, 8, 8 :: nat]"
  have len: "c < length ?l" using assms by (simp add: NUM_MEDIUM_eq)
  have "map span_pages_for MEDIUM_CLASSES ! c = span_pages_for (MEDIUM_CLASSES ! c)"
    by (rule nth_map) (use assms in simp)
  moreover have "map Some ?l ! c = Some (?l ! c)" by (rule nth_map [OF len])
  ultimately have e: "span_pages_for (MEDIUM_CLASSES ! c) = Some (?l ! c)" by (simp only: medium_span_pages_table)
  have "?l ! c \<in> set ?l" by (rule nth_mem [OF len])
  then have "3 \<le> ?l ! c \<and> ?l ! c \<le> 8" by auto
  then show p: "span_pages_for (MEDIUM_CLASSES ! c) = Some (medium_pages c)" "3 \<le> medium_pages c" "medium_pages c \<le> 8"
    using e by (simp_all add: medium_pages_def)
  have "0 < MEDIUM_CLASSES ! c" using MEDIUM_CLASSES_bounds [OF assms] by (simp add: const_simps)
  then have "\<exists>n. span_pages_loop (MEDIUM_CLASSES ! c) 1 = Some n \<and> TARGET_BLOCKS_PER_SPAN \<le> medium_capacity_for (MEDIUM_CLASSES ! c) n"
  proof -
    have "\<forall>q < 1. medium_capacity_for (MEDIUM_CLASSES ! c) q < TARGET_BLOCKS_PER_SPAN"
      by (simp add: medium_capacity_for_def TARGET_BLOCKS_PER_SPAN_def)
    then show ?thesis using span_pages_loop_minimal [OF \<open>0 < MEDIUM_CLASSES ! c\<close>] by blast
  qed
  then show "8 \<le> medium_capacity_for (MEDIUM_CLASSES ! c) (medium_pages c)"
    using p(1) by (auto simp: span_pages_for_def TARGET_BLOCKS_PER_SPAN_def)
qed

lemma big_pages_bounds:
  assumes "c < NUM_BIG"
  shows "1 \<le> big_pages c" "big_pages c < 2 ^ 16" "8 * BIG_CLASSES ! c + 64 \<le> big_pages c * PAGE_SIZE"
proof -
  have b: "65472 < BIG_CLASSES ! c" "BIG_CLASSES ! c \<le> 1048576" using BIG_CLASSES_bounds [OF assms] by (simp_all add: const_simps)
  then show "1 \<le> big_pages c" "big_pages c < 2 ^ 16" "8 * BIG_CLASSES ! c + 64 \<le> big_pages c * PAGE_SIZE"
    by (simp_all add: big_pages_def big_span_pages_for_def const_simps)
qed

lemma master_fields:
  assumes "c < 2 ^ 16" "n < 2 ^ 32" "k < 2 ^ 32"
  shows "free_head (master_of g hed k c n) = hed" "free_count (master_of g hed k c n) = k" "used (master_of g hed k c n) = 0"
    "npages (master_of g hed k c n) = n" "h_class (master_of g hed k c n) = c"
  using assms by (simp_all add: master_of_def)

text \<open>A freshly carved span: all its blocks are on the free list.\<close>

lemma fresh_span_ok:
  assumes "PAGE_SIZE dvd p" "0 < p" "0 < n" "n < 2 ^ 16" "c < 2 ^ 16" "bl \<noteq> []" "distinct bl" "length bl < 2 ^ 32"
    "set bl \<subseteq> span_range p n - {p}" "chain m hed (rev bl)"
  shows "span_ok m p (master_of g hed (length bl) c n) bl (rev bl)"
  using assms by (simp add: span_ok_def master_fields)

lemma blocks_at_span:
  assumes "0 < r" "0 < bs" "k * bs + r \<le> n * PAGE_SIZE"
  shows "set (blocks_at (p + r) bs k) \<subseteq> span_range p n - {p}"
  using blocks_at_inside [of _ "p + r" bs k] assms by (fastforce simp: span_range_def)

section \<open>The medium tier\<close>

lemma medium_init_span:
  assumes c: "c < NUM_MEDIUM" and p: "PAGE_SIZE dvd p" "0 < p"
  shows "\<exists>m' h x. t_init (medium_tier in_arena c) m p (medium_pages c) = Some (m', h)
      \<and> span_ok m' p h (medium_layout in_arena c p) x \<and> used h = 0 \<and> npages h = medium_pages c \<and> h_class h = c
      \<and> (\<forall>a. a \<notin> span_range p (medium_pages c) \<longrightarrow> m' a = m a)"
proof -
  let ?n = "medium_pages c" and ?bs = "MEDIUM_CLASSES ! c"
  have n: "0 < ?n" "?n < 2 ^ 16" "?n < 2 ^ 32" "c < 2 ^ 16"
    using medium_pages_bounds [OF c] c by (simp_all add: NUM_MEDIUM_eq)
  have bs: "0 < ?bs" using MEDIUM_CLASSES_bounds [OF c] by (simp add: const_simps)
  show ?thesis
  proof (cases "in_arena p (?n * PAGE_SIZE)")
    case True
    let ?k = "medium_capacity_for ?bs ?n" and ?bl = "medium_layout in_arena c p"
    have bl: "?bl = blocks_at (p + SPAN_MASTER_SIZE) ?bs ?k" using True by (simp add: medium_layout_def)
    obtain m' hed where i: "span_init True m p c ?n = Some (m', master_of SPAN_MAGIC hed ?k c ?n)"
      "chain m' hed (rev ?bl)" "?k < 2 ^ 32" "\<And>a. a \<notin> set ?bl \<Longrightarrow> m' a = m a"
      unfolding bl using span_init_arena [OF p(1) c n(1,2), of m] by blast
    have "?k * ?bs + SPAN_MASTER_SIZE \<le> ?n * PAGE_SIZE"
    proof -
      have "?k * ?bs \<le> ?n * PAGE_SIZE - 64" by (simp add: medium_capacity_for_def const_simps)
      then show ?thesis using page_reserve_le [OF n(1)] by (simp add: const_simps)
    qed
    then have inside: "set ?bl \<subseteq> span_range p ?n - {p}"
      unfolding bl by (intro blocks_at_span) (use bs in \<open>simp_all add: const_simps\<close>)
    have l: "length ?bl = ?k" "distinct ?bl" using bs by (simp_all add: bl)
    have "?bl \<noteq> []" using l(1) medium_pages_bounds(4) [OF c] by auto
    then have "span_ok m' p (master_of SPAN_MAGIC hed ?k c ?n) ?bl (rev ?bl)"
      using fresh_span_ok [OF p n(1,2,4), of ?bl m' hed SPAN_MAGIC] inside i(2,3) l by simp
    moreover have "m' a = m a" if "a \<notin> span_range p ?n" for a using i(4) inside that by blast
    ultimately show ?thesis
      using i(1) True n i(3) by (simp add: medium_tier_def master_fields) blast
  next
    case False
    let ?bl = "medium_layout in_arena c p"
    have bl: "?bl = legacy_blocks p ?bs 0 ?n" using False by (simp add: medium_layout_def)
    obtain m' hed where i: "span_init False m p c ?n = Some (m', master_of SPAN_MAGIC hed (length ?bl) c ?n)"
      "chain m' hed (rev ?bl)" "distinct ?bl" "length ?bl = medium_capacity_legacy_for ?bs ?n" "length ?bl < 2 ^ 32"
      "\<And>a. a \<notin> set ?bl \<Longrightarrow> m' a = write_subs m p (?n - 1) a"
      unfolding bl using span_init_legacy [OF p(2) c n(1,2), of m] by blast
    have inside: "set ?bl \<subseteq> span_range p ?n - {p}"
    proof
      fix b assume "b \<in> set ?bl"
      then obtain j where j: "j < ?n" "p + j * PAGE_SIZE + chunk_reserve j \<le> b" "b + ?bs \<le> p + (j + 1) * PAGE_SIZE"
        using legacy_block_in_page unfolding bl by blast
      have "(j + 1) * PAGE_SIZE \<le> ?n * PAGE_SIZE" using j(1) by (intro mult_le_mono1) simp
      moreover have "0 < chunk_reserve j" by (simp add: chunk_reserve_def const_simps)
      ultimately show "b \<in> span_range p ?n - {p}" using j(2,3) bs by (simp add: span_range_def)
    qed
    have "?bl \<noteq> []"
    proof -
      have "?bs \<le> 65472" using MEDIUM_CLASSES_bounds [OF c] by (simp add: const_simps)
      then have "1 \<le> 65472 div ?bs" using bs by (simp add: less_eq_div_iff_mult_less_eq)
      then have "0 < medium_capacity_legacy_for ?bs ?n" by (simp add: medium_capacity_legacy_for_def const_simps n(1))
      then show ?thesis using i(4) by auto
    qed
    then have "span_ok m' p (master_of SPAN_MAGIC hed (length ?bl) c ?n) ?bl (rev ?bl)"
      using fresh_span_ok [OF p n(1,2,4), of ?bl m' hed SPAN_MAGIC] inside i(2,3,5) by simp
    moreover have "m' a = m a" if "a \<notin> span_range p ?n" for a
    proof -
      have "a \<notin> set ?bl" using inside that by blast
      moreover have "write_subs m p (?n - 1) a = m a"
        using write_subs_frame [of a p "?n - 1" m] n(1) that by (simp add: span_range_def)
      ultimately show ?thesis using i(6) by simp
    qed
    ultimately show ?thesis
      using i(1) False n i(5) by (simp add: medium_tier_def master_fields) blast
  qed
qed

lemma medium_batch_pos: "c < NUM_MEDIUM \<Longrightarrow> 0 < medium_refill_batch c"
  using medium_pages_bounds [of c] by (simp add: medium_refill_batch_def Let_def MEDIUM_REFILL_BATCH_def)

interpretation med: span_shape "medium_tier in_arena" medium_pages "medium_layout in_arena" NUM_MEDIUM
  for in_arena
proof (unfold_locales, goal_cases)
  case (1 c)
  then show ?case using medium_batch_pos by (simp add: medium_tier_def)
next
  case (2 c)
  then show ?case by (simp add: medium_tier_def EMPTY_SPAN_CACHE_PER_CLASS_def)
next
  case (3 c p m)
  then show ?case by (rule medium_init_span)
qed

section \<open>The big tier\<close>

lemma big_init_span:
  assumes c: "c < NUM_BIG" and p: "PAGE_SIZE dvd p" "0 < p"
  shows "\<exists>m' h x. t_init (big_tier c) m p (big_pages c) = Some (m', h)
      \<and> span_ok m' p h (big_layout c p) x \<and> used h = 0 \<and> npages h = big_pages c \<and> h_class h = c
      \<and> (\<forall>a. a \<notin> span_range p (big_pages c) \<longrightarrow> m' a = m a)"
proof -
  let ?n = "big_pages c" and ?bs = "BIG_CLASSES ! c" and ?bl = "big_layout c p"
  let ?k = "(?n * PAGE_SIZE - BIG_MASTER_SIZE) div ?bs"
  have n: "0 < ?n" "?n < 2 ^ 16" "?n < 2 ^ 32" "c < 2 ^ 16"
    using big_pages_bounds [OF c] c by (simp_all add: NUM_BIG_eq)
  have bs: "0 < ?bs" using BIG_CLASSES_bounds [OF c] by (simp add: const_simps)
  have bl: "?bl = blocks_at (p + BIG_MASTER_SIZE) ?bs ?k" by (simp add: big_layout_def)
  obtain m' hed where i: "big_init m p c ?n = Some (m', master_of BIGMAGIC hed ?k c ?n)"
    "chain m' hed (rev ?bl)" "?k < 2 ^ 32" "BIG_MASTER_SIZE \<le> ?n * PAGE_SIZE" "\<And>a. a \<notin> set ?bl \<Longrightarrow> m' a = m a"
    unfolding bl using big_init_carved [OF c n(1,2), of m p] by blast
  have "?k * ?bs \<le> ?n * PAGE_SIZE - BIG_MASTER_SIZE" by simp
  then have "?k * ?bs + BIG_MASTER_SIZE \<le> ?n * PAGE_SIZE" using i(4) by linarith
  then have inside: "set ?bl \<subseteq> span_range p ?n - {p}"
    unfolding bl by (intro blocks_at_span) (use bs in \<open>simp_all add: BIG_MASTER_SIZE_def\<close>)
  have l: "length ?bl = ?k" "distinct ?bl" using bs by (simp_all add: bl)
  have "0 < ?k" using big_pages_bounds(3) [OF c] bs by (simp add: div_greater_zero_iff BIG_MASTER_SIZE_def)
  then have "?bl \<noteq> []" using l(1) by (metis length_0_conv not_gr_zero)
  then have "span_ok m' p (master_of BIGMAGIC hed ?k c ?n) ?bl (rev ?bl)"
    using fresh_span_ok [OF p n(1,2,4), of ?bl m' hed BIGMAGIC] inside i(2,3) l by simp
  moreover have "m' a = m a" if "a \<notin> span_range p ?n" for a using i(5) inside that by blast
  ultimately show ?thesis
    using i(1) n i(3) by (simp add: big_tier_def master_fields) blast
qed

interpretation big: span_shape big_tier big_pages big_layout NUM_BIG
proof (unfold_locales, goal_cases)
  case (1 c)
  then show ?case by (simp add: big_tier_def BIG_REFILL_BATCH_def)
next
  case (2 c)
  then show ?case by (simp add: big_tier_def EMPTY_BIG_SPAN_CACHE_PER_CLASS_def)
next
  case (3 c p m)
  then show ?case by (rule big_init_span)
qed

section \<open>Taking\<close>

text \<open>What a caller may rely on when the system answers with \<open>raw\<close>: a page-aligned range apart from the class.\<close>

definition raw_ok :: "nat \<Rightarrow> addr set \<Rightarrow> addr \<Rightarrow> bool" where
  "raw_ok pages S raw \<longleftrightarrow> raw = null \<or> PAGE_SIZE dvd raw \<and> raw \<notin> S \<and> apart pages (insert raw S)"

text \<open>C11 (medium heap, take).  On a well-formed class \<open>MediumHeap::take_blocks\<close> always returns.  Either it
  serves between 1 and \<open>medium_refill_batch\<close> distinct blocks nobody held from the spans of the class,
  and leaves the side table alone; or the class had no block and the fresh range \<open>raw\<close> was carved,
  joins the class, is served from, and (inside the arena) is entered in the side table under its base
  and length; or the class had no block and the system refused, and nothing changed.  No span of the
  class is lost, no live block's memory changes, and \<open>virgin\<close> is only reported for blocks that were not
  handed back since their span was mapped.\<close>

theorem medium_take_blocks_correct:
  assumes "c < NUM_MEDIUM"
    and "span_class_inv (medium_tier in_arena c) (medium_pages c) c (medium_layout in_arena c) m sl pl el full fl dirty"
    and "raw_ok (medium_pages c) (class_spans sl pl el full) raw"
  shows "\<exists>s effs. medium_take_blocks in_arena c raw m sl = Some (s, effs)
    \<and> (span_served (medium_tier in_arena c) (medium_pages c) c (medium_layout in_arena c) (class_spans sl pl el full)
          (span_live (medium_layout in_arena c) fl (set pl \<union> set el \<union> full)) (cells_of m) dirty s \<and> effs = []
      \<or> raw \<noteq> null \<and> span_served (medium_tier in_arena c) (medium_pages c) c (medium_layout in_arena c)
          (insert raw (class_spans sl pl el full))
          (span_live (medium_layout in_arena c) fl (set pl \<union> set el \<union> full)) (cells_of m)
          (dirty - span_range raw (medium_pages c)) s
        \<and> effs = (if in_arena raw (medium_pages c * PAGE_SIZE) then [MediumTableSet raw (medium_pages c)] else [])
      \<or> raw = null \<and> pl = [] \<and> el = [] \<and> cold_spans sl = [] \<and> s = ((m, sl), null, 0, False) \<and> effs = [])"
proof (cases rule: med.take_step [OF assms(1,2) assms(3) [unfolded raw_ok_def]])
  case (1 s)
  then show ?thesis using medium_pages_bounds(1) [OF assms(1)] by (auto simp: medium_take_blocks_def)
next
  case (2 s)
  then show ?thesis using medium_pages_bounds(1) [OF assms(1)] by (auto simp: medium_take_blocks_def)
next
  case 3
  then show ?thesis using medium_pages_bounds(1) [OF assms(1)] by (auto simp: medium_take_blocks_def)
qed

lemma span_class_inv_new:
  "t_cold_slots T = n \<Longrightarrow> span_class_inv T pages cls layout m (span_list_new n) [] [] {} fl {}"
  by (simp add: span_class_inv_def span_list_new_def partial_list_def cold_spans_def apart_def cold_spans_ok_def)

definition blank_spans :: span_mem where
  "blank_spans = \<lparr>cells_of = \<lambda>_. 0, hdrs_of = \<lambda>_. master_of 0 0 0 0 0\<rparr>"

lemma served_some: "span_served T pages cls layout S lv c dirty s \<Longrightarrow> 0 < fst (snd (snd s)) \<and> fst (snd (snd s)) \<le> t_batch T"
  by (auto simp: span_served_def span_refilled_def)

lemma raw_ok_first: "raw_ok pages (class_spans (span_list_new n) [] [] {}) 65536"
  by (simp add: raw_ok_def class_spans_def cold_spans_def span_list_new_def apart_def const_simps)

theorem medium_take_blocks_correct_witness:
  "\<exists>s. medium_take_blocks (\<lambda>_ _. True) 2 65536 blank_spans mspan_list_new
     = Some (s, [MediumTableSet 65536 (medium_pages 2)]) \<and> 0 < fst (snd (snd s)) \<and> fst (snd (snd s)) \<le> 16"
proof -
  have c: "2 < NUM_MEDIUM" by (simp add: NUM_MEDIUM_eq)
  have "medium_refill_batch 2 \<le> 16" by (simp add: medium_refill_batch_def Let_def MEDIUM_REFILL_BATCH_def)
  then have b: "t_batch (medium_tier (\<lambda>_ _. True) 2) \<le> 16" by (simp add: medium_tier_def)
  have inv: "span_class_inv (medium_tier (\<lambda>_ _. True) 2) (medium_pages 2) 2 (medium_layout (\<lambda>_ _. True) 2) blank_spans
      mspan_list_new [] [] {} (\<lambda>_. []) {}"
    unfolding mspan_list_new_def by (rule span_class_inv_new) (simp add: medium_tier_def)
  have r: "sl_head mspan_list_new = 0" "sl_empty mspan_list_new = 0" "sl_cold_len mspan_list_new = 0"
    by (simp_all add: mspan_list_new_def span_list_new_def)
  have e: "snd x = [MediumTableSet 65536 (medium_pages 2)]"
    if "medium_take_blocks (\<lambda>_ _. True) 2 65536 blank_spans mspan_list_new = Some x" for x
    using that r medium_pages_bounds(1) [OF c] medium_batch_pos [OF c]
    by (auto simp: medium_take_blocks_def span_take_locked_def srefill_class_def sfill_from_list.simps
        span_take_empty_def span_take_cold_def medium_tier_def split: bind_splits)
  have "raw_ok (medium_pages 2) (class_spans mspan_list_new [] [] {}) 65536" unfolding mspan_list_new_def by (rule raw_ok_first)
  from medium_take_blocks_correct [OF c inv this]
  show ?thesis using e served_some b by fastforce
qed

text \<open>C13 (big heap, take).  The same for \<open>BigHeap::take_blocks\<close>, whose spans come from the arena only: a
  fresh span is always entered in the big side table.\<close>

theorem big_take_blocks_correct:
  assumes "c < NUM_BIG"
    and "span_class_inv (big_tier c) (big_pages c) c (big_layout c) m sl pl el full fl dirty"
    and "raw_ok (big_pages c) (class_spans sl pl el full) raw"
  shows "\<exists>s effs. big_take_blocks c raw m sl = Some (s, effs)
    \<and> (span_served (big_tier c) (big_pages c) c (big_layout c) (class_spans sl pl el full)
          (span_live (big_layout c) fl (set pl \<union> set el \<union> full)) (cells_of m) dirty s \<and> effs = []
      \<or> raw \<noteq> null \<and> span_served (big_tier c) (big_pages c) c (big_layout c) (insert raw (class_spans sl pl el full))
          (span_live (big_layout c) fl (set pl \<union> set el \<union> full)) (cells_of m) (dirty - span_range raw (big_pages c)) s
        \<and> effs = [BigTableSet raw (big_pages c)]
      \<or> raw = null \<and> pl = [] \<and> el = [] \<and> cold_spans sl = [] \<and> s = ((m, sl), null, 0, False) \<and> effs = [])"
proof (cases rule: big.take_step [OF assms(1,2) assms(3) [unfolded raw_ok_def]])
  case (1 s)
  then show ?thesis by (auto simp: big_take_blocks_def Let_def big_pages_def)
next
  case (2 s)
  then show ?thesis by (auto simp: big_take_blocks_def Let_def big_pages_def)
next
  case 3
  then show ?thesis by (auto simp: big_take_blocks_def Let_def big_pages_def)
qed

theorem big_take_blocks_correct_witness:
  "\<exists>s effs. big_take_blocks 3 65536 blank_spans bspan_list_new = Some (s, effs)
     \<and> 0 < fst (snd (snd s)) \<and> fst (snd (snd s)) \<le> 4"
proof -
  have c: "3 < NUM_BIG" by (simp add: NUM_BIG_eq)
  have inv: "span_class_inv (big_tier 3) (big_pages 3) 3 (big_layout 3) blank_spans bspan_list_new [] [] {} (\<lambda>_. []) {}"
    unfolding bspan_list_new_def by (rule span_class_inv_new) (simp add: big_tier_def)
  have b: "t_batch (big_tier 3) = 4" by (simp add: big_tier_def BIG_REFILL_BATCH_def)
  have "raw_ok (big_pages 3) (class_spans bspan_list_new [] [] {}) 65536" unfolding bspan_list_new_def by (rule raw_ok_first)
  from big_take_blocks_correct [OF c inv this] show ?thesis by (auto dest!: served_some simp: b)
qed

section \<open>Releasing\<close>

text \<open>The span of a live block is found from its address.\<close>

lemma live_block_span:
  assumes inv: "span_class_inv T pages cls layout m sl pl el full fl dirty"
    and p: "p \<in> class_spans sl pl el full" and bs: "bs \<noteq> {}" "bs \<subseteq> span_range p pages"
      "bs \<subseteq> span_live layout fl (set pl \<union> set el \<union> full)"
  shows "p \<in> set pl \<union> full" "bs \<subseteq> set (layout p) - set (fl p)"
proof -
  have own: "b \<in> set (layout p) - set (fl p) \<and> p \<in> set pl \<union> full" if b: "b \<in> bs" for b
  proof -
    obtain q where q: "q \<in> set pl \<union> set el \<union> full" "b \<in> set (layout q) - set (fl q)"
      using bs(3) b by (auto simp: span_live_def)
    have i: "span_inv pages cls layout m fl dirty q" using inv q(1) by (simp add: span_class_inv_def)
    have "q = p"
    proof (rule ccontr)
      assume "q \<noteq> p"
      moreover have "apart pages (class_spans sl pl el full)" using inv by (simp add: span_class_inv_def class_spans_def)
      ultimately have "span_range q pages \<inter> span_range p pages = {}"
        by (rule apartD [rotated -1]) (use q(1) p in \<open>auto simp: class_spans_def\<close>)
      then show False using span_inv_blocks(2) [OF i] q(2) bs(2) b by blast
    qed
    moreover have "q \<notin> set el"
    proof
      assume "q \<in> set el"
      then have "used (hdr_at m q) = 0" using inv by (simp add: span_class_inv_def)
      then have "set (fl q) = set (layout q)" using span_unused(1) i unfolding span_inv_def by blast
      then show False using q(2) by simp
    qed
    ultimately show ?thesis using q by auto
  qed
  show "bs \<subseteq> set (layout p) - set (fl p)" using own by blast
  show "p \<in> set pl \<union> full" using own bs(1) by blast
qed

text \<open>The tail search of the big tier ends at the last block of the chain.\<close>

lemma find_tail_chain: "chain m ch bs \<Longrightarrow> bs \<noteq> [] \<Longrightarrow> find_tail m ch = Some (last bs)"
proof (induction bs arbitrary: ch)
  case (Cons b bs)
  then show ?case by (subst find_tail.simps) (cases bs; auto)
qed simp

lemma big_release_blocks_facts:
  assumes "c < NUM_BIG" "span_class_inv (big_tier c) (big_pages c) c (big_layout c) m sl pl el full fl dirty"
    and "span_purge_ok purge" "p \<in> class_spans sl pl el full" "set bs \<subseteq> span_range p (big_pages c)"
    and "chain (cells_of m) ch bs" "distinct bs" "bs \<noteq> []"
    and "set bs \<subseteq> span_live (big_layout c) fl (set pl \<union> set el \<union> full)"
  shows "\<exists>m' sl' effs pl' el' full' fl'.
    big_release_blocks in_arena purge m sl p ch (length bs) = Some (m', sl', effs)
    \<and> span_class_inv (big_tier c) (big_pages c) c (big_layout c) m' sl' pl' el' full' fl' (dirty \<union> set bs)
    \<and> span_live (big_layout c) fl' (set pl' \<union> set el' \<union> full')
        = span_live (big_layout c) fl (set pl \<union> set el \<union> full) - set bs
    \<and> (\<forall>a \<in> span_live (big_layout c) fl (set pl \<union> set el \<union> full) - set bs. cells_of m' a = cells_of m a)
    \<and> (class_spans sl' pl' el' full' = class_spans sl pl el full \<and> effs = []
      \<or> class_spans sl' pl' el' full' = class_spans sl pl el full - {p}
        \<and> effs = [BigTableClear p (big_pages c),
             if in_arena p (big_pages c * PAGE_SIZE) then SpanArenaRelease p (big_pages c)
             else SpanOsUnmap p (big_pages c * PAGE_SIZE)])"
proof -
  have tier: "t_empty_count (big_tier c) < 2 ^ 32" by (simp add: big_tier_def EMPTY_BIG_SPAN_CACHE_PER_CLASS_def)
  have "set bs \<noteq> {}" using assms(8) by simp
  note p = live_block_span [OF assms(2,4) this assms(5,9)]
  have "span_inv (big_pages c) c (big_layout c) m fl dirty p" using assms(2) p(1) by (auto simp: span_class_inv_def)
  then have cls: "h_class (hdr_at m p) = c" by (simp add: span_inv_def)
  have "(cells_of m)(last bs := null) = cells_of m" using chain_last_null [OF assms(6,8)] by auto
  then have run: "linked_run (cells_of m) ch (last bs) bs" using assms(6-8) by (simp add: linked_run_def)
  from span_release_inner_correct [OF assms(2) tier p(1) run p(2) assms(3)]
  obtain m' sl' fate pl' el' full' fl' where r:
    "span_release_inner (big_tier c) purge m sl p ch (last bs) (length bs) = (m', sl', fate)"
    "span_class_inv (big_tier c) (big_pages c) c (big_layout c) m' sl' pl' el' full' fl' (dirty \<union> set bs)"
    "span_live (big_layout c) fl' (set pl' \<union> set el' \<union> full')
        = span_live (big_layout c) fl (set pl \<union> set el \<union> full) - set bs"
    "class_spans sl' pl' el' full' = (case fate of KeepSpan \<Rightarrow> class_spans sl pl el full
       | UnmapSpan b \<Rightarrow> class_spans sl pl el full - {p})"
    "fate = KeepSpan \<or> fate = UnmapSpan (big_pages c * PAGE_SIZE)" "fate \<noteq> KeepSpan \<longrightarrow> npages (hdr_at m' p) = big_pages c"
    "\<forall>a \<in> span_live (big_layout c) fl (set pl \<union> set el \<union> full) - set bs. cells_of m' a = cells_of m a"
    unfolding span_given_back_def by blast
  have "big_release_blocks in_arena purge m sl p ch (length bs) = Some (m', sl', case fate of KeepSpan \<Rightarrow> []
      | UnmapSpan b \<Rightarrow> [BigTableClear p (npages (hdr_at m' p)),
          if in_arena p b then SpanArenaRelease p (b div PAGE_SIZE) else SpanOsUnmap p b])"
    using r(1) by (simp add: big_release_blocks_def brelease_inner_def cls find_tail_chain [OF assms(6,8)] bact_fate_def
        split: span_fate.splits)
  moreover have "big_pages c * PAGE_SIZE div PAGE_SIZE = big_pages c" by (simp add: PAGE_SIZE_def)
  ultimately show ?thesis
    using r(2-4,7) r(5,6) by (elim disjE) (simp_all, blast+)
qed

text \<open>\<open>BigHeap::release_blocks\<close> on a null-terminated chain of live blocks of one
  span returns (its walk to the tail ends): exactly these blocks stop being live, the class is well
  formed, no other live block is touched.  Either all spans stay in the class and nothing is asked of
  the arena or the system, or the emptied span leaves the class, its side-table entries are cleared and
  its whole range is given back exactly once.\<close>

theorem big_release_blocks_correct:
  assumes "c < NUM_BIG" "span_class_inv (big_tier c) (big_pages c) c (big_layout c) m sl pl el full fl dirty"
    and "span_purge_ok purge" "p \<in> class_spans sl pl el full" "set bs \<subseteq> span_range p (big_pages c)"
    and "chain (cells_of m) ch bs" "distinct bs" "bs \<noteq> []"
    and "set bs \<subseteq> span_live (big_layout c) fl (set pl \<union> set el \<union> full)"
  shows "\<exists>m' sl' effs pl' el' full' fl'.
    big_release_blocks in_arena purge m sl p ch (length bs) = Some (m', sl', effs)
    \<and> span_class_inv (big_tier c) (big_pages c) c (big_layout c) m' sl' pl' el' full' fl' (dirty \<union> set bs)
    \<and> span_live (big_layout c) fl' (set pl' \<union> set el' \<union> full')
        = span_live (big_layout c) fl (set pl \<union> set el \<union> full) - set bs
    \<and> (\<forall>a \<in> span_live (big_layout c) fl (set pl \<union> set el \<union> full) - set bs. cells_of m' a = cells_of m a)
    \<and> (class_spans sl' pl' el' full' = class_spans sl pl el full \<and> effs = []
      \<or> class_spans sl' pl' el' full' = class_spans sl pl el full - {p}
        \<and> effs = [BigTableClear p (big_pages c),
             if in_arena p (big_pages c * PAGE_SIZE) then SpanArenaRelease p (big_pages c)
             else SpanOsUnmap p (big_pages c * PAGE_SIZE)])"
  by (rule big_release_blocks_facts [OF assms])

section \<open>Releasing in groups\<close>

definition mchunk_ok :: "nat \<Rightarrow> cells \<Rightarrow> addr set \<Rightarrow> addr set \<Rightarrow> mrelease_chunk \<Rightarrow> addr list \<Rightarrow> bool" where
  "mchunk_ok pages m S lv k bs \<longleftrightarrow> linked_run m (mc_head k) (mc_tail k) bs \<and> mc_n k = length bs
     \<and> set bs \<subseteq> lv \<and> mc_span k \<in> S \<and> set bs \<subseteq> span_range (mc_span k) pages"

definition mchunks_ok :: "nat \<Rightarrow> cells \<Rightarrow> addr set \<Rightarrow> addr set \<Rightarrow> (mrelease_chunk \<times> addr list) list \<Rightarrow> bool" where
  "mchunks_ok pages m S lv ks \<longleftrightarrow> (\<forall>(k, bs) \<in> set ks. mchunk_ok pages m S lv k bs) \<and> distinct (concat (map snd ks))"

text \<open>What the spans \<open>us\<close> that left the class cost: the table entries under the lock, the ranges after it.\<close>

definition clears :: "(addr \<Rightarrow> nat \<Rightarrow> bool) \<Rightarrow> nat \<Rightarrow> addr list \<Rightarrow> span_effect list" where
  "clears in_arena pages us = map (\<lambda>u. MediumTableClear u pages) (filter (\<lambda>u. in_arena u (pages * PAGE_SIZE)) us)"

definition give_up :: "(addr \<Rightarrow> nat \<Rightarrow> bool) \<Rightarrow> nat \<Rightarrow> addr list \<Rightarrow> span_effect list" where
  "give_up in_arena pages us = map (\<lambda>u. if in_arena u (pages * PAGE_SIZE) then SpanArenaRelease u pages
     else SpanOsUnmap u (pages * PAGE_SIZE)) us"

lemma mrelease_inner_correct:
  assumes c: "c < NUM_MEDIUM"
    and inv: "span_class_inv (medium_tier in_arena c) (medium_pages c) c (medium_layout in_arena c) m sl pl el full fl dirty"
    and pok: "span_purge_ok purge"
    and k: "mchunk_ok (medium_pages c) (cells_of m) (class_spans sl pl el full)
      (span_live (medium_layout in_arena c) fl (set pl \<union> set el \<union> full)) k bs"
  shows "\<exists>m' sl' fate us pl' el' full' fl'.
    mrelease_inner in_arena c purge m sl (mc_span k) (mc_head k) (mc_tail k) (mc_n k) = (m', sl', fate, clears in_arena (medium_pages c) us)
    \<and> mact_fate in_arena (mc_span k) fate = give_up in_arena (medium_pages c) us
    \<and> (us = [] \<or> us = [mc_span k]) \<and> class_spans sl' pl' el' full' = class_spans sl pl el full - set us
    \<and> span_class_inv (medium_tier in_arena c) (medium_pages c) c (medium_layout in_arena c) m' sl' pl' el' full' fl' (dirty \<union> set bs)
    \<and> span_live (medium_layout in_arena c) fl' (set pl' \<union> set el' \<union> full')
        = span_live (medium_layout in_arena c) fl (set pl \<union> set el \<union> full) - set bs
    \<and> (\<forall>a \<in> span_live (medium_layout in_arena c) fl (set pl \<union> set el \<union> full) - set bs. cells_of m' a = cells_of m a)"
proof -
  let ?T = "medium_tier in_arena c" and ?L = "medium_layout in_arena c" and ?n = "medium_pages c" and ?p = "mc_span k"
  let ?lv = "span_live ?L fl (set pl \<union> set el \<union> full) - set bs"
  have tier: "t_empty_count ?T < 2 ^ 32" by (simp add: medium_tier_def EMPTY_SPAN_CACHE_PER_CLASS_def)
  have kk: "linked_run (cells_of m) (mc_head k) (mc_tail k) bs" "mc_n k = length bs" "?p \<in> class_spans sl pl el full"
    "set bs \<noteq> {}" "set bs \<subseteq> span_range ?p ?n" "set bs \<subseteq> span_live ?L fl (set pl \<union> set el \<union> full)"
    using k by (auto simp: mchunk_ok_def linked_run_def)
  note p = live_block_span [OF inv kk(3,4,5,6)]
  from span_release_inner_correct [OF inv tier p(1) kk(1) p(2) pok]
  obtain m' sl' fate pl' el' full' fl' where r:
    "span_release_inner ?T purge m sl ?p (mc_head k) (mc_tail k) (length bs) = (m', sl', fate)"
    "span_class_inv ?T ?n c ?L m' sl' pl' el' full' fl' (dirty \<union> set bs)"
    "span_live ?L fl' (set pl' \<union> set el' \<union> full') = ?lv"
    "class_spans sl' pl' el' full' = (case fate of KeepSpan \<Rightarrow> class_spans sl pl el full
       | UnmapSpan b \<Rightarrow> class_spans sl pl el full - {?p})"
    "fate = KeepSpan \<or> fate = UnmapSpan (?n * PAGE_SIZE)" "fate \<noteq> KeepSpan \<longrightarrow> npages (hdr_at m' ?p) = ?n"
    "\<forall>a \<in> ?lv. cells_of m' a = cells_of m a"
    unfolding span_given_back_def by blast
  define us where "us = (if fate = KeepSpan then [] else [?p])"
  have "mrelease_inner in_arena c purge m sl ?p (mc_head k) (mc_tail k) (mc_n k) = (m', sl', fate, clears in_arena ?n us)"
    using r(1,5,6) kk(2) by (auto simp: mrelease_inner_def us_def clears_def)
  moreover have "mact_fate in_arena ?p fate = give_up in_arena ?n us"
    using r(5) by (auto simp: mact_fate_def us_def give_up_def PAGE_SIZE_def)
  moreover have "class_spans sl' pl' el' full' = class_spans sl pl el full - set us"
    using r(4,5) by (auto simp: us_def)
  moreover have "us = [] \<or> us = [?p]" by (simp add: us_def)
  ultimately show ?thesis using r(2,3,7) by blast
qed

lemma mchunk_ok_frame:
  assumes "mchunk_ok pages m S lv k bs" "\<And>a. a \<in> set bs \<Longrightarrow> m' a = m a" "set bs \<subseteq> lv'" "mc_span k \<in> S'"
  shows "mchunk_ok pages m' S' lv' k bs"
proof -
  have "chain (m'(mc_tail k := 0)) (mc_head k) bs = chain (m(mc_tail k := 0)) (mc_head k) bs"
    by (rule chain_cong) (use assms(2) in auto)
  then show ?thesis using assms by (simp add: mchunk_ok_def linked_run_def)
qed

lemma clears_append: "clears in_arena n (us @ vs) = clears in_arena n us @ clears in_arena n vs"
  by (simp add: clears_def)

lemma give_up_append: "give_up in_arena n (us @ vs) = give_up in_arena n us @ give_up in_arena n vs"
  by (simp add: give_up_def)

lemma mrelease_chunks_correct:
  assumes c: "c < NUM_MEDIUM" and pok: "span_purge_ok purge"
    and inv: "span_class_inv (medium_tier in_arena c) (medium_pages c) c (medium_layout in_arena c) m sl pl el full fl dirty"
    and ks: "mchunks_ok (medium_pages c) (cells_of m) (class_spans sl pl el full)
      (span_live (medium_layout in_arena c) fl (set pl \<union> set el \<union> full)) ks"
  shows "\<exists>m' sl' fates us pl' el' full' fl'.
    mrelease_chunks in_arena c purge (m, sl) (map fst ks) = ((m', sl'), clears in_arena (medium_pages c) us, fates)
    \<and> concat (map (\<lambda>(p, f). mact_fate in_arena p f) fates) = give_up in_arena (medium_pages c) us
    \<and> distinct us \<and> set us \<subseteq> class_spans sl pl el full \<and> class_spans sl' pl' el' full' = class_spans sl pl el full - set us
    \<and> span_class_inv (medium_tier in_arena c) (medium_pages c) c (medium_layout in_arena c) m' sl' pl' el' full' fl'
        (dirty \<union> set (concat (map snd ks)))
    \<and> span_live (medium_layout in_arena c) fl' (set pl' \<union> set el' \<union> full')
        = span_live (medium_layout in_arena c) fl (set pl \<union> set el \<union> full) - set (concat (map snd ks))
    \<and> (\<forall>a \<in> span_live (medium_layout in_arena c) fl (set pl \<union> set el \<union> full) - set (concat (map snd ks)).
         cells_of m' a = cells_of m a)"
  using inv ks
proof (induction ks arbitrary: m sl pl el full fl dirty)
  case Nil
  then show ?case by (auto simp: clears_def give_up_def intro!: exI)
next
  case (Cons kb ks)
  let ?n = "medium_pages c" and ?L = "medium_layout in_arena c"
  obtain k bs where kb: "kb = (k, bs)" by fastforce
  define lv where "lv = span_live ?L fl (set pl \<union> set el \<union> full)"
  define S where "S = class_spans sl pl el full"
  have k: "mchunk_ok ?n (cells_of m) S lv k bs" and rest: "\<And>k' bs'. (k', bs') \<in> set ks \<Longrightarrow> mchunk_ok ?n (cells_of m) S lv k' bs'"
    and d: "distinct (concat (map snd ks))" "set bs \<inter> set (concat (map snd ks)) = {}"
    using Cons.prems(2) by (auto simp: mchunks_ok_def kb lv_def S_def)
  obtain m1 sl1 fate us1 pl1 el1 full1 fl1 where r:
    "mrelease_inner in_arena c purge m sl (mc_span k) (mc_head k) (mc_tail k) (mc_n k) = (m1, sl1, fate, clears in_arena ?n us1)"
    "mact_fate in_arena (mc_span k) fate = give_up in_arena ?n us1" "us1 = [] \<or> us1 = [mc_span k]"
    "class_spans sl1 pl1 el1 full1 = S - set us1"
    "span_class_inv (medium_tier in_arena c) ?n c ?L m1 sl1 pl1 el1 full1 fl1 (dirty \<union> set bs)"
    "span_live ?L fl1 (set pl1 \<union> set el1 \<union> full1) = lv - set bs" "\<forall>a \<in> lv - set bs. cells_of m1 a = cells_of m a"
    using mrelease_inner_correct [OF c Cons.prems(1) pok k [unfolded lv_def S_def]] unfolding lv_def S_def by blast
  have kS: "mc_span k \<in> S" using k by (simp add: mchunk_ok_def)
  have "mchunk_ok ?n (cells_of m1) (S - set us1) (lv - set bs) k' bs'" if k': "(k', bs') \<in> set ks" for k' bs'
  proof (rule mchunk_ok_frame [OF rest [OF k']])
    have ok': "set bs' \<noteq> {}" "set bs' \<subseteq> lv" "mc_span k' \<in> S" "set bs' \<subseteq> span_range (mc_span k') ?n"
      using rest [OF k'] by (auto simp: mchunk_ok_def linked_run_def)
    have "set bs' \<subseteq> set (concat (map snd ks))" using k' by force
    then show sub: "set bs' \<subseteq> lv - set bs" using ok'(2) d(2) by blast
    then show "cells_of m1 a = cells_of m a" if "a \<in> set bs'" for a using r(7) that by blast
    have "mc_span k' \<notin> set us1"
    proof
      assume u: "mc_span k' \<in> set us1"
      define b where "b = List.hd bs'"
      have b: "b \<in> set bs'" using ok'(1) by (simp add: b_def)
      then obtain q where q: "q \<in> set pl1 \<union> set el1 \<union> full1" "b \<in> set (?L q)"
        using sub r(6) unfolding span_live_def by blast
      have "span_inv ?n c ?L m1 fl1 (dirty \<union> set bs) q" using r(5) q(1) by (simp add: span_class_inv_def)
      then have bq: "b \<in> span_range q ?n" using span_inv_blocks(2) q(2) by blast
      have qS: "q \<in> S - set us1" using q(1) by (auto simp flip: r(4) simp: class_spans_def)
      have "apart ?n S" using Cons.prems(1) by (simp add: span_class_inv_def class_spans_def S_def)
      moreover have "q \<noteq> mc_span k'" "q \<in> S" using qS u by auto
      ultimately have "span_range q ?n \<inter> span_range (mc_span k') ?n = {}" using ok'(3) apartD by blast
      then show False using bq ok'(4) b by blast
    qed
    then show "mc_span k' \<in> S - set us1" using ok'(3) by blast
  qed
  then have ks': "mchunks_ok ?n (cells_of m1) (class_spans sl1 pl1 el1 full1) (span_live ?L fl1 (set pl1 \<union> set el1 \<union> full1)) ks"
    using d(1) unfolding mchunks_ok_def r(4,6) by auto
  obtain m' sl' fates us pl' el' full' fl' where t:
    "mrelease_chunks in_arena c purge (m1, sl1) (map fst ks) = ((m', sl'), clears in_arena ?n us, fates)"
    "concat (map (\<lambda>(p, f). mact_fate in_arena p f) fates) = give_up in_arena ?n us"
    "distinct us" "set us \<subseteq> S - set us1" "class_spans sl' pl' el' full' = S - set us1 - set us"
    "span_class_inv (medium_tier in_arena c) ?n c ?L m' sl' pl' el' full' fl' (dirty \<union> set bs \<union> set (concat (map snd ks)))"
    "span_live ?L fl' (set pl' \<union> set el' \<union> full') = lv - set bs - set (concat (map snd ks))"
    "\<forall>a \<in> lv - set bs - set (concat (map snd ks)). cells_of m' a = cells_of m1 a"
    using Cons.IH [OF r(5) ks'] unfolding r(4,6) by blast
  have "mrelease_chunks in_arena c purge (m, sl) (map fst (kb # ks))
      = ((m', sl'), clears in_arena ?n (us1 @ us), (mc_span k, fate) # fates)"
    using r(1) t(1) by (simp add: kb clears_append)
  moreover have "concat (map (\<lambda>(p, f). mact_fate in_arena p f) ((mc_span k, fate) # fates)) = give_up in_arena ?n (us1 @ us)"
    using r(2) t(2) by (simp add: give_up_append)
  moreover have "distinct (us1 @ us)" "set (us1 @ us) \<subseteq> S" using r(3) t(3,4) kS by auto
  moreover have "class_spans sl' pl' el' full' = S - set (us1 @ us)" using t(5) by auto
  moreover have e: "lv - set bs - set (concat (map snd ks)) = lv - set (concat (map snd (kb # ks)))" by (auto simp: kb)
  moreover have "\<forall>a \<in> lv - set (concat (map snd (kb # ks))). cells_of m' a = cells_of m a"
    using r(7) t(8) e by (metis DiffD1)
  moreover have "dirty \<union> set bs \<union> set (concat (map snd ks)) = dirty \<union> set (concat (map snd (kb # ks)))" by (auto simp: kb)
  ultimately show ?case using t(6,7) unfolding lv_def [symmetric] S_def [symmetric] by metis
qed

lemma medium_release_many_facts:
  assumes "c < NUM_MEDIUM" "span_purge_ok purge"
    and "span_class_inv (medium_tier in_arena c) (medium_pages c) c (medium_layout in_arena c) m sl pl el full fl dirty"
    and "mchunks_ok (medium_pages c) (cells_of m) (class_spans sl pl el full)
      (span_live (medium_layout in_arena c) fl (set pl \<union> set el \<union> full)) ks" "length ks \<le> FATE_SLOTS"
  shows "\<exists>m' sl' us pl' el' full' fl'.
    medium_release_many in_arena c purge (m, sl) (map fst ks)
      = Some ((m', sl'), clears in_arena (medium_pages c) us @ give_up in_arena (medium_pages c) us)
    \<and> distinct us \<and> set us \<subseteq> class_spans sl pl el full \<and> class_spans sl' pl' el' full' = class_spans sl pl el full - set us
    \<and> span_class_inv (medium_tier in_arena c) (medium_pages c) c (medium_layout in_arena c) m' sl' pl' el' full' fl'
        (dirty \<union> set (concat (map snd ks)))
    \<and> span_live (medium_layout in_arena c) fl' (set pl' \<union> set el' \<union> full')
        = span_live (medium_layout in_arena c) fl (set pl \<union> set el \<union> full) - set (concat (map snd ks))
    \<and> (\<forall>a \<in> span_live (medium_layout in_arena c) fl (set pl \<union> set el \<union> full) - set (concat (map snd ks)).
         cells_of m' a = cells_of m a)"
proof -
  obtain m' sl' fates us pl' el' full' fl' where t:
    "mrelease_chunks in_arena c purge (m, sl) (map fst ks) = ((m', sl'), clears in_arena (medium_pages c) us, fates)"
    "concat (map (\<lambda>(p, f). mact_fate in_arena p f) fates) = give_up in_arena (medium_pages c) us"
    and r: "distinct us" "set us \<subseteq> class_spans sl pl el full" "class_spans sl' pl' el' full' = class_spans sl pl el full - set us"
    "span_class_inv (medium_tier in_arena c) (medium_pages c) c (medium_layout in_arena c) m' sl' pl' el' full' fl'
      (dirty \<union> set (concat (map snd ks)))"
    "span_live (medium_layout in_arena c) fl' (set pl' \<union> set el' \<union> full')
        = span_live (medium_layout in_arena c) fl (set pl \<union> set el \<union> full) - set (concat (map snd ks))"
    "\<forall>a \<in> span_live (medium_layout in_arena c) fl (set pl \<union> set el \<union> full) - set (concat (map snd ks)).
         cells_of m' a = cells_of m a"
    using mrelease_chunks_correct [OF assms(1-4)] by blast
  have "medium_release_many in_arena c purge (m, sl) (map fst ks)
      = Some ((m', sl'), clears in_arena (medium_pages c) us @ give_up in_arena (medium_pages c) us)"
  proof (cases "ks = []")
    case True
    then show ?thesis using t by (auto simp: medium_release_many_def)
  next
    case False
    then show ?thesis using t assms(5) by (simp add: medium_release_many_def)
  qed
  then show ?thesis using r by blast
qed

text \<open>C12 (medium heap, release).  \<open>MediumHeap::release_many\<close> on up to 264 chunks of live blocks (each a
  linked run inside one span, all disjoint) returns, gives back exactly these blocks, and accounts for
  every span: the class keeps all its spans but \<open>us\<close>; for each of these, once, the side-table entries are
  cleared under the lock if it lies in the arena, and afterwards its range goes back to the arena or is
  unmapped.  No other live block is touched.\<close>

theorem medium_release_many_correct:
  assumes "c < NUM_MEDIUM" "span_purge_ok purge"
    and "span_class_inv (medium_tier in_arena c) (medium_pages c) c (medium_layout in_arena c) m sl pl el full fl dirty"
    and "mchunks_ok (medium_pages c) (cells_of m) (class_spans sl pl el full)
      (span_live (medium_layout in_arena c) fl (set pl \<union> set el \<union> full)) ks" "length ks \<le> FATE_SLOTS"
  shows "\<exists>m' sl' us pl' el' full' fl' dirty'.
    medium_release_many in_arena c purge (m, sl) (map fst ks)
      = Some ((m', sl'), clears in_arena (medium_pages c) us @ give_up in_arena (medium_pages c) us)
    \<and> distinct us \<and> set us \<subseteq> class_spans sl pl el full \<and> class_spans sl' pl' el' full' = class_spans sl pl el full - set us
    \<and> span_class_inv (medium_tier in_arena c) (medium_pages c) c (medium_layout in_arena c) m' sl' pl' el' full' fl' dirty'
    \<and> span_live (medium_layout in_arena c) fl' (set pl' \<union> set el' \<union> full')
        = span_live (medium_layout in_arena c) fl (set pl \<union> set el \<union> full) - set (concat (map snd ks))
    \<and> (\<forall>a \<in> span_live (medium_layout in_arena c) fl (set pl \<union> set el \<union> full) - set (concat (map snd ks)).
         cells_of m' a = cells_of m a)"
  using medium_release_many_facts [OF assms] by metis

text \<open>A class with one span at \<open>65536\<close>, all of whose blocks are out.\<close>

definition full_spans :: "nat \<Rightarrow> nat \<Rightarrow> nat \<Rightarrow> span_mem" where
  "full_spans c n k = \<lparr>cells_of = \<lambda>_. 0,
     hdrs_of = \<lambda>_. (master_of 0 0 0 c n)\<lparr>used := k, h_flags := 0\<rparr>\<rparr>"

lemma full_spans_inv:
  assumes "span_ok m 65536 h (layout 65536) x" "npages h = pages" "cls < 2 ^ 16" "t_cold_slots T = n"
  defines "M \<equiv> full_spans cls pages (length (layout 65536))"
  shows "span_class_inv T pages cls layout M (span_list_new n) [] [] {65536} (\<lambda>_. []) {}"
    "span_live layout (\<lambda>_. []) (set [] \<union> set [] \<union> {65536}) = set (layout 65536)"
    "class_spans (span_list_new n) [] [] {65536} = {65536}"
proof -
  let ?h = "hdr_at M 65536"
  have f: "used ?h = length (layout 65536)" "free_head ?h = 0" "free_count ?h = 0" "npages ?h = pages" "h_class ?h = cls"
    "h_flags ?h = 0"
    using assms by (simp_all add: M_def full_spans_def master_of_def span_ok_def)
  have "span_ok (cells_of M) 65536 ?h (layout 65536) []" using assms(1,2) f by (simp add: span_ok_def)
  then have "span_inv pages cls layout M (\<lambda>_. []) {} 65536" using f by (simp add: span_inv_def)
  then show "span_class_inv T pages cls layout M (span_list_new n) [] [] {65536} (\<lambda>_. []) {}"
    using assms(4) f(6)
    by (simp add: span_class_inv_def span_list_new_def partial_list_def cold_spans_def apart_def cold_spans_ok_def flag_bits)
  show "span_live layout (\<lambda>_. []) (set [] \<union> set [] \<union> {65536}) = set (layout 65536)" by (simp add: span_live_def)
  show "class_spans (span_list_new n) [] [] {65536} = {65536}" by (simp add: class_spans_def cold_spans_def span_list_new_def)
qed

lemma first_block: "blocks_at s b k \<noteq> [] \<Longrightarrow> s \<in> set (blocks_at s b k)"
  by (cases k) (auto simp: set_blocks_at blocks_at_def intro: exI [of _ 0])

theorem big_release_blocks_correct_witness:
  "\<exists>m' sl' effs. big_release_blocks (\<lambda>_ _. True) (\<lambda>m _ _. m)
     (full_spans 3 (big_pages 3) (length (big_layout 3 65536))) bspan_list_new 65536 65600 1 = Some (m', sl', effs)
     \<and> class_spans sl' [] [] {} \<subseteq> {65536}"
proof -
  let ?M = "full_spans 3 (big_pages 3) (length (big_layout 3 65536))"
  have c: "3 < NUM_BIG" "PAGE_SIZE dvd 65536" "(0::nat) < 65536" by (simp_all add: NUM_BIG_eq PAGE_SIZE_def)
  obtain m h x where i: "span_ok m 65536 h (big_layout 3 65536) x" "npages h = big_pages 3" using big_init_span [OF c] by blast
  have t: "t_cold_slots (big_tier 3) = MAX_COLD_BIG_SPAN_SLOTS" by (simp add: big_tier_def)
  note f = full_spans_inv [where layout = "big_layout 3" and cls = 3, OF i _ t, simplified, folded bspan_list_new_def]
  have "0 < BIG_CLASSES ! 3" using BIG_CLASSES_bounds [OF c(1)] by simp
  then have "65600 \<in> set (big_layout 3 65536)"
    using i(1) first_block [of 65600] by (auto simp: big_layout_def span_ok_def BIG_MASTER_SIZE_def)
  moreover from this have "set [65600] \<subseteq> span_range 65536 (big_pages 3)" using i by (auto simp: span_ok_def)
  moreover have "span_purge_ok (\<lambda>m _ _. m)" "65536 \<in> {65536 :: nat}" "distinct [65600 :: nat]" "[65600 :: nat] \<noteq> []"
    "chain (cells_of ?M) 65600 [65600]"
    by (simp_all add: span_purge_ok_def full_spans_def)
  moreover have lv: "span_live (big_layout 3) (\<lambda>_. []) (set [] \<union> set [] \<union> {65536}) = set (big_layout 3 65536)"
    using f(2) by simp
  moreover have "set [65600] \<subseteq> set (big_layout 3 65536)" using calculation(1) by simp
  ultimately obtain m' sl' effs pl' el' full' where r: "big_release_blocks (\<lambda>_ _. True) (\<lambda>m _ _. m) ?M bspan_list_new 65536 65600
      (length [65600 :: nat]) = Some (m', sl', effs)"
    "class_spans sl' pl' el' full' = {65536} \<or> class_spans sl' pl' el' full' = {65536} - {65536}"
    using big_release_blocks_correct [OF c(1) f(1), of "\<lambda>m _ _. m" 65536 "[65600]" 65600 "\<lambda>_ _. True"]
    unfolding lv f(3) by blast
  then show ?thesis by (auto simp: class_spans_def)
qed

theorem medium_release_many_correct_witness:
  "\<exists>m' sl' effs. medium_release_many (\<lambda>_ _. True) 2 (\<lambda>m _ _. m)
     (full_spans 2 (medium_pages 2) (length (medium_layout (\<lambda>_ _. True) 2 65536)), mspan_list_new)
     [\<lparr>mc_span = 65536, mc_head = 65600, mc_tail = 65600, mc_n = 1\<rparr>] = Some ((m', sl'), effs)
     \<and> class_spans sl' [] [] {} \<subseteq> {65536}"
proof -
  let ?L = "medium_layout (\<lambda>_ _. True) 2"
  let ?M = "full_spans 2 (medium_pages 2) (length (?L 65536))"
  let ?k = "\<lparr>mc_span = 65536, mc_head = 65600, mc_tail = 65600, mc_n = 1\<rparr>"
  have c: "2 < NUM_MEDIUM" "PAGE_SIZE dvd 65536" "(0::nat) < 65536" by (simp_all add: NUM_MEDIUM_eq PAGE_SIZE_def)
  obtain m h x where i: "span_ok m 65536 h (?L 65536) x" "npages h = medium_pages 2" using medium_init_span [OF c] by blast
  have t: "t_cold_slots (medium_tier (\<lambda>_ _. True) 2) = MAX_COLD_SPAN_SLOTS" by (simp add: medium_tier_def)
  note f = full_spans_inv [where layout = "?L" and cls = 2, OF i _ t, simplified, folded mspan_list_new_def]
  have lv: "span_live ?L (\<lambda>_. []) (set [] \<union> set [] \<union> {65536}) = set (?L 65536)" using f(2) by simp
  have "65600 \<in> set (?L 65536)"
    using i(1) first_block [of 65600] by (auto simp: medium_layout_def span_ok_def SPAN_MASTER_SIZE_def)
  moreover from this have "{65600} \<subseteq> span_range 65536 (medium_pages 2)" using i by (auto simp: span_ok_def)
  ultimately have "mchunks_ok (medium_pages 2) (cells_of ?M) {65536} (set (?L 65536)) [(?k, [65600])]"
    by (simp add: mchunks_ok_def mchunk_ok_def linked_run_def)
  moreover have "span_purge_ok (\<lambda>m _ _. m)" "length [(?k, [65600 :: nat])] \<le> FATE_SLOTS"
    by (simp_all add: span_purge_ok_def FATE_SLOTS_def)
  ultimately obtain m' sl' us pl' el' full' where
    "medium_release_many (\<lambda>_ _. True) 2 (\<lambda>m _ _. m) (?M, mspan_list_new) (map fst [(?k, [65600 :: nat])])
      = Some ((m', sl'), clears (\<lambda>_ _. True) (medium_pages 2) us @ give_up (\<lambda>_ _. True) (medium_pages 2) us)"
    "class_spans sl' pl' el' full' = {65536} - set us"
    using medium_release_many_correct [OF c(1) _ f(1), of "\<lambda>m _ _. m" "[(?k, [65600])]"] unfolding lv f(3) by blast
  then show ?thesis by (auto simp: class_spans_def)
qed

end
