(* ===== verification/Cache_Bins.thy ===== *)
theory Cache_Bins
  imports Small_Bins Span_Tiers
begin

text \<open>
  The bins of the thread cache (\<open>src/src/cache.rs\<close>): detached chains of blocks of one class, with their
  length and the number of blocks at the bottom that come from never-used pages (\<open>virgin\<close>).

  \<open>SmallBin\<close>, \<open>Bin\<close> with its entry of \<open>mvirgin\<close> or \<open>bvirgin\<close>, and the chain of \<open>ActiveMedium\<close> and \<open>ActiveBig\<close>
  are one record \<open>bin\<close>.  \<open>flush_bin\<close>, \<open>flush_mbin\<close> and \<open>flush_bbin\<close> are line for line the same loop over
  different heaps; the loop is written once, over a record of what differs (\<open>bin_tier\<close>): who owns a block,
  how a chain of groups is given back, how many blocks one pass takes and how many groups it has room for.

  The heap of one class is its memory and list head, together with the log of what it asked of the arena,
  the side table and the system.  What the bins rely on is the locale \<open>class_store\<close>, interpreted for the
  small, medium and big heaps in \<open>Cache_Tiers\<close>.  Block counts are natural numbers: a wrap needs \<open>2\<^sup>3\<^sup>2\<close> blocks
  in one bin.
\<close>

section \<open>Heaps and bins\<close>

type_synonym ('a, 'l, 'e) class_heap = "('a heap_mem \<times> 'l) \<times> 'e list"

definition words :: "('a, 'l, 'e) class_heap \<Rightarrow> cells" where
  "words h = cells_of (fst (fst h))"

definition poke :: "cells \<Rightarrow> ('a, 'l, 'e) class_heap \<Rightarrow> ('a, 'l, 'e) class_heap" where
  "poke w h = (((fst (fst h))\<lparr>cells_of := w\<rparr>, snd (fst h)), snd h)"

lemma words_poke [simp]: "words (poke w h) = w"
  by (simp add: words_def poke_def)

lemma poke_words [simp]: "poke (words h) h = h"
  by (simp add: words_def poke_def)

text \<open>The thread that claimed a page or span, in its header.\<close>

definition set_owner :: "addr \<Rightarrow> nat \<Rightarrow> ('a, 'l, 'e) class_heap \<Rightarrow> ('a, 'l, 'e) class_heap" where
  "set_owner p i h = ((set_hdr (fst (fst h)) p ((hdr_at (fst (fst h)) p)\<lparr>owner := i\<rparr>), snd (fst h)), snd h)"

definition owner_of :: "('a, 'l, 'e) class_heap \<Rightarrow> addr \<Rightarrow> nat" where
  "owner_of h p = owner (hdr_at (fst (fst h)) p)"

lemma words_set_owner [simp]: "words (set_owner p i h) = words h"
  by (simp add: words_def set_owner_def)

record bin =
  b_head :: addr
  b_len :: nat
  b_virgin :: nat

definition bin_new :: bin where "bin_new = \<lparr>b_head = null, b_len = 0, b_virgin = 0\<rparr>"

text \<open>Popping a block: the second result tells whether it is still zero.\<close>

definition bin_pop :: "('a, 'l, 'e) class_heap \<Rightarrow> bin \<Rightarrow> (addr \<times> bool) option \<times> bin" where
  "bin_pop h b =
     (case pop_block (words h, b_head b) of
        (None, _) \<Rightarrow> (None, b)
      | (Some p, (_, nxt)) \<Rightarrow>
          let below = b_len b - 1
          in (Some (p, below < b_virgin b),
              \<lparr>b_head = nxt, b_len = below, b_virgin = (if below < b_virgin b then b_virgin b - 1 else b_virgin b)\<rparr>))"

definition bin_push :: "('a, 'l, 'e) class_heap \<Rightarrow> bin \<Rightarrow> addr \<Rightarrow> ('a, 'l, 'e) class_heap \<times> bin" where
  "bin_push h b p =
     (let (w, new_head) = push_block (words h, b_head b) p in (poke w h, b\<lparr>b_head := new_head, b_len := b_len b + 1\<rparr>))"

section \<open>Flushing\<close>

record 'h bin_tier =
  bt_owner :: "addr \<Rightarrow> addr"
  bt_solo :: "addr \<Rightarrow> addr \<Rightarrow> 'h \<Rightarrow> 'h option"
  bt_give :: "page_release_chunk list \<Rightarrow> 'h \<Rightarrow> 'h option"
  bt_chunk :: nat
  bt_slots :: nat

text \<open>A popped block joins the group of its owner, at the tail, or opens a new group if there is room.\<close>

definition group_block :: "addr \<Rightarrow> nat \<Rightarrow> cells \<Rightarrow> page_release_chunk list \<Rightarrow> addr \<Rightarrow> (cells \<times> page_release_chunk list) option" where
  "group_block own room w gs b =
     (case find_group gs own of
        Some i \<Rightarrow> Some (w(rc_tail (gs ! i) := b), gs[i := (gs ! i)\<lparr>rc_tail := b, rc_n := rc_n (gs ! i) + 1\<rparr>])
      | None \<Rightarrow> if room \<le> length gs then None
                else Some (w, gs @ [\<lparr>rc_page = own, rc_head = b, rc_tail = b, rc_n = 1\<rparr>]))"

text \<open>One pass: at most \<open>bt_chunk\<close> blocks are popped, down to \<open>floor\<close>, each unlinked and grouped.\<close>

function flush_pop :: "('a, 'l, 'e) class_heap bin_tier \<Rightarrow> nat \<Rightarrow> ('a, 'l, 'e) class_heap \<Rightarrow> bin \<Rightarrow>
    page_release_chunk list \<Rightarrow> nat \<Rightarrow> (('a, 'l, 'e) class_heap \<times> bin \<times> page_release_chunk list \<times> nat) option" where
  "flush_pop T floor_blocks h b gs popped =
     (if floor_blocks < b_len b \<and> popped < bt_chunk T then
        case bin_pop h b of
          (None, _) \<Rightarrow> Some (h, b, gs, popped)
        | (Some (p, _), b') \<Rightarrow>
            (case group_block (bt_owner T p) (bt_slots T) ((words h)(p := null)) gs p of
               Some (w, gs') \<Rightarrow> flush_pop T floor_blocks (poke w h) b' gs' (popped + 1)
             | None \<Rightarrow>
                 (case bt_solo T (bt_owner T p) p (poke ((words h)(p := null)) h) of
                    None \<Rightarrow> None
                  | Some h' \<Rightarrow> flush_pop T floor_blocks h' b' gs (popped + 1)))
      else Some (h, b, gs, popped))"
  by pat_completeness auto
termination by (relation "measure (\<lambda>(T, _, _, _, _, popped). bt_chunk T - popped)") auto

declare flush_pop.simps [simp del]

lemma bin_pop_len: "bin_pop h b = (Some x, b') \<Longrightarrow> b_len b' = b_len b - 1"
  by (auto simp: bin_pop_def Let_def pop_block_def split: prod.splits if_splits)

lemma flush_pop_len:
  "flush_pop T floor_blocks h b gs popped = Some (h', b', gs', popped') \<Longrightarrow> b_len b' + popped' = b_len b + popped"
proof (induction T floor_blocks h b gs popped rule: flush_pop.induct)
  case (1 T floor_blocks h b gs popped)
  show ?case
  proof (cases "floor_blocks < b_len b \<and> popped < bt_chunk T")
    case False
    then have "flush_pop T floor_blocks h b gs popped = Some (h, b, gs, popped)"
      by (subst flush_pop.simps) (rule if_not_P)
    then show ?thesis using 1(3) by simp
  next
    case True
    obtain r b1 where p: "bin_pop h b = (r, b1)" by fastforce
    show ?thesis
    proof (cases r)
      case None
      then have "flush_pop T floor_blocks h b gs popped = Some (h, b, gs, popped)"
        using True p by (subst flush_pop.simps) simp
      then show ?thesis using 1(3) by simp
    next
      case (Some x)
      obtain q z where x: "x = (q, z)" by fastforce
      have l: "b_len b1 = b_len b - 1" by (rule bin_pop_len) (use p Some in simp)
      let ?g = "group_block (bt_owner T q) (bt_slots T) ((words h)(q := null)) gs q"
      let ?s = "bt_solo T (bt_owner T q) q (poke ((words h)(q := null)) h)"
      have e: "flush_pop T floor_blocks h b gs popped = (case ?g of Some (w, gs') \<Rightarrow> flush_pop T floor_blocks (poke w h) b1 gs' (popped + 1)
          | None \<Rightarrow> (case ?s of None \<Rightarrow> None | Some h' \<Rightarrow> flush_pop T floor_blocks h' b1 gs (popped + 1)))"
        using True p Some x by (subst flush_pop.simps) simp
      have "b_len b' + popped' = b_len b1 + (popped + 1)"
        using 1(1) [OF True p [symmetric] Some x [symmetric]] 1(2) [OF True p [symmetric] Some x [symmetric]] 1(3)
        unfolding e by (auto split: option.splits)
      then show ?thesis using l True by simp
    qed
  qed
qed

text \<open>The outer loop of \<open>flush_bin\<close> and its copies; the third result is the number of blocks popped in all.\<close>

function flush_to :: "('a, 'l, 'e) class_heap bin_tier \<Rightarrow> nat \<Rightarrow> ('a, 'l, 'e) class_heap \<Rightarrow> bin \<Rightarrow>
    (('a, 'l, 'e) class_heap \<times> bin \<times> nat) option" where
  "flush_to T floor_blocks h b =
     (if floor_blocks < b_len b then
        case flush_pop T floor_blocks h b [] 0 of
          None \<Rightarrow> None
        | Some (h1, b1, gs, popped) \<Rightarrow>
            (case bt_give T gs h1 of
               None \<Rightarrow> None
             | Some h2 \<Rightarrow>
                 if popped = 0 then Some (h2, b1, 0)
                 else (case flush_to T floor_blocks h2 b1 of
                         None \<Rightarrow> None
                       | Some (h3, b3, n) \<Rightarrow> Some (h3, b3, popped + n)))
      else Some (h, b, 0))"
  by pat_completeness auto
termination
  by (relation "measure (\<lambda>(_, _, _, b). b_len b)") (auto dest: flush_pop_len)

declare flush_to.simps [simp del]

section \<open>What a bin holds\<close>

definition bin_holds :: "cells \<Rightarrow> addr set \<Rightarrow> addr set \<Rightarrow> bin \<Rightarrow> addr list \<Rightarrow> bool" where
  "bin_holds w lv d b xs \<longleftrightarrow> chain w (b_head b) xs \<and> distinct xs \<and> set xs \<subseteq> lv \<and> b_len b = length xs
     \<and> b_virgin b \<le> length xs \<and> set (drop (length xs - b_virgin b) xs) \<inter> d = {}"

lemma bin_holds_new: "bin_holds w lv d bin_new []"
  by (simp add: bin_holds_def bin_new_def)

lemma bin_holds_empty: "bin_holds w lv d b [] \<longleftrightarrow> b = bin_new"
  by (auto simp: bin_holds_def bin_new_def)

lemma bin_holds_unique: "bin_holds w lv d b xs \<Longrightarrow> bin_holds w lv' d' b ys \<Longrightarrow> xs = ys"
  by (auto simp: bin_holds_def dest: chain_unique)

lemma bin_holds_frame:
  assumes "bin_holds w lv d b xs" "\<And>a. a \<in> set xs \<Longrightarrow> w' a = w a" "set xs \<subseteq> lv'" "d' \<inter> set xs \<subseteq> d"
  shows "bin_holds w' lv' d' b xs"
proof -
  have "chain w' (b_head b) xs = chain w (b_head b) xs" by (rule chain_cong) (rule assms(2))
  moreover have "set (drop (length xs - b_virgin b) xs) \<inter> d' = {}"
    using assms(1,4) set_drop_subset [of "length xs - b_virgin b" xs] by (fastforce simp: bin_holds_def)
  ultimately show ?thesis using assms(1,3) by (simp add: bin_holds_def)
qed

lemma bin_pop_none: "bin_holds (words h) lv d b [] \<Longrightarrow> bin_pop h b = (None, b)"
  by (simp add: bin_holds_def bin_pop_def pop_block_def)

lemma bin_pop_some:
  assumes "bin_holds (words h) lv d b (p # xs)"
  obtains b' z where "bin_pop h b = (Some (p, z), b')" "bin_holds (words h) lv d b' xs" "z \<Longrightarrow> p \<notin> d"
    "b_len b' = b_len b - 1"
proof -
  let ?v = "b_virgin b" and ?n = "length xs"
  let ?z = "?n < ?v"
  let ?b = "\<lparr>b_head = words h p, b_len = ?n, b_virgin = (if ?z then ?v - 1 else ?v)\<rparr>"
  have b: "b_head b = p" "p \<noteq> 0" "chain (words h) (words h p) xs" "distinct (p # xs)" "set (p # xs) \<subseteq> lv"
    "b_len b = Suc ?n" "?v \<le> Suc ?n" "set (drop (Suc ?n - ?v) (p # xs)) \<inter> d = {}"
    using assms by (auto simp: bin_holds_def)
  have "bin_pop h b = (Some (p, ?z), ?b)"
    using b(1,2,6) by (simp add: bin_pop_def pop_block_def)
  moreover have "bin_holds (words h) lv d ?b xs"
  proof (cases ?z)
    case True
    then have "?v = Suc ?n" using b(7) by simp
    then show ?thesis using b by (simp add: bin_holds_def)
  next
    case False
    then have "drop (Suc ?n - ?v) (p # xs) = drop (?n - ?v) xs" by (simp add: Suc_diff_le)
    then show ?thesis using b False by (simp add: bin_holds_def)
  qed
  moreover have "p \<notin> d" if ?z
    using that b(7,8) by (simp add: le_antisym)
  ultimately show thesis using that [of ?z ?b] b(6) by auto
qed

lemma bin_push_holds:
  assumes "bin_holds (words h) lv d b xs" "p \<noteq> 0" "p \<in> lv" "p \<notin> set xs"
  obtains b' where "bin_push h b p = (poke ((words h)(p := b_head b)) h, b')"
    "bin_holds ((words h)(p := b_head b)) lv d b' (p # xs)" "b_len b' = b_len b + 1"
proof -
  have "bin_holds ((words h)(p := b_head b)) lv d (b\<lparr>b_head := p, b_len := b_len b + 1\<rparr>) (p # xs)"
    using assms by (simp add: bin_holds_def Suc_diff_le)
  then show thesis using that by (simp add: bin_push_def push_block_def)
qed

section \<open>Groups\<close>

abbreviation group_blocks :: "(page_release_chunk \<times> addr list) list \<Rightarrow> addr list" where
  "group_blocks ks \<equiv> concat (map snd ks)"

definition run_ok :: "(addr \<Rightarrow> addr) \<Rightarrow> cells \<Rightarrow> page_release_chunk \<Rightarrow> addr list \<Rightarrow> bool" where
  "run_ok own w k bs \<longleftrightarrow> bs \<noteq> [] \<and> chain w (rc_head k) bs \<and> last bs = rc_tail k \<and> rc_n k = length bs
     \<and> (\<forall>b \<in> set bs. own b = rc_page k)"

definition runs_ok :: "(addr \<Rightarrow> addr) \<Rightarrow> cells \<Rightarrow> addr set \<Rightarrow> (page_release_chunk \<times> addr list) list \<Rightarrow> bool" where
  "runs_ok own w lv ks \<longleftrightarrow> (\<forall>(k, bs) \<in> set ks. run_ok own w k bs) \<and> distinct (group_blocks ks)
     \<and> set (group_blocks ks) \<subseteq> lv"

lemma run_ok_frame: "run_ok own w k bs \<Longrightarrow> (\<And>a. a \<in> set bs \<Longrightarrow> w' a = w a) \<Longrightarrow> run_ok own w' k bs"
  using chain_cong [of bs w w' "rc_head k"] by (simp add: run_ok_def)

lemma runs_ok_frame:
  assumes "runs_ok own w lv ks" "\<And>a. a \<in> set (group_blocks ks) \<Longrightarrow> w' a = w a" "set (group_blocks ks) \<subseteq> lv'"
  shows "runs_ok own w' lv' ks"
proof -
  have "run_ok own w' k bs" if "(k, bs) \<in> set ks" for k bs
    by (rule run_ok_frame [of own w]) (use assms(1,2) that in \<open>force simp: runs_ok_def\<close>)+
  then show ?thesis using assms(1,3) by (auto simp: runs_ok_def)
qed

lemma find_group_sound: "find_group gs page = Some i \<Longrightarrow> i < length gs \<and> rc_page (gs ! i) = page"
  unfolding find_group_def Let_def
  by (auto split: if_splits dest: nth_length_takeWhile)

lemma chain_snoc:
  assumes "chain w front bs" "bs \<noteq> []" "distinct bs" "w p = 0" "p \<noteq> 0" "p \<notin> set bs"
  shows "chain (w(last bs := p)) front (bs @ [p])"
proof -
  have "bs = butlast bs @ [last bs]" using assms(2) by simp
  then show ?thesis using chain_splice [of w front "butlast bs" "last bs" p "[p]"] assms by simp
qed

lemma group_block_ok:
  assumes ks: "runs_ok own w lv ks" and p: "p \<in> lv" "p \<notin> set (group_blocks ks)" "p \<noteq> 0" "w p = 0"
    and room: "length ks < room"
  obtains w' ks' where "group_block (own p) room w (map fst ks) p = Some (w', map fst ks')" "runs_ok own w' lv ks'"
    "set (group_blocks ks') = insert p (set (group_blocks ks))" "length ks' \<le> length ks + 1"
    "\<And>a. a \<notin> set (group_blocks ks) \<Longrightarrow> w' a = w a"
proof (cases "find_group (map fst ks) (own p)")
  case None
  let ?k = "\<lparr>rc_page = own p, rc_head = p, rc_tail = p, rc_n = 1\<rparr>"
  have "run_ok own w ?k [p]" using p by (simp add: run_ok_def)
  then have "runs_ok own w lv (ks @ [(?k, [p])])" using ks p by (auto simp: runs_ok_def)
  then show thesis using that [of w "ks @ [(?k, [p])]"] None room by (simp add: group_block_def)
next
  case (Some i)
  have i: "i < length ks" "rc_page (fst (ks ! i)) = own p" using find_group_sound [OF Some] by auto
  obtain k bs where kb: "ks ! i = (k, bs)" by fastforce
  define us where "us = take i ks"
  define vs where "vs = drop (Suc i) ks"
  have split: "ks = us @ (k, bs) # vs" "length us = i"
    using id_take_nth_drop [OF i(1)] i(1) by (simp_all add: kb us_def vs_def)
  define k' where "k' = k\<lparr>rc_tail := p, rc_n := rc_n k + 1\<rparr>"
  define w' where "w' = w(rc_tail k := p)"
  have g: "run_ok own w k bs" and d: "distinct (group_blocks us @ bs @ group_blocks vs)"
    using ks by (auto simp: runs_ok_def split(1))
  have t: "rc_tail k \<in> set bs" using g last_in_set [of bs] by (auto simp: run_ok_def)
  have "p \<notin> set bs" using p(2) by (simp add: split(1))
  then have "chain w' (rc_head k) (bs @ [p])"
    using chain_snoc [of w "rc_head k" bs p] g d p(3,4) by (simp add: run_ok_def w'_def)
  then have g': "run_ok own w' k' (bs @ [p])" using g i(2) by (simp add: run_ok_def k'_def kb)
  have rest: "run_ok own w' k2 bs2" if "(k2, bs2) \<in> set us \<union> set vs" for k2 bs2
  proof (rule run_ok_frame)
    show "run_ok own w k2 bs2" using ks that by (auto simp: runs_ok_def split(1))
    have "set bs2 \<inter> set bs = {}" using d that by fastforce
    then show "w' a = w a" if "a \<in> set bs2" for a using that t by (auto simp: w'_def)
  qed
  have "runs_ok own w' lv (us @ (k', bs @ [p]) # vs)"
    using ks g' rest d p(1,2) by (auto simp: runs_ok_def split(1))
  moreover have "group_block (own p) room w (map fst ks) p = Some (w', map fst (us @ (k', bs @ [p]) # vs))"
  proof -
    have "map fst (us @ (k', bs @ [p]) # vs) = (map fst ks)[i := k']"
      by (simp add: split(1) list_update_append flip: split(2))
    then show ?thesis using Some i(1) kb by (simp add: group_block_def w'_def k'_def)
  qed
  ultimately show thesis
  proof (intro that [of w' "us @ (k', bs @ [p]) # vs"])
    show "w' a = w a" if "a \<notin> set (group_blocks ks)" for a using that t by (auto simp: split(1) w'_def)
  qed (auto simp: split(1))
qed

section \<open>The interface to the heap of a class\<close>

text \<open>
  \<open>store h lv d\<close>: the heap \<open>h\<close> is well formed, the blocks \<open>lv\<close> are in the hands of threads, and \<open>d\<close> are the
  blocks that may not be zero.  The first words of live blocks belong to their holders; giving back runs of
  live blocks, each with one owner, takes exactly these out and touches no other live block.
  The owner of a page or span is a hint the heap does not read.
\<close>

locale class_store =
  fixes T :: "('a, 'l, 'e) class_heap bin_tier"
    and store :: "('a, 'l, 'e) class_heap \<Rightarrow> addr set \<Rightarrow> addr set \<Rightarrow> bool"
  assumes room: "0 < bt_chunk T" "bt_chunk T \<le> bt_slots T"
    and poke_law: "store h lv d \<Longrightarrow> (\<And>a. a \<notin> lv \<Longrightarrow> w a = words h a) \<Longrightarrow> store (poke w h) lv d"
    and live_nonnull: "store h lv d \<Longrightarrow> 0 \<notin> lv"
    and give_law: "store h lv d \<Longrightarrow> runs_ok (bt_owner T) (words h) lv ks \<Longrightarrow> length ks \<le> bt_slots T \<Longrightarrow>
      \<exists>h' d'. bt_give T (map fst ks) h = Some h' \<and> store h' (lv - set (group_blocks ks)) d'
        \<and> d' \<subseteq> d \<union> set (group_blocks ks) \<and> (\<forall>a \<in> lv - set (group_blocks ks). words h' a = words h a)"
    and owner_law: "store h lv d \<Longrightarrow> store (set_owner p i h) lv d"
begin

lemma flush_pop_ok:
  assumes "store h lv d" "bin_holds (words h) lv D b xs" "runs_ok (bt_owner T) (words h) lv ks"
    "set xs \<inter> set (group_blocks ks) = {}" "length ks \<le> popped"
  shows "\<exists>h' b' ks' ys zs. flush_pop T n h b (map fst ks) popped = Some (h', b', map fst ks', popped + length ys)
    \<and> xs = ys @ zs \<and> length ys = min (length xs - n) (bt_chunk T - popped)
    \<and> store h' lv d \<and> bin_holds (words h') lv D b' zs \<and> runs_ok (bt_owner T) (words h') lv ks'
    \<and> set (group_blocks ks') = set (group_blocks ks) \<union> set ys \<and> length ks' \<le> popped + length ys
    \<and> (\<forall>a. a \<notin> set xs \<union> set (group_blocks ks) \<longrightarrow> words h' a = words h a)"
  using assms
proof (induction xs arbitrary: h b ks popped)
  case Nil
  then have "b_len b = 0" by (simp add: bin_holds_def)
  then have "flush_pop T n h b (map fst ks) popped = Some (h, b, map fst ks, popped + length [])"
    by (subst flush_pop.simps) simp
  then show ?case using Nil by (intro exI [of _ h] exI [of _ b] exI [of _ ks] exI [of _ "[]"]) simp
next
  case (Cons p xs)
  have len: "b_len b = Suc (length xs)" using Cons.prems(2) by (simp add: bin_holds_def)
  show ?case
  proof (cases "n < Suc (length xs) \<and> popped < bt_chunk T")
    case False
    then have "flush_pop T n h b (map fst ks) popped = Some (h, b, map fst ks, popped + length [])"
      by (subst flush_pop.simps) (simp only: len if_False, simp)
    then show ?thesis using Cons.prems False
      by (intro exI [of _ h] exI [of _ b] exI [of _ ks] exI [of _ "[]"] exI [of _ "p # xs"]) auto
  next
    case True
    obtain b1 z where pop: "bin_pop h b = (Some (p, z), b1)" "bin_holds (words h) lv D b1 xs"
      using bin_pop_some [OF Cons.prems(2)] by blast
    have p: "p \<in> lv" "p \<notin> set (group_blocks ks)" "p \<noteq> 0" "p \<notin> set xs" "set xs \<subseteq> lv"
      using Cons.prems(1,2,4) live_nonnull by (auto simp: bin_holds_def)
    let ?w = "(words h)(p := 0)"
    have ks0: "runs_ok (bt_owner T) ?w lv ks"
      by (rule runs_ok_frame [OF Cons.prems(3)]) (use p Cons.prems(3) in \<open>auto simp: runs_ok_def\<close>)
    have "length ks < bt_slots T" using Cons.prems(5) True room(2) by simp
    then obtain w ks1 where g: "group_block (bt_owner T p) (bt_slots T) ?w (map fst ks) p = Some (w, map fst ks1)"
      "runs_ok (bt_owner T) w lv ks1" "set (group_blocks ks1) = insert p (set (group_blocks ks))"
      "length ks1 \<le> length ks + 1" "\<And>a. a \<notin> set (group_blocks ks) \<Longrightarrow> w a = ?w a"
      using group_block_ok [OF ks0 p(1-3), of "bt_slots T"] by auto
    have same: "w a = words h a" if "a \<notin> insert p (set (group_blocks ks))" for a using g(5) that by simp
    have "set (group_blocks ks1) \<subseteq> lv" using g(2) by (simp add: runs_ok_def)
    then have st: "store (poke w h) lv d" using same g(3) by (intro poke_law [OF Cons.prems(1)]) blast
    have "w a = words h a" if "a \<in> set xs" for a using same [of a] that p(4) Cons.prems(4) by auto
    then have b1: "bin_holds (words (poke w h)) lv D b1 xs"
      by (intro bin_holds_frame [OF pop(2)]) (use p(5) in auto)
    have "set xs \<inter> set (group_blocks ks1) = {}" "length ks1 \<le> popped + 1"
      using g(3,4) p(4) Cons.prems(4,5) by auto
    moreover have "runs_ok (bt_owner T) (words (poke w h)) lv ks1" using g(2) by simp
    ultimately obtain h' b' ks' ys zs where
      i: "flush_pop T n (poke w h) b1 (map fst ks1) (popped + 1) = Some (h', b', map fst ks', popped + 1 + length ys)"
      "xs = ys @ zs" "length ys = min (length xs - n) (bt_chunk T - (popped + 1))" "store h' lv d"
      "bin_holds (words h') lv D b' zs" "runs_ok (bt_owner T) (words h') lv ks'"
      "set (group_blocks ks') = set (group_blocks ks1) \<union> set ys" "length ks' \<le> popped + 1 + length ys"
      "\<forall>a. a \<notin> set xs \<union> set (group_blocks ks1) \<longrightarrow> words h' a = words (poke w h) a"
      using Cons.IH [OF st b1] by blast
    have e0: "flush_pop T n h b (map fst ks) popped = flush_pop T n (poke w h) b1 (map fst ks1) (popped + 1)"
      using True len pop(1) g(1) by (subst flush_pop.simps) simp
    have e1: "flush_pop T n h b (map fst ks) popped = Some (h', b', map fst ks', popped + length (p # ys))"
      using e0 i(1) by simp
    have e2: "length (p # ys) = min (length (p # xs) - n) (bt_chunk T - popped)" using i(3) True by auto
    have e3: "\<forall>a. a \<notin> set (p # xs) \<union> set (group_blocks ks) \<longrightarrow> words h' a = words h a"
    proof (intro allI impI)
      fix a assume a: "a \<notin> set (p # xs) \<union> set (group_blocks ks)"
      then have "a \<notin> set xs \<union> set (group_blocks ks1)" "w a = words h a" unfolding g(3) by (auto intro: same)
      then show "words h' a = words h a" using i(9) [unfolded words_poke, rule_format] by simp
    qed
    have e4: "set (group_blocks ks') = set (group_blocks ks) \<union> set (p # ys)" unfolding i(7) g(3) by auto
    have e5: "p # xs = (p # ys) @ zs" "length ks' \<le> popped + length (p # ys)" using i(2,8) by simp_all
    show ?thesis
      by (intro exI conjI) (rule e1, rule e5, rule e2, rule i, rule i, rule i, rule e4, rule e5, rule e3)
  qed
qed

lemma flush_to_ok:
  assumes "store h lv d" "bin_holds (words h) lv D b xs"
  shows "\<exists>h' b' d' ys zs. flush_to T n h b = Some (h', b', length ys) \<and> xs = ys @ zs \<and> length zs = min (length xs) n
    \<and> store h' (lv - set ys) d' \<and> bin_holds (words h') (lv - set ys) D b' zs
    \<and> d' \<subseteq> d \<union> set ys \<and> (\<forall>a \<in> lv - set xs. words h' a = words h a)"
  using assms
proof (induction "length xs" arbitrary: h lv d b xs rule: less_induct)
  case less
  have len: "b_len b = length xs" using less.prems(2) by (simp add: bin_holds_def)
  show ?case
  proof (cases "n < length xs")
    case False
    then have "flush_to T n h b = Some (h, b, length [])" by (subst flush_to.simps) (simp add: len)
    then show ?thesis using less.prems False
      by (intro exI [of _ h] exI [of _ b] exI [of _ d] exI [of _ "[]"] exI [of _ xs]) simp
  next
    case True
    have nil: "runs_ok (bt_owner T) (words h) lv []" "set xs \<inter> set (group_blocks []) = {}"
      "length ([] :: (page_release_chunk \<times> addr list) list) \<le> 0"
      by (simp_all add: runs_ok_def)
    from flush_pop_ok [OF less.prems nil, of n, unfolded list.map] obtain h1 b1 ks ys zs where
      f: "flush_pop T n h b [] 0 = Some (h1, b1, map fst ks, 0 + length ys)" "xs = ys @ zs"
      "length ys = min (length xs - n) (bt_chunk T - 0)" "store h1 lv d" "bin_holds (words h1) lv D b1 zs"
      "runs_ok (bt_owner T) (words h1) lv ks" "set (group_blocks ks) = set (concat []) \<union> set ys"
      "length ks \<le> 0 + length ys" "\<forall>a. a \<notin> set xs \<union> set (concat []) \<longrightarrow> words h1 a = words h a"
      by blast
    have gb: "set (group_blocks ks) = set ys" using f(7) by (simp del: set_concat)
    have "length ks \<le> bt_slots T" using f(3,8) room(2) by simp
    from give_law [OF f(4,6) this, unfolded gb] obtain h2 d2 where
      g: "bt_give T (map fst ks) h1 = Some h2" "store h2 (lv - set ys) d2" "d2 \<subseteq> d \<union> set ys"
      "\<forall>a \<in> lv - set ys. words h2 a = words h1 a"
      by blast
    have dst: "distinct (ys @ zs)" "set zs \<subseteq> lv" using less.prems(2) f(2) by (auto simp: bin_holds_def)
    then have b1: "bin_holds (words h2) (lv - set ys) D b1 zs"
      by (intro bin_holds_frame [OF f(5)]) (use g(3,4) in auto)
    have ne: "length ys \<noteq> 0" "length zs < length xs" using f(2,3) True room(1) by (auto simp: min_def split: if_splits)
    from less.hyps [OF ne(2) g(2) b1] obtain h3 b3 d3 us vs where
      i: "flush_to T n h2 b1 = Some (h3, b3, length us)" "zs = us @ vs" "length vs = min (length zs) n"
      "store h3 (lv - set ys - set us) d3" "bin_holds (words h3) (lv - set ys - set us) D b3 vs"
      "d3 \<subseteq> d2 \<union> set us" "\<forall>a \<in> lv - set ys - set zs. words h3 a = words h2 a"
      by blast
    have "flush_to T n h b = Some (h3, b3, length (ys @ us))"
      using True f(1) g(1) ne(1) i(1) by (subst flush_to.simps) (simp add: len)
    note e1 = this
    have e2: "length vs = min (length xs) n" using i(3) f(2,3) by auto
    have e3: "\<forall>a \<in> lv - set xs. words h3 a = words h a"
      using i(7) g(4) f(2,9) by simp
    have e4: "lv - set ys - set us = lv - set (ys @ us)" by auto
    have e5: "d3 \<subseteq> d \<union> set (ys @ us)" using i(6) g(3) by auto
    have e6: "xs = (ys @ us) @ vs" using i(2) f(2) by simp
    show ?thesis
      by (intro exI conjI) (rule e1, rule e6, rule e2, rule i(4) [unfolded e4], rule i(5) [unfolded e4], rule e5, rule e3)
  qed
qed

end

end
