(* ===== verification/Cache_Tiers.thy ===== *)
theory Cache_Tiers
  imports Cache_Bins
begin

text \<open>
  The three heaps under the bins of \<open>src/src/cache.rs\<close>: what a flush calls to give blocks back, and what a
  refill calls to take them, for the small, medium and big tier.  Each tier is shown to be a \<open>class_store\<close>
  and, with its \<open>take_blocks\<close>, a \<open>class_source\<close>.

  The owner of a small block is its page.  The owners of medium and big blocks come from \<open>SpanMaster::of\<close> and
  the side table: \<open>span_at\<close> is what these lookups answer during one call (\<open>Page_Layout\<close> and \<open>Side_Table\<close> prove
  that they answer with the span that covers the block).
\<close>

section \<open>Giving back\<close>

type_synonym small_heap = "(unit, list_head, heap_effect) class_heap"
type_synonym span_heap = "(unit span_master_ext, span_list, span_effect) class_heap"

definition FLUSH_CHUNK :: nat where [const_simps]: "FLUSH_CHUNK = 2048"
definition MAX_FLUSH_GROUPS :: nat where [const_simps]: "MAX_FLUSH_GROUPS = FLUSH_CHUNK + 8"
definition MFLUSH_CHUNK :: nat where [const_simps]: "MFLUSH_CHUNK = 256"
definition MAX_MFLUSH_GROUPS :: nat where [const_simps]: "MAX_MFLUSH_GROUPS = MFLUSH_CHUNK + 4"
definition BFLUSH_CHUNK :: nat where [const_simps]: "BFLUSH_CHUNK = 64"
definition MAX_BFLUSH_GROUPS :: nat where [const_simps]: "MAX_BFLUSH_GROUPS = BFLUSH_CHUNK + 4"

text \<open>A small block without room for its group is skipped, a medium or big one is released alone.\<close>

definition small_bins :: "purge \<Rightarrow> (addr \<Rightarrow> nat \<Rightarrow> bool) \<Rightarrow> small_heap bin_tier" where
  "small_bins purge in_arena = \<lparr>
     bt_owner = page_of,
     bt_solo = (\<lambda>_ _ h. Some h),
     bt_give = (\<lambda>gs h. let (s, effs) = release_many purge in_arena (fst h) gs in Some (s, snd h @ effs)),
     bt_chunk = FLUSH_CHUNK, bt_slots = MAX_FLUSH_GROUPS \<rparr>"

definition to_mchunk :: "page_release_chunk \<Rightarrow> mrelease_chunk" where
  "to_mchunk g = \<lparr>mc_span = rc_page g, mc_head = rc_head g, mc_tail = rc_tail g, mc_n = rc_n g\<rparr>"

definition medium_give :: "(addr \<Rightarrow> nat \<Rightarrow> bool) \<Rightarrow> nat \<Rightarrow> span_purge \<Rightarrow> page_release_chunk list \<Rightarrow> span_heap \<Rightarrow> span_heap option" where
  "medium_give in_arena mclass purge gs h =
     (case medium_release_many in_arena mclass purge (fst h) (map to_mchunk gs) of
        None \<Rightarrow> None
      | Some (s, effs) \<Rightarrow> Some (s, snd h @ effs))"

definition medium_release :: "(addr \<Rightarrow> nat \<Rightarrow> bool) \<Rightarrow> nat \<Rightarrow> span_purge \<Rightarrow> addr \<Rightarrow> addr \<Rightarrow> addr \<Rightarrow> nat \<Rightarrow>
    span_heap \<Rightarrow> span_heap" where
  "medium_release in_arena mclass purge span head tail n h =
     (let (m, sl, effs) = medium_release_blocks in_arena mclass purge (fst (fst h)) (snd (fst h)) span head tail n
      in ((m, sl), snd h @ effs))"

definition medium_bins :: "(addr \<Rightarrow> nat \<Rightarrow> bool) \<Rightarrow> span_purge \<Rightarrow> (addr \<Rightarrow> addr) \<Rightarrow> nat \<Rightarrow> span_heap bin_tier" where
  "medium_bins in_arena purge span_at mclass = \<lparr>
     bt_owner = span_at,
     bt_solo = (\<lambda>span b h. Some (medium_release in_arena mclass purge span b b 1 h)),
     bt_give = medium_give in_arena mclass purge,
     bt_chunk = MFLUSH_CHUNK, bt_slots = MAX_MFLUSH_GROUPS \<rparr>"

definition big_release :: "(addr \<Rightarrow> nat \<Rightarrow> bool) \<Rightarrow> span_purge \<Rightarrow> addr \<Rightarrow> addr \<Rightarrow> nat \<Rightarrow> span_heap \<Rightarrow> span_heap option" where
  "big_release in_arena purge span ch n h =
     (case big_release_blocks in_arena purge (fst (fst h)) (snd (fst h)) span ch n of
        None \<Rightarrow> None
      | Some (m, sl, effs) \<Rightarrow> Some ((m, sl), snd h @ effs))"

fun big_give :: "(addr \<Rightarrow> nat \<Rightarrow> bool) \<Rightarrow> span_purge \<Rightarrow> page_release_chunk list \<Rightarrow> span_heap \<Rightarrow> span_heap option" where
  "big_give in_arena purge [] h = Some h"
| "big_give in_arena purge (g # gs) h =
     (case big_release in_arena purge (rc_page g) (rc_head g) (rc_n g) h of
        None \<Rightarrow> None
      | Some h' \<Rightarrow> big_give in_arena purge gs h')"

definition big_bins :: "(addr \<Rightarrow> nat \<Rightarrow> bool) \<Rightarrow> span_purge \<Rightarrow> (addr \<Rightarrow> addr) \<Rightarrow> span_heap bin_tier" where
  "big_bins in_arena purge span_at = \<lparr>
     bt_owner = span_at,
     bt_solo = (\<lambda>span b. big_release in_arena purge span b 1),
     bt_give = big_give in_arena purge,
     bt_chunk = BFLUSH_CHUNK, bt_slots = MAX_BFLUSH_GROUPS \<rparr>"

section \<open>Taking\<close>

definition small_take :: "nat \<Rightarrow> addr \<Rightarrow> small_heap \<Rightarrow> (small_heap \<times> addr \<times> nat \<times> bool) option" where
  "small_take c mapped h =
     (case take_blocks c mapped (fst (fst h)) (snd (fst h)) of
        None \<Rightarrow> None
      | Some (s, ch, n, v) \<Rightarrow> Some ((s, snd h), ch, n, v))"

definition medium_take :: "(addr \<Rightarrow> nat \<Rightarrow> bool) \<Rightarrow> nat \<Rightarrow> addr \<Rightarrow> span_heap \<Rightarrow> (span_heap \<times> addr \<times> nat \<times> bool) option" where
  "medium_take in_arena mclass raw h =
     (case medium_take_blocks in_arena mclass raw (fst (fst h)) (snd (fst h)) of
        None \<Rightarrow> None
      | Some ((s, ch, n, v), effs) \<Rightarrow> Some ((s, snd h @ effs), ch, n, v))"

definition big_take :: "nat \<Rightarrow> addr \<Rightarrow> span_heap \<Rightarrow> (span_heap \<times> addr \<times> nat \<times> bool) option" where
  "big_take bclass raw h =
     (case big_take_blocks bclass raw (fst (fst h)) (snd (fst h)) of
        None \<Rightarrow> None
      | Some ((s, ch, n, v), effs) \<Rightarrow> Some ((s, snd h @ effs), ch, n, v))"

text \<open>A source of blocks: taking serves blocks nobody holds, or nothing when the system refuses.\<close>

definition took :: "(('a, 'l, 'e) class_heap \<Rightarrow> addr set \<Rightarrow> addr set \<Rightarrow> bool) \<Rightarrow> ('a, 'l, 'e) class_heap \<Rightarrow> addr set \<Rightarrow>
    addr set \<Rightarrow> ('a, 'l, 'e) class_heap \<Rightarrow> addr \<Rightarrow> bool \<Rightarrow> addr list \<Rightarrow> addr set \<Rightarrow> bool" where
  "took store h lv d h' ch v new d' \<longleftrightarrow> new \<noteq> [] \<and> distinct new \<and> chain (words h') ch new \<and> set new \<inter> lv = {}
     \<and> store h' (lv \<union> set new) d' \<and> d' \<subseteq> d \<and> (v \<longrightarrow> set new \<inter> d' = {}) \<and> (\<forall>a \<in> lv. words h' a = words h a)"

locale class_source = class_store T store
  for T :: "('a, 'l, 'e) class_heap bin_tier" and store :: "('a, 'l, 'e) class_heap \<Rightarrow> addr set \<Rightarrow> addr set \<Rightarrow> bool" +
  fixes take :: "('a, 'l, 'e) class_heap \<Rightarrow> (('a, 'l, 'e) class_heap \<times> addr \<times> nat \<times> bool) option"
    and fresh :: "('a, 'l, 'e) class_heap \<Rightarrow> addr set \<Rightarrow> bool"
  assumes take_law: "store h lv d \<Longrightarrow> fresh h lv \<Longrightarrow> take h = Some (h, null, 0, False)
    \<or> (\<exists>h' ch v new d'. take h = Some (h', ch, length new, v) \<and> took store h lv d h' ch v new d')"

section \<open>The small tier\<close>

definition small_store :: "purge \<Rightarrow> nat \<Rightarrow> small_heap \<Rightarrow> addr set \<Rightarrow> addr set \<Rightarrow> bool" where
  "small_store purge c h lv d \<longleftrightarrow> purge_ok purge \<and> (\<exists>pl el full fl.
     class_inv c (fst (fst h)) (snd (fst h)) pl el full fl d \<and> lv = class_live (fst (fst h)) fl (set pl \<union> set el \<union> full))"

text \<open>The pages of a class that have no block in the hands of a thread, read off its lists.\<close>

definition idle_pages :: "small_heap \<Rightarrow> addr set" where
  "idle_pages h = (let (m, lh) = fst h in
     {p. \<exists>pl. partial_list (hdrs_of m) (lh_head lh) pl \<and> p \<in> set pl}
     \<union> {p. \<exists>el. elist (hdrs_of m) (lh_empty lh) el \<and> p \<in> set el} \<union> set (cold_pages lh))"

definition small_fresh :: "addr \<Rightarrow> small_heap \<Rightarrow> addr set \<Rightarrow> bool" where
  "small_fresh mapped h lv \<longleftrightarrow> mapped = null \<or> PAGE_SIZE dvd mapped \<and> mapped \<notin> idle_pages h \<and> mapped \<notin> page_of ` lv"

lemma runs_ok_run:
  assumes "runs_ok own w lv ks" "(k, bs) \<in> set ks"
  shows "run_ok own w k bs" "distinct bs" "set bs \<subseteq> lv"
proof -
  have "bs \<in> set (map snd ks)" using assms(2) by force
  then show "distinct bs" "set bs \<subseteq> lv" using assms(1) unfolding runs_ok_def by (auto simp: distinct_concat_iff)
  show "run_ok own w k bs" using assms by (auto simp: runs_ok_def)
qed

lemma run_linked:
  assumes "run_ok own w k bs" "distinct bs"
  shows "linked_run w (rc_head k) (rc_tail k) bs"
proof -
  have "w(last bs := 0) = w" using assms chain_last_null [of w "rc_head k" bs] by (simp add: run_ok_def fun_upd_idem_iff)
  then show ?thesis using assms by (auto simp: linked_run_def run_ok_def)
qed

lemma small_live_block:
  assumes "class_inv c m lh pl el full fl d" "b \<in> class_live m fl (set pl \<union> set el \<union> full)"
  shows "b \<noteq> 0" "\<And>q. q \<in> set pl \<union> set el \<union> full \<Longrightarrow> b \<notin> page_avail m fl q"
proof -
  note b = class_live_page [OF assms]
  have "page_inv c m fl d (page_of b)" using b(1) assms(1) by (auto simp: class_inv_def)
  then have "page_of b \<noteq> 0" by (simp add: page_inv_def page_ok_def)
  then show "b \<noteq> 0" by (auto simp: page_of_def mask_down_def)
  show "b \<notin> page_avail m fl q" if q: "q \<in> set pl \<union> set el \<union> full" for q
  proof
    assume a: "b \<in> page_avail m fl q"
    have "page_inv c m fl d q" using assms(1) q by (auto simp: class_inv_def)
    from page_avail_range(1) [OF this] have "page_of b = q" using a by (auto simp: page_range_def)
    then show False using b(2) a by (simp add: live_def)
  qed
qed

text \<open>Claiming a page changes no field the heap reads.\<close>

lemma set_owner_hdr:
  "hdr_at (fst (fst (set_owner p i h))) q
     = (if q = p then (hdr_at (fst (fst h)) q)\<lparr>owner := i\<rparr> else hdr_at (fst (fst h)) q)"
  by (simp add: set_owner_def)

lemma set_owner_lists:
  assumes "\<And>q. h_prev (f' q) = h_prev (f q) \<and> h_next (f' q) = h_next (f q) \<and> h_flags (f' q) = h_flags (f q)"
  shows "partial_list f' x xs = partial_list f x xs" "elist f' x xs = elist f x xs"
proof -
  have "dseg f' pv x xs 0 = dseg f pv x xs 0" for pv by (rule dseg_cong) (use assms in simp)
  then show "partial_list f' x xs = partial_list f x xs" using assms by (simp add: partial_list_def)
  show "elist f' x xs = elist f x xs" by (rule elist_cong) (use assms in simp)
qed

lemma class_inv_owner:
  assumes m': "m' = set_hdr (m :: page_mem) p ((hdr_at m p)\<lparr>owner := i\<rparr>)"
  shows "class_inv c m' lh pl el full fl d = class_inv c m lh pl el full fl d" "class_live m' fl ps = class_live m fl ps"
proof -
  have f: "h_prev (hdrs_of m' q) = h_prev (hdrs_of m q)" "h_next (hdrs_of m' q) = h_next (hdrs_of m q)"
    "h_flags (hdrs_of m' q) = h_flags (hdrs_of m q)" "h_class (hdrs_of m' q) = h_class (hdrs_of m q)"
    "used (hdrs_of m' q) = used (hdrs_of m q)" "free_count (hdrs_of m' q) = free_count (hdrs_of m q)"
    "free_head (hdrs_of m' q) = free_head (hdrs_of m q)" "cells_of m' = cells_of m" for q
    by (simp_all add: m')
  have sl: "capacity (hdrs_of m' q) = capacity (hdrs_of m q)" "slots q (hdrs_of m' q) = slots q (hdrs_of m q)"
    "avail q (hdrs_of m' q) (fl q) = avail q (hdrs_of m q) (fl q)" for q
    by (simp_all add: f capacity_def slots_def avail_def unborn_def)
  have "page_inv c m' fl d q = page_inv c m fl d q" for q
    by (simp add: page_inv_def page_ok_def f sl)
  then show "class_inv c m' lh pl el full fl d = class_inv c m lh pl el full fl d"
    using set_owner_lists [of "hdrs_of m'" "hdrs_of m"] by (simp add: class_inv_def f sl)
  show "class_live m' fl ps = class_live m fl ps" by (simp add: class_live_def live_def sl)
qed

lemma span_class_inv_owner:
  assumes m': "m' = set_hdr (m :: span_mem) p ((hdr_at m p)\<lparr>owner := i\<rparr>)"
  shows "span_class_inv T pages cls layout m' sl pl el full fl d = span_class_inv T pages cls layout m sl pl el full fl d"
proof -
  have f: "h_prev (hdrs_of m' q) = h_prev (hdrs_of m q)" "h_next (hdrs_of m' q) = h_next (hdrs_of m q)"
    "h_flags (hdrs_of m' q) = h_flags (hdrs_of m q)" "h_class (hdrs_of m' q) = h_class (hdrs_of m q)"
    "used (hdrs_of m' q) = used (hdrs_of m q)" "free_count (hdrs_of m' q) = free_count (hdrs_of m q)"
    "free_head (hdrs_of m' q) = free_head (hdrs_of m q)" "npages (hdrs_of m' q) = npages (hdrs_of m q)"
    "cells_of m' = cells_of m" for q
    by (simp_all add: m')
  have "span_inv pages cls layout m' fl d q = span_inv pages cls layout m fl d q" for q
    by (simp add: span_inv_def span_ok_def f)
  then show ?thesis
    using set_owner_lists [of "hdrs_of m'" "hdrs_of m"] by (simp add: span_class_inv_def f)
qed

interpretation smalls: class_store "small_bins purge in_arena" "small_store purge c" for purge in_arena c
proof (unfold_locales, goal_cases)
  case (3 h lv d w)
  obtain m lh e where h: "h = ((m, lh), e)" by (metis surj_pair)
  obtain pl el full fl where inv: "purge_ok purge" "class_inv c m lh pl el full fl d"
    "lv = class_live m fl (set pl \<union> set el \<union> full)"
    using 3(1) by (auto simp: small_store_def h)
  have "w a = cells_of m a" if "q \<in> set pl \<union> set el \<union> full" "a \<in> page_avail m fl q" for q a
    using 3(2) [of a] small_live_block(2) [OF inv(2) _ that(1)] that(2) inv(3) by (auto simp: words_def h)
  then have "class_inv c (m\<lparr>cells_of := w\<rparr>) lh pl el full fl d"
    "class_live (m\<lparr>cells_of := w\<rparr>) fl (set pl \<union> set el \<union> full) = lv"
    using class_inv_mem [OF inv(2), of "m\<lparr>cells_of := w\<rparr>" fl] inv(3) by auto
  then show ?case using inv(1) by (fastforce simp: small_store_def poke_def h)
next
  case (4 h lv d)
  then show ?case unfolding small_store_def using small_live_block(1) by blast
next
  case (5 h lv d ks)
  obtain m lh e where h: "h = ((m, lh), e)" by (metis surj_pair)
  obtain pl el full fl where inv: "purge_ok purge" "class_inv c m lh pl el full fl d"
    "lv = class_live m fl (set pl \<union> set el \<union> full)"
    using 5(1) by (auto simp: small_store_def h)
  have ks: "chunks_ok m lv ks"
  proof -
    have "chunk_ok m lv k bs" if k: "(k, bs) \<in> set ks" for k bs
    proof -
      have "set bs \<subseteq> set (group_blocks ks)" "distinct bs" "run_ok page_of (cells_of m) k bs"
        using 5(2) k by (auto simp: runs_ok_def small_bins_def words_def h distinct_concat_iff)
      moreover from this have "linked_run (cells_of m) (rc_head k) (rc_tail k) bs" by (intro run_linked)
      ultimately show ?thesis using 5(2) unfolding chunk_ok_def runs_ok_def run_ok_def by blast
    qed
    then show ?thesis using 5(2) by (auto simp: chunks_ok_def runs_ok_def)
  qed
  from release_many_facts [OF inv(2,1) ks [unfolded inv(3)], of in_arena] obtain m' lh' effs pl' el' full' fl' d' where
    "release_many purge in_arena (m, lh) (map fst ks) = ((m', lh'), effs)" "class_inv c m' lh' pl' el' full' fl' d'"
    "class_live m' fl' (set pl' \<union> set el' \<union> full') = lv - set (group_blocks ks)" "d' \<subseteq> d \<union> set (group_blocks ks)"
    "\<forall>a \<in> lv - set (group_blocks ks). cells_of m' a = cells_of m a"
    unfolding inv(3) by blast
  then show ?case using inv(1)
    by (intro exI [of _ "((m', lh'), e @ effs)"] exI [of _ d'] conjI)
       (simp_all add: small_bins_def h words_def small_store_def del: set_concat, metis)
next
  case (6 h lv d p i)
  then show ?case by (simp add: small_store_def set_owner_def class_inv_owner [OF refl])
qed (simp_all add: small_bins_def const_simps)

text \<open>A full page holds a live block, so a page with none is on one of the lists.\<close>

lemma slots_nonempty:
  assumes "h_class h < NUM_CLASSES"
  shows "slots p h \<noteq> {}"
proof -
  have "0 < CLASSES ! h_class h" "CLASSES ! h_class h \<le> 16384"
    using CLASSES_bounds [of "h_class h"] assms by (auto simp: const_simps)
  then have "0 < capacity h" by (simp add: capacity_def const_simps div_greater_zero_iff)
  then show ?thesis by (cases "capacity h") (auto simp: slots_def blocks_at_def)
qed

lemma small_fresh_page:
  assumes inv: "class_inv c m lh pl el full fl d" and f: "small_fresh mapped ((m, lh), e) (class_live m fl (set pl \<union> set el \<union> full))"
  shows "mapped = null \<or> PAGE_SIZE dvd mapped \<and> mapped \<notin> set (pl @ el @ cold_pages lh) \<union> full"
proof (cases "mapped = null")
  case False
  then have m: "PAGE_SIZE dvd mapped" "mapped \<notin> idle_pages ((m, lh), e)"
    "mapped \<notin> page_of ` class_live m fl (set pl \<union> set el \<union> full)"
    using f by (simp_all add: small_fresh_def)
  have "mapped \<notin> full"
  proof
    assume p: "mapped \<in> full"
    then have pi: "page_inv c m fl d mapped" "page_avail m fl mapped = {}" using inv by (auto simp: class_inv_def)
    then have ok: "page_ok (cells_of m) mapped (hdr_at m mapped) (fl mapped)" by (simp add: page_inv_def)
    obtain b where b: "b \<in> slots mapped (hdr_at m mapped)" using slots_nonempty [of "hdr_at m mapped"] ok by (auto simp: page_ok_def)
    then have "b \<in> class_live m fl (set pl \<union> set el \<union> full)" using p pi(2) by (auto simp: class_live_def live_def)
    moreover have "page_of b = mapped" by (rule live_page_range [OF ok b])
    ultimately show False using m(3) by blast
  qed
  moreover have "mapped \<notin> set pl \<union> set el \<union> set (cold_pages lh)"
    using m(2) inv by (auto simp: idle_pages_def class_inv_def)
  ultimately show ?thesis using m(1) by simp
qed simp

interpretation smalls: class_source "small_bins purge in_arena" "small_store purge c" "small_take c mapped" "small_fresh mapped"
  for purge in_arena c mapped
proof (unfold_locales, goal_cases)
  case (1 h lv d)
  obtain m lh e where h: "h = ((m, lh), e)" by (metis surj_pair)
  obtain pl el full fl where inv: "purge_ok purge" "class_inv c m lh pl el full fl d"
    "lv = class_live m fl (set pl \<union> set el \<union> full)"
    using 1(1) by (auto simp: small_store_def h)
  from take_blocks_facts [OF inv(2) small_fresh_page [OF inv(2) 1(2) [unfolded h inv(3)]]] show ?case
  proof
    assume "mapped = null \<and> pl = [] \<and> el = [] \<and> cold_pages lh = []
      \<and> take_blocks c mapped m lh = Some ((m, lh), null, 0, False)"
    then have "take_blocks c mapped m lh = Some ((m, lh), null, 0, False)" by blast
    then show ?thesis by (simp add: small_take_def h)
  next
    assume "\<exists>m' lh' ch v' pl' el' full' fl' dirty' new.
      take_blocks c mapped m lh = Some ((m', lh'), ch, length new, v')
      \<and> new \<noteq> [] \<and> length new \<le> REFILL_BATCH \<and> distinct new \<and> chain (cells_of m') ch new
      \<and> class_inv c m' lh' pl' el' full' fl' dirty'
      \<and> set new \<inter> class_live m fl (set pl \<union> set el \<union> full) = {}
      \<and> class_live m' fl' (set pl' \<union> set el' \<union> full') = class_live m fl (set pl \<union> set el \<union> full) \<union> set new
      \<and> (\<forall>a \<in> class_live m fl (set pl \<union> set el \<union> full). cells_of m' a = cells_of m a)
      \<and> d - page_range mapped \<subseteq> dirty' \<and> dirty' \<subseteq> d \<and> (v' \<longrightarrow> set new \<inter> dirty' = {})"
    then obtain m' lh' ch v' pl' el' full' fl' d' new where t:
      "take_blocks c mapped m lh = Some ((m', lh'), ch, length new, v')"
      "new \<noteq> []" "distinct new" "chain (cells_of m') ch new" "class_inv c m' lh' pl' el' full' fl' d'"
      "set new \<inter> lv = {}" "class_live m' fl' (set pl' \<union> set el' \<union> full') = lv \<union> set new"
      "\<forall>a \<in> lv. cells_of m' a = cells_of m a" "d' \<subseteq> d" "v' \<longrightarrow> set new \<inter> d' = {}"
      unfolding inv(3) by blast
    have "small_store purge c ((m', lh'), e) (lv \<union> set new) d'"
      using inv(1) t(5,7) unfolding small_store_def by (simp flip: t(7)) blast
    then have "took (small_store purge c) h lv d ((m', lh'), e) ch v' new d'"
      using t(2-4,6,8-10) by (simp add: took_def words_def h)
    then show ?thesis using t(1) by (simp add: small_take_def h) blast
  qed
qed

section \<open>The medium and big tiers\<close>

text \<open>\<open>span_at\<close> resolves every block in the hands of a thread to its span.\<close>

definition span_store :: "span_tier \<Rightarrow> nat \<Rightarrow> nat \<Rightarrow> (addr \<Rightarrow> addr list) \<Rightarrow> (addr \<Rightarrow> addr) \<Rightarrow> span_heap \<Rightarrow> addr set \<Rightarrow> addr set \<Rightarrow> bool" where
  "span_store T pages cls layout span_at h lv d \<longleftrightarrow> (\<exists>pl el full fl.
     span_class_inv T pages cls layout (fst (fst h)) (snd (fst h)) pl el full fl d
     \<and> lv = span_live layout fl (set pl \<union> set el \<union> full)
     \<and> (\<forall>b \<in> lv. span_at b \<in> class_spans (snd (fst h)) pl el full \<and> b \<in> span_range (span_at b) pages))"

definition medium_store :: "(addr \<Rightarrow> nat \<Rightarrow> bool) \<Rightarrow> span_purge \<Rightarrow> (addr \<Rightarrow> addr) \<Rightarrow> nat \<Rightarrow> span_heap \<Rightarrow> addr set \<Rightarrow> addr set \<Rightarrow> bool" where
  "medium_store in_arena purge span_at c h lv d \<longleftrightarrow> c < NUM_MEDIUM \<and> span_purge_ok purge
     \<and> span_store (medium_tier in_arena c) (medium_pages c) c (medium_layout in_arena c) span_at h lv d"

definition big_store :: "span_purge \<Rightarrow> (addr \<Rightarrow> addr) \<Rightarrow> nat \<Rightarrow> span_heap \<Rightarrow> addr set \<Rightarrow> addr set \<Rightarrow> bool" where
  "big_store purge span_at c h lv d \<longleftrightarrow> c < NUM_BIG \<and> span_purge_ok purge
     \<and> span_store (big_tier c) (big_pages c) c (big_layout c) span_at h lv d"

definition idle_spans :: "span_heap \<Rightarrow> addr set" where
  "idle_spans h = (let (m, sl) = fst h in
     {p. \<exists>pl. partial_list (hdrs_of m) (sl_head sl) pl \<and> p \<in> set pl}
     \<union> {p. \<exists>el. elist (hdrs_of m) (sl_empty sl) el \<and> p \<in> set el} \<union> set (map fst (cold_spans sl)))"

text \<open>
  What a refill needs of the outside: the new range is apart from every span of the class, and the lookup
  resolves the blocks of the spans it may serve from.
\<close>

definition span_fresh :: "nat \<Rightarrow> (addr \<Rightarrow> addr list) \<Rightarrow> (addr \<Rightarrow> addr) \<Rightarrow> addr \<Rightarrow> span_heap \<Rightarrow> addr set \<Rightarrow> bool" where
  "span_fresh pages layout span_at raw h lv \<longleftrightarrow>
     (raw = null \<or> PAGE_SIZE dvd raw \<and> raw \<notin> idle_spans h \<union> span_at ` lv
        \<and> (\<forall>p \<in> idle_spans h \<union> span_at ` lv. span_range raw pages \<inter> span_range p pages = {}))
     \<and> (\<forall>p \<in> insert raw (idle_spans h). \<forall>b \<in> set (layout p). span_at b = p)"

lemma span_live_block:
  assumes inv: "span_class_inv T pages cls layout m sl pl el full fl d" and b: "b \<in> span_live layout fl (set pl \<union> set el \<union> full)"
  shows "b \<noteq> 0" "\<And>q. q \<in> set pl \<union> set el \<union> full \<Longrightarrow> b \<notin> set (fl q)"
    "\<And>p. p \<in> class_spans sl pl el full \<Longrightarrow> b \<in> span_range p pages \<Longrightarrow> p \<in> set pl \<union> set el \<union> full \<and> b \<in> set (layout p) - set (fl p)"
proof -
  obtain q where q: "q \<in> set pl \<union> set el \<union> full" "b \<in> set (layout q)" "b \<notin> set (fl q)"
    using b by (auto simp: span_live_def)
  have own: "span_inv pages cls layout m fl d q'" if "q' \<in> set pl \<union> set el \<union> full" for q'
    using inv that by (simp add: span_class_inv_def)
  note sp = span_inv_blocks [OF own]
  have rng: "b \<in> span_range q pages" using sp(2) q by blast
  then show "b \<noteq> 0" using sp(4) [OF q(1)] by (simp add: span_range_def)
  have ap: "apart pages (class_spans sl pl el full)" using inv by (simp add: span_class_inv_def class_spans_def)
  have same: "p = q" if "p \<in> class_spans sl pl el full" "b \<in> span_range p pages" for p
    using apartD [OF ap that(1), of q] q(1) rng that(2) by (auto simp: class_spans_def)
  show "b \<notin> set (fl q')" if q': "q' \<in> set pl \<union> set el \<union> full" for q'
  proof
    assume f: "b \<in> set (fl q')"
    then have "b \<in> span_range q' pages" using sp(1,2) [OF q'] by blast
    then have "q' = q" using same [of q'] q' by (auto simp: class_spans_def)
    then show False using f q(3) by simp
  qed
  show "p \<in> set pl \<union> set el \<union> full \<and> b \<in> set (layout p) - set (fl p)"
    if "p \<in> class_spans sl pl el full" "b \<in> span_range p pages" for p
    using same [OF that] q by simp
qed

lemma span_store_poke:
  assumes "span_store T pages cls layout span_at h lv d" "\<And>a. a \<notin> lv \<Longrightarrow> w a = words h a"
  shows "span_store T pages cls layout span_at (poke w h) lv d"
proof -
  obtain m sl e where h: "h = ((m, sl), e)" by (metis surj_pair)
  obtain pl el full fl where inv: "span_class_inv T pages cls layout m sl pl el full fl d"
    "lv = span_live layout fl (set pl \<union> set el \<union> full)"
    "\<forall>b \<in> lv. span_at b \<in> class_spans sl pl el full \<and> b \<in> span_range (span_at b) pages"
    using assms(1) unfolding span_store_def h by auto
  have "w a = cells_of m a" if "q \<in> set pl \<union> set el \<union> full" "a \<in> set (fl q)" for q a
    using assms(2) [of a] span_live_block(2) [OF inv(1) _ that(1), of a] that(2) inv(2) by (auto simp: words_def h)
  then have "span_class_inv T pages cls layout (m\<lparr>cells_of := w\<rparr>) sl pl el full fl d"
    using span_class_inv_mem [OF inv(1), of "m\<lparr>cells_of := w\<rparr>" fl] by simp
  then show ?thesis using inv(2,3) by (fastforce simp: span_store_def poke_def h)
qed

lemma span_store_nonnull: "span_store T pages cls layout span_at h lv d \<Longrightarrow> 0 \<notin> lv"
  unfolding span_store_def using span_live_block(1) by blast

text \<open>The lookup stays right when spans without live blocks leave the class.\<close>

lemma span_store_shrink:
  assumes inv: "span_class_inv T pages cls layout m sl pl el full fl d"
    and S: "class_spans sl pl el full \<subseteq> S" "apart pages S"
    and lv: "span_live layout fl (set pl \<union> set el \<union> full) = lv'" "lv' \<subseteq> lv"
    and own: "\<forall>b \<in> lv. span_at b \<in> S \<and> b \<in> span_range (span_at b) pages"
  shows "span_store T pages cls layout span_at ((m, sl), e) lv' d"
proof -
  have "span_at b \<in> class_spans sl pl el full \<and> b \<in> span_range (span_at b) pages" if b: "b \<in> lv'" for b
  proof -
    obtain q where q: "q \<in> set pl \<union> set el \<union> full" "b \<in> set (layout q)" using b lv(1) by (auto simp: span_live_def)
    then have "span_inv pages cls layout m fl d q" using inv by (simp add: span_class_inv_def)
    from span_inv_blocks(2) [OF this] have "b \<in> span_range q pages" using q(2) by blast
    moreover have "q \<in> class_spans sl pl el full" using q(1) by (auto simp: class_spans_def)
    moreover have "span_at b \<in> S" "b \<in> span_range (span_at b) pages" using own b lv(2) by auto
    ultimately have "span_at b = q" using apartD [OF S(2), of "span_at b" q] S(1) by blast
    then show ?thesis using \<open>q \<in> class_spans sl pl el full\<close> \<open>b \<in> span_range q pages\<close> by simp
  qed
  then show ?thesis unfolding span_store_def fst_conv snd_conv using inv lv(1) by blast
qed

text \<open>Every span of the class is on one of its lists or has a live block that resolves to it.\<close>

lemma class_span_known:
  assumes inv: "span_class_inv T pages cls layout m sl pl el full fl d"
    and own: "\<forall>b \<in> span_live layout fl (set pl \<union> set el \<union> full). span_at b \<in> class_spans sl pl el full \<and> b \<in> span_range (span_at b) pages"
  shows "class_spans sl pl el full \<subseteq> idle_spans ((m, sl), e) \<union> span_at ` span_live layout fl (set pl \<union> set el \<union> full)"
proof
  fix p assume p: "p \<in> class_spans sl pl el full"
  show "p \<in> idle_spans ((m, sl), e) \<union> span_at ` span_live layout fl (set pl \<union> set el \<union> full)"
  proof (cases "p \<in> full")
    case False
    then show ?thesis using p inv by (auto simp: idle_spans_def class_spans_def span_class_inv_def)
  next
    case True
    then have sp: "span_inv pages cls layout m fl d p" "fl p = []" using inv by (auto simp: span_class_inv_def)
    then obtain b where b: "b \<in> set (layout p)" by (cases "layout p") (auto simp: span_inv_def span_ok_def)
    then have lv: "b \<in> span_live layout fl (set pl \<union> set el \<union> full)" using True sp(2) by (auto simp: span_live_def)
    have "b \<in> span_range p pages" using span_inv_blocks(2) [OF sp(1)] b by blast
    moreover have "apart pages (class_spans sl pl el full)" using inv by (simp add: span_class_inv_def class_spans_def)
    ultimately have "span_at b = p" using apartD [of pages _ "span_at b" p] own lv p by blast
    then show ?thesis using lv by blast
  qed
qed

lemma span_fresh_raw:
  assumes "span_class_inv T pages cls layout m sl pl el full fl d"
    and "\<forall>b \<in> span_live layout fl (set pl \<union> set el \<union> full). span_at b \<in> class_spans sl pl el full \<and> b \<in> span_range (span_at b) pages"
    and "span_fresh pages layout span_at raw ((m, sl), e) (span_live layout fl (set pl \<union> set el \<union> full))"
  shows "raw_ok pages (class_spans sl pl el full) raw"
proof -
  note k = class_span_known [OF assms(1,2), of e]
  have ap: "apart pages (class_spans sl pl el full)" using assms(1) by (simp add: span_class_inv_def class_spans_def)
  have "raw = null \<or> PAGE_SIZE dvd raw \<and> raw \<notin> class_spans sl pl el full
      \<and> (\<forall>p \<in> class_spans sl pl el full. span_range raw pages \<inter> span_range p pages = {})"
    using assms(3) k unfolding span_fresh_def by blast
  then show ?thesis using ap unfolding raw_ok_def apart_def by blast
qed

lemma served_took:
  assumes inv: "span_class_inv T pages cls layout m sl pl el full fl d"
    and own: "\<forall>b \<in> span_live layout fl (set pl \<union> set el \<union> full). span_at b \<in> class_spans sl pl el full \<and> b \<in> span_range (span_at b) pages"
    and fr: "span_fresh pages layout span_at raw ((m, sl), e) (span_live layout fl (set pl \<union> set el \<union> full))"
    and S': "S' = class_spans sl pl el full \<or> S' = insert raw (class_spans sl pl el full)"
    and srv: "span_served T pages cls layout S' (span_live layout fl (set pl \<union> set el \<union> full)) (cells_of m) d1 s" and d1: "d1 \<subseteq> d"
  obtains h' ch new v where "s = (h', ch, length new, v)"
    "\<And>e'. took (span_store T pages cls layout span_at) ((m, sl), e) (span_live layout fl (set pl \<union> set el \<union> full)) d (h', e') ch v new d1"
proof -
  define lv where "lv = span_live layout fl (set pl \<union> set el \<union> full)"
  define S where "S = class_spans sl pl el full"
  obtain m' sl' ch v pl' el' full' fl' new where r: "s = ((m', sl'), ch, length new, v)" "new \<noteq> []"
    "span_class_inv T pages cls layout m' sl' pl' el' full' fl' d1" "chain (cells_of m') ch new" "distinct new"
    "set new \<inter> lv = {}" "span_live layout fl' (set pl' \<union> set el' \<union> full') = lv \<union> set new" "class_spans sl' pl' el' full' = S'"
    "\<forall>a \<in> lv. cells_of m' a = cells_of m a" "v \<longrightarrow> set new \<inter> d1 = {}"
    using srv unfolding span_served_def span_refilled_def lv_def by blast
  have "span_at b \<in> S' \<and> b \<in> span_range (span_at b) pages" if b: "b \<in> lv \<union> set new" for b
  proof (cases "b \<in> lv")
    case True
    then show ?thesis using own S' by (auto simp: lv_def S_def)
  next
    case False
    obtain q where q: "q \<in> set pl' \<union> set el' \<union> full'" "b \<in> set (layout q)" using b r(7) by (auto simp: span_live_def)
    then have "span_inv pages cls layout m' fl' d1 q" using r(3) by (simp add: span_class_inv_def)
    then have rng: "b \<in> span_range q pages" using span_inv_blocks(2) q(2) by blast
    have qS: "q \<in> S'" using q(1) by (auto simp: class_spans_def simp flip: r(8))
    have "q \<notin> full"
    proof
      assume f: "q \<in> full"
      then have "fl q = []" using inv by (simp add: span_class_inv_def)
      then show False using False f q(2) by (auto simp: lv_def span_live_def)
    qed
    then have "q \<in> insert raw (idle_spans ((m, sl), e))"
      using qS S' inv by (auto simp: class_spans_def idle_spans_def span_class_inv_def)
    moreover have "\<forall>p \<in> insert raw (idle_spans ((m, sl), e)). \<forall>b \<in> set (layout p). span_at b = p"
      using fr unfolding span_fresh_def by (rule conjunct2)
    ultimately have "span_at b = q" using q(2) by (meson bspec)
    then show ?thesis using rng qS by simp
  qed
  then have "span_store T pages cls layout span_at ((m', sl'), e') (lv \<union> set new) d1" for e'
    unfolding span_store_def fst_conv snd_conv using r(3,7,8) by blast
  then have "took (span_store T pages cls layout span_at) ((m, sl), e) lv d ((m', sl'), e') ch v new d1" for e'
    using r(2,4-6,9,10) d1 by (simp add: took_def words_def)
  then show thesis using that [of "(m', sl')"] r(1) by (simp add: lv_def)
qed

lemma took_mono: "took st h lv d h' ch v new d' \<Longrightarrow> (\<And>h l d. st h l d \<Longrightarrow> st' h l d) \<Longrightarrow> took st' h lv d h' ch v new d'"
  by (auto simp: took_def)

section \<open>The medium tier\<close>

lemma to_mchunk_fields: "mc_span (to_mchunk k) = rc_page k" "mc_head (to_mchunk k) = rc_head k"
  "mc_tail (to_mchunk k) = rc_tail k" "mc_n (to_mchunk k) = rc_n k"
  by (simp_all add: to_mchunk_def)

interpretation mediums: class_store "medium_bins in_arena purge span_at c" "medium_store in_arena purge span_at c"
  for in_arena purge span_at c
proof (unfold_locales, goal_cases)
  case (3 h lv d w)
  then show ?case using span_store_poke by (auto simp: medium_store_def)
next
  case (4 h lv d)
  then show ?case unfolding medium_store_def using span_store_nonnull by blast
next
  case (5 h lv d ks)
  let ?T = "medium_tier in_arena c" and ?n = "medium_pages c" and ?L = "medium_layout in_arena c"
  obtain m sl e where h: "h = ((m, sl), e)" by (metis surj_pair)
  have c: "c < NUM_MEDIUM" "span_purge_ok purge" using 5(1) by (simp_all add: medium_store_def)
  obtain pl el full fl where inv: "span_class_inv ?T ?n c ?L m sl pl el full fl d"
    "lv = span_live ?L fl (set pl \<union> set el \<union> full)"
    "\<forall>b \<in> lv. span_at b \<in> class_spans sl pl el full \<and> b \<in> span_range (span_at b) ?n"
    using 5(1) unfolding medium_store_def span_store_def h by auto
  let ?ks = "map (\<lambda>(k, bs). (to_mchunk k, bs)) ks"
  have blk: "map snd ?ks = map snd ks" "map fst ?ks = map to_mchunk (map fst ks)" by auto
  have "mchunk_ok ?n (cells_of m) (class_spans sl pl el full) lv (to_mchunk k) bs" if k: "(k, bs) \<in> set ks" for k bs
  proof -
    have r: "set bs \<subseteq> lv" "distinct bs" "run_ok span_at (cells_of m) k bs" "rc_n k = length bs" "bs \<noteq> []"
      using runs_ok_run [OF 5(2) k] by (simp_all add: medium_bins_def words_def h run_ok_def)
    have "span_at b = rc_page k" if "b \<in> set bs" for b using r(3) that by (simp add: run_ok_def)
    then have "rc_page k \<in> class_spans sl pl el full" "set bs \<subseteq> span_range (rc_page k) ?n"
      using inv(3) r(1,5) by (metis subsetD last_in_set, metis subsetD subsetI)
    then show ?thesis using run_linked [OF r(3,2)] r(1,4) by (simp add: mchunk_ok_def to_mchunk_fields)
  qed
  then have "mchunks_ok ?n (cells_of m) (class_spans sl pl el full) (span_live ?L fl (set pl \<union> set el \<union> full)) ?ks"
    using 5(2) unfolding mchunks_ok_def blk(1) by (auto simp: runs_ok_def inv(2))
  moreover have "length ?ks \<le> FATE_SLOTS" using 5(3) by (simp add: medium_bins_def const_simps)
  ultimately obtain m' sl' us pl' el' full' fl' where t:
    "medium_release_many in_arena c purge (m, sl) (map to_mchunk (map fst ks))
      = Some ((m', sl'), clears in_arena ?n us @ give_up in_arena ?n us)"
    "class_spans sl' pl' el' full' = class_spans sl pl el full - set us"
    "span_class_inv ?T ?n c ?L m' sl' pl' el' full' fl' (d \<union> set (group_blocks ks))"
    "span_live ?L fl' (set pl' \<union> set el' \<union> full') = lv - set (group_blocks ks)"
    "\<forall>a \<in> lv - set (group_blocks ks). cells_of m' a = cells_of m a"
    using medium_release_many_facts [OF c inv(1), of ?ks] unfolding blk inv(2) by blast
  define e' where "e' = e @ clears in_arena ?n us @ give_up in_arena ?n us"
  have "apart ?n (class_spans sl pl el full)" using inv(1) by (simp add: span_class_inv_def class_spans_def)
  then have "span_store ?T ?n c ?L span_at ((m', sl'), e') (lv - set (group_blocks ks)) (d \<union> set (group_blocks ks))"
    using t(2) inv(3) by (intro span_store_shrink [OF t(3) _ _ t(4)]) auto
  then have "medium_store in_arena purge span_at c ((m', sl'), e') (lv - set (group_blocks ks)) (d \<union> set (group_blocks ks))"
    using c by (simp add: medium_store_def)
  moreover have "bt_give (medium_bins in_arena purge span_at c) (map fst ks) h = Some ((m', sl'), e')"
    using t(1) by (simp add: medium_bins_def medium_give_def h e'_def)
  moreover have "\<forall>a \<in> lv - set (group_blocks ks). words ((m', sl'), e') a = words h a" using t(5) by (simp add: words_def h)
  ultimately show ?case by blast
next
  case (6 h lv d p i)
  then show ?case by (simp add: medium_store_def span_store_def set_owner_def span_class_inv_owner [OF refl])
qed (simp_all add: medium_bins_def const_simps)

definition medium_fresh :: "(addr \<Rightarrow> nat \<Rightarrow> bool) \<Rightarrow> (addr \<Rightarrow> addr) \<Rightarrow> nat \<Rightarrow> addr \<Rightarrow> span_heap \<Rightarrow> addr set \<Rightarrow> bool" where
  "medium_fresh in_arena span_at c raw h lv \<longleftrightarrow> span_fresh (medium_pages c) (medium_layout in_arena c) span_at raw h lv"

interpretation mediums: class_source "medium_bins in_arena purge span_at c" "medium_store in_arena purge span_at c"
  "medium_take in_arena c raw" "medium_fresh in_arena span_at c raw"
  for in_arena purge span_at c raw
proof (unfold_locales, goal_cases)
  case (1 h lv d)
  let ?T = "medium_tier in_arena c" and ?n = "medium_pages c" and ?L = "medium_layout in_arena c"
  obtain m sl e where h: "h = ((m, sl), e)" by (metis surj_pair)
  have c: "c < NUM_MEDIUM" "span_purge_ok purge" using 1(1) by (simp_all add: medium_store_def)
  have med: "medium_store in_arena purge span_at c h' l d'" if "span_store ?T ?n c ?L span_at h' l d'" for h' l d'
    using that c by (simp add: medium_store_def)
  obtain pl el full fl where inv: "span_class_inv ?T ?n c ?L m sl pl el full fl d"
    "lv = span_live ?L fl (set pl \<union> set el \<union> full)"
    "\<forall>b \<in> lv. span_at b \<in> class_spans sl pl el full \<and> b \<in> span_range (span_at b) ?n"
    using 1(1) unfolding medium_store_def span_store_def h by auto
  note own = inv(3) [unfolded inv(2)]
  have fr: "span_fresh ?n ?L span_at raw ((m, sl), e) (span_live ?L fl (set pl \<union> set el \<union> full))"
    using 1(2) by (simp add: medium_fresh_def h inv(2))
  have fin: "\<exists>h' ch v new d'. medium_take in_arena c raw h = Some (h', ch, length new, v)
      \<and> took (medium_store in_arena purge span_at c) h lv d h' ch v new d'"
    if "medium_take_blocks in_arena c raw m sl = Some (s, effs)"
      "span_served ?T ?n c ?L S' (span_live ?L fl (set pl \<union> set el \<union> full)) (cells_of m) d1 s" "d1 \<subseteq> d"
      "S' = class_spans sl pl el full \<or> S' = insert raw (class_spans sl pl el full)" for s effs d1 S'
  proof -
    note taken = that(1) and srv = that(4,2,3)
    obtain h' ch new v where r: "s = (h', ch, length new, v)"
      "\<And>e'. took (span_store ?T ?n c ?L span_at) ((m, sl), e) (span_live ?L fl (set pl \<union> set el \<union> full)) d (h', e') ch v new d1"
      using served_took [OF inv(1) own fr srv] by blast
    have "took (medium_store in_arena purge span_at c) h lv d (h', e @ effs) ch v new d1"
      unfolding h inv(2) by (rule took_mono [OF r(2) med])
    moreover have "medium_take in_arena c raw h = Some ((h', e @ effs), ch, length new, v)"
      using taken by (simp add: medium_take_def h r(1))
    ultimately show ?thesis by blast
  qed
  note pg = medium_pages_bounds(1) [OF c(1)]
  show ?case
  proof (cases rule: med.take_step [OF c(1) inv(1) span_fresh_raw [OF inv(1) own fr, unfolded raw_ok_def]])
    case (1 s)
    then have "medium_take_blocks in_arena c raw m sl = Some (s, [])" using pg by (simp add: medium_take_blocks_def)
    then show ?thesis using fin 1(4) by blast
  next
    case (2 s)
    then obtain effs where "medium_take_blocks in_arena c raw m sl = Some (s, effs)" using pg by (simp add: medium_take_blocks_def)
    then show ?thesis using fin [OF _ 2(7)] by blast
  next
    case 3
    then show ?thesis using pg by (simp add: medium_take_def medium_take_blocks_def h)
  qed
qed

section \<open>The big tier\<close>

lemma big_give_ok:
  assumes "c < NUM_BIG" "span_purge_ok purge" "span_store (big_tier c) (big_pages c) c (big_layout c) span_at h lv d"
    "runs_ok span_at (words h) lv ks"
  shows "\<exists>h'. big_give in_arena purge (map fst ks) h = Some h'
    \<and> span_store (big_tier c) (big_pages c) c (big_layout c) span_at h' (lv - set (group_blocks ks)) (d \<union> set (group_blocks ks))
    \<and> (\<forall>a \<in> lv - set (group_blocks ks). words h' a = words h a)"
  using assms(3,4)
proof (induction ks arbitrary: h lv d)
  case (Cons kb ks)
  let ?T = "big_tier c" and ?n = "big_pages c" and ?L = "big_layout c"
  obtain k bs where kb: "kb = (k, bs)" by fastforce
  obtain m sl e where h: "h = ((m, sl), e)" by (metis surj_pair)
  obtain pl el full fl where inv: "span_class_inv ?T ?n c ?L m sl pl el full fl d"
    "lv = span_live ?L fl (set pl \<union> set el \<union> full)"
    "\<forall>b \<in> lv. span_at b \<in> class_spans sl pl el full \<and> b \<in> span_range (span_at b) ?n"
    using Cons.prems(1) unfolding span_store_def h by auto
  have r: "set bs \<subseteq> lv" "distinct bs" "run_ok span_at (cells_of m) k bs" "bs \<noteq> []" "distinct (group_blocks ks)"
    "set bs \<inter> set (group_blocks ks) = {}" "set (group_blocks ks) \<subseteq> lv"
    using Cons.prems(2) by (auto simp: runs_ok_def words_def h kb run_ok_def)
  have "span_at b = rc_page k" if "b \<in> set bs" for b using r(3) that by (simp add: run_ok_def)
  then have p: "rc_page k \<in> class_spans sl pl el full" "set bs \<subseteq> span_range (rc_page k) ?n"
    using inv(3) r(1,4) by (metis subsetD last_in_set, metis subsetD subsetI)
  have ch: "chain (cells_of m) (rc_head k) bs" "rc_n k = length bs" using r(3) by (simp_all add: run_ok_def)
  obtain m1 sl1 effs pl1 el1 full1 fl1 where g: "big_release_blocks in_arena purge m sl (rc_page k) (rc_head k) (length bs) = Some (m1, sl1, effs)"
    "span_class_inv ?T ?n c ?L m1 sl1 pl1 el1 full1 fl1 (d \<union> set bs)"
    "span_live ?L fl1 (set pl1 \<union> set el1 \<union> full1) = lv - set bs" "\<forall>a \<in> lv - set bs. cells_of m1 a = cells_of m a"
    "class_spans sl1 pl1 el1 full1 \<subseteq> class_spans sl pl el full"
    using big_release_blocks_facts [OF assms(1) inv(1) assms(2) p ch(1) r(2,4), of in_arena] r(1) unfolding inv(2) by blast
  have "apart ?n (class_spans sl pl el full)" using inv(1) by (simp add: span_class_inv_def class_spans_def)
  then have st: "span_store ?T ?n c ?L span_at ((m1, sl1), e @ effs) (lv - set bs) (d \<union> set bs)"
    using g(5) inv(3) by (intro span_store_shrink [OF g(2) _ _ g(3)]) auto
  have "runs_ok span_at (words ((m1, sl1), e @ effs)) (lv - set bs) ks"
  proof (rule runs_ok_frame [of span_at "words h" lv])
    show "runs_ok span_at (words h) lv ks" using Cons.prems(2) by (auto simp: runs_ok_def kb)
    show "words ((m1, sl1), e @ effs) a = words h a" if "a \<in> set (group_blocks ks)" for a
      using g(4) r(6,7) that by (auto simp: words_def h)
  qed (use r(6,7) in auto)
  from Cons.IH [OF st this] obtain h' where i: "big_give in_arena purge (map fst ks) ((m1, sl1), e @ effs) = Some h'"
    "span_store ?T ?n c ?L span_at h' (lv - set bs - set (group_blocks ks)) (d \<union> set bs \<union> set (group_blocks ks))"
    "\<forall>a \<in> lv - set bs - set (group_blocks ks). words h' a = words ((m1, sl1), e @ effs) a"
    by blast
  have b: "set (group_blocks (kb # ks)) = set bs \<union> set (group_blocks ks)" by (simp add: kb)
  have e: "lv - set bs - set (group_blocks ks) = lv - set (group_blocks (kb # ks))"
    "d \<union> set bs \<union> set (group_blocks ks) = d \<union> set (group_blocks (kb # ks))"
    unfolding b by auto
  have "big_give in_arena purge (map fst (kb # ks)) h = Some h'" using g(1) ch(2) i(1) by (simp add: kb big_release_def h)
  moreover have "\<forall>a \<in> lv - set (group_blocks (kb # ks)). words h' a = words h a"
    using i(3) g(4) unfolding b by (auto simp: words_def h simp del: set_concat)
  ultimately show ?case using i(2) [unfolded e] by blast
qed simp

interpretation bigs: class_store "big_bins in_arena purge span_at" "big_store purge span_at c" for in_arena purge span_at c
proof (unfold_locales, goal_cases)
  case (3 h lv d w)
  then show ?case using span_store_poke by (auto simp: big_store_def)
next
  case (4 h lv d)
  then show ?case unfolding big_store_def using span_store_nonnull by blast
next
  case (5 h lv d ks)
  have c: "c < NUM_BIG" "span_purge_ok purge" "span_store (big_tier c) (big_pages c) c (big_layout c) span_at h lv d"
    using 5(1) by (simp_all add: big_store_def)
  have "runs_ok span_at (words h) lv ks" using 5(2) by (simp add: big_bins_def)
  from big_give_ok [OF c this, of in_arena] show ?case using c(1,2) by (auto simp: big_bins_def big_store_def simp del: set_concat)
next
  case (6 h lv d p i)
  then show ?case by (simp add: big_store_def span_store_def set_owner_def span_class_inv_owner [OF refl])
qed (simp_all add: big_bins_def const_simps)

definition big_fresh :: "(addr \<Rightarrow> addr) \<Rightarrow> nat \<Rightarrow> addr \<Rightarrow> span_heap \<Rightarrow> addr set \<Rightarrow> bool" where
  "big_fresh span_at c raw h lv \<longleftrightarrow> span_fresh (big_pages c) (big_layout c) span_at raw h lv"

interpretation bigs: class_source "big_bins in_arena purge span_at" "big_store purge span_at c" "big_take c raw" "big_fresh span_at c raw"
  for in_arena purge span_at c raw
proof (unfold_locales, goal_cases)
  case (1 h lv d)
  let ?T = "big_tier c" and ?n = "big_pages c" and ?L = "big_layout c"
  obtain m sl e where h: "h = ((m, sl), e)" by (metis surj_pair)
  have c: "c < NUM_BIG" "span_purge_ok purge" using 1(1) by (simp_all add: big_store_def)
  have bg: "big_store purge span_at c h' l d'" if "span_store ?T ?n c ?L span_at h' l d'" for h' l d'
    using that c by (simp add: big_store_def)
  obtain pl el full fl where inv: "span_class_inv ?T ?n c ?L m sl pl el full fl d"
    "lv = span_live ?L fl (set pl \<union> set el \<union> full)"
    "\<forall>b \<in> lv. span_at b \<in> class_spans sl pl el full \<and> b \<in> span_range (span_at b) ?n"
    using 1(1) unfolding big_store_def span_store_def h by auto
  note own = inv(3) [unfolded inv(2)]
  have fr: "span_fresh ?n ?L span_at raw ((m, sl), e) (span_live ?L fl (set pl \<union> set el \<union> full))"
    using 1(2) by (simp add: big_fresh_def h inv(2))
  have fin: "\<exists>h' ch v new d'. big_take c raw h = Some (h', ch, length new, v)
      \<and> took (big_store purge span_at c) h lv d h' ch v new d'"
    if "big_take_blocks c raw m sl = Some (s, effs)"
      "span_served ?T ?n c ?L S' (span_live ?L fl (set pl \<union> set el \<union> full)) (cells_of m) d1 s" "d1 \<subseteq> d"
      "S' = class_spans sl pl el full \<or> S' = insert raw (class_spans sl pl el full)" for s effs d1 S'
  proof -
    note taken = that(1) and srv = that(4,2,3)
    obtain h' ch new v where r: "s = (h', ch, length new, v)"
      "\<And>e'. took (span_store ?T ?n c ?L span_at) ((m, sl), e) (span_live ?L fl (set pl \<union> set el \<union> full)) d (h', e') ch v new d1"
      using served_took [OF inv(1) own fr srv] by blast
    have "took (big_store purge span_at c) h lv d (h', e @ effs) ch v new d1"
      unfolding h inv(2) by (rule took_mono [OF r(2) bg])
    moreover have "big_take c raw h = Some ((h', e @ effs), ch, length new, v)"
      using taken by (simp add: big_take_def h r(1))
    ultimately show ?thesis by blast
  qed
  note pg = big_pages_def [of c, symmetric]
  show ?case
  proof (cases rule: big.take_step [OF c(1) inv(1) span_fresh_raw [OF inv(1) own fr, unfolded raw_ok_def]])
    case (1 s)
    then have "big_take_blocks c raw m sl = Some (s, [])" by (simp add: big_take_blocks_def pg Let_def)
    then show ?thesis using fin 1(4) by blast
  next
    case (2 s)
    then obtain effs where "big_take_blocks c raw m sl = Some (s, effs)" by (simp add: big_take_blocks_def pg Let_def)
    then show ?thesis using fin [OF _ 2(7)] by blast
  next
    case 3
    then show ?thesis by (simp add: big_take_def big_take_blocks_def h pg Let_def)
  qed
qed

end
