(* ===== verification/Region_Pool.thy ===== *)
theory Region_Pool
  imports Prelude
begin

text \<open>
  The interface the large-allocation path expects of every place that keeps freed regions: the per-thread
  stash and the shards of the recycle cache.  A region is a base with a number of pages; a pool holds a
  multiset of them, gives one out that is large enough, and accepts or declines one.
\<close>

type_synonym region = "addr \<times> nat"

locale region_pool =
  fixes ok :: "'s \<Rightarrow> bool"
    and regions :: "'s \<Rightarrow> region multiset"
    and take :: "'s \<Rightarrow> nat \<Rightarrow> region option \<times> 's"
    and put :: "'s \<Rightarrow> region \<Rightarrow> bool \<times> 's"
  assumes take_law: "ok s \<Longrightarrow> n < 2 ^ 32 \<Longrightarrow> take s n = (r, s') \<Longrightarrow>
      ok s' \<and> regions s = regions s' + (case r of None \<Rightarrow> {#} | Some x \<Rightarrow> {#x#})
      \<and> (case r of None \<Rightarrow> \<forall>x \<in># regions s. snd x < n
         | Some x \<Rightarrow> n \<le> snd x \<and> (snd x = n \<or> (\<forall>y \<in># regions s. snd y \<noteq> n)))"
    and put_law: "ok s \<Longrightarrow> put s x = (kept, s') \<Longrightarrow>
      ok s' \<and> regions s' = regions s + (if kept then {#x#} else {#})"
begin

lemma take_ok: "ok s \<Longrightarrow> n < 2 ^ 32 \<Longrightarrow> take s n = (r, s') \<Longrightarrow> ok s'"
  using take_law by blast

lemma put_ok: "ok s \<Longrightarrow> put s x = (kept, s') \<Longrightarrow> ok s'"
  using put_law by blast

text \<open>Accounting over a history: what went in and was accepted is what came out plus what is held.\<close>

inductive uses :: "'s \<Rightarrow> region multiset \<Rightarrow> region multiset \<Rightarrow> 's \<Rightarrow> bool" where
  uses_start: "uses s {#} {#} s"
| uses_take: "uses s i out t \<Longrightarrow> n < 2 ^ 32 \<Longrightarrow> take t n = (Some x, t') \<Longrightarrow> uses s i (add_mset x out) t'"
| uses_miss: "uses s i out t \<Longrightarrow> n < 2 ^ 32 \<Longrightarrow> take t n = (None, t') \<Longrightarrow> uses s i out t'"
| uses_put: "uses s i out t \<Longrightarrow> put t x = (True, t') \<Longrightarrow> uses s (add_mset x i) out t'"
| uses_refuse: "uses s i out t \<Longrightarrow> put t x = (False, t') \<Longrightarrow> uses s i out t'"

lemma uses_account: "uses s i out t \<Longrightarrow> ok s \<Longrightarrow> ok t \<and> regions t + out = regions s + i"
proof (induction rule: uses.induct)
  case (uses_take s i out t n x t')
  then show ?case using take_law [of t n "Some x" t'] by simp
next
  case (uses_miss s i out t n t')
  then show ?case using take_law [of t n None t'] by simp
next
  case (uses_put s i out t x t')
  then show ?case using put_law [of t x True t'] by (simp add: union_commute)
next
  case (uses_refuse s i out t x t')
  then show ?case using put_law [of t x False t'] by simp
qed simp

text \<open>An accepted region can be had again at once.\<close>

lemma put_take:
  assumes "ok s" "put s x = (True, s')" "snd x < 2 ^ 32" "take s' (snd x) = (r, s'')"
  shows "\<exists>y. r = Some y \<and> snd y = snd x"
proof -
  have p: "ok s'" "x \<in># regions s'" using put_law [OF assms(1,2)] by auto
  show ?thesis using take_law [OF p(1) assms(3,4)] p(2) by (cases r) auto
qed

end

end
