(* ===== verification/Large_Stash.thy ===== *)
theory Large_Stash
  imports Region_Pool Page_Layout
begin

text \<open>
  The per-thread stash of freed large regions (\<open>src/src/cache.rs\<close>, \<open>take_large_stash\<close> and
  \<open>push_large_stash\<close>): eight slots, no lock, bounded by bytes.
\<close>

section \<open>Operations\<close>

definition LARGE_STASH_SLOTS :: nat where [const_simps]: "LARGE_STASH_SLOTS = 8"
definition LARGE_STASH_CAP_BYTES :: nat where [const_simps]: "LARGE_STASH_CAP_BYTES = 32 * 1024 * 1024"
definition LARGE_STASH_HUGE_CAP_BYTES :: nat where [const_simps]: "LARGE_STASH_HUGE_CAP_BYTES = 64 * 1024 * 1024"
definition LARGE_STASH_HUGE_THRESHOLD :: nat where [const_simps]: "LARGE_STASH_HUGE_THRESHOLD = 4 * 1024 * 1024"

record stash =
  large_len :: nat
  large_bytes :: nat
  large :: "region list"

definition stash_new :: stash where
  "stash_new = \<lparr> large_len = 0, large_bytes = 0, large = replicate LARGE_STASH_SLOTS (null, 0) \<rparr>"

fun stash_scan :: "region list \<Rightarrow> nat \<Rightarrow> nat list \<Rightarrow> nat option \<Rightarrow> nat option" where
  "stash_scan es needed [] best = best"
| "stash_scan es needed (i # js) best =
     stash_scan es needed js
       (if needed \<le> snd (es ! i) \<and> (case best of None \<Rightarrow> True | Some b \<Rightarrow> snd (es ! i) < snd (es ! b))
        then Some i else best)"

text \<open>The removal both branches of the source write out.\<close>

definition stash_remove :: "stash \<Rightarrow> nat \<Rightarrow> region \<times> stash" where
  "stash_remove s i =
     (let lst = large_len s - 1; entry = large s ! i
      in (entry, s\<lparr>large := (large s)[i := large s ! lst, lst := (null, 0)], large_len := lst,
                   large_bytes := large_bytes s - snd entry * PAGE_SIZE\<rparr>))"

definition take_large_stash :: "stash \<Rightarrow> nat \<Rightarrow> region option \<times> stash" where
  "take_large_stash s pages_needed =
     (case List.find (\<lambda>i. snd (large s ! i) = pages_needed) [0..<large_len s] of
        Some i \<Rightarrow> (let (e, s') = stash_remove s i in (Some e, s'))
      | None \<Rightarrow>
          (case stash_scan (large s) pages_needed [0..<large_len s] None of
             Some i \<Rightarrow> (let (e, s') = stash_remove s i in (Some e, s'))
           | None \<Rightarrow> (None, s)))"

definition push_large_stash :: "stash \<Rightarrow> region \<Rightarrow> bool \<times> stash" where
  "push_large_stash s r =
     (let bytes = snd r * PAGE_SIZE;
          cap = (if LARGE_STASH_HUGE_THRESHOLD \<le> bytes then LARGE_STASH_HUGE_CAP_BYTES else LARGE_STASH_CAP_BYTES)
      in if LARGE_STASH_SLOTS \<le> large_len s \<or> cap < large_bytes s + bytes then (False, s)
         else (True, s\<lparr>large := (large s)[large_len s := r], large_len := large_len s + 1,
                       large_bytes := large_bytes s + bytes\<rparr>))"

section \<open>Well-formedness, and the pool contract\<close>

definition stash_list :: "stash \<Rightarrow> region list" where
  "stash_list s = take (large_len s) (large s)"

definition stash_ok :: "stash \<Rightarrow> bool" where
  "stash_ok s \<longleftrightarrow> length (large s) = LARGE_STASH_SLOTS \<and> large_len s \<le> LARGE_STASH_SLOTS
     \<and> large_bytes s = (\<Sum>r\<leftarrow>stash_list s. snd r * PAGE_SIZE) \<and> large_bytes s \<le> LARGE_STASH_HUGE_CAP_BYTES"

lemma stash_ok_new: "stash_ok stash_new"
  by (simp add: stash_ok_def stash_new_def stash_list_def)

lemma stash_remove_ok:
  assumes "stash_ok s" "i < large_len s" "stash_remove s i = (e, s')"
  shows "stash_ok s'" "mset (stash_list s) = add_mset e (mset (stash_list s'))" "e = stash_list s ! i"
proof -
  have l: "large_len s \<le> length (large s)" "i < length (stash_list s)" using assms(1,2) by (auto simp: stash_ok_def stash_list_def)
  have e: "e = stash_list s ! i" using assms(2,3) by (auto simp: stash_remove_def stash_list_def Let_def)
  have ls: "stash_list s' = swap_remove (stash_list s) i"
    using assms(3) take_swap_remove [OF assms(2) l(1)] by (auto simp: stash_remove_def stash_list_def Let_def)
  have b: "large_bytes s' = large_bytes s - snd e * PAGE_SIZE" "length (large s') = length (large s)" "large_len s' = large_len s - 1"
    using assms(3) by (auto simp: stash_remove_def Let_def)
  have "large_bytes s = (\<Sum>r\<leftarrow>stash_list s. snd r * PAGE_SIZE)" using assms(1) by (simp add: stash_ok_def)
  then show "stash_ok s'"
    using sum_list_swap_remove [OF l(2), of "\<lambda>r. snd r * PAGE_SIZE"] assms(1) b e
    unfolding stash_ok_def ls by (simp; linarith)
  show "mset (stash_list s) = add_mset e (mset (stash_list s'))" using mset_swap_remove_Cons [OF l(2)] by (simp add: e ls)
  show "e = stash_list s ! i" by fact
qed

lemma stash_scan_correct:
  assumes "\<And>b. best = Some b \<Longrightarrow> needed \<le> snd (es ! b)"
  shows "case stash_scan es needed js best of
      None \<Rightarrow> best = None \<and> (\<forall>j \<in> set js. snd (es ! j) < needed)
    | Some i \<Rightarrow> (i \<in> set js \<or> best = Some i) \<and> needed \<le> snd (es ! i)"
  using assms
proof (induction es needed js best rule: stash_scan.induct)
  case (1 es needed best)
  then show ?case by (cases best) auto
next
  case (2 es needed i js best)
  let ?upd = "if needed \<le> snd (es ! i) \<and> (case best of None \<Rightarrow> True | Some b \<Rightarrow> snd (es ! i) < snd (es ! b))
    then Some i else best"
  have pre: "needed \<le> snd (es ! b)" if "?upd = Some b" for b
    using that 2(2) by (auto split: if_splits)
  show ?case
    using 2(1) [OF pre]
    by (cases "stash_scan es needed js ?upd"; cases best) (auto split: if_splits)
qed

lemma take_stash_law:
  assumes "stash_ok s" "take_large_stash s n = (r, s')"
  shows "stash_ok s' \<and> mset (stash_list s) = mset (stash_list s') + (case r of None \<Rightarrow> {#} | Some x \<Rightarrow> {#x#})
      \<and> (case r of None \<Rightarrow> \<forall>x \<in># mset (stash_list s). snd x < n
         | Some x \<Rightarrow> n \<le> snd x \<and> (snd x = n \<or> (\<forall>y \<in># mset (stash_list s). snd y \<noteq> n)))"
proof -
  have nth: "i < large_len s \<Longrightarrow> stash_list s ! i = large s ! i" for i by (simp add: stash_list_def)
  have all: "(\<forall>y \<in> set (stash_list s). P y) \<longleftrightarrow> (\<forall>i < large_len s. P (large s ! i))" for P
    using assms(1) nth by (simp add: all_set_conv_all_nth stash_ok_def) (simp add: stash_list_def stash_ok_def)
  show ?thesis
  proof (cases "List.find (\<lambda>i. snd (large s ! i) = n) [0..<large_len s]")
    case (Some i)
    then have i: "i < large_len s" "snd (large s ! i) = n" by (auto simp: find_Some_iff)
    obtain e where "stash_remove s i = (e, s')" "r = Some e" using assms(2) Some
      by (cases "stash_remove s i") (auto simp: take_large_stash_def)
    then show ?thesis using stash_remove_ok [OF assms(1) i(1)] i nth by auto
  next
    case f: None
    then have no: "\<forall>i < large_len s. snd (large s ! i) \<noteq> n" by (auto simp: find_None_iff)
    note sc = stash_scan_correct [of None n "large s" "[0..<large_len s]", simplified]
    show ?thesis
    proof (cases "stash_scan (large s) n [0..<large_len s] None")
      case None
      then have "\<forall>x \<in> set (stash_list s). snd x < n" using sc unfolding all by simp
      then show ?thesis using assms f None by (simp add: take_large_stash_def)
    next
      case (Some i)
      then have i: "i < large_len s" "n \<le> snd (large s ! i)" using sc by auto
      obtain e where "stash_remove s i = (e, s')" "r = Some e" using assms(2) Some f
        by (cases "stash_remove s i") (auto simp: take_large_stash_def)
      have miss: "\<forall>y \<in> set (stash_list s). snd y \<noteq> n" using no unfolding all by simp
      have "e = large s ! i" using stash_remove_ok(3) [OF assms(1) i(1) \<open>stash_remove s i = (e, s')\<close>] nth [OF i(1)] by simp
      note rm = stash_remove_ok(1,2) [OF assms(1) i(1) \<open>stash_remove s i = (e, s')\<close>]
      have "set (stash_list s') \<subseteq> set (stash_list s)"
        using arg_cong [OF rm(2), of set_mset] by auto
      then show ?thesis
        using rm i(2) miss \<open>r = Some e\<close> \<open>e = large s ! i\<close> by (auto simp del: split_paired_All split_paired_Ex)
    qed
  qed
qed

lemma push_stash_law:
  assumes "stash_ok s" "push_large_stash s x = (kept, s')"
  shows "stash_ok s' \<and> mset (stash_list s') = mset (stash_list s) + (if kept then {#x#} else {#})"
proof (cases kept)
  case False
  then show ?thesis using assms by (auto simp: push_large_stash_def Let_def split: if_splits)
next
  case True
  then have s': "s' = s\<lparr>large := (large s)[large_len s := x], large_len := large_len s + 1,
      large_bytes := large_bytes s + snd x * PAGE_SIZE\<rparr>" "large_len s < LARGE_STASH_SLOTS"
    "large_bytes s + snd x * PAGE_SIZE \<le> LARGE_STASH_HUGE_CAP_BYTES"
    using assms(2) by (auto simp: push_large_stash_def Let_def const_simps split: if_splits)
  have "stash_list s' = stash_list s @ [x]"
    using assms(1) s'(1,2) by (simp add: stash_list_def stash_ok_def take_Suc_conv_app_nth)
  then show ?thesis using assms(1) s' True by (simp add: stash_ok_def)
qed

interpretation stash: region_pool stash_ok "\<lambda>s. mset (stash_list s)" take_large_stash push_large_stash
  by unfold_locales (erule take_stash_law, assumption, erule push_stash_law, assumption)

end
