(* ===== verification/Thread_Cache.thy ===== *)
theory Thread_Cache
  imports Cache_Tiers Large_Stash
begin

text \<open>
  The per-thread cache (\<open>src/src/cache.rs\<close>): one bin per small class, a bin and an active span per medium and
  big class, and the byte counts that decide when to trim.

  The state of an operation is the cache of the calling thread together with what it shares
  (\<open>globals\<close>): the heaps of all classes, the thread-id counter, the cache budget with its epoch and the
  slots of retired caches.  Each class has its own heap, its memory being the cells of its blocks.  What the
  outside answers during one call is a \<open>cache_env\<close>.  A result \<open>None\<close> is a loop that does not end or an index out
  of range.  Counters of telemetry are left out, and the \<open>debug_validate\<close> checks.
\<close>

section \<open>State\<close>

record active =
  av_span :: addr
  av_base :: addr
  av_end :: addr
  av_bin :: bin

definition active_new :: active where
  "active_new = \<lparr>av_span = null, av_base = 0, av_end = 0, av_bin = bin_new\<rparr>"

text \<open>\<open>mvirgin\<close> and \<open>bvirgin\<close> are the \<open>b_virgin\<close> of \<open>mbins\<close> and \<open>bigbins\<close>.\<close>

record thread_cache =
  tc_bins :: "bin list"
  cached_bytes :: nat
  tier_cached_bytes :: nat
  budget :: nat
  budget_epoch :: nat
  tc_tid :: nat
  foreign_bytes :: nat
  mbins :: "bin list"
  mactive :: "active list"
  bigbins :: "bin list"
  bactive :: "active list"
  exit_armed :: bool
  retired_reclaimed :: bool
  tc_stash :: stash

definition DEFAULT_THREAD_CACHE_BUDGET :: nat where [const_simps]: "DEFAULT_THREAD_CACHE_BUDGET = 32 * 1024 * 1024"
definition DRIFT_GATE_DIV :: nat where [const_simps]: "DRIFT_GATE_DIV = 2"
definition FOREIGN_SHED_DIV :: nat where [const_simps]: "FOREIGN_SHED_DIV = 8"
definition RETIRED_SLOT_COUNT :: nat where [const_simps]: "RETIRED_SLOT_COUNT = 8"
definition RETIRED_SLOT_BYTES :: nat where [const_simps]: "RETIRED_SLOT_BYTES = 8 * 1024 * 1024"

definition thread_cache_new :: thread_cache where
  "thread_cache_new = \<lparr> tc_bins = replicate NUM_CLASSES bin_new, cached_bytes = 0, tier_cached_bytes = 0,
     budget = DEFAULT_THREAD_CACHE_BUDGET, budget_epoch = 0, tc_tid = 0, foreign_bytes = 0,
     mbins = replicate NUM_MEDIUM bin_new, mactive = replicate NUM_MEDIUM active_new,
     bigbins = replicate NUM_BIG bin_new, bactive = replicate NUM_BIG active_new,
     exit_armed = False, retired_reclaimed = False, tc_stash = stash_new \<rparr>"

record globals =
  gl_small :: "small_heap list"
  gl_medium :: "span_heap list"
  gl_big :: "span_heap list"
  gl_next_tid :: nat
  gl_budget :: nat
  gl_epoch :: nat
  gl_retired :: "thread_cache option list"
  gl_ready :: nat
  gl_regions :: "region list"

text \<open>
  \<open>ce_page\<close>, \<open>ce_medium\<close> and \<open>ce_big\<close> are the addresses the system grants to a refill (null for a refusal),
  \<open>ce_span_at\<close> and \<open>ce_big_at\<close> the lookups of medium and big spans, \<open>ce_hook\<close> whether the exit hook was installed.
\<close>

record cache_env =
  ce_in_arena :: "addr \<Rightarrow> nat \<Rightarrow> bool"
  ce_purge :: purge
  ce_span_purge :: span_purge
  ce_span_at :: "addr \<Rightarrow> addr"
  ce_big_at :: "addr \<Rightarrow> addr"
  ce_page :: addr
  ce_medium :: addr
  ce_big :: addr
  ce_hook :: bool

type_synonym cache_state = "thread_cache \<times> globals"

section \<open>Budget, thread id and pressure\<close>

definition set_budget :: "nat \<Rightarrow> globals \<Rightarrow> globals" where
  "set_budget bytes g = g\<lparr>gl_budget := max bytes (REFILL_BATCH * 16), gl_epoch := add_w 32 (gl_epoch g) 1\<rparr>"

definition refresh_budget :: "globals \<Rightarrow> thread_cache \<Rightarrow> thread_cache" where
  "refresh_budget g tc =
     (if budget_epoch tc \<noteq> gl_epoch g then tc\<lparr>budget := gl_budget g, budget_epoch := gl_epoch g\<rparr> else tc)"

definition install_exit_hook :: "cache_env \<Rightarrow> globals \<Rightarrow> thread_cache \<Rightarrow> thread_cache" where
  "install_exit_hook e g tc =
     (let tc1 = refresh_budget g tc in if ce_hook e then tc1\<lparr>exit_armed := True\<rparr> else tc1)"

definition arm_exit_hook :: "cache_env \<Rightarrow> globals \<Rightarrow> thread_cache \<Rightarrow> thread_cache" where
  "arm_exit_hook e g tc = (if \<not> exit_armed tc then install_exit_hook e g tc else tc)"

definition next_tid :: "globals \<Rightarrow> nat \<times> globals" where
  "next_tid g = (gl_next_tid g, g\<lparr>gl_next_tid := add_w 32 (gl_next_tid g) 1\<rparr>)"

definition tid :: "cache_state \<Rightarrow> nat \<times> cache_state" where
  "tid s =
     (let (tc, g) = s in
      if tc_tid tc = 0 then
        let (i, g1) = next_tid g;
            (i2, g2) = (if i = 0 then next_tid g1 else (i, g1))
        in (i2, (tc\<lparr>tc_tid := i2\<rparr>, g2))
      else (tc_tid tc, s))"

definition sat_double :: "nat \<Rightarrow> nat" where
  "sat_double b = min (2 * b) (2 ^ 64 - 1)"

definition small_cached_bytes :: "thread_cache \<Rightarrow> nat" where
  "small_cached_bytes tc = cached_bytes tc - tier_cached_bytes tc"

definition drift_gate_open :: "thread_cache \<Rightarrow> bool" where
  "drift_gate_open tc \<longleftrightarrow>
     (if tier_cached_bytes tc = 0 then budget tc div DRIFT_GATE_DIV < cached_bytes tc
      else budget tc div DRIFT_GATE_DIV < small_cached_bytes tc
        \<or> sat_double (budget tc) div DRIFT_GATE_DIV < tier_cached_bytes tc)"

definition drift_gate_open_small :: "thread_cache \<Rightarrow> nat \<Rightarrow> bool" where
  "drift_gate_open_small tc b \<longleftrightarrow> b div DRIFT_GATE_DIV < cached_bytes tc"

definition should_shed_small :: "thread_cache \<Rightarrow> nat \<Rightarrow> bool" where
  "should_shed_small tc b \<longleftrightarrow> b < cached_bytes tc \<or> b div FOREIGN_SHED_DIV \<le> foreign_bytes tc"

definition should_shed :: "thread_cache \<Rightarrow> bool" where
  "should_shed tc \<longleftrightarrow>
     (if tier_cached_bytes tc = 0
      then budget tc < cached_bytes tc \<or> budget tc div FOREIGN_SHED_DIV \<le> foreign_bytes tc
      else budget tc < small_cached_bytes tc \<or> sat_double (budget tc) < tier_cached_bytes tc
        \<or> budget tc div FOREIGN_SHED_DIV \<le> foreign_bytes tc)"

definition small_free_is_warm :: "thread_cache \<Rightarrow> bool" where
  "small_free_is_warm tc \<longleftrightarrow> exit_armed tc \<and> cached_bytes tc \<le> budget tc div DRIFT_GATE_DIV"

section \<open>Flushing\<close>

definition set_small :: "nat \<Rightarrow> small_heap \<times> bin \<Rightarrow> cache_state \<Rightarrow> cache_state" where
  "set_small c hb s = ((fst s)\<lparr>tc_bins := (tc_bins (fst s))[c := snd hb]\<rparr>, (snd s)\<lparr>gl_small := (gl_small (snd s))[c := fst hb]\<rparr>)"

definition set_mbin :: "nat \<Rightarrow> span_heap \<times> bin \<Rightarrow> cache_state \<Rightarrow> cache_state" where
  "set_mbin c hb s = ((fst s)\<lparr>mbins := (mbins (fst s))[c := snd hb]\<rparr>, (snd s)\<lparr>gl_medium := (gl_medium (snd s))[c := fst hb]\<rparr>)"

definition set_mactive :: "nat \<Rightarrow> span_heap \<times> active \<Rightarrow> cache_state \<Rightarrow> cache_state" where
  "set_mactive c ha s = ((fst s)\<lparr>mactive := (mactive (fst s))[c := snd ha]\<rparr>, (snd s)\<lparr>gl_medium := (gl_medium (snd s))[c := fst ha]\<rparr>)"

definition set_bbin :: "nat \<Rightarrow> span_heap \<times> bin \<Rightarrow> cache_state \<Rightarrow> cache_state" where
  "set_bbin c hb s = ((fst s)\<lparr>bigbins := (bigbins (fst s))[c := snd hb]\<rparr>, (snd s)\<lparr>gl_big := (gl_big (snd s))[c := fst hb]\<rparr>)"

definition set_bactive :: "nat \<Rightarrow> span_heap \<times> active \<Rightarrow> cache_state \<Rightarrow> cache_state" where
  "set_bactive c ha s = ((fst s)\<lparr>bactive := (bactive (fst s))[c := snd ha]\<rparr>, (snd s)\<lparr>gl_big := (gl_big (snd s))[c := fst ha]\<rparr>)"

text \<open>
  Byte counts: small blocks count once, medium and big ones also in the tier count.  Flushes saturate; a pop
  subtracts from \<open>cached_bytes\<close> with \<open>-=\<close>, which wraps below zero, and saturates in the tier count.  Additions are
  not bounded: the counts are bytes of distinct blocks, which fit the address space.
\<close>

definition less_bytes :: "nat \<Rightarrow> cache_state \<Rightarrow> cache_state" where
  "less_bytes n s = ((fst s)\<lparr>cached_bytes := cached_bytes (fst s) - n\<rparr>, snd s)"

definition less_tier_bytes :: "nat \<Rightarrow> cache_state \<Rightarrow> cache_state" where
  "less_tier_bytes n s =
     ((fst s)\<lparr>cached_bytes := cached_bytes (fst s) - n, tier_cached_bytes := tier_cached_bytes (fst s) - n\<rparr>, snd s)"

definition wrap_sub :: "nat \<Rightarrow> nat \<Rightarrow> nat" where
  "wrap_sub a n = (if n \<le> a then a - n else a + 2 ^ 64 - n)"

definition popped_bytes :: "nat \<Rightarrow> cache_state \<Rightarrow> cache_state" where
  "popped_bytes n s = ((fst s)\<lparr>cached_bytes := wrap_sub (cached_bytes (fst s)) n\<rparr>, snd s)"

definition popped_tier_bytes :: "nat \<Rightarrow> cache_state \<Rightarrow> cache_state" where
  "popped_tier_bytes n s =
     ((fst s)\<lparr>cached_bytes := wrap_sub (cached_bytes (fst s)) n, tier_cached_bytes := tier_cached_bytes (fst s) - n\<rparr>, snd s)"

definition more_bytes :: "nat \<Rightarrow> cache_state \<Rightarrow> cache_state" where
  "more_bytes n s = ((fst s)\<lparr>cached_bytes := cached_bytes (fst s) + n\<rparr>, snd s)"

definition more_tier_bytes :: "nat \<Rightarrow> cache_state \<Rightarrow> cache_state" where
  "more_tier_bytes n s =
     ((fst s)\<lparr>cached_bytes := cached_bytes (fst s) + n, tier_cached_bytes := tier_cached_bytes (fst s) + n\<rparr>, snd s)"

definition flush_bin :: "cache_env \<Rightarrow> nat \<Rightarrow> nat \<Rightarrow> cache_state \<Rightarrow> cache_state option" where
  "flush_bin e c floor_blocks s =
     (let b = tc_bins (fst s) ! c in
      if b_len b \<le> floor_blocks then Some s
      else case flush_to (small_bins (ce_purge e) (ce_in_arena e)) floor_blocks (gl_small (snd s) ! c) b of
             None \<Rightarrow> None
           | Some (h, b', n) \<Rightarrow> Some (less_bytes (n * CLASSES ! c) (set_small c (h, b') s)))"

definition flush_mbin :: "cache_env \<Rightarrow> nat \<Rightarrow> nat \<Rightarrow> cache_state \<Rightarrow> cache_state option" where
  "flush_mbin e c floor_blocks s =
     (let b = mbins (fst s) ! c in
      if b_len b \<le> floor_blocks then Some s
      else case flush_to (medium_bins (ce_in_arena e) (ce_span_purge e) (ce_span_at e) c) floor_blocks (gl_medium (snd s) ! c) b of
             None \<Rightarrow> None
           | Some (h, b', n) \<Rightarrow> Some (less_tier_bytes (n * MEDIUM_CLASSES ! c) (set_mbin c (h, b') s)))"

definition flush_bbin :: "cache_env \<Rightarrow> nat \<Rightarrow> nat \<Rightarrow> cache_state \<Rightarrow> cache_state option" where
  "flush_bbin e c floor_blocks s =
     (let b = bigbins (fst s) ! c in
      if b_len b \<le> floor_blocks then Some s
      else case flush_to (big_bins (ce_in_arena e) (ce_span_purge e) (ce_big_at e)) floor_blocks (gl_big (snd s) ! c) b of
             None \<Rightarrow> None
           | Some (h, b', n) \<Rightarrow> Some (less_tier_bytes (n * BIG_CLASSES ! c) (set_bbin c (h, b') s)))"

text \<open>An active span's blocks go back as one chain; the walk to the tail ends at the null link.\<close>

definition flush_active_medium :: "cache_env \<Rightarrow> nat \<Rightarrow> cache_state \<Rightarrow> cache_state option" where
  "flush_active_medium e c s =
     (let a = mactive (fst s) ! c; b = av_bin a; h = gl_medium (snd s) ! c in
      if b_head b = null \<or> b_len b = 0 then Some s
      else case find_tail (words h) (b_head b) of
             None \<Rightarrow> None
           | Some tail \<Rightarrow>
               let h' = medium_release (ce_in_arena e) c (ce_span_purge e) (av_span a) (b_head b) tail (b_len b) h
               in Some (less_tier_bytes (MEDIUM_CLASSES ! c * b_len b) (set_mactive c (h', active_new) s)))"

definition flush_active_big :: "cache_env \<Rightarrow> nat \<Rightarrow> cache_state \<Rightarrow> cache_state option" where
  "flush_active_big e c s =
     (let a = bactive (fst s) ! c; b = av_bin a; h = gl_big (snd s) ! c in
      if av_span a = null \<or> b_head b = null \<or> b_len b = 0 then Some (set_bactive c (h, active_new) s)
      else case find_tail (words h) (b_head b) of
             None \<Rightarrow> None
           | Some _ \<Rightarrow>
               (case big_release (ce_in_arena e) (ce_span_purge e) (av_span a) (b_head b) (b_len b) h of
                  None \<Rightarrow> None
                | Some h' \<Rightarrow> Some (less_tier_bytes (BIG_CLASSES ! c * b_len b) (set_bactive c (h', active_new) s))))"

section \<open>Trimming\<close>

text \<open>The scan for the largest bin with more than \<open>thr\<close> blocks: its index, and its bytes.\<close>

fun pick_largest :: "nat \<Rightarrow> nat list \<Rightarrow> nat list \<Rightarrow> nat list \<Rightarrow> nat option \<times> nat \<Rightarrow> nat option \<times> nat" where
  "pick_largest thr sizes lens [] best = best"
| "pick_largest thr sizes lens (i # js) best =
     pick_largest thr sizes lens js
       (if thr < lens ! i \<and> snd best < lens ! i * sizes ! i then (Some i, lens ! i * sizes ! i) else best)"

definition largest :: "nat \<Rightarrow> nat list \<Rightarrow> nat list \<Rightarrow> nat option \<times> nat" where
  "largest thr sizes lens = pick_largest thr sizes lens [0..<length sizes] (None, 0)"

abbreviation lens_of :: "bin list \<Rightarrow> nat list" where "lens_of bs \<equiv> map b_len bs"
abbreviation active_lens :: "active list \<Rightarrow> nat list" where "active_lens as \<equiv> map (\<lambda>a. b_len (av_bin a)) as"

text \<open>One turn of the loop in \<open>trim\<close>: \<open>Some None\<close> is its \<open>break\<close>.\<close>

definition trim_step :: "cache_env \<Rightarrow> cache_state \<Rightarrow> cache_state option option" where
  "trim_step e s =
     (let tc = fst s in
      case fst (largest REFILL_BATCH CLASSES (lens_of (tc_bins tc))) of
        Some c \<Rightarrow> map_option Some (flush_bin e c (b_len (tc_bins tc ! c) div 2) s)
      | None \<Rightarrow>
      (case fst (largest 0 MEDIUM_CLASSES (active_lens (mactive tc))) of
        Some c \<Rightarrow> map_option Some (flush_active_medium e c s)
      | None \<Rightarrow>
      (let (mbest, mbytes) = largest 0 MEDIUM_CLASSES (lens_of (mbins tc)) in
       case fst (largest 0 BIG_CLASSES (active_lens (bactive tc))) of
        Some c \<Rightarrow> map_option Some (flush_active_big e c s)
      | None \<Rightarrow>
      (let (bbest, bbytes) = largest 0 BIG_CLASSES (lens_of (bigbins tc)) in
       if bbest \<noteq> None \<and> mbytes < bbytes
       then map_option Some (flush_bbin e (the bbest) (b_len (bigbins tc ! the bbest) div 2) s)
       else case mbest of
              None \<Rightarrow> Some None
            | Some c \<Rightarrow> map_option Some (flush_mbin e c (b_len (mbins tc ! c) div 2) s)))))"

partial_function (option) trim_loop :: "cache_env \<Rightarrow> nat \<Rightarrow> cache_state \<Rightarrow> cache_state option" where
  [code]: "trim_loop e target s =
     (if target < cached_bytes (fst s) then
        case trim_step e s of
          None \<Rightarrow> None
        | Some None \<Rightarrow> Some s
        | Some (Some s') \<Rightarrow> trim_loop e target s'
      else Some s)"

definition trim_target :: "thread_cache \<Rightarrow> nat" where
  "trim_target tc = budget tc div 2 + min (tier_cached_bytes tc) (sat_double (budget tc))"

definition trim :: "cache_env \<Rightarrow> cache_state \<Rightarrow> cache_state option" where
  "trim e s =
     (let tc = refresh_budget (snd s) (arm_exit_hook e (snd s) (fst s))
      in trim_loop e (trim_target tc) (tc, snd s))"

definition shed :: "cache_env \<Rightarrow> cache_state \<Rightarrow> cache_state option" where
  "shed e s = (case trim e s of None \<Rightarrow> None | Some s' \<Rightarrow> Some ((fst s')\<lparr>foreign_bytes := 0\<rparr>, snd s'))"

end
