(* ===== verification/Cache_Ops.thy ===== *)
theory Cache_Ops
  imports Thread_Cache
begin

text \<open>
  The operations of the per-thread cache (\<open>src/src/cache.rs\<close>): flushing everything, handing a dying thread's
  cache over and adopting it, and allocation and freeing in the small, medium and big tiers.

  The slots of retired caches are taken here one whole step at a time: a slot is empty or holds a cache.  Their
  four-state protocol under concurrency is \<open>Retired_Slots\<close>.
\<close>

section \<open>Flushing everything\<close>

text \<open>The first pass of \<open>flush_bin_exit\<close>: one group per page in order of first appearance, counting only.\<close>

fun count_groups :: "cells \<Rightarrow> page_release_chunk list \<Rightarrow> addr \<Rightarrow> nat \<Rightarrow> page_release_chunk list" where
  "count_groups w gs cursor 0 = gs"
| "count_groups w gs cursor (Suc k) =
     (let page = page_of cursor in
      count_groups w
        (case find_group gs page of
           Some i \<Rightarrow> gs[i := (gs ! i)\<lparr>rc_n := rc_n (gs ! i) + 1\<rparr>]
         | None \<Rightarrow> if MAX_FLUSH_GROUPS \<le> length gs then gs
                   else gs @ [\<lparr>rc_page = page, rc_head = null, rc_tail = null, rc_n = 1\<rparr>])
        (w cursor) k)"

definition flush_bin_exit :: "cache_env \<Rightarrow> nat \<Rightarrow> cache_state \<Rightarrow> cache_state option" where
  "flush_bin_exit e c s =
     (let b = tc_bins (fst s) ! c; h = gl_small (snd s) ! c; n = b_len b in
      if n = 0 then Some s
      else if FLUSH_CHUNK < n then flush_bin e c 0 s
      else case release_bin_chunks (ce_purge e) (ce_in_arena e) (fst h) (b_head b) n (count_groups (words h) [] (b_head b) n) of
             None \<Rightarrow> None
           | Some (s', effs) \<Rightarrow> Some (less_bytes (CLASSES ! c * n) (set_small c ((s', snd h @ effs), bin_new) s)))"

fun each :: "(nat \<Rightarrow> 's \<Rightarrow> 's option) \<Rightarrow> nat list \<Rightarrow> 's \<Rightarrow> 's option" where
  "each f [] s = Some s"
| "each f (i # js) s = (case f i s of None \<Rightarrow> None | Some s' \<Rightarrow> each f js s')"

definition zero_virgin :: "bin \<Rightarrow> bin" where "zero_virgin b = b\<lparr>b_virgin := 0\<rparr>"

text \<open>The stashed regions are handed to \<open>unmap_or_return\<close> (modelled in \<open>Large_Region\<close>).\<close>

definition stash_drain :: "cache_state \<Rightarrow> cache_state" where
  "stash_drain s =
     (let st = tc_stash (fst s); rs = filter (\<lambda>r. fst r \<noteq> null) (take (large_len st) (large st))
      in ((fst s)\<lparr>tc_stash := st\<lparr>large := map (\<lambda>r. if fst r \<noteq> null then (null, 0) else r) (take (large_len st) (large st))
                                           @ drop (large_len st) (large st), large_len := 0, large_bytes := 0\<rparr>\<rparr>,
          (snd s)\<lparr>gl_regions := gl_regions (snd s) @ rs\<rparr>))"

definition flush_reset :: "cache_state \<Rightarrow> cache_state" where
  "flush_reset s =
     (let tc = fst s in
      (tc\<lparr>cached_bytes := 0, tier_cached_bytes := 0, foreign_bytes := 0, retired_reclaimed := False,
          tc_bins := map zero_virgin (tc_bins tc), mbins := map zero_virgin (mbins tc),
          mactive := replicate NUM_MEDIUM active_new, bigbins := map zero_virgin (bigbins tc),
          bactive := replicate NUM_BIG active_new\<rparr>, snd s))"

definition flush_all :: "cache_env \<Rightarrow> cache_state \<Rightarrow> cache_state option" where
  "flush_all e s =
     do { s1 \<leftarrow> each (\<lambda>c s. if b_head (tc_bins (fst s) ! c) \<noteq> null then flush_bin_exit e c s else Some s) [0..<NUM_CLASSES] s;
          s2 \<leftarrow> each (\<lambda>c s. if b_head (av_bin (mactive (fst s) ! c)) = null then Some s else flush_active_medium e c s)
                   [0..<NUM_MEDIUM] s1;
          s3 \<leftarrow> each (\<lambda>c s. if b_head (mbins (fst s) ! c) \<noteq> null then flush_mbin e c 0 s else Some s) [0..<NUM_MEDIUM] s2;
          s4 \<leftarrow> each (\<lambda>c s. do { s' \<leftarrow> (if b_head (av_bin (bactive (fst s) ! c)) \<noteq> null then flush_active_big e c s else Some s);
                                 if b_head (bigbins (fst s') ! c) \<noteq> null then flush_bbin e c 0 s' else Some s' })
                   [0..<NUM_BIG] s3;
          Some (stash_drain (flush_reset s4)) }"

section \<open>Retired caches\<close>

definition first_slot :: "(thread_cache option \<Rightarrow> bool) \<Rightarrow> globals \<Rightarrow> nat option" where
  "first_slot P g = List.find (\<lambda>i. P (gl_retired g ! i)) [0..<length (gl_retired g)]"

text \<open>\<open>retire\<close> consumes the cache; what is left is the shared state.\<close>

definition retire :: "cache_env \<Rightarrow> cache_state \<Rightarrow> globals option" where
  "retire e s =
     (let (tc, g) = s; bytes = min (cached_bytes tc + large_bytes (tc_stash tc)) (2 ^ 64 - 1) in
      if bytes = 0 then Some g
      else if RETIRED_SLOT_BYTES < bytes then map_option snd (flush_all e s)
      else case first_slot (\<lambda>x. x = None) g of
             Some i \<Rightarrow> Some (g\<lparr>gl_retired := (gl_retired g)[i := Some tc], gl_ready := add_w 64 (gl_ready g) 1\<rparr>)
           | None \<Rightarrow> map_option snd (flush_all e s))"

definition take_one :: "globals \<Rightarrow> thread_cache option \<times> globals" where
  "take_one g =
     (if gl_ready g = 0 then (None, g)
      else case first_slot (\<lambda>x. x \<noteq> None) g of
             Some i \<Rightarrow> (gl_retired g ! i, g\<lparr>gl_retired := (gl_retired g)[i := None], gl_ready := sub_w 64 (gl_ready g) 1\<rparr>)
           | None \<Rightarrow> (None, g))"

definition reclaim_one :: "cache_env \<Rightarrow> globals \<Rightarrow> (bool \<times> globals) option" where
  "reclaim_one e g =
     (case take_one g of
        (Some tc, g') \<Rightarrow> map_option (\<lambda>s. (True, snd s)) (flush_all e (tc, g'))
      | (None, g') \<Rightarrow> Some (False, g'))"

partial_function (option) reclaim_all :: "cache_env \<Rightarrow> globals \<Rightarrow> globals option" where
  [code]: "reclaim_all e g =
     (case reclaim_one e g of
        None \<Rightarrow> None
      | Some (again, g') \<Rightarrow> if again then reclaim_all e g' else Some g')"

text \<open>A bin moves with its virgin count; classes in which the thread has blocks of its own are left.\<close>

definition steals :: "thread_cache \<Rightarrow> thread_cache \<Rightarrow> nat \<Rightarrow> bool" where
  "steals tc other c \<longleftrightarrow> b_head (tc_bins other ! c) \<noteq> null \<and> b_head (tc_bins tc ! c) = null"

fun steal_bins :: "nat list \<Rightarrow> thread_cache \<Rightarrow> thread_cache \<Rightarrow> nat \<Rightarrow> thread_cache \<times> thread_cache \<times> nat" where
  "steal_bins [] tc other stolen = (tc, other, stolen)"
| "steal_bins (c # cs) tc other stolen =
     (if steals tc other c then
        let b = tc_bins other ! c; bytes = CLASSES ! c * b_len b
        in steal_bins cs (tc\<lparr>tc_bins := (tc_bins tc)[c := b], cached_bytes := cached_bytes tc + bytes\<rparr>)
             (other\<lparr>tc_bins := (tc_bins other)[c := bin_new]\<rparr>) (stolen + bytes)
      else steal_bins cs tc other stolen)"

definition steal_empty_bins :: "thread_cache \<Rightarrow> thread_cache \<Rightarrow> thread_cache \<times> thread_cache \<times> nat" where
  "steal_empty_bins tc other = steal_bins [0..<length (tc_bins tc)] tc other 0"

definition reclaim_retired :: "cache_env \<Rightarrow> cache_state \<Rightarrow> cache_state option" where
  "reclaim_retired e s =
     (let (tc, g) = s in
      if retired_reclaimed tc then Some s
      else
        let (whole, g1) = (if cached_bytes tc = 0 \<and> large_len (tc_stash tc) = 0 then take_one g else (None, g)) in
        case whole of
          Some adopted \<Rightarrow>
            Some (adopted\<lparr>exit_armed := exit_armed tc, budget := budget tc, budget_epoch := budget_epoch tc,
                          retired_reclaimed := True\<rparr>, g1)
        | None \<Rightarrow>
            (case take_one g1 of
               (Some adopted, g2) \<Rightarrow>
                 let (tc', rest, _) = steal_empty_bins tc adopted
                 in map_option (\<lambda>s'. (tc'\<lparr>retired_reclaimed := True\<rparr>, snd s')) (flush_all e (rest, g2))
             | (None, g2) \<Rightarrow>
                 map_option (\<lambda>(done_one, g3). (if done_one then tc\<lparr>retired_reclaimed := True\<rparr> else tc, g3)) (reclaim_one e g2)))"

section \<open>The small tier\<close>

definition pop_small :: "nat \<Rightarrow> cache_state \<Rightarrow> (addr \<times> bool) option \<times> cache_state" where
  "pop_small c s =
     (case bin_pop (gl_small (snd s) ! c) (tc_bins (fst s) ! c) of
        (None, _) \<Rightarrow> (None, s)
      | (Some x, b) \<Rightarrow> (Some x, popped_bytes (CLASSES ! c) (set_small c (gl_small (snd s) ! c, b) s)))"

definition claim_page :: "nat \<Rightarrow> addr \<Rightarrow> cache_state \<Rightarrow> cache_state" where
  "claim_page c page s =
     (let (i, (tc, g)) = tid s in (tc, g\<lparr>gl_small := (gl_small g)[c := set_owner page i (gl_small g ! c)]\<rparr>))"

text \<open>The claim walk over a refill chain: one claim per run of blocks of the same page.\<close>

fun claim_pages :: "nat \<Rightarrow> nat \<Rightarrow> addr \<Rightarrow> addr \<Rightarrow> cache_state \<Rightarrow> cache_state" where
  "claim_pages c 0 b last_page s = s"
| "claim_pages c (Suc k) b last_page s =
     (if b = null then s
      else let page = page_of b; s' = (if page \<noteq> last_page then claim_page c page s else s)
           in claim_pages c k (words (gl_small (snd s') ! c) b) page s')"

definition prepare :: "cache_env \<Rightarrow> cache_state \<Rightarrow> cache_state option" where
  "prepare e s = reclaim_retired e (refresh_budget (snd s) (arm_exit_hook e (snd s) (fst s)), snd s)"

definition trim_if :: "cache_env \<Rightarrow> bool \<Rightarrow> cache_state \<Rightarrow> cache_state option" where
  "trim_if e p s = (if p then trim e s else Some s)"

text \<open>Under pressure a refill trims before it asks for more; for a big block the tier count matters too.\<close>

definition press :: "cache_env \<Rightarrow> cache_state \<Rightarrow> cache_state option" where
  "press e s = trim_if e (budget (fst s) div 2 < small_cached_bytes (fst s)) s"

definition press_big :: "cache_env \<Rightarrow> cache_state \<Rightarrow> cache_state option" where
  "press_big e s = do { s0 \<leftarrow> press e s; trim_if e (sat_double (budget (fst s0)) < tier_cached_bytes (fst s0)) s0 }"

text \<open>The refill proper, after the retry: trim under pressure, take a batch, claim its pages, keep the rest.\<close>

definition refill_take :: "cache_env \<Rightarrow> nat \<Rightarrow> cache_state \<Rightarrow> ((addr \<times> bool) \<times> cache_state) option" where
  "refill_take e c s =
     do { s1 \<leftarrow> press e s;
          (h, ch, n, v) \<leftarrow> small_take c (ce_page e) (gl_small (snd s1) ! c);
          (let s2 = (fst s1, (snd s1)\<lparr>gl_small := (gl_small (snd s1))[c := h]\<rparr>) in
           if ch = null then Some ((null, False), s2)
           else
             let s3 = claim_pages c n ch null s2;
                 h3 = gl_small (snd s3) ! c;
                 b = tc_bins (fst s3) ! c;
                 b' = b\<lparr>b_head := words h3 ch, b_len := b_len b + (n - 1), b_virgin := if v then n - 1 else 0\<rparr>
             in Some ((ch, v), more_bytes (CLASSES ! c * (n - 1)) (set_small c (h3, b') s3))) }"

definition refill :: "cache_env \<Rightarrow> nat \<Rightarrow> cache_state \<Rightarrow> ((addr \<times> bool) \<times> cache_state) option" where
  "refill e c s =
     do { s1 \<leftarrow> prepare e s;
          (case pop_small c s1 of
             (Some r, s2) \<Rightarrow> Some (r, s2)
           | (None, s2) \<Rightarrow> refill_take e c s2) }"

definition alloc_zeroed :: "cache_env \<Rightarrow> nat \<Rightarrow> cache_state \<Rightarrow> ((addr \<times> bool) \<times> cache_state) option" where
  "alloc_zeroed e c s =
     (case pop_small c s of
        (Some r, s') \<Rightarrow> Some (r, s')
      | (None, _) \<Rightarrow> refill e c s)"

definition alloc :: "cache_env \<Rightarrow> nat \<Rightarrow> cache_state \<Rightarrow> (addr \<times> cache_state) option" where
  "alloc e c s =
     (case pop_small c s of
        (Some (p, _), s') \<Rightarrow> Some (p, s')
      | (None, _) \<Rightarrow> (case refill e c s of None \<Rightarrow> None | Some ((p, _), s') \<Rightarrow> Some (p, s')))"

definition push_small :: "nat \<Rightarrow> addr \<Rightarrow> cache_state \<Rightarrow> cache_state" where
  "push_small c p s =
     more_bytes (CLASSES ! c) (set_small c (bin_push (gl_small (snd s) ! c) (tc_bins (fst s) ! c) p) s)"

definition note_foreign_free :: "nat \<Rightarrow> addr \<Rightarrow> cache_state \<Rightarrow> bool \<times> cache_state" where
  "note_foreign_free c p s =
     (let o1 = owner_of (gl_small (snd s) ! c) (page_of p) in
      if o1 = 0 then (False, s) else let (i, s') = tid s in (o1 \<noteq> i, s'))"

definition dealloc_cold :: "cache_env \<Rightarrow> addr \<Rightarrow> nat \<Rightarrow> cache_state \<Rightarrow> cache_state option" where
  "dealloc_cold e p c s =
     (let s1 = (arm_exit_hook e (snd s) (fst s), snd s); bud = budget (fst s1);
          (foreign, s2) = (if drift_gate_open_small (fst s1) bud then note_foreign_free c p s1 else (False, s1));
          s3 = (if foreign then ((fst s2)\<lparr>foreign_bytes := foreign_bytes (fst s2) + CLASSES ! c\<rparr>, snd s2) else s2);
          s4 = push_small c p s3
      in if should_shed_small (fst s4) bud then shed e s4 else Some s4)"

definition dealloc :: "cache_env \<Rightarrow> addr \<Rightarrow> nat \<Rightarrow> cache_state \<Rightarrow> cache_state option" where
  "dealloc e p c s =
     (let bud = budget (fst s) in
      if small_free_is_warm (fst s) then
        let s1 = push_small c p s in if should_shed_small (fst s1) bud then shed e s1 else Some s1
      else dealloc_cold e p c s)"

section \<open>The medium tier\<close>

definition active_medium_alloc :: "nat \<Rightarrow> cache_state \<Rightarrow> (addr \<times> bool) option \<times> cache_state" where
  "active_medium_alloc c s =
     (let a = mactive (fst s) ! c; h = gl_medium (snd s) ! c in
      case bin_pop h (av_bin a) of
        (None, _) \<Rightarrow> (None, s)
      | (Some x, b) \<Rightarrow> (Some x, popped_tier_bytes (MEDIUM_CLASSES ! c) (set_mactive c (h, a\<lparr>av_bin := b\<rparr>) s)))"

definition pop_medium :: "nat \<Rightarrow> cache_state \<Rightarrow> (addr \<times> bool) option \<times> cache_state" where
  "pop_medium c s =
     (case active_medium_alloc c s of
        (Some x, s') \<Rightarrow> (Some x, s')
      | (None, _) \<Rightarrow>
          (case bin_pop (gl_medium (snd s) ! c) (mbins (fst s) ! c) of
             (None, _) \<Rightarrow> (None, s)
           | (Some x, b) \<Rightarrow> (Some x, popped_tier_bytes (MEDIUM_CLASSES ! c) (set_mbin c (gl_medium (snd s) ! c, b) s))))"

definition claim_span :: "nat \<Rightarrow> addr \<Rightarrow> cache_state \<Rightarrow> cache_state" where
  "claim_span c span s =
     (let (i, (tc, g)) = tid s in (tc, g\<lparr>gl_medium := (gl_medium g)[c := set_owner span i (gl_medium g ! c)]\<rparr>))"

text \<open>The walk of \<open>mrefill\<close>: \<open>source\<close> is the first span met, \<open>single\<close> whether all blocks resolved to it.\<close>

fun claim_spans :: "cache_env \<Rightarrow> nat \<Rightarrow> nat \<Rightarrow> addr \<Rightarrow> addr \<Rightarrow> bool \<Rightarrow> addr \<Rightarrow> cache_state \<Rightarrow> (addr \<times> bool) \<times> cache_state" where
  "claim_spans e c 0 b source single claimed s = ((source, single), s)"
| "claim_spans e c (Suc k) b source single claimed s =
     (if b = null then ((source, single), s)
      else
        let span = ce_span_at e b; nxt = (\<lambda>s. words (gl_medium (snd s) ! c) b) in
        if span = null then claim_spans e c k (nxt s) source False claimed s
        else
          let s' = (if span \<noteq> claimed then claim_span c span s else s)
          in claim_spans e c k (nxt s') (if source = null then span else source)
               (if source \<noteq> null \<and> source \<noteq> span then False else single) span s')"

definition mrefill_take :: "cache_env \<Rightarrow> nat \<Rightarrow> cache_state \<Rightarrow> ((addr \<times> bool) \<times> cache_state) option" where
  "mrefill_take e c s =
     do { s1 \<leftarrow> press e s;
          (h, ch, n, v) \<leftarrow> medium_take (ce_in_arena e) c (ce_medium e) (gl_medium (snd s1) ! c);
          (let s2 = (fst s1, (snd s1)\<lparr>gl_medium := (gl_medium (snd s1))[c := h]\<rparr>) in
           if ch = null then Some ((null, False), s2)
           else
             let ((source, single), s3) = claim_spans e c n ch null True null s2;
                 h3 = gl_medium (snd s3) ! c;
                 rest = words h3 ch;
                 h4 = poke ((words h3)(ch := null)) h3;
                 b' = \<lparr>b_head = rest, b_len = n - 1, b_virgin = if v then n - 1 else 0\<rparr>;
                 s4 = more_tier_bytes (MEDIUM_CLASSES ! c * (n - 1)) s3
             in if \<not> single then Some ((ch, v), set_mbin c (h4, b') s4)
                else
                  let a = \<lparr>av_span = source, av_base = source,
                           av_end = source + span_mapped_bytes (hdr_at (fst (fst h4)) source), av_bin = b'\<rparr>
                  in Some ((ch, v), set_mbin c (h4, (mbins (fst s4) ! c)\<lparr>b_virgin := 0\<rparr>) (set_mactive c (h4, a) s4))) }"

definition mrefill :: "cache_env \<Rightarrow> nat \<Rightarrow> cache_state \<Rightarrow> ((addr \<times> bool) \<times> cache_state) option" where
  "mrefill e c s =
     do { s1 \<leftarrow> prepare e s;
          (case pop_medium c s1 of
             (Some r, s2) \<Rightarrow> Some (r, s2)
           | (None, s2) \<Rightarrow> mrefill_take e c s2) }"

definition alloc_medium_zeroed :: "cache_env \<Rightarrow> nat \<Rightarrow> cache_state \<Rightarrow> ((addr \<times> bool) \<times> cache_state) option" where
  "alloc_medium_zeroed e c s =
     (case pop_medium c s of
        (Some r, s') \<Rightarrow> Some (r, s')
      | (None, _) \<Rightarrow> mrefill e c s)"

definition alloc_medium :: "cache_env \<Rightarrow> nat \<Rightarrow> cache_state \<Rightarrow> (addr \<times> cache_state) option" where
  "alloc_medium e c s =
     (case pop_medium c s of
        (Some (p, _), s') \<Rightarrow> Some (p, s')
      | (None, _) \<Rightarrow> (case mrefill e c s of None \<Rightarrow> None | Some ((p, _), s') \<Rightarrow> Some (p, s')))"

definition active_medium_contains :: "thread_cache \<Rightarrow> addr \<Rightarrow> nat \<Rightarrow> bool" where
  "active_medium_contains tc p c \<longleftrightarrow>
     (let a = mactive tc ! c in av_span a \<noteq> null \<and> av_base a \<le> p \<and> p < av_end a)"

definition active_medium_dealloc :: "addr \<Rightarrow> nat \<Rightarrow> cache_state \<Rightarrow> cache_state" where
  "active_medium_dealloc p c s =
     (let a = mactive (fst s) ! c; (h, b) = bin_push (gl_medium (snd s) ! c) (av_bin a) p
      in set_mactive c (h, a\<lparr>av_bin := b\<rparr>) s)"

definition foreign_owner :: "nat \<Rightarrow> cache_state \<Rightarrow> bool \<times> cache_state" where
  "foreign_owner o1 s = (if o1 = 0 then (False, s) else let (i, s') = tid s in (o1 \<noteq> i, s'))"

definition add_foreign :: "bool \<Rightarrow> nat \<Rightarrow> cache_state \<Rightarrow> cache_state" where
  "add_foreign f n s = (if f then ((fst s)\<lparr>foreign_bytes := foreign_bytes (fst s) + n\<rparr>, snd s) else s)"

definition dealloc_medium :: "cache_env \<Rightarrow> addr \<Rightarrow> nat \<Rightarrow> cache_state \<Rightarrow> cache_state option" where
  "dealloc_medium e p c s =
     (let s1 = (arm_exit_hook e (snd s) (fst s), snd s);
          (foreign, s2) =
            (if drift_gate_open (fst s1) \<and> ce_span_at e p \<noteq> null
             then foreign_owner (owner_of (gl_medium (snd s1) ! c) (ce_span_at e p)) s1 else (False, s1));
          s3 = (if active_medium_contains (fst s2) p c then active_medium_dealloc p c s2
                else set_mbin c (bin_push (gl_medium (snd s2) ! c) (mbins (fst s2) ! c) p) s2);
          s4 = add_foreign foreign (MEDIUM_CLASSES ! c) (more_tier_bytes (MEDIUM_CLASSES ! c) s3)
      in if should_shed (fst s4) then shed e s4 else Some s4)"

section \<open>The big tier\<close>

definition active_big_alloc :: "nat \<Rightarrow> cache_state \<Rightarrow> (addr \<times> bool) option \<times> cache_state" where
  "active_big_alloc c s =
     (let a = bactive (fst s) ! c; h = gl_big (snd s) ! c in
      case bin_pop h (av_bin a) of
        (None, _) \<Rightarrow> (None, set_bactive c (h, active_new) s)
      | (Some x, b) \<Rightarrow> (Some x, popped_tier_bytes (BIG_CLASSES ! c) (set_bactive c (h, a\<lparr>av_bin := b\<rparr>) s)))"

definition pop_big :: "nat \<Rightarrow> cache_state \<Rightarrow> (addr \<times> bool) option \<times> cache_state" where
  "pop_big c s =
     (case active_big_alloc c s of
        (Some x, s') \<Rightarrow> (Some x, s')
      | (None, s') \<Rightarrow>
          (case bin_pop (gl_big (snd s') ! c) (bigbins (fst s') ! c) of
             (None, _) \<Rightarrow> (None, s')
           | (Some x, b) \<Rightarrow> (Some x, popped_tier_bytes (BIG_CLASSES ! c) (set_bbin c (gl_big (snd s') ! c, b) s'))))"

fun claim_bigs :: "cache_env \<Rightarrow> nat \<Rightarrow> nat \<Rightarrow> addr \<Rightarrow> cache_state \<Rightarrow> cache_state" where
  "claim_bigs e c 0 b s = s"
| "claim_bigs e c (Suc k) b s =
     (if b = null then s
      else
        let span = ce_big_at e b;
            s' = (if span \<noteq> null then
                    let (i, (tc, g)) = tid s
                    in (tc, g\<lparr>gl_big := (gl_big g)[c := set_owner span i (gl_big g ! c)]\<rparr>)
                  else s)
        in claim_bigs e c k (words (gl_big (snd s') ! c) b) s')"

fun all_from :: "cache_env \<Rightarrow> cells \<Rightarrow> addr \<Rightarrow> nat \<Rightarrow> addr \<Rightarrow> bool" where
  "all_from e w source 0 cursor = True"
| "all_from e w source (Suc k) cursor =
     (if cursor = null \<or> ce_big_at e cursor \<noteq> source then False else all_from e w source k (w cursor))"

definition bigrefill_take :: "cache_env \<Rightarrow> nat \<Rightarrow> cache_state \<Rightarrow> ((addr \<times> bool) \<times> cache_state) option" where
  "bigrefill_take e c s =
     do { s1 \<leftarrow> press_big e s;
          (h, ch, n, v) \<leftarrow> big_take c (ce_big e) (gl_big (snd s1) ! c);
          (let s2 = (fst s1, (snd s1)\<lparr>gl_big := (gl_big (snd s1))[c := h]\<rparr>) in
           if ch = null then Some ((null, False), s2)
           else
             let s3 = claim_bigs e c n ch s2;
                 h3 = gl_big (snd s3) ! c;
                 source = ce_big_at e ch;
                 single = (source \<noteq> null \<and> all_from e (words h3) source (n - 1) (words h3 ch));
                 rest = words h3 ch;
                 h4 = poke ((words h3)(ch := null)) h3;
                 s4 = more_tier_bytes (BIG_CLASSES ! c * (n - 1)) s3
             in if single
                then
                  let a = \<lparr>av_span = source, av_base = source,
                           av_end = source + big_mapped_bytes (hdr_at (fst (fst h4)) source),
                           av_bin = \<lparr>b_head = rest, b_len = n - 1, b_virgin = if v then n - 1 else 0\<rparr>\<rparr>
                  in Some ((ch, v), set_bbin c (h4, (bigbins (fst s4) ! c)\<lparr>b_virgin := 0\<rparr>) (set_bactive c (h4, a) s4))
                else
                  let b = bigbins (fst s4) ! c
                  in Some ((ch, v), set_bbin c (h4, b\<lparr>b_head := rest, b_len := b_len b + (n - 1),
                                                      b_virgin := if v then n - 1 else 0\<rparr>) s4)) }"

definition bigrefill :: "cache_env \<Rightarrow> nat \<Rightarrow> cache_state \<Rightarrow> ((addr \<times> bool) \<times> cache_state) option" where
  "bigrefill e c s =
     do { s1 \<leftarrow> prepare e s;
          (case pop_big c s1 of
             (Some r, s2) \<Rightarrow> Some (r, s2)
           | (None, s2) \<Rightarrow> bigrefill_take e c s2) }"

definition alloc_big_zeroed :: "cache_env \<Rightarrow> nat \<Rightarrow> cache_state \<Rightarrow> ((addr \<times> bool) \<times> cache_state) option" where
  "alloc_big_zeroed e c s =
     (case pop_big c s of
        (Some r, s') \<Rightarrow> Some (r, s')
      | (None, s') \<Rightarrow> bigrefill e c s')"

definition alloc_big :: "cache_env \<Rightarrow> nat \<Rightarrow> cache_state \<Rightarrow> (addr \<times> cache_state) option" where
  "alloc_big e c s =
     (case pop_big c s of
        (Some (p, _), s') \<Rightarrow> Some (p, s')
      | (None, s') \<Rightarrow> (case bigrefill e c s' of None \<Rightarrow> None | Some ((p, _), s'') \<Rightarrow> Some (p, s'')))"

definition active_big_contains :: "thread_cache \<Rightarrow> addr \<Rightarrow> nat \<Rightarrow> addr \<Rightarrow> bool" where
  "active_big_contains tc p c span \<longleftrightarrow>
     (let a = bactive tc ! c in av_span a = span \<and> av_span a \<noteq> null \<and> av_base a \<le> p \<and> p < av_end a)"

definition active_big_dealloc :: "addr \<Rightarrow> nat \<Rightarrow> cache_state \<Rightarrow> cache_state" where
  "active_big_dealloc p c s =
     (let a = bactive (fst s) ! c; (h, b) = bin_push (gl_big (snd s) ! c) (av_bin a) p
      in set_bactive c (h, a\<lparr>av_bin := b\<rparr>) s)"

text \<open>\<open>c\<close> is the class in the header of \<open>span\<close>.\<close>

definition dealloc_big :: "cache_env \<Rightarrow> addr \<Rightarrow> addr \<Rightarrow> nat \<Rightarrow> cache_state \<Rightarrow> cache_state option" where
  "dealloc_big e p span c s =
     (let s1 = (arm_exit_hook e (snd s) (fst s), snd s);
          (foreign, s2) =
            (if drift_gate_open (fst s1) then foreign_owner (owner_of (gl_big (snd s1) ! c) span) s1 else (False, s1));
          s3 = (if active_big_contains (fst s2) p c span then active_big_dealloc p c s2
                else set_bbin c (bin_push (gl_big (snd s2) ! c) (bigbins (fst s2) ! c) p) s2);
          s4 = add_foreign foreign (BIG_CLASSES ! c) (more_tier_bytes (BIG_CLASSES ! c) s3)
      in if should_shed (fst s4) then shed e s4 else Some s4)"

end
