(* ===== verification/Cache_State.thy ===== *)
theory Cache_State
  imports Cache_Ops
begin

text \<open>
  What a thread cache holds of one class, and how each use of a bin changes it.  Every fact is proved once, in
  the locales of \<open>Cache_Bins\<close> and \<open>Cache_Tiers\<close>, for whatever heap provides the class.
\<close>

section \<open>One bin over a heap\<close>

text \<open>
  \<open>H\<close> are the blocks of the class that are out of the heap and not in this bin: those of the program and of
  other threads.  \<open>D\<close> are blocks that may not be zero: the heap's, and whatever the program wrote to.
\<close>

definition bin_state :: "(('a, 'l, 'e) class_heap \<Rightarrow> addr set \<Rightarrow> addr set \<Rightarrow> bool) \<Rightarrow> ('a, 'l, 'e) class_heap \<Rightarrow> bin \<Rightarrow>
    addr set \<Rightarrow> addr set \<Rightarrow> bool" where
  "bin_state st h b H D \<longleftrightarrow> (\<exists>lv xs d. st h lv d \<and> d \<subseteq> D \<and> bin_holds (words h) lv D b xs \<and> H = lv - set xs)"

text \<open>The holders of the blocks \<open>H\<close> find their first words as they were, and no block of theirs dirtied.\<close>

definition kept :: "addr set \<Rightarrow> cells \<Rightarrow> addr set \<Rightarrow> cells \<Rightarrow> addr set \<Rightarrow> bool" where
  "kept H w D w' D' \<longleftrightarrow> (\<forall>a \<in> H. w' a = w a) \<and> D' \<inter> H \<subseteq> D"

lemma kept_refl [simp]: "kept H w D w D"
  by (simp add: kept_def)

lemma kept_trans: "kept H w D w1 D1 \<Longrightarrow> kept H w1 D1 w2 D2 \<Longrightarrow> kept H w D w2 D2"
  by (auto simp: kept_def)

lemma kept_sub: "kept H w D w' D' \<Longrightarrow> H' \<subseteq> H \<Longrightarrow> kept H' w D w' D'"
  by (auto simp: kept_def)

lemma bin_state_new: "bin_state st h bin_new H D \<longleftrightarrow> (\<exists>d. st h H d \<and> d \<subseteq> D)"
proof
  assume "bin_state st h bin_new H D"
  then obtain lv xs d where *: "st h lv d" "d \<subseteq> D" "bin_holds (words h) lv D bin_new xs" "H = lv - set xs"
    by (auto simp: bin_state_def)
  then have "xs = []" using bin_holds_unique [OF *(3) bin_holds_new] by blast
  then show "\<exists>d. st h H d \<and> d \<subseteq> D" using * by auto
next
  assume "\<exists>d. st h H d \<and> d \<subseteq> D"
  then show "bin_state st h bin_new H D" using bin_holds_new unfolding bin_state_def by fastforce
qed

lemma bin_state_empty: "bin_state st h b H D \<Longrightarrow> b_len b = 0 \<Longrightarrow> b = bin_new"
  by (auto simp: bin_state_def bin_holds_def bin_new_def)

definition chain_owned :: "(addr \<Rightarrow> addr) \<Rightarrow> cells \<Rightarrow> addr \<Rightarrow> addr \<Rightarrow> bool" where
  "chain_owned own w ch sp \<longleftrightarrow> (\<forall>xs. chain w ch xs \<longrightarrow> (\<forall>x \<in> set xs. own x = sp))"

context class_store
begin

lemma bin_state_pop:
  assumes "bin_state store h b H D"
  shows "bin_pop h b = (None, b) \<and> b = bin_new
    \<or> (\<exists>p z b'. bin_pop h b = (Some (p, z), b') \<and> b_len b = Suc (b_len b') \<and> p \<notin> H \<and> p \<noteq> 0 \<and> (z \<longrightarrow> p \<notin> D)
         \<and> bin_state store h b' (insert p H) D \<and> b_head b' = words h (b_head b) \<and> b_head b \<noteq> 0)"
proof -
  obtain lv xs d where *: "store h lv d" "d \<subseteq> D" "bin_holds (words h) lv D b xs" "H = lv - set xs"
    using assms by (auto simp: bin_state_def)
  show ?thesis
  proof (cases xs)
    case Nil
    then have "b = bin_new" using *(3) by (simp add: bin_holds_empty)
    then show ?thesis using *(3) bin_pop_none Nil by blast
  next
    case (Cons p ys)
    obtain b' z where b': "bin_pop h b = (Some (p, z), b')" "bin_holds (words h) lv D b' ys" "z \<Longrightarrow> p \<notin> D" "b_len b' = b_len b - 1"
      using bin_pop_some [OF *(3) [unfolded Cons]] by blast
    have p: "p \<in> lv" "p \<notin> set ys" "b_len b = Suc (length ys)" using *(3) by (auto simp: Cons bin_holds_def)
    have "insert p H = lv - set ys" using *(4) p by (auto simp: Cons)
    then have "bin_state store h b' (insert p H) D" using *(1,2) b'(2) by (auto simp: bin_state_def)
    moreover have "p \<noteq> 0" using live_nonnull [OF *(1)] p(1) by metis
    moreover have "p \<notin> H" using *(4) by (simp add: Cons)
    moreover have "b_head b' = words h (b_head b)" "b_head b \<noteq> 0"
      using b'(1) by (auto simp: bin_pop_def pop_block_def Let_def split: if_splits)
    ultimately show ?thesis using b'(1,3,4) p(3) by auto
  qed
qed

lemma bin_state_push:
  assumes "bin_state store h b H D" "p \<in> H"
  shows "\<exists>h' b'. bin_push h b p = (h', b') \<and> b_len b' = Suc (b_len b) \<and> bin_state store h' b' (H - {p}) (insert p D)
    \<and> (\<forall>a. a \<noteq> p \<longrightarrow> words h' a = words h a)
    \<and> (\<forall>own sp. chain_owned own (words h) (b_head b) sp \<longrightarrow> own p = sp \<longrightarrow> chain_owned own (words h') (b_head b') sp)"
proof -
  obtain lv xs d where *: "store h lv d" "d \<subseteq> D" "bin_holds (words h) lv D b xs" "H = lv - set xs"
    using assms by (auto simp: bin_state_def)
  let ?w = "(words h)(p := b_head b)"
  have p: "p \<in> lv" "p \<notin> set xs" using assms(2) *(4) by auto
  then have p: "p \<noteq> 0" "p \<in> lv" "p \<notin> set xs" using live_nonnull [OF *(1)] by metis+
  have "bin_holds (words h) lv (insert p D) b xs"
    by (rule bin_holds_frame [OF *(3)]) (use *(3) p(3) in \<open>auto simp: bin_holds_def\<close>)
  from bin_push_holds [OF this p] obtain b' where b': "bin_push h b p = (poke ?w h, b')"
    "bin_holds ?w lv (insert p D) b' (p # xs)" "b_len b' = b_len b + 1"
    by blast
  have "store (poke ?w h) lv d" by (rule poke_law [OF *(1)]) (use p in auto)
  then have "bin_state store (poke ?w h) b' (H - {p}) (insert p D)"
    using *(2,4) b'(2) unfolding bin_state_def by (intro exI [of _ lv] exI [of _ "p # xs"] exI [of _ d]) auto
  moreover have "chain_owned own (words (poke ?w h)) (b_head b') sp" if "chain_owned own (words h) (b_head b) sp" "own p = sp" for own sp
  proof -
    have "chain ?w (b_head b') (p # xs)" "chain (words h) (b_head b) xs" using b'(2) *(3) by (simp_all add: bin_holds_def)
    then show ?thesis using that unfolding chain_owned_def words_poke by (metis chain_unique set_ConsD)
  qed
  ultimately show ?thesis using b'(1,3) by auto
qed

lemma bin_state_poke:
  assumes "bin_state store h b H D" "p \<in> H"
  shows "bin_state store (poke ((words h)(p := x)) h) b H D"
proof -
  obtain lv xs d where *: "store h lv d" "d \<subseteq> D" "bin_holds (words h) lv D b xs" "H = lv - set xs"
    using assms by (auto simp: bin_state_def)
  let ?h = "poke ((words h)(p := x)) h"
  have "store ?h lv d" by (rule poke_law [OF *(1)]) (use assms(2) *(4) in auto)
  moreover have "bin_holds (words ?h) lv D b xs"
    by (rule bin_holds_frame [OF *(3)]) (use assms(2) *(3,4) in \<open>auto simp: bin_holds_def\<close>)
  ultimately show ?thesis using *(2,4) by (auto simp: bin_state_def)
qed

lemma bin_state_flush:
  assumes "bin_state store h b H D"
  shows "\<exists>h' b' D'. flush_to T n h b = Some (h', b', b_len b - min (b_len b) n) \<and> b_len b' = min (b_len b) n
    \<and> bin_state store h' b' H D' \<and> kept H (words h) D (words h') D'"
proof -
  obtain lv xs d where *: "store h lv d" "d \<subseteq> D" "bin_holds (words h) lv D b xs" "H = lv - set xs"
    using assms by (auto simp: bin_state_def)
  from flush_to_ok [OF *(1,3), of n] obtain h' b' d' ys zs where
    f: "flush_to T n h b = Some (h', b', length ys)" "xs = ys @ zs" "length zs = min (length xs) n"
    "store h' (lv - set ys) d'" "bin_holds (words h') (lv - set ys) D b' zs" "d' \<subseteq> d \<union> set ys"
    "\<forall>a \<in> lv - set xs. words h' a = words h a"
    by blast
  let ?D = "D \<union> set ys"
  have b: "b_len b = length xs" "b_len b' = length zs" using *(3) f(5) by (simp_all add: bin_holds_def)
  have dis: "set zs \<inter> set ys = {}" "H = lv - set ys - set zs" using *(3,4) by (auto simp: bin_holds_def f(2))
  have bh: "bin_holds (words h') (lv - set ys) ?D b' zs"
    by (rule bin_holds_frame [OF f(5)]) (use f(5) dis(1) in \<open>auto simp: bin_holds_def\<close>)
  have dd: "d' \<subseteq> ?D" using f(6) *(2) by auto
  have st: "bin_state store h' b' H ?D"
    unfolding bin_state_def by (intro exI conjI) (rule f(4), rule dd, rule bh, rule dis(2))
  have len: "length ys = b_len b - min (b_len b) n" "b_len b' = min (b_len b) n" using b f(3) arg_cong [OF f(2), of length] unfolding length_append by linarith+
  have kp: "kept H (words h) D (words h') ?D" using f(7) *(4) by (auto simp: kept_def f(2))
  show ?thesis by (intro exI conjI) (rule f(1) [unfolded len(1)], rule len(2), rule st, rule kp)
qed

lemma bin_state_owner:
  assumes "bin_state store h b H D"
  shows "bin_state store (set_owner p i h) b H D"
  using assms owner_law unfolding bin_state_def words_set_owner by blast

text \<open>A bin given back as a single run: the chain of an active span, all of whose blocks are of that span.\<close>

lemma bin_state_give:
  assumes "bin_state store h b H D" "b_len b \<noteq> 0" "chain_owned (bt_owner T) (words h) (b_head b) sp"
  shows "\<exists>tail h' D'. find_tail (words h) (b_head b) = Some tail
    \<and> bt_give T [\<lparr>rc_page = sp, rc_head = b_head b, rc_tail = tail, rc_n = b_len b\<rparr>] h = Some h'
    \<and> bin_state store h' bin_new H D' \<and> kept H (words h) D (words h') D'"
proof -
  obtain lv xs d where *: "store h lv d" "d \<subseteq> D" "bin_holds (words h) lv D b xs" "H = lv - set xs"
    using assms(1) by (auto simp: bin_state_def)
  have ch: "chain (words h) (b_head b) xs" "distinct xs" "set xs \<subseteq> lv" "b_len b = length xs" "xs \<noteq> []"
    using *(3) assms(2) by (auto simp: bin_holds_def)
  let ?k = "\<lparr>rc_page = sp, rc_head = b_head b, rc_tail = last xs, rc_n = b_len b\<rparr>"
  have "runs_ok (bt_owner T) (words h) lv [(?k, xs)]"
    using ch assms(3) by (simp add: runs_ok_def run_ok_def chain_owned_def)
  from give_law [OF *(1) this] room obtain h' d' where
    g: "bt_give T [?k] h = Some h'" "store h' (lv - set xs) d'" "d' \<subseteq> d \<union> set xs" "\<forall>a \<in> lv - set xs. words h' a = words h a"
    by auto
  have "find_tail (words h) (b_head b) = Some (last xs)" by (rule find_tail_chain) (use ch in auto)
  moreover have "bin_state store h' bin_new H (D \<union> set xs)"
    unfolding bin_state_new using g(2,3) *(2,4) by blast
  moreover have "kept H (words h) D (words h') (D \<union> set xs)" using g(4) *(4) by (auto simp: kept_def)
  ultimately show ?thesis using g(1) by blast
qed

end

section \<open>Taking a batch\<close>

text \<open>The chain a refill takes is a bin of its own until its first block is split off.\<close>

definition batch :: "addr \<Rightarrow> nat \<Rightarrow> bool \<Rightarrow> bin" where
  "batch ch n v = \<lparr>b_head = ch, b_len = n, b_virgin = if v then n else 0\<rparr>"

lemma bin_pop_batch:
  "ch \<noteq> null \<Longrightarrow> 0 < n \<Longrightarrow> bin_pop h (batch ch n v) = (Some (ch, v), batch (words h ch) (n - 1) v)"
  by (simp add: bin_pop_def batch_def pop_block_def Let_def)

context class_source
begin

lemma bin_state_take:
  assumes "bin_state store h bin_new H D" "\<And>lv d. store h lv d \<Longrightarrow> fresh h lv"
  shows "take h = Some (h, null, 0, False)
    \<or> (\<exists>h' ch n v D'. take h = Some (h', ch, n, v) \<and> ch \<noteq> null \<and> 0 < n \<and> bin_state store h' (batch ch n v) H D'
         \<and> kept H (words h) D (words h') D')"
proof -
  obtain d where d: "store h H d" "d \<subseteq> D" using assms(1) by (auto simp: bin_state_new)
  from take_law [OF d(1) assms(2) [OF d(1)]] show ?thesis
  proof (elim disjE exE conjE)
    fix h' ch v new d'
    assume t: "take h = Some (h', ch, length new, v)" "took store h H d h' ch v new d'"
    define D' where "D' = (if v then D - set new else D)"
    note k = t(2) [unfolded took_def]
    have "ch \<noteq> null" using k by (cases new) auto
    moreover have "bin_state store h' (batch ch (length new) v) H D'"
    proof -
      have "bin_holds (words h') (H \<union> set new) D' (batch ch (length new) v) new"
        using k by (auto simp: bin_holds_def batch_def D'_def)
      moreover have "d' \<subseteq> D'" using k d(2) by (auto simp: D'_def)
      moreover have "H = (H \<union> set new) - set new" using k by auto
      ultimately show ?thesis using k unfolding bin_state_def by blast
    qed
    moreover have "kept H (words h) D (words h') D'" using k by (auto simp: kept_def D'_def)
    ultimately show ?thesis using t(1) k by (intro disjI2 exI conjI) auto
  qed blast
qed

end

section \<open>Two bins over a heap\<close>

text \<open>
  A medium or big class has a bin and the chain \<open>a\<close> of an active span; every block of the chain is of that span.
\<close>

definition pair_state :: "(('a, 'l, 'e) class_heap \<Rightarrow> addr set \<Rightarrow> addr set \<Rightarrow> bool) \<Rightarrow> (addr \<Rightarrow> addr) \<Rightarrow>
    ('a, 'l, 'e) class_heap \<Rightarrow> bin \<Rightarrow> addr \<Rightarrow> bin \<Rightarrow> addr set \<Rightarrow> addr set \<Rightarrow> bool" where
  "pair_state st own h b sp a H D \<longleftrightarrow> (\<exists>lv xs ys d. st h lv d \<and> d \<subseteq> D \<and> bin_holds (words h) lv D b xs
     \<and> bin_holds (words h) lv D a ys \<and> set xs \<inter> set ys = {} \<and> (\<forall>y \<in> set ys. own y = sp) \<and> H = lv - set xs - set ys)"

text \<open>Each of the two is a bin over the heap, the blocks of the other counted among those outside.\<close>

lemma pair_state_bin:
  assumes "pair_state st own h b sp a H D"
  obtains ys where "bin_state st h b (H \<union> set ys) D" "bin_holds (words h) (H \<union> set ys) D a ys" "set ys \<inter> H = {}"
    "\<forall>y \<in> set ys. own y = sp"
proof -
  obtain lv xs ys d where *: "st h lv d" "d \<subseteq> D" "bin_holds (words h) lv D b xs" "bin_holds (words h) lv D a ys"
    "set xs \<inter> set ys = {}" "\<forall>y \<in> set ys. own y = sp" "H = lv - set xs - set ys"
    using assms by (auto simp: pair_state_def)
  have H: "H \<union> set ys = lv - set xs" using *(4,5,7) by (auto simp: bin_holds_def)
  show thesis
  proof (rule that)
    show "bin_state st h b (H \<union> set ys) D" using * unfolding H bin_state_def by blast
    show "bin_holds (words h) (H \<union> set ys) D a ys" by (rule bin_holds_frame [OF *(4)]) (use * in auto)
  qed (use * in auto)
qed

lemma pair_state_active:
  assumes "pair_state st own h b sp a H D"
  obtains xs where "bin_state st h a (H \<union> set xs) D" "bin_holds (words h) (H \<union> set xs) D b xs" "set xs \<inter> H = {}"
    "chain_owned own (words h) (b_head a) sp"
proof -
  obtain lv xs ys d where *: "st h lv d" "d \<subseteq> D" "bin_holds (words h) lv D b xs" "bin_holds (words h) lv D a ys"
    "set xs \<inter> set ys = {}" "\<forall>y \<in> set ys. own y = sp" "H = lv - set xs - set ys"
    using assms by (auto simp: pair_state_def)
  have H: "H \<union> set xs = lv - set ys" using *(3,5,7) by (auto simp: bin_holds_def)
  show thesis
  proof (rule that)
    show "bin_state st h a (H \<union> set xs) D" using * unfolding H bin_state_def by blast
    show "bin_holds (words h) (H \<union> set xs) D b xs" by (rule bin_holds_frame [OF *(3)]) (use * in auto)
    show "chain_owned own (words h) (b_head a) sp"
      using *(4,6) by (auto simp: chain_owned_def bin_holds_def dest: chain_unique)
  qed (use * in auto)
qed

text \<open>Back from one bin to two, when the other's blocks have been left alone.\<close>

lemma pair_stateI_bin:
  assumes "bin_state st h' b' (H' \<union> set ys) D'" "bin_holds w lv D a ys" "kept (set ys) w D (words h') D'"
    "set ys \<inter> H' = {}" "\<forall>y \<in> set ys. own y = sp"
  shows "pair_state st own h' b' sp a H' D'"
proof -
  obtain lv' xs d where *: "st h' lv' d" "d \<subseteq> D'" "bin_holds (words h') lv' D' b' xs" "H' \<union> set ys = lv' - set xs"
    using assms(1) by (auto simp: bin_state_def)
  have "bin_holds (words h') lv' D' a ys"
    by (rule bin_holds_frame [OF assms(2)]) (use assms(3) *(4) in \<open>auto simp: kept_def\<close>)
  then show ?thesis using * assms(4,5) unfolding pair_state_def
    by (intro exI [of _ lv'] exI [of _ xs] exI [of _ ys] exI [of _ d]) auto
qed

lemma pair_stateI_active:
  assumes "bin_state st h' a' (H' \<union> set xs) D'" "bin_holds w lv D b xs" "kept (set xs) w D (words h') D'"
    "set xs \<inter> H' = {}" "chain_owned own (words h') (b_head a') sp"
  shows "pair_state st own h' b sp a' H' D'"
proof -
  obtain lv' ys d where *: "st h' lv' d" "d \<subseteq> D'" "bin_holds (words h') lv' D' a' ys" "H' \<union> set xs = lv' - set ys"
    using assms(1) by (auto simp: bin_state_def)
  have "bin_holds (words h') lv' D' b xs"
    by (rule bin_holds_frame [OF assms(2)]) (use assms(3) *(4) in \<open>auto simp: kept_def\<close>)
  moreover have "\<forall>y \<in> set ys. own y = sp" using *(3) assms(5) unfolding bin_holds_def chain_owned_def by blast
  moreover have "set xs \<inter> set ys = {}" "H' = lv' - set xs - set ys" using *(4) assms(4) by auto
  ultimately show ?thesis using *(1-3) unfolding pair_state_def by blast
qed

lemma pair_state_empty:
  assumes "pair_state st own h b sp a H D"
  shows "b_len b = 0 \<Longrightarrow> b = bin_new" "b_len a = 0 \<Longrightarrow> a = bin_new"
  using assms unfolding pair_state_def bin_holds_def bin_new_def by fastforce+

text \<open>With an empty chain the pair is one bin, whatever the active span.\<close>

lemma pair_state_new: "pair_state st own h b sp bin_new H D \<longleftrightarrow> bin_state st h b H D"
proof
  assume "pair_state st own h b sp bin_new H D"
  then obtain ys where "bin_state st h b (H \<union> set ys) D" "bin_holds (words h) (H \<union> set ys) D bin_new ys"
    by (rule pair_state_bin)
  then show "bin_state st h b H D" using bin_holds_unique [OF _ bin_holds_new] by fastforce
next
  assume "bin_state st h b H D"
  then show "pair_state st own h b sp bin_new H D"
    using bin_holds_new unfolding bin_state_def pair_state_def by fastforce
qed

lemma pair_state_active_only:
  "pair_state st own h bin_new sp a H D \<longleftrightarrow> bin_state st h a H D \<and> chain_owned own (words h) (b_head a) sp"
proof
  assume "pair_state st own h bin_new sp a H D"
  then obtain xs where "bin_state st h a (H \<union> set xs) D" "bin_holds (words h) (H \<union> set xs) D bin_new xs"
    "chain_owned own (words h) (b_head a) sp"
    by (rule pair_state_active)
  then show "bin_state st h a H D \<and> chain_owned own (words h) (b_head a) sp"
    using bin_holds_unique [OF _ bin_holds_new] by fastforce
next
  assume "bin_state st h a H D \<and> chain_owned own (words h) (b_head a) sp"
  then show "pair_state st own h bin_new sp a H D"
    using pair_stateI_active [of st h a H "[]" D "words h" H D bin_new own sp] bin_holds_new by simp
qed

lemma chain_owned_tail:
  "chain_owned own w ch sp \<Longrightarrow> ch \<noteq> 0 \<Longrightarrow> chain_owned own w (w ch) sp"
  unfolding chain_owned_def by (metis chain.simps(2) list.set_intros(2))

context class_store
begin

abbreviation pair :: "('a, 'l, 'e) class_heap \<Rightarrow> bin \<Rightarrow> addr \<Rightarrow> bin \<Rightarrow> addr set \<Rightarrow> addr set \<Rightarrow> bool" where
  "pair \<equiv> pair_state store (bt_owner T)"

lemma pair_pop_bin:
  assumes "pair h b sp a H D"
  shows "bin_pop h b = (None, b) \<and> b = bin_new
    \<or> (\<exists>p z b'. bin_pop h b = (Some (p, z), b') \<and> b_len b = Suc (b_len b') \<and> p \<notin> H \<and> p \<noteq> 0 \<and> (z \<longrightarrow> p \<notin> D)
         \<and> pair h b' sp a (insert p H) D)"
proof -
  obtain ys where ys: "bin_state store h b (H \<union> set ys) D" "bin_holds (words h) (H \<union> set ys) D a ys" "set ys \<inter> H = {}"
    "\<forall>y \<in> set ys. bt_owner T y = sp"
    using assms by (rule pair_state_bin)
  from bin_state_pop [OF ys(1)] show ?thesis
  proof (elim disjE exE conjE)
    fix p z b'
    assume p: "bin_pop h b = (Some (p, z), b')" "b_len b = Suc (b_len b')" "p \<notin> H \<union> set ys" "p \<noteq> 0" "z \<longrightarrow> p \<notin> D"
      "bin_state store h b' (insert p (H \<union> set ys)) D"
    have "pair h b' sp a (insert p H) D"
      by (rule pair_stateI_bin [OF _ ys(2)]) (use p(3,6) ys(3,4) in auto)
    then show ?thesis using p by blast
  qed simp
qed

lemma pair_pop_active:
  assumes "pair h b sp a H D"
  shows "bin_pop h a = (None, a) \<and> a = bin_new
    \<or> (\<exists>p z a'. bin_pop h a = (Some (p, z), a') \<and> b_len a = Suc (b_len a') \<and> p \<notin> H \<and> p \<noteq> 0 \<and> (z \<longrightarrow> p \<notin> D)
         \<and> pair h b sp a' (insert p H) D)"
proof -
  obtain xs where xs: "bin_state store h a (H \<union> set xs) D" "bin_holds (words h) (H \<union> set xs) D b xs" "set xs \<inter> H = {}"
    "chain_owned (bt_owner T) (words h) (b_head a) sp"
    using assms by (rule pair_state_active)
  from bin_state_pop [OF xs(1)] show ?thesis
  proof (elim disjE exE conjE)
    fix p z a'
    assume p: "bin_pop h a = (Some (p, z), a')" "b_len a = Suc (b_len a')" "p \<notin> H \<union> set xs" "p \<noteq> 0" "z \<longrightarrow> p \<notin> D"
      "bin_state store h a' (insert p (H \<union> set xs)) D" "b_head a' = words h (b_head a)" "b_head a \<noteq> 0"
    have "pair h b sp a' (insert p H) D"
      by (rule pair_stateI_active [OF _ xs(2)])
         (use p(3,6,7) xs(3) chain_owned_tail [OF xs(4) p(8)] in auto)
    then show ?thesis using p by blast
  qed simp
qed

lemma pair_push_bin:
  assumes "pair h b sp a H D" "p \<in> H"
  shows "\<exists>h' b'. bin_push h b p = (h', b') \<and> b_len b' = Suc (b_len b) \<and> pair h' b' sp a (H - {p}) (insert p D)
    \<and> kept (H - {p}) (words h) D (words h') (insert p D)"
proof -
  obtain ys where ys: "bin_state store h b (H \<union> set ys) D" "bin_holds (words h) (H \<union> set ys) D a ys" "set ys \<inter> H = {}"
    "\<forall>y \<in> set ys. bt_owner T y = sp"
    using assms(1) by (rule pair_state_bin)
  obtain h' b' where p: "bin_push h b p = (h', b')" "b_len b' = Suc (b_len b)" "bin_state store h' b' (H \<union> set ys - {p}) (insert p D)"
    "\<forall>a. a \<noteq> p \<longrightarrow> words h' a = words h a"
    using bin_state_push [OF ys(1), of p] assms(2) by blast
  have e: "H \<union> set ys - {p} = (H - {p}) \<union> set ys" using assms(2) ys(3) by auto
  have "pair h' b' sp a (H - {p}) (insert p D)"
    by (rule pair_stateI_bin [OF p(3) [unfolded e] ys(2)]) (use p(4) ys(3,4) assms(2) in \<open>auto simp: kept_def\<close>)
  moreover have "kept (H - {p}) (words h) D (words h') (insert p D)" using p(4) by (auto simp: kept_def)
  ultimately show ?thesis using p(1,2) by blast
qed

lemma pair_push_active:
  assumes "pair h b sp a H D" "p \<in> H" "bt_owner T p = sp"
  shows "\<exists>h' a'. bin_push h a p = (h', a') \<and> b_len a' = Suc (b_len a) \<and> pair h' b sp a' (H - {p}) (insert p D)
    \<and> kept (H - {p}) (words h) D (words h') (insert p D)"
proof -
  obtain xs where xs: "bin_state store h a (H \<union> set xs) D" "bin_holds (words h) (H \<union> set xs) D b xs" "set xs \<inter> H = {}"
    "chain_owned (bt_owner T) (words h) (b_head a) sp"
    using assms(1) by (rule pair_state_active)
  obtain h' a' where p: "bin_push h a p = (h', a')" "b_len a' = Suc (b_len a)" "bin_state store h' a' (H \<union> set xs - {p}) (insert p D)"
    "\<forall>a. a \<noteq> p \<longrightarrow> words h' a = words h a" "chain_owned (bt_owner T) (words h') (b_head a') sp"
    using bin_state_push [OF xs(1), of p] assms(2,3) xs(4) by blast
  have e: "H \<union> set xs - {p} = (H - {p}) \<union> set xs" using assms(2) xs(3) by auto
  have "pair h' b sp a' (H - {p}) (insert p D)"
    by (rule pair_stateI_active [OF p(3) [unfolded e] xs(2)]) (use p(4,5) xs(3) assms(2) in \<open>auto simp: kept_def\<close>)
  moreover have "kept (H - {p}) (words h) D (words h') (insert p D)" using p(4) by (auto simp: kept_def)
  ultimately show ?thesis using p(1,2) by blast
qed

lemma pair_flush_bin:
  assumes "pair h b sp a H D"
  shows "\<exists>h' b' D'. flush_to T n h b = Some (h', b', b_len b - min (b_len b) n) \<and> b_len b' = min (b_len b) n
    \<and> pair h' b' sp a H D' \<and> kept H (words h) D (words h') D'"
proof -
  obtain ys where ys: "bin_state store h b (H \<union> set ys) D" "bin_holds (words h) (H \<union> set ys) D a ys" "set ys \<inter> H = {}"
    "\<forall>y \<in> set ys. bt_owner T y = sp"
    using assms by (rule pair_state_bin)
  obtain h' b' D' where f: "flush_to T n h b = Some (h', b', b_len b - min (b_len b) n)" "b_len b' = min (b_len b) n"
    "bin_state store h' b' (H \<union> set ys) D'" "kept (H \<union> set ys) (words h) D (words h') D'"
    using bin_state_flush [OF ys(1)] by blast
  have "pair h' b' sp a H D'" by (rule pair_stateI_bin [OF f(3) ys(2) kept_sub [OF f(4)] ys(3,4)]) simp
  then show ?thesis using f(1,2) kept_sub [OF f(4)] by blast
qed

lemma pair_give_active:
  assumes "pair h b sp a H D" "b_len a \<noteq> 0"
  shows "\<exists>tail h' D'. find_tail (words h) (b_head a) = Some tail
    \<and> bt_give T [\<lparr>rc_page = sp, rc_head = b_head a, rc_tail = tail, rc_n = b_len a\<rparr>] h = Some h'
    \<and> pair h' b sp' bin_new H D' \<and> kept H (words h) D (words h') D'"
proof -
  obtain xs where xs: "bin_state store h a (H \<union> set xs) D" "bin_holds (words h) (H \<union> set xs) D b xs" "set xs \<inter> H = {}"
    "chain_owned (bt_owner T) (words h) (b_head a) sp"
    using assms(1) by (rule pair_state_active)
  obtain tail h' D' where g: "find_tail (words h) (b_head a) = Some tail"
    "bt_give T [\<lparr>rc_page = sp, rc_head = b_head a, rc_tail = tail, rc_n = b_len a\<rparr>] h = Some h'"
    "bin_state store h' bin_new (H \<union> set xs) D'" "kept (H \<union> set xs) (words h) D (words h') D'"
    using bin_state_give [OF xs(1) assms(2) xs(4)] by blast
  have "chain_owned (bt_owner T) (words h') (b_head bin_new) sp'"
    by (auto simp: chain_owned_def bin_new_def elim: chain.elims)
  then have "pair h' b sp' bin_new H D'" by (intro pair_stateI_active [OF g(3) xs(2) kept_sub [OF g(4)] xs(3)]) simp
  then show ?thesis using g(1,2) kept_sub [OF g(4)] by blast
qed

lemma pair_owner: "pair h b sp a H D \<Longrightarrow> pair (set_owner p i h) b sp a H D"
  using owner_law unfolding pair_state_def words_set_owner by blast

end

end
