(* ===== verification/Cache_Inv.thy ===== *)
theory Cache_Inv
  imports Cache_State
begin

text \<open>
  The invariant of a thread cache over all classes of the three tiers: every bin holds what its links say, and
  the byte counts are the sizes of the blocks held.  Flushing keeps it and touches no block outside the cache.
\<close>

section \<open>Byte counts\<close>

definition weigh :: "nat list \<Rightarrow> nat list \<Rightarrow> nat" where
  "weigh sizes lens = (\<Sum>i<length sizes. sizes ! i * lens ! i)"

lemma weigh_update:
  assumes "c < length sizes" "length lens = length sizes"
  shows "weigh sizes (lens[c := n]) + sizes ! c * lens ! c = weigh sizes lens + sizes ! c * n"
proof -
  have s: "weigh sizes l = sizes ! c * l ! c + (\<Sum>i \<in> {..<length sizes} - {c}. sizes ! i * l ! i)" for l
    unfolding weigh_def by (rule sum.remove) (use assms(1) in auto)
  have "(\<Sum>i \<in> {..<length sizes} - {c}. sizes ! i * lens[c := n] ! i) = (\<Sum>i \<in> {..<length sizes} - {c}. sizes ! i * lens ! i)"
    by (rule sum.cong) auto
  then show ?thesis using s [of "lens[c := n]"] s [of lens] assms by simp
qed

lemma weigh_part: "c < length sizes \<Longrightarrow> sizes ! c * lens ! c \<le> weigh sizes lens"
  unfolding weigh_def by (rule member_le_sum [where f = "\<lambda>i. sizes ! i * lens ! i"]) auto

text \<open>\<open>actual_tier_bytes\<close> is the count \<open>small_cached_bytes\<close> asserts in debug builds.\<close>

definition actual_tier_bytes :: "thread_cache \<Rightarrow> nat" where
  "actual_tier_bytes tc = weigh MEDIUM_CLASSES (active_lens (mactive tc)) + weigh MEDIUM_CLASSES (lens_of (mbins tc))
     + weigh BIG_CLASSES (active_lens (bactive tc)) + weigh BIG_CLASSES (lens_of (bigbins tc))"

definition bytes_ok :: "thread_cache \<Rightarrow> bool" where
  "bytes_ok tc \<longleftrightarrow> tier_cached_bytes tc = actual_tier_bytes tc
     \<and> cached_bytes tc = weigh CLASSES (lens_of (tc_bins tc)) + actual_tier_bytes tc"

lemma removed_bytes: "n \<le> m \<Longrightarrow> x + k * (m - n) = y \<Longrightarrow> x + k * m = y + k * (n :: nat)"
  by (auto dest!: le_Suc_ex simp: distrib_left)

lemma pair_state_head: "pair_state st own h b sp a H D \<Longrightarrow> b_len a \<noteq> 0 \<Longrightarrow> b_head a \<noteq> 0"
  unfolding pair_state_def bin_holds_def by (metis chain.elims(2) list.size(3))

lemma bt_owner_tiers: "bt_owner (medium_bins ia p sp c) = sp" "bt_owner (big_bins ia p sp) = sp"
  by (simp_all add: medium_bins_def big_bins_def)

section \<open>The invariant\<close>

datatype tier = Small | Medium | Big

text \<open>\<open>H t c\<close> are the blocks of class \<open>c\<close> of tier \<open>t\<close> that are out of the heap and not in this cache.\<close>

type_synonym blocks = "tier \<Rightarrow> nat \<Rightarrow> addr set"

abbreviation small_st :: "cache_env \<Rightarrow> nat \<Rightarrow> small_heap \<Rightarrow> addr set \<Rightarrow> addr set \<Rightarrow> bool" where
  "small_st e c \<equiv> small_store (ce_purge e) c"

abbreviation medium_st :: "cache_env \<Rightarrow> nat \<Rightarrow> span_heap \<Rightarrow> addr set \<Rightarrow> addr set \<Rightarrow> bool" where
  "medium_st e c \<equiv> medium_store (ce_in_arena e) (ce_span_purge e) (ce_span_at e) c"

abbreviation big_st :: "cache_env \<Rightarrow> nat \<Rightarrow> span_heap \<Rightarrow> addr set \<Rightarrow> addr set \<Rightarrow> bool" where
  "big_st e c \<equiv> big_store (ce_span_purge e) (ce_big_at e) c"

definition shape_ok :: "cache_state \<Rightarrow> bool" where
  "shape_ok s \<longleftrightarrow> length (tc_bins (fst s)) = NUM_CLASSES \<and> length (gl_small (snd s)) = NUM_CLASSES
     \<and> length (mbins (fst s)) = NUM_MEDIUM \<and> length (mactive (fst s)) = NUM_MEDIUM \<and> length (gl_medium (snd s)) = NUM_MEDIUM
     \<and> length (bigbins (fst s)) = NUM_BIG \<and> length (bactive (fst s)) = NUM_BIG \<and> length (gl_big (snd s)) = NUM_BIG"

definition small_ok :: "cache_env \<Rightarrow> nat \<Rightarrow> addr set \<Rightarrow> addr set \<Rightarrow> cache_state \<Rightarrow> bool" where
  "small_ok e c X Y s \<longleftrightarrow> bin_state (small_st e c) (gl_small (snd s) ! c) (tc_bins (fst s) ! c) X Y"

definition medium_ok :: "cache_env \<Rightarrow> nat \<Rightarrow> addr set \<Rightarrow> addr set \<Rightarrow> cache_state \<Rightarrow> bool" where
  "medium_ok e c X Y s \<longleftrightarrow> pair_state (medium_st e c) (ce_span_at e) (gl_medium (snd s) ! c) (mbins (fst s) ! c)
     (av_span (mactive (fst s) ! c)) (av_bin (mactive (fst s) ! c)) X Y"

definition big_ok :: "cache_env \<Rightarrow> nat \<Rightarrow> addr set \<Rightarrow> addr set \<Rightarrow> cache_state \<Rightarrow> bool" where
  "big_ok e c X Y s \<longleftrightarrow> pair_state (big_st e c) (ce_big_at e) (gl_big (snd s) ! c) (bigbins (fst s) ! c)
     (av_span (bactive (fst s) ! c)) (av_bin (bactive (fst s) ! c)) X Y
     \<and> (b_len (av_bin (bactive (fst s) ! c)) \<noteq> 0 \<longrightarrow> av_span (bactive (fst s) ! c) \<noteq> null)"

definition cache_inv :: "cache_env \<Rightarrow> blocks \<Rightarrow> blocks \<Rightarrow> cache_state \<Rightarrow> bool" where
  "cache_inv e H D s \<longleftrightarrow> shape_ok s \<and> bytes_ok (fst s)
     \<and> (\<forall>c < NUM_CLASSES. small_ok e c (H Small c) (D Small c) s)
     \<and> (\<forall>c < NUM_MEDIUM. medium_ok e c (H Medium c) (D Medium c) s)
     \<and> (\<forall>c < NUM_BIG. big_ok e c (H Big c) (D Big c) s)"

text \<open>The memory of class \<open>c\<close> of tier \<open>t\<close>, and what is kept of it for the blocks outside the cache.\<close>

fun tier_words :: "tier \<Rightarrow> nat \<Rightarrow> globals \<Rightarrow> cells" where
  "tier_words Small c g = words (gl_small g ! c)"
| "tier_words Medium c g = words (gl_medium g ! c)"
| "tier_words Big c g = words (gl_big g ! c)"

definition cache_kept :: "blocks \<Rightarrow> cache_state \<Rightarrow> blocks \<Rightarrow> cache_state \<Rightarrow> blocks \<Rightarrow> bool" where
  "cache_kept H s D s' D' \<longleftrightarrow> (\<forall>t c. kept (H t c) (tier_words t c (snd s)) (D t c) (tier_words t c (snd s')) (D' t c))"

lemma cache_kept_refl [simp]: "cache_kept H s D s D"
  by (simp add: cache_kept_def)

lemma cache_kept_trans: "cache_kept H s D s1 D1 \<Longrightarrow> cache_kept H s1 D1 s2 D2 \<Longrightarrow> cache_kept H s D s2 D2"
  unfolding cache_kept_def by (blast intro: kept_trans)

definition upd :: "tier \<Rightarrow> nat \<Rightarrow> addr set \<Rightarrow> blocks \<Rightarrow> blocks" where
  "upd t c X F = F(t := (F t)(c := X))"

lemma upd_apply [simp]: "upd t c X F t' c' = (if t' = t \<and> c' = c then X else F t' c')"
  by (simp add: upd_def)

lemma upd_same [simp]: "upd t c (F t c) F = F"
  by (simp add: upd_def)

text \<open>What one step leaves alone: everything but one class of one tier.\<close>

definition same_medium :: "cache_state \<Rightarrow> cache_state \<Rightarrow> bool" where
  "same_medium s s' \<longleftrightarrow> mbins (fst s') = mbins (fst s) \<and> mactive (fst s') = mactive (fst s) \<and> gl_medium (snd s') = gl_medium (snd s)"

definition same_big :: "cache_state \<Rightarrow> cache_state \<Rightarrow> bool" where
  "same_big s s' \<longleftrightarrow> bigbins (fst s') = bigbins (fst s) \<and> bactive (fst s') = bactive (fst s) \<and> gl_big (snd s') = gl_big (snd s)"

definition same_small :: "cache_state \<Rightarrow> cache_state \<Rightarrow> bool" where
  "same_small s s' \<longleftrightarrow> tc_bins (fst s') = tc_bins (fst s) \<and> gl_small (snd s') = gl_small (snd s)"

lemma cache_inv_small:
  assumes inv: "cache_inv e H D s" and c: "c < NUM_CLASSES" and b: "bin_state (small_st e c) h' b' X Y"
    and s': "tc_bins (fst s') = (tc_bins (fst s))[c := b']" "gl_small (snd s') = (gl_small (snd s))[c := h']"
      "same_medium s s'" "same_big s s'" "tier_cached_bytes (fst s') = tier_cached_bytes (fst s)"
      "cached_bytes (fst s') + CLASSES ! c * b_len (tc_bins (fst s) ! c) = cached_bytes (fst s) + CLASSES ! c * b_len b'"
  shows "cache_inv e (upd Small c X H) (upd Small c Y D) s'"
proof -
  have l: "length (tc_bins (fst s)) = NUM_CLASSES" "length (gl_small (snd s)) = NUM_CLASSES"
    using inv by (simp_all add: cache_inv_def shape_ok_def)
  have "small_ok e c' (upd Small c X H Small c') (upd Small c Y D Small c') s'" if "c' < NUM_CLASSES" for c'
    using that inv b c l by (cases "c' = c") (auto simp: cache_inv_def small_ok_def s')
  moreover have "bytes_ok (fst s')"
    using inv s'(3-6) weigh_update [of c CLASSES "lens_of (tc_bins (fst s))" "b_len b'"] c l
    by (simp add: cache_inv_def bytes_ok_def actual_tier_bytes_def same_medium_def same_big_def s'(1) map_update)
  ultimately show ?thesis
    using inv s'(3,4) by (simp add: cache_inv_def shape_ok_def same_medium_def same_big_def s'(1,2) medium_ok_def big_ok_def)
qed

lemma cache_kept_small:
  assumes "c < length (gl_small (snd s))" "same_medium s s'" "same_big s s'" "gl_small (snd s') = (gl_small (snd s))[c := h']"
    "kept (H Small c) (words (gl_small (snd s) ! c)) (D Small c) (words h') Y"
  shows "cache_kept H s D s' (upd Small c Y D)"
  unfolding cache_kept_def
proof (intro allI)
  fix t c'
  show "kept (H t c') (tier_words t c' (snd s)) (D t c') (tier_words t c' (snd s')) (upd Small c Y D t c')"
    using assms by (cases t; cases "c' = c") (simp_all add: same_medium_def same_big_def)
qed


lemma cache_inv_medium:
  assumes inv: "cache_inv e H D s" and c: "c < NUM_MEDIUM"
    and b: "pair_state (medium_st e c) (ce_span_at e) h' b' (av_span a') (av_bin a') X Y"
    and s': "mbins (fst s') = (mbins (fst s))[c := b']" "mactive (fst s') = (mactive (fst s))[c := a']"
      "gl_medium (snd s') = (gl_medium (snd s))[c := h']" "same_small s s'" "same_big s s'"
      "tier_cached_bytes (fst s') + MEDIUM_CLASSES ! c * (b_len (mbins (fst s) ! c) + b_len (av_bin (mactive (fst s) ! c)))
         = tier_cached_bytes (fst s) + MEDIUM_CLASSES ! c * (b_len b' + b_len (av_bin a'))"
      "cached_bytes (fst s') + tier_cached_bytes (fst s) = cached_bytes (fst s) + tier_cached_bytes (fst s')"
  shows "cache_inv e (upd Medium c X H) (upd Medium c Y D) s'"
proof -
  have l: "length (mbins (fst s)) = NUM_MEDIUM" "length (mactive (fst s)) = NUM_MEDIUM" "length (gl_medium (snd s)) = NUM_MEDIUM"
    using inv by (simp_all add: cache_inv_def shape_ok_def)
  have "medium_ok e c' (upd Medium c X H Medium c') (upd Medium c Y D Medium c') s'" if "c' < NUM_MEDIUM" for c'
    using that inv b c l by (cases "c' = c") (auto simp: cache_inv_def medium_ok_def s')
  moreover have "bytes_ok (fst s')"
    using inv s'(4-7) weigh_update [of c MEDIUM_CLASSES "lens_of (mbins (fst s))" "b_len b'"]
      weigh_update [of c MEDIUM_CLASSES "active_lens (mactive (fst s))" "b_len (av_bin a')"] c l
    by (simp add: cache_inv_def bytes_ok_def actual_tier_bytes_def same_small_def same_big_def s'(1,2) map_update algebra_simps)
  ultimately show ?thesis
    using inv s'(4,5) by (simp add: cache_inv_def shape_ok_def same_small_def same_big_def s'(1-3) small_ok_def big_ok_def)
qed

lemma cache_kept_medium:
  assumes "c < length (gl_medium (snd s))" "same_small s s'" "same_big s s'" "gl_medium (snd s') = (gl_medium (snd s))[c := h']"
    "kept (H Medium c) (words (gl_medium (snd s) ! c)) (D Medium c) (words h') Y"
  shows "cache_kept H s D s' (upd Medium c Y D)"
  unfolding cache_kept_def
proof (intro allI)
  fix t c'
  show "kept (H t c') (tier_words t c' (snd s)) (D t c') (tier_words t c' (snd s')) (upd Medium c Y D t c')"
    using assms by (cases t; cases "c' = c") (simp_all add: same_small_def same_big_def)
qed

lemma cache_inv_big:
  assumes inv: "cache_inv e H D s" and c: "c < NUM_BIG"
    and b: "pair_state (big_st e c) (ce_big_at e) h' b' (av_span a') (av_bin a') X Y" and sp: "b_len (av_bin a') \<noteq> 0 \<longrightarrow> av_span a' \<noteq> null"
    and s': "bigbins (fst s') = (bigbins (fst s))[c := b']" "bactive (fst s') = (bactive (fst s))[c := a']"
      "gl_big (snd s') = (gl_big (snd s))[c := h']" "same_small s s'" "same_medium s s'"
      "tier_cached_bytes (fst s') + BIG_CLASSES ! c * (b_len (bigbins (fst s) ! c) + b_len (av_bin (bactive (fst s) ! c)))
         = tier_cached_bytes (fst s) + BIG_CLASSES ! c * (b_len b' + b_len (av_bin a'))"
      "cached_bytes (fst s') + tier_cached_bytes (fst s) = cached_bytes (fst s) + tier_cached_bytes (fst s')"
  shows "cache_inv e (upd Big c X H) (upd Big c Y D) s'"
proof -
  have l: "length (bigbins (fst s)) = NUM_BIG" "length (bactive (fst s)) = NUM_BIG" "length (gl_big (snd s)) = NUM_BIG"
    using inv by (simp_all add: cache_inv_def shape_ok_def)
  have "big_ok e c' (upd Big c X H Big c') (upd Big c Y D Big c') s'" if "c' < NUM_BIG" for c'
    using that inv b sp c l by (cases "c' = c") (auto simp: cache_inv_def big_ok_def s')
  moreover have "bytes_ok (fst s')"
    using inv s'(4-7) weigh_update [of c BIG_CLASSES "lens_of (bigbins (fst s))" "b_len b'"]
      weigh_update [of c BIG_CLASSES "active_lens (bactive (fst s))" "b_len (av_bin a')"] c l
    by (simp add: cache_inv_def bytes_ok_def actual_tier_bytes_def same_small_def same_medium_def s'(1,2) map_update algebra_simps)
  ultimately show ?thesis
    using inv s'(4,5) by (simp add: cache_inv_def shape_ok_def same_small_def same_medium_def s'(1-3) small_ok_def medium_ok_def)
qed

lemma cache_kept_big:
  assumes "c < length (gl_big (snd s))" "same_small s s'" "same_medium s s'" "gl_big (snd s') = (gl_big (snd s))[c := h']"
    "kept (H Big c) (words (gl_big (snd s) ! c)) (D Big c) (words h') Y"
  shows "cache_kept H s D s' (upd Big c Y D)"
  unfolding cache_kept_def
proof (intro allI)
  fix t c'
  show "kept (H t c') (tier_words t c' (snd s)) (D t c') (tier_words t c' (snd s')) (upd Big c Y D t c')"
    using assms by (cases t; cases "c' = c") (simp_all add: same_small_def same_medium_def)
qed


section \<open>Flushing\<close>

text \<open>Besides the blocks that go back, a flush changes nothing, and no bin grows.\<close>

abbreviation unflushed :: "cache_state \<Rightarrow> _" where
  "unflushed s \<equiv> ((budget (fst s), budget_epoch (fst s), tc_tid (fst s), foreign_bytes (fst s), exit_armed (fst s),
     retired_reclaimed (fst s), tc_stash (fst s)),
     (gl_next_tid (snd s), gl_budget (snd s), gl_epoch (snd s), gl_retired (snd s), gl_ready (snd s), gl_regions (snd s)))"

definition lens_le :: "thread_cache \<Rightarrow> thread_cache \<Rightarrow> bool" where
  "lens_le tc' tc \<longleftrightarrow> (\<forall>c. b_len (tc_bins tc' ! c) \<le> b_len (tc_bins tc ! c) \<and> b_len (mbins tc' ! c) \<le> b_len (mbins tc ! c)
     \<and> b_len (av_bin (mactive tc' ! c)) \<le> b_len (av_bin (mactive tc ! c)) \<and> b_len (bigbins tc' ! c) \<le> b_len (bigbins tc ! c)
     \<and> b_len (av_bin (bactive tc' ! c)) \<le> b_len (av_bin (bactive tc ! c)))"

definition shrinks :: "cache_state \<Rightarrow> cache_state \<Rightarrow> bool" where
  "shrinks s s' \<longleftrightarrow> unflushed s' = unflushed s \<and> lens_le (fst s') (fst s)"

lemma shrinks_refl [simp]: "shrinks s s"
  by (simp add: shrinks_def lens_le_def)

lemma lens_le_trans: "lens_le a b \<Longrightarrow> lens_le b c \<Longrightarrow> lens_le a c"
  unfolding lens_le_def by (blast intro: order_trans)

lemma shrinks_trans: "shrinks s s1 \<Longrightarrow> shrinks s1 s2 \<Longrightarrow> shrinks s s2"
  unfolding shrinks_def by (metis lens_le_trans)

lemma nth_update_le: "f x \<le> f (xs ! i) \<Longrightarrow> f (xs[i := x] ! j) \<le> (f (xs ! j) :: nat)"
  by (cases "i = j"; cases "i < length xs") (simp_all add: not_less list_update_beyond)

definition flushed :: "cache_env \<Rightarrow> blocks \<Rightarrow> cache_state \<Rightarrow> blocks \<Rightarrow> cache_state \<Rightarrow> bool" where
  "flushed e H s D s' \<longleftrightarrow> (\<exists>D'. cache_inv e H D' s' \<and> cache_kept H s D s' D') \<and> shrinks s s'"

lemmas sames = same_small_def same_medium_def same_big_def

lemma flush_bin_ok:
  assumes inv: "cache_inv e H D s" and c: "c < NUM_CLASSES"
  shows "\<exists>s'. flush_bin e c n s = Some s' \<and> flushed e H s D s' \<and> b_len (tc_bins (fst s') ! c) = min (b_len (tc_bins (fst s) ! c)) n
    \<and> cached_bytes (fst s') + CLASSES ! c * (b_len (tc_bins (fst s) ! c) - n) = cached_bytes (fst s)"
proof (cases "b_len (tc_bins (fst s) ! c) \<le> n")
  case True
  then show ?thesis using inv by (auto simp: flush_bin_def flushed_def intro!: exI [of _ D])
next
  case False
  let ?b = "tc_bins (fst s) ! c" and ?h = "gl_small (snd s) ! c"
  have l: "length (tc_bins (fst s)) = NUM_CLASSES" "length (gl_small (snd s)) = NUM_CLASSES"
    using inv by (simp_all add: cache_inv_def shape_ok_def)
  have "bin_state (small_st e c) ?h ?b (H Small c) (D Small c)" using inv c by (simp add: cache_inv_def small_ok_def)
  from smalls.bin_state_flush [OF this, of "ce_in_arena e" n] obtain h' b' D' where
    f: "flush_to (small_bins (ce_purge e) (ce_in_arena e)) n ?h ?b = Some (h', b', b_len ?b - min (b_len ?b) n)"
    "b_len b' = min (b_len ?b) n" "bin_state (small_st e c) h' b' (H Small c) D'"
    "kept (H Small c) (words ?h) (D Small c) (words h') D'"
    by blast
  define s' where "s' = less_bytes ((b_len ?b - n) * CLASSES ! c) (set_small c (h', b') s)"
  have r: "flush_bin e c n s = Some s'" using False f(1) by (simp add: flush_bin_def s'_def)
  have bytes: "CLASSES ! c * b_len ?b \<le> cached_bytes (fst s)"
    using inv weigh_part [of c CLASSES "lens_of (tc_bins (fst s))"] c l by (simp add: cache_inv_def bytes_ok_def)
  have same: "same_medium s s'" "same_big s s'" by (simp_all add: s'_def sames less_bytes_def set_small_def)
  have cb: "cached_bytes (fst s') + CLASSES ! c * (b_len ?b - n) = cached_bytes (fst s)"
    using bytes diff_mult_distrib2 [of "CLASSES ! c" "b_len ?b" n]
    by (simp add: s'_def less_bytes_def set_small_def mult.commute)
  have cb2: "cached_bytes (fst s') + CLASSES ! c * b_len ?b = cached_bytes (fst s) + CLASSES ! c * b_len b'"
    using removed_bytes [OF _ cb] f(2) False by simp
  have "cache_inv e (upd Small c (H Small c) H) (upd Small c D' D) s'"
    by (rule cache_inv_small [OF inv c f(3) _ _ same _ cb2]) (simp_all add: s'_def less_bytes_def set_small_def)
  moreover have "cache_kept H s D s' (upd Small c D' D)"
    by (intro cache_kept_small [of c s s' h'] same f(4)) (use c l in \<open>simp_all add: s'_def less_bytes_def set_small_def\<close>)
  moreover have "shrinks s s'"
    using f(2) by (auto simp: s'_def less_bytes_def set_small_def shrinks_def lens_le_def intro!: nth_update_le [where f = b_len])
  moreover have "b_len (tc_bins (fst s') ! c) = min (b_len ?b) n"
    using f(2) c l by (simp add: s'_def less_bytes_def set_small_def)
  ultimately show ?thesis using r cb unfolding flushed_def by auto
qed


lemma flush_mbin_ok:
  assumes inv: "cache_inv e H D s" and c: "c < NUM_MEDIUM"
  shows "\<exists>s'. flush_mbin e c n s = Some s' \<and> flushed e H s D s' \<and> b_len (mbins (fst s') ! c) = min (b_len (mbins (fst s) ! c)) n
    \<and> cached_bytes (fst s') + MEDIUM_CLASSES ! c * (b_len (mbins (fst s) ! c) - n) = cached_bytes (fst s)"
proof (cases "b_len (mbins (fst s) ! c) \<le> n")
  case True
  then show ?thesis using inv by (auto simp: flush_mbin_def flushed_def intro!: exI [of _ D])
next
  case False
  let ?b = "mbins (fst s) ! c" and ?h = "gl_medium (snd s) ! c" and ?a = "mactive (fst s) ! c"
  have l: "length (mbins (fst s)) = NUM_MEDIUM" "length (mactive (fst s)) = NUM_MEDIUM" "length (gl_medium (snd s)) = NUM_MEDIUM"
    using inv by (simp_all add: cache_inv_def shape_ok_def)
  have ok: "medium_ok e c (H Medium c) (D Medium c) s" using inv c by (simp add: cache_inv_def)
  then have "pair_state (medium_st e c) (ce_span_at e) ?h ?b (av_span ?a) (av_bin ?a) (H Medium c) (D Medium c)" by (simp add: medium_ok_def)
  from mediums.pair_flush_bin [unfolded bt_owner_tiers, OF this] obtain h' b' D' where
    f: "flush_to (medium_bins (ce_in_arena e) (ce_span_purge e) (ce_span_at e) c) n ?h ?b = Some (h', b', b_len ?b - min (b_len ?b) n)"
    "b_len b' = min (b_len ?b) n" "pair_state (medium_st e c) (ce_span_at e) h' b' (av_span ?a) (av_bin ?a) (H Medium c) D'"
    "kept (H Medium c) (words ?h) (D Medium c) (words h') D'"
    by blast
  define s' where "s' = less_tier_bytes ((b_len ?b - n) * MEDIUM_CLASSES ! c) (set_mbin c (h', b') s)"
  have r: "flush_mbin e c n s = Some s'" using False f(1) by (simp add: flush_mbin_def s'_def)
  have bytes: "MEDIUM_CLASSES ! c * b_len ?b \<le> tier_cached_bytes (fst s)" "tier_cached_bytes (fst s) \<le> cached_bytes (fst s)"
    using inv weigh_part [of c MEDIUM_CLASSES "lens_of (mbins (fst s))"] c l by (simp_all add: cache_inv_def bytes_ok_def actual_tier_bytes_def)
  have same: "same_small s s'" "same_big s s'" by (simp_all add: s'_def sames less_tier_bytes_def set_mbin_def)
  have cb: "cached_bytes (fst s') + MEDIUM_CLASSES ! c * (b_len ?b - n) = cached_bytes (fst s)"
    "tier_cached_bytes (fst s') + MEDIUM_CLASSES ! c * (b_len ?b - n) = tier_cached_bytes (fst s)"
    using bytes diff_mult_distrib2 [of "MEDIUM_CLASSES ! c" "b_len ?b" n]
    by (simp_all add: s'_def less_tier_bytes_def set_mbin_def mult.commute)
  have cb2: "tier_cached_bytes (fst s') + MEDIUM_CLASSES ! c * (b_len ?b + b_len (av_bin ?a))
      = tier_cached_bytes (fst s) + MEDIUM_CLASSES ! c * (b_len b' + b_len (av_bin ?a))"
    using removed_bytes [OF _ cb(2)] f(2) False by (simp add: distrib_left)
  have "cache_inv e (upd Medium c (H Medium c) H) (upd Medium c D' D) s'"
    by (rule cache_inv_medium [OF inv c f(3) _ _ _ same cb2])
       (use c l cb ok in \<open>simp_all add: s'_def less_tier_bytes_def set_mbin_def medium_ok_def\<close>)
  moreover have "cache_kept H s D s' (upd Medium c D' D)"
    by (intro cache_kept_medium [of c s s' h'] same f(4)) (use c l in \<open>simp_all add: s'_def less_tier_bytes_def set_mbin_def\<close>)
  moreover have "shrinks s s'"
    using f(2) by (auto simp: s'_def less_tier_bytes_def set_mbin_def shrinks_def lens_le_def intro!: nth_update_le [where f = b_len])
  moreover have "b_len (mbins (fst s') ! c) = min (b_len ?b) n"
    using f(2) c l by (simp add: s'_def less_tier_bytes_def set_mbin_def)
  ultimately show ?thesis using r cb(1) unfolding flushed_def by auto
qed

lemma flush_bbin_ok:
  assumes inv: "cache_inv e H D s" and c: "c < NUM_BIG"
  shows "\<exists>s'. flush_bbin e c n s = Some s' \<and> flushed e H s D s' \<and> b_len (bigbins (fst s') ! c) = min (b_len (bigbins (fst s) ! c)) n
    \<and> cached_bytes (fst s') + BIG_CLASSES ! c * (b_len (bigbins (fst s) ! c) - n) = cached_bytes (fst s)"
proof (cases "b_len (bigbins (fst s) ! c) \<le> n")
  case True
  then show ?thesis using inv by (auto simp: flush_bbin_def flushed_def intro!: exI [of _ D])
next
  case False
  let ?b = "bigbins (fst s) ! c" and ?h = "gl_big (snd s) ! c" and ?a = "bactive (fst s) ! c"
  have l: "length (bigbins (fst s)) = NUM_BIG" "length (bactive (fst s)) = NUM_BIG" "length (gl_big (snd s)) = NUM_BIG"
    using inv by (simp_all add: cache_inv_def shape_ok_def)
  have ok: "big_ok e c (H Big c) (D Big c) s" using inv c by (simp add: cache_inv_def)
  then have "pair_state (big_st e c) (ce_big_at e) ?h ?b (av_span ?a) (av_bin ?a) (H Big c) (D Big c)" by (simp add: big_ok_def)
  from bigs.pair_flush_bin [unfolded bt_owner_tiers, OF this] obtain h' b' D' where
    f: "flush_to (big_bins (ce_in_arena e) (ce_span_purge e) (ce_big_at e)) n ?h ?b = Some (h', b', b_len ?b - min (b_len ?b) n)"
    "b_len b' = min (b_len ?b) n" "pair_state (big_st e c) (ce_big_at e) h' b' (av_span ?a) (av_bin ?a) (H Big c) D'"
    "kept (H Big c) (words ?h) (D Big c) (words h') D'"
    by blast
  define s' where "s' = less_tier_bytes ((b_len ?b - n) * BIG_CLASSES ! c) (set_bbin c (h', b') s)"
  have r: "flush_bbin e c n s = Some s'" using False f(1) by (simp add: flush_bbin_def s'_def)
  have bytes: "BIG_CLASSES ! c * b_len ?b \<le> tier_cached_bytes (fst s)" "tier_cached_bytes (fst s) \<le> cached_bytes (fst s)"
    using inv weigh_part [of c BIG_CLASSES "lens_of (bigbins (fst s))"] c l by (simp_all add: cache_inv_def bytes_ok_def actual_tier_bytes_def)
  have same: "same_small s s'" "same_medium s s'" by (simp_all add: s'_def sames less_tier_bytes_def set_bbin_def)
  have cb: "cached_bytes (fst s') + BIG_CLASSES ! c * (b_len ?b - n) = cached_bytes (fst s)"
    "tier_cached_bytes (fst s') + BIG_CLASSES ! c * (b_len ?b - n) = tier_cached_bytes (fst s)"
    using bytes diff_mult_distrib2 [of "BIG_CLASSES ! c" "b_len ?b" n]
    by (simp_all add: s'_def less_tier_bytes_def set_bbin_def mult.commute)
  have cb2: "tier_cached_bytes (fst s') + BIG_CLASSES ! c * (b_len ?b + b_len (av_bin ?a))
      = tier_cached_bytes (fst s) + BIG_CLASSES ! c * (b_len b' + b_len (av_bin ?a))"
    using removed_bytes [OF _ cb(2)] f(2) False by (simp add: distrib_left)
  have "cache_inv e (upd Big c (H Big c) H) (upd Big c D' D) s'"
    by (rule cache_inv_big [OF inv c f(3) _ _ _ _ same cb2])
       (use c l cb ok in \<open>simp_all add: s'_def less_tier_bytes_def set_bbin_def big_ok_def\<close>)
  moreover have "cache_kept H s D s' (upd Big c D' D)"
    by (intro cache_kept_big [of c s s' h'] same f(4)) (use c l in \<open>simp_all add: s'_def less_tier_bytes_def set_bbin_def\<close>)
  moreover have "shrinks s s'"
    using f(2) by (auto simp: s'_def less_tier_bytes_def set_bbin_def shrinks_def lens_le_def intro!: nth_update_le [where f = b_len])
  moreover have "b_len (bigbins (fst s') ! c) = min (b_len ?b) n"
    using f(2) c l by (simp add: s'_def less_tier_bytes_def set_bbin_def)
  ultimately show ?thesis using r cb(1) unfolding flushed_def by auto
qed


text \<open>Releasing one run is the release of a batch of one.\<close>

lemma medium_release_single:
  assumes "bt_give (medium_bins in_arena purge span_at c) [k] h = Some h'"
  shows "medium_release in_arena c purge (rc_page k) (rc_head k) (rc_tail k) (rc_n k) h = h'"
  using assms
  by (auto simp: medium_bins_def medium_give_def medium_release_many_def medium_release_def medium_release_blocks_def
      to_mchunk_def const_simps split: prod.splits)

lemma big_release_single:
  assumes "bt_give (big_bins in_arena purge span_at) [k] h = Some h'"
  shows "big_release in_arena purge (rc_page k) (rc_head k) (rc_n k) h = Some h'"
  using assms by (simp add: big_bins_def split: option.splits)

lemma flush_active_medium_ok:
  assumes inv: "cache_inv e H D s" and c: "c < NUM_MEDIUM"
  shows "\<exists>s'. flush_active_medium e c s = Some s' \<and> flushed e H s D s' \<and> b_len (av_bin (mactive (fst s') ! c)) = 0
    \<and> cached_bytes (fst s') + MEDIUM_CLASSES ! c * b_len (av_bin (mactive (fst s) ! c)) = cached_bytes (fst s)"
proof -
  let ?b = "mbins (fst s) ! c" and ?h = "gl_medium (snd s) ! c" and ?a = "mactive (fst s) ! c"
  have l: "length (mbins (fst s)) = NUM_MEDIUM" "length (mactive (fst s)) = NUM_MEDIUM" "length (gl_medium (snd s)) = NUM_MEDIUM"
    using inv by (simp_all add: cache_inv_def shape_ok_def)
  have ok: "medium_ok e c (H Medium c) (D Medium c) s" using inv c by (simp add: cache_inv_def)
  then have pr: "pair_state (medium_st e c) (ce_span_at e) ?h ?b (av_span ?a) (av_bin ?a) (H Medium c) (D Medium c)" by (simp add: medium_ok_def)
  show ?thesis
  proof (cases "b_len (av_bin ?a) = 0")
  case True
  then show ?thesis using inv by (auto simp: flush_active_medium_def flushed_def Let_def intro!: exI [of _ D])
  next
  case False
  from mediums.pair_give_active [unfolded bt_owner_tiers, OF pr this, where sp' = 0]
  obtain tail h' D' where g: "find_tail (words ?h) (b_head (av_bin ?a)) = Some tail"
    "bt_give (medium_bins (ce_in_arena e) (ce_span_purge e) (ce_span_at e) c) [\<lparr>rc_page = av_span ?a, rc_head = b_head (av_bin ?a), rc_tail = tail, rc_n = b_len (av_bin ?a)\<rparr>] ?h = Some h'"
    "pair_state (medium_st e c) (ce_span_at e) h' ?b 0 bin_new (H Medium c) D'" "kept (H Medium c) (words ?h) (D Medium c) (words h') D'"
    by blast
  have rel: "medium_release (ce_in_arena e) c (ce_span_purge e) (av_span ?a) (b_head (av_bin ?a)) tail (b_len (av_bin ?a)) ?h = h'"
    using medium_release_single [OF g(2)] by simp
  have hd: "b_head (av_bin ?a) \<noteq> null" using pr False by (rule pair_state_head)
  define s' where "s' = less_tier_bytes (MEDIUM_CLASSES ! c * b_len (av_bin ?a)) (set_mactive c (h', active_new) s)"
  have r: "flush_active_medium e c s = Some s'"
    using False hd g(1) rel by (simp add: flush_active_medium_def Let_def s'_def)
  have bytes: "MEDIUM_CLASSES ! c * b_len (av_bin ?a) \<le> tier_cached_bytes (fst s)" "tier_cached_bytes (fst s) \<le> cached_bytes (fst s)"
    using inv weigh_part [of c MEDIUM_CLASSES "active_lens (mactive (fst s))"] c l by (simp_all add: cache_inv_def bytes_ok_def actual_tier_bytes_def)
  have same: "same_small s s'" "same_big s s'" by (simp_all add: s'_def sames less_tier_bytes_def set_mactive_def)
  have cb: "cached_bytes (fst s') + MEDIUM_CLASSES ! c * b_len (av_bin ?a) = cached_bytes (fst s)"
    "tier_cached_bytes (fst s') + MEDIUM_CLASSES ! c * b_len (av_bin ?a) = tier_cached_bytes (fst s)"
    using bytes by (simp_all add: s'_def less_tier_bytes_def set_mactive_def)
  have pr': "pair_state (medium_st e c) (ce_span_at e) h' ?b (av_span active_new) (av_bin active_new) (H Medium c) D'"
    using g(3) by (simp add: active_new_def)
  have "cache_inv e (upd Medium c (H Medium c) H) (upd Medium c D' D) s'"
    by (rule cache_inv_medium [OF inv c pr' _ _ _ same])
       (use c l cb in \<open>simp_all add: s'_def less_tier_bytes_def set_mactive_def active_new_def bin_new_def distrib_left\<close>)
  moreover have "cache_kept H s D s' (upd Medium c D' D)"
    by (intro cache_kept_medium [of c s s' h'] same g(4)) (use c l in \<open>simp_all add: s'_def less_tier_bytes_def set_mactive_def\<close>)
  moreover have "shrinks s s'"
    by (auto simp: s'_def less_tier_bytes_def set_mactive_def shrinks_def lens_le_def active_new_def bin_new_def
        intro!: nth_update_le [where f = "\<lambda>a. b_len (av_bin a)"])
  moreover have "b_len (av_bin (mactive (fst s') ! c)) = 0"
    using c l by (simp add: s'_def less_tier_bytes_def set_mactive_def active_new_def bin_new_def)
  ultimately show ?thesis using r cb(1) unfolding flushed_def by auto
  qed
qed

lemma flush_active_big_ok:
  assumes inv: "cache_inv e H D s" and c: "c < NUM_BIG"
  shows "\<exists>s'. flush_active_big e c s = Some s' \<and> flushed e H s D s' \<and> b_len (av_bin (bactive (fst s') ! c)) = 0
    \<and> cached_bytes (fst s') + BIG_CLASSES ! c * b_len (av_bin (bactive (fst s) ! c)) = cached_bytes (fst s)"
proof -
  let ?b = "bigbins (fst s) ! c" and ?h = "gl_big (snd s) ! c" and ?a = "bactive (fst s) ! c"
  have l: "length (bigbins (fst s)) = NUM_BIG" "length (bactive (fst s)) = NUM_BIG" "length (gl_big (snd s)) = NUM_BIG"
    using inv by (simp_all add: cache_inv_def shape_ok_def)
  have ok: "big_ok e c (H Big c) (D Big c) s" using inv c by (simp add: cache_inv_def)
  then have pr: "pair_state (big_st e c) (ce_big_at e) ?h ?b (av_span ?a) (av_bin ?a) (H Big c) (D Big c)" by (simp add: big_ok_def)
  show ?thesis
  proof (cases "b_len (av_bin ?a) = 0")
  case True
  define s' where "s' = set_bactive c (?h, active_new) s"
  have a: "av_bin ?a = bin_new" using ok True by (auto simp: big_ok_def dest: pair_state_empty(2))
  have r: "flush_active_big e c s = Some s'" using True by (simp add: flush_active_big_def Let_def s'_def)
  have "pair_state (big_st e c) (ce_big_at e) ?h (bigbins (fst s) ! c) (av_span active_new) (av_bin active_new) (H Big c) (D Big c)"
    using ok by (simp add: big_ok_def a active_new_def pair_state_new)
  from cache_inv_big [OF inv c this, of s'] have "cache_inv e H D s'"
    using c l a by (simp add: s'_def set_bactive_def sames active_new_def bin_new_def)
  moreover have "snd s' = snd s" using c l by (simp add: s'_def set_bactive_def)
  then have "cache_kept H s D s' D" by (simp add: cache_kept_def)
  moreover have "shrinks s s'"
    by (auto simp: s'_def set_bactive_def shrinks_def lens_le_def active_new_def bin_new_def
        intro!: nth_update_le [where f = "\<lambda>a. b_len (av_bin a)"])
  moreover have "b_len (av_bin (bactive (fst s') ! c)) = 0" using c l by (simp add: s'_def set_bactive_def active_new_def bin_new_def)
  moreover have "cached_bytes (fst s') = cached_bytes (fst s)" by (simp add: s'_def set_bactive_def)
  ultimately show ?thesis using r True unfolding flushed_def by auto
  next
  case False
  from bigs.pair_give_active [unfolded bt_owner_tiers, OF pr this, where in_arena = "ce_in_arena e" and sp' = 0]
  obtain tail h' D' where g: "find_tail (words ?h) (b_head (av_bin ?a)) = Some tail"
    "bt_give (big_bins (ce_in_arena e) (ce_span_purge e) (ce_big_at e)) [\<lparr>rc_page = av_span ?a, rc_head = b_head (av_bin ?a), rc_tail = tail, rc_n = b_len (av_bin ?a)\<rparr>] ?h = Some h'"
    "pair_state (big_st e c) (ce_big_at e) h' ?b 0 bin_new (H Big c) D'" "kept (H Big c) (words ?h) (D Big c) (words h') D'"
    by blast
  have rel: "big_release (ce_in_arena e) (ce_span_purge e) (av_span ?a) (b_head (av_bin ?a)) (b_len (av_bin ?a)) ?h = Some h'"
    using big_release_single [OF g(2)] by simp
  have hd: "b_head (av_bin ?a) \<noteq> null" using pr False by (rule pair_state_head)
  define s' where "s' = less_tier_bytes (BIG_CLASSES ! c * b_len (av_bin ?a)) (set_bactive c (h', active_new) s)"
  have r: "flush_active_big e c s = Some s'"
    using False hd g(1) rel ok by (simp add: flush_active_big_def Let_def s'_def big_ok_def)
  have bytes: "BIG_CLASSES ! c * b_len (av_bin ?a) \<le> tier_cached_bytes (fst s)" "tier_cached_bytes (fst s) \<le> cached_bytes (fst s)"
    using inv weigh_part [of c BIG_CLASSES "active_lens (bactive (fst s))"] c l by (simp_all add: cache_inv_def bytes_ok_def actual_tier_bytes_def)
  have same: "same_small s s'" "same_medium s s'" by (simp_all add: s'_def sames less_tier_bytes_def set_bactive_def)
  have cb: "cached_bytes (fst s') + BIG_CLASSES ! c * b_len (av_bin ?a) = cached_bytes (fst s)"
    "tier_cached_bytes (fst s') + BIG_CLASSES ! c * b_len (av_bin ?a) = tier_cached_bytes (fst s)"
    using bytes by (simp_all add: s'_def less_tier_bytes_def set_bactive_def)
  have pr': "pair_state (big_st e c) (ce_big_at e) h' ?b (av_span active_new) (av_bin active_new) (H Big c) D'"
    using g(3) by (simp add: active_new_def)
  have "cache_inv e (upd Big c (H Big c) H) (upd Big c D' D) s'"
    by (rule cache_inv_big [OF inv c pr' _ _ _ _ same])
       (use c l cb in \<open>simp_all add: s'_def less_tier_bytes_def set_bactive_def active_new_def bin_new_def distrib_left\<close>)
  moreover have "cache_kept H s D s' (upd Big c D' D)"
    by (intro cache_kept_big [of c s s' h'] same g(4)) (use c l in \<open>simp_all add: s'_def less_tier_bytes_def set_bactive_def\<close>)
  moreover have "shrinks s s'"
    by (auto simp: s'_def less_tier_bytes_def set_bactive_def shrinks_def lens_le_def active_new_def bin_new_def
        intro!: nth_update_le [where f = "\<lambda>a. b_len (av_bin a)"])
  moreover have "b_len (av_bin (bactive (fst s') ! c)) = 0"
    using c l by (simp add: s'_def less_tier_bytes_def set_bactive_def active_new_def bin_new_def)
  ultimately show ?thesis using r cb(1) unfolding flushed_def by auto
  qed
qed

end
