(* ===== verification/Cache_Trim.thy ===== *)
theory Cache_Trim
  imports Cache_Inv
begin

text \<open>
  Trimming (\<open>trim\<close>, \<open>shed\<close>): the loop ends, what it leaves is at most the target or a bounded rest it never
  flushes, and it gives back only blocks of the cache.
\<close>

section \<open>The scan for the largest bin\<close>

lemma pick_largest_spec:
  assumes "pick_largest thr sizes lens js best = r"
    "case fst best of None \<Rightarrow> snd best = 0 | Some c \<Rightarrow> c < n \<and> thr < lens ! c \<and> snd best = lens ! c * sizes ! c \<and> 0 < snd best"
    "\<forall>i \<in> set js. i < n"
  shows "(case fst r of None \<Rightarrow> snd r = 0 | Some c \<Rightarrow> c < n \<and> thr < lens ! c \<and> snd r = lens ! c * sizes ! c \<and> 0 < snd r)
    \<and> snd best \<le> snd r \<and> (\<forall>i \<in> set js. thr < lens ! i \<longrightarrow> lens ! i * sizes ! i \<le> snd r)"
  using assms
proof (induction js arbitrary: best)
  case (Cons i js)
  let ?b = "if thr < lens ! i \<and> snd best < lens ! i * sizes ! i then (Some i, lens ! i * sizes ! i) else best"
  have "pick_largest thr sizes lens js ?b = r" using Cons.prems(1) by simp
  moreover have "case fst ?b of None \<Rightarrow> snd ?b = 0 | Some c \<Rightarrow> c < n \<and> thr < lens ! c \<and> snd ?b = lens ! c * sizes ! c \<and> 0 < snd ?b"
    using Cons.prems(2,3) by (auto simp del: nat_0_less_mult_iff)
  ultimately have i: "(case fst r of None \<Rightarrow> snd r = 0 | Some c \<Rightarrow> c < n \<and> thr < lens ! c \<and> snd r = lens ! c * sizes ! c \<and> 0 < snd r)
    \<and> snd ?b \<le> snd r \<and> (\<forall>i \<in> set js. thr < lens ! i \<longrightarrow> lens ! i * sizes ! i \<le> snd r)"
    by (rule Cons.IH) (use Cons.prems(3) in simp)
  then show ?case by (auto split: if_splits)
qed simp

lemma largest_some:
  assumes "fst (largest thr sizes lens) = Some c"
  shows "c < length sizes" "thr < lens ! c" "0 < lens ! c * sizes ! c"
  using pick_largest_spec [of thr sizes lens "[0..<length sizes]" "(None, 0)" "largest thr sizes lens" "length sizes"] assms
  by (auto simp: largest_def)

lemma largest_none:
  assumes "fst (largest thr sizes lens) = None" "c < length sizes" "\<forall>x \<in> set sizes. 0 < x"
  shows "lens ! c \<le> thr"
proof (rule ccontr)
  assume "\<not> lens ! c \<le> thr"
  moreover have "0 < sizes ! c" using assms(2,3) by simp
  ultimately show False
    using pick_largest_spec [of thr sizes lens "[0..<length sizes]" "(None, 0)" "largest thr sizes lens" "length sizes"] assms(1,2)
    by (auto simp: largest_def)
qed

lemma largest_none_bytes: "fst (largest thr sizes lens) = None \<Longrightarrow> snd (largest thr sizes lens) = 0"
  using pick_largest_spec [of thr sizes lens "[0..<length sizes]" "(None, 0)" "largest thr sizes lens" "length sizes"]
  by (auto simp: largest_def)

lemma largest_some_bytes: "fst (largest thr sizes lens) = Some c \<Longrightarrow> 0 < snd (largest thr sizes lens)"
  using pick_largest_spec [of thr sizes lens "[0..<length sizes]" "(None, 0)" "largest thr sizes lens" "length sizes"]
  by (auto simp: largest_def)

section \<open>One turn\<close>

lemma flushed_trans:
  assumes "flushed e H s D s1" "\<And>D1. cache_inv e H D1 s1 \<Longrightarrow> flushed e H s1 D1 s2"
  shows "flushed e H s D s2"
  using assms unfolding flushed_def by (blast intro: cache_kept_trans shrinks_trans)

text \<open>What the loop never flushes: small bins of up to one refill batch.\<close>

definition drained :: "thread_cache \<Rightarrow> bool" where
  "drained tc \<longleftrightarrow> (\<forall>c < NUM_CLASSES. b_len (tc_bins tc ! c) \<le> REFILL_BATCH)
     \<and> (\<forall>c < NUM_MEDIUM. b_len (mbins tc ! c) = 0 \<and> b_len (av_bin (mactive tc ! c)) = 0)
     \<and> (\<forall>c < NUM_BIG. b_len (bigbins tc ! c) = 0 \<and> b_len (av_bin (bactive tc ! c)) = 0)"

definition TRIM_FLOOR :: nat where "TRIM_FLOOR = (\<Sum>c<NUM_CLASSES. CLASSES ! c * REFILL_BATCH)"

lemma weigh_zero: "length lens = length sizes \<Longrightarrow> \<forall>c < length sizes. lens ! c = 0 \<Longrightarrow> weigh sizes lens = 0"
  by (simp add: weigh_def)

lemma drained_bytes:
  assumes inv: "cache_inv e H D s" and d: "drained (fst s)"
  shows "cached_bytes (fst s) \<le> TRIM_FLOOR"
proof -
  have l: "length (tc_bins (fst s)) = NUM_CLASSES" "length (mbins (fst s)) = NUM_MEDIUM" "length (mactive (fst s)) = NUM_MEDIUM"
    "length (bigbins (fst s)) = NUM_BIG" "length (bactive (fst s)) = NUM_BIG"
    using inv by (simp_all add: cache_inv_def shape_ok_def)
  have "actual_tier_bytes (fst s) = 0" using d l by (simp add: actual_tier_bytes_def drained_def weigh_zero)
  moreover have "weigh CLASSES (lens_of (tc_bins (fst s))) \<le> TRIM_FLOOR"
    unfolding weigh_def TRIM_FLOOR_def CLASSES_length by (rule sum_mono) (use d l in \<open>simp add: drained_def\<close>)
  ultimately show ?thesis using inv by (simp add: cache_inv_def bytes_ok_def)
qed

lemma class_sizes_pos: "\<forall>x \<in> set CLASSES. 0 < x" "\<forall>x \<in> set MEDIUM_CLASSES. 0 < x" "\<forall>x \<in> set BIG_CLASSES. 0 < x"
  by (simp_all add: CLASSES_eq MEDIUM_CLASSES_eq BIG_CLASSES_eq)

lemma flush_half:
  assumes "0 < n" "0 < (k :: nat)" "x' + k * (n - n div 2) = x"
  shows "x' < x"
proof -
  have "0 < k * (n - n div 2)" using assms(1,2) by simp
  then show ?thesis using assms(3) by linarith
qed

lemma trim_step_ok:
  assumes inv: "cache_inv e H D s"
  shows "trim_step e s = Some None \<and> drained (fst s)
    \<or> (\<exists>s'. trim_step e s = Some (Some s') \<and> flushed e H s D s' \<and> cached_bytes (fst s') < cached_bytes (fst s))"
proof -
  let ?tc = "fst s"
  have l: "length (tc_bins ?tc) = NUM_CLASSES" "length (mbins ?tc) = NUM_MEDIUM" "length (mactive ?tc) = NUM_MEDIUM"
    "length (bigbins ?tc) = NUM_BIG" "length (bactive ?tc) = NUM_BIG"
    using inv by (simp_all add: cache_inv_def shape_ok_def)
  let ?small = "largest REFILL_BATCH CLASSES (lens_of (tc_bins ?tc))"
  let ?mact = "largest 0 MEDIUM_CLASSES (active_lens (mactive ?tc))"
  let ?med = "largest 0 MEDIUM_CLASSES (lens_of (mbins ?tc))"
  let ?bact = "largest 0 BIG_CLASSES (active_lens (bactive ?tc))"
  let ?big = "largest 0 BIG_CLASSES (lens_of (bigbins ?tc))"
  consider (small) c where "fst ?small = Some c"
    | (mact) c where "fst ?small = None" "fst ?mact = Some c"
    | (bact) c where "fst ?small = None" "fst ?mact = None" "fst ?bact = Some c"
    | (big) c where "fst ?small = None" "fst ?mact = None" "fst ?bact = None" "fst ?big = Some c" "snd ?med < snd ?big"
    | (med) c where "fst ?small = None" "fst ?mact = None" "fst ?bact = None" "fst ?big = None \<or> \<not> snd ?med < snd ?big" "fst ?med = Some c"
    | (none) "fst ?small = None" "fst ?mact = None" "fst ?bact = None" "fst ?big = None \<or> \<not> snd ?med < snd ?big" "fst ?med = None"
    by (cases "fst ?small"; cases "fst ?mact"; cases "fst ?bact"; cases "fst ?big"; cases "fst ?med") blast+
  then show ?thesis
  proof cases
    case small
    note c = largest_some [OF small]
    from flush_bin_ok [OF inv, of c "b_len (tc_bins ?tc ! c) div 2"] c(1) obtain s' where
      f: "flush_bin e c (b_len (tc_bins ?tc ! c) div 2) s = Some s'" "flushed e H s D s'"
      "cached_bytes (fst s') + CLASSES ! c * (b_len (tc_bins ?tc ! c) - b_len (tc_bins ?tc ! c) div 2) = cached_bytes ?tc"
      by auto
    have "cached_bytes (fst s') < cached_bytes ?tc" by (rule flush_half [OF _ _ f(3)]) (use c l in auto)
    moreover have "trim_step e s = Some (Some s')" using f(1) small by (simp add: trim_step_def Let_def case_prod_unfold)
    ultimately show ?thesis using f(2) by blast
    next
    case mact
    note c = largest_some [OF mact(2)]
    from flush_active_medium_ok [OF inv, of c] c(1) obtain s' where f: "flush_active_medium e c s = Some s'" "flushed e H s D s'"
      "cached_bytes (fst s') + MEDIUM_CLASSES ! c * b_len (av_bin (mactive ?tc ! c)) = cached_bytes ?tc"
      by auto
    have "0 < MEDIUM_CLASSES ! c * b_len (av_bin (mactive ?tc ! c))" using c l by (simp add: mult.commute)
    then have "cached_bytes (fst s') < cached_bytes ?tc" using f(3) by linarith
    moreover have "trim_step e s = Some (Some s')" using f(1) mact by (simp add: trim_step_def Let_def case_prod_unfold)
    ultimately show ?thesis using f(2) by blast
    next
    case bact
    note c = largest_some [OF bact(3)]
    from flush_active_big_ok [OF inv, of c] c(1) obtain s' where f: "flush_active_big e c s = Some s'" "flushed e H s D s'"
      "cached_bytes (fst s') + BIG_CLASSES ! c * b_len (av_bin (bactive ?tc ! c)) = cached_bytes ?tc"
      by auto
    have "0 < BIG_CLASSES ! c * b_len (av_bin (bactive ?tc ! c))" using c l by (simp add: mult.commute)
    then have "cached_bytes (fst s') < cached_bytes ?tc" using f(3) by linarith
    moreover have "trim_step e s = Some (Some s')" using f(1) bact by (simp add: trim_step_def Let_def case_prod_unfold)
    ultimately show ?thesis using f(2) by blast
    next
    case big
    note c = largest_some [OF big(4)]
    from flush_bbin_ok [OF inv, of c "b_len (bigbins ?tc ! c) div 2"] c(1) obtain s' where
      f: "flush_bbin e c (b_len (bigbins ?tc ! c) div 2) s = Some s'" "flushed e H s D s'"
      "cached_bytes (fst s') + BIG_CLASSES ! c * (b_len (bigbins ?tc ! c) - b_len (bigbins ?tc ! c) div 2) = cached_bytes ?tc"
      by auto
    have "cached_bytes (fst s') < cached_bytes ?tc" by (rule flush_half [OF _ _ f(3)]) (use c l in auto)
    moreover have "trim_step e s = Some (Some s')" using f(1) big by (auto simp: trim_step_def Let_def case_prod_unfold)
    ultimately show ?thesis using f(2) by blast
  next
    case med
    note c = largest_some [OF med(5)]
    from flush_mbin_ok [OF inv, of c "b_len (mbins ?tc ! c) div 2"] c(1) obtain s' where
      f: "flush_mbin e c (b_len (mbins ?tc ! c) div 2) s = Some s'" "flushed e H s D s'"
      "cached_bytes (fst s') + MEDIUM_CLASSES ! c * (b_len (mbins ?tc ! c) - b_len (mbins ?tc ! c) div 2) = cached_bytes ?tc"
      by auto
    have "cached_bytes (fst s') < cached_bytes ?tc" by (rule flush_half [OF _ _ f(3)]) (use c l in auto)
    moreover have "trim_step e s = Some (Some s')" using f(1) med by (auto simp: trim_step_def Let_def case_prod_unfold)
    ultimately show ?thesis using f(2) by blast
  next
    case none
    have "fst ?big = None"
      using none(4,5) largest_none_bytes [OF none(5)] largest_some_bytes [of 0 BIG_CLASSES "lens_of (bigbins ?tc)"] by fastforce
    note b = this
    have "b_len (tc_bins ?tc ! c) \<le> REFILL_BATCH" if "c < NUM_CLASSES" for c
      using largest_none [OF none(1), of c] that class_sizes_pos(1) l by simp
    moreover have "b_len (av_bin (mactive ?tc ! c)) = 0" "b_len (mbins ?tc ! c) = 0" if "c < NUM_MEDIUM" for c
      using largest_none [OF none(2), of c] largest_none [OF none(5), of c] that class_sizes_pos(2) l by simp_all
    moreover have "b_len (av_bin (bactive ?tc ! c)) = 0" "b_len (bigbins ?tc ! c) = 0" if "c < NUM_BIG" for c
      using largest_none [OF none(3), of c] largest_none [OF b, of c] that class_sizes_pos(3) l by simp_all
    ultimately have "drained ?tc" by (simp add: drained_def)
    moreover have "trim_step e s = Some None" using none by (auto simp: trim_step_def Let_def case_prod_unfold)
    ultimately show ?thesis by blast
  qed
qed

section \<open>The loop\<close>

lemma trim_loop_ok:
  assumes "cache_inv e H D s"
  shows "\<exists>s'. trim_loop e target s = Some s' \<and> flushed e H s D s' \<and> (cached_bytes (fst s') \<le> target \<or> drained (fst s'))"
  using assms
proof (induction "cached_bytes (fst s)" arbitrary: s D rule: less_induct)
  case less
  have fr: "flushed e H s D s" using less.prems by (auto simp: flushed_def)
  show ?case
  proof (cases "target < cached_bytes (fst s)")
    case False
    then have "trim_loop e target s = Some s" by (subst trim_loop.simps) simp
    then show ?thesis using fr False by auto
  next
    case True
    from trim_step_ok [OF less.prems] show ?thesis
    proof (elim disjE exE conjE)
      assume "trim_step e s = Some None" "drained (fst s)"
      moreover from this True have "trim_loop e target s = Some s" by (subst trim_loop.simps) simp
      ultimately show ?thesis using fr by blast
    next
      fix s1 assume st: "trim_step e s = Some (Some s1)" "flushed e H s D s1" "cached_bytes (fst s1) < cached_bytes (fst s)"
      then have e: "trim_loop e target s = trim_loop e target s1" using True by (subst trim_loop.simps) simp
      obtain D1 where D1: "cache_inv e H D1 s1" using st(2) by (auto simp: flushed_def)
      obtain s' where s': "trim_loop e target s1 = Some s'" "cached_bytes (fst s') \<le> target \<or> drained (fst s')"
        using less.hyps [OF st(3) D1] by blast
      have "flushed e H s D s'"
      proof (rule flushed_trans [OF st(2)])
        fix D2 assume "cache_inv e H D2 s1"
        from less.hyps [OF st(3) this] s'(1) show "flushed e H s1 D2 s'" by auto
      qed
      then show ?thesis using e s' by metis
    qed
  qed
qed

section \<open>Steps that move no block\<close>

definition inert :: "cache_state \<Rightarrow> cache_state \<Rightarrow> bool" where
  "inert s s' \<longleftrightarrow> same_small s s' \<and> same_medium s s' \<and> same_big s s'
     \<and> cached_bytes (fst s') = cached_bytes (fst s) \<and> tier_cached_bytes (fst s') = tier_cached_bytes (fst s)"

lemma inert_refl [simp]: "inert s s"
  by (simp add: inert_def sames)

lemma inert_trans: "inert s s1 \<Longrightarrow> inert s1 s2 \<Longrightarrow> inert s s2"
  by (simp add: inert_def sames)

lemma inert_inv: "inert s s' \<Longrightarrow> cache_inv e H D s' = cache_inv e H D s"
  by (simp add: inert_def sames cache_inv_def shape_ok_def bytes_ok_def actual_tier_bytes_def small_ok_def medium_ok_def big_ok_def)

lemma inert_kept:
  assumes "inert s s'"
  shows "cache_kept H s D s'' D'' = cache_kept H s' D s'' D''" "cache_kept H t E s' D' = cache_kept H t E s D'"
proof -
  have w: "tier_words t c (snd s') = tier_words t c (snd s)" for t c
    using assms by (cases t) (simp_all add: inert_def sames)
  show "cache_kept H s D s'' D'' = cache_kept H s' D s'' D''" "cache_kept H t E s' D' = cache_kept H t E s D'"
    by (simp_all add: cache_kept_def w)
qed

text \<open>What every slow path does first: the exit hook is armed and the budget brought up to date.\<close>

definition settle :: "cache_env \<Rightarrow> cache_state \<Rightarrow> cache_state" where
  "settle e s = (refresh_budget (snd s) (arm_exit_hook e (snd s) (fst s)), snd s)"

lemma arm_inert: "inert s (arm_exit_hook e (snd s) (fst s), snd s)"
  by (simp add: inert_def sames arm_exit_hook_def install_exit_hook_def refresh_budget_def Let_def)

lemma settle_inert: "inert s (settle e s)"
  by (simp add: inert_def sames settle_def arm_exit_hook_def install_exit_hook_def refresh_budget_def Let_def)

lemma tid_inert: "tid s = (i, s') \<Longrightarrow> inert s s' \<and> budget (fst s') = budget (fst s)"
  by (auto simp: tid_def next_tid_def inert_def sames split: if_splits prod.splits)

section \<open>The bound\<close>

definition bounded :: "thread_cache \<Rightarrow> bool" where
  "bounded tc \<longleftrightarrow> cached_bytes tc \<le> max (3 * budget tc) TRIM_FLOOR"

lemma trim_facts:
  assumes "cache_inv e H D s"
  shows "\<exists>s' D'. trim e s = Some s' \<and> cache_inv e H D' s' \<and> cache_kept H s D s' D' \<and> shrinks (settle e s) s'
    \<and> (cached_bytes (fst s') \<le> trim_target (fst (settle e s)) \<or> drained (fst s'))"
proof -
  have "cache_inv e H D (settle e s)" using assms inert_inv [OF settle_inert] by simp
  from trim_loop_ok [OF this] obtain s' where t: "trim_loop e (trim_target (fst (settle e s))) (settle e s) = Some s'"
    "flushed e H (settle e s) D s'" "cached_bytes (fst s') \<le> trim_target (fst (settle e s)) \<or> drained (fst s')"
    by blast
  have "trim e s = Some s'" using t(1) by (simp add: trim_def settle_def Let_def)
  then show ?thesis using t(2,3) inert_kept(1) [OF settle_inert] unfolding flushed_def by blast
qed

lemma trim_bounded:
  assumes "cache_inv e H D s'" "shrinks (settle e s) s'" "cached_bytes (fst s') \<le> trim_target (fst (settle e s)) \<or> drained (fst s')"
  shows "bounded (fst s')"
proof -
  have b: "budget (fst (settle e s)) = budget (fst s')" using assms(2) by (simp add: shrinks_def)
  have "trim_target (fst (settle e s)) \<le> 3 * budget (fst s')"
    using div_le_dividend [of "budget (fst s')" 2] unfolding trim_target_def b sat_double_def by linarith
  then show ?thesis using assms(3) drained_bytes [OF assms(1)] by (auto simp: bounded_def)
qed

text \<open>The end of every free.\<close>

lemma shed_facts:
  assumes inv: "cache_inv e H D s" and keep: "\<not> p \<Longrightarrow> bounded (fst s)"
  shows "\<exists>s' D'. (if p then shed e s else Some s) = Some s' \<and> cache_inv e H D' s' \<and> cache_kept H s D s' D' \<and> bounded (fst s')"
proof (cases p)
  case True
  from trim_facts [OF inv] obtain s1 D' where t: "trim e s = Some s1" "cache_inv e H D' s1" "cache_kept H s D s1 D'"
    "shrinks (settle e s) s1" "cached_bytes (fst s1) \<le> trim_target (fst (settle e s)) \<or> drained (fst s1)"
    by blast
  let ?s = "((fst s1)\<lparr>foreign_bytes := 0\<rparr>, snd s1)"
  have i: "inert s1 ?s" by (simp add: inert_def sames)
  have "bounded (fst s1)" by (rule trim_bounded [OF t(2,4,5)])
  then have "bounded (fst ?s)" by (simp add: bounded_def)
  moreover have "cache_inv e H D' ?s" "cache_kept H s D ?s D'" using inert_inv [OF i] inert_kept(2) [OF i] t(2,3) by simp_all
  ultimately show ?thesis using True t(1) by (auto simp: shed_def)
next
  case False
  then show ?thesis using inv keep by (auto intro!: exI [of _ D])
qed

text \<open>C20 (trimming).  \<open>trim\<close> ends: every turn gives back at least one block.  Afterwards the cache holds at most
  half the budget plus what the tiers are allowed, or nothing but small bins of up to a refill batch, and the
  blocks outside the cache are as they were.\<close>

theorem trim_correct:
  assumes "cache_inv e H D s"
  shows "\<exists>s' D'. trim e s = Some s' \<and> cache_inv e H D' s' \<and> cache_kept H s D s' D'
    \<and> cached_bytes (fst s') \<le> max (trim_target (fst (settle e s))) TRIM_FLOOR
    \<and> lens_le (fst s') (fst s)"
proof -
  from trim_facts [OF assms] obtain s' D' where t: "trim e s = Some s'" "cache_inv e H D' s'" "cache_kept H s D s' D'"
    "shrinks (settle e s) s'" "cached_bytes (fst s') \<le> trim_target (fst (settle e s)) \<or> drained (fst s')"
    by blast
  have "lens_le (fst s') (fst (settle e s))" using t(4) by (simp add: shrinks_def)
  then have "lens_le (fst s') (fst s)"
    using settle_inert [of s e] by (simp add: lens_le_def inert_def sames)
  then show ?thesis using t(1-3,5) drained_bytes [OF t(2)] by auto
qed

section \<open>A new thread over empty heaps\<close>

definition globals_new :: "page_mem \<Rightarrow> span_mem \<Rightarrow> globals" where
  "globals_new m sm = \<lparr> gl_small = replicate NUM_CLASSES ((m, list_head_new), []),
     gl_medium = replicate NUM_MEDIUM ((sm, mspan_list_new), []), gl_big = replicate NUM_BIG ((sm, bspan_list_new), []),
     gl_next_tid = 1, gl_budget = DEFAULT_THREAD_CACHE_BUDGET, gl_epoch = 0,
     gl_retired = replicate RETIRED_SLOT_COUNT None, gl_ready = 0, gl_regions = [] \<rparr>"

lemma new_stores:
  "purge_ok purge \<Longrightarrow> c < NUM_CLASSES \<Longrightarrow> small_store purge c ((m, list_head_new), ef) {} {}"
  "span_purge_ok sp \<Longrightarrow> c < NUM_MEDIUM \<Longrightarrow> medium_store in_arena sp span_at c ((sm, mspan_list_new), ef') {} {}"
  "span_purge_ok sp \<Longrightarrow> c < NUM_BIG \<Longrightarrow> big_store sp span_at c ((sm, bspan_list_new), ef') {} {}"
proof -
  show "small_store purge c ((m, list_head_new), ef) {} {}" if "purge_ok purge" "c < NUM_CLASSES"
    using that class_inv_new [OF that(2)] unfolding small_store_def by (fastforce simp: class_live_def)
  have t: "t_cold_slots (medium_tier in_arena c) = MAX_COLD_SPAN_SLOTS" "t_cold_slots (big_tier c) = MAX_COLD_BIG_SPAN_SLOTS"
    by (simp_all add: medium_tier_def big_tier_def)
  have "span_store T pages cls layout span_at ((sm, span_list_new n), ef') {} {}" if "t_cold_slots T = n" for T pages cls layout n
    unfolding span_store_def fst_conv snd_conv
    by (intro exI conjI, rule span_class_inv_new [OF that]) (simp_all add: span_live_def)
  note e = this
  show "medium_store in_arena sp span_at c ((sm, mspan_list_new), ef') {} {}" if "span_purge_ok sp" "c < NUM_MEDIUM"
    using that e [OF t(1)] by (simp add: medium_store_def mspan_list_new_def)
  show "big_store sp span_at c ((sm, bspan_list_new), ef') {} {}" if "span_purge_ok sp" "c < NUM_BIG"
    using that e [OF t(2)] by (simp add: big_store_def bspan_list_new_def)
qed

lemma weigh_new: "length lens = length sizes \<Longrightarrow> set lens \<subseteq> {0} \<Longrightarrow> weigh sizes lens = 0"
  by (rule weigh_zero) (auto simp: subset_iff in_set_conv_nth)

lemma cache_inv_new:
  assumes "purge_ok (ce_purge e)" "span_purge_ok (ce_span_purge e)"
  shows "cache_inv e (\<lambda>_ _. {}) (\<lambda>_ _. {}) (thread_cache_new, globals_new m sm)"
proof -
  have w: "weigh CLASSES (replicate NUM_CLASSES 0) = 0" "weigh MEDIUM_CLASSES (replicate NUM_MEDIUM 0) = 0"
    "weigh BIG_CLASSES (replicate NUM_BIG 0) = 0"
    by (rule weigh_new; auto)+
  have "bytes_ok thread_cache_new"
    by (simp add: bytes_ok_def actual_tier_bytes_def thread_cache_new_def active_new_def bin_new_def w)
  moreover have "shape_ok (thread_cache_new, globals_new m sm)"
    by (simp add: shape_ok_def thread_cache_new_def globals_new_def)
  moreover have "small_ok e c {} {} (thread_cache_new, globals_new m sm)" if "c < NUM_CLASSES" for c
    using that new_stores(1) [OF assms(1) that] by (auto simp: small_ok_def thread_cache_new_def globals_new_def bin_state_new)
  moreover have "medium_ok e c {} {} (thread_cache_new, globals_new m sm)" if "c < NUM_MEDIUM" for c
    using that new_stores(2) [OF assms(2) that]
    by (auto simp: medium_ok_def thread_cache_new_def globals_new_def pair_state_new bin_state_new active_new_def)
  moreover have "big_ok e c {} {} (thread_cache_new, globals_new m sm)" if "c < NUM_BIG" for c
    using that new_stores(3) [OF assms(2) that]
    by (auto simp: big_ok_def thread_cache_new_def globals_new_def pair_state_new bin_state_new active_new_def) (simp add: bin_new_def)
  ultimately show ?thesis by (simp add: cache_inv_def)
qed

text \<open>Two concrete states: a fresh one, and one where the program holds a 16 KiB block.\<close>

definition first_env :: cache_env where
  "first_env = \<lparr>ce_in_arena = \<lambda>_ _. True, ce_purge = \<lambda>m _ _. (m, True, True), ce_span_purge = \<lambda>m _ _. m,
     ce_span_at = \<lambda>b. 65536, ce_big_at = \<lambda>b. 65536, ce_page = 65536, ce_medium = 65536, ce_big = 65536, ce_hook = True\<rparr>"

definition first_state :: cache_state where
  "first_state = (thread_cache_new, globals_new one_page_mem blank_spans)"

definition held_state :: cache_state where
  "held_state = (thread_cache_new, (globals_new one_page_mem blank_spans)\<lparr>gl_small :=
     (replicate NUM_CLASSES ((one_page_mem, list_head_new), []))[45 := ((one_page_mem, one_page_list), [])]\<rparr>)"

lemma first_purge: "purge_ok (ce_purge first_env)" "span_purge_ok (ce_span_purge first_env)"
  by (simp_all add: first_env_def purge_ok_def span_purge_ok_def)

lemma first_inv: "cache_inv first_env (\<lambda>_ _. {}) (\<lambda>_ _. {}) first_state"
  unfolding first_state_def by (rule cache_inv_new [OF first_purge])

lemma held_inv_env:
  assumes p: "purge_ok (ce_purge e)" "span_purge_ok (ce_span_purge e)"
  shows "cache_inv e (upd Small 45 {65584} (\<lambda>_ _. {})) (\<lambda>_ _. {}) held_state"
proof -
  have "small_store (ce_purge e) 45 ((one_page_mem, one_page_list), []) {65584} {}"
    using p(1) one_page_inv unfolding small_store_def by fastforce
  then have "bin_state (small_st e 45) ((one_page_mem, one_page_list), []) bin_new {65584} {}"
    by (auto simp: bin_state_new)
  moreover have r: "(replicate 64 bin_new)[45 := bin_new] = replicate 64 bin_new" by (simp add: list_update_same_conv)
  moreover have "cache_inv e (\<lambda>_ _. {}) (\<lambda>_ _. {}) first_state" unfolding first_state_def by (rule cache_inv_new [OF p])
  ultimately
  have "cache_inv e (upd Small 45 {65584} (\<lambda>_ _. {})) (upd Small 45 {} (\<lambda>_ _. {})) held_state"
    using cache_inv_small [of e "\<lambda>_ _. {}" "\<lambda>_ _. {}" first_state 45 "((one_page_mem, one_page_list), [])" bin_new "{65584}" "{}" held_state]
    by (simp add: first_state_def held_state_def sames thread_cache_new_def globals_new_def const_simps)
  moreover have "upd Small 45 {} (\<lambda>_ _. {}) = (\<lambda>_ _. {})" by (simp add: upd_def fun_eq_iff)
  ultimately show ?thesis by simp
qed

lemmas held_inv = held_inv_env [of first_env, OF first_purge]

theorem trim_correct_witness:
  "\<exists>s' D'. trim first_env held_state = Some s' \<and> cache_inv first_env (upd Small 45 {65584} (\<lambda>_ _. {})) D' s'"
  using trim_correct [OF held_inv] by blast

end
