(* ===== verification/Cache_Free.thy ===== *)
theory Cache_Free
  imports Cache_Trim
begin

text \<open>
  Freeing into the thread cache (\<open>dealloc\<close>, \<open>dealloc_medium\<close>, \<open>dealloc_big\<close>): the block moves from the program
  to the cache, nothing else moves but what a trim gives back, and the cache stays within its bound.
\<close>

section \<open>The small tier\<close>

lemma push_small_ok:
  assumes inv: "cache_inv e H D s" and c: "c < NUM_CLASSES" and p: "p \<in> H Small c"
  shows "cache_inv e (upd Small c (H Small c - {p}) H) (upd Small c (insert p (D Small c)) D) (push_small c p s)"
    "cache_kept (upd Small c (H Small c - {p}) H) s D (push_small c p s) (upd Small c (insert p (D Small c)) D)"
    "budget (fst (push_small c p s)) = budget (fst s)"
proof -
  let ?b = "tc_bins (fst s) ! c" and ?h = "gl_small (snd s) ! c" and ?s = "push_small c p s"
  have l: "length (tc_bins (fst s)) = NUM_CLASSES" "length (gl_small (snd s)) = NUM_CLASSES"
    using inv by (simp_all add: cache_inv_def shape_ok_def)
  have "bin_state (small_st e c) ?h ?b (H Small c) (D Small c)" using inv c by (simp add: cache_inv_def small_ok_def)
  from smalls.bin_state_push [OF this p] obtain h' b' where f: "bin_push ?h ?b p = (h', b')" "b_len b' = Suc (b_len ?b)"
    "bin_state (small_st e c) h' b' (H Small c - {p}) (insert p (D Small c))" "\<forall>a. a \<noteq> p \<longrightarrow> words h' a = words ?h a"
    by blast
  have same: "same_medium s ?s" "same_big s ?s" "tc_bins (fst ?s) = (tc_bins (fst s))[c := b']"
    "gl_small (snd ?s) = (gl_small (snd s))[c := h']"
    using f(1) by (simp_all add: sames push_small_def set_small_def more_bytes_def)
  show "cache_inv e (upd Small c (H Small c - {p}) H) (upd Small c (insert p (D Small c)) D) ?s"
    by (rule cache_inv_small [OF inv c f(3) same(3,4,1,2)])
       (use f(1,2) in \<open>simp_all add: push_small_def set_small_def more_bytes_def\<close>)
  show "cache_kept (upd Small c (H Small c - {p}) H) s D ?s (upd Small c (insert p (D Small c)) D)"
    by (rule cache_kept_small [of c s ?s h', OF _ same(1,2,4)]) (use c l f(4) in \<open>auto simp: kept_def\<close>)
  show "budget (fst ?s) = budget (fst s)" by (simp add: push_small_def set_small_def more_bytes_def)
qed

text \<open>Freeing takes the block from \<open>H\<close>, counts it as possibly dirty, and leaves the cache bounded.\<close>

definition freed :: "cache_env \<Rightarrow> tier \<Rightarrow> nat \<Rightarrow> addr \<Rightarrow> blocks \<Rightarrow> cache_state \<Rightarrow> blocks \<Rightarrow> cache_state option \<Rightarrow> bool" where
  "freed e t c p H s D r \<longleftrightarrow> (\<exists>s' D'. r = Some s' \<and> cache_inv e (upd t c (H t c - {p}) H) D' s'
     \<and> cache_kept (upd t c (H t c - {p}) H) s D s' D' \<and> bounded (fst s'))"

lemma freedI:
  assumes "cache_inv e (upd t c (H t c - {p}) H) D1 s1" "cache_kept (upd t c (H t c - {p}) H) s D s1 D1" "\<not> P \<Longrightarrow> bounded (fst s1)"
  shows "freed e t c p H s D (if P then shed e s1 else Some s1)"
  using shed_facts [OF assms(1,3)] assms(2) unfolding freed_def by (blast intro: cache_kept_trans)

lemma freed_inert: "inert s s1 \<Longrightarrow> freed e t c p H s1 D r \<Longrightarrow> freed e t c p H s D r"
  unfolding freed_def using inert_kept(1) by blast

lemma foreign_inert: "note_foreign_free c p s = (f, s') \<Longrightarrow> inert s s' \<and> budget (fst s') = budget (fst s)"
  by (auto simp: note_foreign_free_def Let_def dest: tid_inert split: if_splits prod.splits)

lemma dealloc_facts:
  assumes inv: "cache_inv e H D s" and c: "c < NUM_CLASSES" and p: "p \<in> H Small c"
  shows "freed e Small c p H s D (dealloc e p c s)"
proof (cases "small_free_is_warm (fst s)")
  case True
  let ?s = "push_small c p s"
  note q = push_small_ok [OF inv c p]
  have "freed e Small c p H s D (if should_shed_small (fst ?s) (budget (fst s)) then shed e ?s else Some ?s)"
    by (rule freedI [OF q(1,2)]) (use q(3) in \<open>auto simp: bounded_def should_shed_small_def\<close>)
  then show ?thesis using True by (simp add: dealloc_def Let_def)
next
  case False
  define s1 where "s1 = (arm_exit_hook e (snd s) (fst s), snd s)"
  obtain f s2 where s2: "(if drift_gate_open_small (fst s1) (budget (fst s1)) then note_foreign_free c p s1 else (False, s1)) = (f, s2)"
    by (metis surj_pair)
  define s3 where "s3 = (if f then ((fst s2)\<lparr>foreign_bytes := foreign_bytes (fst s2) + CLASSES ! c\<rparr>, snd s2) else s2)"
  have i12: "inert s1 s2" "budget (fst s2) = budget (fst s1)" using s2 foreign_inert by (auto split: if_splits)
  have i23: "inert s2 s3" "budget (fst s3) = budget (fst s2)" by (simp_all add: s3_def inert_def sames)
  have "inert s s1" unfolding s1_def by (rule arm_inert)
  then have i: "inert s s3" using i12(1) i23(1) inert_trans by blast
  have inv3: "cache_inv e H D s3" using inv inert_inv [OF i] by simp
  note q = push_small_ok [OF inv3 c p]
  let ?s = "push_small c p s3"
  have "freed e Small c p H s3 D (if should_shed_small (fst ?s) (budget (fst s1)) then shed e ?s else Some ?s)"
    by (rule freedI [OF q(1,2)]) (use q(3) i12 i23 in \<open>auto simp: bounded_def should_shed_small_def\<close>)
  moreover have "dealloc e p c s = (if should_shed_small (fst ?s) (budget (fst s1)) then shed e ?s else Some ?s)"
    unfolding dealloc_def dealloc_cold_def Let_def s1_def [symmetric] s2 s3_def using False by simp
  ultimately show ?thesis using freed_inert [OF i] by simp
qed


section \<open>The medium tier\<close>

definition push_medium :: "cache_env \<Rightarrow> nat \<Rightarrow> addr \<Rightarrow> cache_state \<Rightarrow> cache_state" where
  "push_medium e c p s = more_tier_bytes (MEDIUM_CLASSES ! c)
     (if active_medium_contains (fst s) p c then active_medium_dealloc p c s
      else set_mbin c (bin_push (gl_medium (snd s) ! c) (mbins (fst s) ! c) p) s)"

lemma push_medium_ok:
  assumes inv: "cache_inv e H D s" and c: "c < NUM_MEDIUM" and p: "p \<in> H Medium c" and a: "active_medium_contains (fst s) p c \<Longrightarrow> ce_span_at e p = av_span (mactive (fst s) ! c)"
  shows "cache_inv e (upd Medium c (H Medium c - {p}) H) (upd Medium c (insert p (D Medium c)) D) (push_medium e c p s)
    \<and> cache_kept (upd Medium c (H Medium c - {p}) H) s D (push_medium e c p s) (upd Medium c (insert p (D Medium c)) D)
    \<and> budget (fst (push_medium e c p s)) = budget (fst s)"
proof -
  let ?b = "mbins (fst s) ! c" and ?h = "gl_medium (snd s) ! c" and ?a = "mactive (fst s) ! c" and ?s = "push_medium e c p s"
  have l: "length (mbins (fst s)) = NUM_MEDIUM" "length (mactive (fst s)) = NUM_MEDIUM" "length (gl_medium (snd s)) = NUM_MEDIUM"
    using inv by (simp_all add: cache_inv_def shape_ok_def)
  have ok: "medium_ok e c (H Medium c) (D Medium c) s" using inv c by (simp add: cache_inv_def)
  then have pr: "pair_state (medium_st e c) (ce_span_at e) ?h ?b (av_span ?a) (av_bin ?a) (H Medium c) (D Medium c)" by (simp add: medium_ok_def)
  have same: "same_small s ?s" "same_big s ?s" "budget (fst ?s) = budget (fst s)"
    by (simp_all add: sames push_medium_def set_mbin_def set_mactive_def more_tier_bytes_def active_medium_dealloc_def case_prod_unfold Let_def)
  obtain h' b' a' where f: "pair_state (medium_st e c) (ce_span_at e) h' b' (av_span a') (av_bin a') (H Medium c - {p}) (insert p (D Medium c))"
    "kept (H Medium c - {p}) (words ?h) (D Medium c) (words h') (insert p (D Medium c))"
    "b_len b' + b_len (av_bin a') = Suc (b_len ?b + b_len (av_bin ?a))"
    "mbins (fst ?s) = (mbins (fst s))[c := b']" "mactive (fst ?s) = (mactive (fst s))[c := a']" "gl_medium (snd ?s) = (gl_medium (snd s))[c := h']"
  proof (cases "active_medium_contains (fst s) p c")
    case True
    have sp: "ce_span_at e p = av_span ?a" using a True by simp
    from mediums.pair_push_active [unfolded bt_owner_tiers, OF pr p sp] obtain h' a' where q: "bin_push ?h (av_bin ?a) p = (h', a')"
      "b_len a' = Suc (b_len (av_bin ?a))" "pair_state (medium_st e c) (ce_span_at e) h' ?b (av_span ?a) a' (H Medium c - {p}) (insert p (D Medium c))"
      "kept (H Medium c - {p}) (words ?h) (D Medium c) (words h') (insert p (D Medium c))"
      by blast
    show thesis
      by (rule that [of h' ?b "?a\<lparr>av_bin := a'\<rparr>"])
         (use q True l in \<open>simp_all add: push_medium_def active_medium_dealloc_def set_mactive_def more_tier_bytes_def\<close>)
  next
    case False
    from mediums.pair_push_bin [unfolded bt_owner_tiers, OF pr p] obtain h' b' where q: "bin_push ?h ?b p = (h', b')"
      "b_len b' = Suc (b_len ?b)" "pair_state (medium_st e c) (ce_span_at e) h' b' (av_span ?a) (av_bin ?a) (H Medium c - {p}) (insert p (D Medium c))"
      "kept (H Medium c - {p}) (words ?h) (D Medium c) (words h') (insert p (D Medium c))"
      by blast
    show thesis
      by (rule that [of h' b' ?a])
         (use q False l ok in \<open>simp_all add: push_medium_def set_mbin_def more_tier_bytes_def medium_ok_def\<close>)
  qed
  have bytes: "tier_cached_bytes (fst ?s) = tier_cached_bytes (fst s) + MEDIUM_CLASSES ! c"
    "cached_bytes (fst ?s) = cached_bytes (fst s) + MEDIUM_CLASSES ! c"
    by (simp_all add: push_medium_def set_mbin_def set_mactive_def active_medium_dealloc_def more_tier_bytes_def case_prod_unfold Let_def)
  have "cache_inv e (upd Medium c (H Medium c - {p}) H) (upd Medium c (insert p (D Medium c)) D) ?s"
    by (rule cache_inv_medium [OF inv c f(1) f(4,5,6) same(1,2)]) (simp_all add: bytes f(3))
  moreover have "cache_kept (upd Medium c (H Medium c - {p}) H) s D ?s (upd Medium c (insert p (D Medium c)) D)"
    by (rule cache_kept_medium [of c s ?s h', OF _ same(1,2) f(6)]) (use c l f(2) in simp_all)
  ultimately show ?thesis using same(3) by blast
qed

section \<open>The big tier\<close>

definition push_big :: "cache_env \<Rightarrow> nat \<Rightarrow> addr \<Rightarrow> cache_state \<Rightarrow> cache_state" where
  "push_big e c p s = more_tier_bytes (BIG_CLASSES ! c)
     (if active_big_contains (fst s) p c (ce_big_at e p) then active_big_dealloc p c s
      else set_bbin c (bin_push (gl_big (snd s) ! c) (bigbins (fst s) ! c) p) s)"

lemma push_big_ok:
  assumes inv: "cache_inv e H D s" and c: "c < NUM_BIG" and p: "p \<in> H Big c"
  shows "cache_inv e (upd Big c (H Big c - {p}) H) (upd Big c (insert p (D Big c)) D) (push_big e c p s)
    \<and> cache_kept (upd Big c (H Big c - {p}) H) s D (push_big e c p s) (upd Big c (insert p (D Big c)) D)
    \<and> budget (fst (push_big e c p s)) = budget (fst s)"
proof -
  let ?b = "bigbins (fst s) ! c" and ?h = "gl_big (snd s) ! c" and ?a = "bactive (fst s) ! c" and ?s = "push_big e c p s"
  have l: "length (bigbins (fst s)) = NUM_BIG" "length (bactive (fst s)) = NUM_BIG" "length (gl_big (snd s)) = NUM_BIG"
    using inv by (simp_all add: cache_inv_def shape_ok_def)
  have ok: "big_ok e c (H Big c) (D Big c) s" using inv c by (simp add: cache_inv_def)
  then have pr: "pair_state (big_st e c) (ce_big_at e) ?h ?b (av_span ?a) (av_bin ?a) (H Big c) (D Big c)" by (simp add: big_ok_def)
  have same: "same_small s ?s" "same_medium s ?s" "budget (fst ?s) = budget (fst s)"
    by (simp_all add: sames push_big_def set_bbin_def set_bactive_def more_tier_bytes_def active_big_dealloc_def case_prod_unfold Let_def)
  obtain h' b' a' where f: "pair_state (big_st e c) (ce_big_at e) h' b' (av_span a') (av_bin a') (H Big c - {p}) (insert p (D Big c))"
    "kept (H Big c - {p}) (words ?h) (D Big c) (words h') (insert p (D Big c))"
    "b_len b' + b_len (av_bin a') = Suc (b_len ?b + b_len (av_bin ?a))"
    "b_len (av_bin a') \<noteq> 0 \<longrightarrow> av_span a' \<noteq> null"
    "bigbins (fst ?s) = (bigbins (fst s))[c := b']" "bactive (fst ?s) = (bactive (fst s))[c := a']" "gl_big (snd ?s) = (gl_big (snd s))[c := h']"
  proof (cases "active_big_contains (fst s) p c (ce_big_at e p)")
    case True
    have sp: "ce_big_at e p = av_span ?a" "av_span ?a \<noteq> null" using True by (simp_all add: active_big_contains_def Let_def)
    from bigs.pair_push_active [unfolded bt_owner_tiers, OF pr p sp(1)] obtain h' a' where q: "bin_push ?h (av_bin ?a) p = (h', a')"
      "b_len a' = Suc (b_len (av_bin ?a))" "pair_state (big_st e c) (ce_big_at e) h' ?b (av_span ?a) a' (H Big c - {p}) (insert p (D Big c))"
      "kept (H Big c - {p}) (words ?h) (D Big c) (words h') (insert p (D Big c))"
      by blast
    show thesis
      by (rule that [of h' ?b "?a\<lparr>av_bin := a'\<rparr>"])
         (use q True l sp(2) in \<open>simp_all add: push_big_def active_big_dealloc_def set_bactive_def more_tier_bytes_def\<close>)
  next
    case False
    from bigs.pair_push_bin [unfolded bt_owner_tiers, OF pr p] obtain h' b' where q: "bin_push ?h ?b p = (h', b')"
      "b_len b' = Suc (b_len ?b)" "pair_state (big_st e c) (ce_big_at e) h' b' (av_span ?a) (av_bin ?a) (H Big c - {p}) (insert p (D Big c))"
      "kept (H Big c - {p}) (words ?h) (D Big c) (words h') (insert p (D Big c))"
      by blast
    show thesis
      by (rule that [of h' b' ?a])
         (use q False l ok in \<open>simp_all add: push_big_def set_bbin_def more_tier_bytes_def big_ok_def\<close>)
  qed
  have bytes: "tier_cached_bytes (fst ?s) = tier_cached_bytes (fst s) + BIG_CLASSES ! c"
    "cached_bytes (fst ?s) = cached_bytes (fst s) + BIG_CLASSES ! c"
    by (simp_all add: push_big_def set_bbin_def set_bactive_def active_big_dealloc_def more_tier_bytes_def case_prod_unfold Let_def)
  have "cache_inv e (upd Big c (H Big c - {p}) H) (upd Big c (insert p (D Big c)) D) ?s"
    by (rule cache_inv_big [OF inv c f(1) f(4,5,6,7) same(1,2)]) (simp_all add: bytes f(3))
  moreover have "cache_kept (upd Big c (H Big c - {p}) H) s D ?s (upd Big c (insert p (D Big c)) D)"
    by (rule cache_kept_big [of c s ?s h', OF _ same(1,2) f(7)]) (use c l f(2) in simp_all)
  ultimately show ?thesis using same(3) by blast
qed


lemma not_shed_bounded:
  assumes inv: "cache_inv e H D s" and n: "\<not> should_shed (fst s)"
  shows "bounded (fst s)"
proof -
  have t: "cached_bytes (fst s) = small_cached_bytes (fst s) + tier_cached_bytes (fst s)"
    using inv by (simp add: cache_inv_def bytes_ok_def small_cached_bytes_def)
  have "sat_double (budget (fst s)) \<le> 2 * budget (fst s)" by (simp add: sat_double_def)
  then have "cached_bytes (fst s) \<le> 3 * budget (fst s)"
    using n t by (auto simp: should_shed_def split: if_splits)
  then show ?thesis by (simp add: bounded_def)
qed

lemma add_foreign_inert: "inert s (add_foreign f n s)"
  by (simp add: add_foreign_def inert_def sames)

lemma foreign_owner_inert: "(if q then foreign_owner i s else (False, s)) = (f, s') \<Longrightarrow> inert s s'"
  by (auto simp: foreign_owner_def dest: tid_inert split: if_splits prod.splits)

lemma pushed_freed:
  assumes push: "cache_inv e (upd t c (H t c - {p}) H) D1 s1" "cache_kept (upd t c (H t c - {p}) H) s D s1 D1"
  shows "freed e t c p H s D
    (let s2 = add_foreign f n s1 in if should_shed (fst s2) then shed e s2 else Some s2)"
proof -
  let ?s = "add_foreign f n s1"
  have a: "cache_inv e (upd t c (H t c - {p}) H) D1 ?s" "cache_kept (upd t c (H t c - {p}) H) s D ?s D1"
    using push inert_inv [OF add_foreign_inert] inert_kept(2) [OF add_foreign_inert] by simp_all
  show ?thesis unfolding Let_def by (rule freedI [OF a not_shed_bounded [OF a(1)]])
qed

lemma dealloc_medium_facts:
  assumes inv: "cache_inv e H D s" and c: "c < NUM_MEDIUM" and p: "p \<in> H Medium c"
    and a: "active_medium_contains (fst s) p c \<Longrightarrow> ce_span_at e p = av_span (mactive (fst s) ! c)"
  shows "freed e Medium c p H s D (dealloc_medium e p c s)"
proof -
  define s1 where "s1 = (arm_exit_hook e (snd s) (fst s), snd s)"
  obtain f s2 where s2: "(if drift_gate_open (fst s1) \<and> ce_span_at e p \<noteq> null
      then foreign_owner (owner_of (gl_medium (snd s1) ! c) (ce_span_at e p)) s1 else (False, s1)) = (f, s2)"
    by (metis surj_pair)
  have "inert s s1" unfolding s1_def by (rule arm_inert)
  then have i: "inert s s2" using foreign_owner_inert [OF s2] inert_trans by blast
  have inv2: "cache_inv e H D s2" using inv inert_inv [OF i] by simp
  have "active_medium_contains (fst s2) p c \<Longrightarrow> ce_span_at e p = av_span (mactive (fst s2) ! c)"
    using a i by (simp add: active_medium_contains_def inert_def sames)
  note q = push_medium_ok [OF inv2 c p this]
  have "freed e Medium c p H s2 D (let s4 = add_foreign f (MEDIUM_CLASSES ! c) (push_medium e c p s2)
      in if should_shed (fst s4) then shed e s4 else Some s4)"
    by (rule pushed_freed) (use q in blast)+
  moreover have "dealloc_medium e p c s = (let s4 = add_foreign f (MEDIUM_CLASSES ! c) (push_medium e c p s2)
      in if should_shed (fst s4) then shed e s4 else Some s4)"
    unfolding dealloc_medium_def Let_def s1_def [symmetric] s2 push_medium_def by simp
  ultimately show ?thesis using freed_inert [OF i] by simp
qed

lemma dealloc_big_facts:
  assumes inv: "cache_inv e H D s" and c: "c < NUM_BIG" and p: "p \<in> H Big c"
  shows "freed e Big c p H s D (dealloc_big e p (ce_big_at e p) c s)"
proof -
  define s1 where "s1 = (arm_exit_hook e (snd s) (fst s), snd s)"
  obtain f s2 where s2: "(if drift_gate_open (fst s1)
      then foreign_owner (owner_of (gl_big (snd s1) ! c) (ce_big_at e p)) s1 else (False, s1)) = (f, s2)"
    by (metis surj_pair)
  have "inert s s1" unfolding s1_def by (rule arm_inert)
  then have i: "inert s s2" using foreign_owner_inert [OF s2] inert_trans by blast
  have inv2: "cache_inv e H D s2" using inv inert_inv [OF i] by simp
  note q = push_big_ok [OF inv2 c p]
  have "freed e Big c p H s2 D (let s4 = add_foreign f (BIG_CLASSES ! c) (push_big e c p s2)
      in if should_shed (fst s4) then shed e s4 else Some s4)"
    by (rule pushed_freed) (use q in blast)+
  moreover have "dealloc_big e p (ce_big_at e p) c s = (let s4 = add_foreign f (BIG_CLASSES ! c) (push_big e c p s2)
      in if should_shed (fst s4) then shed e s4 else Some s4)"
    unfolding dealloc_big_def Let_def s1_def [symmetric] s2 push_big_def by simp
  ultimately show ?thesis using freed_inert [OF i] by simp
qed

section \<open>All tiers\<close>

fun tier_count :: "tier \<Rightarrow> nat" where
  "tier_count Small = NUM_CLASSES"
| "tier_count Medium = NUM_MEDIUM"
| "tier_count Big = NUM_BIG"

text \<open>The span of a big block comes from the side table.\<close>

fun cache_free :: "cache_env \<Rightarrow> tier \<Rightarrow> nat \<Rightarrow> addr \<Rightarrow> cache_state \<Rightarrow> cache_state option" where
  "cache_free e Small c p s = dealloc e p c s"
| "cache_free e Medium c p s = dealloc_medium e p c s"
| "cache_free e Big c p s = dealloc_big e p (ce_big_at e p) c s"

text \<open>
  A medium block whose address is inside the active range must be of the active span.  The code tests the
  address alone, so this is an assumption about the caller; \<open>stale_active_misfiles\<close> shows it is needed.
\<close>

definition active_covers :: "cache_env \<Rightarrow> tier \<Rightarrow> nat \<Rightarrow> addr \<Rightarrow> cache_state \<Rightarrow> bool" where
  "active_covers e t c p s \<longleftrightarrow> t \<noteq> Medium \<or> \<not> active_medium_contains (fst s) p c
     \<or> ce_span_at e p = av_span (mactive (fst s) ! c)"

lemma stale_active_misfiles:
  assumes "c < length (mactive (fst s))" "active_medium_contains (fst s) p c" "ce_span_at e p \<noteq> av_span (mactive (fst s) ! c)"
  shows "b_head (av_bin (mactive (fst (push_medium e c p s)) ! c)) = p
    \<and> av_span (mactive (fst (push_medium e c p s)) ! c) \<noteq> ce_span_at e p"
  using assms by (simp add: push_medium_def more_tier_bytes_def active_medium_dealloc_def set_mactive_def bin_push_def push_block_def Let_def)

text \<open>The range outlives the chain: popping the last block of the active span leaves span, base and end in place.\<close>

lemma drained_range_stays:
  assumes "c < length (mactive (fst s))" "active_medium_alloc c s = (Some x, s')"
  shows "active_medium_contains (fst s') q c = active_medium_contains (fst s) q c"
  using assms by (auto simp: active_medium_alloc_def active_medium_contains_def popped_tier_bytes_def set_mactive_def Let_def
      split: prod.splits option.splits)

lemma cache_free_facts:
  assumes "cache_inv e H D s" "c < tier_count t" "p \<in> H t c" "active_covers e t c p s"
  shows "freed e t c p H s D (cache_free e t c p s)"
  using assms dealloc_facts dealloc_medium_facts dealloc_big_facts by (cases t) (auto simp: active_covers_def)



text \<open>C16 (thread cache, bound).  After any free the cache holds at most three times its budget (one for small
  blocks, two for the others), or at most one refill batch of every small class.\<close>

theorem cache_free_bounded:
  assumes "cache_inv e H D s" "c < tier_count t" "p \<in> H t c" "active_covers e t c p s"
  shows "\<exists>s'. cache_free e t c p s = Some s'
    \<and> cached_bytes (fst s') \<le> max (3 * budget (fst s')) (\<Sum>c<NUM_CLASSES. CLASSES ! c * REFILL_BATCH)"
  using cache_free_facts [OF assms] unfolding freed_def bounded_def TRIM_FLOOR_def by blast

theorem cache_free_bounded_witness:
  "\<exists>s'. dealloc first_env 65584 45 held_state = Some s'
    \<and> cached_bytes (fst s') \<le> max (3 * budget (fst s')) (\<Sum>c<NUM_CLASSES. CLASSES ! c * REFILL_BATCH)"
  using cache_free_bounded [OF held_inv, of 45 Small 65584] by (simp add: active_covers_def const_simps)

end
