(* ===== verification/Cache_Alloc.thy ===== *)
theory Cache_Alloc
  imports Cache_Free
begin

text \<open>
  Allocation from the thread cache (\<open>alloc_zeroed\<close>, \<open>alloc_medium_zeroed\<close>, \<open>alloc_big_zeroed\<close> and the plain
  variants): a block nobody holds, zero if it is said to be, or null when the heap has none to give.
\<close>

section \<open>What an allocation does\<close>

definition allotted :: "cache_env \<Rightarrow> tier \<Rightarrow> nat \<Rightarrow> blocks \<Rightarrow> cache_state \<Rightarrow> blocks \<Rightarrow> ((addr \<times> bool) \<times> cache_state) option \<Rightarrow> bool" where
  "allotted e t c H s D r \<longleftrightarrow> (\<exists>p z s' D'. r = Some ((p, z), s') \<and> cache_kept H s D s' D'
     \<and> (p = null \<and> cache_inv e H D' s'
        \<or> p \<noteq> null \<and> p \<notin> H t c \<and> (z \<longrightarrow> p \<notin> D' t c) \<and> cache_inv e (upd t c (insert p (H t c)) H) D' s'))"

lemma allotted_inert: "inert s s1 \<Longrightarrow> allotted e t c H s1 D r \<Longrightarrow> allotted e t c H s D r"
  by (simp add: allotted_def inert_kept(1))

lemma allotted_from:
  assumes "cache_kept H s D s1 D1" "allotted e t c H s1 D1 r"
  shows "allotted e t c H s D r"
  using assms(2) unfolding allotted_def
  by (elim exE conjE, intro exI conjI) (assumption, erule cache_kept_trans [OF assms(1)], assumption)

section \<open>Popping\<close>

lemma popped_bytes:
  assumes "k * n \<le> (x :: nat)" "n = Suc n'"
  shows "wrap_sub x k + k * n = x + k * n'"
  using assms by (simp add: wrap_sub_def)

lemma pop_small_ok:
  assumes inv: "cache_inv e H D s" and c: "c < NUM_CLASSES"
  shows "pop_small c s = (None, s) \<and> tc_bins (fst s) ! c = bin_new
    \<or> (\<exists>x s'. pop_small c s = (Some x, s') \<and> allotted e Small c H s D (Some (x, s')))"
proof -
  let ?b = "tc_bins (fst s) ! c" and ?h = "gl_small (snd s) ! c"
  have l: "length (tc_bins (fst s)) = NUM_CLASSES" "length (gl_small (snd s)) = NUM_CLASSES"
    using inv by (simp_all add: cache_inv_def shape_ok_def)
  have "bin_state (small_st e c) ?h ?b (H Small c) (D Small c)" using inv c by (simp add: cache_inv_def small_ok_def)
  from smalls.bin_state_pop [OF this] show ?thesis
  proof (elim disjE exE conjE)
    fix p z b' assume b': "bin_pop ?h ?b = (Some (p, z), b')" "b_len ?b = Suc (b_len b')" "p \<notin> H Small c" "p \<noteq> 0" "z \<longrightarrow> p \<notin> D Small c"
      "bin_state (small_st e c) ?h b' (insert p (H Small c)) (D Small c)"
    define s' where "s' = popped_bytes (CLASSES ! c) (set_small c (?h, b') s)"
    have r: "pop_small c s = (Some (p, z), s')" using b'(1) by (simp add: pop_small_def s'_def)
    have same: "same_medium s s'" "same_big s s'" by (simp_all add: sames s'_def popped_bytes_def set_small_def)
    have "CLASSES ! c * b_len ?b \<le> cached_bytes (fst s)"
      using inv weigh_part [of c CLASSES "lens_of (tc_bins (fst s))"] c l by (simp add: cache_inv_def bytes_ok_def)
    from popped_bytes [OF this b'(2)] have cb: "cached_bytes (fst s') + CLASSES ! c * b_len ?b = cached_bytes (fst s) + CLASSES ! c * b_len b'"
      by (simp add: s'_def popped_bytes_def set_small_def)
    have "cache_inv e (upd Small c (insert p (H Small c)) H) (upd Small c (D Small c) D) s'"
      by (rule cache_inv_small [OF inv c b'(6) _ _ same _ cb]) (simp_all add: s'_def popped_bytes_def set_small_def)
    moreover have "cache_kept H s D s' (upd Small c (D Small c) D)"
      by (rule cache_kept_small [of c s s' ?h, OF _ same]) (use c l in \<open>simp_all add: s'_def popped_bytes_def set_small_def\<close>)
    ultimately show ?thesis using r b'(3-5) by (auto simp: allotted_def)
  qed (simp add: pop_small_def)
qed

section \<open>Before the heap is asked\<close>

text \<open>Without a retired cache waiting, \<open>prepare\<close> only arms the hook and refreshes the budget.\<close>

definition quiet :: "cache_state \<Rightarrow> bool" where
  "quiet s \<longleftrightarrow> retired_reclaimed (fst s) \<or> gl_ready (snd s) = 0"

lemma prepare_quiet: "quiet s \<Longrightarrow> prepare e s = Some (settle e s)"
  by (auto simp: quiet_def prepare_def settle_def reclaim_retired_def take_one_def reclaim_one_def Let_def
      arm_exit_hook_def install_exit_hook_def refresh_budget_def)

text \<open>After shedding, what was empty is still empty.\<close>

definition shed_some :: "cache_env \<Rightarrow> blocks \<Rightarrow> cache_state \<Rightarrow> blocks \<Rightarrow> cache_state \<Rightarrow> blocks \<Rightarrow> bool" where
  "shed_some e H s D s' D' \<longleftrightarrow> cache_inv e H D' s' \<and> cache_kept H s D s' D' \<and> lens_le (fst s') (fst s)"

lemma trim_if_ok:
  assumes "cache_inv e H D s"
  shows "\<exists>s' D'. trim_if e p s = Some s' \<and> shed_some e H s D s' D'"
proof (cases p)
  case True
  from trim_facts [OF assms] obtain s' D' where t: "trim e s = Some s'" "cache_inv e H D' s'" "cache_kept H s D s' D'"
    "shrinks (settle e s) s'"
    by blast
  have "lens_le (fst s') (fst (settle e s))" using t(4) by (simp add: shrinks_def)
  then have "lens_le (fst s') (fst s)" using settle_inert [of s e] by (simp add: lens_le_def inert_def sames)
  then show ?thesis using t True by (auto simp: trim_if_def shed_some_def)
next
  case False
  then show ?thesis using assms by (auto simp: trim_if_def shed_some_def lens_le_def intro!: exI [of _ D])
qed

lemma press_ok: "cache_inv e H D s \<Longrightarrow> \<exists>s' D'. press e s = Some s' \<and> shed_some e H s D s' D'"
  unfolding press_def by (rule trim_if_ok)

lemma press_big_ok:
  assumes "cache_inv e H D s"
  shows "\<exists>s' D'. press_big e s = Some s' \<and> shed_some e H s D s' D'"
proof -
  obtain s0 D0 where s0: "press e s = Some s0" "shed_some e H s D s0 D0" using press_ok [OF assms] by blast
  then have "cache_inv e H D0 s0" by (simp add: shed_some_def)
  from trim_if_ok [OF this] obtain s1 D1 where
    s1: "trim_if e (sat_double (budget (fst s0)) < tier_cached_bytes (fst s0)) s0 = Some s1" "shed_some e H s0 D0 s1 D1"
    by blast
  have "shed_some e H s D s1 D1"
    using s0(2) s1(2) unfolding shed_some_def by (meson cache_kept_trans lens_le_trans)
  then show ?thesis using s0(1) s1(1) by (auto simp: press_big_def)
qed

section \<open>Claiming\<close>

text \<open>Claims change only owners in headers of the class, and the thread id.\<close>

inductive reowned :: "('a, 'l, 'e) class_heap \<Rightarrow> ('a, 'l, 'e) class_heap \<Rightarrow> bool" where
  reowned_refl: "reowned h h"
| reowned_step: "reowned h h' \<Longrightarrow> reowned h (set_owner p i h')"

lemma reowned_words: "reowned h h' \<Longrightarrow> words h' = words h"
  by (induction rule: reowned.induct) simp_all

lemma reowned_trans: "reowned h1 h2 \<Longrightarrow> reowned h h1 \<Longrightarrow> reowned h h2"
  by (induction rule: reowned.induct) (auto intro: reowned_step)


context class_store
begin

lemma reowned_bin: "reowned h h' \<Longrightarrow> bin_state store h b H D \<Longrightarrow> bin_state store h' b H D"
  by (induction rule: reowned.induct) (auto intro: bin_state_owner)

end

definition relisted :: "nat \<Rightarrow> ('a, 'l, 'e) class_heap list \<Rightarrow> ('a, 'l, 'e) class_heap list \<Rightarrow> bool" where
  "relisted c hs hs' \<longleftrightarrow> (\<exists>h'. reowned (hs ! c) h' \<and> hs' = hs[c := h'])"

lemma relisted_refl: "relisted c hs hs"
  unfolding relisted_def using reowned_refl by (metis list_update_id)

lemma relisted_trans:
  assumes "relisted c hs hs1" "relisted c hs1 hs2" "c < length hs"
  shows "relisted c hs hs2"
proof -
  obtain h1 h2 where h: "reowned (hs ! c) h1" "hs1 = hs[c := h1]" "reowned (hs1 ! c) h2" "hs2 = hs1[c := h2]"
    using assms(1,2) unfolding relisted_def by blast
  have "reowned (hs ! c) h2" using reowned_trans [OF _ h(1)] h(2,3) assms(3) by simp
  then show ?thesis using h(2,4) unfolding relisted_def by fastforce
qed

lemma relisted_owner: "relisted c hs (hs[c := set_owner p i (hs ! c)])"
  unfolding relisted_def using reowned_step [OF reowned_refl] by blast

lemma relisted_length: "relisted c hs hs' \<Longrightarrow> length hs' = length hs"
  unfolding relisted_def by auto

definition claimed_small :: "nat \<Rightarrow> cache_state \<Rightarrow> cache_state \<Rightarrow> bool" where
  "claimed_small c s s' \<longleftrightarrow> relisted c (gl_small (snd s)) (gl_small (snd s')) \<and> tc_bins (fst s') = tc_bins (fst s)
     \<and> same_medium s s' \<and> same_big s s'
     \<and> cached_bytes (fst s') = cached_bytes (fst s) \<and> tier_cached_bytes (fst s') = tier_cached_bytes (fst s)"

lemma claimed_small_inert: "inert s s' \<Longrightarrow> claimed_small c s s'"
  by (simp add: claimed_small_def inert_def sames relisted_refl)

lemma claimed_small_trans:
  assumes "claimed_small c s s1" "claimed_small c s1 s2" "c < length (gl_small (snd s))"
  shows "claimed_small c s s2"
  using assms relisted_trans unfolding claimed_small_def by (auto simp: sames)

lemma claim_small_tid:
  assumes "tid s = (i, (tc, g))"
  shows "claimed_small c s (tc, g\<lparr>gl_small := (gl_small g)[c := set_owner p i (gl_small g ! c)]\<rparr>)"
proof -
  have n: "inert s (tc, g)" using tid_inert [OF assms] by simp
  then have "gl_small g = gl_small (snd s)" by (simp add: inert_def same_small_def)
  then show ?thesis using n relisted_owner by (simp add: claimed_small_def inert_def sames)
qed

definition claimed_medium :: "nat \<Rightarrow> cache_state \<Rightarrow> cache_state \<Rightarrow> bool" where
  "claimed_medium c s s' \<longleftrightarrow> relisted c (gl_medium (snd s)) (gl_medium (snd s')) \<and> mbins (fst s') = mbins (fst s) \<and> mactive (fst s') = mactive (fst s)
     \<and> same_small s s' \<and> same_big s s'
     \<and> cached_bytes (fst s') = cached_bytes (fst s) \<and> tier_cached_bytes (fst s') = tier_cached_bytes (fst s)"

lemma claimed_medium_inert: "inert s s' \<Longrightarrow> claimed_medium c s s'"
  by (simp add: claimed_medium_def inert_def sames relisted_refl)

lemma claimed_medium_trans:
  assumes "claimed_medium c s s1" "claimed_medium c s1 s2" "c < length (gl_medium (snd s))"
  shows "claimed_medium c s s2"
  using assms relisted_trans unfolding claimed_medium_def by (auto simp: sames)

lemma claim_medium_tid:
  assumes "tid s = (i, (tc, g))"
  shows "claimed_medium c s (tc, g\<lparr>gl_medium := (gl_medium g)[c := set_owner p i (gl_medium g ! c)]\<rparr>)"
proof -
  have n: "inert s (tc, g)" using tid_inert [OF assms] by simp
  then have "gl_medium g = gl_medium (snd s)" by (simp add: inert_def same_medium_def)
  then show ?thesis using n relisted_owner by (simp add: claimed_medium_def inert_def sames)
qed

definition claimed_big :: "nat \<Rightarrow> cache_state \<Rightarrow> cache_state \<Rightarrow> bool" where
  "claimed_big c s s' \<longleftrightarrow> relisted c (gl_big (snd s)) (gl_big (snd s')) \<and> bigbins (fst s') = bigbins (fst s) \<and> bactive (fst s') = bactive (fst s)
     \<and> same_small s s' \<and> same_medium s s'
     \<and> cached_bytes (fst s') = cached_bytes (fst s) \<and> tier_cached_bytes (fst s') = tier_cached_bytes (fst s)"

lemma claimed_big_inert: "inert s s' \<Longrightarrow> claimed_big c s s'"
  by (simp add: claimed_big_def inert_def sames relisted_refl)

lemma claimed_big_trans:
  assumes "claimed_big c s s1" "claimed_big c s1 s2" "c < length (gl_big (snd s))"
  shows "claimed_big c s s2"
  using assms relisted_trans unfolding claimed_big_def by (auto simp: sames)

lemma claim_big_tid:
  assumes "tid s = (i, (tc, g))"
  shows "claimed_big c s (tc, g\<lparr>gl_big := (gl_big g)[c := set_owner p i (gl_big g ! c)]\<rparr>)"
proof -
  have n: "inert s (tc, g)" using tid_inert [OF assms] by simp
  then have "gl_big g = gl_big (snd s)" by (simp add: inert_def same_big_def)
  then show ?thesis using n relisted_owner by (simp add: claimed_big_def inert_def sames)
qed

lemma claim_page_ok: "claimed_small c s (claim_page c p s)"
  using claim_small_tid by (auto simp: claim_page_def split: prod.splits)

lemma claim_pages_ok:
  assumes "c < length (gl_small (snd s))"
  shows "claimed_small c s (claim_pages c k b last_page s)"
  using assms
proof (induction k arbitrary: b last_page s)
  case (Suc k)
  let ?s = "if page_of b \<noteq> last_page then claim_page c (page_of b) s else s"
  have st: "claimed_small c s ?s" using claim_page_ok claimed_small_inert [OF inert_refl] by simp
  have "length (gl_small (snd ?s)) = length (gl_small (snd s))"
    using st unfolding claimed_small_def by (blast dest: relisted_length)
  then have "c < length (gl_small (snd ?s))" using Suc.prems by metis
  from claimed_small_trans [OF st Suc.IH [OF this] Suc.prems] show ?case
    using claimed_small_inert [OF inert_refl] by (simp add: Let_def)
qed (simp add: claimed_small_inert)

section \<open>The small tier\<close>

text \<open>The page the system would grant is not one of the class's own when it is asked for.\<close>

definition small_grant :: "cache_env \<Rightarrow> nat \<Rightarrow> cache_state \<Rightarrow> bool" where
  "small_grant e c s \<longleftrightarrow> (\<forall>lv d. small_st e c (gl_small (snd s) ! c) lv d \<longrightarrow> small_fresh (ce_page e) (gl_small (snd s) ! c) lv)"

lemma refill_take_ok:
  assumes inv: "cache_inv e H D s" and c: "c < NUM_CLASSES" and b: "tc_bins (fst s) ! c = bin_new"
    and fr: "\<And>s1. press e s = Some s1 \<Longrightarrow> small_grant e c s1"
  shows "allotted e Small c H s D (refill_take e c s)"
proof -
  obtain s1 D1 where s1: "press e s = Some s1" "shed_some e H s D s1 D1" using press_ok [OF inv] by blast
  have inv1: "cache_inv e H D1 s1" and k1: "cache_kept H s D s1 D1" using s1(2) by (simp_all add: shed_some_def)
  let ?h = "gl_small (snd s1) ! c"
  have l: "length (tc_bins (fst s1)) = NUM_CLASSES" "length (gl_small (snd s1)) = NUM_CLASSES"
    using inv1 by (simp_all add: cache_inv_def shape_ok_def)
  have bs: "bin_state (small_st e c) ?h (tc_bins (fst s1) ! c) (H Small c) (D1 Small c)"
    using inv1 c by (simp add: cache_inv_def small_ok_def)
  have "b_len (tc_bins (fst s1) ! c) \<le> b_len (tc_bins (fst s) ! c)" using s1(2) by (simp add: shed_some_def lens_le_def)
  then have b1: "tc_bins (fst s1) ! c = bin_new" using bin_state_empty [OF bs] b by (simp add: bin_new_def)
  have "small_fresh (ce_page e) ?h lv" if "small_st e c ?h lv d" for lv d
    using fr [OF s1(1)] that unfolding small_grant_def by blast
  from smalls.bin_state_take [OF bs [unfolded b1] this]
  have "small_take c (ce_page e) ?h = Some (?h, null, 0, False)
    \<or> (\<exists>h' ch n v D'. small_take c (ce_page e) ?h = Some (h', ch, n, v) \<and> ch \<noteq> null \<and> 0 < n
        \<and> bin_state (small_st e c) h' (batch ch n v) (H Small c) D' \<and> kept (H Small c) (words ?h) (D1 Small c) (words h') D')" .
  then have "allotted e Small c H s1 D1 (refill_take e c s)"
  proof (elim disjE exE conjE)
    assume "small_take c (ce_page e) ?h = Some (?h, null, 0, False)"
    then have "refill_take e c s = Some ((null, False), s1)" using s1(1) by (simp add: refill_take_def Let_def)
    then show ?thesis using inv1 by (auto simp: allotted_def intro!: exI [of _ D1])
  next
    fix h' ch n v D' assume t: "small_take c (ce_page e) ?h = Some (h', ch, n, v)" "ch \<noteq> null" "0 < n"
      "bin_state (small_st e c) h' (batch ch n v) (H Small c) D'" "kept (H Small c) (words ?h) (D1 Small c) (words h') D'"
    define s2 where "s2 = (fst s1, (snd s1)\<lparr>gl_small := (gl_small (snd s1))[c := h']\<rparr>)"
    define s3 where "s3 = claim_pages c n ch null s2"
    have "claimed_small c s2 s3" unfolding s3_def by (rule claim_pages_ok) (use c l in \<open>simp add: s2_def\<close>)
    then have cl: "relisted c ((gl_small (snd s1))[c := h']) (gl_small (snd s3))" "tc_bins (fst s3) = tc_bins (fst s1)"
      "same_medium s1 s3" "same_big s1 s3" "cached_bytes (fst s3) = cached_bytes (fst s1)"
      "tier_cached_bytes (fst s3) = tier_cached_bytes (fst s1)"
      by (simp_all add: claimed_small_def s2_def sames)
    from cl(1) c l obtain h3 where h3: "reowned h' h3" "gl_small (snd s3) = (gl_small (snd s1))[c := h3]"
      unfolding relisted_def by auto
    note h3 = h3 cl(2-6)
    let ?b = "batch (words h3 ch) (n - 1) v"
    define s4 where "s4 = more_bytes (CLASSES ! c * (n - 1)) (set_small c (h3, ?b) s3)"
    have "bin_state (small_st e c) h3 (batch ch n v) (H Small c) D'" using smalls.reowned_bin h3(1) t(4) by blast
    from smalls.bin_state_pop [OF this] bin_pop_batch [OF t(2,3), of h3 v]
    have p: "ch \<notin> H Small c" "v \<longrightarrow> ch \<notin> D'" "bin_state (small_st e c) h3 ?b (insert ch (H Small c)) D'" by auto
    have r: "refill_take e c s = Some ((ch, v), s4)"
      using s1(1) t(1,2) h3(2,3) c l b1
      by (simp add: refill_take_def Let_def s4_def batch_def bin_new_def flip: s2_def s3_def)
    have same: "same_medium s1 s4" "same_big s1 s4" using h3(4,5) by (simp_all add: sames s4_def more_bytes_def set_small_def)
    have "cache_inv e (upd Small c (insert ch (H Small c)) H) (upd Small c D' D1) s4"
      by (rule cache_inv_small [OF inv1 c p(3) _ _ same])
         (use h3 in \<open>simp_all add: s4_def more_bytes_def set_small_def b1 bin_new_def batch_def\<close>)
    moreover have "cache_kept H s1 D1 s4 (upd Small c D' D1)"
      by (rule cache_kept_small [of c s1 s4 h3, OF _ same])
         (use c l t(5) h3 reowned_words [OF h3(1)] in \<open>simp_all add: s4_def more_bytes_def set_small_def\<close>)
    ultimately show ?thesis using r t(2) p(1,2) by (auto simp: allotted_def)
  qed
  then show ?thesis by (rule allotted_from [OF k1])
qed

lemma refill_ok:
  assumes inv: "cache_inv e H D s" and c: "c < NUM_CLASSES" and q: "quiet s"
    and fr: "\<And>s1. press e (settle e s) = Some s1 \<Longrightarrow> small_grant e c s1"
  shows "allotted e Small c H s D (refill e c s)"
proof -
  have inv1: "cache_inv e H D (settle e s)" using inv inert_inv [OF settle_inert] by simp
  have "allotted e Small c H (settle e s) D (refill e c s)"
    using pop_small_ok [OF inv1 c]
  proof (elim disjE exE conjE)
    assume "pop_small c (settle e s) = (None, settle e s)" "tc_bins (fst (settle e s)) ! c = bin_new"
    then show ?thesis using refill_take_ok [OF inv1 c _ fr] prepare_quiet [OF q] by (simp add: refill_def)
  next
    fix x s' assume "pop_small c (settle e s) = (Some x, s')" "allotted e Small c H (settle e s) D (Some (x, s'))"
    then show ?thesis using prepare_quiet [OF q] by (simp add: refill_def)
  qed
  then show ?thesis by (rule allotted_inert [OF settle_inert])
qed

lemma alloc_zeroed_ok:
  assumes "cache_inv e H D s" "c < NUM_CLASSES" "quiet s" "\<And>s1. press e (settle e s) = Some s1 \<Longrightarrow> small_grant e c s1"
  shows "allotted e Small c H s D (alloc_zeroed e c s)"
  using pop_small_ok [OF assms(1,2)] refill_ok [OF assms] by (auto simp: alloc_zeroed_def)


section \<open>The medium tier\<close>

lemma active_medium_alloc_ok:
  assumes inv: "cache_inv e H D s" and c: "c < NUM_MEDIUM"
  shows "active_medium_alloc c s = (None, s) \<and> av_bin (mactive (fst s) ! c) = bin_new
    \<or> (\<exists>x s'. active_medium_alloc c s = (Some x, s') \<and> allotted e Medium c H s D (Some (x, s')))"
proof -
  let ?b = "mbins (fst s) ! c" and ?h = "gl_medium (snd s) ! c" and ?a = "mactive (fst s) ! c"
  have l: "length (mbins (fst s)) = NUM_MEDIUM" "length (mactive (fst s)) = NUM_MEDIUM" "length (gl_medium (snd s)) = NUM_MEDIUM"
    using inv by (simp_all add: cache_inv_def shape_ok_def)
  have ok: "medium_ok e c (H Medium c) (D Medium c) s" using inv c by (simp add: cache_inv_def)
  then have pr: "pair_state (medium_st e c) (ce_span_at e) ?h ?b (av_span ?a) (av_bin ?a) (H Medium c) (D Medium c)" by (simp add: medium_ok_def)
  from mediums.pair_pop_active [unfolded bt_owner_tiers, OF pr] show ?thesis
  proof (elim disjE exE conjE)
    fix p z a' assume q: "bin_pop ?h (av_bin ?a) = (Some (p, z), a')" "b_len (av_bin ?a) = Suc (b_len a')" "p \<notin> H Medium c" "p \<noteq> 0"
      "z \<longrightarrow> p \<notin> D Medium c" "pair_state (medium_st e c) (ce_span_at e) ?h ?b (av_span ?a) a' (insert p (H Medium c)) (D Medium c)"
    define s' where "s' = popped_tier_bytes (MEDIUM_CLASSES ! c) (set_mactive c (?h, ?a\<lparr>av_bin := a'\<rparr>) s)"
    have r: "active_medium_alloc c s = (Some (p, z), s')" using q(1) by (simp add: active_medium_alloc_def s'_def Let_def)
    have same: "same_small s s'" "same_big s s'" by (simp_all add: sames s'_def popped_tier_bytes_def set_mactive_def)
    have bytes: "MEDIUM_CLASSES ! c * b_len (av_bin ?a) \<le> tier_cached_bytes (fst s)" "tier_cached_bytes (fst s) \<le> cached_bytes (fst s)"
      using inv weigh_part [of c MEDIUM_CLASSES "active_lens (mactive (fst s))"] c l by (simp_all add: cache_inv_def bytes_ok_def actual_tier_bytes_def)
    then have cb: "tier_cached_bytes (fst s') + MEDIUM_CLASSES ! c = tier_cached_bytes (fst s)" "cached_bytes (fst s') + MEDIUM_CLASSES ! c = cached_bytes (fst s)"
      using q(2) by (auto simp: s'_def popped_tier_bytes_def set_mactive_def wrap_sub_def)
    have "cache_inv e (upd Medium c (insert p (H Medium c)) H) (upd Medium c (D Medium c) D) s'"
      by (rule cache_inv_medium [OF inv c, of ?h ?b "?a\<lparr>av_bin := a'\<rparr>"])
         (use q(2,6) cb same c l ok in \<open>simp_all add: s'_def popped_tier_bytes_def set_mactive_def medium_ok_def\<close>)
    moreover have "cache_kept H s D s' (upd Medium c (D Medium c) D)"
      by (rule cache_kept_medium [of c s s' ?h, OF _ same]) (use c l in \<open>simp_all add: s'_def popped_tier_bytes_def set_mactive_def\<close>)
    ultimately show ?thesis using r q(3-5) by (auto simp: allotted_def)
  qed (simp add: active_medium_alloc_def Let_def)
qed

lemma bin_medium_pop:
  assumes inv: "cache_inv e H D s" and c: "c < NUM_MEDIUM"
  shows "bin_pop (gl_medium (snd s) ! c) (mbins (fst s) ! c) = (None, mbins (fst s) ! c) \<and> mbins (fst s) ! c = bin_new
    \<or> (\<exists>x b'. bin_pop (gl_medium (snd s) ! c) (mbins (fst s) ! c) = (Some x, b')
         \<and> allotted e Medium c H s D (Some (x, popped_tier_bytes (MEDIUM_CLASSES ! c) (set_mbin c (gl_medium (snd s) ! c, b') s))))"
proof -
  let ?b = "mbins (fst s) ! c" and ?h = "gl_medium (snd s) ! c" and ?a = "mactive (fst s) ! c"
  have l: "length (mbins (fst s)) = NUM_MEDIUM" "length (mactive (fst s)) = NUM_MEDIUM" "length (gl_medium (snd s)) = NUM_MEDIUM"
    using inv by (simp_all add: cache_inv_def shape_ok_def)
  have ok: "medium_ok e c (H Medium c) (D Medium c) s" using inv c by (simp add: cache_inv_def)
  then have pr: "pair_state (medium_st e c) (ce_span_at e) ?h ?b (av_span ?a) (av_bin ?a) (H Medium c) (D Medium c)" by (simp add: medium_ok_def)
  from mediums.pair_pop_bin [unfolded bt_owner_tiers, OF pr] show ?thesis
  proof (elim disjE exE conjE)
    fix p z b' assume q: "bin_pop ?h ?b = (Some (p, z), b')" "b_len ?b = Suc (b_len b')" "p \<notin> H Medium c" "p \<noteq> 0"
      "z \<longrightarrow> p \<notin> D Medium c" "pair_state (medium_st e c) (ce_span_at e) ?h b' (av_span ?a) (av_bin ?a) (insert p (H Medium c)) (D Medium c)"
    define s' where "s' = popped_tier_bytes (MEDIUM_CLASSES ! c) (set_mbin c (?h, b') s)"
    have same: "same_small s s'" "same_big s s'" by (simp_all add: sames s'_def popped_tier_bytes_def set_mbin_def)
    have bytes: "MEDIUM_CLASSES ! c * b_len ?b \<le> tier_cached_bytes (fst s)" "tier_cached_bytes (fst s) \<le> cached_bytes (fst s)"
      using inv weigh_part [of c MEDIUM_CLASSES "lens_of (mbins (fst s))"] c l by (simp_all add: cache_inv_def bytes_ok_def actual_tier_bytes_def)
    then have cb: "tier_cached_bytes (fst s') + MEDIUM_CLASSES ! c = tier_cached_bytes (fst s)" "cached_bytes (fst s') + MEDIUM_CLASSES ! c = cached_bytes (fst s)"
      using q(2) by (auto simp: s'_def popped_tier_bytes_def set_mbin_def wrap_sub_def)
    have "cache_inv e (upd Medium c (insert p (H Medium c)) H) (upd Medium c (D Medium c) D) s'"
      by (rule cache_inv_medium [OF inv c, of ?h b' ?a])
         (use q(2,6) cb same c l ok in \<open>simp_all add: s'_def popped_tier_bytes_def set_mbin_def medium_ok_def\<close>)
    moreover have "cache_kept H s D s' (upd Medium c (D Medium c) D)"
      by (rule cache_kept_medium [of c s s' ?h, OF _ same]) (use c l in \<open>simp_all add: s'_def popped_tier_bytes_def set_mbin_def\<close>)
    ultimately have "allotted e Medium c H s D (Some ((p, z), s'))" using q(3-5) by (auto simp: allotted_def)
    then show ?thesis using q(1) by (auto simp: s'_def)
  qed blast
qed

section \<open>The big tier\<close>

lemma active_big_alloc_ok:
  assumes inv: "cache_inv e H D s" and c: "c < NUM_BIG"
  shows "active_big_alloc c s = (None, set_bactive c (gl_big (snd s) ! c, active_new) s) \<and> av_bin (bactive (fst s) ! c) = bin_new
    \<or> (\<exists>x s'. active_big_alloc c s = (Some x, s') \<and> allotted e Big c H s D (Some (x, s')))"
proof -
  let ?b = "bigbins (fst s) ! c" and ?h = "gl_big (snd s) ! c" and ?a = "bactive (fst s) ! c"
  have l: "length (bigbins (fst s)) = NUM_BIG" "length (bactive (fst s)) = NUM_BIG" "length (gl_big (snd s)) = NUM_BIG"
    using inv by (simp_all add: cache_inv_def shape_ok_def)
  have ok: "big_ok e c (H Big c) (D Big c) s" using inv c by (simp add: cache_inv_def)
  then have pr: "pair_state (big_st e c) (ce_big_at e) ?h ?b (av_span ?a) (av_bin ?a) (H Big c) (D Big c)" by (simp add: big_ok_def)
  from bigs.pair_pop_active [unfolded bt_owner_tiers, OF pr] show ?thesis
  proof (elim disjE exE conjE)
    fix p z a' assume q: "bin_pop ?h (av_bin ?a) = (Some (p, z), a')" "b_len (av_bin ?a) = Suc (b_len a')" "p \<notin> H Big c" "p \<noteq> 0"
      "z \<longrightarrow> p \<notin> D Big c" "pair_state (big_st e c) (ce_big_at e) ?h ?b (av_span ?a) a' (insert p (H Big c)) (D Big c)"
    define s' where "s' = popped_tier_bytes (BIG_CLASSES ! c) (set_bactive c (?h, ?a\<lparr>av_bin := a'\<rparr>) s)"
    have r: "active_big_alloc c s = (Some (p, z), s')" using q(1) by (simp add: active_big_alloc_def s'_def Let_def)
    have same: "same_small s s'" "same_medium s s'" by (simp_all add: sames s'_def popped_tier_bytes_def set_bactive_def)
    have bytes: "BIG_CLASSES ! c * b_len (av_bin ?a) \<le> tier_cached_bytes (fst s)" "tier_cached_bytes (fst s) \<le> cached_bytes (fst s)"
      using inv weigh_part [of c BIG_CLASSES "active_lens (bactive (fst s))"] c l by (simp_all add: cache_inv_def bytes_ok_def actual_tier_bytes_def)
    then have cb: "tier_cached_bytes (fst s') + BIG_CLASSES ! c = tier_cached_bytes (fst s)" "cached_bytes (fst s') + BIG_CLASSES ! c = cached_bytes (fst s)"
      using q(2) by (auto simp: s'_def popped_tier_bytes_def set_bactive_def wrap_sub_def)
    have "cache_inv e (upd Big c (insert p (H Big c)) H) (upd Big c (D Big c) D) s'"
      by (rule cache_inv_big [OF inv c, of ?h ?b "?a\<lparr>av_bin := a'\<rparr>"])
         (use q(2,6) cb same c l ok in \<open>simp_all add: s'_def popped_tier_bytes_def set_bactive_def big_ok_def\<close>)
    moreover have "cache_kept H s D s' (upd Big c (D Big c) D)"
      by (rule cache_kept_big [of c s s' ?h, OF _ same]) (use c l in \<open>simp_all add: s'_def popped_tier_bytes_def set_bactive_def\<close>)
    ultimately show ?thesis using r q(3-5) by (auto simp: allotted_def)
  qed (simp add: active_big_alloc_def Let_def)
qed

lemma bin_big_pop:
  assumes inv: "cache_inv e H D s" and c: "c < NUM_BIG"
  shows "bin_pop (gl_big (snd s) ! c) (bigbins (fst s) ! c) = (None, bigbins (fst s) ! c) \<and> bigbins (fst s) ! c = bin_new
    \<or> (\<exists>x b'. bin_pop (gl_big (snd s) ! c) (bigbins (fst s) ! c) = (Some x, b')
         \<and> allotted e Big c H s D (Some (x, popped_tier_bytes (BIG_CLASSES ! c) (set_bbin c (gl_big (snd s) ! c, b') s))))"
proof -
  let ?b = "bigbins (fst s) ! c" and ?h = "gl_big (snd s) ! c" and ?a = "bactive (fst s) ! c"
  have l: "length (bigbins (fst s)) = NUM_BIG" "length (bactive (fst s)) = NUM_BIG" "length (gl_big (snd s)) = NUM_BIG"
    using inv by (simp_all add: cache_inv_def shape_ok_def)
  have ok: "big_ok e c (H Big c) (D Big c) s" using inv c by (simp add: cache_inv_def)
  then have pr: "pair_state (big_st e c) (ce_big_at e) ?h ?b (av_span ?a) (av_bin ?a) (H Big c) (D Big c)" by (simp add: big_ok_def)
  from bigs.pair_pop_bin [unfolded bt_owner_tiers, OF pr] show ?thesis
  proof (elim disjE exE conjE)
    fix p z b' assume q: "bin_pop ?h ?b = (Some (p, z), b')" "b_len ?b = Suc (b_len b')" "p \<notin> H Big c" "p \<noteq> 0"
      "z \<longrightarrow> p \<notin> D Big c" "pair_state (big_st e c) (ce_big_at e) ?h b' (av_span ?a) (av_bin ?a) (insert p (H Big c)) (D Big c)"
    define s' where "s' = popped_tier_bytes (BIG_CLASSES ! c) (set_bbin c (?h, b') s)"
    have same: "same_small s s'" "same_medium s s'" by (simp_all add: sames s'_def popped_tier_bytes_def set_bbin_def)
    have bytes: "BIG_CLASSES ! c * b_len ?b \<le> tier_cached_bytes (fst s)" "tier_cached_bytes (fst s) \<le> cached_bytes (fst s)"
      using inv weigh_part [of c BIG_CLASSES "lens_of (bigbins (fst s))"] c l by (simp_all add: cache_inv_def bytes_ok_def actual_tier_bytes_def)
    then have cb: "tier_cached_bytes (fst s') + BIG_CLASSES ! c = tier_cached_bytes (fst s)" "cached_bytes (fst s') + BIG_CLASSES ! c = cached_bytes (fst s)"
      using q(2) by (auto simp: s'_def popped_tier_bytes_def set_bbin_def wrap_sub_def)
    have "cache_inv e (upd Big c (insert p (H Big c)) H) (upd Big c (D Big c) D) s'"
      by (rule cache_inv_big [OF inv c, of ?h b' ?a])
         (use q(2,6) cb same c l ok in \<open>simp_all add: s'_def popped_tier_bytes_def set_bbin_def big_ok_def\<close>)
    moreover have "cache_kept H s D s' (upd Big c (D Big c) D)"
      by (rule cache_kept_big [of c s s' ?h, OF _ same]) (use c l in \<open>simp_all add: s'_def popped_tier_bytes_def set_bbin_def\<close>)
    ultimately have "allotted e Big c H s D (Some ((p, z), s'))" using q(3-5) by (auto simp: allotted_def)
    then show ?thesis using q(1) by (auto simp: s'_def)
  qed blast
qed

end
