(* ===== verification/Cache_Spans.thy ===== *)
theory Cache_Spans
  imports Cache_Alloc
begin

text \<open>
  Allocation of medium and big blocks: the retry, the batch of a span, the claim walk that also finds out
  whether the batch is of a single span, and the choice between active span and bin.
\<close>

section \<open>Splitting the first block off\<close>

context class_store
begin

lemma bin_state_poke_owned:
  assumes "bin_state store h b H D" "p \<in> H" "chain_owned own (words h) (b_head b) sp"
  shows "chain_owned own ((words h)(p := x)) (b_head b) sp"
proof -
  obtain lv xs where *: "bin_holds (words h) lv D b xs" "H = lv - set xs" using assms(1) by (auto simp: bin_state_def)
  have ch: "chain (words h) (b_head b) xs" using *(1) by (simp add: bin_holds_def)
  have "chain ((words h)(p := x)) (b_head b) xs = chain (words h) (b_head b) xs"
    by (rule chain_cong) (use assms(2) *(2) in auto)
  then show ?thesis using ch assms(3) unfolding chain_owned_def by (metis chain_unique)
qed

lemma bin_state_split:
  assumes "bin_state store h (batch ch n v) H D" "ch \<noteq> 0" "0 < n"
  shows "ch \<notin> H" "v \<longrightarrow> ch \<notin> D"
    "bin_state store (poke ((words h)(ch := 0)) h) (batch (words h ch) (n - 1) v) (insert ch H) D"
    "chain_owned own (words h) ch sp \<Longrightarrow> chain_owned own ((words h)(ch := 0)) (words h ch) sp"
proof -
  have p: "ch \<notin> H \<and> (v \<longrightarrow> ch \<notin> D) \<and> bin_state store h (batch (words h ch) (n - 1) v) (insert ch H) D"
    using bin_state_pop [OF assms(1)] bin_pop_batch [OF assms(2,3), of h v] by auto
  then show "ch \<notin> H" "v \<longrightarrow> ch \<notin> D" by simp_all
  show "bin_state store (poke ((words h)(ch := 0)) h) (batch (words h ch) (n - 1) v) (insert ch H) D"
    using bin_state_poke [of h _ "insert ch H" D ch] p by blast
  show "chain_owned own ((words h)(ch := 0)) (words h ch) sp" if "chain_owned own (words h) ch sp"
    using bin_state_poke_owned [of h "batch (words h ch) (n - 1) v" "insert ch H" D ch own sp 0] p
      chain_owned_tail [OF that assms(2)] by (simp add: batch_def)
qed

lemma bin_state_batch_chain:
  assumes "bin_state store h (batch ch n v) H D"
  obtains xs where "chain (words h) ch xs" "length xs = n"
  using assms by (auto simp: bin_state_def bin_holds_def batch_def)

end

section \<open>The claim walks\<close>

lemma relisted_words: "relisted c hs hs' \<Longrightarrow> c < length hs \<Longrightarrow> words (hs' ! c) = words (hs ! c)"
  unfolding relisted_def using reowned_words by fastforce

lemma claim_span_ok: "claimed_medium c s (claim_span c p s)"
  using claim_medium_tid by (auto simp: claim_span_def split: prod.splits)

lemma claim_spans_ok:
  assumes "claim_spans e c k b source single claimed s = ((source', single'), s')"
    "chain (words (gl_medium (snd s) ! c)) b xs" "length xs = k" "c < length (gl_medium (snd s))"
  shows "claimed_medium c s s' \<and> (single' \<longrightarrow> single \<and> (\<forall>x \<in> set xs. ce_span_at e x = source') \<and> (source \<noteq> null \<longrightarrow> source' = source))"
  using assms
proof (induction xs arbitrary: k b source single claimed s)
  case Nil
  then show ?case using claimed_medium_inert [OF inert_refl] by auto
next
  case (Cons x xs)
  let ?sp = "ce_span_at e b"
  define s1 where "s1 = (if ?sp \<noteq> null \<and> ?sp \<noteq> claimed then claim_span c ?sp s else s)"
  have b: "b = x" "b \<noteq> 0" "chain (words (gl_medium (snd s) ! c)) (words (gl_medium (snd s) ! c) b) xs" "k = Suc (length xs)"
    using Cons.prems(2,3) by auto
  have cl: "claimed_medium c s s1" using claim_span_ok claimed_medium_inert [OF inert_refl] by (simp add: s1_def)
  then have rl: "relisted c (gl_medium (snd s)) (gl_medium (snd s1))" by (simp add: claimed_medium_def)
  have c1: "c < length (gl_medium (snd s1))" using relisted_length [OF rl] Cons.prems(4) by simp
  have w: "words (gl_medium (snd s1) ! c) = words (gl_medium (snd s) ! c)" using relisted_words [OF rl Cons.prems(4)] .
  have ch: "chain (words (gl_medium (snd s1) ! c)) (words (gl_medium (snd s1) ! c) b) xs" using b(3) w by simp
  have tr: "claimed_medium c s s'" if "claimed_medium c s1 s'" for s'
    using claimed_medium_trans [OF cl that Cons.prems(4)] .
  show ?case
  proof (cases "?sp = null")
    case True
    then have "claim_spans e c (length xs) (words (gl_medium (snd s1) ! c) b) source False claimed s1 = ((source', single'), s')"
      using Cons.prems(1) b(2,4) by (simp add: s1_def Let_def)
    from Cons.IH [OF this ch refl c1] show ?thesis using tr by auto
  next
    case False
    then have "claim_spans e c (length xs) (words (gl_medium (snd s1) ! c) b) (if source = null then ?sp else source)
        (if source \<noteq> null \<and> source \<noteq> ?sp then False else single) ?sp s1 = ((source', single'), s')"
      using Cons.prems(1) b(2,4) by (simp add: s1_def Let_def)
    from Cons.IH [OF this ch refl c1] show ?thesis using tr b(1) False by (auto split: if_splits)
  qed
qed

lemma claim_bigs_ok:
  assumes "c < length (gl_big (snd s))"
  shows "claimed_big c s (claim_bigs e c k b s)"
  using assms
proof (induction k arbitrary: b s)
  case (Suc k)
  let ?sp = "ce_big_at e b"
  define s1 where "s1 = (if ?sp \<noteq> null then
    let (i, (tc, g)) = tid s in (tc, g\<lparr>gl_big := (gl_big g)[c := set_owner ?sp i (gl_big g ! c)]\<rparr>) else s)"
  have st: "claimed_big c s s1"
    using claimed_big_inert [OF inert_refl] claim_big_tid by (auto simp: s1_def split: prod.splits)
  then have "length (gl_big (snd s1)) = length (gl_big (snd s))" unfolding claimed_big_def by (blast dest: relisted_length)
  then have "c < length (gl_big (snd s1))" using Suc.prems by simp
  from claimed_big_trans [OF st Suc.IH [OF this] Suc.prems] show ?case
    using claimed_big_inert [OF inert_refl] by (simp add: s1_def Let_def)
qed (simp add: claimed_big_inert)

lemma all_from_ok: "chain w b xs \<Longrightarrow> all_from e w source (length xs) b \<Longrightarrow> \<forall>x \<in> set xs. ce_big_at e x = source"
  by (induction xs arbitrary: b) (auto split: if_splits)

text \<open>A batch claimed: only owners changed, and a single source owns every block.\<close>

lemma claimed_batch:
  assumes "claim_spans e c n ch null True null s2 = ((source, single), s3)" "c < length (gl_medium (snd s2))"
    and "bin_state (medium_st e' c) (gl_medium (snd s2) ! c) (batch ch n v) X Y"
  obtains h3 where "reowned (gl_medium (snd s2) ! c) h3" "gl_medium (snd s3) = (gl_medium (snd s2))[c := h3]"
    "mbins (fst s3) = mbins (fst s2)" "mactive (fst s3) = mactive (fst s2)" "same_small s2 s3" "same_big s2 s3"
    "cached_bytes (fst s3) = cached_bytes (fst s2)" "tier_cached_bytes (fst s3) = tier_cached_bytes (fst s2)"
    "single \<Longrightarrow> chain_owned (ce_span_at e) (words (gl_medium (snd s2) ! c)) ch source"
proof -
  obtain xs where xs: "chain (words (gl_medium (snd s2) ! c)) ch xs" "length xs = n"
    using mediums.bin_state_batch_chain [OF assms(3)] .
  note cl = claim_spans_ok [OF assms(1) xs assms(2)]
  from cl obtain h3 where h3: "reowned (gl_medium (snd s2) ! c) h3" "gl_medium (snd s3) = (gl_medium (snd s2))[c := h3]"
    unfolding claimed_medium_def relisted_def by blast
  have "chain_owned (ce_span_at e) (words (gl_medium (snd s2) ! c)) ch source" if single
    using cl that xs(1) unfolding chain_owned_def by (metis chain_unique)
  then show thesis using that [OF h3] cl by (simp add: claimed_medium_def)
qed

section \<open>The medium tier\<close>

text \<open>After shedding the class is as empty as it was.\<close>

lemma pressed_medium:
  assumes inv: "cache_inv e H D1 s1" and c: "c < NUM_MEDIUM" and le: "lens_le (fst s1) (fst s)"
    and b: "mbins (fst s) ! c = bin_new" "av_bin (mactive (fst s) ! c) = bin_new"
  shows "mbins (fst s1) ! c = bin_new" "av_bin (mactive (fst s1) ! c) = bin_new"
    "bin_state (medium_st e c) (gl_medium (snd s1) ! c) bin_new (H Medium c) (D1 Medium c)"
proof -
  have pr: "pair_state (medium_st e c) (ce_span_at e) (gl_medium (snd s1) ! c) (mbins (fst s1) ! c) (av_span (mactive (fst s1) ! c))
      (av_bin (mactive (fst s1) ! c)) (H Medium c) (D1 Medium c)"
    using inv c by (simp add: cache_inv_def medium_ok_def)
  have "b_len (mbins (fst s1) ! c) = 0" "b_len (av_bin (mactive (fst s1) ! c)) = 0"
    using le b unfolding lens_le_def by (metis bin.select_convs(2) bin_new_def le_zero_eq)+
  then show e: "mbins (fst s1) ! c = bin_new" "av_bin (mactive (fst s1) ! c) = bin_new" using pair_state_empty [OF pr] by simp_all
  show "bin_state (medium_st e c) (gl_medium (snd s1) ! c) bin_new (H Medium c) (D1 Medium c)" using pr by (simp add: e pair_state_new)
qed

text \<open>The first block of the batch goes to the program, the rest to the bin or the active span.\<close>

lemma served_medium:
  assumes inv: "cache_inv e H D1 s1" and c: "c < NUM_MEDIUM"
    and b: "mbins (fst s1) ! c = bin_new" "av_bin (mactive (fst s1) ! c) = bin_new"
    and ch: "ch \<noteq> null" "ch \<notin> H Medium c" "v \<longrightarrow> ch \<notin> D'"
    and kp: "kept (H Medium c) (words (gl_medium (snd s1) ! c)) (D1 Medium c) (words h4) D'"
    and s4: "mbins (fst s4) = (mbins (fst s1))[c := b4]" "mactive (fst s4) = (mactive (fst s1))[c := a4]"
      "gl_medium (snd s4) = (gl_medium (snd s1))[c := h4]" "same_small s1 s4" "same_big s1 s4"
      "pair_state (medium_st e c) (ce_span_at e) h4 b4 (av_span a4) (av_bin a4) (insert ch (H Medium c)) D'"
      "b_len b4 + b_len (av_bin a4) = n - 1"
      "cached_bytes (fst s4) = cached_bytes (fst s1) + MEDIUM_CLASSES ! c * (n - 1)"
      "tier_cached_bytes (fst s4) = tier_cached_bytes (fst s1) + MEDIUM_CLASSES ! c * (n - 1)"
  shows "allotted e Medium c H s1 D1 (Some ((ch, v), s4))"
proof -
  have l: "length (gl_medium (snd s1)) = NUM_MEDIUM" using inv by (simp add: cache_inv_def shape_ok_def)
  have "cache_inv e (upd Medium c (insert ch (H Medium c)) H) (upd Medium c D' D1) s4"
    by (rule cache_inv_medium [OF inv c s4(6,1,2,3,4,5)]) (use s4(7-9) in \<open>simp_all add: b bin_new_def\<close>)
  moreover have "cache_kept H s1 D1 s4 (upd Medium c D' D1)"
    by (rule cache_kept_medium [of c s1 s4 h4, OF _ s4(4,5,3)]) (use c l kp in simp_all)
  ultimately show ?thesis using ch by (auto simp: allotted_def)
qed

text \<open>The range the system would grant, and the lookup, are as \<open>medium_fresh\<close> asks when a span is taken.\<close>

definition medium_grant :: "cache_env \<Rightarrow> nat \<Rightarrow> cache_state \<Rightarrow> bool" where
  "medium_grant e c s \<longleftrightarrow> (\<forall>lv d. medium_st e c (gl_medium (snd s) ! c) lv d
     \<longrightarrow> medium_fresh (ce_in_arena e) (ce_span_at e) c (ce_medium e) (gl_medium (snd s) ! c) lv)"

text \<open>What the heap answers a refill.\<close>

lemma asked_medium:
  assumes bs: "bin_state (medium_st e c) (gl_medium (snd s1) ! c) bin_new X Y" and fr: "medium_grant e c s1"
  shows "medium_take (ce_in_arena e) c (ce_medium e) (gl_medium (snd s1) ! c) = Some (gl_medium (snd s1) ! c, null, 0, False)
    \<or> (\<exists>h' ch n v Y'. medium_take (ce_in_arena e) c (ce_medium e) (gl_medium (snd s1) ! c) = Some (h', ch, n, v) \<and> ch \<noteq> null \<and> 0 < n
        \<and> bin_state (medium_st e c) h' (batch ch n v) X Y' \<and> kept X (words (gl_medium (snd s1) ! c)) Y (words h') Y')"
proof (rule mediums.bin_state_take [OF bs])
  show "medium_fresh (ce_in_arena e) (ce_span_at e) c (ce_medium e) (gl_medium (snd s1) ! c) lv" if "medium_st e c (gl_medium (snd s1) ! c) lv d" for lv d
    using fr that unfolding medium_grant_def by blast
qed

lemma pop_medium_ok:
  assumes inv: "cache_inv e H D s" and c: "c < NUM_MEDIUM"
  shows "pop_medium c s = (None, s) \<and> mbins (fst s) ! c = bin_new \<and> av_bin (mactive (fst s) ! c) = bin_new
    \<or> (\<exists>x s'. pop_medium c s = (Some x, s') \<and> allotted e Medium c H s D (Some (x, s')))"
  using active_medium_alloc_ok [OF inv c] bin_medium_pop [OF inv c] by (fastforce simp: pop_medium_def)

lemma mrefill_take_ok:
  assumes inv: "cache_inv e H D s" and c: "c < NUM_MEDIUM" and b: "mbins (fst s) ! c = bin_new" "av_bin (mactive (fst s) ! c) = bin_new"
    and fr: "\<And>s1. press e s = Some s1 \<Longrightarrow> medium_grant e c s1"
  shows "allotted e Medium c H s D (mrefill_take e c s)"
proof -
  obtain s1 D1 where s1: "press e s = Some s1" "cache_inv e H D1 s1" "cache_kept H s D s1 D1" "lens_le (fst s1) (fst s)"
    using press_ok [OF inv] unfolding shed_some_def by blast
  let ?h = "gl_medium (snd s1) ! c"
  note inv1 = s1(2) and b1 = pressed_medium [OF s1(2) c s1(4) b]
  have l: "length (mbins (fst s1)) = NUM_MEDIUM" "length (mactive (fst s1)) = NUM_MEDIUM" "length (gl_medium (snd s1)) = NUM_MEDIUM"
    using inv1 by (simp_all add: cache_inv_def shape_ok_def)
  from asked_medium [OF b1(3) fr [OF s1(1)]] have "allotted e Medium c H s1 D1 (mrefill_take e c s)"
  proof (elim disjE exE conjE)
    assume "medium_take (ce_in_arena e) c (ce_medium e) ?h = Some (?h, null, 0, False)"
    then have "mrefill_take e c s = Some ((null, False), s1)" using s1(1) by (simp add: mrefill_take_def Let_def)
    then show ?thesis using inv1 by (auto simp: allotted_def intro!: exI [of _ D1])
  next
    fix h' ch n v D' assume t: "medium_take (ce_in_arena e) c (ce_medium e) ?h = Some (h', ch, n, v)" "ch \<noteq> null" "0 < n"
      "bin_state (medium_st e c) h' (batch ch n v) (H Medium c) D'" "kept (H Medium c) (words ?h) (D1 Medium c) (words h') D'"
    define s2 where "s2 = (fst s1, (snd s1)\<lparr>gl_medium := (gl_medium (snd s1))[c := h']\<rparr>)"
    obtain source single s3 where cs: "claim_spans e c n ch null True null s2 = ((source, single), s3)" by (metis surj_pair)
    have "c < length (gl_medium (snd s2))" using c l by (simp add: s2_def)
    moreover have g2: "gl_medium (snd s2) ! c = h'" using c l by (simp add: s2_def)
    moreover have "bin_state (medium_st e c) (gl_medium (snd s2) ! c) (batch ch n v) (H Medium c) D'" using t(4) by (simp add: g2)
    ultimately obtain h3 where "reowned h' h3" "gl_medium (snd s3) = (gl_medium (snd s2))[c := h3]"
      "mbins (fst s3) = mbins (fst s2)" "mactive (fst s3) = mactive (fst s2)" "same_small s2 s3" "same_big s2 s3"
      "cached_bytes (fst s3) = cached_bytes (fst s2)" "tier_cached_bytes (fst s3) = tier_cached_bytes (fst s2)"
      "single \<Longrightarrow> chain_owned (ce_span_at e) (words h') ch source"
      using claimed_batch [OF cs] by metis
    then have
      h3: "reowned h' h3" "gl_medium (snd s3) = (gl_medium (snd s1))[c := h3]" "mbins (fst s3) = mbins (fst s1)"
      "mactive (fst s3) = mactive (fst s1)" "same_small s1 s3" "same_big s1 s3" "cached_bytes (fst s3) = cached_bytes (fst s1)"
      "tier_cached_bytes (fst s3) = tier_cached_bytes (fst s1)" "single \<Longrightarrow> chain_owned (ce_span_at e) (words h') ch source"
      by (simp_all add: s2_def sames)
    have w3: "words h3 = words h'" by (rule reowned_words [OF h3(1)])
    define h4 where "h4 = poke ((words h3)(ch := null)) h3"
    let ?b = "batch (words h3 ch) (n - 1) v"
    have "bin_state (medium_st e c) h3 (batch ch n v) (H Medium c) D'" using mediums.reowned_bin h3(1) t(4) by blast
    note p = mediums.bin_state_split [OF this t(2,3), folded h4_def]
    have kp: "kept (H Medium c) (words ?h) (D1 Medium c) (words h4) D'"
      using t(5) p(1) by (auto simp: kept_def h4_def w3)
    note srv = served_medium [OF inv1 c b1(1,2) t(2) p(1,2) kp]
    show ?thesis
    proof (cases single)
      case True
      have co: "chain_owned (ce_span_at e) (words h4) (words h3 ch) source" using p(4) h3(9) [OF True] by (simp add: h4_def w3)
      define a4 where "a4 = \<lparr>av_span = source, av_base = source,
        av_end = source + span_mapped_bytes (hdr_at (fst (fst h4)) source), av_bin = ?b\<rparr>"
      define s4 where "s4 = set_mbin c (h4, bin_new) (set_mactive c (h4, a4) (more_tier_bytes (MEDIUM_CLASSES ! c * (n - 1)) s3))"
      have "mrefill_take e c s = Some ((ch, v), s4)"
        using s1(1) t(1,2) cs True h3(2,3) b1(1) c l
        by (simp add: mrefill_take_def Let_def s4_def a4_def h4_def batch_def bin_new_def more_tier_bytes_def set_mactive_def flip: s2_def)
      moreover have "allotted e Medium c H s1 D1 (Some ((ch, v), s4))"
        by (rule srv [where n = n and ?b4.0 = bin_new and ?a4.0 = a4])
           (use p(3) co h3 b1 l c in \<open>simp_all add: s4_def set_mbin_def set_mactive_def more_tier_bytes_def sames a4_def
              pair_state_active_only batch_def, simp add: bin_new_def\<close>)
      ultimately show ?thesis by simp
    next
      case False
      define s4 where "s4 = set_mbin c (h4, ?b) (more_tier_bytes (MEDIUM_CLASSES ! c * (n - 1)) s3)"
      have "mrefill_take e c s = Some ((ch, v), s4)"
        using s1(1) t(1,2) cs False h3(2) c l
        by (simp add: mrefill_take_def Let_def s4_def h4_def batch_def flip: s2_def)
      moreover have "allotted e Medium c H s1 D1 (Some ((ch, v), s4))"
        by (rule srv [where n = n and ?b4.0 = ?b and ?a4.0 = "mactive (fst s1) ! c"])
           (use p(3) h3 b1 l c in \<open>simp_all add: s4_def set_mbin_def more_tier_bytes_def sames pair_state_new, simp add: bin_new_def batch_def\<close>)
      ultimately show ?thesis by simp
    qed
  qed
  then show ?thesis by (rule allotted_from [OF s1(3)])
qed

lemma mrefill_ok:
  assumes inv: "cache_inv e H D s" and c: "c < NUM_MEDIUM" and q: "quiet s"
    and fr: "\<And>s1. press e (settle e s) = Some s1 \<Longrightarrow> medium_grant e c s1"
  shows "allotted e Medium c H s D (mrefill e c s)"
proof -
  have inv1: "cache_inv e H D (settle e s)" using inv inert_inv [OF settle_inert] by simp
  have "allotted e Medium c H (settle e s) D (mrefill e c s)"
    using pop_medium_ok [OF inv1 c]
  proof (elim disjE exE conjE)
    assume "pop_medium c (settle e s) = (None, settle e s)" "mbins (fst (settle e s)) ! c = bin_new"
      "av_bin (mactive (fst (settle e s)) ! c) = bin_new"
    then show ?thesis using mrefill_take_ok [OF inv1 c _ _ fr] prepare_quiet [OF q] by (simp add: mrefill_def)
  next
    fix x s' assume "pop_medium c (settle e s) = (Some x, s')" "allotted e Medium c H (settle e s) D (Some (x, s'))"
    then show ?thesis using prepare_quiet [OF q] by (simp add: mrefill_def)
  qed
  then show ?thesis by (rule allotted_inert [OF settle_inert])
qed

lemma alloc_medium_zeroed_ok:
  assumes "cache_inv e H D s" "c < NUM_MEDIUM" "quiet s" "\<And>s1. press e (settle e s) = Some s1 \<Longrightarrow> medium_grant e c s1"
  shows "allotted e Medium c H s D (alloc_medium_zeroed e c s)"
  using pop_medium_ok [OF assms(1,2)] mrefill_ok [OF assms] by (auto simp: alloc_medium_zeroed_def)

section \<open>The big tier\<close>

text \<open>After shedding the class is as empty as it was.\<close>

lemma pressed_big:
  assumes inv: "cache_inv e H D1 s1" and c: "c < NUM_BIG" and le: "lens_le (fst s1) (fst s)"
    and b: "bigbins (fst s) ! c = bin_new" "av_bin (bactive (fst s) ! c) = bin_new"
  shows "bigbins (fst s1) ! c = bin_new" "av_bin (bactive (fst s1) ! c) = bin_new"
    "bin_state (big_st e c) (gl_big (snd s1) ! c) bin_new (H Big c) (D1 Big c)"
proof -
  have pr: "pair_state (big_st e c) (ce_big_at e) (gl_big (snd s1) ! c) (bigbins (fst s1) ! c) (av_span (bactive (fst s1) ! c))
      (av_bin (bactive (fst s1) ! c)) (H Big c) (D1 Big c)"
    using inv c by (simp add: cache_inv_def big_ok_def)
  have "b_len (bigbins (fst s1) ! c) = 0" "b_len (av_bin (bactive (fst s1) ! c)) = 0"
    using le b unfolding lens_le_def by (metis bin.select_convs(2) bin_new_def le_zero_eq)+
  then show e: "bigbins (fst s1) ! c = bin_new" "av_bin (bactive (fst s1) ! c) = bin_new" using pair_state_empty [OF pr] by simp_all
  show "bin_state (big_st e c) (gl_big (snd s1) ! c) bin_new (H Big c) (D1 Big c)" using pr by (simp add: e pair_state_new)
qed

text \<open>The first block of the batch goes to the program, the rest to the bin or the active span.\<close>

lemma served_big:
  assumes inv: "cache_inv e H D1 s1" and c: "c < NUM_BIG"
    and b: "bigbins (fst s1) ! c = bin_new" "av_bin (bactive (fst s1) ! c) = bin_new"
    and ch: "ch \<noteq> null" "ch \<notin> H Big c" "v \<longrightarrow> ch \<notin> D'"
    and kp: "kept (H Big c) (words (gl_big (snd s1) ! c)) (D1 Big c) (words h4) D'"
    and s4: "bigbins (fst s4) = (bigbins (fst s1))[c := b4]" "bactive (fst s4) = (bactive (fst s1))[c := a4]"
      "gl_big (snd s4) = (gl_big (snd s1))[c := h4]" "same_small s1 s4" "same_medium s1 s4"
      "pair_state (big_st e c) (ce_big_at e) h4 b4 (av_span a4) (av_bin a4) (insert ch (H Big c)) D'"
      "b_len (av_bin a4) \<noteq> 0 \<longrightarrow> av_span a4 \<noteq> null"
      "b_len b4 + b_len (av_bin a4) = n - 1"
      "cached_bytes (fst s4) = cached_bytes (fst s1) + BIG_CLASSES ! c * (n - 1)"
      "tier_cached_bytes (fst s4) = tier_cached_bytes (fst s1) + BIG_CLASSES ! c * (n - 1)"
  shows "allotted e Big c H s1 D1 (Some ((ch, v), s4))"
proof -
  have l: "length (gl_big (snd s1)) = NUM_BIG" using inv by (simp add: cache_inv_def shape_ok_def)
  have "cache_inv e (upd Big c (insert ch (H Big c)) H) (upd Big c D' D1) s4"
    by (rule cache_inv_big [OF inv c s4(6,7,1,2,3,4,5)]) (use s4(8-10) in \<open>simp_all add: b bin_new_def\<close>)
  moreover have "cache_kept H s1 D1 s4 (upd Big c D' D1)"
    by (rule cache_kept_big [of c s1 s4 h4, OF _ s4(4,5,3)]) (use c l kp in simp_all)
  ultimately show ?thesis using ch by (auto simp: allotted_def)
qed

text \<open>The range the system would grant, and the lookup, are as \<open>big_fresh\<close> asks when a span is taken.\<close>

definition big_grant :: "cache_env \<Rightarrow> nat \<Rightarrow> cache_state \<Rightarrow> bool" where
  "big_grant e c s \<longleftrightarrow> (\<forall>lv d. big_st e c (gl_big (snd s) ! c) lv d
     \<longrightarrow> big_fresh (ce_big_at e) c (ce_big e) (gl_big (snd s) ! c) lv)"

text \<open>What the heap answers a refill.\<close>

lemma asked_big:
  assumes bs: "bin_state (big_st e c) (gl_big (snd s1) ! c) bin_new X Y" and fr: "big_grant e c s1"
  shows "big_take c (ce_big e) (gl_big (snd s1) ! c) = Some (gl_big (snd s1) ! c, null, 0, False)
    \<or> (\<exists>h' ch n v Y'. big_take c (ce_big e) (gl_big (snd s1) ! c) = Some (h', ch, n, v) \<and> ch \<noteq> null \<and> 0 < n
        \<and> bin_state (big_st e c) h' (batch ch n v) X Y' \<and> kept X (words (gl_big (snd s1) ! c)) Y (words h') Y')"
proof (rule bigs.bin_state_take [OF bs])
  show "big_fresh (ce_big_at e) c (ce_big e) (gl_big (snd s1) ! c) lv" if "big_st e c (gl_big (snd s1) ! c) lv d" for lv d
    using fr that unfolding big_grant_def by blast
qed

lemma reset_active_big:
  assumes inv: "cache_inv e H D s" and c: "c < NUM_BIG" and a: "av_bin (bactive (fst s) ! c) = bin_new"
  defines "s' \<equiv> set_bactive c (gl_big (snd s) ! c, active_new) s"
  shows "cache_inv e H D s'" "cache_kept H s D s' D" "quiet s' = quiet s"
    "bigbins (fst s') = bigbins (fst s)" "av_bin (bactive (fst s') ! c) = bin_new"
proof -
  let ?h = "gl_big (snd s) ! c"
  have l: "length (bactive (fst s)) = NUM_BIG" "length (gl_big (snd s)) = NUM_BIG"
    using inv by (simp_all add: cache_inv_def shape_ok_def)
  have "big_ok e c (H Big c) (D Big c) s" using inv c by (simp add: cache_inv_def)
  then have "pair_state (big_st e c) (ce_big_at e) ?h (bigbins (fst s) ! c) (av_span active_new) (av_bin active_new) (H Big c) (D Big c)"
    by (simp add: big_ok_def a active_new_def pair_state_new)
  from cache_inv_big [OF inv c this, of s'] show "cache_inv e H D s'"
    using c l a by (simp add: s'_def set_bactive_def sames active_new_def bin_new_def)
  have "snd s' = snd s" using c l by (simp add: s'_def set_bactive_def)
  then show "cache_kept H s D s' D" "quiet s' = quiet s" by (simp_all add: cache_kept_def quiet_def) (simp add: s'_def set_bactive_def)
  show "bigbins (fst s') = bigbins (fst s)" "av_bin (bactive (fst s') ! c) = bin_new"
    using c l by (simp_all add: s'_def set_bactive_def active_new_def)
qed

definition big_emptied :: "cache_env \<Rightarrow> nat \<Rightarrow> blocks \<Rightarrow> cache_state \<Rightarrow> blocks \<Rightarrow> cache_state \<Rightarrow> bool" where
  "big_emptied e c H s D s' \<longleftrightarrow> cache_inv e H D s' \<and> cache_kept H s D s' D \<and> quiet s' = quiet s
     \<and> bigbins (fst s') ! c = bin_new \<and> av_bin (bactive (fst s') ! c) = bin_new"

lemma pop_big_ok:
  assumes inv: "cache_inv e H D s" and c: "c < NUM_BIG"
  shows "\<exists>r s'. pop_big c s = (r, s')
    \<and> (case r of None \<Rightarrow> big_emptied e c H s D s' | Some x \<Rightarrow> allotted e Big c H s D (Some (x, s')))"
  using active_big_alloc_ok [OF inv c]
proof (elim disjE exE conjE)
  fix x s' assume "active_big_alloc c s = (Some x, s')" "allotted e Big c H s D (Some (x, s'))"
  then show ?thesis by (simp add: pop_big_def)
next
  assume n: "active_big_alloc c s = (None, set_bactive c (gl_big (snd s) ! c, active_new) s)" "av_bin (bactive (fst s) ! c) = bin_new"
  define s1 where "s1 = set_bactive c (gl_big (snd s) ! c, active_new) s"
  note r = reset_active_big [OF inv c n(2), folded s1_def]
  from bin_big_pop [OF r(1) c] show ?thesis
  proof (elim disjE exE conjE)
    assume "bin_pop (gl_big (snd s1) ! c) (bigbins (fst s1) ! c) = (None, bigbins (fst s1) ! c)" "bigbins (fst s1) ! c = bin_new"
    then show ?thesis using n(1) r by (simp add: pop_big_def big_emptied_def flip: s1_def)
  next
    fix x b' assume "bin_pop (gl_big (snd s1) ! c) (bigbins (fst s1) ! c) = (Some x, b')"
      "allotted e Big c H s1 D (Some (x, popped_tier_bytes (BIG_CLASSES ! c) (set_bbin c (gl_big (snd s1) ! c, b') s1)))"
    then show ?thesis using n(1) allotted_from [OF r(2)] by (simp add: pop_big_def flip: s1_def)
  qed
qed

text \<open>The walk over the rest of the batch, after the claims.\<close>

lemma single_big:
  assumes "bin_state (big_st e' c) h (batch ch n v) X Y" "0 < n" "ch \<noteq> null"
    and "ce_big_at e ch = source" "all_from e (words h) source (n - 1) (words h ch)"
  shows "chain_owned (ce_big_at e) (words h) ch source"
proof -
  obtain xs where xs: "chain (words h) ch xs" "length xs = n" using bigs.bin_state_batch_chain [OF assms(1)] .
  then obtain ys where ys: "xs = ch # ys" "chain (words h) (words h ch) ys" "n - 1 = length ys"
    using assms(2,3) by (cases xs) auto
  have "\<forall>x \<in> set xs. ce_big_at e x = source"
    using all_from_ok [OF ys(2), of e source] assms(4,5) ys(1,3) by simp
  then show ?thesis using xs(1) unfolding chain_owned_def by (metis chain_unique)
qed

lemma bigrefill_take_ok:
  assumes inv: "cache_inv e H D s" and c: "c < NUM_BIG" and b: "bigbins (fst s) ! c = bin_new" "av_bin (bactive (fst s) ! c) = bin_new"
    and fr: "\<And>s1. press_big e s = Some s1 \<Longrightarrow> big_grant e c s1"
  shows "allotted e Big c H s D (bigrefill_take e c s)"
proof -
  obtain s1 D1 where s1: "press_big e s = Some s1" "cache_inv e H D1 s1" "cache_kept H s D s1 D1" "lens_le (fst s1) (fst s)"
    using press_big_ok [OF inv] unfolding shed_some_def by blast
  let ?h = "gl_big (snd s1) ! c"
  note inv1 = s1(2) and b1 = pressed_big [OF s1(2) c s1(4) b]
  have l: "length (bigbins (fst s1)) = NUM_BIG" "length (bactive (fst s1)) = NUM_BIG" "length (gl_big (snd s1)) = NUM_BIG"
    using inv1 by (simp_all add: cache_inv_def shape_ok_def)
  from asked_big [OF b1(3) fr [OF s1(1)]] have "allotted e Big c H s1 D1 (bigrefill_take e c s)"
  proof (elim disjE exE conjE)
    assume "big_take c (ce_big e) ?h = Some (?h, null, 0, False)"
    then have "bigrefill_take e c s = Some ((null, False), s1)" using s1(1) by (simp add: bigrefill_take_def Let_def)
    then show ?thesis using inv1 by (auto simp: allotted_def intro!: exI [of _ D1])
  next
    fix h' ch n v D' assume t: "big_take c (ce_big e) ?h = Some (h', ch, n, v)" "ch \<noteq> null" "0 < n"
      "bin_state (big_st e c) h' (batch ch n v) (H Big c) D'" "kept (H Big c) (words ?h) (D1 Big c) (words h') D'"
    define s2 where "s2 = (fst s1, (snd s1)\<lparr>gl_big := (gl_big (snd s1))[c := h']\<rparr>)"
    define s3 where "s3 = claim_bigs e c n ch s2"
    have "claimed_big c s2 s3" unfolding s3_def by (rule claim_bigs_ok) (use c l in \<open>simp add: s2_def\<close>)
    then have cl: "relisted c ((gl_big (snd s1))[c := h']) (gl_big (snd s3))" "bigbins (fst s3) = bigbins (fst s1)"
      "bactive (fst s3) = bactive (fst s1)" "same_small s1 s3" "same_medium s1 s3" "cached_bytes (fst s3) = cached_bytes (fst s1)"
      "tier_cached_bytes (fst s3) = tier_cached_bytes (fst s1)"
      by (simp_all add: claimed_big_def s2_def sames)
    from cl(1) c l obtain h3 where h3: "reowned h' h3" "gl_big (snd s3) = (gl_big (snd s1))[c := h3]"
      unfolding relisted_def by auto
    have w3: "words h3 = words h'" by (rule reowned_words [OF h3(1)])
    define h4 where "h4 = poke ((words h3)(ch := null)) h3"
    let ?b = "batch (words h3 ch) (n - 1) v" and ?src = "ce_big_at e ch"
    have bs3: "bin_state (big_st e c) h3 (batch ch n v) (H Big c) D'" using bigs.reowned_bin h3(1) t(4) by blast
    note p = bigs.bin_state_split [OF bs3 t(2,3), folded h4_def]
    have kp: "kept (H Big c) (words ?h) (D1 Big c) (words h4) D'" using t(5) p(1) by (auto simp: kept_def h4_def w3)
    note srv = served_big [OF inv1 c b1(1,2) t(2) p(1,2) kp]
    show ?thesis
    proof (cases "?src \<noteq> null \<and> all_from e (words h3) ?src (n - 1) (words h3 ch)")
      case True
      have co: "chain_owned (ce_big_at e) (words h4) (words h3 ch) ?src"
        using p(4) single_big [OF bs3 t(3,2) refl] True by (simp add: h4_def)
      define a4 where "a4 = \<lparr>av_span = ?src, av_base = ?src,
        av_end = ?src + big_mapped_bytes (hdr_at (fst (fst h4)) ?src), av_bin = ?b\<rparr>"
      define s4 where "s4 = set_bbin c (h4, bin_new) (set_bactive c (h4, a4) (more_tier_bytes (BIG_CLASSES ! c * (n - 1)) s3))"
      have "bigrefill_take e c s = Some ((ch, v), s4)"
        using s1(1) t(1,2) True cl(2) h3(2) b1(1) c l
        by (simp add: bigrefill_take_def Let_def s4_def a4_def h4_def batch_def bin_new_def more_tier_bytes_def set_bactive_def
            flip: s2_def s3_def)
      moreover have "allotted e Big c H s1 D1 (Some ((ch, v), s4))"
        by (rule srv [where n = n and ?b4.0 = bin_new and ?a4.0 = a4])
           (use p(3) co cl h3 b1 l c True in \<open>simp_all add: s4_def set_bbin_def set_bactive_def more_tier_bytes_def sames a4_def
              pair_state_active_only batch_def, simp add: bin_new_def\<close>)
      ultimately show ?thesis by simp
    next
      case False
      define s4 where "s4 = set_bbin c (h4, ?b) (more_tier_bytes (BIG_CLASSES ! c * (n - 1)) s3)"
      have "bigrefill_take e c s = Some ((ch, v), s4)"
        using s1(1) t(1,2) False h3(2) b1(1) cl(2) c l
        by (auto simp: bigrefill_take_def Let_def s4_def h4_def batch_def more_tier_bytes_def bin_new_def simp flip: s2_def s3_def)
      moreover have "allotted e Big c H s1 D1 (Some ((ch, v), s4))"
        by (rule srv [where n = n and ?b4.0 = ?b and ?a4.0 = "bactive (fst s1) ! c"])
           (use p(3) cl h3 b1 l c in \<open>simp_all add: s4_def set_bbin_def more_tier_bytes_def sames pair_state_new, simp_all add: bin_new_def batch_def\<close>)
      ultimately show ?thesis by simp
    qed
  qed
  then show ?thesis by (rule allotted_from [OF s1(3)])
qed

text \<open>The state in which a big refill asks the heap: its two retries forget the drained active span.\<close>

definition big_retried :: "cache_env \<Rightarrow> nat \<Rightarrow> cache_state \<Rightarrow> cache_state" where
  "big_retried e c s = snd (pop_big c (settle e (snd (pop_big c s))))"

lemma bigrefill_ok:
  assumes inv: "cache_inv e H D s" and c: "c < NUM_BIG" and q: "quiet s"
    and fr: "\<And>s1. press_big e (snd (pop_big c (settle e s))) = Some s1 \<Longrightarrow> big_grant e c s1"
  shows "allotted e Big c H s D (bigrefill e c s)"
proof -
  have inv1: "cache_inv e H D (settle e s)" using inv inert_inv [OF settle_inert] by simp
  obtain r s' where p: "pop_big c (settle e s) = (r, s')"
    "case r of None \<Rightarrow> big_emptied e c H (settle e s) D s' | Some x \<Rightarrow> allotted e Big c H (settle e s) D (Some (x, s'))"
    using pop_big_ok [OF inv1 c] by blast
  have "allotted e Big c H (settle e s) D (bigrefill e c s)"
  proof (cases r)
    case None
    then have em: "cache_inv e H D s'" "cache_kept H (settle e s) D s' D" "bigbins (fst s') ! c = bin_new" "av_bin (bactive (fst s') ! c) = bin_new"
      using p(2) by (simp_all add: big_emptied_def)
    have "allotted e Big c H s' D (bigrefill_take e c s')" by (rule bigrefill_take_ok [OF em(1) c em(3,4)]) (rule fr, simp add: p(1))
    then show ?thesis using allotted_from [OF em(2)] p(1) None prepare_quiet [OF q] by (simp add: bigrefill_def)
  next
    case (Some x)
    then show ?thesis using p prepare_quiet [OF q] by (simp add: bigrefill_def)
  qed
  then show ?thesis by (rule allotted_inert [OF settle_inert])
qed

lemma alloc_big_zeroed_ok:
  assumes inv: "cache_inv e H D s" and c: "c < NUM_BIG" and q: "quiet s"
    and fr: "\<And>s1. press_big e (big_retried e c s) = Some s1 \<Longrightarrow> big_grant e c s1"
  shows "allotted e Big c H s D (alloc_big_zeroed e c s)"
proof -
  obtain r s' where p: "pop_big c s = (r, s')"
    "case r of None \<Rightarrow> big_emptied e c H s D s' | Some x \<Rightarrow> allotted e Big c H s D (Some (x, s'))"
    using pop_big_ok [OF inv c] by blast
  show ?thesis
  proof (cases r)
    case None
    then have em: "cache_inv e H D s'" "cache_kept H s D s' D" "quiet s'" using p(2) q by (simp_all add: big_emptied_def)
    have "allotted e Big c H s' D (bigrefill e c s')"
      by (rule bigrefill_ok [OF em(1) c em(3)]) (rule fr, simp add: big_retried_def p(1))
    then show ?thesis using allotted_from [OF em(2)] p(1) None by (simp add: alloc_big_zeroed_def)
  next
    case (Some x)
    then show ?thesis using p by (simp add: alloc_big_zeroed_def)
  qed
qed

section \<open>All tiers\<close>

fun cache_alloc :: "cache_env \<Rightarrow> tier \<Rightarrow> nat \<Rightarrow> cache_state \<Rightarrow> ((addr \<times> bool) \<times> cache_state) option" where
  "cache_alloc e Small c s = alloc_zeroed e c s"
| "cache_alloc e Medium c s = alloc_medium_zeroed e c s"
| "cache_alloc e Big c s = alloc_big_zeroed e c s"

fun cache_alloc_plain :: "cache_env \<Rightarrow> tier \<Rightarrow> nat \<Rightarrow> cache_state \<Rightarrow> (addr \<times> cache_state) option" where
  "cache_alloc_plain e Small c s = alloc e c s"
| "cache_alloc_plain e Medium c s = alloc_medium e c s"
| "cache_alloc_plain e Big c s = alloc_big e c s"

text \<open>In the state in which the heap is asked, what the system would grant is fresh.\<close>

fun grants :: "cache_env \<Rightarrow> tier \<Rightarrow> nat \<Rightarrow> cache_state \<Rightarrow> bool" where
  "grants e Small c s = (\<forall>s1. press e (settle e s) = Some s1 \<longrightarrow> small_grant e c s1)"
| "grants e Medium c s = (\<forall>s1. press e (settle e s) = Some s1 \<longrightarrow> medium_grant e c s1)"
| "grants e Big c s = (\<forall>s1. press_big e (big_retried e c s) = Some s1 \<longrightarrow> big_grant e c s1)"

lemma cache_alloc_facts:
  assumes inv: "cache_inv e H D s" and c: "c < tier_count t" and q: "quiet s" and g: "grants e t c s"
  shows "allotted e t c H s D (cache_alloc e t c s)"
proof (cases t)
  case Small
  then have "allotted e Small c H s D (alloc_zeroed e c s)" using c g by (intro alloc_zeroed_ok [OF inv _ q]) (simp_all del: split_paired_All)
  then show ?thesis using Small by simp
next
  case Medium
  then have "allotted e Medium c H s D (alloc_medium_zeroed e c s)"
    using c g by (intro alloc_medium_zeroed_ok [OF inv _ q]) (simp_all del: split_paired_All)
  then show ?thesis using Medium by simp
next
  case Big
  then have "allotted e Big c H s D (alloc_big_zeroed e c s)"
    using c g by (intro alloc_big_zeroed_ok [OF inv _ q]) (simp_all del: split_paired_All)
  then show ?thesis using Big by simp
qed

text \<open>The variants that report zeroed blocks are the plain ones with the report.\<close>

lemma cache_alloc_plain_same:
  "cache_alloc_plain e t c s = map_option (\<lambda>((p, z), s'). (p, s')) (cache_alloc e t c s)"
  by (cases t) (simp_all add: alloc_def alloc_zeroed_def alloc_medium_def alloc_medium_zeroed_def alloc_big_def alloc_big_zeroed_def
      split: option.splits prod.splits)

text \<open>A class without pages, where the system grants a page with the header of another class.\<close>

lemma blank_grant:
  assumes h: "gl_small (snd s) ! c = ((one_page_mem, list_head_new), [])" and c: "c \<noteq> 45" and e: "ce_page e = 65536"
  shows "small_grant e c s"
proof -
  let ?h = "((one_page_mem, list_head_new), []) :: small_heap"
  have lv: "lv = {}" if st: "small_st e c ?h lv d" for lv d
  proof -
    obtain pl el full fl where inv: "class_inv c one_page_mem list_head_new pl el full fl d"
      "lv = class_live one_page_mem fl (set pl \<union> set el \<union> full)" using st unfolding small_store_def fst_conv snd_conv by blast
    have "h_class (hdr_at one_page_mem p) = 45" for p by (simp add: one_page_mem_def one_page_header_def page_init_def)
    moreover have "h_class (hdr_at one_page_mem p) = c" if "p \<in> set pl \<union> set el \<union> full" for p
      using inv(1) that unfolding class_inv_def page_inv_def by blast
    ultimately have "p \<notin> set pl \<union> set el \<union> full" for p using c by metis
    then have "set pl \<union> set el \<union> full = {}" unfolding set_eq_iff by simp
    then show ?thesis using inv(2) by (simp add: class_live_def)
  qed
  have "pl = []" if "partial_list (hdrs_of one_page_mem) null pl" for pl using that by (cases pl) (auto simp: partial_list_def)
  moreover have "el = []" if "elist (hdrs_of one_page_mem) null el" for el using that by (cases el) auto
  ultimately have "idle_pages ?h = {}"
    by (simp add: idle_pages_def list_head_new_def cold_pages_def) fastforce
  then have "small_fresh 65536 ?h lv" if "small_st e c ?h lv d" for lv d
    using lv [OF that] unfolding small_fresh_def by (simp add: const_simps)
  then show ?thesis unfolding small_grant_def h e by simp
qed

lemma first_press:
  "press first_env (settle first_env first_state) = Some (settle first_env first_state)"
  "press first_env (settle first_env held_state) = Some (settle first_env held_state)"
  by (simp_all add: press_def trim_if_def small_cached_bytes_def first_state_def held_state_def thread_cache_new_def settle_def
      arm_exit_hook_def install_exit_hook_def refresh_budget_def Let_def first_env_def globals_new_def)

lemma first_grants:
  assumes "c < NUM_CLASSES" "c \<noteq> 45"
  shows "grants first_env Small c first_state" "grants first_env Small c held_state"
proof -
  have "gl_small (snd (settle first_env first_state)) ! c = ((one_page_mem, list_head_new), [])"
    "gl_small (snd (settle first_env held_state)) ! c = ((one_page_mem, list_head_new), [])"
    using assms by (simp_all add: settle_def first_state_def held_state_def globals_new_def)
  moreover have "ce_page first_env = 65536" by (simp add: first_env_def)
  ultimately show "grants first_env Small c first_state" "grants first_env Small c held_state"
    using assms(2) by (simp_all add: first_press blank_grant)
qed

lemma first_quiet: "quiet first_state" "quiet held_state"
  by (simp_all add: quiet_def first_state_def held_state_def globals_new_def)



end
