(* ===== verification/Direct_Heap.thy ===== *)
theory Direct_Heap
  imports Cache_Spans
begin

text \<open>
  Serving a call without the thread cache (\<open>src/src/lib.rs\<close>, \<open>take_one_small\<close>, \<open>take_one_medium\<close>,
  \<open>take_one_big\<close>, and the fallback closures of \<open>dealloc_small\<close>, \<open>dealloc_medium\<close>, \<open>dealloc_big\<close>): the heap is
  asked for a batch, all of it but the first block goes straight back, and a freed block goes straight to its
  page or span.  The source writes the loop three times; here it is written once, over the heap's
  \<open>take_blocks\<close> and its release of a single block, and proved once in the locale \<open>class_direct\<close>.
\<close>

section \<open>Operations\<close>

definition small_release :: "purge \<Rightarrow> (addr \<Rightarrow> nat \<Rightarrow> bool) \<Rightarrow> addr \<Rightarrow> small_heap \<Rightarrow> small_heap option" where
  "small_release purge in_arena p h =
     (let (m, lh, eff) = release_blocks purge in_arena (fst (fst h)) (snd (fst h)) (page_of p) p 1
      in Some ((m, lh), snd h @ (case eff of None \<Rightarrow> [] | Some x \<Rightarrow> [x])))"

definition free_one :: "(addr \<Rightarrow> ('a, 'l, 'e) class_heap \<Rightarrow> ('a, 'l, 'e) class_heap option) \<Rightarrow> addr \<Rightarrow>
    ('a, 'l, 'e) class_heap \<Rightarrow> ('a, 'l, 'e) class_heap option" where
  "free_one rel p h = rel p (poke ((words h)(p := null)) h)"

fun give_rest :: "(addr \<Rightarrow> ('a, 'l, 'e) class_heap \<Rightarrow> ('a, 'l, 'e) class_heap option) \<Rightarrow> nat \<Rightarrow> addr \<Rightarrow>
    ('a, 'l, 'e) class_heap \<Rightarrow> ('a, 'l, 'e) class_heap option" where
  "give_rest rel 0 tail h = Some h"
| "give_rest rel (Suc k) tail h =
     (if tail = null then Some h
      else let nxt = words h tail
           in case free_one rel tail h of None \<Rightarrow> None | Some h' \<Rightarrow> give_rest rel k nxt h')"

definition serve_one :: "(('a, 'l, 'e) class_heap \<Rightarrow> (('a, 'l, 'e) class_heap \<times> addr \<times> nat \<times> bool) option) \<Rightarrow>
    (addr \<Rightarrow> ('a, 'l, 'e) class_heap \<Rightarrow> ('a, 'l, 'e) class_heap option) \<Rightarrow> ('a, 'l, 'e) class_heap \<Rightarrow>
    ((addr \<times> bool) \<times> ('a, 'l, 'e) class_heap) option" where
  "serve_one tk rel h =
     (case tk h of
        None \<Rightarrow> None
      | Some (h1, ch, n, v) \<Rightarrow>
          if ch = null then Some ((null, False), h1)
          else
            let tail = words h1 ch; h2 = poke ((words h1)(ch := null)) h1
            in case give_rest rel (n - 1) tail h2 of None \<Rightarrow> None | Some h3 \<Rightarrow> Some ((ch, v), h3))"

definition take_one_small :: "cache_env \<Rightarrow> nat \<Rightarrow> small_heap \<Rightarrow> ((addr \<times> bool) \<times> small_heap) option" where
  "take_one_small e c = serve_one (small_take c (ce_page e)) (small_release (ce_purge e) (ce_in_arena e))"

definition take_one_medium :: "cache_env \<Rightarrow> nat \<Rightarrow> span_heap \<Rightarrow> ((addr \<times> bool) \<times> span_heap) option" where
  "take_one_medium e c = serve_one (medium_take (ce_in_arena e) c (ce_medium e))
     (\<lambda>p h. Some (medium_release (ce_in_arena e) c (ce_span_purge e) (ce_span_at e p) p p 1 h))"

definition take_one_big :: "cache_env \<Rightarrow> nat \<Rightarrow> span_heap \<Rightarrow> ((addr \<times> bool) \<times> span_heap) option" where
  "take_one_big e c = serve_one (big_take c (ce_big e))
     (\<lambda>p. big_release (ce_in_arena e) (ce_span_purge e) (ce_big_at e p) p 1)"

text \<open>The frees; the span of a medium or big block is the one the caller looked up.\<close>

definition free_one_small :: "cache_env \<Rightarrow> addr \<Rightarrow> small_heap \<Rightarrow> small_heap option" where
  "free_one_small e = free_one (small_release (ce_purge e) (ce_in_arena e))"

definition free_one_medium :: "cache_env \<Rightarrow> nat \<Rightarrow> addr \<Rightarrow> addr \<Rightarrow> span_heap \<Rightarrow> span_heap option" where
  "free_one_medium e c span = free_one (\<lambda>p h. Some (medium_release (ce_in_arena e) c (ce_span_purge e) span p p 1 h))"

definition free_one_big :: "cache_env \<Rightarrow> addr \<Rightarrow> addr \<Rightarrow> span_heap \<Rightarrow> span_heap option" where
  "free_one_big e span = free_one (\<lambda>p. big_release (ce_in_arena e) (ce_span_purge e) span p 1)"

section \<open>The interface\<close>

text \<open>A source of blocks that also takes a single unlinked block back.\<close>

locale class_direct = class_source T store "take"  fresh
  for T :: "('a, 'l, 'e) class_heap bin_tier" and store "take" fresh +
  fixes rel :: "addr \<Rightarrow> ('a, 'l, 'e) class_heap \<Rightarrow> ('a, 'l, 'e) class_heap option"
  assumes rel_law: "store h lv d \<Longrightarrow> p \<in> lv \<Longrightarrow> words h p = null \<Longrightarrow>
    \<exists>h' d'. rel p h = Some h' \<and> store h' (lv - {p}) d' \<and> d' \<subseteq> insert p d \<and> (\<forall>a \<in> lv - {p}. words h' a = words h a)"
begin

lemma free_one_ok:
  assumes "store h lv d" "p \<in> lv"
  shows "\<exists>h' d'. free_one rel p h = Some h' \<and> store h' (lv - {p}) d' \<and> d' \<subseteq> insert p d
    \<and> (\<forall>a \<in> lv - {p}. words h' a = words h a)"
proof -
  let ?h = "poke ((words h)(p := null)) h"
  have "store ?h lv d" by (rule poke_law [OF assms(1)]) (use assms(2) in auto)
  from rel_law [OF this assms(2)] show ?thesis by (auto simp: free_one_def)
qed

lemma give_rest_ok:
  assumes "store h lv d" "chain (words h) t xs" "distinct xs" "set xs \<subseteq> lv"
  shows "\<exists>h' d'. give_rest rel (length xs) t h = Some h' \<and> store h' (lv - set xs) d' \<and> d' \<subseteq> d \<union> set xs
    \<and> (\<forall>a \<in> lv - set xs. words h' a = words h a)"
  using assms
proof (induction xs arbitrary: h lv d t)
  case (Cons x xs)
  have x: "t = x" "x \<noteq> null" "chain (words h) (words h x) xs" using Cons.prems(2) by auto
  obtain h1 d1 where h1: "free_one rel x h = Some h1" "store h1 (lv - {x}) d1" "d1 \<subseteq> insert x d"
    "\<forall>a \<in> lv - {x}. words h1 a = words h a"
    using free_one_ok [OF Cons.prems(1), of x] Cons.prems(4) by auto
  have "words h b = words h1 b" if "b \<in> set xs" for b
  proof -
    have "b \<in> lv - {x}" using that Cons.prems(3,4) by auto
    then show ?thesis using h1(4) by simp
  qed
  then have "chain (words h1) (words h x) xs" using x(3) chain_cong [of xs "words h" "words h1" "words h x"] by blast
  moreover have "distinct xs" "set xs \<subseteq> lv - {x}" using Cons.prems(3,4) by auto
  ultimately obtain h' d' where
    i: "give_rest rel (length xs) (words h x) h1 = Some h'" "store h' (lv - {x} - set xs) d'" "d' \<subseteq> d1 \<union> set xs"
      "\<forall>a \<in> lv - {x} - set xs. words h' a = words h1 a"
    using Cons.IH [OF h1(2)] by blast
  have "lv - {x} - set xs = lv - set (x # xs)" by auto
  then show ?case using i h1 x by (intro exI [of _ h'] exI [of _ d']) auto
qed auto

lemma serve_one_ok:
  assumes "store h lv d" "fresh h lv"
  shows "serve_one take rel h = Some ((null, False), h)
    \<or> (\<exists>h' p v d'. serve_one take rel h = Some ((p, v), h') \<and> p \<noteq> null \<and> p \<notin> lv \<and> store h' (insert p lv) d'
         \<and> (v \<longrightarrow> p \<notin> d') \<and> d' \<inter> lv \<subseteq> d \<and> (\<forall>a \<in> lv. words h' a = words h a))"
  using take_law [OF assms]
proof (elim disjE exE conjE)
  fix h1 ch v new d1
  assume t: "take h = Some (h1, ch, length new, v)" "took store h lv d h1 ch v new d1"
  obtain xs where new: "new = ch # xs" "ch \<noteq> null" "chain (words h1) (words h1 ch) xs" "distinct (ch # xs)"
    using t(2) unfolding took_def by (cases new) auto
  have lv: "set new \<inter> lv = {}" "store h1 (lv \<union> set new) d1" "d1 \<subseteq> d" "v \<longrightarrow> set new \<inter> d1 = {}" "\<forall>a \<in> lv. words h1 a = words h a"
    using t(2) by (simp_all add: took_def)
  let ?h2 = "poke ((words h1)(ch := null)) h1"
  have h2: "store ?h2 (lv \<union> set new) d1" by (rule poke_law [OF lv(2)]) (auto simp: new(1))
  have c: "chain (words ?h2) (words h1 ch) xs"
    using new(3,4) chain_cong [of xs "words h1" "words ?h2" "words h1 ch"] by auto
  have x: "distinct xs" "set xs \<subseteq> lv \<union> set new" using new(1,4) by auto
  from give_rest_ok [OF h2 c x] obtain h3 d3 where
    g: "give_rest rel (length xs) (words h1 ch) ?h2 = Some h3" "store h3 (lv \<union> set new - set xs) d3" "d3 \<subseteq> d1 \<union> set xs"
      "\<forall>a \<in> lv \<union> set new - set xs. words h3 a = words ?h2 a"
    by blast
  have e: "lv \<union> set new - set xs = insert ch lv" using new lv(1) by auto
  have "serve_one take rel h = Some ((ch, v), h3)" using t(1) g(1) new by (simp add: serve_one_def Let_def)
  moreover have "\<forall>a \<in> lv. words h3 a = words h a" using g(4) lv(1,5) new unfolding e by (auto simp: new(1))
  ultimately show ?thesis using g(2,3) lv new unfolding e by (intro disjI2 exI [of _ h3] exI [of _ ch] exI [of _ v] exI [of _ d3]) auto
qed (simp add: serve_one_def)

text \<open>Over a heap whose other blocks a bin and an active chain hold.\<close>

lemma pair_serve_one:
  assumes "pair h b sp a H D" "\<And>lv d. store h lv d \<Longrightarrow> fresh h lv"
  shows "serve_one take rel h = Some ((null, False), h)
    \<or> (\<exists>h' p v D'. serve_one take rel h = Some ((p, v), h') \<and> p \<noteq> null \<and> p \<notin> H \<and> pair h' b sp a (insert p H) D'
         \<and> (v \<longrightarrow> p \<notin> D') \<and> kept H (words h) D (words h') D')"
proof -
  obtain lv xs ys d where *: "store h lv d" "d \<subseteq> D" "bin_holds (words h) lv D b xs" "bin_holds (words h) lv D a ys"
    "set xs \<inter> set ys = {}" "\<forall>y \<in> set ys. bt_owner T y = sp" "H = lv - set xs - set ys"
    using assms(1) by (auto simp: pair_state_def)
  have sub: "set xs \<subseteq> lv" "set ys \<subseteq> lv" using *(3,4) by (simp_all add: bin_holds_def)
  from serve_one_ok [OF *(1) assms(2) [OF *(1)]] show ?thesis
  proof (elim disjE exE conjE)
    fix h' p v d'
    assume t: "serve_one take rel h = Some ((p, v), h')" "p \<noteq> null" "p \<notin> lv" "store h' (insert p lv) d'" "v \<longrightarrow> p \<notin> d'"
      "d' \<inter> lv \<subseteq> d" "\<forall>a \<in> lv. words h' a = words h a"
    define D' where "D' = (D - {p}) \<union> d'"
    have "bin_holds (words h') (insert p lv) D' b xs"
      by (rule bin_holds_frame [OF *(3)]) (use t(6,7) *(2) sub in \<open>auto simp: D'_def\<close>)
    moreover have "bin_holds (words h') (insert p lv) D' a ys"
      by (rule bin_holds_frame [OF *(4)]) (use t(6,7) *(2) sub in \<open>auto simp: D'_def\<close>)
    moreover have "insert p H = insert p lv - set xs - set ys" "d' \<subseteq> D'" using *(7) t(3) sub by (auto simp: D'_def)
    ultimately have "pair h' b sp a (insert p H) D'" using t(4) *(5,6) unfolding pair_state_def by blast
    moreover have "kept H (words h) D (words h') D'" using t(6,7) *(2,7) by (auto simp: kept_def D'_def)
    ultimately show ?thesis using t(1,2,3,5) *(7) by (intro disjI2 exI [of _ h'] exI [of _ p] exI [of _ v] exI [of _ D']) (simp add: D'_def)
  qed simp
qed

lemma pair_free_one:
  assumes "pair h b sp a H D" "p \<in> H"
  shows "\<exists>h' D'. free_one rel p h = Some h' \<and> pair h' b sp a (H - {p}) D' \<and> kept (H - {p}) (words h) D (words h') D'"
proof -
  obtain lv xs ys d where *: "store h lv d" "d \<subseteq> D" "bin_holds (words h) lv D b xs" "bin_holds (words h) lv D a ys"
    "set xs \<inter> set ys = {}" "\<forall>y \<in> set ys. bt_owner T y = sp" "H = lv - set xs - set ys"
    using assms(1) by (auto simp: pair_state_def)
  have sub: "set xs \<subseteq> lv - {p}" "set ys \<subseteq> lv - {p}" "p \<in> lv" using *(3,4,7) assms(2) by (auto simp: bin_holds_def)
  obtain h' d' where f: "free_one rel p h = Some h'" "store h' (lv - {p}) d'" "d' \<subseteq> insert p d" "\<forall>a \<in> lv - {p}. words h' a = words h a"
    using free_one_ok [OF *(1) sub(3)] by blast
  have "bin_holds (words h') (lv - {p}) (insert p D) b xs"
    by (rule bin_holds_frame [OF *(3)]) (use f(4) sub in auto)
  moreover have "bin_holds (words h') (lv - {p}) (insert p D) a ys"
    by (rule bin_holds_frame [OF *(4)]) (use f(4) sub in auto)
  moreover have "H - {p} = lv - {p} - set xs - set ys" "d' \<subseteq> insert p D" using *(2,7) f(3) by auto
  ultimately have "pair h' b sp a (H - {p}) (insert p D)" using f(2) *(5,6) unfolding pair_state_def by blast
  moreover have "kept (H - {p}) (words h) D (words h') (insert p D)" using f(4) *(7) by (auto simp: kept_def)
  ultimately show ?thesis using f(1) by blast
qed

end

section \<open>The three tiers\<close>

lemma small_release_law:
  assumes "small_store purge c h lv d" "p \<in> lv" "words h p = null"
  shows "\<exists>h' d'. small_release purge in_arena p h = Some h' \<and> small_store purge c h' (lv - {p}) d' \<and> d' \<subseteq> insert p d
    \<and> (\<forall>a \<in> lv - {p}. words h' a = words h a)"
proof -
  obtain m lh e where h: "h = ((m, lh), e)" by (metis surj_pair)
  obtain pl el full fl where inv: "purge_ok purge" "class_inv c m lh pl el full fl d"
    "lv = class_live m fl (set pl \<union> set el \<union> full)"
    using assms(1) by (auto simp: small_store_def h)
  have p: "page_of p \<in> set pl \<union> full" "p \<in> live (page_of p) (hdr_at m (page_of p)) (fl (page_of p))"
    using class_live_page [OF inv(2), of p] assms(2) inv(3) by auto
  have "p \<noteq> 0" using smalls.live_nonnull [OF assms(1)] assms(2) by metis
  then have "linked_run (cells_of m) p p [p]" by (simp add: linked_run_def)
  from release_inner_correct [OF inv(2,1) p(1) this] p(2)
  have g: "given_back c (page_of p) {p} (set pl \<union> set el \<union> full) fl m d (release_inner purge m lh (page_of p) p p 1)" by simp
  obtain m' lh' fate pl' el' full' fl' d' where
    r: "release_inner purge m lh (page_of p) p p 1 = (m', lh', fate)" "class_inv c m' lh' pl' el' full' fl' d'"
      "class_live m' fl' (set pl' \<union> set el' \<union> full') = lv - {p}" "d' \<subseteq> d \<union> {p}" "\<forall>a \<in> lv - {p}. cells_of m' a = cells_of m a"
    using g [unfolded given_back_def inv(3) [symmetric]] by (elim exE conjE) (rule that)
  let ?h = "((m', lh'), e @ (case act_page_fate in_arena (page_of p) fate of None \<Rightarrow> [] | Some x \<Rightarrow> [x]))"
  have "small_release purge in_arena p h = Some ?h"
    using r(1) by (simp add: small_release_def release_blocks_def release_blocks_with_tail_def h)
  moreover have "small_store purge c ?h (lv - {p}) d'"
    unfolding small_store_def fst_conv snd_conv by (intro conjI exI) (rule inv(1), rule r(2), rule r(3) [symmetric])
  moreover have "\<forall>a \<in> lv - {p}. words ?h a = words h a" unfolding words_def h fst_conv snd_conv by (rule r(5))
  moreover have "d' \<subseteq> insert p d" using r(4) by simp
  ultimately show ?thesis by (intro exI [of _ ?h] exI [of _ d'] conjI)
qed

context class_store
begin

lemma give_single:
  assumes "store h lv d" "p \<in> lv" "words h p = null"
  shows "\<exists>h' d'. bt_give T [\<lparr>rc_page = bt_owner T p, rc_head = p, rc_tail = p, rc_n = 1\<rparr>] h = Some h' \<and> store h' (lv - {p}) d'
    \<and> d' \<subseteq> insert p d \<and> (\<forall>a \<in> lv - {p}. words h' a = words h a)"
proof -
  let ?k = "\<lparr>rc_page = bt_owner T p, rc_head = p, rc_tail = p, rc_n = 1\<rparr>"
  have "p \<noteq> 0" using live_nonnull [OF assms(1)] assms(2) by metis
  then have "runs_ok (bt_owner T) (words h) lv [(?k, [p])]" using assms(2,3) by (simp add: runs_ok_def run_ok_def)
  from give_law [OF assms(1) this] room show ?thesis by auto
qed

end

interpretation smalls: class_direct "small_bins purge in_arena" "small_store purge c" "small_take c mapped" "small_fresh mapped"
  "small_release purge in_arena"
  for purge in_arena c mapped
  by unfold_locales (rule small_release_law)

interpretation mediums: class_direct "medium_bins in_arena purge span_at c" "medium_store in_arena purge span_at c"
  "medium_take in_arena c raw" "medium_fresh in_arena span_at c raw"
  "\<lambda>p h. Some (medium_release in_arena c purge (span_at p) p p 1 h)"
  for in_arena purge span_at c raw
proof (unfold_locales, goal_cases)
  case (1 h lv d p)
  obtain h' d' where g: "bt_give (medium_bins in_arena purge span_at c) [\<lparr>rc_page = span_at p, rc_head = p, rc_tail = p, rc_n = 1\<rparr>] h = Some h'"
    "medium_store in_arena purge span_at c h' (lv - {p}) d'" "d' \<subseteq> insert p d" "\<forall>a \<in> lv - {p}. words h' a = words h a"
    using mediums.give_single [OF 1, unfolded bt_owner_tiers] by blast
  from medium_release_single [OF g(1)] g(2-4) show ?case by (intro exI [of _ h'] exI [of _ d']) simp
qed

interpretation bigs: class_direct "big_bins in_arena purge span_at" "big_store purge span_at c" "big_take c raw" "big_fresh span_at c raw"
  "\<lambda>p. big_release in_arena purge (span_at p) p 1"
  for in_arena purge span_at c raw
proof (unfold_locales, goal_cases)
  case (1 h lv d p)
  obtain h' d' where g: "bt_give (big_bins in_arena purge span_at) [\<lparr>rc_page = span_at p, rc_head = p, rc_tail = p, rc_n = 1\<rparr>] h = Some h'"
    "big_store purge span_at c h' (lv - {p}) d'" "d' \<subseteq> insert p d" "\<forall>a \<in> lv - {p}. words h' a = words h a"
    using bigs.give_single [OF 1, unfolded bt_owner_tiers] by blast
  from big_release_single [OF g(1)] g(2-4) show ?case by (intro exI [of _ h'] exI [of _ d']) simp
qed

end
