(* ===== verification/Tls_Guard.thy ===== *)
theory Tls_Guard
  imports Cache_Ops
begin

text \<open>
  Access to the calling thread's cache (\<open>src/src/lib.rs\<close>, \<open>mod tls\<close>, the \<open>std\<close> variant): a flag beside the
  cache tells whether it is free, borrowed or retired.  A call that finds it borrowed or retired, or the
  thread-local storage torn down, is served by a fallback.

  The state is the flag (\<open>None\<close> once the storage is gone) with the cache and what it shares.  Closures are
  functions on that state, so that one may call \<open>with_tls\<close> again, as the installation of the exit hook may
  when it allocates.  The \<open>no_std\<close> variant, a single cache behind a lock, is left out.
\<close>

section \<open>Operations\<close>

datatype tls_flag = TLS_FREE | TLS_ACTIVE | TLS_RETIRED

type_synonym tls_state = "tls_flag option \<times> cache_state"

definition with_tls :: "(tls_state \<Rightarrow> ('r \<times> tls_state) option) \<Rightarrow> (tls_state \<Rightarrow> ('r \<times> tls_state) option) \<Rightarrow>
    tls_state \<Rightarrow> ('r \<times> tls_state) option" where
  "with_tls f fallback s =
     (if fst s = Some TLS_FREE then
        case f (Some TLS_ACTIVE, snd s) of
          None \<Rightarrow> None
        | Some (r, s') \<Rightarrow> Some (r, (Some TLS_FREE, snd s'))
      else fallback s)"

definition tls_flush :: "cache_env \<Rightarrow> tls_state \<Rightarrow> tls_state option" where
  "tls_flush e s =
     do { g \<leftarrow> reclaim_all e (snd (snd s));
          (_, s') \<leftarrow> with_tls (\<lambda>(f, c). map_option (\<lambda>c'. ((), (f, c'))) (flush_all e c)) (\<lambda>s. Some ((), s))
                       (fst s, (fst (snd s), g));
          Some s' }"

definition tls_retire :: "cache_env \<Rightarrow> tls_state \<Rightarrow> tls_state option" where
  "tls_retire e s =
     (if fst s \<noteq> Some TLS_FREE then Some s
      else case retire e (snd s) of
             None \<Rightarrow> None
           | Some g \<Rightarrow> Some (Some TLS_RETIRED, (fst (snd s), g)))"

section \<open>Who holds the cache\<close>

text \<open>
  One thread as a stack of frames: \<open>Borrower\<close> is a call that runs its closure on the cache, \<open>Bystander\<close> one that
  runs its fallback.  \<open>tf_moved\<close> counts how often the cache was moved out into the retirement queue.
\<close>

datatype tls_frame = Borrower | Bystander

record tls_thread =
  tf_flag :: "tls_flag option"
  tf_frames :: "tls_frame list"
  tf_moved :: nat

inductive tls_step :: "tls_thread \<Rightarrow> tls_thread \<Rightarrow> bool" where
  tls_borrow: "tf_flag s = Some TLS_FREE \<Longrightarrow> tls_step s (s\<lparr>tf_flag := Some TLS_ACTIVE, tf_frames := Borrower # tf_frames s\<rparr>)"
| tls_stand_by: "tf_flag s \<noteq> Some TLS_FREE \<Longrightarrow> tls_step s (s\<lparr>tf_frames := Bystander # tf_frames s\<rparr>)"
| tls_give_back: "tf_frames s = Borrower # fs \<Longrightarrow> tls_step s (s\<lparr>tf_flag := Some TLS_FREE, tf_frames := fs\<rparr>)"
| tls_stood_by: "tf_frames s = Bystander # fs \<Longrightarrow> tls_step s (s\<lparr>tf_frames := fs\<rparr>)"
| tls_move: "tf_flag s = Some TLS_FREE \<Longrightarrow> tls_step s (s\<lparr>tf_flag := Some TLS_RETIRED, tf_moved := tf_moved s + 1\<rparr>)"
| tls_stay: "tf_flag s \<noteq> Some TLS_FREE \<Longrightarrow> tls_step s s"
| tls_tear_down: "tf_frames s = [] \<Longrightarrow> tls_step s (s\<lparr>tf_flag := None\<rparr>)"

inductive_simps tls_step_simps: "tls_step s s'"

inductive tls_run :: "tls_thread \<Rightarrow> bool" where
  tls_start: "tls_run \<lparr>tf_flag = Some TLS_FREE, tf_frames = [], tf_moved = 0\<rparr>"
| tls_next: "tls_run s \<Longrightarrow> tls_step s s' \<Longrightarrow> tls_run s'"

fun borrowers :: "tls_frame list \<Rightarrow> nat" where
  "borrowers [] = 0"
| "borrowers (Borrower # fs) = Suc (borrowers fs)"
| "borrowers (Bystander # fs) = borrowers fs"

text \<open>The flag is what the stack says, and a cache is moved out at most once, with nobody holding it.\<close>

definition tls_ok :: "tls_thread \<Rightarrow> bool" where
  "tls_ok s \<longleftrightarrow> borrowers (tf_frames s) = (if tf_flag s = Some TLS_ACTIVE then 1 else 0)
     \<and> tf_moved s \<le> 1 \<and> (tf_flag s = Some TLS_FREE \<or> tf_flag s = Some TLS_ACTIVE \<longrightarrow> tf_moved s = 0)
     \<and> (tf_flag s = Some TLS_RETIRED \<longrightarrow> tf_moved s = 1)"

lemma tls_run_ok: "tls_run s \<Longrightarrow> tls_ok s"
proof (induction rule: tls_run.induct)
  case (tls_next s s')
  from tls_next(2,3) show ?case by (cases rule: tls_step.cases) (auto simp: tls_ok_def split: if_splits)
qed (simp add: tls_ok_def)

text \<open>C24 (access to the cache).  Whatever a thread does, nested calls, retirement and teardown included, at most
  one frame of its stack holds the cache, exactly while the flag says so; the cache is moved into the retirement
  queue at most once, and once it has been moved no frame ever holds it again.\<close>

theorem tls_guard_correct:
  assumes "tls_run s"
  shows "borrowers (tf_frames s) \<le> 1 \<and> (borrowers (tf_frames s) = 1 \<longleftrightarrow> tf_flag s = Some TLS_ACTIVE)
    \<and> tf_moved s \<le> 1 \<and> (tf_moved s = 1 \<longrightarrow> borrowers (tf_frames s) = 0 \<and> (\<forall>s'. tls_step s s' \<longrightarrow> borrowers (tf_frames s') = 0))"
proof -
  have ok: "tls_ok s" by (rule tls_run_ok [OF assms])
  have "borrowers (tf_frames s') = 0" if "tf_moved s = 1" "tls_step s s'" for s'
  proof -
    have "tls_ok s'" "tf_moved s \<le> tf_moved s'"
      using tls_run_ok [OF tls_next [OF assms that(2)]] that(2) by (auto elim: tls_step.cases)
    then show ?thesis using that(1) by (auto simp: tls_ok_def split: if_splits)
  qed
  then show ?thesis using ok by (auto simp: tls_ok_def split: if_splits)
qed

text \<open>The functions take the steps of the relation: a nested call finds the flag set and stands by.\<close>

lemma with_tls_nested:
  "with_tls (\<lambda>s. case with_tls f g s of None \<Rightarrow> None | Some (r, s') \<Rightarrow> k r s') h (Some TLS_FREE, c)
    = (case g (Some TLS_ACTIVE, c) of None \<Rightarrow> None
       | Some (r, s') \<Rightarrow> (case k r s' of None \<Rightarrow> None | Some (r', s'') \<Rightarrow> Some (r', (Some TLS_FREE, snd s''))))"
  by (simp add: with_tls_def split: option.split prod.split)

lemma retired_stands_by: "tls_retire e s = Some s' \<Longrightarrow> fst s = Some TLS_FREE \<Longrightarrow> with_tls f fallback s' = fallback s'"
  by (auto simp: tls_retire_def with_tls_def split: option.splits)

theorem tls_guard_correct_witness:
  "borrowers (tf_frames \<lparr>tf_flag = Some TLS_ACTIVE, tf_frames = [Bystander, Borrower], tf_moved = 0\<rparr>) = 1
    \<and> tf_flag \<lparr>tf_flag = Some TLS_ACTIVE, tf_frames = [Bystander, Borrower], tf_moved = 0\<rparr> = Some TLS_ACTIVE"
proof -
  let ?s0 = "\<lparr>tf_flag = Some TLS_FREE, tf_frames = [], tf_moved = 0\<rparr>"
  let ?s1 = "\<lparr>tf_flag = Some TLS_ACTIVE, tf_frames = [Borrower], tf_moved = 0\<rparr>"
  let ?s2 = "\<lparr>tf_flag = Some TLS_ACTIVE, tf_frames = [Bystander, Borrower], tf_moved = 0\<rparr>"
  have "tls_step ?s0 ?s1" using tls_borrow [of ?s0] by simp
  moreover have "tls_step ?s1 ?s2" using tls_stand_by [of ?s1] by simp
  ultimately have "tls_run ?s2" using tls_start tls_next by blast
  from tls_guard_correct [OF this] show ?thesis by simp
qed

end
