(* ===== verification/Arena.thy ===== *)
theory Arena
  imports Prelude
begin

text \<open>
  The address-space arena of \<open>src/src/arena.rs\<close>: one reservation, slices handed out from a bump
  frontier, returned slices parked in a bounded store of holes.

  The atomics and the mutex make every piece below one atomic step: \<open>holes_take\<close> and \<open>holes_give\<close> run
  under the holes lock, \<open>claim_bump\<close> is one successful iteration of the compare-exchange loop.  What
  the kernel answers is a parameter: \<open>raw\<close> for the reservation (\<open>None\<close> for MAP_FAILED), \<open>ok\<close> for the
  commit of a range.  \<open>commit\<close>, \<open>grow_frontier\<close> and \<open>release\<close> compose the pieces the way the code does
  when nothing interferes; the step relation \<open>arena_step\<close> interleaves the pieces of any number of
  threads.  (One piece is finer in the code: the frontier check of \<open>grow_frontier\<close> reads \<open>bump\<close> and then
  exchanges it against the value read, which together is the one test of \<open>claim_frontier\<close>.)  The telemetry counters are left out.

  Offsets and lengths are in bytes; a slice is a pair of an offset and a number of pages.
\<close>

section \<open>State\<close>

definition ARENA_ALIGN :: nat where [const_simps]: "ARENA_ALIGN = 64 * 1024"
definition ARENA_SIZE :: nat where [const_simps]: "ARENA_SIZE = 16 * 1024 * 1024 * 1024"
definition HOLE_SLOTS :: nat where [const_simps]: "HOLE_SLOTS = 4096"
definition HOLE_CAP_BYTES :: nat where [const_simps]: "HOLE_CAP_BYTES = 4 * 1024 * 1024 * 1024"
definition EXACT_BUCKET_MAX :: nat where [const_simps]: "EXACT_BUCKET_MAX = 128"
definition EMPTY_BUCKET :: nat where [const_simps]: "EMPTY_BUCKET = 65535"

lemma ARENA_ALIGN_pos [simp]: "0 < ARENA_ALIGN" by (simp add: ARENA_ALIGN_def)

type_synonym slice = "nat \<times> nat"

record hole_store =
  hs_len :: nat
  hs_bytes :: nat
  hs_entries :: "slice list"
  hs_exact :: "nat list"

definition hole_store_new :: hole_store where
  "hole_store_new = \<lparr> hs_len = 0, hs_bytes = 0, hs_entries = replicate HOLE_SLOTS (0, 0),
     hs_exact = replicate (EXACT_BUCKET_MAX + 1) EMPTY_BUCKET \<rparr>"

text \<open>The state of the reservation: 0 not made yet, 1 ready, 2 given up for good.\<close>

record arena =
  ar_state :: nat
  ar_start :: addr
  ar_end :: addr
  ar_bump :: nat
  ar_holes :: hole_store
  ar_hole_count :: nat
  ar_commits :: nat
  ar_reuses :: nat
  ar_abandoned :: nat
  ar_size :: nat

definition with_size :: "nat \<Rightarrow> arena" where
  "with_size sz = \<lparr> ar_state = 0, ar_start = 0, ar_end = 0, ar_bump = 0, ar_holes = hole_store_new,
     ar_hole_count = 0, ar_commits = 0, ar_reuses = 0, ar_abandoned = 0, ar_size = sz \<rparr>"

definition arena_new :: arena where "arena_new = with_size ARENA_SIZE"

section \<open>The reservation\<close>

text \<open>\<open>ensure_init\<close>; the third result lists the two trims (\<open>munmap\<close> of address and length).\<close>

definition ensure_init :: "addr option \<Rightarrow> arena \<Rightarrow> bool \<times> arena \<times> (addr \<times> nat) list" where
  "ensure_init raw a =
     (if ar_state a = 1 then (True, a, [])
      else if ar_state a = 2 then (False, a, [])
      else
        case checked_add (ar_size a) ARENA_ALIGN of
          None \<Rightarrow> (False, a\<lparr>ar_state := 2\<rparr>, [])
        | Some tot \<Rightarrow>
            (case raw of
               None \<Rightarrow> (False, a\<lparr>ar_state := 2\<rparr>, [])
             | Some r \<Rightarrow>
                 let aligned = mask_down ARENA_ALIGN (r + ARENA_ALIGN - 1);
                     tail = aligned + ar_size a
                 in (True, a\<lparr>ar_start := aligned, ar_end := tail, ar_bump := 0, ar_state := 1\<rparr>,
                     (if aligned \<noteq> r then [(r, aligned - r)] else [])
                     @ (if tail \<noteq> r + tot then [(tail, r + tot - tail)] else []))))"

definition contains :: "arena \<Rightarrow> addr \<Rightarrow> nat \<Rightarrow> bool" where
  "contains a b len \<longleftrightarrow> ar_state a = 1 \<and>
     (case checked_add b len of None \<Rightarrow> False | Some fin \<Rightarrow> ar_start a \<le> b \<and> fin \<le> ar_end a)"

section \<open>Holes\<close>

definition refresh_exact :: "hole_store \<Rightarrow> nat \<Rightarrow> hole_store" where
  "refresh_exact hs pages =
     (if EXACT_BUCKET_MAX < pages then hs
      else hs\<lparr>hs_exact := (hs_exact hs)[pages :=
        (case List.find (\<lambda>i. snd (hs_entries hs ! i) = pages) [0..<hs_len hs] of
           None \<Rightarrow> EMPTY_BUCKET | Some i \<Rightarrow> i mod 2 ^ 16)]\<rparr>)"

text \<open>The exact-size cache: a candidate index is checked before use, and refreshed once if it is stale.\<close>

definition exact_lookup :: "hole_store \<Rightarrow> nat \<Rightarrow> hole_store \<times> nat option" where
  "exact_lookup hs pages =
     (if EXACT_BUCKET_MAX < pages then (hs, None)
      else
        let index = hs_exact hs ! pages;
            hs1 = (if hs_len hs \<le> index \<or> snd (hs_entries hs ! index) \<noteq> pages then refresh_exact hs pages else hs);
            index1 = hs_exact hs1 ! pages
        in (hs1, if index1 < hs_len hs1 \<and> snd (hs_entries hs1 ! index1) = pages then Some index1 else None))"

fun best_scan :: "slice list \<Rightarrow> nat \<Rightarrow> nat list \<Rightarrow> nat option \<Rightarrow> nat option" where
  "best_scan es pages [] best = best"
| "best_scan es pages (i # js) best =
     (let p = snd (es ! i) in
      if p = pages then Some i
      else best_scan es pages js
        (if pages < p \<and> (case best of None \<Rightarrow> True | Some b \<Rightarrow> p < snd (es ! b)) then Some i else best))"

definition remove_hole :: "hole_store \<Rightarrow> nat \<Rightarrow> nat \<Rightarrow> hole_store" where
  "remove_hole hs i pages =
     (let (off, p) = hs_entries hs ! i;
          hs1 = hs\<lparr>hs_bytes := hs_bytes hs - pages * ARENA_ALIGN\<rparr>
      in if pages < p then
           let hs2 = refresh_exact (hs1\<lparr>hs_entries := (hs_entries hs1)[i := (off + pages * ARENA_ALIGN, p - pages)]\<rparr>) p;
               remainder = p - pages
           in if remainder \<le> EXACT_BUCKET_MAX then hs2\<lparr>hs_exact := (hs_exact hs2)[remainder := i mod 2 ^ 16]\<rparr> else hs2
         else
           let lst = hs_len hs1 - 1
           in refresh_exact (hs1\<lparr>hs_entries := (hs_entries hs1)[i := hs_entries hs1 ! lst, lst := (0, 0)], hs_len := lst\<rparr>) p)"

definition holes_take :: "arena \<Rightarrow> nat \<Rightarrow> addr \<times> arena" where
  "holes_take a pages =
     (if ar_hole_count a = 0 then (null, a)
      else
        let (hs, exact) = exact_lookup (ar_holes a) pages;
            best = (case exact of None \<Rightarrow> best_scan (hs_entries hs) pages [0..<hs_len hs] None | Some i \<Rightarrow> Some i)
        in case best of
             None \<Rightarrow> (null, a\<lparr>ar_holes := hs, ar_hole_count := hs_len hs\<rparr>)
           | Some i \<Rightarrow>
               let hs' = remove_hole hs i pages
               in (ar_start a + fst (hs_entries hs ! i), a\<lparr>ar_holes := hs', ar_hole_count := hs_len hs'\<rparr>))"

definition hole_room :: "arena \<Rightarrow> nat \<Rightarrow> bool" where
  "hole_room a pages \<longleftrightarrow> hs_len (ar_holes a) < HOLE_SLOTS
     \<and> hs_bytes (ar_holes a) + pages * ARENA_ALIGN \<le> HOLE_CAP_BYTES"

definition holes_give :: "arena \<Rightarrow> addr \<Rightarrow> nat \<Rightarrow> arena" where
  "holes_give a base pages =
     (let off = sub_w 64 base (ar_start a); bytes = pages * ARENA_ALIGN; hs = ar_holes a
      in if hole_room a pages then
           let idx = hs_len hs;
               hs1 = hs\<lparr>hs_entries := (hs_entries hs)[idx := (off, pages)], hs_len := idx + 1, hs_bytes := hs_bytes hs + bytes\<rparr>;
               hs2 = (if pages \<le> EXACT_BUCKET_MAX then hs1\<lparr>hs_exact := (hs_exact hs1)[pages := idx mod 2 ^ 16]\<rparr> else hs1)
           in a\<lparr>ar_holes := hs2, ar_hole_count := hs_len hs2\<rparr>
         else a\<lparr>ar_abandoned := ar_abandoned a + 1\<rparr>)"

section \<open>Commit, growth, release\<close>

definition claim_bump :: "arena \<Rightarrow> nat \<Rightarrow> (addr \<times> arena) option" where
  "claim_bump a len =
     (let off = ar_bump a in
      case checked_add off len of
        None \<Rightarrow> None
      | Some e \<Rightarrow> if e \<le> ar_size a then Some (ar_start a + off, a\<lparr>ar_bump := e\<rparr>) else None)"

definition commit :: "(addr \<Rightarrow> nat \<Rightarrow> bool) \<Rightarrow> addr option \<Rightarrow> arena \<Rightarrow> nat \<Rightarrow> (addr \<times> bool) \<times> arena" where
  "commit ok raw a pages =
     (case checked_mul pages ARENA_ALIGN of
        None \<Rightarrow> ((null, False), a)
      | Some len \<Rightarrow>
          if len = 0 then ((null, False), a)
          else
            let (ready, a1, _) = ensure_init raw a in
            if \<not> ready then ((null, False), a1)
            else
              let (reuse, a2) = holes_take a1 pages in
              if reuse \<noteq> null then
                if ok reuse len then ((reuse, False), a2\<lparr>ar_reuses := ar_reuses a2 + 1, ar_commits := ar_commits a2 + 1\<rparr>)
                else ((null, False), holes_give a2 reuse pages)
              else
                (case claim_bump a2 len of
                   None \<Rightarrow> ((null, False), a2)
                 | Some (base, a3) \<Rightarrow>
                     if ok base len then ((base, True), a3\<lparr>ar_commits := ar_commits a3 + 1\<rparr>)
                     else ((null, False), holes_give a3 base pages)))"

text \<open>\<open>claim_frontier\<close> holds the checks of \<open>grow_frontier\<close> and its compare-exchange.\<close>

definition claim_frontier :: "arena \<Rightarrow> addr \<Rightarrow> nat \<Rightarrow> nat \<Rightarrow> arena option" where
  "claim_frontier a base old_pages new_pages =
     (if old_pages = 0 \<or> new_pages \<le> old_pages then None
      else
        case checked_mul old_pages ARENA_ALIGN of
          None \<Rightarrow> None
        | Some old_len \<Rightarrow>
            (case checked_mul new_pages ARENA_ALIGN of
               None \<Rightarrow> None
             | Some new_len \<Rightarrow>
                 if \<not> contains a base old_len then None
                 else if base < ar_start a then None
                 else
                   (case checked_add (base - ar_start a) old_len of
                      None \<Rightarrow> None
                    | Some old_end \<Rightarrow>
                        (case checked_add old_end (new_len - old_len) of
                           None \<Rightarrow> None
                         | Some new_end \<Rightarrow>
                             if ar_size a < new_end \<or> ar_bump a \<noteq> old_end then None
                             else Some (a\<lparr>ar_bump := new_end\<rparr>)))))"

definition grow_frontier :: "(addr \<Rightarrow> nat \<Rightarrow> bool) \<Rightarrow> arena \<Rightarrow> addr \<Rightarrow> nat \<Rightarrow> nat \<Rightarrow> bool \<times> arena" where
  "grow_frontier ok a base old_pages new_pages =
     (case claim_frontier a base old_pages new_pages of
        None \<Rightarrow> (False, a)
      | Some a1 \<Rightarrow>
          let added_base = base + old_pages * ARENA_ALIGN
          in if ok added_base (new_pages * ARENA_ALIGN - old_pages * ARENA_ALIGN)
             then (True, a1\<lparr>ar_commits := ar_commits a1 + 1\<rparr>)
             else (False, holes_give a1 added_base (new_pages - old_pages)))"

text \<open>\<open>release\<close>; the second result is the range discarded before the slice is parked.\<close>

definition release :: "arena \<Rightarrow> addr \<Rightarrow> nat \<Rightarrow> arena \<times> (addr \<times> nat) option" where
  "release a base pages =
     (case checked_mul pages ARENA_ALIGN of
        None \<Rightarrow> (a, None)
      | Some len \<Rightarrow> if len = 0 then (a, None) else (holes_give a base pages, Some (base, len)))"

definition stats :: "arena \<Rightarrow> nat \<times> nat \<times> nat" where
  "stats a = (ar_commits a, ar_reuses a, ar_abandoned a)"

definition high_water :: "arena \<Rightarrow> nat" where
  "high_water a = ar_bump a"

section \<open>Hole store: well-formedness and the effect of its operations\<close>

definition holes_of :: "hole_store \<Rightarrow> slice list" where
  "holes_of hs = take (hs_len hs) (hs_entries hs)"

definition hole_ok :: "hole_store \<Rightarrow> bool" where
  "hole_ok hs \<longleftrightarrow> length (hs_entries hs) = HOLE_SLOTS \<and> hs_len hs \<le> HOLE_SLOTS
     \<and> length (hs_exact hs) = EXACT_BUCKET_MAX + 1
     \<and> hs_bytes hs = (\<Sum>s\<leftarrow>holes_of hs. snd s * ARENA_ALIGN) \<and> hs_bytes hs \<le> HOLE_CAP_BYTES
     \<and> (\<forall>s \<in> set (holes_of hs). 0 < snd s)"

lemma hole_ok_new: "hole_ok hole_store_new"
  by (simp add: hole_ok_def hole_store_new_def holes_of_def)

lemma refresh_exact_simps [simp]:
  "hs_len (refresh_exact hs p) = hs_len hs"
  "hs_bytes (refresh_exact hs p) = hs_bytes hs"
  "hs_entries (refresh_exact hs p) = hs_entries hs"
  "length (hs_exact (refresh_exact hs p)) = length (hs_exact hs)"
  "holes_of (refresh_exact hs p) = holes_of hs"
  by (simp_all add: refresh_exact_def holes_of_def)

lemma exact_lookup_frame:
  assumes "exact_lookup hs pages = (hs', r)"
  shows "hs_len hs' = hs_len hs" "hs_bytes hs' = hs_bytes hs" "hs_entries hs' = hs_entries hs"
    "length (hs_exact hs') = length (hs_exact hs)"
  using assms by (auto simp: exact_lookup_def Let_def split: if_splits)

lemma exact_lookup_hit:
  "exact_lookup hs pages = (hs', Some i) \<Longrightarrow> i < hs_len hs \<and> snd (hs_entries hs ! i) = pages"
  by (auto simp: exact_lookup_def Let_def split: if_splits)

text \<open>The scan returns an index of the list it scans (or the seed) that is a smallest sufficient one.\<close>

lemma best_scan_correct:
  assumes "\<And>b. best = Some b \<Longrightarrow> pages < snd (es ! b)"
  shows "case best_scan es pages js best of
      None \<Rightarrow> best = None \<and> (\<forall>j \<in> set js. snd (es ! j) < pages)
    | Some i \<Rightarrow> (i \<in> set js \<or> best = Some i) \<and> pages \<le> snd (es ! i)
        \<and> (\<forall>j \<in> set js. pages \<le> snd (es ! j) \<longrightarrow> snd (es ! i) \<le> snd (es ! j))
        \<and> (\<forall>b. best = Some b \<longrightarrow> snd (es ! i) \<le> snd (es ! b))"
  using assms
proof (induction es pages js best rule: best_scan.induct)
  case (1 es pages best)
  then show ?case by (cases best) (auto intro: less_imp_le)
next
  case (2 es pages i js best)
  let ?p = "snd (es ! i)"
  let ?better = "pages < ?p \<and> (case best of None \<Rightarrow> True | Some b \<Rightarrow> ?p < snd (es ! b))"
  show ?case
  proof (cases "?p = pages")
    case True
    then show ?thesis using 2(2) by (auto intro: less_imp_le)
  next
    case False
    have pre: "pages < snd (es ! b)" if "(if ?better then Some i else best) = Some b" for b
      using that 2(2) by (auto split: if_splits)
    have ih: "case best_scan es pages js (if ?better then Some i else best) of
        None \<Rightarrow> (if ?better then Some i else best) = None \<and> (\<forall>j \<in> set js. snd (es ! j) < pages)
      | Some k \<Rightarrow> (k \<in> set js \<or> (if ?better then Some i else best) = Some k) \<and> pages \<le> snd (es ! k)
        \<and> (\<forall>j \<in> set js. pages \<le> snd (es ! j) \<longrightarrow> snd (es ! k) \<le> snd (es ! j))
        \<and> (\<forall>b. (if ?better then Some i else best) = Some b \<longrightarrow> snd (es ! k) \<le> snd (es ! b))"
      by (rule 2(1) [OF refl False pre])
    show ?thesis
      using ih False
      by (cases "best_scan es pages js (if ?better then Some i else best)"; cases best)
        (auto split: if_splits)
  qed
qed

text \<open>The hole list after a removal: split in place, or swap-removed.\<close>

definition holes_without :: "slice list \<Rightarrow> nat \<Rightarrow> nat \<Rightarrow> slice list" where
  "holes_without hs i pages =
     (if pages < snd (hs ! i) then hs[i := (fst (hs ! i) + pages * ARENA_ALIGN, snd (hs ! i) - pages)]
      else swap_remove hs i)"

lemma remove_hole_frame:
  assumes "hole_ok hs" "i < hs_len hs"
  shows "holes_of (remove_hole hs i pages) = holes_without (holes_of hs) i pages"
    "length (hs_entries (remove_hole hs i pages)) = HOLE_SLOTS"
    "hs_len (remove_hole hs i pages) \<le> HOLE_SLOTS"
    "length (hs_exact (remove_hole hs i pages)) = EXACT_BUCKET_MAX + 1"
    "hs_bytes (remove_hole hs i pages) = hs_bytes hs - pages * ARENA_ALIGN"
proof -
  have l: "length (hs_entries hs) = HOLE_SLOTS" "hs_len hs \<le> HOLE_SLOTS" "length (hs_exact hs) = EXACT_BUCKET_MAX + 1"
    using assms(1) by (auto simp: hole_ok_def)
  obtain off p where e: "hs_entries hs ! i = (off, p)" by (cases "hs_entries hs ! i") auto
  have n: "holes_of hs ! i = (off, p)" using assms(2) e by (simp add: holes_of_def)
  have t: "take (hs_len hs - 1) ((hs_entries hs)[i := hs_entries hs ! (hs_len hs - 1), hs_len hs - 1 := z])
      = swap_remove (take (hs_len hs) (hs_entries hs)) i" for z
    using take_swap_remove [OF assms(2), of "hs_entries hs" z] l by simp
  show "holes_of (remove_hole hs i pages) = holes_without (holes_of hs) i pages"
    using n t by (auto simp: remove_hole_def holes_without_def Let_def e holes_of_def take_update_swap)
  show "length (hs_entries (remove_hole hs i pages)) = HOLE_SLOTS"
    "hs_len (remove_hole hs i pages) \<le> HOLE_SLOTS"
    "length (hs_exact (remove_hole hs i pages)) = EXACT_BUCKET_MAX + 1"
    "hs_bytes (remove_hole hs i pages) = hs_bytes hs - pages * ARENA_ALIGN"
    using l by (auto simp: remove_hole_def Let_def e)
qed

lemma holes_without_sum:
  fixes f :: "slice \<Rightarrow> nat"
  assumes "i < length hs" "pages \<le> snd (hs ! i)"
  shows "sum_list (map f hs) + (if pages < snd (hs ! i)
           then f (fst (hs ! i) + pages * ARENA_ALIGN, snd (hs ! i) - pages) else 0)
    = sum_list (map f (holes_without hs i pages)) + f (hs ! i)"
  using sum_list_update_nat [OF assms(1), of f] sum_list_swap_remove [OF assms(1), of f]
  by (auto simp: holes_without_def)

lemma set_holes_without:
  assumes "i < length hs" "s \<in> set (holes_without hs i pages)"
  shows "s \<in> set hs \<or> pages < snd (hs ! i) \<and> s = (fst (hs ! i) + pages * ARENA_ALIGN, snd (hs ! i) - pages)"
  using assms set_swap_remove_subset [of hs i] set_update_subset_insert [of hs i]
  by (auto simp: holes_without_def split: if_splits)

lemma remove_hole_ok:
  assumes "hole_ok hs" "i < hs_len hs" "pages \<le> snd (hs_entries hs ! i)"
  shows "hole_ok (remove_hole hs i pages)"
proof -
  have i: "i < length (holes_of hs)" using assms by (auto simp: hole_ok_def holes_of_def)
  have n: "hs_entries hs ! i = holes_of hs ! i" using assms(2) by (simp add: holes_of_def)
  have pos: "\<forall>s \<in> set (holes_of hs). 0 < snd s"
    and b: "hs_bytes hs = (\<Sum>s\<leftarrow>holes_of hs. snd s * ARENA_ALIGN)" and cap: "hs_bytes hs \<le> HOLE_CAP_BYTES"
    using assms(1) by (auto simp: hole_ok_def)
  have le: "pages \<le> snd (holes_of hs ! i)" using assms(3) n by simp
  have sums: "hs_bytes hs - pages * ARENA_ALIGN = (\<Sum>s\<leftarrow>holes_without (holes_of hs) i pages. snd s * ARENA_ALIGN)"
    using holes_without_sum [OF i le, of "\<lambda>s. snd s * ARENA_ALIGN"] b le
    by (auto simp: algebra_simps split: if_splits)
  have pos': "\<forall>s \<in> set (holes_without (holes_of hs) i pages). 0 < snd s"
    using set_holes_without [OF i] pos by fastforce
  show ?thesis
    unfolding hole_ok_def remove_hole_frame [OF assms(1,2)]
    using remove_hole_frame(2-) [OF assms(1,2)] sums pos' cap by simp
qed

section \<open>The arena under interleaving\<close>

text \<open>
  \<open>arena_ok\<close> is the well-formedness of a reserved arena.  The bump frontier and the reservation bounds
  only ever constrain slices; the store of holes is checked against its own tallies.
\<close>

definition arena_ok :: "arena \<Rightarrow> bool" where
  "arena_ok a \<longleftrightarrow> ar_state a = 1 \<and> 0 < ar_start a \<and> ARENA_ALIGN dvd ar_start a
     \<and> ar_end a = ar_start a + ar_size a \<and> ar_end a < 2 ^ USIZE_BITS \<and> ar_bump a \<le> ar_size a
     \<and> ARENA_ALIGN dvd ar_bump a \<and> hole_ok (ar_holes a) \<and> ar_hole_count a = hs_len (ar_holes a)"

text \<open>The holes as address slices, like every other slice below.\<close>

definition hole_slices :: "arena \<Rightarrow> slice list" where
  "hole_slices a = map (\<lambda>(off, p). (ar_start a + off, p)) (holes_of (ar_holes a))"

definition slice_in :: "arena \<Rightarrow> slice \<Rightarrow> bool" where
  "slice_in a s \<longleftrightarrow> 0 < snd s \<and> ARENA_ALIGN dvd fst s \<and> ar_start a \<le> fst s
     \<and> fst s + snd s * ARENA_ALIGN \<le> ar_start a + ar_bump a"

text \<open>How often a list of slices covers a byte.\<close>

definition hit :: "addr \<Rightarrow> slice \<Rightarrow> nat" where
  "hit x s = (if fst s \<le> x \<and> x < fst s + snd s * ARENA_ALIGN then 1 else 0)"

definition cover :: "addr \<Rightarrow> slice list \<Rightarrow> nat" where
  "cover x ss = sum_list (map (hit x) ss)"

lemma cover_simps [simp]:
  "cover x [] = 0"
  "cover x (s # ss) = hit x s + cover x ss"
  "cover x (ss @ ts) = cover x ss + cover x ts"
  by (simp_all add: cover_def)

lemma hit_split:
  "hit x (b, p + q) = hit x (b, p) + hit x (b + p * ARENA_ALIGN, q)"
  by (auto simp: hit_def algebra_simps)

lemma hit_split_le:
  "p \<le> q \<Longrightarrow> hit x (b, q) = hit x (b, p) + hit x (b + p * ARENA_ALIGN, q - p)"
  using hit_split [of x b p "q - p"] by simp

lemma cover_swap_remove:
  "i < length ss \<Longrightarrow> cover x ss = hit x (ss ! i) + cover x (swap_remove ss i)"
  unfolding cover_def by (rule sum_list_swap_remove)

lemma cover_update:
  "i < length ss \<Longrightarrow> cover x (ss[i := s]) + hit x (ss ! i) = cover x ss + hit x s"
  unfolding cover_def by (rule sum_list_update_nat)

lemma cover_nth_le: "i < length ss \<Longrightarrow> hit x (ss ! i) \<le> cover x ss"
  using cover_swap_remove [of i ss x] by simp

lemma cover_two:
  assumes "i < j" "j < length ss"
  shows "hit x (ss ! i) + hit x (ss ! j) \<le> cover x ss"
proof -
  have "cover x ss = cover x (take j ss) + cover x (drop j ss)"
    by (metis append_take_drop_id cover_simps(3))
  moreover have "hit x (ss ! i) \<le> cover x (take j ss)"
    using cover_nth_le [of i "take j ss" x] assms by simp
  moreover have "hit x (ss ! j) \<le> cover x (drop j ss)"
    using cover_nth_le [of 0 "drop j ss" x] assms by simp
  ultimately show ?thesis by simp
qed

text \<open>What taking and giving holes does to the covered bytes.\<close>

lemma hole_choice:
  assumes "exact_lookup hs0 pages = (hs, ex)"
  shows "case (case ex of None \<Rightarrow> best_scan (hs_entries hs) pages [0..<hs_len hs] None | Some i \<Rightarrow> Some i) of
      None \<Rightarrow> \<forall>j < hs_len hs. snd (hs_entries hs ! j) < pages
    | Some i \<Rightarrow> i < hs_len hs \<and> pages \<le> snd (hs_entries hs ! i)
        \<and> (\<forall>j < hs_len hs. pages \<le> snd (hs_entries hs ! j) \<longrightarrow> snd (hs_entries hs ! i) \<le> snd (hs_entries hs ! j))"
proof (cases ex)
  case None
  then show ?thesis
    using best_scan_correct [of None pages "hs_entries hs" "[0..<hs_len hs]"]
    by (auto split: option.splits)
next
  case (Some i)
  then show ?thesis using exact_lookup_hit [of hs0 pages hs i] assms exact_lookup_frame [OF assms] by auto
qed

text \<open>A taken hole: which one, and what is left.\<close>

definition took_hole :: "arena \<Rightarrow> nat \<Rightarrow> addr \<Rightarrow> arena \<Rightarrow> nat \<Rightarrow> bool" where
  "took_hole a pages b a' i \<longleftrightarrow> i < length (holes_of (ar_holes a)) \<and> b = ar_start a + fst (holes_of (ar_holes a) ! i)
     \<and> pages \<le> snd (holes_of (ar_holes a) ! i)
     \<and> (\<forall>s \<in> set (holes_of (ar_holes a)). pages \<le> snd s \<longrightarrow> snd (holes_of (ar_holes a) ! i) \<le> snd s)
     \<and> holes_of (ar_holes a') = holes_without (holes_of (ar_holes a)) i pages"

definition missed_hole :: "arena \<Rightarrow> nat \<Rightarrow> arena \<Rightarrow> bool" where
  "missed_hole a pages a' \<longleftrightarrow> (\<forall>s \<in> set (holes_of (ar_holes a)). snd s < pages)
     \<and> holes_of (ar_holes a') = holes_of (ar_holes a)"

definition same_bounds :: "arena \<Rightarrow> arena \<Rightarrow> bool" where
  "same_bounds a a' \<longleftrightarrow> ar_start a' = ar_start a \<and> ar_end a' = ar_end a \<and> ar_size a' = ar_size a"

lemma holes_take_cases:
  assumes "arena_ok a" "0 < pages" "holes_take a pages = (b, a')"
  shows "(if b = null then missed_hole a pages a' else \<exists>i. took_hole a pages b a' i)
    \<and> arena_ok a' \<and> same_bounds a a' \<and> ar_bump a' = ar_bump a"
proof (cases "ar_hole_count a = 0")
  case True
  then show ?thesis using assms by (auto simp: holes_take_def missed_hole_def holes_of_def arena_ok_def same_bounds_def)
next
  case nz: False
  obtain hs ex where e: "exact_lookup (ar_holes a) pages = (hs, ex)" by (cases "exact_lookup (ar_holes a) pages") auto
  note fr = exact_lookup_frame [OF e]
  have H: "holes_of hs = holes_of (ar_holes a)" "hole_ok hs"
    using assms(1) fr by (auto simp: holes_of_def hole_ok_def arena_ok_def)
  have len: "length (holes_of (ar_holes a)) = hs_len hs" using H(2) unfolding H(1) [symmetric] by (simp add: holes_of_def hole_ok_def)
  have nth: "hs_entries hs ! i = holes_of (ar_holes a) ! i" if "i < hs_len hs" for i
    unfolding H(1) [symmetric] using that by (simp add: holes_of_def)
  have allE: "(\<forall>s \<in> set (holes_of (ar_holes a)). P s) \<longleftrightarrow> (\<forall>j < hs_len hs. P (hs_entries hs ! j))" for P
    using nth len by (simp add: all_set_conv_all_nth)
  have frame: "arena_ok (a\<lparr>ar_holes := hs', ar_hole_count := hs_len hs'\<rparr>)" if "hole_ok hs'" for hs'
    using that assms(1) by (simp add: arena_ok_def)
  define best where "best = (case ex of None \<Rightarrow> best_scan (hs_entries hs) pages [0..<hs_len hs] None | Some i \<Rightarrow> Some i)"
  note best_ok = hole_choice [OF e, folded best_def]
  note take_def = assms(3) [unfolded holes_take_def e, simplified nz, simplified, folded best_def]
  show ?thesis
  proof (cases best)
    case None
    then show ?thesis
      using take_def best_ok H frame allE by (auto simp: missed_hole_def same_bounds_def)
  next
    case (Some i)
    then have b: "b = ar_start a + fst (hs_entries hs ! i)"
      and a': "a' = a\<lparr>ar_holes := remove_hole hs i pages, ar_hole_count := hs_len (remove_hole hs i pages)\<rparr>"
      using take_def by (auto simp: Let_def)
    have i: "i < hs_len hs" "pages \<le> snd (hs_entries hs ! i)" using best_ok Some by auto
    have "took_hole a pages b a' i"
      using best_ok Some nth [OF i(1)] i len allE remove_hole_frame(1) [OF H(2) i(1), of pages] H(1)
      by (simp add: took_hole_def b a')
    moreover have "b \<noteq> null" using assms(1) b by (simp add: arena_ok_def)
    ultimately show ?thesis
      using frame [OF remove_hole_ok [OF H(2) i]] by (auto simp: a' same_bounds_def)
  qed
qed

lemma holes_give_cases:
  assumes "arena_ok a" "slice_in a (b, pages)" "holes_give a b pages = a'"
  shows "arena_ok a' \<and> same_bounds a a' \<and> ar_bump a' = ar_bump a
    \<and> holes_of (ar_holes a') = holes_of (ar_holes a) @ (if hole_room a pages then [(b - ar_start a, pages)] else [])
    \<and> ar_abandoned a' = ar_abandoned a + (if hole_room a pages then 0 else 1)"
proof (cases "hole_room a pages")
  case False
  then show ?thesis using assms by (auto simp: holes_give_def Let_def arena_ok_def same_bounds_def)
next
  case True
  have ok: "hole_ok (ar_holes a)" using assms(1) by (simp add: arena_ok_def)
  let ?hs = "ar_holes a"
  have b: "ar_start a \<le> b" "b < 2 ^ 64" "0 < pages"
    using assms(1,2) by (auto simp: slice_in_def arena_ok_def USIZE_BITS_def)
  have l: "hs_len ?hs < length (hs_entries ?hs)" using ok True by (simp add: hole_ok_def hole_room_def)
  have t: "take (Suc (hs_len ?hs)) ((hs_entries ?hs)[hs_len ?hs := z]) = holes_of ?hs @ [z]" for z
    using l by (simp add: holes_of_def take_Suc_conv_app_nth)
  have h: "holes_of (ar_holes a') = holes_of ?hs @ [(b - ar_start a, pages)]"
    using assms(3) True b t by (auto simp: holes_give_def Let_def holes_of_def)
  have "hole_ok (ar_holes a')"
    using ok True b h assms(3) unfolding hole_ok_def h
    by (auto simp: holes_give_def Let_def hole_room_def)
  then show ?thesis using assms h True
    by (auto simp: holes_give_def Let_def arena_ok_def same_bounds_def)
qed

text \<open>
  The world: the arena, and where every slice is that the arena does not hold.  A claimed slice waits for
  its commit (\<open>w_pending\<close>), a committed one belongs to its caller (\<open>w_owned\<close>); a caller that grows its
  slice holds it as \<open>(base, old pages, new pages)\<close> until the commit of the extension is decided; a slice the
  hole store had no room for is gone (\<open>w_gone\<close>).
\<close>

record world =
  w_arena :: arena
  w_pending :: "slice list"
  w_owned :: "slice list"
  w_growing :: "(addr \<times> nat \<times> nat) list"
  w_gone :: "slice list"

definition lost :: "arena \<Rightarrow> slice \<Rightarrow> slice list" where
  "lost a s = (if hole_room a (snd s) then [] else [s])"

text \<open>
  The steps, one per atomic action of the code: \<open>holes_take\<close> (with or without a hit), the winning
  exchange of the bump frontier, the outcome of a commit, \<open>release\<close>, and the two halves of
  \<open>grow_frontier\<close>.  The counters \<open>c\<close>, \<open>r\<close> are whatever the telemetry of the step makes them.
\<close>

inductive arena_step :: "world \<Rightarrow> world \<Rightarrow> bool" where
  take_hit: "0 < pages \<Longrightarrow> holes_take (w_arena w) pages = (b, a') \<Longrightarrow> b \<noteq> null \<Longrightarrow>
    arena_step w (w\<lparr>w_arena := a', w_pending := (b, pages) # w_pending w\<rparr>)"
| take_miss: "0 < pages \<Longrightarrow> holes_take (w_arena w) pages = (null, a') \<Longrightarrow>
    arena_step w (w\<lparr>w_arena := a'\<rparr>)"
| claim: "0 < pages \<Longrightarrow> claim_bump (w_arena w) (pages * ARENA_ALIGN) = Some (b, a') \<Longrightarrow>
    arena_step w (w\<lparr>w_arena := a', w_pending := (b, pages) # w_pending w\<rparr>)"
| commit_ok: "w_pending w = ps @ s # qs \<Longrightarrow>
    arena_step w (w\<lparr>w_arena := w_arena w\<lparr>ar_commits := c, ar_reuses := r\<rparr>,
      w_pending := ps @ qs, w_owned := s # w_owned w\<rparr>)"
| commit_failed: "w_pending w = ps @ s # qs \<Longrightarrow>
    arena_step w (w\<lparr>w_arena := holes_give (w_arena w) (fst s) (snd s), w_pending := ps @ qs,
      w_gone := lost (w_arena w) s @ w_gone w\<rparr>)"
| released: "w_owned w = ps @ s # qs \<Longrightarrow>
    arena_step w (w\<lparr>w_arena := fst (release (w_arena w) (fst s) (snd s)), w_owned := ps @ qs,
      w_gone := lost (w_arena w) s @ w_gone w\<rparr>)"
| grow_claim: "w_owned w = ps @ (b, p) # qs \<Longrightarrow> claim_frontier (w_arena w) b p q = Some a' \<Longrightarrow>
    arena_step w (w\<lparr>w_arena := a', w_owned := ps @ qs, w_growing := (b, p, q) # w_growing w\<rparr>)"
| grow_ok: "w_growing w = gs @ (b, p, q) # hs \<Longrightarrow>
    arena_step w (w\<lparr>w_arena := w_arena w\<lparr>ar_commits := c\<rparr>, w_growing := gs @ hs, w_owned := (b, q) # w_owned w\<rparr>)"
| grow_failed: "w_growing w = gs @ (b, p, q) # hs \<Longrightarrow>
    arena_step w (w\<lparr>w_arena := holes_give (w_arena w) (b + p * ARENA_ALIGN) (q - p), w_growing := gs @ hs,
      w_owned := (b, p) # w_owned w, w_gone := lost (w_arena w) (b + p * ARENA_ALIGN, q - p) @ w_gone w\<rparr>)"

text \<open>Every slice of the world, wherever it is; a slice that is being grown counts with its extension.\<close>

definition grown :: "addr \<times> nat \<times> nat \<Rightarrow> slice" where
  "grown g = (fst g, snd (snd g))"

definition held_slices :: "world \<Rightarrow> slice list" where
  "held_slices w = w_owned w @ w_pending w @ map grown (w_growing w)"

definition all_slices :: "world \<Rightarrow> slice list" where
  "all_slices w = held_slices w @ w_gone w @ hole_slices (w_arena w)"

definition frontier :: "arena \<Rightarrow> slice" where
  "frontier a = (ar_start a, ar_bump a div ARENA_ALIGN)"

text \<open>
  The invariant: the slices of the world tile the claimed part of the reservation exactly; every byte
  below the frontier belongs to one slice, and no byte above it to any.
\<close>

definition world_ok :: "world \<Rightarrow> bool" where
  "world_ok w \<longleftrightarrow> arena_ok (w_arena w)
     \<and> (\<forall>s \<in> set (all_slices w). slice_in (w_arena w) s)
     \<and> (\<forall>(b, p, q) \<in> set (w_growing w). 0 < p \<and> p < q)
     \<and> (\<forall>x. cover x (all_slices w) = hit x (frontier (w_arena w)))"

definition world_of :: "arena \<Rightarrow> world" where
  "world_of a = \<lparr> w_arena = a, w_pending = [], w_owned = [], w_growing = [], w_gone = [] \<rparr>"

text \<open>Pieces of the invariant proof: a step changes the holes and the callers' slices together.\<close>

lemma slice_in_mono:
  assumes "same_bounds a a'" "ar_bump a \<le> ar_bump a'" "slice_in a s"
  shows "slice_in a' s"
  using assms by (auto simp: slice_in_def same_bounds_def)

lemma took_hole_slices:
  assumes "took_hole a pages b a' i" "same_bounds a a'" "\<forall>s \<in> set (hole_slices a). slice_in a s" "0 < pages"
    "ar_bump a' = ar_bump a"
  shows "cover x (hole_slices a) = hit x (b, pages) + cover x (hole_slices a')"
    "slice_in a' (b, pages)" "\<forall>s \<in> set (hole_slices a'). slice_in a' s"
proof -
  let ?hs = "holes_of (ar_holes a)" and ?sh = "\<lambda>(off, p). (ar_start a + off, p)"
  obtain off p where e: "?hs ! i = (off, p)" by (cases "?hs ! i") auto
  have i: "i < length ?hs" "pages \<le> p" "b = ar_start a + off"
    and h': "holes_of (ar_holes a') = holes_without ?hs i pages"
    using assms(1) e by (auto simp: took_hole_def)
  have H: "hole_slices a = map ?sh ?hs" "hole_slices a' = map ?sh (holes_without ?hs i pages)"
    using h' assms(2) by (auto simp: hole_slices_def same_bounds_def)
  have "cover x (hole_slices a) + (if pages < p then hit x (b + pages * ARENA_ALIGN, p - pages) else 0)
      = cover x (hole_slices a') + hit x (b, p)"
    using holes_without_sum [OF i(1), of pages "hit x \<circ> ?sh"] i e
    by (cases "pages < p") (simp_all add: H cover_def add.assoc comp_def)
  moreover have "hit x (b, p) = hit x (b, pages) + (if pages < p then hit x (b + pages * ARENA_ALIGN, p - pages) else 0)"
    using hit_split_le [OF i(2), of x b] i(2) by (auto simp: hit_def)
  ultimately show "cover x (hole_slices a) = hit x (b, pages) + cover x (hole_slices a')" by simp
  have "(b, p) \<in> set (hole_slices a)" using i nth_mem [OF i(1)] e by (auto simp: H image_iff intro!: bexI)
  then have bp: "slice_in a (b, p)" using assms(3) by blast
  have "pages * ARENA_ALIGN \<le> p * ARENA_ALIGN" using i(2) by simp
  then have "b + pages * ARENA_ALIGN \<le> b + p * ARENA_ALIGN" by simp
  moreover have "pages * ARENA_ALIGN + (p - pages) * ARENA_ALIGN = p * ARENA_ALIGN"
    using i(2) by (simp flip: add_mult_distrib)
  moreover note bp
  ultimately have piece: "slice_in a (b, pages)" "pages < p \<Longrightarrow> slice_in a (b + pages * ARENA_ALIGN, p - pages)"
    using assms(4) by (auto simp: slice_in_def)
  then show "slice_in a' (b, pages)" using slice_in_mono assms(2,5) by (metis order_refl)
  have "slice_in a s" if "s \<in> set (hole_slices a')" for s
  proof -
    obtain t where t: "t \<in> set (holes_without ?hs i pages)" "s = ?sh t" using \<open>s \<in> set (hole_slices a')\<close> unfolding H by auto
    from set_holes_without [OF i(1) t(1)] show ?thesis
      using piece(2) assms(3) t(2) e i(3) by (auto simp: H add.assoc)
  qed
  then show "\<forall>s \<in> set (hole_slices a'). slice_in a' s" using slice_in_mono assms(2,5) by (metis order_refl)
qed

lemma give_slices:
  assumes "arena_ok a" "slice_in a s" "holes_give a (fst s) (snd s) = a'"
  shows "cover x (lost a s) + cover x (hole_slices a') = hit x s + cover x (hole_slices a)"
    "t \<in> set (lost a s) \<union> set (hole_slices a') \<Longrightarrow> t = s \<or> t \<in> set (hole_slices a)"
    "arena_ok a'" "same_bounds a a'" "ar_bump a' = ar_bump a"
proof -
  obtain b p where s: "s = (b, p)" by (cases s)
  have g: "arena_ok a' \<and> same_bounds a a' \<and> ar_bump a' = ar_bump a
      \<and> holes_of (ar_holes a') = holes_of (ar_holes a) @ (if hole_room a p then [(b - ar_start a, p)] else [])"
    using holes_give_cases [of a b p a'] assms s by auto
  then have h: "hole_slices a' = hole_slices a @ (if hole_room a p then [(b, p)] else [])"
    using assms(2) s by (auto simp: hole_slices_def same_bounds_def slice_in_def)
  show "cover x (lost a s) + cover x (hole_slices a') = hit x s + cover x (hole_slices a)"
    "t \<in> set (lost a s) \<union> set (hole_slices a') \<Longrightarrow> t = s \<or> t \<in> set (hole_slices a)"
    using h s by (auto simp: lost_def split: if_splits)
  show "arena_ok a'" "same_bounds a a'" "ar_bump a' = ar_bump a" using g by auto
qed

lemma claim_slices:
  assumes "arena_ok a" "0 < pages" "claim_bump a (pages * ARENA_ALIGN) = Some (b, a')"
  shows "arena_ok a'" "same_bounds a a'" "hole_slices a' = hole_slices a"
    "hit x (frontier a') = hit x (frontier a) + hit x (b, pages)"
    "slice_in a' (b, pages)" "ar_bump a \<le> ar_bump a'"
proof -
  have e: "b = ar_start a + ar_bump a" "a' = a\<lparr>ar_bump := ar_bump a + pages * ARENA_ALIGN\<rparr>"
    "ar_bump a + pages * ARENA_ALIGN \<le> ar_size a"
    using assms(3) by (auto simp: claim_bump_def Let_def split: option.splits if_splits)
  have d: "ar_bump a = ar_bump a div ARENA_ALIGN * ARENA_ALIGN" using assms(1) by (simp add: arena_ok_def)
  show "arena_ok a'" using assms(1) e by (auto simp: arena_ok_def)
  show "same_bounds a a'" "hole_slices a' = hole_slices a" "ar_bump a \<le> ar_bump a'"
    by (auto simp: e same_bounds_def hole_slices_def)
  show "slice_in a' (b, pages)" using assms(1,2) e by (auto simp: slice_in_def arena_ok_def)
  have "ar_bump a' div ARENA_ALIGN = ar_bump a div ARENA_ALIGN + pages" by (simp add: e)
  then show "hit x (frontier a') = hit x (frontier a) + hit x (b, pages)"
    using hit_split [of x "ar_start a" "ar_bump a div ARENA_ALIGN" pages] d e by (simp add: frontier_def add.commute)
qed

lemma grow_slices:
  assumes "arena_ok a" "claim_frontier a b p q = Some a'"
  shows "arena_ok a'" "same_bounds a a'" "hole_slices a' = hole_slices a" "0 < p" "p < q"
    "hit x (frontier a') = hit x (frontier a) + hit x (b + p * ARENA_ALIGN, q - p)"
    "ar_bump a \<le> ar_bump a'" "slice_in a (b, p) \<Longrightarrow> slice_in a' (b, q)"
proof -
  have e: "a' = a\<lparr>ar_bump := ar_bump a + (q - p) * ARENA_ALIGN\<rparr>" "0 < p" "p < q" "ar_start a \<le> b"
    "b + p * ARENA_ALIGN = ar_start a + ar_bump a" "ar_bump a + (q - p) * ARENA_ALIGN \<le> ar_size a"
    using assms(2) by (auto simp: claim_frontier_def contains_def diff_mult_distrib split: option.splits if_splits)
  have d: "ar_bump a = ar_bump a div ARENA_ALIGN * ARENA_ALIGN" using assms(1) by (simp add: arena_ok_def)
  show "arena_ok a'" using assms(1) e by (auto simp: arena_ok_def)
  show "same_bounds a a'" "hole_slices a' = hole_slices a" "ar_bump a \<le> ar_bump a'"
    by (auto simp: e same_bounds_def hole_slices_def)
  show "0 < p" "p < q" by fact+
  have "ar_bump a' div ARENA_ALIGN = ar_bump a div ARENA_ALIGN + (q - p)" by (simp add: e)
  then show "hit x (frontier a') = hit x (frontier a) + hit x (b + p * ARENA_ALIGN, q - p)"
    using hit_split [of x "ar_start a" "ar_bump a div ARENA_ALIGN" "q - p"] d e(1,5) by (simp add: frontier_def add.commute)
  have "p * ARENA_ALIGN + (q - p) * ARENA_ALIGN = q * ARENA_ALIGN"
    using e(3) by (simp flip: add_mult_distrib)
  then show "slice_in a' (b, q)" if "slice_in a (b, p)"
    using that e by (auto simp: slice_in_def)
qed

lemma world_ok_by:
  assumes "world_ok w" "arena_ok (w_arena w')" "same_bounds (w_arena w) (w_arena w')" "ar_bump (w_arena w) \<le> ar_bump (w_arena w')"
    and "\<And>s. s \<in> set (all_slices w') \<Longrightarrow> s \<in> set (all_slices w) \<or> slice_in (w_arena w') s"
    and "\<And>g. g \<in> set (w_growing w') \<Longrightarrow> g \<in> set (w_growing w) \<or> 0 < fst (snd g) \<and> fst (snd g) < snd (snd g)"
    and "\<And>x. cover x (all_slices w') + hit x (frontier (w_arena w)) = cover x (all_slices w) + hit x (frontier (w_arena w'))"
  shows "world_ok w'"
  unfolding world_ok_def
proof (intro conjI ballI allI)
  show "slice_in (w_arena w') s" if "s \<in> set (all_slices w')" for s
    using assms(1) assms(5) [OF that] slice_in_mono [OF assms(3,4)] by (cases s) (auto simp: world_ok_def)
  show "case g of (b, p, q) \<Rightarrow> 0 < p \<and> p < q" if "g \<in> set (w_growing w')" for g
    using assms(1) assms(6) [OF that] by (cases g) (auto simp: world_ok_def)
  show "cover x (all_slices w') = hit x (frontier (w_arena w'))" for x
    using assms(1) assms(7) [of x] by (auto simp: world_ok_def)
qed (rule assms(2))

lemma world_ok_take:
  assumes "world_ok w" "0 < pages" "holes_take (w_arena w) pages = (b, a')" "b \<noteq> null"
  shows "world_ok (w\<lparr>w_arena := a', w_pending := (b, pages) # w_pending w\<rparr>)"
proof -
  let ?a = "w_arena w"
  have a: "arena_ok ?a" and sl: "\<forall>s \<in> set (hole_slices ?a). slice_in ?a s"
    using assms(1) by (auto simp: world_ok_def all_slices_def)
  obtain i where t: "took_hole ?a pages b a' i" and a': "arena_ok a'" "same_bounds ?a a'" "ar_bump a' = ar_bump ?a"
    using holes_take_cases [OF a assms(2,3)] assms(4) by auto
  note k = took_hole_slices [OF t a'(2) sl assms(2) a'(3)]
  have fr: "frontier a' = frontier ?a" using a' by (simp add: frontier_def same_bounds_def)
  show ?thesis
    by (rule world_ok_by [OF assms(1)]) (use a' k fr in \<open>auto simp: all_slices_def held_slices_def\<close>)
qed

lemma world_ok_miss:
  assumes "world_ok w" "0 < pages" "holes_take (w_arena w) pages = (null, a')"
  shows "world_ok (w\<lparr>w_arena := a'\<rparr>)"
proof -
  have a: "arena_ok (w_arena w)" using assms(1) by (simp add: world_ok_def)
  have a': "holes_of (ar_holes a') = holes_of (ar_holes (w_arena w))" "arena_ok a'" "same_bounds (w_arena w) a'"
    "ar_bump a' = ar_bump (w_arena w)"
    using holes_take_cases [OF a assms(2,3)] by (auto simp: missed_hole_def)
  then have "hole_slices a' = hole_slices (w_arena w)" "frontier a' = frontier (w_arena w)"
    by (auto simp: hole_slices_def frontier_def same_bounds_def)
  then show ?thesis
    by (intro world_ok_by [OF assms(1)]) (use a' in \<open>auto simp: all_slices_def held_slices_def\<close>)
qed

text \<open>Giving a slice to the holes, whoever held it.\<close>

lemma world_ok_give:
  assumes "world_ok w" "slice_in (w_arena w) s"
    and "w_arena w' = holes_give (w_arena w) (fst s) (snd s)" "w_gone w' = lost (w_arena w) s @ w_gone w"
    and "\<And>t. t \<in> set (held_slices w') \<Longrightarrow> t \<in> set (held_slices w) \<or> slice_in (w_arena w) t"
    and "\<And>x. cover x (held_slices w') + hit x s = cover x (held_slices w)"
    and "set (w_growing w') \<subseteq> set (w_growing w)"
  shows "world_ok w'"
proof (rule world_ok_by [OF assms(1)])
  have a: "arena_ok (w_arena w)" using assms(1) by (simp add: world_ok_def)
  note k = give_slices [OF a assms(2) assms(3) [symmetric]]
  show "arena_ok (w_arena w')" "same_bounds (w_arena w) (w_arena w')" "ar_bump (w_arena w) \<le> ar_bump (w_arena w')"
    using k by auto
  show "t \<in> set (all_slices w) \<or> slice_in (w_arena w') t" if "t \<in> set (all_slices w')" for t
    using that assms(2,4) assms(5) [of t] k(2) [of t] slice_in_mono [OF k(4), of t] k(5) by (auto simp: all_slices_def)
  show "g \<in> set (w_growing w) \<or> 0 < fst (snd g) \<and> fst (snd g) < snd (snd g)" if "g \<in> set (w_growing w')" for g
    using that assms(7) by auto
  have fr: "frontier (w_arena w') = frontier (w_arena w)" using k(4,5) by (simp add: frontier_def same_bounds_def)
  show "cover x (all_slices w') + hit x (frontier (w_arena w)) = cover x (all_slices w) + hit x (frontier (w_arena w'))" for x
    using k(1) [of x] assms(6) [of x] by (simp add: all_slices_def assms(4) fr)
qed

lemma world_ok_grow_claim:
  assumes "world_ok w" "w_owned w = ps @ (b, p) # qs" "claim_frontier (w_arena w) b p q = Some a'"
  shows "world_ok (w\<lparr>w_arena := a', w_owned := ps @ qs, w_growing := (b, p, q) # w_growing w\<rparr>)"
proof -
  have a: "arena_ok (w_arena w)" and s: "slice_in (w_arena w) (b, p)"
    using assms by (auto simp: world_ok_def all_slices_def held_slices_def)
  note k = grow_slices [OF a assms(3)]
  have "hit x (b, q) = hit x (b, p) + hit x (b + p * ARENA_ALIGN, q - p)" for x
    using k(5) by (simp add: hit_split_le)
  then show ?thesis
    by (intro world_ok_by [OF assms(1)])
      (use assms(2) k s in \<open>auto simp: all_slices_def held_slices_def grown_def\<close>)
qed

lemma world_ok_grow_failed:
  assumes "world_ok w" "w_growing w = gs @ (b, p, q) # hs"
  shows "world_ok (w\<lparr>w_arena := holes_give (w_arena w) (b + p * ARENA_ALIGN) (q - p), w_growing := gs @ hs,
      w_owned := (b, p) # w_owned w, w_gone := lost (w_arena w) (b + p * ARENA_ALIGN, q - p) @ w_gone w\<rparr>)"
proof -
  have s: "slice_in (w_arena w) (b, q)" and pq: "0 < p" "p < q"
    using assms by (auto simp: world_ok_def all_slices_def held_slices_def grown_def)
  have "p * ARENA_ALIGN + (q - p) * ARENA_ALIGN = q * ARENA_ALIGN" using pq by (simp flip: add_mult_distrib)
  then have parts: "slice_in (w_arena w) (b, p)" "slice_in (w_arena w) (b + p * ARENA_ALIGN, q - p)"
    using s pq by (auto simp: slice_in_def)
  have "hit x (b, q) = hit x (b, p) + hit x (b + p * ARENA_ALIGN, q - p)" for x
    using pq by (simp add: hit_split_le)
  then show ?thesis
    by (intro world_ok_give [OF assms(1) parts(2)]) (use assms(2) parts in \<open>auto simp: held_slices_def grown_def\<close>)
qed

lemma release_gives:
  assumes "arena_ok a" "slice_in a s"
  shows "release a (fst s) (snd s) = (holes_give a (fst s) (snd s), Some (fst s, snd s * ARENA_ALIGN))"
proof -
  have "fst s + snd s * ARENA_ALIGN < 2 ^ USIZE_BITS"
    using assms by (auto simp: arena_ok_def slice_in_def)
  then show ?thesis using assms by (auto simp: release_def checked_mul_def slice_in_def)
qed

lemma world_ok_step:
  assumes "arena_step w w'" "world_ok w"
  shows "world_ok w'"
  using assms
proof (induction rule: arena_step.induct)
  case (claim pages w b a')
  have a: "arena_ok (w_arena w)" using claim(3) by (simp add: world_ok_def)
  note k = claim_slices [OF a claim(1,2)]
  show ?case
    by (rule world_ok_by [OF claim(3)]) (use k in \<open>auto simp: all_slices_def held_slices_def\<close>)
next
  case (commit_ok w ps s qs c r)
  have "arena_ok (w_arena w)" using commit_ok(2) by (simp add: world_ok_def)
  then show ?case
    by (intro world_ok_by [OF commit_ok(2)])
      (use commit_ok(1) in \<open>auto simp: all_slices_def held_slices_def arena_ok_def same_bounds_def frontier_def hole_slices_def\<close>)
next
  case (commit_failed w ps s qs)
  have s: "slice_in (w_arena w) s" using commit_failed by (auto simp: world_ok_def all_slices_def held_slices_def)
  show ?case
    by (rule world_ok_give [OF commit_failed(2) s]) (use commit_failed(1) in \<open>auto simp: held_slices_def\<close>)
next
  case (released w ps s qs)
  have s: "slice_in (w_arena w) s" "arena_ok (w_arena w)"
    using released by (auto simp: world_ok_def all_slices_def held_slices_def)
  show ?case
    by (rule world_ok_give [OF released(2) s(1)])
      (use released(1) s release_gives in \<open>auto simp: held_slices_def\<close>)
next
  case (grow_ok w gs b p q hs c)
  have "arena_ok (w_arena w)" using grow_ok(2) by (simp add: world_ok_def)
  then show ?case
    by (intro world_ok_by [OF grow_ok(2)])
      (use grow_ok(1) in \<open>auto simp: all_slices_def held_slices_def arena_ok_def same_bounds_def frontier_def hole_slices_def grown_def\<close>)
qed (auto intro: world_ok_take world_ok_miss world_ok_grow_claim world_ok_grow_failed)

lemma world_ok_steps: "arena_step\<^sup>*\<^sup>* w w' \<Longrightarrow> world_ok w \<Longrightarrow> world_ok w'"
  by (induction rule: rtranclp_induct) (auto intro: world_ok_step)

section \<open>Properties\<close>

lemma ensure_init_ready:
  assumes "ensure_init (Some r) a = (True, a', trims)" "ar_state a = 0" "0 < r" "r + ar_size a + ARENA_ALIGN \<le> 2 ^ USIZE_BITS"
  shows "r \<le> ar_start a'" "ar_start a' < r + ARENA_ALIGN" "ARENA_ALIGN dvd ar_start a'" "ar_end a' = ar_start a' + ar_size a"
    "a' = a\<lparr>ar_start := ar_start a', ar_end := ar_end a', ar_bump := 0, ar_state := 1\<rparr>"
    "trims = (if ar_start a' \<noteq> r then [(r, ar_start a' - r)] else [])
       @ (if ar_end a' \<noteq> r + (ar_size a + ARENA_ALIGN) then [(ar_end a', r + (ar_size a + ARENA_ALIGN) - ar_end a')] else [])"
proof -
  have t: "ar_size a + ARENA_ALIGN < 2 ^ USIZE_BITS" using assms(3,4) by simp
  then have e: "(True, a', trims) = (True, a\<lparr>ar_start := mask_down ARENA_ALIGN (r + ARENA_ALIGN - 1),
      ar_end := mask_down ARENA_ALIGN (r + ARENA_ALIGN - 1) + ar_size a, ar_bump := 0, ar_state := 1\<rparr>,
      (if mask_down ARENA_ALIGN (r + ARENA_ALIGN - 1) \<noteq> r then [(r, mask_down ARENA_ALIGN (r + ARENA_ALIGN - 1) - r)] else [])
       @ (if mask_down ARENA_ALIGN (r + ARENA_ALIGN - 1) + ar_size a \<noteq> r + (ar_size a + ARENA_ALIGN)
          then [(mask_down ARENA_ALIGN (r + ARENA_ALIGN - 1) + ar_size a,
                 r + (ar_size a + ARENA_ALIGN) - (mask_down ARENA_ALIGN (r + ARENA_ALIGN - 1) + ar_size a))] else []))"
    using assms(1) by (simp only: ensure_init_def assms(2) checked_add_def option.case Let_def if_True refl) simp
  have b: "r + ARENA_ALIGN - 1 = r + (ARENA_ALIGN - 1)" by (simp add: ARENA_ALIGN_def)
  have m: "r \<le> mask_down ARENA_ALIGN (r + ARENA_ALIGN - 1)" "mask_down ARENA_ALIGN (r + ARENA_ALIGN - 1) < r + ARENA_ALIGN"
    unfolding b by (rule mask_down_bounds [OF ARENA_ALIGN_pos])+
  show "r \<le> ar_start a'" "ar_start a' < r + ARENA_ALIGN" "ARENA_ALIGN dvd ar_start a'" "ar_end a' = ar_start a' + ar_size a"
    "a' = a\<lparr>ar_start := ar_start a', ar_end := ar_end a', ar_bump := 0, ar_state := 1\<rparr>"
    "trims = (if ar_start a' \<noteq> r then [(r, ar_start a' - r)] else [])
       @ (if ar_end a' \<noteq> r + (ar_size a + ARENA_ALIGN) then [(ar_end a', r + (ar_size a + ARENA_ALIGN) - ar_end a')] else [])"
    using e m by auto
qed

lemma initial_world_ok:
  assumes "ensure_init (Some r) (with_size sz) = (True, a, trims)" "0 < r" "r + sz + ARENA_ALIGN \<le> 2 ^ USIZE_BITS"
  shows "world_ok (world_of a)"
proof -
  have st: "ar_state (with_size sz) = 0" "r + ar_size (with_size sz) + ARENA_ALIGN \<le> 2 ^ USIZE_BITS"
    using assms(3) by (simp_all add: with_size_def)
  note k = ensure_init_ready [OF assms(1) st(1) assms(2) st(2)]
  have a: "ar_state a = 1" "ar_bump a = 0" "ar_holes a = hole_store_new" "ar_hole_count a = 0" "ar_size a = sz"
    by (subst k(5), simp add: with_size_def)+
  have "arena_ok a"
    using k(1-4) a hole_ok_new assms(2,3) by (auto simp: arena_ok_def with_size_def hole_store_new_def)
  then show ?thesis
    by (auto simp: world_ok_def world_of_def all_slices_def held_slices_def hole_slices_def a holes_of_def
        hole_store_new_def frontier_def hit_def)
qed

lemma arena_slices_disjoint_facts:
  assumes "ensure_init (Some r) (with_size sz) = (True, a, trims)" "0 < r" "r + sz + ARENA_ALIGN \<le> 2 ^ USIZE_BITS"
    and "arena_step\<^sup>*\<^sup>* (world_of a) w"
  shows "cover x (all_slices w) = hit x (frontier (w_arena w))"
    and "i < j \<Longrightarrow> j < length (w_owned w) \<Longrightarrow> w_owned w ! i = (b, p) \<Longrightarrow> w_owned w ! j = (c, q) \<Longrightarrow>
      b + p * ARENA_ALIGN \<le> c \<or> c + q * ARENA_ALIGN \<le> b"
    and "k < length (w_owned w) \<Longrightarrow> w_owned w ! k = (d, n) \<Longrightarrow>
      ARENA_ALIGN dvd d \<and> contains (w_arena w) d (n * ARENA_ALIGN)"
proof -
  have ok: "world_ok w" by (rule world_ok_steps [OF assms(4) initial_world_ok [OF assms(1-3)]])
  then show cov: "cover x (all_slices w) = hit x (frontier (w_arena w))" for x by (simp add: world_ok_def)
  have sl: "slice_in (w_arena w) s" if "s \<in> set (w_owned w)" for s
    using ok that by (auto simp: world_ok_def all_slices_def held_slices_def)
  have one: "cover x (w_owned w) \<le> 1" for x
    using cov [of x] by (auto simp: all_slices_def held_slices_def hit_def split: if_splits)
  show "b + p * ARENA_ALIGN \<le> c \<or> c + q * ARENA_ALIGN \<le> b"
    if ij: "i < j" "j < length (w_owned w)" "w_owned w ! i = (b, p)" "w_owned w ! j = (c, q)"
  proof (rule ccontr)
    assume "\<not> ?thesis"
    moreover have "0 < p" "0 < q" using sl [of "(b, p)"] sl [of "(c, q)"] ij nth_mem [of i "w_owned w"] nth_mem [of j "w_owned w"]
      by (auto simp: slice_in_def)
    ultimately have "hit (max b c) (b, p) + hit (max b c) (c, q) = 2" by (auto simp: hit_def max_def)
    then show False using cover_two [OF ij(1,2), of "max b c"] one [of "max b c"] ij by simp
  qed
  show "ARENA_ALIGN dvd d \<and> contains (w_arena w) d (n * ARENA_ALIGN)"
    if "k < length (w_owned w)" "w_owned w ! k = (d, n)"
    using sl [of "(d, n)"] nth_mem [OF that(1)] that(2) ok
    by (auto simp: slice_in_def contains_def world_ok_def arena_ok_def checked_add_def)
qed

text \<open>C27 (safety).  From a fresh reservation, through any interleaving of takes, claims, commits (failed ones
  too), frontier growth and releases: the slices held by callers, in flight, parked as holes or abandoned tile
  the claimed part of the reservation exactly, so that two slices handed out never share a byte, and every one
  is aligned and inside the reservation.\<close>
theorem arena_slices_disjoint:
  assumes "ensure_init (Some r) (with_size sz) = (True, a, trims)" "0 < r" "r + sz + ARENA_ALIGN \<le> 2 ^ USIZE_BITS"
    and "arena_step\<^sup>*\<^sup>* (world_of a) w"
  shows "cover x (all_slices w) = hit x (frontier (w_arena w))
    \<and> (i < j \<longrightarrow> j < length (w_owned w) \<longrightarrow> w_owned w ! i = (b, p) \<longrightarrow> w_owned w ! j = (c, q) \<longrightarrow>
      b + p * ARENA_ALIGN \<le> c \<or> c + q * ARENA_ALIGN \<le> b)
    \<and> (k < length (w_owned w) \<longrightarrow> w_owned w ! k = (d, n) \<longrightarrow>
      ARENA_ALIGN dvd d \<and> contains (w_arena w) d (n * ARENA_ALIGN))"
  using arena_slices_disjoint_facts [OF assms] by blast

text \<open>A small run for the witnesses: two slices claimed and committed, the first one released again.\<close>

definition demo_arena :: arena where
  "demo_arena = (with_size (16 * ARENA_ALIGN))\<lparr>ar_start := ARENA_ALIGN, ar_end := 17 * ARENA_ALIGN, ar_state := 1\<rparr>"

definition demo_world :: world where
  "demo_world = \<lparr> w_arena = demo_arena\<lparr>ar_bump := 5 * ARENA_ALIGN, ar_commits := 2\<rparr>, w_pending = [],
     w_owned = [(4 * ARENA_ALIGN, 2), (ARENA_ALIGN, 3)], w_growing = [], w_gone = [] \<rparr>"

lemma demo_init:
  "ensure_init (Some 4096) (with_size (16 * ARENA_ALIGN))
     = (True, demo_arena, [(4096, ARENA_ALIGN - 4096), (17 * ARENA_ALIGN, 4096)])"
  by (simp add: ensure_init_def demo_arena_def with_size_def checked_add_def ARENA_ALIGN_def USIZE_BITS_def mask_down_def Let_def)

lemma demo_run: "arena_step\<^sup>*\<^sup>* (world_of demo_arena) demo_world"
proof -
  let ?w0 = "world_of demo_arena"
  define w1 where "w1 = ?w0\<lparr>w_arena := demo_arena\<lparr>ar_bump := 3 * ARENA_ALIGN\<rparr>, w_pending := [(ARENA_ALIGN, 3)]\<rparr>"
  define w2 where "w2 = w1\<lparr>w_arena := demo_arena\<lparr>ar_bump := 3 * ARENA_ALIGN, ar_commits := 1\<rparr>, w_pending := [],
    w_owned := [(ARENA_ALIGN, 3)]\<rparr>"
  define w3 where "w3 = w2\<lparr>w_arena := demo_arena\<lparr>ar_bump := 5 * ARENA_ALIGN, ar_commits := 1\<rparr>,
    w_pending := [(4 * ARENA_ALIGN, 2)]\<rparr>"
  note defs = world_of_def demo_arena_def with_size_def claim_bump_def checked_add_def ARENA_ALIGN_def USIZE_BITS_def
  have "arena_step ?w0 w1"
    using arena_step.claim [of 3 ?w0 ARENA_ALIGN "demo_arena\<lparr>ar_bump := 3 * ARENA_ALIGN\<rparr>"]
    by (simp add: defs w1_def)
  moreover have "arena_step w1 w2"
    using arena_step.commit_ok [of w1 "[]" "(ARENA_ALIGN, 3)" "[]" 0 1] by (simp add: defs w1_def w2_def)
  moreover have "arena_step w2 w3"
    using arena_step.claim [of 2 w2 "4 * ARENA_ALIGN" "demo_arena\<lparr>ar_bump := 5 * ARENA_ALIGN, ar_commits := 1\<rparr>"]
    by (simp add: defs w2_def w1_def w3_def)
  moreover have "arena_step w3 demo_world"
    using arena_step.commit_ok [of w3 "[]" "(4 * ARENA_ALIGN, 2)" "[]" 0 2]
    by (simp add: defs w2_def w1_def w3_def demo_world_def)
  ultimately show ?thesis by (meson r_into_rtranclp rtranclp_trans)
qed

theorem arena_slices_disjoint_witness:
  "cover 70000 (all_slices demo_world) = hit 70000 (frontier (w_arena demo_world))
   \<and> (4 * ARENA_ALIGN + 2 * ARENA_ALIGN \<le> ARENA_ALIGN \<or> ARENA_ALIGN + 3 * ARENA_ALIGN \<le> 4 * ARENA_ALIGN)
   \<and> contains (w_arena demo_world) ARENA_ALIGN (3 * ARENA_ALIGN)"
proof -
  have bound: "(4096::nat) + 16 * ARENA_ALIGN + ARENA_ALIGN \<le> 2 ^ USIZE_BITS" by (simp add: ARENA_ALIGN_def USIZE_BITS_def)
  note t = arena_slices_disjoint [OF demo_init _ bound demo_run]
  show ?thesis
    using t [of 70000 0 1 "4 * ARENA_ALIGN" 2 ARENA_ALIGN 3 1 ARENA_ALIGN 3]
    by (simp add: demo_world_def)
qed

text \<open>\<open>holes_take\<close> returns null only when no parked hole is large enough; otherwise it takes a
  smallest sufficient hole (the exact-size cache never changes that choice), hands out its front and parks
  the rest again.\<close>
theorem holes_take_best_fit:
  assumes "arena_ok a" "0 < pages" "holes_take a pages = (b, a')"
  shows "if b = null then (\<forall>s \<in> set (holes_of (ar_holes a)). snd s < pages) \<and> holes_of (ar_holes a') = holes_of (ar_holes a)
    else \<exists>off p. (off, p) \<in> set (holes_of (ar_holes a)) \<and> b = ar_start a + off \<and> pages \<le> p
      \<and> (\<forall>s \<in> set (holes_of (ar_holes a)). snd s < pages \<or> p \<le> snd s)
      \<and> mset (holes_of (ar_holes a')) + {#(off, p)#} = mset (holes_of (ar_holes a))
          + (if pages < p then {#(off + pages * ARENA_ALIGN, p - pages)#} else {#})"
proof (cases "b = null")
  case True
  then show ?thesis using holes_take_cases [OF assms] by (simp add: missed_hole_def)
next
  case False
  let ?hs = "holes_of (ar_holes a)"
  obtain i where t: "took_hole a pages b a' i" using holes_take_cases [OF assms] False by auto
  obtain off p where e: "?hs ! i = (off, p)" by (cases "?hs ! i") auto
  have i: "i < length ?hs" "b = ar_start a + off" "pages \<le> p" "\<forall>s \<in> set ?hs. pages \<le> snd s \<longrightarrow> p \<le> snd s"
    and h': "holes_of (ar_holes a') = holes_without ?hs i pages"
    using t e by (auto simp: took_hole_def)
  have m: "mset (holes_without ?hs i pages) + {#(off, p)#} = mset ?hs
      + (if pages < p then {#(off + pages * ARENA_ALIGN, p - pages)#} else {#})"
    using i(1) e mset_swap_remove_Cons [OF i(1)] by (auto simp: holes_without_def mset_update) 
  have "(off, p) \<in> set ?hs" using i(1) e nth_mem by fastforce
  then show ?thesis using False i m unfolding h' by (auto simp: not_less [symmetric])
qed

definition demo_holes :: arena where
  "demo_holes = holes_give (holes_give (demo_arena\<lparr>ar_bump := 5 * ARENA_ALIGN\<rparr>) ARENA_ALIGN 3) (4 * ARENA_ALIGN) 2"

lemma demo_holes_ok: "arena_ok demo_holes"
  and demo_holes_of: "holes_of (ar_holes demo_holes) = [(0, 3), (3 * ARENA_ALIGN, 2)]"
proof -
  let ?a = "demo_arena\<lparr>ar_bump := 5 * ARENA_ALIGN\<rparr>"
  have a: "arena_ok ?a"
    using hole_ok_new by (simp add: arena_ok_def demo_arena_def with_size_def hole_store_new_def ARENA_ALIGN_def USIZE_BITS_def)
  have h0: "holes_of (ar_holes ?a) = []" "hs_len (ar_holes ?a) = 0" "hs_bytes (ar_holes ?a) = 0"
    by (simp_all add: demo_arena_def with_size_def hole_store_new_def holes_of_def)
  have r0: "hole_room ?a 3" using h0 by (simp add: hole_room_def const_simps)
  have s0: "slice_in ?a (ARENA_ALIGN, 3)" "slice_in ?a (4 * ARENA_ALIGN, 2)" "ar_start ?a = ARENA_ALIGN"
    by (simp_all add: slice_in_def demo_arena_def)
  note g1 = holes_give_cases [OF a s0(1) refl]
  let ?b = "holes_give ?a ARENA_ALIGN 3"
  have b: "arena_ok ?b" "slice_in ?b (4 * ARENA_ALIGN, 2)" "ar_start ?b = ARENA_ALIGN"
    using g1 s0 slice_in_mono [of ?a ?b "(4 * ARENA_ALIGN, 2)"] by (auto simp: same_bounds_def)
  have h1: "holes_of (ar_holes ?b) = [(0, 3)]" using g1 h0 r0 s0(3) by simp
  have "hs_len (ar_holes ?b) = 1" "hs_bytes (ar_holes ?b) = 3 * ARENA_ALIGN"
    using h0 r0 by (simp_all add: holes_give_def Let_def)
  then have "hole_room ?b 2" by (simp add: hole_room_def const_simps)
  then show "arena_ok demo_holes" "holes_of (ar_holes demo_holes) = [(0, 3), (3 * ARENA_ALIGN, 2)]"
    using holes_give_cases [OF b(1,2) refl] h1 b(3) by (simp_all add: demo_holes_def)
qed

theorem holes_take_best_fit_witness: "fst (holes_take demo_holes 1) = 4 * ARENA_ALIGN"
proof -
  obtain b a' where h: "holes_take demo_holes 1 = (b, a')" by (cases "holes_take demo_holes 1") auto
  have s: "ar_start demo_holes = ARENA_ALIGN"
    by (simp add: demo_holes_def holes_give_def Let_def demo_arena_def)
  have "b = 4 * ARENA_ALIGN"
    using holes_take_best_fit [OF demo_holes_ok _ h] by (auto simp: demo_holes_of s split: if_splits)
  then show ?thesis unfolding h by simp
qed

text \<open>The run of \<open>commit\<close> as steps.\<close>

lemma commit_ready:
  assumes "ar_state a = 1" "0 < pages"
  shows "commit ok raw a pages =
    (if pages * ARENA_ALIGN < 2 ^ USIZE_BITS then
       let (reuse, a2) = holes_take a pages in
       if reuse \<noteq> null then
         if ok reuse (pages * ARENA_ALIGN) then ((reuse, False), a2\<lparr>ar_reuses := ar_reuses a2 + 1, ar_commits := ar_commits a2 + 1\<rparr>)
         else ((null, False), holes_give a2 reuse pages)
       else
         (case claim_bump a2 (pages * ARENA_ALIGN) of
            None \<Rightarrow> ((null, False), a2)
          | Some (base, a3) \<Rightarrow>
              if ok base (pages * ARENA_ALIGN) then ((base, True), a3\<lparr>ar_commits := ar_commits a3 + 1\<rparr>)
              else ((null, False), holes_give a3 base pages))
     else ((null, False), a))"
  using assms ARENA_ALIGN_pos by (simp add: commit_def checked_mul_def ensure_init_def del: ARENA_ALIGN_pos)

lemma commit_steps:
  assumes "world_ok w" "0 < pages" "commit ok raw (w_arena w) pages = ((b, fresh), a')"
  shows "\<exists>w'. arena_step\<^sup>*\<^sup>* w w' \<and> w_arena w' = a' \<and> w_pending w' = w_pending w \<and> w_growing w' = w_growing w
      \<and> w_owned w' = (if b = null then w_owned w else (b, pages) # w_owned w)"
proof -
  let ?len = "pages * ARENA_ALIGN"
  have st: "ar_state (w_arena w) = 1" using assms(1) by (simp add: world_ok_def arena_ok_def)
  note c = assms(3) [unfolded commit_ready [OF st assms(2)]]
  obtain h a2 where h: "holes_take (w_arena w) pages = (h, a2)" by (cases "holes_take (w_arena w) pages") auto
  let ?pend = "\<lambda>a s. w\<lparr>w_arena := a, w_pending := s # w_pending w\<rparr>"
  have decided: "\<exists>w'. arena_step\<^sup>*\<^sup>* w w' \<and> w_arena w' = a' \<and> w_pending w' = w_pending w \<and> w_growing w' = w_growing w
      \<and> w_owned w' = (if b = null then w_owned w else (b, pages) # w_owned w)"
    if r: "arena_step\<^sup>*\<^sup>* w (?pend a (s, pages))" "s \<noteq> null"
      and o: "b = s \<and> a' = a\<lparr>ar_commits := ar_commits a', ar_reuses := ar_reuses a'\<rparr> \<or> b = null \<and> a' = holes_give a s pages" for a s
    using o
  proof (elim disjE conjE)
    assume d: "b = s" "a' = a\<lparr>ar_commits := ar_commits a', ar_reuses := ar_reuses a'\<rparr>"
    show ?thesis
      using rtranclp.rtrancl_into_rtrancl [OF r(1) arena_step.commit_ok [of _ "[]" "(s, pages)" "w_pending w"
          "ar_reuses a'" "ar_commits a'"]] d(1) r(2)
      by (intro exI conjI) (assumption | simp add: d(2) [symmetric])+
  next
    assume d: "b = null" "a' = holes_give a s pages"
    show ?thesis
      using rtranclp.rtrancl_into_rtrancl [OF r(1) arena_step.commit_failed [of _ "[]" "(s, pages)" "w_pending w"]] d
      by (intro exI conjI) (assumption | simp)+
  qed
  show ?thesis
  proof (cases "?len < 2 ^ USIZE_BITS \<and> h \<noteq> null")
    case True
    then show ?thesis
      using decided [where a = a2 and s = h] r_into_rtranclp [of arena_step, OF arena_step.take_hit [OF assms(2) h]] c
      by (auto simp: h split: if_splits)
  next
    case no_hit: False
    show ?thesis
    proof (cases "?len < 2 ^ USIZE_BITS")
      case False
      then show ?thesis using c by auto
    next
      case True
      then have "h = null" using no_hit by simp
      then have m: "arena_step\<^sup>*\<^sup>* w (w\<lparr>w_arena := a2\<rparr>)" using arena_step.take_miss [OF assms(2)] h by blast
      have "arena_ok a2" "ar_start a2 = ar_start (w_arena w)"
        using holes_take_cases [OF _ assms(2) h] assms(1) by (auto simp: world_ok_def same_bounds_def)
      then have nn: "s \<noteq> null" if "claim_bump a2 ?len = Some (s, a3)" for s a3
        using claim_slices(5) [OF _ assms(2) that] claim_slices(2) [OF _ assms(2) that]
        by (auto simp: slice_in_def same_bounds_def arena_ok_def)
      have cl: "arena_step\<^sup>*\<^sup>* w (?pend a3 (s, pages))" if "claim_bump a2 ?len = Some (s, a3)" for s a3
        using rtranclp.rtrancl_into_rtrancl [OF m arena_step.claim [OF assms(2)]] that by fastforce
      show ?thesis
        using c True \<open>h = null\<close> m decided [OF cl nn]
        by (auto simp: h split: option.splits if_splits)
    qed
  qed
qed

lemma commit_outcome:
  assumes "world_ok w" "0 < pages" "commit ok raw (w_arena w) pages = ((b, fresh), a')" "b \<noteq> null"
  shows "ok b (pages * ARENA_ALIGN)"
    and "fresh = (ar_start (w_arena w) + ar_bump (w_arena w) \<le> b)"
    and "ar_bump a' = ar_bump (w_arena w) + (if fresh then pages * ARENA_ALIGN else 0)"
proof -
  let ?len = "pages * ARENA_ALIGN" and ?a = "w_arena w"
  have a: "arena_ok ?a" and sl: "\<forall>s \<in> set (hole_slices ?a). slice_in ?a s"
    using assms(1) by (auto simp: world_ok_def all_slices_def)
  then have st: "ar_state ?a = 1" by (simp add: arena_ok_def)
  note c = assms(3) [unfolded commit_ready [OF st assms(2)]]
  obtain h a2 where h: "holes_take ?a pages = (h, a2)" by (cases "holes_take ?a pages") auto
  note k = holes_take_cases [OF a assms(2) h]
  have "ok b ?len \<and> fresh = (ar_start ?a + ar_bump ?a \<le> b) \<and> ar_bump a' = ar_bump ?a + (if fresh then ?len else 0)"
  proof (cases "h = null")
    case True
    then obtain a3 where t: "claim_bump a2 ?len = Some (b, a3)" "ok b ?len" "fresh" "a' = a3\<lparr>ar_commits := ar_commits a3 + 1\<rparr>"
      using c assms(4) by (auto simp: h split: if_splits option.splits)
    then show ?thesis using k
      by (auto simp: claim_bump_def Let_def same_bounds_def split: option.splits if_splits)
  next
    case False
    then obtain i where i: "took_hole ?a pages h a2 i" and a2: "same_bounds ?a a2" "ar_bump a2 = ar_bump ?a" using k by auto
    have "slice_in a2 (h, pages)" by (rule took_hole_slices(2) [OF i a2(1) sl assms(2) a2(2)])
    then have "h + ?len \<le> ar_start ?a + ar_bump ?a" "0 < ?len" using a2 assms(2) by (auto simp: slice_in_def same_bounds_def)
    then have "h < ar_start ?a + ar_bump ?a" "h + ?len \<le> ar_start ?a + ar_bump ?a" by linarith+
    then show ?thesis using c assms(4) False a2(2) by (auto simp: h split: if_splits)
  qed
  then show "ok b ?len" "fresh = (ar_start ?a + ar_bump ?a \<le> b)" "ar_bump a' = ar_bump ?a + (if fresh then ?len else 0)"
    by auto
qed

lemma commit_refines_steps_facts:
  assumes "world_ok w" "0 < pages" "commit ok raw (w_arena w) pages = ((b, fresh), a')"
  shows "\<exists>w'. arena_step\<^sup>*\<^sup>* w w' \<and> w_arena w' = a' \<and> w_pending w' = w_pending w \<and> w_growing w' = w_growing w
      \<and> w_owned w' = (if b = null then w_owned w else (b, pages) # w_owned w)"
    and "b \<noteq> null \<Longrightarrow> ok b (pages * ARENA_ALIGN) \<and> fresh = (ar_start (w_arena w) + ar_bump (w_arena w) \<le> b)
      \<and> ar_bump a' = ar_bump (w_arena w) + (if fresh then pages * ARENA_ALIGN else 0)"
  using commit_steps [OF assms] commit_outcome [OF assms] by auto

text \<open>C28 (refinement).  On a reserved arena, \<open>commit\<close> run to its end is a sequence of the steps above that leaves
  the other holders' slices alone: on success its caller owns the slice returned, which the kernel has
  mapped, and \<open>fresh\<close> reports exactly that the frontier moved past it (so the caller counts new address
  space); on failure nobody holds anything new.\<close>
theorem commit_refines_steps:
  assumes "world_ok w" "0 < pages" "commit ok raw (w_arena w) pages = ((b, fresh), a')"
  shows "(\<exists>w'. arena_step\<^sup>*\<^sup>* w w' \<and> w_arena w' = a' \<and> w_pending w' = w_pending w \<and> w_growing w' = w_growing w
      \<and> w_owned w' = (if b = null then w_owned w else (b, pages) # w_owned w))
    \<and> (b \<noteq> null \<longrightarrow> ok b (pages * ARENA_ALIGN) \<and> fresh = (ar_start (w_arena w) + ar_bump (w_arena w) \<le> b)
      \<and> ar_bump a' = ar_bump (w_arena w) + (if fresh then pages * ARENA_ALIGN else 0))"
  using commit_refines_steps_facts [OF assms] by blast

lemma demo_world_ok: "world_ok demo_world"
proof (rule world_ok_steps [OF demo_run])
  show "world_ok (world_of demo_arena)"
    by (rule initial_world_ok [OF demo_init]) (simp_all add: ARENA_ALIGN_def USIZE_BITS_def)
qed

theorem commit_refines_steps_witness:
  "fst (commit (\<lambda>_ _. True) None (w_arena demo_world) 2) = (6 * ARENA_ALIGN, True)
   \<and> (ar_start (w_arena demo_world) + ar_bump (w_arena demo_world) \<le> 6 * ARENA_ALIGN)"
proof -
  have st: "ar_state (w_arena demo_world) = 1" by (simp add: demo_world_def demo_arena_def)
  have "holes_take (w_arena demo_world) 2 = (null, w_arena demo_world)"
    by (simp add: holes_take_def demo_world_def demo_arena_def with_size_def)
  moreover have "claim_bump (w_arena demo_world) (2 * ARENA_ALIGN)
      = Some (6 * ARENA_ALIGN, (w_arena demo_world)\<lparr>ar_bump := 7 * ARENA_ALIGN\<rparr>)"
    by (simp add: claim_bump_def demo_world_def demo_arena_def with_size_def checked_add_def const_simps USIZE_BITS_def)
  ultimately obtain a' where c: "commit (\<lambda>_ _. True) None (w_arena demo_world) 2 = ((6 * ARENA_ALIGN, True), a')"
    unfolding commit_ready [OF st zero_less_numeral] by (simp add: const_simps USIZE_BITS_def)
  show ?thesis
    using commit_refines_steps [OF demo_world_ok _ c] by (simp add: c)
qed

lemma ensure_init_correct_facts:
  assumes "ar_state a = 0" "0 < r" "r + ar_size a + ARENA_ALIGN \<le> 2 ^ USIZE_BITS" "ensure_init (Some r) a = (ready, a', trims)"
  shows "ready \<and> ARENA_ALIGN dvd ar_start a' \<and> ar_end a' = ar_start a' + ar_size a \<and> ar_bump a' = 0"
    and "(if r \<le> x \<and> x < r + (ar_size a + ARENA_ALIGN) then 1 else 0)
       = (if ar_start a' \<le> x \<and> x < ar_end a' then 1 else 0)
         + (\<Sum>(b, n)\<leftarrow>trims. if b \<le> x \<and> x < b + n then 1 else (0::nat))"
    and "ensure_init raw a' = (True, a', [])"
    and "ensure_init None a = (False, a\<lparr>ar_state := 2\<rparr>, []) \<and> ensure_init raw (a\<lparr>ar_state := 2\<rparr>) = (False, a\<lparr>ar_state := 2\<rparr>, [])"
proof -
  have t: "ar_size a + ARENA_ALIGN < 2 ^ USIZE_BITS" using assms(2,3) by simp
  have ready: "ready" using assms(1,4) t by (auto simp: ensure_init_def checked_add_def Let_def)
  then have e: "ensure_init (Some r) a = (True, a', trims)" using assms(4) by simp
  note k = ensure_init_ready [OF e assms(1-3)]
  have b: "ar_bump a' = 0" and s: "ar_state a' = 1" by (subst k(5), simp)+
  show "ready \<and> ARENA_ALIGN dvd ar_start a' \<and> ar_end a' = ar_start a' + ar_size a \<and> ar_bump a' = 0"
    using ready k b by simp
  show "(if r \<le> x \<and> x < r + (ar_size a + ARENA_ALIGN) then 1 else 0)
       = (if ar_start a' \<le> x \<and> x < ar_end a' then 1 else 0)
         + (\<Sum>(b, n)\<leftarrow>trims. if b \<le> x \<and> x < b + n then 1 else (0::nat))"
    unfolding k(6) using k(1,2,4) by auto
  show "ensure_init raw a' = (True, a', [])" using s by (simp add: ensure_init_def)
  show "ensure_init None a = (False, a\<lparr>ar_state := 2\<rparr>, []) \<and> ensure_init raw (a\<lparr>ar_state := 2\<rparr>) = (False, a\<lparr>ar_state := 2\<rparr>, [])"
    using assms(1) t by (simp add: ensure_init_def checked_add_def)
qed

text \<open>The one-time reservation: whatever address the kernel returns, the arena starts
  aligned, the two trims and the arena tile the mapping exactly, and later calls find it ready and change
  nothing; a failed reservation is remembered for good.\<close>
theorem ensure_init_correct:
  assumes "ar_state a = 0" "0 < r" "r + ar_size a + ARENA_ALIGN \<le> 2 ^ USIZE_BITS" "ensure_init (Some r) a = (ready, a', trims)"
  shows "ready \<and> ARENA_ALIGN dvd ar_start a' \<and> ar_end a' = ar_start a' + ar_size a \<and> ar_bump a' = 0
    \<and> (if r \<le> x \<and> x < r + (ar_size a + ARENA_ALIGN) then 1 else 0)
       = (if ar_start a' \<le> x \<and> x < ar_end a' then 1 else 0)
         + (\<Sum>(b, n)\<leftarrow>trims. if b \<le> x \<and> x < b + n then 1 else (0::nat))
    \<and> ensure_init raw a' = (True, a', [])
    \<and> ensure_init None a = (False, a\<lparr>ar_state := 2\<rparr>, [])
    \<and> ensure_init raw (a\<lparr>ar_state := 2\<rparr>) = (False, a\<lparr>ar_state := 2\<rparr>, [])"
  using ensure_init_correct_facts [OF assms] by blast

theorem ensure_init_correct_witness:
  "ARENA_ALIGN dvd ar_start demo_arena \<and> ensure_init None demo_arena = (True, demo_arena, [])
   \<and> fst (ensure_init None (with_size (16 * ARENA_ALIGN))) = False"
  using ensure_init_correct [OF _ _ _ demo_init]
  by (simp add: with_size_def ARENA_ALIGN_def USIZE_BITS_def)

lemma grow_steps:
  assumes "world_ok w" "w_owned w = ps @ (b, p) # qs" "grow_frontier ok (w_arena w) b p q = (grew, a')"
  shows "\<exists>w'. arena_step\<^sup>*\<^sup>* w w' \<and> world_ok w' \<and> w_arena w' = a' \<and> w_pending w' = w_pending w \<and> w_growing w' = w_growing w
      \<and> mset (w_owned w') = mset (ps @ qs) + {#(b, if grew then q else p)#}"
proof (cases "claim_frontier (w_arena w) b p q")
  case None
  then show ?thesis using assms by (intro exI [of _ w]) (auto simp: grow_frontier_def)
next
  case (Some a1)
  let ?w1 = "w\<lparr>w_arena := a1, w_owned := ps @ qs, w_growing := (b, p, q) # w_growing w\<rparr>"
  have s1: "arena_step w ?w1" by (rule arena_step.grow_claim [OF assms(2) Some])
  have "\<exists>w'. arena_step ?w1 w' \<and> w_arena w' = a' \<and> w_pending w' = w_pending w \<and> w_growing w' = w_growing w
      \<and> mset (w_owned w') = mset (ps @ qs) + {#(b, if grew then q else p)#}"
  proof (cases grew)
    case True
    have "arena_step ?w1 (?w1\<lparr>w_arena := a1\<lparr>ar_commits := ar_commits a1 + 1\<rparr>, w_growing := w_growing w,
        w_owned := (b, q) # ps @ qs\<rparr>)"
      using arena_step.grow_ok [of ?w1 "[]" b p q "w_growing w" "ar_commits a1 + 1"] by simp
    moreover have "a' = a1\<lparr>ar_commits := ar_commits a1 + 1\<rparr>"
      using assms(3) Some True by (auto simp: grow_frontier_def Let_def split: if_splits)
    ultimately show ?thesis using True by (intro exI conjI) (assumption | simp)+
  next
    case False
    have "arena_step ?w1 (?w1\<lparr>w_arena := holes_give a1 (b + p * ARENA_ALIGN) (q - p), w_growing := w_growing w,
        w_owned := (b, p) # ps @ qs, w_gone := lost a1 (b + p * ARENA_ALIGN, q - p) @ w_gone w\<rparr>)"
      using arena_step.grow_failed [of ?w1 "[]" b p q "w_growing w"] by simp
    moreover have "a' = holes_give a1 (b + p * ARENA_ALIGN) (q - p)"
      using assms(3) Some False by (auto simp: grow_frontier_def Let_def split: if_splits)
    ultimately show ?thesis using False by (intro exI conjI) (assumption | simp)+
  qed
  then obtain w' where w': "arena_step ?w1 w'" "w_arena w' = a'" "w_pending w' = w_pending w" "w_growing w' = w_growing w"
    "mset (w_owned w') = mset (ps @ qs) + {#(b, if grew then q else p)#}" by blast
  have "arena_step\<^sup>*\<^sup>* w w'" using s1 w'(1) by (blast intro: rtranclp.rtrancl_into_rtrancl)
  then show ?thesis using w' world_ok_steps assms(1) by blast
qed

lemma grow_frontier_correct_facts:
  assumes "world_ok w" "w_owned w = ps @ (b, p) # qs" "grow_frontier ok (w_arena w) b p q = (grew, a')"
  shows "\<exists>w'. arena_step\<^sup>*\<^sup>* w w' \<and> world_ok w' \<and> w_arena w' = a' \<and> w_pending w' = w_pending w \<and> w_growing w' = w_growing w
      \<and> mset (w_owned w') = mset (ps @ qs) + {#(b, if grew then q else p)#}"
    and "grew \<Longrightarrow> p < q \<and> b + p * ARENA_ALIGN = ar_start (w_arena w) + ar_bump (w_arena w)
      \<and> ok (b + p * ARENA_ALIGN) ((q - p) * ARENA_ALIGN) \<and> contains a' b (q * ARENA_ALIGN)"
proof (rule grow_steps [OF assms])
  assume g: grew
  have a: "arena_ok (w_arena w)" "slice_in (w_arena w) (b, p)"
    using assms(1,2) by (auto simp: world_ok_def all_slices_def held_slices_def)
  obtain a1 where c: "claim_frontier (w_arena w) b p q = Some a1" and ok: "ok (b + p * ARENA_ALIGN) ((q - p) * ARENA_ALIGN)"
    and a': "a' = a1\<lparr>ar_commits := ar_commits a1 + 1\<rparr>"
    using assms(3) g by (auto simp: grow_frontier_def Let_def diff_mult_distrib split: option.splits if_splits)
  note k = grow_slices [OF a(1) c]
  have "b + p * ARENA_ALIGN = ar_start (w_arena w) + ar_bump (w_arena w)"
    using c by (auto simp: claim_frontier_def contains_def split: option.splits if_splits)
  then show "p < q \<and> b + p * ARENA_ALIGN = ar_start (w_arena w) + ar_bump (w_arena w)
      \<and> ok (b + p * ARENA_ALIGN) ((q - p) * ARENA_ALIGN) \<and> contains a' b (q * ARENA_ALIGN)"
    using k(1,5) k(8) [OF a(2)] ok by (auto simp: a' contains_def slice_in_def arena_ok_def checked_add_def)
qed

text \<open>\<open>grow_frontier\<close> extends a slice in place only when the slice ends at the frontier: then the
  extension is address space nobody held, committed by the kernel, and the grown slice is still inside the
  reservation; a refusal leaves the frontier where it was, and a failed commit parks or abandons the
  extension, so that no slice is lost or shared either way.\<close>
theorem grow_frontier_correct:
  assumes "world_ok w" "w_owned w = ps @ (b, p) # qs" "grow_frontier ok (w_arena w) b p q = (grew, a')"
  shows "(\<exists>w'. arena_step\<^sup>*\<^sup>* w w' \<and> world_ok w' \<and> w_arena w' = a' \<and> w_pending w' = w_pending w \<and> w_growing w' = w_growing w
      \<and> mset (w_owned w') = mset (ps @ qs) + {#(b, if grew then q else p)#})
    \<and> (grew \<longrightarrow> p < q \<and> b + p * ARENA_ALIGN = ar_start (w_arena w) + ar_bump (w_arena w)
      \<and> ok (b + p * ARENA_ALIGN) ((q - p) * ARENA_ALIGN) \<and> contains a' b (q * ARENA_ALIGN))"
  using grow_frontier_correct_facts [OF assms] by blast

theorem grow_frontier_correct_witness:
  "contains (snd (grow_frontier (\<lambda>_ _. True) (w_arena demo_world) (4 * ARENA_ALIGN) 2 9)) (4 * ARENA_ALIGN) (9 * ARENA_ALIGN)"
proof -
  obtain a' where g: "grow_frontier (\<lambda>_ _. True) (w_arena demo_world) (4 * ARENA_ALIGN) 2 9 = (True, a')"
    by (simp add: grow_frontier_def claim_frontier_def contains_def demo_world_def demo_arena_def with_size_def
        checked_add_def checked_mul_def const_simps USIZE_BITS_def Let_def)
  show ?thesis
    using grow_frontier_correct [OF demo_world_ok _ g, of "[]" "[(ARENA_ALIGN, 3)]"]
    unfolding g by (simp add: demo_world_def)
qed

end
