(* ===== verification/Side_Table.thy ===== *)
theory Side_Table
  imports Arena
begin

text \<open>
  The page-indexed side table of \<open>src/src/arena.rs\<close> (\<open>BIG_MAP\<close>): big spans, medium spans and large
  mappings that live in the arena are found through it, because their blocks cross pages that carry no
  header.  One word per arena page holds the address of the master or header, with a tag in the two low
  bits for medium (2) and large (1) entries.

  The table is a function from slots to 64-bit words; the code indexes it only below \<open>BIG_MAP_SLOTS\<close>,
  which is what \<open>big_page_index\<close> and \<open>big_page_range\<close> check.
\<close>

unbundle bit_operations_syntax

section \<open>Operations\<close>

definition BIG_MAP_SLOTS :: nat where "BIG_MAP_SLOTS = ARENA_SIZE div ARENA_ALIGN"

type_synonym big_map = "nat \<Rightarrow> 64 word"

definition big_map_new :: big_map where "big_map_new = (\<lambda>_. 0)"

definition LARGE_TABLE_TAG :: "64 word" where "LARGE_TABLE_TAG = 1"
definition MEDIUM_TABLE_TAG :: "64 word" where "MEDIUM_TABLE_TAG = 2"

definition big_page_index :: "arena \<Rightarrow> addr \<Rightarrow> nat option" where
  "big_page_index a p =
     (if ar_state a \<noteq> 1 then None
      else if p < ar_start a \<or> ar_end a \<le> p then None
      else
        let idx = (p - ar_start a) div ARENA_ALIGN
        in if BIG_MAP_SLOTS \<le> idx then None else Some idx)"

definition big_page_range :: "arena \<Rightarrow> addr \<Rightarrow> nat \<Rightarrow> nat option" where
  "big_page_range a base pages =
     (if pages = 0 \<or> ar_state a \<noteq> 1 then None
      else if base < ar_start a then None
      else
        let off = base - ar_start a
        in case checked_mul (pages - 1) ARENA_ALIGN of
             None \<Rightarrow> None
           | Some n \<Rightarrow>
               (case checked_add off n of
                  None \<Rightarrow> None
                | Some lst \<Rightarrow>
                    if ar_end a - ar_start a \<le> lst then None
                    else
                      let idx = off div ARENA_ALIGN
                      in if BIG_MAP_SLOTS \<le> idx \<or> BIG_MAP_SLOTS - idx < pages then None else Some idx))"

text \<open>The store loop every setter and clearer runs.\<close>

primrec store_range :: "big_map \<Rightarrow> nat \<Rightarrow> 64 word \<Rightarrow> nat \<Rightarrow> big_map" where
  "store_range m start v 0 = m"
| "store_range m start v (Suc n) = (store_range m start v n)(start + n := v)"

definition big_table_set :: "arena \<Rightarrow> big_map \<Rightarrow> addr \<Rightarrow> nat \<Rightarrow> addr \<Rightarrow> big_map" where
  "big_table_set a m base pages master =
     (case big_page_range a base pages of
        Some start \<Rightarrow> store_range m start (word_of_nat master) pages
      | None \<Rightarrow> m)"

definition large_table_set :: "arena \<Rightarrow> big_map \<Rightarrow> addr \<Rightarrow> nat \<Rightarrow> addr \<Rightarrow> big_map" where
  "large_table_set a m base pages hdr =
     (case big_page_range a base pages of
        Some start \<Rightarrow> store_range m start (word_of_nat hdr OR LARGE_TABLE_TAG) pages
      | None \<Rightarrow> m)"

definition medium_table_set :: "arena \<Rightarrow> big_map \<Rightarrow> addr \<Rightarrow> nat \<Rightarrow> addr \<Rightarrow> big_map" where
  "medium_table_set a m base pages master =
     (case big_page_range a base pages of
        Some start \<Rightarrow> store_range m start (word_of_nat master OR MEDIUM_TABLE_TAG) pages
      | None \<Rightarrow> m)"

definition big_table_clear :: "arena \<Rightarrow> big_map \<Rightarrow> addr \<Rightarrow> nat \<Rightarrow> big_map" where
  "big_table_clear a m base pages =
     (case big_page_range a base pages of Some start \<Rightarrow> store_range m start 0 pages | None \<Rightarrow> m)"

definition large_table_clear :: "arena \<Rightarrow> big_map \<Rightarrow> addr \<Rightarrow> nat \<Rightarrow> big_map" where
  "large_table_clear a m base pages =
     (case big_page_range a base pages of Some start \<Rightarrow> store_range m start 0 pages | None \<Rightarrow> m)"

definition medium_table_clear :: "arena \<Rightarrow> big_map \<Rightarrow> addr \<Rightarrow> nat \<Rightarrow> big_map" where
  "medium_table_clear a m base pages =
     (case big_page_range a base pages of Some start \<Rightarrow> store_range m start 0 pages | None \<Rightarrow> m)"

definition big_table_get :: "arena \<Rightarrow> big_map \<Rightarrow> addr \<Rightarrow> addr" where
  "big_table_get a m p =
     (case big_page_index a p of
        Some idx \<Rightarrow>
          let raw = m idx
          in if raw AND (LARGE_TABLE_TAG OR MEDIUM_TABLE_TAG) \<noteq> 0 then null else unat raw
      | None \<Rightarrow> null)"

definition large_table_get :: "arena \<Rightarrow> big_map \<Rightarrow> addr \<Rightarrow> addr" where
  "large_table_get a m p =
     (case big_page_index a p of
        Some idx \<Rightarrow>
          let raw = m idx
          in if raw AND LARGE_TABLE_TAG = 0 then null else unat (raw AND NOT LARGE_TABLE_TAG)
      | None \<Rightarrow> null)"

definition medium_table_get :: "arena \<Rightarrow> big_map \<Rightarrow> addr \<Rightarrow> addr" where
  "medium_table_get a m p =
     (case big_page_index a p of
        Some idx \<Rightarrow>
          let raw = m idx
          in if raw AND MEDIUM_TABLE_TAG = 0 then null else unat (raw AND NOT MEDIUM_TABLE_TAG)
      | None \<Rightarrow> null)"

section \<open>Ranges and indices\<close>

lemma store_range_apply: "store_range m start v n i = (if start \<le> i \<and> i < start + n then v else m i)"
  by (induction n) auto

lemma arena_slots: "ARENA_ALIGN * BIG_MAP_SLOTS = ARENA_SIZE"
  by (simp add: BIG_MAP_SLOTS_def const_simps)

text \<open>A slice of an arena no larger than the table has its range, and a byte lies in the slice exactly
  when its index lies in the range.\<close>

lemma slice_offset:
  assumes "arena_ok a" "slice_in a (base, pages)"
  obtains k where "base = ar_start a + k * ARENA_ALIGN"
proof -
  have "ARENA_ALIGN dvd base - ar_start a"
    using assms by (auto simp: slice_in_def arena_ok_def intro: dvd_diff_nat)
  then obtain k where "base - ar_start a = ARENA_ALIGN * k" by (rule dvdE)
  then have "base = ar_start a + k * ARENA_ALIGN" using assms(2) by (auto simp: slice_in_def mult.commute)
  then show thesis by (rule that)
qed

lemma big_page_range_slice:
  assumes "arena_ok a" "slice_in a (base, pages)" "ar_size a \<le> ARENA_SIZE"
  shows "big_page_range a base pages = Some ((base - ar_start a) div ARENA_ALIGN)"
proof -
  obtain k where k: "base = ar_start a + k * ARENA_ALIGN" using slice_offset [OF assms(1,2)] .
  have b: "(k + pages) * ARENA_ALIGN \<le> ar_size a" "0 < pages"
    using assms(1,2) k by (auto simp: slice_in_def arena_ok_def algebra_simps)
  then have "(k + pages) * ARENA_ALIGN \<le> BIG_MAP_SLOTS * ARENA_ALIGN"
    using assms(3) arena_slots by (simp add: mult.commute)
  then have s: "k + pages \<le> BIG_MAP_SLOTS" by simp
  have l: "k * ARENA_ALIGN + (pages - 1) * ARENA_ALIGN < ar_size a"
  proof -
    have "(k + pages) * ARENA_ALIGN = k * ARENA_ALIGN + (pages - 1) * ARENA_ALIGN + ARENA_ALIGN"
      using b(2) by (cases pages) (auto simp: algebra_simps)
    then show ?thesis using b(1) ARENA_ALIGN_pos by linarith
  qed
  have c: "(pages - 1) * ARENA_ALIGN < 2 ^ USIZE_BITS" "k * ARENA_ALIGN + (pages - 1) * ARENA_ALIGN < 2 ^ USIZE_BITS"
    using l assms(1) by (auto simp: arena_ok_def)
  show ?thesis
    using assms(1) k b(2) s l c by (simp add: big_page_range_def Let_def checked_mul_def checked_add_def arena_ok_def)
qed

lemma big_page_index_in:
  assumes "arena_ok a" "slice_in a (base, pages)" "ar_size a \<le> ARENA_SIZE"
    "base \<le> p" "p < base + pages * ARENA_ALIGN"
  shows "big_page_index a p = Some ((p - ar_start a) div ARENA_ALIGN)"
proof -
  have b: "ar_start a \<le> p" "p < ar_end a" using assms by (auto simp: slice_in_def arena_ok_def)
  then have "p - ar_start a < ARENA_ALIGN * BIG_MAP_SLOTS"
    using assms(1,3) arena_slots by (auto simp: arena_ok_def)
  then have "(p - ar_start a) div ARENA_ALIGN < BIG_MAP_SLOTS" by (simp add: less_mult_imp_div_less mult.commute)
  then show ?thesis using assms(1) b by (auto simp: big_page_index_def arena_ok_def Let_def)
qed

lemma index_in_range:
  assumes "arena_ok a" "slice_in a (base, pages)" "ar_start a \<le> p"
  shows "(base - ar_start a) div ARENA_ALIGN \<le> (p - ar_start a) div ARENA_ALIGN
      \<and> (p - ar_start a) div ARENA_ALIGN < (base - ar_start a) div ARENA_ALIGN + pages
    \<longleftrightarrow> base \<le> p \<and> p < base + pages * ARENA_ALIGN"
proof -
  obtain k where b: "base = ar_start a + k * ARENA_ALIGN" using slice_offset [OF assms(1,2)] .
  have "k \<le> (p - ar_start a) div ARENA_ALIGN \<longleftrightarrow> k * ARENA_ALIGN \<le> p - ar_start a"
    by (rule less_eq_div_iff_mult_less_eq) simp
  moreover have "(p - ar_start a) div ARENA_ALIGN < k + pages \<longleftrightarrow> p - ar_start a < (k + pages) * ARENA_ALIGN"
    by (rule div_less_iff_less_mult) simp
  ultimately show ?thesis using b assms(3) by (auto simp: add_mult_distrib)
qed

lemma store_slice:
  assumes "arena_ok a" "slice_in a (base, pages)" "ar_size a \<le> ARENA_SIZE" "big_page_index a p = Some i"
  shows "store_range m ((base - ar_start a) div ARENA_ALIGN) v pages i
    = (if base \<le> p \<and> p < base + pages * ARENA_ALIGN then v else m i)"
proof -
  have "i = (p - ar_start a) div ARENA_ALIGN" "ar_start a \<le> p"
    using assms(4) by (auto simp: big_page_index_def Let_def split: if_splits)
  then show ?thesis
    using index_in_range [OF assms(1,2)] by (simp add: store_range_apply)
qed

section \<open>The three kinds of entry share one contract\<close>

text \<open>
  The contract of a kind of entry: its setter and clearer store one word over the slots of a slice, its
  getter reads the slot of an address, and the encoding of an aligned address can be read back.
\<close>

locale page_table =
  fixes enc :: "addr \<Rightarrow> 64 word" and dec :: "64 word \<Rightarrow> addr"
    and tset :: "arena \<Rightarrow> big_map \<Rightarrow> addr \<Rightarrow> nat \<Rightarrow> addr \<Rightarrow> big_map"
    and tclear :: "arena \<Rightarrow> big_map \<Rightarrow> addr \<Rightarrow> nat \<Rightarrow> big_map"
    and tget :: "arena \<Rightarrow> big_map \<Rightarrow> addr \<Rightarrow> addr"
  assumes set_law: "tset a m base pages h =
      (case big_page_range a base pages of Some s \<Rightarrow> store_range m s (enc h) pages | None \<Rightarrow> m)"
    and clear_law: "tclear a m base pages =
      (case big_page_range a base pages of Some s \<Rightarrow> store_range m s 0 pages | None \<Rightarrow> m)"
    and get_law: "tget a m p = (case big_page_index a p of Some i \<Rightarrow> dec (m i) | None \<Rightarrow> null)"
    and dec_enc: "4 dvd h \<Longrightarrow> h < 2 ^ 64 \<Longrightarrow> dec (enc h) = h"
    and dec_zero: "dec 0 = null"
begin

lemma slot_set:
  "arena_ok a \<Longrightarrow> slice_in a (base, pages) \<Longrightarrow> ar_size a \<le> ARENA_SIZE \<Longrightarrow> big_page_index a p = Some i \<Longrightarrow>
    tset a m base pages h i = (if base \<le> p \<and> p < base + pages * ARENA_ALIGN then enc h else m i)"
  by (simp add: set_law big_page_range_slice store_slice)

lemma slot_clear:
  "arena_ok a \<Longrightarrow> slice_in a (base, pages) \<Longrightarrow> ar_size a \<le> ARENA_SIZE \<Longrightarrow> big_page_index a p = Some i \<Longrightarrow>
    tclear a m base pages i = (if base \<le> p \<and> p < base + pages * ARENA_ALIGN then 0 else m i)"
  by (simp add: clear_law big_page_range_slice store_slice)

lemma get_after_set:
  assumes "arena_ok a" "slice_in a (base, pages)" "ar_size a \<le> ARENA_SIZE" "4 dvd h" "h < 2 ^ 64"
  shows "tget a (tset a m base pages h) p
    = (if base \<le> p \<and> p < base + pages * ARENA_ALIGN then h else tget a m p)"
proof (cases "big_page_index a p")
  case None
  then have "\<not> (base \<le> p \<and> p < base + pages * ARENA_ALIGN)" using big_page_index_in [OF assms(1-3)] by auto
  then show ?thesis by (auto simp: get_law None)
next
  case (Some i)
  then show ?thesis using slot_set [OF assms(1-3) Some] by (simp add: get_law dec_enc [OF assms(4,5)])
qed

lemma get_after_clear:
  assumes "arena_ok a" "slice_in a (base, pages)" "ar_size a \<le> ARENA_SIZE"
  shows "tget a (tclear a m base pages) p
    = (if base \<le> p \<and> p < base + pages * ARENA_ALIGN then null else tget a m p)"
proof (cases "big_page_index a p")
  case None
  then show ?thesis by (simp add: get_law)
next
  case (Some i)
  then show ?thesis using slot_clear [OF assms Some] by (simp add: get_law dec_zero)
qed

end

lemma bit0_of_nat:
  assumes "4 dvd h"
  shows "\<not> bit (word_of_nat h :: 64 word) 0 \<and> \<not> bit (word_of_nat h :: 64 word) 1"
proof -
  obtain k where "h = 4 * k" using assms by (rule dvdE)
  then have "(word_of_nat h :: 64 word) = push_bit 2 (word_of_nat k)" by (simp add: push_bit_eq_mult)
  then show ?thesis by (simp add: bit_push_bit_iff)
qed

lemma tag_algebra:
  fixes w t u :: "64 word"
  assumes "\<And>n. bit t n \<longleftrightarrow> n = 0" "\<And>n. bit u n \<longleftrightarrow> n = Suc 0" "\<not> bit w 0" "\<not> bit w (Suc 0)"
  shows "(w OR t) AND t = t" "(w OR u) AND u = u" "(w OR u) AND t = 0" "(w OR t) AND u = 0"
    "w AND t = 0" "w AND u = 0" "w AND (t OR u) = 0" "(w OR t) AND NOT t = w" "(w OR u) AND NOT u = w"
    "(w OR t) AND (t OR u) = t" "(w OR u) AND (t OR u) = u"
proof -
  have w: "0 < n \<and> n \<noteq> Suc 0" if "bit w n" for n using assms(3,4) that by (metis gr0I)
  show "(w OR t) AND t = t" "(w OR u) AND u = u" "(w OR u) AND t = 0" "(w OR t) AND u = 0"
    "w AND t = 0" "w AND u = 0" "w AND (t OR u) = 0" "(w OR t) AND NOT t = w" "(w OR u) AND NOT u = w"
    "(w OR t) AND (t OR u) = t" "(w OR u) AND (t OR u) = u"
    by (rule bit_word_eqI, auto simp: bit_or_iff bit_and_iff bit_not_iff assms(1,2) dest: w)+
qed

lemma table_tags:
  assumes "4 dvd h"
  shows "\<And>n. bit LARGE_TABLE_TAG n \<longleftrightarrow> n = 0" "\<And>n. bit MEDIUM_TABLE_TAG n \<longleftrightarrow> n = Suc 0"
    "\<not> bit (word_of_nat h :: 64 word) 0" "\<not> bit (word_of_nat h :: 64 word) (Suc 0)"
  using bit0_of_nat [OF assms] by (auto simp: LARGE_TABLE_TAG_def MEDIUM_TABLE_TAG_def bit_1_iff bit_2_iff)

lemma tags_nonzero [simp]: "LARGE_TABLE_TAG \<noteq> 0" "MEDIUM_TABLE_TAG \<noteq> 0"
  by (simp_all add: LARGE_TABLE_TAG_def MEDIUM_TABLE_TAG_def)

lemmas tag_words = tag_algebra [OF table_tags]

definition big_dec :: "64 word \<Rightarrow> addr" where
  "big_dec raw = (if raw AND (LARGE_TABLE_TAG OR MEDIUM_TABLE_TAG) \<noteq> 0 then null else unat raw)"

definition large_dec :: "64 word \<Rightarrow> addr" where
  "large_dec raw = (if raw AND LARGE_TABLE_TAG = 0 then null else unat (raw AND NOT LARGE_TABLE_TAG))"

definition medium_dec :: "64 word \<Rightarrow> addr" where
  "medium_dec raw = (if raw AND MEDIUM_TABLE_TAG = 0 then null else unat (raw AND NOT MEDIUM_TABLE_TAG))"

lemmas dec_defs = big_dec_def large_dec_def medium_dec_def

lemma unat_addr: "h < 2 ^ 64 \<Longrightarrow> unat (word_of_nat h :: 64 word) = h"
  by (simp add: unat_of_nat)

interpretation bigt: page_table word_of_nat big_dec big_table_set big_table_clear big_table_get
  by unfold_locales
    (auto simp: big_table_set_def big_table_clear_def big_table_get_def dec_defs Let_def tag_words unat_addr split: option.splits)

interpretation larget: page_table "\<lambda>h. word_of_nat h OR LARGE_TABLE_TAG" large_dec
    large_table_set large_table_clear large_table_get
  by unfold_locales
    (auto simp: large_table_set_def large_table_clear_def large_table_get_def dec_defs Let_def tag_words unat_addr split: option.splits)

interpretation mediumt: page_table "\<lambda>h. word_of_nat h OR MEDIUM_TABLE_TAG" medium_dec
    medium_table_set medium_table_clear medium_table_get
  by unfold_locales
    (auto simp: medium_table_set_def medium_table_clear_def medium_table_get_def dec_defs Let_def tag_words unat_addr split: option.splits)

section \<open>The table beside the arena\<close>

text \<open>
  A registration is a slice with the entry its owner stored for it.  The owner of a slice stores the entry
  after the commit and clears it before the release (\<open>carve\<close> and \<open>unmap\<close> paths of the heaps); meanwhile the
  other owners do the same with theirs, and the arena moves on.
\<close>

datatype table_entry = Big_entry addr | Large_entry addr | Medium_entry addr

fun entry_word :: "table_entry \<Rightarrow> 64 word" where
  "entry_word (Big_entry h) = word_of_nat h"
| "entry_word (Large_entry h) = word_of_nat h OR LARGE_TABLE_TAG"
| "entry_word (Medium_entry h) = word_of_nat h OR MEDIUM_TABLE_TAG"

fun entry_addr :: "table_entry \<Rightarrow> addr" where
  "entry_addr (Big_entry h) = h" | "entry_addr (Large_entry h) = h" | "entry_addr (Medium_entry h) = h"

definition table_register :: "arena \<Rightarrow> big_map \<Rightarrow> slice \<Rightarrow> table_entry \<Rightarrow> big_map" where
  "table_register a m s e =
     (case e of Big_entry h \<Rightarrow> big_table_set a m (fst s) (snd s) h
      | Large_entry h \<Rightarrow> large_table_set a m (fst s) (snd s) h
      | Medium_entry h \<Rightarrow> medium_table_set a m (fst s) (snd s) h)"

definition table_unregister :: "arena \<Rightarrow> big_map \<Rightarrow> slice \<Rightarrow> table_entry \<Rightarrow> big_map" where
  "table_unregister a m s e =
     (case e of Big_entry h \<Rightarrow> big_table_clear a m (fst s) (snd s)
      | Large_entry h \<Rightarrow> large_table_clear a m (fst s) (snd s)
      | Medium_entry h \<Rightarrow> medium_table_clear a m (fst s) (snd s))"

record table_world =
  t_world :: world
  t_map :: big_map
  t_regs :: "(slice \<times> table_entry) list"

inductive table_step :: "table_world \<Rightarrow> table_world \<Rightarrow> bool" where
  arena_moves: "arena_step (t_world t) w' \<Longrightarrow> mset (map fst (t_regs t)) \<subseteq># mset (w_owned w') \<Longrightarrow>
    table_step t (t\<lparr>t_world := w'\<rparr>)"
| register: "mset (map fst ((s, e) # t_regs t)) \<subseteq># mset (w_owned (t_world t)) \<Longrightarrow>
    4 dvd entry_addr e \<Longrightarrow> entry_addr e < 2 ^ 64 \<Longrightarrow>
    table_step t (t\<lparr>t_map := table_register (w_arena (t_world t)) (t_map t) s e, t_regs := (s, e) # t_regs t\<rparr>)"
| unregister: "t_regs t = rs @ (s, e) # ss \<Longrightarrow>
    table_step t (t\<lparr>t_map := table_unregister (w_arena (t_world t)) (t_map t) s e, t_regs := rs @ ss\<rparr>)"

text \<open>What the table has to hold for an address: the word of the registration that covers it, else 0.\<close>

definition reg_word :: "(slice \<times> table_entry) list \<Rightarrow> addr \<Rightarrow> 64 word" where
  "reg_word regs p = (case List.find (\<lambda>(s, e). hit p s = 1) regs of None \<Rightarrow> 0 | Some (s, e) \<Rightarrow> entry_word e)"

definition table_ok :: "table_world \<Rightarrow> bool" where
  "table_ok t \<longleftrightarrow> world_ok (t_world t) \<and> ar_size (w_arena (t_world t)) \<le> ARENA_SIZE
     \<and> mset (map fst (t_regs t)) \<subseteq># mset (w_owned (t_world t))
     \<and> (\<forall>(s, e) \<in> set (t_regs t). 4 dvd entry_addr e \<and> entry_addr e < 2 ^ 64)
     \<and> (\<forall>p i. big_page_index (w_arena (t_world t)) p = Some i \<longrightarrow> t_map t i = reg_word (t_regs t) p)"

lemma world_cover_owned:
  assumes "world_ok w" "mset ss \<subseteq># mset (w_owned w)"
  shows "cover x ss \<le> 1"
proof -
  obtain rest where "mset (w_owned w) = mset ss + rest" using assms(2) by (auto simp: mset_subset_eq_exists_conv)
  then have "sum_mset (image_mset (hit x) (mset (w_owned w)))
      = sum_mset (image_mset (hit x) (mset ss)) + sum_mset (image_mset (hit x) rest)" by simp
  then have "cover x ss \<le> cover x (w_owned w)" unfolding cover_def by (simp flip: sum_mset_sum_list mset_map)
  moreover have "cover x (w_owned w) \<le> 1"
  proof -
    have "cover x (w_owned w) \<le> cover x (all_slices w)" by (simp add: all_slices_def held_slices_def)
    also have "\<dots> = hit x (frontier (w_arena w))" using assms(1) by (simp add: world_ok_def)
    also have "\<dots> \<le> 1" by (simp add: hit_def)
    finally show ?thesis .
  qed
  ultimately show ?thesis by simp
qed

lemma find_hit_Cons:
  "reg_word ((s, e) # regs) p = (if hit p s = 1 then entry_word e else reg_word regs p)"
  by (simp add: reg_word_def)

lemma reg_word_none: "cover p (map fst regs) = 0 \<Longrightarrow> reg_word regs p = 0"
  by (induction regs) (auto simp: reg_word_def)

lemma reg_word_mem:
  "cover p (map fst regs) \<le> 1 \<Longrightarrow> (s, e) \<in> set regs \<Longrightarrow> hit p s = 1 \<Longrightarrow> reg_word regs p = entry_word e"
proof (induction regs)
  case (Cons r regs)
  obtain s' e' where r: "r = (s', e')" by (cases r)
  have "hit p s \<le> cover p (map fst regs)" if "(s, e) \<in> set regs"
    using that cover_nth_le [of _ "map fst regs" p] by (fastforce simp: in_set_conv_nth)
  then show ?case using Cons r by (auto simp: find_hit_Cons)
qed simp

lemma reg_word_remove:
  assumes "cover p (map fst (rs @ (s, e) # ss)) \<le> 1"
  shows "reg_word (rs @ ss) p = (if hit p s = 1 then 0 else reg_word (rs @ (s, e) # ss) p)"
proof (cases "hit p s = 1")
  case True
  then have "cover p (map fst (rs @ ss)) = 0" using assms by simp
  then show ?thesis using True reg_word_none [of p "rs @ ss"] by simp
next
  case False
  then show ?thesis by (induction rs) (auto simp: reg_word_def)
qed

lemma hit_iff: "hit p (b, n) = Suc 0 \<longleftrightarrow> b \<le> p \<and> p < b + n * ARENA_ALIGN"
  by (simp add: hit_def)

lemma register_slot:
  assumes "arena_ok a" "slice_in a s" "ar_size a \<le> ARENA_SIZE" "big_page_index a p = Some i"
  shows "table_register a m s e i = (if hit p s = 1 then entry_word e else m i)"
    "table_unregister a m s e i = (if hit p s = 1 then 0 else m i)"
proof -
  obtain b n where s: "s = (b, n)" by (cases s)
  note sl = assms(1) assms(2) [unfolded s] assms(3,4)
  show "table_register a m s e i = (if hit p s = 1 then entry_word e else m i)"
    using bigt.slot_set [OF sl] larget.slot_set [OF sl] mediumt.slot_set [OF sl]
    by (cases e) (simp_all add: table_register_def s hit_iff)
  show "table_unregister a m s e i = (if hit p s = 1 then 0 else m i)"
    using bigt.slot_clear [OF sl] larget.slot_clear [OF sl] mediumt.slot_clear [OF sl]
    by (cases e) (simp_all add: table_unregister_def s hit_iff)
qed

lemma arena_step_bounds:
  assumes "arena_step w w'" "world_ok w"
  shows "same_bounds (w_arena w) (w_arena w')"
  using assms
proof (induction rule: arena_step.induct)
  case (take_hit pages w b a')
  then show ?case using holes_take_cases [OF _ take_hit(1,2)] by (simp add: world_ok_def)
next
  case (take_miss pages w a')
  then show ?case using holes_take_cases [OF _ take_miss(1,2)] by (simp add: world_ok_def)
next
  case (claim pages w b a')
  then show ?case using claim_slices(2) [OF _ claim(1,2)] by (simp add: world_ok_def)
next
  case (released w ps s qs)
  then show ?case by (simp add: same_bounds_def release_def holes_give_def Let_def split: option.splits)
next
  case (grow_claim w ps b p qs q a')
  then show ?case using grow_slices(2) [OF _ grow_claim(2)] by (simp add: world_ok_def)
qed (simp_all add: same_bounds_def holes_give_def Let_def)

lemma index_bounds: "same_bounds a a' \<Longrightarrow> ar_state a' = ar_state a \<Longrightarrow> big_page_index a' p = big_page_index a p"
  by (simp add: big_page_index_def same_bounds_def)

lemma table_ok_step:
  assumes "table_step t t'" "table_ok t"
  shows "table_ok t'"
  using assms
proof (induction rule: table_step.induct)
  case (arena_moves t w')
  have w: "world_ok (t_world t)" using arena_moves(3) by (simp add: table_ok_def)
  note k = arena_step_bounds [OF arena_moves(1) w] world_ok_step [OF arena_moves(1) w]
  have "ar_state (w_arena w') = ar_state (w_arena (t_world t))"
    using k(2) w by (simp add: world_ok_def arena_ok_def)
  then have "big_page_index (w_arena w') p = big_page_index (w_arena (t_world t)) p" for p
    using index_bounds [OF k(1)] by simp
  then show ?case using arena_moves(2,3) k by (simp add: table_ok_def same_bounds_def)
next
  case (register s e t)
  let ?a = "w_arena (t_world t)"
  have w: "world_ok (t_world t)" "arena_ok ?a" "ar_size ?a \<le> ARENA_SIZE" using register(4) by (auto simp: table_ok_def world_ok_def)
  have "s \<in> set (w_owned (t_world t))" using set_mset_mono [OF register(1)] by simp
  then have sl: "slice_in ?a s" using w(1) by (auto simp: world_ok_def all_slices_def held_slices_def)
  show ?case
    using register register_slot(1) [OF w(2) sl w(3)] w
    by (simp add: table_ok_def find_hit_Cons)
next
  case (unregister t rs s e ss)
  let ?a = "w_arena (t_world t)"
  have w: "world_ok (t_world t)" "arena_ok ?a" "ar_size ?a \<le> ARENA_SIZE"
    and sub: "mset (map fst (t_regs t)) \<subseteq># mset (w_owned (t_world t))"
    and tab: "\<And>p i. big_page_index ?a p = Some i \<Longrightarrow> t_map t i = reg_word (t_regs t) p"
    and al: "\<forall>(s, e) \<in> set (t_regs t). 4 dvd entry_addr e \<and> entry_addr e < 2 ^ 64"
    using unregister(2) by (auto simp: table_ok_def world_ok_def)
  have "s \<in> set (w_owned (t_world t))" using set_mset_mono [OF sub] unregister(1) by auto
  then have sl: "slice_in ?a s" using w(1) by (auto simp: world_ok_def all_slices_def held_slices_def)
  have sub': "mset (map fst (rs @ ss)) \<subseteq># mset (w_owned (t_world t))"
    by (rule subset_mset.order_trans [OF _ sub]) (simp add: unregister(1))
  have cov: "cover p (map fst (rs @ (s, e) # ss)) \<le> 1" for p
    using world_cover_owned [OF w(1) sub] unregister(1) by simp
  have "table_unregister ?a (t_map t) s e i = reg_word (rs @ ss) p" if "big_page_index ?a p = Some i" for p i
    using register_slot(2) [OF w(2) sl w(3) that] tab [OF that] unregister(1)
    by (simp add: reg_word_remove [OF cov])
  then show ?case using w sub' al unregister(1) by (simp add: table_ok_def)
qed

lemma table_ok_steps: "table_step\<^sup>*\<^sup>* t t' \<Longrightarrow> table_ok t \<Longrightarrow> table_ok t'"
  by (induction rule: rtranclp_induct) (auto intro: table_ok_step)

definition table_world_of :: "arena \<Rightarrow> table_world" where
  "table_world_of a = \<lparr> t_world = world_of a, t_map = big_map_new, t_regs = [] \<rparr>"

lemma initial_table_ok:
  assumes "ensure_init (Some r) (with_size sz) = (True, a, trims)" "0 < r" "r + sz + ARENA_ALIGN \<le> 2 ^ USIZE_BITS"
    "sz \<le> ARENA_SIZE"
  shows "table_ok (table_world_of a)"
proof -
  have "ar_size a = sz" using assms(1)
    by (auto simp: ensure_init_def with_size_def Let_def split: option.splits)
  then show ?thesis
    using initial_world_ok [OF assms(1-3)] assms(4)
    by (simp add: table_ok_def table_world_of_def world_of_def big_map_new_def reg_word_def)
qed

text \<open>What the three getters read for an entry word.\<close>

lemma getters_of_word:
  assumes "big_page_index a p = Some i"
  shows "big_table_get a m p = big_dec (m i)" "large_table_get a m p = large_dec (m i)"
    "medium_table_get a m p = medium_dec (m i)"
  using assms by (simp_all add: bigt.get_law larget.get_law mediumt.get_law)

lemma decode_entry:
  assumes "4 dvd entry_addr e" "entry_addr e < 2 ^ 64"
  shows "(big_dec (entry_word e), large_dec (entry_word e), medium_dec (entry_word e))
    = (case e of Big_entry h \<Rightarrow> (h, null, null) | Large_entry h \<Rightarrow> (null, h, null) | Medium_entry h \<Rightarrow> (null, null, h))"
  using assms by (cases e) (simp_all add: dec_defs tag_words unat_addr)

lemma getters_outside: "big_page_index a p = None \<Longrightarrow>
    (big_table_get a m p, large_table_get a m p, medium_table_get a m p) = (null, null, null)"
  by (simp add: bigt.get_law larget.get_law mediumt.get_law)

lemma side_table_tracks_facts:
  assumes "ensure_init (Some r) (with_size sz) = (True, a, trims)" "0 < r" "r + sz + ARENA_ALIGN \<le> 2 ^ USIZE_BITS"
    "sz \<le> ARENA_SIZE" "table_step\<^sup>*\<^sup>* (table_world_of a) t"
  shows "((b, n), e) \<in> set (t_regs t) \<Longrightarrow> b \<le> p \<Longrightarrow> p < b + n * ARENA_ALIGN \<Longrightarrow>
      (big_table_get (w_arena (t_world t)) (t_map t) p, large_table_get (w_arena (t_world t)) (t_map t) p,
       medium_table_get (w_arena (t_world t)) (t_map t) p)
      = (case e of Big_entry h \<Rightarrow> (h, null, null) | Large_entry h \<Rightarrow> (null, h, null) | Medium_entry h \<Rightarrow> (null, null, h))"
    and "cover p (map fst (t_regs t)) = 0 \<Longrightarrow>
      (big_table_get (w_arena (t_world t)) (t_map t) p, large_table_get (w_arena (t_world t)) (t_map t) p,
       medium_table_get (w_arena (t_world t)) (t_map t) p) = (null, null, null)"
proof -
  let ?a = "w_arena (t_world t)"
  have ok: "table_ok t" by (rule table_ok_steps [OF assms(5) initial_table_ok [OF assms(1-4)]])
  then have w: "world_ok (t_world t)" "arena_ok ?a" "ar_size ?a \<le> ARENA_SIZE"
    and sub: "mset (map fst (t_regs t)) \<subseteq># mset (w_owned (t_world t))"
    and tab: "\<And>p i. big_page_index ?a p = Some i \<Longrightarrow> t_map t i = reg_word (t_regs t) p"
    and al: "\<And>s e. (s, e) \<in> set (t_regs t) \<Longrightarrow> 4 dvd entry_addr e \<and> entry_addr e < 2 ^ 64"
    by (auto simp: table_ok_def world_ok_def)
  have cov: "cover p (map fst (t_regs t)) \<le> 1" by (rule world_cover_owned [OF w(1) sub])
  show "(big_table_get ?a (t_map t) p, large_table_get ?a (t_map t) p, medium_table_get ?a (t_map t) p)
      = (case e of Big_entry h \<Rightarrow> (h, null, null) | Large_entry h \<Rightarrow> (null, h, null) | Medium_entry h \<Rightarrow> (null, null, h))"
    if r: "((b, n), e) \<in> set (t_regs t)" "b \<le> p" "p < b + n * ARENA_ALIGN"
  proof -
    have "(b, n) \<in> set (w_owned (t_world t))" using set_mset_mono [OF sub] r(1) by force
    then have "slice_in ?a (b, n)" using w(1) by (auto simp: world_ok_def all_slices_def held_slices_def)
    then obtain i where i: "big_page_index ?a p = Some i" using big_page_index_in [OF w(2) _ w(3) r(2,3)] by blast
    have "t_map t i = entry_word e" using reg_word_mem [OF cov r(1)] r(2,3) tab [OF i] by (simp add: hit_iff)
    then show ?thesis using al [OF r(1)] by (simp add: getters_of_word [OF i] decode_entry)
  qed
  show "(big_table_get ?a (t_map t) p, large_table_get ?a (t_map t) p, medium_table_get ?a (t_map t) p) = (null, null, null)"
    if "cover p (map fst (t_regs t)) = 0"
  proof (cases "big_page_index ?a p")
    case None
    then show ?thesis by (rule getters_outside)
  next
    case (Some i)
    then have "t_map t i = 0" using tab [OF Some] reg_word_none [OF that] by simp
    then show ?thesis by (simp add: getters_of_word [OF Some] dec_defs)
  qed
qed

text \<open>C29 (invariant).  However owners register and clear their slices and whatever the arena does in between:
  an address inside a registered slice resolves to that slice's entry, in its own kind, and to nothing in the
  other two kinds; an address outside every registered slice (other slices, holes, foreign memory) resolves to
  nothing.\<close>
theorem side_table_tracks:
  assumes "ensure_init (Some r) (with_size sz) = (True, a, trims)" "0 < r" "r + sz + ARENA_ALIGN \<le> 2 ^ USIZE_BITS"
    "sz \<le> ARENA_SIZE" "table_step\<^sup>*\<^sup>* (table_world_of a) t"
  shows "(((b, n), e) \<in> set (t_regs t) \<longrightarrow> b \<le> p \<longrightarrow> p < b + n * ARENA_ALIGN \<longrightarrow>
      (big_table_get (w_arena (t_world t)) (t_map t) p, large_table_get (w_arena (t_world t)) (t_map t) p,
       medium_table_get (w_arena (t_world t)) (t_map t) p)
      = (case e of Big_entry h \<Rightarrow> (h, null, null) | Large_entry h \<Rightarrow> (null, h, null) | Medium_entry h \<Rightarrow> (null, null, h)))
    \<and> (cover p (map fst (t_regs t)) = 0 \<longrightarrow>
      (big_table_get (w_arena (t_world t)) (t_map t) p, large_table_get (w_arena (t_world t)) (t_map t) p,
       medium_table_get (w_arena (t_world t)) (t_map t) p) = (null, null, null))"
  using side_table_tracks_facts [OF assms] by blast

text \<open>Setting and reading back one kind: a set slice reads as its entry on every byte, other
  addresses read as before, and a clear undoes it.\<close>
theorem medium_table_roundtrip:
  assumes "arena_ok a" "slice_in a (base, pages)" "ar_size a \<le> ARENA_SIZE" "4 dvd h" "h < 2 ^ 64"
  shows "medium_table_get a (medium_table_set a m base pages h) p
      = (if base \<le> p \<and> p < base + pages * ARENA_ALIGN then h else medium_table_get a m p)
    \<and> medium_table_get a (medium_table_clear a (medium_table_set a m base pages h) base pages) p
      = (if base \<le> p \<and> p < base + pages * ARENA_ALIGN then null else medium_table_get a m p)"
  by (simp add: mediumt.get_after_set [OF assms] mediumt.get_after_clear [OF assms(1-3)])

lemma lift_steps:
  "arena_step\<^sup>*\<^sup>* w w' \<Longrightarrow> table_step\<^sup>*\<^sup>* \<lparr>t_world = w, t_map = m, t_regs = []\<rparr> \<lparr>t_world = w', t_map = m, t_regs = []\<rparr>"
proof (induction rule: rtranclp_induct)
  case (step y z)
  have "table_step \<lparr>t_world = y, t_map = m, t_regs = []\<rparr> \<lparr>t_world = z, t_map = m, t_regs = []\<rparr>"
    using table_step.arena_moves [of "\<lparr>t_world = y, t_map = m, t_regs = []\<rparr>" z] step(2) by simp
  with step(3) show ?case by (rule rtranclp.rtrancl_into_rtrancl)
qed simp

definition demo_table :: table_world where
  "demo_table = \<lparr> t_world = demo_world,
     t_map = medium_table_set (w_arena demo_world) big_map_new ARENA_ALIGN 3 ARENA_ALIGN,
     t_regs = [((ARENA_ALIGN, 3), Medium_entry ARENA_ALIGN)] \<rparr>"

lemma demo_table_run: "table_step\<^sup>*\<^sup>* (table_world_of demo_arena) demo_table"
proof -
  let ?t = "\<lparr>t_world = demo_world, t_map = big_map_new, t_regs = []\<rparr>"
  have "table_step\<^sup>*\<^sup>* (table_world_of demo_arena) ?t"
    unfolding table_world_of_def by (rule lift_steps [OF demo_run])
  moreover have "table_step ?t demo_table"
    using table_step.register [of "(ARENA_ALIGN, 3)" "Medium_entry ARENA_ALIGN" ?t]
    by (simp add: demo_table_def table_register_def demo_world_def subseteq_mset_def ARENA_ALIGN_def)
  ultimately show ?thesis by simp
qed

theorem side_table_tracks_witness:
  "medium_table_get (w_arena demo_world) (t_map demo_table) 70000 = ARENA_ALIGN
   \<and> large_table_get (w_arena demo_world) (t_map demo_table) 300000 = null"
proof -
  have bound: "(0::nat) < 4096" "(4096::nat) + 16 * ARENA_ALIGN + ARENA_ALIGN \<le> 2 ^ USIZE_BITS" "16 * ARENA_ALIGN \<le> ARENA_SIZE"
    by (simp_all add: const_simps USIZE_BITS_def)
  note t = side_table_tracks [OF demo_init bound demo_table_run]
  show ?thesis
    using t [of ARENA_ALIGN 3 "Medium_entry ARENA_ALIGN" 70000] t [of 0 0 "Medium_entry 0" 300000]
    by (simp add: demo_table_def hit_def ARENA_ALIGN_def)
qed

theorem medium_table_roundtrip_witness:
  "medium_table_get (w_arena demo_world) (medium_table_set (w_arena demo_world) big_map_new ARENA_ALIGN 3 4096) 70000 = 4096"
proof -
  have "arena_ok (w_arena demo_world)" using demo_world_ok by (simp add: world_ok_def)
  moreover have "slice_in (w_arena demo_world) (ARENA_ALIGN, 3)" "ar_size (w_arena demo_world) \<le> ARENA_SIZE"
    by (simp_all add: slice_in_def demo_world_def demo_arena_def with_size_def const_simps)
  ultimately show ?thesis
    using medium_table_roundtrip [of "w_arena demo_world" ARENA_ALIGN 3 4096 big_map_new 70000]
    by (simp add: ARENA_ALIGN_def)
qed

end
