(* ===== verification/Slice_Ownership.thy ===== *)
theory Slice_Ownership
  imports Side_Table
begin

text \<open>
  What a client of the arena and the side table holds between two of its own operations: a multiset of
  slices, and a list of registrations of some of them.  \<open>tabled\<close> says that the arena, the table, the slices
  and the registrations agree; the rules below say how commit, release, growth, registration and clearing
  change the two.  Every other owner's slices are part of the multiset, so a client can be verified alone.
\<close>

section \<open>Slices as a multiset\<close>

definition mcover :: "addr \<Rightarrow> slice multiset \<Rightarrow> nat" where
  "mcover x M = (\<Sum>s \<in># M. hit x s)"

lemma mcover_simps [simp]:
  "mcover x {#} = 0" "mcover x (add_mset s M) = hit x s + mcover x M" "mcover x (M + N) = mcover x M + mcover x N"
  by (simp_all add: mcover_def)

lemma mcover_mset: "mcover x (mset ss) = cover x ss"
  by (simp add: mcover_def cover_def sum_mset_sum_list flip: mset_map)

lemma mcover_mem: "s \<in># M \<Longrightarrow> hit x s \<le> mcover x M"
  by (metis insert_DiffM le_add1 mcover_simps(2))

lemma mcover_mono: "M \<subseteq># N \<Longrightarrow> mcover x M \<le> mcover x N"
  by (auto simp: mset_subset_eq_exists_conv)

definition tabled :: "arena \<Rightarrow> big_map \<Rightarrow> slice multiset \<Rightarrow> (slice \<times> table_entry) list \<Rightarrow> bool" where
  "tabled a m M regs \<longleftrightarrow> (\<exists>own gone. mset own = M
     \<and> table_ok \<lparr> t_world = \<lparr> w_arena = a, w_pending = [], w_owned = own, w_growing = [], w_gone = gone \<rparr>,
                  t_map = m, t_regs = regs \<rparr>)"

lemma tabledE:
  assumes "tabled a m M regs"
  obtains own gone where "mset own = M"
    "world_ok \<lparr> w_arena = a, w_pending = [], w_owned = own, w_growing = [], w_gone = gone \<rparr>"
    "ar_size a \<le> ARENA_SIZE" "mset (map fst regs) \<subseteq># M"
    "\<forall>s e. (s, e) \<in> set regs \<longrightarrow> 4 dvd entry_addr e \<and> entry_addr e < 2 ^ 64"
    "\<forall>p i. big_page_index a p = Some i \<longrightarrow> m i = reg_word regs p"
proof -
  obtain own gone where o: "mset own = M"
    "table_ok \<lparr> t_world = \<lparr> w_arena = a, w_pending = [], w_owned = own, w_growing = [], w_gone = gone \<rparr>,
                  t_map = m, t_regs = regs \<rparr>"
    using assms by (auto simp: tabled_def)
  show thesis by (rule that [of own gone]) (use o in \<open>auto simp: table_ok_def\<close>)
qed

lemma tabledI:
  assumes "mset own = M"
    "world_ok \<lparr> w_arena = a, w_pending = [], w_owned = own, w_growing = [], w_gone = gone \<rparr>"
    "ar_size a \<le> ARENA_SIZE" "mset (map fst regs) \<subseteq># M"
    "\<And>s e. (s, e) \<in> set regs \<Longrightarrow> 4 dvd entry_addr e \<and> entry_addr e < 2 ^ 64"
    "\<And>p i. big_page_index a p = Some i \<Longrightarrow> m i = reg_word regs p"
  shows "tabled a m M regs"
  using assms unfolding tabled_def table_ok_def by (intro exI [of _ own] exI [of _ gone]) auto

lemma tabled_arena:
  assumes "tabled a m M regs"
  shows "arena_ok a" "ar_size a \<le> ARENA_SIZE" "mset (map fst regs) \<subseteq># M"
    "s \<in># M \<Longrightarrow> slice_in a s" "mcover x M \<le> 1"
    "x < ar_start a \<or> ar_end a \<le> x \<Longrightarrow> mcover x M = 0"
proof -
  obtain own gone where o: "mset own = M"
    "world_ok \<lparr> w_arena = a, w_pending = [], w_owned = own, w_growing = [], w_gone = gone \<rparr>" (is "world_ok ?w")
    "ar_size a \<le> ARENA_SIZE" "mset (map fst regs) \<subseteq># M"
    using assms by (rule tabledE)
  show "arena_ok a" "ar_size a \<le> ARENA_SIZE" "mset (map fst regs) \<subseteq># M" using o by (auto simp: world_ok_def)
  show "s \<in># M \<Longrightarrow> slice_in a s" using o(1,2) by (auto simp: world_ok_def all_slices_def held_slices_def)
  show "mcover x M \<le> 1" using world_cover_owned [OF o(2), of own x] by (simp add: mcover_mset flip: o(1))
  have "cover x (all_slices ?w) = hit x (frontier a)" "arena_ok a" using o(2) by (auto simp: world_ok_def)
  then show "x < ar_start a \<or> ar_end a \<le> x \<Longrightarrow> mcover x M = 0"
    by (auto simp: all_slices_def held_slices_def mcover_mset hit_def frontier_def arena_ok_def simp flip: o(1) split: if_splits)
qed

lemma tabled_contains:
  assumes "tabled a m M regs" "(b, n) \<in># M" "b \<le> p" "p + len \<le> b + n * ARENA_ALIGN"
  shows "contains a p len"
proof -
  have "slice_in a (b, n)" "arena_ok a" using tabled_arena [OF assms(1)] assms(2) by auto
  then show ?thesis using assms(3,4) by (auto simp: contains_def slice_in_def arena_ok_def checked_add_def USIZE_BITS_def)
qed

section \<open>The arena moves\<close>

lemma arena_steps_bounds: "arena_step\<^sup>*\<^sup>* w w' \<Longrightarrow> world_ok w \<Longrightarrow> same_bounds (w_arena w) (w_arena w')"
proof (induction rule: rtranclp_induct)
  case (step y z)
  then show ?case using arena_step_bounds [OF step(2) world_ok_steps [OF step(1,4)]] by (simp add: same_bounds_def)
qed (simp add: same_bounds_def)

lemma same_index:
  assumes "same_bounds a a'" "arena_ok a" "arena_ok a'"
  shows "big_page_index a' p = big_page_index a p"
  using index_bounds [OF assms(1)] assms(2,3) by (simp add: arena_ok_def)

text \<open>A run of steps that ends with nothing in flight and owns \<open>M'\<close>, which still holds the registrations.\<close>

lemma tabled_moves:
  assumes "tabled a m M regs"
    and "\<And>own gone. mset own = M \<Longrightarrow> world_ok \<lparr> w_arena = a, w_pending = [], w_owned = own, w_growing = [], w_gone = gone \<rparr> \<Longrightarrow>
      \<exists>w'. arena_step\<^sup>*\<^sup>* \<lparr> w_arena = a, w_pending = [], w_owned = own, w_growing = [], w_gone = gone \<rparr> w'
        \<and> w_arena w' = a' \<and> w_pending w' = [] \<and> w_growing w' = [] \<and> mset (w_owned w') = M'"
    and "mset (map fst regs) \<subseteq># M'"
  shows "tabled a' m M' regs" "same_bounds a a'"
proof -
  obtain own gone where o: "mset own = M"
    "world_ok \<lparr> w_arena = a, w_pending = [], w_owned = own, w_growing = [], w_gone = gone \<rparr>" (is "world_ok ?w")
    "ar_size a \<le> ARENA_SIZE" "mset (map fst regs) \<subseteq># M"
    "\<forall>s e. (s, e) \<in> set regs \<longrightarrow> 4 dvd entry_addr e \<and> entry_addr e < 2 ^ 64"
    "\<forall>p i. big_page_index a p = Some i \<longrightarrow> m i = reg_word regs p"
    using assms(1) by (rule tabledE)
  obtain w' where w': "arena_step\<^sup>*\<^sup>* ?w w'" "w_arena w' = a'" "w_pending w' = []" "w_growing w' = []" "mset (w_owned w') = M'"
    using assms(2) [OF o(1,2)] by blast
  have sb: "same_bounds a a'" using arena_steps_bounds [OF w'(1) o(2)] w'(2) by simp
  have ok: "world_ok w'" by (rule world_ok_steps [OF w'(1) o(2)])
  have e: "w' = \<lparr> w_arena = a', w_pending = [], w_owned = w_owned w', w_growing = [], w_gone = w_gone w' \<rparr>"
    using w'(2-4) by simp
  have "big_page_index a' p = big_page_index a p" for p
    by (rule same_index [OF sb]) (use o(2) ok w'(2) in \<open>auto simp: world_ok_def\<close>)
  then have words: "big_page_index a' p = Some i \<Longrightarrow> m i = reg_word regs p" for p i using o(6) by simp
  have "ar_size a' \<le> ARENA_SIZE" using o(3) sb by (simp add: same_bounds_def)
  then show "tabled a' m M' regs"
    by (rule tabledI [OF w'(5) subst [where P = world_ok, OF e ok] _ assms(3)]) (use o(5) words in blast)+
  show "same_bounds a a'" by (rule sb)
qed

lemma tabled_commit:
  assumes "tabled a m M regs" "0 < pages" "commit ok raw a pages = ((b, fresh), a')"
  shows "tabled a' m (if b = null then M else add_mset (b, pages) M) regs" "same_bounds a a'"
proof -
  have moves: "\<exists>w'. arena_step\<^sup>*\<^sup>* \<lparr> w_arena = a, w_pending = [], w_owned = own, w_growing = [], w_gone = gone \<rparr> w'
        \<and> w_arena w' = a' \<and> w_pending w' = [] \<and> w_growing w' = [] \<and> mset (w_owned w') = (if b = null then M else add_mset (b, pages) M)"
    if "mset own = M" "world_ok \<lparr> w_arena = a, w_pending = [], w_owned = own, w_growing = [], w_gone = gone \<rparr>" for own gone
    using commit_steps [OF that(2) assms(2), of ok raw b fresh a'] assms(3) that(1) by (auto split: if_splits)
  have sub: "mset (map fst regs) \<subseteq># (if b = null then M else add_mset (b, pages) M)"
    using tabled_arena(3) [OF assms(1)] by (auto intro: subset_mset.order_trans)
  show "tabled a' m (if b = null then M else add_mset (b, pages) M) regs" "same_bounds a a'"
    using tabled_moves [OF assms(1) moves sub] by auto
qed

lemma tabled_release:
  assumes "tabled a m (add_mset s M) regs" "mset (map fst regs) \<subseteq># M"
  shows "tabled (fst (release a (fst s) (snd s))) m M regs" "same_bounds a (fst (release a (fst s) (snd s)))"
proof -
  have moves: "\<exists>w'. arena_step\<^sup>*\<^sup>* \<lparr> w_arena = a, w_pending = [], w_owned = own, w_growing = [], w_gone = gone \<rparr> w'
        \<and> w_arena w' = fst (release a (fst s) (snd s)) \<and> w_pending w' = [] \<and> w_growing w' = [] \<and> mset (w_owned w') = M"
    if o: "mset own = add_mset s M" "world_ok \<lparr> w_arena = a, w_pending = [], w_owned = own, w_growing = [], w_gone = gone \<rparr>" for own gone
  proof -
    have "s \<in> set own" using arg_cong [OF o(1), of set_mset] by auto
    then obtain ps qs where split: "own = ps @ s # qs" by (auto simp: in_set_conv_decomp)
    let ?w = "\<lparr> w_arena = a, w_pending = [], w_owned = own, w_growing = [], w_gone = gone \<rparr>"
    show ?thesis
      using arena_step.released [of ?w ps s qs] split o(1)
      by (intro exI [of _ "?w\<lparr>w_arena := fst (release a (fst s) (snd s)), w_owned := ps @ qs, w_gone := lost a s @ gone\<rparr>"]
          conjI r_into_rtranclp) simp_all
  qed
  show "tabled (fst (release a (fst s) (snd s))) m M regs" "same_bounds a (fst (release a (fst s) (snd s)))"
    using tabled_moves [OF assms(1) moves assms(2)] by auto
qed

section \<open>Registrations\<close>

lemma reg_word_mid:
  assumes "cover p (map fst (rs @ (s, e) # ss)) \<le> 1"
  shows "reg_word (rs @ (s, e) # ss) p = (if hit p s = 1 then entry_word e else reg_word (rs @ ss) p)"
  using reg_word_mem [OF assms, of s e] reg_word_remove [OF assms] by auto

lemma tabled_cover_regs: "tabled a m M regs \<Longrightarrow> cover x (map fst regs) \<le> 1"
  using mcover_mono [OF tabled_arena(3)] tabled_arena(5) by (metis le_trans mcover_mset)

lemma tabled_set:
  assumes "tabled a m M regs" "mset (map fst ((s, e) # regs)) \<subseteq># M" "4 dvd entry_addr e" "entry_addr e < 2 ^ 64"
  shows "tabled a (table_register a m s e) M ((s, e) # regs)"
proof -
  obtain own gone where o: "mset own = M"
    "world_ok \<lparr> w_arena = a, w_pending = [], w_owned = own, w_growing = [], w_gone = gone \<rparr>" (is "world_ok ?w")
    "ar_size a \<le> ARENA_SIZE" "mset (map fst regs) \<subseteq># M"
    "\<forall>s e. (s, e) \<in> set regs \<longrightarrow> 4 dvd entry_addr e \<and> entry_addr e < 2 ^ 64"
    "\<forall>p i. big_page_index a p = Some i \<longrightarrow> m i = reg_word regs p"
    using assms(1) by (rule tabledE)
  have "s \<in># M" using set_mset_mono [OF assms(2)] by auto
  then have sl: "slice_in a s" "arena_ok a" using tabled_arena [OF assms(1)] by auto
  show ?thesis
    using o assms(2-4) register_slot(1) [OF sl(2,1) o(3)]
    by (intro tabledI [OF o(1,2)]) (auto simp: find_hit_Cons)
qed

lemma tabled_clear:
  assumes "tabled a m M (rs @ (s, e) # ss)"
  shows "tabled a (table_unregister a m s e) M (rs @ ss)"
proof -
  obtain own gone where o: "mset own = M"
    "world_ok \<lparr> w_arena = a, w_pending = [], w_owned = own, w_growing = [], w_gone = gone \<rparr>" (is "world_ok ?w")
    "ar_size a \<le> ARENA_SIZE" "mset (map fst (rs @ (s, e) # ss)) \<subseteq># M"
    "\<forall>s' e'. (s', e') \<in> set (rs @ (s, e) # ss) \<longrightarrow> 4 dvd entry_addr e' \<and> entry_addr e' < 2 ^ 64"
    "\<forall>p i. big_page_index a p = Some i \<longrightarrow> m i = reg_word (rs @ (s, e) # ss) p"
    using assms by (rule tabledE)
  have "s \<in># M" using set_mset_mono [OF o(4)] by auto
  then have sl: "slice_in a s" "arena_ok a" using tabled_arena [OF assms] by auto
  have sub: "mset (map fst (rs @ ss)) \<subseteq># M"
    by (rule subset_mset.order_trans [OF _ o(4)]) simp
  show ?thesis
    using o(5,6) register_slot(2) [OF sl(2,1) o(3)] reg_word_remove [OF tabled_cover_regs [OF assms]]
    by (intro tabledI [OF o(1-3) sub]) auto
qed

text \<open>Growth: the slice and its registration grow together once the table has the added pages.\<close>

lemma tabled_grow:
  assumes "tabled a m (add_mset (b, p) M) (rs @ ((b, p), Large_entry h) # ss)" "grow_frontier ok a b p q = (grew, a')"
  shows "if grew then tabled a' (large_table_set a' m (b + p * ARENA_ALIGN) (q - p) h) (add_mset (b, q) M)
             (rs @ ((b, q), Large_entry h) # ss)
         else tabled a' m (add_mset (b, p) M) (rs @ ((b, p), Large_entry h) # ss)"
    and "same_bounds a a'" and "grew \<Longrightarrow> p < q"
proof -
  let ?regs = "rs @ ((b, p), Large_entry h) # ss" and ?regs' = "rs @ ((b, q), Large_entry h) # ss"
  obtain own gone where o: "mset own = add_mset (b, p) M"
    "world_ok \<lparr> w_arena = a, w_pending = [], w_owned = own, w_growing = [], w_gone = gone \<rparr>" (is "world_ok ?w")
    "ar_size a \<le> ARENA_SIZE" "mset (map fst ?regs) \<subseteq># add_mset (b, p) M"
    "\<forall>s e. (s, e) \<in> set ?regs \<longrightarrow> 4 dvd entry_addr e \<and> entry_addr e < 2 ^ 64"
    "\<forall>x i. big_page_index a x = Some i \<longrightarrow> m i = reg_word ?regs x"
    using assms(1) by (rule tabledE)
  have "(b, p) \<in> set own" using arg_cong [OF o(1), of set_mset] by auto
  then obtain ps qs where split: "own = ps @ (b, p) # qs" by (auto simp: in_set_conv_decomp)
  have M: "M = mset (ps @ qs)" using o(1) split by simp
  obtain w' where w': "arena_step\<^sup>*\<^sup>* ?w w'" "world_ok w'" "w_arena w' = a'" "w_pending w' = []" "w_growing w' = []"
      "mset (w_owned w') = add_mset (b, if grew then q else p) M"
    using grow_frontier_correct_facts(1) [OF o(2), of ps b p qs ok q grew a'] split assms(2) M by auto
  show gr: "p < q" if grew
    using grow_frontier_correct_facts(2) [OF o(2), of ps b p qs ok q grew a'] split assms(2) that by simp
  show sb: "same_bounds a a'" using arena_steps_bounds [OF w'(1) o(2)] w'(3) by simp
  have e: "w' = \<lparr> w_arena = a', w_pending = [], w_owned = w_owned w', w_growing = [], w_gone = w_gone w' \<rparr>"
    using w'(3-5) by simp
  have aok: "arena_ok a" "arena_ok a'" using o(2) w'(2,3) by (auto simp: world_ok_def)
  have idx: "big_page_index a' x = big_page_index a x" for x by (rule same_index [OF sb aok])
  have sz: "ar_size a' \<le> ARENA_SIZE" using o(3) sb by (simp add: same_bounds_def)
  have sub: "mset (map fst (rs @ ss)) \<subseteq># M" using o(4) by simp
  show "if grew then tabled a' (large_table_set a' m (b + p * ARENA_ALIGN) (q - p) h) (add_mset (b, q) M) ?regs'
         else tabled a' m (add_mset (b, p) M) ?regs"
  proof (cases grew)
    case False
    show ?thesis
    proof -
      have own': "mset (w_owned w') = add_mset (b, p) M" using w'(6) False by simp
      have words: "big_page_index a' x = Some i \<Longrightarrow> m i = reg_word ?regs x" for x i using o(6) idx by simp
      have "tabled a' m (add_mset (b, p) M) ?regs"
        by (rule tabledI [OF own' subst [where P = world_ok, OF e w'(2)] sz o(4)]) (use o(5) words in blast)+
      then show ?thesis using False by simp
    qed
  next
    case True
    have own': "mset (w_owned w') = add_mset (b, q) M" using w'(6) True by simp
    have sub': "mset (map fst ?regs') \<subseteq># mset (w_owned w')" using sub own' by simp
    have c': "cover x (map fst ?regs') \<le> 1" for x by (rule world_cover_owned [OF w'(2) sub'])
    have c: "cover x (map fst ?regs) \<le> 1" for x by (rule tabled_cover_regs [OF assms(1)])
    have "slice_in a' (b, q)" using w'(2,3) own' by (auto simp: world_ok_def all_slices_def held_slices_def dest: arg_cong [of _ _ set_mset])
    then have sl: "slice_in a' (b + p * ARENA_ALIGN, q - p)"
      using gr [OF True] by (auto simp: slice_in_def algebra_simps diff_mult_distrib)
    have "large_table_set a' m (b + p * ARENA_ALIGN) (q - p) h i = reg_word ?regs' x" if i: "big_page_index a' x = Some i" for x i
    proof -
      have mi: "m i = reg_word ?regs x" using o(6) i idx by simp
      have "large_table_set a' m (b + p * ARENA_ALIGN) (q - p) h i
          = (if hit x (b + p * ARENA_ALIGN, q - p) = 1 then entry_word (Large_entry h) else m i)"
        using larget.slot_set [OF aok(2) sl sz i] by (simp add: hit_iff)
      also have "\<dots> = (if hit x (b, q) = 1 then entry_word (Large_entry h) else reg_word (rs @ ss) x)"
        using hit_split_le [of p q x b] gr [OF True] c' [of x] unfolding mi reg_word_mid [OF c]
        by (auto simp: hit_def split: if_splits)
      finally show ?thesis unfolding reg_word_mid [OF c'] .
    qed
    then show ?thesis using True o(5) sub' own'
      by (simp only: if_True) (rule tabledI [OF own' subst [where P = world_ok, OF e w'(2)] sz]; auto)
  qed
qed

section \<open>Reading the table\<close>

lemma tabled_get:
  assumes "tabled a m M regs"
  shows "((b, n), e) \<in> set regs \<Longrightarrow> b \<le> p \<Longrightarrow> p < b + n * ARENA_ALIGN \<Longrightarrow>
      (big_table_get a m p, large_table_get a m p, medium_table_get a m p)
      = (case e of Big_entry h \<Rightarrow> (h, null, null) | Large_entry h \<Rightarrow> (null, h, null) | Medium_entry h \<Rightarrow> (null, null, h))"
    and "cover p (map fst regs) = 0 \<Longrightarrow>
      (big_table_get a m p, large_table_get a m p, medium_table_get a m p) = (null, null, null)"
proof -
  obtain own gone where o: "mset own = M"
    "world_ok \<lparr> w_arena = a, w_pending = [], w_owned = own, w_growing = [], w_gone = gone \<rparr>" (is "world_ok ?w")
    "ar_size a \<le> ARENA_SIZE" "mset (map fst regs) \<subseteq># M"
    "\<forall>s e. (s, e) \<in> set regs \<longrightarrow> 4 dvd entry_addr e \<and> entry_addr e < 2 ^ 64"
    "\<forall>p i. big_page_index a p = Some i \<longrightarrow> m i = reg_word regs p"
    using assms by (rule tabledE)
  note ar = tabled_arena [OF assms] and cov = tabled_cover_regs [OF assms]
  show "(big_table_get a m p, large_table_get a m p, medium_table_get a m p)
      = (case e of Big_entry h \<Rightarrow> (h, null, null) | Large_entry h \<Rightarrow> (null, h, null) | Medium_entry h \<Rightarrow> (null, null, h))"
    if r: "((b, n), e) \<in> set regs" "b \<le> p" "p < b + n * ARENA_ALIGN"
  proof -
    have "(b, n) \<in># M" using set_mset_mono [OF o(4)] r(1) by force
    then obtain i where i: "big_page_index a p = Some i" using big_page_index_in [OF ar(1) ar(4) ar(2) r(2,3)] by blast
    have "m i = entry_word e" using reg_word_mem [OF cov r(1)] r(2,3) o(6) i by (simp add: hit_iff)
    then show ?thesis using o(5) r(1) by (simp add: getters_of_word [OF i] decode_entry)
  qed
  show "(big_table_get a m p, large_table_get a m p, medium_table_get a m p) = (null, null, null)"
    if "cover p (map fst regs) = 0"
  proof (cases "big_page_index a p")
    case None
    then show ?thesis by (rule getters_outside)
  next
    case (Some i)
    then have "m i = 0" using o(6) reg_word_none [OF that] by simp
    then show ?thesis by (simp add: getters_of_word [OF Some] dec_defs)
  qed
qed

end
