(* ===== verification/Large_Registry.thy ===== *)
theory Large_Registry
  imports Page_Layout Free_List
begin

text \<open>
  The registry of large regions outside the arena (\<open>src/src/lib.rs\<close>): 4096 buckets of singly linked lists
  that run through the region headers (\<open>registry_next\<close>), selected by a multiplicative hash of the header
  address.  Removal and lookup walk one bucket; the walks are partial functions, shown to end below.

  Registration, removal and the bucket walk run under the registry mutex, one step each.
\<close>

unbundle bit_operations_syntax

section \<open>Operations\<close>

definition LARGE_REGISTRY_BUCKETS :: nat where [const_simps]: "LARGE_REGISTRY_BUCKETS = 4096"

type_synonym large_headers = "addr \<Rightarrow> large_header"

record registry =
  rg_len :: nat
  rg_buckets :: "addr list"

definition registry_new :: registry where
  "registry_new = \<lparr> rg_len = 0, rg_buckets = replicate LARGE_REGISTRY_BUCKETS null \<rparr>"

definition legacy_bucket :: "addr \<Rightarrow> nat" where
  "legacy_bucket hdr =
     (let v = (word_of_nat hdr :: 64 word) * 0x9E3779B97F4A7C15
      in unat (drop_bit 52 v AND word_of_nat (LARGE_REGISTRY_BUCKETS - 1)))"

definition register_legacy_large :: "large_headers \<times> registry \<Rightarrow> addr \<Rightarrow> large_headers \<times> registry" where
  "register_legacy_large s hdr =
     (let (h, rg) = s; bucket = legacy_bucket hdr
      in (h(hdr := (h hdr)\<lparr>registry_next := rg_buckets rg ! bucket\<rparr>),
          rg\<lparr>rg_len := add_w 64 (rg_len rg) 1, rg_buckets := (rg_buckets rg)[bucket := hdr]\<rparr>))"

text \<open>The walk of the removal: the predecessor of \<open>hdr\<close> (null for the first) once it is found.\<close>

partial_function (option) find_previous :: "large_headers \<Rightarrow> addr \<Rightarrow> addr \<Rightarrow> addr \<Rightarrow> addr option option" where
  "find_previous h hdr previous current =
     (if current = null then Some None
      else if current = hdr then Some (Some previous)
      else find_previous h hdr current (registry_next (h current)))"

definition unregister_legacy_large :: "large_headers \<times> registry \<Rightarrow> addr \<Rightarrow> (large_headers \<times> registry) option" where
  "unregister_legacy_large s hdr =
     (let (h, rg) = s; bucket = legacy_bucket hdr
      in case find_previous h hdr null (rg_buckets rg ! bucket) of
           None \<Rightarrow> None
         | Some None \<Rightarrow> Some (h, rg)
         | Some (Some previous) \<Rightarrow>
             let nxt = registry_next (h hdr);
                 rg1 = rg\<lparr>rg_len := sub_w 64 (rg_len rg) 1\<rparr>
             in Some (if previous = null then (h, rg1\<lparr>rg_buckets := (rg_buckets rg)[bucket := nxt]\<rparr>)
                      else (h(previous := (h previous)\<lparr>registry_next := nxt\<rparr>), rg1)))"

partial_function (option) bucket_contains :: "large_headers \<Rightarrow> addr \<Rightarrow> addr \<Rightarrow> bool option" where
  "bucket_contains h expected current =
     (if current = null then Some False
      else if current = expected then Some True
      else bucket_contains h expected (registry_next (h current)))"

definition legacy_large_contains :: "large_headers \<times> registry \<Rightarrow> addr \<Rightarrow> bool option" where
  "legacy_large_contains s p =
     (let (h, rg) = s
      in if rg_len rg = 0 then Some False
         else if p < LARGE_HEADER_SIZE \<or> (p - LARGE_HEADER_SIZE) mod 16 \<noteq> 0 then Some False
         else
           let expected = p - LARGE_HEADER_SIZE
           in bucket_contains h expected (rg_buckets rg ! legacy_bucket expected))"

section \<open>Walks\<close>

abbreviation links :: "large_headers \<Rightarrow> cells" where
  "links h \<equiv> \<lambda>a. registry_next (h a)"

lemma legacy_bucket_less: "legacy_bucket hdr < LARGE_REGISTRY_BUCKETS"
proof -
  have "unat (w AND word_of_nat (LARGE_REGISTRY_BUCKETS - 1)) \<le> LARGE_REGISTRY_BUCKETS - 1" for w :: "64 word"
  proof -
    have "w AND word_of_nat (LARGE_REGISTRY_BUCKETS - 1) \<le> word_of_nat (LARGE_REGISTRY_BUCKETS - 1)"
      by (rule word_and_le1)
    then show ?thesis by (simp add: word_le_nat_alt LARGE_REGISTRY_BUCKETS_def)
  qed
  then show ?thesis unfolding legacy_bucket_def Let_def
    by (rule le_less_trans) (simp add: LARGE_REGISTRY_BUCKETS_def)
qed

lemma bucket_contains_chain:
  "chain (links h) c xs \<Longrightarrow> bucket_contains h e c = Some (e \<in> set xs)"
proof (induction xs arbitrary: c)
  case Nil
  then show ?case by (subst bucket_contains.simps) simp
next
  case (Cons x xs)
  then show ?case by (subst bucket_contains.simps) (auto dest: chain_not_null)
qed

lemma find_previous_miss:
  "chain (links h) c xs \<Longrightarrow> e \<notin> set xs \<Longrightarrow> find_previous h e pv c = Some None"
proof (induction xs arbitrary: c pv)
  case Nil
  then show ?case by (subst find_previous.simps) simp
next
  case (Cons x xs)
  then show ?case by (subst find_previous.simps) simp
qed

lemma find_previous_hit:
  "chain (links h) c (xs @ e # ys) \<Longrightarrow> e \<notin> set xs \<Longrightarrow> find_previous h e pv c = Some (Some (last (pv # xs)))"
proof (induction xs arbitrary: c pv)
  case Nil
  then show ?case by (subst find_previous.simps) simp
next
  case (Cons x xs)
  then show ?case by (subst find_previous.simps) auto
qed

text \<open>Unlinking the element after \<open>p\<close>.\<close>

lemma chain_unlink:
  assumes "chain m c (xs @ p # e # ys)" "distinct (xs @ p # e # ys)"
  shows "chain (m(p := m e)) c (xs @ p # ys)"
  using assms
proof (induction xs arbitrary: c)
  case Nil
  then show ?case using chain_upd [of p ys m "m e" "m e"] by (auto simp: fun_upd_def)
next
  case (Cons x xs)
  then show ?case by auto
qed

section \<open>Representation\<close>

text \<open>\<open>bl\<close> gives the headers of each bucket in list order.\<close>

definition registry_ok :: "large_headers \<times> registry \<Rightarrow> (nat \<Rightarrow> addr list) \<Rightarrow> bool" where
  "registry_ok s bl \<longleftrightarrow> length (rg_buckets (snd s)) = LARGE_REGISTRY_BUCKETS
     \<and> (\<forall>i < LARGE_REGISTRY_BUCKETS. chain (links (fst s)) (rg_buckets (snd s) ! i) (bl i) \<and> distinct (bl i)
          \<and> (\<forall>x \<in> set (bl i). legacy_bucket x = i))
     \<and> rg_len (snd s) = (\<Sum>i < LARGE_REGISTRY_BUCKETS. length (bl i)) \<and> rg_len (snd s) < 2 ^ 64"

definition registers :: "large_headers \<times> registry \<Rightarrow> addr set \<Rightarrow> bool" where
  "registers s A \<longleftrightarrow> (\<exists>bl. registry_ok s bl \<and> A = {x. x \<in> set (bl (legacy_bucket x))})"

lemma in_bucket:
  "registry_ok s bl \<Longrightarrow> i < LARGE_REGISTRY_BUCKETS \<Longrightarrow> x \<in> set (bl i) \<Longrightarrow> legacy_bucket x = i"
  by (simp add: registry_ok_def)

lemma sum_bucket_update:
  fixes k n :: nat
  assumes "k < n"
  shows "(\<Sum>i < n. length ((bl(k := ys)) i)) + length (bl k) = (\<Sum>i < n. length (bl i)) + (length ys :: nat)"
proof -
  have k: "k \<in> {..<n}" using assms by simp
  show ?thesis
    using sum.remove [OF finite_lessThan k, of "\<lambda>i. length (bl i)"]
      sum.remove [OF finite_lessThan k, of "\<lambda>i. length ((bl(k := ys)) i)"] by simp
qed

lemma registry_ok_update:
  assumes "registry_ok (h, rg) bl" "k < LARGE_REGISTRY_BUCKETS"
    and "length (rg_buckets rg') = length (rg_buckets rg)" "\<And>i. i \<noteq> k \<Longrightarrow> rg_buckets rg' ! i = rg_buckets rg ! i"
    and "\<And>i c. i < LARGE_REGISTRY_BUCKETS \<Longrightarrow> i \<noteq> k \<Longrightarrow> chain (links h) c (bl i) \<Longrightarrow> chain (links h') c (bl i)"
    and "chain (links h') (rg_buckets rg' ! k) ys" "distinct ys" "\<And>x. x \<in> set ys \<Longrightarrow> legacy_bucket x = k"
    and "rg_len rg' + length (bl k) = rg_len rg + length ys" "rg_len rg' < 2 ^ 64"
  shows "registry_ok (h', rg') (bl(k := ys))"
proof -
  have "rg_len rg = (\<Sum>i < LARGE_REGISTRY_BUCKETS. length (bl i))" using assms(1) by (simp add: registry_ok_def)
  then have "rg_len rg' = (\<Sum>i < LARGE_REGISTRY_BUCKETS. length ((bl(k := ys)) i))"
    using sum_bucket_update [OF assms(2), of bl ys] assms(9) by linarith
  then show ?thesis
    using assms(1-8,10) unfolding registry_ok_def by auto
qed

lemma links_upd: "links (h(p := (h p)\<lparr>registry_next := n\<rparr>)) = (links h)(p := n)"
  by auto

lemma register_ok:
  assumes "registry_ok (h, rg) bl" "hdr \<noteq> 0" "hdr \<notin> set (bl (legacy_bucket hdr))" "rg_len rg + 1 < 2 ^ 64"
  shows "registry_ok (register_legacy_large (h, rg) hdr) (bl(legacy_bucket hdr := hdr # bl (legacy_bucket hdr)))"
  unfolding register_legacy_large_def Let_def prod.case
proof (rule registry_ok_update [OF assms(1) legacy_bucket_less], unfold links_upd)
  let ?k = "legacy_bucket hdr"
  note ok = assms(1) [unfolded registry_ok_def, simplified]
  have k: "chain (links h) (rg_buckets rg ! ?k) (bl ?k)" "distinct (bl ?k)" "\<And>x. x \<in> set (bl ?k) \<Longrightarrow> legacy_bucket x = ?k"
    using ok legacy_bucket_less by auto
  show "chain ((links h)(hdr := n)) c (bl i)" if "i < LARGE_REGISTRY_BUCKETS" "i \<noteq> ?k" "chain (links h) c (bl i)" for i c n
  proof -
    have "hdr \<notin> set (bl i)" using in_bucket [OF assms(1) that(1)] that(2) by metis
    then show ?thesis using that(3) by (simp add: chain_upd)
  qed
  show "chain ((links h)(hdr := rg_buckets rg ! ?k))
      (rg_buckets (rg\<lparr>rg_len := add_w 64 (rg_len rg) 1, rg_buckets := (rg_buckets rg)[?k := hdr]\<rparr>) ! ?k) (hdr # bl ?k)"
    using k assms(2,3) ok legacy_bucket_less by (simp add: chain_upd)
qed (use assms in \<open>auto simp: registry_ok_def legacy_bucket_less\<close>)

lemma bucket_length_le:
  assumes "registry_ok (h, rg) bl" "k < LARGE_REGISTRY_BUCKETS"
  shows "length (bl k) \<le> rg_len rg"
proof -
  have "length (bl k) \<le> (\<Sum>i < LARGE_REGISTRY_BUCKETS. length (bl i))"
    by (rule member_le_sum) (use assms(2) in auto)
  then show ?thesis using assms(1) by (simp add: registry_ok_def)
qed

lemma unregister_ok:
  assumes "registry_ok (h, rg) bl"
  shows "\<exists>s'. unregister_legacy_large (h, rg) hdr = Some s'
    \<and> registry_ok s' (bl(legacy_bucket hdr := filter (\<lambda>x. x \<noteq> hdr) (bl (legacy_bucket hdr))))"
proof -
  let ?k = "legacy_bucket hdr"
  note ok = assms(1) [unfolded registry_ok_def, simplified]
  have k: "chain (links h) (rg_buckets rg ! ?k) (bl ?k)" "distinct (bl ?k)" "\<And>x. x \<in> set (bl ?k) \<Longrightarrow> legacy_bucket x = ?k"
    using ok legacy_bucket_less by auto
  show ?thesis
  proof (cases "hdr \<in> set (bl ?k)")
    case False
    then have "filter (\<lambda>x. x \<noteq> hdr) (bl ?k) = bl ?k" by (induction "bl ?k") (auto intro: filter_True)
    then show ?thesis
      using assms find_previous_miss [OF k(1) False] by (simp add: unregister_legacy_large_def)
  next
    case True
    then obtain xs ys where s: "bl ?k = xs @ hdr # ys" by (auto simp: in_set_conv_decomp)
    have d: "hdr \<notin> set xs" "hdr \<notin> set ys" using k(2) s by auto
    then have f: "filter (\<lambda>x. x \<noteq> hdr) (bl ?k) = xs @ ys" unfolding s by (simp add: filter_id_conv) (metis (mono_tags, lifting) filter_True)
    note fp = find_previous_hit [OF k(1) [unfolded s] d(1), of 0]
    have u: "unregister_legacy_large (h, rg) hdr = Some
      (if last (0 # xs) = null then (h, rg\<lparr>rg_len := sub_w 64 (rg_len rg) 1, rg_buckets := (rg_buckets rg)[?k := registry_next (h hdr)]\<rparr>)
       else (h(last (0 # xs) := (h (last (0 # xs)))\<lparr>registry_next := registry_next (h hdr)\<rparr>), rg\<lparr>rg_len := sub_w 64 (rg_len rg) 1\<rparr>))"
      by (simp add: unregister_legacy_large_def fp Let_def)
    have len: "sub_w 64 (rg_len rg) 1 + length (bl ?k) = rg_len rg + length (xs @ ys)"
      using bucket_length_le [OF assms legacy_bucket_less, of hdr] s ok by simp
    have lt: "sub_w 64 (rg_len rg) 1 < 2 ^ 64" by (simp add: sub_w_def)
    have dist: "distinct (xs @ ys)" using k(2) unfolding s by simp
    have "set (xs @ ys) \<subseteq> set (bl ?k)" unfolding s by auto
    then have rest: "legacy_bucket x = ?k" if "x \<in> set (xs @ ys)" for x using k(3) that by blast
    show ?thesis
    proof (cases xs rule: rev_cases)
      case Nil
      have "registry_ok (h, rg\<lparr>rg_len := sub_w 64 (rg_len rg) 1, rg_buckets := (rg_buckets rg)[?k := registry_next (h hdr)]\<rparr>) (bl(?k := xs @ ys))"
      proof (rule registry_ok_update [OF assms legacy_bucket_less])
        have "length (rg_buckets rg) = LARGE_REGISTRY_BUCKETS" using ok by blast
        moreover have "chain (links h) (registry_next (h hdr)) ys" using k(1) s Nil by simp
        ultimately show "chain (links h) (rg_buckets (rg\<lparr>rg_len := sub_w 64 (rg_len rg) 1,
            rg_buckets := (rg_buckets rg)[?k := registry_next (h hdr)]\<rparr>) ! ?k) (xs @ ys)"
          using Nil legacy_bucket_less by simp
        show "distinct (xs @ ys)" "\<And>x. x \<in> set (xs @ ys) \<Longrightarrow> legacy_bucket x = ?k" by (fact dist rest)+
      qed (use len lt in simp_all)
      then show ?thesis using u Nil f by simp
    next
      case (snoc zs q)
      have q: "q \<noteq> 0" "q \<in> set (bl ?k)" using chain_not_null [OF k(1), of q] s snoc by auto
      have "registry_ok (h(q := (h q)\<lparr>registry_next := registry_next (h hdr)\<rparr>), rg\<lparr>rg_len := sub_w 64 (rg_len rg) 1\<rparr>) (bl(?k := xs @ ys))"
      proof (rule registry_ok_update [OF assms legacy_bucket_less], unfold links_upd)
        show "chain ((links h)(q := n)) c (bl i)" if "i < LARGE_REGISTRY_BUCKETS" "i \<noteq> ?k" "chain (links h) c (bl i)" for i c n
        proof -
          have "q \<notin> set (bl i)" using in_bucket [OF assms that(1)] in_bucket [OF assms legacy_bucket_less q(2)] that(2) by metis
          then show ?thesis using that(3) by (simp add: chain_upd)
        qed
        show "chain ((links h)(q := registry_next (h hdr))) (rg_buckets (rg\<lparr>rg_len := sub_w 64 (rg_len rg) 1\<rparr>) ! ?k) (xs @ ys)"
          using chain_unlink [of "links h" _ zs q hdr ys] k(1,2) s snoc by simp
        show "distinct (xs @ ys)" "\<And>x. x \<in> set (xs @ ys) \<Longrightarrow> legacy_bucket x = ?k" by (fact dist rest)+
      qed (use len lt in simp_all)
      then show ?thesis using u snoc q f by simp
    qed
  qed
qed

lemma contains_ok:
  assumes "registry_ok (h, rg) bl" "p \<ge> LARGE_HEADER_SIZE" "(p - LARGE_HEADER_SIZE) mod 16 = 0"
  shows "legacy_large_contains (h, rg) p
    = Some (p - LARGE_HEADER_SIZE \<in> set (bl (legacy_bucket (p - LARGE_HEADER_SIZE))))"
proof (cases "rg_len rg = 0")
  case True
  then have "bl (legacy_bucket (p - LARGE_HEADER_SIZE)) = []"
    using bucket_length_le [OF assms(1) legacy_bucket_less, of "p - LARGE_HEADER_SIZE"] by simp
  then show ?thesis using True by (simp add: legacy_large_contains_def)
next
  case False
  have "chain (links h) (rg_buckets rg ! legacy_bucket x) (bl (legacy_bucket x))" for x
    using assms(1) legacy_bucket_less by (auto simp: registry_ok_def)
  then show ?thesis
    using False assms(2,3) by (simp add: legacy_large_contains_def Let_def bucket_contains_chain)
qed

section \<open>The contract, and its client\<close>

text \<open>
  What \<open>free\<close>, \<open>realloc\<close> and \<open>usable_size\<close> rely on: a set of live handles with insertion, removal and a
  membership test that ends.
\<close>

locale handle_set =
  fixes holds :: "'s \<Rightarrow> addr set \<Rightarrow> bool"
    and room :: "'s \<Rightarrow> bool"
    and add :: "'s \<Rightarrow> addr \<Rightarrow> 's"
    and remove :: "'s \<Rightarrow> addr \<Rightarrow> 's option"
    and mem :: "'s \<Rightarrow> addr \<Rightarrow> bool option"
    and valid :: "addr \<Rightarrow> bool"
  assumes add_law: "holds s A \<Longrightarrow> room s \<Longrightarrow> x \<noteq> 0 \<Longrightarrow> x \<notin> A \<Longrightarrow> holds (add s x) (insert x A)"
    and remove_law: "holds s A \<Longrightarrow> \<exists>s'. remove s x = Some s' \<and> holds s' (A - {x})"
    and mem_law: "holds s A \<Longrightarrow> valid x \<Longrightarrow> mem s x = Some (x \<in> A)"
begin

text \<open>A history: an insertion of a new handle, or a removal.\<close>

inductive history :: "'s \<Rightarrow> addr set \<Rightarrow> 's \<Rightarrow> addr set \<Rightarrow> bool" where
  history_start: "history s A s A"
| history_add: "history s A t B \<Longrightarrow> room t \<Longrightarrow> x \<noteq> 0 \<Longrightarrow> x \<notin> B \<Longrightarrow> history s A (add t x) (insert x B)"
| history_remove: "history s A t B \<Longrightarrow> remove t x = Some t' \<Longrightarrow> history s A t' (B - {x})"

lemma history_holds: "history s A t B \<Longrightarrow> holds s A \<Longrightarrow> holds t B"
proof (induction rule: history.induct)
  case (history_add s A t B x)
  then show ?case by (blast intro: add_law)
next
  case (history_remove s A t B x t')
  then show ?case using remove_law [of t B x] by auto
qed

lemma history_mem: "history s A t B \<Longrightarrow> holds s A \<Longrightarrow> valid x \<Longrightarrow> mem t x = Some (x \<in> B)"
  by (rule mem_law [OF history_holds])

lemma add_remove: "holds s A \<Longrightarrow> room s \<Longrightarrow> x \<noteq> 0 \<Longrightarrow> x \<notin> A \<Longrightarrow> \<exists>s'. remove (add s x) x = Some s' \<and> holds s' A"
  using remove_law [OF add_law, of s A x x] by simp

end

definition registry_room :: "large_headers \<times> registry \<Rightarrow> bool" where
  "registry_room s \<longleftrightarrow> rg_len (snd s) + 1 < 2 ^ 64"

text \<open>Membership of a header, asked the way the callers do, through the user pointer.\<close>

definition registry_mem :: "large_headers \<times> registry \<Rightarrow> addr \<Rightarrow> bool option" where
  "registry_mem s hdr = legacy_large_contains s (hdr + LARGE_HEADER_SIZE)"

lemma registers_add:
  assumes "registers s A" "registry_room s" "x \<noteq> 0" "x \<notin> A"
  shows "registers (register_legacy_large s x) (insert x A)"
proof -
  obtain bl where bl: "registry_ok s bl" "A = {x. x \<in> set (bl (legacy_bucket x))}" using assms(1) by (auto simp: registers_def)
  obtain h rg where s: "s = (h, rg)" by (cases s)
  have "registry_ok (register_legacy_large s x) (bl(legacy_bucket x := x # bl (legacy_bucket x)))"
    unfolding s by (rule register_ok) (use bl s assms(2-4) in \<open>auto simp: registry_room_def\<close>)
  moreover have "insert x A = {y. y \<in> set ((bl(legacy_bucket x := x # bl (legacy_bucket x))) (legacy_bucket y))}"
    unfolding bl(2) by auto
  ultimately show ?thesis unfolding registers_def by blast
qed

lemma registers_remove:
  assumes "registers s A"
  shows "\<exists>s'. unregister_legacy_large s x = Some s' \<and> registers s' (A - {x})"
proof -
  obtain bl where bl: "registry_ok s bl" "A = {x. x \<in> set (bl (legacy_bucket x))}" using assms(1) by (auto simp: registers_def)
  obtain h rg where s: "s = (h, rg)" by (cases s)
  let ?bl = "bl(legacy_bucket x := filter (\<lambda>y. y \<noteq> x) (bl (legacy_bucket x)))"
  obtain s' where s': "unregister_legacy_large s x = Some s'" "registry_ok s' ?bl"
    using unregister_ok [OF bl(1) [unfolded s]] unfolding s by blast
  have "A - {x} = {y. y \<in> set (?bl (legacy_bucket y))}" unfolding bl(2) by auto
  then show ?thesis using s' unfolding registers_def by blast
qed

lemma registers_mem:
  assumes "registers s A" "x mod 16 = 0"
  shows "registry_mem s x = Some (x \<in> A)"
proof -
  obtain h rg where s: "s = (h, rg)" by (cases s)
  show ?thesis
    using assms contains_ok [of h rg _ "x + LARGE_HEADER_SIZE"] by (auto simp: registers_def registry_mem_def s)
qed

interpretation lr: handle_set registers registry_room register_legacy_large unregister_legacy_large registry_mem "\<lambda>x. x mod 16 = 0"
  by unfold_locales (fact registers_add registers_remove registers_mem)+

lemma registers_new: "registers (h, registry_new) {}"
proof -
  have "registry_ok (h, registry_new) (\<lambda>_. [])"
    by (simp add: registry_ok_def registry_new_def)
  then show ?thesis unfolding registers_def by (intro exI [of _ "\<lambda>_. []"]) auto
qed

lemma no_low_pointers: "p < LARGE_HEADER_SIZE \<Longrightarrow> legacy_large_contains s p = Some False"
  by (cases s) (simp add: legacy_large_contains_def)

text \<open>C31 (equivalence).  The registry is a set: after any history of registrations of new headers and removals
  (of present or absent ones, in any order, with any hash collisions) the lookup ends and answers exactly
  whether the header in front of the pointer is registered; removals end too, and a pointer too low to
  have a header is never found.\<close>
theorem registry_is_a_set:
  assumes "lr.history (h, registry_new) {} s A"
  shows "(hdr mod 16 = 0 \<longrightarrow> legacy_large_contains s (hdr + LARGE_HEADER_SIZE) = Some (hdr \<in> A))
    \<and> (\<exists>s'. unregister_legacy_large s hdr = Some s' \<and> registers s' (A - {hdr}))
    \<and> (p < LARGE_HEADER_SIZE \<longrightarrow> legacy_large_contains s p = Some False)"
  using lr.history_mem [OF assms registers_new, of hdr] registers_remove [OF lr.history_holds [OF assms registers_new], of hdr]
    no_low_pointers [of p s] by (auto simp: registry_mem_def)

theorem registry_is_a_set_witness:
  "legacy_large_contains (register_legacy_large (\<lambda>_. \<lparr> l_magic = 0, mapped_size = 0, l_base = 0, requested_size = 0, registry_next = 0 \<rparr>, registry_new) 65536) 65584
     = Some True"
proof -
  let ?h = "\<lambda>_. \<lparr> l_magic = 0, mapped_size = 0, l_base = 0, requested_size = 0, registry_next = 0 \<rparr>"
  have "lr.history (?h, registry_new) {} (register_legacy_large (?h, registry_new) 65536) (insert 65536 {})"
    by (rule lr.history_add [OF lr.history_start]) (simp_all add: registry_room_def registry_new_def)
  from registry_is_a_set [OF this, of 65536] show ?thesis by (simp add: LARGE_HEADER_SIZE_def)
qed

end
