(* ===== verification/Sys_Memory.thy ===== *)
theory Sys_Memory
  imports Prelude
begin

text \<open>
  The operating-system layer of \<open>src/src/sys/unix.rs\<close>: the aligned mapping, the discard of physical pages
  and the one-time probe that decides whether a discarded range may be trusted to read as zeros.

  The kernel is a parameter.  \<open>mmap\<close> answers \<open>Some\<close> address or \<open>None\<close>; \<open>madvise\<close> answers whether it
  succeeded, and how it changed the bytes of the range it was applied to (as a function on the contents).
  The purge counters and timings of \<open>discard\<close> are left out.
\<close>

section \<open>Mapping\<close>

definition MAP_ALIGN :: nat where [const_simps]: "MAP_ALIGN = 64 * 1024"

text \<open>\<open>map\<close>: the second result lists the two trims (\<open>munmap\<close> of address and length).\<close>

definition sys_map :: "addr option \<Rightarrow> nat \<Rightarrow> addr \<times> (addr \<times> nat) list" where
  "sys_map raw sz =
     (case checked_add sz MAP_ALIGN of
        None \<Rightarrow> (null, [])
      | Some tot \<Rightarrow>
          (case raw of
             None \<Rightarrow> (null, [])
           | Some r \<Rightarrow>
               let aligned = mask_down MAP_ALIGN (r + MAP_ALIGN - 1);
                   prefix = aligned - r;
                   suffix = tot - prefix - sz
               in (aligned,
                   (if prefix \<noteq> 0 then [(r, prefix)] else [])
                   @ (if suffix \<noteq> 0 then [(aligned + sz, suffix)] else []))))"

definition map_any :: "addr option \<Rightarrow> addr" where
  "map_any raw = (case raw of None \<Rightarrow> null | Some p \<Rightarrow> p)"

text \<open>How many of a list of ranges cover a byte.\<close>

definition ranges_at :: "addr \<Rightarrow> (addr \<times> nat) list \<Rightarrow> nat" where
  "ranges_at x rs = (\<Sum>(b, n)\<leftarrow>rs. if b \<le> x \<and> x < b + n then 1 else 0)"

text \<open>A successful mapping is aligned, and the mapping together with the two trims tiles
  what the kernel returned: no byte is leaked and none is unmapped that the caller keeps.\<close>
theorem sys_map_correct:
  assumes "sys_map (Some r) sz = (p, trims)" "sz + MAP_ALIGN < 2 ^ USIZE_BITS" "0 < r"
  shows "MAP_ALIGN dvd p \<and> 0 < p
    \<and> ranges_at x [(r, sz + MAP_ALIGN)] = ranges_at x ((p, sz) # trims)"
proof -
  have e: "p = mask_down MAP_ALIGN (r + (MAP_ALIGN - 1))"
    "trims = (if p - r \<noteq> 0 then [(r, p - r)] else [])
       @ (if sz + MAP_ALIGN - (p - r) - sz \<noteq> 0 then [(p + sz, sz + MAP_ALIGN - (p - r) - sz)] else [])"
    using assms(1,2) by (auto simp: sys_map_def checked_add_def Let_def MAP_ALIGN_def add.commute)
  have b: "r \<le> p" "p < r + MAP_ALIGN" "MAP_ALIGN dvd p"
    unfolding e(1) using mask_down_bounds [of MAP_ALIGN r] by (auto simp: MAP_ALIGN_def)
  show ?thesis
    unfolding e(2) using b assms(3) by (auto simp: ranges_at_def)
qed

theorem sys_map_correct_witness:
  "MAP_ALIGN dvd 65536 \<and> ranges_at 140000 [(4096, 131072 + MAP_ALIGN)] = ranges_at 140000 [(65536, 131072), (4096, 61440), (196608, 4096)]"
  using sys_map_correct [of 4096 131072 65536 "[(4096, 61440), (196608, 4096)]" 140000]
  by (simp add: sys_map_def checked_add_def Let_def const_simps USIZE_BITS_def mask_down_def)

section \<open>Discarding\<close>

record discarded =
  physical :: bool
  zeroed :: bool

text \<open>The probe's kernel: the probe mapping, whether \<open>madvise\<close> succeeded on it, and its effect on the bytes.\<close>

record probe_kernel =
  pk_map :: "addr option"
  pk_advise :: bool
  pk_effect :: "(nat \<Rightarrow> nat) \<Rightarrow> nat \<Rightarrow> nat"

definition PROBE :: nat where [const_simps]: "PROBE = 8 * 1024"

text \<open>The bytes of the probe after the write loop and the tail byte.\<close>

definition probe_bytes :: "nat \<Rightarrow> nat" where
  "probe_bytes i = (if i = PROBE - 1 then 0x5A else if i < PROBE then 0xA5 else 0)"

definition probe_verdict :: "probe_kernel \<Rightarrow> bool" where
  "probe_verdict k =
     (if map_any (pk_map k) = null then False
      else pk_advise k \<and> pk_effect k probe_bytes (PROBE - 1) = 0)"

text \<open>The verdict is cached: 0 unknown, 1 yes, 2 no.\<close>

definition dontneed_zeroes :: "probe_kernel \<Rightarrow> nat \<Rightarrow> bool \<times> nat" where
  "dontneed_zeroes k cache =
     (if cache = 1 then (True, cache)
      else if cache = 2 then (False, cache)
      else let verdict = probe_verdict k in (verdict, if verdict then 1 else 2))"

definition discard :: "probe_kernel \<Rightarrow> bool \<Rightarrow> nat \<Rightarrow> discarded \<times> nat" where
  "discard k ok cache =
     (if ok then let (z, cache') = dontneed_zeroes k cache in (\<lparr> physical = True, zeroed = z \<rparr>, cache')
      else (\<lparr> physical = False, zeroed = False \<rparr>, cache))"

text \<open>A sequence of discards, each with the kernel's answer to its own \<open>madvise\<close>; the probe may see a
  different kernel answer every time it runs.\<close>

fun discards :: "(probe_kernel \<times> bool) list \<Rightarrow> nat \<Rightarrow> discarded list \<times> nat" where
  "discards [] cache = ([], cache)"
| "discards ((k, ok) # ks) cache =
     (let (d, cache1) = discard k ok cache; (ds, cache2) = discards ks cache1 in (d # ds, cache2))"

lemma discards_cached:
  "cache = 1 \<or> cache = 2 \<Longrightarrow>
    discards ks cache = (map (\<lambda>(k, ok). \<lparr> physical = ok, zeroed = ok \<and> cache = 1 \<rparr>) ks, cache)"
  by (induction ks) (auto simp: discard_def dontneed_zeroes_def)

text \<open>C32 (safety).  Over the life of a process the probe decides once: a discard reports zeros only when its
  own \<open>madvise\<close> succeeded and the first probe that ran saw its bytes read as zero; every later discard
  gives the same verdict, whatever the kernel would answer to another probe.\<close>
theorem discard_zero_claims:
  "case dropWhile (\<lambda>(k, ok). \<not> ok) ks of
     [] \<Rightarrow> fst (discards ks 0) = map (\<lambda>_. \<lparr> physical = False, zeroed = False \<rparr>) ks
   | (k, ok) # _ \<Rightarrow> fst (discards ks 0) = map (\<lambda>(_, ok'). \<lparr> physical = ok', zeroed = ok' \<and> probe_verdict k \<rparr>) ks"
proof (induction ks)
  case (Cons x ks)
  obtain k ok where x: "x = (k, ok)" by (cases x)
  show ?case
  proof (cases ok)
    case True
    then show ?thesis
      using discards_cached [of "if probe_verdict k then 1 else 2" ks]
      by (auto simp: x discard_def dontneed_zeroes_def Let_def split: prod.splits)
  next
    case False
    then show ?thesis
      using Cons by (cases "discards ks 0") (auto simp: x discard_def split: list.splits prod.splits)
  qed
qed simp

text \<open>The probe reads one byte back.  A kernel that zeroes only the last byte of the range passes it, although
  the first byte still reads as the pattern that was written.\<close>

definition tail_only_kernel :: probe_kernel where
  "tail_only_kernel = \<lparr> pk_map = Some 4096, pk_advise = True, pk_effect = (\<lambda>m i. if i = PROBE - 1 then 0 else m i) \<rparr>"

lemma probe_trusts_tail: "probe_verdict tail_only_kernel \<and> pk_effect tail_only_kernel probe_bytes 0 \<noteq> 0"
  by (simp add: probe_verdict_def tail_only_kernel_def map_any_def probe_bytes_def PROBE_def)

end
