(* ===== verification/Large_Cache.thy ===== *)
theory Large_Cache
  imports Page_Layout Sys_Memory Region_Pool
begin

text \<open>
  The sharded recycle cache of \<open>src/src/lib.rs\<close> for large regions: per shard a hot tier (mapped) and a cold
  tier (physical pages dropped), each an unordered array with a tally of bytes and an index from region
  sizes to array slots.

  A region is a pair of its base and its mapped pages.  The index is only a hint: every use of it is
  checked against the array.  The cache lives under its shard's mutex, so each operation is one step.
\<close>

unbundle bit_operations_syntax

section \<open>State\<close>

definition NUM_LARGE_SHARDS :: nat where [const_simps]: "NUM_LARGE_SHARDS = 8"
definition LARGE_SHARD_SLOTS :: nat where [const_simps]: "LARGE_SHARD_SLOTS = 64"
definition LARGE_SHARD_CAP_BYTES :: nat where [const_simps]: "LARGE_SHARD_CAP_BYTES = 32 * 1024 * 1024"
definition LARGE_COLD_CAP_BYTES :: nat where [const_simps]: "LARGE_COLD_CAP_BYTES = 64 * 1024 * 1024"
definition LARGE_COLD_SLOTS :: nat where [const_simps]: "LARGE_COLD_SLOTS = 512"
definition LARGE_EXACT_MAX_PAGES :: nat where "LARGE_EXACT_MAX_PAGES = LARGE_COLD_CAP_BYTES div PAGE_SIZE"
definition EMPTY_LARGE_INDEX :: nat where [const_simps]: "EMPTY_LARGE_INDEX = 65535"



record large_cache =
  lc_len :: nat
  lc_bytes :: nat
  lc_entries :: "region list"
  hot_zeroed :: "bool list"
  hot_exact :: "nat list"
  cold_len :: nat
  cold_bytes :: nat
  cold_entries :: "region list"
  cold_zeroed :: "bool list"
  cold_decommitted :: "bool list"
  cold_exact :: "nat list"

definition large_cache_new :: large_cache where
  "large_cache_new = \<lparr> lc_len = 0, lc_bytes = 0, lc_entries = replicate LARGE_SHARD_SLOTS (null, 0),
     hot_zeroed = replicate LARGE_SHARD_SLOTS False,
     hot_exact = replicate (LARGE_EXACT_MAX_PAGES + 1) EMPTY_LARGE_INDEX,
     cold_len = 0, cold_bytes = 0, cold_entries = replicate LARGE_COLD_SLOTS (null, 0),
     cold_zeroed = replicate LARGE_COLD_SLOTS False, cold_decommitted = replicate LARGE_COLD_SLOTS False,
     cold_exact = replicate (LARGE_EXACT_MAX_PAGES + 1) EMPTY_LARGE_INDEX \<rparr>"

definition large_shard :: "nat \<Rightarrow> addr \<Rightarrow> nat" where
  "large_shard mapped_pages salt = (mapped_pages XOR drop_bit 6 salt) mod NUM_LARGE_SHARDS"

section \<open>The index\<close>

definition refresh_large_exact :: "region list \<Rightarrow> nat \<Rightarrow> nat \<Rightarrow> nat list \<Rightarrow> nat list" where
  "refresh_large_exact entries n pages exact =
     (if LARGE_EXACT_MAX_PAGES < pages then exact
      else exact[pages := (case List.find (\<lambda>i. snd (entries ! i) = pages) [0..<n] of
                             None \<Rightarrow> EMPTY_LARGE_INDEX | Some i \<Rightarrow> i mod 2 ^ 16)])"

definition index_hot :: "large_cache \<Rightarrow> nat \<Rightarrow> nat \<Rightarrow> large_cache" where
  "index_hot c index pages =
     (if LARGE_EXACT_MAX_PAGES < pages then c
      else
        let current = hot_exact c ! pages
        in if current = EMPTY_LARGE_INDEX then c\<lparr>hot_exact := (hot_exact c)[pages := index mod 2 ^ 16]\<rparr>
           else if lc_len c \<le> current \<or> snd (lc_entries c ! current) \<noteq> pages
           then c\<lparr>hot_exact := refresh_large_exact (lc_entries c) (lc_len c) pages (hot_exact c)\<rparr>
           else c)"

definition index_cold :: "large_cache \<Rightarrow> nat \<Rightarrow> nat \<Rightarrow> large_cache" where
  "index_cold c index pages =
     (if LARGE_EXACT_MAX_PAGES < pages then c
      else
        let current = cold_exact c ! pages
        in if current = EMPTY_LARGE_INDEX then c\<lparr>cold_exact := (cold_exact c)[pages := index mod 2 ^ 16]\<rparr>
           else if cold_len c \<le> current \<or> snd (cold_entries c ! current) \<noteq> pages
           then c\<lparr>cold_exact := refresh_large_exact (cold_entries c) (cold_len c) pages (cold_exact c)\<rparr>
           else c)"

definition exact_hot :: "large_cache \<Rightarrow> nat \<Rightarrow> nat option" where
  "exact_hot c wanted =
     (if LARGE_EXACT_MAX_PAGES < wanted then None
      else
        let index = hot_exact c ! wanted
        in if index < lc_len c \<and> snd (lc_entries c ! index) = wanted then Some index else None)"

definition exact_cold :: "large_cache \<Rightarrow> nat \<Rightarrow> nat option" where
  "exact_cold c wanted =
     (if LARGE_EXACT_MAX_PAGES < wanted then None
      else
        let index = cold_exact c ! wanted
        in if index < cold_len c \<and> snd (cold_entries c ! index) = wanted then Some index else None)"

text \<open>The repair of an index after a removal, written twice in the source: \<open>entries\<close> and \<open>n\<close> are the array
  after the last entry has moved to \<open>index\<close>.\<close>

definition repair_moved :: "region list \<Rightarrow> nat \<Rightarrow> nat \<Rightarrow> nat \<Rightarrow> nat list \<Rightarrow> nat list" where
  "repair_moved entries n index lst exact =
     (if index < n then
        let moved_pages = snd (entries ! index)
        in if moved_pages \<le> LARGE_EXACT_MAX_PAGES \<and> exact ! moved_pages = lst mod 2 ^ 16
           then exact[moved_pages := index mod 2 ^ 16] else exact
      else exact)"

definition repair_removed :: "region list \<Rightarrow> nat \<Rightarrow> nat \<Rightarrow> nat \<Rightarrow> nat list \<Rightarrow> nat list" where
  "repair_removed entries n index removed_pages exact =
     (if removed_pages \<le> LARGE_EXACT_MAX_PAGES then
        let bucket = exact ! removed_pages
        in if bucket = index \<or> n \<le> bucket \<or> snd (entries ! bucket) \<noteq> removed_pages
           then refresh_large_exact entries n removed_pages exact else exact
      else exact)"

section \<open>Taking a region\<close>

type_synonym taken = "addr \<times> nat \<times> bool \<times> bool"

definition remove_hot :: "large_cache \<Rightarrow> nat \<Rightarrow> taken \<times> large_cache" where
  "remove_hot c index =
     (let lst = lc_len c - 1;
          entry = lc_entries c ! index;
          z = hot_zeroed c ! index;
          es = (lc_entries c)[index := lc_entries c ! lst, lst := (null, 0)];
          c1 = c\<lparr>lc_entries := es, hot_zeroed := (hot_zeroed c)[index := hot_zeroed c ! lst, lst := False],
                 lc_len := lst, lc_bytes := lc_bytes c - snd entry * PAGE_SIZE\<rparr>
      in ((fst entry, snd entry, z, False),
          c1\<lparr>hot_exact := repair_removed es lst index (snd entry) (repair_moved es lst index lst (hot_exact c))\<rparr>))"

definition remove_cold :: "large_cache \<Rightarrow> nat \<Rightarrow> taken \<times> large_cache" where
  "remove_cold c index =
     (let lst = cold_len c - 1;
          entry = cold_entries c ! index;
          z = cold_zeroed c ! index;
          d = cold_decommitted c ! index;
          es = (cold_entries c)[index := cold_entries c ! lst, lst := (null, 0)];
          c1 = c\<lparr>cold_entries := es, cold_zeroed := (cold_zeroed c)[index := cold_zeroed c ! lst, lst := False],
                 cold_decommitted := (cold_decommitted c)[index := cold_decommitted c ! lst, lst := False],
                 cold_len := lst, cold_bytes := cold_bytes c - snd entry * PAGE_SIZE\<rparr>
      in ((fst entry, snd entry, z, d),
          c1\<lparr>cold_exact := repair_removed es lst index (snd entry) (repair_moved es lst index lst (cold_exact c))\<rparr>))"

fun fit_scan :: "region list \<Rightarrow> nat \<Rightarrow> nat list \<Rightarrow> nat option \<Rightarrow> nat option" where
  "fit_scan es mapped [] best = best"
| "fit_scan es mapped (i # js) best =
     fit_scan es mapped js
       (if mapped \<le> snd (es ! i) * PAGE_SIZE
           \<and> (case best of None \<Rightarrow> True | Some b \<Rightarrow> snd (es ! i) < snd (es ! b))
        then Some i else best)"

definition take_fit :: "large_cache \<Rightarrow> nat \<Rightarrow> taken option \<times> large_cache" where
  "take_fit c mapped =
     (let wanted = (mapped div PAGE_SIZE) mod 2 ^ 32;
          hot = (\<lambda>i. let (r, c') = remove_hot c i in (Some r, c'));
          cold = (\<lambda>i. let (r, c') = remove_cold c i in (Some r, c'))
      in case exact_hot c wanted of Some i \<Rightarrow> hot i | None \<Rightarrow>
         (case exact_cold c wanted of Some i \<Rightarrow> cold i | None \<Rightarrow>
         (case List.find (\<lambda>i. snd (lc_entries c ! i) = wanted) [0..<lc_len c] of Some i \<Rightarrow> hot i | None \<Rightarrow>
         (case List.find (\<lambda>i. snd (cold_entries c ! i) = wanted) [0..<cold_len c] of Some i \<Rightarrow> cold i | None \<Rightarrow>
         (case fit_scan (lc_entries c) mapped [0..<lc_len c] None of Some i \<Rightarrow> hot i | None \<Rightarrow>
         (case fit_scan (cold_entries c) mapped [0..<cold_len c] None of Some i \<Rightarrow> cold i | None \<Rightarrow>
            (None, c)))))))"

section \<open>Parking a region\<close>

text \<open>The shard part of \<open>free_large\<close>: hot if it fits, else cold with the pages discarded (\<open>disc\<close> is what the
  discard reports; it runs only on the cold branch), else the caller unmaps.\<close>

datatype park_fate = Kept | Unmap

definition park_hot :: "large_cache \<Rightarrow> addr \<Rightarrow> nat \<Rightarrow> nat \<Rightarrow> large_cache" where
  "park_hot c base pages mapped =
     (let idx = lc_len c
      in index_hot (c\<lparr>lc_entries := (lc_entries c)[idx := (base, pages)], hot_zeroed := (hot_zeroed c)[idx := False],
           lc_len := idx + 1, lc_bytes := lc_bytes c + mapped\<rparr>) idx pages)"

definition park_cold :: "discarded \<Rightarrow> large_cache \<Rightarrow> addr \<Rightarrow> nat \<Rightarrow> nat \<Rightarrow> large_cache" where
  "park_cold disc c base pages mapped =
     (let idx = cold_len c;
          c1 = index_cold (c\<lparr>cold_entries := (cold_entries c)[idx := (base, pages)], cold_len := idx + 1,
                 cold_bytes := cold_bytes c + mapped\<rparr>) idx pages
      in c1\<lparr>cold_zeroed := (cold_zeroed c1)[idx := zeroed disc],
            cold_decommitted := (cold_decommitted c1)[idx := physical disc \<and> \<not> zeroed disc]\<rparr>)"

definition park_large :: "discarded \<Rightarrow> large_cache \<Rightarrow> addr \<Rightarrow> nat \<Rightarrow> nat \<Rightarrow> park_fate \<times> large_cache" where
  "park_large disc c base pages mapped =
     (if lc_len c < LARGE_SHARD_SLOTS \<and> lc_bytes c + mapped \<le> LARGE_SHARD_CAP_BYTES
      then (Kept, park_hot c base pages mapped)
      else if cold_len c < LARGE_COLD_SLOTS \<and> cold_bytes c + mapped \<le> LARGE_COLD_CAP_BYTES
      then (Kept, park_cold disc c base pages mapped)
      else (Unmap, c))"

section \<open>Well-formedness, and the effect on the regions held\<close>

definition hot_list :: "large_cache \<Rightarrow> (region \<times> bool) list" where
  "hot_list c = zip (take (lc_len c) (lc_entries c)) (take (lc_len c) (hot_zeroed c))"

definition cold_list :: "large_cache \<Rightarrow> (region \<times> bool \<times> bool) list" where
  "cold_list c = zip (take (cold_len c) (cold_entries c))
     (zip (take (cold_len c) (cold_zeroed c)) (take (cold_len c) (cold_decommitted c)))"

definition region_bytes :: "region \<Rightarrow> nat" where
  "region_bytes r = snd r * PAGE_SIZE"

definition cache_ok :: "large_cache \<Rightarrow> bool" where
  "cache_ok c \<longleftrightarrow> length (lc_entries c) = LARGE_SHARD_SLOTS \<and> length (hot_zeroed c) = LARGE_SHARD_SLOTS
     \<and> length (hot_exact c) = LARGE_EXACT_MAX_PAGES + 1 \<and> lc_len c \<le> LARGE_SHARD_SLOTS
     \<and> lc_bytes c = (\<Sum>x\<leftarrow>hot_list c. region_bytes (fst x)) \<and> lc_bytes c \<le> LARGE_SHARD_CAP_BYTES
     \<and> length (cold_entries c) = LARGE_COLD_SLOTS \<and> length (cold_zeroed c) = LARGE_COLD_SLOTS
     \<and> length (cold_decommitted c) = LARGE_COLD_SLOTS
     \<and> length (cold_exact c) = LARGE_EXACT_MAX_PAGES + 1 \<and> cold_len c \<le> LARGE_COLD_SLOTS
     \<and> cold_bytes c = (\<Sum>x\<leftarrow>cold_list c. region_bytes (fst x)) \<and> cold_bytes c \<le> LARGE_COLD_CAP_BYTES"

lemma cache_ok_new: "cache_ok large_cache_new"
  by (simp add: cache_ok_def large_cache_new_def hot_list_def cold_list_def)

lemma length_repair [simp]:
  "length (refresh_large_exact es n p ex) = length ex"
  "length (repair_moved es n i l ex) = length ex"
  "length (repair_removed es n i p ex) = length ex"
  by (simp_all add: refresh_large_exact_def repair_moved_def repair_removed_def Let_def)

lemma zip_swap_remove:
  assumes "length xs = length ys" "i < length xs"
  shows "zip (swap_remove xs i) (swap_remove ys i) = swap_remove (zip xs ys) i"
proof -
  have "xs \<noteq> []" "ys \<noteq> []" using assms by auto
  then have l: "last (zip xs ys) = (last xs, last ys)"
    using assms(1) by (rule last_zip)
  have z: "zip (butlast (xs[i := last xs])) (butlast (ys[i := last ys])) = butlast (zip (xs[i := last xs]) (ys[i := last ys]))"
    by (simp only: butlast_conv_take take_zip length_list_update length_zip assms(1) min.idem)
  have "i < length ys" "i < length (zip xs ys)" using assms by simp_all
  then show ?thesis
    unfolding swap_remove_def using assms(2) by (simp only: if_True z zip_update l)
qed

lemma remove_hot_frame:
  assumes "remove_hot c i = (r, c')"
  shows "length (lc_entries c') = length (lc_entries c)" "length (hot_zeroed c') = length (hot_zeroed c)"
    "length (hot_exact c') = length (hot_exact c)" "lc_len c' = lc_len c - 1"
    "cold_entries c' = cold_entries c" "cold_zeroed c' = cold_zeroed c" "cold_decommitted c' = cold_decommitted c"
    "cold_exact c' = cold_exact c" "cold_len c' = cold_len c" "cold_bytes c' = cold_bytes c"
  using assms by (auto simp: remove_hot_def Let_def)

lemma remove_cold_frame:
  assumes "remove_cold c i = (r, c')"
  shows "length (cold_entries c') = length (cold_entries c)" "length (cold_zeroed c') = length (cold_zeroed c)"
    "length (cold_decommitted c') = length (cold_decommitted c)"
    "length (cold_exact c') = length (cold_exact c)" "cold_len c' = cold_len c - 1"
    "lc_entries c' = lc_entries c" "hot_zeroed c' = hot_zeroed c"
    "hot_exact c' = hot_exact c" "lc_len c' = lc_len c" "lc_bytes c' = lc_bytes c"
  using assms by (auto simp: remove_cold_def Let_def)

text \<open>The tallies after a removal, for either tier.\<close>

lemma tally_remove:
  fixes f :: "'a \<Rightarrow> nat"
  assumes "i < length xs" "n = sum_list (map f xs)" "n' = n - f (xs ! i)"
  shows "n' = sum_list (map f (swap_remove xs i))" "n' \<le> n"
  using sum_list_swap_remove [OF assms(1), of f] assms(2,3) by simp_all

lemma remove_hot_correct:
  assumes "cache_ok c" "i < lc_len c" "remove_hot c i = ((b, p, z, d), c')"
  shows "hot_list c ! i = ((b, p), z)" "\<not> d" "hot_list c' = swap_remove (hot_list c) i" "cold_list c' = cold_list c"
    "cache_ok c'"
proof -
  note l = assms(1) [unfolded cache_ok_def] and fr = remove_hot_frame [OF assms(3)]
  have li: "i < lc_len c" "lc_len c \<le> length (lc_entries c)" "lc_len c \<le> length (hot_zeroed c)" using l assms(2) by auto
  show e: "hot_list c ! i = ((b, p), z)" "\<not> d"
    using assms(2,3) li by (auto simp: remove_hot_def hot_list_def Let_def)
  show h: "hot_list c' = swap_remove (hot_list c) i"
    using assms(3) take_swap_remove [OF li(1,2)] take_swap_remove [OF li(1,3)]
      zip_swap_remove [of "take (lc_len c) (lc_entries c)" "take (lc_len c) (hot_zeroed c)" i] li
    by (auto simp: remove_hot_def hot_list_def Let_def)
  show cl: "cold_list c' = cold_list c" by (simp add: cold_list_def fr)
  have len: "i < length (hot_list c)" using li by (simp add: hot_list_def)
  have s: "lc_bytes c = (\<Sum>x\<leftarrow>hot_list c. region_bytes (fst x))" using l by blast
  have "lc_bytes c' = lc_bytes c - p * PAGE_SIZE" using assms(3) by (auto simp: remove_hot_def Let_def)
  then have "lc_bytes c' = lc_bytes c - region_bytes (fst (hot_list c ! i))" by (simp add: e region_bytes_def)
  note t = tally_remove [OF len s this, folded h]
  show "cache_ok c'"
    unfolding cache_ok_def cl fr using l t by (intro conjI) (blast | linarith)+
qed

lemma remove_cold_correct:
  assumes "cache_ok c" "i < cold_len c" "remove_cold c i = ((b, p, z, d), c')"
  shows "cold_list c ! i = ((b, p), z, d)" "cold_list c' = swap_remove (cold_list c) i" "hot_list c' = hot_list c"
    "cache_ok c'"
proof -
  note l = assms(1) [unfolded cache_ok_def] and fr = remove_cold_frame [OF assms(3)]
  have li: "i < cold_len c" "cold_len c \<le> length (cold_entries c)" "cold_len c \<le> length (cold_zeroed c)"
    "cold_len c \<le> length (cold_decommitted c)" using l assms(2) by auto
  show e: "cold_list c ! i = ((b, p), z, d)"
    using assms(2,3) li by (auto simp: remove_cold_def cold_list_def Let_def)
  let ?flags = "zip (take (cold_len c) (cold_zeroed c)) (take (cold_len c) (cold_decommitted c))"
  show h: "cold_list c' = swap_remove (cold_list c) i"
    using assms(3) take_swap_remove [OF li(1,2)] take_swap_remove [OF li(1,3)] take_swap_remove [OF li(1,4)]
      zip_swap_remove [of "take (cold_len c) (cold_zeroed c)" "take (cold_len c) (cold_decommitted c)" i]
      zip_swap_remove [of "take (cold_len c) (cold_entries c)" ?flags i] li
    by (auto simp: remove_cold_def cold_list_def Let_def)
  show hl: "hot_list c' = hot_list c" by (simp add: hot_list_def fr)
  have len: "i < length (cold_list c)" using li by (simp add: cold_list_def)
  have s: "cold_bytes c = (\<Sum>x\<leftarrow>cold_list c. region_bytes (fst x))" using l by blast
  have "cold_bytes c' = cold_bytes c - p * PAGE_SIZE" using assms(3) by (auto simp: remove_cold_def Let_def)
  then have "cold_bytes c' = cold_bytes c - region_bytes (fst (cold_list c ! i))" by (simp add: e region_bytes_def)
  note t = tally_remove [OF len s this, folded h]
  show "cache_ok c'"
    unfolding cache_ok_def hl fr using l t by (intro conjI) (blast | linarith)+
qed

lemma take_Suc_append: "n < length es \<Longrightarrow> take (Suc n) (es[n := v]) = take n es @ [v]"
  by (simp add: take_Suc_conv_app_nth)

lemma index_frame [simp]:
  "lc_len (index_hot c i p) = lc_len c" "lc_entries (index_hot c i p) = lc_entries c" "hot_zeroed (index_hot c i p) = hot_zeroed c"
  "lc_bytes (index_hot c i p) = lc_bytes c" "length (hot_exact (index_hot c i p)) = length (hot_exact c)"
  "cold_len (index_hot c i p) = cold_len c" "cold_entries (index_hot c i p) = cold_entries c"
  "cold_zeroed (index_hot c i p) = cold_zeroed c" "cold_decommitted (index_hot c i p) = cold_decommitted c"
  "cold_bytes (index_hot c i p) = cold_bytes c" "cold_exact (index_hot c i p) = cold_exact c"
  "lc_len (index_cold c i p) = lc_len c" "lc_entries (index_cold c i p) = lc_entries c" "hot_zeroed (index_cold c i p) = hot_zeroed c"
  "lc_bytes (index_cold c i p) = lc_bytes c" "hot_exact (index_cold c i p) = hot_exact c"
  "cold_len (index_cold c i p) = cold_len c" "cold_entries (index_cold c i p) = cold_entries c"
  "cold_zeroed (index_cold c i p) = cold_zeroed c" "cold_decommitted (index_cold c i p) = cold_decommitted c"
  "cold_bytes (index_cold c i p) = cold_bytes c" "length (cold_exact (index_cold c i p)) = length (cold_exact c)"
  by (simp_all add: index_hot_def index_cold_def Let_def)

lemma park_hot_lists:
  assumes "cache_ok c" "lc_len c < LARGE_SHARD_SLOTS"
  shows "hot_list (park_hot c b p m) = hot_list c @ [((b, p), False)]" "cold_list (park_hot c b p m) = cold_list c"
proof -
  have "lc_len c < length (lc_entries c)" "lc_len c < length (hot_zeroed c)" using assms by (auto simp: cache_ok_def)
  then show "hot_list (park_hot c b p m) = hot_list c @ [((b, p), False)]"
    by (simp add: hot_list_def park_hot_def Let_def take_Suc_append)
  show "cold_list (park_hot c b p m) = cold_list c" by (simp add: cold_list_def park_hot_def Let_def)
qed

lemma park_cold_lists:
  assumes "cache_ok c" "cold_len c < LARGE_COLD_SLOTS"
  shows "cold_list (park_cold disc c b p m) = cold_list c @ [((b, p), zeroed disc, physical disc \<and> \<not> zeroed disc)]"
    "hot_list (park_cold disc c b p m) = hot_list c"
proof -
  have "cold_len c < length (cold_entries c)" "cold_len c < length (cold_zeroed c)" "cold_len c < length (cold_decommitted c)"
    using assms by (auto simp: cache_ok_def)
  then show "cold_list (park_cold disc c b p m) = cold_list c @ [((b, p), zeroed disc, physical disc \<and> \<not> zeroed disc)]"
    by (simp add: cold_list_def park_cold_def Let_def take_Suc_append)
  show "hot_list (park_cold disc c b p m) = hot_list c" by (simp add: hot_list_def park_cold_def Let_def)
qed

lemma park_hot_ok:
  assumes "cache_ok c" "lc_len c < LARGE_SHARD_SLOTS" "lc_bytes c + p * PAGE_SIZE \<le> LARGE_SHARD_CAP_BYTES"
  shows "cache_ok (park_hot c b p (p * PAGE_SIZE))"
  unfolding cache_ok_def park_hot_lists [OF assms(1,2)]
  using assms(1) [unfolded cache_ok_def] assms(2,3) by (simp add: park_hot_def Let_def region_bytes_def)

lemma park_cold_ok:
  assumes "cache_ok c" "cold_len c < LARGE_COLD_SLOTS" "cold_bytes c + p * PAGE_SIZE \<le> LARGE_COLD_CAP_BYTES"
  shows "cache_ok (park_cold disc c b p (p * PAGE_SIZE))"
  unfolding cache_ok_def park_cold_lists [OF assms(1,2)]
  using assms(1) [unfolded cache_ok_def] assms(2,3) by (simp add: park_cold_def Let_def region_bytes_def)

text \<open>C30 (invariant).  Parking a freed region keeps the shard well-formed, tallies and caps included: the
  region goes to the hot tier while that has room, else to the cold tier with what the discard reported
  recorded for its later user, else (and only then) back to its caller to unmap, with the shard unchanged.\<close>
theorem park_large_correct:
  assumes "cache_ok c" "park_large disc c base pages (pages * PAGE_SIZE) = (fate, c')"
  shows "cache_ok c' \<and>
    (if lc_len c < LARGE_SHARD_SLOTS \<and> lc_bytes c + pages * PAGE_SIZE \<le> LARGE_SHARD_CAP_BYTES
     then fate = Kept \<and> hot_list c' = hot_list c @ [((base, pages), False)] \<and> cold_list c' = cold_list c
     else if cold_len c < LARGE_COLD_SLOTS \<and> cold_bytes c + pages * PAGE_SIZE \<le> LARGE_COLD_CAP_BYTES
     then fate = Kept \<and> hot_list c' = hot_list c
       \<and> cold_list c' = cold_list c @ [((base, pages), zeroed disc, physical disc \<and> \<not> zeroed disc)]
     else fate = Unmap \<and> c' = c)"
proof -
  let ?hot = "lc_len c < LARGE_SHARD_SLOTS \<and> lc_bytes c + pages * PAGE_SIZE \<le> LARGE_SHARD_CAP_BYTES"
  let ?cold = "cold_len c < LARGE_COLD_SLOTS \<and> cold_bytes c + pages * PAGE_SIZE \<le> LARGE_COLD_CAP_BYTES"
  consider "?hot" | "\<not> ?hot" "?cold" | "\<not> ?hot" "\<not> ?cold" by blast
  then show ?thesis
  proof cases
    case 1
    then have c': "fate = Kept" "c' = park_hot c base pages (pages * PAGE_SIZE)" using assms(2) by (auto simp: park_large_def)
    note k = park_hot_lists [OF assms(1) conjunct1 [OF 1], of base pages "pages * PAGE_SIZE"]
    show ?thesis using 1 c' k park_hot_ok [OF assms(1)] by simp
  next
    case 2
    then have c': "fate = Kept" "c' = park_cold disc c base pages (pages * PAGE_SIZE)" using assms(2) by (auto simp: park_large_def)
    note k = park_cold_lists [OF assms(1) conjunct1 [OF 2(2)], of disc base pages "pages * PAGE_SIZE"]
    show ?thesis using 2 c' k park_cold_ok [OF assms(1)] by simp
  next
    case 3
    then have "fate = Unmap" "c' = c" using assms(2) by (auto simp: park_large_def)
    then show ?thesis using assms(1) 3 by simp
  qed
qed

theorem park_large_correct_witness:
  "hot_list (snd (park_large \<lparr> physical = True, zeroed = True \<rparr> large_cache_new 65536 3 (3 * PAGE_SIZE))) = [((65536, 3), False)]"
proof -
  obtain f c' where p: "park_large \<lparr> physical = True, zeroed = True \<rparr> large_cache_new 65536 3 (3 * PAGE_SIZE) = (f, c')"
    by (cases "park_large \<lparr> physical = True, zeroed = True \<rparr> large_cache_new 65536 3 (3 * PAGE_SIZE)") auto
  show ?thesis
    using park_large_correct [OF cache_ok_new p]
    by (simp add: p) (simp add: large_cache_new_def const_simps hot_list_def)
qed

section \<open>Which region a take returns\<close>

definition hot_pages :: "large_cache \<Rightarrow> nat list" where "hot_pages c = map (snd \<circ> fst) (hot_list c)"
definition cold_pages :: "large_cache \<Rightarrow> nat list" where "cold_pages c = map (snd \<circ> fst) (cold_list c)"

lemma pages_nth:
  assumes "cache_ok c"
  shows "length (hot_pages c) = lc_len c" "length (cold_pages c) = cold_len c"
    "i < lc_len c \<Longrightarrow> hot_pages c ! i = snd (lc_entries c ! i)"
    "i < cold_len c \<Longrightarrow> cold_pages c ! i = snd (cold_entries c ! i)"
proof -
  have "lc_len c \<le> length (lc_entries c)" "lc_len c \<le> length (hot_zeroed c)" "cold_len c \<le> length (cold_entries c)"
    "cold_len c \<le> length (cold_zeroed c)" "cold_len c \<le> length (cold_decommitted c)"
    using assms by (auto simp: cache_ok_def)
  then show "length (hot_pages c) = lc_len c" "length (cold_pages c) = cold_len c"
    "i < lc_len c \<Longrightarrow> hot_pages c ! i = snd (lc_entries c ! i)"
    "i < cold_len c \<Longrightarrow> cold_pages c ! i = snd (cold_entries c ! i)"
    by (simp_all add: hot_pages_def cold_pages_def hot_list_def cold_list_def)
qed

lemma find_index:
  assumes "List.find (\<lambda>i. P i) [0..<n] = r"
  shows "case r of None \<Rightarrow> \<forall>i < n. \<not> P i | Some i \<Rightarrow> i < n \<and> P i"
  using assms by (cases r) (auto simp: find_None_iff find_Some_iff)

lemma fit_scan_correct:
  assumes "\<And>b. best = Some b \<Longrightarrow> mapped \<le> snd (es ! b) * PAGE_SIZE"
  shows "case fit_scan es mapped js best of
      None \<Rightarrow> best = None \<and> (\<forall>j \<in> set js. snd (es ! j) * PAGE_SIZE < mapped)
    | Some i \<Rightarrow> (i \<in> set js \<or> best = Some i) \<and> mapped \<le> snd (es ! i) * PAGE_SIZE
        \<and> (\<forall>j \<in> set js. mapped \<le> snd (es ! j) * PAGE_SIZE \<longrightarrow> snd (es ! i) \<le> snd (es ! j))
        \<and> (\<forall>b. best = Some b \<longrightarrow> snd (es ! i) \<le> snd (es ! b))"
  using assms
proof (induction es mapped js best rule: fit_scan.induct)
  case (1 es mapped best)
  then show ?case by (cases best) auto
next
  case (2 es mapped i js best)
  let ?upd = "if mapped \<le> snd (es ! i) * PAGE_SIZE \<and> (case best of None \<Rightarrow> True | Some b \<Rightarrow> snd (es ! i) < snd (es ! b))
    then Some i else best"
  have pre: "mapped \<le> snd (es ! b) * PAGE_SIZE" if "?upd = Some b" for b
    using that 2(2) by (auto split: if_splits)
  show ?case
    using 2(1) [OF pre]
    by (cases "fit_scan es mapped js ?upd"; cases best) (auto split: if_splits)
qed

definition best_hot :: "large_cache \<Rightarrow> nat \<Rightarrow> nat \<Rightarrow> bool" where
  "best_hot c n p \<longleftrightarrow> n \<le> p \<and> (p = n \<or> n \<notin> set (hot_pages c) \<and> n \<notin> set (cold_pages c)
     \<and> (\<forall>q \<in> set (hot_pages c). n \<le> q \<longrightarrow> p \<le> q))"

definition best_cold :: "large_cache \<Rightarrow> nat \<Rightarrow> nat \<Rightarrow> bool" where
  "best_cold c n p \<longleftrightarrow> n \<le> p \<and> (p = n \<or> (\<forall>q \<in> set (hot_pages c). q < n) \<and> n \<notin> set (cold_pages c)
     \<and> (\<forall>q \<in> set (cold_pages c). n \<le> q \<longrightarrow> p \<le> q))"

text \<open>The two searches of one tier, in terms of the sizes it holds.\<close>

lemma tier_searches:
  assumes "length ps = k" "\<And>i. i < k \<Longrightarrow> ps ! i = snd (es ! i)"
  shows "case List.find (\<lambda>i. snd (es ! i) = n) [0..<k] of None \<Rightarrow> n \<notin> set ps | Some i \<Rightarrow> i < k \<and> ps ! i = n"
    and "case fit_scan es (n * PAGE_SIZE) [0..<k] None of
        None \<Rightarrow> \<forall>q \<in> set ps. q < n
      | Some i \<Rightarrow> i < k \<and> n \<le> ps ! i \<and> (\<forall>q \<in> set ps. n \<le> q \<longrightarrow> ps ! i \<le> q)"
proof -
  have all: "(\<forall>q \<in> set ps. P q) \<longleftrightarrow> (\<forall>i < k. P (snd (es ! i)))" for P
    using assms by (simp add: all_set_conv_all_nth)
  have sz: "n * PAGE_SIZE \<le> q * PAGE_SIZE \<longleftrightarrow> n \<le> q" "q * PAGE_SIZE < n * PAGE_SIZE \<longleftrightarrow> q < n" for q
    by (simp_all add: PAGE_SIZE_def)
  show "case List.find (\<lambda>i. snd (es ! i) = n) [0..<k] of None \<Rightarrow> n \<notin> set ps | Some i \<Rightarrow> i < k \<and> ps ! i = n"
    using find_index [of "\<lambda>i. snd (es ! i) = n" k, OF refl] all [of "\<lambda>q. q \<noteq> n"] assms(2) by (auto split: option.splits)
  show "case fit_scan es (n * PAGE_SIZE) [0..<k] None of
        None \<Rightarrow> \<forall>q \<in> set ps. q < n
      | Some i \<Rightarrow> i < k \<and> n \<le> ps ! i \<and> (\<forall>q \<in> set ps. n \<le> q \<longrightarrow> ps ! i \<le> q)"
    using fit_scan_correct [of None "n * PAGE_SIZE" es "[0..<k]"] assms(2)
    by (auto simp: sz all split: option.splits)
qed

lemma exact_index:
  assumes "cache_ok c"
  shows "exact_hot c n = Some i \<Longrightarrow> i < lc_len c \<and> hot_pages c ! i = n"
    "exact_cold c n = Some i \<Longrightarrow> i < cold_len c \<and> cold_pages c ! i = n"
  using pages_nth [OF assms] by (auto simp: exact_hot_def exact_cold_def Let_def split: if_splits)

lemma take_fit_choice:
  assumes "cache_ok c" "n < 2 ^ 32" "take_fit c (n * PAGE_SIZE) = (r, c')"
  obtains (hot) i t where "i < lc_len c" "remove_hot c i = (t, c')" "r = Some t" "best_hot c n (hot_pages c ! i)"
  | (cold) i t where "i < cold_len c" "remove_cold c i = (t, c')" "r = Some t" "best_cold c n (cold_pages c ! i)"
  | (none) "r = None" "c' = c" "\<forall>q \<in> set (hot_pages c) \<union> set (cold_pages c). q < n"
proof -
  note pn = pages_nth [OF assms(1)]
  note hs = tier_searches [OF pn(1) pn(3), of n] and cs = tier_searches [OF pn(2) pn(4), of n]
  have w: "n * PAGE_SIZE div PAGE_SIZE mod 2 ^ 32 = n" using assms(2) by (simp add: PAGE_SIZE_def)
  have hotI: thesis if "i < lc_len c" "best_hot c n (hot_pages c ! i)" "(let (t, d) = remove_hot c i in (Some t, d)) = (r, c')" for i
    using hot [of i] that by (cases "remove_hot c i") auto
  have coldI: thesis if "i < cold_len c" "best_cold c n (cold_pages c ! i)" "(let (t, d) = remove_cold c i in (Some t, d)) = (r, c')" for i
    using cold [of i] that by (cases "remove_cold c i") auto
  note t = assms(3) [unfolded take_fit_def w Let_def [of n] Let_def [of "\<lambda>i. _ i"]]
  show thesis
  proof (cases "exact_hot c n")
    case (Some i)
    then show thesis using hotI [of i] t exact_index(1) [OF assms(1) Some] by (simp add: best_hot_def)
  next
    case e1: None
    show thesis
    proof (cases "exact_cold c n")
      case (Some i)
      then show thesis using coldI [of i] t e1 exact_index(2) [OF assms(1) Some] by (simp add: best_cold_def)
    next
      case e2: None
      show thesis
      proof (cases "List.find (\<lambda>i. snd (lc_entries c ! i) = n) [0..<lc_len c]")
        case (Some i)
        then show thesis using hotI [of i] t e1 e2 hs(1) by (simp add: best_hot_def)
      next
        case f1: None
        show thesis
        proof (cases "List.find (\<lambda>i. snd (cold_entries c ! i) = n) [0..<cold_len c]")
          case (Some i)
          then show thesis using coldI [of i] t e1 e2 f1 cs(1) by (simp add: best_cold_def)
        next
          case f2: None
          note no = hs(1) [unfolded f1 option.case] cs(1) [unfolded f2 option.case]
          show thesis
          proof (cases "fit_scan (lc_entries c) (n * PAGE_SIZE) [0..<lc_len c] None")
            case (Some i)
            then show thesis using hotI [of i] t e1 e2 f1 f2 no hs(2) by (simp add: best_hot_def)
          next
            case h: None
            then show thesis
              using coldI none t e1 e2 f1 f2 no hs(2) cs(2)
              by (cases "fit_scan (cold_entries c) (n * PAGE_SIZE) [0..<cold_len c] None") (auto simp: best_cold_def)
          qed
        qed
      qed
    qed
  qed
qed

text \<open>Taking a region for \<open>n\<close> pages: a region of exactly that size wins over every other,
  whichever tier holds it; otherwise the smallest sufficient hot region, and only when no hot region
  suffices the smallest sufficient cold one.  The region leaves the shard together with its own flags, every
  other region stays with its own; nothing is taken only when nothing is large enough.\<close>
theorem take_fit_correct:
  assumes "cache_ok c" "n < 2 ^ 32" "take_fit c (n * PAGE_SIZE) = (r, c')"
  shows "cache_ok c' \<and>
    (case r of
       None \<Rightarrow> c' = c \<and> (\<forall>q \<in> set (hot_pages c) \<union> set (cold_pages c). q < n)
     | Some (b, p, z, d) \<Rightarrow> n \<le> p
         \<and> (p \<noteq> n \<longrightarrow> n \<notin> set (hot_pages c) \<union> set (cold_pages c) \<and> (\<forall>q \<in> set (hot_pages c). q < n \<or> p \<le> q))
         \<and> (\<not> d \<and> mset (hot_list c) = add_mset ((b, p), z) (mset (hot_list c')) \<and> cold_list c' = cold_list c
          \<or> mset (cold_list c) = add_mset ((b, p), z, d) (mset (cold_list c')) \<and> hot_list c' = hot_list c
            \<and> (p \<noteq> n \<longrightarrow> (\<forall>q \<in> set (hot_pages c). q < n) \<and> (\<forall>q \<in> set (cold_pages c). q < n \<or> p \<le> q))))"
proof -
  note pn = pages_nth [OF assms(1)]
  show ?thesis
    using assms
  proof (cases rule: take_fit_choice)
    case (hot i t)
    obtain b p z d where t: "t = (b, p, z, d)" by (cases t)
    note k = remove_hot_correct [OF assms(1) hot(1) hot(2) [unfolded t]]
    have i: "i < length (hot_list c)" "hot_pages c ! i = p" using pn(1) hot(1) k(1) by (auto simp: hot_pages_def)
    then have "mset (hot_list c) = add_mset ((b, p), z) (mset (hot_list c'))"
      using mset_swap_remove_Cons [OF i(1)] k(1,3) by simp
    then show ?thesis using k hot(3,4) i(2) by (auto simp: t best_hot_def not_less)
  next
    case (cold i t)
    obtain b p z d where t: "t = (b, p, z, d)" by (cases t)
    note k = remove_cold_correct [OF assms(1) cold(1) cold(2) [unfolded t]]
    have i: "i < length (cold_list c)" "cold_pages c ! i = p" using pn(2) cold(1) k(1) by (auto simp: cold_pages_def)
    then have "mset (cold_list c) = add_mset ((b, p), z, d) (mset (cold_list c'))"
      using mset_swap_remove_Cons [OF i(1)] k(1,2) by simp
    then show ?thesis using k cold(3,4) i(2) by (auto simp: t best_cold_def not_less)
  next
    case none
    then show ?thesis using assms(1) by simp
  qed
qed

definition demo_shard :: large_cache where
  "demo_shard = snd (park_large \<lparr> physical = True, zeroed = True \<rparr> large_cache_new 65536 3 (3 * PAGE_SIZE))"

lemma demo_shard_ok: "cache_ok demo_shard" "hot_list demo_shard = [((65536, 3), False)]" "cold_list demo_shard = []"
proof -
  have d: "demo_shard = park_hot large_cache_new 65536 3 (3 * PAGE_SIZE)"
    by (simp add: demo_shard_def park_large_def large_cache_new_def const_simps)
  have n: "lc_len large_cache_new < LARGE_SHARD_SLOTS" by (simp add: large_cache_new_def const_simps)
  show h: "hot_list demo_shard = [((65536, 3), False)]" "cold_list demo_shard = []"
    using park_hot_lists [OF cache_ok_new n, of 65536 3 "3 * PAGE_SIZE"] by (simp_all add: d)
      (simp_all add: hot_list_def cold_list_def large_cache_new_def)
  show "cache_ok demo_shard"
    unfolding d by (rule park_hot_ok [OF cache_ok_new n]) (simp add: large_cache_new_def const_simps)
qed

theorem take_fit_correct_witness:
  "case take_fit demo_shard (2 * PAGE_SIZE) of (r, c') \<Rightarrow> cache_ok c' \<and> (r = None \<or> r = Some (65536, 3, False, False))"
proof -
  obtain r c' where t: "take_fit demo_shard (2 * PAGE_SIZE) = (r, c')" by (cases "take_fit demo_shard (2 * PAGE_SIZE)") auto
  show ?thesis
    using take_fit_correct [OF demo_shard_ok(1) _ t]
    by (auto simp: t demo_shard_ok(2,3) split: option.splits)
qed

section \<open>A shard is a pool\<close>

definition shard_regions :: "large_cache \<Rightarrow> region multiset" where
  "shard_regions c = mset (map fst (hot_list c)) + mset (map fst (cold_list c))"

definition shard_take :: "large_cache \<Rightarrow> nat \<Rightarrow> region option \<times> large_cache" where
  "shard_take c n = (let (r, c') = take_fit c (n * PAGE_SIZE) in (map_option (\<lambda>(b, p, z, d). (b, p)) r, c'))"

definition shard_put :: "discarded \<Rightarrow> large_cache \<Rightarrow> region \<Rightarrow> bool \<times> large_cache" where
  "shard_put disc c x = (let (f, c') = park_large disc c (fst x) (snd x) (snd x * PAGE_SIZE) in (f = Kept, c'))"

lemma shard_regions_pages: "snd ` set_mset (shard_regions c) = set (hot_pages c) \<union> set (cold_pages c)"
  by (simp add: shard_regions_def hot_pages_def cold_pages_def image_Un image_image)

lemma remove_regions:
  assumes "cache_ok c"
  shows "i < lc_len c \<Longrightarrow> remove_hot c i = (t, c') \<Longrightarrow>
      cache_ok c' \<and> fst (snd t) = hot_pages c ! i \<and> shard_regions c = shard_regions c' + {#(fst t, fst (snd t))#}"
    and "i < cold_len c \<Longrightarrow> remove_cold c i = (t, c') \<Longrightarrow>
      cache_ok c' \<and> fst (snd t) = cold_pages c ! i \<and> shard_regions c = shard_regions c' + {#(fst t, fst (snd t))#}"
proof -
  note pn = pages_nth [OF assms(1)]
  obtain b p z d where t: "t = (b, p, z, d)" by (cases t)
  {
    assume h: "i < lc_len c" "remove_hot c i = (t, c')"
    note k = remove_hot_correct [OF assms(1) h(1) h(2) [unfolded t]]
    have i: "i < length (hot_list c)" "hot_pages c ! i = p" using pn(1) h(1) k(1) by (auto simp: hot_pages_def)
    have "mset (map fst (hot_list c)) = add_mset (b, p) (mset (map fst (hot_list c')))"
      using mset_swap_remove_Cons [OF i(1)] k(1,3) by simp
    then show "cache_ok c' \<and> fst (snd t) = hot_pages c ! i \<and> shard_regions c = shard_regions c' + {#(fst t, fst (snd t))#}"
      using k(5) i(2) by (simp add: shard_regions_def k(4) t)
  next
    assume h: "i < cold_len c" "remove_cold c i = (t, c')"
    note k = remove_cold_correct [OF assms(1) h(1) h(2) [unfolded t]]
    have i: "i < length (cold_list c)" "cold_pages c ! i = p" using pn(2) h(1) k(1) by (auto simp: cold_pages_def)
    have "mset (map fst (cold_list c)) = add_mset (b, p) (mset (map fst (cold_list c')))"
      using mset_swap_remove_Cons [OF i(1)] k(1,2) by simp
    then show "cache_ok c' \<and> fst (snd t) = cold_pages c ! i \<and> shard_regions c = shard_regions c' + {#(fst t, fst (snd t))#}"
      using k(4) i(2) by (simp add: shard_regions_def k(3) t)
  }
qed

lemma shard_take_law:
  assumes "cache_ok c" "n < 2 ^ 32" "shard_take c n = (r, c')"
  shows "cache_ok c' \<and> shard_regions c = shard_regions c' + (case r of None \<Rightarrow> {#} | Some x \<Rightarrow> {#x#})
      \<and> (case r of None \<Rightarrow> \<forall>x \<in># shard_regions c. snd x < n
         | Some x \<Rightarrow> n \<le> snd x \<and> (snd x = n \<or> (\<forall>y \<in># shard_regions c. snd y \<noteq> n)))"
proof -
  obtain q where q: "take_fit c (n * PAGE_SIZE) = (q, c')" "r = map_option (\<lambda>(b, p, z, d). (b, p)) q"
    using assms(3) by (cases "take_fit c (n * PAGE_SIZE)") (auto simp: shard_take_def)
  have sizes: "(\<forall>y \<in># shard_regions c. P (snd y)) \<longleftrightarrow> (\<forall>p \<in> set (hot_pages c) \<union> set (cold_pages c). P p)" for P
    unfolding shard_regions_pages [symmetric] by auto
  from assms(1,2) q(1) show ?thesis
  proof (cases rule: take_fit_choice)
    case (hot i t)
    then have "p = n \<or> (\<forall>y \<in># shard_regions c. snd y \<noteq> n)" if "p = hot_pages c ! i" for p
      using sizes [of "\<lambda>x. x \<noteq> n"] that by (auto simp: best_hot_def)
    then show ?thesis using hot(3,4) remove_regions(1) [OF assms(1) hot(1,2)] q(2) by (cases t) (auto simp: best_hot_def)
  next
    case (cold i t)
    then have "p = n \<or> (\<forall>y \<in># shard_regions c. snd y \<noteq> n)" if "p = cold_pages c ! i" for p
      using sizes [of "\<lambda>x. x \<noteq> n"] that by (auto simp: best_cold_def)
    then show ?thesis using cold(3,4) remove_regions(2) [OF assms(1) cold(1,2)] q(2) by (cases t) (auto simp: best_cold_def)
  next
    case none
    then show ?thesis using assms(1) q(2) sizes [of "\<lambda>x. x < n"] by simp
  qed
qed

text \<open>A request of any size: the searches for an exact size compare 32 bits, so a region found may be too
  small for a request of \<open>2 ^ 32\<close> pages or more; the caller checks the fit.\<close>

lemma take_fit_any:
  assumes "cache_ok c" "take_fit c (n * PAGE_SIZE) = (r, c')"
  shows "cache_ok c' \<and> (case r of None \<Rightarrow> shard_regions c' = shard_regions c
     | Some (b, p, z, d) \<Rightarrow> shard_regions c = shard_regions c' + {#(b, p)#} \<and> n mod 2 ^ 32 \<le> p)"
proof -
  note pn = pages_nth [OF assms(1)]
  let ?w = "n mod 2 ^ 32"
  let ?good = "\<lambda>r c'. cache_ok c' \<and> (case r of None \<Rightarrow> shard_regions c' = shard_regions c
     | Some (b, p, z, d) \<Rightarrow> shard_regions c = shard_regions c' + {#(b, p)#} \<and> ?w \<le> p)"
  have w: "n * PAGE_SIZE div PAGE_SIZE mod 2 ^ 32 = ?w" by (simp add: PAGE_SIZE_def)
  have hotI: "?good r c'" if "(let (t, d) = remove_hot c i in (Some t, d)) = (r, c')" "i < lc_len c \<and> ?w \<le> hot_pages c ! i" for i
    using that remove_regions(1) [OF assms(1), of i] by (cases "remove_hot c i") (auto split: prod.splits)
  have coldI: "?good r c'" if "(let (t, d) = remove_cold c i in (Some t, d)) = (r, c')" "i < cold_len c \<and> ?w \<le> cold_pages c ! i" for i
    using that remove_regions(2) [OF assms(1), of i] by (cases "remove_cold c i") (auto split: prod.splits)
  have e: "exact_hot c ?w = Some i \<Longrightarrow> i < lc_len c \<and> ?w \<le> hot_pages c ! i"
    "exact_cold c ?w = Some i \<Longrightarrow> i < cold_len c \<and> ?w \<le> cold_pages c ! i" for i
    using exact_index [OF assms(1)] by auto
  have f: "List.find (\<lambda>i. snd (lc_entries c ! i) = ?w) [0..<lc_len c] = Some i \<Longrightarrow> i < lc_len c \<and> ?w \<le> hot_pages c ! i"
    "List.find (\<lambda>i. snd (cold_entries c ! i) = ?w) [0..<cold_len c] = Some i \<Longrightarrow> i < cold_len c \<and> ?w \<le> cold_pages c ! i" for i
    using tier_searches(1) [OF pn(1) pn(3), of ?w] tier_searches(1) [OF pn(2) pn(4), of ?w] by auto
  have g: "fit_scan (lc_entries c) (n * PAGE_SIZE) [0..<lc_len c] None = Some i \<Longrightarrow> i < lc_len c \<and> ?w \<le> hot_pages c ! i"
    "fit_scan (cold_entries c) (n * PAGE_SIZE) [0..<cold_len c] None = Some i \<Longrightarrow> i < cold_len c \<and> ?w \<le> cold_pages c ! i" for i
    using tier_searches(2) [OF pn(1) pn(3), of n] tier_searches(2) [OF pn(2) pn(4), of n] le_trans [OF mod_less_eq_dividend [of n "2 ^ 32"]]
    by auto
  note t = assms(2) [unfolded take_fit_def w Let_def [of ?w] Let_def [of "\<lambda>i. _ i"]]
  have none: "?good r c'" if "(None, c) = (r, c')" using that assms(1) by auto
  show ?thesis
    using t by (elim hotI coldI e f g none | simp only: option.case split: option.split_asm)+
qed

lemma shard_put_law:
  assumes "cache_ok c" "shard_put disc c x = (kept, c')"
  shows "cache_ok c' \<and> shard_regions c' = shard_regions c + (if kept then {#x#} else {#})"
proof -
  obtain b p where x: "x = (b, p)" by (cases x)
  obtain f where f: "park_large disc c b p (p * PAGE_SIZE) = (f, c')" "kept = (f = Kept)"
    using assms(2) by (cases "park_large disc c b p (p * PAGE_SIZE)") (auto simp: shard_put_def x)
  show ?thesis
    using f assms(1) park_hot_ok [OF assms(1), of p b] park_cold_ok [OF assms(1), of p disc b]
      park_hot_lists [OF assms(1), of b p "p * PAGE_SIZE"] park_cold_lists [OF assms(1), of disc b p "p * PAGE_SIZE"]
    by (auto simp: park_large_def shard_regions_def x split: if_splits)
qed

interpretation shard: region_pool cache_ok shard_regions shard_take "shard_put disc" for disc
  by unfold_locales (erule shard_take_law, assumption, assumption, erule shard_put_law, assumption)

end
