(* ===== verification/Large_Region.thy ===== *)
theory Large_Region
  imports Slice_Ownership Large_Registry Large_Cache Large_Stash
begin

text \<open>
  Large regions (\<open>src/src/lib.rs\<close>, \<open>alloc_large_ex\<close>, \<open>free_large\<close>, \<open>try_grow_large_frontier\<close> and what they
  call): a block preceded by a \<open>LargeHeader\<close> inside a region that comes from the calling thread's stash, a
  shard of the recycle cache, the arena or the kernel.

  The state gathers what the functions share: the headers in memory, the registry, the arena with its side
  table, the shards, the stash of every thread, and the counters.  What the outside answers in one call is a
  \<open>large_env\<close>: the calling thread (its index and the address of its cache, \<open>None\<close> when it has none), and the
  kernel's answers to a commit, a reservation, a mapping, the two purges and an unmapping.  The functions
  are transcribed as one step each; the walks of the registry are partial, so \<open>free_large\<close> and the lookup
  return options.  \<open>arm_exit_hook\<close> and the telemetry have no effect here.
\<close>

section \<open>State\<close>

record large_env =
  le_ok :: "addr \<Rightarrow> nat \<Rightarrow> bool"
  le_raw :: "addr option"
  le_map :: "addr option"
  le_handoff :: discarded
  le_park :: discarded
  le_unmap :: bool
  le_tls :: "(nat \<times> addr) option"

record large_state =
  g_hdrs :: large_headers
  g_registry :: registry
  g_arena :: arena
  g_map :: big_map
  g_shards :: "large_cache list"
  g_stashes :: "stash list"
  g_mapped_pages :: nat
  g_map_calls :: nat
  g_unmap_calls :: nat

section \<open>Headers and the registry\<close>

definition init_large_header :: "large_state \<Rightarrow> addr \<Rightarrow> addr \<Rightarrow> nat \<Rightarrow> nat \<Rightarrow> large_state" where
  "init_large_header s hdr base mapped requested =
     s\<lparr>g_hdrs := (g_hdrs s)(hdr := \<lparr> l_magic = LARGE_MAGIC, mapped_size = mapped, l_base = base,
                                     requested_size = requested, registry_next = null \<rparr>)\<rparr>"

definition register_large_region :: "large_state \<Rightarrow> addr \<Rightarrow> nat \<Rightarrow> addr \<Rightarrow> large_state" where
  "register_large_region s base mapped hdr =
     (if contains (g_arena s) base mapped
      then s\<lparr>g_map := large_table_set (g_arena s) (g_map s) base ((mapped div PAGE_SIZE) mod 2 ^ 32) hdr\<rparr>
      else
        let (h, rg) = register_legacy_large (g_hdrs s, g_registry s) hdr
        in s\<lparr>g_hdrs := h, g_registry := rg\<rparr>)"

definition unregister_large_region :: "large_state \<Rightarrow> addr \<Rightarrow> nat \<Rightarrow> addr \<Rightarrow> large_state option" where
  "unregister_large_region s base mapped hdr =
     (if contains (g_arena s) base mapped
      then Some (s\<lparr>g_map := large_table_clear (g_arena s) (g_map s) base ((mapped div PAGE_SIZE) mod 2 ^ 32)\<rparr>)
      else
        case unregister_legacy_large (g_hdrs s, g_registry s) hdr of
          None \<Rightarrow> None
        | Some (h, rg) \<Rightarrow> Some (s\<lparr>g_hdrs := h, g_registry := rg\<rparr>))"

text \<open>The validation of a header: magic, size and position.  \<open>off\<close> is \<open>p.wrapping_sub(base)\<close>.\<close>

definition large_header_of :: "large_state \<Rightarrow> addr \<Rightarrow> (addr \<times> nat) option" where
  "large_header_of s p =
     (if p < LARGE_HEADER_SIZE then None
      else if (p - LARGE_HEADER_SIZE) mod MIN_ALIGN \<noteq> 0 then None
      else
        let hdr = g_hdrs s (p - LARGE_HEADER_SIZE); mapped = mapped_size hdr; off = sub_w 64 p (l_base hdr)
        in if l_magic hdr \<noteq> LARGE_MAGIC then None
           else if mapped < LARGE_HEADER_SIZE \<or> mapped mod PAGE_SIZE \<noteq> 0 then None
           else if off = 0 \<or> mapped \<le> off then None
           else Some (l_base hdr, mapped))"

definition large_region_known :: "large_state \<Rightarrow> addr \<Rightarrow> bool option" where
  "large_region_known s p =
     (if contains (g_arena s) p 1 then Some (large_table_get (g_arena s) (g_map s) p \<noteq> null)
      else
        case legacy_large_contains (g_hdrs s, g_registry s) p of
          None \<Rightarrow> None
        | Some known \<Rightarrow> Some (known \<and> large_header_of s p \<noteq> None))"

section \<open>Regions from and to the system\<close>

definition map_large_region :: "large_env \<Rightarrow> large_state \<Rightarrow> nat \<Rightarrow> (addr \<times> bool) \<times> large_state" where
  "map_large_region e s mapped =
     (let ((base, fresh), a) = commit (le_ok e) (le_raw e) (g_arena s) (mapped div PAGE_SIZE);
          s1 = s\<lparr>g_arena := a\<rparr>
      in if base \<noteq> null then ((base, fresh), s1)
         else let base = map_any (le_map e) in ((base, base \<noteq> null), s1))"

definition unmap_or_return :: "large_env \<Rightarrow> large_state \<Rightarrow> addr \<Rightarrow> nat \<Rightarrow> bool \<times> large_state" where
  "unmap_or_return e s base mapped =
     (if contains (g_arena s) base mapped
      then (True, s\<lparr>g_arena := fst (release (g_arena s) base (mapped div PAGE_SIZE))\<rparr>)
      else (False, if le_unmap e
                   then s\<lparr>g_mapped_pages := sub_w 64 (g_mapped_pages s) 1, g_unmap_calls := add_w 64 (g_unmap_calls s) 1\<rparr>
                   else s))"

text \<open>The recommit is a no-op on unix, so a purge for handoff leaves nothing but its verdict.\<close>

definition purge_for_handoff :: "large_env \<Rightarrow> bool" where
  "purge_for_handoff e = zeroed (le_handoff e)"

section \<open>Allocation\<close>

text \<open>The size of the region: every sum is checked, then rounded up to whole pages.\<close>

definition large_mapped :: "nat \<Rightarrow> nat \<Rightarrow> nat \<Rightarrow> nat option" where
  "large_mapped sz align slack =
     (case checked_add sz align of None \<Rightarrow> None | Some v \<Rightarrow>
      (case checked_add v LARGE_HEADER_SIZE of None \<Rightarrow> None | Some v \<Rightarrow>
      (case checked_add v slack of None \<Rightarrow> None | Some tot \<Rightarrow>
      (case checked_add (max tot LARGE_HEADER_SIZE) (PAGE_SIZE - 1) of None \<Rightarrow> None | Some v \<Rightarrow>
         Some (mask_down PAGE_SIZE v)))))"

text \<open>The block inside a region, and the test that it fits; machine additions.\<close>

definition block_in :: "addr \<Rightarrow> nat \<Rightarrow> addr" where
  "block_in base align = align_up (add_w 64 base LARGE_HEADER_SIZE) align"

definition block_fits :: "addr \<Rightarrow> nat \<Rightarrow> nat \<Rightarrow> nat \<Rightarrow> bool" where
  "block_fits base region_size sz align \<longleftrightarrow> add_w 64 (block_in base align) sz \<le> add_w 64 base region_size"

definition hand_out :: "large_state \<Rightarrow> addr \<Rightarrow> nat \<Rightarrow> nat \<Rightarrow> nat \<Rightarrow> large_state" where
  "hand_out s base region_size sz align =
     (let hdr = block_in base align - LARGE_HEADER_SIZE
      in register_large_region (init_large_header s hdr base region_size sz) base region_size hdr)"

definition large_from_stash :: "large_env \<Rightarrow> large_state \<Rightarrow> nat \<Rightarrow> nat \<Rightarrow> bool \<Rightarrow> nat \<Rightarrow>
    ((addr \<times> bool \<times> bool) option \<times> nat) \<times> large_state" where
  "large_from_stash e s sz align zeroed_requested mapped_pages =
     (let (stashed, salt, s1) =
        (case le_tls e of
           None \<Rightarrow> (None, 0, s)
         | Some (i, salt) \<Rightarrow>
             let (r, st) = take_large_stash (g_stashes s ! i) mapped_pages
             in (r, salt, s\<lparr>g_stashes := (g_stashes s)[i := st]\<rparr>))
      in case stashed of
           None \<Rightarrow> ((None, salt), s1)
         | Some (base, pages) \<Rightarrow>
             let region_size = pages * PAGE_SIZE
             in if block_fits base region_size sz align
                then ((Some (block_in base align, False, zeroed_requested \<and> purge_for_handoff e), salt),
                      hand_out s1 base region_size sz align)
                else ((None, salt), snd (unmap_or_return e s1 base region_size)))"

definition large_from_shard :: "large_env \<Rightarrow> large_state \<Rightarrow> nat \<Rightarrow> nat \<Rightarrow> bool \<Rightarrow> nat \<Rightarrow> nat \<Rightarrow>
    (addr \<times> bool \<times> bool) option \<times> large_state" where
  "large_from_shard e s sz align zeroed_requested mapped salt =
     (let j = large_shard ((mapped div PAGE_SIZE) mod 2 ^ 32) salt;
          (taken, c) = take_fit (g_shards s ! j) mapped;
          s1 = s\<lparr>g_shards := (g_shards s)[j := c]\<rparr>
      in case taken of
           None \<Rightarrow> (None, s1)
         | Some (base, pages, z, decommitted) \<Rightarrow>
             let region_size = pages * PAGE_SIZE
             in if block_fits base region_size sz align
                then (Some (block_in base align, False, if zeroed_requested \<and> \<not> z then purge_for_handoff e else z),
                      hand_out s1 base region_size sz align)
                else (None, snd (unmap_or_return e s1 base region_size)))"

definition large_from_map :: "large_env \<Rightarrow> large_state \<Rightarrow> nat \<Rightarrow> nat \<Rightarrow> nat \<Rightarrow> (addr \<times> bool \<times> bool) \<times> large_state" where
  "large_from_map e s sz align mapped =
     (let ((base, fresh), s1) = map_large_region e s mapped
      in if base = null then ((null, False, False), s1)
         else
           let s2 = (if fresh then s1\<lparr>g_mapped_pages := add_w 64 (g_mapped_pages s1) 1\<rparr> else s1);
               s3 = s2\<lparr>g_map_calls := add_w 64 (g_map_calls s2) 1\<rparr>
           in if \<not> block_fits base mapped sz align
              then ((null, False, False), snd (unmap_or_return e s3 base mapped))
              else ((block_in base align, True, True), hand_out s3 base mapped sz align))"

text \<open>The two cache tiers in turn, and the whole: a served tier ends the call.\<close>

definition large_from_caches :: "large_env \<Rightarrow> large_state \<Rightarrow> nat \<Rightarrow> nat \<Rightarrow> bool \<Rightarrow> nat \<Rightarrow> (addr \<times> bool \<times> bool) option \<times> large_state" where
  "large_from_caches e s sz align zeroed_requested mapped =
     (case large_from_stash e s sz align zeroed_requested ((mapped div PAGE_SIZE) mod 2 ^ 32) of
        ((Some r, _), s1) \<Rightarrow> (Some r, s1)
      | ((None, salt), s1) \<Rightarrow> large_from_shard e s1 sz align zeroed_requested mapped salt)"

definition alloc_large_ex :: "large_env \<Rightarrow> large_state \<Rightarrow> nat \<Rightarrow> nat \<Rightarrow> bool \<Rightarrow> nat \<Rightarrow> (addr \<times> bool \<times> bool) \<times> large_state" where
  "alloc_large_ex e s sz align zeroed_requested slack =
     (case large_mapped sz align slack of
        None \<Rightarrow> ((null, False, False), s)
      | Some mapped \<Rightarrow>
          (case large_from_caches e s sz align zeroed_requested mapped of
             (Some r, s1) \<Rightarrow> (r, s1)
           | (None, s1) \<Rightarrow> large_from_map e s1 sz align mapped))"

definition alloc_large :: "large_env \<Rightarrow> large_state \<Rightarrow> nat \<Rightarrow> nat \<Rightarrow> addr \<times> large_state" where
  "alloc_large e s sz align = (let ((p, _), s') = alloc_large_ex e s sz align False 0 in (p, s'))"

section \<open>Free\<close>

text \<open>The shards take what the stash declines; the system gets what they decline.\<close>

definition park_region :: "large_env \<Rightarrow> large_state \<Rightarrow> addr \<Rightarrow> nat \<Rightarrow> nat \<Rightarrow> nat \<Rightarrow> large_state" where
  "park_region e s base pages mapped salt =
     (let j = large_shard pages salt;
          (fate, c) = park_large (le_park e) (g_shards s ! j) base pages mapped;
          s1 = s\<lparr>g_shards := (g_shards s)[j := c]\<rparr>
      in (case fate of Kept \<Rightarrow> s1 | Unmap \<Rightarrow> snd (unmap_or_return e s1 base mapped)))"

text \<open>Callers pass the address of a block, which has a header in front of it.\<close>

definition free_large :: "large_env \<Rightarrow> large_state \<Rightarrow> addr \<Rightarrow> large_state option" where
  "free_large e s p =
     (let hdr = p - LARGE_HEADER_SIZE;
          mapped = mapped_size (g_hdrs s hdr);
          base = l_base (g_hdrs s hdr);
          pages = (mapped div PAGE_SIZE) mod 2 ^ 32
      in case unregister_large_region s base mapped hdr of
           None \<Rightarrow> None
         | Some s1 \<Rightarrow>
             let (stashed, salt, s2) =
               (case le_tls e of
                  None \<Rightarrow> (False, p, s1)
                | Some (i, salt) \<Rightarrow>
                    let (k, st) = push_large_stash (g_stashes s1 ! i) (base, pages)
                    in (k, salt, s1\<lparr>g_stashes := (g_stashes s1)[i := st]\<rparr>))
             in if stashed then Some s2 else Some (park_region e s2 base pages mapped salt))"

section \<open>Growth in place\<close>

definition pointer_alignment :: "addr \<Rightarrow> nat" where
  "pointer_alignment p = (if p = 0 then 1 else unat ((word_of_nat p :: 64 word) AND - word_of_nat p))"

definition try_grow_large_frontier :: "large_env \<Rightarrow> large_state \<Rightarrow> addr \<Rightarrow> nat \<Rightarrow> (bool \<times> large_state) option" where
  "try_grow_large_frontier e s p sz =
     (if \<not> contains (g_arena s) p 1 then Some (False, s)
      else
        case large_region_known s p of
          None \<Rightarrow> None
        | Some False \<Rightarrow> Some (False, s)
        | Some True \<Rightarrow>
            let hdr = p - LARGE_HEADER_SIZE; h = g_hdrs s hdr; old_mapped = mapped_size h
            in case large_header_of s p of
                 None \<Rightarrow> Some (False, s)
               | Some (_, validated) \<Rightarrow>
                   if validated \<noteq> old_mapped then Some (False, s)
                   else if old_mapped < sub_w 64 p (l_base h) then Some (False, s)
                   else
                     let capacity = old_mapped - sub_w 64 p (l_base h)
                     in if sz \<le> requested_size h then Some (False, s)
                        else if sz \<le> capacity
                        then Some (True, s\<lparr>g_hdrs := (g_hdrs s)(hdr := h\<lparr>requested_size := sz\<rparr>)\<rparr>)
                        else
                          (case checked_add sz (pointer_alignment p) of None \<Rightarrow> Some (False, s) | Some v \<Rightarrow>
                          (case checked_add v LARGE_HEADER_SIZE of None \<Rightarrow> Some (False, s) | Some tot \<Rightarrow>
                             let new_mapped = mask_down PAGE_SIZE (add_w 64 (max tot LARGE_HEADER_SIZE) (PAGE_SIZE - 1));
                                 old_pages = old_mapped div PAGE_SIZE; new_pages = new_mapped div PAGE_SIZE
                             in if new_mapped \<le> old_mapped \<or> 2 ^ 32 \<le> new_pages - old_pages then Some (False, s)
                                else
                                  let (grew, a) = grow_frontier (le_ok e) (g_arena s) (l_base h) old_pages new_pages;
                                      s1 = s\<lparr>g_arena := a\<rparr>
                                  in if \<not> grew then Some (False, s1)
                                     else Some (True, s1\<lparr>
                                       g_hdrs := (g_hdrs s)(hdr := h\<lparr>mapped_size := new_mapped, requested_size := sz\<rparr>),
                                       g_map := large_table_set a (g_map s) (l_base h + old_mapped) (new_pages - old_pages) hdr,
                                       g_map_calls := add_w 64 (g_map_calls s) 1\<rparr>))))"

end
