(* ===== verification/Large_Safety.thy ===== *)
theory Large_Safety
  imports Large_Region
begin

text \<open>
  Why no two large blocks overlap.  Every region is at any time in exactly one place: behind a live block,
  in a stash, in a shard, or in the hands of the running operation (\<open>carry\<close>).  The regions inside the
  reservation are slices the arena has handed out and the blocks among them are registered in the side
  table; the regions outside are mappings, disjoint from each other and from the reservation, and the
  blocks among them are in the registry.  Slices and registrations of other owners (\<open>others\<close>, \<open>oregs\<close>) are
  a frame.  Each operation is a composition of small moves of a region from one place to another.
\<close>

section \<open>Places\<close>

lemma page_arena: "PAGE_SIZE = ARENA_ALIGN"
  by (simp add: const_simps)

definition block_header :: "large_state \<Rightarrow> addr \<Rightarrow> large_header" where
  "block_header s p = g_hdrs s (p - LARGE_HEADER_SIZE)"

definition block_region :: "large_state \<Rightarrow> addr \<Rightarrow> region" where
  "block_region s p = (l_base (block_header s p), mapped_size (block_header s p) div PAGE_SIZE)"

definition in_arena :: "arena \<Rightarrow> region \<Rightarrow> bool" where
  "in_arena a r \<longleftrightarrow> contains a (fst r) (snd r * PAGE_SIZE)"

definition idle :: "large_state \<Rightarrow> region multiset" where
  "idle s = sum_list (map shard_regions (g_shards s)) + sum_list (map (\<lambda>st. mset (stash_list st)) (g_stashes s))"

definition held :: "large_state \<Rightarrow> addr list \<Rightarrow> region multiset \<Rightarrow> region multiset" where
  "held s live carry = mset (map (block_region s) live) + idle s + carry"

abbreviation inside :: "large_state \<Rightarrow> region multiset \<Rightarrow> region multiset" where
  "inside s H \<equiv> filter_mset (in_arena (g_arena s)) H"

abbreviation outside :: "large_state \<Rightarrow> region multiset \<Rightarrow> region multiset" where
  "outside s H \<equiv> filter_mset (\<lambda>r. \<not> in_arena (g_arena s) r) H"

definition block_regs :: "large_state \<Rightarrow> addr list \<Rightarrow> (slice \<times> table_entry) list" where
  "block_regs s live = map (\<lambda>p. (block_region s p, Large_entry (p - LARGE_HEADER_SIZE)))
     (filter (\<lambda>p. in_arena (g_arena s) (block_region s p)) live)"

definition legacy_headers :: "large_state \<Rightarrow> addr list \<Rightarrow> addr set" where
  "legacy_headers s live = (\<lambda>p. p - LARGE_HEADER_SIZE) ` {p \<in> set live. \<not> in_arena (g_arena s) (block_region s p)}"

section \<open>The invariant\<close>

text \<open>The user half of the address space.\<close>

definition ADDRESS_LIMIT :: nat where [const_simps]: "ADDRESS_LIMIT = 2 ^ 47"

definition region_fine :: "region \<Rightarrow> bool" where
  "region_fine r \<longleftrightarrow> 0 < fst r \<and> 0 < snd r \<and> 16 dvd fst r \<and> fst r + snd r * PAGE_SIZE \<le> ADDRESS_LIMIT"

definition block_ok :: "large_state \<Rightarrow> addr \<Rightarrow> bool" where
  "block_ok s p \<longleftrightarrow>
     (let h = block_header s p
      in l_magic h = LARGE_MAGIC \<and> PAGE_SIZE dvd mapped_size h \<and> 16 dvd p
         \<and> l_base h + LARGE_HEADER_SIZE \<le> p \<and> p < l_base h + LARGE_HEADER_SIZE + pointer_alignment p
         \<and> p + requested_size h \<le> l_base h + mapped_size h
         \<and> p < l_base h + mapped_size h)"

definition outside_ok :: "large_state \<Rightarrow> region multiset \<Rightarrow> bool" where
  "outside_ok s H \<longleftrightarrow> (\<forall>x. mcover x (outside s H) \<le> 1
     \<and> (ar_start (g_arena s) \<le> x \<longrightarrow> x < ar_end (g_arena s) \<longrightarrow> mcover x (outside s H) = 0))"

definition caches_ok :: "large_state \<Rightarrow> bool" where
  "caches_ok s \<longleftrightarrow> length (g_shards s) = NUM_LARGE_SHARDS \<and> (\<forall>c \<in> set (g_shards s). cache_ok c)
     \<and> (\<forall>st \<in> set (g_stashes s). stash_ok st)"

definition large_ok :: "slice multiset \<Rightarrow> (slice \<times> table_entry) list \<Rightarrow> large_state \<Rightarrow> addr list \<Rightarrow> region multiset \<Rightarrow> bool" where
  "large_ok others oregs s live carry \<longleftrightarrow>
     tabled (g_arena s) (g_map s) (inside s (held s live carry) + others) (block_regs s live @ oregs)
     \<and> mset (map fst oregs) \<subseteq># others \<and> ar_end (g_arena s) \<le> ADDRESS_LIMIT
     \<and> outside_ok s (held s live carry) \<and> (\<forall>r \<in># held s live carry. region_fine r) \<and> caches_ok s
     \<and> registers (g_hdrs s, g_registry s) (legacy_headers s live) \<and> (\<forall>p \<in> set live. block_ok s p)"

lemma large_okD:
  assumes "large_ok others oregs s live carry"
  shows "tabled (g_arena s) (g_map s) (inside s (held s live carry) + others) (block_regs s live @ oregs)"
    "mset (map fst oregs) \<subseteq># others" "ar_end (g_arena s) \<le> ADDRESS_LIMIT"
    "outside_ok s (held s live carry)" "\<forall>r \<in># held s live carry. region_fine r" "caches_ok s"
    "registers (g_hdrs s, g_registry s) (legacy_headers s live)" "\<forall>p \<in> set live. block_ok s p"
  using assms by (simp_all add: large_ok_def)

lemma large_okI [inv_intros]:
  assumes "tabled (g_arena s) (g_map s) (inside s (held s live carry) + others) (block_regs s live @ oregs)"
    "mset (map fst oregs) \<subseteq># others" "ar_end (g_arena s) \<le> ADDRESS_LIMIT"
    "outside_ok s (held s live carry)" "\<forall>r \<in># held s live carry. region_fine r" "caches_ok s"
    "registers (g_hdrs s, g_registry s) (legacy_headers s live)" "\<forall>p \<in> set live. block_ok s p"
  shows "large_ok others oregs s live carry"
  using assms by (simp add: large_ok_def)

text \<open>The regions held, with those of the other owners, never cover an address twice.\<close>

lemma large_ok_cover:
  assumes "large_ok others oregs s live carry"
  shows "mcover x (held s live carry) + mcover x others \<le> 1"
proof -
  note ok = large_okD [OF assms]
  let ?H = "held s live carry" and ?a = "g_arena s"
  have split: "mcover x ?H = mcover x (inside s ?H) + mcover x (outside s ?H)"
    using multiset_partition [of ?H "in_arena ?a"] by (metis mcover_simps(3))
  have i: "mcover x (inside s ?H + others) \<le> 1" by (rule tabled_arena(5) [OF ok(1)])
  show ?thesis
  proof (cases "ar_start ?a \<le> x \<and> x < ar_end ?a")
    case True
    then show ?thesis using ok(4) i split by (simp add: outside_ok_def)
  next
    case False
    then have "mcover x (inside s ?H + others) = 0" using tabled_arena(6) [OF ok(1), of x] by auto
    then show ?thesis using ok(4) split by (simp add: outside_ok_def)
  qed
qed

text \<open>A block's header lies in its region.\<close>

lemma header_in_region:
  assumes "block_ok s p"
  shows "hit (p - LARGE_HEADER_SIZE) (block_region s p) = 1" "hit p (block_region s p) = 1"
    "LARGE_HEADER_SIZE \<le> p"
proof -
  let ?h = "block_header s p"
  have b: "PAGE_SIZE dvd mapped_size ?h" "l_base ?h + LARGE_HEADER_SIZE \<le> p" "p < l_base ?h + mapped_size ?h"
    using assms by (simp_all add: block_ok_def Let_def)
  then have "mapped_size ?h div PAGE_SIZE * ARENA_ALIGN = mapped_size ?h" by (simp add: page_arena)
  then show "hit (p - LARGE_HEADER_SIZE) (block_region s p) = 1" "hit p (block_region s p) = 1" "LARGE_HEADER_SIZE \<le> p"
    using b(2,3) by (auto simp: hit_def block_region_def LARGE_HEADER_SIZE_def)
qed

lemma sum_list_mset_update:
  fixes f :: "_ \<Rightarrow> 'a multiset"
  shows "i < length xs \<Longrightarrow> sum_list (map f (xs[i := x])) + f (xs ! i) = sum_list (map f xs) + f x"
proof (induction xs arbitrary: i)
  case (Cons y xs)
  then show ?case
  proof (cases i)
    case (Suc j)
    then show ?thesis using Cons.IH [of j] Cons.prems by (simp add: ac_simps)
  qed (simp add: ac_simps)
qed simp

lemma mset_exchange:
  fixes X :: "'a multiset"
  assumes "X' + A = X + B" "A + c = B + d"
  shows "Y + X' + Z + d = Y + X + Z + c"
proof (rule multiset_eqI)
  fix a
  show "count (Y + X' + Z + d) a = count (Y + X + Z + c) a"
    using arg_cong [OF assms(1), of "\<lambda>M. count M a"] arg_cong [OF assms(2), of "\<lambda>M. count M a"] by simp
qed

text \<open>An operation that only moves a region between the idle places and the caller.\<close>

lemma large_ok_move:
  assumes "large_ok others oregs s live carry"
    and "g_hdrs s' = g_hdrs s" "g_registry s' = g_registry s" "g_arena s' = g_arena s" "g_map s' = g_map s"
    and "caches_ok s'" "idle s' + carry' = idle s + carry"
  shows "large_ok others oregs s' live carry'"
proof -
  note ok = large_okD [OF assms(1)]
  have r: "block_region s' = block_region s" "block_header s' = block_header s"
    using assms(2) by (simp_all add: fun_eq_iff block_region_def block_header_def)
  have h: "held s' live carry' = held s live carry"
    using assms(7) r by (simp add: held_def add.assoc)
  have b: "block_ok s' p = block_ok s p" for p by (simp add: block_ok_def r)
  have o: "outside_ok s' (held s live carry) = outside_ok s (held s live carry)" by (simp add: outside_ok_def assms(4))
  show ?thesis
    using ok assms(2-6) by (intro large_okI) (simp_all add: h b o r block_regs_def legacy_headers_def)
qed

lemma stash_update_ok:
  assumes "caches_ok s" "i < length (g_stashes s)" "stash_ok st"
    "mset (stash_list (g_stashes s ! i)) + c = mset (stash_list st) + d"
  shows "caches_ok (s\<lparr>g_stashes := (g_stashes s)[i := st]\<rparr>)"
    "idle (s\<lparr>g_stashes := (g_stashes s)[i := st]\<rparr>) + d = idle s + c"
proof -
  show "caches_ok (s\<lparr>g_stashes := (g_stashes s)[i := st]\<rparr>)"
    using assms(1,3) set_update_subset_insert [of "g_stashes s" i st] by (auto simp: caches_ok_def)
  let ?f = "\<lambda>st. mset (stash_list st)"
  have "sum_list (map ?f ((g_stashes s)[i := st])) + ?f (g_stashes s ! i) = sum_list (map ?f (g_stashes s)) + ?f st"
    by (rule sum_list_mset_update [OF assms(2)])
  from mset_exchange [OF this assms(4), of "sum_list (map shard_regions (g_shards s))" "{#}"]
  show "idle (s\<lparr>g_stashes := (g_stashes s)[i := st]\<rparr>) + d = idle s + c" by (simp add: idle_def)
qed

lemma shard_update_ok:
  assumes "caches_ok s" "j < NUM_LARGE_SHARDS" "cache_ok c'"
    "shard_regions (g_shards s ! j) + c = shard_regions c' + d"
  shows "caches_ok (s\<lparr>g_shards := (g_shards s)[j := c']\<rparr>)"
    "idle (s\<lparr>g_shards := (g_shards s)[j := c']\<rparr>) + d = idle s + c"
proof -
  have l: "j < length (g_shards s)" using assms(1,2) by (simp add: caches_ok_def)
  show "caches_ok (s\<lparr>g_shards := (g_shards s)[j := c']\<rparr>)"
    using assms(1,3) set_update_subset_insert [of "g_shards s" j c'] by (auto simp: caches_ok_def)
  have "sum_list (map shard_regions ((g_shards s)[j := c'])) + shard_regions (g_shards s ! j)
      = sum_list (map shard_regions (g_shards s)) + shard_regions c'"
    by (rule sum_list_mset_update [OF l])
  from mset_exchange [OF this assms(4), of "{#}" "sum_list (map (\<lambda>st. mset (stash_list st)) (g_stashes s))"]
  show "idle (s\<lparr>g_shards := (g_shards s)[j := c']\<rparr>) + d = idle s + c" by (simp add: idle_def)
qed

section \<open>Moves\<close>

lemma held_add [simp]: "held s live (add_mset r c) = add_mset r (held s live c)"
  by (simp add: held_def)

lemma held_blocks: "mset (map (block_region s) live) \<subseteq># held s live c"
  by (simp add: held_def)

lemma block_regs_filter: "mset (map fst (block_regs s live)) = inside s (mset (map (block_region s) live))"
  by (induction live) (simp_all add: block_regs_def)

lemma block_regs_inside: "mset (map fst (block_regs s live)) \<subseteq># inside s (held s live c)"
  unfolding block_regs_filter by (rule multiset_filter_mono) (rule held_blocks)

lemma regs_inside:
  "mset (map fst oregs) \<subseteq># others \<Longrightarrow> mset (map fst (block_regs s live @ oregs)) \<subseteq># inside s (held s live c) + others"
  using subset_mset.add_mono [OF block_regs_inside] by fastforce

text \<open>Taking a region from an idle place, and putting one there.\<close>

lemma take_stash_move:
  assumes "large_ok others oregs s live carry" "i < length (g_stashes s)" "n < 2 ^ 32"
    "take_large_stash (g_stashes s ! i) n = (r, st)"
  shows "large_ok others oregs (s\<lparr>g_stashes := (g_stashes s)[i := st]\<rparr>) live
      (carry + (case r of None \<Rightarrow> {#} | Some x \<Rightarrow> {#x#}))"
    and "r = Some x \<Longrightarrow> n \<le> snd x"
proof -
  note ok = large_okD [OF assms(1)]
  have st: "stash_ok (g_stashes s ! i)" using ok(6) assms(2) by (simp add: caches_ok_def)
  note l = stash.take_law [OF st assms(3,4)]
  show "r = Some x \<Longrightarrow> n \<le> snd x" using l by simp
  have e: "mset (stash_list (g_stashes s ! i)) + carry
      = mset (stash_list st) + (carry + (case r of None \<Rightarrow> {#} | Some x \<Rightarrow> {#x#}))"
    using l by (simp add: ac_simps)
  show "large_ok others oregs (s\<lparr>g_stashes := (g_stashes s)[i := st]\<rparr>) live
      (carry + (case r of None \<Rightarrow> {#} | Some x \<Rightarrow> {#x#}))"
    by (rule large_ok_move [OF assms(1)]) (use stash_update_ok [OF ok(6) assms(2) _ e] l in simp_all)
qed

lemma put_stash_move:
  assumes "large_ok others oregs s live (add_mset x carry)" "i < length (g_stashes s)"
    "push_large_stash (g_stashes s ! i) x = (kept, st)"
  shows "large_ok others oregs (s\<lparr>g_stashes := (g_stashes s)[i := st]\<rparr>) live (if kept then carry else add_mset x carry)"
proof -
  note ok = large_okD [OF assms(1)]
  have st: "stash_ok (g_stashes s ! i)" using ok(6) assms(2) by (simp add: caches_ok_def)
  note l = stash.put_law [OF st assms(3)]
  have e: "mset (stash_list (g_stashes s ! i)) + add_mset x carry = mset (stash_list st) + (if kept then carry else add_mset x carry)"
    using l by simp
  show ?thesis
    by (rule large_ok_move [OF assms(1)]) (use stash_update_ok [OF ok(6) assms(2) _ e] l in simp_all)
qed

lemma take_shard_move:
  assumes "large_ok others oregs s live carry" "j < NUM_LARGE_SHARDS" "take_fit (g_shards s ! j) (n * PAGE_SIZE) = (r, c)"
  shows "large_ok others oregs (s\<lparr>g_shards := (g_shards s)[j := c]\<rparr>) live
      (case r of None \<Rightarrow> carry | Some (b, p, z, d) \<Rightarrow> add_mset (b, p) carry)"
    and "r = Some (b, p, z, d) \<Longrightarrow> n mod 2 ^ 32 \<le> p"
proof -
  note ok = large_okD [OF assms(1)]
  have c: "cache_ok (g_shards s ! j)" using ok(6) assms(2) by (simp add: caches_ok_def)
  note l = take_fit_any [OF c assms(3)]
  show "r = Some (b, p, z, d) \<Longrightarrow> n mod 2 ^ 32 \<le> p" using l by simp
  have e: "shard_regions (g_shards s ! j) + carry = shard_regions c + (case r of None \<Rightarrow> carry | Some (b, p, z, d) \<Rightarrow> add_mset (b, p) carry)"
    using l by (auto split: option.splits)
  show "large_ok others oregs (s\<lparr>g_shards := (g_shards s)[j := c]\<rparr>) live
      (case r of None \<Rightarrow> carry | Some (b, p, z, d) \<Rightarrow> add_mset (b, p) carry)"
    by (rule large_ok_move [OF assms(1)]) (use shard_update_ok [OF ok(6) assms(2) _ e] l in simp_all)
qed

lemma put_shard_move:
  assumes "large_ok others oregs s live (add_mset x carry)" "j < NUM_LARGE_SHARDS"
    "shard_put disc (g_shards s ! j) x = (kept, c)"
  shows "large_ok others oregs (s\<lparr>g_shards := (g_shards s)[j := c]\<rparr>) live (if kept then carry else add_mset x carry)"
proof -
  note ok = large_okD [OF assms(1)]
  have c: "cache_ok (g_shards s ! j)" using ok(6) assms(2) by (simp add: caches_ok_def)
  note l = shard.put_law [OF c assms(3)]
  have e: "shard_regions (g_shards s ! j) + add_mset x carry = shard_regions c + (if kept then carry else add_mset x carry)"
    using l by simp
  show ?thesis
    by (rule large_ok_move [OF assms(1)]) (use shard_update_ok [OF ok(6) assms(2) _ e] l in simp_all)
qed

text \<open>Changes of the arena inside its bounds.\<close>

lemma contains_same:
  assumes "same_bounds a a'" "arena_ok a" "arena_ok a'"
  shows "contains a' = contains a" "in_arena a' = in_arena a"
proof -
  have "ar_state a' = ar_state a" "ar_start a' = ar_start a" "ar_end a' = ar_end a"
    using assms by (simp_all add: same_bounds_def arena_ok_def)
  then show c: "contains a' = contains a" by (intro ext) (simp add: contains_def cong: option.case_cong)
  show "in_arena a' = in_arena a" by (intro ext) (simp add: in_arena_def c)
qed

lemma outside_ok_mono:
  assumes "outside_ok s H" "outside s' H' \<subseteq># outside s H" "same_bounds (g_arena s) (g_arena s')"
  shows "outside_ok s' H'"
proof -
  have le: "mcover x (outside s' H') \<le> mcover x (outside s H)" for x by (rule mcover_mono [OF assms(2)])
  have bounds: "ar_start (g_arena s') = ar_start (g_arena s)" "ar_end (g_arena s') = ar_end (g_arena s)"
    using assms(3) by (simp_all add: same_bounds_def)
  show ?thesis
    unfolding outside_ok_def
  proof (intro allI conjI impI)
    fix x
    have o: "mcover x (outside s H) \<le> 1"
      "ar_start (g_arena s) \<le> x \<longrightarrow> x < ar_end (g_arena s) \<longrightarrow> mcover x (outside s H) = 0"
      using assms(1) unfolding outside_ok_def by blast+
    show "mcover x (outside s' H') \<le> 1" by (rule le_trans [OF le o(1)])
    assume "ar_start (g_arena s') \<le> x" "x < ar_end (g_arena s')"
    then have "mcover x (outside s H) = 0" using o(2) bounds by simp
    then show "mcover x (outside s' H') = 0" using le [of x] by linarith
  qed
qed

lemma large_ok_arena:
  assumes "large_ok others oregs s live carry"
    and "tabled a' (g_map s) (inside s (held s live carry') + others) (block_regs s live @ oregs)"
    and "same_bounds (g_arena s) a'" "g_arena s' = a'" "g_map s' = g_map s" "g_hdrs s' = g_hdrs s"
      "g_registry s' = g_registry s" "g_shards s' = g_shards s" "g_stashes s' = g_stashes s"
    and "outside_ok s (held s live carry')" "\<forall>r \<in># held s live carry'. region_fine r"
  shows "large_ok others oregs s' live carry'"
proof -
  note ok = large_okD [OF assms(1)]
  have r: "block_region s' = block_region s" "block_header s' = block_header s" "idle s' = idle s"
    using assms(6,8,9) by (simp_all add: fun_eq_iff block_region_def block_header_def idle_def)
  have h: "held s' live carry' = held s live carry'" by (simp add: held_def r)
  have i: "in_arena a' = in_arena (g_arena s)"
    by (rule contains_same(2) [OF assms(3) tabled_arena(1) [OF ok(1)] tabled_arena(1) [OF assms(2)]])
  have bounds: "ar_start a' = ar_start (g_arena s)" "ar_end a' = ar_end (g_arena s)"
    using assms(3) by (simp_all add: same_bounds_def)
  have o: "outside_ok s' (held s live carry') = outside_ok s (held s live carry')"
    by (simp add: outside_ok_def i bounds assms(4))
  have b: "block_ok s' p = block_ok s p" for p by (simp add: block_ok_def r)
  have c: "caches_ok s'" using ok(6) assms(8,9) by (simp add: caches_ok_def)
  show ?thesis
    using ok assms(2,4-7,10,11) c
    by (intro large_okI) (simp_all add: h b o i r bounds block_regs_def legacy_headers_def)
qed

lemma unmap_move:
  assumes "large_ok others oregs s live (add_mset (b, n) carry)" "unmap_or_return e s b (n * PAGE_SIZE) = (k, s')"
  shows "large_ok others oregs s' live carry"
proof -
  note ok = large_okD [OF assms(1)]
  have fine: "\<forall>r \<in># held s live carry. region_fine r" using ok(5) by simp
  have out: "outside_ok s (held s live carry)" by (rule outside_ok_mono [OF ok(4)]) (simp_all add: same_bounds_def)
  show ?thesis
  proof (cases "contains (g_arena s) b (n * PAGE_SIZE)")
    case True
    then have i: "in_arena (g_arena s) (b, n)" by (simp add: in_arena_def)
    have s': "s' = s\<lparr>g_arena := fst (release (g_arena s) b n)\<rparr>" using assms(2) True by (simp add: unmap_or_return_def)
    have t: "tabled (g_arena s) (g_map s) (add_mset (b, n) (inside s (held s live carry) + others)) (block_regs s live @ oregs)"
      using ok(1) i by simp
    note rel = tabled_release [OF t regs_inside [OF ok(2)], simplified]
    show ?thesis by (rule large_ok_arena [OF assms(1) rel]) (use out fine s' in simp_all)
  next
    case False
    then have i: "\<not> in_arena (g_arena s) (b, n)" by (simp add: in_arena_def)
    have t: "tabled (g_arena s) (g_map s) (inside s (held s live carry) + others) (block_regs s live @ oregs)"
      using ok(1) i by simp
    have s': "g_arena s' = g_arena s" "g_map s' = g_map s" "g_hdrs s' = g_hdrs s" "g_registry s' = g_registry s"
      "g_shards s' = g_shards s" "g_stashes s' = g_stashes s"
      using assms(2) False by (auto simp: unmap_or_return_def)
    show ?thesis by (rule large_ok_arena [OF assms(1) t _ s']) (use out fine in \<open>simp_all add: same_bounds_def\<close>)
  qed
qed

text \<open>A region from the arena or the kernel.  What the kernel documents of an anonymous mapping: it is page
  aligned, in the user half of the address space, and apart from every mapping still in place.\<close>

definition maps_fresh :: "large_env \<Rightarrow> large_state \<Rightarrow> region multiset \<Rightarrow> nat \<Rightarrow> bool" where
  "maps_fresh e s H mapped \<longleftrightarrow>
     (\<forall>b. le_map e = Some b \<longrightarrow> 0 < b \<and> 16 dvd b \<and> b + mapped \<le> ADDRESS_LIMIT
        \<and> (\<forall>x. b \<le> x \<longrightarrow> x < b + mapped \<longrightarrow>
             mcover x (outside s H) = 0 \<and> \<not> (ar_start (g_arena s) \<le> x \<and> x < ar_end (g_arena s))))"

lemma map_move:
  assumes "large_ok others oregs s live carry" "0 < n" "maps_fresh e s (held s live carry) (n * PAGE_SIZE)"
    "map_large_region e s (n * PAGE_SIZE) = ((b, fresh), s')"
  shows "large_ok others oregs s' live (if b = null then carry else add_mset (b, n) carry)"
proof -
  note ok = large_okD [OF assms(1)]
  let ?a = "g_arena s" and ?H = "held s live carry"
  obtain base fr a' where c: "commit (le_ok e) (le_raw e) ?a n = ((base, fr), a')"
    by (cases "commit (le_ok e) (le_raw e) ?a n") auto
  note t = tabled_commit [OF ok(1) assms(2) c]
  note same = contains_same [OF t(2) tabled_arena(1) [OF ok(1)] tabled_arena(1) [OF t(1)]]
  have s': "g_arena s' = a'" "g_map s' = g_map s" "g_hdrs s' = g_hdrs s" "g_registry s' = g_registry s"
      "g_shards s' = g_shards s" "g_stashes s' = g_stashes s"
    and b: "b = (if base = null then map_any (le_map e) else base)"
    using assms(4) c by (auto simp: map_large_region_def Let_def split: if_splits)
  show ?thesis
  proof (cases "base = null")
    case False
    then have bn: "b \<noteq> null" "b = base" using b by auto
    have mem: "(b, n) \<in># add_mset (base, n) (inside s ?H + others)" by (simp add: bn)
    have sl: "slice_in a' (b, n)" "arena_ok a'" using tabled_arena [OF t(1)] False bn(2) by auto
    have i: "in_arena ?a (b, n)"
      using tabled_contains [OF t(1), of b n b "n * PAGE_SIZE"] False bn(2) same(1) by (simp add: in_arena_def page_arena)
    have "16 dvd ARENA_ALIGN" by (simp add: ARENA_ALIGN_def)
    then have "region_fine (b, n)"
      using sl t(2) ok(3) by (auto simp: region_fine_def slice_in_def arena_ok_def same_bounds_def page_arena intro: dvd_trans)
    then have fine: "\<forall>r \<in># held s live (add_mset (b, n) carry). region_fine r" using ok(5) by simp
    have out: "outside_ok s (held s live (add_mset (b, n) carry))"
      by (rule outside_ok_mono [OF ok(4)]) (use i in \<open>simp_all add: same_bounds_def\<close>)
    have "tabled a' (g_map s) (inside s (held s live (add_mset (b, n) carry)) + others) (block_regs s live @ oregs)"
      using t(1) False i bn(2) by simp
    then have "large_ok others oregs s' live (add_mset (b, n) carry)"
      by (rule large_ok_arena [OF assms(1) _ t(2) s' out fine])
    then show ?thesis using bn(1) by simp
  next
    case True
    have t': "tabled a' (g_map s) (inside s ?H + others) (block_regs s live @ oregs)" using t(1) True by simp
    show ?thesis
    proof (cases "le_map e")
      case None
      have "large_ok others oregs s' live carry" by (rule large_ok_arena [OF assms(1) t' t(2) s' ok(4,5)])
      then show ?thesis using None b True by (simp add: map_any_def)
    next
      case (Some m)
      then have m: "b = m" "0 < b" "16 dvd b" "b + n * PAGE_SIZE \<le> ADDRESS_LIMIT"
        "\<And>x. b \<le> x \<Longrightarrow> x < b + n * PAGE_SIZE \<Longrightarrow> mcover x (outside s ?H) = 0 \<and> \<not> (ar_start ?a \<le> x \<and> x < ar_end ?a)"
        using assms(3) b True by (auto simp: maps_fresh_def map_any_def)
      have "0 < n * PAGE_SIZE" using assms(2) by (simp add: PAGE_SIZE_def)
      then have "\<not> (ar_start ?a \<le> b \<and> b < ar_end ?a)" using m(5) [of b] by simp
      then have i: "\<not> in_arena ?a (b, n)"
        using \<open>0 < n * PAGE_SIZE\<close> by (auto simp: in_arena_def contains_def PAGE_SIZE_def split: option.splits)
      have out: "outside_ok s (held s live (add_mset (b, n) carry))"
        using ok(4) m(5) i by (auto simp: outside_ok_def hit_def page_arena)
      have fine: "\<forall>r \<in># held s live (add_mset (b, n) carry). region_fine r"
        using ok(5) m(2-4) assms(2) by (simp add: region_fine_def)
      have "tabled a' (g_map s) (inside s (held s live (add_mset (b, n) carry)) + others) (block_regs s live @ oregs)"
        using t' i by simp
      then have "large_ok others oregs s' live (add_mset (b, n) carry)"
        by (rule large_ok_arena [OF assms(1) _ t(2) s' out fine])
      then show ?thesis using m(2) by simp
    qed
  qed
qed

section \<open>Registration\<close>

lemma held_apart:
  assumes "large_ok others oregs s live carry" "r1 \<in># H" "r2 \<in># H - {#r1#}" "H \<subseteq># held s live carry"
  shows "\<not> (hit x r1 = 1 \<and> hit x r2 = 1)"
proof -
  have "mcover x H \<le> 1" using large_ok_cover [OF assms(1), of x] mcover_mono [OF assms(4), of x] by linarith
  moreover have "mcover x H = hit x r1 + mcover x (H - {#r1#})" using assms(2) by (metis insert_DiffM mcover_simps(2))
  ultimately show ?thesis using mcover_mem [OF assms(3), of x] by auto
qed

text \<open>Four of the five header fields; the fifth is the registry's link.\<close>

definition same_block :: "large_header \<Rightarrow> large_header \<Rightarrow> bool" where
  "same_block h h' \<longleftrightarrow> l_magic h' = l_magic h \<and> mapped_size h' = mapped_size h \<and> l_base h' = l_base h
     \<and> requested_size h' = requested_size h"

lemma region_frame:
  assumes "\<And>q. q \<in> set live \<Longrightarrow> block_region s' q = block_region s q" "g_arena s' = g_arena s"
    "g_shards s' = g_shards s" "g_stashes s' = g_stashes s"
  shows "held s' live c = held s live c" "block_regs s' live = block_regs s live" "legacy_headers s' live = legacy_headers s live"
    "caches_ok s' = caches_ok s" "outside_ok s' = outside_ok s"
proof -
  have "mset (map (block_region s') live) = mset (map (block_region s) live)"
    by (intro arg_cong [where f = mset] map_cong) (simp_all add: assms(1))
  then show "held s' live c = held s live c" unfolding held_def idle_def assms(3,4) by simp
  show "block_regs s' live = block_regs s live"
    unfolding block_regs_def assms(2) by (intro map_cong filter_cong) (simp_all add: assms(1))
  show "legacy_headers s' live = legacy_headers s live" using assms(1) by (auto simp: legacy_headers_def assms(2))
  show "caches_ok s' = caches_ok s" by (simp add: caches_ok_def assms(3,4))
  show "outside_ok s' = outside_ok s" by (simp add: outside_ok_def fun_eq_iff assms(2))
qed

lemma block_frame:
  assumes "\<forall>q \<in> set live. same_block (block_header s q) (block_header s' q)" "g_arena s' = g_arena s"
    "g_shards s' = g_shards s" "g_stashes s' = g_stashes s"
  shows "held s' live c = held s live c" "block_regs s' live = block_regs s live" "legacy_headers s' live = legacy_headers s live"
    "q \<in> set live \<Longrightarrow> block_ok s' q = block_ok s q" "caches_ok s' = caches_ok s" "q \<in> set live \<Longrightarrow> block_region s' q = block_region s q"
proof -
  have r: "block_region s' q = block_region s q" if "q \<in> set live" for q
    using assms(1) that by (simp add: block_region_def same_block_def)
  then show "q \<in> set live \<Longrightarrow> block_region s' q = block_region s q" .
  show "held s' live c = held s live c" "block_regs s' live = block_regs s live" "legacy_headers s' live = legacy_headers s live"
    "caches_ok s' = caches_ok s"
    by (rule region_frame [OF r assms(2-4)], assumption)+
  show "q \<in> set live \<Longrightarrow> block_ok s' q = block_ok s q" using assms(1) by (auto simp: block_ok_def same_block_def Let_def)
qed

lemma registers_frame:
  assumes "registers (h, rg) A" "\<And>x. x \<in> A \<Longrightarrow> registry_next (h' x) = registry_next (h x)"
  shows "registers (h', rg) A"
proof -
  obtain bl where bl: "registry_ok (h, rg) bl" "A = {x. x \<in> set (bl (legacy_bucket x))}" using assms(1) by (auto simp: registers_def)
  have "chain (links h') c (bl i)" if "i < LARGE_REGISTRY_BUCKETS" "chain (links h) c (bl i)" for c i
  proof (rule chain_cong [THEN iffD1, OF _ that(2)])
    fix x assume x: "x \<in> set (bl i)"
    then have "legacy_bucket x = i" by (rule in_bucket [OF bl(1) that(1)])
    then show "links h x = links h' x" using assms(2) x by (auto simp: bl(2))
  qed
  then have "registry_ok (h', rg) bl" using bl(1) by (auto simp: registry_ok_def)
  then show ?thesis using bl(2) unfolding registers_def by blast
qed

lemma registers_length:
  assumes "registers s A"
  shows "rg_len (snd s) = card A \<and> finite A"
proof -
  obtain bl where bl: "registry_ok s bl" "A = {x. x \<in> set (bl (legacy_bucket x))}" using assms by (auto simp: registers_def)
  have A: "A = (\<Union>i \<in> {..<LARGE_REGISTRY_BUCKETS}. set (bl i))"
    using in_bucket [OF bl(1)] legacy_bucket_less by (auto simp: bl(2))
  have "card A = (\<Sum>i < LARGE_REGISTRY_BUCKETS. card (set (bl i)))"
    unfolding A by (rule card_UN_disjoint) (use in_bucket [OF bl(1)] in auto)
  also have "\<dots> = (\<Sum>i < LARGE_REGISTRY_BUCKETS. length (bl i))"
    using bl(1) by (intro sum.cong) (auto simp: registry_ok_def distinct_card)
  finally show ?thesis using bl(1) by (simp add: registry_ok_def A)
qed

text \<open>Handing out a region the caller carries: header, registration, a new live block.\<close>

lemma new_header_apart:
  assumes "large_ok others oregs s live (add_mset (b, n) carry)" "b \<le> hdr" "hdr < b + n * PAGE_SIZE" "q \<in> set live"
  shows "q - LARGE_HEADER_SIZE \<noteq> hdr"
proof
  assume "q - LARGE_HEADER_SIZE = hdr"
  moreover have "hit hdr (b, n) = 1" using assms(2,3) by (simp add: hit_def page_arena)
  moreover have "hit (q - LARGE_HEADER_SIZE) (block_region s q) = 1"
    using large_okD(8) [OF assms(1)] assms(4) header_in_region(1) by blast
  moreover have "\<not> (hit hdr (b, n) = 1 \<and> hit hdr (block_region s q) = 1)"
  proof (rule held_apart [OF assms(1)])
    show "block_region s q \<in># mset (map (block_region s) live) + {#(b, n)#} - {#(b, n)#}" using assms(4) by simp
  qed (simp_all add: held_def subset_mset.add_increasing2)
  ultimately show False by simp
qed

lemma register_room:
  assumes "registers (h, rg) A" "A \<subseteq> {..<ADDRESS_LIMIT}"
  shows "registry_room (h, rg)"
proof -
  have "card A \<le> ADDRESS_LIMIT" using card_mono [OF _ assms(2)] by simp
  then show ?thesis using registers_length [OF assms(1)] by (simp add: registry_room_def ADDRESS_LIMIT_def)
qed

lemma legacy_headers_low: "large_ok others oregs s live carry \<Longrightarrow> legacy_headers s live \<subseteq> {..<ADDRESS_LIMIT}"
proof
  fix x assume ok: "large_ok others oregs s live carry" and "x \<in> legacy_headers s live"
  then obtain p where p: "p \<in> set live" "x = p - LARGE_HEADER_SIZE" by (auto simp: legacy_headers_def)
  have "hit x (block_region s p) = 1" using header_in_region(1) large_okD(8) [OF ok] p by blast
  moreover have "region_fine (block_region s p)" using large_okD(5) [OF ok] p(1) by (auto simp: held_def)
  ultimately show "x \<in> {..<ADDRESS_LIMIT}" by (auto simp: hit_def region_fine_def page_arena split: if_splits)
qed

lemma hand_out_move:
  assumes "large_ok others oregs s live (add_mset (b, n) carry)"
    and "block_in b align = p" "b + LARGE_HEADER_SIZE \<le> p" "16 dvd p" "p + sz \<le> b + n * PAGE_SIZE" "0 < sz"
    and "p < b + LARGE_HEADER_SIZE + pointer_alignment p"
    and "hand_out s b (n * PAGE_SIZE) sz align = s'"
  shows "large_ok others oregs s' (p # live) carry"
    and "same_block \<lparr> l_magic = LARGE_MAGIC, mapped_size = n * PAGE_SIZE, l_base = b, requested_size = sz, registry_next = null \<rparr>
      (block_header s' p)"
    and "q \<in> set live \<Longrightarrow> block_header s' q = block_header s q"
proof -
  note ok = large_okD [OF assms(1)]
  let ?hdr = "p - LARGE_HEADER_SIZE" and ?s1 = "init_large_header s (p - LARGE_HEADER_SIZE) b (n * PAGE_SIZE) sz"
  let ?new = "\<lparr> l_magic = LARGE_MAGIC, mapped_size = n * PAGE_SIZE, l_base = b, requested_size = sz, registry_next = null \<rparr>"
  have h: "b \<le> ?hdr" "?hdr < b + n * PAGE_SIZE" "p = ?hdr + LARGE_HEADER_SIZE"
    using assms(3,5,6) by (simp_all add: LARGE_HEADER_SIZE_def)
  have fine: "region_fine (b, n)" using ok(5) by simp
  then have bounds: "0 < b" "b + n * PAGE_SIZE \<le> 2 ^ 47" by (simp_all add: region_fine_def ADDRESS_LIMIT_def)
  have s': "s' = register_large_region ?s1 b (n * PAGE_SIZE) ?hdr" using assms(2,8) by (auto simp: hand_out_def Let_def)
  have reg: "g_arena s' = g_arena s" "g_shards s' = g_shards s" "g_stashes s' = g_stashes s"
      "\<And>a. a \<noteq> ?hdr \<Longrightarrow> g_hdrs s' a = g_hdrs s a" "same_block ?new (g_hdrs s' ?hdr)"
    by (auto simp: s' register_large_region_def init_large_header_def register_legacy_large_def same_block_def Let_def)
  show blk: "same_block ?new (block_header s' p)" using reg(5) by (simp add: block_header_def)
  have apart: "q - LARGE_HEADER_SIZE \<noteq> ?hdr" if "q \<in> set live" for q by (rule new_header_apart [OF assms(1) h(1,2) that])
  show same: "block_header s' q = block_header s q" if "q \<in> set live" for q
    using reg(4) apart [OF that] by (simp add: block_header_def)
  have "\<forall>q \<in> set live. same_block (block_header s q) (block_header s' q)" using same by (simp add: same_block_def)
  note fr = block_frame [OF this reg(1-3)]
  have br: "block_region s' p = (b, n)" using blk by (simp add: block_region_def same_block_def)
  have held: "held s' (p # live) carry = held s live (add_mset (b, n) carry)"
    using fr(1) [of carry] by (simp add: held_def br)
  have out: "outside_ok s' = outside_ok s" by (intro ext) (simp add: outside_ok_def reg(1))
  have bok: "block_ok s' p"
    using blk assms(3-7) by (simp add: block_ok_def same_block_def Let_def)
  let ?h1 = "(g_hdrs s)(?hdr := ?new)"
  have notin: "?hdr \<notin> legacy_headers s live"
  proof
    assume "?hdr \<in> legacy_headers s live"
    then obtain q where "q \<in> set live" "q - LARGE_HEADER_SIZE = ?hdr" by (auto simp: legacy_headers_def)
    then show False using apart [of q] by simp
  qed
  have r1: "registers (?h1, g_registry s) (legacy_headers s live)"
  proof (rule registers_frame [OF ok(7)])
    fix x assume "x \<in> legacy_headers s live"
    then have "x \<noteq> ?hdr" using notin by auto
    then show "registry_next (?h1 x) = registry_next (g_hdrs s x)" by simp
  qed
  show "large_ok others oregs s' (p # live) carry"
  proof (cases "in_arena (g_arena s) (b, n)")
    case True
    then have c: "contains (g_arena s) b (n * PAGE_SIZE)" by (simp add: in_arena_def)
    have sl: "slice_in (g_arena s) (b, n)" using tabled_arena(4) [OF ok(1), of "(b, n)"] True by simp
    have "n < 2 ^ 32" using bounds by (simp add: PAGE_SIZE_def)
    then have m: "g_map s' = table_register (g_arena s) (g_map s) (b, n) (Large_entry ?hdr)"
        "g_hdrs s' = (g_hdrs s)(?hdr := ?new)" "g_registry s' = g_registry s"
      using c by (simp_all add: s' register_large_region_def init_large_header_def table_register_def)
    have regs: "block_regs s' (p # live) = ((b, n), Large_entry ?hdr) # block_regs s live"
      using fr(2) True by (simp add: block_regs_def br reg(1))
    have "mset (map fst (((b, n), Large_entry ?hdr) # block_regs s live @ oregs))
        \<subseteq># inside s (held s live (add_mset (b, n) carry)) + others"
      using regs_inside [OF ok(2), of s live carry] True by simp
    moreover have "4 dvd ?hdr" using assms(4) by (simp add: LARGE_HEADER_SIZE_def) presburger
    moreover have "?hdr < 2 ^ 64" using h(2) bounds by simp
    ultimately have t: "tabled (g_arena s') (g_map s') (inside s' (held s' (p # live) carry) + others) (block_regs s' (p # live) @ oregs)"
      unfolding held regs m reg(1) append_Cons by (intro tabled_set [OF ok(1)]) simp_all
    have "legacy_headers s' (p # live) = legacy_headers s live"
      using fr(3) True by (auto simp: legacy_headers_def br reg(1))
    then have rg: "registers (g_hdrs s', g_registry s') (legacy_headers s' (p # live))"
      unfolding m using r1 by simp
    show ?thesis
      using ok fr bok rg t held by (intro large_okI) (simp_all only: held out reg(1) fr(5) list.set insert_iff, auto)
  next
    case False
    then have c: "\<not> contains (g_arena s) b (n * PAGE_SIZE)" by (simp add: in_arena_def)
    have m: "g_map s' = g_map s" "(g_hdrs s', g_registry s') = register_legacy_large (?h1, g_registry s) ?hdr"
      using c by (simp_all add: s' register_large_region_def init_large_header_def split: prod.splits)
    have "registers (g_hdrs s', g_registry s') (insert ?hdr (legacy_headers s live))"
      unfolding m(2)
      by (rule lr.add_law [OF r1 register_room [OF r1 legacy_headers_low [OF assms(1)]] _ notin]) (use h(1) bounds(1) in simp)
    moreover have "legacy_headers s' (p # live) = insert ?hdr (legacy_headers s live)"
      using fr(3) False by (auto simp: legacy_headers_def br reg(1))
    ultimately have rg: "registers (g_hdrs s', g_registry s') (legacy_headers s' (p # live))" by simp
    have regs: "block_regs s' (p # live) = block_regs s live"
      using fr(2) False by (simp add: block_regs_def br reg(1))
    have t: "tabled (g_arena s') (g_map s') (inside s' (held s' (p # live) carry) + others) (block_regs s' (p # live) @ oregs)"
      using ok(1) by (simp add: held regs m(1) reg(1))
    show ?thesis
      using ok fr bok rg t held by (intro large_okI) (simp_all only: held out reg(1) fr(5) list.set insert_iff, auto)
  qed
qed

text \<open>Taking a block out of service.\<close>

lemma unregister_same_block:
  "unregister_legacy_large (h, rg) x = Some (h', rg') \<Longrightarrow> same_block (h a) (h' a)"
  by (auto simp: unregister_legacy_large_def same_block_def Let_def split: option.splits if_splits)

lemma headers_apart:
  assumes "large_ok others oregs s (xs @ p # ys) carry" "q \<in> set (xs @ ys)"
  shows "q - LARGE_HEADER_SIZE \<noteq> p - LARGE_HEADER_SIZE"
proof
  assume e: "q - LARGE_HEADER_SIZE = p - LARGE_HEADER_SIZE"
  have b: "block_ok s q" "block_ok s p" using large_okD(8) [OF assms(1)] assms(2) by auto
  have "\<not> (hit (p - LARGE_HEADER_SIZE) (block_region s p) = 1 \<and> hit (p - LARGE_HEADER_SIZE) (block_region s q) = 1)"
    by (rule held_apart [OF assms(1), where H = "mset (map (block_region s) (xs @ p # ys))"])
      (use assms(2) in \<open>auto simp: held_def\<close>)
  then show False using header_in_region(1) [OF b(1)] header_in_region(1) [OF b(2)] e by simp
qed

lemma held_middle: "held s (xs @ p # ys) carry = held s (xs @ ys) (add_mset (block_region s p) carry)"
  by (simp add: held_def)

lemma block_regs_middle:
  "block_regs s (xs @ p # ys) = block_regs s xs
     @ (if in_arena (g_arena s) (block_region s p) then [(block_region s p, Large_entry (p - LARGE_HEADER_SIZE))] else [])
     @ block_regs s ys"
  "block_regs s (xs @ ys) = block_regs s xs @ block_regs s ys"
  by (simp_all add: block_regs_def)

lemma block_pages:
  assumes "block_ok s p"
  shows "mapped_size (block_header s p) div PAGE_SIZE * PAGE_SIZE = mapped_size (block_header s p)"
    "block_region s p = (b, n) \<Longrightarrow> l_base (block_header s p) = b \<and> mapped_size (block_header s p) = n * PAGE_SIZE"
  using assms by (auto simp: block_ok_def block_region_def Let_def)

lemma unregister_move:
  assumes "large_ok others oregs s (xs @ p # ys) carry" "block_region s p = (b, n)"
  shows "\<exists>s'. unregister_large_region s b (n * PAGE_SIZE) (p - LARGE_HEADER_SIZE) = Some s'
    \<and> large_ok others oregs s' (xs @ ys) (add_mset (b, n) carry)
    \<and> g_shards s' = g_shards s \<and> g_stashes s' = g_stashes s
    \<and> (\<forall>q. same_block (block_header s q) (block_header s' q))"
proof -
  note ok = large_okD [OF assms(1)]
  let ?hdr = "p - LARGE_HEADER_SIZE" and ?carry = "add_mset (b, n) carry"
  have H: "held s (xs @ p # ys) carry = held s (xs @ ys) ?carry" using held_middle [of s xs p ys carry] assms(2) by simp
  have fine: "region_fine (b, n)" using ok(5) by (simp add: H)
  then have n: "n < 2 ^ 32" by (simp add: region_fine_def ADDRESS_LIMIT_def PAGE_SIZE_def)
  show ?thesis
  proof (cases "in_arena (g_arena s) (b, n)")
    case True
    let ?s' = "s\<lparr>g_map := table_unregister (g_arena s) (g_map s) (b, n) (Large_entry ?hdr)\<rparr>"
    have u: "unregister_large_region s b (n * PAGE_SIZE) ?hdr = Some ?s'"
      using True n by (simp add: unregister_large_region_def in_arena_def table_unregister_def)
    have bf: "block_region ?s' = block_region s" "block_header ?s' = block_header s"
      by (simp_all add: fun_eq_iff block_region_def block_header_def)
    have fr: "held ?s' l c = held s l c" "block_regs ?s' l = block_regs s l" "legacy_headers ?s' l = legacy_headers s l"
      "block_ok ?s' q = block_ok s q" "caches_ok ?s' = caches_ok s" "outside_ok ?s' = outside_ok s" for l c q
      by (simp_all add: held_def idle_def bf block_regs_def legacy_headers_def block_ok_def caches_ok_def outside_ok_def fun_eq_iff)
    have "tabled (g_arena s) (g_map s) (inside s (held s (xs @ ys) ?carry) + others)
        (block_regs s xs @ ((b, n), Large_entry ?hdr) # block_regs s ys @ oregs)"
      using ok(1) True by (simp add: H block_regs_middle(1) assms(2))
    then have t: "tabled (g_arena s) (g_map ?s') (inside s (held s (xs @ ys) ?carry) + others) (block_regs s (xs @ ys) @ oregs)"
      using tabled_clear by (simp add: block_regs_middle(2))
    have l: "legacy_headers s (xs @ ys) = legacy_headers s (xs @ p # ys)"
      using True by (auto simp: legacy_headers_def assms(2))
    have "large_ok others oregs ?s' (xs @ ys) ?carry"
      using ok t l by (intro large_okI) (simp_all add: fr H)
    then show ?thesis using u by (auto simp: same_block_def block_header_def)
  next
    case False
    obtain h' rg' where u0: "unregister_legacy_large (g_hdrs s, g_registry s) ?hdr = Some (h', rg')"
      "registers (h', rg') (legacy_headers s (xs @ p # ys) - {?hdr})"
      using registers_remove [OF ok(7), of ?hdr] by auto
    let ?s' = "s\<lparr>g_hdrs := h', g_registry := rg'\<rparr>"
    have u: "unregister_large_region s b (n * PAGE_SIZE) ?hdr = Some ?s'"
      using False u0(1) by (simp add: unregister_large_region_def in_arena_def)
    have same: "same_block (block_header s q) (block_header ?s' q)" for q
      using unregister_same_block [OF u0(1)] by (simp add: block_header_def)
    have all: "\<forall>q \<in> set (xs @ ys). same_block (block_header s q) (block_header ?s' q)" using same by blast
    note fr = block_frame [OF all, simplified]
    have out: "outside_ok ?s' = outside_ok s" by (simp add: outside_ok_def fun_eq_iff)
    have bk: "q \<in> set (xs @ ys) \<Longrightarrow> block_ok ?s' q = block_ok s q" for q
      using fr(4) by simp
    have r: "block_regs s (xs @ p # ys) = block_regs s (xs @ ys)" using False by (simp add: block_regs_middle(1) assms(2)) (simp add: block_regs_middle(2))
    have "legacy_headers s (xs @ p # ys) - {?hdr} = legacy_headers s (xs @ ys)"
      using headers_apart [OF assms(1)] by (auto simp: legacy_headers_def)
    then have "large_ok others oregs ?s' (xs @ ys) ?carry"
      using ok u0(2) bk by (intro large_okI) (simp_all add: fr out H flip: r)
    then show ?thesis using u same by auto
  qed
qed

text \<open>Growth of a block's region at the frontier.\<close>

lemma grow_move:
  assumes "large_ok others oregs s (xs @ p # ys) carry" "block_region s p = (b, n)" "in_arena (g_arena s) (b, n)"
    "grow_frontier ok (g_arena s) b n q = (grew, a')"
  shows "\<not> grew \<Longrightarrow> large_ok others oregs (s\<lparr>g_arena := a'\<rparr>) (xs @ p # ys) carry"
    and "grew \<Longrightarrow> p + sz \<le> b + q * PAGE_SIZE \<Longrightarrow>
      s' = s\<lparr>g_arena := a', g_hdrs := (g_hdrs s)(p - LARGE_HEADER_SIZE :=
            (block_header s p)\<lparr>mapped_size := q * PAGE_SIZE, requested_size := sz\<rparr>),
          g_map := large_table_set a' (g_map s) (b + n * PAGE_SIZE) (q - n) (p - LARGE_HEADER_SIZE), g_map_calls := c\<rparr> \<Longrightarrow>
      large_ok others oregs s' (xs @ p # ys) carry"
proof -
  note ok = large_okD [OF assms(1)]
  let ?hdr = "p - LARGE_HEADER_SIZE"
  have H: "held s (xs @ p # ys) carry = add_mset (b, n) (held s (xs @ ys) carry)" using held_middle [of s xs p ys carry] assms(2) by simp
  have rg: "block_regs s (xs @ p # ys) = block_regs s xs @ ((b, n), Large_entry ?hdr) # block_regs s ys"
    using assms(2,3) by (simp add: block_regs_middle(1))
  let ?rest = "inside s (held s (xs @ ys) carry) + others"
  have t: "tabled (g_arena s) (g_map s) (add_mset (b, n) ?rest) (block_regs s xs @ ((b, n), Large_entry ?hdr) # block_regs s ys @ oregs)"
    using ok(1) assms(3) by (simp add: H rg)
  note g = tabled_grow [OF t assms(4)]
  {
    assume "\<not> grew"
    then have "tabled a' (g_map s) (inside s (held s (xs @ p # ys) carry) + others) (block_regs s (xs @ p # ys) @ oregs)"
      using g(1) assms(3) by (simp add: H rg)
    then show "large_ok others oregs (s\<lparr>g_arena := a'\<rparr>) (xs @ p # ys) carry"
      by (rule large_ok_arena [OF assms(1) _ g(2)]) (use ok(4,5) in simp_all)
  }
  assume gr: grew and sz: "p + sz \<le> b + q * PAGE_SIZE" and s': "s' = s\<lparr>g_arena := a', g_hdrs := (g_hdrs s)(p - LARGE_HEADER_SIZE :=
            (block_header s p)\<lparr>mapped_size := q * PAGE_SIZE, requested_size := sz\<rparr>),
          g_map := large_table_set a' (g_map s) (b + n * PAGE_SIZE) (q - n) (p - LARGE_HEADER_SIZE), g_map_calls := c\<rparr>"
  have t': "tabled a' (g_map s') (add_mset (b, q) ?rest) (block_regs s xs @ ((b, q), Large_entry ?hdr) # block_regs s ys @ oregs)"
    using g(1) gr by (simp add: s' page_arena)
  note same = contains_same [OF g(2) tabled_arena(1) [OF ok(1)] tabled_arena(1) [OF t']]
  have sl: "slice_in a' (b, q)" "arena_ok a'" using tabled_arena [OF t'] by auto
  have i: "in_arena (g_arena s) (b, q)"
    using tabled_contains [OF t', of b q b "q * PAGE_SIZE"] same(1) by (simp add: in_arena_def page_arena)
  have fine: "region_fine (b, q)"
    using sl g(2) ok(3,5) by (auto simp: region_fine_def slice_in_def arena_ok_def same_bounds_def page_arena H)
  have apart: "z - LARGE_HEADER_SIZE \<noteq> ?hdr" if "z \<in> set (xs @ ys)" for z by (rule headers_apart [OF assms(1) that])
  have hd: "block_header s' z = block_header s z" if "z \<in> set (xs @ ys)" for z
    using apart [OF that] by (simp add: s' block_header_def)
  have hp: "block_header s' p = (block_header s p)\<lparr>mapped_size := q * PAGE_SIZE, requested_size := sz\<rparr>"
    by (simp add: s' block_header_def)
  have brp: "block_region s' p = (b, q)"
    using assms(2) by (simp add: block_region_def hp)
  let ?s1 = "s'\<lparr>g_arena := g_arena s\<rparr>"
  have hd1: "block_header ?s1 z = block_header s z" if "z \<in> set (xs @ ys)" for z
    using hd [OF that] by (simp add: block_header_def)
  have rs: "block_region s' z = block_region s z" if "z \<in> set (xs @ ys)" for z using hd [OF that] by (simp add: block_region_def)
  have m: "mset (map (block_region s') (xs @ ys)) = mset (map (block_region s) (xs @ ys))"
    by (intro arg_cong [where f = mset] map_cong) (simp_all add: rs)
  have idl: "idle s' = idle s" by (simp add: idle_def s')
  have H': "held s' (xs @ p # ys) carry = add_mset (b, q) (held s (xs @ ys) carry)"
    using m by (simp add: held_middle brp) (simp add: held_def idl)
  have ia: "in_arena (g_arena s') = in_arena (g_arena s)" using same(2) by (simp add: s')
  have rg': "block_regs s' (xs @ p # ys) = block_regs s xs @ ((b, q), Large_entry ?hdr) # block_regs s ys"
  proof -
    have "block_regs s' l = block_regs s l" if "set l \<subseteq> set (xs @ ys)" for l
      unfolding block_regs_def ia using that by (intro map_cong filter_cong) (auto simp: rs)
    from this [of xs] this [of ys] show ?thesis by (simp add: block_regs_middle(1) brp ia i)
  qed
  have lg: "legacy_headers s' (xs @ p # ys) = legacy_headers s (xs @ p # ys)"
    using assms(3) i rs by (auto simp: legacy_headers_def ia brp assms(2))
  have "registry_next (g_hdrs s' x) = registry_next (g_hdrs s x)" for x by (simp add: s' block_header_def)
  then have "registers (g_hdrs s', g_registry s) (legacy_headers s (xs @ p # ys))" by (intro registers_frame [OF ok(7)])
  then have "registers (g_hdrs s', g_registry s') (legacy_headers s' (xs @ p # ys))" unfolding lg by (simp add: s')
  moreover have "outside_ok s' (held s' (xs @ p # ys) carry)"
  proof (rule outside_ok_mono [OF ok(4)])
    show "outside s' (held s' (xs @ p # ys) carry) \<subseteq># outside s (held s (xs @ p # ys) carry)"
      using assms(3) i by (simp only: H' H ia filter_mset_add_mset) simp
    show "same_bounds (g_arena s) (g_arena s')" using g(2) by (simp add: s')
  qed
  moreover have "block_ok s' z" if "z \<in> set (xs @ p # ys)" for z
  proof (cases "z = p")
    case True
    have "block_ok s p" using ok(8) by simp
    note bp = block_pages(2) [OF this assms(2)]
    have "l_magic (block_header s p) = LARGE_MAGIC" "16 dvd p" "b + LARGE_HEADER_SIZE \<le> p" "p < b + n * PAGE_SIZE"
      "p < b + LARGE_HEADER_SIZE + pointer_alignment p"
      using \<open>block_ok s p\<close> unfolding block_ok_def Let_def bp [THEN conjunct1] bp [THEN conjunct2] by blast+
    moreover from this have "p < b + q * PAGE_SIZE" using mult_le_mono1 [of n q PAGE_SIZE] g(3) [OF gr] by linarith
    ultimately show ?thesis using sz unfolding True block_ok_def Let_def hp by (simp add: bp)
  next
    case False
    then show ?thesis using that ok(8) hd by (auto simp: block_ok_def)
  qed
  moreover have "caches_ok s'" using ok(6) by (simp add: caches_ok_def s')
  moreover have "tabled (g_arena s') (g_map s') (inside s' (held s' (xs @ p # ys) carry) + others) (block_regs s' (xs @ p # ys) @ oregs)"
    using t' i by (simp add: H' rg' ia) (simp add: s')
  moreover have "\<forall>r \<in># held s' (xs @ p # ys) carry. region_fine r" using ok(5) fine by (simp add: H' H)
  moreover have "ar_end (g_arena s') \<le> ADDRESS_LIMIT" using ok(3) g(2) by (simp add: s' same_bounds_def)
  ultimately show "large_ok others oregs s' (xs @ p # ys) carry" using ok(2) by (intro large_okI) auto
qed

end
