(* ===== verification/Large_Blocks.thy ===== *)
theory Large_Blocks
  imports Large_Safety
begin

text \<open>
  The large path as a whole: what an allocation, a free and a growth in place do to the set of live blocks,
  for every size and alignment and every answer of the kernel, and what follows for any history of calls by
  any number of threads.
\<close>

section \<open>The block inside its region\<close>

lemma large_mapped_bounds:
  assumes "large_mapped sz align slack = Some mapped"
  shows "PAGE_SIZE dvd mapped" "sz + align + LARGE_HEADER_SIZE + slack \<le> mapped" "0 < mapped" "mapped < 2 ^ 64"
proof -
  let ?t = "sz + align + LARGE_HEADER_SIZE + slack"
  have mx: "max ?t LARGE_HEADER_SIZE = ?t" by simp
  have m: "mapped = mask_down PAGE_SIZE (?t + (PAGE_SIZE - 1))" "?t + (PAGE_SIZE - 1) < 2 ^ 64"
    using assms by (auto simp: large_mapped_def mx USIZE_BITS_def split: option.splits)
  show "PAGE_SIZE dvd mapped" "?t \<le> mapped" using mask_down_bounds(1) [of PAGE_SIZE ?t] by (simp_all add: m(1))
  then show "0 < mapped" by (simp add: LARGE_HEADER_SIZE_def)
  show "mapped < 2 ^ 64" using mask_down_le [of PAGE_SIZE "?t + (PAGE_SIZE - 1)"] m by linarith
qed

text \<open>No sum of the fit test wraps: a region with the low 32 bits of the page count lies below the address limit,
  which a size near \<open>2 ^ 64\<close> contradicts.\<close>

lemma no_wrap:
  assumes "large_mapped sz align slack = Some (N * PAGE_SIZE)" "region_fine (b, n)" "N mod 2 ^ 32 \<le> n"
  shows "b + LARGE_HEADER_SIZE + align + sz < 2 ^ 64"
proof (rule ccontr)
  assume w: "\<not> b + LARGE_HEADER_SIZE + align + sz < 2 ^ 64"
  note m = large_mapped_bounds [OF assms(1)]
  have b: "0 < b" "b + n * 65536 \<le> 2 ^ 47" using assms(2) by (simp_all add: region_fine_def ADDRESS_LIMIT_def PAGE_SIZE_def)
  have "2 ^ 64 \<le> 2 ^ 47 + N * 65536" using w b m(2) by (simp add: PAGE_SIZE_def)
  then have lo: "2 ^ 48 \<le> 2 ^ 31 + N" by simp
  have hi: "N < 2 ^ 48" using m(4) by (simp add: PAGE_SIZE_def)
  have "2 ^ 31 \<le> N mod 2 ^ 32"
  proof -
    have "N = (2 ^ 16 - 1) * 2 ^ 32 + (N - (2 ^ 16 - 1) * 2 ^ 32)" using lo by simp
    moreover have "N - (2 ^ 16 - 1) * 2 ^ 32 < 2 ^ 32" using hi by simp
    ultimately have "N mod 2 ^ 32 = N - (2 ^ 16 - 1) * 2 ^ 32" by (metis mod_less mod_mult_self3)
    then show ?thesis using lo by simp
  qed
  then show False using assms(3) b by simp
qed

lemma block_in_props:
  assumes "region_fine (b, n)" "align = 2 ^ k" "b + LARGE_HEADER_SIZE + align + sz < 2 ^ 64"
  shows "b + LARGE_HEADER_SIZE \<le> block_in b align" "align dvd block_in b align" "16 dvd block_in b align"
    "block_fits b (n * PAGE_SIZE) sz align \<Longrightarrow> block_in b align + sz \<le> b + n * PAGE_SIZE"
    "block_in b align < b + LARGE_HEADER_SIZE + align"
proof -
  have f: "16 dvd b" "b + n * PAGE_SIZE \<le> 2 ^ 47" using assms(1) by (simp_all add: region_fine_def ADDRESS_LIMIT_def)
  have p: "block_in b align = align_up (b + LARGE_HEADER_SIZE) align" using assms(3) by (simp add: block_in_def)
  have a: "0 < align" by (simp add: assms(2))
  note u = align_up_props [OF a, of "b + LARGE_HEADER_SIZE"]
  show "b + LARGE_HEADER_SIZE \<le> block_in b align" "align dvd block_in b align" "block_in b align < b + LARGE_HEADER_SIZE + align"
    using u by (simp_all add: p)
  have h: "16 dvd b + LARGE_HEADER_SIZE" using f(1) by (simp add: LARGE_HEADER_SIZE_def)
  show "16 dvd block_in b align"
  proof (cases "4 \<le> k")
    case True
    then have "(2::nat) ^ 4 dvd align" unfolding assms(2) by (rule le_imp_power_dvd)
    then show ?thesis using dvd_trans [OF _ u(1)] by (simp add: p)
  next
    case False
    then have "align dvd 2 ^ 4" unfolding assms(2) by (intro le_imp_power_dvd) simp
    then have "align dvd b + LARGE_HEADER_SIZE" using h by (auto intro: dvd_trans)
    then show ?thesis using h align_up_fixed [OF a] by (simp add: p)
  qed
  have "block_in b align + sz < 2 ^ 64" using u(3) assms(3) by (simp add: p)
  moreover have "b + n * PAGE_SIZE < 2 ^ 64" by (rule le_less_trans [OF f(2)]) simp
  ultimately show "block_fits b (n * PAGE_SIZE) sz align \<Longrightarrow> block_in b align + sz \<le> b + n * PAGE_SIZE"
    by (simp add: block_fits_def)
qed

text \<open>The alignment of an address is at least every power of two that divides it.\<close>

lemma odd_part:
  fixes p :: nat
  assumes "0 < p"
  shows "\<exists>j m. p = 2 ^ j * m \<and> odd m"
  using assms
proof (induction p rule: less_induct)
  case (less p)
  show ?case
  proof (cases "even p")
    case True
    then obtain q where q: "p = 2 * q" "q < p" "0 < q" using less.prems by (auto elim!: evenE)
    then obtain j m where "q = 2 ^ j * m" "odd m" using less.IH by blast
    then show ?thesis using q(1) by (intro exI [of _ "Suc j"] exI [of _ m]) simp
  next
    case False
    then show ?thesis by (intro exI [of _ 0] exI [of _ p]) simp
  qed
qed

lemma pointer_alignment_ge:
  assumes "0 < p" "p < 2 ^ 64" "2 ^ k dvd p"
  shows "2 ^ k \<le> pointer_alignment p"
proof -
  obtain j m where m: "p = 2 ^ j * m" "odd m" using odd_part [OF assms(1)] by blast
  have k: "k \<le> j"
  proof (rule ccontr)
    assume "\<not> k \<le> j"
    then have "(2::nat) ^ Suc j dvd 2 ^ k" by (intro le_imp_power_dvd) simp
    then have "(2::nat) ^ Suc j dvd 2 ^ j * m" using assms(3) unfolding m(1) by (rule dvd_trans)
    then show False using m(2) by simp
  qed
  have "0 < m" using m(2) by (cases m) auto
  then have "(2::nat) ^ j \<le> p" by (simp add: m(1))
  then have "(2::nat) ^ j < 2 ^ 64" using assms(2) by linarith
  then have j: "j < 64" by (rule power_less_imp_less_exp [rotated]) simp
  let ?w = "word_of_nat p :: 64 word" and ?m = "word_of_nat m :: 64 word"
  have w: "?w = push_bit j ?m" using m(1) by (metis of_nat_mult of_nat_power of_nat_numeral push_bit_eq_mult mult.commute)
  have low: "bit ?m 0" "bit (- ?m) 0" using m(2) by (simp_all add: bit_simps bit_0)
  have "bit ?w j" using low j by (simp add: w bit_push_bit_iff)
  moreover have "- ?w = push_bit j (- ?m)" by (simp add: w push_bit_minus)
  then have "bit (- ?w) j" using low j by (simp add: bit_push_bit_iff)
  ultimately have "bit (?w AND - ?w) j" by (simp add: bit_and_iff)
  then have "bit (unat (?w AND - ?w)) j" using j by (simp add: bit_unsigned_iff)
  then have "odd (unat (?w AND - ?w) div 2 ^ j)" by (simp add: bit_iff_odd)
  then have "(2::nat) ^ j \<le> unat (?w AND - ?w)" by (metis div_less even_zero not_le)
  moreover have "(2::nat) ^ k \<le> 2 ^ j" using k by simp
  ultimately have "2 ^ k \<le> unat (?w AND - ?w)" by (rule le_trans [rotated])
  then show ?thesis using assms(1) by (simp add: pointer_alignment_def)
qed

text \<open>In a region of the mapped size the block always fits.\<close>

lemma mapped_block_fits:
  assumes "large_mapped sz align slack = Some (n * PAGE_SIZE)" "region_fine (b, n)" "align = 2 ^ k"
  shows "block_fits b (n * PAGE_SIZE) sz align"
proof -
  have f: "b + n * PAGE_SIZE \<le> 2 ^ 47" using assms(2) by (simp add: region_fine_def ADDRESS_LIMIT_def)
  note m = large_mapped_bounds(2) [OF assms(1)]
  have nw: "b + LARGE_HEADER_SIZE + align + sz < 2 ^ 64" using m f by simp
  have "block_in b align < b + LARGE_HEADER_SIZE + align" by (rule block_in_props(5) [OF assms(2,3) nw])
  then have "block_in b align + sz \<le> b + n * PAGE_SIZE" using m by simp
  then show ?thesis using f by (simp add: block_fits_def)
qed

section \<open>Allocation\<close>

text \<open>What a served request looks like.\<close>

definition serves :: "large_state \<Rightarrow> large_state \<Rightarrow> addr list \<Rightarrow> nat \<Rightarrow> nat \<Rightarrow> addr \<Rightarrow> bool" where
  "serves s s' live sz align p \<longleftrightarrow> p \<noteq> null \<and> align dvd p \<and> requested_size (block_header s' p) = sz
     \<and> (\<forall>q \<in> set live. block_header s' q = block_header s q)"

definition caller_ok :: "large_env \<Rightarrow> large_state \<Rightarrow> bool" where
  "caller_ok e s \<longleftrightarrow> (case le_tls e of None \<Rightarrow> True | Some (i, salt) \<Rightarrow> i < length (g_stashes s))"

lemma unmap_frame:
  assumes "unmap_or_return e s b n = (k, s')"
  shows "g_hdrs s' = g_hdrs s" "g_stashes s' = g_stashes s" "g_shards s' = g_shards s"
  using assms by (auto simp: unmap_or_return_def split: if_splits)

lemma hand_out_serves:
  assumes "large_ok others oregs s live (add_mset (b, n) {#})" "block_fits b (n * PAGE_SIZE) sz align"
    "large_mapped sz align slack = Some (N * PAGE_SIZE)" "N mod 2 ^ 32 \<le> n" "align = 2 ^ k" "0 < sz"
    "hand_out s b (n * PAGE_SIZE) sz align = s'"
  shows "large_ok others oregs s' (block_in b align # live) {#}" "serves s s' live sz align (block_in b align)"
proof -
  have fine: "region_fine (b, n)" using large_okD(5) [OF assms(1)] by simp
  note p = block_in_props [OF fine assms(5) no_wrap [OF assms(3) fine assms(4)]]
  have "0 < block_in b align" using p(1) by (simp add: LARGE_HEADER_SIZE_def)
  moreover have "block_in b align < 2 ^ 64" using p(5) no_wrap [OF assms(3) fine assms(4)] by linarith
  ultimately have "align \<le> pointer_alignment (block_in b align)" using pointer_alignment_ge p(2) assms(5) by simp
  then have "block_in b align < b + LARGE_HEADER_SIZE + pointer_alignment (block_in b align)" using p(5) by linarith
  note h = hand_out_move [OF assms(1) refl p(1,3) p(4) [OF assms(2)] assms(6) this assms(7)]
  show "large_ok others oregs s' (block_in b align # live) {#}" by (rule h(1))
  have "block_in b align \<noteq> null" using p(1) by (simp add: LARGE_HEADER_SIZE_def)
  then show "serves s s' live sz align (block_in b align)"
    using h(2,3) p(2) by (simp add: serves_def same_block_def)
qed

lemma from_stash_ok:
  assumes "large_ok others oregs s live {#}" "caller_ok e s" "large_mapped sz align slack = Some (N * PAGE_SIZE)"
    "align = 2 ^ k" "0 < sz" "large_from_stash e s sz align zr (N mod 2 ^ 32) = ((served, salt), s')"
  shows "case served of None \<Rightarrow> large_ok others oregs s' live {#} \<and> g_hdrs s' = g_hdrs s
    | Some (p, fresh, z) \<Rightarrow> large_ok others oregs s' (p # live) {#} \<and> serves s s' live sz align p
        \<and> (z \<longrightarrow> zr \<and> zeroed (le_handoff e))"
proof (cases "le_tls e")
  case None
  then show ?thesis using assms(1,6) by (auto simp: large_from_stash_def)
next
  case (Some t)
  obtain i slt where t: "t = (i, slt)" by (cases t)
  have i: "i < length (g_stashes s)" using assms(2) by (simp add: caller_ok_def Some t)
  obtain r st where tk: "take_large_stash (g_stashes s ! i) (N mod 2 ^ 32) = (r, st)"
    by (cases "take_large_stash (g_stashes s ! i) (N mod 2 ^ 32)")
  have small: "N mod 2 ^ 32 < 2 ^ 32" by simp
  note mv = take_stash_move [OF assms(1) i small tk]
  let ?s1 = "s\<lparr>g_stashes := (g_stashes s)[i := st]\<rparr>"
  show ?thesis
  proof (cases r)
    case None
    then show ?thesis using mv(1) assms(6) tk by (auto simp: large_from_stash_def Some t)
  next
    case (Some x)
    obtain b n where x: "x = (b, n)" by (cases x)
    have ok: "large_ok others oregs ?s1 live (add_mset (b, n) {#})" and n: "N mod 2 ^ 32 \<le> n"
      using mv(1) mv(2) [OF Some] by (simp_all add: Some x)
    have eq: "(if block_fits b (n * PAGE_SIZE) sz align
        then ((Some (block_in b align, False, zr \<and> purge_for_handoff e), slt), hand_out ?s1 b (n * PAGE_SIZE) sz align)
        else ((None, slt), snd (unmap_or_return e ?s1 b (n * PAGE_SIZE)))) = ((served, salt), s')"
      using assms(6) tk \<open>le_tls e = Some t\<close> by (simp add: large_from_stash_def t Some x Let_def split del: if_split)
    show ?thesis
    proof (cases "block_fits b (n * PAGE_SIZE) sz align")
      case True
      note hs = hand_out_serves [OF ok True assms(3) n assms(4,5) refl]
      have "block_header ?s1 q = block_header s q" for q by (simp add: block_header_def)
      then have "serves s (hand_out ?s1 b (n * PAGE_SIZE) sz align) live sz align (block_in b align)"
        using hs(2) by (simp add: serves_def)
      then show ?thesis using eq True hs(1) by (auto simp: purge_for_handoff_def)
    next
      case False
      obtain k2 s2 where u: "unmap_or_return e ?s1 b (n * PAGE_SIZE) = (k2, s2)" by (cases "unmap_or_return e ?s1 b (n * PAGE_SIZE)")
      show ?thesis using eq False unmap_move [OF ok u] unmap_frame [OF u] u by auto
    qed
  qed
qed

lemma large_shard_less: "large_shard n salt < NUM_LARGE_SHARDS"
  by (simp add: large_shard_def NUM_LARGE_SHARDS_def)

lemma from_shard_ok:
  assumes "large_ok others oregs s live {#}" "large_mapped sz align slack = Some (N * PAGE_SIZE)"
    "align = 2 ^ k" "0 < sz" "large_from_shard e s sz align zr (N * PAGE_SIZE) salt = (served, s')"
  shows "case served of None \<Rightarrow> large_ok others oregs s' live {#} \<and> g_hdrs s' = g_hdrs s
    | Some (p, fresh, z) \<Rightarrow> large_ok others oregs s' (p # live) {#} \<and> serves s s' live sz align p"
proof -
  let ?j = "large_shard ((N * PAGE_SIZE div PAGE_SIZE) mod 2 ^ 32) salt"
  obtain r c where tk: "take_fit (g_shards s ! ?j) (N * PAGE_SIZE) = (r, c)" by (cases "take_fit (g_shards s ! ?j) (N * PAGE_SIZE)")
  note mv = take_shard_move [OF assms(1) large_shard_less tk]
  let ?s1 = "s\<lparr>g_shards := (g_shards s)[?j := c]\<rparr>"
  show ?thesis
  proof (cases r)
    case None
    then show ?thesis using mv(1) assms(5) tk by (auto simp: large_from_shard_def Let_def)
  next
    case (Some x)
    obtain b n z d where x: "x = (b, n, z, d)" by (cases x)
    have ok: "large_ok others oregs ?s1 live (add_mset (b, n) {#})" and n: "N mod 2 ^ 32 \<le> n"
      using mv(1) mv(2) by (simp_all add: Some x)
    have eq: "(if block_fits b (n * PAGE_SIZE) sz align
        then (Some (block_in b align, False, if zr \<and> \<not> z then purge_for_handoff e else z), hand_out ?s1 b (n * PAGE_SIZE) sz align)
        else (None, snd (unmap_or_return e ?s1 b (n * PAGE_SIZE)))) = (served, s')"
      using assms(5) tk by (simp add: large_from_shard_def Let_def Some x split del: if_split cong: if_cong)
    show ?thesis
    proof (cases "block_fits b (n * PAGE_SIZE) sz align")
      case True
      note hs = hand_out_serves [OF ok True assms(2) n assms(3,4) refl]
      have "block_header ?s1 q = block_header s q" for q by (simp add: block_header_def)
      then have "serves s (hand_out ?s1 b (n * PAGE_SIZE) sz align) live sz align (block_in b align)"
        using hs(2) by (simp add: serves_def)
      then show ?thesis using eq True hs(1) by auto
    next
      case False
      obtain k2 s2 where u: "unmap_or_return e ?s1 b (n * PAGE_SIZE) = (k2, s2)" by (cases "unmap_or_return e ?s1 b (n * PAGE_SIZE)")
      show ?thesis using eq False unmap_move [OF ok u] unmap_frame [OF u] u by auto
    qed
  qed
qed

lemma from_map_ok:
  assumes "large_ok others oregs s live {#}" "large_mapped sz align slack = Some (N * PAGE_SIZE)"
    "align = 2 ^ k" "0 < sz" "maps_fresh e s (held s live {#}) (N * PAGE_SIZE)"
    "large_from_map e s sz align (N * PAGE_SIZE) = ((p, fresh, z), s')"
  shows "if p = null then large_ok others oregs s' live {#} \<and> g_hdrs s' = g_hdrs s
    else large_ok others oregs s' (p # live) {#} \<and> serves s s' live sz align p \<and> fresh \<and> z"
proof -
  have N: "0 < N" using large_mapped_bounds(3) [OF assms(2)] by simp
  obtain b fr s1 where m: "map_large_region e s (N * PAGE_SIZE) = ((b, fr), s1)" by (cases "map_large_region e s (N * PAGE_SIZE)") auto
  note mv = map_move [OF assms(1) N assms(5) m]
  have h: "g_hdrs s1 = g_hdrs s" using m by (auto simp: map_large_region_def Let_def split: prod.splits if_splits)
  show ?thesis
  proof (cases "b = null")
    case True
    then show ?thesis using assms(6) m mv h by (auto simp: large_from_map_def)
  next
    case False
    let ?s2 = "if fr then s1\<lparr>g_mapped_pages := add_w 64 (g_mapped_pages s1) 1\<rparr> else s1"
    let ?s3 = "?s2\<lparr>g_map_calls := add_w 64 (g_map_calls ?s2) 1\<rparr>"
    have "large_ok others oregs s1 live (add_mset (b, N) {#})" using mv False by simp
    then have ok: "large_ok others oregs ?s3 live (add_mset (b, N) {#})"
    proof (rule large_ok_move)
      show "caches_ok ?s3" using large_okD(6) [OF \<open>large_ok others oregs s1 live (add_mset (b, N) {#})\<close>] by (simp add: caches_ok_def)
    qed (simp_all add: idle_def)
    have fine: "region_fine (b, N)" using large_okD(5) [OF ok] by simp
    note fits = mapped_block_fits [OF assms(2) fine assms(3)]
    note hs = hand_out_serves [OF ok fits assms(2) _ assms(3,4) refl]
    have "block_header ?s3 q = block_header s q" for q by (simp add: block_header_def h)
    then have sv: "serves s (hand_out ?s3 b (N * PAGE_SIZE) sz align) live sz align (block_in b align)"
      using hs(2) by (simp add: serves_def)
    have eq: "((block_in b align, True, True), hand_out ?s3 b (N * PAGE_SIZE) sz align) = ((p, fresh, z), s')"
      using assms(6) m False fits unfolding large_from_map_def by (simp only: case_prod_conv Let_def if_False not_True_eq_False)
    then show ?thesis using hs(1) sv by (auto simp: serves_def)
  qed
qed

lemma from_caches_ok:
  assumes "large_ok others oregs s live {#}" "caller_ok e s" "large_mapped sz align slack = Some (N * PAGE_SIZE)"
    "align = 2 ^ k" "0 < sz" "large_from_caches e s sz align zr (N * PAGE_SIZE) = (served, s')"
  shows "case served of None \<Rightarrow> large_ok others oregs s' live {#} \<and> g_hdrs s' = g_hdrs s
    | Some (p, fresh, z) \<Rightarrow> large_ok others oregs s' (p # live) {#} \<and> serves s s' live sz align p"
proof -
  obtain r salt s1 where st: "large_from_stash e s sz align zr (N mod 2 ^ 32) = ((r, salt), s1)"
    by (cases "large_from_stash e s sz align zr (N mod 2 ^ 32)") auto
  note a = from_stash_ok [OF assms(1-5) st]
  show ?thesis
  proof (cases r)
    case (Some t)
    then show ?thesis using assms(6) st a by (auto simp: large_from_caches_def)
  next
    case None
    then have k: "large_ok others oregs s1 live {#}" "g_hdrs s1 = g_hdrs s" using a by auto
    have "large_from_shard e s1 sz align zr (N * PAGE_SIZE) salt = (served, s')"
      using assms(6) st None by (simp add: large_from_caches_def)
    note b = from_shard_ok [OF k(1) assms(3-5) this]
    have "block_header s1 = block_header s" by (simp add: fun_eq_iff block_header_def k(2))
    then show ?thesis using b k(2) by (auto simp: serves_def split: option.splits)
  qed
qed

text \<open>What the kernel promises of the mapping the call may ask for, in the state it asks in.\<close>

definition mmap_ok :: "large_env \<Rightarrow> large_state \<Rightarrow> addr list \<Rightarrow> nat \<Rightarrow> nat \<Rightarrow> bool \<Rightarrow> nat \<Rightarrow> bool" where
  "mmap_ok e s live sz align zr slack \<longleftrightarrow>
     (\<forall>mapped s1. large_mapped sz align slack = Some mapped \<longrightarrow>
        large_from_caches e s sz align zr mapped = (None, s1) \<longrightarrow> maps_fresh e s1 (held s1 live {#}) mapped)"

lemma alloc_large_facts:
  assumes "large_ok others oregs s live {#}" "caller_ok e s" "align = 2 ^ k" "0 < sz" "mmap_ok e s live sz align zr slack"
    "alloc_large_ex e s sz align zr slack = ((p, fresh, z), s')"
  shows "if p = null then large_ok others oregs s' live {#} \<and> g_hdrs s' = g_hdrs s
    else large_ok others oregs s' (p # live) {#} \<and> serves s s' live sz align p"
proof (cases "large_mapped sz align slack")
  case None
  then show ?thesis using assms(1,6) by (simp add: alloc_large_ex_def)
next
  case (Some mapped)
  then obtain N where N: "mapped = N * PAGE_SIZE" using large_mapped_bounds(1) by (metis dvd_div_mult_self)
  obtain served s1 where c: "large_from_caches e s sz align zr mapped = (served, s1)" by (cases "large_from_caches e s sz align zr mapped")
  note a = from_caches_ok [OF assms(1,2) Some [unfolded N] assms(3,4) c [unfolded N]]
  show ?thesis
  proof (cases served)
    case (Some t)
    then show ?thesis using assms(6) \<open>large_mapped sz align slack = Some mapped\<close> c a by (auto simp: alloc_large_ex_def serves_def)
  next
    case None
    then have k: "large_ok others oregs s1 live {#}" "g_hdrs s1 = g_hdrs s" using a by auto
    have f: "maps_fresh e s1 (held s1 live {#}) (N * PAGE_SIZE)"
      using assms(5) Some c unfolding mmap_ok_def None N by blast
    have "large_from_map e s1 sz align (N * PAGE_SIZE) = ((p, fresh, z), s')"
      using assms(6) Some c by (simp add: alloc_large_ex_def None N)
    note b = from_map_ok [OF k(1) Some [unfolded N] assms(3,4) f this]
    have "block_header s1 = block_header s" by (simp add: fun_eq_iff block_header_def k(2))
    then show ?thesis using b k(2) by (simp add: serves_def split: if_splits)
  qed
qed

section \<open>Free\<close>

lemma park_region_ok:
  assumes "large_ok others oregs s live (add_mset (b, n) {#})"
  shows "large_ok others oregs (park_region e s b n (n * PAGE_SIZE) salt) live {#}
    \<and> g_hdrs (park_region e s b n (n * PAGE_SIZE) salt) = g_hdrs s"
proof -
  let ?j = "large_shard n salt"
  obtain fate c where f: "park_large (le_park e) (g_shards s ! ?j) b n (n * PAGE_SIZE) = (fate, c)"
    by (cases "park_large (le_park e) (g_shards s ! ?j) b n (n * PAGE_SIZE)")
  have "shard_put (le_park e) (g_shards s ! ?j) (b, n) = (fate = Kept, c)" by (simp add: shard_put_def f)
  note mv = put_shard_move [OF assms large_shard_less this]
  show ?thesis
  proof (cases fate)
    case Kept
    then show ?thesis using mv by (simp add: park_region_def f)
  next
    case Unmap
    obtain k s4 where un: "unmap_or_return e (s\<lparr>g_shards := (g_shards s)[?j := c]\<rparr>) b (n * PAGE_SIZE) = (k, s4)"
      by (cases "unmap_or_return e (s\<lparr>g_shards := (g_shards s)[?j := c]\<rparr>) b (n * PAGE_SIZE)")
    have "large_ok others oregs s4 live {#}" by (rule unmap_move [OF _ un]) (use mv Unmap in simp)
    then show ?thesis using unmap_frame(1) [OF un] by (simp add: park_region_def f Unmap un)
  qed
qed

lemma free_large_facts:
  assumes "large_ok others oregs s (xs @ p # ys) {#}" "caller_ok e s"
  shows "\<exists>s'. free_large e s p = Some s' \<and> large_ok others oregs s' (xs @ ys) {#}
    \<and> (\<forall>q. same_block (block_header s q) (block_header s' q))"
proof -
  obtain b n where r: "block_region s p = (b, n)" by (cases "block_region s p")
  have bk: "block_ok s p" using large_okD(8) [OF assms(1)] by simp
  have h: "l_base (g_hdrs s (p - LARGE_HEADER_SIZE)) = b" "mapped_size (g_hdrs s (p - LARGE_HEADER_SIZE)) = n * PAGE_SIZE"
    using block_pages(2) [OF bk r] by (simp_all add: block_header_def)
  have "region_fine (b, n)" using large_okD(5) [OF assms(1)] r by (auto simp: held_def)
  then have n: "n < 4294967296" by (simp add: region_fine_def ADDRESS_LIMIT_def PAGE_SIZE_def)
  obtain s1 where u: "unregister_large_region s b (n * PAGE_SIZE) (p - LARGE_HEADER_SIZE) = Some s1"
    "large_ok others oregs s1 (xs @ ys) (add_mset (b, n) {#})" "g_shards s1 = g_shards s" "g_stashes s1 = g_stashes s"
    "\<forall>q. same_block (block_header s q) (block_header s1 q)"
    using unregister_move [OF assms(1) r] by blast
  note park = park_region_ok [of others oregs _ "xs @ ys" b n e]
  have free: "free_large e s p = (case le_tls e of
        None \<Rightarrow> Some (park_region e s1 b n (n * PAGE_SIZE) p)
      | Some (i, salt) \<Rightarrow> let (k, st) = push_large_stash (g_stashes s1 ! i) (b, n); s2 = s1\<lparr>g_stashes := (g_stashes s1)[i := st]\<rparr>
          in if k then Some s2 else Some (park_region e s2 b n (n * PAGE_SIZE) salt))"
    using n by (simp add: free_large_def h u(1) Let_def split: option.split prod.split)
  have "\<exists>s'. free_large e s p = Some s' \<and> large_ok others oregs s' (xs @ ys) {#} \<and> g_hdrs s' = g_hdrs s1"
  proof (cases "le_tls e")
    case None
    then show ?thesis using park [OF u(2), of p] by (simp add: free)
  next
    case (Some t)
    obtain i salt where t: "t = (i, salt)" by (cases t)
    have i: "i < length (g_stashes s1)" using assms(2) by (simp add: caller_ok_def Some t u(4))
    obtain k st where ps: "push_large_stash (g_stashes s1 ! i) (b, n) = (k, st)" by (cases "push_large_stash (g_stashes s1 ! i) (b, n)")
    let ?s2 = "s1\<lparr>g_stashes := (g_stashes s1)[i := st]\<rparr>"
    note mv = put_stash_move [OF u(2) i ps]
    show ?thesis
    proof (cases k)
      case True
      then show ?thesis using mv by (simp add: free Some t ps)
    next
      case False
      then have "large_ok others oregs ?s2 (xs @ ys) (add_mset (b, n) {#})" using mv by simp
      from park [OF this, of salt] show ?thesis using False by (simp add: free Some t ps Let_def)
    qed
  qed
  then obtain s' where s': "free_large e s p = Some s'" "large_ok others oregs s' (xs @ ys) {#}" "g_hdrs s' = g_hdrs s1" by blast
  then have "\<forall>q. same_block (block_header s q) (block_header s' q)" using u(5) by (simp add: block_header_def)
  then show ?thesis using s' by blast
qed

section \<open>Recognising a block\<close>

lemma block_place:
  assumes "large_ok others oregs s live {#}" "p \<in> set live" "block_region s p = (b, n)"
  shows "region_fine (b, n)" "l_base (block_header s p) = b" "mapped_size (block_header s p) = n * PAGE_SIZE"
    "b + LARGE_HEADER_SIZE \<le> p" "p + requested_size (block_header s p) \<le> b + n * PAGE_SIZE" "p < b + n * PAGE_SIZE"
    "contains (g_arena s) p 1 = in_arena (g_arena s) (b, n)" "16 dvd p"
    "p < b + LARGE_HEADER_SIZE + pointer_alignment p" "l_magic (block_header s p) = LARGE_MAGIC"
proof -
  note ok = large_okD [OF assms(1)]
  have bk: "block_ok s p" using ok(8) assms(2) by blast
  note bp = block_pages(2) [OF bk assms(3)]
  show "l_base (block_header s p) = b" "mapped_size (block_header s p) = n * PAGE_SIZE" using bp by auto
  show pos: "b + LARGE_HEADER_SIZE \<le> p" "p + requested_size (block_header s p) \<le> b + n * PAGE_SIZE" "p < b + n * PAGE_SIZE"
    "16 dvd p" "p < b + LARGE_HEADER_SIZE + pointer_alignment p" "l_magic (block_header s p) = LARGE_MAGIC"
    using bk unfolding block_ok_def Let_def bp [THEN conjunct1] bp [THEN conjunct2] by blast+
  have mem: "(b, n) \<in># held s live {#}" using assms(2) by (auto simp: held_def assms(3) [symmetric])
  then show "region_fine (b, n)" using ok(5) by blast
  show "contains (g_arena s) p 1 = in_arena (g_arena s) (b, n)"
  proof (cases "in_arena (g_arena s) (b, n)")
    case True
    then have "(b, n) \<in># inside s (held s live {#}) + others" using mem by simp
    then show ?thesis using tabled_contains [OF ok(1), of b n p 1] pos True by (simp add: page_arena)
  next
    case False
    then have "(b, n) \<in># outside s (held s live {#})" using mem by simp
    then have "hit p (b, n) \<le> mcover p (outside s (held s live {#}))" by (rule mcover_mem)
    moreover have "hit p (b, n) = 1" using pos by (simp add: hit_def page_arena)
    ultimately have "\<not> (ar_start (g_arena s) \<le> p \<and> p < ar_end (g_arena s))" using ok(4) by (auto simp: outside_ok_def)
    then show ?thesis using False by (auto simp: contains_def split: option.splits)
  qed
qed

lemma live_header:
  assumes "large_ok others oregs s live {#}" "p \<in> set live"
  shows "large_header_of s p = Some (l_base (block_header s p), mapped_size (block_header s p))"
proof -
  obtain b n where r: "block_region s p = (b, n)" by (cases "block_region s p")
  note bp = block_place [OF assms r]
  have "p < 2 ^ 64" using bp(1,6) by (simp add: region_fine_def ADDRESS_LIMIT_def)
  then have off: "sub_w 64 p b = p - b" using bp(4) by simp
  have "(p - LARGE_HEADER_SIZE) mod MIN_ALIGN = 0"
    using bp(4,8) by (simp add: LARGE_HEADER_SIZE_def MIN_ALIGN_def mod_eq_0_iff_dvd dvd_diff_nat)
  moreover have "0 < p - b" "p - b < n * PAGE_SIZE" "LARGE_HEADER_SIZE \<le> n * PAGE_SIZE" "LARGE_HEADER_SIZE \<le> p"
    using bp(4,6) by (simp_all add: LARGE_HEADER_SIZE_def)
  ultimately show ?thesis
    using bp(2,3,10) off unfolding block_header_def by (simp add: large_header_of_def Let_def)
qed

lemma block_regs_mem:
  "p \<in> set live \<Longrightarrow> in_arena (g_arena s) (block_region s p) \<Longrightarrow>
    (block_region s p, Large_entry (p - LARGE_HEADER_SIZE)) \<in> set (block_regs s live)"
  by (auto simp: block_regs_def)

lemma live_known:
  assumes "large_ok others oregs s live {#}" "p \<in> set live"
  shows "large_region_known s p = Some True"
proof -
  note ok = large_okD [OF assms(1)]
  obtain b n where r: "block_region s p = (b, n)" by (cases "block_region s p")
  note bp = block_place [OF assms r]
  show ?thesis
  proof (cases "in_arena (g_arena s) (b, n)")
    case True
    have "((b, n), Large_entry (p - LARGE_HEADER_SIZE)) \<in> set (block_regs s live @ oregs)"
      using block_regs_mem [OF assms(2), of s] True r by simp
    from tabled_get(1) [OF ok(1) this, of p] have "large_table_get (g_arena s) (g_map s) p = p - LARGE_HEADER_SIZE"
      using bp(4,6) by (simp add: page_arena)
    moreover have "p - LARGE_HEADER_SIZE \<noteq> null" using bp(1,4) by (simp add: region_fine_def)
    ultimately show ?thesis using True bp(7) by (simp add: large_region_known_def)
  next
    case False
    have "p - LARGE_HEADER_SIZE \<in> legacy_headers s live" using assms(2) False r by (auto simp: legacy_headers_def)
    moreover have "(p - LARGE_HEADER_SIZE) mod 16 = 0"
      using bp(4,8) by (simp add: LARGE_HEADER_SIZE_def mod_eq_0_iff_dvd dvd_diff_nat)
    ultimately have "legacy_large_contains (g_hdrs s, g_registry s) p = Some True"
      using registers_mem [OF ok(7), of "p - LARGE_HEADER_SIZE"] bp(4) by (simp add: registry_mem_def)
    then show ?thesis using live_header [OF assms] False bp(7) by (simp add: large_region_known_def)
  qed
qed

lemma legacy_known:
  assumes "large_ok others oregs s live {#}" "\<not> contains (g_arena s) p 1"
  shows "large_region_known s p = Some (p \<in> set live)"
proof (cases "p \<in> set live")
  case True
  then show ?thesis using live_known [OF assms(1)] by simp
next
  case False
  note ok = large_okD [OF assms(1)]
  have "legacy_large_contains (g_hdrs s, g_registry s) p = Some False"
  proof (cases "p < LARGE_HEADER_SIZE \<or> (p - LARGE_HEADER_SIZE) mod 16 \<noteq> 0")
    case True
    then show ?thesis by (auto simp: legacy_large_contains_def)
  next
    case al: False
    have "p - LARGE_HEADER_SIZE \<notin> legacy_headers s live"
    proof
      assume "p - LARGE_HEADER_SIZE \<in> legacy_headers s live"
      then obtain q where q: "q \<in> set live" "q - LARGE_HEADER_SIZE = p - LARGE_HEADER_SIZE" by (auto simp: legacy_headers_def)
      have "LARGE_HEADER_SIZE \<le> q" using header_in_region(3) ok(8) q(1) by blast
      then show False using q False al by (metis eq_diff_iff not_le)
    qed
    then show ?thesis using registers_mem [OF ok(7), of "p - LARGE_HEADER_SIZE"] al by (simp add: registry_mem_def)
  qed
  then show ?thesis using False assms(2) by (simp add: large_region_known_def)
qed

section \<open>Growth in place\<close>

lemma resize_header:
  assumes "large_ok others oregs s (xs @ p # ys) {#}" "block_region s p = (b, n)" "p + sz \<le> b + n * PAGE_SIZE"
  shows "large_ok others oregs (s\<lparr>g_hdrs := (g_hdrs s)(p - LARGE_HEADER_SIZE := (block_header s p)\<lparr>requested_size := sz\<rparr>)\<rparr>) (xs @ p # ys) {#}"
    (is "large_ok _ _ ?s' _ _")
proof -
  note ok = large_okD [OF assms(1)]
  have hd: "block_header ?s' z = block_header s z" if "z \<in> set (xs @ ys)" for z
    using headers_apart [OF assms(1) that] by (simp add: block_header_def)
  have hp: "block_header ?s' p = (block_header s p)\<lparr>requested_size := sz\<rparr>" by (simp add: block_header_def)
  have br: "block_region ?s' z = block_region s z" if "z \<in> set (xs @ p # ys)" for z
    using that hd hp by (cases "z = p") (auto simp: block_region_def)
  let ?l = "xs @ p # ys"
  note fr = region_frame [of ?l ?s' s, OF br, simplified]
  have "registry_next (g_hdrs ?s' x) = registry_next (g_hdrs s x)" for x by (simp add: block_header_def)
  then have reg: "registers (g_hdrs ?s', g_registry s) (legacy_headers s ?l)" by (intro registers_frame [OF ok(7)])
  have bk: "block_ok ?s' z" if "z \<in> set ?l" for z
  proof (cases "z = p")
    case True
    have "block_ok s p" using ok(8) by simp
    note bp = block_pages(2) [OF this assms(2)]
    show ?thesis using \<open>block_ok s p\<close> assms(3) unfolding True block_ok_def Let_def hp by (simp add: bp)
  next
    case False
    then show ?thesis using that ok(8) hd by (auto simp: block_ok_def)
  qed
  have t: "tabled (g_arena ?s') (g_map ?s') (inside ?s' (held ?s' ?l {#}) + others) (block_regs ?s' ?l @ oregs)"
    using ok(1) by (simp add: fr)
  show ?thesis
    by (rule large_okI [OF t ok(2)]) (use ok reg bk in \<open>simp_all add: fr\<close>)
qed

text \<open>The rounded size: when the sum wraps it is zero, and the growth is refused.\<close>

lemma rounded_size:
  assumes "nm = mask_down PAGE_SIZE (add_w 64 (max tot LARGE_HEADER_SIZE) (PAGE_SIZE - 1))" "tot < 2 ^ 64" "0 < nm"
  shows "PAGE_SIZE dvd nm" "tot \<le> nm"
proof -
  let ?m = "max tot LARGE_HEADER_SIZE"
  have m: "?m < 2 ^ 64" using assms(2) by (simp add: LARGE_HEADER_SIZE_def)
  show "PAGE_SIZE dvd nm" by (simp add: assms(1))
  have "?m + (PAGE_SIZE - 1) < 2 ^ 64"
  proof (rule ccontr)
    assume w: "\<not> ?m + (PAGE_SIZE - 1) < 2 ^ 64"
    then obtain d where d: "?m + (PAGE_SIZE - 1) = 2 ^ 64 + d" by (metis le_add_diff_inverse not_le)
    moreover have "d < 2 ^ 64" using d m by (simp add: PAGE_SIZE_def del: max_less_iff_conj)
    ultimately have "add_w 64 ?m (PAGE_SIZE - 1) = d" by (simp add: add_w_def)
    moreover have "d < PAGE_SIZE" using d m by (simp add: PAGE_SIZE_def del: max_less_iff_conj)
    ultimately have "add_w 64 ?m (PAGE_SIZE - 1) < PAGE_SIZE" by simp
    then show False using assms(1,3) by (simp add: mask_down_def)
  qed
  then have "nm = mask_down PAGE_SIZE (?m + (PAGE_SIZE - 1))" by (simp add: assms(1))
  then show "tot \<le> nm" using mask_down_bounds(1) [of PAGE_SIZE ?m] by simp
qed

definition grown_block :: "large_state \<Rightarrow> large_state \<Rightarrow> addr \<Rightarrow> nat \<Rightarrow> bool \<Rightarrow> bool" where
  "grown_block s s' p sz grew \<longleftrightarrow>
     (if grew then requested_size (block_header s p) < sz \<and> requested_size (block_header s' p) = sz
        \<and> l_base (block_header s' p) = l_base (block_header s p) \<and> mapped_size (block_header s p) \<le> mapped_size (block_header s' p)
      else g_hdrs s' = g_hdrs s)"

lemma grow_frontier_move:
  assumes "large_ok others oregs s (xs @ p # ys) {#}" "block_region s p = (b, n)" "in_arena (g_arena s) (b, n)"
    "nm = mask_down PAGE_SIZE (add_w 64 (max (sz + pointer_alignment p + LARGE_HEADER_SIZE) LARGE_HEADER_SIZE) (PAGE_SIZE - 1))"
    "sz + pointer_alignment p + LARGE_HEADER_SIZE < 2 ^ 64" "n * PAGE_SIZE < nm"
    "grow_frontier (le_ok e) (g_arena s) b n (nm div PAGE_SIZE) = (grew, a)"
    "s' = (if \<not> grew then s\<lparr>g_arena := a\<rparr> else s\<lparr>g_arena := a,
       g_hdrs := (g_hdrs s)(p - LARGE_HEADER_SIZE := (block_header s p)\<lparr>mapped_size := nm, requested_size := sz\<rparr>),
       g_map := large_table_set a (g_map s) (b + n * PAGE_SIZE) (nm div PAGE_SIZE - n) (p - LARGE_HEADER_SIZE), g_map_calls := c\<rparr>)"
  shows "large_ok others oregs s' (xs @ p # ys) {#}"
proof -
  have p: "p < b + LARGE_HEADER_SIZE + pointer_alignment p" by (rule block_place(9) [OF assms(1) _ assms(2)]) simp
  note r = rounded_size [OF assms(4,5)]
  have nm: "nm div PAGE_SIZE * PAGE_SIZE = nm" using r(1) assms(6) by simp
  have fits: "p + sz \<le> b + nm div PAGE_SIZE * PAGE_SIZE" unfolding nm using r(2) assms(6) p by linarith
  note mv = grow_move [OF assms(1-3,7)]
  show ?thesis
  proof (cases grew)
    case True
    show ?thesis by (rule mv(2) [OF True fits]) (simp add: assms(8) True nm)
  next
    case False
    then show ?thesis using mv(1) assms(8) by simp
  qed
qed

lemma grow_large_facts:
  assumes "large_ok others oregs s (xs @ p # ys) {#}"
  shows "\<exists>grew s'. try_grow_large_frontier e s p sz = Some (grew, s') \<and> large_ok others oregs s' (xs @ p # ys) {#}
    \<and> grown_block s s' p sz grew"
proof (cases "contains (g_arena s) p 1")
  case False
  then show ?thesis using assms by (intro exI [of _ False] exI [of _ s]) (simp add: try_grow_large_frontier_def grown_block_def)
next
  case True
  have mem: "p \<in> set (xs @ p # ys)" by simp
  obtain b n where r: "block_region s p = (b, n)" by (cases "block_region s p")
  note bp = block_place [OF assms mem r]
  note known = live_known [OF assms mem] live_header [OF assms mem, unfolded bp(2,3)]
  have i: "in_arena (g_arena s) (b, n)" using bp(7) True by simp
  have off: "sub_w 64 p b = p - b" using bp(1,4,6) by (simp add: region_fine_def ADDRESS_LIMIT_def)
  have cap: "\<not> n * PAGE_SIZE < p - b" "b \<le> p" using bp(4,6) by simp_all
  have hdr: "g_hdrs s (p - LARGE_HEADER_SIZE) = block_header s p" by (simp add: block_header_def)
  let ?al = "pointer_alignment p"
  let ?nm = "mask_down PAGE_SIZE (add_w 64 (max (sz + ?al + LARGE_HEADER_SIZE) LARGE_HEADER_SIZE) (PAGE_SIZE - 1))"
  let ?pages = "?nm div PAGE_SIZE"
  obtain grew a where g: "grow_frontier (le_ok e) (g_arena s) b n ?pages = (grew, a)"
    by (cases "grow_frontier (le_ok e) (g_arena s) b n ?pages")
  let ?s2 = "if \<not> grew then s\<lparr>g_arena := a\<rparr> else s\<lparr>g_arena := a,
       g_hdrs := (g_hdrs s)(p - LARGE_HEADER_SIZE := (block_header s p)\<lparr>mapped_size := ?nm, requested_size := sz\<rparr>),
       g_map := large_table_set a (g_map s) (b + n * PAGE_SIZE) (?pages - n) (p - LARGE_HEADER_SIZE),
       g_map_calls := add_w 64 (g_map_calls s) 1\<rparr>"
  let ?s1 = "s\<lparr>g_hdrs := (g_hdrs s)(p - LARGE_HEADER_SIZE := (block_header s p)\<lparr>requested_size := sz\<rparr>)\<rparr>"
  have eq: "try_grow_large_frontier e s p sz =
     (if sz \<le> requested_size (block_header s p) then Some (False, s)
      else if sz \<le> n * PAGE_SIZE - (p - b) then Some (True, ?s1)
      else if \<not> (sz + ?al < 2 ^ 64 \<and> sz + ?al + LARGE_HEADER_SIZE < 2 ^ 64) \<or> ?nm \<le> n * PAGE_SIZE \<or> 2 ^ 32 \<le> ?pages - n then Some (False, s)
      else Some (grew, ?s2))"
    using True known g
    by (simp add: try_grow_large_frontier_def hdr bp(2,3) off cap(1) Let_def checked_add_def USIZE_BITS_def)
  show ?thesis
  proof (cases "sz \<le> requested_size (block_header s p)")
    case True
    then show ?thesis using assms by (intro exI [of _ False] exI [of _ s]) (simp add: eq grown_block_def)
  next
    case more: False
    show ?thesis
    proof (cases "sz \<le> n * PAGE_SIZE - (p - b)")
      case True
      then have "p + sz \<le> b + n * PAGE_SIZE" using cap by simp
      from resize_header [OF assms r this] show ?thesis using more True
        by (intro exI [of _ True] exI [of _ ?s1]) (simp add: eq grown_block_def block_header_def)
    next
      case False
      show ?thesis
      proof (cases "\<not> (sz + ?al < 2 ^ 64 \<and> sz + ?al + LARGE_HEADER_SIZE < 2 ^ 64) \<or> ?nm \<le> n * PAGE_SIZE \<or> 2 ^ 32 \<le> ?pages - n")
        case True
        then show ?thesis using assms more False by (intro exI [of _ False] exI [of _ s]) (simp add: eq grown_block_def)
      next
        case go: False
        then have pre: "sz + ?al + LARGE_HEADER_SIZE < 2 ^ 64" "n * PAGE_SIZE < ?nm" by (simp_all only: de_Morgan_disj not_le not_not)
        have "large_ok others oregs ?s2 (xs @ p # ys) {#}" by (rule grow_frontier_move [OF assms r i refl pre g refl])
        moreover have "grown_block s ?s2 p sz grew"
          using more pre(2) bp(2,3) by (simp add: grown_block_def block_header_def)
        moreover have "try_grow_large_frontier e s p sz = Some (grew, ?s2)"
          unfolding eq if_not_P [OF more] if_not_P [OF False] if_not_P [OF go] ..
        ultimately show ?thesis by blast
      qed
    qed
  qed
qed

section \<open>Properties\<close>

text \<open>C35 (safety).  A large allocation, whatever tier serves it and whatever the kernel answers: it fails and
  leaves the live blocks alone, or returns a block of the requested alignment, with its header in front of it
  and room for the request inside one region that was held by nobody else; the block is recognised, and no
  header of another block has changed.\<close>
theorem alloc_large_correct:
  assumes "large_ok others oregs s live {#}" "caller_ok e s" "align = 2 ^ k" "0 < sz" "mmap_ok e s live sz align zr slack"
    "alloc_large_ex e s sz align zr slack = ((p, fresh, z), s')"
  shows "if p = null then large_ok others oregs s' live {#} \<and> g_hdrs s' = g_hdrs s
    else large_ok others oregs s' (p # live) {#} \<and> align dvd p \<and> large_region_known s' p = Some True
      \<and> (\<exists>b n. block_region s' p = (b, n) \<and> b + LARGE_HEADER_SIZE \<le> p \<and> p + sz \<le> b + n * PAGE_SIZE)
      \<and> (\<forall>q \<in> set live. block_header s' q = block_header s q)"
proof -
  note a = alloc_large_facts [OF assms]
  obtain b n where r: "block_region s' p = (b, n)" by (cases "block_region s' p")
  show ?thesis
  proof (cases "p = null")
    case False
    then have ok: "large_ok others oregs s' (p # live) {#}" "serves s s' live sz align p" using a by auto
    have "p \<in> set (p # live)" by simp
    from live_known [OF ok(1) this] block_place(4,5) [OF ok(1) this r] show ?thesis
      using ok False r by (auto simp: serves_def)
  qed (use a in simp)
qed

text \<open>Freeing a live large block always ends, registry walk included; the block is out of
  service (outside the arena it is no longer recognised), its region is held by exactly one idle place or gone
  back to the system, and every other block keeps its header and is still recognised.\<close>
theorem free_large_correct:
  assumes "large_ok others oregs s (xs @ p # ys) {#}" "caller_ok e s"
  shows "\<exists>s'. free_large e s p = Some s' \<and> large_ok others oregs s' (xs @ ys) {#}
    \<and> (\<not> contains (g_arena s') p 1 \<longrightarrow> large_region_known s' p = Some False)
    \<and> (\<forall>q \<in> set (xs @ ys). large_region_known s' q = Some True \<and> same_block (block_header s q) (block_header s' q))"
proof -
  obtain s' where s': "free_large e s p = Some s'" "large_ok others oregs s' (xs @ ys) {#}"
    "\<forall>q. same_block (block_header s q) (block_header s' q)"
    using free_large_facts [OF assms] by blast
  have "p \<notin> set (xs @ ys)" using headers_apart [OF assms(1), of p] by auto
  then have "\<not> contains (g_arena s') p 1 \<longrightarrow> large_region_known s' p = Some False"
    using legacy_known [OF s'(2), of p] by simp
  then show ?thesis using s' live_known [OF s'(2)] by (intro exI [of _ s']) simp
qed

text \<open>Growing a live block in place: the call ends; on success the header has the new size, the
  base is the same and the region, which reaches at least as far as before, still overlaps no other; on
  refusal no header has changed, even when the arena had to give the extension back.\<close>
theorem grow_large_correct:
  assumes "large_ok others oregs s (xs @ p # ys) {#}"
  shows "\<exists>grew s'. try_grow_large_frontier e s p sz = Some (grew, s') \<and> large_ok others oregs s' (xs @ p # ys) {#}
    \<and> (if grew then requested_size (block_header s p) < sz \<and> requested_size (block_header s' p) = sz
        \<and> l_base (block_header s' p) = l_base (block_header s p)
        \<and> mapped_size (block_header s p) \<le> mapped_size (block_header s' p)
        \<and> p + sz \<le> l_base (block_header s' p) + mapped_size (block_header s' p)
      else g_hdrs s' = g_hdrs s)"
proof -
  obtain grew s' where g: "try_grow_large_frontier e s p sz = Some (grew, s')" "large_ok others oregs s' (xs @ p # ys) {#}"
    "grown_block s s' p sz grew"
    using grow_large_facts [OF assms] by blast
  obtain b n where "block_region s' p = (b, n)" by (cases "block_region s' p")
  note bp = block_place [OF g(2) _ this]
  have "p + requested_size (block_header s' p) \<le> l_base (block_header s' p) + mapped_size (block_header s' p)"
    using bp(2,3,5) by simp
  then show ?thesis using g by (auto simp: grown_block_def split: if_splits)
qed

text \<open>Histories: any calls of any threads, one after the other, each with its own answers of the kernel.\<close>

definition large_new :: "large_headers \<Rightarrow> arena \<Rightarrow> big_map \<Rightarrow> nat \<Rightarrow> large_state" where
  "large_new h a m threads =
     \<lparr> g_hdrs = h, g_registry = registry_new, g_arena = a, g_map = m,
       g_shards = replicate NUM_LARGE_SHARDS large_cache_new, g_stashes = replicate threads stash_new,
       g_mapped_pages = 0, g_map_calls = 0, g_unmap_calls = 0 \<rparr>"

inductive large_run :: "large_state \<Rightarrow> large_state \<Rightarrow> addr list \<Rightarrow> bool" for s0 where
  run_start: "large_run s0 s0 []"
| run_alloc: "large_run s0 s live \<Longrightarrow> caller_ok e s \<Longrightarrow> align = 2 ^ k \<Longrightarrow> 0 < sz \<Longrightarrow> mmap_ok e s live sz align zr slack \<Longrightarrow>
    alloc_large_ex e s sz align zr slack = ((p, fresh, z), s') \<Longrightarrow> large_run s0 s' (if p = null then live else p # live)"
| run_free: "large_run s0 s (xs @ p # ys) \<Longrightarrow> caller_ok e s \<Longrightarrow> free_large e s p = Some s' \<Longrightarrow> large_run s0 s' (xs @ ys)"
| run_grow: "large_run s0 s (xs @ p # ys) \<Longrightarrow> try_grow_large_frontier e s p sz = Some (grew, s') \<Longrightarrow>
    large_run s0 s' (xs @ p # ys)"

lemma large_run_ok: "large_run s0 s live \<Longrightarrow> large_ok others oregs s0 [] {#} \<Longrightarrow> large_ok others oregs s live {#}"
proof (induction rule: large_run.induct)
  case (run_alloc s live e align k sz zr slack p fresh z s')
  then show ?case using alloc_large_facts [OF run_alloc(7) [OF run_alloc(8)] run_alloc(2-6)] by simp
next
  case (run_free s xs p ys e s')
  then show ?case using free_large_facts [OF run_free(4) [OF run_free(5)] run_free(2)] by simp
next
  case (run_grow s xs p ys e sz grew s')
  then show ?case using grow_large_facts [OF run_grow(3) [OF run_grow(4)], of e sz] by simp
qed

lemma large_new_ok:
  assumes "tabled a m others oregs" "mset (map fst oregs) \<subseteq># others" "ar_end a \<le> ADDRESS_LIMIT"
  shows "large_ok others oregs (large_new h a m threads) [] {#}"
proof -
  let ?s = "large_new h a m threads"
  have zero: "sum_list (replicate k {#}) = {#}" for k by (induction k) simp_all
  have "shard_regions large_cache_new = {#}" "stash_list stash_new = []"
    by (simp_all add: shard_regions_def hot_list_def cold_list_def large_cache_new_def stash_list_def stash_new_def)
  then have H: "held ?s [] {#} = {#}" by (simp add: held_def idle_def large_new_def map_replicate zero)
  have "caches_ok ?s"
    using cache_ok_new stash_ok_new by (auto simp: caches_ok_def large_new_def)
  moreover have "registers (g_hdrs ?s, g_registry ?s) (legacy_headers ?s [])"
    using registers_new by (simp add: large_new_def legacy_headers_def)
  ultimately show ?thesis
    using assms by (intro large_okI) (simp_all add: H outside_ok_def block_regs_def, simp_all add: large_new_def)
qed

text \<open>C36 (invariant).  Over any history of large allocations, frees and growths: every live block is recognised
  and lies behind its header inside its own region; no byte belongs to the regions of two live blocks, or of a
  live block and an idle place, or of a live block and a slice of another owner of the arena; and freeing any
  live block would end.\<close>
theorem large_blocks_disjoint:
  assumes "tabled a m others oregs" "mset (map fst oregs) \<subseteq># others" "ar_end a \<le> ADDRESS_LIMIT"
    and "large_run (large_new h a m threads) s live" "p \<in> set live" "q \<in> set live"
  shows "large_region_known s p = Some True
    \<and> (\<exists>b n. block_region s p = (b, n) \<and> large_header_of s p = Some (b, n * PAGE_SIZE)
        \<and> b + LARGE_HEADER_SIZE \<le> p \<and> p + requested_size (block_header s p) \<le> b + n * PAGE_SIZE)
    \<and> (p \<noteq> q \<longrightarrow> \<not> (hit x (block_region s p) = 1 \<and> hit x (block_region s q) = 1))
    \<and> \<not> (hit x (block_region s p) = 1 \<and> mcover x (idle s + others) \<noteq> 0)
    \<and> (caller_ok e s \<longrightarrow> free_large e s p \<noteq> None)"
proof -
  have ok: "large_ok others oregs s live {#}" by (rule large_run_ok [OF assms(4) large_new_ok [OF assms(1-3)]])
  obtain b n where r: "block_region s p = (b, n)" by (cases "block_region s p")
  obtain xs ys where split: "live = xs @ p # ys" using assms(5) by (auto simp: in_set_conv_decomp)
  have "\<not> (hit x (block_region s p) = 1 \<and> hit x (block_region s q) = 1)" if "p \<noteq> q"
  proof (rule held_apart [OF ok, where H = "mset (map (block_region s) live)"])
    have "q \<in> set (xs @ ys)" using assms(6) split that by auto
    then show "block_region s q \<in># mset (map (block_region s) live) - {#block_region s p#}" by (auto simp: split)
    show "mset (map (block_region s) live) \<subseteq># held s live {#}" by (rule held_blocks)
  qed (use assms(5) in simp)
  moreover have "\<not> (hit x (block_region s p) = 1 \<and> mcover x (idle s + others) \<noteq> 0)"
    using large_ok_cover [OF ok, of x] by (auto simp: held_def split)
  moreover have "free_large e s p \<noteq> None" if "caller_ok e s"
    using free_large_facts [OF ok [unfolded split] that] by auto
  ultimately show ?thesis
    using live_known [OF ok assms(5)] live_header [OF ok assms(5)] block_place [OF ok assms(5) r] r by auto
qed

text \<open>Outside the arena the lookup that \<open>free\<close>, \<open>realloc\<close> and \<open>usable_size\<close> dispatch on ends and
  answers exactly whether the pointer is a live large block, whatever the memory in front of it holds.\<close>
theorem large_region_known_correct:
  assumes "tabled a m others oregs" "mset (map fst oregs) \<subseteq># others" "ar_end a \<le> ADDRESS_LIMIT"
    and "large_run (large_new h a m threads) s live" "\<not> contains (g_arena s) p 1"
  shows "large_region_known s p = Some (p \<in> set live)"
  by (rule legacy_known [OF large_run_ok [OF assms(4) large_new_ok [OF assms(1-3)]] assms(5)])

section \<open>A concrete history\<close>

text \<open>One thread without a cache asks a fresh allocator with a small arena for 100000 bytes.\<close>

definition demo_env :: large_env where
  "demo_env = \<lparr> le_ok = (\<lambda>_ _. True), le_raw = None, le_map = None, le_handoff = \<lparr> physical = True, zeroed = True \<rparr>,
     le_park = \<lparr> physical = True, zeroed = True \<rparr>, le_unmap = True, le_tls = None \<rparr>"

definition demo_large :: large_state where
  "demo_large = large_new (\<lambda>_. \<lparr> l_magic = 0, mapped_size = 0, l_base = 0, requested_size = 0, registry_next = 0 \<rparr>) demo_arena big_map_new 1"

lemma demo_tabled: "tabled demo_arena big_map_new {#} []"
proof -
  have "world_ok (world_of demo_arena)"
    by (rule initial_world_ok [OF demo_init]) (simp_all add: ARENA_ALIGN_def USIZE_BITS_def)
  then show ?thesis
    by (intro tabledI [where own = "[]" and gone = "[]"])
      (simp_all add: world_of_def demo_arena_def with_size_def const_simps big_map_new_def reg_word_def)
qed

lemma demo_bounds: "mset (map fst ([] :: (slice \<times> table_entry) list)) \<subseteq># {#}" "ar_end demo_arena \<le> ADDRESS_LIMIT"
  by (simp_all add: demo_arena_def with_size_def const_simps)

lemma demo_large_ok: "large_ok {#} [] demo_large [] {#}"
  unfolding demo_large_def by (rule large_new_ok [OF demo_tabled demo_bounds])

lemma take_fit_new: "take_fit large_cache_new m = (None, large_cache_new)"
proof -
  have "exact_hot large_cache_new w = None" "exact_cold large_cache_new w = None" for w
    by (auto simp: exact_hot_def exact_cold_def large_cache_new_def Let_def)
  then show ?thesis by (simp add: take_fit_def large_cache_new_def)
qed

lemma demo_alloc:
  "\<exists>s'. alloc_large_ex demo_env demo_large 100000 16 False 0 = ((65584, True, True), s')" (is ?alloc)
  "mmap_ok demo_env demo_large [] 100000 16 False 0" "caller_ok demo_env demo_large"
proof -
  have m: "large_mapped 100000 16 0 = Some 131072"
    by (simp add: large_mapped_def checked_add_def const_simps USIZE_BITS_def mask_down_def)
  have st: "large_from_stash demo_env demo_large 100000 16 False w = ((None, 0), demo_large)" for w
    by (simp add: large_from_stash_def demo_env_def)
  have j: "large_shard w 0 < NUM_LARGE_SHARDS" for w by (rule large_shard_less)
  then have sh: "g_shards demo_large ! large_shard w 0 = large_cache_new" for w by (simp add: demo_large_def large_new_def)
  have id: "(g_shards demo_large)[large_shard w 0 := large_cache_new] = g_shards demo_large" for w
    by (metis sh list_update_id)
  have c: "large_from_caches demo_env demo_large 100000 16 False 131072 = (None, demo_large)"
    by (simp add: large_from_caches_def st large_from_shard_def sh take_fit_new id Let_def)
  have ho: "holes_take demo_arena 2 = (null, demo_arena)" by (simp add: holes_take_def demo_arena_def with_size_def)
  have bu: "claim_bump demo_arena (2 * ARENA_ALIGN) = Some (ARENA_ALIGN, demo_arena\<lparr>ar_bump := 2 * ARENA_ALIGN\<rparr>)"
    by (simp add: claim_bump_def demo_arena_def with_size_def checked_add_def const_simps USIZE_BITS_def)
  have "ar_state demo_arena = 1" "2 * ARENA_ALIGN < 2 ^ USIZE_BITS" "ar_commits demo_arena = 0"
    by (simp_all add: demo_arena_def with_size_def ARENA_ALIGN_def USIZE_BITS_def)
  then have "commit (\<lambda>_ _. True) None demo_arena 2 = ((ARENA_ALIGN, True), demo_arena\<lparr>ar_bump := 2 * ARENA_ALIGN, ar_commits := 1\<rparr>)"
    using commit_ready [of demo_arena 2] by (simp add: ho bu)
  then have "commit (\<lambda>_ _. True) None demo_arena 2 = ((65536, True), demo_arena\<lparr>ar_bump := 2 * ARENA_ALIGN, ar_commits := 1\<rparr>)"
    by (simp add: ARENA_ALIGN_def)
  then have "\<exists>s1. map_large_region demo_env demo_large 131072 = ((65536, True), s1)"
    by (simp add: map_large_region_def demo_env_def demo_large_def large_new_def PAGE_SIZE_def)
  moreover have "block_fits 65536 131072 100000 16" "block_in 65536 16 = 65584"
    by (simp_all add: block_fits_def block_in_def align_up_def mask_down_def const_simps)
  ultimately show ?alloc
    by (auto simp: alloc_large_ex_def m c large_from_map_def Let_def)
  show "mmap_ok demo_env demo_large [] 100000 16 False 0" by (simp add: mmap_ok_def maps_fresh_def demo_env_def)
  show "caller_ok demo_env demo_large" by (simp add: caller_ok_def demo_env_def)
qed

theorem alloc_large_correct_witness:
  "\<exists>s'. alloc_large_ex demo_env demo_large 100000 16 False 0 = ((65584, True, True), s') \<and> large_region_known s' 65584 = Some True"
proof -
  obtain s' where s': "alloc_large_ex demo_env demo_large 100000 16 False 0 = ((65584, True, True), s')" using demo_alloc(1) by blast
  show ?thesis
    using alloc_large_correct [OF demo_large_ok demo_alloc(3) _ _ demo_alloc(2) s', of 4] s' by simp
qed

lemma demo_live: "\<exists>s'. large_run demo_large s' [65584] \<and> large_ok {#} [] s' [65584] {#}"
proof -
  obtain s' where s': "alloc_large_ex demo_env demo_large 100000 16 False 0 = ((65584, True, True), s')" using demo_alloc(1) by blast
  have "large_run demo_large s' [65584]"
    using run_alloc [OF run_start demo_alloc(3) _ _ demo_alloc(2) s', of 4] by simp
  then show ?thesis using large_run_ok [OF _ demo_large_ok] by blast
qed

theorem free_large_correct_witness:
  "\<exists>s s'. large_run demo_large s [65584] \<and> free_large demo_env s 65584 = Some s' \<and> large_ok {#} [] s' [] {#}"
proof -
  obtain s where s: "large_run demo_large s [65584]" "large_ok {#} [] s ([] @ 65584 # []) {#}" using demo_live by auto
  have "caller_ok demo_env s" by (simp add: caller_ok_def demo_env_def)
  from free_large_correct [OF s(2) this] s(1) show ?thesis by auto
qed

theorem grow_large_correct_witness:
  "\<exists>s grew s'. large_run demo_large s [65584] \<and> try_grow_large_frontier demo_env s 65584 120000 = Some (grew, s') \<and> large_ok {#} [] s' [65584] {#}"
proof -
  obtain s where s: "large_run demo_large s [65584]" "large_ok {#} [] s ([] @ 65584 # []) {#}" using demo_live by auto
  from grow_large_correct [OF s(2), of demo_env 120000] s(1) show ?thesis by auto
qed

theorem large_blocks_disjoint_witness:
  "\<exists>s. large_run demo_large s [65584] \<and> large_region_known s 65584 = Some True \<and> free_large demo_env s 65584 \<noteq> None"
proof -
  obtain s where s: "large_run demo_large s [65584]" using demo_live by auto
  have "caller_ok demo_env s" by (simp add: caller_ok_def demo_env_def)
  then show ?thesis
    using large_blocks_disjoint [OF demo_tabled demo_bounds s [unfolded demo_large_def], of 65584 65584 0 demo_env] s by auto
qed

theorem large_region_known_correct_witness:
  "\<exists>s. large_run demo_large s [65584] \<and> large_region_known s 40 = Some False"
proof -
  obtain s where s: "large_run demo_large s [65584]" "large_ok {#} [] s [65584] {#}" using demo_live by auto
  have "\<not> contains (g_arena s) 40 1"
  proof
    assume "contains (g_arena s) 40 1"
    moreover have "arena_ok (g_arena s)" by (rule tabled_arena(1) [OF large_okD(1) [OF s(2)]])
    ultimately have "0 < ar_start (g_arena s)" "ar_start (g_arena s) \<le> 40" "ARENA_ALIGN dvd ar_start (g_arena s)"
      by (auto simp: contains_def arena_ok_def split: option.splits)
    then show False by (auto simp: ARENA_ALIGN_def dest: dvd_imp_le)
  qed
  then show ?thesis
    using large_region_known_correct [OF demo_tabled demo_bounds s(1) [unfolded demo_large_def], of 40] s(1) by auto
qed

end
