(* ===== verification/Dispatch.thy ===== *)
theory Dispatch
  imports Direct_Heap Tls_Guard Large_Blocks
begin

text \<open>
  The dispatch by size, alignment and address (\<open>src/src/lib.rs\<close>): which tier serves a request, through the
  calling thread's cache or past it, and to which tier a pointer goes back.

  The state of a call is the flag and cache of the calling thread with the heaps (\<open>w_flag\<close>, \<open>w_cache\<close>), the
  large regions (\<open>w_large\<close>) and the bytes of the blocks the program holds (\<open>w_bytes\<close>).  What the arena and the
  side table were asked for by the heaps is in the logs of the heaps, and the lookups of medium and big spans
  are arguments, as in \<open>Thread_Cache\<close>: \<open>ce_span_at\<close> is \<open>SpanMaster::of\<close>, \<open>ce_big_at\<close> is \<open>big_table_get\<close>.  Debug
  checks and telemetry are left out.  \<open>None\<close> is a loop that does not end.
\<close>

section \<open>State\<close>

record api_state =
  w_flag :: "tls_flag option"
  w_cache :: cache_state
  w_large :: large_state
  w_bytes :: "addr \<Rightarrow> nat"

text \<open>
  What a lookup answers during one call: \<open>medium_table_get\<close>, the class in the header of the page of an address
  when the magic there is that of a page, the class in a span header, and whether the span covers an address.
\<close>

record lookups =
  lk_medium_at :: "addr \<Rightarrow> addr"
  lk_page_class :: "addr \<Rightarrow> nat option"
  lk_mclass :: "addr \<Rightarrow> nat"
  lk_bclass :: "addr \<Rightarrow> nat"
  lk_span_has :: "addr \<Rightarrow> addr \<Rightarrow> bool"
  lk_big_has :: "addr \<Rightarrow> addr \<Rightarrow> bool"

section \<open>With the cache or without\<close>

definition on_cache :: "(cache_state \<Rightarrow> ('r \<times> cache_state) option) \<Rightarrow> tls_state \<Rightarrow> ('r \<times> tls_state) option" where
  "on_cache f s = map_option (\<lambda>(r, c). (r, (fst s, c))) (f (snd s))"

definition with_cache :: "(cache_state \<Rightarrow> ('r \<times> cache_state) option) \<Rightarrow> (cache_state \<Rightarrow> ('r \<times> cache_state) option) \<Rightarrow>
    api_state \<Rightarrow> ('r \<times> api_state) option" where
  "with_cache f fallback w =
     map_option (\<lambda>(r, g, c). (r, w\<lparr>w_flag := g, w_cache := c\<rparr>))
       (with_tls (on_cache f) (on_cache fallback) (w_flag w, w_cache w))"

text \<open>The fallbacks, at the heap of the class.\<close>

fun heap_take :: "cache_env \<Rightarrow> tier \<Rightarrow> nat \<Rightarrow> cache_state \<Rightarrow> ((addr \<times> bool) \<times> cache_state) option" where
  "heap_take e Small c s = map_option (\<lambda>(r, h). (r, (fst s, (snd s)\<lparr>gl_small := (gl_small (snd s))[c := h]\<rparr>)))
     (take_one_small e c (gl_small (snd s) ! c))"
| "heap_take e Medium c s = map_option (\<lambda>(r, h). (r, (fst s, (snd s)\<lparr>gl_medium := (gl_medium (snd s))[c := h]\<rparr>)))
     (take_one_medium e c (gl_medium (snd s) ! c))"
| "heap_take e Big c s = map_option (\<lambda>(r, h). (r, (fst s, (snd s)\<lparr>gl_big := (gl_big (snd s))[c := h]\<rparr>)))
     (take_one_big e c (gl_big (snd s) ! c))"

definition heap_free_small :: "cache_env \<Rightarrow> nat \<Rightarrow> addr \<Rightarrow> cache_state \<Rightarrow> cache_state option" where
  "heap_free_small e c p s = map_option (\<lambda>h. (fst s, (snd s)\<lparr>gl_small := (gl_small (snd s))[c := h]\<rparr>))
     (free_one_small e p (gl_small (snd s) ! c))"

definition heap_free_medium :: "cache_env \<Rightarrow> nat \<Rightarrow> addr \<Rightarrow> addr \<Rightarrow> cache_state \<Rightarrow> cache_state option" where
  "heap_free_medium e c span p s = map_option (\<lambda>h. (fst s, (snd s)\<lparr>gl_medium := (gl_medium (snd s))[c := h]\<rparr>))
     (free_one_medium e c span p (gl_medium (snd s) ! c))"

definition heap_free_big :: "cache_env \<Rightarrow> nat \<Rightarrow> addr \<Rightarrow> addr \<Rightarrow> cache_state \<Rightarrow> cache_state option" where
  "heap_free_big e c span p s = map_option (\<lambda>h. (fst s, (snd s)\<lparr>gl_big := (gl_big (snd s))[c := h]\<rparr>))
     (free_one_big e span p (gl_big (snd s) ! c))"

definition plain :: "('s \<Rightarrow> ((addr \<times> bool) \<times> 's) option) \<Rightarrow> 's \<Rightarrow> (addr \<times> 's) option" where
  "plain f s = map_option (\<lambda>((p, z), s'). (p, s')) (f s)"

definition alloc_small :: "cache_env \<Rightarrow> nat \<Rightarrow> api_state \<Rightarrow> (addr \<times> api_state) option" where
  "alloc_small e c = with_cache (alloc e c) (plain (heap_take e Small c))"

definition alloc_medium_block :: "cache_env \<Rightarrow> nat \<Rightarrow> api_state \<Rightarrow> (addr \<times> api_state) option" where
  "alloc_medium_block e c = with_cache (alloc_medium e c) (plain (heap_take e Medium c))"

definition alloc_big_block :: "cache_env \<Rightarrow> nat \<Rightarrow> api_state \<Rightarrow> (addr \<times> api_state) option" where
  "alloc_big_block e c = with_cache (alloc_big e c) (plain (heap_take e Big c))"

text \<open>A free that finds a pointer it does not own stops the program.\<close>

datatype api_error = Corrupt_Pointer

type_synonym 'r outcome = "(api_error + 'r) option"

definition with_cache_free :: "(cache_state \<Rightarrow> cache_state option) \<Rightarrow> (cache_state \<Rightarrow> cache_state option) \<Rightarrow> api_state \<Rightarrow> api_state outcome" where
  "with_cache_free f fallback w =
     map_option (\<lambda>(_, w'). Inr w')
       (with_cache (\<lambda>s. map_option (Pair ()) (f s)) (\<lambda>s. map_option (Pair ()) (fallback s)) w)"

definition dealloc_small_class :: "cache_env \<Rightarrow> addr \<Rightarrow> nat \<Rightarrow> api_state \<Rightarrow> api_state outcome" where
  "dealloc_small_class e p c = with_cache_free (dealloc e p c) (heap_free_small e c p)"

definition dealloc_medium_block :: "cache_env \<Rightarrow> addr \<Rightarrow> addr \<Rightarrow> nat \<Rightarrow> api_state \<Rightarrow> api_state outcome" where
  "dealloc_medium_block e p span c = with_cache_free (dealloc_medium e p c) (heap_free_medium e c span p)"

definition dealloc_big_block :: "cache_env \<Rightarrow> lookups \<Rightarrow> addr \<Rightarrow> addr \<Rightarrow> api_state \<Rightarrow> api_state outcome" where
  "dealloc_big_block e lk p span =
     (let c = lk_bclass lk span in with_cache_free (dealloc_big e p span c) (heap_free_big e c span p))"

section \<open>Allocation\<close>

definition MAX_PACKED_BLOCK :: nat where [const_simps]: "MAX_PACKED_BLOCK = MAX_BIG_BLOCK"

definition needs_large :: "nat \<Rightarrow> nat \<Rightarrow> bool" where
  "needs_large sz align \<longleftrightarrow> MIN_ALIGN < align \<or> MAX_PACKED_BLOCK < sz"

definition alloc_large_block :: "large_env \<Rightarrow> nat \<Rightarrow> nat \<Rightarrow> api_state \<Rightarrow> addr \<times> api_state" where
  "alloc_large_block le sz align w = (let (p, l) = alloc_large le (w_large w) sz align in (p, w\<lparr>w_large := l\<rparr>))"

definition alloc_tiered :: "cache_env \<Rightarrow> large_env \<Rightarrow> nat \<Rightarrow> nat \<Rightarrow> api_state \<Rightarrow> (addr \<times> api_state) option" where
  "alloc_tiered e le sz align w =
     (if needs_large sz align then Some (alloc_large_block le sz align w)
      else if MAX_MEDIUM_BLOCK < sz then
        case alloc_big_block e (big_class_for_size sz) w of
          None \<Rightarrow> None
        | Some (p, w') \<Rightarrow> if p = null then Some (alloc_large_block le sz align w') else Some (p, w')
      else if MAX_SMALL_SIZE < sz then alloc_medium_block e (medium_class_for_size sz) w
      else alloc_small e (class_for_size sz) w)"

definition alloc_impl :: "cache_env \<Rightarrow> large_env \<Rightarrow> nat \<Rightarrow> nat \<Rightarrow> api_state \<Rightarrow> (addr \<times> api_state) option" where
  "alloc_impl e le sz align w =
     (if sz = 0 then Some (max align 1, w)
      else if sz \<le> MAX_SMALL_SIZE \<and> align \<le> MIN_ALIGN then alloc_small e (class_for_size sz) w
      else alloc_tiered e le sz align w)"

section \<open>Zeroed allocation\<close>

definition write_zeros :: "addr \<Rightarrow> nat \<Rightarrow> api_state \<Rightarrow> api_state" where
  "write_zeros p n w = w\<lparr>w_bytes := (\<lambda>a. if p \<le> a \<and> a < p + n then 0 else w_bytes w a)\<rparr>"

text \<open>Of a block never handed out before only the link word is dirty.\<close>

definition zero_block :: "addr \<Rightarrow> bool \<Rightarrow> nat \<Rightarrow> api_state \<Rightarrow> api_state" where
  "zero_block p virgin sz w = (if virgin then write_zeros p 8 w else write_zeros p sz w)"

definition zero_large_allocation :: "addr \<Rightarrow> nat \<Rightarrow> bool \<Rightarrow> api_state \<Rightarrow> api_state" where
  "zero_large_allocation p sz known_zeroed w = (if p \<noteq> null \<and> \<not> known_zeroed then write_zeros p sz w else w)"

definition alloc_large_zeroed :: "large_env \<Rightarrow> nat \<Rightarrow> nat \<Rightarrow> api_state \<Rightarrow> addr \<times> api_state" where
  "alloc_large_zeroed le sz align w =
     (let ((p, _, known_zeroed), l) = alloc_large_ex le (w_large w) sz align True 0
      in (p, zero_large_allocation p sz known_zeroed (w\<lparr>w_large := l\<rparr>)))"

definition alloc_zeroed_impl :: "cache_env \<Rightarrow> large_env \<Rightarrow> nat \<Rightarrow> nat \<Rightarrow> api_state \<Rightarrow> (addr \<times> api_state) option" where
  "alloc_zeroed_impl e le sz align w =
     (if sz = 0 then Some (max align 1, w)
      else if needs_large sz align then Some (alloc_large_zeroed le sz align w)
      else if MAX_MEDIUM_BLOCK < sz then
        let c = big_class_for_size sz in
        case with_cache (alloc_big_zeroed e c) (heap_take e Big c) w of
          None \<Rightarrow> None
        | Some ((p, virgin), w') \<Rightarrow>
            if p = null then Some (alloc_large_zeroed le sz align w') else Some (p, zero_block p virgin sz w')
      else if MAX_SMALL_SIZE < sz then
        let c = medium_class_for_size sz in
        case with_cache (alloc_medium_zeroed e c) (heap_take e Medium c) w of
          None \<Rightarrow> None
        | Some ((p, virgin), w') \<Rightarrow> Some (p, if p \<noteq> null then zero_block p virgin sz w' else w')
      else
        let c = class_for_size sz in
        case with_cache (alloc_zeroed e c) (heap_take e Small c) w of
          None \<Rightarrow> None
        | Some ((p, virgin), w') \<Rightarrow> Some (p, if p \<noteq> null then zero_block p virgin sz w' else w'))"

section \<open>Freeing\<close>

definition free_large_block :: "large_env \<Rightarrow> addr \<Rightarrow> api_state \<Rightarrow> api_state outcome" where
  "free_large_block le p w = map_option (\<lambda>l. Inr (w\<lparr>w_large := l\<rparr>)) (free_large le (w_large w) p)"

abbreviation in_arena_block :: "api_state \<Rightarrow> addr \<Rightarrow> bool" where
  "in_arena_block w p \<equiv> contains (g_arena (w_large w)) p 1"

abbreviation large_at :: "api_state \<Rightarrow> addr \<Rightarrow> addr" where
  "large_at w p \<equiv> large_table_get (g_arena (w_large w)) (g_map (w_large w)) p"

text \<open>Routed by the layout of the caller.\<close>

definition dealloc_tiered :: "cache_env \<Rightarrow> large_env \<Rightarrow> lookups \<Rightarrow> addr \<Rightarrow> nat \<Rightarrow> nat \<Rightarrow> api_state \<Rightarrow> api_state outcome" where
  "dealloc_tiered e le lk p sz align w =
     (if needs_large sz align then free_large_block le p w
      else if MAX_MEDIUM_BLOCK < sz then
        if \<not> in_arena_block w p then free_large_block le p w
        else if large_at w p \<noteq> null then free_large_block le p w
        else
          let big = ce_big_at e p
          in if big = null then Some (Inl Corrupt_Pointer) else dealloc_big_block e lk p big w
      else dealloc_medium_block e p (ce_span_at e p) (medium_class_for_size sz) w)"

definition dealloc_with_layout :: "cache_env \<Rightarrow> large_env \<Rightarrow> lookups \<Rightarrow> addr \<Rightarrow> nat \<Rightarrow> nat \<Rightarrow> api_state \<Rightarrow> api_state outcome" where
  "dealloc_with_layout e le lk p sz align w =
     (if sz \<le> MAX_SMALL_SIZE \<and> align \<le> MIN_ALIGN then dealloc_small_class e p (class_for_size sz) w
      else dealloc_tiered e le lk p sz align w)"

text \<open>Routed by the pointer alone.\<close>

definition dealloc_small :: "cache_env \<Rightarrow> addr \<Rightarrow> nat \<Rightarrow> api_state \<Rightarrow> api_state outcome" where
  "dealloc_small e p page_class = dealloc_small_class e p page_class"

definition dealloc_by_header :: "cache_env \<Rightarrow> lookups \<Rightarrow> addr \<Rightarrow> api_state \<Rightarrow> api_state outcome" where
  "dealloc_by_header e lk p w =
     (case lk_page_class lk p of
        Some c \<Rightarrow> dealloc_small e p c w
      | None \<Rightarrow>
          let span = ce_span_at e p
          in if span \<noteq> null \<and> lk_span_has lk span p then dealloc_medium_block e p span (lk_mclass lk span) w
             else Some (Inl Corrupt_Pointer))"

definition dealloc_impl :: "cache_env \<Rightarrow> large_env \<Rightarrow> lookups \<Rightarrow> addr \<Rightarrow> api_state \<Rightarrow> api_state outcome" where
  "dealloc_impl e le lk p w =
     (if p = null then Some (Inr w)
      else if p < LARGE_HEADER_SIZE then Some (Inl Corrupt_Pointer)
      else if in_arena_block w p then
        if large_at w p \<noteq> null then free_large_block le p w
        else if lk_medium_at lk p \<noteq> null then
          let span = lk_medium_at lk p
          in if lk_span_has lk span p then dealloc_medium_block e p span (lk_mclass lk span) w
             else Some (Inl Corrupt_Pointer)
        else if ce_big_at e p \<noteq> null then
          if lk_big_has lk (ce_big_at e p) p then dealloc_big_block e lk p (ce_big_at e p) w
          else Some (Inl Corrupt_Pointer)
        else dealloc_by_header e lk p w
      else
        case large_region_known (w_large w) p of
          None \<Rightarrow> None
        | Some True \<Rightarrow> free_large_block le p w
        | Some False \<Rightarrow> dealloc_by_header e lk p w)"

end
