(* ===== verification/Dispatch_Tiers.thy ===== *)
theory Dispatch_Tiers
  imports Dispatch
begin

text \<open>
  What one tier does for the dispatch, through the cache of the thread or past it: the facts of \<open>Cache_Spans\<close>,
  \<open>Cache_Free\<close> and \<open>Direct_Heap\<close> put into one statement each for allocation and freeing.
\<close>

section \<open>Past the cache\<close>

fun heap_grant :: "cache_env \<Rightarrow> tier \<Rightarrow> nat \<Rightarrow> cache_state \<Rightarrow> bool" where
  "heap_grant e Small c s = small_grant e c s"
| "heap_grant e Medium c s = medium_grant e c s"
| "heap_grant e Big c s = big_grant e c s"

lemma cache_inv_parts:
  assumes "cache_inv e H D s"
  shows "c < NUM_CLASSES \<Longrightarrow> pair_state (small_st e c) page_of (gl_small (snd s) ! c) (tc_bins (fst s) ! c) null bin_new (H Small c) (D Small c)"
    "c < NUM_MEDIUM \<Longrightarrow> pair_state (medium_st e c) (ce_span_at e) (gl_medium (snd s) ! c) (mbins (fst s) ! c)
       (av_span (mactive (fst s) ! c)) (av_bin (mactive (fst s) ! c)) (H Medium c) (D Medium c)"
    "c < NUM_BIG \<Longrightarrow> pair_state (big_st e c) (ce_big_at e) (gl_big (snd s) ! c) (bigbins (fst s) ! c)
       (av_span (bactive (fst s) ! c)) (av_bin (bactive (fst s) ! c)) (H Big c) (D Big c)
     \<and> (b_len (av_bin (bactive (fst s) ! c)) \<noteq> 0 \<longrightarrow> av_span (bactive (fst s) ! c) \<noteq> null)"
    "length (gl_small (snd s)) = NUM_CLASSES" "length (gl_medium (snd s)) = NUM_MEDIUM" "length (gl_big (snd s)) = NUM_BIG"
  using assms by (simp_all add: cache_inv_def small_ok_def medium_ok_def big_ok_def pair_state_new shape_ok_def)

lemma small_owner: "bt_owner (small_bins purge own) = page_of"
  by (simp add: small_bins_def)

text \<open>Replacing the heap of one class, the cache being left alone.\<close>

lemma new_small_heap:
  assumes inv: "cache_inv e H D s" and c: "c < NUM_CLASSES"
    and h: "pair_state (small_st e c) page_of h' (tc_bins (fst s) ! c) null bin_new X Y"
    and k: "kept K (words (gl_small (snd s) ! c)) (D Small c) (words h') Y"
  shows "cache_inv e (upd Small c X H) (upd Small c Y D) (fst s, (snd s)\<lparr>gl_small := (gl_small (snd s))[c := h']\<rparr>)"
    "cache_kept (upd Small c K H) s D (fst s, (snd s)\<lparr>gl_small := (gl_small (snd s))[c := h']\<rparr>) (upd Small c Y D)"
proof -
  let ?s = "(fst s, (snd s)\<lparr>gl_small := (gl_small (snd s))[c := h']\<rparr>)"
  show "cache_inv e (upd Small c X H) (upd Small c Y D) ?s"
    by (rule cache_inv_small [OF inv c h [unfolded pair_state_new]]) (simp_all add: sames)
  show "cache_kept (upd Small c K H) s D ?s (upd Small c Y D)"
    by (rule cache_kept_small [where h' = h']) (use k c cache_inv_parts(4) [OF inv] in \<open>simp_all add: sames\<close>)
qed

lemma new_medium_heap:
  assumes inv: "cache_inv e H D s" and c: "c < NUM_MEDIUM"
    and h: "pair_state (medium_st e c) (ce_span_at e) h' (mbins (fst s) ! c)
       (av_span (mactive (fst s) ! c)) (av_bin (mactive (fst s) ! c)) X Y"
    and k: "kept K (words (gl_medium (snd s) ! c)) (D Medium c) (words h') Y"
  shows "cache_inv e (upd Medium c X H) (upd Medium c Y D) (fst s, (snd s)\<lparr>gl_medium := (gl_medium (snd s))[c := h']\<rparr>)"
    "cache_kept (upd Medium c K H) s D (fst s, (snd s)\<lparr>gl_medium := (gl_medium (snd s))[c := h']\<rparr>) (upd Medium c Y D)"
proof -
  let ?s = "(fst s, (snd s)\<lparr>gl_medium := (gl_medium (snd s))[c := h']\<rparr>)"
  show "cache_inv e (upd Medium c X H) (upd Medium c Y D) ?s"
    by (rule cache_inv_medium [OF inv c h]) (simp_all add: sames)
  show "cache_kept (upd Medium c K H) s D ?s (upd Medium c Y D)"
    by (rule cache_kept_medium [where h' = h']) (use k c cache_inv_parts(5) [OF inv] in \<open>simp_all add: sames\<close>)
qed

lemma new_big_heap:
  assumes inv: "cache_inv e H D s" and c: "c < NUM_BIG"
    and h: "pair_state (big_st e c) (ce_big_at e) h' (bigbins (fst s) ! c)
       (av_span (bactive (fst s) ! c)) (av_bin (bactive (fst s) ! c)) X Y"
    and k: "kept K (words (gl_big (snd s) ! c)) (D Big c) (words h') Y"
  shows "cache_inv e (upd Big c X H) (upd Big c Y D) (fst s, (snd s)\<lparr>gl_big := (gl_big (snd s))[c := h']\<rparr>)"
    "cache_kept (upd Big c K H) s D (fst s, (snd s)\<lparr>gl_big := (gl_big (snd s))[c := h']\<rparr>) (upd Big c Y D)"
proof -
  let ?s = "(fst s, (snd s)\<lparr>gl_big := (gl_big (snd s))[c := h']\<rparr>)"
  show "cache_inv e (upd Big c X H) (upd Big c Y D) ?s"
    by (rule cache_inv_big [OF inv c h]) (use cache_inv_parts(3) [OF inv c] in \<open>simp_all add: sames\<close>)
  show "cache_kept (upd Big c K H) s D ?s (upd Big c Y D)"
    by (rule cache_kept_big [where h' = h']) (use k c cache_inv_parts(6) [OF inv] in \<open>simp_all add: sames\<close>)
qed

lemma allottedI:
  assumes "r = Some ((p, z), s')" "p \<noteq> null" "p \<notin> H t c" "z \<longrightarrow> p \<notin> Y"
    "cache_inv e (upd t c (insert p (H t c)) H) (upd t c Y D) s'" "cache_kept (upd t c (H t c) H) s D s' (upd t c Y D)"
  shows "allotted e t c H s D r"
  unfolding allotted_def
  by (rule exI [of _ p], rule exI [of _ z], rule exI [of _ s'], rule exI [of _ "upd t c Y D"]) (use assms in simp)

lemma allotted_none: "cache_inv e H D s \<Longrightarrow> allotted e t c H s D (Some ((null, False), s))"
  unfolding allotted_def by (intro exI conjI) (rule refl, rule cache_kept_refl, simp)

text \<open>The heap alone, when what the system grants is fresh.\<close>

lemma serve_small:
  assumes "pair_state (small_st e c) page_of (gl_small (snd s) ! c) b sp a X Y" "small_grant e c s"
  shows "take_one_small e c (gl_small (snd s) ! c) = Some ((null, False), gl_small (snd s) ! c)
    \<or> (\<exists>h' p v Y'. take_one_small e c (gl_small (snd s) ! c) = Some ((p, v), h') \<and> p \<noteq> null \<and> p \<notin> X
         \<and> pair_state (small_st e c) page_of h' b sp a (insert p X) Y'
         \<and> (v \<longrightarrow> p \<notin> Y') \<and> kept X (words (gl_small (snd s) ! c)) Y (words h') Y')"
  unfolding take_one_small_def
  by (rule smalls.pair_serve_one [where in_arena = "ce_in_arena e", unfolded small_owner, OF assms(1)])
     (use assms(2) in \<open>auto simp: small_grant_def\<close>)

lemma serve_medium:
  assumes "pair_state (medium_st e c) (ce_span_at e) (gl_medium (snd s) ! c) b sp a X Y" "medium_grant e c s"
  shows "take_one_medium e c (gl_medium (snd s) ! c) = Some ((null, False), gl_medium (snd s) ! c)
    \<or> (\<exists>h' p v Y'. take_one_medium e c (gl_medium (snd s) ! c) = Some ((p, v), h') \<and> p \<noteq> null \<and> p \<notin> X
         \<and> pair_state (medium_st e c) (ce_span_at e) h' b sp a (insert p X) Y'
         \<and> (v \<longrightarrow> p \<notin> Y') \<and> kept X (words (gl_medium (snd s) ! c)) Y (words h') Y')"
  unfolding take_one_medium_def
  by (rule mediums.pair_serve_one [unfolded bt_owner_tiers, OF assms(1)])
     (use assms(2) in \<open>auto simp: medium_grant_def\<close>)

lemma serve_big:
  assumes "pair_state (big_st e c) (ce_big_at e) (gl_big (snd s) ! c) b sp a X Y" "big_grant e c s"
  shows "take_one_big e c (gl_big (snd s) ! c) = Some ((null, False), gl_big (snd s) ! c)
    \<or> (\<exists>h' p v Y'. take_one_big e c (gl_big (snd s) ! c) = Some ((p, v), h') \<and> p \<noteq> null \<and> p \<notin> X
         \<and> pair_state (big_st e c) (ce_big_at e) h' b sp a (insert p X) Y'
         \<and> (v \<longrightarrow> p \<notin> Y') \<and> kept X (words (gl_big (snd s) ! c)) Y (words h') Y')"
  unfolding take_one_big_def
  by (rule bigs.pair_serve_one [where in_arena = "ce_in_arena e", unfolded bt_owner_tiers, OF assms(1)])
     (use assms(2) in \<open>auto simp: big_grant_def\<close>)

lemma heap_take_ok:
  assumes inv: "cache_inv e H D s" and c: "c < tier_count t" and g: "heap_grant e t c s"
  shows "allotted e t c H s D (heap_take e t c s)"
proof (cases t)
  case Small
  let ?h = "gl_small (snd s) ! c"
  have "c < NUM_CLASSES" using c Small by simp
  note p = cache_inv_parts(1) [OF inv this] and new = new_small_heap [OF inv this]
  have "small_grant e c s" using g Small by simp
  from serve_small [OF p this] show ?thesis
  proof (elim disjE exE conjE)
    assume "take_one_small e c ?h = Some ((null, False), ?h)"
    then show ?thesis using inv by (simp add: Small allotted_none)
  next
    fix h' q v Y
    assume t: "take_one_small e c ?h = Some ((q, v), h')" "q \<noteq> null" "q \<notin> H Small c"
      "pair_state (small_st e c) page_of h' (tc_bins (fst s) ! c) null bin_new (insert q (H Small c)) Y" "v \<longrightarrow> q \<notin> Y"
      "kept (H Small c) (words ?h) (D Small c) (words h') Y"
    show ?thesis unfolding Small by (rule allottedI [OF _ t(2,3,5) new [OF t(4,6)]]) (simp add: t(1))
  qed
next
  case Medium
  let ?h = "gl_medium (snd s) ! c"
  have "c < NUM_MEDIUM" using c Medium by simp
  note p = cache_inv_parts(2) [OF inv this] and new = new_medium_heap [OF inv this]
  have "medium_grant e c s" using g Medium by simp
  from serve_medium [OF p this] show ?thesis
  proof (elim disjE exE conjE)
    assume "take_one_medium e c ?h = Some ((null, False), ?h)"
    then show ?thesis using inv by (simp add: Medium allotted_none)
  next
    fix h' q v Y
    assume t: "take_one_medium e c ?h = Some ((q, v), h')" "q \<noteq> null" "q \<notin> H Medium c"
      "pair_state (medium_st e c) (ce_span_at e) h' (mbins (fst s) ! c)
         (av_span (mactive (fst s) ! c)) (av_bin (mactive (fst s) ! c)) (insert q (H Medium c)) Y" "v \<longrightarrow> q \<notin> Y"
      "kept (H Medium c) (words ?h) (D Medium c) (words h') Y"
    show ?thesis unfolding Medium by (rule allottedI [OF _ t(2,3,5) new [OF t(4,6)]]) (simp add: t(1))
  qed
next
  case Big
  let ?h = "gl_big (snd s) ! c"
  have "c < NUM_BIG" using c Big by simp
  note p = conjunct1 [OF cache_inv_parts(3) [OF inv this]] and new = new_big_heap [OF inv this]
  have "big_grant e c s" using g Big by simp
  from serve_big [OF p this] show ?thesis
  proof (elim disjE exE conjE)
    assume "take_one_big e c ?h = Some ((null, False), ?h)"
    then show ?thesis using inv by (simp add: Big allotted_none)
  next
    fix h' q v Y
    assume t: "take_one_big e c ?h = Some ((q, v), h')" "q \<noteq> null" "q \<notin> H Big c"
      "pair_state (big_st e c) (ce_big_at e) h' (bigbins (fst s) ! c)
         (av_span (bactive (fst s) ! c)) (av_bin (bactive (fst s) ! c)) (insert q (H Big c)) Y" "v \<longrightarrow> q \<notin> Y"
      "kept (H Big c) (words ?h) (D Big c) (words h') Y"
    show ?thesis unfolding Big by (rule allottedI [OF _ t(2,3,5) new [OF t(4,6)]]) (simp add: t(1))
  qed
qed


fun heap_free :: "cache_env \<Rightarrow> tier \<Rightarrow> nat \<Rightarrow> addr \<Rightarrow> cache_state \<Rightarrow> cache_state option" where
  "heap_free e Small c p = heap_free_small e c p"
| "heap_free e Medium c p = heap_free_medium e c (ce_span_at e p) p"
| "heap_free e Big c p = heap_free_big e c (ce_big_at e p) p"

text \<open>What every free leaves behind.\<close>

definition released :: "cache_env \<Rightarrow> tier \<Rightarrow> nat \<Rightarrow> addr \<Rightarrow> blocks \<Rightarrow> cache_state \<Rightarrow> blocks \<Rightarrow> cache_state option \<Rightarrow> bool" where
  "released e t c p H s D r \<longleftrightarrow> (\<exists>s' D'. r = Some s' \<and> cache_inv e (upd t c (H t c - {p}) H) D' s'
     \<and> cache_kept (upd t c (H t c - {p}) H) s D s' D')"

lemma releasedI:
  "r = Some s' \<Longrightarrow> cache_inv e (upd t c (H t c - {p}) H) D' s' \<Longrightarrow> cache_kept (upd t c (H t c - {p}) H) s D s' D'
    \<Longrightarrow> released e t c p H s D r"
  unfolding released_def by blast

lemma free_medium_single: "free_one_medium e c (ce_span_at e p) p h
    = free_one (\<lambda>p h. Some (medium_release (ce_in_arena e) c (ce_span_purge e) (ce_span_at e p) p p 1 h)) p h"
  by (simp add: free_one_medium_def free_one_def)

lemma free_big_single: "free_one_big e (ce_big_at e p) p h
    = free_one (\<lambda>p. big_release (ce_in_arena e) (ce_span_purge e) (ce_big_at e p) p 1) p h"
  by (simp add: free_one_big_def free_one_def)

lemma heap_free_ok:
  assumes inv: "cache_inv e H D s" and c: "c < tier_count t" and p: "p \<in> H t c"
  shows "released e t c p H s D (heap_free e t c p s)"
proof (cases t)
  case Small
  have c': "c < NUM_CLASSES" and p': "p \<in> H Small c" using c p Small by simp_all
  obtain h' Y where f: "free_one_small e p (gl_small (snd s) ! c) = Some h'"
    "pair_state (small_st e c) page_of h' (tc_bins (fst s) ! c) null bin_new (H Small c - {p}) Y"
    "kept (H Small c - {p}) (words (gl_small (snd s) ! c)) (D Small c) (words h') Y"
    using smalls.pair_free_one [where in_arena = "ce_in_arena e", unfolded small_owner, OF cache_inv_parts(1) [OF inv c'] p']
    unfolding free_one_small_def by blast
  show ?thesis unfolding Small
    by (rule releasedI [OF _ new_small_heap [OF inv c' f(2,3)]]) (simp add: heap_free_small_def f(1))
next
  case Medium
  have c': "c < NUM_MEDIUM" and p': "p \<in> H Medium c" using c p Medium by simp_all
  obtain h' Y where f: "free_one_medium e c (ce_span_at e p) p (gl_medium (snd s) ! c) = Some h'"
    "pair_state (medium_st e c) (ce_span_at e) h' (mbins (fst s) ! c)
         (av_span (mactive (fst s) ! c)) (av_bin (mactive (fst s) ! c)) (H Medium c - {p}) Y"
    "kept (H Medium c - {p}) (words (gl_medium (snd s) ! c)) (D Medium c) (words h') Y"
    using mediums.pair_free_one [unfolded bt_owner_tiers, OF cache_inv_parts(2) [OF inv c'] p']
    unfolding free_medium_single by blast
  show ?thesis unfolding Medium
    by (rule releasedI [OF _ new_medium_heap [OF inv c' f(2,3)]]) (simp add: heap_free_medium_def f(1))
next
  case Big
  have c': "c < NUM_BIG" and p': "p \<in> H Big c" using c p Big by simp_all
  obtain h' Y where f: "free_one_big e (ce_big_at e p) p (gl_big (snd s) ! c) = Some h'"
    "pair_state (big_st e c) (ce_big_at e) h' (bigbins (fst s) ! c)
         (av_span (bactive (fst s) ! c)) (av_bin (bactive (fst s) ! c)) (H Big c - {p}) Y"
    "kept (H Big c - {p}) (words (gl_big (snd s) ! c)) (D Big c) (words h') Y"
    using bigs.pair_free_one [where in_arena = "ce_in_arena e", unfolded bt_owner_tiers, OF conjunct1 [OF cache_inv_parts(3) [OF inv c']] p']
    unfolding free_big_single by blast
  show ?thesis unfolding Big
    by (rule releasedI [OF _ new_big_heap [OF inv c' f(2,3)]]) (simp add: heap_free_big_def f(1))
qed

section \<open>Blocks are aligned\<close>

lemma unit_page: "16 dvd PAGE_SIZE"
  by (simp add: const_simps)

lemma small_live_aligned:
  assumes "small_store purge c h lv d" "b \<in> lv"
  shows "16 dvd b"
proof -
  obtain pl el full fl where inv: "class_inv c (fst (fst h)) (snd (fst h)) pl el full fl d"
    "b \<in> class_live (fst (fst h)) fl (set pl \<union> set el \<union> full)"
    using assms unfolding small_store_def by blast
  then obtain q where q: "q \<in> set pl \<union> set el \<union> full" "b \<in> slots q (hdr_at (fst (fst h)) q)"
    by (auto simp: class_live_def live_def)
  then have ok: "PAGE_SIZE dvd q" "h_class (hdr_at (fst (fst h)) q) < NUM_CLASSES"
    using inv(1) unfolding class_inv_def page_inv_def page_ok_def by blast+
  have "16 dvd q + HEADER_SIZE" using dvd_trans [OF unit_page ok(1)] by (simp add: const_simps)
  moreover have "16 dvd CLASSES ! h_class (hdr_at (fst (fst h)) q)" using CLASSES_bounds [OF ok(2)] by simp
  ultimately show ?thesis using q(2) unfolding slots_def by (rule blocks_at_dvd)
qed

lemma span_live_aligned:
  assumes "span_store T pages cls layout own h lv d" "b \<in> lv"
    and "\<And>q b. PAGE_SIZE dvd q \<Longrightarrow> b \<in> set (layout q) \<Longrightarrow> 16 dvd b"
  shows "16 dvd b"
proof -
  obtain pl el full fl where inv: "span_class_inv T pages cls layout (fst (fst h)) (snd (fst h)) pl el full fl d"
    "b \<in> span_live layout fl (set pl \<union> set el \<union> full)"
    using assms(1,2) unfolding span_store_def by blast
  then obtain q where q: "q \<in> set pl \<union> set el \<union> full" "b \<in> set (layout q)" by (auto simp: span_live_def)
  then have "PAGE_SIZE dvd q" using inv(1) unfolding span_class_inv_def span_inv_def span_ok_def by blast
  then show ?thesis using assms(3) q(2) by blast
qed

lemma medium_layout_aligned:
  assumes "c < NUM_MEDIUM" "PAGE_SIZE dvd q" "b \<in> set (medium_layout own c q)"
  shows "16 dvd b"
proof -
  have u: "16 dvd MEDIUM_CLASSES ! c" using MEDIUM_CLASSES_bounds [OF assms(1)] by simp
  have "16 dvd q + SPAN_MASTER_SIZE" using dvd_trans [OF unit_page assms(2)] by (simp add: const_simps)
  then show ?thesis using assms(3) blocks_at_dvd [OF _ u] legacy_blocks_aligned [OF assms(2) u]
    by (auto simp: medium_layout_def split: if_splits)
qed

lemma big_layout_aligned:
  assumes "c < NUM_BIG" "PAGE_SIZE dvd q" "b \<in> set (big_layout c q)"
  shows "16 dvd b"
proof -
  have "16 dvd BIG_CLASSES ! c" using BIG_CLASSES_bounds [OF assms(1)] by simp
  moreover have "16 dvd q + BIG_MASTER_SIZE" using dvd_trans [OF unit_page assms(2)] by (simp add: const_simps)
  ultimately show ?thesis using assms(3) blocks_at_dvd unfolding big_layout_def by blast
qed

lemma pair_held: "pair_state st own h b sp a X Y \<Longrightarrow> x \<in> X \<Longrightarrow> \<exists>lv d. st h lv d \<and> x \<in> lv"
  unfolding pair_state_def by blast

lemma held_block:
  assumes inv: "cache_inv e H D s" and c: "c < tier_count t" and p: "p \<in> H t c"
  shows "p \<noteq> null \<and> MIN_ALIGN dvd p"
proof -
  have "p \<noteq> null \<and> 16 dvd p"
  proof (cases t)
    case Small
    have c': "c < NUM_CLASSES" and p': "p \<in> H Small c" using c p Small by simp_all
    obtain lv d where "small_st e c (gl_small (snd s) ! c) lv d" "p \<in> lv"
      using pair_held [OF cache_inv_parts(1) [OF inv c'] p'] by blast
    then show ?thesis using smalls.live_nonnull small_live_aligned by metis
  next
    case Medium
    have c': "c < NUM_MEDIUM" and p': "p \<in> H Medium c" using c p Medium by simp_all
    obtain lv d where m: "medium_st e c (gl_medium (snd s) ! c) lv d" "p \<in> lv"
      using pair_held [OF cache_inv_parts(2) [OF inv c'] p'] by blast
    have "16 dvd p"
      by (rule span_live_aligned [OF conjunct2 [OF conjunct2 [OF m(1) [unfolded medium_store_def]]] m(2)])
         (rule medium_layout_aligned [OF c'])
    then show ?thesis using mediums.live_nonnull [OF m(1)] m(2) by metis
  next
    case Big
    have c': "c < NUM_BIG" and p': "p \<in> H Big c" using c p Big by simp_all
    obtain lv d where m: "big_st e c (gl_big (snd s) ! c) lv d" "p \<in> lv"
      using pair_held [OF conjunct1 [OF cache_inv_parts(3) [OF inv c']] p'] by blast
    have "16 dvd p"
      by (rule span_live_aligned [OF conjunct2 [OF conjunct2 [OF m(1) [unfolded big_store_def]]] m(2)])
         (rule big_layout_aligned [OF c'])
    then show ?thesis using bigs.live_nonnull [OF m(1)] m(2) by metis
  qed
  then show ?thesis by (simp add: const_simps)
qed

section \<open>With the cache or past it\<close>

lemma with_cache_eq:
  "with_cache f g w = (case (if w_flag w = Some TLS_FREE then f else g) (w_cache w) of None \<Rightarrow> None
     | Some (r, s) \<Rightarrow> Some (r, w\<lparr>w_cache := s\<rparr>))"
  by (simp add: with_cache_def with_tls_def on_cache_def split: option.split prod.split)

lemma with_cache_plain: "with_cache (plain f) (plain g) w = map_option (\<lambda>((p, z), w'). (p, w')) (with_cache f g w)"
  by (simp add: with_cache_eq plain_def split: option.split prod.split)

lemma with_cache_free_eq:
  "with_cache_free f g w = map_option (\<lambda>s. Inr (w\<lparr>w_cache := s\<rparr>)) ((if w_flag w = Some TLS_FREE then f else g) (w_cache w))"
  by (simp add: with_cache_free_def with_cache_eq split: option.split)

definition tier_alloc :: "cache_env \<Rightarrow> tier \<Rightarrow> nat \<Rightarrow> api_state \<Rightarrow> ((addr \<times> bool) \<times> api_state) option" where
  "tier_alloc e t c = with_cache (cache_alloc e t c) (heap_take e t c)"

definition tier_free :: "cache_env \<Rightarrow> tier \<Rightarrow> nat \<Rightarrow> addr \<Rightarrow> api_state \<Rightarrow> api_state outcome" where
  "tier_free e t c p = with_cache_free (cache_free e t c p) (heap_free e t c p)"

lemma plain_allocs:
  "alloc e c = plain (cache_alloc e Small c)" "alloc_medium e c = plain (cache_alloc e Medium c)" "alloc_big e c = plain (cache_alloc e Big c)"
  using cache_alloc_plain_same [of e _ c] by (simp_all add: plain_def fun_eq_iff flip: cache_alloc_plain.simps)

lemma tier_allocs:
  "alloc_small e c w = map_option (\<lambda>((p, z), w'). (p, w')) (tier_alloc e Small c w)"
  "alloc_medium_block e c w = map_option (\<lambda>((p, z), w'). (p, w')) (tier_alloc e Medium c w)"
  "alloc_big_block e c w = map_option (\<lambda>((p, z), w'). (p, w')) (tier_alloc e Big c w)"
  by (simp_all add: alloc_small_def alloc_medium_block_def alloc_big_block_def plain_allocs with_cache_plain tier_alloc_def)

lemma tier_frees:
  "dealloc_small_class e p c = tier_free e Small c p"
  "dealloc_medium_block e p (ce_span_at e p) c = tier_free e Medium c p"
  "lk_bclass lk (ce_big_at e p) = c \<Longrightarrow> dealloc_big_block e lk p (ce_big_at e p) = tier_free e Big c p"
  by (simp_all add: dealloc_small_class_def dealloc_medium_block_def dealloc_big_block_def tier_free_def fun_eq_iff with_cache_free_eq)

text \<open>
  What the heap and the system must be like for a request: with the cache at hand no retired cache waits to be
  adopted and the system grants fresh pages; without it, the system grants fresh pages.
\<close>

definition ready :: "cache_env \<Rightarrow> tier \<Rightarrow> nat \<Rightarrow> api_state \<Rightarrow> bool" where
  "ready e t c w \<longleftrightarrow> (if w_flag w = Some TLS_FREE then quiet (w_cache w) \<and> grants e t c (w_cache w)
     else heap_grant e t c (w_cache w))"

lemma tier_alloc_ok:
  assumes inv: "cache_inv e H D (w_cache w)" and c: "c < tier_count t" and r: "ready e t c w"
  shows "\<exists>p z s' D'. tier_alloc e t c w = Some ((p, z), w\<lparr>w_cache := s'\<rparr>) \<and> cache_kept H (w_cache w) D s' D'
    \<and> (p = null \<and> cache_inv e H D' s'
       \<or> p \<noteq> null \<and> p \<notin> H t c \<and> (z \<longrightarrow> p \<notin> D' t c) \<and> cache_inv e (upd t c (insert p (H t c)) H) D' s')"
proof -
  have "allotted e t c H (w_cache w) D ((if w_flag w = Some TLS_FREE then cache_alloc e t c else heap_take e t c) (w_cache w))"
    using cache_alloc_facts [OF inv c] heap_take_ok [OF inv c] r by (simp add: ready_def)
  then show ?thesis unfolding allotted_def tier_alloc_def with_cache_eq by (elim exE conjE) auto
qed

lemma tier_free_ok:
  assumes inv: "cache_inv e H D (w_cache w)" and c: "c < tier_count t" and p: "p \<in> H t c"
    and a: "w_flag w = Some TLS_FREE \<Longrightarrow> active_covers e t c p (w_cache w)"
  shows "\<exists>s' D'. tier_free e t c p w = Some (Inr (w\<lparr>w_cache := s'\<rparr>)) \<and> cache_inv e (upd t c (H t c - {p}) H) D' s'
    \<and> cache_kept (upd t c (H t c - {p}) H) (w_cache w) D s' D'"
proof -
  have "released e t c p H (w_cache w) D ((if w_flag w = Some TLS_FREE then cache_free e t c p else heap_free e t c p) (w_cache w))"
    using cache_free_facts [OF inv c p] heap_free_ok [OF inv c p] a by (auto simp: freed_def released_def)
  then show ?thesis unfolding released_def tier_free_def with_cache_free_eq by (elim exE conjE) auto
qed

end
