(* ===== verification/Dispatch_Safety.thy ===== *)
theory Dispatch_Safety
  imports Dispatch_Tiers
begin

text \<open>
  The dispatch as a whole: allocation by size and alignment, freeing by layout and by address, over the
  invariants of the thread cache and of the large regions.
\<close>

section \<open>Where a block lives\<close>

datatype home = Packed tier nat | Large

text \<open>The tier and class of a request; \<open>None\<close> is the large path.\<close>

definition tier_of :: "nat \<Rightarrow> nat \<Rightarrow> (tier \<times> nat) option" where
  "tier_of sz align =
     (if needs_large sz align then None
      else if MAX_MEDIUM_BLOCK < sz then Some (Big, big_class_for_size sz)
      else if MAX_SMALL_SIZE < sz then Some (Medium, medium_class_for_size sz)
      else Some (Small, class_for_size sz))"

fun tier_size :: "tier \<Rightarrow> nat \<Rightarrow> nat" where
  "tier_size Small c = CLASSES ! c"
| "tier_size Medium c = MEDIUM_CLASSES ! c"
| "tier_size Big c = BIG_CLASSES ! c"

lemma packed_bounds: "MAX_SMALL_SIZE < MAX_MEDIUM_BLOCK" "MAX_MEDIUM_BLOCK < MAX_BIG_BLOCK" "MAX_PACKED_BLOCK = MAX_BIG_BLOCK"
  by (simp_all add: MAX_SMALL_SIZE_def MAX_MEDIUM_BLOCK_eq MAX_BIG_BLOCK_eq MAX_PACKED_BLOCK_def)

lemma tier_of_fits:
  assumes "tier_of sz align = Some (t, c)" "0 < sz"
  shows "c < tier_count t \<and> sz \<le> tier_size t c"
  using assms small_table.lookup_in_range [of sz] small_table.lookup_fits [of sz] medium_table.lookup_in_range [of sz]
    medium_table.lookup_fits [of sz] big_table.lookup_in_range [of sz] big_table.lookup_fits [of sz] tables_last packed_bounds
  by (auto simp: tier_of_def needs_large_def split: if_splits)

lemma alloc_impl_tier:
  assumes "0 < sz"
  shows "alloc_impl e le sz align w = (case tier_of sz align of
      None \<Rightarrow> Some (alloc_large_block le sz align w)
    | Some (t, c) \<Rightarrow> (case tier_alloc e t c w of None \<Rightarrow> None
        | Some ((p, z), w') \<Rightarrow> Some (if t = Big \<and> p = null then alloc_large_block le sz align w' else (p, w'))))"
  using assms packed_bounds
  by (auto simp: alloc_impl_def alloc_tiered_def tier_of_def needs_large_def tier_allocs split: option.split prod.split)

section \<open>The invariant\<close>

text \<open>What the program holds: per class, and the list of large blocks.\<close>

type_synonym holdings = "blocks \<times> addr list"

fun holds :: "home \<Rightarrow> addr \<Rightarrow> holdings \<Rightarrow> bool" where
  "holds (Packed t c) p X \<longleftrightarrow> p \<in> fst X t c"
| "holds Large p X \<longleftrightarrow> p \<in> set (snd X)"

fun gain :: "home \<Rightarrow> addr \<Rightarrow> holdings \<Rightarrow> holdings" where
  "gain (Packed t c) p X = (upd t c (insert p (fst X t c)) (fst X), snd X)"
| "gain Large p X = (fst X, p # snd X)"

fun lose :: "home \<Rightarrow> addr \<Rightarrow> holdings \<Rightarrow> holdings" where
  "lose (Packed t c) p X = (upd t c (fst X t c - {p}) (fst X), snd X)"
| "lose Large p X = (fst X, remove1 p (snd X))"

lemma lose_gain: "\<not> holds h p X \<Longrightarrow> lose h p (gain h p X) = X"
  by (cases X; cases h) (simp_all add: upd_def fun_eq_iff)

definition api_ok :: "cache_env \<Rightarrow> slice multiset \<Rightarrow> (slice \<times> table_entry) list \<Rightarrow> holdings \<Rightarrow> blocks \<Rightarrow> api_state \<Rightarrow> bool" where
  "api_ok e others oregs X D w \<longleftrightarrow> cache_inv e (fst X) D (w_cache w) \<and> large_ok others oregs (w_large w) (snd X) {#}"

fun home_for :: "nat \<Rightarrow> nat \<Rightarrow> home \<Rightarrow> bool" where
  "home_for sz align (Packed t c) \<longleftrightarrow> tier_of sz align = Some (t, c)"
| "home_for sz align Large \<longleftrightarrow> tier_of sz align = None \<or> (\<exists>c. tier_of sz align = Some (Big, c))"

text \<open>The bytes behind a block reach at least as far as was asked for.\<close>

fun room_for :: "api_state \<Rightarrow> addr \<Rightarrow> nat \<Rightarrow> home \<Rightarrow> bool" where
  "room_for w p sz (Packed t c) \<longleftrightarrow> sz \<le> tier_size t c"
| "room_for w p sz Large \<longleftrightarrow> (let (b, n) = block_region (w_large w) p in b + LARGE_HEADER_SIZE \<le> p \<and> p + sz \<le> b + n * PAGE_SIZE)"

section \<open>Allocation\<close>

definition served_block :: "cache_env \<Rightarrow> slice multiset \<Rightarrow> (slice \<times> table_entry) list \<Rightarrow> nat \<Rightarrow> nat \<Rightarrow> holdings \<Rightarrow> api_state \<Rightarrow>
    addr \<times> api_state \<Rightarrow> bool" where
  "served_block e others oregs sz align X w r \<longleftrightarrow> (case r of (p, w') \<Rightarrow> w_flag w' = w_flag w \<and> w_bytes w' = w_bytes w \<and>
     (\<exists>D'. if p = null then api_ok e others oregs X D' w'
       else \<exists>h. home_for sz align h \<and> \<not> holds h p X \<and> room_for w' p sz h \<and> align dvd p
          \<and> api_ok e others oregs (gain h p X) D' w'))"

lemma large_served:
  assumes ok: "api_ok e others oregs X D w" and l: "caller_ok le (w_large w)" "align = 2 ^ k" "0 < sz"
    "mmap_ok le (w_large w) (snd X) sz align False 0" and h: "home_for sz align Large"
  shows "served_block e others oregs sz align X w (alloc_large_block le sz align w)"
proof -
  obtain p fresh z s' where a: "alloc_large_ex le (w_large w) sz align False 0 = ((p, fresh, z), s')" by (metis surj_pair)
  have lo: "large_ok others oregs (w_large w) (snd X) {#}" using ok by (simp add: api_ok_def)
  note f = alloc_large_facts [OF lo l a]
  have r: "alloc_large_block le sz align w = (p, w\<lparr>w_large := s'\<rparr>)" by (simp add: alloc_large_block_def alloc_large_def a)
  show ?thesis
  proof (cases "p = null")
    case True
    then show ?thesis using f ok unfolding served_block_def r by (auto simp: api_ok_def)
  next
    case False
    then have g: "large_ok others oregs s' (p # snd X) {#}" "serves (w_large w) s' (snd X) sz align p" using f by simp_all
    obtain b n where b: "block_region s' p = (b, n)" by (cases "block_region s' p")
    have "room_for (w\<lparr>w_large := s'\<rparr>) p sz Large"
      using block_place(4,5) [OF g(1) _ b] g(2) b by (simp add: serves_def)
    moreover have "\<not> holds Large p X" using headers_apart [of others oregs s' "[]" p "snd X" "{#}" p] g(1) by auto
    ultimately show ?thesis using False g ok h unfolding served_block_def r
      by (auto simp: api_ok_def serves_def intro!: exI [of _ D] exI [of _ Large])
  qed
qed

lemma small_align:
  assumes "align = 2 ^ k" "tier_of sz align = Some tc" "MIN_ALIGN dvd p"
  shows "align dvd p"
proof -
  have "(2 :: nat) ^ k \<le> 2 ^ 4" using assms(1,2) by (auto simp: tier_of_def needs_large_def const_simps split: if_splits)
  then have "k \<le> 4" by (rule power_le_imp_le_exp [rotated]) simp
  then have "(2 :: nat) ^ k dvd 2 ^ 4" by (rule le_imp_power_dvd)
  moreover have "(2 :: nat) ^ 4 dvd p" using assms(3) by (simp add: const_simps)
  ultimately show ?thesis unfolding assms(1) by (rule dvd_trans)
qed

lemma alloc_impl_facts:
  assumes ok: "api_ok e others oregs X D w" and l: "caller_ok le (w_large w)" "align = 2 ^ k" "0 < sz"
    "mmap_ok le (w_large w) (snd X) sz align False 0" and r: "\<And>t c. tier_of sz align = Some (t, c) \<Longrightarrow> ready e t c w"
  shows "\<exists>r. alloc_impl e le sz align w = Some r \<and> served_block e others oregs sz align X w r"
proof (cases "tier_of sz align")
  case None
  then show ?thesis using large_served [OF ok l] by (simp add: alloc_impl_tier [OF l(3)])
next
  case (Some tc)
  obtain t c where tc: "tier_of sz align = Some (t, c)" using Some by (cases tc) simp
  have fits: "c < tier_count t" "sz \<le> tier_size t c" using tier_of_fits [OF tc l(3)] by simp_all
  have inv: "cache_inv e (fst X) D (w_cache w)" using ok by (simp add: api_ok_def)
  obtain p z s' D' where a: "tier_alloc e t c w = Some ((p, z), w\<lparr>w_cache := s'\<rparr>)"
    "p = null \<and> cache_inv e (fst X) D' s' \<or> p \<noteq> null \<and> p \<notin> fst X t c \<and> cache_inv e (upd t c (insert p (fst X t c)) (fst X)) D' s'"
    using tier_alloc_ok [OF inv fits(1) r [OF tc]] by blast
  let ?w = "w\<lparr>w_cache := s'\<rparr>"
  show ?thesis
  proof (cases "p = null")
    case True
    then have ok': "api_ok e others oregs X D' ?w" using a(2) ok by (simp add: api_ok_def)
    show ?thesis
    proof (cases "t = Big")
      case True
      have "served_block e others oregs sz align X ?w (alloc_large_block le sz align ?w)"
        by (rule large_served [OF ok' _ l(2,3)]) (use l tc True in simp_all)
      then show ?thesis using True \<open>p = null\<close> a(1) tc by (simp add: alloc_impl_tier [OF l(3)] served_block_def split: prod.splits)
    next
      case False
      then show ?thesis using True ok' a(1) tc by (auto simp: alloc_impl_tier [OF l(3)] served_block_def)
    qed
  next
    case False
    then have "alloc_impl e le sz align w = Some (p, ?w)" using a(1) tc by (simp add: alloc_impl_tier [OF l(3)])
    moreover have "align dvd p"
      using held_block [of e "upd t c (insert p (fst X t c)) (fst X)" D' s' c t p] a(2) False fits(1) by (intro small_align [OF l(2) tc]) simp
    ultimately have "served_block e others oregs sz align X w (p, ?w)" and "alloc_impl e le sz align w = Some (p, ?w)"
      using False a(2) fits(2) tc ok by (auto simp: served_block_def api_ok_def intro!: exI [of _ D'] exI [of _ "Packed t c"])
    then show ?thesis by blast
  qed
qed


section \<open>Freeing\<close>

text \<open>
  What the lookups answer for a block of the program.  A small block is found through its page, a medium block
  through the side table in the arena and through its page outside, a big block through the side table.
\<close>

definition not_large :: "api_state \<Rightarrow> addr \<Rightarrow> bool" where
  "not_large w p \<longleftrightarrow> (if in_arena_block w p then large_at w p = null else large_region_known (w_large w) p = Some False)"

definition span_resolves :: "cache_env \<Rightarrow> lookups \<Rightarrow> addr \<Rightarrow> nat \<Rightarrow> bool" where
  "span_resolves e lk p c \<longleftrightarrow> ce_span_at e p \<noteq> null \<and> lk_span_has lk (ce_span_at e p) p \<and> lk_mclass lk (ce_span_at e p) = c"

fun resolves :: "cache_env \<Rightarrow> lookups \<Rightarrow> api_state \<Rightarrow> addr \<Rightarrow> home \<Rightarrow> bool" where
  "resolves e lk w p (Packed Small c) \<longleftrightarrow> LARGE_HEADER_SIZE \<le> p \<and> not_large w p \<and> lk_page_class lk p = Some c
     \<and> (in_arena_block w p \<longrightarrow> lk_medium_at lk p = null \<and> ce_big_at e p = null)"
| "resolves e lk w p (Packed Medium c) \<longleftrightarrow> LARGE_HEADER_SIZE \<le> p \<and> not_large w p \<and> span_resolves e lk p c
     \<and> (if in_arena_block w p then lk_medium_at lk p = ce_span_at e p else lk_page_class lk p = None)
     \<and> (w_flag w = Some TLS_FREE \<longrightarrow> active_covers e Medium c p (w_cache w))"
| "resolves e lk w p (Packed Big c) \<longleftrightarrow> LARGE_HEADER_SIZE \<le> p \<and> not_large w p \<and> in_arena_block w p \<and> lk_medium_at lk p = null
     \<and> ce_big_at e p \<noteq> null \<and> lk_big_has lk (ce_big_at e p) p \<and> lk_bclass lk (ce_big_at e p) = c"
| "resolves e lk w p Large \<longleftrightarrow> True"

text \<open>Both ways of freeing lead to the tier the block came from.\<close>

fun home_free :: "cache_env \<Rightarrow> large_env \<Rightarrow> home \<Rightarrow> addr \<Rightarrow> api_state \<Rightarrow> api_state outcome" where
  "home_free e le (Packed t c) p w = tier_free e t c p w"
| "home_free e le Large p w = free_large_block le p w"

lemma large_block_known:
  assumes "api_ok e others oregs X D w" "holds Large p X"
  shows "LARGE_HEADER_SIZE \<le> p" "in_arena_block w p \<Longrightarrow> large_at w p \<noteq> null" "large_region_known (w_large w) p = Some True"
proof -
  have ok: "large_ok others oregs (w_large w) (snd X) {#}" and p: "p \<in> set (snd X)" using assms by (simp_all add: api_ok_def)
  obtain b n where r: "block_region (w_large w) p = (b, n)" by (cases "block_region (w_large w) p")
  show "LARGE_HEADER_SIZE \<le> p" using block_place(4) [OF ok p r] by simp
  show k: "large_region_known (w_large w) p = Some True" by (rule live_known [OF ok p])
  show "large_at w p \<noteq> null" if "in_arena_block w p" using k that by (simp add: large_region_known_def)
qed

lemma layout_route:
  assumes "api_ok e others oregs X D w" "home_for sz align h" "holds h p X" "resolves e lk w p h"
  shows "dealloc_with_layout e le lk p sz align w = home_free e le h p w"
proof (cases h)
  case (Packed t c)
  then show ?thesis using assms(2,4) packed_bounds tier_frees
    by (cases t) (auto simp: dealloc_with_layout_def dealloc_tiered_def tier_of_def needs_large_def not_large_def Let_def split: if_splits)
next
  case Large
  note k = large_block_known [OF assms(1) assms(3) [unfolded Large]]
  show ?thesis using assms(2) Large packed_bounds k(2)
    by (auto simp: dealloc_with_layout_def dealloc_tiered_def tier_of_def needs_large_def split: if_splits)
qed

lemma pointer_route:
  assumes "api_ok e others oregs X D w" "holds h p X" "resolves e lk w p h"
  shows "dealloc_impl e le lk p w = home_free e le h p w"
proof (cases h)
  case (Packed t c)
  have "p \<noteq> null" if "LARGE_HEADER_SIZE \<le> p" using that by (auto simp: const_simps)
  then show ?thesis using assms(3) Packed tier_frees
    by (cases t) (auto simp: dealloc_impl_def dealloc_by_header_def dealloc_small_def not_large_def span_resolves_def Let_def split: if_splits)
next
  case Large
  note k = large_block_known [OF assms(1) assms(2) [unfolded Large]]
  moreover have "p \<noteq> null" using k(1) by (auto simp: const_simps)
  ultimately show ?thesis using Large by (simp add: dealloc_impl_def)
qed

text \<open>The effect of the free, and what no free changes.\<close>

definition freed_block :: "cache_env \<Rightarrow> slice multiset \<Rightarrow> (slice \<times> table_entry) list \<Rightarrow> home \<Rightarrow> addr \<Rightarrow> holdings \<Rightarrow> api_state \<Rightarrow>
    api_state \<Rightarrow> bool" where
  "freed_block e others oregs h p X w w' \<longleftrightarrow> w_flag w' = w_flag w \<and> w_bytes w' = w_bytes w
     \<and> (\<exists>D'. api_ok e others oregs (lose h p X) D' w')"

lemma home_free_facts:
  assumes ok: "api_ok e others oregs X D w" and h: "holds h p X" "home_for sz align h" "0 < sz" "resolves e lk w p h"
    and l: "caller_ok le (w_large w)"
  shows "\<exists>w'. home_free e le h p w = Some (Inr w') \<and> freed_block e others oregs h p X w w'"
proof (cases h)
  case (Packed t c)
  have c: "c < tier_count t" using tier_of_fits [of sz align t c] h(2,3) Packed by simp
  have "active_covers e t c p (w_cache w)" if "w_flag w = Some TLS_FREE"
    using h(4) Packed that by (cases t) (simp_all add: active_covers_def)
  from tier_free_ok [of e "fst X" D w, OF _ c _ this] ok h(1) Packed show ?thesis
    by (fastforce simp: api_ok_def freed_block_def)
next
  case Large
  obtain xs ys where s: "snd X = xs @ p # ys" "p \<notin> set xs" using h(1) Large split_list_first by fastforce
  have "large_ok others oregs (w_large w) (xs @ p # ys) {#}" using ok s(1) by (simp add: api_ok_def)
  from free_large_facts [OF this l] obtain l' where
    "free_large le (w_large w) p = Some l'" "large_ok others oregs l' (xs @ ys) {#}" by blast
  moreover have "remove1 p (snd X) = xs @ ys" using s by (simp add: remove1_append)
  ultimately show ?thesis using Large ok by (auto simp: free_large_block_def freed_block_def api_ok_def)
qed

end
