(* ===== verification/Public_Api.thy ===== *)
theory Public_Api
  imports Dispatch_Safety
begin

text \<open>
  The public functions (\<open>src/src/lib.rs\<close>): the \<open>GlobalAlloc\<close> methods, \<open>malloc\<close>, \<open>calloc\<close>, \<open>realloc\<close>, \<open>free\<close>,
  \<open>aligned_alloc\<close> and \<open>usable_size\<close>, over the dispatch.  A block's bytes are in \<open>w_bytes\<close>; a free leaves them
  alone there, since what it writes is the link word of a block nobody holds any more.
\<close>

section \<open>Copying and growing\<close>

definition copy_bytes :: "addr \<Rightarrow> addr \<Rightarrow> nat \<Rightarrow> api_state \<Rightarrow> api_state" where
  "copy_bytes src dst n w = w\<lparr>w_bytes := (\<lambda>a. if dst \<le> a \<and> a < dst + n then w_bytes w (src + (a - dst)) else w_bytes w a)\<rparr>"

definition grow_block :: "large_env \<Rightarrow> addr \<Rightarrow> nat \<Rightarrow> api_state \<Rightarrow> (bool \<times> api_state) option" where
  "grow_block le p sz w = map_option (\<lambda>(r, l). (r, w\<lparr>w_large := l\<rparr>)) (try_grow_large_frontier le (w_large w) p sz)"

text \<open>Allocation in one class and freeing in another under a single visit of the cache; a zero old size frees nothing.\<close>

definition move_small :: "(cache_state \<Rightarrow> (addr \<times> cache_state) option) \<Rightarrow> (cache_state \<Rightarrow> cache_state option) \<Rightarrow> nat \<Rightarrow>
    cache_state \<Rightarrow> (addr \<times> cache_state) option" where
  "move_small take_new give_old old_size s =
     (case take_new s of
        None \<Rightarrow> None
      | Some (q, s1) \<Rightarrow>
          if q = null then Some (null, s1)
          else if old_size \<noteq> 0 then map_option (Pair q) (give_old s1) else Some (q, s1))"

definition realloc_small :: "cache_env \<Rightarrow> addr \<Rightarrow> nat \<Rightarrow> nat \<Rightarrow> nat \<Rightarrow> nat \<Rightarrow> api_state \<Rightarrow> (addr \<times> api_state) option" where
  "realloc_small e p old_size new_size old_class new_class w =
     (case with_cache (move_small (alloc e new_class) (dealloc e p old_class) old_size)
                      (move_small (plain (heap_take e Small new_class)) (heap_free_small e old_class p) old_size) w of
        None \<Rightarrow> None
      | Some (q, w') \<Rightarrow>
          Some (q, if q \<noteq> null \<and> old_size \<noteq> 0 then copy_bytes p q (min old_size new_size) w' else w'))"

definition BIG_GROW_SLACK_FACTOR :: nat where [const_simps]: "BIG_GROW_SLACK_FACTOR = 8"

text \<open>A big block that outgrows its class moves once into a large region with room to grow; \<open>Inr (None, _)\<close> is a refusal.\<close>

definition try_promote_big_grow :: "cache_env \<Rightarrow> large_env \<Rightarrow> lookups \<Rightarrow> addr \<Rightarrow> nat \<Rightarrow> nat \<Rightarrow> api_state \<Rightarrow>
    (addr option \<times> api_state) outcome" where
  "try_promote_big_grow e le lk p new_size align w =
     (let big = ce_big_at e p; c = lk_bclass lk big; old_usable = BIG_CLASSES ! c;
          reserve = min (min (new_size * BIG_GROW_SLACK_FACTOR) (2 ^ 64 - 1)) MAX_BIG_BLOCK
      in if \<not> in_arena_block w p \<or> large_at w p \<noteq> null \<or> big = null \<or> NUM_BIG \<le> c \<or> new_size \<le> old_usable
            \<or> reserve \<le> new_size
         then Some (Inr (None, w))
         else
           let ((q, _, _), l) = alloc_large_ex le (w_large w) new_size align False (reserve - new_size);
               w1 = w\<lparr>w_large := l\<rparr>
           in if q = null then Some (Inr (None, w1))
              else case dealloc_impl e le lk p (copy_bytes p q (min old_usable new_size) w1) of
                     None \<Rightarrow> None
                   | Some (Inl x) \<Rightarrow> Some (Inl x)
                   | Some (Inr w2) \<Rightarrow> Some (Inr (Some q, w2)))"

section \<open>The \<open>GlobalAlloc\<close> methods\<close>

definition ga_alloc :: "cache_env \<Rightarrow> large_env \<Rightarrow> nat \<Rightarrow> nat \<Rightarrow> api_state \<Rightarrow> (addr \<times> api_state) option" where
  "ga_alloc e le sz align w = alloc_impl e le sz align w"

definition ga_dealloc :: "cache_env \<Rightarrow> large_env \<Rightarrow> lookups \<Rightarrow> addr \<Rightarrow> nat \<Rightarrow> nat \<Rightarrow> api_state \<Rightarrow> api_state outcome" where
  "ga_dealloc e le lk p sz align w = (if sz = 0 then Some (Inr w) else dealloc_with_layout e le lk p sz align w)"

definition ga_alloc_zeroed :: "cache_env \<Rightarrow> large_env \<Rightarrow> nat \<Rightarrow> nat \<Rightarrow> api_state \<Rightarrow> (addr \<times> api_state) option" where
  "ga_alloc_zeroed e le sz align w = alloc_zeroed_impl e le sz align w"

text \<open>The last resort: allocate, copy, free.\<close>

definition realloc_move :: "cache_env \<Rightarrow> large_env \<Rightarrow> lookups \<Rightarrow> addr \<Rightarrow> nat \<Rightarrow> nat \<Rightarrow> nat \<Rightarrow> api_state \<Rightarrow> (addr \<times> api_state) outcome" where
  "realloc_move e le lk p sz align new_size w =
     (case alloc_impl e le new_size align w of
        None \<Rightarrow> None
      | Some (q, w1) \<Rightarrow>
          if q = null then Some (Inr (null, w1))
          else
            let n = min sz new_size; w2 = (if 0 < n then copy_bytes p q n w1 else w1)
            in if sz = 0 then Some (Inr (q, w2))
               else case dealloc_with_layout e le lk p sz align w2 of
                      None \<Rightarrow> None
                    | Some (Inl x) \<Rightarrow> Some (Inl x)
                    | Some (Inr w3) \<Rightarrow> Some (Inr (q, w3)))"

text \<open>Growth in place, the second attempt of \<open>realloc_slow\<close>: for blocks of the large path.\<close>

definition realloc_large_or_move :: "cache_env \<Rightarrow> large_env \<Rightarrow> lookups \<Rightarrow> addr \<Rightarrow> nat \<Rightarrow> nat \<Rightarrow> nat \<Rightarrow> api_state \<Rightarrow>
    (addr \<times> api_state) outcome" where
  "realloc_large_or_move e le lk p sz align new_size w =
     (if p \<noteq> null \<and> (MIN_ALIGN < align \<or> MAX_BIG_BLOCK < sz) then
        case grow_block le p new_size w of
          None \<Rightarrow> None
        | Some (True, w') \<Rightarrow> Some (Inr (p, w'))
        | Some (False, w') \<Rightarrow> realloc_move e le lk p sz align new_size w'
      else realloc_move e le lk p sz align new_size w)"

definition realloc_grow :: "cache_env \<Rightarrow> large_env \<Rightarrow> lookups \<Rightarrow> addr \<Rightarrow> nat \<Rightarrow> nat \<Rightarrow> nat \<Rightarrow> api_state \<Rightarrow> (addr \<times> api_state) outcome" where
  "realloc_grow e le lk p sz align new_size w =
     (case (if new_size \<le> MAX_BIG_BLOCK \<and> sz \<le> MAX_BIG_BLOCK then try_promote_big_grow e le lk p new_size align w
            else Some (Inr (None, w))) of
        None \<Rightarrow> None
      | Some (Inl x) \<Rightarrow> Some (Inl x)
      | Some (Inr (Some q, w1)) \<Rightarrow> Some (Inr (q, w1))
      | Some (Inr (None, w1)) \<Rightarrow>
          (case grow_block le p new_size w1 of
             None \<Rightarrow> None
           | Some (True, w2) \<Rightarrow> Some (Inr (p, w2))
           | Some (False, w2) \<Rightarrow> realloc_large_or_move e le lk p sz align new_size w2))"

definition realloc_slow :: "cache_env \<Rightarrow> large_env \<Rightarrow> lookups \<Rightarrow> addr \<Rightarrow> nat \<Rightarrow> nat \<Rightarrow> nat \<Rightarrow> api_state \<Rightarrow> (addr \<times> api_state) outcome" where
  "realloc_slow e le lk p sz align new_size w =
     (if align \<le> MIN_ALIGN \<and> sz \<le> MAX_SMALL_SIZE \<and> new_size \<le> MAX_SMALL_SIZE
      then map_option Inr (realloc_small e p sz new_size (class_for_size sz) (class_for_size new_size) w)
      else if p \<noteq> null \<and> align \<le> MIN_ALIGN \<and> MAX_SMALL_SIZE < sz \<and> sz \<le> MAX_MEDIUM_BLOCK
        \<and> MAX_SMALL_SIZE < new_size \<and> new_size \<le> MAX_MEDIUM_BLOCK \<and> medium_class_for_size sz = medium_class_for_size new_size
      then Some (Inr (p, w))
      else if p \<noteq> null \<and> align \<le> MIN_ALIGN \<and> MAX_MEDIUM_BLOCK < sz \<and> sz \<le> MAX_BIG_BLOCK
        \<and> MAX_MEDIUM_BLOCK < new_size \<and> new_size \<le> MAX_BIG_BLOCK \<and> big_class_for_size sz = big_class_for_size new_size
      then Some (Inr (p, w))
      else if p \<noteq> null \<and> align \<le> MIN_ALIGN \<and> MAX_MEDIUM_BLOCK < sz \<and> MAX_MEDIUM_BLOCK < new_size
      then realloc_grow e le lk p sz align new_size w
      else realloc_large_or_move e le lk p sz align new_size w)"

definition ga_realloc :: "cache_env \<Rightarrow> large_env \<Rightarrow> lookups \<Rightarrow> addr \<Rightarrow> nat \<Rightarrow> nat \<Rightarrow> nat \<Rightarrow> api_state \<Rightarrow> (addr \<times> api_state) outcome" where
  "ga_realloc e le lk p sz align new_size w =
     (if new_size = 0 then map_option (map_sum id (Pair (max align 1))) (ga_dealloc e le lk p sz align w)
      else if p \<noteq> null \<and> sz \<noteq> 0 \<and> align \<le> MIN_ALIGN \<and> sz \<le> MAX_SMALL_SIZE \<and> new_size \<le> MAX_SMALL_SIZE
        \<and> class_for_size sz = class_for_size new_size
      then Some (Inr (p, w))
      else realloc_slow e le lk p sz align new_size w)"

section \<open>The C functions\<close>

definition ISIZE_MAX :: nat where [const_simps]: "ISIZE_MAX = 2 ^ 63 - 1"

definition malloc :: "cache_env \<Rightarrow> large_env \<Rightarrow> nat \<Rightarrow> api_state \<Rightarrow> (addr \<times> api_state) option" where
  "malloc e le sz w = (if sz = 0 \<or> ISIZE_MAX < sz then Some (null, w) else alloc_impl e le sz 1 w)"

definition calloc :: "cache_env \<Rightarrow> large_env \<Rightarrow> nat \<Rightarrow> nat \<Rightarrow> api_state \<Rightarrow> (addr \<times> api_state) option" where
  "calloc e le nmemb sz w =
     (case checked_mul nmemb sz of
        Some t \<Rightarrow> if 0 < t \<and> t \<le> ISIZE_MAX then alloc_zeroed_impl e le t 1 w else Some (null, w)
      | None \<Rightarrow> Some (null, w))"

definition is_power_of_two :: "nat \<Rightarrow> bool" where
  "is_power_of_two n \<longleftrightarrow> n \<noteq> 0 \<and> (word_of_nat n AND word_of_nat (n - 1) :: 64 word) = 0"

definition aligned_alloc :: "cache_env \<Rightarrow> large_env \<Rightarrow> nat \<Rightarrow> nat \<Rightarrow> api_state \<Rightarrow> (addr \<times> api_state) option" where
  "aligned_alloc e le align sz w =
     (if align = 0 \<or> \<not> is_power_of_two align \<or> sz = 0 \<or> ISIZE_MAX < sz then Some (null, w) else alloc_impl e le sz align w)"

definition free :: "cache_env \<Rightarrow> large_env \<Rightarrow> lookups \<Rightarrow> addr \<Rightarrow> api_state \<Rightarrow> api_state outcome" where
  "free e le lk p w = dealloc_impl e le lk p w"

definition usable_by_header :: "cache_env \<Rightarrow> lookups \<Rightarrow> addr \<Rightarrow> nat" where
  "usable_by_header e lk p =
     (case lk_page_class lk p of
        Some c \<Rightarrow> CLASSES ! c
      | None \<Rightarrow> if ce_span_at e p \<noteq> null \<and> lk_span_has lk (ce_span_at e p) p
                then MEDIUM_CLASSES ! lk_mclass lk (ce_span_at e p) else 0)"

definition usable_size :: "cache_env \<Rightarrow> lookups \<Rightarrow> addr \<Rightarrow> api_state \<Rightarrow> nat option" where
  "usable_size e lk p w =
     (if p = null then Some 0
      else if p < LARGE_HEADER_SIZE then Some 0
      else if in_arena_block w p then
        if large_at w p \<noteq> null then
          let h = g_hdrs (w_large w) (large_at w p) in Some (mapped_size h - (p - l_base h))
        else if lk_medium_at lk p \<noteq> null then
          let span = lk_medium_at lk p in Some (if lk_span_has lk span p then MEDIUM_CLASSES ! lk_mclass lk span else 0)
        else if ce_big_at e p \<noteq> null then
          Some (if lk_big_has lk (ce_big_at e p) p then BIG_CLASSES ! lk_bclass lk (ce_big_at e p) else 0)
        else Some (usable_by_header e lk p)
      else
        case legacy_large_contains (g_hdrs (w_large w), g_registry (w_large w)) p of
          None \<Rightarrow> None
        | Some True \<Rightarrow>
            let h = g_hdrs (w_large w) (p - LARGE_HEADER_SIZE) in Some (mapped_size h - (p - l_base h))
        | Some False \<Rightarrow> Some (usable_by_header e lk p))"


text \<open>\<open>realloc\<close>: the tests that leave the block where it is, for a block of a page or span and for one found in the side table.\<close>

definition stays_by_header :: "cache_env \<Rightarrow> lookups \<Rightarrow> addr \<Rightarrow> nat \<Rightarrow> bool" where
  "stays_by_header e lk p sz \<longleftrightarrow>
     (case lk_page_class lk p of Some c \<Rightarrow> sz \<le> MAX_SMALL_SIZE \<and> class_for_size sz = c | None \<Rightarrow> False)
     \<or> (ce_span_at e p \<noteq> null \<and> lk_span_has lk (ce_span_at e p) p
        \<and> MAX_SMALL_SIZE < sz \<and> sz \<le> MAX_MEDIUM_BLOCK \<and> medium_class_for_size sz = lk_mclass lk (ce_span_at e p))"

definition realloc_by_copy :: "cache_env \<Rightarrow> large_env \<Rightarrow> lookups \<Rightarrow> addr \<Rightarrow> nat \<Rightarrow> bool \<Rightarrow> api_state \<Rightarrow> (addr \<times> api_state) outcome" where
  "realloc_by_copy e le lk p sz old_large w =
     (case (if old_large then alloc_impl e le sz (pointer_alignment p) w else malloc e le sz w) of
        None \<Rightarrow> None
      | Some (q, w1) \<Rightarrow>
          if q = null then Some (Inr (null, w1))
          else case usable_size e lk p w1 of
                 None \<Rightarrow> None
               | Some old_size \<Rightarrow>
                   (case free e le lk p (copy_bytes p q (min old_size sz) w1) of
                      None \<Rightarrow> None
                    | Some (Inl x) \<Rightarrow> Some (Inl x)
                    | Some (Inr w2) \<Rightarrow> Some (Inr (q, w2))))"

definition realloc_packed :: "cache_env \<Rightarrow> large_env \<Rightarrow> lookups \<Rightarrow> addr \<Rightarrow> nat \<Rightarrow> bool \<Rightarrow> api_state \<Rightarrow> (addr \<times> api_state) outcome" where
  "realloc_packed e le lk p sz old_large w =
     (let old_big = in_arena_block w p \<and> ce_big_at e p \<noteq> null; old_medium = in_arena_block w p \<and> lk_medium_at lk p \<noteq> null;
          big_sized = MAX_MEDIUM_BLOCK < sz \<and> sz \<le> MAX_BIG_BLOCK;
          stays_medium = old_medium \<and> MAX_SMALL_SIZE < sz \<and> sz \<le> MAX_MEDIUM_BLOCK
            \<and> medium_class_for_size sz = lk_mclass lk (lk_medium_at lk p)
      in if \<not> old_big \<and> \<not> old_medium \<and> \<not> old_large \<and> stays_by_header e lk p sz then Some (Inr (p, w))
         else if old_big \<and> big_sized \<and> big_class_for_size sz = lk_bclass lk (ce_big_at e p) then Some (Inr (p, w))
         else case (if old_big \<and> big_sized then try_promote_big_grow e le lk p sz (pointer_alignment p) w else Some (Inr (None, w))) of
                None \<Rightarrow> None
              | Some (Inl x) \<Rightarrow> Some (Inl x)
              | Some (Inr (Some q, w1)) \<Rightarrow> Some (Inr (q, w1))
              | Some (Inr (None, w1)) \<Rightarrow>
                  if stays_medium then Some (Inr (p, w1)) else realloc_by_copy e le lk p sz old_large w1)"

definition realloc :: "cache_env \<Rightarrow> large_env \<Rightarrow> lookups \<Rightarrow> addr \<Rightarrow> nat \<Rightarrow> api_state \<Rightarrow> (addr \<times> api_state) outcome" where
  "realloc e le lk p sz w =
     (if ISIZE_MAX < sz then Some (Inr (null, w))
      else if sz = 0 then map_option (map_sum id (Pair null)) (free e le lk p w)
      else if p = null \<or> p < LARGE_HEADER_SIZE then map_option Inr (malloc e le sz w)
      else if in_arena_block w p then
        if large_at w p \<noteq> null then
          case grow_block le p sz w of
            None \<Rightarrow> None
          | Some (True, w1) \<Rightarrow> Some (Inr (p, w1))
          | Some (False, w1) \<Rightarrow> realloc_packed e le lk p sz True w1
        else realloc_packed e le lk p sz False w
      else
        case legacy_large_contains (g_hdrs (w_large w), g_registry (w_large w)) p of
          None \<Rightarrow> None
        | Some old_large \<Rightarrow> realloc_packed e le lk p sz old_large w)"

section \<open>Reallocating a small block\<close>

definition moved :: "cache_env \<Rightarrow> nat \<Rightarrow> nat \<Rightarrow> addr \<Rightarrow> blocks \<Rightarrow> (addr \<times> cache_state) option \<Rightarrow> bool" where
  "moved e co cn p H r \<longleftrightarrow> (\<exists>q s' D'. r = Some (q, s') \<and> (q = null \<and> cache_inv e H D' s'
     \<or> q \<noteq> null \<and> q \<notin> H Small cn \<and> cache_inv e (upd Small co (H Small co - {p}) (upd Small cn (insert q (H Small cn)) H)) D' s'))"

lemma move_small_ok:
  assumes t: "allotted e Small cn H s D (T s)" and p: "p \<in> H Small co" "co \<noteq> cn" "n \<noteq> 0"
    and g: "\<And>H' D' s1. cache_inv e H' D' s1 \<Longrightarrow> p \<in> H' Small co \<Longrightarrow> released e Small co p H' s1 D' (G s1)"
  shows "moved e co cn p H (move_small (plain T) G n s)"
proof -
  obtain q z s1 D1 where q: "T s = Some ((q, z), s1)"
    "q = null \<and> cache_inv e H D1 s1 \<or> q \<noteq> null \<and> q \<notin> H Small cn \<and> cache_inv e (upd Small cn (insert q (H Small cn)) H) D1 s1"
    using t unfolding allotted_def by blast
  show ?thesis
  proof (cases "q = null")
    case True
    then have "move_small (plain T) G n s = Some (null, s1)" using q(1) by (simp add: move_small_def plain_def)
    then show ?thesis using q(2) True unfolding moved_def by blast
  next
    case False
    let ?H = "upd Small cn (insert q (H Small cn)) H"
    have inv: "cache_inv e ?H D1 s1" using q(2) False by blast
    have "released e Small co p ?H s1 D1 (G s1)" by (rule g [OF inv]) (use p in simp)
    then obtain s2 D2 where s2: "G s1 = Some s2" "cache_inv e (upd Small co (?H Small co - {p}) ?H) D2 s2"
      unfolding released_def by blast
    have "move_small (plain T) G n s = Some (q, s2)" using q(1) False p(3) s2(1) by (simp add: move_small_def plain_def)
    moreover have "?H Small co = H Small co" using p(2) by simp
    ultimately show ?thesis using s2(2) q(2) False unfolding moved_def by (intro exI conjI disjI2) simp_all
  qed
qed

lemma realloc_small_facts:
  assumes inv: "cache_inv e H D (w_cache w)" and p: "p \<in> H Small co" and c: "co < NUM_CLASSES" "cn < NUM_CLASSES" "co \<noteq> cn" "n \<noteq> 0"
    and r: "ready e Small cn w"
  shows "\<exists>q s' D'. realloc_small e p n m co cn w = Some (q, if q \<noteq> null then copy_bytes p q (min n m) (w\<lparr>w_cache := s'\<rparr>) else w\<lparr>w_cache := s'\<rparr>)
    \<and> (q = null \<and> cache_inv e H D' s'
       \<or> q \<noteq> null \<and> q \<notin> H Small cn \<and> cache_inv e (upd Small co (H Small co - {p}) (upd Small cn (insert q (H Small cn)) H)) D' s')"
proof -
  let ?s = "w_cache w"
  have cached: "moved e co cn p H (move_small (alloc e cn) (dealloc e p co) n ?s)" if "w_flag w = Some TLS_FREE"
  proof -
    have a: "allotted e Small cn H ?s D (cache_alloc e Small cn ?s)"
      by (rule cache_alloc_facts [OF inv]) (use c r that in \<open>simp_all add: ready_def del: grants.simps cache_alloc.simps\<close>)
    have g: "released e Small co p H' s1 D' (dealloc e p co s1)" if "cache_inv e H' D' s1" "p \<in> H' Small co" for H' D' s1
      using cache_free_facts [OF that(1) _ that(2)] c by (auto simp: freed_def released_def active_covers_def)
    show ?thesis unfolding plain_allocs by (rule move_small_ok, rule a, rule p, rule c(3), rule c(4), rule g)
  qed
  have direct: "moved e co cn p H (move_small (plain (heap_take e Small cn)) (heap_free_small e co p) n ?s)" if "w_flag w \<noteq> Some TLS_FREE"
  proof -
    have a: "allotted e Small cn H ?s D (heap_take e Small cn ?s)"
      by (rule heap_take_ok [OF inv]) (use c r that in \<open>simp_all add: ready_def\<close>)
    have g: "released e Small co p H' s1 D' (heap_free_small e co p s1)" if "cache_inv e H' D' s1" "p \<in> H' Small co" for H' D' s1
      using heap_free_ok [OF that(1) _ that(2)] c by simp
    show ?thesis by (rule move_small_ok, rule a, rule p, rule c(3), rule c(4), rule g)
  qed
  have "moved e co cn p H ((if w_flag w = Some TLS_FREE then move_small (alloc e cn) (dealloc e p co) n
      else move_small (plain (heap_take e Small cn)) (heap_free_small e co p) n) ?s)"
    using cached direct by simp
  then show ?thesis unfolding moved_def realloc_small_def with_cache_eq using c(4)
    by (elim exE conjE) (auto split: if_splits)
qed

end
