(* ===== verification/Api_Correct.thy ===== *)
theory Api_Correct
  imports Public_Api
begin

text \<open>
  What the public functions promise: allocation and freeing over all tiers, and the error results.
\<close>

section \<open>Allocation and freeing\<close>

text \<open>C1 (allocation).  A request for at least one byte at any power of two returns.  Without a block (null) the
  program's blocks are as before.  Otherwise the block comes from the tier of its size and alignment, or from
  the large path when the big tier has none; it was not held before, it is aligned, it has room for the request,
  and the invariants of the caches, the heaps and the large regions hold with it among the program's.\<close>

theorem alloc_impl_correct:
  assumes "api_ok e others oregs X D w" "caller_ok le (w_large w)" "align = 2 ^ k" "0 < sz"
    and "mmap_ok le (w_large w) (snd X) sz align False 0" "\<And>t c. tier_of sz align = Some (t, c) \<Longrightarrow> ready e t c w"
  shows "\<exists>p w' D'. alloc_impl e le sz align w = Some (p, w') \<and> w_bytes w' = w_bytes w
    \<and> (if p = null then api_ok e others oregs X D' w'
       else \<exists>h. home_for sz align h \<and> \<not> holds h p X \<and> room_for w' p sz h \<and> align dvd p
          \<and> api_ok e others oregs (gain h p X) D' w')"
proof -
  obtain p w' where a: "alloc_impl e le sz align w = Some (p, w')" "served_block e others oregs sz align X w (p, w')"
    using alloc_impl_facts [OF assms] by (metis surj_pair)
  then obtain D' where "if p = null then api_ok e others oregs X D' w'
       else \<exists>h. home_for sz align h \<and> \<not> holds h p X \<and> room_for w' p sz h \<and> align dvd p
          \<and> api_ok e others oregs (gain h p X) D' w'"
    unfolding served_block_def by auto
  then show ?thesis using a unfolding served_block_def by (intro exI [of _ p] exI [of _ w'] exI [of _ D']) simp
qed

text \<open>C2 (freeing).  A block of the program, freed with the layout it was allocated with or by its address
  alone, goes back to the tier it came from: the two calls do the same, they return without complaint, and the
  invariants hold without the block.\<close>

theorem free_routes_correct:
  assumes "api_ok e others oregs X D w" "holds h p X" "home_for sz align h" "0 < sz" "resolves e lk w p h"
    and "caller_ok le (w_large w)"
  shows "dealloc_impl e le lk p w = dealloc_with_layout e le lk p sz align w
    \<and> (\<exists>w' D'. dealloc_with_layout e le lk p sz align w = Some (Inr w') \<and> w_bytes w' = w_bytes w
         \<and> api_ok e others oregs (lose h p X) D' w')"
proof -
  have r: "dealloc_with_layout e le lk p sz align w = home_free e le h p w" by (rule layout_route [OF assms(1,3,2,5)])
  have "dealloc_impl e le lk p w = home_free e le h p w" by (rule pointer_route [OF assms(1,2,5)])
  then show ?thesis using home_free_facts [OF assms] r unfolding freed_block_def by auto
qed

section \<open>Errors\<close>

lemma word_and_nat:
  assumes "n < 2 ^ 64" "m < 2 ^ 64"
  shows "(word_of_nat n AND word_of_nat m :: 64 word) = 0 \<longleftrightarrow> and n m = 0"
proof -
  have "(word_of_nat n AND word_of_nat m :: 64 word) = word_of_nat (and n m)" by (simp add: of_nat_and_eq)
  moreover have "and n m = take_bit 64 (and n m)" using assms by (simp add: take_bit_and take_bit_nat_eq_self)
  then have "and n m < 2 ^ 64" by (metis take_bit_nat_less_exp)
  ultimately show ?thesis by (simp add: word_of_nat_eq_0_iff) (metis dvd_imp_le not_le gr0I dvd_0_right)
qed

text \<open>The bit test is the mathematical one.\<close>

lemma is_power_of_two_iff:
  assumes "n < 2 ^ 64"
  shows "is_power_of_two n \<longleftrightarrow> (\<exists>k. n = 2 ^ k)"
proof
  assume "\<exists>k. n = 2 ^ k"
  then obtain k where k: "n = 2 ^ k" by blast
  have "and n (n - 1) = take_bit k n" by (simp add: k take_bit_eq_mask mask_eq_exp_minus_1)
  also have "\<dots> = 0" by (simp add: k take_bit_eq_mod)
  finally have "and n (n - 1) = 0" .
  moreover have "n \<noteq> 0" by (simp add: k)
  ultimately show "is_power_of_two n" using assms word_and_nat [of n "n - 1"] by (simp add: is_power_of_two_def)
next
  assume p: "is_power_of_two n"
  then have n: "0 < n" "and n (n - 1) = 0" using assms word_and_nat [of n "n - 1"] by (auto simp: is_power_of_two_def)
  obtain k where k: "2 ^ k \<le> n" "n < 2 ^ (k + 1)" using ex_power_ivl1 [of 2 n] n(1) by auto
  have "n = 2 ^ k"
  proof (rule ccontr)
    assume "n \<noteq> 2 ^ k"
    then have m: "2 ^ k \<le> n - 1" "n - 1 < 2 ^ (k + 1)" using k by simp_all
    have b: "bit x k" if "2 ^ k \<le> x" "x < 2 ^ (k + 1)" for x :: nat
    proof -
      have "x div 2 ^ k = 1" using that by (intro div_nat_eqI) simp_all
      then show ?thesis by (simp add: bit_iff_odd)
    qed
    have "bit (and n (n - 1)) k" using b [OF k] b [OF m] by (simp add: bit_and_iff)
    then show False using n(2) by simp
  qed
  then show "\<exists>k. n = 2 ^ k" ..
qed

text \<open>C7 (errors).  The C functions answer null and touch nothing exactly when the request is empty, its size (for
  \<open>calloc\<close> the true product) does not fit a signed word, or the alignment is not a power of two; otherwise they
  pass it on.  A reallocation that is too large leaves everything as it is.  Freeing null does nothing; an
  address below the first possible block, or one that no table, page or span knows, is refused.\<close>

theorem api_errors:
  assumes "align < 2 ^ 64"
  shows "malloc e le sz w = (if 0 < sz \<and> sz < 2 ^ 63 then alloc_impl e le sz 1 w else Some (null, w))
    \<and> calloc e le nmemb sz w = (if 0 < nmemb * sz \<and> nmemb * sz < 2 ^ 63 then alloc_zeroed_impl e le (nmemb * sz) 1 w else Some (null, w))
    \<and> aligned_alloc e le align sz w = (if (\<exists>k. align = 2 ^ k) \<and> 0 < sz \<and> sz < 2 ^ 63 then alloc_impl e le sz align w else Some (null, w))
    \<and> (2 ^ 63 \<le> sz \<longrightarrow> realloc e le lk p sz w = Some (Inr (null, w)))
    \<and> free e le lk null w = Some (Inr w)
    \<and> (0 < p \<and> p < LARGE_HEADER_SIZE \<or> LARGE_HEADER_SIZE \<le> p \<and> not_large w p \<and> lk_page_class lk p = None
        \<and> (in_arena_block w p \<longrightarrow> lk_medium_at lk p = null \<and> ce_big_at e p = null)
        \<and> (ce_span_at e p = null \<or> \<not> lk_span_has lk (ce_span_at e p) p)
       \<longrightarrow> free e le lk p w = Some (Inl Corrupt_Pointer))"
proof (intro conjI)
  show "malloc e le sz w = (if 0 < sz \<and> sz < 2 ^ 63 then alloc_impl e le sz 1 w else Some (null, w))"
    by (auto simp: malloc_def ISIZE_MAX_def)
  show "calloc e le nmemb sz w = (if 0 < nmemb * sz \<and> nmemb * sz < 2 ^ 63 then alloc_zeroed_impl e le (nmemb * sz) 1 w else Some (null, w))"
    by (auto simp: calloc_def ISIZE_MAX_def checked_mul_def USIZE_BITS_def)
  show "aligned_alloc e le align sz w = (if (\<exists>k. align = 2 ^ k) \<and> 0 < sz \<and> sz < 2 ^ 63 then alloc_impl e le sz align w else Some (null, w))"
    using is_power_of_two_iff [OF assms] by (auto simp: aligned_alloc_def ISIZE_MAX_def)
  show "2 ^ 63 \<le> sz \<longrightarrow> realloc e le lk p sz w = Some (Inr (null, w))" by (auto simp: realloc_def ISIZE_MAX_def)
  show "free e le lk null w = Some (Inr w)" by (simp add: free_def dealloc_impl_def)
  show "0 < p \<and> p < LARGE_HEADER_SIZE \<or> LARGE_HEADER_SIZE \<le> p \<and> not_large w p \<and> lk_page_class lk p = None
        \<and> (in_arena_block w p \<longrightarrow> lk_medium_at lk p = null \<and> ce_big_at e p = null)
        \<and> (ce_span_at e p = null \<or> \<not> lk_span_has lk (ce_span_at e p) p)
       \<longrightarrow> free e le lk p w = Some (Inl Corrupt_Pointer)"
    by (auto simp: free_def dealloc_impl_def dealloc_by_header_def not_large_def const_simps Let_def)
qed

section \<open>A concrete thread\<close>

definition demo_state :: "cache_state \<Rightarrow> api_state" where
  "demo_state s = \<lparr> w_flag = Some TLS_FREE, w_cache = s, w_large = demo_large, w_bytes = (\<lambda>a. a mod 256) \<rparr>"

definition no_blocks :: blocks where "no_blocks = (\<lambda>_ _. {})"

definition one_block :: blocks where "one_block = upd Small 45 {65584} no_blocks"

lemma demo_ok:
  "api_ok first_env {#} [] (no_blocks, []) no_blocks (demo_state first_state)"
  "api_ok first_env {#} [] (one_block, []) no_blocks (demo_state held_state)"
  using first_inv held_inv demo_large_ok by (simp_all add: api_ok_def demo_state_def no_blocks_def one_block_def)

lemma demo_class: "class_for_size 17 = 1" "class_for_size 16384 = 45"
  by (simp_all add: class_for_size_slot class_for_size_scan_def CLASSES_eq scan_table.simps const_simps)

lemma demo_tier: "tier_of 17 16 = Some (Small, 1)" "tier_of 16384 16 = Some (Small, 45)"
  using demo_class by (simp_all add: tier_of_def needs_large_def const_simps MAX_BIG_BLOCK_eq)

lemma demo_caller: "caller_ok demo_env (w_large (demo_state s))"
  by (simp add: caller_ok_def demo_env_def)

lemma demo_ready: "ready first_env Small 1 (demo_state first_state)" "ready first_env Small 1 (demo_state held_state)"
  using first_quiet first_grants [of 1] by (simp_all add: ready_def demo_state_def const_simps del: grants.simps)

theorem alloc_impl_correct_witness:
  "\<exists>p w' D'. alloc_impl first_env demo_env 17 16 (demo_state first_state) = Some (p, w')
    \<and> (if p = null then api_ok first_env {#} [] (no_blocks, []) D' w' else 16 dvd p)"
proof -
  have "mmap_ok demo_env (w_large (demo_state first_state)) [] 17 16 False 0"
    by (simp add: mmap_ok_def maps_fresh_def demo_env_def)
  then show ?thesis
    using alloc_impl_correct [OF demo_ok(1) demo_caller, of 16 4 17] demo_tier(1) demo_ready(1) by (auto split: if_splits)
qed

definition demo_lookups :: lookups where
  "demo_lookups = \<lparr> lk_medium_at = (\<lambda>_. null), lk_page_class = (\<lambda>_. Some 45), lk_mclass = (\<lambda>_. 0), lk_bclass = (\<lambda>_. 0),
     lk_span_has = (\<lambda>_ _. False), lk_big_has = (\<lambda>_ _. False) \<rparr>"

text \<open>The same block freed, with a side table that has no big span.\<close>

definition free_env :: cache_env where "free_env = first_env\<lparr>ce_big_at := (\<lambda>_. null)\<rparr>"

lemma free_inv: "cache_inv free_env one_block no_blocks held_state"
  unfolding one_block_def no_blocks_def by (rule held_inv_env) (use first_purge in \<open>simp_all add: free_env_def\<close>)

theorem free_routes_correct_witness:
  "dealloc_impl free_env demo_env demo_lookups 65584 (demo_state held_state)
     = dealloc_with_layout free_env demo_env demo_lookups 65584 16384 16 (demo_state held_state)
    \<and> (\<exists>w' D'. dealloc_with_layout free_env demo_env demo_lookups 65584 16384 16 (demo_state held_state) = Some (Inr w')
         \<and> cache_inv free_env no_blocks D' (w_cache w'))"
proof -
  have ok: "api_ok free_env {#} [] (one_block, []) no_blocks (demo_state held_state)"
    using free_inv demo_large_ok by (simp add: api_ok_def demo_state_def)
  have h: "holds (Packed Small 45) 65584 (one_block, [])" "home_for 16384 16 (Packed Small 45)"
    using demo_tier(2) by (simp_all add: one_block_def)
  have "not_large (demo_state held_state) 65584"
    using legacy_known [OF demo_large_ok, of 65584]
    by (auto simp: not_large_def demo_state_def large_table_get_def demo_large_def large_new_def big_map_new_def Let_def split: option.split)
  then have r: "resolves free_env demo_lookups (demo_state held_state) 65584 (Packed Small 45)"
    by (simp add: demo_lookups_def free_env_def const_simps)
  have "lose (Packed Small 45) 65584 (one_block, []) = (no_blocks, [])"
    by (simp add: one_block_def upd_def no_blocks_def fun_eq_iff)
  then show ?thesis using free_routes_correct [OF ok h _ r demo_caller] by (auto simp: api_ok_def)
qed

theorem api_errors_witness:
  "aligned_alloc first_env demo_env 24 8 (demo_state first_state) = Some (null, demo_state first_state)
    \<and> free first_env demo_env demo_lookups 40 (demo_state first_state) = Some (Inl Corrupt_Pointer)"
proof -
  have "\<not> is_power_of_two 24" by (simp add: is_power_of_two_def)
  then have "\<nexists>k. (24 :: nat) = 2 ^ k" using is_power_of_two_iff [of 24] by simp
  then show ?thesis using api_errors [of 24 first_env demo_env 8 "demo_state first_state" 0 demo_lookups 40] by (simp add: const_simps)
qed

end
