(* ===== verification/Api_Zeroed.thy ===== *)
theory Api_Zeroed
  imports Api_Correct
begin

text \<open>
  Zeroed allocation and \<open>calloc\<close> (\<open>src/src/lib.rs\<close>): what the bytes of the block are, and where the code may leave
  them as they are because nobody has written them.
\<close>

section \<open>Which bytes are written\<close>

lemma zero_block_frame:
  "w_flag (zero_block p z n w) = w_flag w" "w_cache (zero_block p z n w) = w_cache w" "w_large (zero_block p z n w) = w_large w"
  by (simp_all add: zero_block_def write_zeros_def)

text \<open>
  A block is blank if the first \<open>n\<close> bytes are zero; it is pristine if the bytes of the free list's link are zero and
  the rest is as it was.  Outside the block and its link nothing changes.
\<close>

definition blank :: "api_state \<Rightarrow> addr \<Rightarrow> nat \<Rightarrow> bool" where
  "blank w p n \<longleftrightarrow> (\<forall>i < n. w_bytes w (p + i) = 0)"

definition pristine :: "api_state \<Rightarrow> api_state \<Rightarrow> addr \<Rightarrow> bool" where
  "pristine w w' p \<longleftrightarrow> (\<forall>a. w_bytes w' a = (if p \<le> a \<and> a < p + 8 then 0 else w_bytes w a))"

definition only_block :: "api_state \<Rightarrow> api_state \<Rightarrow> addr \<Rightarrow> nat \<Rightarrow> bool" where
  "only_block w w' p n \<longleftrightarrow> (\<forall>a. a < p \<or> p + max n 8 \<le> a \<longrightarrow> w_bytes w' a = w_bytes w a)"

lemma zero_block_result:
  assumes "w_bytes w1 = w_bytes w"
  shows "only_block w (zero_block p z n w1) p n" "if z then pristine w (zero_block p z n w1) p else blank (zero_block p z n w1) p n"
proof -
  have b: "w_bytes (zero_block p z n w1) a = (if p \<le> a \<and> a < p + (if z then 8 else n) then 0 else w_bytes w a)" for a
    using assms by (simp add: zero_block_def write_zeros_def)
  show "only_block w (zero_block p z n w1) p n" unfolding only_block_def b by auto
  show "if z then pristine w (zero_block p z n w1) p else blank (zero_block p z n w1) p n"
    unfolding pristine_def blank_def b by simp
qed

text \<open>Why a block may be left as it is: it was not handed back since its memory came from the system, or the large
  path knows its region to read as zero.\<close>

fun vouched :: "large_env \<Rightarrow> nat \<Rightarrow> nat \<Rightarrow> blocks \<Rightarrow> addr \<Rightarrow> home \<Rightarrow> bool" where
  "vouched le sz align D p (Packed t c) \<longleftrightarrow> p \<notin> D t c"
| "vouched le sz align D p Large \<longleftrightarrow> (\<exists>l f l'. alloc_large_ex le l sz align True 0 = ((p, f, True), l'))"

text \<open>What a served block has to be.\<close>

definition zeroed_block :: "cache_env \<Rightarrow> large_env \<Rightarrow> slice multiset \<Rightarrow> (slice \<times> table_entry) list \<Rightarrow> nat \<Rightarrow> nat \<Rightarrow> holdings \<Rightarrow>
    api_state \<Rightarrow> addr \<times> api_state \<Rightarrow> bool" where
  "zeroed_block e le others oregs sz align X w r \<longleftrightarrow> (case r of (p, w') \<Rightarrow>
     (\<exists>D'. if p = null then api_ok e others oregs X D' w' \<and> w_bytes w' = w_bytes w
       else \<exists>h. home_for sz align h \<and> \<not> holds h p X \<and> room_for w' p sz h \<and> align dvd p
          \<and> api_ok e others oregs (gain h p X) D' w' \<and> only_block w w' p sz
          \<and> (blank w' p sz \<or> vouched le sz align D' p h \<and> (case h of Large \<Rightarrow> w_bytes w' = w_bytes w | _ \<Rightarrow> pristine w w' p))))"

lemma zeroed_blockI:
  assumes "p \<noteq> null" "home_for sz align h" "\<not> holds h p X" "room_for w' p sz h" "align dvd p"
    "api_ok e others oregs (gain h p X) D' w'" "only_block w w' p sz"
    "blank w' p sz \<or> vouched le sz align D' p h \<and> (case h of Large \<Rightarrow> w_bytes w' = w_bytes w | _ \<Rightarrow> pristine w w' p)"
  shows "zeroed_block e le others oregs sz align X w (p, w')"
  using assms unfolding zeroed_block_def by auto

section \<open>The large path\<close>

lemma zero_large_frame:
  "w_flag (zero_large_allocation p n z w) = w_flag w" "w_cache (zero_large_allocation p n z w) = w_cache w"
  "w_large (zero_large_allocation p n z w) = w_large w"
  by (simp_all add: zero_large_allocation_def write_zeros_def)

lemma large_zeroed:
  assumes ok: "api_ok e others oregs X D w" and l: "caller_ok le (w_large w)" "align = 2 ^ k" "0 < sz"
    "mmap_ok le (w_large w) (snd X) sz align True 0" and h: "home_for sz align Large"
  shows "zeroed_block e le others oregs sz align X w (alloc_large_zeroed le sz align w)"
proof -
  obtain p fresh z s' where a: "alloc_large_ex le (w_large w) sz align True 0 = ((p, fresh, z), s')" by (metis surj_pair)
  have lo: "large_ok others oregs (w_large w) (snd X) {#}" using ok by (simp add: api_ok_def)
  note f = alloc_large_facts [OF lo l a]
  let ?w = "zero_large_allocation p sz z (w\<lparr>w_large := s'\<rparr>)"
  have r: "alloc_large_zeroed le sz align w = (p, ?w)" by (simp add: alloc_large_zeroed_def a)
  show ?thesis
  proof (cases "p = null")
    case True
    then show ?thesis using f ok unfolding zeroed_block_def r by (auto simp: api_ok_def zero_large_allocation_def)
  next
    case False
    then have g: "large_ok others oregs s' (p # snd X) {#}" "serves (w_large w) s' (snd X) sz align p" using f by simp_all
    obtain b n where b: "block_region s' p = (b, n)" by (cases "block_region s' p")
    have "room_for ?w p sz Large"
      using block_place(4,5) [OF g(1) _ b] g(2) b by (simp add: serves_def zero_large_frame)
    moreover have "\<not> holds Large p X" using headers_apart [of others oregs s' "[]" p "snd X" "{#}" p] g(1) by auto
    moreover have "api_ok e others oregs (gain Large p X) D ?w" using g ok by (simp add: api_ok_def zero_large_frame)
    moreover have "only_block w ?w p sz" by (auto simp: only_block_def zero_large_allocation_def write_zeros_def)
    moreover have "blank ?w p sz \<or> vouched le sz align D p Large \<and> w_bytes ?w = w_bytes w"
      using a False by (cases z) (auto simp: zero_large_allocation_def write_zeros_def blank_def)
    moreover have "align dvd p" using g(2) by (simp add: serves_def)
    ultimately show ?thesis using False h unfolding r by (intro zeroed_blockI [where h = Large and D' = D]) simp_all
  qed
qed

section \<open>All tiers\<close>

lemma alloc_zeroed_tier:
  assumes "0 < sz"
  shows "alloc_zeroed_impl e le sz align w = (case tier_of sz align of
      None \<Rightarrow> Some (alloc_large_zeroed le sz align w)
    | Some (t, c) \<Rightarrow> (case tier_alloc e t c w of None \<Rightarrow> None
        | Some ((p, z), w') \<Rightarrow> Some (if p = null then (if t = Big then alloc_large_zeroed le sz align w' else (p, w'))
            else (p, zero_block p z sz w'))))"
proof (cases "needs_large sz align")
  case True
  then show ?thesis using assms by (simp add: alloc_zeroed_impl_def tier_of_def)
next
  case n: False
  have eta: "cache_alloc e Small c = alloc_zeroed e c" "cache_alloc e Medium c = alloc_medium_zeroed e c"
    "cache_alloc e Big c = alloc_big_zeroed e c" for c by (simp_all add: fun_eq_iff)
  have u: "alloc_zeroed_impl e le sz align w = (if MAX_MEDIUM_BLOCK < sz then
        (case tier_alloc e Big (big_class_for_size sz) w of None \<Rightarrow> None
        | Some ((p, z), w') \<Rightarrow> if p = null then Some (alloc_large_zeroed le sz align w') else Some (p, zero_block p z sz w'))
      else if MAX_SMALL_SIZE < sz then
        (case tier_alloc e Medium (medium_class_for_size sz) w of None \<Rightarrow> None
        | Some ((p, z), w') \<Rightarrow> Some (p, if p \<noteq> null then zero_block p z sz w' else w'))
      else (case tier_alloc e Small (class_for_size sz) w of None \<Rightarrow> None
        | Some ((p, z), w') \<Rightarrow> Some (p, if p \<noteq> null then zero_block p z sz w' else w')))"
    using assms n eta by (simp add: alloc_zeroed_impl_def tier_alloc_def Let_def)
  have t: "tier_of sz align = (if MAX_MEDIUM_BLOCK < sz then Some (Big, big_class_for_size sz)
      else if MAX_SMALL_SIZE < sz then Some (Medium, medium_class_for_size sz) else Some (Small, class_for_size sz))"
    using n by (simp add: tier_of_def)
  show ?thesis unfolding u t by (simp split: option.split prod.split)
qed

lemma packed_zeroed:
  assumes ok: "api_ok e others oregs X D w" and "0 < sz" "align = 2 ^ k" and tc: "tier_of sz align = Some (t, c)"
    and p: "p \<noteq> null" "p \<notin> fst X t c" "z \<longrightarrow> p \<notin> D' t c" "cache_inv e (upd t c (insert p (fst X t c)) (fst X)) D' s'"
  shows "zeroed_block e le others oregs sz align X w (p, zero_block p z sz (w\<lparr>w_cache := s'\<rparr>))"
proof -
  let ?w = "zero_block p z sz (w\<lparr>w_cache := s'\<rparr>)" and ?h = "Packed t c"
  have fits: "c < tier_count t" "sz \<le> tier_size t c" using tier_of_fits [OF tc assms(2)] by simp_all
  have "align dvd p"
    using held_block [OF p(4) fits(1), where p = p] by (intro small_align [OF assms(3) tc]) simp
  moreover have "api_ok e others oregs (gain ?h p X) D' ?w" using p(4) ok by (simp add: api_ok_def zero_block_frame)
  moreover have "only_block w ?w p sz" "if z then pristine w ?w p else blank ?w p sz"
    using zero_block_result [where ?w1.0 = "w\<lparr>w_cache := s'\<rparr>" and w = w and p = p and z = z and n = sz] by simp_all
  ultimately show ?thesis
    using p fits(2) tc by (intro zeroed_blockI [where h = ?h and D' = D']) (auto split: if_splits)
qed

lemma zeroed_block_cache:
  assumes "zeroed_block e le others oregs sz align X w1 r" "w_bytes w1 = w_bytes w"
  shows "zeroed_block e le others oregs sz align X w r"
  using assms unfolding zeroed_block_def only_block_def pristine_def by (simp only: assms(2))



end
