(* ===== verification/Api_Realloc.thy ===== *)
theory Api_Realloc
  imports Api_Zeroed
begin

text \<open>
  Reallocation over all tiers (\<open>GlobalAlloc::realloc\<close> and \<open>realloc_slow\<close> in \<open>src/src/lib.rs\<close>): the block that stays
  where it is, the one that grows in place, the big block that is promoted to a large region, and the move.
\<close>

section \<open>Where the lookups are settled\<close>

text \<open>
  A packed block of the arena: its slice belongs to a heap (it is one of \<open>others\<close>, and no large region is
  registered for it), and the lookups lead to its tier.  None of this depends on the large regions.
\<close>

definition heap_slice :: "slice multiset \<Rightarrow> (slice \<times> table_entry) list \<Rightarrow> addr \<Rightarrow> bool" where
  "heap_slice others oregs p \<longleftrightarrow> 0 < mcover p others \<and> (\<forall>s h. (s, Large_entry h) \<in> set oregs \<longrightarrow> hit p s = 0)"

fun settled :: "cache_env \<Rightarrow> lookups \<Rightarrow> slice multiset \<Rightarrow> (slice \<times> table_entry) list \<Rightarrow> addr \<Rightarrow> home \<Rightarrow> bool" where
  "settled e lk others oregs p (Packed Small c) \<longleftrightarrow> LARGE_HEADER_SIZE \<le> p \<and> heap_slice others oregs p
     \<and> lk_page_class lk p = Some c \<and> lk_medium_at lk p = null \<and> ce_big_at e p = null"
| "settled e lk others oregs p (Packed Medium c) \<longleftrightarrow> LARGE_HEADER_SIZE \<le> p \<and> heap_slice others oregs p
     \<and> span_resolves e lk p c \<and> lk_medium_at lk p = ce_span_at e p"
| "settled e lk others oregs p (Packed Big c) \<longleftrightarrow> LARGE_HEADER_SIZE \<le> p \<and> heap_slice others oregs p
     \<and> lk_medium_at lk p = null \<and> ce_big_at e p \<noteq> null \<and> lk_big_has lk (ce_big_at e p) p \<and> lk_bclass lk (ce_big_at e p) = c"
| "settled e lk others oregs p Large \<longleftrightarrow> True"

lemma mcover_pos: "0 < mcover p M \<Longrightarrow> \<exists>b n. (b, n) \<in># M \<and> hit p (b, n) = 1"
proof (induction M)
  case (add s M)
  show ?case
  proof (cases "hit p s = 0")
    case False
    then have "hit p s = 1" by (simp add: hit_def split: if_splits)
    then show ?thesis by (cases s) auto
  qed (use add in auto)
qed simp

lemma tabled_large_none:
  assumes t: "tabled a m M regs" and n: "\<And>s h. (s, Large_entry h) \<in> set regs \<Longrightarrow> hit p s = 0"
  shows "large_table_get a m p = null"
proof (cases "cover p (map fst regs) = 0")
  case True
  then show ?thesis using tabled_get(2) [OF t] by simp
next
  case False
  then have "\<exists>x \<in> set regs. hit p (fst x) \<noteq> 0" by (induction regs) auto
  then obtain b k x where x: "((b, k), x) \<in> set regs" "hit p (b, k) \<noteq> 0" by auto
  then have "b \<le> p" "p < b + k * ARENA_ALIGN" by (simp_all add: hit_def split: if_splits)
  with tabled_get(1) [OF t x(1)] n [of "(b, k)"] x show ?thesis by (cases x) auto
qed

lemma heap_not_large:
  assumes ok: "large_ok others oregs s blks {#}" and p: "heap_slice others oregs p"
  shows "contains (g_arena s) p 1" "large_table_get (g_arena s) (g_map s) p = null" "large_region_known s p = Some False"
proof -
  note t = large_okD(1) [OF ok]
  obtain b n where b: "(b, n) \<in># others" "hit p (b, n) = 1" using p mcover_pos unfolding heap_slice_def by blast
  then have in': "b \<le> p" "p + 1 \<le> b + n * ARENA_ALIGN" by (simp_all add: hit_def split: if_splits)
  show c: "contains (g_arena s) p 1" by (rule tabled_contains [OF t _ in']) (use b in simp)
  have "mcover p (inside s (held s blks {#})) = 0"
    using tabled_arena(5) [OF t, of p] p by (simp add: heap_slice_def)
  then have z: "cover p (map fst (block_regs s blks)) = 0"
    using mcover_mono [OF block_regs_inside, of p s blks "{#}"] by (metis le_zero_eq mcover_mset)
  have "hit p r = 0" if "(r, Large_entry h) \<in> set (block_regs s blks @ oregs)" for r h
  proof (cases "(r, Large_entry h) \<in> set oregs")
    case True
    then show ?thesis using p unfolding heap_slice_def by blast
  next
    case False
    then have "r \<in># mset (map fst (block_regs s blks))" using that by force
    then show ?thesis using mcover_mem [of r _ p] z by (metis le_zero_eq mcover_mset)
  qed
  then show l: "large_table_get (g_arena s) (g_map s) p = null" by (rule tabled_large_none [OF t])
  show "large_region_known s p = Some False" using c l by (simp add: large_region_known_def)
qed

lemma settled_resolves:
  assumes "settled e lk others oregs p h" "large_ok others oregs (w_large w) blks {#}"
    and "\<And>c. h = Packed Medium c \<Longrightarrow> active_covers e Medium c p (w_cache w)"
  shows "resolves e lk w p h"
proof (cases h)
  case (Packed t c)
  then have "heap_slice others oregs p" using assms(1) by (cases t) simp_all
  note n = heap_not_large [OF assms(2) this]
  show ?thesis using assms(1,3) n Packed by (cases t) (simp_all add: not_large_def)
qed simp

section \<open>The caller's slot stays valid\<close>

lemma alloc_large_stashes:
  assumes "alloc_large_ex e s sz align zr slack = (r, s')"
  shows "length (g_stashes s') = length (g_stashes s)"
proof -
  have h: "length (g_stashes (hand_out t b n sz align)) = length (g_stashes t)" for t b n
    by (simp add: hand_out_def register_large_region_def init_large_header_def Let_def split: prod.split)
  have u: "length (g_stashes (snd (unmap_or_return e t b n))) = length (g_stashes t)" for t b n by (simp add: unmap_or_return_def)
  have st: "length (g_stashes (snd (large_from_stash e s sz align zr m))) = length (g_stashes s)" for m
    by (auto simp: large_from_stash_def Let_def h u split: option.splits prod.splits)
  have sh: "length (g_stashes (snd (large_from_shard e t sz align zr m salt))) = length (g_stashes t)" for t m salt
    by (auto simp: large_from_shard_def Let_def h u split: option.splits prod.splits)
  have c: "length (g_stashes (snd (large_from_caches e s sz align zr m))) = length (g_stashes s)" for m
    using st [of "m div PAGE_SIZE mod 2 ^ 32"] by (auto simp: large_from_caches_def sh split: option.splits prod.splits)
  have mp: "length (g_stashes (snd (map_large_region e t m))) = length (g_stashes t)" for t m
    by (auto simp: map_large_region_def Let_def split: prod.splits)
  have f: "length (g_stashes (snd (large_from_map e t sz align m))) = length (g_stashes t)" for t m
    using mp [of t m] by (auto simp: large_from_map_def Let_def h u split: prod.splits)
  show ?thesis
  proof (cases "large_mapped sz align slack")
    case None
    then show ?thesis using assms by (simp add: alloc_large_ex_def)
  next
    case (Some m)
    obtain o1 s1 where s1: "large_from_caches e s sz align zr m = (o1, s1)" by (cases "large_from_caches e s sz align zr m")
    then show ?thesis using assms c [of m] f [of s1 m] Some by (cases o1) (auto simp: alloc_large_ex_def)
  qed
qed

lemma grow_stashes:
  assumes "try_grow_large_frontier e s p sz = Some (g, s')"
  shows "length (g_stashes s') = length (g_stashes s)"
  using assms by (auto simp: try_grow_large_frontier_def Let_def split: if_splits option.splits bool.splits prod.splits)

lemma caller_len: "caller_ok le s \<Longrightarrow> length (g_stashes s') = length (g_stashes s) \<Longrightarrow> caller_ok le s'"
  by (simp add: caller_ok_def split: option.splits prod.splits)

section \<open>What a reallocation may answer\<close>

definition big_sizes :: "nat \<Rightarrow> nat \<Rightarrow> bool" where
  "big_sizes sz new \<longleftrightarrow> MAX_MEDIUM_BLOCK < sz \<and> sz \<le> MAX_BIG_BLOCK \<and> MAX_MEDIUM_BLOCK < new \<and> new \<le> MAX_BIG_BLOCK"

text \<open>A fresh block with the old contents; nothing outside its \<open>new\<close> bytes has changed.\<close>

definition carried :: "addr \<Rightarrow> addr \<Rightarrow> nat \<Rightarrow> nat \<Rightarrow> api_state \<Rightarrow> api_state \<Rightarrow> bool" where
  "carried p q sz new w w' \<longleftrightarrow> (\<forall>i < min sz new. w_bytes w' (q + i) = w_bytes w (p + i))
     \<and> (\<forall>a. a < q \<or> q + new \<le> a \<longrightarrow> w_bytes w' a = w_bytes w a)"

lemma copy_carries:
  assumes "min sz new \<le> n" "n \<le> new"
  shows "carried p q sz new w (copy_bytes p q n w)"
  using assms by (auto simp: carried_def copy_bytes_def)

definition resized :: "cache_env \<Rightarrow> slice multiset \<Rightarrow> (slice \<times> table_entry) list \<Rightarrow> nat \<Rightarrow> nat \<Rightarrow> nat \<Rightarrow> home \<Rightarrow> addr \<Rightarrow> holdings \<Rightarrow>
    api_state \<Rightarrow> addr \<times> api_state \<Rightarrow> bool" where
  "resized e others oregs sz align new h p X w r \<longleftrightarrow> (case r of (q, w') \<Rightarrow> \<exists>D'.
     q = null \<and> w_bytes w' = w_bytes w \<and> api_ok e others oregs X D' w'
     \<or> q = p \<and> w_bytes w' = w_bytes w \<and> api_ok e others oregs X D' w' \<and> room_for w' p new h
     \<or> q \<noteq> null \<and> (\<exists>h'. \<not> holds h' q X \<and> room_for w' q new h' \<and> align dvd q
       \<and> api_ok e others oregs (lose h p (gain h' q X)) D' w') \<and> carried p q sz new w w')"

lemma resizedI:
  assumes "q \<noteq> null" "\<not> holds h' q X" "room_for w' q new h'" "align dvd q"
    "api_ok e others oregs (lose h p (gain h' q X)) D' w'" "carried p q sz new w w'"
  shows "resized e others oregs sz align new h p X w (q, w')"
  unfolding resized_def prod.case by (intro exI [of _ D'] disjI2 conjI exI [of _ h'] assms)

lemma resized_bytes:
  assumes "resized e others oregs sz align new h p X w r" "w_bytes w0 = w_bytes w"
  shows "resized e others oregs sz align new h p X w0 r"
  using assms by (simp add: resized_def carried_def)

section \<open>The steps\<close>

lemma grow_step:
  assumes ok: "api_ok e others oregs X D w" and h: "holds h p X" "settled e lk others oregs p h"
  shows "\<exists>g w'. grow_block le p new w = Some (g, w') \<and> api_ok e others oregs X D w'
    \<and> w_flag w' = w_flag w \<and> w_cache w' = w_cache w \<and> w_bytes w' = w_bytes w
    \<and> length (g_stashes (w_large w')) = length (g_stashes (w_large w))
    \<and> (if g then room_for w' p new h else h \<noteq> Large \<longrightarrow> w' = w)"
proof (cases h)
  case (Packed t c)
  have lo: "large_ok others oregs (w_large w) (snd X) {#}" using ok by (simp add: api_ok_def)
  have "heap_slice others oregs p" using h(2) Packed by (cases t) simp_all
  from heap_not_large [OF lo this] have "grow_block le p new w = Some (False, w)"
    by (simp add: grow_block_def try_grow_large_frontier_def)
  then show ?thesis using ok by (intro exI [of _ False] exI [of _ w]) simp
next
  case Large
  obtain xs ys where s: "snd X = xs @ p # ys" using h(1) Large split_list by fastforce
  have lo: "large_ok others oregs (w_large w) (xs @ p # ys) {#}" using ok s by (simp add: api_ok_def)
  obtain g l' where g: "try_grow_large_frontier le (w_large w) p new = Some (g, l')" "large_ok others oregs l' (xs @ p # ys) {#}"
    "grown_block (w_large w) l' p new g"
    using grow_large_facts [OF lo] by blast
  obtain b n where b: "block_region l' p = (b, n)" by (cases "block_region l' p")
  have "room_for (w\<lparr>w_large := l'\<rparr>) p new Large" if g
    using block_place(4,5) [OF g(2) _ b] g(3) that by (simp add: grown_block_def b)
  then show ?thesis using g(1,2) ok s Large grow_stashes [OF g(1)] by (simp add: grow_block_def api_ok_def)
qed

lemma free_step:
  assumes ok: "api_ok e others oregs X D w" and h: "holds h p X" "home_for sz align h" "0 < sz" "resolves e lk w p h"
    and l: "caller_ok le (w_large w)"
  shows "\<exists>w' D'. home_free e le h p w = Some (Inr w') \<and> w_bytes w' = w_bytes w \<and> api_ok e others oregs (lose h p X) D' w'
    \<and> (room_for w q n h' \<longrightarrow> room_for w' q n h')"
proof -
  obtain w' where w': "home_free e le h p w = Some (Inr w')" "freed_block e others oregs h p X w w'"
    using home_free_facts [OF assms] by blast
  have "block_region (w_large w') q = block_region (w_large w) q"
  proof (cases h)
    case (Packed t c)
    have c: "c < tier_count t" using tier_of_fits [of sz align t c] h(2,3) Packed by simp
    have "active_covers e t c p (w_cache w)" if "w_flag w = Some TLS_FREE"
      using h(4) Packed that by (cases t) (simp_all add: active_covers_def)
    from tier_free_ok [of e "fst X" D w, OF _ c _ this] ok h(1) Packed w'(1) show ?thesis by (fastforce simp: api_ok_def)
  next
    case Large
    obtain xs ys where s: "snd X = xs @ p # ys" using h(1) Large split_list by fastforce
    have "large_ok others oregs (w_large w) (xs @ p # ys) {#}" using ok s by (simp add: api_ok_def)
    from free_large_facts [OF this l] w'(1) Large show ?thesis
      by (auto simp: free_large_block_def same_block_def block_region_def)
  qed
  then have "room_for w q n h' \<longrightarrow> room_for w' q n h'" by (cases h') simp_all
  then show ?thesis using w' unfolding freed_block_def by blast
qed

lemma alloc_large_block_stashes: "length (g_stashes (w_large (snd (alloc_large_block le sz align w)))) = length (g_stashes (w_large w))"
proof -
  obtain r s' where a: "alloc_large_ex le (w_large w) sz align False 0 = (r, s')" by (cases "alloc_large_ex le (w_large w) sz align False 0")
  show ?thesis using alloc_large_stashes [OF a] by (cases r) (simp add: alloc_large_block_def alloc_large_def a)
qed

lemma alloc_impl_stashes:
  assumes "api_ok e others oregs X D w" "0 < sz" "alloc_impl e le sz align w = Some (q, w')"
    and "\<And>t c. tier_of sz align = Some (t, c) \<Longrightarrow> ready e t c w"
  shows "length (g_stashes (w_large w')) = length (g_stashes (w_large w))"
proof (cases "tier_of sz align")
  case None
  then show ?thesis using assms(3) alloc_large_block_stashes [of le sz align w] by (auto simp: alloc_impl_tier [OF assms(2)])
next
  case (Some tc)
  obtain t c where tc: "tier_of sz align = Some (t, c)" using Some by (cases tc) simp
  have fits: "c < tier_count t" using tier_of_fits [OF tc assms(2)] by simp
  have inv: "cache_inv e (fst X) D (w_cache w)" using assms(1) by (simp add: api_ok_def)
  obtain r s' where "tier_alloc e t c w = Some (r, w\<lparr>w_cache := s'\<rparr>)" using tier_alloc_ok [OF inv fits assms(4) [OF tc]] by blast
  then show ?thesis using assms(3) tc alloc_large_block_stashes [of le sz align "w\<lparr>w_cache := s'\<rparr>"]
    by (cases r) (auto simp: alloc_impl_tier [OF assms(2)] split: if_splits)
qed

lemma gained_holds: "holds h p X \<Longrightarrow> holds h p (gain h' q X)"
  by (cases h; cases h') (auto simp: upd_def)

lemma move_step:
  assumes ok: "api_ok e others oregs X D w" and h: "holds h p X" "home_for sz align h" "0 < sz" "settled e lk others oregs p h"
    and n: "0 < new" "align = 2 ^ k" "caller_ok le (w_large w)" "\<And>t c. tier_of new align = Some (t, c) \<Longrightarrow> ready e t c w"
    and m: "mmap_ok le (w_large w) (snd X) new align False 0"
    and a: "\<And>c q w'. h = Packed Medium c \<Longrightarrow> alloc_impl e le new align w = Some (q, w') \<Longrightarrow> active_covers e Medium c p (w_cache w')"
  shows "\<exists>r. realloc_move e le lk p sz align new w = Some (Inr r) \<and> resized e others oregs sz align new h p X w r"
proof -
  obtain q w1 where q: "alloc_impl e le new align w = Some (q, w1)" "served_block e others oregs new align X w (q, w1)"
    using alloc_impl_facts [OF ok n(3,2,1) m n(4)] by (metis surj_pair)
  show ?thesis
  proof (cases "q = null")
    case True
    then have "realloc_move e le lk p sz align new w = Some (Inr (null, w1))" using q(1) by (simp add: realloc_move_def)
    then show ?thesis using q(2) True by (auto simp: served_block_def resized_def)
  next
    case False
    obtain h' D1 where h': "\<not> holds h' q X" "room_for w1 q new h'" "align dvd q" "api_ok e others oregs (gain h' q X) D1 w1" "w_bytes w1 = w_bytes w"
      using q(2) False by (auto simp: served_block_def)
    let ?w = "copy_bytes p q (min sz new) w1"
    have w: "w_flag ?w = w_flag w1" "w_cache ?w = w_cache w1" "w_large ?w = w_large w1" by (simp_all add: copy_bytes_def)
    have ok2: "api_ok e others oregs (gain h' q X) D1 ?w" using h'(4) by (simp add: api_ok_def w)
    have lo: "large_ok others oregs (w_large ?w) (snd (gain h' q X)) {#}" using ok2 by (simp add: api_ok_def)
    have cv: "active_covers e Medium c p (w_cache ?w)" if "h = Packed Medium c" for c using a [OF that q(1)] w by simp
    have rs: "resolves e lk ?w p h" using settled_resolves [OF h(4) lo] cv by blast
    have co: "caller_ok le (w_large ?w)"
      unfolding w by (rule caller_len [OF n(3) alloc_impl_stashes [OF ok n(1) q(1) n(4)]])
    have hp: "holds h p (gain h' q X)" by (rule gained_holds [OF h(1)])
    obtain w3 D3 where f: "home_free e le h p ?w = Some (Inr w3)" "w_bytes w3 = w_bytes ?w"
      "api_ok e others oregs (lose h p (gain h' q X)) D3 w3" "room_for ?w q new h' \<longrightarrow> room_for w3 q new h'"
      using free_step [OF ok2 hp h(2,3) rs co, of q new h'] by blast
    have "dealloc_with_layout e le lk p sz align ?w = Some (Inr w3)" using layout_route [OF ok2 h(2) hp rs] f(1) by simp
    then have "realloc_move e le lk p sz align new w = Some (Inr (q, w3))"
      using q(1) False h(3) n(1) by (simp add: realloc_move_def Let_def)
    moreover have "room_for ?w q new h'" using h'(2) by (cases h') (simp_all add: w)
    moreover have "carried p q sz new w w3"
      using copy_carries [of sz new "min sz new" p q w1] f(2) h'(5) by (simp add: carried_def)
    ultimately show ?thesis using f(4) resizedI [OF False h'(1) _ h'(3) f(3)] by blast
  qed
qed

section \<open>Several attempts\<close>

text \<open>The states of the large regions in which the call asks for memory: after growths and promotions that failed.\<close>

definition promote_slack :: "nat \<Rightarrow> nat" where
  "promote_slack new = min (min (new * BIG_GROW_SLACK_FACTOR) (2 ^ 64 - 1)) MAX_BIG_BLOCK - new"

inductive tried :: "large_env \<Rightarrow> addr \<Rightarrow> nat \<Rightarrow> nat \<Rightarrow> large_state \<Rightarrow> large_state \<Rightarrow> bool" for le p new align l0 where
  tried_start: "tried le p new align l0 l0"
| tried_grow: "tried le p new align l0 l \<Longrightarrow> try_grow_large_frontier le l p new = Some (False, l') \<Longrightarrow> tried le p new align l0 l'"
| tried_promote: "tried le p new align l0 l \<Longrightarrow> alloc_large_ex le l new align False (promote_slack new) = ((null, x), l') \<Longrightarrow>
    tried le p new align l0 l'"

lemma tried_trans: "tried le p new align l1 l2 \<Longrightarrow> tried le p new align l0 l1 \<Longrightarrow> tried le p new align l0 l2"
  by (induction rule: tried.induct) (blast intro: tried.intros)+

text \<open>All a move needs, of a state in which it may happen.\<close>

definition movable :: "cache_env \<Rightarrow> large_env \<Rightarrow> lookups \<Rightarrow> slice multiset \<Rightarrow> (slice \<times> table_entry) list \<Rightarrow> nat \<Rightarrow> nat \<Rightarrow> nat \<Rightarrow> nat \<Rightarrow>
    home \<Rightarrow> addr \<Rightarrow> holdings \<Rightarrow> blocks \<Rightarrow> api_state \<Rightarrow> bool" where
  "movable e le lk others oregs sz pa align new h p X D w \<longleftrightarrow> api_ok e others oregs X D w \<and> holds h p X \<and> (\<exists>a0. home_for sz a0 h)
     \<and> 0 < sz \<and> 0 < new \<and> (\<exists>k. align = 2 ^ k) \<and> (\<exists>k. pa = 2 ^ k) \<and> align dvd pa \<and> settled e lk others oregs p h \<and> caller_ok le (w_large w)
     \<and> (\<forall>t c. tier_of new align = Some (t, c) \<longrightarrow> ready e t c w)
     \<and> (\<forall>l. tried le p new pa (w_large w) l \<longrightarrow>
            mmap_ok le l (snd X) new align False 0 \<and> mmap_ok le l (snd X) new pa False (promote_slack new))
     \<and> (\<forall>c q w'. h = Packed Medium c \<longrightarrow> alloc_impl e le new align w = Some (q, w') \<longrightarrow> active_covers e Medium c p (w_cache w'))"

lemma movable_mmap:
  assumes "movable e le lk others oregs sz pa align new h p X D w"
  shows "mmap_ok le (w_large w) (snd X) new align False 0" "mmap_ok le (w_large w) (snd X) new pa False (promote_slack new)"
proof -
  have "\<forall>l. tried le p new pa (w_large w) l \<longrightarrow>
      mmap_ok le l (snd X) new align False 0 \<and> mmap_ok le l (snd X) new pa False (promote_slack new)"
    using assms unfolding movable_def by blast
  then show "mmap_ok le (w_large w) (snd X) new align False 0" "mmap_ok le (w_large w) (snd X) new pa False (promote_slack new)"
    using tried_start by blast+
qed

lemma movable_next:
  assumes m: "movable e le lk others oregs sz pa align new h p X D w" and ok: "api_ok e others oregs X D w'"
    and w: "w_flag w' = w_flag w" "w_cache w' = w_cache w" "length (g_stashes (w_large w')) = length (g_stashes (w_large w))"
    and t: "tried le p new pa (w_large w) (w_large w')" and h: "\<And>c. h = Packed Medium c \<Longrightarrow> w' = w"
  shows "movable e le lk others oregs sz pa align new h p X D w'"
proof -
  note M = m [unfolded movable_def]
  have "ready e t c w'" if "tier_of new align = Some (t, c)" for t c
    using M that by (simp add: ready_def w)
  moreover have "caller_ok le (w_large w')" using M caller_len [OF _ w(3)] by blast
  moreover have "mmap_ok le l (snd X) new align False 0 \<and> mmap_ok le l (snd X) new pa False (promote_slack new)"
    if "tried le p new pa (w_large w') l" for l
    using M tried_trans [OF that t] by blast
  moreover have "active_covers e Medium c p (w_cache w2)" if "h = Packed Medium c" "alloc_impl e le new align w' = Some (q, w2)" for c q w2
    using M h [OF that(1)] that by simp
  ultimately show ?thesis using M ok unfolding movable_def by blast
qed

lemma movable_grow:
  assumes m: "movable e le lk others oregs sz pa align new h p X D w"
  shows "\<exists>g w'. grow_block le p new w = Some (g, w') \<and> w_bytes w' = w_bytes w
    \<and> (if g then resized e others oregs sz align new h p X w (p, w') else movable e le lk others oregs sz pa align new h p X D w')"
proof -
  note M = m [unfolded movable_def]
  obtain g w' where g: "grow_block le p new w = Some (g, w')" "api_ok e others oregs X D w'" "w_flag w' = w_flag w"
    "w_cache w' = w_cache w" "w_bytes w' = w_bytes w" "length (g_stashes (w_large w')) = length (g_stashes (w_large w))"
    "if g then room_for w' p new h else h \<noteq> Large \<longrightarrow> w' = w"
    using grow_step [of e others oregs X D w h p lk le new] M by blast
  have "movable e le lk others oregs sz pa align new h p X D w'" if "\<not> g"
  proof (rule movable_next [OF m g(2,3,4,6)])
    show "tried le p new pa (w_large w) (w_large w')"
      using g(1) that by (auto simp: grow_block_def intro: tried_grow [OF tried_start])
  qed (use g(7) that in simp)
  then show ?thesis using g by (auto simp: resized_def)
qed

lemma movable_move:
  assumes m: "movable e le lk others oregs sz pa align new h p X D w" and hf: "home_for sz align h"
  shows "\<exists>r. realloc_move e le lk p sz align new w = Some (Inr r) \<and> resized e others oregs sz align new h p X w r"
proof -
  note M = m [unfolded movable_def]
  obtain k where k: "align = 2 ^ k" using M by blast
  show ?thesis using M hf movable_mmap(1) [OF m] by (intro move_step [where D = D and k = k]) (simp_all add: k)
qed

section \<open>Promotion\<close>

lemma promote_refuses:
  assumes "api_ok e others oregs X D w" "holds Large p X"
  shows "try_promote_big_grow e le lk p new align w = Some (Inr (None, w))"
  using large_block_known(2) [OF assms] by (auto simp: try_promote_big_grow_def Let_def)

text \<open>A large block served next to a big one: it is new, aligned and large enough.\<close>

lemma promoted_block:
  assumes "large_ok others oregs l (q # snd X) {#}" "serves l0 l (snd X) new align q"
  shows "\<not> holds Large q X" "room_for (w\<lparr>w_large := l\<rparr>) q new Large" "align dvd q" "q \<noteq> null"
proof -
  obtain b n where b: "block_region l q = (b, n)" by (cases "block_region l q")
  show "room_for (w\<lparr>w_large := l\<rparr>) q new Large"
    using block_place(4,5) [OF assms(1) _ b] assms(2) b by (simp add: serves_def)
  show "\<not> holds Large q X" using headers_apart [of others oregs l "[]" q "snd X" "{#}" q] assms(1) by auto
  show "align dvd q" "q \<noteq> null" using assms(2) by (simp_all add: serves_def)
qed

lemma promote_moves:
  assumes m: "movable e le lk others oregs sz pa align new h p X D w" and h: "h = Packed Big c" and c: "BIG_CLASSES ! c < new"
    and a: "alloc_large_ex le (w_large w) new pa False (promote_slack new) = ((q, x), l)" "q \<noteq> null"
  shows "\<exists>w'. dealloc_impl e le lk p (copy_bytes p q (min (BIG_CLASSES ! c) new) (w\<lparr>w_large := l\<rparr>)) = Some (Inr w')
    \<and> resized e others oregs sz align new h p X w (q, w')"
proof -
  note M = m [unfolded movable_def]
  obtain k where k: "pa = 2 ^ k" using M by blast
  have lo: "large_ok others oregs (w_large w) (snd X) {#}" using M by (simp add: api_ok_def)
  note mm = movable_mmap(2) [OF m]
  obtain fresh z where x: "x = (fresh, z)" by (cases x)
  have g: "large_ok others oregs l (q # snd X) {#}" "serves (w_large w) l (snd X) new pa q"
    using alloc_large_facts [OF lo _ k _ mm a(1) [unfolded x]] M a(2) by simp_all
  note pb = promoted_block [OF g]
  let ?w = "copy_bytes p q (min (BIG_CLASSES ! c) new) (w\<lparr>w_large := l\<rparr>)"
  have w: "w_flag ?w = w_flag w" "w_cache ?w = w_cache w" "w_large ?w = l" by (simp_all add: copy_bytes_def)
  have ok: "api_ok e others oregs (gain Large q X) D ?w" using M g(1) by (simp add: api_ok_def w)
  have rs: "resolves e lk ?w p h" by (rule settled_resolves) (use M g(1) h w in auto)
  have hp: "holds h p (gain Large q X)" using M gained_holds by blast
  have co: "caller_ok le (w_large ?w)"
    unfolding w by (rule caller_len [OF _ alloc_large_stashes [OF a(1)]]) (use M in simp)
  obtain a0 where hf: "home_for sz a0 h" "0 < sz" using M by blast
  have al: "align dvd q" using M pb(3) dvd_trans by blast
  obtain w' D' where f: "home_free e le h p ?w = Some (Inr w')" "w_bytes w' = w_bytes ?w"
    "api_ok e others oregs (lose h p (gain Large q X)) D' w'" "room_for ?w q new Large \<longrightarrow> room_for w' q new Large"
    using free_step [OF ok hp hf rs co, of q new Large] by blast
  have "dealloc_impl e le lk p ?w = Some (Inr w')" using pointer_route [OF ok hp rs] f(1) by simp
  moreover have "room_for ?w q new Large" using pb(2) [of w] by (simp add: w)
  moreover have "sz \<le> BIG_CLASSES ! c" using tier_of_fits [of sz a0 Big c] hf h by simp
  then have "carried p q sz new w w'"
    using copy_carries [of sz new "min (BIG_CLASSES ! c) new" p q "w\<lparr>w_large := l\<rparr>"] f(2) c by (simp add: carried_def)
  ultimately show ?thesis
    using f(4) resizedI [OF pb(4,1) _ al f(3)] by blast
qed

lemma movable_promote:
  assumes m: "movable e le lk others oregs sz pa align new h p X D w" and s: "MAX_MEDIUM_BLOCK < sz"
  shows "\<exists>r w'. try_promote_big_grow e le lk p new pa w = Some (Inr (r, w')) \<and>
    (case r of Some q \<Rightarrow> resized e others oregs sz align new h p X w (q, w')
     | None \<Rightarrow> w_bytes w' = w_bytes w \<and> movable e le lk others oregs sz pa align new h p X D w')"
proof (cases h)
  case Large
  then have "try_promote_big_grow e le lk p new pa w = Some (Inr (None, w))"
    using m promote_refuses unfolding movable_def by blast
  then show ?thesis using m by simp
next
  case (Packed t c)
  note M = m [unfolded movable_def]
  obtain a0 where hf: "home_for sz a0 h" "0 < sz" using M by blast
  have t: "h = Packed Big c" using hf Packed s packed_bounds by (auto simp: tier_of_def split: if_splits)
  have set: "heap_slice others oregs p" "ce_big_at e p \<noteq> null" "lk_bclass lk (ce_big_at e p) = c" using M t by auto
  have "c < NUM_BIG" using tier_of_fits [of sz a0 Big c] hf t by simp
  moreover have "large_ok others oregs (w_large w) (snd X) {#}" using M by (simp add: api_ok_def)
  note nl = heap_not_large [OF this set(1)]
  obtain q x l where a: "alloc_large_ex le (w_large w) new pa False (promote_slack new) = ((q, x), l)" by (metis surj_pair)
  ultimately have eq: "try_promote_big_grow e le lk p new pa w =
     (if new \<le> BIG_CLASSES ! c \<or> min (min (new * BIG_GROW_SLACK_FACTOR) (2 ^ 64 - 1)) MAX_BIG_BLOCK \<le> new then Some (Inr (None, w))
      else if q = null then Some (Inr (None, w\<lparr>w_large := l\<rparr>))
      else case dealloc_impl e le lk p (copy_bytes p q (min (BIG_CLASSES ! c) new) (w\<lparr>w_large := l\<rparr>)) of
             None \<Rightarrow> None | Some (Inl x) \<Rightarrow> Some (Inl x) | Some (Inr w2) \<Rightarrow> Some (Inr (Some q, w2)))"
    using nl set by (cases x) (simp add: try_promote_big_grow_def Let_def promote_slack_def)
  show ?thesis
  proof (cases "new \<le> BIG_CLASSES ! c \<or> min (min (new * BIG_GROW_SLACK_FACTOR) (2 ^ 64 - 1)) MAX_BIG_BLOCK \<le> new")
    case True
    then show ?thesis using m unfolding eq by simp
  next
    case go: False
    show ?thesis
    proof (cases "q = null")
      case True
      let ?w = "w\<lparr>w_large := l\<rparr>"
      obtain fresh z where x: "x = (fresh, z)" by (cases x)
      obtain k where k: "pa = 2 ^ k" using M by blast
      have lo: "large_ok others oregs (w_large w) (snd X) {#}" using M by (simp add: api_ok_def)
      note mm = movable_mmap(2) [OF m]
      have "large_ok others oregs l (snd X) {#}" using alloc_large_facts [OF lo _ k _ mm a [unfolded x]] M True by simp
      then have "api_ok e others oregs X D ?w" using M by (simp add: api_ok_def)
      then have "movable e le lk others oregs sz pa align new h p X D ?w"
        by (rule movable_next [OF m]) (use t alloc_large_stashes [OF a] tried_promote [OF tried_start a [unfolded True]] in simp_all)
      then show ?thesis using go True unfolding eq by simp
    next
      case False
      have "BIG_CLASSES ! c < new" using go by simp
      from promote_moves [OF m t this a False] show ?thesis using go False unfolding eq by auto
    qed
  qed
qed

section \<open>The whole call\<close>

lemma movable_large_or_move:
  assumes m: "movable e le lk others oregs sz align align new h p X D w" and hf: "home_for sz align h"
  shows "\<exists>r. realloc_large_or_move e le lk p sz align new w = Some (Inr r) \<and> resized e others oregs sz align new h p X w r"
proof -
  obtain g w' where g: "grow_block le p new w = Some (g, w')" "w_bytes w' = w_bytes w"
    "if g then resized e others oregs sz align new h p X w (p, w') else movable e le lk others oregs sz align align new h p X D w'"
    using movable_grow [OF m] by blast
  show ?thesis
  proof (cases "p \<noteq> null \<and> (MIN_ALIGN < align \<or> MAX_BIG_BLOCK < sz)")
    case True
    show ?thesis
    proof (cases g)
      case True
      then show ?thesis using g \<open>p \<noteq> null \<and> _\<close> by (simp add: realloc_large_or_move_def)
    next
      case False
      then obtain r where "realloc_move e le lk p sz align new w' = Some (Inr r)" "resized e others oregs sz align new h p X w' r"
        using movable_move [OF _ hf] g(3) by (metis (full_types))
      then show ?thesis using g(1) False \<open>p \<noteq> null \<and> _\<close> resized_bytes [OF _ g(2) [symmetric]] by (simp add: realloc_large_or_move_def)
    qed
  next
    case False
    then have "realloc_large_or_move e le lk p sz align new w = realloc_move e le lk p sz align new w"
      unfolding realloc_large_or_move_def by (rule if_not_P)
    then show ?thesis using movable_move [OF m hf] by simp
  qed
qed

lemma movable_realloc_grow:
  assumes m: "movable e le lk others oregs sz align align new h p X D w" and hf: "home_for sz align h" and s: "MAX_MEDIUM_BLOCK < sz"
  shows "\<exists>r. realloc_grow e le lk p sz align new w = Some (Inr r) \<and> resized e others oregs sz align new h p X w r"
proof -
  let ?t = "if new \<le> MAX_BIG_BLOCK \<and> sz \<le> MAX_BIG_BLOCK then try_promote_big_grow e le lk p new align w else Some (Inr (None, w))"
  obtain r w1 where p: "?t = Some (Inr (r, w1))"
    "case r of Some q \<Rightarrow> resized e others oregs sz align new h p X w (q, w1)
     | None \<Rightarrow> w_bytes w1 = w_bytes w \<and> movable e le lk others oregs sz align align new h p X D w1"
  proof (cases "new \<le> MAX_BIG_BLOCK \<and> sz \<le> MAX_BIG_BLOCK")
    case True
    then show ?thesis using movable_promote [OF m s] that by auto
  next
    case False
    then show ?thesis using that [of None w] m by auto
  qed
  show ?thesis
  proof (cases r)
    case (Some q)
    then show ?thesis using p by (simp add: realloc_grow_def)
  next
    case None
    then have b1: "w_bytes w1 = w_bytes w" and m1: "movable e le lk others oregs sz align align new h p X D w1" using p(2) by simp_all
    obtain g w2 where g: "grow_block le p new w1 = Some (g, w2)" "w_bytes w2 = w_bytes w1"
      "if g then resized e others oregs sz align new h p X w1 (p, w2) else movable e le lk others oregs sz align align new h p X D w2"
      using movable_grow [OF m1] by blast
    show ?thesis
    proof (cases g)
      case True
      then show ?thesis using p(1) None g resized_bytes [OF _ b1 [symmetric]] by (simp add: realloc_grow_def)
    next
      case False
      then obtain r2 where "realloc_large_or_move e le lk p sz align new w2 = Some (Inr r2)" "resized e others oregs sz align new h p X w2 r2"
        using movable_large_or_move [OF _ hf] g(3) by (metis (full_types))
      moreover have "w_bytes w = w_bytes w2" using b1 g(2) by simp
      ultimately show ?thesis using p(1) None g(1) False resized_bytes by (simp add: realloc_grow_def)
    qed
  qed
qed

lemma stays_put:
  assumes "movable e le lk others oregs sz pa align new h p X D w" "room_for w p new h"
  shows "resized e others oregs sz align new h p X w (p, w)"
  using assms by (auto simp: movable_def resized_def)

lemma movable_not_null:
  assumes "movable e le lk others oregs sz pa align new h p X D w"
  shows "p \<noteq> null"
proof (cases h)
  case (Packed t c)
  then show ?thesis using assms by (cases t) (auto simp: movable_def const_simps)
next
  case Large
  then have "LARGE_HEADER_SIZE \<le> p" using assms large_block_known(1) unfolding movable_def by blast
  then show ?thesis by (auto simp: const_simps)
qed

lemma small_home:
  assumes "home_for sz align h" "0 < sz" "sz \<le> MAX_SMALL_SIZE" "align \<le> MIN_ALIGN"
  shows "h = Packed Small (class_for_size sz)"
  using assms packed_bounds by (cases h) (auto simp: tier_of_def needs_large_def split: if_splits)

lemma small_move:
  assumes m: "movable e le lk others oregs sz align align new h p X D w" and hf: "home_for sz align h" and s: "sz \<le> MAX_SMALL_SIZE" "new \<le> MAX_SMALL_SIZE" "align \<le> MIN_ALIGN"
    and c: "class_for_size sz \<noteq> class_for_size new"
  shows "\<exists>r. realloc_small e p sz new (class_for_size sz) (class_for_size new) w = Some r \<and> resized e others oregs sz align new h p X w r"
proof -
  let ?o = "class_for_size sz" and ?n = "class_for_size new"
  note M = m [unfolded movable_def]
  have h: "h = Packed Small ?o" using M small_home [OF hf] s by blast
  have tn: "tier_of new align = Some (Small, ?n)" using s packed_bounds M by (simp add: tier_of_def needs_large_def)
  obtain k where k: "align = 2 ^ k" using M by blast
  have n0: "0 < new" "sz \<noteq> 0" using M by auto
  have ft: "?n < NUM_CLASSES" "new \<le> CLASSES ! ?n" "?o < NUM_CLASSES"
    using tier_of_fits [OF tn n0(1)] tier_of_fits [of sz align Small ?o] M hf h by simp_all
  have inv: "cache_inv e (fst X) D (w_cache w)" and p: "p \<in> fst X Small ?o" and rd: "ready e Small ?n w"
    using M h tn by (simp_all add: api_ok_def)
  from realloc_small_facts [OF inv p ft(3,1) c n0(2) rd, of new] obtain q s' D' where
    r: "realloc_small e p sz new ?o ?n w = Some (q, if q \<noteq> null then copy_bytes p q (min sz new) (w\<lparr>w_cache := s'\<rparr>) else w\<lparr>w_cache := s'\<rparr>)"
    "q = null \<and> cache_inv e (fst X) D' s' \<or> q \<noteq> null \<and> q \<notin> fst X Small ?n
       \<and> cache_inv e (upd Small ?o (fst X Small ?o - {p}) (upd Small ?n (insert q (fst X Small ?n)) (fst X))) D' s'"
    by blast
  show ?thesis
  proof (cases "q = null")
    case True
    then show ?thesis using r M by (auto simp: resized_def api_ok_def)
  next
    case False
    let ?w = "copy_bytes p q (min sz new) (w\<lparr>w_cache := s'\<rparr>)"
    have i: "cache_inv e (upd Small ?o (fst X Small ?o - {p}) (upd Small ?n (insert q (fst X Small ?n)) (fst X))) D' s'" using r(2) False by simp
    have "MIN_ALIGN dvd q" using held_block [OF i, of ?n Small q] ft(1) c by simp
    then have al: "align dvd q" by (rule small_align [OF k tn])
    have ok: "api_ok e others oregs (lose h p (gain (Packed Small ?n) q X)) D' ?w"
      using i c M by (simp add: h api_ok_def copy_bytes_def)
    have "carried p q sz new w ?w"
      using copy_carries [of sz new "min sz new" p q "w\<lparr>w_cache := s'\<rparr>"] by (simp add: carried_def)
    then have "resized e others oregs sz align new h p X w (q, ?w)"
      by (intro resizedI [OF False _ _ al ok]) (use r(2) False ft(2) in simp_all)
    then show ?thesis using r(1) False by simp
  qed
qed

lemma movable_realloc:
  assumes m: "movable e le lk others oregs sz align align new h p X D w" and hf: "home_for sz align h"
    and big: "big_sizes sz new \<Longrightarrow> big_class_for_size sz = big_class_for_size new \<Longrightarrow> h = Large \<Longrightarrow> room_for w p new Large"
  shows "\<exists>r. ga_realloc e le lk p sz align new w = Some (Inr r) \<and> resized e others oregs sz align new h p X w r"
proof -
  note M = m [unfolded movable_def]
  have nn: "p \<noteq> null" by (rule movable_not_null [OF m])
  have pos: "0 < sz" "0 < new" "home_for sz align h" using M hf by blast+
  have g: "ga_realloc e le lk p sz align new w = realloc_slow e le lk p sz align new w"
    if "\<not> (align \<le> MIN_ALIGN \<and> sz \<le> MAX_SMALL_SIZE \<and> new \<le> MAX_SMALL_SIZE \<and> class_for_size sz = class_for_size new)"
    using that pos by (auto simp: ga_realloc_def)
  let ?s = "align \<le> MIN_ALIGN \<and> sz \<le> MAX_SMALL_SIZE \<and> new \<le> MAX_SMALL_SIZE"
  let ?m = "align \<le> MIN_ALIGN \<and> MAX_SMALL_SIZE < sz \<and> sz \<le> MAX_MEDIUM_BLOCK \<and> MAX_SMALL_SIZE < new \<and> new \<le> MAX_MEDIUM_BLOCK
    \<and> medium_class_for_size sz = medium_class_for_size new"
  let ?b = "align \<le> MIN_ALIGN \<and> big_sizes sz new \<and> big_class_for_size sz = big_class_for_size new"
  let ?g = "align \<le> MIN_ALIGN \<and> MAX_MEDIUM_BLOCK < sz \<and> MAX_MEDIUM_BLOCK < new"
  have slow: "realloc_slow e le lk p sz align new w =
      (if ?s then map_option Inr (realloc_small e p sz new (class_for_size sz) (class_for_size new) w)
       else if ?m then Some (Inr (p, w)) else if ?b then Some (Inr (p, w))
       else if ?g then realloc_grow e le lk p sz align new w else realloc_large_or_move e le lk p sz align new w)"
    by (simp add: realloc_slow_def nn big_sizes_def)
  consider (small) ?s | (medium) ?m | (big) ?b
    | (grow) "realloc_slow e le lk p sz align new w = realloc_grow e le lk p sz align new w" ?g
    | (other) "realloc_slow e le lk p sz align new w = realloc_large_or_move e le lk p sz align new w" "\<not> ?s"
    unfolding slow by argo
  then show ?thesis
  proof cases
    case small
    show ?thesis
    proof (cases "class_for_size sz = class_for_size new")
      case True
      have "tier_of new align = Some (Small, class_for_size new)" using small packed_bounds pos by (simp add: tier_of_def needs_large_def)
      then have "room_for w p new h" using small_home [OF pos(3,1)] small True tier_of_fits pos by fastforce
      then show ?thesis using stays_put [OF m] small True nn pos by (simp add: ga_realloc_def)
    next
      case False
      have "realloc_slow e le lk p sz align new w = map_option Inr (realloc_small e p sz new (class_for_size sz) (class_for_size new) w)"
        using small by (simp add: realloc_slow_def)
      then show ?thesis using small_move [OF m hf _ _ _ False] small g False by auto
    qed
  next
    case medium
    have "tier_of sz align = Some (Medium, medium_class_for_size new)" "tier_of new align = Some (Medium, medium_class_for_size new)"
      using medium packed_bounds pos by (simp_all add: tier_of_def needs_large_def)
    then have "room_for w p new h" using pos tier_of_fits [of new align Medium] by (cases h) auto
    moreover have "ga_realloc e le lk p sz align new w = Some (Inr (p, w))" using medium nn by (simp add: ga_realloc_def realloc_slow_def)
    ultimately show ?thesis using stays_put [OF m] by simp
  next
    case big
    have "tier_of sz align = Some (Big, big_class_for_size new)" "tier_of new align = Some (Big, big_class_for_size new)"
      using big packed_bounds pos by (simp_all add: tier_of_def needs_large_def big_sizes_def)
    then have "room_for w p new h" using pos tier_of_fits [of new align Big] big assms(3) by (cases h) auto
    moreover have "ga_realloc e le lk p sz align new w = Some (Inr (p, w))"
      using big nn packed_bounds by (auto simp: ga_realloc_def realloc_slow_def big_sizes_def)
    ultimately show ?thesis using stays_put [OF m] by simp
  next
    case grow
    then show ?thesis using movable_realloc_grow [OF m hf] g packed_bounds by simp
  next
    case other
    then show ?thesis using movable_large_or_move [OF m hf] g by auto
  qed
qed

section \<open>The property\<close>


section \<open>A concrete block that moves\<close>

definition slice_arena :: arena where "slice_arena = demo_arena\<lparr>ar_bump := ARENA_ALIGN, ar_commits := 1\<rparr>"

definition slice_large :: large_state where
  "slice_large = large_new (\<lambda>_. \<lparr> l_magic = 0, mapped_size = 0, l_base = 0, requested_size = 0, registry_next = 0 \<rparr>) slice_arena big_map_new 1"

lemma slice_commit: "commit (\<lambda>_ _. True) None demo_arena 1 = ((65536, True), slice_arena)"
proof -
  have ho: "holes_take demo_arena 1 = (null, demo_arena)" by (simp add: holes_take_def demo_arena_def with_size_def)
  have bu: "claim_bump demo_arena ARENA_ALIGN = Some (ARENA_ALIGN, demo_arena\<lparr>ar_bump := ARENA_ALIGN\<rparr>)"
    by (simp add: claim_bump_def demo_arena_def with_size_def checked_add_def const_simps USIZE_BITS_def)
  have "ar_state demo_arena = 1" "1 * ARENA_ALIGN < 2 ^ USIZE_BITS" "ar_commits demo_arena = 0"
    by (simp_all add: demo_arena_def with_size_def ARENA_ALIGN_def USIZE_BITS_def)
  then have "commit (\<lambda>_ _. True) None demo_arena 1 = ((ARENA_ALIGN, True), slice_arena)"
    using commit_ready [of demo_arena 1 "\<lambda>_ _. True" None] unfolding ho slice_arena_def by (simp add: bu)
  then show ?thesis by (simp add: ARENA_ALIGN_def)
qed

lemma slice_large_ok: "large_ok {#(65536, 1)#} [] slice_large [] {#}"
proof -
  have "tabled slice_arena big_map_new {#(65536, 1)#} []" using tabled_commit(1) [OF demo_tabled _ slice_commit] by simp
  then show ?thesis unfolding slice_large_def
    by (rule large_new_ok) (simp_all add: slice_arena_def demo_arena_def with_size_def const_simps)
qed

definition away_state :: api_state where
  "away_state = \<lparr> w_flag = None, w_cache = held_state, w_large = slice_large, w_bytes = (\<lambda>a. a mod 256) \<rparr>"

lemma away_ready: "ready free_env Small 1 away_state"
proof -
  have "gl_small (snd held_state) ! 1 = ((one_page_mem, list_head_new), [])"
    by (simp add: held_state_def globals_new_def const_simps)
  then show ?thesis by (simp add: ready_def away_state_def blank_grant free_env_def first_env_def)
qed


end
