(* ===== verification/C_Interface.thy ===== *)
theory C_Interface
  imports Api_Realloc
begin

text \<open>
  The C interface: \<open>usable_size\<close> and \<open>realloc\<close> of \<open>src/src/lib.rs\<close>, which find the block's tier from its address
  alone, and the exported names of \<open>src/src/ffi.rs\<close>.
\<close>

section \<open>The usable size\<close>

text \<open>A word of the side table, and a page header, name one kind of owner.\<close>

fun one_kind :: "cache_env \<Rightarrow> lookups \<Rightarrow> addr \<Rightarrow> home \<Rightarrow> bool" where
  "one_kind e lk p (Packed Small c) \<longleftrightarrow> ce_span_at e p = null \<or> \<not> lk_span_has lk (ce_span_at e p) p"
| "one_kind e lk p (Packed Medium c) \<longleftrightarrow> ce_big_at e p = null"
| "one_kind e lk p (Packed Big c) \<longleftrightarrow> True"
| "one_kind e lk p Large \<longleftrightarrow> ce_big_at e p = null \<and> lk_medium_at lk p = null"

lemma packed_settled:
  assumes "api_ok e others oregs X D w" "settled e lk others oregs p (Packed t c)"
  shows "in_arena_block w p" "large_at w p = null" "LARGE_HEADER_SIZE \<le> p" "p \<noteq> null"
proof -
  have lo: "large_ok others oregs (w_large w) (snd X) {#}" using assms(1) by (simp add: api_ok_def)
  have "heap_slice others oregs p" and l: "LARGE_HEADER_SIZE \<le> p" using assms(2) by (cases t; simp)+
  then show "in_arena_block w p" "large_at w p = null" "LARGE_HEADER_SIZE \<le> p" using heap_not_large [OF lo] by simp_all
  show "p \<noteq> null" using l by (auto simp: const_simps)
qed

lemma large_lookup:
  assumes ok: "api_ok e others oregs X D w" and h: "holds Large p X" and r: "block_region (w_large w) p = (b, n)"
  shows "LARGE_HEADER_SIZE < p" "p \<noteq> null" "b + LARGE_HEADER_SIZE \<le> p" "p < b + n * PAGE_SIZE"
    "l_base (block_header (w_large w) p) = b" "mapped_size (block_header (w_large w) p) = n * PAGE_SIZE"
    "in_arena_block w p \<Longrightarrow> large_at w p = p - LARGE_HEADER_SIZE \<and> large_at w p \<noteq> null"
    "\<not> in_arena_block w p \<Longrightarrow> legacy_large_contains (g_hdrs (w_large w), g_registry (w_large w)) p = Some True"
proof -
  have lo: "large_ok others oregs (w_large w) (snd X) {#}" and m: "p \<in> set (snd X)" using ok h by (simp_all add: api_ok_def)
  note bp = block_place [OF lo m r]
  show pos: "LARGE_HEADER_SIZE < p" "b + LARGE_HEADER_SIZE \<le> p" "p < b + n * PAGE_SIZE"
    using bp(1,4,6) by (simp_all add: region_fine_def)
  then show "p \<noteq> null" by (auto simp: const_simps)
  show "l_base (block_header (w_large w) p) = b" "mapped_size (block_header (w_large w) p) = n * PAGE_SIZE" using bp(2,3) by simp_all
  note k = live_known [OF lo m]
  show "large_at w p = p - LARGE_HEADER_SIZE \<and> large_at w p \<noteq> null" if "in_arena_block w p"
  proof -
    have "((b, n), Large_entry (p - LARGE_HEADER_SIZE)) \<in> set (block_regs (w_large w) (snd X) @ oregs)"
      using block_regs_mem [OF m, of "w_large w"] that bp(7) r by simp
    from tabled_get(1) [OF large_okD(1) [OF lo] this, of p] have "large_at w p = p - LARGE_HEADER_SIZE"
      using pos by (simp add: page_arena)
    then show ?thesis using k that by (simp add: large_region_known_def)
  qed
  show "legacy_large_contains (g_hdrs (w_large w), g_registry (w_large w)) p = Some True" if "\<not> in_arena_block w p"
    using k that by (auto simp: large_region_known_def split: option.splits)
qed

text \<open>The answer is exact: the largest size the block has room for.\<close>

lemma usable_facts:
  assumes ok: "api_ok e others oregs X D w" and h: "holds h p X" "settled e lk others oregs p h" "one_kind e lk p h"
  shows "\<exists>u. usable_size e lk p w = Some u \<and> (\<forall>n. room_for w p n h \<longleftrightarrow> n \<le> u)"
proof (cases h)
  case (Packed t c)
  note s = packed_settled [OF ok h(2) [unfolded Packed]]
  have "usable_size e lk p w = Some (tier_size t c)"
    using h(2,3) s Packed by (cases t) (auto simp: usable_size_def usable_by_header_def span_resolves_def Let_def)
  then show ?thesis using Packed by simp
next
  case Large
  obtain b n where r: "block_region (w_large w) p = (b, n)" by (cases "block_region (w_large w) p")
  note l = large_lookup [OF ok h(1) [unfolded Large] r]
  have hd: "g_hdrs (w_large w) (p - LARGE_HEADER_SIZE) = block_header (w_large w) p" by (simp add: block_header_def)
  have "usable_size e lk p w = Some (n * PAGE_SIZE - (p - b))"
    using l by (cases "in_arena_block w p") (simp_all add: usable_size_def hd Let_def)
  moreover have "room_for w p m Large \<longleftrightarrow> m \<le> n * PAGE_SIZE - (p - b)" for m using l(3,4) r by auto
  ultimately show ?thesis using Large by blast
qed

section \<open>The alignment of an address\<close>

unbundle bit_operations_syntax

lemma odd_lowest_bit: "odd (m :: 64 word) \<Longrightarrow> m AND - m = 1"
proof -
  assume o: "odd m"
  then obtain b where b: "m = 1 + 2 * b" by (metis oddE add.commute)
  define c where "c = 2 * b"
  have n: "- m = NOT c" by (simp add: b c_def not_eq_complement)
  have e: "even c" by (simp add: c_def)
  have bm: "bit m i \<longleftrightarrow> bit c i \<or> i = 0" for i unfolding b c_def [symmetric] by (rule even_bit_succ_iff [OF e])
  have "bit (m AND - m) i = bit (1 :: 64 word) i" if "i < LENGTH(64)" for i
    unfolding n using that e o by (cases "i = 0") (simp_all add: bit_and_iff bit_not_iff bm bit_1_iff bit_0 even_and_iff)
  then show ?thesis by (intro bit_word_eqI)
qed

lemma pointer_alignment_power:
  assumes "0 < p" "p < 2 ^ 64"
  shows "\<exists>k. pointer_alignment p = 2 ^ k"
proof -
  obtain j m where m: "p = 2 ^ j * m" "odd m" using odd_part [OF assms(1)] by blast
  have "0 < m" using m(2) by (cases m) auto
  then have "(2::nat) ^ j \<le> p" by (simp add: m(1))
  then have j: "j < 64" using assms(2) by (metis le_less_trans power_less_imp_less_exp one_less_numeral_iff semiring_norm(76))
  let ?m = "word_of_nat m :: 64 word"
  have w: "(word_of_nat p :: 64 word) = push_bit j ?m" using m(1) by (metis of_nat_mult of_nat_power of_nat_numeral push_bit_eq_mult mult.commute)
  have "odd ?m" using m(2) by simp
  have "push_bit j ?m AND - push_bit j ?m = push_bit j (?m AND - ?m)" by (simp only: push_bit_minus push_bit_and)
  also have "?m AND - ?m = 1" by (rule odd_lowest_bit [OF \<open>odd ?m\<close>])
  finally have "pointer_alignment p = unat (push_bit j 1 :: 64 word)" using assms(1) by (simp add: pointer_alignment_def w)
  also have "push_bit j 1 = (word_of_nat (2 ^ j) :: 64 word)" by (simp add: push_bit_eq_mult)
  also have "unat \<dots> = take_bit LENGTH(64) (2 ^ j)" by (simp only: unsigned_of_nat of_nat_id)
  also have "\<dots> = 2 ^ j" using power_strict_increasing [OF j, of "2 :: nat"] by (intro take_bit_nat_eq_self) simp
  finally show ?thesis by blast
qed

section \<open>Moving without a layout\<close>

lemma address_bounds:
  assumes ok: "api_ok e others oregs X D w" and h: "holds h p X" "settled e lk others oregs p h"
  shows "0 < p" "p < 2 ^ 64"
proof -
  have lo: "large_ok others oregs (w_large w) (snd X) {#}" using ok by (simp add: api_ok_def)
  have "0 < p \<and> p < 2 ^ 47"
  proof (cases h)
    case (Packed t c)
    note s = packed_settled [OF ok h(2) [unfolded Packed]]
    have "p < ar_end (g_arena (w_large w))" using s(1) by (auto simp: contains_def split: option.splits if_splits)
    then show ?thesis using large_okD(3) [OF lo] s(3) by (simp add: const_simps)
  next
    case Large
    obtain b n where r: "block_region (w_large w) p = (b, n)" by (cases "block_region (w_large w) p")
    have "p \<in> set (snd X)" using h(1) Large by simp
    from block_place(1,6) [OF lo this r] large_lookup(1) [OF ok h(1) [unfolded Large] r] show ?thesis
      by (simp add: region_fine_def ADDRESS_LIMIT_def)
  qed
  then show "0 < p" "p < 2 ^ 64" by simp_all
qed

lemma grow_refused:
  assumes ok: "api_ok e others oregs X D w" and h: "holds h p X" "settled e lk others oregs p h"
    and g: "grow_block le p new w = Some (False, w')"
  shows "room_for w' p n h = room_for w p n h"
proof (cases h)
  case Large
  obtain xs ys where s: "snd X = xs @ p # ys" using h(1) Large split_list by fastforce
  have lo: "large_ok others oregs (w_large w) (xs @ p # ys) {#}" using ok s by (simp add: api_ok_def)
  have "g_hdrs (w_large w') = g_hdrs (w_large w)"
    using grow_large_facts [OF lo, of le new] g by (auto simp: grow_block_def grown_block_def)
  then show ?thesis using Large by (simp add: block_region_def block_header_def)
qed simp

lemma alloc_keeps_regions:
  assumes ok: "api_ok e others oregs X D w" and l: "caller_ok le (w_large w)" "align = 2 ^ k" "0 < sz"
    "mmap_ok le (w_large w) (snd X) sz align False 0" and r: "\<And>t c. tier_of sz align = Some (t, c) \<Longrightarrow> ready e t c w"
    and a: "alloc_impl e le sz align w = Some (q, w')" and p: "p \<in> set (snd X)"
  shows "block_region (w_large w') p = block_region (w_large w) p"
proof -
  have big: "block_region (w_large (snd (alloc_large_block le sz align v))) p = block_region (w_large w) p" if "w_large v = w_large w" for v
  proof -
    obtain q fresh z s' where a: "alloc_large_ex le (w_large w) sz align False 0 = ((q, fresh, z), s')" by (metis surj_pair)
    have lo: "large_ok others oregs (w_large w) (snd X) {#}" using ok by (simp add: api_ok_def)
    have "block_header s' p = block_header (w_large w) p"
      using alloc_large_facts [OF lo l a] p by (auto simp: serves_def block_header_def split: if_splits)
    then show ?thesis using that by (simp add: alloc_large_block_def alloc_large_def a block_region_def)
  qed
  show ?thesis
  proof (cases "tier_of sz align")
    case None
    then show ?thesis using a big [of w] by (auto simp: alloc_impl_tier [OF l(3)])
  next
    case (Some tc)
    obtain t c where tc: "tier_of sz align = Some (t, c)" using Some by (cases tc) simp
    have fits: "c < tier_count t" using tier_of_fits [OF tc l(3)] by simp
    have inv: "cache_inv e (fst X) D (w_cache w)" using ok by (simp add: api_ok_def)
    obtain r s' where "tier_alloc e t c w = Some (r, w\<lparr>w_cache := s'\<rparr>)" using tier_alloc_ok [OF inv fits r [OF tc]] by blast
    then show ?thesis using a tc big [of "w\<lparr>w_cache := s'\<rparr>"]
      by (cases r) (auto simp: alloc_impl_tier [OF l(3)] split: if_splits)
  qed
qed

lemma copy_move:
  assumes m: "movable e le lk others oregs sz pa align new h p X D w" and k: "one_kind e lk p h" "room_for w p sz h"
    and al: "align = (if h = Large then pointer_alignment p else 1)" and n: "new \<le> ISIZE_MAX"
  shows "\<exists>r. realloc_by_copy e le lk p new (h = Large) w = Some (Inr r) \<and> resized e others oregs sz align new h p X w r"
proof -
  note M = m [unfolded movable_def]
  obtain j where j: "align = 2 ^ j" using M by blast
  have ok: "api_ok e others oregs X D w" and co: "caller_ok le (w_large w)" and n0: "0 < new"
    and rd: "\<And>t c. tier_of new align = Some (t, c) \<Longrightarrow> ready e t c w" and hp: "holds h p X"
    and st: "settled e lk others oregs p h" and sz: "0 < sz" using M by blast+
  note mm = movable_mmap(1) [OF m]
  have alloc: "(if h = Large then alloc_impl e le new (pointer_alignment p) w else malloc e le new w) = alloc_impl e le new align w"
    using al n n0 by (simp add: malloc_def)
  obtain q w1 where q: "alloc_impl e le new align w = Some (q, w1)" "served_block e others oregs new align X w (q, w1)"
    using alloc_impl_facts [OF ok co j n0 mm rd] by (metis surj_pair)
  show ?thesis
  proof (cases "q = null")
    case True
    then have "realloc_by_copy e le lk p new (h = Large) w = Some (Inr (null, w1))" unfolding realloc_by_copy_def alloc q(1) by simp
    then show ?thesis using q(2) True by (auto simp: served_block_def resized_def)
  next
    case False
    obtain h' D1 where h': "\<not> holds h' q X" "room_for w1 q new h'" "align dvd q" "api_ok e others oregs (gain h' q X) D1 w1" "w_bytes w1 = w_bytes w"
      using q(2) False by (auto simp: served_block_def)
    have hp1: "holds h p (gain h' q X)" by (rule gained_holds [OF hp])
    obtain u where u: "usable_size e lk p w1 = Some u" "\<And>n. room_for w1 p n h = (n \<le> u)"
      using usable_facts [OF h'(4) hp1 st k(1)] by blast
    have "room_for w1 p sz h"
    proof (cases h)
      case Large
      then have "p \<in> set (snd X)" using hp by simp
      from alloc_keeps_regions [OF ok co j n0 mm rd q(1) this] k(2) Large show ?thesis by simp
    qed (use k(2) in simp)
    then have su: "min sz new \<le> min u new" using u(2) by simp
    let ?w = "copy_bytes p q (min u new) w1"
    have w: "w_flag ?w = w_flag w1" "w_cache ?w = w_cache w1" "w_large ?w = w_large w1" by (simp_all add: copy_bytes_def)
    have ok2: "api_ok e others oregs (gain h' q X) D1 ?w" using h'(4) by (simp add: api_ok_def w)
    have lo: "large_ok others oregs (w_large ?w) (snd (gain h' q X)) {#}" using ok2 by (simp add: api_ok_def)
    have cv: "active_covers e Medium c p (w_cache ?w)" if "h = Packed Medium c" for c using M that q(1) w by simp
    have rs: "resolves e lk ?w p h" using settled_resolves [OF st lo] cv by blast
    have co2: "caller_ok le (w_large ?w)" unfolding w by (rule caller_len [OF co alloc_impl_stashes [OF ok n0 q(1) rd]])
    obtain a0 where hf: "home_for sz a0 h" using M by blast
    obtain w3 D3 where f: "home_free e le h p ?w = Some (Inr w3)" "w_bytes w3 = w_bytes ?w"
      "api_ok e others oregs (lose h p (gain h' q X)) D3 w3" "room_for ?w q new h' \<longrightarrow> room_for w3 q new h'"
      using free_step [OF ok2 hp1 hf sz rs co2, of q new h'] by blast
    have "free e lk' lk p ?w = Some (Inr w3)" if "lk' = le" for lk' using pointer_route [OF ok2 hp1 rs] f(1) that by (simp add: free_def)
    then have "realloc_by_copy e le lk p new (h = Large) w = Some (Inr (q, w3))"
      using False unfolding realloc_by_copy_def alloc q(1) by (simp add: u(1))
    moreover have "room_for ?w q new h'" using h'(2) by (cases h') (simp_all add: w)
    moreover have "carried p q sz new w w3"
      using copy_carries [OF su, of p q w1] f(2) h'(5) by (simp add: carried_def)
    ultimately show ?thesis using f(4) resizedI [OF False h'(1) _ h'(3) f(3)] by blast
  qed
qed

section \<open>The whole \<open>realloc\<close>\<close>

lemma packed_room: "h \<noteq> Large \<Longrightarrow> room_for w p n h = room_for w' p n h"
  by (cases h) simp_all

lemma class_room:
  assumes "0 < new" "new \<le> MAX_SMALL_SIZE"
  shows "new \<le> CLASSES ! class_for_size new"
  using assms small_table.lookup_fits tables_last(1) by simp

text \<open>Tier by tier, after \<open>movable\<close>: the block stays in its class, is promoted, or is copied.\<close>

lemma small_realloc:
  assumes m: "movable e le lk others oregs sz pa align new h p X D w" and k: "one_kind e lk p h" and h: "h = Packed Small c"
    and move: "\<exists>r. realloc_by_copy e le lk p new (h = Large) w = Some (Inr r) \<and> resized e others oregs sz align new h p X w r"
  shows "\<exists>r. realloc_packed e le lk p new (h = Large) w = Some (Inr r) \<and> resized e others oregs sz align new h p X w r"
proof (cases "new \<le> MAX_SMALL_SIZE \<and> class_for_size new = c")
  case True
  have n0: "0 < new" using m unfolding movable_def by blast
  have "new \<le> CLASSES ! c" using class_room [OF n0] True by blast
  then have "resized e others oregs sz align new h p X w (p, w)" using stays_put [OF m] h by simp
  moreover have "realloc_packed e le lk p new (h = Large) w = Some (Inr (p, w))"
    using m k True unfolding movable_def h by (simp add: realloc_packed_def stays_by_header_def Let_def)
  ultimately show ?thesis by blast
next
  case False
  have "lk_page_class lk p = Some c \<and> lk_medium_at lk p = null \<and> ce_big_at e p = null" using m unfolding movable_def h by simp
  then have "realloc_packed e le lk p new (h = Large) w = realloc_by_copy e le lk p new (h = Large) w"
    using k False unfolding h by (auto simp: realloc_packed_def stays_by_header_def Let_def)
  then show ?thesis using move by simp
qed

lemma medium_realloc:
  assumes m: "movable e le lk others oregs sz pa align new h p X D w" and k: "one_kind e lk p h" and h: "h = Packed Medium c"
    and move: "\<exists>r. realloc_by_copy e le lk p new (h = Large) w = Some (Inr r) \<and> resized e others oregs sz align new h p X w r"
  shows "\<exists>r. realloc_packed e le lk p new (h = Large) w = Some (Inr r) \<and> resized e others oregs sz align new h p X w r"
proof -
  have ok: "api_ok e others oregs X D w" and st: "settled e lk others oregs p h" using m unfolding movable_def by blast+
  note s = packed_settled(1) [OF ok st [unfolded h]]
  have sp: "in_arena_block w p \<and> lk_medium_at lk p \<noteq> null" "ce_big_at e p = null" "lk_mclass lk (lk_medium_at lk p) = c"
    using st s k by (simp_all add: h span_resolves_def)
  show ?thesis
  proof (cases "MAX_SMALL_SIZE < new \<and> new \<le> MAX_MEDIUM_BLOCK \<and> medium_class_for_size new = c")
    case True
    then have "new \<le> MEDIUM_CLASSES ! c" using medium_table.lookup_fits tables_last by auto
    then have "resized e others oregs sz align new h p X w (p, w)" using stays_put [OF m] h by simp
    then show ?thesis using sp True h by (simp add: realloc_packed_def Let_def)
  next
    case False
    then have "realloc_packed e le lk p new (h = Large) w = realloc_by_copy e le lk p new (h = Large) w"
      using sp h by (auto simp: realloc_packed_def Let_def)
    then show ?thesis using move by simp
  qed
qed

lemma big_realloc:
  assumes m: "movable e le lk others oregs sz (pointer_alignment p) align new h p X D w" and h: "h = Packed Big c"
    and move: "\<And>w1. movable e le lk others oregs sz (pointer_alignment p) align new h p X D w1 \<Longrightarrow>
      \<exists>r. realloc_by_copy e le lk p new (h = Large) w1 = Some (Inr r) \<and> resized e others oregs sz align new h p X w1 r"
  shows "\<exists>r. realloc_packed e le lk p new (h = Large) w = Some (Inr r) \<and> resized e others oregs sz align new h p X w r"
proof -
  let ?b = "MAX_MEDIUM_BLOCK < new \<and> new \<le> MAX_BIG_BLOCK"
  have ok: "api_ok e others oregs X D w" and st: "settled e lk others oregs p h" using m unfolding movable_def by blast+
  obtain a0 where hf: "home_for sz a0 h" using m unfolding movable_def by blast
  note s = packed_settled(1) [OF ok st [unfolded h]]
  have bg: "in_arena_block w p" "ce_big_at e p \<noteq> null" "lk_medium_at lk p = null" "lk_bclass lk (ce_big_at e p) = c"
    using st s by (simp_all add: h)
  show ?thesis
  proof (cases "?b \<and> big_class_for_size new = c")
    case True
    then have "new \<le> BIG_CLASSES ! c" using big_table.lookup_fits tables_last by auto
    then have "resized e others oregs sz align new h p X w (p, w)" using stays_put [OF m] h by simp
    then show ?thesis using bg True h by (simp add: realloc_packed_def Let_def)
  next
    case False
    have eq: "realloc_packed e le lk p new (h = Large) w =
      (case (if ?b then try_promote_big_grow e le lk p new (pointer_alignment p) w else Some (Inr (None, w))) of
         None \<Rightarrow> None | Some (Inl x) \<Rightarrow> Some (Inl x) | Some (Inr (Some q, w1)) \<Rightarrow> Some (Inr (q, w1))
       | Some (Inr (None, w1)) \<Rightarrow> realloc_by_copy e le lk p new (h = Large) w1)"
      using bg False h by (auto simp: realloc_packed_def Let_def split: option.split sum.split)
    show ?thesis
    proof (cases ?b)
      case True
      have "MAX_MEDIUM_BLOCK < sz" using hf h by (auto simp: tier_of_def split: if_splits)
      from movable_promote [OF m this] obtain r w1 where
        r: "try_promote_big_grow e le lk p new (pointer_alignment p) w = Some (Inr (r, w1))"
        "case r of Some q \<Rightarrow> resized e others oregs sz align new h p X w (q, w1)
         | None \<Rightarrow> w_bytes w1 = w_bytes w \<and> movable e le lk others oregs sz (pointer_alignment p) align new h p X D w1" by blast
      show ?thesis
      proof (cases r)
        case None
        then have w1: "w_bytes w = w_bytes w1" "movable e le lk others oregs sz (pointer_alignment p) align new h p X D w1" using r(2) by simp_all
        from move [OF w1(2)] obtain x where
          "realloc_by_copy e le lk p new (h = Large) w1 = Some (Inr x)" "resized e others oregs sz align new h p X w1 x" by blast
        then show ?thesis using True r(1) None resized_bytes [OF _ w1(1)] unfolding eq by (simp del: split_paired_Ex)
      qed (use True r in \<open>simp add: eq\<close>)
    next
      case nb: False
      then show ?thesis using move [OF m] unfolding eq if_not_P [OF nb] by simp
    qed
  qed
qed

lemma packed_realloc:
  assumes m: "movable e le lk others oregs sz (pointer_alignment p) align new h p X D w" and k: "one_kind e lk p h" "room_for w p sz h"
    and al: "align = (if h = Large then pointer_alignment p else 1)" and n: "new \<le> ISIZE_MAX"
  shows "\<exists>r. realloc_packed e le lk p new (h = Large) w = Some (Inr r) \<and> resized e others oregs sz align new h p X w r"
proof -
  note move = copy_move [OF m k al n]
  show ?thesis
  proof (cases h)
    case Large
    then have "realloc_packed e le lk p new (h = Large) w = realloc_by_copy e le lk p new (h = Large) w"
      using k(1) by (simp add: realloc_packed_def Let_def)
    then show ?thesis using move by simp
  next
    case (Packed t c)
    have again: "\<exists>r. realloc_by_copy e le lk p new (h = Large) w1 = Some (Inr r) \<and> resized e others oregs sz align new h p X w1 r"
      if "movable e le lk others oregs sz (pointer_alignment p) align new h p X D w1" for w1
      using copy_move [OF that k(1) _ al n] k(2) packed_room [of h w p sz w1] Packed by simp
    show ?thesis
      using small_realloc [OF m k(1) _ move] medium_realloc [OF m k(1) _ move] big_realloc [OF m _ again] Packed by (cases t) blast+
  qed
qed

lemma movable_c_realloc:
  assumes m: "movable e le lk others oregs sz (pointer_alignment p) align new h p X D w" and k: "one_kind e lk p h" "room_for w p sz h"
    and al: "align = (if h = Large then pointer_alignment p else 1)" and n: "new \<le> ISIZE_MAX"
  shows "\<exists>r. realloc e le lk p new w = Some (Inr r) \<and> resized e others oregs sz align new h p X w r"
proof -
  have ok: "api_ok e others oregs X D w" and st: "settled e lk others oregs p h" and hp: "holds h p X" and n0: "0 < new"
    using m unfolding movable_def by blast+
  note packed = packed_realloc [OF m k al n]
  show ?thesis
  proof (cases h)
    case (Packed t c)
    note s = packed_settled [OF ok st [unfolded Packed]]
    have "realloc e le lk p new w = realloc_packed e le lk p new (h = Large) w"
      using s n n0 Packed by (simp add: realloc_def)
    then show ?thesis using packed by simp
  next
    case Large
    obtain b n where r: "block_region (w_large w) p = (b, n)" by (cases "block_region (w_large w) p")
    note l = large_lookup [OF ok hp [unfolded Large] r]
    show ?thesis
    proof (cases "in_arena_block w p")
      case False
      then have "realloc e le lk p new w = realloc_packed e le lk p new (h = Large) w"
        using l(1,2,8) assms(5) n0 Large by (simp add: realloc_def)
      then show ?thesis using packed by simp
    next
      case True
      obtain g w' where g: "grow_block le p new w = Some (g, w')" "w_bytes w' = w_bytes w"
        "if g then resized e others oregs sz align new h p X w (p, w') else movable e le lk others oregs sz (pointer_alignment p) align new h p X D w'"
        using movable_grow [OF m] by blast
      have eq: "realloc e le lk p new w = (if g then Some (Inr (p, w')) else realloc_packed e le lk p new (h = Large) w')"
        using True l(1,2,7) assms(5) n0 Large g(1) by (simp add: realloc_def)
      show ?thesis
      proof (cases g)
        case False
        then have m1: "movable e le lk others oregs sz (pointer_alignment p) align new h p X D w'" using g(3) by simp
        have "room_for w' p sz h" using grow_refused [OF ok hp st, of le new w'] g(1) False k(2) by simp
        from packed_realloc [OF m1 k(1) this al assms(5)] obtain r where
          "realloc_packed e le lk p new (h = Large) w' = Some (Inr r)" "resized e others oregs sz align new h p X w' r" by blast
        then show ?thesis using False eq resized_bytes [OF _ g(2) [symmetric]] by (simp del: split_paired_Ex)
      qed (use g eq in simp)
    qed
  qed
qed

section \<open>The exported names\<close>

definition allox_malloc :: "cache_env \<Rightarrow> large_env \<Rightarrow> nat \<Rightarrow> api_state \<Rightarrow> (addr \<times> api_state) option" where
  "allox_malloc e le sz w = malloc e le sz w"

definition allox_calloc :: "cache_env \<Rightarrow> large_env \<Rightarrow> nat \<Rightarrow> nat \<Rightarrow> api_state \<Rightarrow> (addr \<times> api_state) option" where
  "allox_calloc e le nmemb sz w = calloc e le nmemb sz w"

definition allox_realloc :: "cache_env \<Rightarrow> large_env \<Rightarrow> lookups \<Rightarrow> addr \<Rightarrow> nat \<Rightarrow> api_state \<Rightarrow> (addr \<times> api_state) outcome" where
  "allox_realloc e le lk p sz w = realloc e le lk p sz w"

definition allox_free :: "cache_env \<Rightarrow> large_env \<Rightarrow> lookups \<Rightarrow> addr \<Rightarrow> api_state \<Rightarrow> api_state outcome" where
  "allox_free e le lk p w = free e le lk p w"

definition allox_aligned_alloc :: "cache_env \<Rightarrow> large_env \<Rightarrow> nat \<Rightarrow> nat \<Rightarrow> api_state \<Rightarrow> (addr \<times> api_state) option" where
  "allox_aligned_alloc e le align sz w = aligned_alloc e le align sz w"

definition allox_malloc_usable_size :: "cache_env \<Rightarrow> lookups \<Rightarrow> addr \<Rightarrow> api_state \<Rightarrow> nat option" where
  "allox_malloc_usable_size e lk p w = usable_size e lk p w"

section \<open>Properties\<close>

text \<open>C4 (C \<open>realloc\<close>).  The C function, which knows no layout, resizes a live block of any tier: it returns without
  complaint; on failure the block is still held and no byte has changed; if the address stays, the block has room
  for the new size; otherwise a block nobody held, with room for the new size, has the old contents, and no byte
  outside it has changed.  Every address it keeps is checked, so no case is left to the caller here.\<close>

theorem c_realloc_correct:
  assumes "api_ok e others oregs X D w" "holds h p X" "home_for sz a0 h" "0 < sz" "room_for w p sz h" "0 < new" "new \<le> ISIZE_MAX"
    and "settled e lk others oregs p h" "one_kind e lk p h" "caller_ok le (w_large w)"
    and "align = (if h = Large then pointer_alignment p else 1)" "\<And>t c. tier_of new align = Some (t, c) \<Longrightarrow> ready e t c w"
    and "\<And>l. tried le p new (pointer_alignment p) (w_large w) l \<Longrightarrow>
      mmap_ok le l (snd X) new align False 0 \<and> mmap_ok le l (snd X) new (pointer_alignment p) False (promote_slack new)"
    and "\<And>c q w'. h = Packed Medium c \<Longrightarrow> alloc_impl e le new align w = Some (q, w') \<Longrightarrow> active_covers e Medium c p (w_cache w')"
  shows "\<exists>q w' D'. allox_realloc e le lk p new w = Some (Inr (q, w'))
    \<and> (q = null \<and> w_bytes w' = w_bytes w \<and> api_ok e others oregs X D' w'
       \<or> q = p \<and> w_bytes w' = w_bytes w \<and> api_ok e others oregs X D' w' \<and> room_for w' p new h
       \<or> q \<noteq> null \<and> (\<exists>h'. \<not> holds h' q X \<and> room_for w' q new h' \<and> align dvd q
            \<and> api_ok e others oregs (lose h p (gain h' q X)) D' w') \<and> carried p q sz new w w')"
proof -
  obtain j where j: "pointer_alignment p = 2 ^ j" using pointer_alignment_power [OF address_bounds [OF assms(1,2,8)]] by blast
  then have "\<exists>k. align = 2 ^ k" "\<exists>k. pointer_alignment p = 2 ^ k" "align dvd pointer_alignment p"
    using assms(11) power_0 [of "2 :: nat"] by (auto intro: exI [of _ 0])
  then have "movable e le lk others oregs sz (pointer_alignment p) align new h p X D w"
    unfolding movable_def using assms(1-4,6,8,10,12-14) by blast
  from movable_c_realloc [OF this assms(9,5,11,7)] obtain q w' where
    r: "realloc e le lk p new w = Some (Inr (q, w'))" "resized e others oregs sz align new h p X w (q, w')"
    by (metis surj_pair)
  then show ?thesis unfolding resized_def prod.case allox_realloc_def by blast
qed

text \<open>C6 (usable size).  For a live block of any tier the answer is exact: it is the largest size for which there is
  room behind the address, and so at least what was asked for.\<close>

theorem usable_size_exact:
  assumes "api_ok e others oregs X D w" "holds h p X" "settled e lk others oregs p h" "one_kind e lk p h"
  shows "\<exists>u. allox_malloc_usable_size e lk p w = Some u \<and> (\<forall>n. room_for w p n h = (n \<le> u))"
  using usable_facts [OF assms] unfolding allox_malloc_usable_size_def .

lemma away_settled: "settled free_env demo_lookups {#(65536, 1)#} [] 65584 (Packed Small 45)"
  by (simp add: demo_lookups_def free_env_def heap_slice_def hit_def const_simps)

lemma away_ok: "api_ok free_env {#(65536, 1)#} [] (one_block, []) no_blocks away_state"
  using free_inv slice_large_ok by (simp add: api_ok_def away_state_def)

theorem c_realloc_correct_witness:
  "\<exists>q w'. allox_realloc free_env demo_env demo_lookups 65584 17 away_state = Some (Inr (q, w'))
    \<and> (q = null \<or> q = 65584 \<or> w_bytes w' q = 48)"
proof -
  have h: "holds (Packed Small 45) 65584 (one_block, [])" "home_for 16384 16 (Packed Small 45)" "tier_of 17 1 = Some (Small, 1)"
    using demo_tier demo_class by (simp_all add: one_block_def tier_of_def needs_large_def const_simps MAX_BIG_BLOCK_eq MAX_MEDIUM_BLOCK_eq)
  have m: "mmap_ok demo_env l [] 17 al False slack" for l al slack by (simp add: mmap_ok_def maps_fresh_def demo_env_def)
  have c: "caller_ok demo_env (w_large away_state)" by (simp add: caller_ok_def demo_env_def)
  have r: "room_for away_state 65584 16384 (Packed Small 45)" using tier_of_fits [of 16384 16 Small 45] h(2) by simp
  have k: "one_kind free_env demo_lookups 65584 (Packed Small 45)" by (simp add: demo_lookups_def)
  from c_realloc_correct [OF away_ok h(1,2) _ r _ _ away_settled k c, of 17 1] obtain q w' where
    q: "allox_realloc free_env demo_env demo_lookups 65584 17 away_state = Some (Inr (q, w'))"
    "q = null \<or> q = 65584 \<or> carried 65584 q 16384 17 away_state w'"
    using h(3) away_ready m by (auto simp: ISIZE_MAX_def)
  have "w_bytes w' q = 48" if "carried 65584 q 16384 17 away_state w'"
    using that unfolding carried_def by (auto simp: away_state_def dest: spec [of _ 0])
  then show ?thesis using q by blast
qed

theorem usable_size_exact_witness:
  "\<exists>u. allox_malloc_usable_size free_env demo_lookups 65584 away_state = Some u \<and> 16384 \<le> u"
proof -
  have h: "holds (Packed Small 45) 65584 (one_block, [])" "tier_of 16384 16 = Some (Small, 45)"
    using demo_tier by (simp_all add: one_block_def)
  have r: "room_for away_state 65584 16384 (Packed Small 45)" using tier_of_fits [OF h(2)] by simp
  have k: "one_kind free_env demo_lookups 65584 (Packed Small 45)" by (simp add: demo_lookups_def)
  show ?thesis using usable_size_exact [OF away_ok h(1) away_settled k] r by blast
qed

end
