(* ===== verification/Unchecked_Resize.thy ===== *)
theory Unchecked_Resize
  imports Api_Realloc
begin

text \<open>
  The case that the correctness of \<open>GlobalAlloc::realloc\<close> leaves to the caller.  A big block that grows from below to 90000 bytes is promoted to a
  region of eleven pages.  It grows to 700000 bytes in place, within the region.  From there to 777424 bytes both
  sizes are in one big class, so \<open>realloc_slow\<close> takes the block for a packed one and returns the same address,
  although the region ends more than 50000 bytes earlier.
\<close>

section \<open>The promoted block\<close>

definition promoted_arena :: arena where "promoted_arena = demo_arena\<lparr>ar_bump := 11 * ARENA_ALIGN, ar_commits := 1\<rparr>"

definition promoted_large :: large_state where
  "promoted_large = hand_out (demo_large\<lparr>g_arena := promoted_arena, g_mapped_pages := 1, g_map_calls := 1\<rparr>) 65536 720896 90000 1"

lemma promoted_commit: "commit (\<lambda>_ _. True) None demo_arena 11 = ((65536, True), promoted_arena)"
proof -
  have ho: "holes_take demo_arena 11 = (null, demo_arena)" by (simp add: holes_take_def demo_arena_def with_size_def)
  have bu: "claim_bump demo_arena (11 * ARENA_ALIGN) = Some (ARENA_ALIGN, demo_arena\<lparr>ar_bump := 11 * ARENA_ALIGN\<rparr>)"
    by (simp add: claim_bump_def demo_arena_def with_size_def checked_add_def const_simps USIZE_BITS_def)
  have "ar_state demo_arena = 1" "11 * ARENA_ALIGN < 2 ^ USIZE_BITS" "ar_commits demo_arena = 0"
    by (simp_all add: demo_arena_def with_size_def ARENA_ALIGN_def USIZE_BITS_def)
  then have "commit (\<lambda>_ _. True) None demo_arena 11 = ((ARENA_ALIGN, True), promoted_arena)"
    using commit_ready [of demo_arena 11 "\<lambda>_ _. True" None] unfolding ho promoted_arena_def by (simp add: bu)
  then show ?thesis by (simp add: ARENA_ALIGN_def)
qed

lemma promoted_alloc: "alloc_large_ex demo_env demo_large 90000 1 False (promote_slack 90000) = ((65584, True, True), promoted_large)"
proof -
  have m: "large_mapped 90000 1 (promote_slack 90000) = Some 720896"
    by (simp add: large_mapped_def promote_slack_def checked_add_def const_simps USIZE_BITS_def mask_down_def MAX_BIG_BLOCK_eq)
  have st: "large_from_stash demo_env demo_large 90000 al False w = ((None, 0), demo_large)" for al w
    by (simp add: large_from_stash_def demo_env_def)
  have j: "large_shard w 0 < NUM_LARGE_SHARDS" for w by (rule large_shard_less)
  then have sh: "g_shards demo_large ! large_shard w 0 = large_cache_new" for w by (simp add: demo_large_def large_new_def)
  have id: "(g_shards demo_large)[large_shard w 0 := large_cache_new] = g_shards demo_large" for w
    by (metis sh list_update_id)
  have c: "large_from_caches demo_env demo_large 90000 1 False 720896 = (None, demo_large)"
    by (simp add: large_from_caches_def st large_from_shard_def sh take_fit_new id Let_def)
  have g: "map_large_region demo_env demo_large 720896 = ((65536, True), demo_large\<lparr>g_arena := promoted_arena\<rparr>)"
    using promoted_commit by (simp add: map_large_region_def demo_env_def demo_large_def large_new_def PAGE_SIZE_def)
  have "block_fits 65536 720896 90000 1" "block_in 65536 1 = 65584"
    by (simp_all add: block_fits_def block_in_def align_up_def mask_down_def const_simps)
  moreover have "g_mapped_pages demo_large = 0" "g_map_calls demo_large = 0" by (simp_all add: demo_large_def large_new_def)
  ultimately show ?thesis
    by (simp add: alloc_large_ex_def m [unfolded One_nat_def] c [unfolded One_nat_def] large_from_map_def g promoted_large_def add_w_def Let_def)
qed

lemma promoted_block_facts:
  "large_ok {#} [] promoted_large [65584] {#}" "block_region promoted_large 65584 = (65536, 11)"
  "requested_size (block_header promoted_large 65584) = 90000" "contains (g_arena promoted_large) 65584 1"
proof -
  have mm: "mmap_ok demo_env demo_large [] 90000 1 False (promote_slack 90000)" by (simp add: mmap_ok_def maps_fresh_def demo_env_def)
  show "large_ok {#} [] promoted_large [65584] {#}"
    using alloc_large_facts [OF demo_large_ok demo_alloc(3) _ _ mm promoted_alloc, of 0] by simp
  have "contains promoted_arena 65536 720896" "contains promoted_arena 65584 1"
    by (simp_all add: contains_def promoted_arena_def demo_arena_def with_size_def checked_add_def const_simps USIZE_BITS_def)
  moreover have "block_in 65536 1 = 65584" by (simp add: block_in_def align_up_def mask_down_def const_simps)
  ultimately show "block_region promoted_large 65584 = (65536, 11)" "requested_size (block_header promoted_large 65584) = 90000"
    "contains (g_arena promoted_large) 65584 1"
    by (simp_all add: promoted_large_def hand_out_def init_large_header_def register_large_region_def block_region_def block_header_def
        Let_def PAGE_SIZE_def)
qed

definition promoted_state :: api_state where
  "promoted_state = \<lparr> w_flag = None, w_cache = first_state, w_large = promoted_large, w_bytes = (\<lambda>_. 0) \<rparr>"

lemma grow_in_slack:
  assumes ok: "large_ok others oregs s blks {#}" "p \<in> set blks" and r: "block_region s p = (b, n)" and c: "contains (g_arena s) p 1"
    and z: "requested_size (block_header s p) < sz" "p + sz \<le> b + n * PAGE_SIZE"
  shows "try_grow_large_frontier e s p sz =
    Some (True, s\<lparr>g_hdrs := (g_hdrs s)(p - LARGE_HEADER_SIZE := (block_header s p)\<lparr>requested_size := sz\<rparr>)\<rparr>)"
proof -
  note bp = block_place [OF ok r]
  note known = live_known [OF ok] live_header [OF ok, unfolded bp(2,3)]
  have off: "sub_w 64 p b = p - b" using bp(1,4,6) by (simp add: region_fine_def ADDRESS_LIMIT_def)
  have cap: "\<not> n * PAGE_SIZE < p - b" "sz \<le> n * PAGE_SIZE - (p - b)" using bp(4,6) z(2) by simp_all
  have hdr: "g_hdrs s (p - LARGE_HEADER_SIZE) = block_header s p" by (simp add: block_header_def)
  show ?thesis using c known z(1) cap by (simp add: try_grow_large_frontier_def hdr bp(2,3) off Let_def)
qed

lemma unchecked_resize_overflows:
  "alloc_large_ex demo_env demo_large 90000 1 False (promote_slack 90000) = ((65584, True, True), w_large promoted_state)
    \<and> (\<exists>w. grow_block demo_env 65584 700000 promoted_state = Some (True, w)
    \<and> ga_realloc e le lk 65584 700000 1 777424 w = Some (Inr (65584, w)) \<and> \<not> room_for w 65584 777424 Large
    \<and> (let (b, n) = block_region (w_large w) 65584 in b + n * PAGE_SIZE + 50000 < 65584 + 777424))"
proof -
  let ?l = "promoted_large\<lparr>g_hdrs := (g_hdrs promoted_large)(65584 - LARGE_HEADER_SIZE :=
      (block_header promoted_large 65584)\<lparr>requested_size := 700000\<rparr>)\<rparr>"
  let ?w = "promoted_state\<lparr>w_large := ?l\<rparr>"
  have "try_grow_large_frontier demo_env promoted_large 65584 700000 = Some (True, ?l)"
    by (rule grow_in_slack [OF promoted_block_facts(1) _ promoted_block_facts(2,4)]) (simp_all add: promoted_block_facts(3) PAGE_SIZE_def)
  then have g: "grow_block demo_env 65584 700000 promoted_state = Some (True, ?w)"
    by (simp add: grow_block_def promoted_state_def)
  have "big_class_for_size 700000 = big_class_for_size 777424"
    by (simp add: big_class_for_size_slot big_scan_def BIG_CLASSES_eq scan_table.simps const_simps)
  then have r: "ga_realloc e le lk 65584 700000 1 777424 ?w = Some (Inr (65584, ?w))"
    by (simp add: ga_realloc_def realloc_slow_def const_simps MAX_BIG_BLOCK_eq MAX_MEDIUM_BLOCK_eq)
  have b: "block_region ?l 65584 = (65536, 11)" using promoted_block_facts(2) by (simp add: block_region_def block_header_def)
  have "alloc_large_ex demo_env demo_large 90000 1 False (promote_slack 90000) = ((65584, True, True), w_large promoted_state)"
    unfolding promoted_state_def by (simp del: One_nat_def) (rule promoted_alloc)
  then show ?thesis by (intro conjI exI [of _ ?w] g r) (simp_all add: b PAGE_SIZE_def)
qed

end
