(* ===== verification/Retired_Slots.thy ===== *)
theory Retired_Slots
  imports Cache_Ops
begin

text \<open>
  The slots of retired caches under concurrency (\<open>src/src/cache.rs\<close>, \<open>RetiredSlot\<close>, \<open>retire\<close>, \<open>take_one\<close>):
  a slot goes through empty, writing, ready and taking; the exchanges are atomic, everything between them is
  not.  A thread is its program point with the locals it needs; \<open>rq_next\<close> is what it does next, one atomic
  access to shared memory at a time.  \<open>rq_in\<close> and \<open>rq_out\<close> record which caches were published and which were
  taken out again; nothing reads them.
\<close>

section \<open>State\<close>

datatype slot_state = Slot_Empty | Slot_Writing | Slot_Ready | Slot_Taking

record retired_queue =
  rq_state :: "slot_state list"
  rq_cache :: "thread_cache option list"
  rq_count :: nat
  rq_in :: "thread_cache list"
  rq_out :: "thread_cache option list"

definition rq_new :: retired_queue where
  "rq_new = \<lparr> rq_state = replicate RETIRED_SLOT_COUNT Slot_Empty, rq_cache = replicate RETIRED_SLOT_COUNT None,
     rq_count = 0, rq_in = [], rq_out = [] \<rparr>"

datatype rq_pc =
    RQ_Idle
  | RQ_Retire thread_cache
  | RQ_Put_Scan thread_cache nat
  | RQ_Write thread_cache nat
  | RQ_Publish thread_cache nat
  | RQ_Add
  | RQ_Flush thread_cache
  | RQ_Load
  | RQ_Take_Scan nat
  | RQ_Read nat
  | RQ_Release "thread_cache option" nat
  | RQ_Sub "thread_cache option"
  | RQ_Took "thread_cache option"

section \<open>Steps\<close>

definition retired_bytes :: "thread_cache \<Rightarrow> nat" where
  "retired_bytes tc = min (cached_bytes tc + large_bytes (tc_stash tc)) (2 ^ 64 - 1)"

fun rq_next :: "rq_pc \<Rightarrow> retired_queue \<Rightarrow> rq_pc \<times> retired_queue" where
  "rq_next RQ_Idle q = (RQ_Idle, q)"
| "rq_next (RQ_Retire tc) q =
     (if retired_bytes tc = 0 then RQ_Idle
      else if RETIRED_SLOT_BYTES < retired_bytes tc then RQ_Flush tc else RQ_Put_Scan tc 0, q)"
| "rq_next (RQ_Put_Scan tc i) q =
     (if RETIRED_SLOT_COUNT \<le> i then (RQ_Flush tc, q)
      else if rq_state q ! i = Slot_Empty then (RQ_Write tc i, q\<lparr>rq_state := (rq_state q)[i := Slot_Writing]\<rparr>)
      else (RQ_Put_Scan tc (i + 1), q))"
| "rq_next (RQ_Write tc i) q = (RQ_Publish tc i, q\<lparr>rq_cache := (rq_cache q)[i := Some tc]\<rparr>)"
| "rq_next (RQ_Publish tc i) q = (RQ_Add, q\<lparr>rq_state := (rq_state q)[i := Slot_Ready], rq_in := tc # rq_in q\<rparr>)"
| "rq_next RQ_Add q = (RQ_Idle, q\<lparr>rq_count := add_w 64 (rq_count q) 1\<rparr>)"
| "rq_next (RQ_Flush tc) q = (RQ_Idle, q)"
| "rq_next RQ_Load q = (if rq_count q = 0 then RQ_Took None else RQ_Take_Scan 0, q)"
| "rq_next (RQ_Take_Scan i) q =
     (if RETIRED_SLOT_COUNT \<le> i then (RQ_Took None, q)
      else if rq_state q ! i = Slot_Ready then (RQ_Read i, q\<lparr>rq_state := (rq_state q)[i := Slot_Taking]\<rparr>)
      else (RQ_Take_Scan (i + 1), q))"
| "rq_next (RQ_Read i) q = (RQ_Release (rq_cache q ! i) i, q)"
| "rq_next (RQ_Release x i) q = (RQ_Sub x, q\<lparr>rq_state := (rq_state q)[i := Slot_Empty], rq_out := x # rq_out q\<rparr>)"
| "rq_next (RQ_Sub x) q = (RQ_Took x, q\<lparr>rq_count := sub_w 64 (rq_count q) 1\<rparr>)"
| "rq_next (RQ_Took x) q = (RQ_Idle, q)"

type_synonym rq_sys = "retired_queue \<times> (nat \<Rightarrow> rq_pc)"

text \<open>A thread that is idle may retire its cache or look for one; any other takes its next step.\<close>

datatype rq_call = Retire thread_cache | Take | Step

fun rq_do :: "nat \<Rightarrow> rq_call \<Rightarrow> rq_sys \<Rightarrow> rq_sys" where
  "rq_do t (Retire tc) (q, pc) = (q, pc(t := if pc t = RQ_Idle then RQ_Retire tc else pc t))"
| "rq_do t Take (q, pc) = (q, pc(t := if pc t = RQ_Idle then RQ_Load else pc t))"
| "rq_do t Step (q, pc) = (let (p', q') = rq_next (pc t) q in (q', pc(t := p')))"

inductive rq_run :: "rq_sys \<Rightarrow> bool" where
  rq_start: "rq_run (rq_new, \<lambda>_. RQ_Idle)"
| rq_step: "rq_run s \<Longrightarrow> rq_run (rq_do t x s)"

section \<open>The invariant\<close>

text \<open>The slot a thread has claimed, and what it may rely on there.\<close>

fun claims_slot :: "rq_pc \<Rightarrow> nat option" where
  "claims_slot (RQ_Write tc i) = Some i"
| "claims_slot (RQ_Publish tc i) = Some i"
| "claims_slot (RQ_Read i) = Some i"
| "claims_slot (RQ_Release x i) = Some i"
| "claims_slot _ = None"

fun claim_ok :: "retired_queue \<Rightarrow> rq_pc \<Rightarrow> bool" where
  "claim_ok q (RQ_Write tc i) \<longleftrightarrow> i < RETIRED_SLOT_COUNT \<and> rq_state q ! i = Slot_Writing"
| "claim_ok q (RQ_Publish tc i) \<longleftrightarrow> i < RETIRED_SLOT_COUNT \<and> rq_state q ! i = Slot_Writing \<and> rq_cache q ! i = Some tc"
| "claim_ok q (RQ_Read i) \<longleftrightarrow> i < RETIRED_SLOT_COUNT \<and> rq_state q ! i = Slot_Taking"
| "claim_ok q (RQ_Release x i) \<longleftrightarrow> i < RETIRED_SLOT_COUNT \<and> rq_state q ! i = Slot_Taking \<and> rq_cache q ! i = x"
| "claim_ok q (RQ_Sub x) \<longleftrightarrow> x \<noteq> None"
| "claim_ok q _ \<longleftrightarrow> True"

definition full_slot :: "slot_state \<Rightarrow> bool" where
  "full_slot x \<longleftrightarrow> x = Slot_Ready \<or> x = Slot_Taking"

definition slot_content :: "retired_queue \<Rightarrow> nat \<Rightarrow> thread_cache option multiset" where
  "slot_content q i = (if full_slot (rq_state q ! i) then {#rq_cache q ! i#} else {#})"

text \<open>The caches in the slots, those still being read included.\<close>

definition parked_caches :: "retired_queue \<Rightarrow> thread_cache option multiset" where
  "parked_caches q = (\<Sum>i<RETIRED_SLOT_COUNT. slot_content q i)"

definition rq_inv :: "rq_sys \<Rightarrow> bool" where
  "rq_inv s \<longleftrightarrow> (let (q, pc) = s in
     length (rq_state q) = RETIRED_SLOT_COUNT \<and> length (rq_cache q) = RETIRED_SLOT_COUNT
     \<and> (\<forall>t. claim_ok q (pc t))
     \<and> (\<forall>t u i. t \<noteq> u \<longrightarrow> claims_slot (pc t) = Some i \<longrightarrow> claims_slot (pc u) \<noteq> Some i)
     \<and> (\<forall>i<RETIRED_SLOT_COUNT. full_slot (rq_state q ! i) \<longrightarrow> rq_cache q ! i \<noteq> None)
     \<and> mset (map Some (rq_in q)) = mset (rq_out q) + parked_caches q)"

text \<open>A claim survives what another thread does to a slot it has not claimed.\<close>

lemma claim_ok_frame:
  assumes "claim_ok q p" "\<And>i. claims_slot p = Some i \<Longrightarrow> rq_state q' ! i = rq_state q ! i \<and> rq_cache q' ! i = rq_cache q ! i"
  shows "claim_ok q' p"
  using assms by (cases p) auto

lemma parked_update:
  assumes "i < RETIRED_SLOT_COUNT" "\<And>j. j \<noteq> i \<Longrightarrow> slot_content q' j = slot_content q j"
  shows "parked_caches q' + slot_content q i = parked_caches q + slot_content q' i"
proof -
  have split: "parked_caches r = slot_content r i + (\<Sum>j \<in> {..<RETIRED_SLOT_COUNT} - {i}. slot_content r j)" for r
    unfolding parked_caches_def by (rule sum.remove) (use assms(1) in auto)
  have "(\<Sum>j \<in> {..<RETIRED_SLOT_COUNT} - {i}. slot_content q' j) = (\<Sum>j \<in> {..<RETIRED_SLOT_COUNT} - {i}. slot_content q j)"
    by (rule sum.cong) (use assms(2) in auto)
  then show ?thesis using split [of q] split [of q'] by (simp add: ac_simps)
qed

text \<open>The shape of every step: it touches the slot it claims, and no claim of another thread changes hands.\<close>

lemma rq_inv_step:
  assumes inv: "rq_inv (q, pc)"
    and len: "length (rq_state q') = RETIRED_SLOT_COUNT" "length (rq_cache q') = RETIRED_SLOT_COUNT"
    and i: "i < RETIRED_SLOT_COUNT" "\<And>j. j \<noteq> i \<Longrightarrow> rq_state q' ! j = rq_state q ! j \<and> rq_cache q' ! j = rq_cache q ! j"
    and alone: "\<And>u. u \<noteq> t \<Longrightarrow> claims_slot (pc u) \<noteq> Some i"
    and p: "claim_ok q' p" "claims_slot p = None \<or> claims_slot p = Some i"
    and full: "full_slot (rq_state q' ! i) \<Longrightarrow> rq_cache q' ! i \<noteq> None"
    and content: "mset (map Some (rq_in q')) + mset (rq_out q) + slot_content q i
      = mset (map Some (rq_in q)) + mset (rq_out q') + slot_content q' i"
  shows "rq_inv (q', pc(t := p))"
proof -
  have "claim_ok q' ((pc(t := p)) u)" for u
  proof (cases "u = t")
    case False
    have "claim_ok q (pc u)" using inv by (simp add: rq_inv_def)
    then show ?thesis using False i(2) alone [OF False] by (auto intro!: claim_ok_frame [of q "pc u"])
  qed (use p in simp)
  moreover have "\<forall>u v j. u \<noteq> v \<longrightarrow> claims_slot ((pc(t := p)) u) = Some j \<longrightarrow> claims_slot ((pc(t := p)) v) \<noteq> Some j"
    using inv alone p(2) by (auto simp: rq_inv_def)
  moreover have "\<forall>j<RETIRED_SLOT_COUNT. full_slot (rq_state q' ! j) \<longrightarrow> rq_cache q' ! j \<noteq> None"
    using inv i(2) full by (metis (mono_tags, lifting) rq_inv_def case_prod_conv)
  moreover have "mset (map Some (rq_in q')) = mset (rq_out q') + parked_caches q'"
  proof -
    have "parked_caches q' + slot_content q i = parked_caches q + slot_content q' i"
      by (rule parked_update [OF i(1)]) (use i(2) in \<open>auto simp: slot_content_def\<close>)
    moreover have "mset (map Some (rq_in q)) = mset (rq_out q) + parked_caches q" using inv by (simp add: rq_inv_def)
    ultimately have "mset (map Some (rq_in q')) + (mset (rq_out q) + slot_content q i)
        = (mset (rq_out q') + parked_caches q') + (mset (rq_out q) + slot_content q i)"
      using content by (metis (no_types, lifting) add.assoc add.commute)
    then show ?thesis by simp
  qed
  ultimately show ?thesis using len by (simp add: rq_inv_def)
qed


text \<open>A step that touches no slot keeps the claim the thread has, if any.\<close>

lemma rq_inv_local:
  assumes inv: "rq_inv (q, pc)"
    and same: "rq_state q' = rq_state q" "rq_cache q' = rq_cache q" "rq_in q' = rq_in q" "rq_out q' = rq_out q"
    and p: "claim_ok q p" "claims_slot p = None \<or> claims_slot p = claims_slot (pc t)"
  shows "rq_inv (q', pc(t := p))"
proof -
  have c: "claim_ok q' r = claim_ok q r" for r by (cases r) (simp_all add: same)
  have "parked_caches q' = parked_caches q" unfolding parked_caches_def slot_content_def same ..
  moreover have "\<forall>u v j. u \<noteq> v \<longrightarrow> claims_slot ((pc(t := p)) u) = Some j \<longrightarrow> claims_slot ((pc(t := p)) v) \<noteq> Some j"
  proof -
    have "claims_slot ((pc(t := p)) u) = Some j \<Longrightarrow> claims_slot (pc u) = Some j" for u j using p(2) by (auto split: if_splits)
    then show ?thesis using inv unfolding rq_inv_def Let_def case_prod_conv by blast
  qed
  ultimately show ?thesis using inv p(1) by (simp add: rq_inv_def c same)
qed

lemma rq_inv_claim:
  assumes "rq_inv (q, pc)"
  shows "claim_ok q (pc t)" "length (rq_state q) = RETIRED_SLOT_COUNT" "length (rq_cache q) = RETIRED_SLOT_COUNT"
    "claims_slot (pc t) = Some i \<Longrightarrow> u \<noteq> t \<Longrightarrow> claims_slot (pc u) \<noteq> Some i"
    "i < RETIRED_SLOT_COUNT \<Longrightarrow> full_slot (rq_state q ! i) \<Longrightarrow> rq_cache q ! i \<noteq> None"
  using assms by (auto simp: rq_inv_def)

text \<open>A slot nobody is writing or taking is claimed by nobody.\<close>

lemma unclaimed:
  assumes "rq_inv (q, pc)" "rq_state q ! i = Slot_Empty \<or> rq_state q ! i = Slot_Ready"
  shows "claims_slot (pc u) \<noteq> Some i"
  using rq_inv_claim(1) [OF assms(1), of u] assms(2) by (cases "pc u") auto

lemma rq_next_ok:
  assumes inv: "rq_inv (q, pc)" and n: "rq_next (pc t) q = (p', q')"
  shows "rq_inv (q', pc(t := p'))"
proof -
  note c = rq_inv_claim(1) [OF inv, of t] and l = rq_inv_claim(2,3) [OF inv] and f = rq_inv_claim(5) [OF inv]
  note alone = rq_inv_claim(4) [OF inv, of t] and free = unclaimed [OF inv]
  note local = rq_inv_local [OF inv, where t = t and p = p' and q' = q']
  show ?thesis
  proof (cases "pc t")
    case (RQ_Put_Scan tc i)
    show ?thesis
    proof (cases "i < RETIRED_SLOT_COUNT \<and> rq_state q ! i = Slot_Empty")
      case True
      then show ?thesis using n RQ_Put_Scan l
        by (intro rq_inv_step [OF inv, where i = i]) (use free [of i] in \<open>auto simp: slot_content_def full_slot_def\<close>)
    next
      case False
      then show ?thesis using n RQ_Put_Scan by (intro local) (auto split: if_splits)
    qed
  next
    case (RQ_Take_Scan i)
    show ?thesis
    proof (cases "i < RETIRED_SLOT_COUNT \<and> rq_state q ! i = Slot_Ready")
      case True
      then show ?thesis using n RQ_Take_Scan l f [of i]
        by (intro rq_inv_step [OF inv, where i = i]) (use free [of i] in \<open>auto simp: slot_content_def full_slot_def\<close>)
    next
      case False
      then show ?thesis using n RQ_Take_Scan by (intro local) (auto split: if_splits)
    qed
  next
    case (RQ_Write tc i)
    then show ?thesis using n c l alone [of i]
      by (intro rq_inv_step [OF inv, where i = i]) (auto simp: slot_content_def full_slot_def)
  next
    case (RQ_Publish tc i)
    then show ?thesis using n c l alone [of i]
      by (intro rq_inv_step [OF inv, where i = i]) (auto simp: slot_content_def full_slot_def)
  next
    case (RQ_Release x i)
    then have "x \<noteq> None" using c f [of i] by (simp add: full_slot_def)
    then show ?thesis using n RQ_Release c l alone [of i]
      by (intro rq_inv_step [OF inv, where i = i]) (auto simp: slot_content_def full_slot_def)
  qed ((use n c in \<open>(intro local; auto split: if_splits)\<close>)+)
qed

lemma rq_run_inv: "rq_run s \<Longrightarrow> rq_inv s"
proof (induction rule: rq_run.induct)
  case rq_start
  show ?case by (simp add: rq_inv_def rq_new_def parked_caches_def slot_content_def full_slot_def)
next
  case (rq_step s t x)
  obtain q pc where s: "s = (q, pc)" by fastforce
  show ?case
  proof (cases x)
    case Step
    then show ?thesis using rq_next_ok [of q pc t] rq_step.IH by (simp add: s split: prod.split)
  qed (use rq_inv_local [of q pc q _ t] rq_inv_claim(1) [of q pc t] rq_step.IH in \<open>auto simp: s\<close>)
qed

text \<open>C21 (retired caches).  Under any interleaving of threads that retire their caches and threads that adopt
  one, two threads never work on the same slot, what a taker gets was written, and the caches published are
  exactly those taken and those still parked: none is lost and none is adopted twice.\<close>

theorem retired_slots_correct:
  assumes "rq_run (q, pc)"
  shows "(t \<noteq> u \<and> claims_slot (pc t) = Some i \<longrightarrow> claims_slot (pc u) \<noteq> Some i)
    \<and> (pc t = RQ_Sub x \<longrightarrow> x \<noteq> None) \<and> mset (map Some (rq_in q)) = mset (rq_out q) + parked_caches q"
proof -
  have "pc t = RQ_Sub x \<Longrightarrow> x \<noteq> None" using rq_inv_claim(1) [OF rq_run_inv [OF assms], of t] by simp
  then show ?thesis using rq_run_inv [OF assms] by (auto simp: rq_inv_def)
qed

section \<open>Two concrete runs\<close>

fun rq_sched :: "(nat \<times> rq_call) list \<Rightarrow> rq_sys \<Rightarrow> rq_sys" where
  "rq_sched [] s = s"
| "rq_sched ((t, x) # xs) s = rq_sched xs (rq_do t x s)"

lemma rq_sched_run: "rq_run s \<Longrightarrow> rq_run (rq_sched xs s)"
  by (induction xs s rule: rq_sched.induct) (auto intro: rq_step)

definition small_cache :: thread_cache where
  "small_cache = thread_cache_new\<lparr>cached_bytes := 16\<rparr>"

definition handover :: rq_sys where
  "handover = rq_sched ([(0, Retire small_cache)] @ replicate 5 (0, Step) @ [(1, Take)] @ replicate 4 (1, Step)) (rq_new, \<lambda>_. RQ_Idle)"

lemma handover_run: "rq_run (fst handover, snd handover)"
  unfolding handover_def prod.collapse by (rule rq_sched_run [OF rq_start])

text \<open>The counter lags behind the slots: two caches published with one counted, and two takers that have both
  read the counter, leave it at \<open>2 ^ 64 - 1\<close> until the second count arrives.\<close>

definition wrap_schedule :: "(nat \<times> rq_call) list" where
  "wrap_schedule = [(0, Retire small_cache)] @ replicate 5 (0, Step) @ [(1, Retire small_cache)] @ replicate 5 (1, Step)
     @ [(2, Take), (3, Take), (2, Step), (3, Step)] @ replicate 4 (2, Step) @ replicate 5 (3, Step)"

lemma ready_count_wraps: "rq_count (fst (rq_sched wrap_schedule (rq_new, \<lambda>_. RQ_Idle))) = 2 ^ 64 - 1"
  by (simp add: wrap_schedule_def table_simps rq_new_def const_simps retired_bytes_def small_cache_def thread_cache_new_def stash_new_def
      add_w_def sub_w_def)


theorem retired_slots_correct_witness:
  "mset (map Some (rq_in (fst handover))) = mset (rq_out (fst handover)) + parked_caches (fst handover)
    \<and> rq_out (fst handover) = [Some small_cache] \<and> snd handover 1 = RQ_Sub (Some small_cache)"
proof -
  have "rq_out (fst handover) = [Some small_cache] \<and> snd handover 1 = RQ_Sub (Some small_cache)"
    by (simp add: handover_def table_simps rq_new_def const_simps retired_bytes_def small_cache_def thread_cache_new_def stash_new_def
      add_w_def)
  then show ?thesis using retired_slots_correct [OF handover_run] by blast
qed

end
