(* ===== verification/Raw_Mutex.thy ===== *)
theory Raw_Mutex
  imports Prelude
begin

text \<open>
  The two raw mutexes of \<open>src/src/sys\<close> as step relations over any number of threads (numbered):

  \<^item> the pthread one of \<open>sys/unix.rs\<close>, whose first use initialises the mutex under a process-wide guard
    (double-checked); \<open>pthread_mutex_lock\<close> itself is the documented primitive: it returns only to a thread
    that then is the one owner;
  \<^item> the spin one of \<open>sys/mod.rs\<close>: exchange, bounded spinning on a plain load, yield, again.

  Every atomic access of the source is one step; a failed exchange is a step as well.
\<close>

section \<open>The pthread mutex\<close>

datatype pm_pc = PM_Idle | PM_Spin | PM_Recheck | PM_Init | PM_Store | PM_Unguard | PM_Ready | PM_Holding

text \<open>\<open>pm_guard\<close> is \<open>INIT_GUARD\<close>, which all mutexes of the process share: \<open>pm_other\<close> tells that another
  mutex's initialisation holds it.  \<open>pm_inits\<close> counts the calls of \<open>pthread_mutex_init\<close> on this mutex.\<close>

record pmutex =
  pm_inited :: bool
  pm_guard :: bool
  pm_other :: bool
  pm_inits :: nat
  pm_owner :: "nat option"
  pm_pc :: "nat \<Rightarrow> pm_pc"

definition pm_new :: pmutex where
  "pm_new = \<lparr> pm_inited = False, pm_guard = False, pm_other = False, pm_inits = 0, pm_owner = None, pm_pc = (\<lambda>_. PM_Idle) \<rparr>"

definition pm_goto :: "nat \<Rightarrow> pm_pc \<Rightarrow> pmutex \<Rightarrow> pmutex" where
  "pm_goto t c m = m\<lparr>pm_pc := (pm_pc m)(t := c)\<rparr>"

inductive pm_step :: "pmutex \<Rightarrow> pmutex \<Rightarrow> bool" where
  pm_check: "pm_pc m t = PM_Idle \<Longrightarrow> pm_step m (pm_goto t (if pm_inited m then PM_Ready else PM_Spin) m)"
| pm_swap: "pm_pc m t = PM_Spin \<Longrightarrow> \<not> pm_guard m \<Longrightarrow> pm_step m (pm_goto t PM_Recheck (m\<lparr>pm_guard := True\<rparr>))"
| pm_swap_held: "pm_pc m t = PM_Spin \<Longrightarrow> pm_guard m \<Longrightarrow> pm_step m m"
| pm_recheck: "pm_pc m t = PM_Recheck \<Longrightarrow> pm_step m (pm_goto t (if pm_inited m then PM_Unguard else PM_Init) m)"
| pm_init: "pm_pc m t = PM_Init \<Longrightarrow> pm_step m (pm_goto t PM_Store (m\<lparr>pm_inits := pm_inits m + 1\<rparr>))"
| pm_store: "pm_pc m t = PM_Store \<Longrightarrow> pm_step m (pm_goto t PM_Unguard (m\<lparr>pm_inited := True\<rparr>))"
| pm_unguard: "pm_pc m t = PM_Unguard \<Longrightarrow> pm_step m (pm_goto t PM_Ready (m\<lparr>pm_guard := False\<rparr>))"
| pm_lock: "pm_pc m t = PM_Ready \<Longrightarrow> pm_owner m = None \<Longrightarrow> pm_step m (pm_goto t PM_Holding (m\<lparr>pm_owner := Some t\<rparr>))"
| pm_unlock: "pm_pc m t = PM_Holding \<Longrightarrow> pm_step m (pm_goto t PM_Idle (m\<lparr>pm_owner := None\<rparr>))"
| pm_other_takes: "\<not> pm_guard m \<Longrightarrow> pm_step m (m\<lparr>pm_guard := True, pm_other := True\<rparr>)"
| pm_other_leaves: "pm_other m \<Longrightarrow> pm_step m (m\<lparr>pm_guard := False, pm_other := False\<rparr>)"

text \<open>The program points at which a thread holds the guard, and those that only an initialised mutex has.\<close>

definition guarded :: "pm_pc \<Rightarrow> bool" where
  "guarded c = (case c of PM_Recheck \<Rightarrow> True | PM_Init \<Rightarrow> True | PM_Store \<Rightarrow> True | PM_Unguard \<Rightarrow> True | _ \<Rightarrow> False)"

definition needs_init :: "pm_pc \<Rightarrow> bool" where
  "needs_init c = (case c of PM_Unguard \<Rightarrow> True | PM_Ready \<Rightarrow> True | PM_Holding \<Rightarrow> True | _ \<Rightarrow> False)"

definition initing :: "pm_pc \<Rightarrow> bool" where
  "initing c = (case c of PM_Init \<Rightarrow> True | PM_Store \<Rightarrow> True | _ \<Rightarrow> False)"

lemma pc_simps [simp]:
  "\<not> guarded PM_Idle" "\<not> guarded PM_Spin" "guarded PM_Recheck" "guarded PM_Init" "guarded PM_Store" "guarded PM_Unguard"
  "\<not> guarded PM_Ready" "\<not> guarded PM_Holding"
  "\<not> needs_init PM_Idle" "\<not> needs_init PM_Spin" "\<not> needs_init PM_Recheck" "\<not> needs_init PM_Init" "\<not> needs_init PM_Store"
  "needs_init PM_Unguard" "needs_init PM_Ready" "needs_init PM_Holding"
  "\<not> initing PM_Idle" "\<not> initing PM_Spin" "\<not> initing PM_Recheck" "initing PM_Init" "initing PM_Store"
  "\<not> initing PM_Unguard" "\<not> initing PM_Ready" "\<not> initing PM_Holding"
  by (simp_all add: guarded_def needs_init_def initing_def)

lemma initing_guarded: "initing c \<Longrightarrow> guarded c"
  by (cases c) simp_all

text \<open>The guard: whoever is at a guarded point holds it, alone.\<close>

definition guard_ok :: "pmutex \<Rightarrow> bool" where
  "guard_ok m \<longleftrightarrow> (pm_other m \<longrightarrow> pm_guard m)
     \<and> (\<forall>t. guarded (pm_pc m t) \<longrightarrow> pm_guard m \<and> \<not> pm_other m)
     \<and> (\<forall>t u. guarded (pm_pc m t) \<longrightarrow> guarded (pm_pc m u) \<longrightarrow> t = u)"

text \<open>The initialisation: done before anyone passes it, counted once.\<close>

definition storing :: "pmutex \<Rightarrow> bool" where
  "storing m \<longleftrightarrow> (\<exists>t. pm_pc m t = PM_Store)"

definition init_ok :: "pmutex \<Rightarrow> bool" where
  "init_ok m \<longleftrightarrow> (\<forall>t. needs_init (pm_pc m t) \<longrightarrow> pm_inited m) \<and> (\<forall>t. initing (pm_pc m t) \<longrightarrow> \<not> pm_inited m)
     \<and> pm_inits m = (if pm_inited m \<or> storing m then 1 else 0)"

definition owner_ok :: "pmutex \<Rightarrow> bool" where
  "owner_ok m \<longleftrightarrow> (\<forall>t. pm_pc m t = PM_Holding \<longleftrightarrow> pm_owner m = Some t)"

definition pm_ok :: "pmutex \<Rightarrow> bool" where
  "pm_ok m \<longleftrightarrow> guard_ok m \<and> init_ok m \<and> owner_ok m"

lemma pm_ok_new: "pm_ok pm_new"
  by (simp add: pm_ok_def pm_new_def guard_ok_def init_ok_def storing_def owner_ok_def)

text \<open>Moves that neither take nor leave the guard or the mutex.\<close>

lemma guard_ok_goto:
  assumes "guard_ok m" "guarded c = guarded (pm_pc m t)" "pm_guard m' = pm_guard m" "pm_other m' = pm_other m" "pm_pc m' = pm_pc m"
  shows "guard_ok (pm_goto t c m')"
proof -
  have "guarded (pm_pc (pm_goto t c m') u) = guarded (pm_pc m u)" for u using assms(2,5) by (simp add: pm_goto_def)
  then show ?thesis using assms(1,3,4) by (simp add: guard_ok_def) (simp add: pm_goto_def)
qed

lemma owner_ok_goto:
  assumes "owner_ok m" "pm_pc m t \<noteq> PM_Holding" "c \<noteq> PM_Holding" "pm_owner m' = pm_owner m" "pm_pc m' = pm_pc m"
  shows "owner_ok (pm_goto t c m')"
proof -
  have "(pm_pc (pm_goto t c m') u = PM_Holding) = (pm_pc m u = PM_Holding)" for u using assms(2,3,5) by (simp add: pm_goto_def)
  then show ?thesis using assms(1,4) by (simp add: owner_ok_def) (simp add: pm_goto_def)
qed

lemma guard_ok_step: "pm_step m m' \<Longrightarrow> guard_ok m \<Longrightarrow> guard_ok m'"
proof (induction rule: pm_step.induct)
  case (pm_swap m t)
  then show ?case by (auto simp: guard_ok_def pm_goto_def split: if_splits)
next
  case (pm_unguard m t)
  then have "guarded (pm_pc m t)" by simp
  then have "\<not> pm_other m" "\<And>u. u \<noteq> t \<Longrightarrow> \<not> guarded (pm_pc m u)" using pm_unguard(2) by (auto simp: guard_ok_def)
  then show ?case by (auto simp: guard_ok_def pm_goto_def split: if_splits)
next
  case (pm_other_leaves m)
  then show ?case by (auto simp: guard_ok_def)
next
  case (pm_other_takes m)
  then show ?case by (auto simp: guard_ok_def)
qed (assumption | (rule guard_ok_goto, assumption); simp split: if_splits)+

lemma owner_ok_step: "pm_step m m' \<Longrightarrow> owner_ok m \<Longrightarrow> owner_ok m'"
proof (induction rule: pm_step.induct)
  case (pm_lock m t)
  then show ?case by (auto simp: owner_ok_def pm_goto_def split: if_splits)
next
  case (pm_unlock m t)
  then show ?case by (auto simp: owner_ok_def pm_goto_def split: if_splits)
next
  case (pm_other_takes m)
  then show ?case by (simp add: owner_ok_def)
next
  case (pm_other_leaves m)
  then show ?case by (simp add: owner_ok_def)
qed (assumption | (rule owner_ok_goto, assumption); simp split: if_splits)+

lemma init_ok_goto:
  assumes "init_ok m" "needs_init c \<Longrightarrow> pm_inited m" "initing c \<Longrightarrow> \<not> pm_inited m" "(c = PM_Store) = (pm_pc m t = PM_Store)"
    "pm_inited m' = pm_inited m" "pm_inits m' = pm_inits m" "pm_pc m' = pm_pc m"
  shows "init_ok (pm_goto t c m')"
proof -
  have pc: "pm_pc (pm_goto t c m') u = (if u = t then c else pm_pc m u)" for u using assms(7) by (simp add: pm_goto_def)
  have "(pm_pc (pm_goto t c m') u = PM_Store) = (pm_pc m u = PM_Store)" for u using assms(4) by (simp add: pc)
  then have "storing (pm_goto t c m') = storing m" by (simp add: storing_def)
  moreover have "pm_inited (pm_goto t c m') = pm_inited m" "pm_inits (pm_goto t c m') = pm_inits m"
    using assms(5,6) by (simp_all add: pm_goto_def)
  ultimately show ?thesis using assms(1-3) unfolding init_ok_def pc by auto
qed

lemma alone_guarded:
  "guard_ok m \<Longrightarrow> guarded (pm_pc m t) \<Longrightarrow> u \<noteq> t \<Longrightarrow> \<not> initing (pm_pc m u) \<and> pm_pc m u \<noteq> PM_Store"
  unfolding guard_ok_def by (metis initing_guarded pc_simps(5))

lemma init_ok_step: "pm_step m m' \<Longrightarrow> guard_ok m \<Longrightarrow> init_ok m \<Longrightarrow> init_ok m'"
proof (induction rule: pm_step.induct)
  case (pm_store m t)
  have "storing m" using pm_store(1) by (auto simp: storing_def)
  then have "pm_inits m = 1" using pm_store(3) by (simp add: init_ok_def)
  moreover have "\<not> initing (pm_pc m u)" if "u \<noteq> t" for u using alone_guarded [OF pm_store(2) _ that] pm_store(1) by simp
  ultimately show ?case by (simp add: init_ok_def pm_goto_def)
next
  case (pm_init m t)
  have ni: "\<not> pm_inited m" using pm_init(1,3) by (metis init_ok_def pc_simps(20))
  have "pm_pc m u \<noteq> PM_Store" for u
    using alone_guarded [OF pm_init(2), of t u] pm_init(1) by (cases "u = t") simp_all
  then have "\<not> storing m" by (simp add: storing_def)
  then have "pm_inits m = 0" using pm_init(3) ni by (simp add: init_ok_def)
  moreover have "storing (pm_goto t PM_Store (m\<lparr>pm_inits := pm_inits m + 1\<rparr>))" by (auto simp: storing_def pm_goto_def)
  moreover have "\<not> needs_init (pm_pc m u)" for u using pm_init(3) ni by (auto simp: init_ok_def)
  ultimately show ?case using ni by (simp add: init_ok_def) (simp add: pm_goto_def)
next
  case (pm_unguard m t)
  then have "pm_inited m" by (metis init_ok_def pc_simps(14))
  with pm_unguard show ?case by (intro init_ok_goto) simp_all
next
  case (pm_lock m t)
  then have "pm_inited m" by (metis init_ok_def pc_simps(15))
  with pm_lock show ?case by (intro init_ok_goto) simp_all
next
  case (pm_other_takes m)
  then show ?case by (simp add: init_ok_def storing_def)
next
  case (pm_other_leaves m)
  then show ?case by (simp add: init_ok_def storing_def)
qed (assumption | (rule init_ok_goto, assumption); simp split: if_splits)+

lemma pm_ok_steps: "pm_step\<^sup>*\<^sup>* m m' \<Longrightarrow> pm_ok m \<Longrightarrow> pm_ok m'"
  by (induction rule: rtranclp_induct) (auto simp: pm_ok_def intro: guard_ok_step init_ok_step owner_ok_step)

text \<open>C34 (safety).  Whatever threads race for the first use, and whatever other mutexes do with the shared
  guard: the mutex is initialised at most once, before any thread locks it, no thread is inside while
  it is being initialised, and at most one thread holds it.\<close>
theorem pmutex_correct:
  assumes "pm_step\<^sup>*\<^sup>* pm_new m"
  shows "pm_inits m \<le> 1 \<and> (pm_pc m t = PM_Holding \<longrightarrow> pm_inited m \<and> pm_inits m = 1)
    \<and> (pm_pc m t = PM_Holding \<longrightarrow> pm_pc m u = PM_Holding \<longrightarrow> t = u)
    \<and> (pm_pc m t = PM_Holding \<longrightarrow> pm_pc m u \<noteq> PM_Init \<and> pm_pc m u \<noteq> PM_Store)"
proof -
  have ok: "guard_ok m" "init_ok m" "owner_ok m"
    using pm_ok_steps [OF assms pm_ok_new] by (auto simp: pm_ok_def)
  have i: "pm_pc m t = PM_Holding \<Longrightarrow> pm_inited m" using ok(2) by (metis init_ok_def pc_simps(16))
  have n: "pm_inited m \<Longrightarrow> pm_pc m u \<noteq> PM_Init \<and> pm_pc m u \<noteq> PM_Store"
    using ok(2) by (metis init_ok_def pc_simps(20,21))
  have o: "pm_pc m t = PM_Holding \<Longrightarrow> pm_pc m u = PM_Holding \<Longrightarrow> t = u"
    using ok(3) by (simp add: owner_ok_def)
  show ?thesis using ok(2) i n o by (auto simp: init_ok_def)
qed

definition pm_demo :: pmutex where
  "pm_demo = \<lparr> pm_inited = True, pm_guard = False, pm_other = False, pm_inits = 1, pm_owner = Some 0,
     pm_pc = (\<lambda>_. PM_Idle)(0 := PM_Holding) \<rparr>"

lemma pm_demo_run: "pm_step\<^sup>*\<^sup>* pm_new pm_demo"
proof -
  let ?at = "\<lambda>c m. m\<lparr>pm_pc := (\<lambda>_. PM_Idle)(0 := c)\<rparr>"
  define m1 where "m1 = ?at PM_Spin pm_new"
  define m2 where "m2 = ?at PM_Recheck (pm_new\<lparr>pm_guard := True\<rparr>)"
  define m3 where "m3 = ?at PM_Init (pm_new\<lparr>pm_guard := True\<rparr>)"
  define m4 where "m4 = ?at PM_Store (pm_new\<lparr>pm_guard := True, pm_inits := 1\<rparr>)"
  define m5 where "m5 = ?at PM_Unguard (pm_new\<lparr>pm_guard := True, pm_inits := 1, pm_inited := True\<rparr>)"
  define m6 where "m6 = ?at PM_Ready (pm_new\<lparr>pm_inits := 1, pm_inited := True\<rparr>)"
  note defs = m1_def m2_def m3_def m4_def m5_def m6_def pm_goto_def pm_new_def pm_demo_def
  have "pm_step pm_new m1" using pm_step.pm_check [of pm_new 0] by (simp add: defs)
  moreover have "pm_step m1 m2" using pm_step.pm_swap [of m1 0] by (simp add: defs)
  moreover have "pm_step m2 m3" using pm_step.pm_recheck [of m2 0] by (simp add: defs)
  moreover have "pm_step m3 m4" using pm_step.pm_init [of m3 0] by (simp add: defs)
  moreover have "pm_step m4 m5" using pm_step.pm_store [of m4 0] by (simp add: defs)
  moreover have "pm_step m5 m6" using pm_step.pm_unguard [of m5 0] by (simp add: defs)
  moreover have "pm_step m6 pm_demo" using pm_step.pm_lock [of m6 0] by (simp add: defs)
  ultimately show ?thesis by (meson r_into_rtranclp rtranclp_trans)
qed

theorem pmutex_correct_witness: "pm_inits pm_demo = 1 \<and> pm_pc pm_demo 1 \<noteq> PM_Init"
  using pmutex_correct [OF pm_demo_run, of 0 1] by (simp add: pm_demo_def)

section \<open>The spin mutex\<close>

text \<open>The states of one thread in \<open>lock\<close>: about to exchange, in the bounded inner loop (with its counter), at
  the check after it, and holding.\<close>

datatype sp_pc = SP_Out | SP_Swap nat | SP_Inner nat | SP_After nat | SP_Holding

record spinlock =
  sp_locked :: bool
  sp_pc :: "nat \<Rightarrow> sp_pc"

definition sp_new :: spinlock where "sp_new = \<lparr> sp_locked = False, sp_pc = (\<lambda>_. SP_Out) \<rparr>"

definition SPIN_LIMIT :: nat where "SPIN_LIMIT = 64"

text \<open>What one access of a thread does, given the value of the flag it reads: its next state and the value it
  leaves in the flag.\<close>

fun sp_access :: "sp_pc \<Rightarrow> bool \<Rightarrow> sp_pc \<times> bool" where
  "sp_access SP_Out l = (SP_Swap 0, l)"
| "sp_access (SP_Swap spins) l = (if \<not> l then SP_Holding else SP_Inner spins, True)"
| "sp_access (SP_Inner spins) l = (if l \<and> spins < SPIN_LIMIT then SP_Inner (spins + 1) else SP_After spins, l)"
| "sp_access (SP_After spins) l = (SP_Swap (if l then 0 else spins), l)"
| "sp_access SP_Holding l = (SP_Out, False)"

definition sp_run :: "nat \<Rightarrow> spinlock \<Rightarrow> spinlock" where
  "sp_run t m = (case sp_access (sp_pc m t) (sp_locked m) of (c, l) \<Rightarrow> m\<lparr>sp_locked := l, sp_pc := (sp_pc m)(t := c)\<rparr>)"

text \<open>A schedule is a list of thread numbers: one access each.\<close>

definition sp_schedule :: "nat list \<Rightarrow> spinlock \<Rightarrow> spinlock" where
  "sp_schedule ts m = fold sp_run ts m"

fun spins_of :: "sp_pc \<Rightarrow> nat" where
  "spins_of (SP_Swap n) = n" | "spins_of (SP_Inner n) = n" | "spins_of (SP_After n) = n" | "spins_of _ = 0"

definition sp_ok :: "spinlock \<Rightarrow> bool" where
  "sp_ok m \<longleftrightarrow> (\<forall>t. sp_pc m t = SP_Holding \<longrightarrow> sp_locked m)
     \<and> (\<forall>t u. sp_pc m t = SP_Holding \<longrightarrow> sp_pc m u = SP_Holding \<longrightarrow> t = u)
     \<and> (\<forall>t. spins_of (sp_pc m t) \<le> SPIN_LIMIT)"

lemma sp_ok_run: "sp_ok m \<Longrightarrow> sp_ok (sp_run t m)"
proof -
  assume ok: "sp_ok m"
  then have b: "spins_of (sp_pc m t) \<le> SPIN_LIMIT" by (simp add: sp_ok_def)
  have h: "\<And>u. sp_pc m t = SP_Holding \<Longrightarrow> sp_pc m u = SP_Holding \<Longrightarrow> u = t"
    and l: "\<And>u. sp_pc m u = SP_Holding \<Longrightarrow> sp_locked m" using ok by (auto simp: sp_ok_def)
  show "sp_ok (sp_run t m)"
    using ok b h l by (cases "sp_pc m t") (auto simp: sp_ok_def sp_run_def split: if_splits)
qed

lemma sp_ok_schedule: "sp_ok m \<Longrightarrow> sp_ok (sp_schedule ts m)"
  unfolding sp_schedule_def by (induction ts arbitrary: m) (auto intro: sp_ok_run)

text \<open>Alone with a free lock, a thread is in after at most three accesses of its own.\<close>

lemma sp_acquires_alone:
  assumes "\<not> sp_locked m" "sp_pc m t \<noteq> SP_Holding"
  shows "\<exists>n \<le> 3. sp_pc (sp_schedule (replicate n t) m) t = SP_Holding"
proof (cases "sp_pc m t")
  case SP_Out
  then show ?thesis using assms
    by (intro exI [of _ 2]) (simp add: sp_schedule_def sp_run_def numeral_eq_Suc)
next
  case (SP_Swap n)
  then show ?thesis using assms
    by (intro exI [of _ 1]) (simp add: sp_schedule_def sp_run_def)
next
  case (SP_Inner n)
  then show ?thesis using assms
    by (intro exI [of _ 3]) (simp add: sp_schedule_def sp_run_def numeral_eq_Suc)
next
  case (SP_After n)
  then show ?thesis using assms
    by (intro exI [of _ 2]) (simp add: sp_schedule_def sp_run_def numeral_eq_Suc)
qed (use assms in simp)

text \<open>Under every schedule of the spin mutex at most one thread is inside, the spin counter
  stays within its limit, and a thread that runs undisturbed while the lock is free is inside after at
  most three of its own accesses.\<close>
theorem spin_mutex_correct:
  "(sp_pc (sp_schedule ts sp_new) t = SP_Holding \<and> sp_pc (sp_schedule ts sp_new) u = SP_Holding \<longrightarrow> t = u)
   \<and> spins_of (sp_pc (sp_schedule ts sp_new) t) \<le> SPIN_LIMIT
   \<and> (\<not> sp_locked (sp_schedule ts sp_new) \<longrightarrow>
        (\<exists>n \<le> 3. sp_pc (sp_schedule (ts @ replicate n t) sp_new) t = SP_Holding))"
proof -
  have "sp_ok sp_new" by (simp add: sp_ok_def sp_new_def)
  then have ok: "sp_ok (sp_schedule ts sp_new)" by (rule sp_ok_schedule)
  have "\<exists>n \<le> 3. sp_pc (sp_schedule (ts @ replicate n t) sp_new) t = SP_Holding" if l: "\<not> sp_locked (sp_schedule ts sp_new)"
  proof -
    have "sp_pc (sp_schedule ts sp_new) t \<noteq> SP_Holding" using ok l by (auto simp: sp_ok_def)
    from sp_acquires_alone [OF l this] show ?thesis by (simp add: sp_schedule_def)
  qed
  then show ?thesis using ok by (auto simp: sp_ok_def)
qed

theorem spin_mutex_correct_witness:
  "sp_pc (sp_schedule [0, 0, 1, 1, 1, 0] sp_new) 1 = SP_Inner 1
   \<and> spins_of (sp_pc (sp_schedule [0, 0, 1, 1, 1, 0] sp_new) 1) \<le> SPIN_LIMIT"
  using spin_mutex_correct [of "[0, 0, 1, 1, 1, 0]" 1 0]
  by (simp add: sp_schedule_def sp_run_def sp_new_def SPIN_LIMIT_def)

end
