(* ===== verification/Cache_Flush.thy ===== *)
theory Cache_Flush
  imports Cache_Trim
begin

text \<open>
  Giving everything back (\<open>flush_bin_exit\<close>, \<open>flush_all\<close> of \<open>src/src/cache.rs\<close>): afterwards the cache holds nothing,
  every block it held is in its page or span again, and the blocks of all others are as they were.
\<close>

section \<open>A small bin at thread exit\<close>

lemma find_group_none: "find_group gs page = None \<longleftrightarrow> page \<notin> rc_page ` set gs"
proof -
  have "length (takeWhile (\<lambda>g. rc_page g \<noteq> page) gs) < length gs \<longleftrightarrow> (\<exists>g \<in> set gs. rc_page g = page)"
    by (induction gs) auto
  then show ?thesis by (auto simp: find_group_def Let_def)
qed

lemma find_group_SomeD:
  assumes "find_group gs page = Some i"
  shows "i < length gs" "rc_page (gs ! i) = page"
  using assms nth_length_takeWhile [of "\<lambda>g. rc_page g \<noteq> page" gs] by (auto simp: find_group_def Let_def split: if_splits)

text \<open>One group per page, each with its count: the first pass keeps this of the blocks it has seen.\<close>

lemma count_seen:
  assumes "groups_of gs ys" "find_group gs (page_of b) = Some i"
  shows "groups_of (gs[i := (gs ! i)\<lparr>rc_n := rc_n (gs ! i) + 1\<rparr>]) (ys @ [b])"
proof -
  let ?g = "(gs ! i)\<lparr>rc_n := rc_n (gs ! i) + 1\<rparr>"
  note i = find_group_SomeD [OF assms(2)]
  have pages: "map rc_page (gs[i := ?g]) = map rc_page gs"
    using i by (metis (no_types, lifting) list_update_id map_update nth_map page_release_chunk.select_convs(1) page_release_chunk.surjective
        page_release_chunk.update_convs(4))
  have count: "rc_n g = length (of_page (rc_page g) (ys @ [b])) \<and> 0 < rc_n g" if g: "g \<in> set (gs[i := ?g])" for g
  proof -
    obtain j where j: "j < length gs" "g = gs[i := ?g] ! j" using g by (auto simp: in_set_conv_nth)
    have n: "rc_n (gs ! j) = length (of_page (rc_page (gs ! j)) ys) \<and> 0 < rc_n (gs ! j)" using assms(1) nth_mem [OF j(1)] unfolding groups_of_def by blast
    have "rc_page (gs ! j) \<noteq> page_of b" if "j \<noteq> i"
      using that i j(1) assms(1) nth_eq_iff_index_eq [of "map rc_page gs" i j] by (auto simp: groups_of_def)
    then show ?thesis using n i j by (cases "j = i") auto
  qed
  have "page_of b \<in> rc_page ` set gs" using i(2) nth_mem [OF i(1)] by (metis imageI)
  moreover have "set (map rc_page (gs[i := ?g])) = set (map rc_page gs)" unfolding pages ..
  then have same: "rc_page ` set (gs[i := ?g]) = rc_page ` set gs" by simp
  ultimately have "\<forall>x \<in> set (ys @ [b]). page_of x \<in> rc_page ` set (gs[i := ?g])"
    using assms(1) unfolding same groups_of_def by simp
  moreover have "distinct (map rc_page (gs[i := ?g]))" using assms(1) unfolding pages groups_of_def by blast
  ultimately show ?thesis using count unfolding groups_of_def by blast
qed

lemma count_fresh:
  assumes "groups_of gs ys" "find_group gs (page_of b) = None"
  shows "groups_of (gs @ [\<lparr>rc_page = page_of b, rc_head = null, rc_tail = null, rc_n = 1\<rparr>]) (ys @ [b])"
proof -
  have new: "page_of b \<notin> rc_page ` set gs" using assms(2) by (simp add: find_group_none)
  then have "of_page (page_of b) ys = []" using assms(1) unfolding groups_of_def filter_empty_conv by metis
  then show ?thesis using assms(1) new by (auto simp: groups_of_def image_iff)
qed

lemma count_groups_ok:
  assumes "path w cursor bs" "groups_of gs ys" "length gs \<le> length ys" "length ys + length bs < MAX_FLUSH_GROUPS"
  shows "groups_of (count_groups w gs cursor (length bs)) (ys @ bs)
    \<and> length (count_groups w gs cursor (length bs)) \<le> length ys + length bs"
  using assms
proof (induction bs arbitrary: cursor gs ys)
  case (Cons b bs)
  have b: "cursor = b" "path w (w b) bs" using Cons.prems(1) by simp_all
  show ?case
  proof (cases "find_group gs (page_of b)")
    case None
    from Cons.IH [OF b(2) count_fresh [OF Cons.prems(2) None]] show ?thesis
      using None b(1) Cons.prems(3,4) by (simp add: Let_def)
  next
    case (Some i)
    from Cons.IH [OF b(2) count_seen [OF Cons.prems(2) Some]] show ?thesis
      using Some b(1) Cons.prems(3,4) by (simp add: Let_def)
  qed
qed simp

lemma chain_path: "chain w h xs \<Longrightarrow> path w h xs"
  by (induction xs arbitrary: h) auto

text \<open>The whole bin given back at once.\<close>

lemma bin_state_exit:
  assumes "bin_state (small_store purge c) h b H D" "b_len b \<le> FLUSH_CHUNK"
  shows "\<exists>s' effs D'. release_bin_chunks purge in_arena (fst h) (b_head b) (b_len b) (count_groups (words h) [] (b_head b) (b_len b)) = Some (s', effs)
    \<and> bin_state (small_store purge c) (s', snd h @ effs) bin_new H D' \<and> kept H (words h) D (words (s', snd h @ effs)) D'"
proof -
  obtain m lh ef where h: "h = ((m, lh), ef)" by (metis surj_pair)
  obtain lv xs d where *: "small_store purge c h lv d" "d \<subseteq> D" "bin_holds (words h) lv D b xs" "H = lv - set xs"
    using assms(1) by (auto simp: bin_state_def)
  obtain pl el full fl where inv: "purge_ok purge" "class_inv c m lh pl el full fl d" "lv = class_live m fl (set pl \<union> set el \<union> full)"
    using *(1) by (auto simp: small_store_def h)
  have xs: "chain (cells_of m) (b_head b) xs" "distinct xs" "set xs \<subseteq> lv" "b_len b = length xs"
    using *(3) by (simp_all add: bin_holds_def words_def h)
  note p = chain_path [OF xs(1)]
  let ?gs = "count_groups (cells_of m) [] (b_head b) (length xs)"
  have "groups_of [] []" "length ([] :: addr list) + length xs < MAX_FLUSH_GROUPS"
    using assms(2) xs(4) by (simp_all add: groups_of_def const_simps)
  from count_groups_ok [OF p this(1) _ this(2)]
  have g: "groups_of ?gs xs" "length ?gs \<le> length xs" by simp_all
  have "length ?gs \<le> MAX_PAGE_RELEASE_GROUPS" using g(2) assms(2) xs(4) by (simp add: const_simps)
  note g = g(1) this
  from release_bin_chunks_facts [OF inv(2,1) p xs(2) xs(3) [unfolded inv(3)] g, of in_arena, folded inv(3)]
  obtain m' lh' effs pl' el' full' fl' d' where
    r: "release_bin_chunks purge in_arena (m, lh) (b_head b) (length xs) ?gs = Some ((m', lh'), effs)"
      "class_inv c m' lh' pl' el' full' fl' d'" "class_live m' fl' (set pl' \<union> set el' \<union> full') = lv - set xs"
      "\<forall>a \<in> lv - set xs. cells_of m' a = cells_of m a" "d' \<subseteq> d \<union> set xs"
    by blast
  let ?h = "((m', lh'), ef @ effs)"
  have "small_store purge c ?h H d'" using inv(1) r(2,3) *(4) unfolding small_store_def by fastforce
  then have "bin_state (small_store purge c) ?h bin_new H (D \<union> set xs)"
    using r(5) *(2) by (auto simp: bin_state_new)
  moreover have "kept H (words h) D (words ?h) (D \<union> set xs)" using r(4) *(4) by (auto simp: kept_def words_def h)
  ultimately show ?thesis using r(1) xs(4) by (auto simp: h words_def)
qed

text \<open>A cache without the blocks of one small bin.\<close>

lemma flush_bin_exit_ok:
  assumes inv: "cache_inv e H D s" and c: "c < NUM_CLASSES"
  shows "\<exists>s'. flush_bin_exit e c s = Some s' \<and> flushed e H s D s' \<and> b_len (tc_bins (fst s') ! c) = 0"
proof -
  let ?b = "tc_bins (fst s) ! c" and ?h = "gl_small (snd s) ! c"
  have l: "length (tc_bins (fst s)) = NUM_CLASSES" "length (gl_small (snd s)) = NUM_CLASSES"
    using inv by (simp_all add: cache_inv_def shape_ok_def)
  have bs: "bin_state (small_st e c) ?h ?b (H Small c) (D Small c)" using inv c by (simp add: cache_inv_def small_ok_def)
  consider "b_len ?b = 0" | "FLUSH_CHUNK < b_len ?b" | "b_len ?b \<noteq> 0" "b_len ?b \<le> FLUSH_CHUNK" by linarith
  then show ?thesis
  proof cases
    case 1
    then show ?thesis using inv by (auto simp: flush_bin_exit_def flushed_def intro!: exI [of _ D])
  next
    case 2
    then show ?thesis using flush_bin_ok [OF inv c, of 0] by (auto simp: flush_bin_exit_def)
  next
    case 3
    from bin_state_exit [OF bs 3(2), of "ce_in_arena e"] obtain h' effs D' where
      f: "release_bin_chunks (ce_purge e) (ce_in_arena e) (fst ?h) (b_head ?b) (b_len ?b) (count_groups (words ?h) [] (b_head ?b) (b_len ?b)) = Some (h', effs)"
      "bin_state (small_st e c) (h', snd ?h @ effs) bin_new (H Small c) D'" "kept (H Small c) (words ?h) (D Small c) (words (h', snd ?h @ effs)) D'"
      by blast
    define s' where "s' = less_bytes (CLASSES ! c * b_len ?b) (set_small c ((h', snd ?h @ effs), bin_new) s)"
    have r: "flush_bin_exit e c s = Some s'" using 3 f(1) by (simp add: flush_bin_exit_def Let_def s'_def)
    have bytes: "CLASSES ! c * b_len ?b \<le> cached_bytes (fst s)"
      using inv weigh_part [of c CLASSES "lens_of (tc_bins (fst s))"] c l by (simp add: cache_inv_def bytes_ok_def)
    have same: "same_medium s s'" "same_big s s'" by (simp_all add: s'_def sames less_bytes_def set_small_def)
    have "cache_inv e (upd Small c (H Small c) H) (upd Small c D' D) s'"
      by (rule cache_inv_small [OF inv c f(2) _ _ same]) (use bytes in \<open>simp_all add: s'_def less_bytes_def set_small_def bin_new_def\<close>)
    moreover have "cache_kept H s D s' (upd Small c D' D)"
      by (intro cache_kept_small [of c s s' "(h', snd ?h @ effs)"] same f(3)) (use c l in \<open>simp_all add: s'_def less_bytes_def set_small_def\<close>)
    moreover have "shrinks s s'"
      by (auto simp: s'_def less_bytes_def set_small_def shrinks_def lens_le_def bin_new_def intro!: nth_update_le [where f = b_len])
    moreover have "b_len (tc_bins (fst s') ! c) = 0"
      using c l by (simp add: s'_def less_bytes_def set_small_def bin_new_def)
    ultimately show ?thesis using r unfolding flushed_def by auto
  qed
qed


section \<open>The passes of \<open>flush_all\<close>\<close>

lemma flushed_next:
  assumes "flushed e H s D s1" "\<And>D1. cache_inv e H D1 s1 \<Longrightarrow> \<exists>s'. r = Some s' \<and> flushed e H s1 D1 s' \<and> Q s'" "r = Some s2"
  shows "flushed e H s D s2"
  by (rule flushed_trans [OF assms(1)]) (use assms(2,3) in \<open>metis option.inject\<close>)

lemma each_ok:
  assumes step: "\<And>i s D. i \<in> set js \<Longrightarrow> cache_inv e H D s \<Longrightarrow> \<exists>s'. f i s = Some s' \<and> flushed e H s D s' \<and> P i (fst s')"
    and mono: "\<And>i tc tc'. P i tc \<Longrightarrow> lens_le tc' tc \<Longrightarrow> P i tc'"
    and inv: "cache_inv e H D s"
  shows "\<exists>s'. each f js s = Some s' \<and> flushed e H s D s' \<and> (\<forall>i \<in> set js. P i (fst s'))"
  using step inv
proof (induction js arbitrary: s D)
  case Nil
  then show ?case by (auto simp: flushed_def intro!: exI [of _ D])
next
  case (Cons i js)
  obtain s1 where s1: "f i s = Some s1" "flushed e H s D s1" "P i (fst s1)" using Cons.prems by fastforce
  then obtain D1 where D1: "cache_inv e H D1 s1" by (auto simp: flushed_def)
  have ih: "\<exists>s'. each f js s1 = Some s' \<and> flushed e H s1 D2 s' \<and> (\<forall>i \<in> set js. P i (fst s'))" if "cache_inv e H D2 s1" for D2
    by (rule Cons.IH [OF _ that]) (use Cons.prems(1) in simp)
  obtain s' where s': "each f js s1 = Some s'" "\<forall>i \<in> set js. P i (fst s')" "flushed e H s1 D1 s'" using ih [OF D1] by blast
  have "flushed e H s D s'" by (rule flushed_next [OF s1(2) ih s'(1)])
  moreover have "P i (fst s')" using mono [OF s1(3)] s'(3) by (simp add: flushed_def shrinks_def)
  ultimately show ?case using s1(1) s'(1,2) by auto
qed

lemma bin_state_head: "bin_state st h b H D \<Longrightarrow> b_head b = 0 \<longleftrightarrow> b_len b = 0"
  unfolding bin_state_def bin_holds_def by (metis chain.elims(2) chain.simps(1) chain_null list.size(3) length_0_conv)

lemma pair_state_heads:
  assumes "pair_state st own h b sp a H D"
  shows "b_head b = 0 \<longleftrightarrow> b_len b = 0" "b_head a = 0 \<longleftrightarrow> b_len a = 0"
  using pair_state_bin [OF assms] pair_state_active [OF assms] bin_state_head by metis+

lemma flushed_refl: "cache_inv e H D s \<Longrightarrow> flushed e H s D s"
  by (auto simp: flushed_def)

lemma flushed_inv: "flushed e H s D s' \<Longrightarrow> \<exists>D'. cache_inv e H D' s'"
  unfolding flushed_def by blast

text \<open>Each turn empties its class.\<close>

lemma turn:
  assumes "\<exists>s'. r = Some s' \<and> flushed e H s D s' \<and> P (fst s')" "h = 0 \<Longrightarrow> P (fst s)" "cache_inv e H D s"
  shows "\<exists>s'. (if h \<noteq> 0 then r else Some s) = Some s' \<and> flushed e H s D s' \<and> P (fst s')"
  using assms flushed_refl by (cases "h = 0") metis+

lemma small_turn:
  assumes "cache_inv e H D s" "c < NUM_CLASSES"
  shows "\<exists>s'. (if b_head (tc_bins (fst s) ! c) \<noteq> null then flush_bin_exit e c s else Some s) = Some s'
    \<and> flushed e H s D s' \<and> b_len (tc_bins (fst s') ! c) = 0"
proof -
  have "bin_state (small_st e c) (gl_small (snd s) ! c) (tc_bins (fst s) ! c) (H Small c) (D Small c)"
    using assms by (simp add: cache_inv_def small_ok_def)
  from bin_state_head [OF this] show ?thesis
    by (intro turn [where P = "\<lambda>tc. b_len (tc_bins tc ! c) = 0"] flush_bin_exit_ok assms) simp
qed

lemma medium_active_turn:
  assumes "cache_inv e H D s" "c < NUM_MEDIUM"
  shows "\<exists>s'. (if b_head (av_bin (mactive (fst s) ! c)) = null then Some s else flush_active_medium e c s) = Some s'
    \<and> flushed e H s D s' \<and> b_len (av_bin (mactive (fst s') ! c)) = 0"
proof -
  have "pair_state (medium_st e c) (ce_span_at e) (gl_medium (snd s) ! c) (mbins (fst s) ! c) (av_span (mactive (fst s) ! c))
      (av_bin (mactive (fst s) ! c)) (H Medium c) (D Medium c)"
    using assms by (simp add: cache_inv_def medium_ok_def)
  note h = pair_state_heads(2) [OF this]
  have "\<exists>s'. (if b_head (av_bin (mactive (fst s) ! c)) \<noteq> 0 then flush_active_medium e c s else Some s) = Some s'
      \<and> flushed e H s D s' \<and> b_len (av_bin (mactive (fst s') ! c)) = 0"
    by (rule turn [where P = "\<lambda>tc. b_len (av_bin (mactive tc ! c)) = 0"]) (use flush_active_medium_ok [OF assms] h assms in blast)+
  then show ?thesis by (simp only: if_not_P if_P split: if_splits) auto
qed

lemma medium_turn:
  assumes "cache_inv e H D s" "c < NUM_MEDIUM"
  shows "\<exists>s'. (if b_head (mbins (fst s) ! c) \<noteq> null then flush_mbin e c 0 s else Some s) = Some s'
    \<and> flushed e H s D s' \<and> b_len (mbins (fst s') ! c) = 0"
proof -
  have "pair_state (medium_st e c) (ce_span_at e) (gl_medium (snd s) ! c) (mbins (fst s) ! c) (av_span (mactive (fst s) ! c))
      (av_bin (mactive (fst s) ! c)) (H Medium c) (D Medium c)"
    using assms by (simp add: cache_inv_def medium_ok_def)
  note h = pair_state_heads(1) [OF this]
  have "\<exists>s'. flush_mbin e c 0 s = Some s' \<and> flushed e H s D s' \<and> b_len (mbins (fst s') ! c) = 0"
    using flush_mbin_ok [OF assms, of 0] by (metis min_0R)
  then show ?thesis by (rule turn [where P = "\<lambda>tc. b_len (mbins tc ! c) = 0"]) (use h assms in blast)+
qed

lemma big_turn:
  assumes inv: "cache_inv e H D s" and c: "c < NUM_BIG"
  shows "\<exists>s'. do { s' \<leftarrow> (if b_head (av_bin (bactive (fst s) ! c)) \<noteq> null then flush_active_big e c s else Some s);
                  if b_head (bigbins (fst s') ! c) \<noteq> null then flush_bbin e c 0 s' else Some s' } = Some s'
    \<and> flushed e H s D s' \<and> b_len (bigbins (fst s') ! c) = 0 \<and> b_len (av_bin (bactive (fst s') ! c)) = 0"
proof -
  have pr: "pair_state (big_st e c) (ce_big_at e) (gl_big (snd s) ! c) (bigbins (fst s) ! c) (av_span (bactive (fst s) ! c))
      (av_bin (bactive (fst s) ! c)) (H Big c) (D Big c)" if "cache_inv e H D s" for D s
    using that c by (simp add: cache_inv_def big_ok_def)
  obtain s1 where s1: "(if b_head (av_bin (bactive (fst s) ! c)) \<noteq> null then flush_active_big e c s else Some s) = Some s1"
    "flushed e H s D s1" "b_len (av_bin (bactive (fst s1) ! c)) = 0"
    using turn [where P = "\<lambda>tc. b_len (av_bin (bactive tc ! c)) = 0" and h = "b_head (av_bin (bactive (fst s) ! c))", OF _ _ inv]
      flush_active_big_ok [OF inv c] pair_state_heads(2) [OF pr [OF inv]] by (smt (verit))
  have second: "\<exists>s'. (if b_head (bigbins (fst s1) ! c) \<noteq> null then flush_bbin e c 0 s1 else Some s1) = Some s'
      \<and> flushed e H s1 D1 s' \<and> b_len (bigbins (fst s') ! c) = 0" if "cache_inv e H D1 s1" for D1
  proof (rule turn [where P = "\<lambda>tc. b_len (bigbins tc ! c) = 0", OF _ _ that])
    show "\<exists>s'. flush_bbin e c 0 s1 = Some s' \<and> flushed e H s1 D1 s' \<and> b_len (bigbins (fst s') ! c) = 0"
      using flush_bbin_ok [OF that c, of 0] by (metis min_0R)
  qed (use pair_state_heads(1) [OF pr [OF that]] in simp)
  obtain D1 where "cache_inv e H D1 s1" using flushed_inv [OF s1(2)] by blast
  from second [OF this] obtain s' where
    s': "(if b_head (bigbins (fst s1) ! c) \<noteq> null then flush_bbin e c 0 s1 else Some s1) = Some s'" "flushed e H s1 D1 s'"
      "b_len (bigbins (fst s') ! c) = 0"
    by blast
  have "flushed e H s D s'" by (rule flushed_next [OF s1(2) second s'(1)])
  moreover have "b_len (av_bin (bactive (fst s') ! c)) = 0"
  proof -
    have "b_len (av_bin (bactive (fst s') ! c)) \<le> b_len (av_bin (bactive (fst s1) ! c))"
      using s'(2) unfolding flushed_def shrinks_def lens_le_def by blast
    then show ?thesis using s1(3) by simp
  qed
  ultimately show ?thesis using s1(1) s'(1,3) by auto
qed

lemma upt_bounds: "(\<forall>i \<in> set [0..<n]. Q i) \<longleftrightarrow> (\<forall>i < n. Q i)"
  by auto

lemma flush_passes:
  assumes inv: "cache_inv e H D s"
  shows "\<exists>s1 s2 s3 s4. each (\<lambda>c s. if b_head (tc_bins (fst s) ! c) \<noteq> null then flush_bin_exit e c s else Some s) [0..<NUM_CLASSES] s = Some s1
    \<and> each (\<lambda>c s. if b_head (av_bin (mactive (fst s) ! c)) = null then Some s else flush_active_medium e c s) [0..<NUM_MEDIUM] s1 = Some s2
    \<and> each (\<lambda>c s. if b_head (mbins (fst s) ! c) \<noteq> null then flush_mbin e c 0 s else Some s) [0..<NUM_MEDIUM] s2 = Some s3
    \<and> each (\<lambda>c s. do { s' \<leftarrow> (if b_head (av_bin (bactive (fst s) ! c)) \<noteq> null then flush_active_big e c s else Some s);
                        if b_head (bigbins (fst s') ! c) \<noteq> null then flush_bbin e c 0 s' else Some s' }) [0..<NUM_BIG] s3 = Some s4
    \<and> flushed e H s D s4 \<and> drained (fst s4) \<and> (\<forall>c < NUM_CLASSES. b_len (tc_bins (fst s4) ! c) = 0)"
proof -
  let ?f1 = "\<lambda>c s. if b_head (tc_bins (fst s) ! c) \<noteq> null then flush_bin_exit e c s else Some s"
  let ?f2 = "\<lambda>c s. if b_head (av_bin (mactive (fst s) ! c)) = null then Some s else flush_active_medium e c s"
  let ?f3 = "\<lambda>c s. if b_head (mbins (fst s) ! c) \<noteq> null then flush_mbin e c 0 s else Some s"
  let ?f4 = "\<lambda>c s. do { s' \<leftarrow> (if b_head (av_bin (bactive (fst s) ! c)) \<noteq> null then flush_active_big e c s else Some s);
                        if b_head (bigbins (fst s') ! c) \<noteq> null then flush_bbin e c 0 s' else Some s' }"
  have le0: "n \<le> m \<Longrightarrow> m = 0 \<Longrightarrow> n = (0 :: nat)" for n m by simp
  have p1: "\<exists>s'. each ?f1 [0..<NUM_CLASSES] s = Some s' \<and> flushed e H s D s' \<and> (\<forall>i \<in> set [0..<NUM_CLASSES]. b_len (tc_bins (fst s') ! i) = 0)"
    if "cache_inv e H D s" for s D
    by (rule each_ok [where P = "\<lambda>c tc. b_len (tc_bins tc ! c) = 0", OF _ _ that]) (use small_turn in \<open>auto simp: lens_le_def intro: le0\<close>)
  have p2: "\<exists>s'. each ?f2 [0..<NUM_MEDIUM] s = Some s' \<and> flushed e H s D s' \<and> (\<forall>i \<in> set [0..<NUM_MEDIUM]. b_len (av_bin (mactive (fst s') ! i)) = 0)"
    if "cache_inv e H D s" for s D
    by (rule each_ok [where P = "\<lambda>c tc. b_len (av_bin (mactive tc ! c)) = 0", OF _ _ that])
       (use medium_active_turn in \<open>auto simp: lens_le_def intro: le0\<close>)
  have p3: "\<exists>s'. each ?f3 [0..<NUM_MEDIUM] s = Some s' \<and> flushed e H s D s' \<and> (\<forall>i \<in> set [0..<NUM_MEDIUM]. b_len (mbins (fst s') ! i) = 0)"
    if "cache_inv e H D s" for s D
    by (rule each_ok [where P = "\<lambda>c tc. b_len (mbins tc ! c) = 0", OF _ _ that]) (use medium_turn in \<open>auto simp: lens_le_def intro: le0\<close>)
  have p4: "\<exists>s'. each ?f4 [0..<NUM_BIG] s = Some s' \<and> flushed e H s D s'
      \<and> (\<forall>i \<in> set [0..<NUM_BIG]. b_len (bigbins (fst s') ! i) = 0 \<and> b_len (av_bin (bactive (fst s') ! i)) = 0)"
    if "cache_inv e H D s" for s D
    by (rule each_ok [where P = "\<lambda>c tc. b_len (bigbins tc ! c) = 0 \<and> b_len (av_bin (bactive tc ! c)) = 0", OF _ _ that])
       (use big_turn in \<open>auto simp: lens_le_def intro: le0\<close>)
  obtain s1 where s1: "each ?f1 [0..<NUM_CLASSES] s = Some s1" "flushed e H s D s1" "\<forall>i < NUM_CLASSES. b_len (tc_bins (fst s1) ! i) = 0"
    using p1 [OF inv] unfolding upt_bounds by blast
  obtain D1 where D1: "cache_inv e H D1 s1" using flushed_inv [OF s1(2)] by blast
  obtain s2 where s2: "each ?f2 [0..<NUM_MEDIUM] s1 = Some s2" "flushed e H s1 D1 s2" "\<forall>i < NUM_MEDIUM. b_len (av_bin (mactive (fst s2) ! i)) = 0"
    using p2 [OF D1] unfolding upt_bounds by blast
  obtain D2 where D2: "cache_inv e H D2 s2" using flushed_inv [OF s2(2)] by blast
  obtain s3 where s3: "each ?f3 [0..<NUM_MEDIUM] s2 = Some s3" "flushed e H s2 D2 s3" "\<forall>i < NUM_MEDIUM. b_len (mbins (fst s3) ! i) = 0"
    using p3 [OF D2] unfolding upt_bounds by blast
  obtain D3 where D3: "cache_inv e H D3 s3" using flushed_inv [OF s3(2)] by blast
  obtain s4 where s4: "each ?f4 [0..<NUM_BIG] s3 = Some s4" "flushed e H s3 D3 s4"
    "\<forall>i < NUM_BIG. b_len (bigbins (fst s4) ! i) = 0 \<and> b_len (av_bin (bactive (fst s4) ! i)) = 0"
    using p4 [OF D3] unfolding upt_bounds by blast
  have t12: "flushed e H s D s2" by (rule flushed_next [OF s1(2) p2 s2(1)])
  have t13: "flushed e H s D s3" by (rule flushed_next [OF t12 p3 s3(1)])
  have t14: "flushed e H s D s4" by (rule flushed_next [OF t13 p4 s4(1)])
  have le: "lens_le (fst s2) (fst s1)" "lens_le (fst s3) (fst s2)" "lens_le (fst s4) (fst s3)"
    using s2(2) s3(2) s4(2) by (simp_all add: flushed_def shrinks_def)
  note le41 = lens_le_trans [OF le(3) lens_le_trans [OF le(2,1)]] and le42 = lens_le_trans [OF le(3,2)]
  have e1: "b_len (tc_bins (fst s4) ! c) = 0" if "c < NUM_CLASSES" for c
    using le41 s1(3) that unfolding lens_le_def by (metis le_zero_eq)
  have e2: "b_len (av_bin (mactive (fst s4) ! c)) = 0" "b_len (mbins (fst s4) ! c) = 0" if "c < NUM_MEDIUM" for c
    using le42 le(3) s2(3) s3(3) that unfolding lens_le_def by (metis le_zero_eq)+
  have "drained (fst s4)" using e1 e2 s4(3) by (simp add: drained_def)
  then show ?thesis using s1(1) s2(1) s3(1) s4(1) t14 e1 by blast
qed


section \<open>The whole\<close>

text \<open>Nothing is cached; what identifies the thread and its settings stays.\<close>

definition emptied :: "thread_cache \<Rightarrow> thread_cache \<Rightarrow> bool" where
  "emptied tc tc' \<longleftrightarrow> tc_bins tc' = replicate NUM_CLASSES bin_new
     \<and> mbins tc' = replicate NUM_MEDIUM bin_new \<and> mactive tc' = replicate NUM_MEDIUM active_new
     \<and> bigbins tc' = replicate NUM_BIG bin_new \<and> bactive tc' = replicate NUM_BIG active_new
     \<and> cached_bytes tc' = 0 \<and> tier_cached_bytes tc' = 0 \<and> foreign_bytes tc' = 0 \<and> \<not> retired_reclaimed tc'
     \<and> large_len (tc_stash tc') = 0 \<and> large_bytes (tc_stash tc') = 0
     \<and> budget tc' = budget tc \<and> budget_epoch tc' = budget_epoch tc \<and> tc_tid tc' = tc_tid tc \<and> exit_armed tc' = exit_armed tc"

text \<open>The regions of a stash that \<open>flush_all\<close> hands on.\<close>

definition stashed_regions :: "thread_cache \<Rightarrow> region list" where
  "stashed_regions tc = filter (\<lambda>r. fst r \<noteq> null) (take (large_len (tc_stash tc)) (large (tc_stash tc)))"

lemma all_new: "length bs = n \<Longrightarrow> (\<And>c. c < n \<Longrightarrow> bs ! c = x) \<Longrightarrow> bs = replicate n x"
  by (simp add: list_eq_iff_nth_eq)

lemma zero_virgin_new: "map zero_virgin (replicate n bin_new) = replicate n bin_new"
  by (simp add: zero_virgin_def bin_new_def)

lemma inv_bins:
  assumes "cache_inv e H D s"
  shows "c < NUM_CLASSES \<Longrightarrow> bin_state (small_st e c) (gl_small (snd s) ! c) (tc_bins (fst s) ! c) (H Small c) (D Small c)"
    "c < NUM_MEDIUM \<Longrightarrow> pair_state (medium_st e c) (ce_span_at e) (gl_medium (snd s) ! c) (mbins (fst s) ! c)
       (av_span (mactive (fst s) ! c)) (av_bin (mactive (fst s) ! c)) (H Medium c) (D Medium c)"
    "c < NUM_BIG \<Longrightarrow> pair_state (big_st e c) (ce_big_at e) (gl_big (snd s) ! c) (bigbins (fst s) ! c)
       (av_span (bactive (fst s) ! c)) (av_bin (bactive (fst s) ! c)) (H Big c) (D Big c)"
  using assms by (simp_all add: cache_inv_def small_ok_def medium_ok_def big_ok_def)

lemma drained_shape:
  assumes inv: "cache_inv e H D s" and d: "drained (fst s)" "\<forall>c < NUM_CLASSES. b_len (tc_bins (fst s) ! c) = 0"
  shows "tc_bins (fst s) = replicate NUM_CLASSES bin_new" "mbins (fst s) = replicate NUM_MEDIUM bin_new"
    "bigbins (fst s) = replicate NUM_BIG bin_new" "cached_bytes (fst s) = 0" "tier_cached_bytes (fst s) = 0"
    "c < NUM_MEDIUM \<Longrightarrow> av_bin (mactive (fst s) ! c) = bin_new" "c < NUM_BIG \<Longrightarrow> av_bin (bactive (fst s) ! c) = bin_new"
proof -
  have l: "length (tc_bins (fst s)) = NUM_CLASSES" "length (mbins (fst s)) = NUM_MEDIUM" "length (mactive (fst s)) = NUM_MEDIUM"
    "length (bigbins (fst s)) = NUM_BIG" "length (bactive (fst s)) = NUM_BIG"
    using inv by (simp_all add: cache_inv_def shape_ok_def)
  have sm: "tc_bins (fst s) ! c = bin_new" if "c < NUM_CLASSES" for c
    using bin_state_empty [OF inv_bins(1) [OF inv that]] d(2) that by simp
  then show "tc_bins (fst s) = replicate NUM_CLASSES bin_new" using l by (intro all_new)
  have md: "mbins (fst s) ! c = bin_new" "av_bin (mactive (fst s) ! c) = bin_new" if "c < NUM_MEDIUM" for c
    using pair_state_empty [OF inv_bins(2) [OF inv that]] d(1) that by (simp_all add: drained_def)
  then show "mbins (fst s) = replicate NUM_MEDIUM bin_new" "c < NUM_MEDIUM \<Longrightarrow> av_bin (mactive (fst s) ! c) = bin_new"
    using l by (simp_all add: all_new)
  have bg: "bigbins (fst s) ! c = bin_new" "av_bin (bactive (fst s) ! c) = bin_new" if "c < NUM_BIG" for c
    using pair_state_empty [OF inv_bins(3) [OF inv that]] d(1) that by (simp_all add: drained_def)
  then show "bigbins (fst s) = replicate NUM_BIG bin_new" "c < NUM_BIG \<Longrightarrow> av_bin (bactive (fst s) ! c) = bin_new"
    using l by (simp_all add: all_new)
  have z: "actual_tier_bytes (fst s) = 0" "weigh CLASSES (lens_of (tc_bins (fst s))) = 0"
    using sm md bg l by (simp_all add: actual_tier_bytes_def weigh_zero bin_new_def)
  then show "cached_bytes (fst s) = 0" "tier_cached_bytes (fst s) = 0" using inv by (simp_all add: cache_inv_def bytes_ok_def)
qed

lemma flush_reset_ok:
  assumes inv: "cache_inv e H D s" and d: "drained (fst s)" "\<forall>c < NUM_CLASSES. b_len (tc_bins (fst s) ! c) = 0"
  shows "cache_inv e H D (stash_drain (flush_reset s))" "emptied (fst s) (fst (stash_drain (flush_reset s)))"
    "snd (stash_drain (flush_reset s)) = (snd s)\<lparr>gl_regions := gl_regions (snd s) @ stashed_regions (fst s)\<rparr>"
proof -
  note new = drained_shape [OF inv d]
  let ?s = "stash_drain (flush_reset s)"
  have f: "tc_bins (fst ?s) = replicate NUM_CLASSES bin_new" "mbins (fst ?s) = replicate NUM_MEDIUM bin_new"
    "mactive (fst ?s) = replicate NUM_MEDIUM active_new" "bigbins (fst ?s) = replicate NUM_BIG bin_new"
    "bactive (fst ?s) = replicate NUM_BIG active_new" "cached_bytes (fst ?s) = 0" "tier_cached_bytes (fst ?s) = 0"
    using new(1-3) zero_virgin_new by (simp_all add: stash_drain_def flush_reset_def Let_def)
  show g: "snd ?s = (snd s)\<lparr>gl_regions := gl_regions (snd s) @ stashed_regions (fst s)\<rparr>"
    by (simp add: stash_drain_def flush_reset_def Let_def stashed_regions_def)
  show "emptied (fst s) (fst ?s)" using f by (simp add: emptied_def stash_drain_def flush_reset_def Let_def)
  have w: "weigh CLASSES (replicate NUM_CLASSES 0) = 0" "weigh MEDIUM_CLASSES (replicate NUM_MEDIUM 0) = 0"
    "weigh BIG_CLASSES (replicate NUM_BIG 0) = 0"
    by (rule weigh_new; auto)+
  have "bytes_ok (fst ?s)" by (simp add: bytes_ok_def actual_tier_bytes_def f active_new_def bin_new_def w)
  moreover have "shape_ok ?s" using inv by (simp add: shape_ok_def f g cache_inv_def)
  moreover have "small_ok e c (H Small c) (D Small c) ?s" if "c < NUM_CLASSES" for c
    using inv that by (simp add: cache_inv_def small_ok_def f(1) g new(1))
  moreover have "medium_ok e c (H Medium c) (D Medium c) ?s" if "c < NUM_MEDIUM" for c
    using inv_bins(2) [OF inv that] new(6) [OF that] that by (simp add: medium_ok_def f(2,3) g new(2) active_new_def pair_state_new)
  moreover have "big_ok e c (H Big c) (D Big c) ?s" if "c < NUM_BIG" for c
    using inv_bins(3) [OF inv that] new(7) [OF that] that
    by (simp add: big_ok_def f(4,5) g new(3) active_new_def pair_state_new) (simp add: bin_new_def)
  ultimately show "cache_inv e H D ?s" by (simp add: cache_inv_def)
qed

lemma flush_all_facts:
  assumes inv: "cache_inv e H D s"
  shows "\<exists>s' D'. flush_all e s = Some s' \<and> cache_inv e H D' s' \<and> cache_kept H s D s' D' \<and> emptied (fst s) (fst s')
    \<and> gl_regions (snd s') = gl_regions (snd s) @ stashed_regions (fst s)
    \<and> gl_retired (snd s') = gl_retired (snd s) \<and> gl_ready (snd s') = gl_ready (snd s) \<and> gl_next_tid (snd s') = gl_next_tid (snd s)
    \<and> gl_budget (snd s') = gl_budget (snd s) \<and> gl_epoch (snd s') = gl_epoch (snd s)"
proof -
  obtain s1 s2 s3 s4 where p:
    "each (\<lambda>c s. if b_head (tc_bins (fst s) ! c) \<noteq> null then flush_bin_exit e c s else Some s) [0..<NUM_CLASSES] s = Some s1"
    "each (\<lambda>c s. if b_head (av_bin (mactive (fst s) ! c)) = null then Some s else flush_active_medium e c s) [0..<NUM_MEDIUM] s1 = Some s2"
    "each (\<lambda>c s. if b_head (mbins (fst s) ! c) \<noteq> null then flush_mbin e c 0 s else Some s) [0..<NUM_MEDIUM] s2 = Some s3"
    "each (\<lambda>c s. do { s' \<leftarrow> (if b_head (av_bin (bactive (fst s) ! c)) \<noteq> null then flush_active_big e c s else Some s);
                        if b_head (bigbins (fst s') ! c) \<noteq> null then flush_bbin e c 0 s' else Some s' }) [0..<NUM_BIG] s3 = Some s4"
    "flushed e H s D s4" "drained (fst s4)" "\<forall>c < NUM_CLASSES. b_len (tc_bins (fst s4) ! c) = 0"
    using flush_passes [OF inv] by (elim exE conjE)
  obtain D' where D': "cache_inv e H D' s4" "cache_kept H s D s4 D'" and sh: "shrinks s s4"
    using p(5) unfolding flushed_def by blast
  note r = flush_reset_ok [OF D'(1) p(6,7)]
  let ?s = "stash_drain (flush_reset s4)"
  have u: "unflushed s4 = unflushed s" using sh by (simp add: shrinks_def)
  have "flush_all e s = Some ?s" using p(1-4) by (simp add: flush_all_def)
  moreover have "cache_kept H s D ?s D'"
  proof -
    have "tier_words t c (snd ?s) = tier_words t c (snd s4)" for t c by (cases t) (simp_all add: r(3))
    then show ?thesis using D'(2) by (simp add: cache_kept_def)
  qed
  moreover have "emptied (fst s) (fst ?s)" using r(2) u by (simp add: emptied_def)
  moreover have "stashed_regions (fst s4) = stashed_regions (fst s)" using u by (simp add: stashed_regions_def)
  ultimately show ?thesis using r(1) u by (intro exI [of _ ?s] exI [of _ D']) (simp add: r(3))
qed

end
