(* ===== verification/Fleet.thy ===== *)
theory Fleet
  imports Cache_Flush Cache_Spans
begin

text \<open>
  Many caches over the same heaps: those of the running threads and those retired by threads that have ended.
  No block is in two of them, nor in one of them and with the program.  Each cache alone satisfies the invariant
  of \<open>Cache_Inv\<close> with the blocks of all others counted as held, so that what is proved there of one cache is
  lifted to all of them by one frame lemma.
\<close>

section \<open>One class\<close>

text \<open>What a cache has of a class: its bin, and the active span with its chain.\<close>

type_synonym part = "bin \<times> addr \<times> bin"

definition no_part :: part where "no_part = (bin_new, null, bin_new)"

fun part_holds :: "(addr \<Rightarrow> addr) \<Rightarrow> cells \<Rightarrow> addr set \<Rightarrow> addr set \<Rightarrow> part \<Rightarrow> addr list \<times> addr list \<Rightarrow> bool" where
  "part_holds own w lv D (b, sp, a) (xs, ys) \<longleftrightarrow> bin_holds w lv D b xs \<and> bin_holds w lv D a ys \<and> (\<forall>y \<in> set ys. own y = sp)"

definition part_blocks :: "(addr list \<times> addr list) list \<Rightarrow> addr list" where
  "part_blocks zs = concat (map (\<lambda>(xs, ys). xs @ ys) zs)"

lemma part_blocks_simps [simp]: "part_blocks [] = []" "part_blocks ((xs, ys) # zs) = xs @ ys @ part_blocks zs"
  by (simp_all add: part_blocks_def)

definition fleet_class :: "(('a, 'l, 'e) class_heap \<Rightarrow> addr set \<Rightarrow> addr set \<Rightarrow> bool) \<Rightarrow> (addr \<Rightarrow> addr) \<Rightarrow>
    ('a, 'l, 'e) class_heap \<Rightarrow> part list \<Rightarrow> addr set \<Rightarrow> addr set \<Rightarrow> bool" where
  "fleet_class st own h ps H D \<longleftrightarrow> (\<exists>lv d zs. st h lv d \<and> d \<subseteq> D \<and> list_all2 (part_holds own (words h) lv D) ps zs
     \<and> distinct (part_blocks zs) \<and> H = lv - set (part_blocks zs))"

lemma part_blocks_perm:
  assumes "mset zs' = mset zs"
  shows "mset (part_blocks zs') = mset (part_blocks zs)"
proof -
  have "mset (part_blocks zs) = sum_mset (image_mset (\<lambda>(xs, ys). mset (xs @ ys)) (mset zs))" for zs
    by (induction zs) auto
  then show ?thesis using assms by simp
qed

lemma fleet_class_perm:
  assumes "fleet_class st own h ps H D" "mset ps' = mset ps"
  shows "fleet_class st own h ps' H D"
proof -
  obtain lv d zs where *: "st h lv d" "d \<subseteq> D" "list_all2 (part_holds own (words h) lv D) ps zs" "distinct (part_blocks zs)"
    "H = lv - set (part_blocks zs)"
    using assms(1) by (auto simp: fleet_class_def)
  obtain zs' where zs': "list_all2 (part_holds own (words h) lv D) ps' zs'" "mset zs' = mset zs"
    using list_all2_reorder_left_invariance [OF *(3) assms(2)] by blast
  note p = part_blocks_perm [OF zs'(2)]
  then have "distinct (part_blocks zs')" "set (part_blocks zs') = set (part_blocks zs)"
    using *(4) mset_eq_imp_distinct_iff mset_eq_setD by blast+
  then show ?thesis using *(1,2,5) zs'(1) unfolding fleet_class_def by blast
qed

text \<open>Leaving the blocks of the other caches alone, one cache may change with the heap.\<close>

lemma part_holds_frame:
  assumes "part_holds own w lv D p z" "set (part_blocks [z]) \<subseteq> B" "B \<subseteq> lv'" "kept B w D w' D'"
  shows "part_holds own w' lv' D' p z"
proof -
  obtain b sp a xs ys where p: "p = (b, sp, a)" "z = (xs, ys)" by (metis surj_pair)
  have h: "bin_holds w lv D b xs" "bin_holds w lv D a ys" "set xs \<subseteq> B" "set ys \<subseteq> B" "\<forall>y \<in> set ys. own y = sp"
    using assms(1,2) by (auto simp: p)
  have "bin_holds w' lv' D' b xs" by (rule bin_holds_frame [OF h(1)]) (use h(3) assms(3,4) in \<open>auto simp: kept_def\<close>)
  moreover have "bin_holds w' lv' D' a ys" by (rule bin_holds_frame [OF h(2)]) (use h(4) assms(3,4) in \<open>auto simp: kept_def\<close>)
  ultimately show ?thesis using h(5) by (simp add: p)
qed

lemma parts_frame:
  assumes "list_all2 (part_holds own w lv D) ps zs" "set (part_blocks zs) \<subseteq> B" "B \<subseteq> lv'" "kept B w D w' D'"
  shows "list_all2 (part_holds own w' lv' D') ps zs"
  using assms(1,2)
proof (induction rule: list_all2_induct)
  case (Cons p ps z zs)
  have "set (part_blocks [z]) \<subseteq> B" "set (part_blocks zs) \<subseteq> B" using Cons.prems by (auto simp: part_blocks_def)
  then show ?case using Cons.IH part_holds_frame [OF Cons.hyps(1) _ assms(3,4)] by simp
qed simp

fun pair_part :: "(('a, 'l, 'e) class_heap \<Rightarrow> addr set \<Rightarrow> addr set \<Rightarrow> bool) \<Rightarrow> (addr \<Rightarrow> addr) \<Rightarrow>
    ('a, 'l, 'e) class_heap \<Rightarrow> part \<Rightarrow> addr set \<Rightarrow> addr set \<Rightarrow> bool" where
  "pair_part st own h (b, sp, a) = pair_state st own h b sp a"

lemma fleet_class_split:
  assumes "fleet_class st own h (p # ps) H D"
  shows "\<exists>B. pair_part st own h p (H \<union> B) D \<and> H \<inter> B = {}
    \<and> (\<forall>h' p' H' D'. pair_part st own h' p' (H' \<union> B) D' \<longrightarrow> H' \<inter> B = {} \<longrightarrow> kept B (words h) D (words h') D'
         \<longrightarrow> fleet_class st own h' (p' # ps) H' D')"
proof -
  obtain b sp a where pe: "p = (b, sp, a)" by (metis surj_pair)
  obtain lv d xs ys zs where *: "st h lv d" "d \<subseteq> D" "bin_holds (words h) lv D b xs" "bin_holds (words h) lv D a ys"
    "\<forall>y \<in> set ys. own y = sp" "list_all2 (part_holds own (words h) lv D) ps zs"
    "distinct (xs @ ys @ part_blocks zs)" "H = lv - set (xs @ ys @ part_blocks zs)"
    using assms [unfolded pe] unfolding fleet_class_def list_all2_Cons1 by (elim exE conjE) (auto split: prod.splits)
  let ?B = "set (part_blocks zs)"
  have sub: "set (part_blocks zs) \<subseteq> lv" using *(6)
  proof (induction rule: list_all2_induct)
    case (Cons p ps z zs)
    then show ?case by (cases p; cases z) (auto simp: bin_holds_def)
  qed simp
  have "H \<union> ?B = lv - set xs - set ys" using *(7,8) sub by auto
  then have p: "pair_state st own h b sp a (H \<union> ?B) D"
    using *(1-5,7) unfolding pair_state_def by (intro exI [of _ lv] exI [of _ xs] exI [of _ ys] exI [of _ d]) auto
  have "fleet_class st own h' ((b', sp', a') # ps) H' D'"
    if r: "pair_state st own h' b' sp' a' (H' \<union> ?B) D'" "H' \<inter> ?B = {}" "kept ?B (words h) D (words h') D'" for h' b' sp' a' H' D'
  proof -
    obtain lv' xs' ys' d' where n: "st h' lv' d'" "d' \<subseteq> D'" "bin_holds (words h') lv' D' b' xs'" "bin_holds (words h') lv' D' a' ys'"
      "set xs' \<inter> set ys' = {}" "\<forall>y \<in> set ys'. own y = sp'" "H' \<union> ?B = lv' - set xs' - set ys'"
      using r(1) by (auto simp: pair_state_def)
    have "list_all2 (part_holds own (words h') lv' D') ps zs"
      by (rule parts_frame [OF *(6) order_refl _ r(3)]) (use n(7) in auto)
    moreover have "distinct (xs' @ ys' @ part_blocks zs)" "H' = lv' - set (xs' @ ys' @ part_blocks zs)"
      using n(3-5,7) r(2) *(7) by (auto simp: bin_holds_def)
    ultimately show ?thesis using n(1-4,6) unfolding fleet_class_def
      by (intro exI [of _ lv'] exI [of _ d'] exI [of _ "(xs', ys') # zs"]) simp
  qed
  then have "fleet_class st own h' (p' # ps) H' D'"
    if "pair_part st own h' p' (H' \<union> ?B) D'" "H' \<inter> ?B = {}" "kept ?B (words h) D (words h') D'" for h' p' H' D'
    using that by (cases p') simp
  note r = this
  have "H \<inter> ?B = {}" using *(8) by auto
  then show ?thesis unfolding pe pair_part.simps
    by (intro exI [of _ ?B] conjI allI impI p) (simp_all only: r [unfolded pair_part.simps])
qed

text \<open>A cache with nothing of a class does not count.\<close>

lemma fleet_class_new: "fleet_class st own h ((bin_new, sp, bin_new) # ps) H D \<longleftrightarrow> fleet_class st own h ps H D"
proof
  assume "fleet_class st own h ((bin_new, sp, bin_new) # ps) H D"
  then obtain lv d xs ys zs where *: "st h lv d" "d \<subseteq> D" "bin_holds (words h) lv D bin_new xs" "bin_holds (words h) lv D bin_new ys"
    "list_all2 (part_holds own (words h) lv D) ps zs" "distinct (xs @ ys @ part_blocks zs)" "H = lv - set (xs @ ys @ part_blocks zs)"
    unfolding fleet_class_def list_all2_Cons1 by (elim exE conjE) (auto split: prod.splits)
  moreover have "xs = []" "ys = []" using *(3,4) bin_holds_unique [OF _ bin_holds_new] by blast+
  ultimately show "fleet_class st own h ps H D" unfolding fleet_class_def by auto
next
  assume "fleet_class st own h ps H D"
  then obtain lv d zs where *: "st h lv d" "d \<subseteq> D" "list_all2 (part_holds own (words h) lv D) ps zs" "distinct (part_blocks zs)"
    "H = lv - set (part_blocks zs)"
    by (auto simp: fleet_class_def)
  then show "fleet_class st own h ((bin_new, sp, bin_new) # ps) H D"
    using bin_holds_new unfolding fleet_class_def by (intro exI [of _ lv] exI [of _ d] exI [of _ "([], []) # zs"]) simp
qed


section \<open>All classes\<close>

fun part_of :: "tier \<Rightarrow> nat \<Rightarrow> thread_cache \<Rightarrow> part" where
  "part_of Small c tc = (tc_bins tc ! c, null, bin_new)"
| "part_of Medium c tc = (mbins tc ! c, av_span (mactive tc ! c), av_bin (mactive tc ! c))"
| "part_of Big c tc = (bigbins tc ! c, av_span (bactive tc ! c), av_bin (bactive tc ! c))"

fun fleet_tier :: "cache_env \<Rightarrow> tier \<Rightarrow> nat \<Rightarrow> globals \<Rightarrow> part list \<Rightarrow> addr set \<Rightarrow> addr set \<Rightarrow> bool" where
  "fleet_tier e Small c g = fleet_class (small_st e c) (\<lambda>_. null) (gl_small g ! c)"
| "fleet_tier e Medium c g = fleet_class (medium_st e c) (ce_span_at e) (gl_medium g ! c)"
| "fleet_tier e Big c g = fleet_class (big_st e c) (ce_big_at e) (gl_big g ! c)"

fun pair_tier :: "cache_env \<Rightarrow> tier \<Rightarrow> nat \<Rightarrow> globals \<Rightarrow> part \<Rightarrow> addr set \<Rightarrow> addr set \<Rightarrow> bool" where
  "pair_tier e Small c g = pair_part (small_st e c) (\<lambda>_. null) (gl_small g ! c)"
| "pair_tier e Medium c g = pair_part (medium_st e c) (ce_span_at e) (gl_medium g ! c)"
| "pair_tier e Big c g = pair_part (big_st e c) (ce_big_at e) (gl_big g ! c)"

lemma fleet_tier_split:
  assumes "fleet_tier e t c g (p # ps) X Y"
  shows "\<exists>B. pair_tier e t c g p (X \<union> B) Y \<and> X \<inter> B = {}
    \<and> (\<forall>g' p' X' Y'. pair_tier e t c g' p' (X' \<union> B) Y' \<longrightarrow> X' \<inter> B = {} \<longrightarrow> kept B (tier_words t c g) Y (tier_words t c g') Y'
         \<longrightarrow> fleet_tier e t c g' (p' # ps) X' Y')"
  using assms by (cases t; hypsubst; unfold fleet_tier.simps pair_tier.simps tier_words.simps) (drule fleet_class_split, blast)+

lemma fleet_tier_perm: "fleet_tier e t c g ps X Y \<Longrightarrow> mset ps' = mset ps \<Longrightarrow> fleet_tier e t c g ps' X Y"
  by (cases t) (simp_all add: fleet_class_perm)

lemma fleet_tier_new: "fleet_tier e t c g ((bin_new, sp, bin_new) # ps) X Y \<longleftrightarrow> fleet_tier e t c g ps X Y"
  by (cases t) (simp_all add: fleet_class_new)

definition heaps_ok :: "globals \<Rightarrow> bool" where
  "heaps_ok g \<longleftrightarrow> length (gl_small g) = NUM_CLASSES \<and> length (gl_medium g) = NUM_MEDIUM \<and> length (gl_big g) = NUM_BIG"

definition cache_shape :: "thread_cache \<Rightarrow> bool" where
  "cache_shape tc \<longleftrightarrow> length (tc_bins tc) = NUM_CLASSES \<and> length (mbins tc) = NUM_MEDIUM \<and> length (mactive tc) = NUM_MEDIUM
     \<and> length (bigbins tc) = NUM_BIG \<and> length (bactive tc) = NUM_BIG
     \<and> (\<forall>c < NUM_BIG. b_len (av_bin (bactive tc ! c)) \<noteq> 0 \<longrightarrow> av_span (bactive tc ! c) \<noteq> null)"

text \<open>The blocks of all the caches are apart, and \<open>H\<close> are those outside the heaps and outside every cache.\<close>

definition fleet_parts :: "cache_env \<Rightarrow> blocks \<Rightarrow> blocks \<Rightarrow> thread_cache list \<Rightarrow> globals \<Rightarrow> bool" where
  "fleet_parts e H D cs g \<longleftrightarrow> heaps_ok g \<and> (\<forall>tc \<in> set cs. cache_shape tc)
     \<and> (\<forall>t c. c < tier_count t \<longrightarrow> fleet_tier e t c g (map (part_of t c) cs) (H t c) (D t c))"

definition fleet :: "cache_env \<Rightarrow> blocks \<Rightarrow> blocks \<Rightarrow> thread_cache list \<Rightarrow> globals \<Rightarrow> bool" where
  "fleet e H D cs g \<longleftrightarrow> fleet_parts e H D cs g \<and> (\<forall>tc \<in> set cs. bytes_ok tc)"

lemma all_tiers: "(\<forall>t c. c < tier_count t \<longrightarrow> P t c) \<longleftrightarrow> (\<forall>c < NUM_CLASSES. P Small c) \<and> (\<forall>c < NUM_MEDIUM. P Medium c) \<and> (\<forall>c < NUM_BIG. P Big c)"
proof -
  have "(\<forall>t. Q t) \<longleftrightarrow> Q Small \<and> Q Medium \<and> Q Big" for Q by (metis tier.exhaust)
  then show ?thesis by simp
qed

lemma cache_inv_tiers:
  "cache_inv e H D (tc, g) \<longleftrightarrow> heaps_ok g \<and> cache_shape tc \<and> bytes_ok tc
    \<and> (\<forall>t c. c < tier_count t \<longrightarrow> pair_tier e t c g (part_of t c tc) (H t c) (D t c))"
  unfolding all_tiers
  by (auto simp: cache_inv_def shape_ok_def heaps_ok_def cache_shape_def small_ok_def medium_ok_def big_ok_def pair_state_new)

text \<open>One cache of the fleet, with the blocks \<open>B\<close> of the others counted as held.\<close>

lemma fleet_split:
  assumes "fleet e H D (tc # cs) g"
  shows "\<exists>B. cache_inv e (sup H B) D (tc, g) \<and> (\<forall>t c. H t c \<inter> B t c = {})
    \<and> (\<forall>tc' g' H' D'. cache_inv e (sup H' B) D' (tc', g') \<longrightarrow> (\<forall>t c. H' t c \<inter> B t c = {})
         \<longrightarrow> cache_kept B (tc, g) D (tc', g') D' \<longrightarrow> fleet e H' D' (tc' # cs) g')"
proof -
  note f = assms [unfolded fleet_def fleet_parts_def]
  define ok where "ok t c B \<longleftrightarrow> pair_tier e t c g (part_of t c tc) (H t c \<union> B) (D t c) \<and> H t c \<inter> B = {}
    \<and> (\<forall>g' p' X' Y'. pair_tier e t c g' p' (X' \<union> B) Y' \<longrightarrow> X' \<inter> B = {} \<longrightarrow> kept B (tier_words t c g) (D t c) (tier_words t c g') Y'
         \<longrightarrow> fleet_tier e t c g' (p' # map (part_of t c) cs) X' Y')" for t c B
  define B where "B t c = (if c < tier_count t then SOME B. ok t c B else {})" for t c
  have B: "ok t c (B t c)" if "c < tier_count t" for t c
  proof -
    have "\<exists>B. ok t c B" unfolding ok_def by (rule fleet_tier_split) (use f that in simp)
    then show ?thesis using that by (simp add: B_def someI_ex)
  qed
  have "cache_inv e (sup H B) D (tc, g)" using f B by (simp add: cache_inv_tiers ok_def)
  moreover have "H t c \<inter> B t c = {}" for t c using B [of c t] by (cases "c < tier_count t") (simp_all add: B_def ok_def)
  moreover have "fleet e H' D' (tc' # cs) g'"
    if i: "cache_inv e (sup H' B) D' (tc', g')" and d: "\<forall>t c. H' t c \<inter> B t c = {}" and k: "cache_kept B (tc, g) D (tc', g') D'" for tc' g' H' D'
  proof -
    have "fleet_tier e t c g' (map (part_of t c) (tc' # cs)) (H' t c) (D' t c)" if "c < tier_count t" for t c
    proof -
      have "pair_tier e t c g' (part_of t c tc') (H' t c \<union> B t c) (D' t c)" using i that by (simp add: cache_inv_tiers)
      moreover have "kept (B t c) (tier_words t c g) (D t c) (tier_words t c g') (D' t c)" using k by (simp add: cache_kept_def)
      ultimately show ?thesis using B [OF that, unfolded ok_def] d by (simp del: split_paired_All)
    qed
    then show ?thesis using f i by (simp add: fleet_def fleet_parts_def cache_inv_tiers)
  qed
  ultimately show ?thesis by blast
qed

lemma fleet_parts_perm:
  assumes "fleet_parts e H D cs g" "mset cs' = mset cs"
  shows "fleet_parts e H D cs' g"
proof -
  have "fleet_tier e t c g (map (part_of t c) cs') (H t c) (D t c)" if "c < tier_count t" for t c
  proof (rule fleet_tier_perm)
    show "fleet_tier e t c g (map (part_of t c) cs) (H t c) (D t c)" using assms(1) that by (simp add: fleet_parts_def)
  qed (simp add: assms(2))
  then show ?thesis using assms(1) mset_eq_setD [OF assms(2)] by (simp add: fleet_parts_def)
qed

lemma fleet_perm: "fleet e H D cs g \<Longrightarrow> mset cs' = mset cs \<Longrightarrow> fleet e H D cs' g"
  unfolding fleet_def using fleet_parts_perm mset_eq_setD by blast

text \<open>A cache that holds nothing joins and leaves freely.\<close>

definition no_blocks :: "thread_cache \<Rightarrow> bool" where
  "no_blocks tc \<longleftrightarrow> cache_shape tc \<and> bytes_ok tc \<and> (\<forall>t c. c < tier_count t \<longrightarrow> (\<exists>sp. part_of t c tc = (bin_new, sp, bin_new)))"

lemma fleet_none: "no_blocks tc \<Longrightarrow> fleet e H D (tc # cs) g \<longleftrightarrow> fleet e H D cs g"
  unfolding fleet_def fleet_parts_def no_blocks_def
  by (intro iffI conjI allI impI) (auto simp: fleet_tier_new | metis fleet_tier_new list.map(2))+


section \<open>Caches that hold nothing\<close>

lemma weigh_zeroD: "weigh sizes lens = 0 \<Longrightarrow> c < length sizes \<Longrightarrow> \<forall>x \<in> set sizes. 0 < x \<Longrightarrow> lens ! c = 0"
  using weigh_part [of c sizes lens] nth_mem [of c sizes] by fastforce

lemma bytes_zeroD:
  assumes "bytes_ok tc" "cached_bytes tc = 0" "cache_shape tc"
  shows "c < NUM_CLASSES \<Longrightarrow> b_len (tc_bins tc ! c) = 0"
    "c < NUM_MEDIUM \<Longrightarrow> b_len (mbins tc ! c) = 0 \<and> b_len (av_bin (mactive tc ! c)) = 0"
    "c < NUM_BIG \<Longrightarrow> b_len (bigbins tc ! c) = 0 \<and> b_len (av_bin (bactive tc ! c)) = 0"
proof -
  have z: "weigh CLASSES (lens_of (tc_bins tc)) = 0" "weigh MEDIUM_CLASSES (active_lens (mactive tc)) = 0"
    "weigh MEDIUM_CLASSES (lens_of (mbins tc)) = 0" "weigh BIG_CLASSES (active_lens (bactive tc)) = 0"
    "weigh BIG_CLASSES (lens_of (bigbins tc)) = 0"
    using assms(1,2) by (simp_all add: bytes_ok_def actual_tier_bytes_def)
  show "c < NUM_CLASSES \<Longrightarrow> b_len (tc_bins tc ! c) = 0"
    using weigh_zeroD [OF z(1), of c] class_sizes_pos assms(3) by (simp add: cache_shape_def)
  show "c < NUM_MEDIUM \<Longrightarrow> b_len (mbins tc ! c) = 0 \<and> b_len (av_bin (mactive tc ! c)) = 0"
    using weigh_zeroD [OF z(2), of c] weigh_zeroD [OF z(3), of c] class_sizes_pos assms(3) by (simp add: cache_shape_def)
  show "c < NUM_BIG \<Longrightarrow> b_len (bigbins tc ! c) = 0 \<and> b_len (av_bin (bactive tc ! c)) = 0"
    using weigh_zeroD [OF z(4), of c] weigh_zeroD [OF z(5), of c] class_sizes_pos assms(3) by (simp add: cache_shape_def)
qed

lemma no_blocksI:
  assumes inv: "cache_inv e H D (tc, g)" and z: "cached_bytes tc = 0"
  shows "no_blocks tc"
proof -
  have ok: "cache_shape tc" "bytes_ok tc" using inv by (simp_all add: cache_inv_tiers)
  note l = bytes_zeroD [OF ok(2) z ok(1)]
  have "tc_bins tc ! c = bin_new" if "c < NUM_CLASSES" for c
    using bin_state_empty [OF inv_bins(1) [OF inv that]] l(1) [OF that] by simp
  moreover have "mbins tc ! c = bin_new \<and> av_bin (mactive tc ! c) = bin_new" if "c < NUM_MEDIUM" for c
    using pair_state_empty [OF inv_bins(2) [OF inv that]] l(2) [OF that] by simp
  moreover have "bigbins tc ! c = bin_new \<and> av_bin (bactive tc ! c) = bin_new" if "c < NUM_BIG" for c
    using pair_state_empty [OF inv_bins(3) [OF inv that]] l(3) [OF that] by simp
  ultimately show ?thesis using ok unfolding no_blocks_def all_tiers by simp
qed

lemma no_blocks_shape:
  assumes "tc_bins tc = replicate NUM_CLASSES bin_new" "mbins tc = replicate NUM_MEDIUM bin_new" "mactive tc = replicate NUM_MEDIUM active_new"
    "bigbins tc = replicate NUM_BIG bin_new" "bactive tc = replicate NUM_BIG active_new" "cached_bytes tc = 0" "tier_cached_bytes tc = 0"
  shows "no_blocks tc"
proof -
  have w: "weigh CLASSES (replicate NUM_CLASSES 0) = 0" "weigh MEDIUM_CLASSES (replicate NUM_MEDIUM 0) = 0"
    "weigh BIG_CLASSES (replicate NUM_BIG 0) = 0"
    by (rule weigh_new; auto)+
  have "bytes_ok tc" by (simp add: bytes_ok_def actual_tier_bytes_def assms active_new_def bin_new_def w)
  moreover have "cache_shape tc" using assms by (simp add: cache_shape_def active_new_def bin_new_def)
  ultimately show ?thesis using assms unfolding no_blocks_def all_tiers by (simp add: active_new_def)
qed

lemma no_blocks_emptied: "emptied tc tc' \<Longrightarrow> no_blocks tc'"
  by (rule no_blocks_shape) (simp_all add: emptied_def)

lemma no_blocks_new: "no_blocks thread_cache_new"
  by (rule no_blocks_shape) (simp_all add: thread_cache_new_def)

lemma fleet_empty:
  assumes "fleet e H D (tc # cs) g" "cached_bytes tc = 0"
  shows "no_blocks tc"
  using fleet_split [OF assms(1)] no_blocksI assms(2) by blast

section \<open>Flushing one of them\<close>

definition globals_kept :: "blocks \<Rightarrow> globals \<Rightarrow> blocks \<Rightarrow> globals \<Rightarrow> blocks \<Rightarrow> bool" where
  "globals_kept H g D g' D' \<longleftrightarrow> (\<forall>t c. kept (H t c) (tier_words t c g) (D t c) (tier_words t c g') (D' t c))"

lemma globals_kept_cache: "cache_kept H s D s' D' \<longleftrightarrow> globals_kept H (snd s) D (snd s') D'"
  by (simp add: cache_kept_def globals_kept_def)

lemma globals_kept_refl [simp]: "globals_kept H g D g D"
  by (simp add: globals_kept_def)

lemma globals_kept_trans: "globals_kept H g D g1 D1 \<Longrightarrow> globals_kept H g1 D1 g2 D2 \<Longrightarrow> globals_kept H g D g2 D2"
  unfolding globals_kept_def by (blast intro: kept_trans)

lemma globals_kept_sup: "globals_kept (sup H B) g D g' D' \<Longrightarrow> globals_kept H g D g' D' \<and> globals_kept B g D g' D'"
  unfolding globals_kept_def by (auto intro: kept_sub)

lemma fleet_flush:
  assumes "fleet e H D (tc # cs) g"
  shows "\<exists>tc' g' D'. flush_all e (tc, g) = Some (tc', g') \<and> fleet e H D' (tc' # cs) g' \<and> globals_kept H g D g' D' \<and> emptied tc tc'
    \<and> gl_retired g' = gl_retired g \<and> gl_ready g' = gl_ready g"
proof -
  obtain B where B: "cache_inv e (sup H B) D (tc, g)" "\<forall>t c. H t c \<inter> B t c = {}"
    "\<forall>tc' g' H' D'. cache_inv e (sup H' B) D' (tc', g') \<longrightarrow> (\<forall>t c. H' t c \<inter> B t c = {})
         \<longrightarrow> cache_kept B (tc, g) D (tc', g') D' \<longrightarrow> fleet e H' D' (tc' # cs) g'"
    using fleet_split [OF assms] by blast
  obtain tc' g' D' where f: "flush_all e (tc, g) = Some (tc', g')" "cache_inv e (sup H B) D' (tc', g')"
    "cache_kept (sup H B) (tc, g) D (tc', g') D'" "emptied tc tc'" "gl_retired g' = gl_retired g" "gl_ready g' = gl_ready g"
    using flush_all_facts [OF B(1)] unfolding split_paired_Ex fst_conv snd_conv by (elim exE conjE)
  have k: "globals_kept H g D g' D'" "globals_kept B g D g' D'"
    using globals_kept_sup [of H B g D g' D'] f(3) by (simp_all add: globals_kept_cache)
  have "fleet e H D' (tc' # cs) g'" using B(2,3) f(2) k(2) by (simp add: globals_kept_cache)
  then show ?thesis using f k(1) by blast
qed

section \<open>The slots\<close>

definition adoptable :: "globals \<Rightarrow> thread_cache list" where
  "adoptable g = List.map_filter id (gl_retired g)"

definition slots_ok :: "globals \<Rightarrow> bool" where
  "slots_ok g \<longleftrightarrow> gl_ready g = length (adoptable g) \<and> length (gl_retired g) = RETIRED_SLOT_COUNT"

definition same_heaps :: "globals \<Rightarrow> globals \<Rightarrow> bool" where
  "same_heaps g g' \<longleftrightarrow> gl_small g' = gl_small g \<and> gl_medium g' = gl_medium g \<and> gl_big g' = gl_big g"

lemma same_heaps_fleet: "same_heaps g g' \<Longrightarrow> fleet e H D cs g' = fleet e H D cs g"
  unfolding fleet_def fleet_parts_def all_tiers by (simp add: same_heaps_def heaps_ok_def)

lemma same_heaps_words: "same_heaps g g' \<Longrightarrow> tier_words t c g' = tier_words t c g"
  by (cases t) (simp_all add: same_heaps_def)

lemma same_heaps_kept:
  "same_heaps g g1 \<Longrightarrow> globals_kept H g1 D g' D' = globals_kept H g D g' D'"
  "same_heaps g' g1 \<Longrightarrow> globals_kept H g D g1 D' = globals_kept H g D g' D'"
  by (simp_all add: globals_kept_def same_heaps_words)

lemma first_slot_some: "first_slot P g = Some i \<Longrightarrow> i < length (gl_retired g) \<and> P (gl_retired g ! i)"
  by (auto simp: first_slot_def find_Some_iff)

lemma first_slot_none: "first_slot P g = None \<Longrightarrow> x \<in> set (gl_retired g) \<Longrightarrow> \<not> P x"
  by (auto simp: first_slot_def find_None_iff in_set_conv_nth)

lemma map_filter_update:
  "i < length xs \<Longrightarrow> mset (List.map_filter id (xs[i := x])) + mset (List.map_filter id [xs ! i])
     = mset (List.map_filter id xs) + mset (List.map_filter id [x])"
proof (induction xs arbitrary: i)
  case (Cons y ys)
  then show ?case by (cases i) (auto simp: map_filter_simps ac_simps split: option.splits)
qed simp

lemma parked_length: "length (adoptable g) \<le> length (gl_retired g)"
  by (simp add: adoptable_def map_filter_def)

lemma take_one_some:
  assumes "take_one g = (Some a, g')" "slots_ok g"
  shows "mset (adoptable g) = add_mset a (mset (adoptable g')) \<and> slots_ok g' \<and> same_heaps g g'"
proof -
  obtain i where i: "gl_ready g \<noteq> 0" "first_slot (\<lambda>x. x \<noteq> None) g = Some i" "gl_retired g ! i = Some a"
    "g' = g\<lparr>gl_retired := (gl_retired g)[i := None], gl_ready := sub_w 64 (gl_ready g) 1\<rparr>"
    using assms(1) by (auto simp: take_one_def split: if_splits option.splits)
  have "mset (adoptable g) = add_mset a (mset (adoptable g'))"
    using map_filter_update [of i "gl_retired g" None] first_slot_some [OF i(2)] by (simp add: adoptable_def i(3,4) map_filter_simps)
  then have m: "mset (adoptable g) = add_mset a (mset (adoptable g'))" "length (adoptable g) = Suc (length (adoptable g'))"
    by (auto dest: arg_cong [where f = size])
  have "gl_ready g = Suc (length (adoptable g'))" "Suc (length (adoptable g')) \<le> 8" "length (gl_retired g) = RETIRED_SLOT_COUNT"
    using assms(2) parked_length [of g] m(2) by (simp_all add: slots_ok_def const_simps)
  moreover have "gl_ready g' = sub_w 64 (gl_ready g) 1" "length (gl_retired g') = length (gl_retired g)" by (simp_all add: i(4))
  ultimately have "slots_ok g'" unfolding slots_ok_def by simp
  then show ?thesis using m by (simp add: same_heaps_def i(4))
qed

lemma take_one_none:
  assumes "take_one g = (None, g')" "slots_ok g"
  shows "g' = g \<and> adoptable g = []"
proof (cases "gl_ready g = 0")
  case True
  then show ?thesis using assms by (simp add: take_one_def slots_ok_def)
next
  case False
  then have n: "first_slot (\<lambda>x. x \<noteq> None) g = None \<and> g' = g"
    using assms(1) first_slot_some by (fastforce simp: take_one_def split: option.splits)
  then have "\<forall>x \<in> set (gl_retired g). x = None" using first_slot_none by blast
  then have "adoptable g = []" by (simp add: adoptable_def map_filter_def filter_empty_conv)
  then show ?thesis using n by blast
qed

text \<open>The caches \<open>cs\<close> of running threads, and those parked.\<close>

definition fleet_inv :: "cache_env \<Rightarrow> blocks \<Rightarrow> blocks \<Rightarrow> thread_cache list \<Rightarrow> globals \<Rightarrow> bool" where
  "fleet_inv e H D cs g \<longleftrightarrow> fleet e H D (cs @ adoptable g) g \<and> slots_ok g"

lemma fleet_take:
  assumes "fleet_inv e H D cs g" "take_one g = (Some a, g')"
  shows "fleet_inv e H D (a # cs) g' \<and> length (adoptable g') < length (adoptable g) \<and> same_heaps g g'"
proof -
  have s: "fleet e H D (cs @ adoptable g) g" "slots_ok g" using assms(1) by (simp_all add: fleet_inv_def)
  note t = take_one_some [OF assms(2) s(2)]
  then have "mset (a # cs @ adoptable g') = mset (cs @ adoptable g)" by simp
  then have "fleet e H D (a # cs @ adoptable g') g" using fleet_perm [OF s(1)] by blast
  moreover have "length (adoptable g) = Suc (length (adoptable g'))" using t by (metis size_add_mset size_mset)
  ultimately show ?thesis using t same_heaps_fleet [of g g'] by (simp add: fleet_inv_def)
qed

lemma parked_same: "gl_retired g' = gl_retired g \<Longrightarrow> gl_ready g' = gl_ready g \<Longrightarrow> adoptable g' = adoptable g \<and> slots_ok g' = slots_ok g"
  by (simp add: adoptable_def slots_ok_def)

lemma inv_flush:
  assumes "fleet_inv e H D (tc # cs) g"
  shows "\<exists>tc' g' D'. flush_all e (tc, g) = Some (tc', g') \<and> fleet_inv e H D' (tc' # cs) g' \<and> fleet_inv e H D' cs g'
    \<and> globals_kept H g D g' D' \<and> emptied tc tc' \<and> adoptable g' = adoptable g"
proof -
  have "fleet e H D (tc # (cs @ adoptable g)) g" using assms by (simp add: fleet_inv_def)
  from fleet_flush [OF this] obtain tc' g' D' where f: "flush_all e (tc, g) = Some (tc', g')" "fleet e H D' (tc' # cs @ adoptable g) g'"
    "globals_kept H g D g' D'" "emptied tc tc'" "gl_retired g' = gl_retired g" "gl_ready g' = gl_ready g"
    by blast
  note p = parked_same [OF f(5,6)]
  have "fleet e H D' (cs @ adoptable g) g'" using f(2) fleet_none [OF no_blocks_emptied [OF f(4)]] by blast
  then have "fleet_inv e H D' (tc' # cs) g'" "fleet_inv e H D' cs g'" using f(2) p assms by (simp_all add: fleet_inv_def)
  then show ?thesis using f(1,3,4) p by blast
qed

end
