(* ===== verification/Fleet_Adopt.thy ===== *)
theory Fleet_Adopt
  imports Fleet Tls_Guard
begin

text \<open>
  Handing over: a dying thread's cache is retired, flushed or dropped (\<open>retire\<close>), and a running thread adopts a
  retired cache whole, takes over its small bins, or has it flushed (\<open>reclaim_retired\<close>, \<open>reclaim_all\<close> of
  \<open>src/src/cache.rs\<close>).  No block is lost on the way and none is held twice.
\<close>

section \<open>Adopting to flush\<close>

lemma reclaim_one_ok:
  assumes "fleet_inv e H D cs g"
  shows "\<exists>b g' D'. reclaim_one e g = Some (b, g') \<and> fleet_inv e H D' cs g' \<and> globals_kept H g D g' D'
    \<and> (if b then length (adoptable g') < length (adoptable g) else g' = g \<and> adoptable g = [])"
proof (cases "take_one g")
  case (Pair x g1)
  show ?thesis
  proof (cases x)
    case None
    have n: "g1 = g \<and> adoptable g = []"
      by (rule take_one_none) (use Pair None assms in \<open>simp_all add: fleet_inv_def\<close>)
    then have "reclaim_one e g = Some (False, g)" using Pair None by (simp add: reclaim_one_def)
    then show ?thesis using n assms globals_kept_refl by (metis (full_types))
  next
    case (Some a)
    then have t: "take_one g = (Some a, g1)" using Pair by simp
    note f = fleet_take [OF assms t]
    then obtain tc' g' D' where r: "flush_all e (a, g1) = Some (tc', g')" "fleet_inv e H D' cs g'" "globals_kept H g1 D g' D'"
      "adoptable g' = adoptable g1"
      using inv_flush by blast
    have "reclaim_one e g = Some (True, g')" by (simp add: reclaim_one_def t r(1))
    moreover have "globals_kept H g D g' D'" using r(3) same_heaps_kept(1) f by blast
    ultimately show ?thesis using r(2,4) f by (intro exI [of _ True] exI [of _ g'] exI [of _ D']) simp
  qed
qed

lemma reclaim_all_ok:
  assumes "fleet_inv e H D cs g"
  shows "\<exists>g' D'. reclaim_all e g = Some g' \<and> fleet_inv e H D' cs g' \<and> globals_kept H g D g' D' \<and> adoptable g' = []"
  using assms
proof (induction "length (adoptable g)" arbitrary: g D rule: less_induct)
  case less
  obtain b g1 D1 where r: "reclaim_one e g = Some (b, g1)" "fleet_inv e H D1 cs g1" "globals_kept H g D g1 D1"
    "if b then length (adoptable g1) < length (adoptable g) else g1 = g \<and> adoptable g = []"
    using reclaim_one_ok [OF less.prems] by blast
  show ?case
  proof (cases b)
    case True
    then obtain g' D' where "reclaim_all e g1 = Some g'" "fleet_inv e H D' cs g'" "globals_kept H g1 D1 g' D'" "adoptable g' = []"
      using less.hyps [OF _ r(2)] r(4) by auto
    moreover have "reclaim_all e g = reclaim_all e g1" using r(1) True by (subst reclaim_all.simps) simp
    ultimately show ?thesis using globals_kept_trans [OF r(3)] by metis
  next
    case False
    then have "reclaim_all e g = Some g1" using r(1) by (subst reclaim_all.simps) simp
    then show ?thesis using False r by auto
  qed
qed

section \<open>Flushing does not read the byte counts\<close>

text \<open>
  After a part of its bins was taken over, an adopted cache is flushed with the byte counts it had before.  They
  are not read, and reset at the end.
\<close>

definition forget :: "cache_state \<Rightarrow> cache_state" where
  "forget s = ((fst s)\<lparr>cached_bytes := 0, tier_cached_bytes := 0\<rparr>, snd s)"

definition forgetful :: "(cache_state \<Rightarrow> cache_state option) \<Rightarrow> bool" where
  "forgetful f \<longleftrightarrow> (\<forall>s. map_option forget (f (forget s)) = map_option forget (f s))"

lemma forgetfulD: "forgetful f \<Longrightarrow> map_option forget (f (forget s)) = map_option forget (f s)"
  unfolding forgetful_def by blast

lemma forgetful_same:
  assumes "forgetful f" "forget s = forget s'"
  shows "map_option forget (f s) = map_option forget (f s')"
  using assms unfolding forgetful_def by metis

lemma forgetful_bind:
  assumes "forgetful f" "\<And>s. forgetful g"
  shows "forgetful (\<lambda>s. do { s' \<leftarrow> f s; g s' })"
  unfolding forgetful_def
proof
  fix s
  have e: "map_option forget (f (forget s)) = map_option forget (f s)" by (rule forgetfulD [OF assms(1)])
  show "map_option forget (do { s' \<leftarrow> f (forget s); g s' }) = map_option forget (do { s' \<leftarrow> f s; g s' })"
  proof (cases "f s")
    case (Some s1)
    then obtain s2 where s2: "f (forget s) = Some s2" "forget s2 = forget s1" using e by auto
    show ?thesis by (simp add: Some s2(1)) (rule forgetful_same [OF assms(2) s2(2)])
  qed (use e in simp)
qed

lemma forgetful_each:
  assumes "\<And>i. forgetful (f i)"
  shows "forgetful (each f js)"
proof (induction js)
  case (Cons i js)
  have "each f (i # js) = (\<lambda>s. do { s' \<leftarrow> f i s; each f js s' })" by (rule ext) (simp split: option.split)
  then show ?case using forgetful_bind [OF assms Cons] by simp
qed (simp add: forgetful_def forget_def)

lemma forgetful_if:
  assumes "\<And>s. P (forget s) = P s" "forgetful f" "forgetful g"
  shows "forgetful (\<lambda>s. if P s then f s else g s)"
  unfolding forgetful_def assms(1) using assms(2,3) by (simp add: forgetfulD)

lemma forgetful_some: "forgetful Some"
  by (simp add: forgetful_def forget_def)

lemma forgetful_flush_bin_exit: "forgetful (flush_bin_exit e c)"
  by (simp add: forgetful_def forget_def flush_bin_exit_def flush_bin_def less_bytes_def set_small_def Let_def split: option.split prod.split)

lemma forgetful_flush_mbin: "forgetful (flush_mbin e c n)"
  by (simp add: forgetful_def forget_def flush_mbin_def less_tier_bytes_def set_mbin_def Let_def split: option.split prod.split)

lemma forgetful_flush_bbin: "forgetful (flush_bbin e c n)"
  by (simp add: forgetful_def forget_def flush_bbin_def less_tier_bytes_def set_bbin_def Let_def split: option.split prod.split)

lemma forgetful_flush_active_medium: "forgetful (flush_active_medium e c)"
  by (simp add: forgetful_def forget_def flush_active_medium_def less_tier_bytes_def set_mactive_def Let_def split: option.split)

lemma forgetful_flush_active_big: "forgetful (flush_active_big e c)"
  by (simp add: forgetful_def forget_def flush_active_big_def less_tier_bytes_def set_bactive_def Let_def split: option.split)

lemmas forgetful_flushes = forgetful_flush_bin_exit forgetful_flush_mbin forgetful_flush_bbin forgetful_flush_active_medium
  forgetful_flush_active_big forgetful_some

lemma forget_heads:
  "tc_bins (fst (forget s)) = tc_bins (fst s)" "mbins (fst (forget s)) = mbins (fst s)" "mactive (fst (forget s)) = mactive (fst s)"
  "bigbins (fst (forget s)) = bigbins (fst s)" "bactive (fst (forget s)) = bactive (fst s)"
  by (simp_all add: forget_def)

lemma reset_forget: "stash_drain (flush_reset (forget s)) = stash_drain (flush_reset s)"
  by (simp add: forget_def flush_reset_def Let_def)

lemma flush_all_forget: "flush_all e (forget s) = flush_all e s"
proof -
  let ?f1 = "\<lambda>c s. if b_head (tc_bins (fst s) ! c) \<noteq> null then flush_bin_exit e c s else Some s"
  let ?f2 = "\<lambda>c s. if b_head (av_bin (mactive (fst s) ! c)) = null then Some s else flush_active_medium e c s"
  let ?f3 = "\<lambda>c s. if b_head (mbins (fst s) ! c) \<noteq> null then flush_mbin e c 0 s else Some s"
  let ?f4 = "\<lambda>c s. do { s' \<leftarrow> (if b_head (av_bin (bactive (fst s) ! c)) \<noteq> null then flush_active_big e c s else Some s);
                        if b_head (bigbins (fst s') ! c) \<noteq> null then flush_bbin e c 0 s' else Some s' }"
  let ?f = "\<lambda>s. do { s1 \<leftarrow> each ?f1 [0..<NUM_CLASSES] s; s2 \<leftarrow> each ?f2 [0..<NUM_MEDIUM] s1;
    s3 \<leftarrow> each ?f3 [0..<NUM_MEDIUM] s2; each ?f4 [0..<NUM_BIG] s3 }"
  have "forgetful ?f"
    by (intro forgetful_bind forgetful_each forgetful_if forgetful_flushes) (simp_all add: forget_heads)
  then have r: "map_option forget (?f (forget s)) = map_option forget (?f s)" by (rule forgetfulD)
  have a: "flush_all e s = map_option (\<lambda>s. stash_drain (flush_reset s)) (?f s)" for s
    by (simp add: flush_all_def bind_assoc map_conv_bind_option o_def)
  have "flush_all e s = map_option (\<lambda>s. stash_drain (flush_reset s)) (map_option forget (?f s))" for s
    unfolding a option.map_comp o_def reset_forget ..
  then show ?thesis using r by (simp only:)
qed


section \<open>Taking over small bins\<close>

lemma fleet_parts_pair:
  assumes "fleet_parts e H D (tc # cs) g" "c < tier_count t"
  shows "\<exists>X. pair_tier e t c g (part_of t c tc) X (D t c)"
proof -
  have "fleet_tier e t c g (part_of t c tc # map (part_of t c) cs) (H t c) (D t c)"
    using assms by (simp add: fleet_parts_def)
  from fleet_tier_split [OF this] show ?thesis by blast
qed

lemma part_bins_null:
  assumes "fleet_parts e H D (tc # cs) g" "c < NUM_CLASSES" "b_head (tc_bins tc ! c) = null"
  shows "tc_bins tc ! c = bin_new"
proof -
  obtain X where "pair_state (small_st e c) (\<lambda>_. null) (gl_small g ! c) (tc_bins tc ! c) null bin_new X (D Small c)"
    using fleet_parts_pair [OF assms(1), of c Small] assms(2) by auto
  then show ?thesis using pair_state_heads(1) pair_state_empty(1) assms(3) by metis
qed

definition with_bin :: "nat \<Rightarrow> bin \<Rightarrow> thread_cache \<Rightarrow> thread_cache" where
  "with_bin c b tc = tc\<lparr>tc_bins := (tc_bins tc)[c := b]\<rparr>"

lemma part_with_bin:
  "c < length (tc_bins tc) \<Longrightarrow> part_of t c' (with_bin c b tc) = (if t = Small \<and> c' = c then (b, null, bin_new) else part_of t c' tc)"
  by (cases t) (auto simp: with_bin_def)

lemma shape_with_bin [simp]: "cache_shape (with_bin c b tc) = cache_shape tc"
  by (simp add: cache_shape_def with_bin_def)

text \<open>Two caches of the fleet exchange a bin with an empty one.\<close>

lemma move_bin:
  assumes f: "fleet_parts e H D (tc # other # cs) g" and c: "c < NUM_CLASSES" and z: "b_head (tc_bins tc ! c) = null"
  shows "fleet_parts e H D (with_bin c (tc_bins other ! c) tc # with_bin c bin_new other # cs) g"
proof -
  let ?tc = "with_bin c (tc_bins other ! c) tc" and ?o = "with_bin c bin_new other"
  have l: "c < length (tc_bins tc)" "c < length (tc_bins other)" using f c by (simp_all add: fleet_parts_def cache_shape_def)
  have n: "tc_bins tc ! c = bin_new" by (rule part_bins_null [OF f c z])
  have "fleet_tier e t c' g (map (part_of t c') (?tc # ?o # cs)) (H t c') (D t c')" if c': "c' < tier_count t" for t c'
  proof (rule fleet_tier_perm)
    show "fleet_tier e t c' g (map (part_of t c') (tc # other # cs)) (H t c') (D t c')"
      using f c' by (simp add: fleet_parts_def del: list.map)
    show "mset (map (part_of t c') (?tc # ?o # cs)) = mset (map (part_of t c') (tc # other # cs))"
      using l n by (simp add: part_with_bin)
  qed
  then show ?thesis using f unfolding fleet_parts_def by simp
qed

lemma weigh_more:
  assumes "bytes_ok tc" "c < NUM_CLASSES" "cache_shape tc" "tc_bins tc ! c = bin_new"
  shows "bytes_ok ((with_bin c b tc)\<lparr>cached_bytes := cached_bytes tc + CLASSES ! c * b_len b\<rparr>)"
  using assms weigh_update [of c CLASSES "lens_of (tc_bins tc)" "b_len b"]
  by (simp add: bytes_ok_def actual_tier_bytes_def with_bin_def cache_shape_def map_update bin_new_def)

lemma fleet_parts_bytes:
  "fleet_parts e H D (tc\<lparr>cached_bytes := x\<rparr> # cs) g = fleet_parts e H D (tc # cs) g"
proof -
  have "part_of t c (tc\<lparr>cached_bytes := x\<rparr>) = part_of t c tc" for t c by (cases t) simp_all
  moreover have "cache_shape (tc\<lparr>cached_bytes := x\<rparr>) = cache_shape tc" by (simp add: cache_shape_def)
  ultimately show ?thesis by (simp add: fleet_parts_def)
qed

lemma steal_bins_ok:
  assumes "fleet_parts e H D (tc # other # cs) g" "bytes_ok tc" "\<forall>c \<in> set js. c < NUM_CLASSES" "steal_bins js tc other n = (tc', rest, m)"
  shows "fleet_parts e H D (tc' # rest # cs) g \<and> bytes_ok tc'"
  using assms
proof (induction js arbitrary: tc other n)
  case (Cons c js)
  show ?case
  proof (cases "steals tc other c")
    case True
    let ?b = "tc_bins other ! c"
    let ?tc = "(with_bin c ?b tc)\<lparr>cached_bytes := cached_bytes tc + CLASSES ! c * b_len ?b\<rparr>"
    have c: "c < NUM_CLASSES" using Cons.prems(3) by simp
    have h: "b_head (tc_bins tc ! c) = null" using True by (simp add: steals_def)
    have "fleet_parts e H D (?tc # with_bin c bin_new other # cs) g"
      unfolding fleet_parts_bytes by (rule move_bin [OF Cons.prems(1) c h])
    moreover have "bytes_ok ?tc"
      by (rule weigh_more [OF Cons.prems(2) c _ part_bins_null [OF Cons.prems(1) c h]]) (use Cons.prems(1) in \<open>simp add: fleet_parts_def\<close>)
    moreover have "steal_bins js ?tc (with_bin c bin_new other) (n + CLASSES ! c * b_len ?b) = (tc', rest, m)"
      using Cons.prems(4) True by (simp add: with_bin_def Let_def)
    ultimately show ?thesis using Cons.prems(3) by (intro Cons.IH) simp_all
  qed (use Cons in simp)
qed simp

text \<open>The byte counts of a cache made right again, for the proof only.\<close>

definition recount :: "thread_cache \<Rightarrow> thread_cache" where
  "recount tc = tc\<lparr>cached_bytes := weigh CLASSES (lens_of (tc_bins tc)) + actual_tier_bytes tc, tier_cached_bytes := actual_tier_bytes tc\<rparr>"

lemma recount_bytes: "bytes_ok (recount tc)"
  by (simp add: recount_def bytes_ok_def actual_tier_bytes_def)

lemma recount_fleet: "fleet_parts e H D (tc # cs) g \<Longrightarrow> \<forall>c \<in> set cs. bytes_ok c \<Longrightarrow> fleet e H D (recount tc # cs) g"
proof -
  have "part_of t c (recount tc) = part_of t c tc" for t c by (cases t) (simp_all add: recount_def)
  moreover have "cache_shape (recount tc) = cache_shape tc" by (simp add: cache_shape_def recount_def)
  ultimately show "fleet_parts e H D (tc # cs) g \<Longrightarrow> \<forall>c \<in> set cs. bytes_ok c \<Longrightarrow> fleet e H D (recount tc # cs) g"
    by (simp add: fleet_def fleet_parts_def recount_bytes)
qed

lemma recount_flush: "flush_all e (recount tc, g) = flush_all e (tc, g)"
  using flush_all_forget [of e "(recount tc, g)"] flush_all_forget [of e "(tc, g)"] by (simp add: forget_def recount_def)

lemma steal_flush:
  assumes f: "fleet_inv e H D (other # tc # cs) g" and s: "steal_empty_bins tc other = (tc', rest, m)"
  shows "\<exists>x g' D'. flush_all e (rest, g) = Some (x, g') \<and> fleet_inv e H D' (tc' # cs) g' \<and> globals_kept H g D g' D'"
proof -
  have i: "fleet e H D (other # tc # cs @ adoptable g) g" "slots_ok g" using f by (simp_all add: fleet_inv_def)
  have swap: "fleet e H D (tc # other # cs @ adoptable g) g" by (rule fleet_perm [OF i(1)]) simp
  then have p: "fleet_parts e H D (tc # other # cs @ adoptable g) g" "bytes_ok tc" "\<forall>x \<in> set (cs @ adoptable g). bytes_ok x" "length (tc_bins tc) = NUM_CLASSES"
    by (simp_all add: fleet_def fleet_parts_def cache_shape_def)
  have r: "fleet_parts e H D (tc' # rest # cs @ adoptable g) g" "bytes_ok tc'"
    using steal_bins_ok [OF p(1,2) _ s [unfolded steal_empty_bins_def]] p(4) by simp_all
  have "fleet_parts e H D (rest # tc' # cs @ adoptable g) g"
    by (rule fleet_parts_perm [OF r(1)]) simp
  then have "fleet_inv e H D (recount rest # tc' # cs) g"
    using recount_fleet r(2) p(3) i(2) by (simp add: fleet_inv_def)
  from inv_flush [OF this] show ?thesis unfolding recount_flush by blast
qed

section \<open>What a refill does first\<close>

lemma fleet_part_cong:
  assumes "\<And>t c. part_of t c tc' = part_of t c tc" "cache_shape tc' = cache_shape tc" "bytes_ok tc' = bytes_ok tc"
  shows "fleet_inv e H D (tc' # cs) g = fleet_inv e H D (tc # cs) g"
  using assms by (simp add: fleet_inv_def fleet_def fleet_parts_def)

text \<open>The settings of a thread and the marks of what it did do not matter.\<close>

lemma fleet_settings:
  assumes "tc_bins tc' = tc_bins tc" "mbins tc' = mbins tc" "mactive tc' = mactive tc" "bigbins tc' = bigbins tc" "bactive tc' = bactive tc"
    "cached_bytes tc' = cached_bytes tc" "tier_cached_bytes tc' = tier_cached_bytes tc"
  shows "fleet_inv e H D (tc' # cs) g = fleet_inv e H D (tc # cs) g"
proof (rule fleet_part_cong)
  show "part_of t c tc' = part_of t c tc" for t c using assms by (cases t) simp_all
qed (simp_all add: cache_shape_def bytes_ok_def actual_tier_bytes_def assms)


lemma inv_perm: "fleet_inv e H D cs g \<Longrightarrow> mset cs' = mset cs \<Longrightarrow> fleet_inv e H D cs' g"
  unfolding fleet_inv_def by (auto intro: fleet_perm)

lemma inv_none: "no_blocks tc \<Longrightarrow> fleet_inv e H D (tc # cs) g = fleet_inv e H D cs g"
  by (simp add: fleet_inv_def fleet_none)

lemma inv_empty: "fleet_inv e H D (tc # cs) g \<Longrightarrow> cached_bytes tc = 0 \<Longrightarrow> fleet_inv e H D cs g"
  using inv_none fleet_empty unfolding fleet_inv_def append_Cons by blast

lemma adopt_whole:
  assumes f: "fleet_inv e H D (tc # cs) g" and z: "cached_bytes tc = 0" and t: "take_one g = (Some a, g')"
  shows "fleet_inv e H D (a\<lparr>exit_armed := x, budget := b, budget_epoch := n, retired_reclaimed := r\<rparr> # cs) g'"
proof -
  have "fleet_inv e H D (a # tc # cs) g'" using fleet_take [OF f t] by blast
  then have "fleet_inv e H D (tc # a # cs) g'" by (rule inv_perm) simp
  then have "fleet_inv e H D (a # cs) g'" using z by (rule inv_empty)
  then show ?thesis using fleet_settings [of "a\<lparr>exit_armed := x, budget := b, budget_epoch := n, retired_reclaimed := r\<rparr>" a] by simp
qed

lemma adopt_part:
  assumes f: "fleet_inv e H D (tc # cs) g" and t: "take_one g = (Some a, g2)" and s: "steal_empty_bins tc a = (tc', rest, m)"
  shows "\<exists>x g' D'. flush_all e (rest, g2) = Some (x, g') \<and> fleet_inv e H D' (tc'\<lparr>retired_reclaimed := r\<rparr> # cs) g' \<and> globals_kept H g D g' D'"
proof -
  note i = fleet_take [OF f t]
  from steal_flush [OF conjunct1 [OF i] s] obtain x g' D' where
    "flush_all e (rest, g2) = Some (x, g')" "fleet_inv e H D' (tc' # cs) g'" "globals_kept H g2 D g' D'"
    by blast
  moreover have "globals_kept H g D g' D'" using \<open>globals_kept H g2 D g' D'\<close> same_heaps_kept(1) i by blast
  ultimately show ?thesis using fleet_settings [of "tc'\<lparr>retired_reclaimed := r\<rparr>" tc'] by (auto intro!: exI [of _ D'])
qed

lemma reclaim_retired_ok:
  assumes f: "fleet_inv e H D (tc # cs) g"
  shows "\<exists>tc' g' D'. reclaim_retired e (tc, g) = Some (tc', g') \<and> fleet_inv e H D' (tc' # cs) g' \<and> globals_kept H g D g' D'"
proof -
  have s: "slots_ok g" using f by (simp add: fleet_inv_def)
  let ?P = "cached_bytes tc = 0 \<and> large_len (tc_stash tc) = 0"
  obtain x g1 where t: "take_one g = (x, g1)" by (metis surj_pair)
  consider (before) "retired_reclaimed tc" | (whole) a where "\<not> retired_reclaimed tc" ?P "x = Some a"
    | (part) a where "\<not> retired_reclaimed tc" "\<not> ?P" "x = Some a" | (none) "\<not> retired_reclaimed tc" "x = None"
    by (cases x) blast+
  then show ?thesis
  proof cases
    case before
    then have "reclaim_retired e (tc, g) = Some (tc, g)" by (simp add: reclaim_retired_def)
    then show ?thesis using f globals_kept_refl by blast
  next
    case whole
    let ?tc = "a\<lparr>exit_armed := exit_armed tc, budget := budget tc, budget_epoch := budget_epoch tc, retired_reclaimed := True\<rparr>"
    have ta: "take_one g = (Some a, g1)" using t whole(3) by simp
    have "fleet_inv e H D (?tc # cs) g1" by (rule adopt_whole [OF f _ ta]) (use whole(2) in simp)
    moreover have "globals_kept H g D g1 D" using fleet_take [OF f ta] same_heaps_kept(2) globals_kept_refl by blast
    moreover have "reclaim_retired e (tc, g) = Some (?tc, g1)" using whole ta by (simp add: reclaim_retired_def)
    ultimately show ?thesis by blast
  next
    case part
    have ta: "take_one g = (Some a, g1)" using t part(3) by simp
    obtain tc' rest m where st: "steal_empty_bins tc a = (tc', rest, m)" by (metis prod_cases3)
    from adopt_part [OF f ta st] obtain y g' D' where
      r: "flush_all e (rest, g1) = Some (y, g')" "fleet_inv e H D' (tc'\<lparr>retired_reclaimed := True\<rparr> # cs) g'" "globals_kept H g D g' D'"
      by blast
    have "reclaim_retired e (tc, g) = Some (tc'\<lparr>retired_reclaimed := True\<rparr>, g')"
      using part(1) ta st r(1) by (simp only: reclaim_retired_def Let_def prod.case part(2) if_False) simp
    then show ?thesis using r(2,3) by blast
  next
    case none
    have n: "g1 = g \<and> adoptable g = []" by (rule take_one_none [OF _ s]) (use t none(2) in simp)
    then have tn: "take_one g = (None, g)" using t none(2) by simp
    then have "reclaim_one e g = Some (False, g)" by (simp add: reclaim_one_def)
    then have "reclaim_retired e (tc, g) = Some (tc, g)" using none(1) tn by (simp add: reclaim_retired_def)
    then show ?thesis using f globals_kept_refl by blast
  qed
qed

lemma prepare_ok:
  assumes "fleet_inv e H D (tc # cs) g"
  shows "\<exists>tc' g' D'. prepare e (tc, g) = Some (tc', g') \<and> fleet_inv e H D' (tc' # cs) g' \<and> globals_kept H g D g' D'"
proof -
  let ?tc = "refresh_budget g (arm_exit_hook e g tc)"
  have "fleet_inv e H D (?tc # cs) g = fleet_inv e H D (tc # cs) g"
    by (rule fleet_settings) (simp_all add: arm_exit_hook_def install_exit_hook_def refresh_budget_def Let_def)
  then show ?thesis using reclaim_retired_ok [of e H D ?tc cs g] assms by (simp add: prepare_def)
qed

section \<open>A thread ends\<close>

lemma adoptable_put:
  assumes "first_slot (\<lambda>x. x = None) g = Some i" "slots_ok g"
  shows "mset (adoptable (g\<lparr>gl_retired := (gl_retired g)[i := Some tc], gl_ready := add_w 64 (gl_ready g) 1\<rparr>)) = add_mset tc (mset (adoptable g))
    \<and> slots_ok (g\<lparr>gl_retired := (gl_retired g)[i := Some tc], gl_ready := add_w 64 (gl_ready g) 1\<rparr>)"
proof -
  let ?g = "g\<lparr>gl_retired := (gl_retired g)[i := Some tc], gl_ready := add_w 64 (gl_ready g) 1\<rparr>"
  have i: "i < length (gl_retired g)" "gl_retired g ! i = None" using first_slot_some [OF assms(1)] by simp_all
  have m: "mset (adoptable ?g) = add_mset tc (mset (adoptable g))"
    using map_filter_update [OF i(1), of "Some tc"] by (simp add: adoptable_def i(2) map_filter_simps)
  then have "length (adoptable ?g) = Suc (length (adoptable g))" by (metis size_add_mset size_mset)
  moreover have "length (adoptable g) \<le> 8" "gl_ready g = length (adoptable g)"
    using parked_length [of g] assms(2) by (simp_all add: slots_ok_def const_simps)
  ultimately have "slots_ok ?g" using assms(2) by (simp add: slots_ok_def)
  then show ?thesis using m by blast
qed

lemma retire_ok:
  assumes f: "fleet_inv e H D (tc # cs) g"
  shows "\<exists>g' D'. retire e (tc, g) = Some g' \<and> fleet_inv e H D' cs g' \<and> globals_kept H g D g' D'"
proof -
  let ?bytes = "min (cached_bytes tc + large_bytes (tc_stash tc)) (2 ^ 64 - 1)"
  obtain tc' gf Df where fl: "flush_all e (tc, g) = Some (tc', gf)" "fleet_inv e H Df cs gf" "globals_kept H g D gf Df"
    using inv_flush [OF f] by blast
  consider (empty) "?bytes = 0" | (big) "?bytes \<noteq> 0" "RETIRED_SLOT_BYTES < ?bytes"
    | (no_slot) "?bytes \<noteq> 0" "\<not> RETIRED_SLOT_BYTES < ?bytes" "first_slot (\<lambda>x. x = None) g = None"
    | (put) i where "?bytes \<noteq> 0" "\<not> RETIRED_SLOT_BYTES < ?bytes" "first_slot (\<lambda>x. x = None) g = Some i"
    by (cases "first_slot (\<lambda>x. x = None) g") blast+
  then show ?thesis
  proof cases
    case empty
    then have "fleet_inv e H D cs g" "retire e (tc, g) = Some g" using inv_empty [OF f] by (simp_all add: retire_def Let_def min_def split: if_splits)
    then show ?thesis using globals_kept_refl by blast
  next
    case big
    have "retire e (tc, g) = Some gf" using fl(1) by (simp only: retire_def Let_def prod.case big if_False if_True) simp
    then show ?thesis using fl by blast
  next
    case no_slot
    have "retire e (tc, g) = Some gf" using fl(1) by (simp only: retire_def Let_def prod.case no_slot if_False) simp
    then show ?thesis using fl by blast
  next
    case put
    let ?g = "g\<lparr>gl_retired := (gl_retired g)[i := Some tc], gl_ready := add_w 64 (gl_ready g) 1\<rparr>"
    have i: "fleet e H D (tc # cs @ adoptable g) g" "slots_ok g" using f by (simp_all add: fleet_inv_def)
    note p = adoptable_put [OF put(3) i(2), of tc]
    have h: "same_heaps g ?g" by (simp add: same_heaps_def)
    have "fleet e H D (cs @ adoptable ?g) g" by (rule fleet_perm [OF i(1)]) (use p in simp)
    then have "fleet_inv e H D cs ?g" using p same_heaps_fleet [OF h] by (simp add: fleet_inv_def)
    moreover have "globals_kept H g D ?g D" using same_heaps_kept(2) [OF h] globals_kept_refl by blast
    moreover have "retire e (tc, g) = Some ?g" by (simp only: retire_def Let_def prod.case put if_False) simp
    ultimately show ?thesis by blast
  qed
qed

lemma tls_flush_ok:
  assumes f: "fleet_inv e H D (tc # cs) g"
  shows "\<exists>tc' g' D'. tls_flush e (Some TLS_FREE, (tc, g)) = Some (Some TLS_FREE, (tc', g')) \<and> fleet_inv e H D' (tc' # cs) g'
    \<and> globals_kept H g D g' D' \<and> emptied tc tc' \<and> adoptable g' = []"
proof -
  obtain g1 D1 where r: "reclaim_all e g = Some g1" "fleet_inv e H D1 (tc # cs) g1" "globals_kept H g D g1 D1" "adoptable g1 = []"
    using reclaim_all_ok [OF f] by blast
  from inv_flush [OF r(2)] obtain tc' g' D' where
    w: "flush_all e (tc, g1) = Some (tc', g')" "fleet_inv e H D' (tc' # cs) g'" "globals_kept H g1 D1 g' D'" "emptied tc tc'" "adoptable g' = adoptable g1"
    by blast
  have "tls_flush e (Some TLS_FREE, (tc, g)) = Some (Some TLS_FREE, (tc', g'))"
    by (simp add: tls_flush_def r(1) with_tls_def w(1))
  then show ?thesis using w r(4) globals_kept_trans [OF r(3) w(3)] by metis
qed

end
