(* ===== verification/Fleet_Ops.thy ===== *)
theory Fleet_Ops
  imports Fleet_Adopt
begin

text \<open>
  Allocation and freeing by one thread among many.  Each keeps the invariant of the fleet; a refill may adopt a
  retired cache first, so that no assumption on the slots is needed.
\<close>

section \<open>The slots are left alone\<close>

definition slots_same :: "cache_state \<Rightarrow> cache_state \<Rightarrow> bool" where
  "slots_same s s' \<longleftrightarrow> gl_retired (snd s') = gl_retired (snd s) \<and> gl_ready (snd s') = gl_ready (snd s)"

lemma slots_same_refl [simp]: "slots_same s s"
  by (simp add: slots_same_def)

lemma slots_same_trans: "slots_same s s1 \<Longrightarrow> slots_same s1 s2 \<Longrightarrow> slots_same s s2"
  by (simp add: slots_same_def)

lemma slots_tid: "tid s = (i, s') \<Longrightarrow> slots_same s s'"
  by (auto simp: tid_def next_tid_def slots_same_def split: if_splits prod.splits)

lemma slots_flush_bin: "flush_bin e c n s = Some s' \<Longrightarrow> slots_same s s'"
  by (auto simp: flush_bin_def slots_same_def less_bytes_def set_small_def Let_def split: if_splits option.splits)

lemma slots_flush_mbin: "flush_mbin e c n s = Some s' \<Longrightarrow> slots_same s s'"
  by (auto simp: flush_mbin_def slots_same_def less_tier_bytes_def set_mbin_def Let_def split: if_splits option.splits)

lemma slots_flush_bbin: "flush_bbin e c n s = Some s' \<Longrightarrow> slots_same s s'"
  by (auto simp: flush_bbin_def slots_same_def less_tier_bytes_def set_bbin_def Let_def split: if_splits option.splits)

lemma slots_flush_active_medium: "flush_active_medium e c s = Some s' \<Longrightarrow> slots_same s s'"
  by (auto simp: flush_active_medium_def slots_same_def less_tier_bytes_def set_mactive_def Let_def split: if_splits option.splits)

lemma slots_flush_active_big: "flush_active_big e c s = Some s' \<Longrightarrow> slots_same s s'"
  by (auto simp: flush_active_big_def slots_same_def less_tier_bytes_def set_bactive_def Let_def split: if_splits option.splits)

lemmas slots_flushes = slots_flush_bin slots_flush_mbin slots_flush_bbin slots_flush_active_medium slots_flush_active_big

lemma slots_trim_step: "trim_step e s = Some (Some s') \<Longrightarrow> slots_same s s'"
  by (auto simp: trim_step_def Let_def intro: slots_flushes split: option.splits prod.splits if_splits)

lemma slots_trim_loop:
  assumes "trim_loop e target s = Some s'"
  shows "slots_same s s'"
proof (rule trim_loop.raw_induct [where P = "\<lambda>e target s s'. slots_same s s'", OF _ assms])
  fix loop e target s s'
  assume ih: "\<And>e target s y. loop e target s = Some y \<Longrightarrow> slots_same s y"
    and st: "(if target < cached_bytes (fst s) then case trim_step e s of None \<Rightarrow> None | Some None \<Rightarrow> Some s
      | Some (Some s') \<Rightarrow> loop e target s' else Some s) = Some s'"
  show "slots_same s s'"
  proof (cases "target < cached_bytes (fst s)")
    case True
    from st True obtain r where r: "trim_step e s = Some r" "case r of None \<Rightarrow> Some s = Some s' | Some s1 \<Rightarrow> loop e target s1 = Some s'"
      by (auto split: option.splits)
    show ?thesis
    proof (cases r)
      case (Some s1)
      then have "loop e target s1 = Some s'" using r(2) by simp
      then show ?thesis using slots_same_trans slots_trim_step [OF r(1) [unfolded Some]] ih by blast
    qed (use r(2) in simp)
  qed (use st in simp)
qed

lemma slots_trim: "trim e s = Some s' \<Longrightarrow> slots_same s s'"
  using slots_trim_loop unfolding trim_def Let_def slots_same_def by fastforce

lemma slots_shed: "shed e s = Some s' \<Longrightarrow> slots_same s s'"
  by (auto simp: shed_def slots_same_def dest!: slots_trim split: option.splits)

lemma slots_press: "press e s = Some s' \<Longrightarrow> slots_same s s'"
  by (auto simp: press_def trim_if_def intro: slots_trim split: if_splits)

lemma slots_press_big:
  assumes "press_big e s = Some s'"
  shows "slots_same s s'"
proof -
  obtain s1 where s1: "press e s = Some s1" "trim_if e (sat_double (budget (fst s1)) < tier_cached_bytes (fst s1)) s1 = Some s'"
    using assms by (auto simp: press_big_def split: Option.bind_splits)
  have "slots_same s1 s'" using s1(2) by (auto simp: trim_if_def intro: slots_trim split: if_splits)
  then show ?thesis using slots_press [OF s1(1)] slots_same_trans by blast
qed

lemma slots_claim_page: "slots_same s (claim_page c p s)"
  using slots_tid by (fastforce simp: claim_page_def slots_same_def split: prod.splits)

lemma slots_claim_pages: "slots_same s (claim_pages c k b l s)"
proof (induction k arbitrary: b l s)
  case (Suc k)
  let ?s = "if page_of b \<noteq> l then claim_page c (page_of b) s else s"
  have "slots_same s ?s" using slots_claim_page by simp
  then have "slots_same s (claim_pages c k b' l' ?s)" for b' l' using Suc slots_same_trans by blast
  then show ?case by (simp add: Let_def)
qed simp

lemma slots_claim_span: "slots_same s (claim_span c p s)"
  using slots_tid by (fastforce simp: claim_span_def slots_same_def split: prod.splits)

lemma slots_claim_spans: "slots_same s (snd (claim_spans e c k b source single claimed s))"
proof (induction k arbitrary: b source single claimed s)
  case (Suc k)
  let ?s = "if ce_span_at e b \<noteq> claimed then claim_span c (ce_span_at e b) s else s"
  have "slots_same s ?s" using slots_claim_span by simp
  then have "slots_same s (snd (claim_spans e c k b' u v w ?s))" for b' u v w using Suc slots_same_trans by blast
  then show ?case using Suc by (simp add: Let_def)
qed simp

lemma slots_claim_bigs: "slots_same s (claim_bigs e c k b s)"
proof (induction k arbitrary: b s)
  case (Suc k)
  define s1 where "s1 = (if ce_big_at e b \<noteq> null then let (i, (tc, g)) = tid s
    in (tc, g\<lparr>gl_big := (gl_big g)[c := set_owner (ce_big_at e b) i (gl_big g ! c)]\<rparr>) else s)"
  have "slots_same s s1" using slots_tid by (fastforce simp: s1_def slots_same_def split: prod.splits)
  then have "slots_same s (claim_bigs e c k b' s1)" for b' using Suc slots_same_trans by blast
  moreover have "claim_bigs e c (Suc k) b s = (if b = null then s else claim_bigs e c k (words (gl_big (snd s1) ! c) b) s1)"
    by (simp only: claim_bigs.simps Let_def s1_def)
  ultimately show ?case by simp
qed simp

section \<open>The tiers alike\<close>

fun pop_tier :: "tier \<Rightarrow> nat \<Rightarrow> cache_state \<Rightarrow> (addr \<times> bool) option \<times> cache_state" where
  "pop_tier Small c = pop_small c"
| "pop_tier Medium c = pop_medium c"
| "pop_tier Big c = pop_big c"

fun take_tier :: "cache_env \<Rightarrow> tier \<Rightarrow> nat \<Rightarrow> cache_state \<Rightarrow> ((addr \<times> bool) \<times> cache_state) option" where
  "take_tier e Small c = refill_take e c"
| "take_tier e Medium c = mrefill_take e c"
| "take_tier e Big c = bigrefill_take e c"

fun press_tier :: "cache_env \<Rightarrow> tier \<Rightarrow> cache_state \<Rightarrow> cache_state option" where
  "press_tier e Big = press_big e"
| "press_tier e _ = press e"

fun tier_grant :: "cache_env \<Rightarrow> tier \<Rightarrow> nat \<Rightarrow> cache_state \<Rightarrow> bool" where
  "tier_grant e Small c = small_grant e c"
| "tier_grant e Medium c = medium_grant e c"
| "tier_grant e Big c = big_grant e c"

fun tier_empty :: "tier \<Rightarrow> nat \<Rightarrow> thread_cache \<Rightarrow> bool" where
  "tier_empty Small c tc \<longleftrightarrow> tc_bins tc ! c = bin_new"
| "tier_empty Medium c tc \<longleftrightarrow> mbins tc ! c = bin_new \<and> av_bin (mactive tc ! c) = bin_new"
| "tier_empty Big c tc \<longleftrightarrow> bigbins tc ! c = bin_new \<and> av_bin (bactive tc ! c) = bin_new"

lemma cache_alloc_tier:
  "cache_alloc e t c s =
     (case pop_tier t c s of
        (Some r, s') \<Rightarrow> Some (r, s')
      | (None, s') \<Rightarrow> do { s1 \<leftarrow> prepare e s';
                         (case pop_tier t c s1 of (Some r, s2) \<Rightarrow> Some (r, s2) | (None, s2) \<Rightarrow> take_tier e t c s2) })"
proof (cases t)
  case Small
  have "pop_small c s = (None, s') \<Longrightarrow> s' = s" for s' by (auto simp: pop_small_def split: prod.splits option.splits)
  then show ?thesis unfolding Small take_tier.simps pop_tier.simps by (auto simp: alloc_zeroed_def refill_def split: prod.splits option.splits)
next
  case Medium
  have "pop_medium c s = (None, s') \<Longrightarrow> s' = s" for s' by (auto simp: pop_medium_def split: prod.splits option.splits)
  then show ?thesis unfolding Medium take_tier.simps pop_tier.simps by (auto simp: alloc_medium_zeroed_def mrefill_def split: prod.splits option.splits)
next
  case Big
  show ?thesis unfolding Big take_tier.simps pop_tier.simps by (auto simp: alloc_big_zeroed_def bigrefill_def split: prod.splits option.splits)
qed

lemma slots_pop_tier: "pop_tier t c s = (r, s') \<Longrightarrow> slots_same s s'"
  by (cases t) (auto simp: pop_small_def pop_medium_def active_medium_alloc_def pop_big_def active_big_alloc_def Let_def slots_same_def
      popped_bytes_def popped_tier_bytes_def set_small_def set_mbin_def set_mactive_def set_bbin_def set_bactive_def
      split: prod.splits option.splits)

lemma pop_tier_ok:
  assumes inv: "cache_inv e H D s" and c: "c < tier_count t"
  shows "\<exists>r s'. pop_tier t c s = (r, s') \<and> (case r of None \<Rightarrow> cache_inv e H D s' \<and> cache_kept H s D s' D \<and> tier_empty t c (fst s')
    | Some x \<Rightarrow> allotted e t c H s D (Some (x, s')))"
proof -
  obtain r s' where p: "pop_tier t c s = (r, s')" by (metis surj_pair)
  have "case r of None \<Rightarrow> cache_inv e H D s' \<and> cache_kept H s D s' D \<and> tier_empty t c (fst s') | Some x \<Rightarrow> allotted e t c H s D (Some (x, s'))"
  proof (cases t)
    case Small
    then show ?thesis using pop_small_ok [OF inv, of c] c inv p by auto
  next
    case Medium
    then show ?thesis using pop_medium_ok [OF inv, of c] c inv p by auto
  next
    case Big
    then have "case r of None \<Rightarrow> big_emptied e c H s D s' | Some x \<Rightarrow> allotted e Big c H s D (Some (x, s'))"
      using pop_big_ok [OF inv, of c] c p by auto
    then show ?thesis using Big by (cases r) (simp_all add: big_emptied_def)
  qed
  then show ?thesis using p by blast
qed

lemma take_tier_ok:
  assumes "cache_inv e H D s" "c < tier_count t" "tier_empty t c (fst s)" "\<And>s1. press_tier e t s = Some s1 \<Longrightarrow> tier_grant e t c s1"
  shows "allotted e t c H s D (take_tier e t c s)"
  using assms refill_take_ok [OF assms(1)] mrefill_take_ok [OF assms(1)] bigrefill_take_ok [OF assms(1)] by (cases t) simp_all

lemma slots_take_tier:
  assumes "take_tier e t c s = Some (r, s')"
  shows "slots_same s s'"
proof (cases t)
  case Small
  obtain s1 h ch n v where p: "press e s = Some s1" "small_take c (ce_page e) (gl_small (snd s1) ! c) = Some (h, ch, n, v)"
    using assms Small by (auto simp: refill_take_def split: Option.bind_splits)
  have "slots_same s1 s'"
    using assms Small p slots_claim_pages [of "(fst s1, (snd s1)\<lparr>gl_small := (gl_small (snd s1))[c := h]\<rparr>)" c n ch null]
    by (auto simp: refill_take_def Let_def slots_same_def more_bytes_def set_small_def split: if_splits)
  then show ?thesis using slots_press [OF p(1)] slots_same_trans by blast
next
  case Medium
  obtain s1 h ch n v where p: "press e s = Some s1" "medium_take (ce_in_arena e) c (ce_medium e) (gl_medium (snd s1) ! c) = Some (h, ch, n, v)"
    using assms Medium by (auto simp: mrefill_take_def split: Option.bind_splits)
  have "slots_same s1 s'"
    using assms Medium p slots_claim_spans [of "(fst s1, (snd s1)\<lparr>gl_medium := (gl_medium (snd s1))[c := h]\<rparr>)" e c n ch null True null]
    by (auto simp: mrefill_take_def Let_def slots_same_def more_tier_bytes_def set_mbin_def set_mactive_def split: if_splits prod.splits)
  then show ?thesis using slots_press [OF p(1)] slots_same_trans by blast
next
  case Big
  obtain s1 h ch n v where p: "press_big e s = Some s1" "big_take c (ce_big e) (gl_big (snd s1) ! c) = Some (h, ch, n, v)"
    using assms Big by (auto simp: bigrefill_take_def split: Option.bind_splits)
  have "slots_same s1 s'"
    using assms Big p slots_claim_bigs [of "(fst s1, (snd s1)\<lparr>gl_big := (gl_big (snd s1))[c := h]\<rparr>)" e c n ch]
    by (auto simp: bigrefill_take_def Let_def slots_same_def more_tier_bytes_def set_bbin_def set_bactive_def split: if_splits)
  then show ?thesis using slots_press_big [OF p(1)] slots_same_trans by blast
qed


lemma slots_arm: "slots_same s (arm_exit_hook e (snd s) (fst s), snd s)"
  by (simp add: slots_same_def)

lemma slots_push: "slots_same s (push_small c p s)" "slots_same s (push_medium e c p s)" "slots_same s (push_big e c p s)"
  by (simp_all add: slots_same_def push_small_def push_medium_def push_big_def set_small_def more_bytes_def more_tier_bytes_def set_mbin_def
      set_bbin_def active_medium_dealloc_def active_big_dealloc_def set_mactive_def set_bactive_def case_prod_unfold Let_def)

lemma slots_foreign: "note_foreign_free c p s = (f, s') \<Longrightarrow> slots_same s s'" "foreign_owner o1 s = (f, s') \<Longrightarrow> slots_same s s'"
  by (auto simp: note_foreign_free_def foreign_owner_def Let_def dest: slots_tid split: if_splits prod.splits)

lemma slots_add_foreign: "slots_same s (add_foreign f n s)"
  by (simp add: add_foreign_def slots_same_def)

lemma slots_shed_if: "(if q then shed e s else Some s) = Some s' \<Longrightarrow> slots_same s s'"
  by (auto intro: slots_shed split: if_splits)

lemma slots_dealloc:
  assumes "dealloc e p c s = Some s'"
  shows "slots_same s s'"
proof (cases "small_free_is_warm (fst s)")
  case True
  then have "slots_same (push_small c p s) s'" using assms slots_shed_if by (simp add: dealloc_def Let_def)
  then show ?thesis using slots_push(1) slots_same_trans by blast
next
  case False
  define s1 where "s1 = (arm_exit_hook e (snd s) (fst s), snd s)"
  obtain f s2 where s2: "(if drift_gate_open_small (fst s1) (budget (fst s1)) then note_foreign_free c p s1 else (False, s1)) = (f, s2)"
    by (metis surj_pair)
  define s3 where "s3 = (if f then ((fst s2)\<lparr>foreign_bytes := foreign_bytes (fst s2) + CLASSES ! c\<rparr>, snd s2) else s2)"
  have i: "slots_same s s1" "slots_same s1 s2" "slots_same s2 s3"
    using s2 slots_foreign(1) by (auto simp: s1_def s3_def slots_same_def split: if_splits)
  have "dealloc e p c s = (if should_shed_small (fst (push_small c p s3)) (budget (fst s1)) then shed e (push_small c p s3) else Some (push_small c p s3))"
    unfolding dealloc_def dealloc_cold_def Let_def s1_def [symmetric] s2 s3_def using False by simp
  then have "slots_same (push_small c p s3) s'" using assms slots_shed_if by metis
  then show ?thesis using i slots_push(1) slots_same_trans by meson
qed

lemma slots_dealloc_medium:
  assumes "dealloc_medium e p c s = Some s'"
  shows "slots_same s s'"
proof -
  define s1 where "s1 = (arm_exit_hook e (snd s) (fst s), snd s)"
  obtain f s2 where s2: "(if drift_gate_open (fst s1) \<and> ce_span_at e p \<noteq> null
      then foreign_owner (owner_of (gl_medium (snd s1) ! c) (ce_span_at e p)) s1 else (False, s1)) = (f, s2)"
    by (metis surj_pair)
  let ?s4 = "add_foreign f (MEDIUM_CLASSES ! c) (push_medium e c p s2)"
  have i: "slots_same s s1" "slots_same s1 s2" using s2 slots_foreign(2) by (auto simp: s1_def slots_same_def split: if_splits)
  have "dealloc_medium e p c s = (if should_shed (fst ?s4) then shed e ?s4 else Some ?s4)"
    unfolding dealloc_medium_def Let_def s1_def [symmetric] s2 push_medium_def by simp
  then have "slots_same ?s4 s'" using assms slots_shed_if by metis
  then show ?thesis using i slots_push(2) slots_add_foreign slots_same_trans by meson
qed

lemma slots_dealloc_big:
  assumes "dealloc_big e p (ce_big_at e p) c s = Some s'"
  shows "slots_same s s'"
proof -
  define s1 where "s1 = (arm_exit_hook e (snd s) (fst s), snd s)"
  obtain f s2 where s2: "(if drift_gate_open (fst s1)
      then foreign_owner (owner_of (gl_big (snd s1) ! c) (ce_big_at e p)) s1 else (False, s1)) = (f, s2)"
    by (metis surj_pair)
  let ?s4 = "add_foreign f (BIG_CLASSES ! c) (push_big e c p s2)"
  have i: "slots_same s s1" "slots_same s1 s2" using s2 slots_foreign(2) by (auto simp: s1_def slots_same_def split: if_splits)
  have "dealloc_big e p (ce_big_at e p) c s = (if should_shed (fst ?s4) then shed e ?s4 else Some ?s4)"
    unfolding dealloc_big_def Let_def s1_def [symmetric] s2 push_big_def by simp
  then have "slots_same ?s4 s'" using assms slots_shed_if by metis
  then show ?thesis using i slots_push(3) slots_add_foreign slots_same_trans by meson
qed

lemma slots_cache_free: "cache_free e t c p s = Some s' \<Longrightarrow> slots_same s s'"
  by (cases t) (auto intro: slots_dealloc slots_dealloc_medium slots_dealloc_big)

section \<open>Among many\<close>

text \<open>An operation of one thread that keeps the invariant of its cache keeps that of all: \<open>B\<close> are the blocks of the others.\<close>

definition others_keep :: "cache_env \<Rightarrow> cache_state \<Rightarrow> blocks \<Rightarrow> thread_cache list \<Rightarrow> blocks \<Rightarrow> bool" where
  "others_keep e s D cs B \<longleftrightarrow> (\<forall>s' H' D'. cache_inv e (sup H' B) D' s' \<longrightarrow> (\<forall>t c. H' t c \<inter> B t c = {}) \<longrightarrow> cache_kept B s D s' D'
     \<longrightarrow> slots_same s s' \<longrightarrow> fleet_inv e H' D' (fst s' # cs) (snd s'))"

lemma others_keepD:
  assumes "others_keep e s D cs B" "cache_inv e (sup H' B) D' s'" "\<And>t c. H' t c \<inter> B t c = {}" "cache_kept B s D s' D'" "slots_same s s'"
  shows "fleet_inv e H' D' (fst s' # cs) (snd s')"
  using assms unfolding others_keep_def by blast

lemma inv_split:
  assumes "fleet_inv e H D (tc # cs) g"
  shows "\<exists>B. cache_inv e (sup H B) D (tc, g) \<and> (\<forall>t c. H t c \<inter> B t c = {}) \<and> others_keep e (tc, g) D cs B"
proof -
  have f: "fleet e H D (tc # cs @ adoptable g) g" "slots_ok g" using assms by (simp_all add: fleet_inv_def)
  obtain B where B: "cache_inv e (sup H B) D (tc, g)" "\<forall>t c. H t c \<inter> B t c = {}"
    "\<forall>tc' g' H' D'. cache_inv e (sup H' B) D' (tc', g') \<longrightarrow> (\<forall>t c. H' t c \<inter> B t c = {})
         \<longrightarrow> cache_kept B (tc, g) D (tc', g') D' \<longrightarrow> fleet e H' D' (tc' # cs @ adoptable g) g'"
    using fleet_split [OF f(1)] by blast
  have "fleet_inv e H' D' (fst s' # cs) (snd s')"
    if i: "cache_inv e (sup H' B) D' s'" "\<forall>t c. H' t c \<inter> B t c = {}" "cache_kept B (tc, g) D s' D'" "slots_same (tc, g) s'" for s' H' D'
  proof -
    have "fleet e H' D' (fst s' # cs @ adoptable g) (snd s')"
      using B(3) [rule_format, of H' D' "fst s'" "snd s'"] i(1-3) by simp
    moreover have "adoptable (snd s') = adoptable g \<and> slots_ok (snd s') = slots_ok g"
      using i(4) parked_same [of "snd s'" g] by (simp add: slots_same_def)
    ultimately show ?thesis using f(2) by (simp add: fleet_inv_def)
  qed
  then have "others_keep e (tc, g) D cs B" unfolding others_keep_def by blast
  then show ?thesis using B(1,2) by blast
qed

lemma kept_both:
  assumes "cache_kept (sup H B) s D s' D'"
  shows "cache_kept H s D s' D'" "cache_kept B s D s' D'"
  using globals_kept_sup [of H B "snd s" D "snd s'" D'] assms by (simp_all add: globals_kept_cache)

definition grown :: "cache_env \<Rightarrow> tier \<Rightarrow> nat \<Rightarrow> blocks \<Rightarrow> cache_state \<Rightarrow> blocks \<Rightarrow> thread_cache list \<Rightarrow> ((addr \<times> bool) \<times> cache_state) option \<Rightarrow> bool" where
  "grown e t c H s D cs r \<longleftrightarrow> (\<exists>p z s' D'. r = Some ((p, z), s') \<and> cache_kept H s D s' D'
     \<and> (p = null \<and> fleet_inv e H D' (fst s' # cs) (snd s')
        \<or> p \<noteq> null \<and> p \<notin> H t c \<and> (z \<longrightarrow> p \<notin> D' t c) \<and> fleet_inv e (upd t c (insert p (H t c)) H) D' (fst s' # cs) (snd s')))"

lemma sup_upd_insert: "upd t c (insert p (sup H B t c)) (sup H B) = sup (upd t c (insert p (H t c)) H) B"
  by (simp add: fun_eq_iff)

lemma sup_upd_remove: "p \<notin> B t c \<Longrightarrow> upd t c (sup H B t c - {p}) (sup H B) = sup (upd t c (H t c - {p}) H) B"
  by (auto simp: fun_eq_iff)

lemma grown_from:
  assumes f: "fleet_inv e H D (tc # cs) g" and ok: "\<And>X. cache_inv e X D (tc, g) \<Longrightarrow> allotted e t c X (tc, g) D r"
    and sl: "\<And>x s'. r = Some (x, s') \<Longrightarrow> slots_same (tc, g) s'"
  shows "grown e t c H (tc, g) D cs r"
proof -
  obtain B where B: "cache_inv e (sup H B) D (tc, g)" "\<And>t c. H t c \<inter> B t c = {}" "others_keep e (tc, g) D cs B"
    using inv_split [OF f] by blast
  obtain p z s' D' where a: "r = Some ((p, z), s')" "cache_kept (sup H B) (tc, g) D s' D'"
    "p = null \<and> cache_inv e (sup H B) D' s'
        \<or> p \<noteq> null \<and> p \<notin> sup H B t c \<and> (z \<longrightarrow> p \<notin> D' t c) \<and> cache_inv e (upd t c (insert p (sup H B t c)) (sup H B)) D' s'"
    using ok [OF B(1)] unfolding allotted_def by blast
  note k = kept_both [OF a(2)] and sl = sl [OF a(1)]
  from a(3) have "p = null \<and> fleet_inv e H D' (fst s' # cs) (snd s')
      \<or> p \<noteq> null \<and> p \<notin> H t c \<and> (z \<longrightarrow> p \<notin> D' t c) \<and> fleet_inv e (upd t c (insert p (H t c)) H) D' (fst s' # cs) (snd s')"
  proof (elim disjE conjE)
    assume "p = null" "cache_inv e (sup H B) D' s'"
    then show ?thesis using others_keepD [OF B(3) _ B(2) k(2) sl] by blast
  next
    assume n: "p \<noteq> null" "p \<notin> sup H B t c" "z \<longrightarrow> p \<notin> D' t c" "cache_inv e (upd t c (insert p (sup H B t c)) (sup H B)) D' s'"
    have "fleet_inv e (upd t c (insert p (H t c)) H) D' (fst s' # cs) (snd s')"
      by (rule others_keepD [OF B(3) n(4) [unfolded sup_upd_insert] _ k(2) sl]) (use n(2) B(2) in auto)
    then show ?thesis using n by simp
  qed
  then show ?thesis using a(1) k(1) unfolding grown_def by blast
qed

text \<open>After a step that keeps what the holders see.\<close>

lemma grown_after:
  assumes "cache_kept H s D s1 D1" "grown e t c H s1 D1 cs r"
  shows "grown e t c H s D cs r"
  using assms(2) unfolding grown_def
  by (elim exE conjE, intro exI conjI) (assumption, erule cache_kept_trans [OF assms(1)], assumption)

definition will_grant :: "cache_env \<Rightarrow> tier \<Rightarrow> nat \<Rightarrow> cache_state \<Rightarrow> bool" where
  "will_grant e t c s \<longleftrightarrow> (\<forall>s1 s2. prepare e (snd (pop_tier t c s)) = Some s1 \<longrightarrow> press_tier e t (snd (pop_tier t c s1)) = Some s2 \<longrightarrow> tier_grant e t c s2)"

text \<open>The pop, whether it finds something or not.\<close>

lemma popped_fleet:
  assumes f: "fleet_inv e H D (tc # cs) g" and c: "c < tier_count t" and p: "pop_tier t c (tc, g) = (r, s')"
  shows "case r of None \<Rightarrow> fleet_inv e H D (fst s' # cs) (snd s') \<and> cache_kept H (tc, g) D s' D \<and> tier_empty t c (fst s')
    | Some x \<Rightarrow> grown e t c H (tc, g) D cs (Some (x, s'))"
proof (cases r)
  case None
  obtain B where B: "cache_inv e (sup H B) D (tc, g)" "\<And>t c. H t c \<inter> B t c = {}" "others_keep e (tc, g) D cs B"
    using inv_split [OF f] by blast
  have q: "cache_inv e (sup H B) D s'" "cache_kept (sup H B) (tc, g) D s' D" "tier_empty t c (fst s')"
    using pop_tier_ok [OF B(1) c] p None by auto
  note k = kept_both [OF q(2)]
  have "fleet_inv e H D (fst s' # cs) (snd s')" by (rule others_keepD [OF B(3) q(1) B(2) k(2) slots_pop_tier [OF p]])
  then show ?thesis using None k(1) q(3) by simp
next
  case (Some x)
  have "grown e t c H (tc, g) D cs (Some (x, s'))"
    by (rule grown_from [OF f]) (use pop_tier_ok [OF _ c] p Some slots_pop_tier [OF p] in fastforce)+
  then show ?thesis using Some by simp
qed

lemma alloc_fleet:
  assumes f: "fleet_inv e H D (tc # cs) g" and c: "c < tier_count t" and gr: "will_grant e t c (tc, g)"
  shows "grown e t c H (tc, g) D cs (cache_alloc e t c (tc, g))"
proof -
  obtain r tc1 g1 where p: "pop_tier t c (tc, g) = (r, (tc1, g1))" by (metis surj_pair)
  note q = popped_fleet [OF f c p]
  show ?thesis
  proof (cases r)
    case (Some x)
    then show ?thesis using q p by (simp add: cache_alloc_tier)
  next
    case None
    then have n: "fleet_inv e H D (tc1 # cs) g1" "cache_kept H (tc, g) D (tc1, g1) D" using q by simp_all
    obtain tc2 g2 D2 where pr: "prepare e (tc1, g1) = Some (tc2, g2)" "fleet_inv e H D2 (tc2 # cs) g2" "globals_kept H g1 D g2 D2"
      using prepare_ok [OF n(1)] by blast
    have k2: "cache_kept H (tc, g) D (tc2, g2) D2" using n(2) pr(3) cache_kept_trans by (simp add: globals_kept_cache globals_kept_trans)
    obtain r2 tc3 g3 where p2: "pop_tier t c (tc2, g2) = (r2, (tc3, g3))" by (metis surj_pair)
    note q2 = popped_fleet [OF pr(2) c p2]
    have "grown e t c H (tc2, g2) D2 cs (cache_alloc e t c (tc, g))"
    proof (cases r2)
      case (Some x)
      then show ?thesis using q2 p p2 pr(1) None by (simp add: cache_alloc_tier)
    next
      case n2: None
      then have m: "fleet_inv e H D2 (tc3 # cs) g3" "cache_kept H (tc2, g2) D2 (tc3, g3) D2" "tier_empty t c tc3" using q2 by simp_all
      have "tier_grant e t c s2" if "press_tier e t (tc3, g3) = Some s2" for s2
        using gr that p pr(1) p2 unfolding will_grant_def by (metis snd_conv)
      then have "grown e t c H (tc3, g3) D2 cs (take_tier e t c (tc3, g3))"
        by (intro grown_from [OF m(1)] take_tier_ok c slots_take_tier) (use m(3) in auto)
      then have "grown e t c H (tc2, g2) D2 cs (take_tier e t c (tc3, g3))" by (rule grown_after [OF m(2)])
      then show ?thesis using p p2 pr(1) None n2 by (simp add: cache_alloc_tier)
    qed
    then show ?thesis by (rule grown_after [OF k2])
  qed
qed

lemma free_fleet:
  assumes f: "fleet_inv e H D (tc # cs) g" and c: "c < tier_count t" and p: "p \<in> H t c" and a: "active_covers e t c p (tc, g)"
  shows "\<exists>s' D'. cache_free e t c p (tc, g) = Some s' \<and> fleet_inv e (upd t c (H t c - {p}) H) D' (fst s' # cs) (snd s')
    \<and> cache_kept (upd t c (H t c - {p}) H) (tc, g) D s' D' \<and> bounded (fst s')"
proof -
  obtain B where B: "cache_inv e (sup H B) D (tc, g)" "\<And>t c. H t c \<inter> B t c = {}" "others_keep e (tc, g) D cs B"
    using inv_split [OF f] by blast
  have pB: "p \<notin> B t c" "p \<in> sup H B t c" using p B(2) [of t c] by auto
  let ?H = "upd t c (H t c - {p}) H"
  obtain s' D' where r: "cache_free e t c p (tc, g) = Some s'" "cache_inv e (sup ?H B) D' s'" "cache_kept (sup ?H B) (tc, g) D s' D'" "bounded (fst s')"
    using cache_free_facts [OF B(1) c pB(2) a] unfolding freed_def sup_upd_remove [of p B t c H, OF pB(1)] by blast
  note k = kept_both [OF r(3)]
  have "fleet_inv e ?H D' (fst s' # cs) (snd s')"
    by (rule others_keepD [OF B(3) r(2) _ k(2) slots_cache_free [OF r(1)]]) (use B(2) in \<open>simp, blast\<close>)
  then show ?thesis using r(1,4) k(1) by blast
qed

end
