(* ===== verification/Fleet_Run.thy ===== *)
theory Fleet_Run
  imports Fleet_Ops
begin

text \<open>
  Histories: threads start, allocate, free blocks of their own and of others, flush, change the budget and end,
  in any order, over the shared heaps and the slots of retired caches.
\<close>

section \<open>Histories\<close>

datatype fleet_call =
    Fl_Start
  | Fl_Alloc nat tier nat
  | Fl_Free nat tier nat addr
  | Fl_Flush nat
  | Fl_Exit nat
  | Fl_Budget nat

text \<open>A thread is an index; it has no cache once it has ended.\<close>

type_synonym fleet_state = "thread_cache option list \<times> globals"

definition running :: "fleet_state \<Rightarrow> thread_cache list" where
  "running w = List.map_filter id (fst w)"

definition on_cache :: "nat \<Rightarrow> (thread_cache \<Rightarrow> (addr \<times> thread_cache option \<times> globals) option) \<Rightarrow> fleet_state \<Rightarrow> (addr \<times> fleet_state) option" where
  "on_cache i f w = (case fst w ! i of None \<Rightarrow> Some (null, w)
     | Some tc \<Rightarrow> (case f tc of None \<Rightarrow> None | Some (r, x, g) \<Rightarrow> Some (r, ((fst w)[i := x], g))))"

fun fleet_do :: "cache_env \<Rightarrow> fleet_call \<Rightarrow> fleet_state \<Rightarrow> (addr \<times> fleet_state) option" where
  "fleet_do e Fl_Start w = Some (null, (fst w @ [Some thread_cache_new], snd w))"
| "fleet_do e (Fl_Alloc i t c) w =
     on_cache i (\<lambda>tc. map_option (\<lambda>((p, z), s'). (p, Some (fst s'), snd s')) (cache_alloc e t c (tc, snd w))) w"
| "fleet_do e (Fl_Free i t c p) w =
     on_cache i (\<lambda>tc. map_option (\<lambda>s'. (null, Some (fst s'), snd s')) (cache_free e t c p (tc, snd w))) w"
| "fleet_do e (Fl_Flush i) w =
     on_cache i (\<lambda>tc. map_option (\<lambda>(f, s'). (null, Some (fst s'), snd s')) (tls_flush e (Some TLS_FREE, (tc, snd w)))) w"
| "fleet_do e (Fl_Exit i) w =
     on_cache i (\<lambda>tc. map_option (\<lambda>(f, s'). (null, None, snd s')) (tls_retire e (Some TLS_FREE, (tc, snd w)))) w"
| "fleet_do e (Fl_Budget n) w = Some (null, (fst w, set_budget n (snd w)))"

text \<open>What the program holds after a call, and what it must know before it.\<close>

fun held_after :: "fleet_call \<Rightarrow> addr \<Rightarrow> blocks \<Rightarrow> blocks" where
  "held_after (Fl_Alloc i t c) r H = (if r = null then H else upd t c (insert r (H t c)) H)"
| "held_after (Fl_Free i t c p) r H = upd t c (H t c - {p}) H"
| "held_after _ r H = H"

definition alive :: "nat \<Rightarrow> fleet_state \<Rightarrow> bool" where
  "alive i w \<longleftrightarrow> i < length (fst w) \<and> fst w ! i \<noteq> None"

fun legal :: "cache_env \<Rightarrow> fleet_call \<Rightarrow> fleet_state \<Rightarrow> blocks \<Rightarrow> bool" where
  "legal e Fl_Start w H \<longleftrightarrow> True"
| "legal e (Fl_Alloc i t c) w H \<longleftrightarrow> alive i w \<and> c < tier_count t \<and> will_grant e t c (the (fst w ! i), snd w)"
| "legal e (Fl_Free i t c p) w H \<longleftrightarrow> alive i w \<and> c < tier_count t \<and> p \<in> H t c \<and> active_covers e t c p (the (fst w ! i), snd w)"
| "legal e (Fl_Flush i) w H \<longleftrightarrow> alive i w"
| "legal e (Fl_Exit i) w H \<longleftrightarrow> alive i w"
| "legal e (Fl_Budget n) w H \<longleftrightarrow> True"

text \<open>What the system answers may differ from call to call; its behaviour and the lookups do not.\<close>

type_synonym answers = "addr \<times> addr \<times> addr \<times> bool"

fun answering :: "cache_env \<Rightarrow> answers \<Rightarrow> cache_env" where
  "answering e (p, m, b, h) = e\<lparr>ce_page := p, ce_medium := m, ce_big := b, ce_hook := h\<rparr>"

inductive fleet_run :: "cache_env \<Rightarrow> fleet_state \<Rightarrow> blocks \<Rightarrow> bool" for e where
  fleet_begin: "purge_ok (ce_purge e) \<Longrightarrow> span_purge_ok (ce_span_purge e) \<Longrightarrow> fleet_run e ([], globals_new m sm) (\<lambda>_ _. {})"
| fleet_call: "fleet_run e w H \<Longrightarrow> legal (answering e a) x w H \<Longrightarrow> fleet_do (answering e a) x w = Some (r, w')
    \<Longrightarrow> fleet_run e w' (held_after x r H)"

section \<open>The invariant\<close>

lemma answering_inv: "fleet_inv (answering e a) H D cs g = fleet_inv e H D cs g"
proof -
  obtain p m b h where a: "a = (p, m, b, h)" by (metis prod_cases4)
  have "fleet_tier (answering e a) t c = fleet_tier e t c" for t c by (cases t) (simp_all add: a fun_eq_iff)
  then show ?thesis by (simp add: fleet_inv_def fleet_def fleet_parts_def)
qed

lemma begin_inv:
  assumes "purge_ok (ce_purge e)" "span_purge_ok (ce_span_purge e)"
  shows "fleet_inv e (\<lambda>_ _. {}) (\<lambda>_ _. {}) [] (globals_new m sm)"
proof -
  let ?g = "globals_new m sm"
  have p: "adoptable ?g = []" by (simp add: adoptable_def globals_new_def map_filter_def filter_empty_conv)
  have s: "slots_ok ?g" using p by (simp add: slots_ok_def globals_new_def)
  have h: "heaps_ok ?g" by (simp add: heaps_ok_def globals_new_def)
  have "fleet_tier e t c ?g [] {} {}" if "c < tier_count t" for t c
    using that new_stores(1) [OF assms(1)] new_stores(2,3) [OF assms(2)]
    by (cases t) (simp_all add: fleet_class_def globals_new_def)
  then show ?thesis using p s h by (simp add: fleet_inv_def fleet_def fleet_parts_def)
qed

text \<open>The cache of one running thread, and the others.\<close>

lemma running_split:
  assumes "alive i w"
  obtains tc cs where "fst w ! i = Some tc" "mset (running w) = add_mset tc (mset cs)"
    "\<And>x g. mset (running ((fst w)[i := x], g)) = mset (List.map_filter id [x]) + mset cs"
proof -
  have i: "i < length (fst w)" using assms by (simp add: alive_def)
  obtain tc where tc: "fst w ! i = Some tc" using assms by (auto simp: alive_def)
  define cs where "cs = List.map_filter id ((fst w)[i := None])"
  have e: "mset (List.map_filter id ((fst w)[i := x])) = mset (List.map_filter id [x]) + mset cs" for x
  proof -
    have "mset (List.map_filter id ((fst w)[i := x, i := None])) + mset (List.map_filter id [x])
        = mset (List.map_filter id ((fst w)[i := x])) + mset (List.map_filter id [None :: thread_cache option])"
      using map_filter_update [of i "(fst w)[i := x]" None] i by simp
    then show ?thesis by (simp add: cs_def map_filter_simps ac_simps)
  qed
  show thesis
  proof (rule that [OF tc])
    show "mset (running w) = add_mset tc (mset cs)"
      using e [of "Some tc"] tc i list_update_id [of "fst w" i] by (simp add: running_def map_filter_simps)
  qed (simp add: running_def e)
qed



lemma globals_kept_sub: "globals_kept H g D g' D' \<Longrightarrow> (\<And>t c. H' t c \<subseteq> H t c) \<Longrightarrow> globals_kept H' g D g' D'"
  unfolding globals_kept_def by (blast intro: kept_sub)

definition call_done :: "cache_env \<Rightarrow> fleet_call \<Rightarrow> fleet_state \<Rightarrow> blocks \<Rightarrow> blocks \<Rightarrow> bool" where
  "call_done e x w H D \<longleftrightarrow> (\<exists>r w' D'. fleet_do e x w = Some (r, w') \<and> fleet_inv e (held_after x r H) D' (running w') (snd w')
     \<and> globals_kept (inf H (held_after x r H)) (snd w) D (snd w') D' \<and> (\<forall>i t c. x = Fl_Alloc i t c \<longrightarrow> r \<noteq> null \<longrightarrow> r \<notin> H t c))"

lemma call_doneI:
  assumes "fleet_do e x w = Some (r, w')" "fleet_inv e (held_after x r H) D' cs g" "mset (running w') = mset cs" "snd w' = g"
    "globals_kept K (snd w) D g D'" "\<And>t c. inf H (held_after x r H) t c \<subseteq> K t c" "\<And>i t c. x = Fl_Alloc i t c \<Longrightarrow> r \<noteq> null \<Longrightarrow> r \<notin> H t c"
  shows "call_done e x w H D"
proof -
  have "fleet_inv e (held_after x r H) D' (running w') (snd w')" using inv_perm [OF assms(2,3)] assms(4) by simp
  moreover have "globals_kept (inf H (held_after x r H)) (snd w) D (snd w') D'" unfolding assms(4) by (rule globals_kept_sub [OF assms(5,6)])
  ultimately show ?thesis using assms(1,7) unfolding call_done_def by blast
qed

lemma alloc_done:
  assumes f: "fleet_inv e H D (running w) (snd w)" and l: "legal e (Fl_Alloc i t c) w H"
  shows "call_done e (Fl_Alloc i t c) w H D"
proof -
  have a: "alive i w" "c < tier_count t" using l by simp_all
  obtain tc cs where s: "fst w ! i = Some tc" "mset (running w) = add_mset tc (mset cs)"
    "\<And>x g. mset (running ((fst w)[i := x], g)) = mset (List.map_filter id [x]) + mset cs"
    using running_split [OF a(1)] by blast
  have "fleet_inv e H D (tc # cs) (snd w)" by (rule inv_perm [OF f]) (simp add: s(2))
  from alloc_fleet [OF this a(2)] l obtain p z s' D' where
    r: "cache_alloc e t c (tc, snd w) = Some ((p, z), s')" "cache_kept H (tc, snd w) D s' D'"
    "p = null \<and> fleet_inv e H D' (fst s' # cs) (snd s')
      \<or> p \<noteq> null \<and> p \<notin> H t c \<and> (z \<longrightarrow> p \<notin> D' t c) \<and> fleet_inv e (upd t c (insert p (H t c)) H) D' (fst s' # cs) (snd s')"
    unfolding grown_def using s(1) by auto
  have k: "globals_kept H (snd w) D (snd s') D'" using r(2) by (simp add: globals_kept_cache)
  have d: "fleet_do e (Fl_Alloc i t c) w = Some (p, ((fst w)[i := Some (fst s')], snd s'))" by (simp add: on_cache_def s(1) r(1))
  show ?thesis
    by (rule call_doneI [OF d _ _ _ k, where cs = "fst s' # cs"]) (use r(3) s(3) in \<open>auto simp: map_filter_simps\<close>)
qed

lemma free_done:
  assumes f: "fleet_inv e H D (running w) (snd w)" and l: "legal e (Fl_Free i t c p) w H"
  shows "call_done e (Fl_Free i t c p) w H D"
proof -
  have a: "alive i w" "c < tier_count t" "p \<in> H t c" using l by simp_all
  obtain tc cs where s: "fst w ! i = Some tc" "mset (running w) = add_mset tc (mset cs)"
    "\<And>x g. mset (running ((fst w)[i := x], g)) = mset (List.map_filter id [x]) + mset cs"
    using running_split [OF a(1)] by blast
  have "fleet_inv e H D (tc # cs) (snd w)" by (rule inv_perm [OF f]) (simp add: s(2))
  from free_fleet [OF this a(2,3)] l obtain s' D' where
    r: "cache_free e t c p (tc, snd w) = Some s'" "fleet_inv e (upd t c (H t c - {p}) H) D' (fst s' # cs) (snd s')"
      "cache_kept (upd t c (H t c - {p}) H) (tc, snd w) D s' D'"
    using s(1) by auto
  have k: "globals_kept (upd t c (H t c - {p}) H) (snd w) D (snd s') D'" using r(3) by (simp add: globals_kept_cache)
  have d: "fleet_do e (Fl_Free i t c p) w = Some (null, ((fst w)[i := Some (fst s')], snd s'))" by (simp add: on_cache_def s(1) r(1))
  show ?thesis
    by (rule call_doneI [OF d _ _ _ k, where cs = "fst s' # cs"]) (use r(2) s(3) in \<open>auto simp: map_filter_simps\<close>)
qed

lemma flush_done:
  assumes f: "fleet_inv e H D (running w) (snd w)" and l: "alive i w"
  shows "call_done e (Fl_Flush i) w H D"
proof -
  obtain tc cs where s: "fst w ! i = Some tc" "mset (running w) = add_mset tc (mset cs)"
    "\<And>x g. mset (running ((fst w)[i := x], g)) = mset (List.map_filter id [x]) + mset cs"
    using running_split [OF l] by blast
  have "fleet_inv e H D (tc # cs) (snd w)" by (rule inv_perm [OF f]) (simp add: s(2))
  from tls_flush_ok [OF this] obtain tc' g' D' where
    r: "tls_flush e (Some TLS_FREE, (tc, snd w)) = Some (Some TLS_FREE, (tc', g'))" "fleet_inv e H D' (tc' # cs) g'"
      "globals_kept H (snd w) D g' D'"
    by blast
  have d: "fleet_do e (Fl_Flush i) w = Some (null, ((fst w)[i := Some tc'], g'))" by (simp add: on_cache_def s(1) r(1))
  show ?thesis
    by (rule call_doneI [OF d _ _ _ r(3), where cs = "tc' # cs"]) (use r(2) s(3) in \<open>auto simp: map_filter_simps\<close>)
qed

lemma exit_done:
  assumes f: "fleet_inv e H D (running w) (snd w)" and l: "alive i w"
  shows "call_done e (Fl_Exit i) w H D"
proof -
  obtain tc cs where s: "fst w ! i = Some tc" "mset (running w) = add_mset tc (mset cs)"
    "\<And>x g. mset (running ((fst w)[i := x], g)) = mset (List.map_filter id [x]) + mset cs"
    using running_split [OF l] by blast
  have "fleet_inv e H D (tc # cs) (snd w)" by (rule inv_perm [OF f]) (simp add: s(2))
  from retire_ok [OF this] obtain g' D' where
    r: "retire e (tc, snd w) = Some g'" "fleet_inv e H D' cs g'" "globals_kept H (snd w) D g' D'"
    by blast
  have d: "fleet_do e (Fl_Exit i) w = Some (null, ((fst w)[i := None], g'))" by (simp add: on_cache_def s(1) tls_retire_def r(1))
  show ?thesis
    by (rule call_doneI [OF d _ _ _ r(3), where cs = cs]) (use r(2) s(3) in \<open>auto simp: map_filter_simps\<close>)
qed

lemma call_ok:
  assumes f: "fleet_inv e H D (running w) (snd w)" and l: "legal e x w H"
  shows "call_done e x w H D"
proof (cases x)
  case Fl_Start
  have d: "fleet_do e Fl_Start w = Some (null, (fst w @ [Some thread_cache_new], snd w))" by simp
  have "fleet_inv e H D (thread_cache_new # running w) (snd w)" using f inv_none [OF no_blocks_new] by simp
  then have "call_done e Fl_Start w H D"
    by (intro call_doneI [OF d _ _ _ globals_kept_refl, where cs = "thread_cache_new # running w"])
       (auto simp: running_def map_filter_def)
  then show ?thesis using Fl_Start by simp
next
  case (Fl_Budget n)
  have d: "fleet_do e (Fl_Budget n) w = Some (null, (fst w, set_budget n (snd w)))" by simp
  have h: "same_heaps (snd w) (set_budget n (snd w))" by (simp add: same_heaps_def set_budget_def)
  have "fleet_inv e H D (running w) (set_budget n (snd w))"
    using f same_heaps_fleet [OF h] parked_same [of "set_budget n (snd w)" "snd w"] by (simp add: fleet_inv_def set_budget_def)
  moreover have "globals_kept H (snd w) D (set_budget n (snd w)) D" using same_heaps_kept(2) [OF h] globals_kept_refl by blast
  ultimately have "call_done e (Fl_Budget n) w H D"
    by (intro call_doneI [OF d, where cs = "running w"]) (auto simp: running_def)
  then show ?thesis using Fl_Budget by simp
qed (use alloc_done [OF f] free_done [OF f] flush_done [OF f] exit_done [OF f] l in \<open>simp_all del: legal.simps(2,3)\<close>)

lemma fleet_run_inv: "fleet_run e w H \<Longrightarrow> \<exists>D. fleet_inv e H D (running w) (snd w)"
proof (induction rule: fleet_run.induct)
  case (fleet_begin m sm)
  then show ?case using begin_inv by (auto simp: running_def map_filter_simps)
next
  case (fleet_call w H a x r w')
  then obtain D where "fleet_inv (answering e a) H D (running w) (snd w)" unfolding answering_inv by blast
  from call_ok [OF this fleet_call(2)] fleet_call(3) show ?case unfolding call_done_def answering_inv by auto
qed

text \<open>C17 (many threads).  After any history of threads that start, allocate, free blocks whoever allocated them,
  flush and end, adopting one another's retired caches on the way, every further call returns: an allocation
  gives null or a block nobody holds, and every block that stays held keeps its first word.\<close>

theorem fleet_safe:
  assumes "fleet_run e w H" "legal (answering e a) x w H"
  shows "\<exists>r w'. fleet_do (answering e a) x w = Some (r, w') \<and> fleet_run e w' (held_after x r H)
    \<and> (\<forall>i t c. x = Fl_Alloc i t c \<longrightarrow> r \<noteq> null \<longrightarrow> r \<notin> H t c)
    \<and> (\<forall>t c. \<forall>b \<in> H t c \<inter> held_after x r H t c. tier_words t c (snd w') b = tier_words t c (snd w) b)"
proof -
  obtain D where "fleet_inv (answering e a) H D (running w) (snd w)" using fleet_run_inv [OF assms(1)] unfolding answering_inv by blast
  from call_ok [OF this assms(2)] obtain r w' D' where
    r: "fleet_do (answering e a) x w = Some (r, w')" "globals_kept (inf H (held_after x r H)) (snd w) D (snd w') D'"
    "\<forall>i t c. x = Fl_Alloc i t c \<longrightarrow> r \<noteq> null \<longrightarrow> r \<notin> H t c"
    unfolding call_done_def by blast
  have "fleet_run e w' (held_after x r H)" by (rule fleet_call [OF assms r(1)])
  moreover have "\<forall>t c. \<forall>b \<in> H t c \<inter> held_after x r H t c. tier_words t c (snd w') b = tier_words t c (snd w) b"
    using r(2) by (simp add: globals_kept_def kept_def)
  ultimately show ?thesis using r(1,3) by blast
qed

text \<open>Two threads have started; the second allocates a block of class 44.\<close>

lemma first_will_grant: "will_grant first_env Small 44 first_state"
proof -
  have p: "snd (pop_small 44 s) = s" if "b_len (tc_bins (fst s) ! 44) = 0" "b_head (tc_bins (fst s) ! 44) = 0" for s
    using that by (simp add: pop_small_def bin_pop_def pop_block_def)
  have "b_len (tc_bins (fst s) ! 44) = 0 \<and> b_head (tc_bins (fst s) ! 44) = 0" if "s = first_state \<or> s = settle first_env first_state" for s
    using that by (auto simp: first_state_def settle_def thread_cache_new_def bin_new_def arm_exit_hook_def install_exit_hook_def
        refresh_budget_def Let_def const_simps)
  then have "snd (pop_small 44 first_state) = first_state"
    "snd (pop_small 44 (settle first_env first_state)) = settle first_env first_state"
    using p by blast+
  moreover have "grants first_env Small 44 first_state" by (rule first_grants) (simp_all add: const_simps)
  ultimately show ?thesis
    using prepare_quiet [OF first_quiet(1), of first_env] unfolding will_grant_def by (simp add: first_press del: split_paired_All)
qed

theorem fleet_safe_witness:
  "\<exists>r w'. fleet_do first_env (Fl_Alloc 1 Small 44) ([Some thread_cache_new, Some thread_cache_new], snd first_state) = Some (r, w')
    \<and> fleet_run first_env w' (held_after (Fl_Alloc 1 Small 44) r (\<lambda>_ _. {}))"
proof -
  let ?a = "(65536, 65536, 65536, True)"
  have e: "answering first_env ?a = first_env" by (simp add: first_env_def)
  have "fleet_run first_env ([], snd first_state) (\<lambda>_ _. {})"
    unfolding first_state_def snd_conv by (rule fleet_begin [OF first_purge])
  from fleet_call [OF this, of ?a Fl_Start] have "fleet_run first_env ([Some thread_cache_new], snd first_state) (\<lambda>_ _. {})" by simp
  from fleet_call [OF this, of ?a Fl_Start]
  have r: "fleet_run first_env ([Some thread_cache_new, Some thread_cache_new], snd first_state) (\<lambda>_ _. {})" by simp
  have "(thread_cache_new, snd first_state) = first_state" by (simp add: first_state_def)
  then have "legal (answering first_env ?a) (Fl_Alloc 1 Small 44) ([Some thread_cache_new, Some thread_cache_new], snd first_state) (\<lambda>_ _. {})"
    using first_will_grant unfolding e by (simp add: alive_def const_simps)
  from fleet_safe [OF r this] show ?thesis unfolding e by blast
qed

section \<open>Nothing is lost\<close>

text \<open>C18 (no leak at a flush).  After any history, when the only running thread flushes, the caches retired by others included, every
  block the program does not hold is free in its heap again: the live blocks of every class are exactly those
  held.\<close>

theorem flush_returns_everything:
  assumes "fleet_run e w H" "running w = [tc]" "g = snd w"
  shows "\<exists>tc' g'. tls_flush e (Some TLS_FREE, (tc, g)) = Some (Some TLS_FREE, (tc', g')) \<and> emptied tc tc'
    \<and> (\<forall>t c. \<forall>b \<in> H t c. tier_words t c g' b = tier_words t c g b)
    \<and> (\<forall>c < NUM_CLASSES. \<exists>d. small_st e c (gl_small g' ! c) (H Small c) d)
    \<and> (\<forall>c < NUM_MEDIUM. \<exists>d. medium_st e c (gl_medium g' ! c) (H Medium c) d)
    \<and> (\<forall>c < NUM_BIG. \<exists>d. big_st e c (gl_big g' ! c) (H Big c) d)"
proof -
  obtain D where "fleet_inv e H D [tc] g" using fleet_run_inv [OF assms(1)] assms(2,3) by auto
  from tls_flush_ok [OF this] obtain tc' g' D' where r: "tls_flush e (Some TLS_FREE, (tc, g)) = Some (Some TLS_FREE, (tc', g'))"
    "fleet_inv e H D' [tc'] g'" "globals_kept H g D g' D'" "emptied tc tc'" "adoptable g' = []"
    by blast
  have k: "\<forall>t c. \<forall>b \<in> H t c. tier_words t c g' b = tier_words t c g b" using r(3) by (simp add: globals_kept_def kept_def)
  have "fleet_inv e H D' [] g'" using r(2) inv_none [OF no_blocks_emptied [OF r(4)]] by simp
  then have "\<forall>t c. c < tier_count t \<longrightarrow> fleet_tier e t c g' [] (H t c) (D' t c)"
    using r(5) by (simp add: fleet_inv_def fleet_def fleet_parts_def)
  then have "(\<forall>c < NUM_CLASSES. \<exists>d. small_st e c (gl_small g' ! c) (H Small c) d)
      \<and> (\<forall>c < NUM_MEDIUM. \<exists>d. medium_st e c (gl_medium g' ! c) (H Medium c) d)
      \<and> (\<forall>c < NUM_BIG. \<exists>d. big_st e c (gl_big g' ! c) (H Big c) d)"
    unfolding all_tiers fleet_tier.simps fleet_class_def list_all2_Nil by fastforce
  then show ?thesis using r(1,4) k by blast
qed

theorem flush_returns_everything_witness:
  "\<exists>tc' g'. tls_flush first_env (Some TLS_FREE, (thread_cache_new, snd first_state)) = Some (Some TLS_FREE, (tc', g')) \<and> emptied thread_cache_new tc'"
proof -
  have "fleet_run first_env ([], snd first_state) (\<lambda>_ _. {})"
    unfolding first_state_def snd_conv by (rule fleet_begin [OF first_purge])
  from fleet_call [OF this, of "(0, 0, 0, True)" Fl_Start] have "fleet_run first_env ([Some thread_cache_new], snd first_state) (\<lambda>_ _. {})" by simp
  from flush_returns_everything [OF this, of thread_cache_new] show ?thesis by (auto simp: running_def map_filter_simps)
qed

text \<open>C19 (retirement round trip).  A cache retired into empty slots is what the next thread with nothing cached
  takes over at its first refill, block for block and with its thread id; only the settings are the adopter's.
  The slots are as they were.\<close>

theorem retire_adopt_roundtrip:
  assumes "gl_retired g = replicate RETIRED_SLOT_COUNT None" "gl_ready g = 0"
    and "cached_bytes tc + large_bytes (tc_stash tc) \<noteq> 0" "cached_bytes tc + large_bytes (tc_stash tc) \<le> RETIRED_SLOT_BYTES"
    and "cached_bytes new = 0" "large_len (tc_stash new) = 0" "\<not> retired_reclaimed new"
  shows "do { g1 \<leftarrow> retire e (tc, g); reclaim_retired e (new, g1) }
    = Some (tc\<lparr>exit_armed := exit_armed new, budget := budget new, budget_epoch := budget_epoch new, retired_reclaimed := True\<rparr>, g)"
proof -
  let ?g1 = "g\<lparr>gl_retired := (gl_retired g)[0 := Some tc], gl_ready := 1\<rparr>"
  have u: "[0..<8] = [0, 1, 2, 3, 4, 5, 6, 7 :: nat]" by (simp add: upt_rec)
  have "first_slot (\<lambda>x. x = None) g = Some 0" by (simp add: first_slot_def assms(1) const_simps u)
  then have r: "retire e (tc, g) = Some ?g1"
    using assms(2-4) by (auto simp: retire_def Let_def const_simps)
  have "first_slot (\<lambda>x. x \<noteq> None) ?g1 = Some 0" by (simp add: first_slot_def assms(1) const_simps u)
  moreover have "?g1\<lparr>gl_retired := (gl_retired ?g1)[0 := None], gl_ready := 0\<rparr> = g"
    using assms(1,2) by (simp add: list_update_same_conv const_simps)
  ultimately have "take_one ?g1 = (Some tc, g)" by (simp add: take_one_def assms(1) const_simps)
  then have "reclaim_retired e (new, ?g1)
      = Some (tc\<lparr>exit_armed := exit_armed new, budget := budget new, budget_epoch := budget_epoch new, retired_reclaimed := True\<rparr>, g)"
    using assms(5-7) by (simp add: reclaim_retired_def)
  then show ?thesis using r by simp
qed

theorem retire_adopt_roundtrip_witness:
  "do { g1 \<leftarrow> retire first_env (thread_cache_new\<lparr>cached_bytes := 64, tc_tid := 7\<rparr>, snd first_state); reclaim_retired first_env (thread_cache_new, g1) }
    = Some (thread_cache_new\<lparr>cached_bytes := 64, tc_tid := 7, retired_reclaimed := True\<rparr>, snd first_state)"
  using retire_adopt_roundtrip [of "snd first_state" "thread_cache_new\<lparr>cached_bytes := 64, tc_tid := 7\<rparr>" thread_cache_new first_env]
  by (simp add: first_state_def globals_new_def thread_cache_new_def stash_new_def const_simps)

end
