(* ===== verification/Sys_Backends.thy ===== *)
theory Sys_Backends
  imports Sys_Memory Page_Layout
begin

text \<open>
  The three memory backends of \<open>src/src/sys\<close> (\<open>unix.rs\<close>, \<open>windows.rs\<close>, \<open>wasm.rs\<close>) behind the one interface that the
  rest of the allocator calls: \<open>map\<close>, \<open>unmap\<close>, \<open>discard\<close>, \<open>recommit\<close>.

  An address space gives each byte one of three states: free, reserved (held but not accessible) or accessible with a
  value.  The regions handed out by \<open>map\<close> are listed beside it.  The system calls are parameters; what their
  documentation promises is \<open>posix_ok\<close>, \<open>winapi_ok\<close> and \<open>grow_ok\<close>.  The purge counters are left out.
\<close>

section \<open>The interface\<close>

datatype cell = Free | Reserved | Byte nat

record vm =
  cells :: "addr \<Rightarrow> cell"
  regions :: "(addr \<times> nat) set"

record backend =
  bk_map :: "nat \<Rightarrow> vm \<Rightarrow> addr \<times> vm"
  bk_unmap :: "addr \<Rightarrow> nat \<Rightarrow> vm \<Rightarrow> bool \<times> vm"
  bk_discard :: "addr \<Rightarrow> nat \<Rightarrow> vm \<Rightarrow> discarded \<times> vm"
  bk_recommit :: "addr \<Rightarrow> nat \<Rightarrow> vm \<Rightarrow> vm"

definition within :: "addr \<Rightarrow> nat \<Rightarrow> addr \<Rightarrow> bool" where
  "within p n x \<longleftrightarrow> p \<le> x \<and> x < p + n"

text \<open>All bytes of a range are in a set of states; all bytes held outside it are as before.\<close>

definition each_in :: "cell set \<Rightarrow> addr \<Rightarrow> nat \<Rightarrow> vm \<Rightarrow> bool" where
  "each_in S p n s \<longleftrightarrow> (\<forall>x. within p n x \<longrightarrow> cells s x \<in> S)"

definition keeps :: "addr \<Rightarrow> nat \<Rightarrow> vm \<Rightarrow> vm \<Rightarrow> bool" where
  "keeps p n s s' \<longleftrightarrow> (\<forall>x. \<not> within p n x \<longrightarrow> cells s x \<noteq> Free \<longrightarrow> cells s' x = cells s x)"

abbreviation "held \<equiv> each_in (- {Free})"
abbreviation "ready \<equiv> each_in (range Byte)"

text \<open>What the callers rely on.  \<open>refuses\<close> tells whether the system may refuse to bring a discarded range back.\<close>

definition map_law :: "backend \<Rightarrow> bool" where
  "map_law bk \<longleftrightarrow> (\<forall>n s p s'. 0 < n \<longrightarrow> PAGE_SIZE dvd n \<longrightarrow> bk_map bk n s = (p, s') \<longrightarrow> keeps 0 0 s s'
     \<and> (if p = null then regions s' = regions s
        else PAGE_SIZE dvd p \<and> each_in {Free} p n s \<and> each_in {Byte 0} p n s' \<and> regions s' = insert (p, n) (regions s)))"

definition region_at :: "addr \<Rightarrow> nat \<Rightarrow> vm \<Rightarrow> bool" where
  "region_at p n s \<longleftrightarrow> (p, n) \<in> regions s \<and> (\<forall>m. (p, m) \<in> regions s \<longrightarrow> m = n)"

definition unmap_law :: "backend \<Rightarrow> bool" where
  "unmap_law bk \<longleftrightarrow> (\<forall>p n s b s'. region_at p n s \<longrightarrow> bk_unmap bk p n s = (b, s') \<longrightarrow>
     (if b then each_in {Free} p n s' \<and> keeps p n s s' else s' = s))"

definition discard_law :: "backend \<Rightarrow> bool" where
  "discard_law bk \<longleftrightarrow> (\<forall>p n s d s'. 0 < p \<longrightarrow> ready p n s \<longrightarrow> bk_discard bk p n s = (d, s') \<longrightarrow>
     keeps p n s s' \<and> regions s' = regions s \<and> held p n s' \<and> (zeroed d \<longrightarrow> each_in {Byte 0} p n s') \<and> (\<not> physical d \<longrightarrow> s' = s))"

definition recommit_law :: "bool \<Rightarrow> backend \<Rightarrow> bool" where
  "recommit_law refuses bk \<longleftrightarrow> (\<forall>p n s d s'. 0 < p \<longrightarrow> ready p n s \<longrightarrow> bk_discard bk p n s = (d, s') \<longrightarrow>
     keeps p n s' (bk_recommit bk p n s') \<and> regions (bk_recommit bk p n s') = regions s'
     \<and> (zeroed d \<longrightarrow> each_in {Byte 0} p n (bk_recommit bk p n s')) \<and> (\<not> refuses \<longrightarrow> ready p n (bk_recommit bk p n s')))"

definition backend_ok :: "bool \<Rightarrow> backend \<Rightarrow> bool" where
  "backend_ok refuses bk \<longleftrightarrow> map_law bk \<and> unmap_law bk \<and> discard_law bk \<and> recommit_law refuses bk"

section \<open>Unix\<close>

record posix =
  px_mmap :: "nat \<Rightarrow> vm \<Rightarrow> addr option \<times> vm"
  px_munmap :: "addr \<Rightarrow> nat \<Rightarrow> vm \<Rightarrow> bool \<times> vm"
  px_madvise :: "addr \<Rightarrow> nat \<Rightarrow> vm \<Rightarrow> bool \<times> vm"

definition unix_map :: "posix \<Rightarrow> nat \<Rightarrow> vm \<Rightarrow> addr \<times> vm" where
  "unix_map px n s =
     (case checked_add n MAP_ALIGN of
        None \<Rightarrow> (null, s)
      | Some tot \<Rightarrow>
          (case px_mmap px tot s of
             (None, s1) \<Rightarrow> (null, s1)
           | (Some r, s1) \<Rightarrow>
               let (p, trims) = sys_map (Some r) n;
                   s2 = fold (\<lambda>(b, m) s. snd (px_munmap px b m s)) trims s1
               in (p, s2\<lparr>regions := insert (p, n) (regions s2)\<rparr>)))"

definition unix_unmap :: "posix \<Rightarrow> addr \<Rightarrow> nat \<Rightarrow> vm \<Rightarrow> bool \<times> vm" where
  "unix_unmap px p n s = px_munmap px p n s"

text \<open>The probe and its cached verdict are those of \<open>Sys_Memory\<close>.\<close>

definition unix_discard :: "posix \<Rightarrow> probe_kernel \<Rightarrow> nat \<Rightarrow> addr \<Rightarrow> nat \<Rightarrow> vm \<Rightarrow> discarded \<times> vm" where
  "unix_discard px k cache p n s = (let (ok, s') = px_madvise px p n s in (fst (discard k ok cache), s'))"

definition unix_recommit :: "addr \<Rightarrow> nat \<Rightarrow> vm \<Rightarrow> vm" where
  "unix_recommit p n s = s"

definition unix_backend :: "posix \<Rightarrow> probe_kernel \<Rightarrow> nat \<Rightarrow> backend" where
  "unix_backend px k cache = \<lparr> bk_map = unix_map px, bk_unmap = unix_unmap px, bk_discard = unix_discard px k cache,
     bk_recommit = unix_recommit \<rparr>"

text \<open>\<open>zeroing\<close>: whether \<open>MADV_DONTNEED\<close> leaves zeros, as Linux documents; elsewhere it need not.\<close>

definition posix_ok :: "bool \<Rightarrow> posix \<Rightarrow> bool" where
  "posix_ok zeroing px \<longleftrightarrow>
     (\<forall>n s r s'. px_mmap px n s = (Some r, s') \<longrightarrow> 0 < r \<and> each_in {Free} r n s \<and> each_in {Byte 0} r n s' \<and> keeps 0 0 s s'
        \<and> regions s' = regions s)
     \<and> (\<forall>n s s'. px_mmap px n s = (None, s') \<longrightarrow> s' = s)
     \<and> (\<forall>p n s b s'. px_munmap px p n s = (b, s') \<longrightarrow> regions s' = regions s \<and> keeps p n s s' \<and> (if b then each_in {Free} p n s' else s' = s))
     \<and> (\<forall>p n s b s'. px_madvise px p n s = (b, s') \<longrightarrow> regions s' = regions s \<and> keeps p n s s' \<and> (\<not> b \<longrightarrow> s' = s)
        \<and> (ready p n s \<longrightarrow> ready p n s' \<and> (b \<and> zeroing \<longrightarrow> each_in {Byte 0} p n s')))"

text \<open>The probe is right about the kernel.\<close>

definition probe_honest :: "bool \<Rightarrow> probe_kernel \<Rightarrow> nat \<Rightarrow> bool" where
  "probe_honest zeroing k cache \<longleftrightarrow> (fst (dontneed_zeroes k cache) \<longrightarrow> zeroing)"

section \<open>Windows\<close>

definition MEM_RESERVE :: nat where [const_simps]: "MEM_RESERVE = 0x2000"
definition MEM_COMMIT :: nat where [const_simps]: "MEM_COMMIT = 0x1000"
definition MEM_RELEASE :: nat where [const_simps]: "MEM_RELEASE = 0x8000"
definition MEM_DECOMMIT :: nat where [const_simps]: "MEM_DECOMMIT = 0x4000"
definition PAGE_READWRITE :: nat where [const_simps]: "PAGE_READWRITE = 0x04"

record winapi =
  virtual_alloc :: "addr \<Rightarrow> nat \<Rightarrow> nat \<Rightarrow> nat \<Rightarrow> vm \<Rightarrow> addr \<times> vm"
  virtual_free :: "addr \<Rightarrow> nat \<Rightarrow> nat \<Rightarrow> vm \<Rightarrow> int \<times> vm"

definition windows_map :: "winapi \<Rightarrow> nat \<Rightarrow> vm \<Rightarrow> addr \<times> vm" where
  "windows_map w n s = virtual_alloc w null n (or MEM_RESERVE MEM_COMMIT) PAGE_READWRITE s"

definition windows_unmap :: "winapi \<Rightarrow> addr \<Rightarrow> nat \<Rightarrow> vm \<Rightarrow> bool \<times> vm" where
  "windows_unmap w p n s = (let (r, s') = virtual_free w p 0 MEM_RELEASE s in (r \<noteq> 0, s'))"

definition windows_discard :: "winapi \<Rightarrow> addr \<Rightarrow> nat \<Rightarrow> vm \<Rightarrow> discarded \<times> vm" where
  "windows_discard w p n s =
     (if n \<noteq> 0 then let (r, s') = virtual_free w p n MEM_DECOMMIT s in (\<lparr> physical = r \<noteq> 0, zeroed = False \<rparr>, s')
      else (\<lparr> physical = False, zeroed = False \<rparr>, s))"

text \<open>The result of \<open>VirtualAlloc\<close> is looked at by a debug assertion only.\<close>

definition windows_recommit :: "winapi \<Rightarrow> addr \<Rightarrow> nat \<Rightarrow> vm \<Rightarrow> vm" where
  "windows_recommit w p n s = (if n = 0 then s else snd (virtual_alloc w p n MEM_COMMIT PAGE_READWRITE s))"

definition windows_backend :: "winapi \<Rightarrow> backend" where
  "windows_backend w = \<lparr> bk_map = windows_map w, bk_unmap = windows_unmap w, bk_discard = windows_discard w,
     bk_recommit = windows_recommit w \<rparr>"

text \<open>\<open>commits\<close>: whether a commit of reserved pages always succeeds; by the documentation it may fail.\<close>

definition winapi_ok :: "bool \<Rightarrow> winapi \<Rightarrow> bool" where
  "winapi_ok commits w \<longleftrightarrow>
     (\<forall>n s p s'. virtual_alloc w null n (or MEM_RESERVE MEM_COMMIT) PAGE_READWRITE s = (p, s') \<longrightarrow> keeps 0 0 s s'
        \<and> (if p = null then regions s' = regions s
           else PAGE_SIZE dvd p \<and> each_in {Free} p n s \<and> each_in {Byte 0} p n s' \<and> regions s' = insert (p, n) (regions s)))
     \<and> (\<forall>p n s r s'. region_at p n s \<longrightarrow> virtual_free w p 0 MEM_RELEASE s = (r, s') \<longrightarrow>
          (if r \<noteq> 0 then each_in {Free} p n s' \<and> keeps p n s s' else s' = s))
     \<and> (\<forall>p n s r s'. held p n s \<longrightarrow> virtual_free w p n MEM_DECOMMIT s = (r, s') \<longrightarrow>
          keeps p n s s' \<and> regions s' = regions s \<and> (if r \<noteq> 0 then each_in {Reserved} p n s' else s' = s))
     \<and> (\<forall>p n s q s'. 0 < p \<longrightarrow> held p n s \<longrightarrow> virtual_alloc w p n MEM_COMMIT PAGE_READWRITE s = (q, s') \<longrightarrow>
          keeps p n s s' \<and> regions s' = regions s \<and> (if q \<noteq> null then ready p n s' else s' = s) \<and> (commits \<longrightarrow> q \<noteq> null))"

section \<open>WebAssembly\<close>

definition WASM_FAIL :: nat where [const_simps]: "WASM_FAIL = 2 ^ 32 - 1"

text \<open>\<open>memory_grow\<close> answers the old size in pages or \<open>usize::MAX\<close>; addresses have 32 bits.\<close>

definition wasm_map :: "(nat \<Rightarrow> vm \<Rightarrow> nat \<times> vm) \<Rightarrow> nat \<Rightarrow> vm \<Rightarrow> addr \<times> vm" where
  "wasm_map grow n s =
     (let (old, s') = grow (n div PAGE_SIZE) s
      in if old = WASM_FAIL then (null, s')
         else let p = old * PAGE_SIZE mod 2 ^ 32 in (p, s'\<lparr>regions := insert (p, n) (regions s')\<rparr>))"

definition wasm_unmap :: "addr \<Rightarrow> nat \<Rightarrow> vm \<Rightarrow> bool \<times> vm" where
  "wasm_unmap p n s = (False, s)"

definition wasm_discard :: "addr \<Rightarrow> nat \<Rightarrow> vm \<Rightarrow> discarded \<times> vm" where
  "wasm_discard p n s = (\<lparr> physical = False, zeroed = False \<rparr>, s)"

definition wasm_recommit :: "addr \<Rightarrow> nat \<Rightarrow> vm \<Rightarrow> vm" where
  "wasm_recommit p n s = s"

definition wasm_backend :: "(nat \<Rightarrow> vm \<Rightarrow> nat \<times> vm) \<Rightarrow> backend" where
  "wasm_backend grow = \<lparr> bk_map = wasm_map grow, bk_unmap = wasm_unmap, bk_discard = wasm_discard, bk_recommit = wasm_recommit \<rparr>"

text \<open>A module's memory is never empty, and never larger than 65536 pages.\<close>

definition grow_ok :: "(nat \<Rightarrow> vm \<Rightarrow> nat \<times> vm) \<Rightarrow> bool" where
  "grow_ok grow \<longleftrightarrow> (\<forall>k s old s'. grow k s = (old, s') \<longrightarrow> keeps 0 0 s s' \<and> regions s' = regions s
     \<and> (old \<noteq> WASM_FAIL \<longrightarrow> 0 < old \<and> old + k \<le> 65536
        \<and> each_in {Free} (old * PAGE_SIZE) (k * PAGE_SIZE) s \<and> each_in {Byte 0} (old * PAGE_SIZE) (k * PAGE_SIZE) s'))"

section \<open>Every backend keeps the laws\<close>

lemma keeps_refl [simp]: "keeps p n s s"
  by (simp add: keeps_def)

lemma each_in_mono: "each_in S p n s \<Longrightarrow> S \<subseteq> T \<Longrightarrow> each_in T p n s"
  unfolding each_in_def by blast

lemma keeps_trans_free:
  "keeps 0 0 s s1 \<Longrightarrow> keeps b m s1 s2 \<Longrightarrow> each_in {Free} b m s \<Longrightarrow> keeps 0 0 s s2"
  unfolding keeps_def each_in_def within_def by (metis add_0 not_less_zero singletonD)

lemma keeps_each: "keeps b m s s' \<Longrightarrow> each_in S p n s \<Longrightarrow> Free \<notin> S \<Longrightarrow> b + m \<le> p \<or> p + n \<le> b \<Longrightarrow> each_in S p n s'"
  unfolding keeps_def each_in_def within_def by (smt (verit) le_trans not_less order.strict_trans1)

lemma ready_held: "ready p n s \<Longrightarrow> held p n s" "each_in {Byte v} p n s \<Longrightarrow> ready p n s" "each_in {Reserved} p n s \<Longrightarrow> held p n s"
  by (auto simp: each_in_def)

text \<open>The laws of purging, for a backend in hand.\<close>

definition purge_kept :: "bool \<Rightarrow> backend \<Rightarrow> addr \<Rightarrow> nat \<Rightarrow> vm \<Rightarrow> discarded \<Rightarrow> vm \<Rightarrow> bool" where
  "purge_kept refuses bk p n s d s' \<longleftrightarrow>
     (keeps p n s s' \<and> regions s' = regions s \<and> held p n s' \<and> (zeroed d \<longrightarrow> each_in {Byte 0} p n s') \<and> (\<not> physical d \<longrightarrow> s' = s))
     \<and> keeps p n s' (bk_recommit bk p n s') \<and> regions (bk_recommit bk p n s') = regions s'
     \<and> (zeroed d \<longrightarrow> each_in {Byte 0} p n (bk_recommit bk p n s')) \<and> (\<not> refuses \<longrightarrow> ready p n (bk_recommit bk p n s'))"

lemma purge_laws_iff:
  "discard_law bk \<and> recommit_law refuses bk
    \<longleftrightarrow> (\<forall>p n s d s'. 0 < p \<longrightarrow> ready p n s \<longrightarrow> bk_discard bk p n s = (d, s') \<longrightarrow> purge_kept refuses bk p n s d s')"
  unfolding discard_law_def recommit_law_def purge_kept_def by blast

lemma wasm_backend_ok:
  assumes "grow_ok grow"
  shows "backend_ok False (wasm_backend grow)"
proof -
  have "map_law (wasm_backend grow)"
    unfolding map_law_def
  proof (intro allI impI)
    fix n s p s' assume n: "0 < n" "PAGE_SIZE dvd n" and e: "bk_map (wasm_backend grow) n s = (p, s')"
    obtain k where k: "n = k * PAGE_SIZE" using n(2) by (metis dvd_div_mult_self)
    obtain old s1 where g: "grow k s = (old, s1)" by (metis surj_pair)
    have e': "(p, s') = (if old = WASM_FAIL then (null, s1) else (old * PAGE_SIZE mod 2 ^ 32, s1\<lparr>regions := insert (old * PAGE_SIZE mod 2 ^ 32, n) (regions s1)\<rparr>))"
      using e k by (auto simp: wasm_backend_def wasm_map_def g PAGE_SIZE_def Let_def split: if_splits)
    have o: "keeps 0 0 s s1" "regions s1 = regions s" "old \<noteq> WASM_FAIL \<Longrightarrow> 0 < old \<and> old + k \<le> 65536
        \<and> each_in {Free} (old * PAGE_SIZE) (k * PAGE_SIZE) s \<and> each_in {Byte 0} (old * PAGE_SIZE) (k * PAGE_SIZE) s1"
      using assms g unfolding grow_ok_def by blast+
    show "keeps 0 0 s s' \<and> (if p = null then regions s' = regions s
        else PAGE_SIZE dvd p \<and> each_in {Free} p n s \<and> each_in {Byte 0} p n s' \<and> regions s' = insert (p, n) (regions s))"
    proof (cases "old = WASM_FAIL")
      case True
      then show ?thesis using e' o by simp
    next
      case False
      then have b: "0 < old" "old + k \<le> 65536" using o(3) by simp_all
      moreover have "0 < k" using n(1) k by simp
      ultimately have "old * PAGE_SIZE mod 2 ^ 32 = old * PAGE_SIZE" "0 < old * PAGE_SIZE" by (simp_all add: PAGE_SIZE_def)
      then show ?thesis using e' o False k by (auto simp: keeps_def each_in_def)
    qed
  qed
  then show ?thesis
    by (auto simp: backend_ok_def unmap_law_def discard_law_def recommit_law_def wasm_backend_def wasm_unmap_def
        wasm_discard_def wasm_recommit_def dest: ready_held(1))
qed

lemma windows_recommit_ok:
  assumes "winapi_ok commits w" "0 < p" "ready p n s" "windows_discard w p n s = (d, s')"
  shows "keeps p n s' (windows_recommit w p n s')" "regions (windows_recommit w p n s') = regions s'"
    "commits \<Longrightarrow> ready p n (windows_recommit w p n s')" "keeps p n s s'" "regions s' = regions s" "held p n s'" "\<not> zeroed d" "\<not> physical d \<Longrightarrow> s' = s"
proof -
  have a: "keeps p n s s' \<and> regions s' = regions s \<and> held p n s' \<and> \<not> zeroed d \<and> (\<not> physical d \<longrightarrow> s' = s)"
  proof (cases "n = 0")
    case True
    then show ?thesis using assms(4) by (auto simp: windows_discard_def each_in_def within_def)
  next
    case False
    obtain r s1 where f: "virtual_free w p n MEM_DECOMMIT s = (r, s1)" by (metis surj_pair)
    have "keeps p n s s1 \<and> regions s1 = regions s \<and> (if r \<noteq> 0 then each_in {Reserved} p n s1 else s1 = s)"
      using assms(1) ready_held(1) [OF assms(3)] f unfolding winapi_ok_def by blast
    then show ?thesis
      using assms(4) False ready_held(1) [OF assms(3)] ready_held(3) by (auto simp: windows_discard_def f split: if_splits)
  qed
  obtain q s2 where c: "virtual_alloc w p n MEM_COMMIT PAGE_READWRITE s' = (q, s2)" by (metis surj_pair)
  have "keeps p n s' s2 \<and> regions s2 = regions s' \<and> (if q \<noteq> null then ready p n s2 else s2 = s') \<and> (commits \<longrightarrow> q \<noteq> null)"
    using assms(1,2) a c unfolding winapi_ok_def by blast
  then show "keeps p n s' (windows_recommit w p n s')" "regions (windows_recommit w p n s') = regions s'"
    "commits \<Longrightarrow> ready p n (windows_recommit w p n s')" by (auto simp: windows_recommit_def c each_in_def within_def)
  show "keeps p n s s'" "regions s' = regions s" "held p n s'" "\<not> zeroed d" "\<not> physical d \<Longrightarrow> s' = s" using a by simp_all
qed

lemma windows_backend_ok:
  assumes "winapi_ok commits w"
  shows "backend_ok (\<not> commits) (windows_backend w)"
  unfolding backend_ok_def
proof (intro conjI)
  show "map_law (windows_backend w)"
    unfolding map_law_def
  proof (intro allI impI)
    fix n s p s' assume "bk_map (windows_backend w) n s = (p, s')"
    then have "virtual_alloc w null n (or MEM_RESERVE MEM_COMMIT) PAGE_READWRITE s = (p, s')"
      by (simp add: windows_backend_def windows_map_def)
    then show "keeps 0 0 s s' \<and> (if p = null then regions s' = regions s
        else PAGE_SIZE dvd p \<and> each_in {Free} p n s \<and> each_in {Byte 0} p n s' \<and> regions s' = insert (p, n) (regions s))"
      by (rule assms [unfolded winapi_ok_def, THEN conjunct1, rule_format])
  qed
  show "unmap_law (windows_backend w)"
    unfolding unmap_law_def
  proof (intro allI impI)
    fix p n s b s' assume r: "region_at p n s" and e: "bk_unmap (windows_backend w) p n s = (b, s')"
    obtain v s1 where f: "virtual_free w p 0 MEM_RELEASE s = (v, s1)" by (metis surj_pair)
    have "if v \<noteq> 0 then each_in {Free} p n s1 \<and> keeps p n s s1 else s1 = s" using assms r f unfolding winapi_ok_def by blast
    then show "if b then each_in {Free} p n s' \<and> keeps p n s s' else s' = s"
      using e by (auto simp: windows_backend_def windows_unmap_def f)
  qed
  have p: "discard_law (windows_backend w) \<and> recommit_law (\<not> commits) (windows_backend w)"
  unfolding purge_laws_iff
  proof (intro allI impI)
    fix p :: nat and n s d s' assume z: "0 < p" and r: "ready p n s" and "bk_discard (windows_backend w) p n s = (d, s')"
    then have d: "windows_discard w p n s = (d, s')" by (simp add: windows_backend_def)
    note windows_recommit_ok [OF assms z r d]
    moreover have "bk_recommit (windows_backend w) = windows_recommit w" by (simp add: windows_backend_def)
    ultimately show "purge_kept (\<not> commits) (windows_backend w) p n s d s'" unfolding purge_kept_def by simp
  qed
  show "discard_law (windows_backend w)" "recommit_law (\<not> commits) (windows_backend w)" using p by simp_all
qed

text \<open>The trims of the over-mapped range.\<close>

lemma munmap_ok:
  assumes "posix_ok z px" "px_munmap px p n s = (b, s')"
  shows "regions s' = regions s" "keeps p n s s'" "if b then each_in {Free} p n s' else s' = s"
  using assms unfolding posix_ok_def by blast+

lemma madvise_ok:
  assumes "posix_ok z px" "px_madvise px p n s = (b, s')"
  shows "regions s' = regions s" "keeps p n s s'" "\<not> b \<Longrightarrow> s' = s" "ready p n s \<Longrightarrow> ready p n s'"
    "ready p n s \<Longrightarrow> b \<Longrightarrow> z \<Longrightarrow> each_in {Byte 0} p n s'"
  using assms unfolding posix_ok_def by blast+

lemma mmap_ok:
  assumes "posix_ok z px" "px_mmap px n s = (Some r, s')"
  shows "0 < r" "each_in {Free} r n s" "each_in {Byte 0} r n s'" "keeps 0 0 s s'" "regions s' = regions s"
  using assms(1) [unfolded posix_ok_def, THEN conjunct1, rule_format, OF assms(2)] by simp_all

definition unmaps :: "posix \<Rightarrow> (addr \<times> nat) list \<Rightarrow> vm \<Rightarrow> vm" where
  "unmaps px trims s = fold (\<lambda>(b, m) s. snd (px_munmap px b m s)) trims s"

lemma unmaps_ok:
  assumes "posix_ok z px" "\<forall>(b, m) \<in> set trims. each_in {Free} b m s0 \<and> (b + m \<le> p \<or> p + n \<le> b)"
    "keeps 0 0 s0 s" "each_in {Byte 0} p n s"
  shows "keeps 0 0 s0 (unmaps px trims s) \<and> each_in {Byte 0} p n (unmaps px trims s) \<and> regions (unmaps px trims s) = regions s"
  using assms(2-4)
proof (induction trims arbitrary: s)
  case (Cons t trims)
  obtain b m where t: "t = (b, m)" by (metis surj_pair)
  obtain ok s1 where u: "px_munmap px b m s = (ok, s1)" by (metis surj_pair)
  note m = munmap_ok [OF assms(1) u]
  have f: "each_in {Free} b m s0" "b + m \<le> p \<or> p + n \<le> b" using Cons.prems(1) t by auto
  have "keeps 0 0 s0 s1" by (rule keeps_trans_free [OF Cons.prems(2) m(2) f(1)])
  moreover have "each_in {Byte 0} p n s1" by (rule keeps_each [OF m(2) Cons.prems(3) _ f(2)]) simp
  ultimately have "keeps 0 0 s0 (unmaps px trims s1) \<and> each_in {Byte 0} p n (unmaps px trims s1) \<and> regions (unmaps px trims s1) = regions s1"
    using Cons.IH Cons.prems(1) by simp
  then show ?case using m(1) by (simp add: unmaps_def t u)
qed (simp add: unmaps_def)

lemma sys_map_bounds:
  assumes "sys_map (Some r) n = (p, trims)" "checked_add n MAP_ALIGN = Some tot"
  shows "r \<le> p" "p < r + MAP_ALIGN" "MAP_ALIGN dvd p" "tot = n + MAP_ALIGN"
    "\<forall>(b, m) \<in> set trims. r \<le> b \<and> b + m \<le> r + tot \<and> (b + m \<le> p \<or> p + n \<le> b)"
proof -
  show tot: "tot = n + MAP_ALIGN" using assms(2) by (auto simp: checked_add_def split: if_splits)
  have a: "r + MAP_ALIGN - 1 = r + (MAP_ALIGN - 1)" by (simp add: MAP_ALIGN_def)
  have e: "p = mask_down MAP_ALIGN (r + (MAP_ALIGN - 1))"
    "trims = (if p - r \<noteq> 0 then [(r, p - r)] else []) @ (if tot - (p - r) - n \<noteq> 0 then [(p + n, tot - (p - r) - n)] else [])"
    using assms by (auto simp only: sys_map_def Let_def a option.case prod.inject)
  show b: "r \<le> p" "p < r + MAP_ALIGN" "MAP_ALIGN dvd p"
    unfolding e(1) using mask_down_bounds [of MAP_ALIGN r] by (auto simp: MAP_ALIGN_def)
  show "\<forall>(b, m) \<in> set trims. r \<le> b \<and> b + m \<le> r + tot \<and> (b + m \<le> p \<or> p + n \<le> b)"
    unfolding e(2) tot using b(1,2) by auto
qed

lemma each_in_part: "each_in S r m s \<Longrightarrow> r \<le> p \<Longrightarrow> p + n \<le> r + m \<Longrightarrow> each_in S p n s"
  unfolding each_in_def within_def by auto

lemma unix_map_law:
  assumes "posix_ok z px"
  shows "map_law (unix_backend px k cache)"
  unfolding map_law_def
proof (intro allI impI)
  fix n s p s' assume e: "bk_map (unix_backend px k cache) n s = (p, s')"
  let ?goal = "keeps 0 0 s s' \<and> (if p = null then regions s' = regions s
      else PAGE_SIZE dvd p \<and> each_in {Free} p n s \<and> each_in {Byte 0} p n s' \<and> regions s' = insert (p, n) (regions s))"
  have e': "unix_map px n s = (p, s')" using e by (simp add: unix_backend_def)
  show ?goal
  proof (cases "checked_add n MAP_ALIGN")
    case None
    then show ?thesis using e' by (simp add: unix_map_def)
  next
    case tot: (Some tot)
    obtain ro s1 where m: "px_mmap px tot s = (ro, s1)" by (metis surj_pair)
    show ?thesis
    proof (cases ro)
      case None
      have "s1 = s" using assms m None unfolding posix_ok_def by blast
      then show ?thesis using e' tot m None by (simp add: unix_map_def)
    next
      case (Some r)
      obtain q trims where t: "sys_map (Some r) n = (q, trims)" by (metis surj_pair)
      note b = sys_map_bounds [OF t tot]
      note mm = mmap_ok [OF assms m [unfolded Some]]
      have in_range: "each_in S q n v" if "each_in S r tot v" for S v by (rule each_in_part [OF that]) (use b in auto)
      have "\<forall>(b, m) \<in> set trims. each_in {Free} b m s \<and> (b + m \<le> q \<or> q + n \<le> b)"
        using b(5) each_in_part [OF mm(2)] by fastforce
      note u = unmaps_ok [OF assms this mm(4) in_range [OF mm(3)]]
      have r: "p = q" "s' = (unmaps px trims s1)\<lparr>regions := insert (q, n) (regions (unmaps px trims s1))\<rparr>"
        using e' by (auto simp add: unix_map_def tot m Some t unmaps_def Let_def)
      have "0 < q" using mm(1) b(1) by linarith
      moreover have "PAGE_SIZE dvd q" using b(3) by (simp add: MAP_ALIGN_def PAGE_SIZE_def)
      moreover have "each_in {Free} q n s" by (rule in_range [OF mm(2)])
      ultimately show ?thesis using r u mm(5) by (auto simp: keeps_def each_in_def)
    qed
  qed
qed

lemma unix_discard_ok:
  assumes "posix_ok z px" "probe_honest z k cache" "ready p n s" "unix_discard px k cache p n s = (d, s')"
  shows "keeps p n s s'" "regions s' = regions s" "ready p n s'" "zeroed d \<Longrightarrow> each_in {Byte 0} p n s'" "\<not> physical d \<Longrightarrow> s' = s"
proof -
  obtain ok s1 where a: "px_madvise px p n s = (ok, s1)" by (metis surj_pair)
  have e: "s' = s1" "d = fst (discard k ok cache)" using assms(4) by (simp_all add: unix_discard_def a)
  have d: "physical d = ok" "zeroed d \<Longrightarrow> ok \<and> z"
    using assms(2) by (auto simp: e(2) discard_def probe_honest_def split: prod.splits if_splits)
  note m = madvise_ok [OF assms(1) a]
  show "keeps p n s s'" "regions s' = regions s" "ready p n s'" using m assms(3) by (simp_all add: e(1))
  show "zeroed d \<Longrightarrow> each_in {Byte 0} p n s'" using m(5) [OF assms(3)] d(2) by (simp add: e(1))
  show "\<not> physical d \<Longrightarrow> s' = s" using m(3) d(1) by (simp add: e(1))
qed

lemma unix_backend_ok:
  assumes "posix_ok z px" "probe_honest z k cache"
  shows "backend_ok False (unix_backend px k cache)"
  unfolding backend_ok_def
proof (intro conjI)
  show "map_law (unix_backend px k cache)" by (rule unix_map_law [OF assms(1)])
  show "unmap_law (unix_backend px k cache)"
    unfolding unmap_law_def
  proof (intro allI impI)
    fix p n s b s' assume "bk_unmap (unix_backend px k cache) p n s = (b, s')"
    then show "if b then each_in {Free} p n s' \<and> keeps p n s s' else s' = s"
      using munmap_ok [OF assms(1), of p n s b s'] by (simp add: unix_backend_def unix_unmap_def split: if_splits)
  qed
  have p: "discard_law (unix_backend px k cache) \<and> recommit_law False (unix_backend px k cache)"
  unfolding purge_laws_iff
  proof (intro allI impI)
    fix p :: nat and n s d s' assume z: "0 < p" and r: "ready p n s" and "bk_discard (unix_backend px k cache) p n s = (d, s')"
    then have d: "unix_discard px k cache p n s = (d, s')" by (simp add: unix_backend_def)
    note unix_discard_ok [OF assms r d]
    moreover have "bk_recommit (unix_backend px k cache) p n s' = s'" by (simp add: unix_backend_def unix_recommit_def)
    ultimately show "purge_kept (False) (unix_backend px k cache) p n s d s'" unfolding purge_kept_def by (simp add: ready_held(1))
  qed
  show "discard_law (unix_backend px k cache)" "recommit_law False (unix_backend px k cache)" using p by simp_all
qed


section \<open>Systems that behave\<close>

definition fill :: "cell \<Rightarrow> addr \<Rightarrow> nat \<Rightarrow> vm \<Rightarrow> vm" where
  "fill c p n s = s\<lparr>cells := (\<lambda>x. if within p n x then c else cells s x)\<rparr>"

definition free_at :: "addr \<Rightarrow> nat \<Rightarrow> vm \<Rightarrow> bool" where
  "free_at p n s = list_all (\<lambda>x. cells s x = Free) [p..<p + n]"

definition plain_posix :: posix where
  "plain_posix = \<lparr> px_mmap = (\<lambda>n s. if free_at 4096 n s then (Some 4096, fill (Byte 0) 4096 n s) else (None, s)),
     px_munmap = (\<lambda>p n s. (True, fill Free p n s)), px_madvise = (\<lambda>p n s. (True, fill (Byte 0) p n s)) \<rparr>"

definition plain_winapi :: "bool \<Rightarrow> winapi" where
  "plain_winapi commits = \<lparr>
     virtual_alloc = (\<lambda>p n t _ s.
       if t = or MEM_RESERVE MEM_COMMIT then
         if free_at 65536 n s then (65536, (fill (Byte 0) 65536 n s)\<lparr>regions := insert (65536, n) (regions s)\<rparr>) else (null, s)
       else if commits then (p, s\<lparr>cells := (\<lambda>x. if within p n x \<and> cells s x = Reserved then Byte 0 else cells s x)\<rparr>)
       else (null, s)),
     virtual_free = (\<lambda>p n t s.
       if t = MEM_DECOMMIT then (1, fill Reserved p n s)
       else (1, s\<lparr>cells := (\<lambda>x. if \<exists>(q, m) \<in> regions s. q = p \<and> within q m x then Free else cells s x)\<rparr>)) \<rparr>"

definition plain_grow :: "nat \<Rightarrow> vm \<Rightarrow> nat \<times> vm" where
  "plain_grow k s = (if k \<le> 65535 \<and> free_at PAGE_SIZE (k * PAGE_SIZE) s then (1, fill (Byte 0) PAGE_SIZE (k * PAGE_SIZE) s) else (WASM_FAIL, s))"

lemma fill_facts:
  "each_in {c} p n (fill c p n s)" "keeps p n s (fill c p n s)" "regions (fill c p n s) = regions s"
  "free_at p n s \<Longrightarrow> keeps 0 0 s (fill c p n s)" "free_at p n s \<Longrightarrow> each_in {Free} p n s"
  by (auto simp: fill_def each_in_def keeps_def free_at_def list_all_iff within_def)

lemma plain_posix_ok: "posix_ok True plain_posix"
  unfolding posix_ok_def plain_posix_def
  using fill_facts ready_held(2) [OF fill_facts(1)] by (auto split: if_splits)

lemma plain_grow_ok: "grow_ok plain_grow"
  unfolding grow_ok_def plain_grow_def
  using fill_facts [where p = PAGE_SIZE] by (auto simp: WASM_FAIL_def split: if_splits)

lemma plain_winapi_ok: "winapi_ok commits (plain_winapi commits)"
proof -
  have m: "MEM_COMMIT \<noteq> or MEM_RESERVE MEM_COMMIT" "MEM_RELEASE \<noteq> MEM_DECOMMIT" by (simp_all add: const_simps)
  let ?w = "plain_winapi commits"
  have "\<forall>n s p s'. virtual_alloc ?w null n (or MEM_RESERVE MEM_COMMIT) PAGE_READWRITE s = (p, s') \<longrightarrow> keeps 0 0 s s'
      \<and> (if p = null then regions s' = regions s
         else PAGE_SIZE dvd p \<and> each_in {Free} p n s \<and> each_in {Byte 0} p n s' \<and> regions s' = insert (p, n) (regions s))"
    using fill_facts by (auto simp: plain_winapi_def PAGE_SIZE_def keeps_def each_in_def split: if_splits)
  moreover have "\<forall>p n s r s'. region_at p n s \<longrightarrow> virtual_free ?w p 0 MEM_RELEASE s = (r, s') \<longrightarrow>
      (if r \<noteq> 0 then each_in {Free} p n s' \<and> keeps p n s s' else s' = s)"
    using m by (auto simp: plain_winapi_def region_at_def keeps_def each_in_def)
  moreover have "\<forall>p n s r s'. held p n s \<longrightarrow> virtual_free ?w p n MEM_DECOMMIT s = (r, s') \<longrightarrow>
      keeps p n s s' \<and> regions s' = regions s \<and> (if r \<noteq> 0 then each_in {Reserved} p n s' else s' = s)"
    using fill_facts by (auto simp: plain_winapi_def)
  moreover have "\<forall>p n s q s'. 0 < p \<longrightarrow> held p n s \<longrightarrow> virtual_alloc ?w p n MEM_COMMIT PAGE_READWRITE s = (q, s') \<longrightarrow>
      keeps p n s s' \<and> regions s' = regions s \<and> (if q \<noteq> null then ready p n s' else s' = s) \<and> (commits \<longrightarrow> q \<noteq> null)"
  proof (intro allI impI)
    fix p :: nat and n s q s' assume h: "0 < p" "held p n s" "virtual_alloc ?w p n MEM_COMMIT PAGE_READWRITE s = (q, s')"
    have c: "cells s x \<in> range Byte" if "within p n x" "cells s x \<noteq> Reserved" for x
      using h(2) that by (cases "cells s x") (auto simp: each_in_def)
    then show "keeps p n s s' \<and> regions s' = regions s \<and> (if q \<noteq> null then ready p n s' else s' = s) \<and> (commits \<longrightarrow> q \<noteq> null)"
      using h(1,3) m by (auto simp: plain_winapi_def keeps_def each_in_def split: if_splits intro: c)
  qed
  ultimately show ?thesis unfolding winapi_ok_def by (intro conjI)
qed

definition zero_kernel :: probe_kernel where
  "zero_kernel = \<lparr> pk_map = Some 4096, pk_advise = True, pk_effect = (\<lambda>_ _. 0) \<rparr>"


text \<open>A system that refuses a commit, which the documentation allows: the range stays inaccessible and \<open>recommit\<close>
  has no way to tell its caller.\<close>

lemma windows_recommit_lost:
  assumes "ready p n s" "0 < n"
  shows "winapi_ok False (plain_winapi False)
    \<and> each_in {Reserved} p n (windows_recommit (plain_winapi False) p n (snd (windows_discard (plain_winapi False) p n s)))"
proof -
  have "MEM_COMMIT \<noteq> or MEM_RESERVE MEM_COMMIT" by (simp add: const_simps)
  then have "windows_recommit (plain_winapi False) p n (snd (windows_discard (plain_winapi False) p n s)) = fill Reserved p n s"
    using assms(2) by (simp add: windows_recommit_def windows_discard_def plain_winapi_def)
  then show ?thesis using plain_winapi_ok [of False] fill_facts(1) by simp
qed

end

