(* ===== verification/Exit_Hook.thy ===== *)
theory Exit_Hook
  imports Prelude
begin

text \<open>
  The thread-exit hook (\<open>src/src/thread_exit.rs\<close>): one operating-system key for the process, made by whichever
  thread asks first, and a value under it for every thread that wants its cache retired when it exits.

  A step relation over any number of threads (numbered).  Every access to \<open>HOOK_KEY\<close> or \<open>INSTALLING\<close> and every
  system call is one step.  The operating system may refuse either call; a fresh key has no value in any thread,
  and at a thread's exit the destructor of every key under which the thread has a value runs, with the value
  cleared first.  The two implementations, for pthreads and for fiber-local storage, are the same text but for
  the calls; the step relation takes what an answer of the call that sets the value means by its documentation.
  The cache itself is in \<open>Tls_Guard\<close> and \<open>Retired_Slots\<close>: here a retirement is counted.
\<close>

section \<open>The hook\<close>

datatype eh_pc =
    EH_Idle
  | EH_Look
  | EH_Claim
  | EH_Recheck
  | EH_Create
  | EH_Publish nat
  | EH_Unlock "nat option"
  | EH_Set nat
  | EH_Wait
  | EH_Done bool
  | EH_Exited

record hook =
  hk_key :: "nat option"
  hk_installing :: bool
  hk_created :: "nat list"
  hk_value :: "nat \<Rightarrow> nat \<Rightarrow> bool"
  hk_armed :: "nat \<Rightarrow> bool"
  hk_flush_count :: nat
  hk_retires :: "nat \<Rightarrow> nat"
  hk_pc :: "nat \<Rightarrow> eh_pc"

definition hook_new :: hook where
  "hook_new = \<lparr> hk_key = None, hk_installing = False, hk_created = [], hk_value = (\<lambda>_ _. False), hk_armed = (\<lambda>_. False),
     hk_flush_count = 0, hk_retires = (\<lambda>_. 0), hk_pc = (\<lambda>_. EH_Idle) \<rparr>"

definition eh_goto :: "nat \<Rightarrow> eh_pc \<Rightarrow> hook \<Rightarrow> hook" where
  "eh_goto t c h = h\<lparr>hk_pc := (hk_pc h)(t := c)\<rparr>"

definition set_value :: "nat \<Rightarrow> nat \<Rightarrow> bool \<Rightarrow> hook \<Rightarrow> hook" where
  "set_value t k b h = h\<lparr>hk_value := (hk_value h)(t := (hk_value h t)(k := b))\<rparr>"

text \<open>The destructor: forget the value, count, retire the cache of the exiting thread.\<close>

definition record_flush :: "nat \<Rightarrow> hook \<Rightarrow> hook" where
  "record_flush t h = h\<lparr>hk_flush_count := add_w 64 (hk_flush_count h) 1, hk_retires := (hk_retires h)(t := hk_retires h t + 1)\<rparr>"

definition thread_exit_flush :: "nat \<Rightarrow> hook \<Rightarrow> hook" where
  "thread_exit_flush t h = record_flush t (case hk_key h of Some k \<Rightarrow> set_value t k False h | None \<Rightarrow> h)"

definition flush_count :: "hook \<Rightarrow> nat" where
  "flush_count h = hk_flush_count h"

text \<open>What the operating system does when a thread exits.\<close>

definition os_destructor :: "nat \<Rightarrow> nat \<Rightarrow> hook \<Rightarrow> hook" where
  "os_destructor t k h = (if hk_value h t k then thread_exit_flush t (set_value t k False h) else h)"

definition os_exit :: "nat \<Rightarrow> hook \<Rightarrow> hook" where
  "os_exit t h = fold (os_destructor t) (hk_created h) h"

text \<open>\<open>ensure_hook\<close>, entered by \<open>install_exit_hook\<close> from a thread that is not armed.  \<open>HOOK_KEY.set\<close> on a set key
  answers the key it was given, and the code goes on with that one.\<close>

inductive eh_step :: "(int \<Rightarrow> bool) \<Rightarrow> hook \<Rightarrow> hook \<Rightarrow> bool" for ok where
  eh_call: "hk_pc h t = EH_Idle \<Longrightarrow> \<not> hk_armed h t \<Longrightarrow> eh_step ok h (eh_goto t EH_Look h)"
| eh_look: "hk_pc h t = EH_Look \<Longrightarrow> eh_step ok h (eh_goto t (case hk_key h of Some k \<Rightarrow> EH_Set k | None \<Rightarrow> EH_Claim) h)"
| eh_claim: "hk_pc h t = EH_Claim \<Longrightarrow> \<not> hk_installing h \<Longrightarrow> eh_step ok h (eh_goto t EH_Recheck (h\<lparr>hk_installing := True\<rparr>))"
| eh_claim_lost: "hk_pc h t = EH_Claim \<Longrightarrow> hk_installing h \<Longrightarrow> eh_step ok h (eh_goto t EH_Wait h)"
| eh_recheck: "hk_pc h t = EH_Recheck \<Longrightarrow>
    eh_step ok h (eh_goto t (case hk_key h of Some k \<Rightarrow> EH_Unlock (Some k) | None \<Rightarrow> EH_Create) h)"
| eh_create: "hk_pc h t = EH_Create \<Longrightarrow> k \<notin> set (hk_created h) \<Longrightarrow>
    eh_step ok h (eh_goto t (EH_Publish k) (h\<lparr>hk_created := k # hk_created h\<rparr>))"
| eh_create_fails: "hk_pc h t = EH_Create \<Longrightarrow> eh_step ok h (eh_goto t (EH_Unlock None) h)"
| eh_publish: "hk_pc h t = EH_Publish k \<Longrightarrow>
    eh_step ok h (eh_goto t (EH_Unlock (Some k)) (if hk_key h = None then h\<lparr>hk_key := Some k\<rparr> else h))"
| eh_unlock: "hk_pc h t = EH_Unlock key \<Longrightarrow>
    eh_step ok h (eh_goto t (case key of Some k \<Rightarrow> EH_Set k | None \<Rightarrow> EH_Done False) (h\<lparr>hk_installing := False\<rparr>))"
| eh_set: "hk_pc h t = EH_Set k \<Longrightarrow> eh_step ok h (eh_goto t (EH_Done (r = 0)) (if ok r then set_value t k True h else h))"
| eh_wait: "hk_pc h t = EH_Wait \<Longrightarrow> hk_installing h \<Longrightarrow> eh_step ok h h"
| eh_wait_over: "hk_pc h t = EH_Wait \<Longrightarrow> \<not> hk_installing h \<Longrightarrow> eh_step ok h (eh_goto t EH_Look h)"
| eh_return: "hk_pc h t = EH_Done b \<Longrightarrow>
    eh_step ok h (eh_goto t EH_Idle (h\<lparr>hk_armed := (hk_armed h)(t := hk_armed h t \<or> b)\<rparr>))"
| eh_exit: "hk_pc h t = EH_Idle \<Longrightarrow> eh_step ok h (eh_goto t EH_Exited (os_exit t h))"

inductive eh_run :: "(int \<Rightarrow> bool) \<Rightarrow> hook \<Rightarrow> bool" for ok where
  eh_start: "eh_run ok hook_new"
| eh_next: "eh_run ok h \<Longrightarrow> eh_step ok h h' \<Longrightarrow> eh_run ok h'"

text \<open>\<open>pthread_setspecific\<close> answers 0 when it succeeds, \<open>FlsSetValue\<close> when it fails.\<close>

definition eh_unix :: "hook \<Rightarrow> hook \<Rightarrow> bool" where "eh_unix = eh_step (\<lambda>r. r = 0)"
definition eh_windows :: "hook \<Rightarrow> hook \<Rightarrow> bool" where "eh_windows = eh_step (\<lambda>r. r \<noteq> 0)"

section \<open>One key\<close>

fun installer :: "eh_pc \<Rightarrow> bool" where
  "installer EH_Recheck = True"
| "installer EH_Create = True"
| "installer (EH_Publish k) = True"
| "installer (EH_Unlock key) = True"
| "installer _ = False"

definition exclusive :: "hook \<Rightarrow> bool" where
  "exclusive h \<longleftrightarrow> (\<forall>t. installer (hk_pc h t) \<longrightarrow> hk_installing h)
     \<and> (\<forall>t u. installer (hk_pc h t) \<longrightarrow> installer (hk_pc h u) \<longrightarrow> t = u)
     \<and> (hk_installing h \<longrightarrow> (\<exists>t. installer (hk_pc h t)))"

definition publishing :: "hook \<Rightarrow> bool" where
  "publishing h \<longleftrightarrow> (\<exists>t k. hk_pc h t = EH_Publish k)"

text \<open>What a thread's program point promises about the key.\<close>

fun promise :: "nat option \<Rightarrow> nat list \<Rightarrow> eh_pc \<Rightarrow> bool" where
  "promise key ks (EH_Publish k) \<longleftrightarrow> key = None \<and> ks = [k]"
| "promise key ks EH_Create \<longleftrightarrow> key = None"
| "promise key ks (EH_Unlock (Some k)) \<longleftrightarrow> key = Some k"
| "promise key ks (EH_Set k) \<longleftrightarrow> key = Some k"
| "promise key ks _ \<longleftrightarrow> True"

definition one_key :: "hook \<Rightarrow> bool" where
  "one_key h \<longleftrightarrow> (\<forall>t. promise (hk_key h) (hk_created h) (hk_pc h t))
     \<and> (publishing h \<or> hk_created h = (case hk_key h of Some k \<Rightarrow> [k] | None \<Rightarrow> []))
     \<and> (\<forall>t k. hk_value h t k \<longrightarrow> hk_key h = Some k)"

lemma exclusiveD:
  assumes "exclusive h"
  shows "installer (hk_pc h t) \<Longrightarrow> hk_installing h" "installer (hk_pc h t) \<Longrightarrow> installer (hk_pc h u) \<Longrightarrow> t = u"
    "hk_installing h \<Longrightarrow> \<exists>t. installer (hk_pc h t)"
  using assms unfolding exclusive_def by blast+

lemma exclusive_goto:
  assumes "exclusive h" "installer c = installer (hk_pc h t)" "hk_pc h' = hk_pc h" "hk_installing h' = hk_installing h"
  shows "exclusive (eh_goto t c h')"
proof -
  have "installer (hk_pc (eh_goto t c h') u) = installer (hk_pc h u)" for u using assms(2,3) by (simp add: eh_goto_def)
  then show ?thesis using assms(1,4) by (simp add: exclusive_def) (simp add: eh_goto_def)
qed

lemma os_destructor_same:
  "hk_pc (os_destructor t k h) = hk_pc h" "hk_installing (os_destructor t k h) = hk_installing h"
  "hk_key (os_destructor t k h) = hk_key h" "hk_created (os_destructor t k h) = hk_created h" "hk_armed (os_destructor t k h) = hk_armed h"
  by (simp_all add: os_destructor_def thread_exit_flush_def record_flush_def set_value_def split: option.split)

lemma os_destructor_others:
  "hk_value (os_destructor t k h) u l \<Longrightarrow> hk_value h u l" "u \<noteq> t \<Longrightarrow> hk_value (os_destructor t k h) u = hk_value h u"
  "u \<noteq> t \<Longrightarrow> hk_retires (os_destructor t k h) u = hk_retires h u"
  by (auto simp: os_destructor_def thread_exit_flush_def record_flush_def set_value_def split: option.splits if_splits)

lemma os_exit_same:
  "hk_pc (os_exit t h) = hk_pc h" "hk_installing (os_exit t h) = hk_installing h" "hk_key (os_exit t h) = hk_key h"
  "hk_created (os_exit t h) = hk_created h" "hk_armed (os_exit t h) = hk_armed h"
proof -
  have "hk_pc (fold (os_destructor t) ks g) = hk_pc g" for ks g by (induction ks arbitrary: g) (simp_all add: os_destructor_same)
  moreover have "hk_installing (fold (os_destructor t) ks g) = hk_installing g" for ks g by (induction ks arbitrary: g) (simp_all add: os_destructor_same)
  moreover have "hk_key (fold (os_destructor t) ks g) = hk_key g" for ks g by (induction ks arbitrary: g) (simp_all add: os_destructor_same)
  moreover have "hk_created (fold (os_destructor t) ks g) = hk_created g" for ks g by (induction ks arbitrary: g) (simp_all add: os_destructor_same)
  moreover have "hk_armed (fold (os_destructor t) ks g) = hk_armed g" for ks g by (induction ks arbitrary: g) (simp_all add: os_destructor_same)
  ultimately show "hk_pc (os_exit t h) = hk_pc h" "hk_installing (os_exit t h) = hk_installing h" "hk_key (os_exit t h) = hk_key h"
    "hk_created (os_exit t h) = hk_created h" "hk_armed (os_exit t h) = hk_armed h" by (simp_all add: os_exit_def)
qed

lemma os_exit_others:
  "hk_value (os_exit t h) u l \<Longrightarrow> hk_value h u l" "u \<noteq> t \<Longrightarrow> hk_value (os_exit t h) u = hk_value h u"
  "u \<noteq> t \<Longrightarrow> hk_retires (os_exit t h) u = hk_retires h u"
proof -
  have "hk_value (fold (os_destructor t) ks g) u l \<Longrightarrow> hk_value g u l" for ks g
    by (induction ks arbitrary: g) (auto dest: os_destructor_others(1))
  moreover have "u \<noteq> t \<Longrightarrow> hk_value (fold (os_destructor t) ks g) u = hk_value g u" for ks g
    by (induction ks arbitrary: g) (simp_all add: os_destructor_others(2))
  moreover have "u \<noteq> t \<Longrightarrow> hk_retires (fold (os_destructor t) ks g) u = hk_retires g u" for ks g
    by (induction ks arbitrary: g) (simp_all add: os_destructor_others(3))
  ultimately show "hk_value (os_exit t h) u l \<Longrightarrow> hk_value h u l" "u \<noteq> t \<Longrightarrow> hk_value (os_exit t h) u = hk_value h u"
    "u \<noteq> t \<Longrightarrow> hk_retires (os_exit t h) u = hk_retires h u" by (simp_all add: os_exit_def)
qed

lemma exclusive_step: "eh_step ok h h' \<Longrightarrow> exclusive h \<Longrightarrow> exclusive h'"
proof (induction rule: eh_step.induct)
  case (eh_claim h t)
  then have "\<not> installer (hk_pc h u)" for u using exclusiveD(1) by blast
  then show ?case by (auto simp: exclusive_def eh_goto_def)
next
  case (eh_unlock h t key)
  then have "installer (hk_pc h t)" by simp
  then have "\<not> installer (hk_pc h u)" if "u \<noteq> t" for u using exclusiveD(2) [OF eh_unlock(2)] that by blast
  then show ?case by (auto simp: exclusive_def eh_goto_def split: option.splits)
next
  case (eh_exit h t)
  then show ?case by (intro exclusive_goto [where h = h]) (simp_all add: os_exit_same)
qed (assumption | rule exclusive_goto, assumption; simp add: set_value_def split: option.split)+

lemma one_keyD:
  assumes "one_key h"
  shows "promise (hk_key h) (hk_created h) (hk_pc h t)" "\<not> publishing h \<Longrightarrow> hk_created h = (case hk_key h of Some k \<Rightarrow> [k] | None \<Rightarrow> [])"
    "hk_value h t k \<Longrightarrow> hk_key h = Some k"
  using assms unfolding one_key_def by blast+

lemma one_key_goto:
  assumes "one_key h" "hk_key h' = hk_key h" "hk_created h' = hk_created h" "hk_pc h' = hk_pc h"
    "\<And>u k. hk_value h' u k \<Longrightarrow> hk_key h = Some k" "promise (hk_key h) (hk_created h) c" "\<And>k. hk_pc h t \<noteq> EH_Publish k"
  shows "one_key (eh_goto t c h')"
proof -
  have "publishing (eh_goto t c h')" if "publishing h" using that assms(4,7) by (force simp: publishing_def eh_goto_def)
  moreover have "promise (hk_key h) (hk_created h) (hk_pc (eh_goto t c h') u)" for u
    using assms(4,6) one_keyD(1) [OF assms(1)] by (simp add: eh_goto_def)
  moreover have "hk_key (eh_goto t c h') = hk_key h" "hk_created (eh_goto t c h') = hk_created h" "hk_value (eh_goto t c h') = hk_value h'"
    using assms(2,3) by (simp_all add: eh_goto_def)
  ultimately show ?thesis using assms(5) one_keyD(2) [OF assms(1)] by (auto simp: one_key_def)
qed

lemma one_key_move:
  assumes "one_key h" "\<nexists>k. hk_pc h t = EH_Publish k" "hk_key h' = hk_key h" "hk_created h' = hk_created h" "hk_pc h' = hk_pc h"
    "hk_value h' = hk_value h" "promise (hk_key h) (hk_created h) c"
  shows "one_key (eh_goto t c h')"
  by (rule one_key_goto [OF assms(1,3-5) _ assms(7)]) (use assms(2,6) one_keyD(3) [OF assms(1)] in auto)

lemma installer_alone:
  assumes "exclusive h" "installer (hk_pc h t)" "\<And>k. hk_pc h t \<noteq> EH_Publish k"
  shows "\<not> publishing h"
  using exclusiveD(2) [OF assms(1,2)] assms(3) unfolding publishing_def by (metis installer.simps(3))

lemma one_key_create:
  assumes "exclusive h" "one_key h" "hk_pc h t = EH_Create"
  shows "one_key (eh_goto t (EH_Publish k) (h\<lparr>hk_created := k # hk_created h\<rparr>))"
proof -
  have n: "hk_key h = None" using one_keyD(1) [OF assms(2), of t] assms(3) by simp
  have e: "hk_created h = []" using one_keyD(2) [OF assms(2) installer_alone [OF assms(1), of t]] assms(3) n by simp
  have o: "promise None [k] (hk_pc h u)" if "u \<noteq> t" for u
  proof -
    have "hk_pc h u \<noteq> EH_Publish l" for l using exclusiveD(2) [OF assms(1), of t u] assms(3) that by auto
    then show ?thesis using one_keyD(1) [OF assms(2), of u] n by (cases "(hk_key h, hk_created h, hk_pc h u)" rule: promise.cases) auto
  qed
  have "publishing (eh_goto t (EH_Publish k) (h\<lparr>hk_created := k # hk_created h\<rparr>))" by (auto simp: publishing_def eh_goto_def)
  moreover have "\<not> hk_value h u l" for u l using one_keyD(3) [OF assms(2)] n by (metis option.distinct(1))
  ultimately show ?thesis using o n e by (simp add: one_key_def) (simp add: eh_goto_def)
qed

lemma one_key_publish:
  assumes "exclusive h" "one_key h" "hk_pc h t = EH_Publish k"
  shows "one_key (eh_goto t (EH_Unlock (Some k)) (if hk_key h = None then h\<lparr>hk_key := Some k\<rparr> else h))"
proof -
  have n: "hk_key h = None" "hk_created h = [k]" using one_keyD(1) [OF assms(2), of t] assms(3) by simp_all
  have o: "promise (Some k) [k] (hk_pc h u)" if "u \<noteq> t" for u
  proof -
    have "\<not> installer (hk_pc h u)" using exclusiveD(2) [OF assms(1), of t u] assms(3) that by auto
    then show ?thesis using one_keyD(1) [OF assms(2), of u] n by (cases "(hk_key h, hk_created h, hk_pc h u)" rule: promise.cases) auto
  qed
  have "\<not> hk_value h u l" for u l using one_keyD(3) [OF assms(2)] n by (metis option.distinct(1))
  then show ?thesis using o n by (simp add: one_key_def) (simp add: eh_goto_def)
qed

lemma one_key_step: "eh_step ok h h' \<Longrightarrow> exclusive h \<Longrightarrow> one_key h \<Longrightarrow> one_key h'"
proof (induction rule: eh_step.induct)
  case (eh_create h t k)
  then show ?case by (intro one_key_create)
next
  case (eh_publish h t k)
  then show ?case by (intro one_key_publish)
next
  case (eh_set h t k r)
  have "hk_key h = Some k" using one_keyD(1) [OF eh_set(3), of t] eh_set(1) by simp
  then show ?case
    using eh_set one_keyD(3) [OF eh_set(3)] by (intro one_key_goto [where h = h]) (auto simp: set_value_def split: if_splits)
next
  case (eh_exit h t)
  then show ?case
    by (intro one_key_goto [where h = h]) (auto simp: os_exit_same dest: os_exit_others(1) one_keyD(3))
next
  case (eh_unlock h t key)
  then show ?case using one_keyD(1) [OF eh_unlock(3), of t]
    by (intro one_key_goto [where h = h]) (auto split: option.splits dest: one_keyD(3))
next
  case (eh_wait h t)
  then show ?case by simp
qed (rule one_key_move, assumption; simp split: option.split)+

section \<open>Armed threads\<close>

definition thread_ok :: "bool \<Rightarrow> eh_pc \<Rightarrow> (nat \<Rightarrow> bool) \<Rightarrow> nat \<Rightarrow> bool" where
  "thread_ok armed c vals n \<longleftrightarrow> (armed \<longrightarrow> c = EH_Idle \<or> c = EH_Exited)
     \<and> (if c = EH_Exited then n = (if armed then 1 else 0) else n = 0 \<and> ((\<exists>k. vals k) \<longleftrightarrow> armed \<or> c = EH_Done True))"

definition threads_ok :: "hook \<Rightarrow> bool" where
  "threads_ok h \<longleftrightarrow> (\<forall>t. thread_ok (hk_armed h t) (hk_pc h t) (hk_value h t) (hk_retires h t))"

lemma threads_okD: "threads_ok h \<Longrightarrow> thread_ok (hk_armed h t) (hk_pc h t) (hk_value h t) (hk_retires h t)"
  unfolding threads_ok_def by blast

lemma threads_ok_goto:
  assumes "threads_ok h" "hk_pc h' = hk_pc h" "\<forall>u. u \<noteq> t \<longrightarrow> hk_armed h' u = hk_armed h u \<and> hk_value h' u = hk_value h u \<and> hk_retires h' u = hk_retires h u"
    "thread_ok (hk_armed h' t) c (hk_value h' t) (hk_retires h' t)"
  shows "threads_ok (eh_goto t c h')"
proof -
  have "thread_ok (hk_armed (eh_goto t c h') u) (hk_pc (eh_goto t c h') u) (hk_value (eh_goto t c h') u) (hk_retires (eh_goto t c h') u)" for u
    using assms threads_okD [OF assms(1), of u] by (cases "u = t") (simp_all add: eh_goto_def)
  then show ?thesis by (simp add: threads_ok_def)
qed

text \<open>Moves inside \<open>ensure_hook\<close> that leave the values alone.\<close>

fun underway :: "eh_pc \<Rightarrow> bool" where
  "underway EH_Idle = False"
| "underway EH_Exited = False"
| "underway (EH_Done b) = (\<not> b)"
| "underway _ = True"

lemma underwayD: "underway c \<Longrightarrow> c \<noteq> EH_Idle \<and> c \<noteq> EH_Exited \<and> c \<noteq> EH_Done True"
  by auto

lemma threads_ok_move:
  assumes "threads_ok h" "underway (hk_pc h t) \<or> hk_pc h t = EH_Idle \<and> \<not> hk_armed h t" "underway c"
    "hk_pc h' = hk_pc h" "hk_armed h' = hk_armed h" "hk_value h' = hk_value h" "hk_retires h' = hk_retires h"
  shows "threads_ok (eh_goto t c h')"
proof (rule threads_ok_goto [OF assms(1,4)])
  show "thread_ok (hk_armed h' t) c (hk_value h' t) (hk_retires h' t)"
    using threads_okD [OF assms(1), of t] assms(2,3,5-7) underwayD by (auto simp: thread_ok_def)
qed (use assms in simp)

lemma os_exit_retires:
  assumes "one_key h"
  shows "hk_retires (os_exit t h) t = hk_retires h t + (if \<exists>k. hk_value h t k then 1 else 0)"
proof (cases "\<exists>k. hk_value h t k")
  case False
  have "fold (os_destructor t) ks h = h" for ks by (induction ks) (use False in \<open>simp_all add: os_destructor_def\<close>)
  then show ?thesis using False by (simp add: os_exit_def)
next
  case True
  then obtain k where k: "hk_value h t k" by blast
  have key: "hk_key h = Some k" using one_keyD(3) [OF assms k] .
  have "\<not> publishing h" using one_keyD(1) [OF assms] key unfolding publishing_def by (metis option.distinct(1) promise.simps(1))
  then have "hk_created h = [k]" using one_keyD(2) [OF assms] key by simp
  then show ?thesis
    using True k key by (auto simp: os_exit_def os_destructor_def thread_exit_flush_def record_flush_def set_value_def)
qed

lemma threads_ok_step: "eh_step (\<lambda>r. r = 0) h h' \<Longrightarrow> one_key h \<Longrightarrow> threads_ok h \<Longrightarrow> threads_ok h'"
proof (induction rule: eh_step.induct)
  case (eh_set h t k r)
  show ?case using threads_okD [OF eh_set(3), of t] eh_set(1)
    by (intro threads_ok_goto [OF eh_set(3)]) (auto simp: set_value_def thread_ok_def)
next
  case (eh_exit h t)
  show ?case using threads_okD [OF eh_exit(3), of t] eh_exit(1)
    by (intro threads_ok_goto [OF eh_exit(3)]) (simp_all add: os_exit_same os_exit_others os_exit_retires [OF eh_exit(2)] thread_ok_def)
next
  case (eh_return h t b)
  show ?case using threads_okD [OF eh_return(3), of t] eh_return(1)
    by (intro threads_ok_goto [OF eh_return(3)]) (auto simp: thread_ok_def)
next
  case (eh_wait h t)
  then show ?case by simp
qed (rule threads_ok_move, assumption; simp split: option.split)+

lemma eh_run_ok:
  assumes "eh_run ok h"
  shows "exclusive h \<and> one_key h"
  using assms
proof (induction rule: eh_run.induct)
  case eh_start
  show ?case by (simp add: exclusive_def one_key_def publishing_def hook_new_def)
next
  case (eh_next h h')
  then show ?case using exclusive_step one_key_step by blast
qed

lemma eh_run_threads_ok:
  assumes "eh_run (\<lambda>r. r = 0) h"
  shows "threads_ok h"
  using assms
proof (induction rule: eh_run.induct)
  case eh_start
  show ?case by (simp add: threads_ok_def thread_ok_def hook_new_def)
next
  case (eh_next h h')
  then show ?case using threads_ok_step eh_run_ok by blast
qed

text \<open>C22 (exit hook, safety).  At every moment, with any number of threads racing to install the hook, at most one key
  has been made and at most one thread is installing; on unix a call that reports success has set the value of
  the calling thread and one that reports failure has not; a thread's cache is retired exactly once, when it
  exits, if it was armed, and never otherwise.\<close>

theorem exit_hook_safe:
  assumes "eh_run (\<lambda>r. r = 0) h"
  shows "length (hk_created h) \<le> 1 \<and> (installer (hk_pc h t) \<and> installer (hk_pc h u) \<longrightarrow> t = u)
    \<and> (hk_pc h t = EH_Done b \<longrightarrow> b = (\<exists>k. hk_value h t k))
    \<and> hk_retires h t = (if hk_pc h t = EH_Exited \<and> hk_armed h t then 1 else 0)"
proof (intro conjI)
  have x: "exclusive h" and o: "one_key h" using eh_run_ok [OF assms] by simp_all
  show "length (hk_created h) \<le> 1"
  proof (cases "publishing h")
    case True
    then obtain v k where "hk_pc h v = EH_Publish k" by (auto simp: publishing_def)
    then show ?thesis using one_keyD(1) [OF o, of v] by simp
  next
    case False
    then show ?thesis using one_keyD(2) [OF o] by (simp split: option.splits)
  qed
  show "installer (hk_pc h t) \<and> installer (hk_pc h u) \<longrightarrow> t = u" using exclusiveD(2) [OF x] by blast
  have a: "thread_ok (hk_armed h t) (hk_pc h t) (hk_value h t) (hk_retires h t)" by (rule threads_okD [OF eh_run_threads_ok [OF assms]])
  show "hk_pc h t = EH_Done b \<longrightarrow> b = (\<exists>k. hk_value h t k)" using a by (auto simp: thread_ok_def)
  show "hk_retires h t = (if hk_pc h t = EH_Exited \<and> hk_armed h t then 1 else 0)" using a by (simp add: thread_ok_def split: if_splits)
qed

text \<open>One thread that arms itself and exits.\<close>

lemma arming_run:
  assumes "\<forall>r. ok r = (r = 0)"
  shows "\<exists>h. eh_run ok h \<and> hk_pc h 0 = EH_Done True \<and> hk_armed h = (\<lambda>_. False) \<and> hk_created h = [7]"
proof -
  note d = hook_new_def eh_goto_def set_value_def
  have 1: "eh_run ok (eh_goto 0 EH_Look hook_new)" (is "eh_run ok ?h1")
    by (rule eh_next [OF eh_start eh_call]) (simp_all add: d)
  have 2: "eh_run ok (eh_goto 0 EH_Claim ?h1)" (is "eh_run ok ?h2")
    using eh_next [OF 1 eh_look [of ?h1 0]] by (simp add: d)
  have 3: "eh_run ok (eh_goto 0 EH_Recheck (?h2\<lparr>hk_installing := True\<rparr>))" (is "eh_run ok ?h3")
    by (rule eh_next [OF 2 eh_claim]) (simp_all add: d)
  have 4: "eh_run ok (eh_goto 0 EH_Create ?h3)" (is "eh_run ok ?h4")
    using eh_next [OF 3 eh_recheck [of ?h3 0]] by (simp add: d)
  have 5: "eh_run ok (eh_goto 0 (EH_Publish 7) (?h4\<lparr>hk_created := [7]\<rparr>))" (is "eh_run ok ?h5")
    using eh_next [OF 4 eh_create [of ?h4 0 7]] by (simp add: d)
  have 6: "eh_run ok (eh_goto 0 (EH_Unlock (Some 7)) (?h5\<lparr>hk_key := Some 7\<rparr>))" (is "eh_run ok ?h6")
    using eh_next [OF 5 eh_publish [of ?h5 0 7]] by (simp add: d)
  have 7: "eh_run ok (eh_goto 0 (EH_Set 7) (?h6\<lparr>hk_installing := False\<rparr>))" (is "eh_run ok ?h7")
    using eh_next [OF 6 eh_unlock [of ?h6 0 "Some 7"]] by (simp add: d)
  have 8: "eh_run ok (eh_goto 0 (EH_Done True) (set_value 0 7 True ?h7))" (is "eh_run ok ?h8")
    using eh_next [OF 7 eh_set [of ?h7 0 7 ok 0]] assms by (simp add: d)
  show ?thesis by (rule exI [of _ ?h8]) (use 8 in \<open>simp add: d\<close>)
qed

theorem exit_hook_safe_witness:
  "\<exists>h. eh_run (\<lambda>r. r = 0) h \<and> hk_pc h 0 = EH_Done True \<and> True = (\<exists>k. hk_value h 0 k) \<and> length (hk_created h) \<le> 1"
proof -
  obtain h where h: "eh_run (\<lambda>r. r = 0) h" "hk_pc h 0 = EH_Done True" using arming_run [of "\<lambda>r. r = 0"] by auto
  show ?thesis using exit_hook_safe [OF h(1), of 0 0 True] h by (intro exI [of _ h]) simp
qed

section \<open>Everyone gets an answer\<close>

definition can_reach :: "(int \<Rightarrow> bool) \<Rightarrow> hook \<Rightarrow> (hook \<Rightarrow> bool) \<Rightarrow> bool" where
  "can_reach ok h P \<longleftrightarrow> (\<exists>h'. (eh_step ok)\<^sup>*\<^sup>* h h' \<and> P h')"

lemma can_reach_now: "P h \<Longrightarrow> can_reach ok h P"
  unfolding can_reach_def by blast

lemma can_reach_step: "eh_step ok h h' \<Longrightarrow> can_reach ok h' P \<Longrightarrow> can_reach ok h P"
  unfolding can_reach_def by (meson converse_rtranclp_into_rtranclp)

lemma can_reach_trans:
  assumes "can_reach ok h P" "\<And>h'. (eh_step ok)\<^sup>*\<^sup>* h h' \<Longrightarrow> P h' \<Longrightarrow> can_reach ok h' Q"
  shows "can_reach ok h Q"
  using assms unfolding can_reach_def by (meson rtranclp_trans)

lemma pc_goto [simp]: "hk_pc (eh_goto t c h) u = (if u = t then c else hk_pc h u)"
    "hk_installing (eh_goto t c h) = hk_installing h" "hk_key (eh_goto t c h) = hk_key h" "hk_pc (set_value t k b h) = hk_pc h"
  by (simp_all add: eh_goto_def set_value_def)

text \<open>The one who installs can leave.\<close>

definition left :: "nat \<Rightarrow> hook \<Rightarrow> hook \<Rightarrow> bool" where
  "left t h h' \<longleftrightarrow> \<not> hk_installing h' \<and> (\<forall>u. u \<noteq> t \<longrightarrow> hk_pc h' u = hk_pc h u)"

lemma leaves_unlock:
  assumes "hk_pc h t = EH_Unlock key" "\<forall>u. u \<noteq> t \<longrightarrow> hk_pc h u = hk_pc g u"
  shows "can_reach ok h (left t g)"
  by (rule can_reach_step [OF eh_unlock [OF assms(1)]], rule can_reach_now) (use assms(2) in \<open>simp add: left_def\<close>)

lemma leaves:
  assumes "installer (hk_pc h t)"
  shows "can_reach ok h (left t h)"
proof -
  have create: "can_reach ok g (left t h)" if "hk_pc g t = EH_Create" "\<forall>u. u \<noteq> t \<longrightarrow> hk_pc g u = hk_pc h u" for g
    by (rule can_reach_step [OF eh_create_fails [OF that(1)]], rule leaves_unlock) (use that(2) in simp_all)
  show ?thesis
  proof (cases "hk_pc h t")
    case EH_Recheck
    show ?thesis
    proof (cases "hk_key h")
      case None
      show ?thesis by (rule can_reach_step [OF eh_recheck [OF EH_Recheck]], rule create) (simp_all add: None)
    next
      case (Some k)
      show ?thesis by (rule can_reach_step [OF eh_recheck [OF EH_Recheck]], rule leaves_unlock [where key = "Some k"]) (simp_all add: Some)
    qed
  next
    case EH_Create
    show ?thesis by (rule create) (simp_all add: EH_Create)
  next
    case (EH_Publish k)
    show ?thesis by (rule can_reach_step [OF eh_publish [OF EH_Publish]], rule leaves_unlock [where key = "Some k"]) simp_all
  next
    case (EH_Unlock key)
    show ?thesis by (rule leaves_unlock [OF EH_Unlock]) simp
  qed (use assms in simp_all)
qed

definition answered :: "nat \<Rightarrow> hook \<Rightarrow> bool" where
  "answered t h \<longleftrightarrow> (case hk_pc h t of EH_Done b \<Rightarrow> True | _ \<Rightarrow> False)"

lemma answers_set: "hk_pc h t = EH_Set k \<Longrightarrow> can_reach ok h (answered t)"
  by (rule can_reach_step [OF eh_set [where r = 0]], assumption, rule can_reach_now) (simp add: answered_def)

lemma answers_unlock:
  assumes "hk_pc h t = EH_Unlock key"
  shows "can_reach ok h (answered t)"
proof (cases key)
  case None
  show ?thesis by (rule can_reach_step [OF eh_unlock [OF assms]], rule can_reach_now) (simp add: answered_def None)
next
  case (Some k)
  show ?thesis by (rule can_reach_step [OF eh_unlock [OF assms]], rule answers_set [where k = k]) (simp add: Some)
qed

lemma answers_recheck:
  assumes "hk_pc h t = EH_Recheck"
  shows "can_reach ok h (answered t)"
proof (cases "hk_key h")
  case None
  have "can_reach ok (eh_goto t EH_Create h) (answered t)"
    by (rule can_reach_step [OF eh_create_fails [where t = t]], simp, rule answers_unlock [where key = None]) simp
  then show ?thesis using can_reach_step [OF eh_recheck [OF assms]] None by simp
next
  case (Some k)
  show ?thesis by (rule can_reach_step [OF eh_recheck [OF assms]], rule answers_unlock [where key = "Some k"]) (simp add: Some)
qed

lemma answers_claim:
  assumes "hk_pc h t = EH_Claim" "\<not> hk_installing h"
  shows "can_reach ok h (answered t)"
  by (rule can_reach_step [OF eh_claim [OF assms]], rule answers_recheck) simp

lemma answers_look:
  assumes "hk_pc h t = EH_Look" "\<not> hk_installing h"
  shows "can_reach ok h (answered t)"
proof (cases "hk_key h")
  case None
  show ?thesis by (rule can_reach_step [OF eh_look [OF assms(1)]], rule answers_claim) (simp_all add: None assms(2))
next
  case (Some k)
  show ?thesis by (rule can_reach_step [OF eh_look [OF assms(1)]], rule answers_set [where k = k]) (simp add: Some)
qed

lemma answers_free:
  assumes "hk_pc h t = EH_Look \<or> hk_pc h t = EH_Claim \<or> hk_pc h t = EH_Wait" "\<not> hk_installing h"
  shows "can_reach ok h (answered t)"
proof (cases "hk_pc h t = EH_Wait")
  case True
  show ?thesis by (rule can_reach_step [OF eh_wait_over [OF True assms(2)]], rule answers_look) (simp_all add: assms(2))
qed (use assms answers_look answers_claim in blast)

lemma answers_outside:
  assumes "exclusive h" "hk_pc h t = EH_Look \<or> hk_pc h t = EH_Claim \<or> hk_pc h t = EH_Wait"
  shows "can_reach ok h (answered t)"
proof (cases "hk_installing h")
  case True
  then obtain u where u: "installer (hk_pc h u)" using exclusiveD(3) [OF assms(1)] by blast
  then have "u \<noteq> t" using assms(2) by auto
  then show ?thesis
    using assms(2) by (intro can_reach_trans [OF leaves [OF u]] answers_free) (auto simp: left_def)
qed (rule answers_free [OF assms(2)])

text \<open>C23 (exit hook, liveness).  No deadlock: whatever threads are doing, a thread that is in \<open>ensure_hook\<close> can
  still get its answer.\<close>

theorem exit_hook_answers:
  assumes "eh_run ok h" "hk_pc h t \<noteq> EH_Idle" "hk_pc h t \<noteq> EH_Exited"
  shows "\<exists>h'. (eh_step ok)\<^sup>*\<^sup>* h h' \<and> answered t h'"
proof -
  have x: "exclusive h" using eh_run_ok [OF assms(1)] by simp
  have "can_reach ok h (answered t)"
  proof (cases "hk_pc h t")
    case EH_Create
    show ?thesis by (rule can_reach_step [OF eh_create_fails [OF EH_Create]], rule answers_unlock [where key = None]) simp
  next
    case (EH_Publish k)
    show ?thesis by (rule can_reach_step [OF eh_publish [OF EH_Publish]], rule answers_unlock [where key = "Some k"]) simp
  next
    case (EH_Done b)
    then show ?thesis by (intro can_reach_now) (simp add: answered_def)
  qed (use assms(2,3) answers_outside [OF x] answers_set answers_unlock answers_recheck in blast)+
  then show ?thesis unfolding can_reach_def .
qed

theorem exit_hook_answers_witness:
  "\<exists>h'. (eh_step (\<lambda>r. r = 0))\<^sup>*\<^sup>* (eh_goto 0 EH_Look hook_new) h' \<and> answered 0 h'"
proof -
  have "eh_run (\<lambda>r. r = 0) (eh_goto 0 EH_Look hook_new)" by (rule eh_next [OF eh_start eh_call]) (simp_all add: hook_new_def)
  then show ?thesis by (rule exit_hook_answers) (simp_all add: eh_goto_def)
qed

section \<open>The answer on Windows\<close>

text \<open>The test \<open>== 0\<close> reads the answer of \<open>FlsSetValue\<close> the wrong way round: the call reports success exactly when the
  value was not set.\<close>

lemma windows_answer_inverted:
  assumes "eh_windows h h'" "hk_pc h t = EH_Set k" "hk_pc h' t = EH_Done b" "\<not> hk_value h t k"
  shows "b \<longleftrightarrow> \<not> hk_value h' t k"
  using assms unfolding eh_windows_def by (cases rule: eh_step.cases) (auto simp: set_value_def eh_goto_def os_exit_same split: if_splits option.splits)

end
