(* ===== verification/Telemetry.thy ===== *)
theory Telemetry
  imports Cache_Inv
begin

text \<open>
  Counters (\<open>src/src/counters.rs\<close>, the batches of \<open>src/src/cache.rs\<close>, the snapshots of \<open>src/src/lib.rs\<close>), as
  in a build with the \<open>telemetry\<close> feature.  A thread counts into a batch of its own and publishes it every so
  many events; nothing may be lost or counted twice on the way.  The fields of a struct of counters are a
  function from their names.  64-bit counters wrap.  Timings, which need a clock, are left out.
\<close>

section \<open>Counters\<close>

datatype counter =
    Small_Refills | Small_Refill_Blocks | Medium_Refills | Medium_Refill_Blocks | Big_Refills | Big_Refill_Blocks
  | Trims | Flushes | Flush_Blocks | Owner_Probes | Remote_Frees | Retired_Caches | Adopted_Caches | Exit_Flushes
  | Realloc_Relocations | Realloc_Copy_Bytes | Realloc_Promotions | Zeroed_Calls | Zeroed_Bytes
  | Purge_Calls | Purge_Bytes | Arena_Fallbacks | Arena_Parks

type_synonym volume = "counter \<Rightarrow> nat"

text \<open>In declaration order.\<close>

definition COUNTERS :: "counter list" where
  "COUNTERS = [Small_Refills, Small_Refill_Blocks, Medium_Refills, Medium_Refill_Blocks, Big_Refills, Big_Refill_Blocks,
     Trims, Flushes, Flush_Blocks, Owner_Probes, Remote_Frees, Retired_Caches, Adopted_Caches, Exit_Flushes,
     Realloc_Relocations, Realloc_Copy_Bytes, Realloc_Promotions, Zeroed_Calls, Zeroed_Bytes,
     Purge_Calls, Purge_Bytes, Arena_Fallbacks, Arena_Parks]"

definition VOLUME_COUNT :: nat where [const_simps]: "VOLUME_COUNT = 23"

definition VOLUME_FIELDS :: "string list" where
  "VOLUME_FIELDS = [''small_refills'', ''small_refill_blocks'', ''medium_refills'', ''medium_refill_blocks'', ''big_refills'',
     ''big_refill_blocks'', ''trims'', ''flushes'', ''flush_blocks'', ''owner_probes'', ''remote_frees'', ''retired_caches'',
     ''adopted_caches'', ''exit_flushes'', ''realloc_relocations'', ''realloc_copy_bytes'', ''realloc_promotions'',
     ''zeroed_calls'', ''zeroed_bytes'', ''purge_calls'', ''purge_bytes'', ''arena_fallbacks'', ''arena_parks'']"

definition volume_new :: volume where "volume_new = (\<lambda>_. 0)"

definition bump :: "counter \<Rightarrow> nat \<Rightarrow> volume \<Rightarrow> volume" where
  "bump c by v = v(c := add_w 64 (v c) by)"

text \<open>The positional snapshot, and the struct of named fields as a list of fields with their values.\<close>

definition volume_raw :: "volume \<Rightarrow> nat list" where
  "volume_raw v = map v COUNTERS"

definition volume_named :: "volume \<Rightarrow> (string \<times> nat) list" where
  "volume_named v = [(''small_refills'', v Small_Refills), (''small_refill_blocks'', v Small_Refill_Blocks), (''medium_refills'', v Medium_Refills),
     (''medium_refill_blocks'', v Medium_Refill_Blocks), (''big_refills'', v Big_Refills), (''big_refill_blocks'', v Big_Refill_Blocks),
     (''trims'', v Trims), (''flushes'', v Flushes), (''flush_blocks'', v Flush_Blocks),
     (''owner_probes'', v Owner_Probes), (''remote_frees'', v Remote_Frees), (''retired_caches'', v Retired_Caches),
     (''adopted_caches'', v Adopted_Caches), (''exit_flushes'', v Exit_Flushes), (''realloc_relocations'', v Realloc_Relocations),
     (''realloc_copy_bytes'', v Realloc_Copy_Bytes), (''realloc_promotions'', v Realloc_Promotions), (''zeroed_calls'', v Zeroed_Calls),
     (''zeroed_bytes'', v Zeroed_Bytes), (''purge_calls'', v Purge_Calls), (''purge_bytes'', v Purge_Bytes),
     (''arena_fallbacks'', v Arena_Fallbacks), (''arena_parks'', v Arena_Parks)]"

section \<open>Batches\<close>

definition TELEMETRY_FLUSH_OPS :: nat where [const_simps]: "TELEMETRY_FLUSH_OPS = 8192"
definition DIAG_FLUSH_OPS :: nat where [const_simps]: "DIAG_FLUSH_OPS = 1024"

definition TOTAL_CLASSES :: nat where "TOTAL_CLASSES = NUM_CLASSES + NUM_MEDIUM + NUM_BIG"

record pending =
  pd_ops :: nat
  pd_diag_ops :: nat
  pd_count :: volume
  pd_allocs :: nat
  pd_frees :: nat
  pd_bytes_in :: nat
  pd_bytes_out :: nat
  pd_per_class :: "nat list"

definition pending_new :: pending where
  "pending_new = \<lparr> pd_ops = 0, pd_diag_ops = 0, pd_count = volume_new, pd_allocs = 0, pd_frees = 0, pd_bytes_in = 0,
     pd_bytes_out = 0, pd_per_class = replicate TOTAL_CLASSES 0 \<rparr>"

record totals =
  tm_allocs :: nat
  tm_frees :: nat
  tm_bytes_in :: nat
  tm_bytes_out :: nat
  tm_peak :: nat
  tm_large :: nat
  tm_per_class :: "nat list"

definition totals_new :: totals where
  "totals_new = \<lparr> tm_allocs = 0, tm_frees = 0, tm_bytes_in = 0, tm_bytes_out = 0, tm_peak = 0, tm_large = 0,
     tm_per_class = replicate TOTAL_CLASSES 0 \<rparr>"

text \<open>A thread's batch, the shared volume counters and the shared totals.\<close>

type_synonym tele = "pending \<times> volume \<times> totals"

definition drain :: "counter \<Rightarrow> pending \<times> volume \<Rightarrow> pending \<times> volume" where
  "drain c pv = (let (p, v) = pv in
     if pd_count p c \<noteq> 0 then (p\<lparr>pd_count := (pd_count p)(c := 0)\<rparr>, bump c (pd_count p c) v) else (p, v))"

text \<open>The counters kept in a batch, in the order they are drained.\<close>

definition DRAINED :: "counter list" where
  "DRAINED = [Trims, Flushes, Flush_Blocks, Owner_Probes, Remote_Frees, Small_Refills, Small_Refill_Blocks, Medium_Refills,
     Medium_Refill_Blocks, Big_Refills, Big_Refill_Blocks, Arena_Fallbacks, Arena_Parks, Realloc_Relocations,
     Realloc_Copy_Bytes, Realloc_Promotions, Zeroed_Calls, Zeroed_Bytes]"

definition publish_diagnostics :: "tele \<Rightarrow> tele" where
  "publish_diagnostics s = (let (p, v, t) = s; (p1, v1) = fold drain DRAINED (p, v) in (p1\<lparr>pd_diag_ops := 0\<rparr>, v1, t))"

definition publish_telemetry :: "tele \<Rightarrow> tele" where
  "publish_telemetry s =
     (let (p, v, t) = s;
          t1 = t\<lparr>tm_allocs := if pd_allocs p \<noteq> 0 then add_w 64 (tm_allocs t) (pd_allocs p) else tm_allocs t,
                 tm_frees := if pd_frees p \<noteq> 0 then add_w 64 (tm_frees t) (pd_frees p) else tm_frees t,
                 tm_bytes_in := if pd_bytes_in p \<noteq> 0 then add_w 64 (tm_bytes_in t) (pd_bytes_in p) else tm_bytes_in t,
                 tm_bytes_out := if pd_bytes_out p \<noteq> 0 then add_w 64 (tm_bytes_out t) (pd_bytes_out p) else tm_bytes_out t,
                 tm_per_class := map2 (\<lambda>n x. if n \<noteq> 0 then add_w 64 x n else x) (pd_per_class p) (tm_per_class t)\<rparr>;
          live = tm_bytes_in t1 - tm_bytes_out t1
      in (p\<lparr>pd_per_class := map (\<lambda>n. if n \<noteq> 0 then 0 else n) (pd_per_class p), pd_allocs := 0, pd_frees := 0,
            pd_bytes_in := 0, pd_bytes_out := 0\<rparr>, v, t1\<lparr>tm_peak := max (tm_peak t1) live\<rparr>))"

definition publish :: "tele \<Rightarrow> tele" where
  "publish s = (let (p, r) = publish_telemetry (publish_diagnostics s) in (p\<lparr>pd_ops := 0\<rparr>, r))"

section \<open>Events\<close>

definition count_up :: "counter \<Rightarrow> nat \<Rightarrow> pending \<Rightarrow> pending" where
  "count_up c by p = p\<lparr>pd_count := (pd_count p)(c := add_w 64 (pd_count p c) by)\<rparr>"

definition diag_tick :: "tele \<Rightarrow> tele" where
  "diag_tick s = (let p = (fst s)\<lparr>pd_diag_ops := pd_diag_ops (fst s) + 1\<rparr>
     in if DIAG_FLUSH_OPS \<le> pd_diag_ops p then publish_diagnostics (p, snd s) else (p, snd s))"

definition note_diag :: "counter \<Rightarrow> nat \<Rightarrow> tele \<Rightarrow> tele" where
  "note_diag c by s = diag_tick (count_up c by (fst s), snd s)"

definition note_arena_event :: "bool \<Rightarrow> tele \<Rightarrow> tele" where
  "note_arena_event park = (if park then note_diag Arena_Parks 1 else note_diag Arena_Fallbacks 1)"

definition note_arena_parks :: "nat \<Rightarrow> tele \<Rightarrow> tele" where
  "note_arena_parks n = note_diag Arena_Parks n"

definition note_flush :: "nat \<Rightarrow> tele \<Rightarrow> tele" where
  "note_flush blocks s = note_diag Flush_Blocks blocks (note_diag Flushes 1 s)"

definition ops_check :: "tele \<Rightarrow> tele" where
  "ops_check s = (if TELEMETRY_FLUSH_OPS \<le> pd_ops (fst s) then publish s else s)"

definition note_realloc :: "nat \<Rightarrow> bool \<Rightarrow> tele \<Rightarrow> tele" where
  "note_realloc copied promoted s =
     (let p = count_up Realloc_Copy_Bytes copied (count_up Realloc_Relocations 1 ((fst s)\<lparr>pd_ops := pd_ops (fst s) + 1\<rparr>));
          p1 = (if promoted then count_up Realloc_Promotions 1 p else p)
      in ops_check (p1, snd s))"

definition note_zeroed :: "nat \<Rightarrow> tele \<Rightarrow> tele" where
  "note_zeroed sz s = diag_tick (count_up Zeroed_Bytes sz (count_up Zeroed_Calls 1 (fst s)), snd s)"

text \<open>\<open>note_alloc\<close>, \<open>note_alloc_medium\<close> and \<open>note_alloc_big\<close>; the per-class index of a tier starts after those before.\<close>

fun class_bytes :: "tier \<Rightarrow> nat \<Rightarrow> nat" where
  "class_bytes Small c = CLASSES ! c"
| "class_bytes Medium c = MEDIUM_CLASSES ! c"
| "class_bytes Big c = BIG_CLASSES ! c"

fun class_index :: "tier \<Rightarrow> nat \<Rightarrow> nat" where
  "class_index Small c = c"
| "class_index Medium c = NUM_CLASSES + c"
| "class_index Big c = NUM_CLASSES + NUM_MEDIUM + c"

definition note_alloc :: "tier \<Rightarrow> nat \<Rightarrow> tele \<Rightarrow> tele" where
  "note_alloc t c s =
     (let p = fst s; i = class_index t c in
      ops_check (p\<lparr>pd_ops := pd_ops p + 1, pd_allocs := add_w 64 (pd_allocs p) 1,
                   pd_bytes_in := add_w 64 (pd_bytes_in p) (class_bytes t c),
                   pd_per_class := (pd_per_class p)[i := add_w 64 (pd_per_class p ! i) 1]\<rparr>, snd s))"

definition note_free :: "tier \<Rightarrow> nat \<Rightarrow> tele \<Rightarrow> tele" where
  "note_free t c s =
     (let p = fst s in
      ops_check (p\<lparr>pd_ops := pd_ops p + 1, pd_frees := add_w 64 (pd_frees p) 1,
                   pd_bytes_out := add_w 64 (pd_bytes_out p) (class_bytes t c)\<rparr>, snd s))"

text \<open>Large blocks are counted in the shared totals at once, by their requested sizes.\<close>

definition sample_peak :: "totals \<Rightarrow> totals" where
  "sample_peak t = t\<lparr>tm_peak := max (tm_peak t) (tm_bytes_in t - tm_bytes_out t)\<rparr>"

definition note_large_alloc :: "nat \<Rightarrow> totals \<Rightarrow> totals" where
  "note_large_alloc sz t = sample_peak (t\<lparr>tm_large := add_w 64 (tm_large t) 1, tm_allocs := add_w 64 (tm_allocs t) 1,
     tm_bytes_in := add_w 64 (tm_bytes_in t) sz\<rparr>)"

definition note_large_free :: "nat \<Rightarrow> totals \<Rightarrow> totals" where
  "note_large_free requested t = t\<lparr>tm_frees := add_w 64 (tm_frees t) 1, tm_bytes_out := add_w 64 (tm_bytes_out t) requested\<rparr>"

definition note_large_growth :: "nat \<Rightarrow> nat \<Rightarrow> totals \<Rightarrow> totals" where
  "note_large_growth old_size new_size t =
     (let delta = new_size - old_size in
      if delta = 0 then t else sample_peak (t\<lparr>tm_bytes_in := add_w 64 (tm_bytes_in t) delta\<rparr>))"

definition on_totals :: "(totals \<Rightarrow> totals) \<Rightarrow> tele \<Rightarrow> tele" where
  "on_totals f s = (case s of (p, v, t) \<Rightarrow> (p, v, f t))"

datatype event =
    Ev_Diag counter nat
  | Ev_Flush nat
  | Ev_Arena bool
  | Ev_Parks nat
  | Ev_Realloc nat bool
  | Ev_Zeroed nat
  | Ev_Alloc tier nat
  | Ev_Free tier nat
  | Ev_Large nat
  | Ev_Large_Free nat
  | Ev_Large_Growth nat nat
  | Ev_Publish

fun observe :: "event \<Rightarrow> tele \<Rightarrow> tele" where
  "observe (Ev_Diag c n) = note_diag c n"
| "observe (Ev_Flush n) = note_flush n"
| "observe (Ev_Arena b) = note_arena_event b"
| "observe (Ev_Parks n) = note_arena_parks n"
| "observe (Ev_Realloc n b) = note_realloc n b"
| "observe (Ev_Zeroed n) = note_zeroed n"
| "observe (Ev_Alloc t c) = note_alloc t c"
| "observe (Ev_Free t c) = note_free t c"
| "observe (Ev_Large n) = on_totals (note_large_alloc n)"
| "observe (Ev_Large_Free n) = on_totals (note_large_free n)"
| "observe (Ev_Large_Growth m n) = on_totals (note_large_growth m n)"
| "observe Ev_Publish = publish"

text \<open>Threads take turns in any order; each has its batch.\<close>

definition observe_in :: "nat \<times> event \<Rightarrow> pending list \<times> volume \<times> totals \<Rightarrow> pending list \<times> volume \<times> totals" where
  "observe_in ie s = (let (i, ev) = ie; (p, r) = observe ev (fst s ! i, snd s) in ((fst s)[i := p], r))"

section \<open>The snapshot\<close>

record telemetry =
  ts_allocs :: nat
  ts_frees :: nat
  ts_live_allocs :: nat
  ts_allocated_bytes :: nat
  ts_freed_bytes :: nat
  ts_live_bytes :: nat
  ts_peak :: nat
  ts_large :: nat
  ts_live_mappings :: nat
  ts_map_calls :: nat
  ts_unmap_calls :: nat
  ts_per_class :: "nat list"

text \<open>The mapping counters \<open>MAPPED_PAGES\<close>, \<open>MAP_CALLS\<close> and \<open>UNMAP_CALLS\<close> are read beside the totals.\<close>

definition telemetry_snapshot :: "nat \<Rightarrow> nat \<Rightarrow> nat \<Rightarrow> totals \<Rightarrow> telemetry" where
  "telemetry_snapshot pages maps unmaps t = \<lparr> ts_allocs = tm_allocs t, ts_frees = tm_frees t, ts_live_allocs = tm_allocs t - tm_frees t,
     ts_allocated_bytes = tm_bytes_in t, ts_freed_bytes = tm_bytes_out t, ts_live_bytes = tm_bytes_in t - tm_bytes_out t,
     ts_peak = tm_peak t, ts_large = tm_large t,
     ts_live_mappings = pages, ts_map_calls = maps, ts_unmap_calls = unmaps, ts_per_class = tm_per_class t \<rparr>"


section \<open>Nothing is lost\<close>

text \<open>What can be counted: where it is in a batch, where it is shared, and what an event adds to it.\<close>

datatype meter = M_Count counter | M_Allocs | M_Frees | M_Bytes_In | M_Bytes_Out | M_Class nat

fun batched :: "meter \<Rightarrow> pending \<Rightarrow> nat" where
  "batched (M_Count c) p = pd_count p c"
| "batched M_Allocs p = pd_allocs p"
| "batched M_Frees p = pd_frees p"
| "batched M_Bytes_In p = pd_bytes_in p"
| "batched M_Bytes_Out p = pd_bytes_out p"
| "batched (M_Class i) p = pd_per_class p ! i"

fun shared :: "meter \<Rightarrow> volume \<times> totals \<Rightarrow> nat" where
  "shared (M_Count c) s = fst s c"
| "shared M_Allocs s = tm_allocs (snd s)"
| "shared M_Frees s = tm_frees (snd s)"
| "shared M_Bytes_In s = tm_bytes_in (snd s)"
| "shared M_Bytes_Out s = tm_bytes_out (snd s)"
| "shared (M_Class i) s = tm_per_class (snd s) ! i"

fun adds :: "event \<Rightarrow> meter \<Rightarrow> nat" where
  "adds (Ev_Diag d n) m = (if m = M_Count d then n else 0)"
| "adds (Ev_Flush n) m = (if m = M_Count Flushes then 1 else if m = M_Count Flush_Blocks then n else 0)"
| "adds (Ev_Arena b) m = (if m = M_Count (if b then Arena_Parks else Arena_Fallbacks) then 1 else 0)"
| "adds (Ev_Parks n) m = (if m = M_Count Arena_Parks then n else 0)"
| "adds (Ev_Realloc n b) m = (if m = M_Count Realloc_Relocations then 1 else if m = M_Count Realloc_Copy_Bytes then n
     else if m = M_Count Realloc_Promotions \<and> b then 1 else 0)"
| "adds (Ev_Zeroed n) m = (if m = M_Count Zeroed_Calls then 1 else if m = M_Count Zeroed_Bytes then n else 0)"
| "adds (Ev_Alloc t c) m = (if m = M_Allocs then 1 else if m = M_Bytes_In then class_bytes t c
     else if m = M_Class (class_index t c) then 1 else 0)"
| "adds (Ev_Free t c) m = (if m = M_Frees then 1 else if m = M_Bytes_Out then class_bytes t c else 0)"
| "adds (Ev_Large n) m = (if m = M_Allocs then 1 else if m = M_Bytes_In then n else 0)"
| "adds (Ev_Large_Free n) m = (if m = M_Frees then 1 else if m = M_Bytes_Out then n else 0)"
| "adds (Ev_Large_Growth k n) m = (if m = M_Bytes_In then n - k else 0)"
| "adds Ev_Publish m = 0"

fun meter_ok :: "meter \<Rightarrow> bool" where
  "meter_ok (M_Class i) \<longleftrightarrow> i < TOTAL_CLASSES"
| "meter_ok _ \<longleftrightarrow> True"

definition sized :: "tele \<Rightarrow> bool" where
  "sized s \<longleftrightarrow> length (pd_per_class (fst s)) = TOTAL_CLASSES \<and> length (tm_per_class (snd (snd s))) = TOTAL_CLASSES"

definition metered :: "meter \<Rightarrow> tele \<Rightarrow> nat" where
  "metered m s = (shared m (snd s) + batched m (fst s)) mod 2 ^ 64"

lemma add_w_mod: "(add_w 64 a b + c) mod 2 ^ 64 = (a + b + c) mod 2 ^ 64" "(c + add_w 64 a b) mod 2 ^ 64 = (c + (a + b)) mod 2 ^ 64"
  by (simp_all add: add_w_def mod_simps)

lemma drain_same: "pd_per_class (fst (drain d pv)) = pd_per_class (fst pv)"
    "metered m (fst (drain d pv), snd (drain d pv), t) = metered m (fst pv, snd pv, t)"
proof -
  obtain p v where pv: "pv = (p, v)" by (metis surj_pair)
  show "pd_per_class (fst (drain d pv)) = pd_per_class (fst pv)" by (simp add: pv drain_def)
  show "metered m (fst (drain d pv), snd (drain d pv), t) = metered m (fst pv, snd pv, t)"
    by (cases m) (simp_all add: pv drain_def bump_def metered_def add_w_def)
qed

lemma drains_same: "pd_per_class (fst (fold drain cs pv)) = pd_per_class (fst pv)"
    "metered m (fst (fold drain cs pv), snd (fold drain cs pv), t) = metered m (fst pv, snd pv, t)"
  by (induction cs arbitrary: pv) (simp_all add: drain_same)

lemma batched_ticks [simp]: "batched m (p\<lparr>pd_ops := n\<rparr>) = batched m p" "batched m (p\<lparr>pd_diag_ops := n\<rparr>) = batched m p"
  by (cases m; simp)+

lemma publish_diagnostics_same: "sized s \<Longrightarrow> sized (publish_diagnostics s)" "metered m (publish_diagnostics s) = metered m s"
proof -
  obtain p v t where s: "s = (p, v, t)" by (metis surj_pair)
  obtain p1 v1 where f: "fold drain DRAINED (p, v) = (p1, v1)" by (metis surj_pair)
  note d = drains_same(1) [of DRAINED "(p, v)"] drains_same(2) [of m DRAINED "(p, v)" t]
  show "sized s \<Longrightarrow> sized (publish_diagnostics s)" using d(1) by (simp add: s f publish_diagnostics_def sized_def)
  show "metered m (publish_diagnostics s) = metered m s" using d(2) by (simp add: s f publish_diagnostics_def metered_def)
qed

lemma publish_telemetry_same:
  assumes "sized s"
  shows "sized (publish_telemetry s)" "meter_ok m \<Longrightarrow> metered m (publish_telemetry s) = metered m s"
proof -
  obtain p v t where s: "s = (p, v, t)" by (metis surj_pair)
  have l: "length (pd_per_class p) = TOTAL_CLASSES" "length (tm_per_class t) = TOTAL_CLASSES" using assms by (simp_all add: sized_def s)
  show "sized (publish_telemetry s)" using l by (simp add: s publish_telemetry_def sized_def Let_def)
  show "meter_ok m \<Longrightarrow> metered m (publish_telemetry s) = metered m s"
    using l by (cases m) (simp_all add: s publish_telemetry_def metered_def Let_def add_w_def)
qed

lemma publish_same:
  assumes "sized s"
  shows "sized (publish s)" "meter_ok m \<Longrightarrow> metered m (publish s) = metered m s"
proof -
  note d = publish_diagnostics_same(1) [OF assms] publish_diagnostics_same(2) [of m s]
  obtain p r where e: "publish_telemetry (publish_diagnostics s) = (p, r)" by (metis surj_pair)
  note t = publish_telemetry_same(1) [OF d(1), unfolded e] publish_telemetry_same(2) [OF d(1), of m, unfolded e]
  show "sized (publish s)" using t(1) by (simp add: publish_def e sized_def)
  show "meter_ok m \<Longrightarrow> metered m (publish s) = metered m s" using t(2) d(2) by (simp add: publish_def e metered_def)
qed

text \<open>One event counts what it should, whether it publishes or not.\<close>

definition counts :: "(meter \<Rightarrow> nat) \<Rightarrow> (tele \<Rightarrow> tele) \<Rightarrow> bool" where
  "counts f g \<longleftrightarrow> (\<forall>s. sized s \<longrightarrow> sized (g s) \<and> (\<forall>m. meter_ok m \<longrightarrow> metered m (g s) = (metered m s + f m) mod 2 ^ 64))"

lemma countsD: "counts f g \<Longrightarrow> sized s \<Longrightarrow> sized (g s)" "counts f g \<Longrightarrow> sized s \<Longrightarrow> meter_ok m \<Longrightarrow> metered m (g s) = (metered m s + f m) mod 2 ^ 64"
  unfolding counts_def by blast+

lemma counts_then:
  assumes "counts f g" "counts f' g'"
  shows "counts (\<lambda>m. f m + f' m) (\<lambda>s. g' (g s))"
  unfolding counts_def
proof (intro allI impI conjI)
  fix s :: tele assume "sized s"
  note a = countsD [OF assms(1) this]
  note b = countsD [OF assms(2) a(1)]
  show "sized (g' (g s))" by (rule b(1))
  show "metered m (g' (g s)) = (metered m s + (f m + f' m)) mod 2 ^ 64" if "meter_ok m" for m
    using a(2) [OF that] b(2) [OF that] by (simp add: mod_simps add.assoc)
qed

lemma metered_mod [simp]: "metered m s mod 18446744073709551616 = metered m s"
  by (simp add: metered_def)

lemma counts_publish: "counts (\<lambda>_. 0) publish"
  unfolding counts_def using publish_same by simp

lemma counts_ops_check: "counts (\<lambda>_. 0) ops_check"
  unfolding counts_def ops_check_def using publish_same by simp

lemma counts_diag_tick: "counts (\<lambda>_. 0) diag_tick"
proof -
  have "sized (diag_tick s) \<and> metered m (diag_tick s) = metered m s" if "sized s" for s m
  proof -
    let ?s = "((fst s)\<lparr>pd_diag_ops := pd_diag_ops (fst s) + 1\<rparr>, snd s)"
    have "sized ?s" "metered m ?s = metered m s" using that by (simp_all add: sized_def metered_def)
    then show ?thesis using publish_diagnostics_same by (simp add: diag_tick_def Let_def)
  qed
  then show ?thesis unfolding counts_def by simp
qed

lemma counts_up: "counts (\<lambda>m. if m = M_Count c then n else 0) (\<lambda>s. (count_up c n (fst s), snd s))"
proof -
  have "metered m (count_up c n (fst s), snd s) = (metered m s + (if m = M_Count c then n else 0)) mod 2 ^ 64" for m and s :: tele
    by (cases m) (auto simp: metered_def count_up_def add_w_def mod_simps ac_simps)
  then show ?thesis unfolding counts_def by (simp add: sized_def count_up_def)
qed

lemma counts_tick: "counts (\<lambda>_. 0) (\<lambda>s. ((fst s)\<lparr>pd_ops := pd_ops (fst s) + 1\<rparr>, snd s))"
  by (simp add: counts_def sized_def metered_def)


lemma counts_cong: "counts f g \<Longrightarrow> (\<And>m. f m = f' m) \<Longrightarrow> (\<And>s. g s = g' s) \<Longrightarrow> counts f' g'"
  unfolding counts_def by simp

lemma counts_note_diag: "counts (adds (Ev_Diag c n)) (note_diag c n)"
  by (rule counts_cong [OF counts_then [OF counts_up [of c n] counts_diag_tick]]) (simp_all add: note_diag_def)

lemma counts_flush: "counts (adds (Ev_Flush n)) (note_flush n)"
  by (rule counts_cong [OF counts_then [OF counts_note_diag [of Flushes 1] counts_note_diag [of Flush_Blocks n]]])
     (simp_all add: note_flush_def)

lemma counts_zeroed: "counts (adds (Ev_Zeroed n)) (note_zeroed n)"
  by (rule counts_cong [OF counts_then [OF counts_then [OF counts_up [of Zeroed_Calls 1] counts_up [of Zeroed_Bytes n]] counts_diag_tick]])
     (simp_all add: note_zeroed_def)

lemma counts_realloc: "counts (adds (Ev_Realloc n b)) (note_realloc n b)"
proof -
  note base = counts_then [OF counts_then [OF counts_tick counts_up [of Realloc_Relocations 1]] counts_up [of Realloc_Copy_Bytes n]]
  show ?thesis
  proof (cases b)
    case True
    show ?thesis
      by (rule counts_cong [OF counts_then [OF counts_then [OF base counts_up [of Realloc_Promotions 1]] counts_ops_check]])
         (simp_all add: True note_realloc_def Let_def)
  next
    case False
    show ?thesis by (rule counts_cong [OF counts_then [OF base counts_ops_check]]) (simp_all add: False note_realloc_def Let_def)
  qed
qed

lemma counts_before:
  assumes "\<And>s. sized s \<Longrightarrow> sized (h s)" "\<And>s m. sized s \<Longrightarrow> meter_ok m \<Longrightarrow> metered m (h s) = (metered m s + f m) mod 2 ^ 64"
  shows "counts f (\<lambda>s. ops_check (h s))"
proof -
  have "counts f h" using assms by (simp add: counts_def)
  from counts_then [OF this counts_ops_check] show ?thesis by simp
qed

lemma counts_alloc: "counts (adds (Ev_Alloc t c)) (note_alloc t c)"
  unfolding note_alloc_def Let_def
proof (rule counts_before)
  fix s :: tele and m assume s: "sized s" and m: "meter_ok m"
  show "metered m ((fst s)\<lparr>pd_ops := pd_ops (fst s) + 1, pd_allocs := add_w 64 (pd_allocs (fst s)) 1,
      pd_bytes_in := add_w 64 (pd_bytes_in (fst s)) (class_bytes t c),
      pd_per_class := (pd_per_class (fst s))[class_index t c := add_w 64 (pd_per_class (fst s) ! class_index t c) 1]\<rparr>, snd s)
    = (metered m s + adds (Ev_Alloc t c) m) mod 2 ^ 64"
    using s m by (cases m) (auto simp: metered_def add_w_def mod_simps ac_simps sized_def nth_list_update)
qed (simp add: sized_def)

lemma counts_free: "counts (adds (Ev_Free t c)) (note_free t c)"
  unfolding note_free_def Let_def
proof (rule counts_before)
  fix s :: tele and m
  show "metered m ((fst s)\<lparr>pd_ops := pd_ops (fst s) + 1, pd_frees := add_w 64 (pd_frees (fst s)) 1,
      pd_bytes_out := add_w 64 (pd_bytes_out (fst s)) (class_bytes t c)\<rparr>, snd s) = (metered m s + adds (Ev_Free t c) m) mod 2 ^ 64"
    by (cases m) (auto simp: metered_def add_w_def mod_simps ac_simps)
qed (simp add: sized_def)

lemma counts_totals:
  assumes "\<And>t. tm_per_class (f t) = tm_per_class t"
    "\<And>t. tm_allocs (f t) mod 2 ^ 64 = (tm_allocs t + a M_Allocs) mod 2 ^ 64" "\<And>t. tm_frees (f t) mod 2 ^ 64 = (tm_frees t + a M_Frees) mod 2 ^ 64"
    "\<And>t. tm_bytes_in (f t) mod 2 ^ 64 = (tm_bytes_in t + a M_Bytes_In) mod 2 ^ 64"
    "\<And>t. tm_bytes_out (f t) mod 2 ^ 64 = (tm_bytes_out t + a M_Bytes_Out) mod 2 ^ 64"
    "\<And>c. a (M_Count c) = 0" "\<And>i. a (M_Class i) = 0"
  shows "counts a (on_totals f)"
proof -
  have shift: "(y + b) mod 2 ^ 64 = (x + b + k) mod 2 ^ 64" if "y mod 2 ^ 64 = (x + k) mod 2 ^ 64" for x y b k :: nat
    using that mod_add_cong [of y "2 ^ 64" "x + k" b b] by (simp add: ac_simps)
  have "metered m (on_totals f s) = (metered m s + a m) mod 2 ^ 64" for m s
  proof -
    obtain p v t where s: "s = (p, v, t)" by (metis surj_pair)
    show ?thesis
      using assms(1,6,7) shift [OF assms(2) [of t]] shift [OF assms(3) [of t]] shift [OF assms(4) [of t]] shift [OF assms(5) [of t]]
      by (cases m) (simp_all add: s on_totals_def metered_def mod_simps del: One_nat_def)
  qed
  then show ?thesis by (simp add: counts_def sized_def on_totals_def assms(1) split: prod.splits)
qed

lemma counts_large:
  "counts (adds (Ev_Large n)) (on_totals (note_large_alloc n))"
  "counts (adds (Ev_Large_Free n)) (on_totals (note_large_free n))"
  "counts (adds (Ev_Large_Growth k n)) (on_totals (note_large_growth k n))"
  by (rule counts_totals; simp add: note_large_alloc_def note_large_free_def note_large_growth_def sample_peak_def add_w_def Let_def)+

lemma counts_observe: "counts (adds ev) (observe ev)"
proof (cases ev)
  case (Ev_Arena b)
  show ?thesis
    by (rule counts_cong [OF counts_note_diag [of "if b then Arena_Parks else Arena_Fallbacks" 1]]) (simp_all add: Ev_Arena note_arena_event_def)
next
  case (Ev_Parks n)
  show ?thesis by (rule counts_cong [OF counts_note_diag [of Arena_Parks n]]) (simp_all add: Ev_Parks note_arena_parks_def)
next
  case Ev_Publish
  show ?thesis by (rule counts_cong [OF counts_publish]) (simp_all add: Ev_Publish)
qed (simp_all only: observe.simps counts_note_diag counts_flush counts_realloc counts_zeroed counts_alloc counts_free counts_large)

section \<open>All threads\<close>

definition all_sized :: "pending list \<times> volume \<times> totals \<Rightarrow> bool" where
  "all_sized s \<longleftrightarrow> (\<forall>p \<in> set (fst s). sized (p, snd s))"

definition total_of :: "meter \<Rightarrow> pending list \<times> volume \<times> totals \<Rightarrow> nat" where
  "total_of m s = (shared m (snd s) + (\<Sum>p\<leftarrow>fst s. batched m p)) mod 2 ^ 64"

lemma sum_list_update:
  "i < length xs \<Longrightarrow> (\<Sum>x\<leftarrow>xs[i := y]. f x) + f (xs ! i) = (\<Sum>x\<leftarrow>xs. f x) + (f y :: nat)"
  by (induction xs arbitrary: i) (auto split: nat.splits)

lemma shift_total:
  assumes "0 < M" "(r + p) mod M = (v + b + a) mod (M :: nat)" "x' + b = x + p"
  shows "(r + x') mod M = (v + x + a) mod M"
proof -
  have k: "y mod M = ((y + b) mod M + (M * b - b)) mod M" for y
  proof -
    have "b \<le> M * b" using assms(1) by (cases M) auto
    then have "y + b + (M * b - b) = y + M * b" by simp
    then show ?thesis by (metis mod_add_left_eq mod_mult_self2)
  qed
  have "r + x' + b = (r + p) + x" using assms(3) by linarith
  then have "(r + x' + b) mod M = ((r + p) + x) mod M" by (simp only:)
  also have "\<dots> = ((v + b + a) + x) mod M" using assms(2) by (metis mod_add_left_eq)
  also have "\<dots> = (v + x + a + b) mod M" by (simp add: ac_simps)
  finally show ?thesis using k [of "r + x'"] k [of "v + x + a"] by simp
qed

lemma observe_in_ok:
  assumes "all_sized s" "i < length (fst s)" "meter_ok m"
  shows "all_sized (observe_in (i, ev) s)" "length (fst (observe_in (i, ev) s)) = length (fst s)"
    "total_of m (observe_in (i, ev) s) = (total_of m s + adds ev m) mod 2 ^ 64"
proof -
  obtain p r where e: "observe ev (fst s ! i, snd s) = (p, r)" by (metis surj_pair)
  have si: "sized (fst s ! i, snd s)" using assms(1,2) by (simp add: all_sized_def)
  note o = countsD(1) [OF counts_observe si, of ev, unfolded e] countsD(2) [OF counts_observe si assms(3), of ev, unfolded e]
  have s': "observe_in (i, ev) s = ((fst s)[i := p], r)" by (simp add: observe_in_def e)
  show "length (fst (observe_in (i, ev) s)) = length (fst s)" by (simp add: s')
  show "all_sized (observe_in (i, ev) s)"
    using assms(1) o(1) by (auto simp: s' all_sized_def sized_def dest!: set_update_subset_insert [THEN subsetD])
  have "(shared m r + batched m p) mod 2 ^ 64 = (shared m (snd s) + batched m (fst s ! i) + adds ev m) mod 2 ^ 64"
    using o(2) by (simp add: metered_def mod_simps)
  from shift_total [OF _ this sum_list_update [OF assms(2), of "batched m" p]]
  have "(shared m r + (\<Sum>p\<leftarrow>(fst s)[i := p]. batched m p)) mod 2 ^ 64
      = (shared m (snd s) + (\<Sum>p\<leftarrow>fst s. batched m p) + adds ev m) mod 2 ^ 64" by simp
  then show "total_of m (observe_in (i, ev) s) = (total_of m s + adds ev m) mod 2 ^ 64"
    by (simp add: s' total_of_def mod_simps)
qed


definition tele_start :: "nat \<Rightarrow> pending list \<times> volume \<times> totals" where
  "tele_start n = (replicate n pending_new, volume_new, totals_new)"

lemma observe_all:
  assumes "all_sized s" "\<forall>(i, ev) \<in> set hist. i < length (fst s)" "meter_ok m"
  shows "all_sized (fold observe_in hist s) \<and> total_of m (fold observe_in hist s) = (total_of m s + (\<Sum>(i, ev)\<leftarrow>hist. adds ev m)) mod 2 ^ 64"
  using assms(1,2)
proof (induction hist arbitrary: s)
  case (Cons x hist)
  obtain i ev where x: "x = (i, ev)" by (metis surj_pair)
  note o = observe_in_ok [OF Cons.prems(1) _ assms(3), of i ev]
  have i: "i < length (fst s)" using Cons.prems(2) x by simp
  have "all_sized (fold observe_in hist (observe_in (i, ev) s)) \<and> total_of m (fold observe_in hist (observe_in (i, ev) s))
      = (total_of m (observe_in (i, ev) s) + (\<Sum>(i, ev)\<leftarrow>hist. adds ev m)) mod 2 ^ 64"
    by (rule Cons.IH) (use Cons.prems(2) o i in auto)
  then show ?case using o(3) [OF i] by (simp add: x mod_simps ac_simps)
qed (simp add: total_of_def)

text \<open>C39 (telemetry, conservation).  Over any interleaving of events in any number of threads, what is published
  and what still waits in the batches add up to exactly the events noted, for every counter, total and class,
  modulo the 64 bits of the counters: nothing is lost or published twice.\<close>

theorem telemetry_conserved:
  assumes "\<forall>(i, ev) \<in> set hist. i < n" "meter_ok m" "fold observe_in hist (tele_start n) = (ps, s)"
  shows "(shared m s + (\<Sum>p\<leftarrow>ps. batched m p)) mod 2 ^ 64 = (\<Sum>(i, ev)\<leftarrow>hist. adds ev m) mod 2 ^ 64"
proof -
  have "all_sized (tele_start n)" by (simp add: all_sized_def tele_start_def sized_def pending_new_def totals_new_def)
  moreover have "total_of m (tele_start n) = 0"
    using assms(2) by (cases m) (simp_all add: total_of_def tele_start_def pending_new_def totals_new_def volume_new_def sum_list_replicate)
  moreover have "\<forall>(i, ev) \<in> set hist. i < length (fst (tele_start n))" using assms(1) by (simp add: tele_start_def)
  ultimately have "total_of m (ps, s) = (\<Sum>(i, ev)\<leftarrow>hist. adds ev m) mod 2 ^ 64"
    using observe_all [of "tele_start n" hist m] assms(2,3) by simp
  then show ?thesis by (simp add: total_of_def)
qed

theorem telemetry_conserved_witness:
  "\<exists>ps s. fold observe_in [(0, Ev_Realloc 100 True), (1, Ev_Diag Trims 1), (1, Ev_Publish), (0, Ev_Realloc 20 False)] (tele_start 2) = (ps, s)
    \<and> (shared (M_Count Realloc_Copy_Bytes) s + (\<Sum>p\<leftarrow>ps. batched (M_Count Realloc_Copy_Bytes) p)) mod 2 ^ 64 = 120"
proof -
  let ?hist = "[(0, Ev_Realloc 100 True), (1, Ev_Diag Trims 1), (1, Ev_Publish), (0, Ev_Realloc 20 False)]"
  obtain ps s where e: "fold observe_in ?hist (tele_start 2) = (ps, s)" by (metis surj_pair)
  from telemetry_conserved [OF _ _ e, of "M_Count Realloc_Copy_Bytes"] have
    "(shared (M_Count Realloc_Copy_Bytes) s + (\<Sum>p\<leftarrow>ps. batched (M_Count Realloc_Copy_Bytes) p)) mod 2 ^ 64 = 120" by simp
  then show ?thesis using e by blast
qed

section \<open>How far behind\<close>

text \<open>The counters of single events that count towards the diagnostic batch.\<close>

definition UNIT :: "counter set" where
  "UNIT = {Trims, Flushes, Owner_Probes, Remote_Frees, Small_Refills, Medium_Refills, Big_Refills, Arena_Fallbacks, Zeroed_Calls}"

definition lag_ok :: "pending \<Rightarrow> bool" where
  "lag_ok p \<longleftrightarrow> (\<forall>c \<in> UNIT. pd_count p c \<le> pd_diag_ops p) \<and> pd_count p Realloc_Relocations \<le> pd_ops p
     \<and> pd_allocs p \<le> pd_ops p \<and> pd_frees p \<le> pd_ops p"

text \<open>Single events are noted one at a time, as the code does.\<close>

fun single :: "event \<Rightarrow> bool" where
  "single (Ev_Diag c n) \<longleftrightarrow> c \<in> set DRAINED - {Realloc_Relocations} \<and> (c \<in> UNIT \<longrightarrow> n = 1)"
| "single _ \<longleftrightarrow> True"

lemma drain_fields:
  "pd_ops (fst (drain d pv)) = pd_ops (fst pv)" "pd_diag_ops (fst (drain d pv)) = pd_diag_ops (fst pv)"
  "pd_allocs (fst (drain d pv)) = pd_allocs (fst pv)" "pd_frees (fst (drain d pv)) = pd_frees (fst pv)"
  "pd_count (fst (drain d pv)) = (pd_count (fst pv))(d := 0)"
  by (cases pv, auto simp: drain_def fun_eq_iff)+

lemma drains_fields:
  "pd_ops (fst (fold drain ds pv)) = pd_ops (fst pv)" "pd_diag_ops (fst (fold drain ds pv)) = pd_diag_ops (fst pv)"
  "pd_allocs (fst (fold drain ds pv)) = pd_allocs (fst pv)" "pd_frees (fst (fold drain ds pv)) = pd_frees (fst pv)"
  "c \<in> set ds \<Longrightarrow> pd_count (fst (fold drain ds pv)) c = 0" "pd_count (fst pv) c = 0 \<Longrightarrow> pd_count (fst (fold drain ds pv)) c = 0"
proof -
  have z: "pd_count (fst pv) c = 0 \<Longrightarrow> pd_count (fst (fold drain ds pv)) c = 0" for c ds pv
    by (induction ds arbitrary: pv) (simp_all add: drain_fields)
  show "pd_count (fst pv) c = 0 \<Longrightarrow> pd_count (fst (fold drain ds pv)) c = 0" by (rule z)
  show "c \<in> set ds \<Longrightarrow> pd_count (fst (fold drain ds pv)) c = 0"
  proof (induction ds arbitrary: pv)
    case (Cons d ds)
    then show ?case using z [of "drain d pv" c ds] by (cases "c = d") (simp_all add: drain_fields)
  qed simp
qed (induction ds arbitrary: pv; simp add: drain_fields)+

lemma UNIT_drained: "UNIT \<subseteq> set DRAINED" "Realloc_Relocations \<in> set DRAINED" "Realloc_Relocations \<notin> UNIT"
  by (simp_all add: UNIT_def DRAINED_def)

lemma published_lag:
  "pd_diag_ops (fst (publish_diagnostics s)) = 0" "pd_ops (fst (publish_diagnostics s)) = pd_ops (fst s)"
  "pd_allocs (fst (publish_diagnostics s)) = pd_allocs (fst s)" "pd_frees (fst (publish_diagnostics s)) = pd_frees (fst s)"
  "c \<in> set DRAINED \<Longrightarrow> pd_count (fst (publish_diagnostics s)) c = 0"
proof -
  obtain p v t where s: "s = (p, v, t)" by (metis surj_pair)
  obtain p1 v1 where f: "fold drain DRAINED (p, v) = (p1, v1)" by (metis surj_pair)
  note d = drains_fields(1-4) [where ds = DRAINED and pv = "(p, v)", unfolded f]
  note dc = drains_fields(5) [where ds = DRAINED and pv = "(p, v)" and c = c, unfolded f]
  show "pd_diag_ops (fst (publish_diagnostics s)) = 0" "pd_ops (fst (publish_diagnostics s)) = pd_ops (fst s)"
    "pd_allocs (fst (publish_diagnostics s)) = pd_allocs (fst s)" "pd_frees (fst (publish_diagnostics s)) = pd_frees (fst s)"
    using d(1,3,4) by (simp_all add: s publish_diagnostics_def f)
  show "c \<in> set DRAINED \<Longrightarrow> pd_count (fst (publish_diagnostics s)) c = 0" using dc by (simp add: s publish_diagnostics_def f)
qed

definition tight :: "pending \<Rightarrow> bool" where
  "tight p \<longleftrightarrow> lag_ok p \<and> pd_diag_ops p < DIAG_FLUSH_OPS \<and> pd_ops p < TELEMETRY_FLUSH_OPS"

lemma publish_diagnostics_lag:
  "lag_ok (fst (publish_diagnostics s)) \<longleftrightarrow> pd_allocs (fst s) \<le> pd_ops (fst s) \<and> pd_frees (fst s) \<le> pd_ops (fst s)"
proof -
  have "c \<in> UNIT \<Longrightarrow> pd_count (fst (publish_diagnostics s)) c = 0" for c
    by (rule published_lag(5)) (use UNIT_drained(1) in blast)
  moreover have "pd_count (fst (publish_diagnostics s)) Realloc_Relocations = 0"
    by (rule published_lag(5)) (rule UNIT_drained(2))
  ultimately show ?thesis by (auto simp: lag_ok_def published_lag)
qed

lemma publish_telemetry_lag:
  "pd_allocs (fst (publish_telemetry s)) = 0" "pd_frees (fst (publish_telemetry s)) = 0"
  "pd_count (fst (publish_telemetry s)) = pd_count (fst s)" "pd_diag_ops (fst (publish_telemetry s)) = pd_diag_ops (fst s)"
  by (simp_all add: publish_telemetry_def Let_def split: prod.splits)

lemma fst_publish: "fst (publish s) = (fst (publish_telemetry (publish_diagnostics s)))\<lparr>pd_ops := 0\<rparr>"
  by (simp add: publish_def split: prod.splits)

lemma publish_tight: "tight (fst (publish s))"
proof -
  have u: "c \<in> UNIT \<Longrightarrow> pd_count (fst (publish_diagnostics s)) c = 0" for c
    by (rule published_lag(5)) (use UNIT_drained(1) in blast)
  have r: "pd_count (fst (publish_diagnostics s)) Realloc_Relocations = 0"
    by (rule published_lag(5)) (rule UNIT_drained(2))
  show ?thesis
    by (simp add: tight_def lag_ok_def fst_publish const_simps publish_telemetry_lag published_lag(1) u r)
qed

text \<open>A tick of the diagnostic batch, and a tick of the operations batch.\<close>

lemma diag_tick_tight:
  assumes "pd_diag_ops (fst s) < DIAG_FLUSH_OPS" "pd_ops (fst s) < TELEMETRY_FLUSH_OPS"
    "lag_ok ((fst s)\<lparr>pd_diag_ops := pd_diag_ops (fst s) + 1\<rparr>)"
  shows "tight (fst (diag_tick s))"
proof (cases "DIAG_FLUSH_OPS \<le> pd_diag_ops (fst s) + 1")
  case True
  let ?s = "((fst s)\<lparr>pd_diag_ops := pd_diag_ops (fst s) + 1\<rparr>, snd s)"
  have "lag_ok (fst (publish_diagnostics ?s))"
    using assms(3) by (subst publish_diagnostics_lag) (simp add: lag_ok_def)
  then show ?thesis using True assms(2) by (simp add: diag_tick_def tight_def published_lag const_simps)
next
  case False
  then show ?thesis using assms by (simp add: diag_tick_def tight_def)
qed

lemma ops_check_tight:
  assumes "lag_ok (fst s)" "pd_diag_ops (fst s) < DIAG_FLUSH_OPS"
  shows "tight (fst (ops_check s))"
  using assms publish_tight by (simp add: ops_check_def tight_def)

lemma add_w_le: "add_w 64 a b \<le> a + b"
  by (simp add: add_w_def)

lemma note_diag_tight:
  assumes "tight (fst s)" "c \<noteq> Realloc_Relocations" "c \<in> UNIT \<Longrightarrow> n = 1"
  shows "tight (fst (note_diag c n s))"
proof -
  have u: "pd_count (fst s) d \<le> pd_diag_ops (fst s)" if "d \<in> UNIT" for d using that assms(1) by (simp add: tight_def lag_ok_def)
  have "pd_count (count_up c n (fst s)) d \<le> pd_diag_ops (fst s) + 1" if d: "d \<in> UNIT" for d
    using u [OF d] assms(3) d add_w_le [of "pd_count (fst s) c" 1] by (cases "d = c") (simp_all add: count_up_def)
  then have "lag_ok ((count_up c n (fst s))\<lparr>pd_diag_ops := pd_diag_ops (fst s) + 1\<rparr>)"
    using assms(1,2) by (simp add: tight_def lag_ok_def count_up_def)
  then show ?thesis
    using assms(1) unfolding note_diag_def by (intro diag_tick_tight) (simp_all add: tight_def count_up_def)
qed

lemma note_flush_tight: "tight (fst s) \<Longrightarrow> tight (fst (note_flush n s))"
  unfolding note_flush_def by (intro note_diag_tight) (simp_all add: UNIT_def)

lemma note_zeroed_tight:
  assumes "tight (fst s)"
  shows "tight (fst (note_zeroed n s))"
proof -
  have u: "pd_count (fst s) d \<le> pd_diag_ops (fst s)" if "d \<in> UNIT" for d using that assms by (simp add: tight_def lag_ok_def)
  have z: "Zeroed_Bytes \<notin> UNIT" by (simp add: UNIT_def)
  have "pd_count (count_up Zeroed_Bytes n (count_up Zeroed_Calls 1 (fst s))) d \<le> pd_diag_ops (fst s) + 1" if d: "d \<in> UNIT" for d
    using u [OF d] z d add_w_le [of "pd_count (fst s) Zeroed_Calls" 1] by (cases "d = Zeroed_Calls") (auto simp: count_up_def)
  then have "lag_ok ((count_up Zeroed_Bytes n (count_up Zeroed_Calls 1 (fst s)))\<lparr>pd_diag_ops := pd_diag_ops (fst s) + 1\<rparr>)"
    using assms by (simp add: tight_def lag_ok_def count_up_def)
  then show ?thesis
    using assms unfolding note_zeroed_def by (intro diag_tick_tight) (simp_all add: tight_def count_up_def)
qed

lemma note_realloc_tight:
  assumes "tight (fst s)"
  shows "tight (fst (note_realloc n b s))"
proof -
  have x: "Realloc_Promotions \<notin> UNIT" "Realloc_Copy_Bytes \<notin> UNIT" "Realloc_Relocations \<notin> UNIT" by (simp_all add: UNIT_def)
  have "add_w 64 (pd_count (fst s) Realloc_Relocations) 1 \<le> pd_ops (fst s) + 1"
    using assms add_w_le [of "pd_count (fst s) Realloc_Relocations" 1] by (simp add: tight_def lag_ok_def)
  then show ?thesis
    using assms x unfolding note_realloc_def Let_def
    by (intro ops_check_tight) (auto simp: tight_def lag_ok_def count_up_def)
qed

lemma note_alloc_tight: "tight (fst s) \<Longrightarrow> tight (fst (note_alloc t c s))"
  using add_w_le [of "pd_allocs (fst s)" 1] unfolding note_alloc_def Let_def
  by (intro ops_check_tight) (simp_all add: tight_def lag_ok_def)

lemma note_free_tight: "tight (fst s) \<Longrightarrow> tight (fst (note_free t c s))"
  using add_w_le [of "pd_frees (fst s)" 1] unfolding note_free_def Let_def
  by (intro ops_check_tight) (simp_all add: tight_def lag_ok_def)

lemma observe_tight:
  assumes "single ev" "tight (fst s)"
  shows "tight (fst (observe ev s))"
proof (cases ev)
  case (Ev_Diag c n)
  then show ?thesis using assms by (auto intro: note_diag_tight)
next
  case (Ev_Arena b)
  then show ?thesis using assms by (cases b) (auto simp: note_arena_event_def UNIT_def intro!: note_diag_tight)
next
  case (Ev_Parks n)
  then show ?thesis using assms by (auto simp: note_arena_parks_def UNIT_def intro!: note_diag_tight)
qed (use assms publish_tight in \<open>simp_all add: on_totals_def split_beta note_flush_tight note_zeroed_tight note_realloc_tight note_alloc_tight note_free_tight\<close>)

lemma observe_in_tight:
  assumes "\<forall>p \<in> set (fst s). tight p" "i < length (fst s)" "single ev"
  shows "\<forall>p \<in> set (fst (observe_in (i, ev) s)). tight p" "length (fst (observe_in (i, ev) s)) = length (fst s)"
proof -
  obtain p r where e: "observe ev (fst s ! i, snd s) = (p, r)" by (metis surj_pair)
  have "tight p" using observe_tight [OF assms(3), of "(fst s ! i, snd s)"] assms(1,2) by (simp add: e)
  then show "\<forall>p \<in> set (fst (observe_in (i, ev) s)). tight p"
    using assms(1) by (auto simp: observe_in_def e dest!: set_update_subset_insert [THEN subsetD])
  show "length (fst (observe_in (i, ev) s)) = length (fst s)" by (simp add: observe_in_def e)
qed

lemma observe_all_tight:
  "\<forall>p \<in> set (fst s). tight p \<Longrightarrow> \<forall>(i, ev) \<in> set hist. i < length (fst s) \<and> single ev
    \<Longrightarrow> \<forall>p \<in> set (fst (fold observe_in hist s)). tight p"
proof (induction hist arbitrary: s)
  case (Cons x hist)
  obtain i ev where x: "x = (i, ev)" by (metis surj_pair)
  have "i < length (fst s)" "single ev" using Cons.prems(2) x by auto
  note o = observe_in_tight [OF Cons.prems(1) this]
  have "\<forall>p \<in> set (fst (fold observe_in hist (observe_in (i, ev) s))). tight p"
    by (rule Cons.IH [OF o(1)]) (use Cons.prems(2) o(2) in auto)
  then show ?case by (simp add: x)
qed simp

text \<open>C40 (telemetry, bounded lag).  Whatever the threads have noted, what one of them still holds back is less than one
  batch: under 1024 of each event counted on the diagnostic cadence, and under 8192 allocations, frees and
  relocating reallocations, which are counted on the operations cadence.\<close>

theorem telemetry_lag_bounded:
  assumes "\<forall>(i, ev) \<in> set hist. i < n \<and> single ev" "fold observe_in hist (tele_start n) = (ps, s)" "p \<in> set ps"
  shows "pd_diag_ops p < 1024 \<and> pd_ops p < 8192 \<and> (\<forall>c. c \<notin> UNIT \<or> pd_count p c < 1024)
    \<and> pd_count p Realloc_Relocations < 8192 \<and> pd_allocs p < 8192 \<and> pd_frees p < 8192"
proof -
  have "tight pending_new" by (simp add: tight_def lag_ok_def pending_new_def volume_new_def const_simps)
  then have "\<forall>p \<in> set (fst (tele_start n)). tight p" by (simp add: tele_start_def)
  moreover have "\<forall>(i, ev) \<in> set hist. i < length (fst (tele_start n)) \<and> single ev"
    using assms(1) by (auto simp: tele_start_def)
  ultimately have "tight p" using observe_all_tight [of "tele_start n" hist] assms(2,3) by simp
  then have t: "lag_ok p" "pd_diag_ops p < 1024" "pd_ops p < 8192" by (simp_all add: tight_def const_simps)
  have "pd_count p c < 1024" if "c \<in> UNIT" for c
    using t(1,2) that unfolding lag_ok_def by (meson le_less_trans)
  then show ?thesis using t unfolding lag_ok_def by auto
qed

theorem telemetry_lag_bounded_witness:
  "\<exists>ps s. fold observe_in [(0, Ev_Diag Trims 1), (0, Ev_Realloc 20 False)] (tele_start 1) = (ps, s)
    \<and> ps \<noteq> [] \<and> pd_count (ps ! 0) Realloc_Relocations < 8192"
proof -
  let ?hist = "[(0, Ev_Diag Trims 1), (0, Ev_Realloc 20 False)]"
  obtain ps s where e: "fold observe_in ?hist (tele_start 1) = (ps, s)" by (metis surj_pair)
  have "length (fst (fold observe_in ?hist (tele_start 1))) = 1" by (simp add: tele_start_def observe_in_def split: prod.splits)
  then have l: "ps \<noteq> []" unfolding e by auto
  then have m: "ps ! 0 \<in> set ps" by simp
  have "pd_count (ps ! 0) Realloc_Relocations < 8192"
    using telemetry_lag_bounded [OF _ e m] by (simp add: UNIT_def DRAINED_def)
  then show ?thesis using e l by blast
qed

text \<open>A thread that only relocates may hold back 8191 of them: the relocations do not tick the diagnostic batch.\<close>

lemma relocations_wait:
  "k < 8192 \<Longrightarrow> (let (p, v, t) = (note_realloc n False ^^ k) (pending_new, volume_new, totals_new)
      in pd_count p Realloc_Relocations = k \<and> pd_ops p = k \<and> pd_diag_ops p = 0 \<and> v = volume_new \<and> t = totals_new)"
proof (induction k)
  case (Suc k)
  obtain p v t where e: "(note_realloc n False ^^ k) (pending_new, volume_new, totals_new) = (p, v, t)" by (metis surj_pair)
  have h: "pd_count p Realloc_Relocations = k" "pd_ops p = k" "pd_diag_ops p = 0" "v = volume_new" "t = totals_new"
    using Suc.IH Suc.prems unfolding e by simp_all
  have n: "(note_realloc n False ^^ Suc k) (pending_new, volume_new, totals_new) = note_realloc n False (p, v, t)"
    by (simp only: funpow.simps comp_def e)
  show ?case unfolding n using h Suc.prems by (simp add: note_realloc_def ops_check_def count_up_def add_w_def const_simps)
qed (simp add: pending_new_def volume_new_def)

text \<open>The columns of the counters have the names of the struct, in its order.\<close>

text \<open>Every column of the positional snapshot has the name its counter has in the struct
  of named fields, no two columns share a name, and there are as many as the code declares.\<close>

theorem volume_fields_agree:
  "volume_named v = zip VOLUME_FIELDS (volume_raw v) \<and> length (volume_raw v) = VOLUME_COUNT
    \<and> length VOLUME_FIELDS = VOLUME_COUNT \<and> distinct VOLUME_FIELDS"
proof (intro conjI)
  show "volume_named v = zip VOLUME_FIELDS (volume_raw v)" by (simp add: volume_named_def VOLUME_FIELDS_def volume_raw_def COUNTERS_def)
  show "length (volume_raw v) = VOLUME_COUNT" by (simp add: volume_raw_def COUNTERS_def VOLUME_COUNT_def)
  show "length VOLUME_FIELDS = VOLUME_COUNT" by (simp add: VOLUME_FIELDS_def VOLUME_COUNT_def)
  show "distinct VOLUME_FIELDS" by (simp add: VOLUME_FIELDS_def)
qed

text \<open>And no counter is left out of the list.\<close>

lemma counters_complete: "c \<in> set COUNTERS" "distinct COUNTERS"
  by (cases c; simp add: COUNTERS_def) (simp add: COUNTERS_def)

end
