(* ===== verification/Debug_Checks.thy ===== *)
theory Debug_Checks
  imports Dispatch_Tiers
begin

text \<open>
  The checks that a debug build makes on a pointer before it is freed (\<open>src/src/cache.rs\<close>, \<open>debug_validate_free\<close> and
  its two siblings for spans).  A check answers the message with which \<open>invalid\<close> aborts, or \<open>None\<close>.  The memory is
  the one of the class the block belongs to.  The walk down a free list is bounded by its count.
\<close>

section \<open>The checks\<close>

definition msg_outside :: string where "msg_outside = ''allox: dealloc of pointer outside allocator pages''"
definition msg_interior :: string where "msg_interior = ''allox: dealloc of misaligned interior pointer''"
definition msg_double :: string where "msg_double = ''allox: double free detected''"
definition msg_medium_null :: string where "msg_medium_null = ''allox: medium dealloc of null''"
definition msg_medium_outside :: string where "msg_medium_outside = ''allox: medium dealloc outside owning span''"
definition msg_medium_interior :: string where "msg_medium_interior = ''allox: medium dealloc of misaligned interior pointer''"
definition msg_medium_corrupt :: string where "msg_medium_corrupt = ''allox: medium dealloc through corrupt sub-page''"
definition msg_big_null :: string where "msg_big_null = ''allox: big dealloc of null''"
definition msg_big_outside :: string where "msg_big_outside = ''allox: big dealloc outside owning span''"
definition msg_big_interior :: string where "msg_big_interior = ''allox: big dealloc of misaligned interior pointer''"

fun on_page_list :: "cells \<Rightarrow> addr \<Rightarrow> addr \<Rightarrow> nat \<Rightarrow> bool" where
  "on_page_list m p cur 0 \<longleftrightarrow> False"
| "on_page_list m p cur (Suc steps) \<longleftrightarrow> cur = p \<or> on_page_list m p (m cur) steps"

definition debug_validate_free :: "page_mem \<Rightarrow> addr \<Rightarrow> string option" where
  "debug_validate_free m p =
     (if p = null then None
      else
        let base = mask_down PAGE_SIZE p; h = hdr_at m base in
        if h_magic h \<noteq> PAGE_MAGIC then Some msg_outside
        else
          let block_size = CLASSES ! h_class h; offset = p - base in
          if offset < HEADER_SIZE \<or> (offset - HEADER_SIZE) mod block_size \<noteq> 0 then Some msg_interior
          else if on_page_list (cells_of m) p (free_head h) (free_count h) then Some msg_double
          else None)"

text \<open>The walks of the span checks stop at a null link as well.\<close>

fun on_span_list :: "cells \<Rightarrow> addr \<Rightarrow> addr \<Rightarrow> nat \<Rightarrow> bool" where
  "on_span_list m p cur 0 \<longleftrightarrow> False"
| "on_span_list m p cur (Suc steps) \<longleftrightarrow> cur = p \<or> cur \<noteq> null \<and> on_span_list m p (m cur) steps"

definition debug_validate_free_medium :: "(addr \<Rightarrow> nat \<Rightarrow> bool) \<Rightarrow> span_mem \<Rightarrow> addr \<Rightarrow> addr \<Rightarrow> string option" where
  "debug_validate_free_medium arena_has m p span =
     (if p = null \<or> span = null then Some msg_medium_null
      else
        let h = hdr_at m span; block_size = MEDIUM_CLASSES ! h_class h; base = span; n = npages h in
        if p \<le> base \<or> base + n * PAGE_SIZE \<le> p then Some msg_medium_outside
        else
          let rel = (p - base) div PAGE_SIZE; chunk = base + rel * PAGE_SIZE;
              arena_owned = arena_has base (n * PAGE_SIZE);
              start = (if arena_owned then base + SPAN_MASTER_SIZE
                       else if rel = 0 then chunk + SPAN_MASTER_SIZE else chunk + SPAN_SUB_SIZE);
              end = (if arena_owned then base + n * PAGE_SIZE else chunk + PAGE_SIZE)
          in if \<not> arena_owned \<and> rel \<noteq> 0 \<and> cells_of m chunk \<noteq> SPAN_SUBMAGIC then Some msg_medium_corrupt
             else if p < start \<or> end < p + block_size then Some msg_medium_interior
             else if (p - start) mod block_size \<noteq> 0 then Some msg_medium_interior
             else if on_span_list (cells_of m) p (free_head h) (free_count h) then Some msg_double
             else None)"

definition debug_validate_free_big :: "span_mem \<Rightarrow> addr \<Rightarrow> addr \<Rightarrow> string option" where
  "debug_validate_free_big m p span =
     (if p = null \<or> span = null then Some msg_big_null
      else
        let h = hdr_at m span; block_size = BIG_CLASSES ! h_class h; base = span; n = npages h in
        if p \<le> base \<or> base + n * PAGE_SIZE \<le> p then Some msg_big_outside
        else
          let start = base + BIG_MASTER_SIZE; end = base + n * PAGE_SIZE in
          if p < start \<or> end < p + block_size then Some msg_big_interior
          else if (p - start) mod block_size \<noteq> 0 then Some msg_big_interior
          else if on_span_list (cells_of m) p (free_head h) (free_count h) then Some msg_double
          else None)"

section \<open>Walks\<close>

lemma on_page_list_chain: "chain m cur fl \<Longrightarrow> on_page_list m p cur (length fl) \<longleftrightarrow> p \<in> set fl"
  by (induction fl arbitrary: cur) auto

lemma on_span_list_chain: "chain m cur fl \<Longrightarrow> on_span_list m p cur (length fl) \<longleftrightarrow> p \<in> set fl"
  by (induction fl arbitrary: cur) auto

section \<open>Small pages\<close>

text \<open>The address after the last block of a page, if the page has room left there.\<close>

definition page_tail :: "addr \<Rightarrow> page_header \<Rightarrow> addr" where
  "page_tail q h = q + HEADER_SIZE + capacity h * CLASSES ! h_class h"

lemma small_offsets:
  assumes "page_ok m q h fl" "page_of p = q" "0 < p"
  shows "(\<not> (p - q < HEADER_SIZE \<or> (p - q - HEADER_SIZE) mod CLASSES ! h_class h \<noteq> 0)) \<longleftrightarrow> p \<in> slots q h \<or> p = page_tail q h"
proof -
  let ?bs = "CLASSES ! h_class h"
  have c: "h_class h < NUM_CLASSES" using assms(1) by (simp add: page_ok_def)
  have b: "0 < ?bs" by (rule class_pos [OF c])
  have q: "q \<le> p" "p < q + PAGE_SIZE"
    using mask_down_le [of PAGE_SIZE p] mask_down_less [of PAGE_SIZE p] assms(2) by (auto simp: page_of_def PAGE_SIZE_def)
  show ?thesis
  proof
    assume h: "\<not> (p - q < HEADER_SIZE \<or> (p - q - HEADER_SIZE) mod ?bs \<noteq> 0)"
    define i where "i = (p - q - HEADER_SIZE) div ?bs"
    have "(p - q - HEADER_SIZE) = i * ?bs" using h by (simp add: i_def mult.commute mod_eq_0_iff_dvd)
    then have p: "p = q + HEADER_SIZE + i * ?bs" using h q(1) by simp
    have "i * ?bs \<le> PAGE_SIZE - HEADER_SIZE" using p q(2) by simp
    then have "i \<le> capacity h" using b by (simp add: capacity_def less_eq_div_iff_mult_less_eq)
    then show "p \<in> slots q h \<or> p = page_tail q h"
      using p by (cases "i = capacity h") (auto simp: slots_def set_blocks_at page_tail_def)
  next
    assume "p \<in> slots q h \<or> p = page_tail q h"
    then obtain i where "p = q + HEADER_SIZE + i * ?bs" by (auto simp: slots_def set_blocks_at page_tail_def)
    then show "\<not> (p - q < HEADER_SIZE \<or> (p - q - HEADER_SIZE) mod ?bs \<noteq> 0)" by simp
  qed
qed

lemma debug_small_cases:
  assumes "page_ok (cells_of m) q (hdr_at m q) fl" "page_of p = q" "0 < p" "h_magic (hdr_at m q) = PAGE_MAGIC"
  shows "debug_validate_free m p = (if p \<in> set fl then Some msg_double
    else if p \<in> slots q (hdr_at m q) \<or> p = page_tail q (hdr_at m q) then None else Some msg_interior)"
proof -
  let ?h = "hdr_at m q"
  have c: "chain (cells_of m) (free_head ?h) fl" "length fl = free_count ?h" using assms(1) by (simp_all add: page_ok_def)
  have w: "on_page_list (cells_of m) p (free_head ?h) (free_count ?h) \<longleftrightarrow> p \<in> set fl"
    using on_page_list_chain [OF c(1)] c(2) by simp
  have "set fl \<subseteq> slots q ?h" using slots_split(3) [OF assms(1)] by (auto simp: avail_def)
  then show ?thesis
    using small_offsets [OF assms(1-3)] assms(2-4) w by (auto simp: debug_validate_free_def Let_def page_of_def)
qed

section \<open>Spans\<close>

lemma span_store_block:
  assumes "span_store T pages cls layout span_at h lv d" "p \<in> lv"
  shows "\<exists>q fl. span_at p = q \<and> q \<noteq> null \<and> span_ok (words h) q (hdr_at (fst (fst h)) q) (layout q) fl
    \<and> npages (hdr_at (fst (fst h)) q) = pages \<and> h_class (hdr_at (fst (fst h)) q) = cls \<and> p \<in> set (layout q) \<and> p \<notin> set fl"
proof -
  obtain pl el full fl where s: "span_class_inv T pages cls layout (fst (fst h)) (snd (fst h)) pl el full fl d"
    "lv = span_live layout fl (set pl \<union> set el \<union> full)"
    "\<forall>b \<in> lv. span_at b \<in> class_spans (snd (fst h)) pl el full \<and> b \<in> span_range (span_at b) pages"
    using assms(1) unfolding span_store_def by blast
  obtain q where q: "q \<in> set pl \<union> set el \<union> full" "p \<in> set (layout q)" "p \<notin> set (fl q)"
    using assms(2) s(2) by (auto simp: span_live_def)
  have i: "span_inv pages cls layout (fst (fst h)) fl d q" using s(1) q(1) unfolding span_class_inv_def by blast
  then have o: "span_ok (words h) q (hdr_at (fst (fst h)) q) (layout q) (fl q)" "npages (hdr_at (fst (fst h)) q) = pages"
    "h_class (hdr_at (fst (fst h)) q) = cls" by (simp_all add: span_inv_def words_def)
  have r: "p \<in> span_range q pages" using o(1,2) q(2) by (auto simp: span_ok_def)
  have a: "apart pages (class_spans (snd (fst h)) pl el full)"
    using s(1) by (simp add: span_class_inv_def class_spans_def)
  have "span_at p = q"
  proof (rule ccontr)
    assume "span_at p \<noteq> q"
    moreover have "q \<in> class_spans (snd (fst h)) pl el full" using q(1) by (auto simp: class_spans_def)
    ultimately have "span_range (span_at p) pages \<inter> span_range q pages = {}"
      using a s(3) assms(2) unfolding apart_def by blast
    then show False using r s(3) assms(2) by blast
  qed
  moreover have "q \<noteq> null" using o(1) by (simp add: span_ok_def)
  ultimately show ?thesis using o q(2,3) by blast
qed

lemma on_span_list_free:
  assumes "span_ok m q h bl fl"
  shows "on_span_list m p (free_head h) (free_count h) \<longleftrightarrow> p \<in> set fl"
proof -
  have "chain m (free_head h) fl" "length fl = free_count h" using assms by (simp_all add: span_ok_def)
  then show ?thesis using on_span_list_chain [of m "free_head h" fl p] by simp
qed

lemma blocks_at_offset: "x \<in> set (blocks_at s b n) \<Longrightarrow> (x - s) mod b = 0"
  by (auto simp: set_blocks_at)

lemma debug_big_accepts:
  assumes "c < NUM_BIG" "span_ok (cells_of m) q (hdr_at m q) (big_layout c q) fl" "npages (hdr_at m q) = big_pages c"
    "h_class (hdr_at m q) = c" "p \<in> set (big_layout c q)"
  shows "debug_validate_free_big m p q = (if p \<in> set fl then Some msg_double else None)"
proof -
  have b: "p \<in> set (blocks_at (q + BIG_MASTER_SIZE) (BIG_CLASSES ! c) (carve_count BIG_MASTER_SIZE (BIG_CLASSES ! c) (big_pages c)))"
    using assms(5) by (simp add: big_layout_def carve_count_def)
  have m: "BIG_MASTER_SIZE \<le> big_pages c * PAGE_SIZE" using big_pages_bounds(1) [OF assms(1)] by (simp add: const_simps)
  note f = carve_fits [OF b m] blocks_at_offset [OF b]
  have "0 < q" "0 < BIG_CLASSES ! c" using assms(2) BIG_CLASSES_bounds [OF assms(1)] by (simp_all add: span_ok_def)
  then show ?thesis
    using f assms(3,4) on_span_list_free [OF assms(2)]
    by (simp add: debug_validate_free_big_def Let_def const_simps)
qed

text \<open>The sub-pages of a span outside the arena carry their magic.\<close>

definition subs_marked :: "span_mem \<Rightarrow> addr \<Rightarrow> bool" where
  "subs_marked m q \<longleftrightarrow> (\<forall>i < npages (hdr_at m q). 0 < i \<longrightarrow> cells_of m (q + i * PAGE_SIZE) = SPAN_SUBMAGIC)"

lemma debug_medium_accepts:
  assumes "c < NUM_MEDIUM" "span_ok (cells_of m) q (hdr_at m q) (medium_layout arena_has c q) fl"
    "npages (hdr_at m q) = medium_pages c" "h_class (hdr_at m q) = c" "p \<in> set (medium_layout arena_has c q)"
    "arena_has q (medium_pages c * PAGE_SIZE) \<or> subs_marked m q"
  shows "debug_validate_free_medium arena_has m p q = (if p \<in> set fl then Some msg_double else None)"
proof -
  let ?bs = "MEDIUM_CLASSES ! c" and ?n = "medium_pages c"
  have q: "0 < q" "0 < ?bs" using assms(2) MEDIUM_CLASSES_bounds [OF assms(1)] by (simp_all add: span_ok_def)
  have n: "3 \<le> ?n" using medium_pages_bounds(2) [OF assms(1)] .
  have w: "on_span_list (cells_of m) p (free_head (hdr_at m q)) (free_count (hdr_at m q)) \<longleftrightarrow> p \<in> set fl"
    by (rule on_span_list_free [OF assms(2)])
  show ?thesis
  proof (cases "arena_has q (?n * PAGE_SIZE)")
    case True
    have b: "p \<in> set (blocks_at (q + SPAN_MASTER_SIZE) ?bs (carve_count SPAN_MASTER_SIZE ?bs ?n))"
      using assms(5) True n by (simp add: medium_layout_def carve_count_def medium_capacity_for_def MEDIUM_CHUNK_RESERVE_def SPAN_MASTER_SIZE_def)
    have m: "SPAN_MASTER_SIZE \<le> ?n * PAGE_SIZE" using n by (simp add: const_simps)
    note f = carve_fits [OF b m] blocks_at_offset [OF b]
    then show ?thesis
      using q n assms(3,4) w True by (simp add: debug_validate_free_medium_def Let_def const_simps)
  next
    case False
    obtain i where i: "i < ?n" "p \<in> set (chunk_blocks q ?bs i)"
      using assms(5) False by (auto simp: medium_layout_def legacy_blocks_mem)
    note f = chunk_blocks_inside [OF i(2)] blocks_at_offset [OF i(2) [unfolded chunk_blocks_def]]
    have r: "(p - q) div PAGE_SIZE = i"
    proof -
      have "i * PAGE_SIZE \<le> p - q" "p - q < (i + 1) * PAGE_SIZE" using f(1,2) q by (simp_all add: add.commute)
      then show ?thesis by (intro div_nat_eqI) (simp_all add: mult.commute)
    qed
    have top: "(i + 1) * PAGE_SIZE \<le> ?n * PAGE_SIZE" using i(1) by (intro mult_le_mono1) simp
    have "0 < chunk_reserve i" by (simp add: chunk_reserve_def const_simps)
    then have out: "q < p" "p < q + ?n * PAGE_SIZE" using f(1,2) top q by linarith+
    have mg: "i \<noteq> 0 \<Longrightarrow> cells_of m (q + i * PAGE_SIZE) = SPAN_SUBMAGIC"
      using assms(3,6) False i(1) by (simp add: subs_marked_def)
    have e: "q + i * PAGE_SIZE + PAGE_SIZE = q + (i + 1) * PAGE_SIZE" by simp
    show ?thesis
      using q out assms(3,4) w False r mg f
      by (simp add: debug_validate_free_medium_def Let_def chunk_reserve_def split: if_splits)
  qed
qed

section \<open>Blocks of the program\<close>

text \<open>The check that goes with a tier, and the magics it relies on: no invariant of the allocator protects them from
  a program that writes past its blocks.\<close>

fun debug_verdict :: "cache_env \<Rightarrow> globals \<Rightarrow> tier \<Rightarrow> nat \<Rightarrow> addr \<Rightarrow> string option" where
  "debug_verdict e g Small c p = debug_validate_free (fst (fst (gl_small g ! c))) p"
| "debug_verdict e g Medium c p = debug_validate_free_medium (ce_in_arena e) (fst (fst (gl_medium g ! c))) p (ce_span_at e p)"
| "debug_verdict e g Big c p = debug_validate_free_big (fst (fst (gl_big g ! c))) p (ce_big_at e p)"

fun magics_intact :: "cache_env \<Rightarrow> globals \<Rightarrow> tier \<Rightarrow> nat \<Rightarrow> addr \<Rightarrow> bool" where
  "magics_intact e g Small c p \<longleftrightarrow> h_magic (hdr_at (fst (fst (gl_small g ! c))) (page_of p)) = PAGE_MAGIC"
| "magics_intact e g Medium c p \<longleftrightarrow> ce_in_arena e (ce_span_at e p) (medium_pages c * PAGE_SIZE) \<or> subs_marked (fst (fst (gl_medium g ! c))) (ce_span_at e p)"
| "magics_intact e g Big c p \<longleftrightarrow> True"

lemma small_store_accepts:
  assumes "small_store purge c h lv d" "p \<in> lv" "h_magic (hdr_at (fst (fst h)) (page_of p)) = PAGE_MAGIC"
  shows "debug_validate_free (fst (fst h)) p = None"
proof -
  obtain pl el full fl where s: "class_inv c (fst (fst h)) (snd (fst h)) pl el full fl d"
    "lv = class_live (fst (fst h)) fl (set pl \<union> set el \<union> full)" using assms(1) unfolding small_store_def by blast
  obtain q where q: "q \<in> set pl \<union> set el \<union> full" "p \<in> live q (hdr_at (fst (fst h)) q) (fl q)"
    using assms(2) s(2) by (auto simp: class_live_def)
  have o: "page_ok (cells_of (fst (fst h))) q (hdr_at (fst (fst h)) q) (fl q)"
    using s(1) q(1) unfolding class_inv_def page_inv_def by blast
  have k: "h_class (hdr_at (fst (fst h)) q) < NUM_CLASSES" "PAGE_SIZE dvd q" using o by (simp_all add: page_ok_def)
  have l: "p \<in> slots q (hdr_at (fst (fst h)) q)" "p \<notin> set (fl q)" using q(2) by (auto simp: live_def avail_def)
  have p: "page_of p = q" "q < p" using slots_page_of [OF k l(1)] slots_inside(1) [OF k(1) l(1)] by simp_all
  have "0 < p" using p(2) by linarith
  moreover have "h_magic (hdr_at (fst (fst h)) q) = PAGE_MAGIC" using assms(3) p(1) by simp
  ultimately show ?thesis using debug_small_cases [OF o p(1)] l by simp
qed


lemma held_state_page: "fst (fst (gl_small (snd held_state) ! 45)) = one_page_mem" "page_of 65584 = 65536"
  by (simp_all add: held_state_def globals_new_def const_simps page_of_def mask_down_def)


text \<open>C38 (debug checks, double free).  For an address in a page of the small tier the check answers exactly this: a
  block on the page's free list is a double free, any other block of the page passes, and so does the address just
  past the last block; everything else is an interior pointer.\<close>

theorem debug_free_exact:
  assumes "page_ok (cells_of m) q (hdr_at m q) fl" "page_of p = q" "0 < p" "h_magic (hdr_at m q) = PAGE_MAGIC"
  shows "debug_validate_free m p = (if p \<in> set fl then Some msg_double
    else if p \<in> slots q (hdr_at m q) \<or> p = q + HEADER_SIZE + capacity (hdr_at m q) * CLASSES ! h_class (hdr_at m q) then None
    else Some msg_interior)"
  using debug_small_cases [OF assms] by (simp add: page_tail_def)

theorem debug_free_exact_witness:
  "debug_validate_free one_page_mem 81969 = Some msg_interior"
proof -
  have ok: "page_ok (cells_of one_page_mem) 65536 (hdr_at one_page_mem 65536) []"
    using one_page_inv(1) by (simp add: class_inv_def page_inv_def)
  have h: "h_class (hdr_at one_page_mem 65536) = 45" "h_magic (hdr_at one_page_mem 65536) = PAGE_MAGIC"
    by (simp_all add: one_page_mem_def one_page_header_def page_init_def)
  have cap: "capacity (hdr_at one_page_mem 65536) = 3" "CLASSES ! 45 = 16384"
    by (simp_all add: capacity_def h CLASSES_eq const_simps)
  have "slots 65536 (hdr_at one_page_mem 65536) = {65584, 81968, 98352}"
    by (simp add: slots_def cap h blocks_at_few const_simps)
  then show ?thesis
    using debug_free_exact [OF ok, of 81969] h cap by (simp add: page_of_def mask_down_def const_simps)
qed

text \<open>Where a page has room after its last block, that address is accepted although no block begins there: the
  check has a lower bound only, while the checks of the spans have both.\<close>

definition tail_page :: page_mem where
  "tail_page = \<lparr> cells_of = (\<lambda>_. 0), hdrs_of = (\<lambda>_. page_init 2) \<rparr>"

lemma tail_is_accepted:
  "debug_validate_free tail_page 131056 = None \<and> page_of 131056 = 65536 \<and> 131056 + CLASSES ! 2 > 65536 + PAGE_SIZE"
  by (simp add: debug_validate_free_def tail_page_def page_init_def Let_def mask_down_def page_of_def CLASSES_eq const_simps)

text \<open>A block in a cache's bin is on no list of the heap: freeing it again is not seen.  So is a block in the hands of
  a thread; the two are one case for the heap.\<close>

lemma cached_double_free_unseen:
  assumes "h_magic (hdr_at (fst (fst h)) (page_of p)) = PAGE_MAGIC"
    "bin_holds (words h) lv D b xs" "small_st e c h lv d" "p \<in> set xs"
  shows "debug_validate_free (fst (fst h)) p = None"
proof -
  have "p \<in> lv" using assms(2,4) by (auto simp: bin_holds_def)
  then show ?thesis by (rule small_store_accepts [OF assms(3) _ assms(1)])
qed

end
